(* ===== verification/Std_String.thy ===== *)
theory Std_String
  imports Prelude
begin

text \<open>
  The operations of \<open>std::string\<close> and \<open>std::map\<close> the text-handling components call, over
  character lists and over association lists sorted by key, with their laws.
\<close>

section \<open>Searching a string\<close>

text \<open>The first position from \<open>pos\<close> on whose character satisfies \<open>P\<close>; \<open>None\<close> is \<open>npos\<close>.\<close>

fun index_of :: "(char \<Rightarrow> bool) \<Rightarrow> string \<Rightarrow> nat option" where
  "index_of P [] = None"
| "index_of P (c # s) = (if P c then Some 0 else map_option Suc (index_of P s))"

definition find_if_from :: "(char \<Rightarrow> bool) \<Rightarrow> string \<Rightarrow> nat \<Rightarrow> nat option" where
  "find_if_from P s pos = map_option ((+) pos) (index_of P (drop pos s))"

definition find_first_of :: "string \<Rightarrow> string \<Rightarrow> nat \<Rightarrow> nat option" where
  "find_first_of s cs pos = find_if_from (\<lambda>c. c \<in> set cs) s pos"

definition find_char :: "string \<Rightarrow> char \<Rightarrow> nat \<Rightarrow> nat option" where
  "find_char s c pos = find_if_from ((=) c) s pos"

fun is_prefix :: "string \<Rightarrow> string \<Rightarrow> bool" where
  "is_prefix [] s = True"
| "is_prefix (c # p) [] = False"
| "is_prefix (c # p) (d # s) \<longleftrightarrow> c = d \<and> is_prefix p s"

fun index_str :: "string \<Rightarrow> string \<Rightarrow> nat option" where
  "index_str p [] = (if p = [] then Some 0 else None)"
| "index_str p (c # s) = (if is_prefix p (c # s) then Some 0 else map_option Suc (index_str p s))"

definition find_str :: "string \<Rightarrow> string \<Rightarrow> nat \<Rightarrow> nat option" where
  "find_str s p pos = (if pos \<le> length s then map_option ((+) pos) (index_str p (drop pos s)) else None)"

text \<open>\<open>size_t\<close> subtraction wraps.\<close>

definition size_sub :: "nat \<Rightarrow> nat \<Rightarrow> nat" where
  "size_sub a b = (if b \<le> a then a - b else 2 ^ 64 - (b - a))"

text \<open>\<open>substr\<close> throws when it starts behind the end.\<close>

definition substr :: "string \<Rightarrow> nat \<Rightarrow> nat \<Rightarrow> string result" where
  "substr s pos n = (if pos \<le> length s then Inr (take n (drop pos s)) else Inl (Thrown ''std::out_of_range''))"

definition substr_from :: "string \<Rightarrow> nat \<Rightarrow> string result" where
  "substr_from s pos = (if pos \<le> length s then Inr (drop pos s) else Inl (Thrown ''std::out_of_range''))"

lemma index_of_Some:
  "index_of P s = Some i \<longleftrightarrow> i < length s \<and> P (s ! i) \<and> (\<forall>j<i. \<not> P (s ! j))"
proof (induction s arbitrary: i)
  case (Cons c s)
  show ?case
  proof (cases i)
    case 0
    then show ?thesis by auto
  next
    case (Suc k)
    then show ?thesis by (auto simp: Cons.IH All_less_Suc2)
  qed
qed simp

lemma index_of_None: "index_of P s = None \<longleftrightarrow> list_all (\<lambda>c. \<not> P c) s"
  by (induction s) auto

lemma index_of_append:
  "list_all (\<lambda>c. \<not> P c) s \<Longrightarrow> index_of P (s @ t) = map_option ((+) (length s)) (index_of P t)"
proof (induction s)
  case Nil
  then show ?case by (cases "index_of P t") simp_all
next
  case (Cons c s)
  then show ?case by (cases "index_of P t") simp_all
qed

lemma index_of_first: "list_all (\<lambda>c. \<not> P c) s \<Longrightarrow> P d \<Longrightarrow> index_of P (s @ d # t) = Some (length s)"
  by (simp add: index_of_append)

text \<open>A string is cut at the first such character.\<close>

lemma index_of_cut:
  assumes "index_of P s = Some i"
  shows "s = take i s @ s ! i # drop (Suc i) s" "list_all (\<lambda>c. \<not> P c) (take i s)" "P (s ! i)" "i < length s"
  using assms by (auto simp: index_of_Some list_all_length id_take_nth_drop)

lemma find_if_from_Some:
  "find_if_from P s pos = Some p \<Longrightarrow> pos \<le> p \<and> p < length s"
  by (auto simp: find_if_from_def dest!: index_of_cut(4))

lemma is_prefix_iff: "is_prefix p s \<longleftrightarrow> (\<exists>t. s = p @ t)"
  by (induction p s rule: is_prefix.induct) auto

lemma is_prefix_take: "is_prefix p s \<longleftrightarrow> take (length p) s = p"
  by (induction p s rule: is_prefix.induct) auto

section \<open>\<open>std::map\<close>\<close>

fun map_set :: "'k::linorder \<Rightarrow> 'v \<Rightarrow> ('k \<times> 'v) list \<Rightarrow> ('k \<times> 'v) list" where
  "map_set k v [] = [(k, v)]"
| "map_set k v ((k', v') # m) =
     (if k < k' then (k, v) # (k', v') # m
      else if k = k' then (k, v) # m else (k', v') # map_set k v m)"

text \<open>\<open>insert\<close> keeps the value of a key that is there.\<close>

definition map_insert :: "'k::linorder \<Rightarrow> 'v \<Rightarrow> ('k \<times> 'v) list \<Rightarrow> ('k \<times> 'v) list" where
  "map_insert k v m = (if map_of m k = None then map_set k v m else m)"

definition map_insert_all :: "('k::linorder \<times> 'v) list \<Rightarrow> ('k \<times> 'v) list \<Rightarrow> ('k \<times> 'v) list" where
  "map_insert_all new m = fold (\<lambda>(k, v). map_insert k v) new m"

abbreviation sorted_map :: "('k::linorder \<times> 'v) list \<Rightarrow> bool" where
  "sorted_map m \<equiv> sorted_wrt (<) (List.map fst m)"

lemma map_of_map_set: "map_of (map_set k v m) = (map_of m)(k \<mapsto> v)"
  by (induction k v m rule: map_set.induct) (auto simp: fun_eq_iff)

lemma keys_map_set: "fst ` set (map_set k v m) = insert k (fst ` set m)"
  by (induction k v m rule: map_set.induct) auto

lemma map_set_keys: "x \<in> set (List.map fst (map_set k v m)) \<longleftrightarrow> x = k \<or> x \<in> set (List.map fst m)"
  using keys_map_set[of k v m] by (simp add: set_eq_iff)

lemma sorted_map_set: "sorted_map m \<Longrightarrow> sorted_map (map_set k v m)"
proof (induction k v m rule: map_set.induct)
  case (2 k v k' v' m)
  then have m: "sorted_map m" "\<And>x. x \<in> set (List.map fst m) \<Longrightarrow> k' < x" by auto
  consider "k < k'" | "k = k'" | "k' < k" by (rule linorder_cases)
  then show ?case
  proof cases
    case 1
    then have "k < x" if "x \<in> set (List.map fst m)" for x using m(2)[OF that] by (rule less_trans)
    with 1 m show ?thesis by auto
  next
    case 3
    then have k: "\<not> k < k'" "k \<noteq> k'" by auto
    then have "sorted_map (map_set k v m)" using "2.IH" m(1) by blast
    moreover have "k' < x" if "x \<in> set (List.map fst (map_set k v m))" for x
      using that m(2) 3 unfolding map_set_keys by blast
    ultimately show ?thesis using k by simp
  qed (use m in auto)
qed simp

lemma map_set_last: "list_all (\<lambda>(k', _). k' < k) m \<Longrightarrow> map_set k v m = m @ [(k, v)]"
  by (induction m) auto

lemma sorted_map_insert: "sorted_map m \<Longrightarrow> sorted_map (map_insert k v m)"
  by (simp add: map_insert_def sorted_map_set)

lemma map_of_map_insert: "map_of (map_insert k v m) x = (if x = k \<and> map_of m k = None then Some v else map_of m x)"
  by (auto simp: map_insert_def map_of_map_set)

lemma map_of_insert_all:
  "map_of (map_insert_all new m) x = (case map_of m x of Some v \<Rightarrow> Some v | None \<Rightarrow> map_of new x)"
proof (induction new arbitrary: m)
  case Nil
  then show ?case by (simp add: map_insert_all_def split: option.split)
next
  case (Cons kv new)
  obtain k v where kv: "kv = (k, v)" by (meson surj_pair)
  have "map_insert_all (kv # new) m = map_insert_all new (map_insert k v m)"
    by (simp add: map_insert_all_def kv)
  then show ?case
    by (cases "map_of m x"; cases "map_of m k") (auto simp: Cons.IH map_of_map_insert kv split: option.splits)
qed

lemma sorted_insert_all: "sorted_map m \<Longrightarrow> sorted_map (map_insert_all new m)"
  unfolding map_insert_all_def
  by (induction new arbitrary: m) (auto simp: sorted_map_insert split: prod.split)

text \<open>Sorted maps are equal when they have the same entries.\<close>

lemma sorted_map_eq:
  assumes "sorted_map m" "sorted_map m'" "map_of m = map_of m'"
  shows "m = m'"
proof -
  have d: "distinct (List.map fst n)" if "sorted_map n" for n :: "('a \<times> 'b) list"
    using that strict_sorted_iff by blast
  have "set m = set m'"
    using map_of_eq_Some_iff[OF d[OF assms(1)]] map_of_eq_Some_iff[OF d[OF assms(2)]] assms(3)
    by (metis (no_types, opaque_lifting) subrelI subset_antisym)
  moreover from this have "List.map fst m = List.map fst m'"
    using assms(1,2) by (metis list.set_map strict_sorted_equal)
  moreover have "n = List.map (\<lambda>k. (k, the (map_of n k))) (List.map fst n)" if "sorted_map n" for n :: "('a \<times> 'b) list"
  proof (rule nth_equalityI)
    fix i assume "i < length n"
    moreover obtain a b where "n ! i = (a, b)" by (meson surj_pair)
    ultimately show "n ! i = List.map (\<lambda>k. (k, the (map_of n k))) (List.map fst n) ! i"
      using map_of_is_SomeI[OF d[OF that], of a b] nth_mem[of i n] by simp
  qed simp
  ultimately show ?thesis using assms by metis
qed

end
