(* ===== verification/Common.thy ===== *)
theory Common
  imports Std_String
begin

text \<open>
  \<open>TC_Common\<close> (tcinclude/tc_common.cpp, tc_common.h): trimming, case, printing and parsing of
  numbers, splitting, hexadecimal dumps, replacement and period patterns. Printing and
  parsing are inverse, splitting agrees with a structural definition, and the replacement
  loops end exactly when no search string is empty.
\<close>

section \<open>Trimming and case\<close>

definition blanks :: string where
  "blanks = [CHR '' '', CHR 0x0D, CHR 0x0A, CHR 0x09]"

definition trimleft :: "string \<Rightarrow> string \<Rightarrow> bool \<Rightarrow> string" where
  "trimleft sStr s bChar =
     (if sStr = [] then sStr
      else if \<not> bChar
      then (if length sStr < length s then sStr
            else if take (length s) sStr = s then drop (length s) sStr else sStr)
      else dropWhile (\<lambda>c. c \<in> set s) sStr)"

definition trimright :: "string \<Rightarrow> string \<Rightarrow> bool \<Rightarrow> string" where
  "trimright sStr s bChar =
     (if sStr = [] then sStr
      else if \<not> bChar
      then (if length sStr < length s then sStr
            else if drop (length sStr - length s) sStr = s then take (length sStr - length s) sStr else sStr)
      else rev (dropWhile (\<lambda>c. c \<in> set s) (rev sStr)))"

definition trim :: "string \<Rightarrow> string \<Rightarrow> bool \<Rightarrow> string" where
  "trim sStr s bChar =
     (if sStr = [] then sStr
      else if \<not> bChar then trimright (trimleft sStr s False) s False
      else trimright (trimleft sStr s True) s True)"

text \<open>\<open>tolower\<close> and \<open>toupper\<close> of the C locale.\<close>

definition to_lower :: "char \<Rightarrow> char" where
  "to_lower c = (if CHR ''A'' \<le> c \<and> c \<le> CHR ''Z'' then char_of (of_char c + 32 :: nat) else c)"

definition to_upper :: "char \<Rightarrow> char" where
  "to_upper c = (if CHR ''a'' \<le> c \<and> c \<le> CHR ''z'' then char_of (of_char c - 32 :: nat) else c)"

definition lower :: "string \<Rightarrow> string" where
  "lower s = List.map to_lower s"

definition upper :: "string \<Rightarrow> string" where
  "upper s = List.map to_upper s"

definition is_digit :: "char \<Rightarrow> bool" where
  "is_digit c \<longleftrightarrow> CHR ''0'' \<le> c \<and> c \<le> CHR ''9''"

definition isdigit :: "string \<Rightarrow> bool" where
  "isdigit s \<longleftrightarrow> s \<noteq> [] \<and> list_all is_digit s"

lemma trim_blank_free:
  assumes "s \<noteq> []" "hd s \<notin> set cs" "last s \<notin> set cs"
  shows "trim s cs True = s"
proof -
  have "dropWhile (\<lambda>c. c \<in> set cs) s = s" using assms(1,2) by (cases s) simp_all
  moreover have "dropWhile (\<lambda>c. c \<in> set cs) (rev s) = rev s"
    using assms(1,3) by (cases "rev s") (auto simp: last_snoc dest: arg_cong[of _ _ rev])
  ultimately show ?thesis using assms(1) by (simp add: trim_def trimleft_def trimright_def)
qed

lemma trim_ends:
  "trim s cs True \<noteq> [] \<Longrightarrow> hd (trim s cs True) \<notin> set cs \<and> last (trim s cs True) \<notin> set cs"
proof -
  let ?l = "dropWhile (\<lambda>c. c \<in> set cs) s"
  let ?r = "dropWhile (\<lambda>c. c \<in> set cs) (rev ?l)"
  assume ne: "trim s cs True \<noteq> []"
  have t: "trim s cs True = rev ?r"
    by (cases "s = []") (auto simp: trim_def trimleft_def trimright_def simp del: dropWhile_eq_Nil_conv)
  have r: "?r \<noteq> []" using ne t by simp
  then have "hd ?r \<notin> set cs" by (rule hd_dropWhile)
  then have last: "last (rev ?r) \<notin> set cs" using r by (simp add: last_rev)
  obtain ys where ys: "rev ?l = ys @ ?r" by (metis takeWhile_dropWhile_id)
  then have l: "?l = rev ?r @ rev ys" by (metis rev_append rev_rev_ident)
  then have "hd ?l = hd (rev ?r) \<and> ?l \<noteq> []" using r by (metis Nil_is_append_conv hd_append2 rev_is_Nil_conv)
  then have "hd ?l = hd (rev ?r)" "?l \<noteq> []" by blast+
  moreover have "hd ?l \<notin> set cs" using \<open>?l \<noteq> []\<close> by (rule hd_dropWhile)
  ultimately show ?thesis using last t by simp
qed

section \<open>Numbers\<close>

text \<open>\<open>snprintf\<close> with \<open>%d\<close>, \<open>%u\<close>, \<open>%ld\<close>: the decimal digits; the buffers are large enough.\<close>

definition digit_char :: "nat \<Rightarrow> char" where
  "digit_char d = char_of (48 + d)"

fun dec :: "nat \<Rightarrow> string" where
  "dec n = (if n < 10 then [digit_char n] else dec (n div 10) @ [digit_char (n mod 10)])"

declare dec.simps [simp del]

definition tostr_unsigned :: "nat \<Rightarrow> string" where
  "tostr_unsigned n = dec n"

definition tostr_signed :: "int \<Rightarrow> string" where
  "tostr_signed i = (if i < 0 then CHR ''-'' # dec (nat (- i)) else dec (nat i))"

definition tostr_bool :: "bool \<Rightarrow> string" where
  "tostr_bool b = (if b then ''1'' else ''0'')"

text \<open>\<open>%c\<close> of a null character leaves the buffer empty.\<close>

definition tostr_char :: "char \<Rightarrow> string" where
  "tostr_char c = (if c = CHR 0x00 then [] else [c])"

text \<open>
  \<open>tostr\<close> of a \<open>float\<close>, \<open>double\<close> or \<open>long double\<close>, after \<open>snprintf\<close> gave \<open>s\<close>: trailing zeros are
  cut off, and the point when nothing is left behind it. The loop runs over the reversed
  string.
\<close>

fun cut_zeros :: "string \<Rightarrow> string" where
  "cut_zeros [] = []"
| "cut_zeros (c # r) =
     (if c = CHR ''0'' then (if r \<noteq> [] \<and> hd r = CHR ''.'' then tl r else cut_zeros r) else c # r)"

definition tostr_float :: "string \<Rightarrow> string" where
  "tostr_float s = rev (cut_zeros (rev s))"

definition tostr_vector :: "('a \<Rightarrow> string) \<Rightarrow> 'a list \<Rightarrow> string" where
  "tostr_vector f xs = concat (List.map (\<lambda>x. f x @ '' '') xs)"

definition tostr_map :: "('k \<Rightarrow> string) \<Rightarrow> ('v \<Rightarrow> string) \<Rightarrow> ('k \<times> 'v) list \<Rightarrow> string" where
  "tostr_map f g m = concat (List.map (\<lambda>(k, v). '' ['' @ f k @ '']=['' @ g v @ ''] '') m)"

definition tostr_pair :: "('k \<Rightarrow> string) \<Rightarrow> ('v \<Rightarrow> string) \<Rightarrow> 'k \<times> 'v \<Rightarrow> string" where
  "tostr_pair f g p = ''['' @ f (fst p) @ '']=['' @ g (snd p) @ '']''"

fun tostr_range :: "('a \<Rightarrow> string) \<Rightarrow> string \<Rightarrow> 'a list \<Rightarrow> string" where
  "tostr_range f sSep [] = []"
| "tostr_range f sSep [x] = f x"
| "tostr_range f sSep (x # xs) = f x @ sSep @ tostr_range f sSep xs"

text \<open>\<open>strtol\<close> and \<open>strtoul\<close> in base 10: blanks, a sign, digits; values out of range are clamped.\<close>

definition is_space :: "char \<Rightarrow> bool" where
  "is_space c \<longleftrightarrow> c \<in> {CHR '' '', CHR 0x09, CHR 0x0A, CHR 0x0B, CHR 0x0C, CHR 0x0D}"

fun digits_value :: "nat \<Rightarrow> string \<Rightarrow> nat" where
  "digits_value n [] = n"
| "digits_value n (c # s) = (if is_digit c then digits_value (10 * n + (of_char c - 48)) s else n)"

definition signed_part :: "string \<Rightarrow> bool \<times> string" where
  "signed_part s =
     (case dropWhile is_space s of
        [] \<Rightarrow> (False, [])
      | c # r \<Rightarrow> if c = CHR ''-'' then (True, r) else if c = CHR ''+'' then (False, r) else (False, c # r))"

definition strtol :: "string \<Rightarrow> int" where
  "strtol s =
     (let (neg, r) = signed_part s; v = int (digits_value 0 r); v = (if neg then - v else v) in
      max (- (2 ^ 63)) (min (2 ^ 63 - 1) v))"

definition strtoul :: "string \<Rightarrow> nat" where
  "strtoul s =
     (let (neg, r) = signed_part s; v = digits_value 0 r in
      if v \<ge> 2 ^ 64 then 2 ^ 64 - 1 else if neg then (2 ^ 64 - v) mod 2 ^ 64 else v)"

definition strto_int :: "string \<Rightarrow> int" where
  "strto_int s = (if s \<noteq> [] then sint (word_of_int (strtol s) :: 32 word) else 0)"

definition strto_short :: "string \<Rightarrow> int" where
  "strto_short s = (if s \<noteq> [] then sint (word_of_int (sint (word_of_int (strtol s) :: 32 word)) :: 16 word) else 0)"

definition strto_long :: "string \<Rightarrow> int" where
  "strto_long s = (if s \<noteq> [] then strtol s else 0)"

definition strto_ulong :: "string \<Rightarrow> nat" where
  "strto_ulong s = (if s \<noteq> [] then strtoul s else 0)"

definition strto_uint :: "string \<Rightarrow> nat" where
  "strto_uint s = (if s \<noteq> [] then strtoul s mod 2 ^ 32 else 0)"

definition strto_ushort :: "string \<Rightarrow> nat" where
  "strto_ushort s = (if s \<noteq> [] then strtoul s mod 2 ^ 16 else 0)"

definition strto_char :: "string \<Rightarrow> char" where
  "strto_char s = (case s of [] \<Rightarrow> CHR 0x00 | c # _ \<Rightarrow> c)"

definition strto_default :: "(string \<Rightarrow> 'a) \<Rightarrow> string \<Rightarrow> string \<Rightarrow> 'a" where
  "strto_default f sStr sDefault = f (if sStr \<noteq> [] then sStr else sDefault)"

lemma digit_char_less:
  assumes "d < 10"
  shows "is_digit (digit_char d)" "of_char (digit_char d) = 48 + d"
proof -
  have "\<forall>d\<in>{0, 1, 2, 3, 4, 5, 6, 7, 8, 9}. is_digit (digit_char d) \<and> (of_char (digit_char d) :: nat) = 48 + d"
    by code_simp
  moreover have "d \<in> {0, 1, 2, 3, 4, 5, 6, 7, 8, 9}" using assms by auto
  ultimately show "is_digit (digit_char d)" "of_char (digit_char d) = 48 + d" by blast+
qed

lemma dec_digits: "list_all is_digit (dec n)" "dec n \<noteq> []"
  by (induction n rule: dec.induct; subst dec.simps; simp add: digit_char_less)+

lemma digits_value_append:
  "list_all is_digit s \<Longrightarrow> digits_value n (s @ t) = digits_value (digits_value n s) t"
  by (induction n s rule: digits_value.induct) auto

lemma digits_value_dec: "digits_value 0 (dec n) = n"
proof (induction n rule: dec.induct)
  case (1 n)
  then show ?case
    by (subst dec.simps) (simp add: digits_value_append dec_digits digit_char_less div_mult_mod_eq)
qed

lemma digit_not_special: "is_digit c \<Longrightarrow> \<not> is_space c \<and> c \<noteq> CHR ''-'' \<and> c \<noteq> CHR ''+''"
  by (auto simp: is_digit_def is_space_def less_eq_char_def)

lemma signed_part_dec: "signed_part (dec n) = (False, dec n)" "signed_part (CHR ''-'' # dec n) = (True, dec n)"
proof -
  obtain c r where "dec n = c # r" "is_digit c" using dec_digits[of n] by (cases "dec n") auto
  then show "signed_part (dec n) = (False, dec n)" using digit_not_special by (simp add: signed_part_def)
  show "signed_part (CHR ''-'' # dec n) = (True, dec n)" by (simp add: signed_part_def is_space_def)
qed

lemma strtol_tostr: "- (2 ^ 63) \<le> i \<Longrightarrow> i < 2 ^ 63 \<Longrightarrow> strtol (tostr_signed i) = i"
  by (auto simp: strtol_def tostr_signed_def signed_part_dec digits_value_dec)

lemma tostr_signed_nonempty: "tostr_signed i \<noteq> []"
  by (simp add: tostr_signed_def dec_digits)

lemma strto_int_tostr: "- (2 ^ 31) \<le> i \<Longrightarrow> i < 2 ^ 31 \<Longrightarrow> strto_int (tostr_signed i) = i"
  by (simp add: strto_int_def tostr_signed_nonempty strtol_tostr sint_sbintrunc' signed_take_bit_int_eq_self)

lemma strto_long_tostr: "- (2 ^ 63) \<le> i \<Longrightarrow> i < 2 ^ 63 \<Longrightarrow> strto_long (tostr_signed i) = i"
  by (simp add: strto_long_def tostr_signed_nonempty strtol_tostr)

lemma strto_ulong_tostr: "n < 2 ^ 64 \<Longrightarrow> strto_ulong (tostr_unsigned n) = n"
  by (simp add: strto_ulong_def tostr_unsigned_def dec_digits strtoul_def signed_part_dec digits_value_dec)

text \<open>The buffers of \<open>tostr\<close>, 16 and 32 bytes with the terminating null, never truncate.\<close>

lemma length_dec: "n < 10 ^ Suc k \<Longrightarrow> length (dec n) \<le> Suc k"
proof (induction k arbitrary: n)
  case (Suc k)
  show ?case
  proof (cases "n < 10")
    case True
    then show ?thesis by (subst dec.simps) simp
  next
    case False
    have "n div 10 < 10 ^ Suc k" using Suc.prems by (simp add: less_mult_imp_div_less mult.commute)
    with Suc.IH[of "n div 10"] False show ?thesis by (subst dec.simps) simp
  qed
qed (subst dec.simps, simp)

lemma tostr_fits:
  "- (2 ^ 31) \<le> i \<Longrightarrow> i < 2 ^ 32 \<Longrightarrow> length (tostr_signed i) < 16"
  "- (2 ^ 63) \<le> i \<Longrightarrow> i < 2 ^ 64 \<Longrightarrow> length (tostr_signed i) < 32"
proof -
  have dec: "length (dec n) \<le> 10" if "n < 2 ^ 32" for n using length_dec[of n 9] that by simp
  have dec': "length (dec n) \<le> 20" if "n < 2 ^ 64" for n using length_dec[of n 19] that by simp
  show "length (tostr_signed i) < 16" if "- (2 ^ 31) \<le> i" "i < 2 ^ 32"
    using that dec[of "nat i"] dec[of "nat (- i)"] by (auto simp: tostr_signed_def nat_less_iff)
  show "length (tostr_signed i) < 32" if "- (2 ^ 63) \<le> i" "i < 2 ^ 64"
    using that dec'[of "nat i"] dec'[of "nat (- i)"] by (auto simp: tostr_signed_def nat_less_iff)
qed

lemma strto_short_tostr: "- (2 ^ 15) \<le> i \<Longrightarrow> i < 2 ^ 15 \<Longrightarrow> strto_short (tostr_signed i) = i"
  by (simp add: strto_short_def tostr_signed_nonempty strtol_tostr sint_sbintrunc' signed_take_bit_int_eq_self)

lemma strtoul_tostr: "n < 2 ^ 64 \<Longrightarrow> strtoul (tostr_unsigned n) = n"
  by (simp add: tostr_unsigned_def strtoul_def signed_part_dec digits_value_dec)

lemma strto_unsigned_tostr:
  "n < 2 ^ 16 \<Longrightarrow> strto_ushort (tostr_unsigned n) = n"
  "n < 2 ^ 32 \<Longrightarrow> strto_uint (tostr_unsigned n) = n"
  by (simp_all add: strto_ushort_def strto_uint_def strtoul_tostr) (simp_all add: tostr_unsigned_def dec_digits)

lemma tostr_unsigned_fits:
  "n < 2 ^ 32 \<Longrightarrow> length (tostr_unsigned n) < 16" "n < 2 ^ 64 \<Longrightarrow> length (tostr_unsigned n) < 32"
  using length_dec[of n 9] length_dec[of n 19] by (simp_all add: tostr_unsigned_def)

text \<open>
  Parsing a printed integer gives it back at every width, signed or not, and the printed
  form fits the buffers of \<open>tostr\<close> (16 and 32 bytes) with the null at its end.
\<close>

lemma number_roundtrip:
  "(\<forall>i. - (2 ^ 15) \<le> i \<and> i < 2 ^ 15 \<longrightarrow> strto_short (tostr_signed i) = i) \<and>
   (\<forall>n. n < 2 ^ 16 \<longrightarrow> strto_ushort (tostr_unsigned n) = n) \<and>
   (\<forall>i. - (2 ^ 31) \<le> i \<and> i < 2 ^ 31 \<longrightarrow> strto_int (tostr_signed i) = i \<and> length (tostr_signed i) < 16) \<and>
   (\<forall>n. n < 2 ^ 32 \<longrightarrow> strto_uint (tostr_unsigned n) = n \<and> length (tostr_unsigned n) < 16) \<and>
   (\<forall>i. - (2 ^ 63) \<le> i \<and> i < 2 ^ 63 \<longrightarrow> strto_long (tostr_signed i) = i \<and> length (tostr_signed i) < 32) \<and>
   (\<forall>n. n < 2 ^ 64 \<longrightarrow> strto_ulong (tostr_unsigned n) = n \<and> length (tostr_unsigned n) < 32)"
  by (intro conjI allI impI)
    (simp_all add: strto_short_tostr strto_unsigned_tostr strto_int_tostr strto_long_tostr strto_ulong_tostr
      tostr_unsigned_fits tostr_fits)

lemma number_roundtrip_witness:
  "strto_short (tostr_signed (- 32768)) = - 32768 \<and> strto_int (tostr_signed 2147483647) = 2147483647 \<and>
   length (tostr_signed 2147483647) < 16"
  using number_roundtrip[THEN conjunct1, THEN spec[of _ "- 32768"]]
    number_roundtrip[THEN conjunct2, THEN conjunct2, THEN conjunct1, THEN spec[of _ 2147483647]] by simp

section \<open>Hexadecimal dumps\<close>

definition hex_char :: "nat \<Rightarrow> char" where
  "hex_char d = (if d < 10 then char_of (48 + d) else char_of (87 + d))"

text \<open>The table has the two lower-case digits of every byte.\<close>

definition c_b2s :: "byte \<Rightarrow> string" where
  "c_b2s b = [hex_char (unat b div 16), hex_char (unat b mod 16)]"

fun bin2str_from :: "nat \<Rightarrow> string \<Rightarrow> string \<Rightarrow> nat \<Rightarrow> string" where
  "bin2str_from i [] sSep lines = []"
| "bin2str_from i (c # s) sSep lines =
     c_b2s (byte_of c) @ sSep @ (if lines \<noteq> 0 \<and> (i + 1) mod lines = 0 then [CHR 0x0A] else []) @
     bin2str_from (i + 1) s sSep lines"

definition bin2str :: "string \<Rightarrow> string \<Rightarrow> nat \<Rightarrow> string" where
  "bin2str sBinData sSep lines = bin2str_from 0 sBinData sSep lines"

text \<open>Arithmetic on \<open>char\<close>, which is signed; the result is cut to eight bits.\<close>

definition hex_value :: "char \<Rightarrow> byte" where
  "hex_value c =
     (let b = byte_of c in
      if sint b \<ge> 65 then ((b AND 0xdf) - 65) + 10 else b - 48)"

definition x2c :: "string \<Rightarrow> char" where
  "x2c sWhat =
     (if length sWhat < 2 then CHR 0x00
      else char_of_byte (hex_value (sWhat ! 0) * 16 + hex_value (sWhat ! 1)))"

text \<open>What a \<open>const char *\<close> at the start of \<open>s\<close> denotes.\<close>

definition c_string :: "string \<Rightarrow> string" where
  "c_string s = takeWhile (\<lambda>c. c \<noteq> CHR 0x00) s"

definition str2bin_array :: "string \<Rightarrow> nat \<Rightarrow> string" where
  "str2bin_array psAsciiData iBinSize =
     (let p = c_string psAsciiData; n = min (length p div 2) iBinSize in
      List.map (\<lambda>i. x2c (drop (i * 2) p)) [0..<n])"

function str2bin_from :: "nat \<Rightarrow> string \<Rightarrow> string \<Rightarrow> nat \<Rightarrow> string \<Rightarrow> string" where
  "str2bin_from i sString sSep lines sBinData =
     (if i < length sString
      then let sBinData = sBinData @ [x2c (c_string (drop i sString))];
               i = i + 1 + length sSep;
               i = (if lines \<noteq> 0 \<and> length sBinData mod lines = 0 then i + 1 else i)
           in str2bin_from (i + 1) sString sSep lines sBinData
      else sBinData)"
  by pat_completeness auto
termination by (relation "measure (\<lambda>(i, s, _). length s - i)") auto

declare str2bin_from.simps [simp del]

definition str2bin :: "string \<Rightarrow> string \<Rightarrow> nat \<Rightarrow> string" where
  "str2bin sString sSep lines = str2bin_from 0 sString sSep lines []"

lemma hex_digits:
  assumes "d < 16"
  shows "hex_value (hex_char d) = of_nat d" "hex_char d \<noteq> CHR 0x00"
proof -
  have "\<forall>d\<in>{0, 1, 2, 3, 4, 5, 6, 7, 8, 9, 10, 11, 12, 13, 14, 15}.
      hex_value (hex_char d) = of_nat d \<and> hex_char d \<noteq> CHR 0x00"
    by code_simp
  moreover have "d \<in> {0, 1, 2, 3, 4, 5, 6, 7, 8, 9, 10, 11, 12, 13, 14, 15}"
    unfolding insert_iff empty_iff using assms by arith
  ultimately show "hex_value (hex_char d) = of_nat d" "hex_char d \<noteq> CHR 0x00" by blast+
qed

lemma x2c_b2s: "x2c (c_string (c_b2s (byte_of c) @ t)) = c"
proof -
  let ?n = "unat (byte_of c)"
  have n: "?n div 16 < 16" "?n mod 16 < 16" using unsigned_less[of "byte_of c", where 'a = nat] by simp_all
  have "c_string (c_b2s (byte_of c) @ t) = hex_char (?n div 16) # hex_char (?n mod 16) # c_string t"
    using hex_digits(2)[OF n(1)] hex_digits(2)[OF n(2)] by (simp add: c_string_def c_b2s_def)
  moreover have "(of_nat (?n div 16) * 16 + of_nat (?n mod 16) :: byte) = of_nat (?n div 16 * 16 + ?n mod 16)"
    by (simp only: of_nat_add of_nat_mult of_nat_numeral)
  moreover have "of_nat ?n = byte_of c" by simp
  ultimately show ?thesis using hex_digits(1)[OF n(1)] hex_digits(1)[OF n(2)]
    by (simp add: x2c_def div_mult_mod_eq del: of_nat_add of_nat_mult of_nat_unat)
qed

lemma str2bin_bin2str_from:
  "str2bin_from (length pre) (pre @ bin2str_from (length acc) s sSep lines) sSep lines acc = acc @ s"
proof (induction s arbitrary: pre acc)
  case Nil
  then show ?case by (subst str2bin_from.simps) simp
next
  case (Cons c s)
  let ?nl = "if lines \<noteq> 0 \<and> (length acc + 1) mod lines = 0 then [CHR 0x0A] else []"
  let ?pre = "pre @ c_b2s (byte_of c) @ sSep @ ?nl"
  let ?all = "pre @ bin2str_from (length acc) (c # s) sSep lines"
  have all: "?all = ?pre @ bin2str_from (length (acc @ [c])) s sSep lines" by simp
  have d: "drop (length pre) ?all = c_b2s (byte_of c) @ (sSep @ ?nl @ bin2str_from (length acc + 1) s sSep lines)"
    by simp
  have len: "length pre < length ?all" by (simp add: c_b2s_def)
  have "str2bin_from (length pre) ?all sSep lines acc = str2bin_from (length ?pre) ?all sSep lines (acc @ [c])"
    using len unfolding str2bin_from.simps[of "length pre" ?all] Let_def d x2c_b2s
    by (simp add: c_b2s_def)
  also have "\<dots> = acc @ c # s" unfolding all Cons.IH by simp
  finally show ?case .
qed

text \<open>
  \<open>str2bin\<close> undoes \<open>bin2str\<close>: for every data, separator and number of bytes per line.
\<close>

lemma hex_roundtrip: "str2bin (bin2str s sSep lines) sSep lines = s"
  using str2bin_bin2str_from[of "[]" "[]" s sSep lines] by (simp add: str2bin_def bin2str_def)

section \<open>Splitting\<close>

function sep_from :: "string \<Rightarrow> string \<Rightarrow> nat \<Rightarrow> string list" where
  "sep_from sStr sSep pos =
     (case find_first_of sStr sSep pos of
        None \<Rightarrow> [if pos + 1 \<le> length sStr then drop pos sStr else []]
      | Some pos1 \<Rightarrow>
          (if pos1 = pos then [] else take (pos1 - pos) (drop pos sStr)) # sep_from sStr sSep (pos1 + 1))"
  by pat_completeness auto
termination
  by (relation "measure (\<lambda>(s, _, pos). length s - pos)")
    (auto simp: find_first_of_def dest: find_if_from_Some)

declare sep_from.simps [simp del]

definition sepstr :: "string \<Rightarrow> string \<Rightarrow> bool \<Rightarrow> string list" where
  "sepstr sStr sSep withEmpty =
     (let ps = sep_from sStr sSep 0 in if withEmpty then ps else List.filter (\<lambda>s. s \<noteq> []) ps)"

text \<open>The pieces between separators, by recursion on the string.\<close>

fun pieces :: "string \<Rightarrow> string \<Rightarrow> string list" where
  "pieces cs [] = [[]]"
| "pieces cs (c # s) =
     (if c \<in> set cs then [] # pieces cs s else (c # hd (pieces cs s)) # tl (pieces cs s))"

lemma pieces_nonempty [simp]: "pieces cs s \<noteq> []"
  by (cases s) simp_all

lemma pieces_index:
  "pieces cs s = (case index_of (\<lambda>c. c \<in> set cs) s of None \<Rightarrow> [s]
     | Some i \<Rightarrow> take i s # pieces cs (drop (Suc i) s))"
  by (induction s) (auto split: option.split)

lemma sep_from_pieces: "pos \<le> length sStr \<Longrightarrow> sep_from sStr sSep pos = pieces sSep (drop pos sStr)"
proof (induction sStr sSep pos rule: sep_from.induct)
  case (1 sStr sSep pos)
  show ?case
  proof (cases "index_of (\<lambda>c. c \<in> set sSep) (drop pos sStr)")
    case None
    with 1 show ?thesis
      by (subst sep_from.simps, subst pieces_index) (simp add: find_first_of_def find_if_from_def)
  next
    case (Some i)
    then have f: "find_first_of sStr sSep pos = Some (pos + i)" "i < length (drop pos sStr)"
      by (auto simp: find_first_of_def find_if_from_def dest: index_of_cut(4))
    have "sep_from sStr sSep (pos + i + 1) = pieces sSep (drop (pos + i + 1) sStr)"
      using "1.IH"[OF f(1)] f(2) by simp
    then show ?thesis using f Some
      by (subst sep_from.simps, subst pieces_index) (simp add: drop_drop add.commute)
  qed
qed

lemma pieces_no_sep: "p \<in> set (pieces cs s) \<Longrightarrow> set p \<inter> set cs = {}"
proof (induction s arbitrary: p)
  case (Cons c s)
  show ?case
  proof (cases "c \<in> set cs")
    case False
    from Cons.prems False have "p = c # hd (pieces cs s) \<or> p \<in> set (tl (pieces cs s))" by simp
    with Cons.IH[OF hd_in_set[OF pieces_nonempty]] Cons.IH[OF list.set_sel(2)[OF pieces_nonempty]] False
    show ?thesis by auto
  qed (use Cons in auto)
qed simp

lemma pieces_join:
  "list_all (\<lambda>p. set p \<inter> set cs = {}) (p # ps) \<Longrightarrow> d \<in> set cs \<Longrightarrow>
   pieces cs (tostr_range id [d] (p # ps)) = p # ps"
proof (induction ps arbitrary: p)
  case Nil
  have "pieces cs q = [q]" if "set q \<inter> set cs = {}" for q using that by (induction q) auto
  with Nil show ?case by simp
next
  case (Cons q qs)
  have "pieces cs (p @ d # t) = p # pieces cs t" if "set p \<inter> set cs = {}" for t
    using that Cons.prems(2) by (induction p) auto
  with Cons show ?case by simp
qed

text \<open>
  \<open>sepstr\<close> returns the maximal pieces of the string without a separator character (all
  of them, or the non-empty ones), and is the inverse of joining pieces with a separator.
\<close>

lemma sepstr_splits:
  assumes "list_all (\<lambda>p. set p \<inter> set sSep = {}) (p # ps)" "d \<in> set sSep"
  shows "sepstr sStr sSep True = pieces sSep sStr \<and>
    sepstr sStr sSep False = List.filter (\<lambda>s. s \<noteq> []) (pieces sSep sStr) \<and>
    sepstr (tostr_range id [d] (p # ps)) sSep True = p # ps"
  using pieces_join[OF assms] by (simp add: sepstr_def sep_from_pieces)

lemma sepstr_splits_witness:
  "sepstr ''a|b'' ''|,'' True = pieces ''|,'' ''a|b'' \<and>
    sepstr ''a|b'' ''|,'' False = List.filter (\<lambda>s. s \<noteq> []) (pieces ''|,'' ''a|b'') \<and>
    sepstr (tostr_range id [CHR '','' ] (''x'' # [[], ''y''])) ''|,'' True = ''x'' # [[], ''y'']"
  by (rule sepstr_splits) simp_all


section \<open>Replacement\<close>

text \<open>
  The loop searches on from behind the text it put in; it does not end when the search string
  is empty, which \<open>None\<close> stands for.
\<close>

partial_function (option) replace_loop :: "string \<Rightarrow> string \<Rightarrow> nat \<Rightarrow> string \<Rightarrow> string option" where
  "replace_loop sSrc sDest pos sBuf =
     (case find_str sBuf sSrc pos of
        None \<Rightarrow> Some sBuf
      | Some p \<Rightarrow> replace_loop sSrc sDest (p + length sDest)
                    (take p sBuf @ sDest @ drop (p + length sSrc) sBuf))"

definition replace :: "string \<Rightarrow> string \<Rightarrow> string \<Rightarrow> string option" where
  "replace sString sSrc sDest = (if sSrc = [] then Some sString else replace_loop sSrc sDest 0 sString)"

fun replace_each :: "(string \<times> string) list \<Rightarrow> string \<Rightarrow> string option" where
  "replace_each [] tmp = Some tmp"
| "replace_each ((sSrc, sDest) # m) tmp = Option.bind (replace_loop sSrc sDest 0 tmp) (replace_each m)"

definition replace_map :: "string \<Rightarrow> (string \<times> string) list \<Rightarrow> string option" where
  "replace_map sString m = (if sString = [] then Some sString else replace_each m sString)"

text \<open>Every occurrence of \<open>p\<close> from left to right, by recursion on the string.\<close>

function substituted :: "string \<Rightarrow> string \<Rightarrow> string \<Rightarrow> string" where
  "substituted p d [] = []"
| "substituted p d (c # s) =
     (if p \<noteq> [] \<and> is_prefix p (c # s) then d @ substituted p d (drop (length p) (c # s))
      else c # substituted p d s)"
  by pat_completeness auto
termination by (relation "measure (\<lambda>(p, d, s). length s)") auto

lemma index_str_0: "index_str p s = Some 0 \<longleftrightarrow> is_prefix p s"
  by (cases s; cases p) auto

lemma index_str_Nil: "index_str [] s = Some 0"
  by (simp add: index_str_0)

lemma substituted_index:
  "p \<noteq> [] \<Longrightarrow> substituted p d s =
     (case index_str p s of None \<Rightarrow> s
      | Some i \<Rightarrow> take i s @ d @ substituted p d (drop (i + length p) s))"
proof (induction s)
  case (Cons c s)
  then show ?case by (cases "is_prefix p (c # s)"; cases "index_str p s") auto
qed simp

lemma index_str_bound: "index_str p s = Some i \<Longrightarrow> i + length p \<le> length s"
proof (induction s arbitrary: i)
  case (Cons c s)
  show ?case
  proof (cases "is_prefix p (c # s)")
    case True
    then obtain t where "c # s = p @ t" by (auto simp: is_prefix_iff)
    then have "length p \<le> length (c # s)" by (metis length_append le_add1)
    with True show ?thesis using Cons.prems by simp
  qed (use Cons in auto)
qed (auto split: if_splits)

lemma replace_loop_ends:
  assumes "sSrc \<noteq> []"
  shows "replace_loop sSrc sDest (length pre) (pre @ rest) = Some (pre @ substituted sSrc sDest rest)"
proof (induction "length rest" arbitrary: pre rest rule: less_induct)
  case less
  show ?case
  proof (cases "index_str sSrc rest")
    case None
    then have "find_str (pre @ rest) sSrc (length pre) = None" by (simp add: find_str_def)
    with None show ?thesis by (simp add: replace_loop.simps substituted_index[OF assms, of _ rest])
  next
    case (Some i)
    let ?pre = "pre @ take i rest @ sDest" and ?rest = "drop (i + length sSrc) rest"
    from Some have b: "i + length sSrc \<le> length rest" by (rule index_str_bound)
    from Some have f: "find_str (pre @ rest) sSrc (length pre) = Some (length pre + i)" by (simp add: find_str_def)
    have len: "length pre + i + length sDest = length ?pre" using b by simp
    have buf: "take (length pre + i) (pre @ rest) @ sDest @ drop (length pre + i + length sSrc) (pre @ rest)
        = ?pre @ ?rest" using b by simp
    have "replace_loop sSrc sDest (length pre) (pre @ rest) = replace_loop sSrc sDest (length ?pre) (?pre @ ?rest)"
      by (subst replace_loop.simps) (simp only: f option.case len buf)
    moreover have "length ?rest < length rest" using b assms by (cases sSrc) simp_all
    ultimately have "replace_loop sSrc sDest (length pre) (pre @ rest) = Some (?pre @ substituted sSrc sDest ?rest)"
      using less by (simp only:)
    then show ?thesis using Some by (simp add: substituted_index[OF assms, of _ rest])
  qed
qed

text \<open>With an empty search string the search succeeds at every position.\<close>

lemma replace_loop_empty: "pos \<le> length s \<Longrightarrow> replace_loop [] d pos s = None"
proof -
  have "pos \<le> length s \<longrightarrow> p \<noteq> []" if "replace_loop p d pos s = Some r" for p pos s r
  proof (rule replace_loop.raw_induct[where P = "\<lambda>p d pos s r. pos \<le> length s \<longrightarrow> p \<noteq> []", OF _ that])
    fix rl p d pos s r
    assume IH: "\<And>p d pos s r. rl p d pos s = Some r \<Longrightarrow> pos \<le> length s \<longrightarrow> p \<noteq> []"
      and body: "(case find_str s p pos of None \<Rightarrow> Some s
        | Some q \<Rightarrow> rl p d (q + length d) (take q s @ d @ drop (q + length p) s)) = Some r"
    show "pos \<le> length s \<longrightarrow> p \<noteq> []"
    proof (intro impI notI)
      assume p: "pos \<le> length s" "p = []"
      then have "find_str s p pos = Some pos" by (simp add: find_str_def index_str_Nil)
      with body p have "rl [] d (pos + length d) (take pos s @ d @ drop pos s) = Some r" by simp
      from IH[OF this] p show False by simp
    qed
  qed
  moreover assume "pos \<le> length s"
  ultimately show ?thesis by (cases "replace_loop [] d pos s") auto
qed

lemma replace_each_ends:
  "list_all (\<lambda>(k, v). k \<noteq> []) m \<Longrightarrow>
   replace_each m s = Some (fold (\<lambda>(k, v). substituted k v) m s)"
  using replace_loop_ends[of _ _ "[]"] by (induction m arbitrary: s) auto

lemma replace_each_empty:
  "list_all (\<lambda>(k, v). k \<noteq> []) m \<Longrightarrow> replace_each (m @ ([], d) # m') s = None"
  using replace_loop_ends[of _ _ "[]"] by (induction m arbitrary: s) (auto simp: replace_loop_empty)

text \<open>
  C24. \<open>replace\<close> always ends, with every occurrence replaced from left to right and the text put
  in not searched again; the replacement by a map ends in the successive replacements when no
  key is empty, and never ends when some key is empty and the string is not.
\<close>

theorem replace_terminates:
  assumes "list_all (\<lambda>(k, v). k \<noteq> []) m" "sString \<noteq> []"
  shows "replace s sSrc sDest = Some (if sSrc = [] then s else substituted sSrc sDest s) \<and>
    replace_map sString m = Some (fold (\<lambda>(k, v). substituted k v) m sString) \<and>
    replace_map sString (m @ ([], d) # m') = None"
  using replace_loop_ends[of sSrc sDest "[]" s] replace_each_ends[OF assms(1)] replace_each_empty[OF assms(1)] assms(2)
  by (simp add: replace_def replace_map_def)

lemma replace_terminates_witness:
  "replace ''aXa'' ''a'' ''aa'' = Some (if ''a'' = [] then ''aXa'' else substituted ''a'' ''aa'' ''aXa'') \<and>
    replace_map ''ab'' [(''a'', ''b''), (''b'', ''c'')] =
      Some (fold (\<lambda>(k, v). substituted k v) [(''a'', ''b''), (''b'', ''c'')] ''ab'') \<and>
    replace_map ''ab'' ([(''a'', ''b''), (''b'', ''c'')] @ ([], ''x'') # []) = None"
  by (rule replace_terminates) simp_all

section \<open>Patterns with periods\<close>

text \<open>The loop of \<open>matchPeriod\<close> on the suffixes at \<open>sIndex\<close> and \<open>patIndex\<close>.\<close>

function match_loop :: "string \<Rightarrow> string \<Rightarrow> bool" where
  "match_loop [] pat \<longleftrightarrow> pat = []"
| "match_loop (c # s) [] \<longleftrightarrow> False"
| "match_loop (c # s) (p # pat) \<longleftrightarrow>
     (if p = CHR ''*'' then c \<noteq> CHR ''.'' \<and> match_loop (dropWhile (\<lambda>c. c \<noteq> CHR ''.'') (c # s)) pat
      else p = c \<and> match_loop s pat)"
  by pat_completeness auto
termination by (relation "measure (\<lambda>(s, pat). length pat)") auto

definition matchPeriod :: "string \<Rightarrow> string \<Rightarrow> bool" where
  "matchPeriod s pat =
     (if s = [] then False
      else if pat = [] then True
      else if find_char pat CHR ''*'' 0 = None then s = pat
      else match_loop s pat)"

definition matchPeriod_any :: "string \<Rightarrow> string list \<Rightarrow> bool" where
  "matchPeriod_any s pat = list_ex (matchPeriod s) pat"

text \<open>A star stands for the whole rest of a period-free component, of one character at least.\<close>

inductive pattern_of :: "string \<Rightarrow> string \<Rightarrow> bool" where
  pat_end: "pattern_of [] []"
| pat_char: "c \<noteq> CHR ''*'' \<Longrightarrow> pattern_of pat s \<Longrightarrow> pattern_of (c # pat) (c # s)"
| pat_star: "part \<noteq> [] \<Longrightarrow> CHR ''.'' \<notin> set part \<Longrightarrow> s = [] \<or> hd s = CHR ''.'' \<Longrightarrow> pattern_of pat s \<Longrightarrow>
    pattern_of (CHR ''*'' # pat) (part @ s)"

inductive_cases pattern_of_NilE: "pattern_of [] s"
inductive_cases pattern_of_ConsE: "pattern_of (p # pat) s"

lemma match_loop_pattern: "match_loop s pat \<longleftrightarrow> pattern_of pat s"
proof
  assume "match_loop s pat"
  then show "pattern_of pat s"
  proof (induction s pat rule: match_loop.induct)
    case (3 c s p pat)
    show ?case
    proof (cases "p = CHR ''*''")
      case True
      let ?n = "\<lambda>c. c \<noteq> CHR ''.''"
      have "pattern_of (CHR ''*'' # pat) (takeWhile ?n (c # s) @ dropWhile ?n (c # s))"
      proof (rule pat_star)
        show "takeWhile ?n (c # s) \<noteq> []" using True "3.prems" by simp
        show "CHR ''.'' \<notin> set (takeWhile ?n (c # s))" using set_takeWhileD by fastforce
        show "dropWhile ?n (c # s) = [] \<or> hd (dropWhile ?n (c # s)) = CHR ''.''"
          using hd_dropWhile by blast
        show "pattern_of pat (dropWhile ?n (c # s))" using 3 True by (simp split: if_splits)
      qed
      with True show ?thesis by (simp only: takeWhile_dropWhile_id)
    qed (use 3 in \<open>auto intro: pat_char\<close>)
  qed (auto intro: pat_end)
next
  assume "pattern_of pat s"
  then show "match_loop s pat"
  proof (induction rule: pattern_of.induct)
    case (pat_star part s pat)
    then obtain c r where part: "part = c # r" "c \<noteq> CHR ''.''" by (cases part) auto
    have "dropWhile (\<lambda>c. c \<noteq> CHR ''.'') (part @ s) = s"
      using pat_star(2,3) by (subst dropWhile_append2) (auto simp: dropWhile_eq_self_iff)
    with pat_star part show ?case by simp
  qed auto
qed

lemma pattern_of_plain: "CHR ''*'' \<notin> set pat \<Longrightarrow> pattern_of pat s \<longleftrightarrow> s = pat"
proof (induction pat arbitrary: s)
  case Nil
  show ?case by (auto intro: pat_end elim: pattern_of_NilE)
next
  case (Cons p pat)
  then show ?case by (auto intro: pat_char elim!: pattern_of_ConsE)
qed

text \<open>Every pattern but the empty one matches exactly the strings it stands for.\<close>

lemma matchPeriod_pattern:
  "s \<noteq> [] \<Longrightarrow> pat \<noteq> [] \<Longrightarrow> matchPeriod s pat \<longleftrightarrow> pattern_of pat s"
proof -
  assume ne: "s \<noteq> []" "pat \<noteq> []"
  show ?thesis
  proof (cases "find_char pat CHR ''*'' 0")
    case None
    then have "CHR ''*'' \<notin> set pat"
      by (auto simp: find_char_def find_if_from_def index_of_None list_all_iff)
    with None ne show ?thesis by (simp add: matchPeriod_def pattern_of_plain)
  qed (use ne in \<open>simp add: matchPeriod_def match_loop_pattern\<close>)
qed

section \<open>Primes\<close>

text \<open>\<open>root\<close> is \<open>sqrt\<close> cut to an integer.\<close>

definition isPrimeNumber :: "(nat \<Rightarrow> nat) \<Rightarrow> nat \<Rightarrow> bool" where
  "isPrimeNumber root n \<longleftrightarrow> \<not> list_ex (\<lambda>i. n mod i = 0) [2..<root n]"

text \<open>The bound is not tried: the square of a number without smaller divisors passes as a prime.\<close>

lemma isPrimeNumber_square:
  assumes "root (p * p) = p" "\<And>i. 2 \<le> i \<Longrightarrow> i < p \<Longrightarrow> \<not> i dvd p * p"
  shows "isPrimeNumber root (p * p)"
  using assms by (auto simp: isPrimeNumber_def list_ex_iff dvd_eq_mod_eq_0)

end
