(* ===== verification/Double.thy ===== *)
theory Double
  imports Common Complex_Main
begin

text \<open>
  The \<open>double\<close> of the target, IEEE 754 binary64 with rounding to nearest, as the JSON component
  uses it: conversion from integers, the sum, difference and product, \<open>pow(10, n)\<close>, and the
  output of an \<open>ostream\<close> at a precision, which is \<open>printf\<close>'s \<open>%.*g\<close>. A finite value is its sign
  and its magnitude, an exact rational.
\<close>

section \<open>Values and rounding\<close>

datatype double = DNum bool rat | DInf bool | DNaN bool

text \<open>\<open>b\<close> to the power \<open>k\<close>, and the greatest \<open>k\<close> with \<open>b ^ k \<le> x\<close>.\<close>

definition rpow :: "rat \<Rightarrow> int \<Rightarrow> rat" where
  "rpow b k = (if 0 \<le> k then b ^ nat k else 1 / b ^ nat (- k))"

fun ndigits :: "nat \<Rightarrow> nat \<Rightarrow> nat" where
  "ndigits b n = (if n = 0 \<or> b \<le> 1 then 0 else Suc (ndigits b (n div b)))"

declare ndigits.simps [simp del]

definition ilog :: "nat \<Rightarrow> rat \<Rightarrow> int" where
  "ilog b x = (if 1 \<le> x then int (ndigits b (nat \<lfloor>x\<rfloor>)) - 1 else - int (ndigits b (nat \<lceil>1 / x\<rceil> - 1)))"

definition round_even :: "rat \<Rightarrow> int" where
  "round_even x = (let n = \<lfloor>x\<rfloor>; d = x - of_int n in
     if d < 1 / 2 \<or> (d = 1 / 2 \<and> even n) then n else n + 1)"

text \<open>
  The nearest double of a sign and a magnitude: 53 significant bits, no bit below \<open>2 ^ -1074\<close>,
  infinity from \<open>2 ^ 1024\<close> on.
\<close>

definition rnd :: "bool \<Rightarrow> rat \<Rightarrow> double" where
  "rnd s x = (if x = 0 then DNum s 0
     else let q = max (ilog 2 x - 52) (- 1074); y = of_int (round_even (x / rpow 2 q)) * rpow 2 q
       in if 2 ^ 1024 \<le> y then DInf s else DNum s y)"

definition d_int :: "int \<Rightarrow> double" where
  "d_int i = rnd (i < 0) (of_int \<bar>i\<bar>)"

text \<open>An invalid operation gives the default NaN of the target, whose sign bit is set.\<close>

fun d_add :: "double \<Rightarrow> double \<Rightarrow> double" where
  "d_add (DNaN s) y = DNaN s"
| "d_add x (DNaN t) = DNaN t"
| "d_add (DInf s) (DInf t) = (if s = t then DInf s else DNaN True)"
| "d_add (DInf s) y = DInf s"
| "d_add x (DInf t) = DInf t"
| "d_add (DNum s x) (DNum t y) =
     (if s = t then rnd s (x + y) else if x = y then DNum False 0
      else if y < x then rnd s (x - y) else rnd t (y - x))"

fun d_sub :: "double \<Rightarrow> double \<Rightarrow> double" where
  "d_sub x (DNum t y) = d_add x (DNum (\<not> t) y)"
| "d_sub x (DInf t) = d_add x (DInf (\<not> t))"
| "d_sub x (DNaN t) = d_add x (DNaN t)"

fun d_mul :: "double \<Rightarrow> double \<Rightarrow> double" where
  "d_mul (DNaN s) y = DNaN s"
| "d_mul x (DNaN t) = DNaN t"
| "d_mul (DInf s) (DInf t) = DInf (s \<noteq> t)"
| "d_mul (DInf s) (DNum t y) = (if y = 0 then DNaN True else DInf (s \<noteq> t))"
| "d_mul (DNum s x) (DInf t) = (if x = 0 then DNaN True else DInf (s \<noteq> t))"
| "d_mul (DNum s x) (DNum t y) = rnd (s \<noteq> t) (x * y)"

text \<open>
  \<open>pow(10, n)\<close>, correctly rounded; beyond these exponents the result is infinite or zero for
  every smaller or greater one too.
\<close>

definition d_pow10 :: "int \<Rightarrow> double" where
  "d_pow10 n = (if 400 < n then DInf False else if n < - 400 then DNum False 0 else rnd False (rpow 10 n))"

text \<open>The literal \<open>0.1\<close>.\<close>

definition d_tenth :: double where
  "d_tenth = rnd False (1 / 10)"

text \<open>Conversion to \<open>int\<close>, towards zero; a value out of range has no result.\<close>

fun d_to_int :: "double \<Rightarrow> int option" where
  "d_to_int (DNum s m) = (let i = (if s then - \<lfloor>m\<rfloor> else \<lfloor>m\<rfloor>) in
     if - (2 ^ 31) \<le> i \<and> i < 2 ^ 31 then Some i else None)"
| "d_to_int _ = None"

section \<open>Output at a precision\<close>

definition g_fraction :: "string \<Rightarrow> string" where
  "g_fraction ds = (let fs = rev (dropWhile ((=) CHR ''0'') (rev ds)) in if fs = [] then [] else CHR ''.'' # fs)"

definition g_fixed :: "int \<Rightarrow> string \<Rightarrow> string" where
  "g_fixed x ds = (if 0 \<le> x then take (nat x + 1) ds @ g_fraction (drop (nat x + 1) ds)
     else ''0'' @ g_fraction (replicate (nat (- x) - 1) CHR ''0'' @ ds))"

definition g_scientific :: "int \<Rightarrow> string \<Rightarrow> string" where
  "g_scientific x ds = take 1 ds @ g_fraction (drop 1 ds) @ CHR ''e'' # (if x < 0 then CHR ''-'' else CHR ''+'') #
     (if \<bar>x\<bar> < 10 then ''0'' else []) @ dec (nat \<bar>x\<bar>)"

text \<open>The magnitude is rounded to \<open>P\<close> decimal digits first.\<close>

definition g_magnitude :: "nat \<Rightarrow> rat \<Rightarrow> string" where
  "g_magnitude P m = (if m = 0 then ''0'' else
     let x = ilog 10 m; d = round_even (m / rpow 10 (x - int P + 1));
         up = (d = 10 ^ P); x' = (if up then x + 1 else x); ds = dec (if up then 10 ^ (P - 1) else nat d)
     in if - 4 \<le> x' \<and> x' < int P then g_fixed x' ds else g_scientific x' ds)"

fun put_precision :: "nat \<Rightarrow> double \<Rightarrow> string" where
  "put_precision P (DNum s m) = (if s then ''-'' else []) @ g_magnitude P m"
| "put_precision P (DInf s) = (if s then ''-inf'' else ''inf'')"
| "put_precision P (DNaN s) = (if s then ''-nan'' else ''nan'')"

section \<open>Integers below \<open>2 ^ 53\<close> are exact\<close>

lemma ndigits_le: "2 \<le> b \<Longrightarrow> n < b ^ j \<Longrightarrow> ndigits b n \<le> j"
proof (induction j arbitrary: n)
  case 0
  then show ?case by (simp add: ndigits.simps)
next
  case (Suc j)
  then have "n div b < b ^ j" by (simp add: less_mult_imp_div_less mult.commute)
  then show ?case using Suc by (subst ndigits.simps) auto
qed

lemma round_even_int [simp]: "round_even (of_int k) = k"
  by (simp add: round_even_def)

lemma rpow_neg: "k \<le> 0 \<Longrightarrow> rpow b k = 1 / b ^ nat (- k)"
  by (auto simp: rpow_def)

lemma scale_int:
  assumes "q \<le> 0" "0 < b"
  shows "of_int n / rpow (of_int b) q = (of_int (n * b ^ nat (- q)) :: rat)"
  using assms by (simp add: rpow_neg)

lemma rnd_int:
  assumes "n < 2 ^ 53"
  shows "rnd s (of_nat n) = DNum s (of_nat n)"
proof (cases "n = 0")
  case False
  let ?q = "max (ilog 2 (of_nat n) - 52) (- 1074)"
  have "1 \<le> (of_nat n :: rat)" using False by (metis One_nat_def Suc_leI neq0_conv of_nat_1 of_nat_le_iff)
  then have "ilog 2 (of_nat n) \<le> 52" using ndigits_le[of 2 n 53] assms by (simp add: ilog_def)
  then have q: "?q \<le> 0" by simp
  have "of_nat n / rpow 2 ?q = (of_int (int n * 2 ^ nat (- ?q)) :: rat)"
    using scale_int[OF q, of 2 "int n"] by simp
  then have "round_even (of_nat n / rpow 2 ?q) = int n * 2 ^ nat (- ?q)" by (simp only: round_even_int)
  then have y: "of_int (round_even (of_nat n / rpow 2 ?q)) * rpow 2 ?q = (of_nat n :: rat)"
    using rpow_neg[OF q, of 2] by simp
  have "(of_nat n :: rat) < of_nat (2 ^ 53)" using assms by (simp only: of_nat_less_iff)
  also have "\<dots> < 2 ^ 1024" by simp
  finally have "\<not> 2 ^ 1024 \<le> (of_nat n :: rat)" by simp
  then show ?thesis using False y by (simp add: rnd_def Let_def)
qed (simp add: rnd_def)

lemma d_int_nat: "n < 2 ^ 53 \<Longrightarrow> d_int (int n) = DNum False (of_nat n)"
  using rnd_int[of n False] by (simp add: d_int_def)

lemma d_add_zero: "n < 2 ^ 53 \<Longrightarrow> d_add (DNum False (of_nat n)) (DNum False 0) = DNum False (of_nat n)"
  by (simp add: rnd_int)

lemma d_mul_one: "n < 2 ^ 53 \<Longrightarrow> d_mul (DNum False (of_nat n)) (d_pow10 0) = DNum False (of_nat n)"
  using rnd_int[of 1 False] by (simp add: d_pow10_def rpow_def rnd_int)

lemma d_negate: "0 < n \<Longrightarrow> n < 2 ^ 53 \<Longrightarrow> d_sub (DNum False 0) (DNum False (of_nat n)) = DNum True (of_nat n)"
  by (simp add: rnd_int)

text \<open>An integer of at most \<open>P\<close> digits is printed with all of them.\<close>

lemma digit_zero: "digit_char 0 = CHR ''0''"
  by code_simp

lemma length_dec_ndigits: "0 < n \<Longrightarrow> length (dec n) = ndigits 10 n"
proof (induction n rule: dec.induct)
  case (1 n)
  have "n div 10 = 0" if "n < 10" using that by simp
  then show ?case using 1 by (cases "n < 10") (simp_all add: dec.simps[of n] ndigits.simps[of 10 n] ndigits.simps[of 10 0])
qed

lemma dec_shift: "0 < n \<Longrightarrow> dec (n * 10 ^ j) = dec n @ replicate j CHR ''0''"
proof (induction j)
  case (Suc j)
  have "dec (n * 10 ^ Suc j) = dec (n * 10 ^ j) @ [digit_char 0]"
    using Suc.prems by (subst dec.simps) (simp add: mult.assoc[symmetric])
  then show ?case using Suc by (simp add: digit_zero flip: replicate_append_same)
qed simp

lemma g_fraction_zeros [simp]: "g_fraction (replicate j CHR ''0'') = []"
  by (simp add: g_fraction_def)

lemma g_magnitude_int:
  assumes "n < 10 ^ P"
  shows "g_magnitude P (of_nat n) = dec n"
proof (cases "n = 0")
  case True
  then show ?thesis by (simp add: g_magnitude_def dec.simps digit_zero)
next
  case False
  let ?x = "ilog 10 (of_nat n)"
  have "1 \<le> (of_nat n :: rat)" using False by (metis One_nat_def Suc_leI neq0_conv of_nat_1 of_nat_le_iff)
  then have x: "?x = int (ndigits 10 n) - 1" by (simp add: ilog_def)
  have nd: "0 < ndigits 10 n" "ndigits 10 n \<le> P"
    using False ndigits_le[of 10 n P] assms by (auto simp: ndigits.simps[of 10 n])
  have q: "?x - int P + 1 \<le> 0" using x nd by simp
  define j where "j = nat (- (?x - int P + 1))"
  have j: "ndigits 10 n + j = P" using x nd by (simp add: j_def)
  have "of_nat n / rpow 10 (?x - int P + 1) = (of_int (int n * 10 ^ j) :: rat)"
    using scale_int[OF q, of 10 "int n"] by (simp add: j_def)
  then have d: "round_even (of_nat n / rpow 10 (?x - int P + 1)) = int n * 10 ^ j" by (simp only: round_even_int)
  have "n < 10 ^ ndigits 10 n"
  proof (induction n rule: dec.induct)
    case (1 n)
    show ?case
    proof (cases "n < 10")
      case True
      then show ?thesis by (cases "n = 0") (simp_all add: ndigits.simps)
    next
      case False
      then have "n div 10 < 10 ^ ndigits 10 (n div 10)" using 1 by simp
      then have "n < 10 * 10 ^ ndigits 10 (n div 10)" by simp
      then show ?thesis using False by (simp add: ndigits.simps[of 10 n])
    qed
  qed
  then have "int n * 10 ^ j < 10 ^ ndigits 10 n * 10 ^ j"
    by (metis mult_strict_right_mono of_nat_less_iff of_nat_numeral of_nat_power zero_less_numeral zero_less_power)
  then have up: "int n * 10 ^ j \<noteq> 10 ^ P" using j by (metis less_irrefl power_add)
  have ds: "dec (nat (int n * 10 ^ j)) = dec n @ replicate j CHR ''0''"
    using dec_shift[of n j] False by (simp add: nat_mult_distrib nat_power_eq)
  have "nat ?x + 1 = length (dec n)" using x nd length_dec_ndigits[of n] False by simp
  then have "g_fixed ?x (dec n @ replicate j CHR ''0'') = dec n" using x nd by (simp add: g_fixed_def)
  moreover have "- 4 \<le> ?x \<and> ?x < int P" using x nd by simp
  ultimately show ?thesis using False up by (simp add: g_magnitude_def Let_def d ds)
qed

section \<open>Rounding is within a unit in the last place\<close>

lemma round_even_near: "\<bar>of_int (round_even x) - x\<bar> \<le> 1 / 2"
  using floor_correct[of x] by (auto simp: round_even_def Let_def)

lemma ndigits_power: "0 < n \<Longrightarrow> 2 ^ (ndigits 2 n - 1) \<le> n"
proof (induction "2 :: nat" n rule: ndigits.induct)
  case (1 n)
  show ?case
  proof (cases "n div 2 = 0")
    case True
    then show ?thesis using 1(2) by (simp add: ndigits.simps[of 2 n] ndigits.simps[of 2 0])
  next
    case False
    then have "2 ^ (ndigits 2 (n div 2) - 1) \<le> n div 2" "0 < ndigits 2 (n div 2)"
      using 1 by (simp_all add: ndigits.simps[of 2 "n div 2"])
    then have "2 * 2 ^ (ndigits 2 (n div 2) - 1) \<le> n" by linarith
    then have "2 ^ ndigits 2 (n div 2) \<le> n" using \<open>0 < ndigits 2 (n div 2)\<close> by (simp flip: power_Suc)
    then show ?thesis using 1(2) by (simp add: ndigits.simps[of 2 n])
  qed
qed

lemma ilog_power:
  assumes "1 \<le> x"
  shows "0 \<le> ilog 2 x" "rpow 2 (ilog 2 x) \<le> x"
proof -
  let ?n = "nat \<lfloor>x\<rfloor>"
  have n: "0 < ?n" "of_nat ?n \<le> x" using assms by (simp_all add: le_floor_iff)
  then have d: "0 < ndigits 2 ?n" by (simp add: ndigits.simps[of 2 ?n])
  then show "0 \<le> ilog 2 x" using assms by (simp add: ilog_def)
  have "rpow 2 (ilog 2 x) = of_nat (2 ^ (ndigits 2 ?n - 1))"
    using assms d by (simp add: ilog_def rpow_def nat_diff_distrib)
  also have "\<dots> \<le> of_nat ?n" using ndigits_power[OF n(1)] by (simp only: of_nat_le_iff)
  finally show "rpow 2 (ilog 2 x) \<le> x" using n(2) by simp
qed

lemma rnd_near:
  assumes "1 \<le> x" "x < 2 ^ 1000"
  shows "\<exists>y. rnd s x = DNum s y \<and> \<bar>y - x\<bar> \<le> x / 2 ^ 52"
proof -
  let ?k = "ilog 2 x" and ?u = "rpow 2 (ilog 2 x - 52)"
  have k: "0 \<le> ?k" "rpow 2 ?k \<le> x" using ilog_power[OF assms(1)] by simp_all
  have u: "0 < ?u" "?u * 2 ^ 52 = rpow 2 ?k"
  proof -
    show "0 < ?u" by (simp add: rpow_def)
    show "?u * 2 ^ 52 = rpow 2 ?k"
    proof (cases "52 \<le> ?k")
      case True
      then have e: "nat ?k = nat (?k - 52) + 52" by simp
      have "(2 :: rat) ^ nat ?k = 2 ^ nat (?k - 52) * 2 ^ 52" by (simp only: e power_add)
      then show ?thesis using True k(1) by (simp add: rpow_def)
    next
      case False
      have e: "nat (52 - ?k) + nat ?k = 52" using False k(1) by simp
      have "(2 :: rat) ^ 52 = 2 ^ nat (52 - ?k) * 2 ^ nat ?k" by (simp only: e flip: power_add)
      then have "(2 :: rat) ^ 52 / 2 ^ nat (52 - ?k) = 2 ^ nat ?k"
        by (simp only: nonzero_mult_div_cancel_left power_not_zero zero_neq_numeral[symmetric] not_False_eq_True)
      then show ?thesis using False k(1) by (simp add: rpow_def)
    qed
  qed
  define y where "y = of_int (round_even (x / ?u)) * ?u"
  have "y - x = (of_int (round_even (x / ?u)) - x / ?u) * ?u" using u(1) by (simp add: y_def left_diff_distrib)
  then have "\<bar>y - x\<bar> = \<bar>of_int (round_even (x / ?u)) - x / ?u\<bar> * ?u" using u(1) by (simp add: abs_mult)
  also have "\<dots> \<le> 1 / 2 * ?u" using round_even_near[of "x / ?u"] u(1) by (intro mult_right_mono) simp_all
  finally have "\<bar>y - x\<bar> \<le> ?u / 2" by simp
  moreover have "?u \<le> x / 2 ^ 52" using u(2) k(2) by (simp add: pos_le_divide_eq)
  ultimately have near: "\<bar>y - x\<bar> \<le> x / 2 ^ 52" using u(1) by linarith
  have "x / 2 ^ 52 \<le> x" using assms(1) by (simp add: field_simps)
  then have "y \<le> 2 * x" using near by linarith
  also have "\<dots> < 2 * 2 ^ 1000" using assms(2) by simp
  also have "\<dots> < 2 ^ 1024" by simp
  finally have "\<not> 2 ^ 1024 \<le> y" by simp
  moreover have "max (?k - 52) (- 1074) = ?k - 52" using k(1) by simp
  moreover have "x \<noteq> 0" using assms(1) by auto
  ultimately show ?thesis using near by (simp add: rnd_def Let_def y_def)
qed

end
