(* ===== verification/Base64.thy ===== *)
theory Base64
  imports Double
begin

unbundle bit_operations_syntax

text \<open>
  \<open>TC_Base64\<close> (tcinclude/tc_base64.cpp): the two pointer-level routines \<open>encode\<close> and
  \<open>decode\<close>, and the two string-level ones that allocate the output buffer and call
  them, with the lengths in \<open>int\<close>. The round trip, the exact output lengths and the safety of
  both buffers.
\<close>

section \<open>Tables\<close>

definition EnBase64Tab :: string where
  "EnBase64Tab =
     ''ABCDEFGHIJKLMNOPQRSTUVWXYZabcdefghijklmnopqrstuvwxyz0123456789+/''"

definition DeBase64Tab :: "nat list" where
  "DeBase64Tab =
     replicate 43 0 @ [62] @ [0, 0, 0] @ [63] @
     [52, 53, 54, 55, 56, 57, 58, 59, 60, 61] @
     [0, 0, 0, 0, 0, 0, 0] @
     [0, 1, 2, 3, 4, 5, 6, 7, 8, 9, 10, 11, 12,
      13, 14, 15, 16, 17, 18, 19, 20, 21, 22, 23, 24, 25] @
     [0, 0, 0, 0, 0, 0] @
     [26, 27, 28, 29, 30, 31, 32, 33, 34, 35, 36, 37, 38,
      39, 40, 41, 42, 43, 44, 45, 46, 47, 48, 49, 50, 51] @
     replicate 133 0"

section \<open>encode\<close>

text \<open>\<open>unsigned char\<close> operands are promoted to \<open>int\<close> before they are shifted.\<close>

definition en_char :: "u32 \<Rightarrow> char" where
  "en_char v = EnBase64Tab ! unat v"

definition en_quad :: "byte \<Rightarrow> byte \<Rightarrow> byte \<Rightarrow> string" where
  "en_quad b1 b2 b3 =
     (let c1 = ucast b1 :: u32; c2 = ucast b2 :: u32; c3 = ucast b3 :: u32 in
      [en_char (drop_bit 2 c1),
       en_char ((push_bit 4 c1 OR drop_bit 4 c2) AND 0x3f),
       en_char ((push_bit 2 c2 OR drop_bit 6 c3) AND 0x3f),
       en_char (c3 AND 0x3f)])"

text \<open>The bytes left over after the last group of three.\<close>

fun en_rest :: "byte list \<Rightarrow> string" where
  "en_rest [b1] =
     (let c1 = ucast b1 :: u32 in
      [en_char (drop_bit 2 (c1 AND 0xfc)),
       en_char (push_bit 4 (c1 AND 0x03)),
       CHR ''='', CHR ''=''])"
| "en_rest [b1, b2] =
     (let c1 = ucast b1 :: u32; c2 = ucast b2 :: u32 in
      [en_char (drop_bit 2 (c1 AND 0xfc)),
       en_char (push_bit 4 (c1 AND 0x03) OR drop_bit 4 (c2 AND 0xf0)),
       en_char (push_bit 2 (c2 AND 0x0f)),
       CHR ''=''])"
| "en_rest _ = []"

definition crlf :: string where
  "crlf = [CHR 0x0D, CHR 0x0A]"

text \<open>
  The loop over groups of three, with \<open>nLineLen\<close> as its second argument, followed by the
  rest. The result is what the loop stores at \<open>pDst\<close>; its length is \<open>nDstLen\<close>.
\<close>

fun encode_loop :: "bool \<Rightarrow> nat \<Rightarrow> byte list \<Rightarrow> string" where
  "encode_loop bChangeLine nLineLen (b1 # b2 # b3 # pSrc) =
     (if bChangeLine \<and> nLineLen + 4 > 72
      then en_quad b1 b2 b3 @ crlf @ encode_loop bChangeLine 0 pSrc
      else en_quad b1 b2 b3 @ encode_loop bChangeLine (nLineLen + 4) pSrc)"
| "encode_loop bChangeLine nLineLen pSrc = en_rest pSrc"

text \<open>
  The length is an \<open>int\<close>: a negative one has no group and no rest. The memory at \<open>pSrc\<close> is the
  last argument.
\<close>

definition encode_ptr :: "bool \<Rightarrow> int \<Rightarrow> byte list \<Rightarrow> string result" where
  "encode_ptr bChangeLine nSrcLen pSrc =
     (if nSrcLen > int (length pSrc) then Inl OutOfBounds
      else Inr (encode_loop bChangeLine 0 (take (nat nSrcLen) pSrc)))"

text \<open>A \<open>size_t\<close> passed as an \<open>int\<close>.\<close>

definition int_of_size :: "nat \<Rightarrow> int" where
  "int_of_size n = sint (of_nat n :: u32)"

text \<open>
  The string-level \<open>encode\<close>: the buffer has \<open>(int)(data.size() * 1.4) + 6\<close> bytes, a product in
  \<open>double\<close>, and the pointer-level routine stores its result and a terminating NUL there. A
  conversion or sum that overflows is undefined, as an access out of bounds is. What fits the
  buffer is shorter than \<open>2 ^ 31\<close>, so \<open>nDstLen\<close> is its length.
\<close>

definition encode_buf_size :: "nat \<Rightarrow> nat result" where
  "encode_buf_size n =
     (case d_to_int (d_mul (d_int (int n)) (rnd False (7 / 5))) of
        None \<Rightarrow> Inl OutOfBounds
      | Some i \<Rightarrow> if i + 6 < 2 ^ 31 then Inr (nat (i + 6)) else Inl OutOfBounds)"

definition encode_str :: "byte list \<Rightarrow> bool \<Rightarrow> string result" where
  "encode_str data bChangeLine =
     (if data = [] then Inr []
      else bindE (encode_buf_size (length data)) (\<lambda>iBufSize.
           bindE (encode_ptr bChangeLine (int_of_size (length data)) data) (\<lambda>dst.
           if length dst + 1 \<le> iBufSize then Inr dst else Inl OutOfBounds)))"

section \<open>decode\<close>

text \<open>
  \<open>DeBase64Tab[int(*pSrc)]\<close>: \<open>char\<close> is signed, so a byte above 127 is a negative index.
\<close>

definition de_char :: "char \<Rightarrow> u32 result" where
  "de_char c =
     (let i = of_char c :: nat in
      if i < 128 then Inr (of_nat (DeBase64Tab ! i)) else Inl OutOfBounds)"

definition is_crlf :: "char \<Rightarrow> bool" where
  "is_crlf c \<longleftrightarrow> c = CHR 0x0D \<or> c = CHR 0x0A"

text \<open>
  One group: the bytes it yields and the source pointer after it. The pointer moves by two
  to four characters, whatever the index \<open>i\<close> of the loop does.
\<close>

definition de_byte2 :: "u32 \<Rightarrow> byte" where
  "de_byte2 v = ucast (drop_bit 16 (v AND 0x00ff0000))"

definition de_byte1 :: "u32 \<Rightarrow> byte" where
  "de_byte1 v = ucast (drop_bit 8 (v AND 0x0000ff00))"

definition de_byte0 :: "u32 \<Rightarrow> byte" where
  "de_byte0 v = ucast (v AND 0x000000ff)"

fun de_group :: "string \<Rightarrow> (byte list \<times> string) result" where
  "de_group (a # b # c # pSrc) =
     bindE (de_char a) (\<lambda>va. bindE (de_char b) (\<lambda>vb.
       let v2 = push_bit 18 va + push_bit 12 vb in
       if c = CHR ''='' then Inr ([de_byte2 v2], c # pSrc)
       else bindE (de_char c) (\<lambda>vc.
         let v1 = v2 + push_bit 6 vc in
         case pSrc of [] \<Rightarrow> Inl OutOfBounds
         | d # pSrc' \<Rightarrow>
             if d = CHR ''='' then Inr ([de_byte2 v2, de_byte1 v1], d # pSrc')
             else bindE (de_char d) (\<lambda>vd.
               Inr ([de_byte2 v2, de_byte1 v1, de_byte0 (v1 + vd)], pSrc')))))"
| "de_group _ = Inl OutOfBounds"

text \<open>
  The loop \<open>while (i < nSrcLen)\<close>; the memory at \<open>pSrc\<close> is the second argument. The sum \<open>i + 4\<close>
  is one of \<open>int\<close>, undefined where it overflows.
\<close>

function decode_ptr :: "int \<Rightarrow> int \<Rightarrow> string \<Rightarrow> byte list result" where
  "decode_ptr nSrcLen i pSrc =
     (if i < nSrcLen then
        (case pSrc of [] \<Rightarrow> Inl OutOfBounds
         | c # rest \<Rightarrow>
             if \<not> is_crlf c then
               (if i + 4 \<ge> 2 ^ 31 then Inl OutOfBounds
                else if i + 4 > nSrcLen then Inr []
                else bindE (de_group pSrc) (\<lambda>(bs, pSrc').
                  bindE (decode_ptr nSrcLen (i + 4) pSrc') (\<lambda>out. Inr (bs @ out))))
             else decode_ptr nSrcLen (i + 1) rest)
      else Inr [])"
  by pat_completeness auto
termination
  by (relation "measure (\<lambda>(n, i, src). nat (n - i))") auto

declare decode_ptr.simps [simp del]

text \<open>
  The string-level \<open>decode\<close>: the buffer has \<open>data.size()\<close> bytes and receives the result and
  a terminating NUL; the source is \<open>data.c_str()\<close>, with its own NUL.
\<close>

definition decode_str :: "string \<Rightarrow> byte list result" where
  "decode_str data =
     (if data = [] then Inr []
      else bindE (decode_ptr (int_of_size (length data)) 0 (data @ [CHR 0x00])) (\<lambda>out.
        if length out + 1 \<le> length data then Inr out else Inl OutOfBounds))"

text \<open>The largest length the string-level \<open>encode\<close> can take.\<close>

definition max_data :: nat where
  "max_data = 1533916887"


section \<open>The alphabet and groups of four\<close>

lemma DeBase64Tab_EnBase64Tab: "map (\<lambda>c. DeBase64Tab ! of_char c) EnBase64Tab = [0..<64]"
  by code_simp

lemma EnBase64Tab_chars:
  "list_all (\<lambda>c. of_char c < (128 :: nat) \<and> c \<noteq> CHR ''='' \<and> \<not> is_crlf c) EnBase64Tab"
  by (simp add: EnBase64Tab_def is_crlf_def)

lemma length_EnBase64Tab: "length EnBase64Tab = 64"
  by (simp add: EnBase64Tab_def)

lemma en_char_simps:
  assumes "unat v < 64"
  shows "de_char (en_char v) = Inr v" "en_char v \<noteq> CHR ''=''" "\<not> is_crlf (en_char v)"
proof -
  have "DeBase64Tab ! of_char (EnBase64Tab ! unat v) = unat v"
    using arg_cong[OF DeBase64Tab_EnBase64Tab, of "\<lambda>xs. xs ! unat v"] assms
    by (simp add: length_EnBase64Tab)
  moreover have "EnBase64Tab ! unat v \<in> set EnBase64Tab"
    using assms by (intro nth_mem) (simp add: length_EnBase64Tab)
  then have "of_char (EnBase64Tab ! unat v) < (128 :: nat) \<and> EnBase64Tab ! unat v \<noteq> CHR ''='' \<and>
      \<not> is_crlf (EnBase64Tab ! unat v)"
    using EnBase64Tab_chars by (simp add: list_all_iff)
  ultimately show "de_char (en_char v) = Inr v" "en_char v \<noteq> CHR ''=''" "\<not> is_crlf (en_char v)"
    by (simp_all add: en_char_def de_char_def Let_def)
qed

lemma en_char_and [simp]:
  "de_char (en_char (v AND 0x3f)) = Inr (v AND 0x3f)"
  "en_char (v AND 0x3f) \<noteq> CHR ''=''" "\<not> is_crlf (en_char (v AND 0x3f))"
  using unat_and_le[of v "0x3f"] by (simp_all add: en_char_simps)

lemma sextet_and:
  "drop_bit 2 (ucast (b1 :: byte) :: u32) = drop_bit 2 (ucast b1) AND 0x3f"
  "drop_bit 2 (ucast (b1 :: byte) AND 0xfc :: u32) = drop_bit 2 (ucast b1) AND 0x3f"
  "push_bit 4 (ucast (b1 :: byte) AND 0x03 :: u32) = push_bit 4 (ucast b1) AND 0x3f"
  "push_bit 2 (ucast (b1 :: byte) AND 0x0f :: u32) = push_bit 2 (ucast b1) AND 0x3f"
  "push_bit 4 (ucast (b1 :: byte)) AND 0x3f OR drop_bit 4 (ucast (b2 :: byte) AND 0xf0 :: u32) =
   (push_bit 4 (ucast b1) OR drop_bit 4 (ucast b2)) AND 0x3f"
  by (simp_all add: u32_bits)

definition sextet :: "u32 \<Rightarrow> bool" where
  "sextet v \<longleftrightarrow> v AND 0x3f = v"

lemma sextet_and63 [simp]: "sextet (v AND 0x3f)"
  by (simp add: sextet_def and.assoc)

lemma sextet_char:
  assumes "sextet v"
  shows "de_char (en_char v) = Inr v" "en_char v \<noteq> CHR ''=''" "\<not> is_crlf (en_char v)"
  using assms en_char_and[of v] by (simp_all only: sextet_def) simp_all

lemma sextet_bit: "sextet v \<Longrightarrow> 6 \<le> n \<Longrightarrow> \<not> bit v n"
proof -
  assume "sextet v" and n: "6 \<le> n"
  then have "bit v n = bit (v AND mask 6) n" by (simp add: sextet_def mask_eq_decr_exp)
  with n show "\<not> bit v n" by (simp add: bit_simps)
qed

text \<open>The three sums of the decoder add values with disjoint bits.\<close>

lemma sextet_sums:
  assumes "sextet a" "sextet b" "sextet c" "sextet d"
  shows "push_bit 18 a + push_bit 12 b = push_bit 18 a OR push_bit 12 b"
    and "(push_bit 18 a OR push_bit 12 b) + push_bit 6 c = push_bit 18 a OR push_bit 12 b OR push_bit 6 c"
    and "(push_bit 18 a OR push_bit 12 b OR push_bit 6 c) + d =
         push_bit 18 a OR push_bit 12 b OR push_bit 6 c OR d"
  by (simp_all only: or.assoc[symmetric])
    (rule disjunctive_add_eq_or; simp add: u32_bits sextet_bit assms)+

lemma de_group_sextets:
  assumes "sextet a" "sextet b"
  shows "de_group (en_char a # en_char b # CHR ''='' # rest) =
      Inr ([ucast (push_bit 2 a OR drop_bit 4 b)], CHR ''='' # rest)"
    and "sextet c \<Longrightarrow> de_group (en_char a # en_char b # en_char c # CHR ''='' # rest) =
      Inr ([ucast (push_bit 2 a OR drop_bit 4 b), ucast (push_bit 4 b OR drop_bit 2 c)],
           CHR ''='' # rest)"
    and "sextet c \<Longrightarrow> sextet d \<Longrightarrow>
      de_group (en_char a # en_char b # en_char c # en_char d # rest) =
      Inr ([ucast (push_bit 2 a OR drop_bit 4 b), ucast (push_bit 4 b OR drop_bit 2 c),
            ucast (push_bit 6 c OR d)], rest)"
  using assms
  by (simp_all add: Let_def sextet_char sextet_sums)
    (simp_all add: de_byte2_def de_byte1_def de_byte0_def byte_bits sextet_bit)

declare de_group.simps [simp del] en_rest.simps [simp del]

lemma en_quad_eq:
  "en_quad b1 b2 b3 =
     [en_char (drop_bit 2 (ucast b1) AND 0x3f),
      en_char ((push_bit 4 (ucast b1) OR drop_bit 4 (ucast b2)) AND 0x3f),
      en_char ((push_bit 2 (ucast b2) OR drop_bit 6 (ucast b3)) AND 0x3f),
      en_char (ucast b3 AND 0x3f)]"
  by (simp only: en_quad_def Let_def sextet_and(1)[symmetric])

lemma en_rest_eq:
  "en_rest [b1] =
     [en_char (drop_bit 2 (ucast b1) AND 0x3f), en_char (push_bit 4 (ucast b1) AND 0x3f),
      CHR ''='', CHR ''='']"
  "en_rest [b1, b2] =
     [en_char (drop_bit 2 (ucast b1) AND 0x3f),
      en_char ((push_bit 4 (ucast b1) OR drop_bit 4 (ucast b2)) AND 0x3f),
      en_char (push_bit 2 (ucast b2) AND 0x3f), CHR ''='']"
  by (simp_all only: en_rest.simps Let_def sextet_and(2-5))

lemma de_group_quad:
  "de_group (en_quad b1 b2 b3 @ rest) = Inr ([b1, b2, b3], rest)"
  by (simp add: en_quad_eq de_group_sextets) (simp add: byte_bits)

lemma de_group_rest:
  "de_group (en_rest [b1] @ rest) = Inr ([b1], ''=='' @ rest)"
  "de_group (en_rest [b1, b2] @ rest) = Inr ([b1, b2], ''='' @ rest)"
  by (simp_all add: en_rest_eq de_group_sextets)
    (simp_all add: byte_bits)

section \<open>The loops\<close>

lemma decode_ptr_crlf:
  "i < n \<Longrightarrow> is_crlf c \<Longrightarrow> decode_ptr n i (c # src) = decode_ptr n (i + 1) src"
  by (subst decode_ptr.simps) simp

lemma is_crlf_simps [simp]: "is_crlf (CHR 0x0D)" "is_crlf (CHR 0x0A)"
  by (simp_all add: is_crlf_def)

lemma decode_ptr_group:
  assumes "i + 4 \<le> n" "n < 2 ^ 31" "de_group src = Inr (bs, src')" "src \<noteq> []" "\<not> is_crlf (hd src)"
  shows "decode_ptr n i src = bindE (decode_ptr n (i + 4) src') (\<lambda>out. Inr (bs @ out))"
  using assms by (subst decode_ptr.simps) (auto split: list.splits)

lemma decode_ptr_end: "n \<le> i \<Longrightarrow> decode_ptr n i src = Inr []"
  by (subst decode_ptr.simps) simp

lemma en_quad_hd: "en_quad b1 b2 b3 \<noteq> []" "\<not> is_crlf (hd (en_quad b1 b2 b3))"
  by (simp_all add: en_quad_eq)

lemma en_rest_hd:
  "en_rest [b1] \<noteq> []" "\<not> is_crlf (hd (en_rest [b1]))"
  "en_rest [b1, b2] \<noteq> []" "\<not> is_crlf (hd (en_rest [b1, b2]))"
  by (simp_all add: en_rest_eq)

lemma length_quad [simp]:
  "length (en_quad b1 b2 b3) = 4" "length (en_rest [b1]) = 4" "length (en_rest [b1, b2]) = 4"
  "length (en_rest []) = 0"
  by (simp_all add: en_quad_eq en_rest_eq en_rest.simps)

lemma decode_ptr_encode_loop:
  "n = i + int (length (encode_loop nl k data)) \<Longrightarrow> n < 2 ^ 31 \<Longrightarrow>
   decode_ptr n i (encode_loop nl k data @ rest) = Inr data"
proof (induction nl k data arbitrary: i rest rule: encode_loop.induct)
  case (1 nl k b1 b2 b3 src)
  show ?case
  proof (cases "nl \<and> k + 4 > 72")
    case True
    with 1(3) have n: "n = i + 6 + int (length (encode_loop nl 0 src))" by (simp add: crlf_def)
    from 1(1)[OF True n 1(4)] True n 1(4) show ?thesis
      by (simp add: decode_ptr_group [OF _ _ de_group_quad] en_quad_hd decode_ptr_crlf crlf_def
          add.commute [of 6])
  next
    case False
    then have "encode_loop nl k (b1 # b2 # b3 # src) = en_quad b1 b2 b3 @ encode_loop nl (k + 4) src"
      by auto
    moreover from this 1(3) have n: "n = i + 4 + int (length (encode_loop nl (k + 4) src))" by simp
    ultimately show ?thesis using 1(2)[OF False n 1(4)] n 1(4)
      by (simp add: decode_ptr_group [OF _ _ de_group_quad] en_quad_hd)
  qed
qed (simp_all add: decode_ptr_group [OF _ _ de_group_rest(1)] decode_ptr_group [OF _ _ de_group_rest(2)]
   en_rest_hd decode_ptr_end en_rest.simps(3))

lemma length_encode_loop_plain:
  "length (encode_loop False k data) = 4 * ((length data + 2) div 3)"
proof (induction False k data rule: encode_loop.induct)
  case (1 k b1 b2 b3 src)
  then show ?case using div_add_self2[of 3 "length src + 2"] by simp
qed (simp_all add: en_rest.simps(3))

lemma length_encode_loop_lines:
  "m < 19 \<Longrightarrow> length (encode_loop True (4 * m) data) =
     4 * ((length data + 2) div 3) + 2 * ((m + length data div 3) div 19)"
proof (induction True "4 * m" data arbitrary: m rule: encode_loop.induct)
  case (1 b1 b2 b3 src)
  have len: "(length (b1 # b2 # b3 # src) + 2) div 3 = Suc ((length src + 2) div 3)"
    "length (b1 # b2 # b3 # src) div 3 = Suc (length src div 3)" by simp_all
  show ?case
  proof (cases "m = 18")
    case True
    then have "(m + Suc (length src div 3)) div 19 = Suc (length src div 3 div 19)" by simp
    with True 1(1)[of 0] show ?thesis unfolding len by (simp add: crlf_def)
  next
    case False
    with 1(3) have m: "\<not> (4 * m + 4 > 72)" "m + 1 < 19" by auto
    with 1(2)[of "m + 1"] show ?thesis unfolding len by (simp add: add.commute)
  qed
qed (simp_all add: en_rest.simps(3))

lemmas length_encode_loop = length_encode_loop_plain length_encode_loop_lines [of 0, simplified]

lemma buf_product:
  assumes "0 < n" "n \<le> 2 ^ 31"
  shows "\<exists>y. d_mul (d_int (int n)) (rnd False (7 / 5)) = DNum False y \<and>
    7 / 5 * of_nat n - 1 / 1000 \<le> y \<and> y \<le> 7 / 5 * of_nat n + 1 / 1000"
proof -
  define N :: rat where "N = of_nat n"
  have n: "n < 2 ^ 53" "N \<le> 2 ^ 31" "1 \<le> N"
    using assms of_nat_mono[of n "2 ^ 31", where 'a = rat] of_nat_mono[of 1 n, where 'a = rat] by (simp_all add: N_def)
  obtain c where c: "rnd False (7 / 5) = DNum False c" "\<bar>c - 7 / 5\<bar> \<le> 7 / 5 / 2 ^ 52"
    using rnd_near[of "7 / 5" False] by auto
  define x where "x = N * c"
  have "x - 7 / 5 * N = (c - 7 / 5) * N" by (simp add: x_def algebra_simps)
  then have "\<bar>x - 7 / 5 * N\<bar> = \<bar>c - 7 / 5\<bar> * N" using n(3) by (simp add: abs_mult)
  also have "\<dots> \<le> (7 / 5 / 2 ^ 52) * 2 ^ 31" using c(2) n(2,3) by (intro mult_mono) simp_all
  finally have "\<bar>x - 7 / 5 * N\<bar> \<le> 1 / 2000" by simp
  then have x: "7 / 5 * N - 1 / 2000 \<le> x" "x \<le> 7 / 5 * N + 1 / 2000" unfolding abs_le_iff by linarith+
  then have "1 \<le> x" "x < 2 ^ 1000" using n(2,3) by (auto intro: le_less_trans)
  then obtain y where y: "rnd False x = DNum False y" "\<bar>y - x\<bar> \<le> x / 2 ^ 52" using rnd_near by blast
  have "x / 2 ^ 52 \<le> 1 / 2000" using x(2) n(2) by simp
  then have "7 / 5 * N - 1 / 1000 \<le> y \<and> y \<le> 7 / 5 * N + 1 / 1000"
    using y(2) x unfolding abs_le_iff by linarith
  moreover have "d_mul (d_int (int n)) (rnd False (7 / 5)) = DNum False y"
    using y(1) by (simp add: d_int_nat[OF n(1)] c(1) x_def N_def)
  ultimately show ?thesis unfolding N_def by blast
qed

lemma encode_buf_size_bounds:
  assumes "0 < n" "n \<le> max_data"
  shows "\<exists>m. encode_buf_size n = Inr m \<and> 14 * n div 10 + 5 \<le> m"
proof -
  obtain y where y: "d_mul (d_int (int n)) (rnd False (7 / 5)) = DNum False y"
    "7 / 5 * of_nat n - 1 / 1000 \<le> y" "y \<le> 7 / 5 * of_nat n + 1 / 1000"
    using buf_product[of n] assms by (auto simp: max_data_def)
  have n: "(of_nat n :: rat) \<le> 1533916887"
    using assms(2) of_nat_mono[of n 1533916887, where 'a = rat] by (simp add: max_data_def)
  have f1: "14 * int n div 10 - 1 \<le> \<lfloor>y\<rfloor>"
  proof -
    have "10 * (14 * int n div 10) \<le> 14 * int n" by simp
    then have "(of_int (10 * (14 * int n div 10)) :: rat) \<le> of_int (14 * int n)" by (simp only: of_int_le_iff)
    then have "10 * of_int (14 * int n div 10) \<le> (14 * of_nat n :: rat)"
      by (simp only: of_int_mult of_int_numeral of_int_of_nat_eq)
    then have "of_int (14 * int n div 10) \<le> (7 / 5 * of_nat n :: rat)" by linarith
    then show ?thesis using y(2) by (simp add: le_floor_iff)
  qed
  have f2: "\<lfloor>y\<rfloor> \<le> 2147483641" using y(3) n by (simp add: floor_le_iff)
  have "(- (2 ^ 31) :: int) \<le> - 1" by simp
  also have "\<dots> \<le> 14 * int n div 10 - 1" by simp
  also note f1
  finally have "- (2 ^ 31) \<le> \<lfloor>y\<rfloor>" .
  then have "d_to_int (DNum False y) = Some \<lfloor>y\<rfloor>" using f2 by (simp only: d_to_int.simps Let_def) simp
  then have "encode_buf_size n = Inr (nat (\<lfloor>y\<rfloor> + 6))" using f2 y(1) by (simp add: encode_buf_size_def del: d_to_int.simps)
  moreover have "14 * n div 10 + 5 \<le> nat (\<lfloor>y\<rfloor> + 6)" using f1 by (simp add: le_nat_iff zdiv_int)
  ultimately show ?thesis by blast
qed

text \<open>The bound is exact: with one byte more the size does not fit \<open>int\<close>.\<close>

lemma encode_buf_size_overflow: "encode_buf_size (max_data + 1) = Inl OutOfBounds"
proof -
  obtain y where y: "d_mul (d_int (int (max_data + 1))) (rnd False (7 / 5)) = DNum False y"
    "7 / 5 * of_nat (max_data + 1) - 1 / 1000 \<le> y"
    using buf_product[of "max_data + 1"] by (auto simp: max_data_def)
  then have "2147483642 \<le> \<lfloor>y\<rfloor>" by (simp add: max_data_def le_floor_iff)
  then show ?thesis unfolding encode_buf_size_def y(1) by simp
qed

lemma length_encode_le: "length (encode_loop nl 0 data) + 1 \<le> 14 * length data div 10 + 5"
proof -
  have "4 * ((n + 2) div 3) + 2 * (n div 3 div 19) + 1 \<le> 14 * n div 10 + 5" for n :: nat
    by arith
  from this[of "length data"] show ?thesis by (cases nl) (auto simp: length_encode_loop)
qed

lemma int_of_size: "n < 2 ^ 31 \<Longrightarrow> int_of_size n = int n"
  by (simp add: int_of_size_def signed_of_nat signed_take_bit_int_eq_self)

lemma encode_str_loop:
  assumes "length data \<le> max_data"
  shows "encode_str data bChangeLine = Inr (if data = [] then [] else encode_loop bChangeLine 0 data)"
proof (cases "data = []")
  case False
  then obtain m where m: "encode_buf_size (length data) = Inr m" "14 * length data div 10 + 5 \<le> m"
    using encode_buf_size_bounds[of "length data"] assms by auto
  have "int_of_size (length data) = int (length data)" using assms by (intro int_of_size) (simp add: max_data_def)
  then show ?thesis using m length_encode_le[of bChangeLine data] False
    by (simp add: encode_str_def encode_ptr_def)
qed (simp add: encode_str_def)

lemma de_group_length: "de_group src = Inr (bs, src') \<Longrightarrow> length bs \<le> 3"
proof (induction src rule: de_group.induct)
  case (1 a b c p)
  then show ?case by (cases p) (auto simp: Let_def de_group.simps split: if_splits)
qed (simp_all add: de_group.simps)

lemma decode_ptr_InrE:
  assumes "decode_ptr n i src = Inr out"
  obtains (stop) "out = []"
  | (skip) c rest where "src = c # rest" "i < n" "is_crlf c" "decode_ptr n (i + 1) rest = Inr out"
  | (group) c rest bs src' out' where "src = c # rest" "i + 4 \<le> n" "\<not> is_crlf c"
      "de_group src = Inr (bs, src')" "decode_ptr n (i + 4) src' = Inr out'" "out = bs @ out'"
proof (cases "i < n")
  case False
  with assms stop show ?thesis by (simp add: decode_ptr_end)
next
  case i: True
  show ?thesis
  proof (cases src)
    case Nil
    with assms i show ?thesis by (simp add: decode_ptr.simps)
  next
    case (Cons c rest)
    show ?thesis
    proof (cases "is_crlf c")
      case True
      with assms Cons i skip show ?thesis by (simp add: decode_ptr_crlf)
    next
      case False
      with assms Cons i stop group show ?thesis
        by (subst (asm) decode_ptr.simps) (auto split: if_splits)
    qed
  qed
qed

lemma decode_ptr_length:
  "decode_ptr n i src = Inr out \<Longrightarrow> length out \<le> 3 * (nat (n - i) div 4)"
proof (induction "nat (n - i)" arbitrary: i src out rule: less_induct)
  case less
  from less.prems show ?case
  proof (cases rule: decode_ptr_InrE)
    case (skip c rest)
    then have "length out \<le> 3 * (nat (n - (i + 1)) div 4)" by (intro less.hyps) auto
    also have "\<dots> \<le> 3 * (nat (n - i) div 4)" by (intro mult_le_mono div_le_mono) auto
    finally show ?thesis .
  next
    case (group c rest bs src' out')
    then have "length out' \<le> 3 * (nat (n - (i + 4)) div 4)" by (intro less.hyps) auto
    moreover have "length bs \<le> 3" using group(4) by (rule de_group_length)
    moreover have "nat (n - i) div 4 = Suc (nat (n - (i + 4)) div 4)"
      using group(2) le_div_geq[of 4 "nat (n - i)"] by (simp add: diff_diff_eq nat_diff_distrib')
    ultimately show ?thesis using group(6) by simp
  qed simp
qed

section \<open>Properties\<close>

text \<open>
  C4. Decoding what \<open>encode\<close> produces gives the data back, for every string of up to
  \<open>max_data\<close> = 1533916887 bytes, with and without line breaks, and neither routine writes past
  the buffer its caller allocated. For longer strings the size of the buffer, computed in
  \<open>double\<close> and converted to \<open>int\<close>, overflows.
\<close>

theorem base64_roundtrip:
  assumes "length data \<le> max_data"
  shows "bindE (encode_str data bChangeLine) decode_str = Inr data"
proof (cases "data = []")
  case False
  let ?e = "encode_loop bChangeLine 0 data"
  have e: "encode_str data bChangeLine = Inr ?e" using encode_str_loop[OF assms] False by simp
  have "(length data + 2) div 3 \<le> 511305629" "length data div 3 div 19 \<le> 26910822"
    using assms div_le_mono[of "length data + 2" 1533916889 3] div_le_mono[OF div_le_mono[of "length data" 1533916887 3], of 19]
    by (simp_all add: max_data_def)
  then have "length ?e < 2 ^ 31 - 4" by (cases bChangeLine) (simp_all add: length_encode_loop)
  then have dec: "decode_ptr (int_of_size (length ?e)) 0 (?e @ [CHR 0x00]) = Inr data"
    by (intro decode_ptr_encode_loop) (simp_all add: int_of_size)
  moreover have "length data + 1 \<le> length ?e"
    using False by (cases bChangeLine; cases data) (auto simp: length_encode_loop)
  moreover from this have "?e \<noteq> []" by auto
  ultimately show ?thesis by (simp add: e decode_str_def)
qed (simp add: encode_str_def decode_str_def)

theorem base64_roundtrip_witness:
  "length [77 :: byte, 97, 110, 0] \<le> max_data \<and> bindE (encode_str [77, 97, 110, 0] True) decode_str = Inr [77, 97, 110, 0]"
proof
  show l: "length [77 :: byte, 97, 110, 0] \<le> max_data" by (simp add: max_data_def)
  show "bindE (encode_str [77, 97, 110, 0] True) decode_str = Inr [77, 97, 110, 0]" by (rule base64_roundtrip[OF l])
qed

text \<open>
  The exact length of the encoding: four characters for every three bytes begun, plus,
  with \<open>bChangeLine\<close>, a line break after every nineteen full groups; always less than the
  allocated buffer.
\<close>

lemma encode_str_length:
  "length data \<le> max_data \<Longrightarrow> \<exists>dst. encode_str data bChangeLine = Inr dst \<and>
     length dst = 4 * ((length data + 2) div 3) +
       (if bChangeLine then 2 * (length data div 3 div 19) else 0)"
  by (cases bChangeLine) (auto simp: encode_str_loop length_encode_loop)

lemma de_group_ascii:
  assumes "4 \<le> length src" "\<forall>c\<in>set src. of_char c < (128 :: nat)"
  shows "\<exists>bs src'. de_group src = Inr (bs, src') \<and> length src \<le> length src' + 4 \<and> set src' \<subseteq> set src"
proof -
  obtain a b c d rest where "src = a # b # c # d # rest"
    using assms(1) by (auto simp: numeral_eq_Suc Suc_le_length_iff)
  with assms(2) show ?thesis by (auto simp: de_group.simps de_char_def Let_def)
qed

lemma decode_ptr_ascii:
  "n < 2 ^ 31 - 4 \<Longrightarrow> n + 1 \<le> i + int (length src) \<Longrightarrow> \<forall>c\<in>set src. of_char c < (128 :: nat) \<Longrightarrow>
   \<exists>out. decode_ptr n i src = Inr out"
proof (induction "nat (n - i)" arbitrary: i src rule: less_induct)
  case less
  show ?case
  proof (cases "i < n")
    case i: True
    with less.prems obtain c rest where src: "src = c # rest" by (cases src) auto
    show ?thesis
    proof (cases "is_crlf c")
      case True
      have "\<exists>out. decode_ptr n (i + 1) rest = Inr out"
        using less.prems src i by (intro less.hyps) auto
      with True i src show ?thesis by (simp add: decode_ptr_crlf)
    next
      case nl: False
      show ?thesis
      proof (cases "i + 4 \<le> n")
        case True
        with less.prems obtain bs src' where g: "de_group src = Inr (bs, src')"
          "length src \<le> length src' + 4" "set src' \<subseteq> set src"
          using de_group_ascii[of src] by auto
        have "\<exists>out. decode_ptr n (i + 4) src' = Inr out"
          using less.prems g True by (intro less.hyps) auto
        with g(1) True nl src less.prems(1) show ?thesis by (auto simp: decode_ptr_group)
      next
        case False
        with i nl src less.prems(1) show ?thesis by (subst decode_ptr.simps) simp
      qed
    qed
  qed (simp add: decode_ptr_end)
qed

text \<open>
  On a string of 7-bit characters whose length fits \<open>int\<close>, well-formed or not, \<open>decode\<close> never reads outside
  its source or its table nor writes outside its buffer, and yields at most three bytes
  for four characters.
\<close>

lemma decode_str_ascii:
  assumes "length data < 2 ^ 31 - 4" "\<forall>c\<in>set data. of_char c < (128 :: nat)"
  shows "\<exists>out. decode_str data = Inr out \<and> 4 * length out \<le> 3 * length data"
proof (cases "data = []")
  case False
  have n: "int_of_size (length data) = int (length data)" using assms(1) by (simp add: int_of_size)
  have "\<exists>out. decode_ptr (int (length data)) 0 (data @ [CHR 0x00]) = Inr out"
    using assms by (intro decode_ptr_ascii) auto
  then obtain out where out: "decode_ptr (int (length data)) 0 (data @ [CHR 0x00]) = Inr out" ..
  from decode_ptr_length[OF out] have "length out \<le> 3 * (length data div 4)" by simp
  moreover have "length data \<noteq> 0" using False by simp
  ultimately have "length out + 1 \<le> length data" "4 * length out \<le> 3 * length data" by arith+
  with out False show ?thesis by (simp add: decode_str_def n)
qed (simp add: decode_str_def)

theorem decode_str_ascii_witness:
  "\<exists>out. decode_str ''TWFu'' = Inr out \<and> 4 * length out \<le> 3 * length ''TWFu''"
  by (rule decode_str_ascii) simp_all

text \<open>A byte above 127 is a negative index into the table.\<close>

lemma decode_str_high_byte: "decode_str (CHR 0xE4 # ''AAA'') = Inl OutOfBounds"
  by (simp add: decode_str_def int_of_size decode_ptr.simps de_group.simps de_char_def is_crlf_def)

end
