(* ===== verification/Client.thy ===== *)
theory Client
  imports Common
begin

text \<open>
  The TCP client of the load test (src/Client.cpp): the list of servers, the connection it
  keeps, and \<open>tcp_iot\<close>, which sends a request and waits for a line. What the system calls
  answer is an input. The reply handed out is always the 1024 bytes of the last segment
  received; a peer that closes the connection is waited for for ever.
\<close>

section \<open>The client\<close>

definition SDK_SUCCESS :: int where "SDK_SUCCESS = 0"
definition SDK_ERR_ADDRESS :: int where "SDK_ERR_ADDRESS = - 1000 - 7"
definition SDK_ERR_SOCKET :: int where "SDK_ERR_SOCKET = - 1000 - 8"

text \<open>
  \<open>connected\<close> tells what the kernel knows of the descriptor: whether \<open>connect\<close> succeeded on
  it. No line of the code reads it.
\<close>

record client =
  addrs :: "(string \<times> int) list"
  sockfd :: int
  connected :: bool

definition Client_new :: client where
  "Client_new = \<lparr>addrs = [], sockfd = - 1, connected = False\<rparr>"

definition AddServer :: "string \<Rightarrow> int \<Rightarrow> client \<Rightarrow> client" where
  "AddServer ip port c = c\<lparr>addrs := addrs c @ [(ip, port)]\<rparr>"

text \<open>What the system calls answer: \<open>recv\<close> a segment (empty when the peer has closed) or an error.\<close>

datatype recv_error = EAGAIN | EINTR | ENOENT | OtherErrno

datatype recv_answer = Segment string | RecvError recv_error

record net =
  socket_ret :: int
  rand_ret :: nat
  connect_ret :: int
  send_ret :: int
  recvs :: "recv_answer list"

definition GetServer :: "nat \<Rightarrow> client \<Rightarrow> (string \<times> int) option" where
  "GetServer r c = (if addrs c = [] then None else Some (addrs c ! (r mod length (addrs c))))"

text \<open>The code makes a connection when it has none; \<open>Inl\<close> is the value it returns at once.\<close>

definition connect_client :: "net \<Rightarrow> client \<Rightarrow> (int + unit) \<times> client" where
  "connect_client n c =
     (if sockfd c = - 1
      then let c = c\<lparr>sockfd := socket_ret n, connected := False\<rparr> in
           if sockfd c < 0 then (Inl SDK_ERR_SOCKET, c)
           else case GetServer (rand_ret n) c of
                  None \<Rightarrow> (Inl SDK_ERR_ADDRESS, c)
                | Some _ \<Rightarrow>
                    if connect_ret n < 0 then (Inl SDK_ERR_SOCKET, c\<lparr>sockfd := - 1\<rparr>)
                    else (Inr (), c\<lparr>connected := True\<rparr>)
      else (Inr (), c))"

definition zero_chunk :: string where
  "zero_chunk = replicate 1024 CHR 0x00"

text \<open>\<open>recv\<close> writes at most 1024 bytes over the cleared chunk.\<close>

definition chunk_of :: "string \<Rightarrow> string" where
  "chunk_of s = take 1024 (s @ zero_chunk)"

text \<open>
  The loop of \<open>tcp_iot\<close> over the answers of \<open>recv\<close>; \<open>None\<close> when it is still waiting after the
  last one. An unknown error falls through to the search in the cleared chunk. Copying a
  chunk without a null character reads beyond it.
\<close>

fun recv_loop :: "recv_answer list \<Rightarrow> string result option" where
  "recv_loop [] = None"
| "recv_loop (RecvError e # rs) =
     (case e of
        EAGAIN \<Rightarrow> Some (Inr zero_chunk)
      | EINTR \<Rightarrow> recv_loop rs
      | ENOENT \<Rightarrow> Some (Inr zero_chunk)
      | OtherErrno \<Rightarrow> if find_str (c_string zero_chunk) [CHR 0x0A] 0 \<noteq> None then Some (Inr zero_chunk) else recv_loop rs)"
| "recv_loop (Segment s # rs) =
     (if length s = 0 then recv_loop rs
      else let chunk = chunk_of s in
           if CHR 0x00 \<notin> set chunk then Some (Inl OutOfBounds)
           else if find_str (c_string chunk) [CHR 0x0A] 0 \<noteq> None then Some (Inr chunk)
           else recv_loop rs)"

text \<open>\<open>size\<close> is an \<open>unsigned int\<close>, compared with the length as a \<open>size_t\<close>.\<close>

definition tcp_iot :: "net \<Rightarrow> string \<Rightarrow> client \<Rightarrow> (int \<times> string) result option \<times> client" where
  "tcp_iot n send_buf c =
     (case connect_client n c of
        (Inl e, c) \<Rightarrow> (Some (Inr (e, [])), c)
      | (Inr _, c) \<Rightarrow>
          if send_ret n mod 2 ^ 32 \<noteq> int (length send_buf)
          then (Some (Inr (SDK_ERR_SOCKET, [])), c\<lparr>sockfd := - 1\<rparr>)
          else (map_option (\<lambda>r. bindE r (\<lambda>chunk. Inr (SDK_SUCCESS, chunk))) (recv_loop (recvs n)), c))"

section \<open>What comes back\<close>

text \<open>An answer the loop goes past: nothing, or a segment without a newline before its first null.\<close>

definition passed :: "recv_answer \<Rightarrow> bool" where
  "passed a = (case a of
       RecvError e \<Rightarrow> e = EINTR \<or> e = OtherErrno
     | Segment s \<Rightarrow> s = [] \<or> CHR 0x00 \<in> set (chunk_of s) \<and> CHR 0x0A \<notin> set (c_string (chunk_of s)))"

lemma find_newline: "find_str s [c] 0 \<noteq> None \<longleftrightarrow> c \<in> set s"
proof -
  have "index_str [c] s \<noteq> None \<longleftrightarrow> c \<in> set s" by (induction s) auto
  then show ?thesis by (simp add: find_str_def)
qed

lemma zero_no_newline: "CHR 0x0A \<notin> set (c_string zero_chunk)"
  using set_takeWhileD by (fastforce simp: c_string_def zero_chunk_def)

lemma recv_passed: "passed a \<Longrightarrow> recv_loop (a # rs) = recv_loop rs"
  using zero_no_newline
  by (cases a) (auto simp: passed_def find_newline[unfolded not_None_eq] Let_def split: recv_error.splits)

lemma recv_all_passed: "list_all passed as \<Longrightarrow> recv_loop (as @ rs) = recv_loop rs"
  by (induction as) (simp_all add: recv_passed)

lemma chunk_short: "length s < 1024 \<Longrightarrow> chunk_of s = s @ replicate (1024 - length s) CHR 0x00"
  by (simp add: chunk_of_def zero_chunk_def)

lemma chunk_ends: "length s < 1024 \<Longrightarrow> CHR 0x00 \<in> set (chunk_of s)"
  by (simp add: chunk_short)

lemma chunk_c_string: "length s < 1024 \<Longrightarrow> CHR 0x00 \<notin> set s \<Longrightarrow> c_string (chunk_of s) = s"
  by (auto simp: chunk_short c_string_def takeWhile_append takeWhile_eq_Nil_iff intro!: takeWhile_eq_all_conv[THEN iffD2])

lemma passed_text: "length s < 1024 \<Longrightarrow> CHR 0x00 \<notin> set s \<Longrightarrow> passed (Segment s) \<longleftrightarrow> CHR 0x0A \<notin> set s"
  by (auto simp: passed_def chunk_c_string chunk_ends)

lemma recv_line:
  assumes "length s < 1024" "CHR 0x00 \<notin> set s" "CHR 0x0A \<in> set s"
  shows "recv_loop (Segment s # rs) = Some (Inr (chunk_of s))"
  using assms find_newline[of s "CHR 0x0A"] by (auto simp: chunk_ends chunk_c_string)

text \<open>
  A connected client whose request was sent whole answers with success and the one segment
  in which the newline came, filled up with null characters to 1024 bytes: the segments before
  it are lost. On a timeout it answers with success and 1024 null characters. When the peer
  closes the connection before any newline, it never answers.
\<close>

lemma client_answers:
  assumes "sockfd c \<noteq> - 1" "send_ret n = int (length req)" "length req < 2 ^ 32" "list_all passed early"
    "length s < 1024" "CHR 0x00 \<notin> set s" "CHR 0x0A \<in> set s"
  shows "tcp_iot (n\<lparr>recvs := early @ Segment s # rs\<rparr>) req c =
      (Some (Inr (SDK_SUCCESS, s @ replicate (1024 - length s) CHR 0x00)), c) \<and>
    tcp_iot (n\<lparr>recvs := early @ RecvError EAGAIN # rs\<rparr>) req c = (Some (Inr (SDK_SUCCESS, replicate 1024 CHR 0x00)), c) \<and>
    tcp_iot (n\<lparr>recvs := early @ replicate k (Segment [])\<rparr>) req c = (None, c)"
proof -
  have sent: "send_ret n mod 2 ^ 32 = int (length req)" using assms(2,3) by simp
  have closed: "recv_loop (replicate k (Segment [])) = None" by (induction k) simp_all
  show ?thesis
    using assms(1) sent recv_line[OF assms(5,6,7)] closed
    by (simp add: tcp_iot_def connect_client_def recv_all_passed[OF assms(4)] chunk_short[OF assms(5)] zero_chunk_def
        del: replicate_0 replicate_Suc)
qed

definition quiet_net :: net where
  "quiet_net = \<lparr>socket_ret = 3, rand_ret = 0, connect_ret = 0, send_ret = 2, recvs = []\<rparr>"

definition live_client :: client where
  "live_client = \<lparr>addrs = [(''h'', 80)], sockfd = 3, connected = True\<rparr>"

text \<open>A client without a server keeps the socket it made, unconnected, and the next call sends on it.\<close>

lemma client_no_server:
  assumes "sockfd c = - 1" "addrs c = []" "socket_ret n \<ge> 0"
  shows "tcp_iot n req c = (Some (Inr (SDK_ERR_ADDRESS, [])), c\<lparr>sockfd := socket_ret n, connected := False\<rparr>) \<and>
    connect_client n (c\<lparr>sockfd := socket_ret n, connected := False\<rparr>) = (Inr (), c\<lparr>sockfd := socket_ret n, connected := False\<rparr>)"
  using assms by (simp add: tcp_iot_def connect_client_def GetServer_def Let_def)

text \<open>With at least one server the descriptor is connected whenever there is one.\<close>

lemma client_connected:
  assumes "sockfd c = - 1 \<or> connected c" "addrs c \<noteq> []" "tcp_iot n req c = (r, c')"
  shows "(sockfd c' < 0 \<or> connected c') \<and> addrs c' = addrs c"
  using assms
  by (auto simp: tcp_iot_def connect_client_def GetServer_def Let_def split: if_splits option.splits)

end
