(* ===== verification/Statistic.thy ===== *)
theory Statistic
  imports Prelude "HOL-Library.Signed_Division"
begin

text \<open>
  \<open>TestFrameStatistic\<close> (src/testframe.cpp): the counters every test thread updates under
  \<open>cMutex\<close> and the main thread prints and resets once a second. Each operation is one
  critical section, so it is one function of the state; what the threads do to the
  counters is a sequence of operations, and the counters are shown to be the aggregates
  of that sequence. \<open>int\<close> members are integers of 32 bits, whose sums wrap around
  (\<open>as_int\<close>), \<open>unsigned long long\<close> ones 64-bit words.
\<close>

section \<open>State and operations\<close>

text \<open>The value of an \<open>int\<close> of the target after an operation with result \<open>x\<close>.\<close>

definition as_int :: "int \<Rightarrow> int" where
  "as_int x = sint (word_of_int x :: 32 word)"

record statistic =
  cSuccessCount :: int
  cFailureCount :: int
  cTotalCount :: u64
  cTimeoutCount :: int
  cDelaySum :: u64
  cMaxDelayTime :: int
  cMinDelayTime :: int
  cSuccessCount_ps :: int
  cFailureCount_ps :: int
  cTotalCount_ps :: int
  cTimeoutCount_ps :: int
  cDelaySum_ps :: int
  cMaxDelayTime_ps :: int
  cMinDelayTime_ps :: int

definition TestFrameStatistic :: statistic where
  "TestFrameStatistic = \<lparr>
     cSuccessCount = 0, cFailureCount = 0, cTotalCount = 0, cTimeoutCount = 0,
     cDelaySum = 0, cMaxDelayTime = 0, cMinDelayTime = 999999999,
     cSuccessCount_ps = 0, cFailureCount_ps = 0, cTotalCount_ps = 0, cTimeoutCount_ps = 0,
     cDelaySum_ps = 0, cMaxDelayTime_ps = 0, cMinDelayTime_ps = 99999999\<rparr>"

definition IncreaseSuccessCount :: "statistic \<Rightarrow> statistic" where
  "IncreaseSuccessCount s = s\<lparr>
     cSuccessCount := as_int (cSuccessCount s + 1), cSuccessCount_ps := as_int (cSuccessCount_ps s + 1),
     cTotalCount := cTotalCount s + 1, cTotalCount_ps := as_int (cTotalCount_ps s + 1)\<rparr>"

definition IncreaseFailureCount :: "statistic \<Rightarrow> statistic" where
  "IncreaseFailureCount s = s\<lparr>
     cFailureCount := as_int (cFailureCount s + 1), cFailureCount_ps := as_int (cFailureCount_ps s + 1),
     cTotalCount := cTotalCount s + 1, cTotalCount_ps := as_int (cTotalCount_ps s + 1)\<rparr>"

text \<open>The first argument is \<open>cDelayThreshold\<close> of the frame; zero switches the test off.\<close>

definition is_timeout :: "int \<Rightarrow> int \<Rightarrow> bool" where
  "is_timeout threshold delay \<longleftrightarrow> threshold \<noteq> 0 \<and> delay > threshold"

definition UpdateDelay :: "int \<Rightarrow> int \<Rightarrow> statistic \<Rightarrow> statistic" where
  "UpdateDelay threshold delay s = s\<lparr>
     cDelaySum := cDelaySum s + word_of_int delay,
     cDelaySum_ps := as_int (cDelaySum_ps s + delay),
     cMaxDelayTime := (if delay > cMaxDelayTime s then delay else cMaxDelayTime s),
     cMinDelayTime := (if delay < cMinDelayTime s then delay else cMinDelayTime s),
     cMaxDelayTime_ps := (if delay > cMaxDelayTime_ps s then delay else cMaxDelayTime_ps s),
     cMinDelayTime_ps := (if delay < cMinDelayTime_ps s then delay else cMinDelayTime_ps s),
     cTimeoutCount := (if is_timeout threshold delay then as_int (cTimeoutCount s + 1) else cTimeoutCount s),
     cTimeoutCount_ps :=
       (if is_timeout threshold delay then as_int (cTimeoutCount_ps s + 1) else cTimeoutCount_ps s)\<rparr>"

text \<open>
  The figures \<open>Output\<close> prints: of the last second and of the whole run. The division of
  the former is on \<open>int\<close> (towards zero), that of the latter on \<open>unsigned long long\<close>. The
  numerator of \<open>delayHealth\<close> is given without the floating-point scaling that follows: it
  is computed on \<open>int\<close> for the last second, on \<open>unsigned long long\<close> for the whole run.
\<close>

record figures =
  f_success :: int
  f_failure :: int
  f_total :: int
  f_healthy :: int
  f_avg :: int
  f_max :: int
  f_min :: int

definition Output_ps :: "statistic \<Rightarrow> figures" where
  "Output_ps s = \<lparr>
     f_success = cSuccessCount_ps s, f_failure = cFailureCount_ps s, f_total = cTotalCount_ps s,
     f_healthy = as_int (cTotalCount_ps s - cTimeoutCount_ps s),
     f_avg = (if cTotalCount_ps s \<noteq> 0 then cDelaySum_ps s sdiv cTotalCount_ps s else 0),
     f_max = cMaxDelayTime_ps s, f_min = cMinDelayTime_ps s\<rparr>"

definition Output_all :: "statistic \<Rightarrow> figures" where
  "Output_all s = \<lparr>
     f_success = cSuccessCount s, f_failure = cFailureCount s,
     f_total = sint (ucast (cTotalCount s) :: 32 word),
     f_healthy = uint (cTotalCount s - word_of_int (cTimeoutCount s)),
     f_avg = (if cTotalCount s \<noteq> 0 then uint (cDelaySum s div cTotalCount s) else 0),
     f_max = cMaxDelayTime s, f_min = cMinDelayTime s\<rparr>"

definition Output_reset :: "statistic \<Rightarrow> statistic" where
  "Output_reset s = s\<lparr>
     cSuccessCount_ps := 0, cFailureCount_ps := 0, cTotalCount_ps := 0, cTimeoutCount_ps := 0,
     cDelaySum_ps := 0, cMaxDelayTime_ps := 0, cMinDelayTime_ps := 99999999\<rparr>"

text \<open>
  The delay of one execution in \<open>TestFrameThread::Execute\<close>, in milliseconds, from two
  readings of \<open>gettimeofday\<close>; the division of \<open>long\<close> values is towards zero, the result an \<open>int\<close>.
\<close>

record timeval =
  tv_sec :: int
  tv_usec :: int

definition exec_delay :: "timeval \<Rightarrow> timeval \<Rightarrow> int" where
  "exec_delay begin_t end_t =
     as_int (((tv_usec end_t + 1000000 * tv_sec end_t) - (tv_usec begin_t + 1000000 * tv_sec begin_t))
       sdiv 1000)"

section \<open>The counters are aggregates of what happened\<close>

text \<open>
  Every critical section on the counters: the threads' three and the reset of the main
  thread. A history is the sequence in which \<open>cMutex\<close> serialised them.
\<close>

datatype stat_op = Upd int | Succ | Fail | Reset

fun do_stat :: "int \<Rightarrow> stat_op \<Rightarrow> statistic \<Rightarrow> statistic" where
  "do_stat thr (Upd d) s = UpdateDelay thr d s"
| "do_stat thr Succ s = IncreaseSuccessCount s"
| "do_stat thr Fail s = IncreaseFailureCount s"
| "do_stat thr Reset s = Output_reset s"

definition stat_run :: "int \<Rightarrow> stat_op list \<Rightarrow> statistic" where
  "stat_run thr ops = fold (do_stat thr) ops TestFrameStatistic"

fun delays :: "stat_op list \<Rightarrow> int list" where
  "delays [] = []"
| "delays (Upd d # ops) = d # delays ops"
| "delays (_ # ops) = delays ops"

text \<open>The operations since the last reset.\<close>

fun last_second :: "stat_op list \<Rightarrow> stat_op list" where
  "last_second [] = []"
| "last_second (op # ops) =
     (if Reset \<in> set ops then last_second ops else if op = Reset then ops else op # ops)"

definition maxof :: "int \<Rightarrow> int list \<Rightarrow> int" where
  "maxof m ds = fold max ds m"

definition minof :: "int \<Rightarrow> int list \<Rightarrow> int" where
  "minof m ds = fold min ds m"

definition aggregate :: "int \<Rightarrow> stat_op list \<Rightarrow> statistic" where
  "aggregate thr ops = (let ps = last_second ops in \<lparr>
     cSuccessCount = as_int (int (count_list ops Succ)), cFailureCount = as_int (int (count_list ops Fail)),
     cTotalCount = of_nat (count_list ops Succ + count_list ops Fail),
     cTimeoutCount = as_int (int (length (filter (is_timeout thr) (delays ops)))),
     cDelaySum = word_of_int (sum_list (delays ops)),
     cMaxDelayTime = maxof 0 (delays ops), cMinDelayTime = minof 999999999 (delays ops),
     cSuccessCount_ps = as_int (int (count_list ps Succ)), cFailureCount_ps = as_int (int (count_list ps Fail)),
     cTotalCount_ps = as_int (int (count_list ps Succ + count_list ps Fail)),
     cTimeoutCount_ps = as_int (int (length (filter (is_timeout thr) (delays ps)))),
     cDelaySum_ps = as_int (sum_list (delays ps)),
     cMaxDelayTime_ps = maxof 0 (delays ps), cMinDelayTime_ps = minof 99999999 (delays ps)\<rparr>)"

lemma as_int_add [simp]: "as_int (as_int x + y) = as_int (x + y)" "as_int (y + as_int x) = as_int (y + x)"
  by (simp_all add: as_int_def)

lemma as_int_same: "- (2 ^ 31) \<le> x \<Longrightarrow> x < 2 ^ 31 \<Longrightarrow> as_int x = x"
  by (simp add: as_int_def signed_take_bit_int_eq_self sint_sbintrunc')

lemma as_int_0 [simp]: "as_int 0 = 0"
  by (simp add: as_int_def)

lemma delays_append [simp]: "delays (xs @ ys) = delays xs @ delays ys"
  by (induction xs rule: delays.induct) auto

lemma maxof_snoc [simp]: "maxof m (ds @ [d]) = (if d > maxof m ds then d else maxof m ds)"
  by (simp add: maxof_def max_def)

lemma minof_snoc [simp]: "minof m (ds @ [d]) = (if d < minof m ds then d else minof m ds)"
  by (simp add: minof_def min_def)

lemma maxof_nil [simp]: "maxof m [] = m" and minof_nil [simp]: "minof m [] = m"
  by (simp_all add: maxof_def minof_def)

lemma last_second_snoc [simp]:
  "last_second (ops @ [op]) = (if op = Reset then [] else last_second ops @ [op])"
  by (induction ops) auto

lemma stat_run_snoc: "stat_run thr (ops @ [op]) = do_stat thr op (stat_run thr ops)"
  by (simp add: stat_run_def)

lemmas stat_defs =
  IncreaseSuccessCount_def IncreaseFailureCount_def UpdateDelay_def Output_reset_def

text \<open>
  Whatever the interleaving of the threads and of the once-a-second reset, the counters
  are the aggregates of the history: successes, failures and their total, the number of
  delays above the threshold, sum, maximum and minimum of the delays, each over the whole
  run and over the operations since the last reset.
\<close>

lemma statistic_aggregates: "stat_run thr ops = aggregate thr ops"
proof (induction ops rule: rev_induct)
  case Nil
  then show ?case by (simp add: stat_run_def aggregate_def TestFrameStatistic_def)
next
  case (snoc op ops)
  then show ?case
    by (cases op) (simp_all add: stat_run_snoc stat_defs aggregate_def Let_def ac_simps)
qed

end
