(* ===== verification/Test_Frame.thy ===== *)
theory Test_Frame
  imports Statistic
begin

text \<open>
  The load-test frame (src/testframe.cpp, with the atomic counter and the condition of
  src/testsynch.h): \<open>TestFrame\<close> with its setters, \<open>TestFrame::Run\<close> as the program of the
  main thread and \<open>TestFrameThread::RunX\<close> with \<open>Execute\<close> as the program of every test
  thread. A program counter names the source line a thread stands before; one step
  executes one access to the shared state (an \<open>AtomicCounter\<close> operation, taking or
  releasing \<open>cLock\<close>, falling asleep on or broadcasting \<open>cCond\<close>, a critical section of the
  statistics), so that every interleaving of the source is a sequence of steps. What the
  test case returns, the delays and the clock are inputs of the steps.
\<close>

section \<open>The frame and its setters\<close>

datatype tid = Main | Thread nat

text \<open>\<open>cLock\<close> is the owner of the mutex; \<open>cpTestCase\<close> tells whether the pointer is set.\<close>

record TestFrame =
  cpTestCase :: bool
  cTestFrameStatistic :: statistic
  cDelayThreshold :: int
  cThreadNum :: int
  cRepeatCountConst :: int
  cDurationTime :: int
  cFrequenceConst :: int
  cFrequence :: int
  cRepeatCount :: int
  cLock :: "tid option"

definition TestFrame_new :: TestFrame where
  "TestFrame_new = \<lparr>
     cpTestCase = False, cTestFrameStatistic = TestFrameStatistic, cDelayThreshold = 0,
     cThreadNum = 10, cRepeatCountConst = 0, cDurationTime = 0, cFrequenceConst = 0,
     cFrequence = 0, cRepeatCount = 0, cLock = None\<rparr>"

definition SetTestCase :: "TestFrame \<Rightarrow> TestFrame" where
  "SetTestCase f = f\<lparr>cpTestCase := True\<rparr>"

definition SetThreadNum :: "int \<Rightarrow> TestFrame \<Rightarrow> TestFrame" where
  "SetThreadNum num f = f\<lparr>cThreadNum := num\<rparr>"

definition SetRepeatCount :: "int \<Rightarrow> TestFrame \<Rightarrow> TestFrame" where
  "SetRepeatCount n f = f\<lparr>cRepeatCount := n, cRepeatCountConst := n\<rparr>"

definition SetDurationTime :: "int \<Rightarrow> TestFrame \<Rightarrow> TestFrame" where
  "SetDurationTime seconds f = f\<lparr>cDurationTime := seconds\<rparr>"

definition SetFrequence :: "int \<Rightarrow> TestFrame \<Rightarrow> TestFrame" where
  "SetFrequence frequence f = f\<lparr>cFrequenceConst := frequence\<rparr>"

definition SetDelayThreshold :: "int \<Rightarrow> TestFrame \<Rightarrow> TestFrame" where
  "SetDelayThreshold threshold f = f\<lparr>cDelayThreshold := threshold\<rparr>"

text \<open>\<open>AtomicCounter\<close>: each operation holds the counter's own lock for its whole body.\<close>

definition counter_dec :: "int \<Rightarrow> int \<times> int" where
  "counter_dec ciCount = (ciCount - 1, ciCount - 1)"

section \<open>A test thread\<close>

text \<open>
  The points of \<open>TestFrameThread::RunX\<close> (and of \<open>Execute\<close>, which it calls), each with the
  local \<open>rc\<close> where it is live. \<open>BSleep\<close> and \<open>FSleep\<close> are inside \<open>cCond.Wait\<close>, waiting to be
  woken; \<open>BWake\<close> and \<open>FWake\<close> are inside it, woken and waiting for the lock.
\<close>

datatype pc =
    TInit
  | BLock | BPre | BWait int | BSleep int | BWake int | BUnlock int
  | Loop int
  | FLock int | FTest int | FWait int | FSleep int | FWake int
  | FDec int | FCheck int | FCont int | FUnlock int
  | RTest int
  | Exec | Upd_pc int int | Incr int
  | Finished int

definition acquire :: "tid \<Rightarrow> TestFrame \<Rightarrow> pc \<Rightarrow> (TestFrame \<times> pc) option" where
  "acquire i f p = (if cLock f = None then Some (f\<lparr>cLock := Some i\<rparr>, p) else None)"

text \<open>
  One step of thread \<open>t\<close>. The inputs \<open>rc\<close> and \<open>delay\<close> are what the test case returns and
  the milliseconds it took; only the steps that call it use them.
\<close>

fun thread_step :: "nat \<Rightarrow> int \<Rightarrow> int \<Rightarrow> TestFrame \<Rightarrow> pc \<Rightarrow> (TestFrame \<times> pc) option" where
  "thread_step t rc' delay f TInit = Some (f, BLock)"
| "thread_step t rc' delay f BLock = acquire (Thread t) f BPre"
| "thread_step t rc' delay f BPre = Some (f, BWait rc')"
| "thread_step t rc' delay f (BWait rc) = Some (f\<lparr>cLock := None\<rparr>, BSleep rc)"
| "thread_step t rc' delay f (BSleep rc) = None"
| "thread_step t rc' delay f (BWake rc) = acquire (Thread t) f (BUnlock rc)"
| "thread_step t rc' delay f (BUnlock rc) =
     Some (f\<lparr>cLock := None\<rparr>, if rc \<noteq> 0 then Finished (- 1) else Loop rc)"
| "thread_step t rc' delay f (Loop rc) =
     Some (f, if cFrequenceConst f > 0 then FLock rc else RTest rc)"
| "thread_step t rc' delay f (FLock rc) = acquire (Thread t) f (FTest rc)"
| "thread_step t rc' delay f (FTest rc) =
     Some (f, if cFrequence f < 0 then FWait rc else FDec rc)"
| "thread_step t rc' delay f (FWait rc) = Some (f\<lparr>cLock := None\<rparr>, FSleep rc)"
| "thread_step t rc' delay f (FSleep rc) = None"
| "thread_step t rc' delay f (FWake rc) = acquire (Thread t) f (FDec rc)"
| "thread_step t rc' delay f (FDec rc) =
     Some (f\<lparr>cFrequence := fst (counter_dec (cFrequence f))\<rparr>, FCheck rc)"
| "thread_step t rc' delay f (FCheck rc) =
     Some (f, if cFrequence f < 0 then FCont rc else FUnlock rc)"
| "thread_step t rc' delay f (FCont rc) = Some (f\<lparr>cLock := None\<rparr>, Loop rc)"
| "thread_step t rc' delay f (FUnlock rc) = Some (f\<lparr>cLock := None\<rparr>, RTest rc)"
| "thread_step t rc' delay f (RTest rc) =
     (if cRepeatCountConst f > 0
      then let (n, v) = counter_dec (cRepeatCount f)
           in Some (f\<lparr>cRepeatCount := n\<rparr>, if v < 0 then Finished rc else Exec)
      else Some (f, Exec))"
| "thread_step t rc' delay f Exec = Some (f, Upd_pc delay rc')"
| "thread_step t rc' delay f (Upd_pc d rc) =
     Some (f\<lparr>cTestFrameStatistic := UpdateDelay (cDelayThreshold f) d (cTestFrameStatistic f)\<rparr>,
           Incr rc)"
| "thread_step t rc' delay f (Incr rc) =
     Some (f\<lparr>cTestFrameStatistic :=
             (if rc = 0 then IncreaseSuccessCount else IncreaseFailureCount)
               (cTestFrameStatistic f)\<rparr>,
           Loop rc)"
| "thread_step t rc' delay f (Finished rc) = None"

section \<open>The main thread and the system\<close>

text \<open>
  The points of \<open>TestFrame::Run\<close>, with the locals \<open>begin\<close> and \<open>lasttime\<close> (\<open>now\<close> where the
  latter is about to be assigned). \<open>MReturn\<close> is a return, \<open>MExit\<close> the end of the process.
\<close>

datatype mpc =
    MRun | MCreate nat | MSleep | MFreq | MBcast | MTime
  | MLoop int int
  | MOutput int int | MReset int int | MCount int int | MDuration int int
  | MLimit int int | MRefill int int | MBroad int int | MUnlock int int
  | MReturn int | MExit int

text \<open>
  \<open>refills\<close> counts the assignments of \<open>cFrequenceConst\<close> to \<open>cFrequence\<close>, \<open>executed\<close> the calls of
  \<open>Execute\<close> whose result was counted; no step reads them.
\<close>

record sys =
  frame :: TestFrame
  main :: mpc
  threads :: "pc list"
  refills :: nat
  executed :: int

fun counting :: "pc \<Rightarrow> bool" where
  "counting (Incr _) = True"
| "counting _ = False"

fun woken :: "pc \<Rightarrow> pc" where
  "woken (BSleep rc) = BWake rc"
| "woken (FSleep rc) = FWake rc"
| "woken p = p"

definition Broadcast :: "pc list \<Rightarrow> pc list" where
  "Broadcast ps = List.map woken ps"

definition refill :: "sys \<Rightarrow> sys" where
  "refill s = s\<lparr>frame := (frame s)\<lparr>cFrequence := cFrequenceConst (frame s)\<rparr>,
                refills := refills s + 1\<rparr>"

text \<open>
  One step of the main thread; the input \<open>n\<close> is what \<open>pthread_create\<close> returns where a thread
  is created and what \<open>time\<close> returns where the clock is read.
\<close>

fun main_step :: "int \<Rightarrow> sys \<Rightarrow> mpc \<Rightarrow> sys option" where
  "main_step n s MRun =
     Some (s\<lparr>main := if cpTestCase (frame s) then MCreate 0 else MReturn (- 1)\<rparr>)"
| "main_step n s (MCreate k) =
     (if int k < cThreadNum (frame s)
      then Some (if n \<noteq> 0 then s\<lparr>main := MExit (- 1)\<rparr>
                 else s\<lparr>main := MCreate (k + 1), threads := threads s @ [TInit]\<rparr>)
      else Some (s\<lparr>main := MSleep\<rparr>))"
| "main_step n s MSleep = Some (s\<lparr>main := MFreq\<rparr>)"
| "main_step n s MFreq =
     Some ((if cFrequenceConst (frame s) > 0 then refill s else s)\<lparr>main := MBcast\<rparr>)"
| "main_step n s MBcast = Some (s\<lparr>main := MTime, threads := Broadcast (threads s)\<rparr>)"
| "main_step n s MTime = Some (s\<lparr>main := MLoop n n\<rparr>)"
| "main_step n s (MLoop b l) =
     Some (s\<lparr>main := if n - l \<ge> 1 then MOutput b n else MLoop b l\<rparr>)"
| "main_step n s (MOutput b now) = Some (s\<lparr>main := if now > b then MReset b now else MCount b now\<rparr>)"
| "main_step n s (MReset b now) =
     Some (s\<lparr>main := MCount b now, frame := (frame s)\<lparr>cTestFrameStatistic :=
             Output_reset (cTestFrameStatistic (frame s))\<rparr>\<rparr>)"
| "main_step n s (MCount b now) =
     Some (s\<lparr>main := if cRepeatCountConst (frame s) > 0 \<and> cRepeatCount (frame s) \<le> 0
                     then MExit 0 else MDuration b now\<rparr>)"
| "main_step n s (MDuration b now) =
     Some (s\<lparr>main := if cDurationTime (frame s) > 0 \<and> now - b \<ge> cDurationTime (frame s)
                     then MExit 0 else MLimit b now\<rparr>)"
| "main_step n s (MLimit b now) =
     (if cFrequenceConst (frame s) > 0
      then (if cLock (frame s) = None
            then Some (s\<lparr>frame := (frame s)\<lparr>cLock := Some Main\<rparr>, main := MRefill b now\<rparr>)
            else None)
      else Some (s\<lparr>main := MLoop b now\<rparr>))"
| "main_step n s (MRefill b now) = Some ((refill s)\<lparr>main := MBroad b now\<rparr>)"
| "main_step n s (MBroad b now) =
     Some (s\<lparr>main := MUnlock b now, threads := Broadcast (threads s)\<rparr>)"
| "main_step n s (MUnlock b now) =
     Some (s\<lparr>frame := (frame s)\<lparr>cLock := None\<rparr>, main := MLoop b now\<rparr>)"
| "main_step n s (MReturn rc) = None"
| "main_step n s (MExit rc) = None"

datatype event = EvMain int | EvThread nat int int | EvSpurious nat

text \<open>
  A step of the system. \<open>EvSpurious\<close> is a wake-up that POSIX allows and no broadcast caused.
  Nothing runs once the process has exited.
\<close>

definition exited :: "mpc \<Rightarrow> bool" where
  "exited m = (case m of MExit rc \<Rightarrow> True | _ \<Rightarrow> False)"

fun sys_step :: "event \<Rightarrow> sys \<Rightarrow> sys option" where
  "sys_step (EvMain n) s = main_step n s (main s)"
| "sys_step (EvThread t rc delay) s =
     (if t < length (threads s) \<and> \<not> exited (main s)
      then (case thread_step t rc delay (frame s) (threads s ! t) of
              None \<Rightarrow> None
            | Some (f, p) \<Rightarrow> Some (s\<lparr>frame := f, threads := (threads s)[t := p],
                                  executed := executed s + of_bool (counting (threads s ! t))\<rparr>))
      else None)"
| "sys_step (EvSpurious t) s =
     (if t < length (threads s) \<and> \<not> exited (main s)
      then Some (s\<lparr>threads := (threads s)[t := woken (threads s ! t)]\<rparr>)
      else None)"

definition configured :: "int \<Rightarrow> int \<Rightarrow> int \<Rightarrow> int \<Rightarrow> int \<Rightarrow> TestFrame" where
  "configured threadnum repeat duration frequence threshold =
     SetDelayThreshold threshold (SetFrequence frequence (SetDurationTime duration
       (SetRepeatCount repeat (SetThreadNum threadnum (SetTestCase TestFrame_new)))))"

definition start :: "TestFrame \<Rightarrow> sys" where
  "start f = \<lparr>frame = f, main = MRun, threads = [], refills = 0, executed = 0\<rparr>"

fun run :: "event list \<Rightarrow> sys \<Rightarrow> sys option" where
  "run [] s = Some s"
| "run (ev # evs) s = (case sys_step ev s of None \<Rightarrow> None | Some s' \<Rightarrow> run evs s')"

text \<open>
  What can happen from the frame \<open>f\<close>, with (\<open>sp\<close>) or without spurious wake-ups.
\<close>

inductive reachable :: "bool \<Rightarrow> TestFrame \<Rightarrow> sys \<Rightarrow> bool" for sp f where
  reach_start: "reachable sp f (start f)"
| reach_step: "reachable sp f s \<Longrightarrow> sys_step ev s = Some s' \<Longrightarrow>
     (sp \<or> (\<forall>t. ev \<noteq> EvSpurious t)) \<Longrightarrow> reachable sp f s'"

section \<open>Counting threads by where they are\<close>

definition num :: "(pc \<Rightarrow> bool) \<Rightarrow> pc list \<Rightarrow> int" where
  "num P ps = int (length (filter P ps))"

lemma num_nonneg: "0 \<le> num P ps"
  by (simp add: num_def)

lemma num_le_length: "num P ps \<le> int (length ps)"
  by (simp add: num_def)

lemma num_nil [simp]: "num P [] = 0"
  by (simp add: num_def)

lemma num_snoc [simp]: "num P (ps @ [p]) = num P ps + of_bool (P p)"
  by (simp add: num_def)

lemma num_update:
  "t < length ps \<Longrightarrow> num P (ps[t := p]) = num P ps + of_bool (P p) - of_bool (P (ps ! t))"
proof (induction ps arbitrary: t)
  case (Cons x xs)
  then show ?case by (cases t) (auto simp: num_def)
qed simp

text \<open>A wake-up does not change a count that treats sleeping and woken threads alike.\<close>

definition wake_blind :: "(pc \<Rightarrow> bool) \<Rightarrow> bool" where
  "wake_blind P \<longleftrightarrow> (\<forall>p. P (woken p) = P p)"

lemma num_broadcast: "wake_blind P \<Longrightarrow> num P (Broadcast ps) = num P ps"
  by (induction ps) (auto simp: num_def wake_blind_def Broadcast_def)

lemma num_woken:
  "t < length ps \<Longrightarrow> wake_blind P \<Longrightarrow> num P (ps[t := woken (ps ! t)]) = num P ps"
  by (simp add: num_update wake_blind_def)

lemmas num_simps = num_update num_woken num_broadcast

fun in_flight :: "pc \<Rightarrow> bool" where
  "in_flight Exec = True"
| "in_flight (Upd_pc _ _) = True"
| "in_flight (Incr _) = True"
| "in_flight _ = False"

fun finished :: "pc \<Rightarrow> bool" where
  "finished (Finished _) = True"
| "finished _ = False"

fun holds_lock :: "pc \<Rightarrow> bool" where
  "holds_lock BPre = True"
| "holds_lock (BWait _) = True"
| "holds_lock (BUnlock _) = True"
| "holds_lock (FTest _) = True"
| "holds_lock (FWait _) = True"
| "holds_lock (FDec _) = True"
| "holds_lock (FCheck _) = True"
| "holds_lock (FCont _) = True"
| "holds_lock (FUnlock _) = True"
| "holds_lock _ = False"

fun main_holds :: "mpc \<Rightarrow> bool" where
  "main_holds (MRefill _ _) = True"
| "main_holds (MBroad _ _) = True"
| "main_holds (MUnlock _ _) = True"
| "main_holds _ = False"

fun is_woken :: "pc \<Rightarrow> bool" where
  "is_woken (BWake _) = True" | "is_woken (FWake _) = True" | "is_woken _ = False"

lemma wake_blind_simps [simp]:
  "wake_blind in_flight" "wake_blind finished" "wake_blind holds_lock"
proof -
  have "in_flight (woken p) = in_flight p" "finished (woken p) = finished p"
    "holds_lock (woken p) = holds_lock p" for p by (cases p; simp)+
  then show "wake_blind in_flight" "wake_blind finished" "wake_blind holds_lock"
    by (simp_all add: wake_blind_def)
qed

lemma sys_stepE:
  assumes "sys_step ev s = Some s'"
  obtains (main) n where "ev = EvMain n" "main_step n s (main s) = Some s'"
  | (thread) t rc d f p where "ev = EvThread t rc d" "t < length (threads s)"
      "thread_step t rc d (frame s) (threads s ! t) = Some (f, p)"
      "s' = s\<lparr>frame := f, threads := (threads s)[t := p], executed := executed s + of_bool (counting (threads s ! t))\<rparr>"
  | (spurious) t where "ev = EvSpurious t" "t < length (threads s)"
      "s' = s\<lparr>threads := (threads s)[t := woken (threads s ! t)]\<rparr>"
  using assms
  by (cases ev) (auto split: if_splits option.splits prod.splits)

definition config :: "TestFrame \<Rightarrow> int \<times> int \<times> int \<times> int \<times> int" where
  "config f = (cThreadNum f, cRepeatCountConst f, cDurationTime f, cFrequenceConst f,
               cDelayThreshold f)"

lemma thread_step_config:
  "thread_step t rc d f p = Some (f', p') \<Longrightarrow> config f' = config f"
  by (cases p) (auto simp: config_def acquire_def Let_def counter_dec_def split: if_splits)

lemma main_step_config:
  "main_step n s m = Some s' \<Longrightarrow> config (frame s') = config (frame s)"
  by (cases m) (auto simp: config_def refill_def split: if_splits)

lemma reachable_config: "reachable sp f s \<Longrightarrow> config (frame s) = config f"
proof (induction rule: reachable.induct)
  case (reach_step s ev s')
  from reach_step.hyps(2) show ?case
    by (cases rule: sys_stepE) (use reach_step.IH in \<open>auto dest: thread_step_config main_step_config\<close>)
qed (simp add: start_def)

section \<open>The number of executions\<close>

text \<open>Executions counted, executions under way, and tickets left.\<close>

definition tickets :: "sys \<Rightarrow> int" where
  "tickets s = executed s + num in_flight (threads s) + max 0 (cRepeatCount (frame s))"

lemma thread_step_tickets:
  "thread_step t rc d f p = Some (f', p') \<Longrightarrow> 0 < cRepeatCountConst f \<Longrightarrow>
   of_bool (counting p) + of_bool (in_flight p') + max 0 (cRepeatCount f') =
   of_bool (in_flight p) + max 0 (cRepeatCount f)"
  by (cases p) (auto simp: acquire_def counter_dec_def split: if_splits)

lemma main_step_tickets: "main_step n s m = Some s' \<Longrightarrow> tickets s' = tickets s"
  by (cases m)
    (auto simp: tickets_def num_simps refill_def Output_reset_def split: if_splits)

lemma step_tickets:
  assumes "sys_step ev s = Some s'" "0 < cRepeatCountConst (frame s)"
  shows "tickets s' = tickets s"
  using assms(1)
proof (cases rule: sys_stepE)
  case (thread t rc d f p)
  from thread_step_tickets[OF thread(3) assms(2)] thread(2,4) show ?thesis
    by (simp add: tickets_def num_simps)
next
  case (spurious t)
  then show ?thesis by (simp add: tickets_def num_woken)
qed (rule main_step_tickets)


lemma reachable_tickets:
  "reachable sp f s \<Longrightarrow> 0 < cRepeatCountConst f \<Longrightarrow> tickets s = tickets (start f)"
proof (induction rule: reachable.induct)
  case (reach_step s ev s')
  from reachable_config[OF reach_step.hyps(1)] have "0 < cRepeatCountConst (frame s)"
    using reach_step.prems by (simp add: config_def)
  with reach_step show ?case using step_tickets by simp
qed simp

lemma configured_simps [simp]:
  "cRepeatCountConst (configured th n d fr thr) = n" "cRepeatCount (configured th n d fr thr) = n"
  "cFrequenceConst (configured th n d fr thr) = fr" "cFrequence (configured th n d fr thr) = 0"
  "cLock (configured th n d fr thr) = None"
  "cThreadNum (configured th n d fr thr) = th" "cDelayThreshold (configured th n d fr thr) = thr"
  "cTestFrameStatistic (configured th n d fr thr) = TestFrameStatistic"
  by (simp_all add: configured_def SetDelayThreshold_def SetFrequence_def SetDurationTime_def
      SetRepeatCount_def SetThreadNum_def SetTestCase_def TestFrame_new_def
      TestFrameStatistic_def)

lemma start_simps [simp]:
  "frame (start f) = f" "threads (start f) = []" "main (start f) = MRun" "refills (start f) = 0"
  "executed (start f) = 0"
  by (simp_all add: start_def)

text \<open>
  C5. With a repeat count \<open>n\<close> the test case is executed at most \<open>n\<close> times, whatever the
  interleaving and however many threads there are; and once the counter is used up and no
  execution is under way, exactly \<open>n\<close> times.
\<close>

theorem repeat_count_exact:
  assumes "0 < n" "reachable sp (configured th n d fr thr) s"
  shows "executed s \<le> n - num in_flight (threads s) \<and>
    (cRepeatCount (frame s) \<le> 0 \<longrightarrow> executed s = n - num in_flight (threads s))"
  using reachable_tickets[OF assms(2)] assms(1) by (auto simp: tickets_def split: split_max)

section \<open>The mutex\<close>

fun holder :: "sys \<Rightarrow> tid \<Rightarrow> bool" where
  "holder s Main = main_holds (main s)"
| "holder s (Thread t) = (t < length (threads s) \<and> holds_lock (threads s ! t))"

definition lock_inv :: "sys \<Rightarrow> bool" where
  "lock_inv s \<longleftrightarrow> (\<forall>i. holder s i \<longleftrightarrow> cLock (frame s) = Some i)"

lemma thread_step_lock:
  assumes "thread_step t rc d f p = Some (f', p')"
  obtains (keep) "cLock f' = cLock f" "holds_lock p' = holds_lock p"
  | (take) "cLock f = None" "cLock f' = Some (Thread t)" "holds_lock p'"
  | (release) "cLock f' = None" "holds_lock p" "\<not> holds_lock p'"
  using assms by (cases p) (auto simp: acquire_def counter_dec_def split: if_splits)

lemma holds_lock_woken [simp]: "holds_lock (woken p) = holds_lock p"
  using wake_blind_simps(3) by (simp add: wake_blind_def)

lemma holder_thread_update:
  "t < length (threads s) \<Longrightarrow>
   holder (s\<lparr>frame := f, threads := (threads s)[t := p], executed := k\<rparr>) i =
     (if i = Thread t then holds_lock p else holder s i)"
  by (cases i) auto

lemma thread_step_lock_inv:
  assumes "lock_inv s" "t < length (threads s)"
    "thread_step t rc d (frame s) (threads s ! t) = Some (f, p)"
  shows "lock_inv (s\<lparr>frame := f, threads := (threads s)[t := p], executed := k\<rparr>)"
proof -
  have iff: "holder s i \<longleftrightarrow> cLock (frame s) = Some i" for i
    using assms(1) unfolding lock_inv_def by blast
  have upd: "lock_inv (s\<lparr>frame := f, threads := (threads s)[t := p], executed := k\<rparr>) \<longleftrightarrow>
      (\<forall>i. (if i = Thread t then holds_lock p else holder s i) \<longleftrightarrow> cLock f = Some i)"
    unfolding lock_inv_def holder_thread_update[OF assms(2)] by simp
  from assms(3) show ?thesis
proof (cases rule: thread_step_lock)
  case keep
  have "holder s (Thread t) \<longleftrightarrow> holds_lock (threads s ! t)" using assms(2) by simp
  then have "(if i = Thread t then holds_lock p else holder s i) \<longleftrightarrow> cLock f = Some i" for i
    using keep iff[of i] iff[of "Thread t"] by (simp del: holder.simps)
  then show ?thesis by (simp add: upd)
next
  case take
  then have "\<not> holder s i" for i using iff[of i] by (simp del: holder.simps)
  with take show ?thesis by (simp add: upd del: holder.simps)
next
  case release
  then have "holder s (Thread t)" using assms(2) by simp
  then have "cLock (frame s) = Some (Thread t)" using iff[of "Thread t"] by blast
  then have "holder s i \<longleftrightarrow> i = Thread t" for i using iff[of i] by (auto simp del: holder.simps)
  with release show ?thesis by (simp add: upd del: holder.simps)
qed
qed

lemma main_step_holder:
  "main_step n s m = Some s' \<Longrightarrow> holder s' (Thread t) = holder s (Thread t)"
  by (cases m) (auto simp: refill_def Broadcast_def nth_append less_Suc_eq split: if_splits)

lemma main_step_lock:
  assumes "main_step n s (main s) = Some s'"
  obtains (keep) "cLock (frame s') = cLock (frame s)" "main_holds (main s') = main_holds (main s)"
  | (take) "cLock (frame s) = None" "cLock (frame s') = Some Main" "main_holds (main s')"
  | (release) "cLock (frame s') = None" "main_holds (main s)" "\<not> main_holds (main s')"
  using assms by (cases "main s") (auto simp: refill_def split: if_splits)

lemma all_tid: "(\<forall>i. P i) \<longleftrightarrow> P Main \<and> (\<forall>t. P (Thread t))"
  by (metis tid.exhaust)

lemmas lock_inv_tid = lock_inv_def [unfolded all_tid, unfolded holder.simps(1)]

lemma lock_invD:
  "lock_inv s \<Longrightarrow> cLock (frame s) = None \<Longrightarrow> \<not> holder s i"
  "lock_inv s \<Longrightarrow> holder s i \<Longrightarrow> cLock (frame s) = Some i"
  by (simp_all add: lock_inv_def)

lemma main_step_lock_inv:
  assumes "lock_inv s" "main_step n s (main s) = Some s'"
  shows "lock_inv s'"
proof -
  have t: "holder s' (Thread t) = holder s (Thread t)" for t
    using assms(2) by (rule main_step_holder)
  from assms(2) show ?thesis
  proof (cases rule: main_step_lock)
    case keep
    with assms(1) t show ?thesis unfolding lock_inv_tid by simp
  next
    case take
    with assms(1) t show ?thesis
      unfolding lock_inv_tid by (simp del: holder.simps)
  next
    case release
    then have "cLock (frame s) = Some Main" using assms(1) lock_invD(2)[of s Main] by simp
    with release assms(1) t show ?thesis
      unfolding lock_inv_tid by (simp del: holder.simps)
  qed
qed

lemma reachable_lock_inv:
  "reachable sp f s \<Longrightarrow> cLock f = None \<Longrightarrow> lock_inv s"
proof (induction rule: reachable.induct)
  case reach_start
  then show ?case by (simp add: lock_inv_tid)
next
  case (reach_step s ev s')
  from reach_step.hyps(2) show ?case
  proof (cases rule: sys_stepE)
    case (spurious t)
    have "holder s' i = holder s i" for i
      using spurious by (cases i) (auto simp: nth_list_update)
    with spurious reach_step.IH reach_step.prems show ?thesis by (simp add: lock_inv_def)
  next
    case (thread t rc d f' p)
    show ?thesis unfolding thread(4) by (rule thread_step_lock_inv) (use reach_step thread in auto)
  qed (use reach_step in \<open>auto intro: main_step_lock_inv\<close>)
qed

text \<open>
  C7. Mutual exclusion: no two threads, the main thread included, are ever together
  between taking and releasing \<open>cLock\<close>, so neither \<open>PreExecute\<close> of two threads nor the
  test and decrement of \<open>cFrequence\<close> and its refill overlap; spurious wake-ups included.
\<close>

theorem lock_exclusive:
  assumes "reachable sp (configured th n d fr thr) s" "holder s i" "holder s j"
  shows "i = j"
  using reachable_lock_inv[OF assms(1)] assms(2,3) by (auto simp: lock_inv_def)


section \<open>The rate limit\<close>

text \<open>A thread that took a unit of \<open>cFrequence\<close> and has not used it yet; one at \<open>FCheck\<close>
  took one if the counter is not negative.\<close>

fun granted :: "pc \<Rightarrow> bool" where
  "granted (FUnlock _) = True"
| "granted (RTest _) = True"
| "granted p = in_flight p"

fun at_check :: "pc \<Rightarrow> bool" where
  "at_check (FCheck _) = True"
| "at_check _ = False"

fun at_dec :: "pc \<Rightarrow> bool" where
  "at_dec (FDec _) = True"
| "at_dec _ = False"

definition grants :: "sys \<Rightarrow> int" where
  "grants s = executed s + num granted (threads s) + max 0 (cFrequence (frame s)) +
     (if 0 \<le> cFrequence (frame s) then num at_check (threads s) else 0)"

lemma holds_lock_at: "at_check p \<Longrightarrow> holds_lock p" "at_dec p \<Longrightarrow> holds_lock p"
  by (cases p; simp)+

lemma num_zeroI: "(\<And>t. t < length ps \<Longrightarrow> \<not> P (ps ! t)) \<Longrightarrow> num P ps = 0"
  by (auto simp: num_def filter_empty_conv in_set_conv_nth)

lemma num_eq_zero: "num P ps = 0 \<longleftrightarrow> (\<forall>p\<in>set ps. \<not> P p)"
  by (auto simp: num_def filter_empty_conv)

lemma lock_inv_alone:
  assumes "lock_inv s" "t < length (threads s)" "holds_lock (threads s ! t)" "\<not> at_check (threads s ! t)"
  shows "num at_check (threads s) = 0"
proof (rule num_zeroI)
  fix u assume u: "u < length (threads s)"
  show "\<not> at_check (threads s ! u)"
  proof
    assume c: "at_check (threads s ! u)"
    then have "holder s (Thread u)" using u holds_lock_at by simp
    moreover have "holder s (Thread t)" using assms(2,3) by simp
    ultimately have "u = t" using lock_invD(2)[OF assms(1)] by (metis option.inject tid.inject)
    with c assms(4) show False by simp
  qed
qed

lemma lock_inv_main_alone:
  assumes "lock_inv s" "main_holds (main s)"
  shows "num holds_lock (threads s) = 0"
proof (rule num_zeroI)
  fix u assume u: "u < length (threads s)"
  have "holder s Main" using assms(2) by simp
  then show "\<not> holds_lock (threads s ! u)"
    using u lock_invD(2)[OF assms(1), of Main] lock_invD(2)[OF assms(1), of "Thread u"] by auto
qed

lemma num_holds_zero:
  "num holds_lock ps = 0 \<Longrightarrow> num at_check ps = 0" "num holds_lock ps = 0 \<Longrightarrow> num at_dec ps = 0"
  by (auto simp: num_eq_zero dest: holds_lock_at)

text \<open>A thread's step creates no grant.\<close>

fun counts :: "pc \<Rightarrow> bool" where
  "counts (FDec _) = True"
| "counts (FCheck _) = True"
| "counts (RTest _) = True"
| "counts (Incr _) = True"
| "counts _ = False"

lemma thread_step_same:
  "thread_step t rc d f p = Some (f', p') \<Longrightarrow> \<not> counts p \<Longrightarrow> 0 < cFrequenceConst f \<Longrightarrow>
   cFrequence f' = cFrequence f \<and> granted p' = granted p \<and>
   \<not> at_check p' \<and> \<not> at_check p \<and> \<not> counting p"
  by (cases p) (auto simp: acquire_def split: if_splits)

lemma thread_step_grants:
  assumes "thread_step t rc d f p = Some (f', p')" "0 < cFrequenceConst f"
    and "at_dec p \<Longrightarrow> k = of_bool (at_check p)" "of_bool (at_check p) \<le> k"
  shows "of_bool (counting p) + of_bool (granted p') + max 0 (cFrequence f') +
      (if 0 \<le> cFrequence f' then k + of_bool (at_check p') - of_bool (at_check p) else 0) \<le>
    of_bool (granted p) + max 0 (cFrequence f) + (if 0 \<le> cFrequence f then k else (0::int))"
proof (cases "counts p")
  case False
  from thread_step_same[OF assms(1) False assms(2)] show ?thesis by simp
next
  case True
  then show ?thesis using assms
  proof (cases p)
    case (FDec rc)
    with assms show ?thesis by (auto simp: counter_dec_def)
  next
    case (FCheck rc)
    with assms show ?thesis by (cases "cFrequence f < 0") auto
  next
    case (RTest rc)
    with assms show ?thesis by (auto simp: counter_dec_def split: if_splits)
  next
    case (Incr rc)
    with assms show ?thesis by (cases "rc = 0") (auto simp: stat_defs)
  qed simp_all
qed

lemma num_ge_one: "t < length ps \<Longrightarrow> P (ps ! t) \<Longrightarrow> 1 \<le> num P ps"
  using num_eq_zero[of P ps] num_nonneg[of P ps] by (metis nth_mem zless_imp_add1_zle add_0 le_less)

lemma thread_grants:
  assumes "lock_inv s" "t < length (threads s)" "0 < cFrequenceConst (frame s)"
    "thread_step t rc d (frame s) (threads s ! t) = Some (f, p)"
  shows "grants (s\<lparr>frame := f, threads := (threads s)[t := p],
    executed := executed s + of_bool (counting (threads s ! t))\<rparr>) \<le> grants s"
proof -
  have "at_dec (threads s ! t) \<Longrightarrow> num at_check (threads s) = of_bool (at_check (threads s ! t))"
  proof -
    assume a: "at_dec (threads s ! t)"
    then have "holds_lock (threads s ! t)" "\<not> at_check (threads s ! t)"
      by (cases "threads s ! t"; simp)+
    then show "num at_check (threads s) = of_bool (at_check (threads s ! t))"
      using lock_inv_alone[OF assms(1,2)] by simp
  qed
  moreover have "of_bool (at_check (threads s ! t)) \<le> num at_check (threads s)"
    using num_ge_one[OF assms(2), of at_check] by (auto simp: num_nonneg)
  ultimately show ?thesis
    using thread_step_grants[OF assms(4,3), of "num at_check (threads s)"] assms(2)
    by (auto simp: grants_def num_update of_bool_def split: if_splits)
qed

text \<open>Before the first broadcast no thread is past the barrier, if nothing else wakes it.\<close>

fun before_bcast :: "mpc \<Rightarrow> bool" where
  "before_bcast MRun = True"
| "before_bcast (MCreate _) = True"
| "before_bcast MSleep = True"
| "before_bcast MFreq = True"
| "before_bcast MBcast = True"
| "before_bcast _ = False"

fun before_barrier :: "pc \<Rightarrow> bool" where
  "before_barrier TInit = True"
| "before_barrier BLock = True"
| "before_barrier BPre = True"
| "before_barrier (BWait _) = True"
| "before_barrier (BSleep _) = True"
| "before_barrier _ = False"

definition barrier_inv :: "sys \<Rightarrow> bool" where
  "barrier_inv s \<longleftrightarrow> (before_bcast (main s) \<longrightarrow> (\<forall>p\<in>set (threads s). before_barrier p))"

lemma thread_step_barrier:
  "thread_step t rc d f p = Some (f', p') \<Longrightarrow> before_barrier p \<Longrightarrow> before_barrier p'"
  by (cases p) (auto simp: acquire_def split: if_splits)

lemma main_step_barrier: "main_step n s (main s) = Some s' \<Longrightarrow> barrier_inv s \<Longrightarrow> barrier_inv s'"
  by (cases "main s") (auto simp: barrier_inv_def refill_def split: if_splits)

lemma reachable_barrier: "reachable sp f s \<Longrightarrow> \<not> sp \<Longrightarrow> barrier_inv s"
proof (induction rule: reachable.induct)
  case (reach_step s ev s')
  from reach_step.hyps(2) show ?case
  proof (cases rule: sys_stepE)
    case (thread t rc d f p)
    with reach_step show ?thesis
      using nth_mem[OF thread(2)]
      by (auto simp: barrier_inv_def dest!: set_update_subset_insert[THEN subsetD]
          dest: thread_step_barrier)
  qed (use reach_step in \<open>auto dest: main_step_barrier\<close>)
qed (simp add: barrier_inv_def)

lemma before_barrier_not_check: "before_barrier p \<Longrightarrow> \<not> at_check p" "before_barrier p \<Longrightarrow> \<not> at_dec p"
  by (cases p; simp)+

lemma lock_inv_one:
  assumes "lock_inv s"
  shows "num at_check (threads s) \<le> 1"
proof -
  let ?I = "{t. t < length (threads s) \<and> at_check (threads s ! t)}"
  have "t = u" if "t \<in> ?I" "u \<in> ?I" for t u
  proof -
    have "holder s (Thread t)" "holder s (Thread u)" using that holds_lock_at(1) by simp_all
    then show "t = u" using lock_invD(2)[OF assms] by (metis option.inject tid.inject)
  qed
  then have "card ?I \<le> Suc 0" by (subst card_le_Suc0_iff_eq) auto
  then show ?thesis by (simp add: num_def length_filter_conv_card)
qed

text \<open>
  What the main thread's steps grant: a refill under the lock, exactly \<open>cFrequenceConst\<close>; the
  refill at the start, which takes no lock, also whatever a thread that is about to test the
  counter has taken before.
\<close>

lemma main_grants:
  assumes "lock_inv s" "0 < cFrequenceConst (frame s)" "main_step n s (main s) = Some s'"
  shows "grants s' \<le> grants s + cFrequenceConst (frame s) * (int (refills s') - int (refills s)) +
      (if main s = MFreq then num at_check (threads s) else 0)"
    "refills s \<le> refills s'"
proof -
  have r: "main s = MRefill b nw \<Longrightarrow> num at_check (threads s) = 0" for b nw
    using lock_inv_main_alone[OF assms(1)] num_holds_zero by simp
  have b: "num granted (Broadcast ps) = num granted ps" "num at_check (Broadcast ps) = num at_check ps" for ps
  proof -
    have "granted (woken p) = granted p" "at_check (woken p) = at_check p" for p by (cases p; simp)+
    then show "num granted (Broadcast ps) = num granted ps" "num at_check (Broadcast ps) = num at_check ps"
      by (simp_all add: num_broadcast wake_blind_def)
  qed
  show "grants s' \<le> grants s + cFrequenceConst (frame s) * (int (refills s') - int (refills s)) +
      (if main s = MFreq then num at_check (threads s) else 0)"
    using assms(2,3) r b num_nonneg[of at_check "threads s"]
    by (cases "main s") (auto simp: grants_def refill_def Output_reset_def split: if_splits)
  show "refills s \<le> refills s'" using assms(3) by (cases "main s") (auto simp: refill_def split: if_splits)
qed

text \<open>One grant more is possible once a thread may be past the barrier at the first refill.\<close>

fun before_freq :: "mpc \<Rightarrow> bool" where
  "before_freq MRun = True"
| "before_freq (MCreate _) = True"
| "before_freq MSleep = True"
| "before_freq MFreq = True"
| "before_freq _ = False"

definition rate_inv :: "bool \<Rightarrow> sys \<Rightarrow> bool" where
  "rate_inv sp s \<longleftrightarrow>
     grants s \<le> cFrequenceConst (frame s) * int (refills s) + of_bool (sp \<and> \<not> before_freq (main s))"

lemma main_step_freq: "main_step n s m = Some s' \<Longrightarrow> before_freq (main s') \<Longrightarrow> before_freq m"
  by (cases m) (auto simp: refill_def split: if_splits)

lemma wake_counts: "granted (woken p) = granted p" "at_check (woken p) = at_check p"
  by (cases p; simp)+

lemma reachable_rate:
  "reachable sp f s \<Longrightarrow> f = configured th n d fr thr \<Longrightarrow> 0 < fr \<Longrightarrow> rate_inv sp s"
proof (induction rule: reachable.induct)
  case reach_start
  then show ?case by (simp add: rate_inv_def grants_def)
next
  case (reach_step s ev s')
  have conf: "config (frame s) = config f" using reachable_config reach_step.hyps(1) .
  then have fr: "cFrequenceConst (frame s) = fr" using reach_step.prems by (simp add: config_def)
  have l: "lock_inv s" using reachable_lock_inv reach_step by simp
  have IH: "grants s \<le> fr * int (refills s) + of_bool (sp \<and> \<not> before_freq (main s))"
    using reach_step fr by (simp add: rate_inv_def)
  from reach_step.hyps(2) show ?case
  proof (cases rule: sys_stepE)
    case (main k)
    have fr': "cFrequenceConst (frame s') = fr"
      using main_step_config[OF main(2)] fr by (simp add: config_def)
    have "main s = MFreq \<Longrightarrow> num at_check (threads s) \<le> of_bool sp"
    proof (cases sp)
      case False
      assume "main s = MFreq"
      then have "num at_check (threads s) = 0"
        using reachable_barrier[OF reach_step.hyps(1) False] before_barrier_not_check
        by (auto simp: barrier_inv_def num_eq_zero)
      then show ?thesis by simp
    qed (use lock_inv_one[OF l] in simp)
    moreover have "main s = MFreq \<Longrightarrow> \<not> before_freq (main s')"
      using main(2) by (auto simp: refill_def split: if_splits)
    moreover have "fr * (int (refills s') - int (refills s)) = fr * int (refills s') - fr * int (refills s)"
      by (simp add: right_diff_distrib)
    ultimately show ?thesis
      using main_grants(1)[OF l _ main(2)] main_step_freq[OF main(2)] fr fr' IH reach_step.prems
      by (auto simp: rate_inv_def of_bool_def split: if_splits)
  next
    case (thread t rc d f' p)
    have "cFrequenceConst f' = fr"
      using thread_step_config[OF thread(3)] fr by (simp add: config_def)
    with thread_grants[OF l thread(2) _ thread(3)] thread(4) IH fr reach_step.prems show ?thesis
      by (simp add: rate_inv_def)
  next
    case (spurious t)
    have "grants s' = grants s" using spurious by (simp add: grants_def num_woken wake_blind_def wake_counts)
    then show ?thesis using IH fr spurious by (simp add: rate_inv_def)
  qed
qed

text \<open>
  C6. The rate limit: with a frequency \<open>fr\<close> the executions counted and under way never exceed
  \<open>fr\<close> times the number of refills, one at the start and one a second, whatever the
  interleaving, if threads are woken by broadcasts only; with the spurious wake-ups that
  \<open>pthread_cond_wait\<close> allows (\<open>sp\<close>), never by more than one, since only the refill at the
  start is done without the lock. (\<open>cFrequence\<close> is a mathematical integer: without spurious
  wake-ups it stays above minus the number of threads, with them it takes \<open>2 ^ 31\<close> of them
  between two refills to leave the range of \<open>int\<close>.)
\<close>

theorem rate_limited:
  assumes "0 < fr" "reachable sp (configured th n d fr thr) s"
  shows "executed s + num in_flight (threads s) \<le> fr * int (refills s) + (if sp then 1 else 0)"
proof -
  have "num in_flight (threads s) \<le> num granted (threads s)"
  proof -
    have "in_flight p \<Longrightarrow> granted p" for p by (cases p) auto
    then have "length (filter in_flight ps) \<le> length (filter granted ps)" for ps
      by (induction ps) auto
    then show ?thesis by (simp add: num_def)
  qed
  moreover have "rate_inv sp s" using reachable_rate[OF assms(2)] assms(1) by simp
  moreover have "cFrequenceConst (frame s) = fr"
    using reachable_config[OF assms(2)] by (simp add: config_def)
  ultimately show ?thesis
    using num_nonneg[of at_check "threads s"]
    by (auto simp: rate_inv_def grants_def of_bool_def split: if_splits)
qed

section \<open>Bounds of the counters\<close>

fun due_dec :: "pc \<Rightarrow> bool" where
  "due_dec (FWake _) = True"
| "due_dec (FDec _) = True"
| "due_dec _ = False"

definition freq_inv :: "sys \<Rightarrow> bool" where
  "freq_inv s \<longleftrightarrow>
     (cFrequence (frame s) < 0 \<longrightarrow>
        num due_dec (threads s) - cFrequence (frame s) \<le> int (length (threads s))) \<and>
     (\<forall>b now. main s = MBroad b now \<longrightarrow> 0 \<le> cFrequence (frame s)) \<and>
     (\<forall>b now. main s = MRefill b now \<longrightarrow> 0 \<le> cFrequenceConst (frame s)) \<and>
     (before_bcast (main s) \<longrightarrow> 0 \<le> cFrequence (frame s))"

lemma thread_step_freq:
  "thread_step t rc d f p = Some (f', p') \<Longrightarrow>
   cFrequence f' = cFrequence f - of_bool (at_dec p) \<and>
   (cFrequence f < 0 \<longrightarrow> of_bool (due_dec p') + of_bool (at_dec p) = (of_bool (due_dec p) :: int))"
  by (cases p) (auto simp: acquire_def counter_dec_def split: if_splits)

lemma thread_freq_inv:
  assumes "lock_inv s" "barrier_inv s" "freq_inv s" "t < length (threads s)"
    "thread_step t rc d (frame s) (threads s ! t) = Some (f, p)"
  shows "freq_inv (s\<lparr>frame := f, threads := (threads s)[t := p], executed := k\<rparr>)"
proof -
  note st = thread_step_freq[OF assms(5)]
  have "at_dec (threads s ! t) \<Longrightarrow> \<not> before_bcast (main s)"
    using assms(2,4) before_barrier_not_check(2) by (auto simp: barrier_inv_def)
  moreover have "at_dec (threads s ! t) \<Longrightarrow> main s = MBroad b nw \<Longrightarrow> False" for b nw
    using lock_inv_main_alone[OF assms(1)] num_holds_zero(2)[of "threads s"] assms(4)
    by (auto simp: num_eq_zero)
  moreover have "cFrequence (frame s) = 0 \<Longrightarrow> at_dec (threads s ! t) \<Longrightarrow> \<not> due_dec p"
    using assms(5) by (cases "threads s ! t") auto
  moreover have "num due_dec (threads s) \<le> int (length (threads s))" by (rule num_le_length)
  moreover have "at_dec (threads s ! t) \<Longrightarrow> due_dec (threads s ! t)"
    by (cases "threads s ! t") auto
  ultimately show ?thesis using assms(3,4) st
    using thread_step_config[OF assms(5)]
    by (auto simp: freq_inv_def num_update config_def split: if_splits)
qed

lemma num_due_broadcast_barrier:
  "\<forall>p\<in>set ps. before_barrier p \<Longrightarrow> num due_dec (Broadcast ps) = 0"
proof -
  have "before_barrier p \<Longrightarrow> \<not> due_dec (woken p)" for p by (cases p) auto
  then show "\<forall>p\<in>set ps. before_barrier p \<Longrightarrow> num due_dec (Broadcast ps) = 0"
    by (auto simp: num_eq_zero Broadcast_def)
qed

lemma main_freq_inv:
  "freq_inv s \<Longrightarrow> main_step n s (main s) = Some s' \<Longrightarrow> freq_inv s'"
  by (cases "main s") (auto simp: freq_inv_def refill_def split: if_splits)

lemma reachable_freq_inv:
  "reachable sp f s \<Longrightarrow> \<not> sp \<Longrightarrow> f = configured th n d fr thr \<Longrightarrow> freq_inv s"
proof (induction rule: reachable.induct)
  case reach_start
  then show ?case by (simp add: freq_inv_def)
next
  case (reach_step s ev s')
  have l: "lock_inv s" "barrier_inv s" using reachable_lock_inv reachable_barrier reach_step by simp_all
  from reach_step.hyps(2) show ?case
  proof (cases rule: sys_stepE)
    case (thread t rc d f' p)
    show ?thesis unfolding thread(4) by (rule thread_freq_inv) (use l reach_step thread in auto)
  qed (use l reach_step in \<open>auto intro: main_freq_inv\<close>)
qed

definition repeat_inv :: "sys \<Rightarrow> bool" where
  "repeat_inv s \<longleftrightarrow> - num finished (threads s) \<le> cRepeatCount (frame s)"

lemma thread_step_repeat:
  "thread_step t rc d f p = Some (f', p') \<Longrightarrow> 0 < cRepeatCountConst f \<Longrightarrow>
   cRepeatCount f < 0 \<or> - 1 \<le> cRepeatCount f' \<Longrightarrow>
   min 0 (cRepeatCount f') + of_bool (finished p') \<ge> min 0 (cRepeatCount f) + of_bool (finished p)"
  by (cases p) (auto simp: acquire_def counter_dec_def split: if_splits)

lemma step_repeat_inv:
  assumes "sys_step ev s = Some s'" "0 < cRepeatCountConst (frame s)" "repeat_inv s"
  shows "repeat_inv s'"
  using assms(1)
proof (cases rule: sys_stepE)
  case (main n)
  then show ?thesis using assms(3)
    by (cases "main s") (auto simp: repeat_inv_def num_simps refill_def split: if_splits)
next
  case (thread t rc d f p)
  have "cRepeatCount (frame s) < 0 \<or> - 1 \<le> cRepeatCount f"
    using thread(3) by (cases "threads s ! t") (auto simp: acquire_def counter_dec_def split: if_splits)
  from thread_step_repeat[OF thread(3) assms(2) this] assms(3) thread(2,4)
    num_nonneg[of finished "(threads s)[t := p]"] num_nonneg[of finished "threads s"]
  show ?thesis by (auto simp: repeat_inv_def num_update min_def split: if_splits)
next
  case (spurious t)
  with assms(3) show ?thesis by (simp add: repeat_inv_def num_woken)
qed

definition thread_inv :: "sys \<Rightarrow> bool" where
  "thread_inv s \<longleftrightarrow> int (length (threads s)) \<le> max 0 (cThreadNum (frame s)) \<and>
     (\<forall>k. main s = MCreate k \<longrightarrow> length (threads s) = k) \<and> (main s = MRun \<longrightarrow> threads s = [])"

lemma step_thread_inv:
  assumes "sys_step ev s = Some s'" "thread_inv s"
  shows "thread_inv s'"
  using assms(1)
proof (cases rule: sys_stepE)
  case (main n)
  then show ?thesis using assms(2)
    by (cases "main s") (auto simp: thread_inv_def refill_def Broadcast_def split: if_splits)
next
  case (thread t rc d f p)
  with assms(2) thread_step_config[OF thread(3)] show ?thesis
    by (auto simp: thread_inv_def config_def)
qed (use assms(2) in \<open>auto simp: thread_inv_def\<close>)

lemma reachable_bounds:
  "reachable sp f s \<Longrightarrow> f = configured th n d fr thr \<Longrightarrow> thread_inv s \<and> (0 < n \<longrightarrow> repeat_inv s)"
proof (induction rule: reachable.induct)
  case reach_start
  then show ?case by (simp add: thread_inv_def repeat_inv_def)
next
  case (reach_step s ev s')
  from reachable_config[OF reach_step.hyps(1)] have "cRepeatCountConst (frame s) = n"
    using reach_step.prems by (simp add: config_def)
  with reach_step show ?case using step_thread_inv step_repeat_inv by auto
qed

text \<open>
  The two atomic counters never run away: however long the run, neither falls below
  minus the number of threads, so the \<open>int\<close> they are kept in cannot overflow.
\<close>

lemma counters_bounded:
  assumes "0 < n" "reachable False (configured th n d fr thr) s"
  shows "- max 0 th \<le> cRepeatCount (frame s) \<and> - max 0 th \<le> cFrequence (frame s)"
proof -
  have c: "cThreadNum (frame s) = th" using reachable_config[OF assms(2)] by (simp add: config_def)
  have "thread_inv s" "repeat_inv s" "freq_inv s"
    using reachable_bounds[OF assms(2)] reachable_freq_inv[OF assms(2)] assms(1) by simp_all
  then show ?thesis
    using c num_le_length[of finished "threads s"] num_nonneg[of due_dec "threads s"]
    by (auto simp: thread_inv_def repeat_inv_def freq_inv_def)
qed

section \<open>Progress\<close>














lemma run_reachable:
  "run evs s = Some s' \<Longrightarrow> reachable sp f s \<Longrightarrow> sp \<or> (\<forall>t. EvSpurious t \<notin> set evs) \<Longrightarrow>
   reachable sp f s'"
proof (induction evs arbitrary: s)
  case (Cons ev evs)
  then show ?case by (auto split: option.splits intro: reach_step)
qed simp

text \<open>
  Two schedules, used below as concrete runs: one thread that sleeps at the barrier when
  the broadcast comes and then executes once, and one that reaches the barrier after it.
\<close>

definition sched :: "nat \<Rightarrow> event list" where
  "sched k = replicate k (EvThread 0 0 7)"

definition on_time :: "event list" where
  "on_time = [EvMain 0, EvMain 0] @ sched 4 @ [EvMain 0, EvMain 0, EvMain 0, EvMain 0] @ sched 2"

definition too_late :: "event list" where
  "too_late = [EvMain 0, EvMain 0] @ sched 3 @ [EvMain 0, EvMain 0, EvMain 0, EvMain 0] @ sched 1"

definition the_run :: "event list \<Rightarrow> TestFrame \<Rightarrow> sys" where
  "the_run evs f = the (run evs (start f))"

lemma the_run_reachable:
  "run evs (start f) \<noteq> None \<Longrightarrow> list_all (\<lambda>ev. case ev of EvSpurious t \<Rightarrow> False | _ \<Rightarrow> True) evs \<Longrightarrow>
   reachable False f (the_run evs f)"
  unfolding the_run_def
  by (rule run_reachable[OF _ reach_start]) (auto simp: list_all_iff split: event.splits)

theorem repeat_count_exact_witness:
  "let s = the_run (on_time @ sched 5) (configured 1 1 0 0 0) in
   0 < (1::int) \<and> reachable False (configured 1 1 0 0 0) s \<and> cRepeatCount (frame s) = 0 \<and>
   executed s \<le> 1 - num in_flight (threads s) \<and> executed s = 1 - num in_flight (threads s)"
proof -
  have r: "reachable False (configured 1 1 0 0 0) (the_run (on_time @ sched 5) (configured 1 1 0 0 0))"
    by (rule the_run_reachable) code_simp+
  have z: "cRepeatCount (frame (the_run (on_time @ sched 5) (configured 1 1 0 0 0))) = 0"
    by code_simp
  show ?thesis using repeat_count_exact[OF _ r] r z by (simp add: Let_def)
qed

section \<open>The barrier\<close>

text \<open>Without a frequency the main thread broadcasts once, at the barrier.\<close>

fun broadcasting :: "mpc \<Rightarrow> bool" where
  "broadcasting (MRefill _ _) = True"
| "broadcasting (MBroad _ _) = True"
| "broadcasting (MUnlock _ _) = True"
| "broadcasting m = before_bcast m"

lemma main_step_silent:
  "main_step n s (main s) = Some s' \<Longrightarrow> cFrequenceConst (frame s) \<le> 0 \<Longrightarrow> \<not> broadcasting (main s) \<Longrightarrow>
   threads s' = threads s \<and> \<not> broadcasting (main s')"
  by (cases "main s") (auto split: if_splits)

lemma step_stuck:
  assumes "sys_step ev s = Some s'" "ev \<noteq> EvSpurious t" "cFrequenceConst (frame s) \<le> 0"
    "\<not> broadcasting (main s)" "t < length (threads s)" "threads s ! t = BSleep rc"
  shows "cFrequenceConst (frame s') \<le> 0 \<and> \<not> broadcasting (main s') \<and>
    t < length (threads s') \<and> threads s' ! t = BSleep rc"
  using assms(1)
proof (cases rule: sys_stepE)
  case (main n)
  with main_step_silent[OF main(2) assms(3,4)] main_step_config[OF main(2)] assms show ?thesis
    by (simp add: config_def)
next
  case (thread u rc' d f p)
  from thread(3) assms(6) have "u \<noteq> t" by auto
  with thread assms thread_step_config[OF thread(3)] show ?thesis by (simp add: config_def)
next
  case (spurious u)
  with assms show ?thesis by (cases "u = t") (auto simp: nth_list_update)
qed

text \<open>
  C9. The barrier can lose a thread: without a frequency, a thread that reaches
  \<open>cCond.Wait\<close> after the broadcast of \<open>Run\<close> sleeps there in every later state of the run, and
  never executes the test case, unless \<open>pthread_cond_wait\<close> returns to it without a broadcast:
  only such a spurious wake-up of this very thread can end its sleep.
\<close>

theorem barrier_missed:
  assumes "run evs s = Some s'" "cFrequenceConst (frame s) \<le> 0"
    "\<not> broadcasting (main s)" "t < length (threads s)" "threads s ! t = BSleep rc"
  shows "threads s' ! t = BSleep rc \<or> EvSpurious t \<in> set evs"
  using assms
proof (induction evs arbitrary: s)
  case (Cons ev evs)
  then obtain s1 where s1: "sys_step ev s = Some s1" "run evs s1 = Some s'"
    by (auto split: option.splits)
  show ?case
  proof (cases "ev = EvSpurious t")
    case False
    from step_stuck[OF s1(1) False Cons.prems(2-5)] s1(2) have "threads s' ! t = BSleep rc \<or> EvSpurious t \<in> set evs"
      by (intro Cons.IH[of s1]) auto
    then show ?thesis by auto
  qed simp
qed simp

theorem barrier_missed_witness:
  "let s = the_run too_late (configured 1 1 0 0 0);
       s' = the_run (too_late @ [EvMain 100, EvMain 101, EvMain 101, EvMain 0])
              (configured 1 1 0 0 0) in
   reachable False (configured 1 1 0 0 0) s \<and> cRepeatCount (frame s) = 1 \<and>
   run [EvMain 100, EvMain 101, EvMain 101, EvMain 0] s = Some s' \<and>
   threads s ! 0 = BSleep 0 \<and> threads s' ! 0 = BSleep 0"
proof -
  let ?f = "configured 1 1 0 0 0"
  let ?s = "the_run too_late ?f"
  let ?e = "[EvMain 100, EvMain 101, EvMain 101, EvMain 0]"
  let ?s' = "the_run (too_late @ ?e) ?f"
  have "reachable False ?f ?s" by (rule the_run_reachable) code_simp+
  moreover have "cRepeatCount (frame ?s) = 1" by code_simp
  moreover have r: "run ?e ?s = Some ?s'" by code_simp
  moreover have h: "cFrequenceConst (frame ?s) \<le> 0" "\<not> broadcasting (main ?s)"
    "0 < length (threads ?s)" "threads ?s ! 0 = BSleep 0" by code_simp+
  moreover have "threads ?s' ! 0 = BSleep 0"
    using barrier_missed[OF r h] by simp
  ultimately show ?thesis by (simp add: Let_def)
qed

section \<open>The statistics of the threads\<close>



lemma as_int_word [simp]: "(word_of_int (as_int x) :: 32 word) = word_of_int x"
  by (simp add: as_int_def)






text \<open>
  The slack is real: with two threads \<open>delayHealth\<close> can be computed while one execution
  is counted and two are above the threshold, and the unsigned difference wraps.
\<close>

definition overlap :: "event list" where
  "overlap = [EvMain 0, EvMain 0, EvMain 0] @ sched 4 @ replicate 4 (EvThread 1 0 7) @
     [EvMain 0, EvMain 0, EvMain 0, EvMain 0] @ sched 6 @ replicate 6 (EvThread 1 0 7) @ sched 1"

lemma delayHealth_wraps:
  "f_total (Output_all (cTestFrameStatistic (frame (the_run overlap (configured 2 2 0 0 5))))) = 1"
  "f_healthy (Output_all (cTestFrameStatistic (frame (the_run overlap (configured 2 2 0 0 5))))) =
     2 ^ 64 - 1"
  by code_simp+



section \<open>The properties on concrete runs\<close>

text \<open>One thread that takes the lock at the barrier, and one run with a frequency of two.\<close>

theorem lock_exclusive_witness:
  "let s = the_run (on_time @ [EvMain 0]) (configured 1 1 0 0 0) in
   reachable False (configured 1 1 0 0 0) s \<and> holder s (Thread 0) = False \<and>
   (let s = the_run [EvMain 0, EvMain 0, EvThread 0 0 0, EvThread 0 0 0] (configured 1 1 0 0 0) in
    holder s (Thread 0) \<and> Thread 0 = Thread 0)"
proof -
  let ?f = "configured 1 1 0 0 0"
  let ?s = "the_run [EvMain 0, EvMain 0, EvThread 0 0 0, EvThread 0 0 0] ?f"
  have r: "reachable False ?f ?s" by (rule the_run_reachable) code_simp+
  have h: "holder ?s (Thread 0)" by code_simp
  have "reachable False ?f (the_run (on_time @ [EvMain 0]) ?f)"
    by (rule the_run_reachable) code_simp+
  moreover have "\<not> holder (the_run (on_time @ [EvMain 0]) ?f) (Thread 0)" by code_simp
  ultimately show ?thesis using lock_exclusive[OF r h h] h by (simp add: Let_def)
qed


lemma limited_reachable:
  "reachable False (configured 1 9 0 2 0) (the_run (on_time @ sched 25) (configured 1 9 0 2 0))"
  by (rule the_run_reachable) code_simp+

theorem rate_limited_witness:
  "let s = the_run (on_time @ sched 25) (configured 1 9 0 2 0) in
   executed s + num in_flight (threads s) \<le> 2 \<and> executed s = 2 \<and> refills s = 1"
proof -
  let ?s = "the_run (on_time @ sched 25) (configured 1 9 0 2 0)"
  have "executed ?s = 2" "refills ?s = 1" by code_simp+
  with rate_limited[OF _ limited_reachable] show ?thesis by (simp add: Let_def)
qed

theorem counters_bounded_witness:
  "let s = the_run (on_time @ sched 25) (configured 1 9 0 2 0) in
   cFrequence (frame s) = - 1 \<and> cRepeatCount (frame s) = 7 \<and> - 1 \<le> cRepeatCount (frame s) \<and>
   - 1 \<le> cFrequence (frame s)"
proof -
  let ?s = "the_run (on_time @ sched 25) (configured 1 9 0 2 0)"
  have "cFrequence (frame ?s) = - 1" "cRepeatCount (frame ?s) = 7" by code_simp+
  with counters_bounded[OF _ limited_reachable] show ?thesis by (simp add: Let_def)
qed


end
