(* ===== verification/Load_Test.thy ===== *)
theory Load_Test
  imports Client Test_Frame
begin

text \<open>
  The load-test program: the configuration file (src/loadConfig.cpp), the test case of one
  request and reply, and \<open>main\<close> (src/testexample.cpp) up to \<open>TestFrame::Run\<close>. The json-c
  library is a parameter, the fields of a record; log files and messages are left out.
\<close>

section \<open>The configuration\<close>

text \<open>
  The functions of json-c the code calls: parsing (with success), the type tests, the elements
  of an array (\<open>None\<close> for a null pointer), the members of an object and the values.
\<close>

record 'j json_c =
  json_tokener_parse :: "string \<Rightarrow> 'j option"
  is_array :: "'j \<Rightarrow> bool"
  is_string :: "'j \<Rightarrow> bool"
  is_int :: "'j \<Rightarrow> bool"
  array_elements :: "'j \<Rightarrow> 'j option list"
  object_get :: "'j \<Rightarrow> string \<Rightarrow> 'j option"
  get_string :: "'j \<Rightarrow> string"
  get_int :: "'j \<Rightarrow> int"
  get_int64 :: "'j \<Rightarrow> int"

record TcpInfo =
  ip :: string
  port :: nat

record CmdInfo =
  cmd :: nat
  tcp_info :: "TcpInfo list"
  pre_req :: string
  pre_assert :: string
  req :: string
  asserted :: string
  thread_num :: nat
  load_test_time :: nat
  times_limit :: nat
  frequence :: nat
  log_file :: string

definition default_assert :: string where
  "default_assert = ''code'' @ [CHR 0x22] @ '':0''"

text \<open>\<open>cmd\<close>, \<open>thread_num\<close> and \<open>load_test_time\<close> are not initialised by the constructor, but set before use.\<close>

definition CmdInfo_new :: CmdInfo where
  "CmdInfo_new = \<lparr>cmd = 0, tcp_info = [], pre_req = [], pre_assert = default_assert, req = [], asserted = default_assert,
     thread_num = 0, load_test_time = 0, times_limit = 0, frequence = 0, log_file = []\<rparr>"

text \<open>The four \<open>get\<close>s; \<open>None\<close> for the negative results. A string ends at its first null character.\<close>

definition get_str :: "'j json_c \<Rightarrow> 'j \<Rightarrow> string \<Rightarrow> string option" where
  "get_str J root name =
     (case object_get J root name of
        None \<Rightarrow> None
      | Some obj \<Rightarrow> if \<not> is_string J obj then None else Some (c_string (get_string J obj)))"

definition get_uint :: "'j json_c \<Rightarrow> 'j \<Rightarrow> string \<Rightarrow> nat option" where
  "get_uint J root name =
     (case object_get J root name of
        None \<Rightarrow> None
      | Some obj \<Rightarrow> if \<not> is_int J obj then None else Some (nat (get_int J obj mod 2 ^ 32)))"

definition get_ull :: "'j json_c \<Rightarrow> 'j \<Rightarrow> string \<Rightarrow> nat option" where
  "get_ull J root name =
     (case object_get J root name of
        None \<Rightarrow> None
      | Some obj \<Rightarrow> if \<not> is_int J obj then None else Some (nat (get_int64 J obj mod 2 ^ 64)))"

text \<open>One address \<open>ip:port\<close>; the pieces are read without looking how many there are.\<close>

definition parse_address :: "string \<Rightarrow> TcpInfo list result" where
  "parse_address s =
     (let tmp = sepstr s '':'' False in
      if length tmp = 0 then Inl OutOfBounds
      else if tmp ! 0 = [] then Inr []
      else if length tmp = 1 then Inl OutOfBounds
      else if tmp ! 1 = [] then Inr []
      else Inr [\<lparr>ip = tmp ! 0, port = strto_ushort (tmp ! 1)\<rparr>])"

fun parse_addresses :: "string list \<Rightarrow> TcpInfo list result" where
  "parse_addresses [] = Inr []"
| "parse_addresses (s # ss) =
     bindE (parse_address s) (\<lambda>a. bindE (parse_addresses ss) (\<lambda>as. Inr (a @ as)))"

text \<open>
  One element of the array; \<open>None\<close> where the loop goes on without it. The optional strings
  keep their value when they are not there.
\<close>

definition required :: "'a option \<Rightarrow> ('a \<Rightarrow> CmdInfo option result) \<Rightarrow> CmdInfo option result" where
  "required x f = (case x of None \<Rightarrow> Inr None | Some v \<Rightarrow> f v)"

definition optional :: "'a option \<Rightarrow> 'a \<Rightarrow> 'a" where
  "optional x v = (case x of None \<Rightarrow> v | Some w \<Rightarrow> w)"

definition parse_entry :: "'j json_c \<Rightarrow> 'j \<Rightarrow> CmdInfo option result" where
  "parse_entry J e =
     (let info = CmdInfo_new in
      required (get_uint J e ''cmd'') (\<lambda>c.
      if c \<le> 0 then Inr None else
      required (get_str J e ''ip_port'') (\<lambda>ip_port_str.
      bindE (parse_addresses (sepstr ip_port_str ''|'' False)) (\<lambda>as.
      required (get_str J e ''req'') (\<lambda>r.
      let pa = optional (get_str J e ''pre_assert'') (pre_assert info);
          a = optional (get_str J e ''assert'') (asserted info) in
      required (get_uint J e ''thread_num'') (\<lambda>th.
      required (get_uint J e ''load_test_time'') (\<lambda>t.
      required (get_ull J e ''times_limit'') (\<lambda>n.
      required (get_ull J e ''frequence'') (\<lambda>fr.
      required (get_str J e ''log_file'') (\<lambda>lf.
      Inr (Some (info\<lparr>cmd := c, tcp_info := as, req := r, pre_assert := pa, asserted := a, thread_num := th,
                     load_test_time := t, times_limit := n, frequence := fr, log_file := lf\<rparr>))))))))))))"

fun parse_entries :: "'j json_c \<Rightarrow> 'j option list \<Rightarrow> (nat \<times> CmdInfo) list \<Rightarrow> (nat \<times> CmdInfo) list result" where
  "parse_entries J [] table = Inr table"
| "parse_entries J (None # es) table = parse_entries J es table"
| "parse_entries J (Some e # es) table =
     bindE (parse_entry J e) (\<lambda>r.
     case r of
       None \<Rightarrow> parse_entries J es table
     | Some info \<Rightarrow> parse_entries J es (map_insert (cmd info) info table))"

text \<open>The result code and \<open>_config_list\<close>. The file is there with its contents, or not.\<close>

definition LoadTestConfig_parse ::
  "'j json_c \<Rightarrow> string \<Rightarrow> (nat \<times> CmdInfo) list \<Rightarrow> (int \<times> (nat \<times> CmdInfo) list) result" where
  "LoadTestConfig_parse J content table =
     (case json_tokener_parse J (c_string content) of
        None \<Rightarrow> Inr (- 1, table)
      | Some root \<Rightarrow>
          if \<not> is_array J root then Inr (- 2, table)
          else bindE (parse_entries J (array_elements J root) table) (\<lambda>table. Inr (0, table)))"


definition get_config :: "nat \<Rightarrow> (nat \<times> CmdInfo) list \<Rightarrow> CmdInfo option" where
  "get_config c table = map_of table c"

section \<open>The test case\<close>

record TestCase_IOT =
  iot_ip_port :: "TcpInfo list"
  iot_req :: string
  iot_pre_req :: string
  iot_pre_assert :: string
  iot_assert :: string

definition TestCase_of :: "CmdInfo \<Rightarrow> TestCase_IOT" where
  "TestCase_of info = \<lparr>iot_ip_port = tcp_info info, iot_req = req info, iot_pre_req = pre_req info,
     iot_pre_assert = pre_assert info, iot_assert = asserted info\<rparr>"

definition case_Init :: "TestCase_IOT \<Rightarrow> client \<Rightarrow> client" where
  "case_Init tc c = fold (\<lambda>a. AddServer (ip a) (int (port a))) (iot_ip_port tc) c"

text \<open>What a request and its expected text make of the reply; \<open>None\<close> while \<open>tcp_iot\<close> waits.\<close>

definition judge :: "string \<Rightarrow> string \<Rightarrow> net \<Rightarrow> client \<Rightarrow> int result option \<times> client" where
  "judge r a n c =
     (let (answer, c) = tcp_iot n r c in
      (map_option (\<lambda>m. bindE m (\<lambda>(ret, rsp).
         Inr (if ret \<noteq> 0 then - 1 else if find_str rsp a 0 \<noteq> None then 0 else - 2))) answer, c))"

definition case_Execute :: "TestCase_IOT \<Rightarrow> net \<Rightarrow> client \<Rightarrow> int result option \<times> client" where
  "case_Execute tc n c = judge (iot_req tc) (iot_assert tc) n c"

definition case_PreExecute :: "TestCase_IOT \<Rightarrow> net \<Rightarrow> client \<Rightarrow> int result option \<times> client" where
  "case_PreExecute tc n c =
     (if iot_pre_req tc = [] then (Some (Inr 0), c) else judge (iot_pre_req tc) (iot_pre_assert tc) n c)"

section \<open>The program\<close>





section \<open>What is loaded\<close>

text \<open>The complete entries, in the order of the file.\<close>

definition loaded :: "'j json_c \<Rightarrow> 'j option list \<Rightarrow> CmdInfo list" where
  "loaded J es = concat (List.map (\<lambda>e. case e of
       None \<Rightarrow> []
     | Some e \<Rightarrow> (case parse_entry J e of Inr (Some i) \<Rightarrow> [i] | _ \<Rightarrow> [])) es)"

lemma get_uint_range: "get_uint J e n = Some x \<Longrightarrow> x < 2 ^ 32"
  by (auto simp: get_uint_def nat_less_iff split: option.splits if_splits)

lemma required_Some: "required x f = Inr (Some i) \<longleftrightarrow> (\<exists>v. x = Some v \<and> f v = Inr (Some i))"
  by (simp add: required_def split: option.split)

lemma parse_entry_fields:
  "parse_entry J e = Inr (Some i) \<Longrightarrow> cmd i \<noteq> 0 \<and> pre_req i = [] \<and> cmd i < 2 ^ 32 \<and> thread_num i < 2 ^ 32"
  by (auto simp: parse_entry_def Let_def required_Some CmdInfo_new_def dest: get_uint_range split: if_splits)

lemma loaded_fields: "i \<in> set (loaded J es) \<Longrightarrow> cmd i \<noteq> 0 \<and> pre_req i = []"
  by (auto simp: loaded_def dest!: parse_entry_fields[OF sym] split: option.splits sum.splits)

lemma parse_entries_loaded:
  "parse_entries J es table = Inr table' \<Longrightarrow> table' = fold (\<lambda>i. map_insert (cmd i) i) (loaded J es) table"
proof (induction J es table rule: parse_entries.induct)
  case (3 J e es table)
  then show ?case by (cases "parse_entry J e") (auto simp: loaded_def split: option.splits)
qed (simp_all add: loaded_def)

lemma map_of_fold_insert:
  "map_of (fold (\<lambda>i. map_insert (f i) i) is m) k = (case map_of m k of Some v \<Rightarrow> Some v | None \<Rightarrow> find (\<lambda>i. f i = k) is)"
  by (induction "is" arbitrary: m) (auto simp: map_of_map_insert split: option.splits)

text \<open>
  After a configuration was loaded, a command number gives exactly the first entry of the
  file with that number that has every required member of the right type; such an entry never
  has a preliminary request, so the preliminary execution of its test case succeeds without
  sending anything.
\<close>

lemma load_config_first:
  assumes "json_tokener_parse J (c_string content) = Some root" "is_array J root"
    "LoadTestConfig_parse J content [] = Inr (ret, table)"
  shows "ret = 0 \<and> get_config c table = find (\<lambda>i. cmd i = c) (loaded J (array_elements J root)) \<and>
    (\<forall>i. get_config c table = Some i \<longrightarrow>
       cmd i = c \<and> c \<noteq> 0 \<and> case_PreExecute (TestCase_of i) n cl = (Some (Inr 0), cl))"
proof -
  let ?is = "loaded J (array_elements J root)"
  have "parse_entries J (array_elements J root) [] = Inr table" "ret = 0"
    using assms by (auto simp: LoadTestConfig_parse_def)
  then have g: "get_config c table = find (\<lambda>i. cmd i = c) ?is" and r: "ret = 0"
    using parse_entries_loaded by (fastforce simp: get_config_def map_of_fold_insert)+
  have "cmd i \<noteq> 0 \<and> pre_req i = []" if "i \<in> set ?is" for i
    using loaded_fields[OF that] .
  then have "cmd i = c \<and> c \<noteq> 0 \<and> pre_req i = []" if "get_config c table = Some i" for i
    using that g by (auto simp: find_Some_iff)
  then have "cmd i = c \<and> c \<noteq> 0 \<and> case_PreExecute (TestCase_of i) n cl = (Some (Inr 0), cl)"
    if "get_config c table = Some i" for i
    using that by (simp add: case_PreExecute_def TestCase_of_def)
  with g r show ?thesis by blast
qed

section \<open>The verdict on a reply\<close>

lemma index_str_iff: "index_str p s \<noteq> None \<longleftrightarrow> (\<exists>u v. s = u @ p @ v)"
proof (induction s)
  case (Cons c s)
  have "(\<exists>u v. c # s = u @ p @ v) \<longleftrightarrow> is_prefix p (c # s) \<or> (\<exists>u v. s = u @ p @ v)"
    by (auto simp: is_prefix_iff Cons_eq_append_conv)
  with Cons show ?case by simp
qed simp

lemma occurs_padded:
  assumes "CHR 0x00 \<notin> set p"
  shows "index_str p (s @ replicate k CHR 0x00) \<noteq> None \<longleftrightarrow> index_str p s \<noteq> None"
proof
  assume "index_str p (s @ replicate k CHR 0x00) \<noteq> None"
  then obtain u v where uv: "s @ replicate k CHR 0x00 = u @ p @ v" by (auto simp: index_str_iff[unfolded not_None_eq])
  show "index_str p s \<noteq> None"
  proof (cases "length u + length p \<le> length s")
    case True
    have "s = take (length s) (u @ p @ v)" using uv by (metis append_eq_conv_conj)
    also have "\<dots> = u @ p @ take (length s - length u - length p) v" using True by simp
    finally show ?thesis unfolding index_str_iff by blast
  next
    case False
    then have over: "length s \<le> length u + length p - 1" by simp
    have "p = []"
    proof (rule ccontr)
      assume p: "p \<noteq> []"
      have "(u @ p @ v) ! (length u + length p - 1) = last p"
        using p by (cases p rule: rev_cases) (simp_all add: nth_append)
      moreover have "(s @ replicate k CHR 0x00) ! (length u + length p - 1) = CHR 0x00"
        using over p arg_cong[OF uv, of length] by (cases p) (simp_all add: nth_append)
      ultimately show False using uv p assms by (metis last_in_set)
    qed
    then show ?thesis by (simp add: index_str_Nil)
  qed
next
  assume "index_str p s \<noteq> None"
  then show "index_str p (s @ replicate k CHR 0x00) \<noteq> None"
    unfolding index_str_iff by (metis append.assoc)
qed

text \<open>
  C29. The verdict on a request over a live connection looks at one segment only: success exactly
  when the expected text occurs in the segment with the newline, whatever came before it. A
  timeout is a success when the expected text is empty, and a failure otherwise; a connection
  closed by the peer gives no verdict.
\<close>

theorem request_verdict:
  assumes "sockfd c \<noteq> - 1" "send_ret n = int (length (iot_req tc))" "length (iot_req tc) < 2 ^ 32"
    "list_all passed early" "length s < 1024" "CHR 0x00 \<notin> set s" "CHR 0x0A \<in> set s" "CHR 0x00 \<notin> set (iot_assert tc)"
  shows "fst (case_Execute tc (n\<lparr>recvs := early @ Segment s # rs\<rparr>) c) =
      Some (Inr (if find_str s (iot_assert tc) 0 \<noteq> None then 0 else - 2)) \<and>
    fst (case_Execute tc (n\<lparr>recvs := early @ RecvError EAGAIN # rs\<rparr>) c) =
      Some (Inr (if iot_assert tc = [] then 0 else - 2)) \<and>
    fst (case_Execute tc (n\<lparr>recvs := early @ replicate k (Segment [])\<rparr>) c) = None"
proof -
  note a = client_answers[OF assms(1,2,3,4,5,6,7)]
  have "find_str (s @ replicate j CHR 0x00) (iot_assert tc) 0 \<noteq> None \<longleftrightarrow> find_str s (iot_assert tc) 0 \<noteq> None" for s j
    using occurs_padded[OF assms(8), of s j] by (simp add: find_str_def)
  moreover from this[of "[]"] have "find_str (replicate j CHR 0x00) (iot_assert tc) 0 \<noteq> None \<longleftrightarrow> iot_assert tc = []" for j
    by (simp add: find_str_def)
  ultimately show ?thesis
    using a by (simp add: case_Execute_def judge_def SDK_SUCCESS_def del: not_None_eq)
qed

definition login_case :: TestCase_IOT where
  "login_case = \<lparr>iot_ip_port = [], iot_req = ''rq'', iot_pre_req = [], iot_pre_assert = [], iot_assert = ''ok''\<rparr>"

lemma request_verdict_witness:
  "fst (case_Execute login_case (quiet_net\<lparr>recvs := [Segment ''ok''] @ Segment [CHR 0x0A] # []\<rparr>) live_client) =
      Some (Inr (if find_str [CHR 0x0A] (iot_assert login_case) 0 \<noteq> None then 0 else - 2)) \<and>
    fst (case_Execute login_case (quiet_net\<lparr>recvs := [Segment ''ok''] @ RecvError EAGAIN # []\<rparr>) live_client) =
      Some (Inr (if iot_assert login_case = [] then 0 else - 2)) \<and>
    fst (case_Execute login_case (quiet_net\<lparr>recvs := [Segment ''ok''] @ replicate 5 (Segment [])\<rparr>) live_client) = None"
  by (rule request_verdict) (simp_all add: live_client_def quiet_net_def passed_text login_case_def)

section \<open>From the configuration to the executions\<close>





text \<open>A small instance of the library, on trees given as they are.\<close>

datatype json = JNull | JInt int | JString string | JArray "json list" | JObject "(string \<times> json) list"

definition sample_json :: json where
  "sample_json = JArray [JNull, JObject [(''cmd'', JInt 7)],
     JObject [(''cmd'', JInt 7), (''ip_port'', JString ''h:80|''), (''req'', JString ''rq''), (''thread_num'', JInt 1),
       (''load_test_time'', JInt 1), (''times_limit'', JInt 2), (''frequence'', JInt 0), (''log_file'', JString [])]]"

definition sample_lib :: "json json_c" where
  "sample_lib = \<lparr>json_tokener_parse = (\<lambda>_. Some sample_json),
     is_array = (\<lambda>j. case j of JArray _ \<Rightarrow> True | _ \<Rightarrow> False),
     is_string = (\<lambda>j. case j of JString _ \<Rightarrow> True | _ \<Rightarrow> False),
     is_int = (\<lambda>j. case j of JInt _ \<Rightarrow> True | _ \<Rightarrow> False),
     array_elements = (\<lambda>j. case j of JArray es \<Rightarrow> List.map (\<lambda>e. case e of JNull \<Rightarrow> None | _ \<Rightarrow> Some e) es | _ \<Rightarrow> []),
     object_get = (\<lambda>j n. case j of JObject m \<Rightarrow> map_of m n | _ \<Rightarrow> None),
     get_string = (\<lambda>j. case j of JString s \<Rightarrow> s | _ \<Rightarrow> []),
     get_int = (\<lambda>j. case j of JInt i \<Rightarrow> i | _ \<Rightarrow> 0),
     get_int64 = (\<lambda>j. case j of JInt i \<Rightarrow> i | _ \<Rightarrow> 0)\<rparr>"

definition sample_info :: CmdInfo where
  "sample_info = CmdInfo_new\<lparr>cmd := 7, tcp_info := [\<lparr>ip = ''h'', port = 80\<rparr>], req := ''rq'',
     thread_num := 1, load_test_time := 1, times_limit := 2\<rparr>"

lemma sample_address: "parse_addresses (sepstr ''h:80|'' ''|'' False) = Inr [\<lparr>ip = ''h'', port = 80\<rparr>]"
  by (simp add: sepstr_def sep_from_pieces parse_address_def Let_def strto_ushort_def strtoul_def signed_part_def
      is_space_def is_digit_def less_eq_char_def)

lemma sample_parse: "LoadTestConfig_parse sample_lib ''[]'' [] = Inr (0, [(7, sample_info)])"
  by (simp add: LoadTestConfig_parse_def sample_lib_def sample_json_def parse_entry_def required_def optional_def
      get_uint_def get_ull_def get_str_def sample_address c_string_def sample_info_def CmdInfo_new_def map_insert_def)


lemma load_config_first_witness:
  "get_config 7 [(7, sample_info)] = find (\<lambda>i. cmd i = 7) (loaded sample_lib (array_elements sample_lib sample_json)) \<and>
    case_PreExecute (TestCase_of sample_info) quiet_net Client_new = (Some (Inr 0), Client_new)"
  using load_config_first[OF _ _ sample_parse, of sample_json 7 quiet_net Client_new]
  by (simp add: get_config_def) (simp add: sample_lib_def sample_json_def)


text \<open>An address without a port is read beyond its pieces; a file without \<open>times_limit\<close> loads nothing.\<close>

lemma address_without_port: "parse_address ''127.0.0.1'' = Inl OutOfBounds"
  by code_simp

lemma no_times_limit: "object_get J e ''times_limit'' = None \<Longrightarrow> parse_entry J e \<noteq> Inr (Some i)"
  by (auto simp: parse_entry_def Let_def required_Some get_ull_def split: if_splits)

end
