(* ===== verification/Block_Cipher.thy ===== *)
theory Block_Cipher
  imports Prelude
begin

unbundle bit_operations_syntax

text \<open>
  What the two ciphers of the library share. \<open>TC_Tea\<close> and \<open>TC_Des\<close> both work on blocks of
  eight bytes; the interface \<open>block_cipher\<close> is what their chaining relies on, and the
  chaining itself (a state that goes from block to block) is the interface
  \<open>chained_mode\<close>. A block cipher gives plain chaining of blocks (\<open>TC_Des\<close>), CBC
  (\<open>oi_symmetry_encrypt\<close>) and the doubly chained mode of \<open>oi_symmetry_encrypt2\<close>.
\<close>

section \<open>Blocks\<close>

definition xor_bytes :: "byte list \<Rightarrow> byte list \<Rightarrow> byte list" where
  "xor_bytes xs ys = map2 (XOR) xs ys"

lemma length_xor_bytes [simp]: "length (xor_bytes xs ys) = min (length xs) (length ys)"
  by (simp add: xor_bytes_def)

lemma nth_xor_bytes [simp]:
  "i < length xs \<Longrightarrow> i < length ys \<Longrightarrow> xor_bytes xs ys ! i = xs ! i XOR ys ! i"
  by (simp add: xor_bytes_def)

lemma xor_bytes_cancel:
  "length xs = length ys \<Longrightarrow> xor_bytes (xor_bytes xs ys) ys = xs"
  by (rule nth_equalityI) (simp_all add: xor.assoc)

lemma xor_bytes_commute: "length xs = length ys \<Longrightarrow> xor_bytes xs ys = xor_bytes ys xs"
  by (rule nth_equalityI) (simp_all add: xor.commute)

definition zeros :: "byte list" where
  "zeros = replicate 8 0"

lemma length_zeros [simp]: "length zeros = 8"
  by (simp add: zeros_def)

lemma xor_zeros [simp]: "length xs = 8 \<Longrightarrow> xor_bytes xs zeros = xs" "length xs = 8 \<Longrightarrow> xor_bytes zeros xs = xs"
  by (rule nth_equalityI; simp add: zeros_def)+

section \<open>Chaining\<close>

text \<open>
  \<open>chain f s bs\<close> sends the full blocks of \<open>bs\<close> through \<open>f\<close>, which maps the chaining state
  and a block to the output block and the next state.
\<close>

function chain :: "('s \<Rightarrow> byte list \<Rightarrow> byte list \<times> 's) \<Rightarrow> 's \<Rightarrow> byte list \<Rightarrow> byte list \<times> 's" where
  "chain f s bs =
     (if length bs < 8 then ([], s)
      else let (c, s') = f s (take 8 bs); (cs, s'') = chain f s' (drop 8 bs) in (c @ cs, s''))"
  by pat_completeness auto
termination
  by (relation "measure (\<lambda>(f, s, bs). length bs)") auto

declare chain.simps [simp del]

lemma chain_short [simp]: "length bs < 8 \<Longrightarrow> chain f s bs = ([], s)"
  by (simp add: chain.simps)

lemma chain_block:
  "length b = 8 \<Longrightarrow> chain f s (b @ bs) =
     (let (c, s') = f s b; (cs, s'') = chain f s' bs in (c @ cs, s''))"
  by (subst chain.simps) simp

text \<open>A list of whole blocks, and induction over it.\<close>

definition blocks :: "byte list \<Rightarrow> bool" where
  "blocks bs \<longleftrightarrow> length bs mod 8 = 0"

lemma blocks_cases:
  assumes "blocks bs"
  obtains "bs = []" | b bs' where "bs = b @ bs'" "length b = 8" "blocks bs'"
proof (cases "bs = []")
  case False
  with assms have "8 \<le> length bs" by (cases "length bs < 8") (auto simp: blocks_def)
  moreover from this assms have "blocks (drop 8 bs)"
    by (simp add: blocks_def mod_if[of "length bs" 8])
  ultimately show ?thesis using that(2)[of "take 8 bs" "drop 8 bs"] by simp
qed (use that in simp)

lemma blocks_induct [consumes 1, case_names Nil block]:
  assumes "blocks bs" "P []"
    "\<And>b bs. length b = 8 \<Longrightarrow> blocks bs \<Longrightarrow> P bs \<Longrightarrow> P (b @ bs)"
  shows "P bs"
  using assms(1)
proof (induction "length bs" arbitrary: bs rule: less_induct)
  case less
  from less.prems show ?case
    by (cases rule: blocks_cases) (use assms(2,3) less.hyps in auto)
qed

lemma blocks_simps [simp]: "blocks []" "length b = 8 \<Longrightarrow> blocks (b @ bs) = blocks bs"
  by (simp_all add: blocks_def)

section \<open>The interfaces\<close>

text \<open>
  \<open>f\<close> encrypts a block, \<open>g\<close> decrypts one; \<open>ok\<close> is what holds of the chaining state, which
  is the same on both sides.
\<close>

locale chained_mode =
  fixes f g :: "'s \<Rightarrow> byte list \<Rightarrow> byte list \<times> 's"
    and ok :: "'s \<Rightarrow> bool"
  assumes inverse: "ok s \<Longrightarrow> length b = 8 \<Longrightarrow> f s b = (c, s') \<Longrightarrow> g s c = (b, s') \<and> ok s' \<and> length c = 8"
begin

lemma chain_inverse:
  "blocks bs \<Longrightarrow> ok s \<Longrightarrow> chain f s bs = (cs, s') \<Longrightarrow>
   chain g s cs = (bs, s') \<and> length cs = length bs"
proof (induction bs arbitrary: s cs s' rule: blocks_induct)
  case (block b bs)
  obtain c t where c: "f s b = (c, t)" by fastforce
  obtain ds u where ds: "chain f t bs = (ds, u)" by fastforce
  have i: "g s c = (b, t)" "ok t" "length c = 8" using inverse[OF _ block(1) c] block by auto
  have "cs = c @ ds" "s' = u"
    using block(1,5) c ds by (simp_all add: chain_block)
  with block(3)[OF i(2) ds] i(1,3) block(1) show ?case by (simp add: chain_block)
qed simp

end

text \<open>A block cipher under one key.\<close>

locale block_cipher =
  fixes E D :: "byte list \<Rightarrow> byte list"
  assumes D_E: "length b = 8 \<Longrightarrow> D (E b) = b"
    and length_E: "length b = 8 \<Longrightarrow> length (E b) = 8"

text \<open>
  The three ways the library chains blocks. In the mode of \<open>oi_symmetry_encrypt2\<close> the state
  is the last block given to the cipher (\<open>iv_plain\<close>) and the last ciphertext (\<open>iv_crypt\<close>).
\<close>

definition ecb_step :: "(byte list \<Rightarrow> byte list) \<Rightarrow> unit \<Rightarrow> byte list \<Rightarrow> byte list \<times> unit" where
  "ecb_step E s b = (E b, ())"

definition cbc_enc :: "(byte list \<Rightarrow> byte list) \<Rightarrow> byte list \<Rightarrow> byte list \<Rightarrow> byte list \<times> byte list" where
  "cbc_enc E iv b = (let c = E (xor_bytes b iv) in (c, c))"

definition cbc_dec :: "(byte list \<Rightarrow> byte list) \<Rightarrow> byte list \<Rightarrow> byte list \<Rightarrow> byte list \<times> byte list" where
  "cbc_dec D iv c = (xor_bytes (D c) iv, c)"

definition cbc2_enc ::
  "(byte list \<Rightarrow> byte list) \<Rightarrow> byte list \<times> byte list \<Rightarrow> byte list \<Rightarrow> byte list \<times> byte list \<times> byte list" where
  "cbc2_enc E s b = (let (iv_plain, iv_crypt) = s; x = xor_bytes b iv_crypt;
                         c = xor_bytes (E x) iv_plain
                     in (c, x, c))"

definition cbc2_dec ::
  "(byte list \<Rightarrow> byte list) \<Rightarrow> byte list \<times> byte list \<Rightarrow> byte list \<Rightarrow> byte list \<times> byte list \<times> byte list" where
  "cbc2_dec D s c = (let (iv_plain, iv_crypt) = s; x = D (xor_bytes iv_plain c)
                     in (xor_bytes x iv_crypt, x, c))"

sublocale block_cipher \<subseteq> ecb: chained_mode "ecb_step E" "ecb_step D" "\<lambda>_. True"
  by unfold_locales (auto simp: ecb_step_def D_E length_E)

sublocale block_cipher \<subseteq> cbc: chained_mode "cbc_enc E" "cbc_dec D" "\<lambda>iv. length iv = 8"
  by unfold_locales (auto simp: cbc_enc_def cbc_dec_def Let_def D_E length_E xor_bytes_cancel)

sublocale block_cipher \<subseteq> cbc2: chained_mode "cbc2_enc E" "cbc2_dec D"
  "\<lambda>(iv_plain, iv_crypt). length iv_plain = 8 \<and> length iv_crypt = 8"
  by unfold_locales
    (auto simp: cbc2_enc_def cbc2_dec_def Let_def D_E length_E xor_bytes_cancel
      xor_bytes_commute[of _ "xor_bytes _ _"])

definition ecb_blocks :: "(byte list \<Rightarrow> byte list) \<Rightarrow> byte list \<Rightarrow> byte list" where
  "ecb_blocks E bs = fst (chain (ecb_step E) () bs)"

context block_cipher
begin

lemma ecb_blocks_inverse:
  assumes "blocks bs"
  shows "ecb_blocks D (ecb_blocks E bs) = bs" "length (ecb_blocks E bs) = length bs"
proof -
  obtain cs u where "chain (ecb_step E) () bs = (cs, u)" by (meson surj_pair)
  with ecb.chain_inverse[OF assms _ this]
  show "ecb_blocks D (ecb_blocks E bs) = bs" "length (ecb_blocks E bs) = length bs"
    by (simp_all add: ecb_blocks_def)
qed

end

lemma ecb_blocks_append:
  "length b = 8 \<Longrightarrow> ecb_blocks E (b @ bs) = E b @ ecb_blocks E bs"
  by (simp add: ecb_blocks_def chain_block ecb_step_def case_prod_beta Let_def)

lemma ecb_blocks_short [simp]: "length bs < 8 \<Longrightarrow> ecb_blocks E bs = []"
  by (simp add: ecb_blocks_def)

text \<open>Only whole blocks go through; what is left over is dropped.\<close>

lemma ecb_blocks_tail:
  "blocks xs \<Longrightarrow> ecb_blocks E (xs @ ys) = ecb_blocks E xs @ ecb_blocks E ys"
  by (induction xs rule: blocks_induct) (simp_all add: ecb_blocks_append)

section \<open>Reading a decrypted stream byte by byte\<close>

text \<open>
  The decryption loops hold a decrypted block and an index into it and fetch the next block
  when the index is eight. \<open>nxt t c\<close> is the state after the block \<open>c\<close>, \<open>view t i\<close> the byte at
  index \<open>i\<close>, \<open>on_end\<close> what happens when a block is needed and there is none.
\<close>

type_synonym 'a outcome = "'a option result"

definition bindO :: "'a outcome \<Rightarrow> ('a \<Rightarrow> 'b outcome) \<Rightarrow> 'b outcome" where
  "bindO m h = bindE m (\<lambda>x. case x of None \<Rightarrow> Inr None | Some y \<Rightarrow> h y)"

lemma bindO_simps [simp]:
  "bindO (Inl e) h = Inl e" "bindO (Inr None) h = Inr None" "bindO (Inr (Some x)) h = h x"
  by (simp_all add: bindO_def)

type_synonym 't reader = "byte list \<times> 't \<times> nat"

definition fetch ::
  "('t \<Rightarrow> byte list \<Rightarrow> 't) \<Rightarrow> 't reader outcome \<Rightarrow> 't reader \<Rightarrow> 't reader outcome" where
  "fetch nxt on_end r = (case r of (inp, t, i) \<Rightarrow>
     if i = 8
     then (if length inp < 8 then on_end else Inr (Some (drop 8 inp, nxt t (take 8 inp), 0)))
     else Inr (Some r))"

definition advance :: "'t reader \<Rightarrow> 't reader" where
  "advance r = (case r of (inp, t, i) \<Rightarrow> (inp, t, i + 1))"

text \<open>The loop that skips \<open>n\<close> bytes, fetching before (\<open>else if\<close>) or also after (\<open>if\<close>).\<close>

fun skip_lazy ::
  "('t \<Rightarrow> byte list \<Rightarrow> 't) \<Rightarrow> 't reader outcome \<Rightarrow> nat \<Rightarrow> 't reader \<Rightarrow> 't reader outcome" where
  "skip_lazy nxt on_end 0 r = Inr (Some r)"
| "skip_lazy nxt on_end (Suc n) r =
     bindO (fetch nxt on_end r) (\<lambda>r. skip_lazy nxt on_end n (advance r))"

fun skip_eager ::
  "('t \<Rightarrow> byte list \<Rightarrow> 't) \<Rightarrow> 't reader outcome \<Rightarrow> nat \<Rightarrow> 't reader \<Rightarrow> 't reader outcome" where
  "skip_eager nxt on_end 0 r = Inr (Some r)"
| "skip_eager nxt on_end (Suc n) r =
     bindO (fetch nxt on_end r) (\<lambda>r.
       bindO (fetch nxt on_end (advance r)) (skip_eager nxt on_end n))"

text \<open>The loop that copies \<open>n\<close> bytes out, and the one that checks that \<open>n\<close> bytes are zero.\<close>

fun copy_out ::
  "('t \<Rightarrow> byte list \<Rightarrow> 't) \<Rightarrow> ('t \<Rightarrow> nat \<Rightarrow> byte) \<Rightarrow> 't reader outcome \<Rightarrow> nat \<Rightarrow> 't reader \<Rightarrow>
   (byte list \<times> 't reader) outcome" where
  "copy_out nxt view on_end 0 r = Inr (Some ([], r))"
| "copy_out nxt view on_end (Suc n) r =
     bindO (fetch nxt on_end r) (\<lambda>r. case r of (inp, t, i) \<Rightarrow>
       bindO (copy_out nxt view on_end n (advance r)) (\<lambda>(out, r'). Inr (Some (view t i # out, r'))))"

fun check_zero ::
  "('t \<Rightarrow> byte list \<Rightarrow> 't) \<Rightarrow> ('t \<Rightarrow> nat \<Rightarrow> byte) \<Rightarrow> 't reader outcome \<Rightarrow> nat \<Rightarrow> 't reader \<Rightarrow>
   't reader outcome" where
  "check_zero nxt view on_end 0 r = Inr (Some r)"
| "check_zero nxt view on_end (Suc n) r =
     bindO (fetch nxt on_end r) (\<lambda>r. case r of (inp, t, i) \<Rightarrow>
       if view t i \<noteq> 0 then Inr None else check_zero nxt view on_end n (advance r))"

text \<open>The whole stream a reader still has before it.\<close>

definition bytes_of :: "('t \<Rightarrow> nat \<Rightarrow> byte) \<Rightarrow> 't \<Rightarrow> byte list" where
  "bytes_of view t = List.map (view t) [0..<8]"

definition stream :: "('t \<Rightarrow> byte list \<Rightarrow> 't) \<Rightarrow> ('t \<Rightarrow> nat \<Rightarrow> byte) \<Rightarrow> 't \<Rightarrow> byte list \<Rightarrow> byte list" where
  "stream nxt view t inp = fst (chain (\<lambda>t c. (bytes_of view (nxt t c), nxt t c)) t inp)"

definition remaining ::
  "('t \<Rightarrow> byte list \<Rightarrow> 't) \<Rightarrow> ('t \<Rightarrow> nat \<Rightarrow> byte) \<Rightarrow> 't reader \<Rightarrow> byte list" where
  "remaining nxt view r = (case r of (inp, t, i) \<Rightarrow>
     drop i (bytes_of view t) @ stream nxt view t inp)"

definition reader_ok :: "'t reader \<Rightarrow> bool" where
  "reader_ok r = (case r of (inp, t, i) \<Rightarrow> blocks inp \<and> i \<le> 8)"

lemma length_bytes_of [simp]: "length (bytes_of view t) = 8"
  by (simp add: bytes_of_def)

lemma stream_simps:
  "stream nxt view t [] = []"
  "length b = 8 \<Longrightarrow> stream nxt view t (b @ bs) =
     bytes_of view (nxt t b) @ stream nxt view (nxt t b) bs"
  by (simp_all add: stream_def chain_block case_prod_beta Let_def)

lemma fetch_remaining:
  assumes "reader_ok r" "remaining nxt view r \<noteq> []"
  obtains inp t i where "fetch nxt e r = Inr (Some (inp, t, i))" "i < 8" "reader_ok (inp, t, i)"
    "remaining nxt view (inp, t, i) = remaining nxt view r"
proof -
  obtain inp t i where r: "r = (inp, t, i)" by (cases r) auto
  show thesis
  proof (cases "i = 8")
    case False
    with assms r that show thesis by (auto simp: fetch_def reader_ok_def)
  next
    case True
    from assms r have "blocks inp" by (simp add: reader_ok_def)
    then show thesis
    proof (cases rule: blocks_cases)
      case 1
      with assms True r show thesis by (simp add: remaining_def stream_simps)
    next
      case (2 b bs)
      with True r that show thesis
        by (auto simp: fetch_def reader_ok_def remaining_def stream_simps)
    qed
  qed
qed

lemma remaining_advance:
  assumes "reader_ok (inp, t, i)" "i < 8"
  shows "remaining nxt view (inp, t, i) = view t i # remaining nxt view (advance (inp, t, i))"
    "reader_ok (advance (inp, t, i))"
  using assms
  by (simp_all add: remaining_def advance_def reader_ok_def Cons_nth_drop_Suc[symmetric])
    (simp add: bytes_of_def)

lemma fetch_advance:
  assumes "reader_ok r" "remaining nxt view r = x # xs"
  obtains inp t i where "fetch nxt e r = Inr (Some (inp, t, i))" "view t i = x"
    "reader_ok (advance (inp, t, i))" "remaining nxt view (advance (inp, t, i)) = xs"
proof -
  from assms(2) have ne: "remaining nxt view r \<noteq> []" by simp
  obtain inp t i where f: "fetch nxt e r = Inr (Some (inp, t, i))" "i < 8" "reader_ok (inp, t, i)"
    "remaining nxt view (inp, t, i) = remaining nxt view r"
    by (rule fetch_remaining[OF assms(1) ne])
  from remaining_advance[OF f(3,2)] f(4) assms(2) that[OF f(1)] show thesis by simp
qed

lemma copy_out_remaining:
  "reader_ok r \<Longrightarrow> n \<le> length (remaining nxt view r) \<Longrightarrow>
   \<exists>r'. copy_out nxt view e n r = Inr (Some (take n (remaining nxt view r), r')) \<and> reader_ok r' \<and>
     remaining nxt view r' = drop n (remaining nxt view r)"
proof (induction n arbitrary: r)
  case (Suc n)
  then obtain x xs where x: "remaining nxt view r = x # xs" by (cases "remaining nxt view r") auto
  obtain inp t i where f: "fetch nxt e r = Inr (Some (inp, t, i))" "view t i = x"
    "reader_ok (advance (inp, t, i))" "remaining nxt view (advance (inp, t, i)) = xs"
    by (rule fetch_advance[OF Suc.prems(1) x])
  from Suc.IH[OF f(3)] Suc.prems(2) x f show ?case by auto
qed simp

lemma skip_lazy_remaining:
  "reader_ok r \<Longrightarrow> n \<le> length (remaining nxt view r) \<Longrightarrow>
   \<exists>r'. skip_lazy nxt e n r = Inr (Some r') \<and> reader_ok r' \<and>
     remaining nxt view r' = drop n (remaining nxt view r)"
proof (induction n arbitrary: r)
  case (Suc n)
  then obtain x xs where x: "remaining nxt view r = x # xs" by (cases "remaining nxt view r") auto
  obtain inp t i where f: "fetch nxt e r = Inr (Some (inp, t, i))" "view t i = x"
    "reader_ok (advance (inp, t, i))" "remaining nxt view (advance (inp, t, i)) = xs"
    by (rule fetch_advance[OF Suc.prems(1) x])
  from Suc.IH[OF f(3)] Suc.prems(2) x f show ?case by auto
qed simp

text \<open>The eager loop may fetch one block more, so it needs a byte beyond those it skips.\<close>

lemma skip_eager_remaining:
  "reader_ok r \<Longrightarrow> n < length (remaining nxt view r) \<Longrightarrow>
   \<exists>r'. skip_eager nxt e n r = Inr (Some r') \<and> reader_ok r' \<and>
     remaining nxt view r' = drop n (remaining nxt view r)"
proof (induction n arbitrary: r)
  case (Suc n)
  then obtain x xs where x: "remaining nxt view r = x # xs" by (cases "remaining nxt view r") auto
  obtain inp t i where f: "fetch nxt e r = Inr (Some (inp, t, i))" "view t i = x"
    "reader_ok (advance (inp, t, i))" "remaining nxt view (advance (inp, t, i)) = xs"
    by (rule fetch_advance[OF Suc.prems(1) x])
  have ne: "remaining nxt view (advance (inp, t, i)) \<noteq> []" using Suc.prems(2) x f(4) by auto
  obtain inp' t' i' where g: "fetch nxt e (advance (inp, t, i)) = Inr (Some (inp', t', i'))"
    "reader_ok (inp', t', i')"
    "remaining nxt view (inp', t', i') = remaining nxt view (advance (inp, t, i))"
    by (rule fetch_remaining[OF f(3) ne])
  from Suc.IH[OF g(2)] Suc.prems(2) x f g show ?case by auto
qed simp

lemma check_zero_remaining:
  "reader_ok r \<Longrightarrow> n \<le> length (remaining nxt view r) \<Longrightarrow>
   (if list_all (\<lambda>b. b = 0) (take n (remaining nxt view r))
    then \<exists>r'. check_zero nxt view e n r = Inr (Some r')
    else check_zero nxt view e n r = Inr None)"
proof (induction n arbitrary: r)
  case (Suc n)
  then obtain x xs where x: "remaining nxt view r = x # xs" by (cases "remaining nxt view r") auto
  obtain inp t i where f: "fetch nxt e r = Inr (Some (inp, t, i))" "view t i = x"
    "reader_ok (advance (inp, t, i))" "remaining nxt view (advance (inp, t, i)) = xs"
    by (rule fetch_advance[OF Suc.prems(1) x])
  from Suc.IH[OF f(3)] Suc.prems(2) x f show ?case by auto
qed auto

section \<open>Writing an encrypted stream byte by byte\<close>

text \<open>
  The encryption loops hold \<open>src_buf[0..src_i)\<close>, and pass it to the cipher when it is full.
  The state is the output, the chaining state and the bytes held.
\<close>

type_synonym 's writer = "byte list \<times> 's \<times> byte list"

definition flush_full :: "('s \<Rightarrow> byte list \<Rightarrow> byte list \<times> 's) \<Rightarrow> 's writer \<Rightarrow> 's writer" where
  "flush_full f w = (case w of (out, s, src) \<Rightarrow>
     if length src = 8 then (let (c, s') = f s src in (out @ c, s', [])) else w)"

definition store :: "byte \<Rightarrow> 's writer \<Rightarrow> 's writer" where
  "store b w = (case w of (out, s, src) \<Rightarrow> (out, s, src @ [b]))"

text \<open>
  One turn of the loop stores a byte unless the buffer is full, then passes on a full
  buffer; a turn that finds it full stores nothing and is merged with the next one here.
\<close>

fun feed :: "('s \<Rightarrow> byte list \<Rightarrow> byte list \<times> 's) \<Rightarrow> byte list \<Rightarrow> 's writer \<Rightarrow> 's writer" where
  "feed f [] w = w"
| "feed f (b # bs) w = feed f bs (flush_full f (store b (flush_full f w)))"

lemma feed_append: "feed f (xs @ ys) w = feed f ys (feed f xs w)"
  by (induction xs arbitrary: w) auto

lemma feed_chain_short:
  "length src < 8 \<Longrightarrow> blocks (src @ bs) \<Longrightarrow> chain f s (src @ bs) = (cs, s') \<Longrightarrow>
   feed f bs (out, s, src) = (out @ cs, s', [])"
proof (induction bs arbitrary: out s src cs s')
  case Nil
  then show ?case by (simp add: blocks_def)
next
  case (Cons b bs)
  have store: "feed f (b # bs) (out, s, src) = feed f bs (flush_full f (out, s, src @ [b]))"
    using Cons.prems(1) by (simp add: flush_full_def store_def)
  show ?case
  proof (cases "length src = 7")
    case False
    with Cons.prems have "feed f bs (out, s, src @ [b]) = (out @ cs, s', [])"
      by (intro Cons.IH) auto
    with False store show ?thesis by (simp add: flush_full_def)
  next
    case True
    obtain c t where c: "f s (src @ [b]) = (c, t)" by fastforce
    obtain ds u where ds: "chain f t bs = (ds, u)" by fastforce
    have len: "length (src @ [b]) = 8" using True by simp
    have eq: "cs = c @ ds" "s' = u"
      using Cons.prems(3) chain_block[OF len, of f s bs] c ds by simp_all
    have "blocks bs" using Cons.prems(2) blocks_simps(2)[OF len, of bs] by simp
    then have "feed f bs (out @ c, t, []) = ((out @ c) @ ds, u, [])"
      using ds by (intro Cons.IH) simp_all
    with True store c eq show ?thesis by (simp add: flush_full_def)
  qed
qed

lemma feed_chain:
  assumes "length src \<le> 8" "bs \<noteq> []" "blocks (src @ bs)" "chain f s (src @ bs) = (cs, s')"
  shows "feed f bs (out, s, src) = (out @ cs, s', [])"
proof (cases "length src = 8")
  case False
  with assms show ?thesis by (intro feed_chain_short) auto
next
  case True
  obtain c t where c: "f s src = (c, t)" by fastforce
  obtain ds u where ds: "chain f t bs = (ds, u)" by fastforce
  have eq: "cs = c @ ds" "s' = u"
    using assms(4) chain_block[OF True, of f s bs] c ds by simp_all
  have "feed f bs (out, s, src) = feed f bs (out @ c, t, [])"
    using assms(2) True c by (cases bs) (simp_all add: flush_full_def)
  also have "\<dots> = ((out @ c) @ ds, u, [])"
    using assms(3) True ds by (intro feed_chain_short) simp_all
  finally show ?thesis by (simp add: eq)
qed

end
