(* ===== verification/Tea.thy ===== *)
theory Tea
  imports Block_Cipher
begin

unbundle bit_operations_syntax

text \<open>
  \<open>TC_Tea\<close> (tcinclude/tc_tea.cpp): the block cipher, the two encryption and decryption
  routines built on it, and the four entry points that size the buffers. \<open>rand()\<close> is a
  parameter: the byte its k-th call yields.
\<close>

section \<open>The block cipher\<close>

text \<open>\<open>ntohl\<close> of four bytes and \<open>htonl\<close> back: the network order has the high byte first.\<close>

definition ntohl_at :: "byte list \<Rightarrow> nat \<Rightarrow> u32" where
  "ntohl_at bs k =
     push_bit 24 (ucast (bs ! k)) OR push_bit 16 (ucast (bs ! (k + 1))) OR
     push_bit 8 (ucast (bs ! (k + 2))) OR ucast (bs ! (k + 3))"

definition htonl_bytes :: "u32 \<Rightarrow> byte list" where
  "htonl_bytes w = [ucast (drop_bit 24 w), ucast (drop_bit 16 w), ucast (drop_bit 8 w), ucast w]"

definition DELTA :: u32 where
  "DELTA = 0x9e3779b9"

definition ROUNDS :: nat where "ROUNDS = 16"
definition LOG_ROUNDS :: nat where "LOG_ROUNDS = 4"
definition SALT_LEN :: nat where "SALT_LEN = 2"
definition ZERO_LEN :: nat where "ZERO_LEN = 7"

type_synonym tea_key = "u32 \<times> u32 \<times> u32 \<times> u32"

definition tea_key :: "byte list \<Rightarrow> tea_key" where
  "tea_key pKey = (ntohl_at pKey 0, ntohl_at pKey 4, ntohl_at pKey 8, ntohl_at pKey 12)"

definition mix :: "u32 \<Rightarrow> u32 \<Rightarrow> u32 \<Rightarrow> u32 \<Rightarrow> u32" where
  "mix sm x ka kb = push_bit 4 x + (ka XOR x) + (sm XOR drop_bit 5 x) + kb"

definition enc_round :: "tea_key \<Rightarrow> u32 \<Rightarrow> u32 \<times> u32 \<Rightarrow> u32 \<times> u32" where
  "enc_round k sm yz = (case k of (k0, k1, k2, k3) \<Rightarrow> case yz of (y, z) \<Rightarrow>
     let y = y + mix sm z k0 k1; z = z + mix sm y k2 k3 in (y, z))"

definition dec_round :: "tea_key \<Rightarrow> u32 \<Rightarrow> u32 \<times> u32 \<Rightarrow> u32 \<times> u32" where
  "dec_round k sm yz = (case k of (k0, k1, k2, k3) \<Rightarrow> case yz of (y, z) \<Rightarrow>
     let z = z - mix sm y k2 k3; y = y - mix sm z k0 k1 in (y, z))"

text \<open>The two loops; the second argument is \<open>sum\<close>.\<close>

fun enc_loop :: "tea_key \<Rightarrow> u32 \<Rightarrow> nat \<Rightarrow> u32 \<times> u32 \<Rightarrow> u32 \<times> u32" where
  "enc_loop k sm 0 yz = yz"
| "enc_loop k sm (Suc n) yz = enc_loop k (sm + DELTA) n (enc_round k (sm + DELTA) yz)"

fun dec_loop :: "tea_key \<Rightarrow> u32 \<Rightarrow> nat \<Rightarrow> u32 \<times> u32 \<Rightarrow> u32 \<times> u32" where
  "dec_loop k sm 0 yz = yz"
| "dec_loop k sm (Suc n) yz = dec_loop k (sm - DELTA) n (dec_round k sm yz)"

definition TeaEncryptECB :: "byte list \<Rightarrow> byte list \<Rightarrow> byte list" where
  "TeaEncryptECB pKey pInBuf =
     (let (y, z) = enc_loop (tea_key pKey) 0 ROUNDS (ntohl_at pInBuf 0, ntohl_at pInBuf 4)
      in htonl_bytes y @ htonl_bytes z)"

definition TeaDecryptECB :: "byte list \<Rightarrow> byte list \<Rightarrow> byte list" where
  "TeaDecryptECB pKey pInBuf =
     (let (y, z) = dec_loop (tea_key pKey) (push_bit LOG_ROUNDS DELTA) ROUNDS
                     (ntohl_at pInBuf 0, ntohl_at pInBuf 4)
      in htonl_bytes y @ htonl_bytes z)"

lemma ntohl_htonl: "ntohl_at (htonl_bytes a @ htonl_bytes b) 0 = a"
  "ntohl_at (htonl_bytes a @ htonl_bytes b) 4 = b"
  by (simp_all add: ntohl_at_def htonl_bytes_def) (simp_all add: u32_bits)

lemma htonl_ntohl: "htonl_bytes (ntohl_at bs k) = [bs ! k, bs ! (k + 1), bs ! (k + 2), bs ! (k + 3)]"
  by (simp add: ntohl_at_def htonl_bytes_def) (simp add: byte_bits)

lemma list_of_8: "length bs = 8 \<Longrightarrow> bs = [bs!0, bs!1, bs!2, bs!3, bs!4, bs!5, bs!6, bs!7]"
  by (rule nth_equalityI) (auto simp: less_Suc_eq numeral_eq_Suc)

lemma htonl_both: "length bs = 8 \<Longrightarrow> htonl_bytes (ntohl_at bs 0) @ htonl_bytes (ntohl_at bs 4) = bs"
  using list_of_8[of bs] by (simp add: htonl_ntohl numeral_2_eq_2)

lemma dec_enc_round: "dec_round k s (enc_round k s yz) = yz"
  by (simp add: dec_round_def enc_round_def Let_def split: prod.splits)

lemma enc_loop_last:
  "enc_loop k s (Suc n) yz = enc_round k (s + of_nat (Suc n) * DELTA) (enc_loop k s n yz)"
proof (induction n arbitrary: s yz)
  case (Suc n)
  let ?yz = "enc_round k (s + DELTA) yz"
  have "enc_loop k s (Suc (Suc n)) yz = enc_loop k (s + DELTA) (Suc n) ?yz" by simp
  also have "\<dots> = enc_round k (s + DELTA + of_nat (Suc n) * DELTA) (enc_loop k (s + DELTA) n ?yz)"
    by (rule Suc.IH)
  also have "s + DELTA + of_nat (Suc n) * DELTA = s + of_nat (Suc (Suc n)) * DELTA"
    by (simp add: algebra_simps)
  also have "enc_loop k (s + DELTA) n ?yz = enc_loop k s (Suc n) yz" by simp
  finally show ?case .
qed simp

lemma dec_enc_loop: "dec_loop k (s + of_nat n * DELTA) n (enc_loop k s n yz) = yz"
proof (induction n)
  case (Suc n)
  have "dec_loop k (s + of_nat (Suc n) * DELTA) (Suc n) (enc_loop k s (Suc n) yz) =
      dec_loop k (s + of_nat n * DELTA) n (enc_loop k s n yz)"
    unfolding enc_loop_last by (simp add: dec_enc_round algebra_simps)
  with Suc.IH show ?case by simp
qed simp

text \<open>\<open>DELTA << LOG_ROUNDS\<close> is the sum the encryption ends with.\<close>

lemma final_sum: "push_bit LOG_ROUNDS DELTA = 0 + of_nat ROUNDS * DELTA"
  by (simp add: LOG_ROUNDS_def ROUNDS_def DELTA_def)

lemma length_htonl [simp]: "length (htonl_bytes w) = 4"
  by (simp add: htonl_bytes_def)

lemma TeaDecrypt_TeaEncrypt:
  assumes "length b = 8"
  shows "TeaDecryptECB k (TeaEncryptECB k b) = b"
proof -
  obtain y z where yz: "enc_loop (tea_key k) 0 ROUNDS (ntohl_at b 0, ntohl_at b 4) = (y, z)"
    by fastforce
  from dec_enc_loop[of "tea_key k" 0 ROUNDS "(ntohl_at b 0, ntohl_at b 4)"] yz
  have "dec_loop (tea_key k) (push_bit LOG_ROUNDS DELTA) ROUNDS (y, z) = (ntohl_at b 0, ntohl_at b 4)"
    by (simp only: final_sum)
  with yz assms show ?thesis
    by (simp add: TeaDecryptECB_def TeaEncryptECB_def ntohl_htonl htonl_both)
qed

lemma length_TeaECB [simp]: "length (TeaEncryptECB k b) = 8" "length (TeaDecryptECB k b) = 8"
  by (simp_all add: TeaEncryptECB_def TeaDecryptECB_def split: prod.splits)

interpretation tea: block_cipher "TeaEncryptECB k" "TeaDecryptECB k" for k
  by unfold_locales (simp_all add: TeaDecrypt_TeaEncrypt)

section \<open>Encryption\<close>

text \<open>
  The pad length \<open>(8 - n mod 8) mod 8\<close>, as the code computes it, and the first bytes of the
  buffer: the pad length in the low three bits of a random byte, then random padding. The
  salt is the two calls of \<open>rand\<close> after those.
\<close>

definition pad_len :: "nat \<Rightarrow> nat" where
  "pad_len nInBufLen =
     (let n = (nInBufLen + 1 + SALT_LEN + ZERO_LEN) mod 8 in if n \<noteq> 0 then 8 - n else 0)"

definition oi_symmetry_encrypt2_len :: "nat \<Rightarrow> nat" where
  "oi_symmetry_encrypt2_len nInBufLen =
     (nInBufLen + 1 + SALT_LEN + ZERO_LEN) + pad_len nInBufLen"

definition first_bytes :: "(nat \<Rightarrow> byte) \<Rightarrow> nat \<Rightarrow> byte list" where
  "first_bytes rnd nPadlen =
     ((rnd 0 AND 0xf8) OR of_nat nPadlen) # List.map rnd [1..<1 + nPadlen]"

definition salt_bytes :: "(nat \<Rightarrow> byte) \<Rightarrow> nat \<Rightarrow> byte list" where
  "salt_bytes rnd nPadlen = List.map rnd [1 + nPadlen..<1 + nPadlen + SALT_LEN]"

text \<open>The body both encryptions share, up to what they do with a full block (\<open>f\<close>).\<close>

definition encrypt_with ::
  "('s \<Rightarrow> byte list \<Rightarrow> byte list \<times> 's) \<Rightarrow> 's \<Rightarrow> (nat \<Rightarrow> byte) \<Rightarrow> byte list \<Rightarrow> byte list" where
  "encrypt_with f iv rnd pInBuf =
     (let nPadlen = pad_len (length pInBuf);
          w = ([], iv, first_bytes rnd nPadlen);
          w = feed f (salt_bytes rnd nPadlen) w;
          w = feed f pInBuf w;
          w = feed f (replicate ZERO_LEN 0) w
      in fst w)"

definition oi_symmetry_encrypt :: "(nat \<Rightarrow> byte) \<Rightarrow> byte list \<Rightarrow> byte list \<Rightarrow> byte list" where
  "oi_symmetry_encrypt rnd pKey pInBuf =
     encrypt_with (cbc_enc (TeaEncryptECB pKey)) zeros rnd pInBuf"

definition oi_symmetry_encrypt2 :: "(nat \<Rightarrow> byte) \<Rightarrow> byte list \<Rightarrow> byte list \<Rightarrow> byte list" where
  "oi_symmetry_encrypt2 rnd pKey pInBuf =
     encrypt_with (cbc2_enc (TeaEncryptECB pKey)) (zeros, zeros) rnd pInBuf"

section \<open>Decryption\<close>

text \<open>
  \<open>oi_symmetry_decrypt\<close> holds the decrypted block and the last ciphertext block;
  \<open>oi_symmetry_decrypt2\<close> holds the block before the last XOR (\<open>dest_buf\<close>) and the two last
  ciphertext blocks, and does that XOR when it takes a byte out.
\<close>

type_synonym dec1 = "byte list \<times> byte list"
type_synonym dec2 = "byte list \<times> byte list \<times> byte list"

definition next1 :: "byte list \<Rightarrow> dec1 \<Rightarrow> byte list \<Rightarrow> dec1" where
  "next1 pKey t c = (case t of (dest_buf, iv_buf) \<Rightarrow> (xor_bytes (TeaDecryptECB pKey c) iv_buf, c))"

definition view1 :: "dec1 \<Rightarrow> nat \<Rightarrow> byte" where
  "view1 t i = (case t of (dest_buf, iv_buf) \<Rightarrow> dest_buf ! i)"

definition next2 :: "byte list \<Rightarrow> dec2 \<Rightarrow> byte list \<Rightarrow> dec2" where
  "next2 pKey t c = (case t of (dest_buf, iv_pre_crypt, iv_cur_crypt) \<Rightarrow>
     (TeaDecryptECB pKey (xor_bytes dest_buf c), iv_cur_crypt, c))"

definition view2 :: "dec2 \<Rightarrow> nat \<Rightarrow> byte" where
  "view2 t i = (case t of (dest_buf, iv_pre_crypt, iv_cur_crypt) \<Rightarrow> dest_buf ! i XOR iv_pre_crypt ! i)"

text \<open>
  The plaintext length \<open>nInBufLen - 1 - nPadLen - SALT_LEN - ZERO_LEN\<close>, on \<open>size_t\<close>.
\<close>

definition plain_len :: "nat \<Rightarrow> nat \<Rightarrow> u64" where
  "plain_len nInBufLen nPadLen =
     of_nat nInBufLen - 1 - of_nat nPadLen - of_nat SALT_LEN - of_nat ZERO_LEN"

text \<open>
  Both return \<open>None\<close> for \<open>false\<close> and the plaintext otherwise; \<open>nOutBufLen\<close> is the capacity
  of the caller's buffer.
\<close>

definition oi_symmetry_decrypt :: "byte list \<Rightarrow> byte list \<Rightarrow> nat \<Rightarrow> byte list outcome" where
  "oi_symmetry_decrypt pKey pInBuf nOutBufLen =
     (if length pInBuf mod 8 \<noteq> 0 \<or> length pInBuf < 16 then Inr None
      else let dest_buf = TeaDecryptECB pKey (take 8 pInBuf);
               nPadLen = unat (dest_buf ! 0 AND 0x7);
               n = plain_len (length pInBuf) nPadLen
           in if of_nat nOutBufLen < n then Inr None
              else let nxt = next1 pKey;
                       r = (drop 8 pInBuf, (dest_buf, take 8 pInBuf), 1 + nPadLen)
                   in bindO (skip_eager nxt (Inl OutOfBounds) SALT_LEN r) (\<lambda>r.
                      bindO (copy_out nxt view1 (Inl OutOfBounds) (unat n) r) (\<lambda>(out, r).
                      bindO (check_zero nxt view1 (Inl OutOfBounds) ZERO_LEN r) (\<lambda>r.
                      Inr (Some out)))))"

definition oi_symmetry_decrypt2 :: "byte list \<Rightarrow> byte list \<Rightarrow> nat \<Rightarrow> byte list outcome" where
  "oi_symmetry_decrypt2 pKey pInBuf nOutBufLen =
     (if length pInBuf mod 8 \<noteq> 0 \<or> length pInBuf < 16 then Inr None
      else let dest_buf = TeaDecryptECB pKey (take 8 pInBuf);
               nPadLen = unat (dest_buf ! 0 AND 0x7);
               n = plain_len (length pInBuf) nPadLen
           in if of_nat nOutBufLen < n then Inr None
              else let nxt = next2 pKey;
                       r = (drop 8 pInBuf, (dest_buf, zeros, take 8 pInBuf), 1 + nPadLen)
                   in bindO (skip_lazy nxt (Inr None) SALT_LEN r) (\<lambda>r.
                      bindO (copy_out nxt view2 (Inr None) (unat n) r) (\<lambda>(out, r).
                      bindO (check_zero nxt view2 (Inr None) ZERO_LEN r) (\<lambda>r.
                      Inr (Some out)))))"

section \<open>The entry points\<close>

text \<open>
  Each sizes a buffer and passes its length; the result is what the routine wrote, or an
  exception. Writing past the buffer is \<open>OutOfBounds\<close>.
\<close>

definition in_buffer :: "nat \<Rightarrow> byte list \<Rightarrow> byte list result" where
  "in_buffer outlen out = (if length out \<le> outlen then Inr out else Inl OutOfBounds)"

definition encrypt1 :: "(nat \<Rightarrow> byte) \<Rightarrow> byte list \<Rightarrow> byte list \<Rightarrow> byte list result" where
  "encrypt1 rnd key sIn = in_buffer (16 + 2 * length sIn) (oi_symmetry_encrypt rnd key sIn)"

definition encrypt2 :: "(nat \<Rightarrow> byte) \<Rightarrow> byte list \<Rightarrow> byte list \<Rightarrow> byte list result" where
  "encrypt2 rnd key sIn =
     in_buffer (oi_symmetry_encrypt2_len (length sIn)) (oi_symmetry_encrypt2 rnd key sIn)"

definition or_throw :: "nat \<Rightarrow> byte list outcome \<Rightarrow> byte list result" where
  "or_throw outlen m = bindE m (\<lambda>x. case x of None \<Rightarrow> Inl (Thrown ''TC_Tea_Exception'')
     | Some out \<Rightarrow> in_buffer outlen out)"

definition decrypt1 :: "byte list \<Rightarrow> byte list \<Rightarrow> byte list result" where
  "decrypt1 key sIn =
     or_throw (2 * length sIn) (oi_symmetry_decrypt key sIn (2 * length sIn))"

definition decrypt2 :: "byte list \<Rightarrow> byte list \<Rightarrow> byte list result" where
  "decrypt2 key sIn =
     or_throw (2 * length sIn) (oi_symmetry_decrypt2 key sIn (2 * length sIn))"

section \<open>What the encryptions compute\<close>

lemma pad_len_bound: "pad_len n < 8" "(n + 10 + pad_len n) mod 8 = 0"
proof -
  have "(8::nat) dvd n + 10 + (8 - (n + 10) mod 8)"
    by presburger
  then show "pad_len n < 8" "(n + 10 + pad_len n) mod 8 = 0"
    by (auto simp: pad_len_def Let_def SALT_LEN_def ZERO_LEN_def mod_eq_0_iff_dvd
        add.commute add.left_commute)
qed

text \<open>The formatted plaintext: header, padding, salt, body, seven zeros.\<close>

definition formatted :: "(nat \<Rightarrow> byte) \<Rightarrow> byte list \<Rightarrow> byte list" where
  "formatted rnd body = (let p = pad_len (length body) in
     first_bytes rnd p @ salt_bytes rnd p @ body @ replicate ZERO_LEN 0)"

lemma length_first_salt [simp]:
  "length (first_bytes rnd p) = 1 + p" "length (salt_bytes rnd p) = 2"
  by (simp_all add: first_bytes_def salt_bytes_def SALT_LEN_def)

lemma length_formatted: "length (formatted rnd body) = oi_symmetry_encrypt2_len (length body)"
  by (simp add: formatted_def Let_def oi_symmetry_encrypt2_len_def SALT_LEN_def)

lemma blocks_formatted: "blocks (formatted rnd body)"
  using pad_len_bound(2)[of "length body"]
  by (simp add: blocks_def length_formatted oi_symmetry_encrypt2_len_def SALT_LEN_def ZERO_LEN_def
      add.commute add.left_commute)

lemma encrypt_with_chain: "encrypt_with f iv rnd body = fst (chain f iv (formatted rnd body))"
proof -
  let ?p = "pad_len (length body)"
  let ?bs = "salt_bytes rnd ?p @ body @ replicate ZERO_LEN 0"
  obtain cs s' where c: "chain f iv (formatted rnd body) = (cs, s')" by fastforce
  have "feed f ?bs ([], iv, first_bytes rnd ?p) = ([] @ cs, s', [])"
    using c blocks_formatted[of rnd body] pad_len_bound(1)[of "length body"]
    by (intro feed_chain) (auto simp: formatted_def Let_def ZERO_LEN_def)
  with c show ?thesis by (simp add: encrypt_with_def Let_def feed_append)
qed

section \<open>What the decryptions compute\<close>

text \<open>The format read back from the decrypted stream.\<close>

definition unformat :: "byte list \<Rightarrow> nat \<Rightarrow> byte list option" where
  "unformat p cap = (let pad = unat (p ! 0 AND 0x7); n = length p - (10 + pad) in
     if length p < 10 + pad \<or> cap < n then None
     else if list_all (\<lambda>b. b = 0) (drop (length p - 7) p) then Some (take n (drop (3 + pad) p))
     else None)"

lemma read_out:
  assumes "reader_ok r" "length (remaining nxt view r) = n + 7"
  shows "bindO (copy_out nxt view e n r) (\<lambda>(out, r). bindO (check_zero nxt view e ZERO_LEN r)
      (\<lambda>r. Inr (Some out))) =
    Inr (if list_all (\<lambda>b. b = 0) (drop n (remaining nxt view r))
         then Some (take n (remaining nxt view r)) else None)"
proof -
  obtain r' where r': "copy_out nxt view e n r = Inr (Some (take n (remaining nxt view r), r'))"
    "reader_ok r'" "remaining nxt view r' = drop n (remaining nxt view r)"
    using copy_out_remaining[OF assms(1), of n nxt view e] assms(2) by auto
  with check_zero_remaining[OF r'(2), of ZERO_LEN nxt view e] assms(2) show ?thesis
    by (auto simp: ZERO_LEN_def split: if_splits)
qed

lemma pad_bits: "unat ((b :: byte) AND 0x7) < 8"
  using unat_and_le[of b 7] by simp

lemma plain_len_eq:
  assumes "16 \<le> n" "n < 2 ^ 63" "pad < 8"
  shows "unat (plain_len n pad) = (if n < 10 + pad then 2 ^ 64 - 1 else n - (10 + pad))"
proof (cases "n < 10 + pad")
  case True
  then have "n = 16" "pad = 7" using assms by auto
  then show ?thesis
    by (simp add: plain_len_def SALT_LEN_def ZERO_LEN_def unsigned_minus_1_eq_mask mask_eq_exp_minus_1)
next
  case False
  then obtain m where m: "n = m + (10 + pad)" by (metis add.commute le_Suc_ex not_less)
  then have "plain_len n pad = of_nat m"
    by (simp add: plain_len_def SALT_LEN_def ZERO_LEN_def)
  then show ?thesis using m assms(2) by (simp add: unat_of_nat take_bit_nat_eq_self)
qed

lemma bytes_of_view1: "length d = 8 \<Longrightarrow> bytes_of view1 (d, iv) = d"
  by (rule nth_equalityI) (auto simp: bytes_of_def view1_def)

lemma bytes_of_view2: "length d = 8 \<Longrightarrow> length pre = 8 \<Longrightarrow> bytes_of view2 (d, pre, cur) = xor_bytes d pre"
  by (rule nth_equalityI) (auto simp: bytes_of_def view2_def)

lemma stream_view1:
  "blocks inp \<Longrightarrow> length iv = 8 \<Longrightarrow>
   stream (next1 k) view1 (d, iv) inp = fst (chain (cbc_dec (TeaDecryptECB k)) iv inp)"
  by (induction inp arbitrary: d iv rule: blocks_induct)
    (simp_all add: stream_simps next1_def bytes_of_view1 chain_block cbc_dec_def case_prod_beta Let_def)

lemma stream_view2:
  "blocks inp \<Longrightarrow> length cur = 8 \<Longrightarrow>
   stream (next2 k) view2 (d, pre, cur) inp = fst (chain (cbc2_dec (TeaDecryptECB k)) (d, cur) inp)"
  by (induction inp arbitrary: d pre cur rule: blocks_induct)
    (simp_all add: stream_simps next2_def bytes_of_view2 chain_block cbc2_dec_def case_prod_beta Let_def)

text \<open>The whole decrypted stream, whose first block both routines decrypt in advance.\<close>

lemma first_block:
  assumes "blocks inp" "16 \<le> length inp"
  obtains c rest where "inp = c @ rest" "length c = 8" "blocks rest" "8 \<le> length rest"
  using assms by (cases rule: blocks_cases) auto

lemma plain1:
  assumes "length c = 8" "blocks rest"
  shows "remaining (next1 k) view1 (rest, (TeaDecryptECB k c, c), i) =
    drop i (TeaDecryptECB k c) @ fst (chain (cbc_dec (TeaDecryptECB k)) c rest)"
    and "fst (chain (cbc_dec (TeaDecryptECB k)) zeros (c @ rest)) =
    TeaDecryptECB k c @ fst (chain (cbc_dec (TeaDecryptECB k)) c rest)"
  using assms
  by (simp_all add: remaining_def stream_view1 bytes_of_view1 chain_block cbc_dec_def
      case_prod_beta Let_def)

lemma plain2:
  assumes "length c = 8" "blocks rest"
  shows "remaining (next2 k) view2 (rest, (TeaDecryptECB k c, zeros, c), i) =
    drop i (TeaDecryptECB k c) @ fst (chain (cbc2_dec (TeaDecryptECB k)) (TeaDecryptECB k c, c) rest)"
    and "fst (chain (cbc2_dec (TeaDecryptECB k)) (zeros, zeros) (c @ rest)) =
    TeaDecryptECB k c @ fst (chain (cbc2_dec (TeaDecryptECB k)) (TeaDecryptECB k c, c) rest)"
  using assms
  by (simp_all add: remaining_def stream_view2 bytes_of_view2 chain_block cbc2_dec_def
      case_prod_beta Let_def)

lemma chain_length:
  assumes "\<And>s b. ok s \<Longrightarrow> length b = 8 \<Longrightarrow> length (fst (f s b)) = 8 \<and> ok (snd (f s b))"
  shows "blocks bs \<Longrightarrow> ok s \<Longrightarrow> length (fst (chain f s bs)) = length bs"
  by (induction bs arbitrary: s rule: blocks_induct)
    (use assms in \<open>auto simp: chain_block case_prod_beta Let_def\<close>)

lemma length_cbc:
  "blocks bs \<Longrightarrow> length iv = 8 \<Longrightarrow>
   length (fst (chain (cbc_dec (TeaDecryptECB k)) iv bs)) = length bs"
  "blocks bs \<Longrightarrow> length iv = 8 \<Longrightarrow> length iv' = 8 \<Longrightarrow>
   length (fst (chain (cbc2_dec (TeaDecryptECB k)) (iv, iv') bs)) = length bs"
  by (rule chain_length[where ok = "\<lambda>iv. length iv = 8"]; simp add: cbc_dec_def)
    (rule chain_length[where ok = "\<lambda>(a, b). length a = 8 \<and> length b = 8"];
      auto simp: cbc2_dec_def Let_def)

lemma unformat_remaining:
  fixes p :: "byte list"
  assumes "length p = N" "pad = unat (p ! 0 AND 7)" "16 \<le> N" "N < 2 ^ 63" "cap < 2 ^ 63"
    and "n = unat (plain_len N pad)" "R = drop (1 + pad) p"
  shows "of_nat cap < plain_len N pad \<longleftrightarrow> N < 10 + pad \<or> cap < N - (10 + pad)"
    and "10 + pad \<le> N \<Longrightarrow> length (drop 2 R) = n + 7 \<and> 2 < length R \<and>
      take n (drop 2 R) = take n (drop (3 + pad) p) \<and>
      drop n (drop 2 R) = drop (N - 7) p \<and> n = N - (10 + pad)"
proof -
  have pad: "pad < 8" using pad_bits assms(2) by simp
  have n: "n = (if N < 10 + pad then 2 ^ 64 - 1 else N - (10 + pad))"
    using plain_len_eq[OF assms(3,4) pad] assms(6) by simp
  have "unat (of_nat cap :: u64) = cap" using assms(5) by (simp add: unat_of_nat take_bit_nat_eq_self)
  then have "of_nat cap < plain_len N pad \<longleftrightarrow> cap < n"
    using assms(6) by (simp add: word_less_nat_alt)
  then show "of_nat cap < plain_len N pad \<longleftrightarrow> N < 10 + pad \<or> cap < N - (10 + pad)"
    using n assms(5) by (auto split: if_splits)
  assume le: "10 + pad \<le> N"
  then have n': "n = N - (10 + pad)" using n by simp
  have "n + (2 + (1 + pad)) = N - 7" using n' le by simp
  then have "drop n (drop 2 R) = drop (N - 7) p" by (simp only: assms(7) drop_drop)
  moreover have "2 + (1 + pad) = 3 + pad" by simp
  then have "drop 2 R = drop (3 + pad) p" by (simp only: assms(7) drop_drop)
  ultimately show "length (drop 2 R) = n + 7 \<and> 2 < length R \<and>
      take n (drop 2 R) = take n (drop (3 + pad) p) \<and>
      drop n (drop 2 R) = drop (N - 7) p \<and> n = N - (10 + pad)"
    using n' le assms(1,3,7) pad by simp
qed

lemma reader_unformat:
  fixes p :: "byte list"
  assumes "reader_ok r" "remaining nxt view r = drop (1 + pad) p" "length p = N"
    "pad = unat (p ! 0 AND 7)" "16 \<le> N" "N < 2 ^ 63" "cap < 2 ^ 63"
    and skip: "2 < length (remaining nxt view r) \<Longrightarrow> \<exists>q. skip r = Inr (Some q) \<and> reader_ok q \<and>
      remaining nxt view q = drop 2 (remaining nxt view r)"
  shows "(if of_nat cap < plain_len N pad then Inr None
      else bindO (skip r) (\<lambda>r.
        bindO (copy_out nxt view e (unat (plain_len N pad)) r) (\<lambda>(out, r).
        bindO (check_zero nxt view e ZERO_LEN r) (\<lambda>r. Inr (Some out))))) =
    Inr (unformat p cap)"
proof -
  note U = unformat_remaining[OF assms(3-7) refl refl]
  let ?n = "unat (plain_len N pad)"
  show ?thesis
  proof (cases "of_nat cap < plain_len N pad")
    case True
    with U(1) show ?thesis by (auto simp: Let_def unformat_def assms(3,4))
  next
    case False
    then have cap: "10 + pad \<le> N" "\<not> cap < N - (10 + pad)" using U(1) by auto
    from U(2)[OF cap(1)] have e: "drop ?n (drop 2 (drop (1 + pad) p)) = drop (N - 7) p"
      "take ?n (drop 2 (drop (1 + pad) p)) = take ?n (drop (3 + pad) p)"
      "?n = N - (10 + pad)" "length (drop 2 (drop (1 + pad) p)) = ?n + 7"
      "2 < length (drop (1 + pad) p)" by blast+
    obtain q where q: "skip r = Inr (Some q)" "reader_ok q"
      "remaining nxt view q = drop 2 (drop (1 + pad) p)"
      using skip e(5) by (auto simp: assms(2))
    have "length (remaining nxt view q) = ?n + 7" using e(4) q(3) by simp
    note out = read_out[OF q(2) this, of e]
    have "bindO (skip r) (\<lambda>r. bindO (copy_out nxt view e ?n r) (\<lambda>(out, r).
        bindO (check_zero nxt view e ZERO_LEN r) (\<lambda>r. Inr (Some out)))) = Inr (unformat p cap)"
      unfolding q(1) bindO_simps out q(3) e(1,2) unformat_def Let_def assms(3) assms(4)[symmetric]
        e(3)[symmetric]
      using cap by (simp add: e(3))
    with False show ?thesis by simp
  qed
qed

lemma decrypt_unformat:
  assumes "length inp < 2 ^ 63" "cap < 2 ^ 63"
  shows "oi_symmetry_decrypt k inp cap =
    Inr (if length inp mod 8 \<noteq> 0 \<or> length inp < 16 then None
         else unformat (fst (chain (cbc_dec (TeaDecryptECB k)) zeros inp)) cap)"
proof (cases "length inp mod 8 \<noteq> 0 \<or> length inp < 16")
  case False
  then obtain c rest where inp: "inp = c @ rest" "length c = 8" "blocks rest" "8 \<le> length rest"
    by (metis blocks_def first_block not_less)
  let ?p = "fst (chain (cbc_dec (TeaDecryptECB k)) zeros inp)"
  let ?pad = "unat (TeaDecryptECB k c ! 0 AND 7)"
  let ?r = "(rest, (TeaDecryptECB k c, c), 1 + ?pad)"
  have p: "?p = TeaDecryptECB k c @ fst (chain (cbc_dec (TeaDecryptECB k)) c rest)"
    using plain1(2)[OF inp(2,3)] by (simp add: inp(1))
  have "(if of_nat cap < plain_len (length inp) ?pad then Inr None
      else bindO (skip_eager (next1 k) (Inl OutOfBounds) SALT_LEN ?r) (\<lambda>r.
        bindO (copy_out (next1 k) view1 (Inl OutOfBounds) (unat (plain_len (length inp) ?pad)) r)
          (\<lambda>(out, r). bindO (check_zero (next1 k) view1 (Inl OutOfBounds) ZERO_LEN r)
            (\<lambda>r. Inr (Some out))))) = Inr (unformat ?p cap)"
  proof (rule reader_unformat)
    show "reader_ok ?r" using inp pad_bits by (simp add: reader_ok_def Suc_le_eq)
    show "remaining (next1 k) view1 ?r = drop (1 + ?pad) ?p"
      using plain1(1)[OF inp(2,3)] pad_bits[of "TeaDecryptECB k c ! 0"] by (simp add: p)
    show "length ?p = length inp" using inp by (intro length_cbc) simp_all
    show "?pad = unat (?p ! 0 AND 7)" by (simp add: p nth_append)
    show "2 < length (remaining (next1 k) view1 ?r) \<Longrightarrow>
        \<exists>q. skip_eager (next1 k) (Inl OutOfBounds) SALT_LEN ?r = Inr (Some q) \<and> reader_ok q \<and>
          remaining (next1 k) view1 q = drop 2 (remaining (next1 k) view1 ?r)"
      using skip_eager_remaining[OF \<open>reader_ok ?r\<close>] by (simp add: SALT_LEN_def)
  qed (use False assms in auto)
  with False inp(2) show ?thesis by (simp add: oi_symmetry_decrypt_def Let_def inp(1) cong: if_cong)
qed (auto simp: oi_symmetry_decrypt_def)

lemma decrypt2_unformat:
  assumes "length inp < 2 ^ 63" "cap < 2 ^ 63"
  shows "oi_symmetry_decrypt2 k inp cap =
    Inr (if length inp mod 8 \<noteq> 0 \<or> length inp < 16 then None
         else unformat (fst (chain (cbc2_dec (TeaDecryptECB k)) (zeros, zeros) inp)) cap)"
proof (cases "length inp mod 8 \<noteq> 0 \<or> length inp < 16")
  case False
  then obtain c rest where inp: "inp = c @ rest" "length c = 8" "blocks rest" "8 \<le> length rest"
    by (metis blocks_def first_block not_less)
  let ?p = "fst (chain (cbc2_dec (TeaDecryptECB k)) (zeros, zeros) inp)"
  let ?pad = "unat (TeaDecryptECB k c ! 0 AND 7)"
  let ?r = "(rest, (TeaDecryptECB k c, zeros, c), 1 + ?pad)"
  have p: "?p = TeaDecryptECB k c @
      fst (chain (cbc2_dec (TeaDecryptECB k)) (TeaDecryptECB k c, c) rest)"
    using plain2(2)[OF inp(2,3)] by (simp add: inp(1))
  have "(if of_nat cap < plain_len (length inp) ?pad then Inr None
      else bindO (skip_lazy (next2 k) (Inr None) SALT_LEN ?r) (\<lambda>r.
        bindO (copy_out (next2 k) view2 (Inr None) (unat (plain_len (length inp) ?pad)) r)
          (\<lambda>(out, r). bindO (check_zero (next2 k) view2 (Inr None) ZERO_LEN r)
            (\<lambda>r. Inr (Some out))))) = Inr (unformat ?p cap)"
  proof (rule reader_unformat)
    show "reader_ok ?r" using inp pad_bits by (simp add: reader_ok_def Suc_le_eq)
    show "remaining (next2 k) view2 ?r = drop (1 + ?pad) ?p"
      using plain2(1)[OF inp(2,3)] pad_bits[of "TeaDecryptECB k c ! 0"] by (simp add: p)
    show "length ?p = length inp" using inp by (intro length_cbc) simp_all
    show "?pad = unat (?p ! 0 AND 7)" by (simp add: p nth_append)
    show "2 < length (remaining (next2 k) view2 ?r) \<Longrightarrow>
        \<exists>q. skip_lazy (next2 k) (Inr None) SALT_LEN ?r = Inr (Some q) \<and> reader_ok q \<and>
          remaining (next2 k) view2 q = drop 2 (remaining (next2 k) view2 ?r)"
      using skip_lazy_remaining[OF \<open>reader_ok ?r\<close>] by (simp add: SALT_LEN_def)
  qed (use False assms in auto)
  with False inp(2) show ?thesis by (simp add: oi_symmetry_decrypt2_def Let_def inp(1) cong: if_cong)
qed (auto simp: oi_symmetry_decrypt2_def)

section \<open>Round trips\<close>

lemma formatted_head:
  "unat (formatted rnd body ! 0 AND 7) = pad_len (length body)"
proof -
  have "(b AND 0xf8 OR of_nat p) AND 7 = of_nat p" if "p < 8" for b :: byte and p
  proof -
    from that have "p \<in> {0, 1, 2, 3, 4, 5, 6, 7}" by auto
    then show ?thesis by (auto simp: byte_bits)
  qed
  with pad_len_bound(1)[of "length body"] show ?thesis
    by (simp add: formatted_def Let_def first_bytes_def unat_of_nat take_bit_nat_eq_self)
qed

lemma unformat_formatted:
  "unformat (formatted rnd body) cap = (if length body \<le> cap then Some body else None)"
proof -
  let ?p = "pad_len (length body)"
  have len: "length (formatted rnd body) = length body + (10 + ?p)"
    by (simp add: length_formatted oi_symmetry_encrypt2_len_def SALT_LEN_def ZERO_LEN_def)
  have eq: "formatted rnd body = (first_bytes rnd ?p @ salt_bytes rnd ?p) @ (body @ replicate 7 0)"
    by (simp add: formatted_def Let_def ZERO_LEN_def)
  have "drop (3 + ?p) (formatted rnd body) = body @ replicate 7 0"
    unfolding eq by simp
  moreover have "drop (length body + (10 + ?p) - 7) (formatted rnd body) = replicate 7 0"
    unfolding eq by simp
  ultimately show ?thesis
    unfolding unformat_def Let_def formatted_head len by (simp add: list_all_iff)
qed

lemma oi_encrypt_eq:
  "oi_symmetry_encrypt rnd k body = fst (chain (cbc_enc (TeaEncryptECB k)) zeros (formatted rnd body))"
  "oi_symmetry_encrypt2 rnd k body =
     fst (chain (cbc2_enc (TeaEncryptECB k)) (zeros, zeros) (formatted rnd body))"
  by (simp_all add: oi_symmetry_encrypt_def oi_symmetry_encrypt2_def encrypt_with_chain)

lemma chain_back:
  "fst (chain (cbc_dec (TeaDecryptECB k)) zeros (oi_symmetry_encrypt rnd k body)) = formatted rnd body"
  "fst (chain (cbc2_dec (TeaDecryptECB k)) (zeros, zeros) (oi_symmetry_encrypt2 rnd k body)) =
     formatted rnd body"
  "length (oi_symmetry_encrypt rnd k body) = length (formatted rnd body)"
  "length (oi_symmetry_encrypt2 rnd k body) = length (formatted rnd body)"
proof -
  obtain cs t where c: "chain (cbc_enc (TeaEncryptECB k)) zeros (formatted rnd body) = (cs, t)"
    by fastforce
  obtain ds u where d: "chain (cbc2_enc (TeaEncryptECB k)) (zeros, zeros) (formatted rnd body) = (ds, u)"
    by (meson surj_pair)
  show "fst (chain (cbc_dec (TeaDecryptECB k)) zeros (oi_symmetry_encrypt rnd k body)) = formatted rnd body"
    "length (oi_symmetry_encrypt rnd k body) = length (formatted rnd body)"
    using tea.cbc.chain_inverse[OF blocks_formatted _ c] c by (simp_all add: oi_encrypt_eq)
  show "fst (chain (cbc2_dec (TeaDecryptECB k)) (zeros, zeros) (oi_symmetry_encrypt2 rnd k body)) =
     formatted rnd body"
    "length (oi_symmetry_encrypt2 rnd k body) = length (formatted rnd body)"
    using tea.cbc2.chain_inverse[OF blocks_formatted _ d] d by (simp_all add: oi_encrypt_eq)
qed

lemma encrypted_length: "oi_symmetry_encrypt2_len n \<le> n + 17" "16 \<le> oi_symmetry_encrypt2_len n"
  "oi_symmetry_encrypt2_len n mod 8 = 0" "oi_symmetry_encrypt2_len n \<le> 16 + 2 * n"
proof -
  have p: "pad_len n < 8" "(n + 10 + pad_len n) mod 8 = 0" using pad_len_bound by auto
  then show "oi_symmetry_encrypt2_len n \<le> n + 17" "oi_symmetry_encrypt2_len n mod 8 = 0"
    by (simp_all add: oi_symmetry_encrypt2_len_def SALT_LEN_def ZERO_LEN_def add.commute add.left_commute)
  have "x mod 8 = 0 \<Longrightarrow> 10 \<le> x \<Longrightarrow> 16 \<le> x" for x :: nat by presburger
  from this[OF p(2)] show "16 \<le> oi_symmetry_encrypt2_len n"
    by (simp add: oi_symmetry_encrypt2_len_def SALT_LEN_def ZERO_LEN_def)
  show "oi_symmetry_encrypt2_len n \<le> 16 + 2 * n"
    using p(1) by (cases n)
      (simp_all add: oi_symmetry_encrypt2_len_def SALT_LEN_def ZERO_LEN_def pad_len_def)
qed

text \<open>
  C11. Encrypting with either generation and decrypting with the same key gives the data
  back, whatever \<open>rand\<close> returns; no buffer is overrun on the way.
\<close>

theorem tea_roundtrip:
  assumes "length data < 2 ^ 61"
  shows "bindE (encrypt1 rnd key data) (decrypt1 key) = Inr data \<and>
    bindE (encrypt2 rnd key data) (decrypt2 key) = Inr data"
proof -
  let ?n = "oi_symmetry_encrypt2_len (length data)"
  note len = encrypted_length[of "length data"]
  have small: "?n < 2 ^ 62" using len(1) assms by simp
  have e: "encrypt1 rnd key data = Inr (oi_symmetry_encrypt rnd key data)"
    "encrypt2 rnd key data = Inr (oi_symmetry_encrypt2 rnd key data)"
    using len by (simp_all add: encrypt1_def encrypt2_def in_buffer_def chain_back length_formatted)
  have "length data \<le> 2 * ?n" by (simp add: oi_symmetry_encrypt2_len_def)
  then show ?thesis using len(2,3) small
    by (simp add: e decrypt1_def decrypt2_def decrypt_unformat decrypt2_unformat chain_back
        length_formatted unformat_formatted or_throw_def in_buffer_def)
qed

text \<open>
  C12. Decryption of an arbitrary buffer is total: it never reads outside the input or
  writes outside the buffer of \<open>2 * iLength\<close> bytes, and it either throws or returns a text
  at least ten bytes shorter than the input.
\<close>

theorem tea_decrypt_safe:
  assumes "length inp < 2 ^ 62"
  shows "(decrypt1 key inp = Inl (Thrown ''TC_Tea_Exception'') \<or>
      (\<exists>out. decrypt1 key inp = Inr out \<and> length out + 10 \<le> length inp)) \<and>
    (decrypt2 key inp = Inl (Thrown ''TC_Tea_Exception'') \<or>
      (\<exists>out. decrypt2 key inp = Inr out \<and> length out + 10 \<le> length inp))"
proof (cases "blocks inp")
  case True
  have u: "unformat p cap = Some out \<Longrightarrow> length out + 10 \<le> length p" for p cap out
    by (auto simp: unformat_def Let_def split: if_splits)
  have l: "length (fst (chain (cbc_dec (TeaDecryptECB key)) zeros inp)) = length inp"
    "length (fst (chain (cbc2_dec (TeaDecryptECB key)) (zeros, zeros) inp)) = length inp"
    using True by (simp_all add: length_cbc)
  have "or_throw (2 * length inp) (Inr m) = Inl (Thrown ''TC_Tea_Exception'') \<or>
      (\<exists>out. or_throw (2 * length inp) (Inr m) = Inr out \<and> length out + 10 \<le> length inp)"
    if "m = None \<or> (\<exists>p cap. m = unformat p cap \<and> length p = length inp)" for m
    using that by (cases m) (auto simp: or_throw_def in_buffer_def dest!: u[OF sym])
  then show ?thesis using assms l
    by (auto simp: decrypt1_def decrypt2_def decrypt_unformat decrypt2_unformat)
next
  case False
  then show ?thesis
    by (simp add: decrypt1_def decrypt2_def or_throw_def oi_symmetry_decrypt_def
        oi_symmetry_decrypt2_def blocks_def)
qed

theorem tea_roundtrip_witness:
  "bindE (encrypt1 (\<lambda>n. of_nat n) (replicate 16 1) [1, 2, 3]) (decrypt1 (replicate 16 1)) = Inr [1, 2, 3] \<and>
   bindE (encrypt2 (\<lambda>n. of_nat n) (replicate 16 1) [1, 2, 3]) (decrypt2 (replicate 16 1)) = Inr [1, 2, 3]"
  by (rule tea_roundtrip) simp

theorem tea_decrypt_safe_witness:
  "(decrypt1 (replicate 16 1) (replicate 16 7) = Inl (Thrown ''TC_Tea_Exception'') \<or>
      (\<exists>out. decrypt1 (replicate 16 1) (replicate 16 7) = Inr out \<and>
        length out + 10 \<le> length (replicate 16 (7 :: byte)))) \<and>
    (decrypt2 (replicate 16 1) (replicate 16 7) = Inl (Thrown ''TC_Tea_Exception'') \<or>
      (\<exists>out. decrypt2 (replicate 16 1) (replicate 16 7) = Inr out \<and>
        length out + 10 \<le> length (replicate 16 (7 :: byte))))"
  by (rule tea_decrypt_safe) simp

end
