(* ===== verification/Md5_Table.thy ===== *)
theory Md5_Table
  imports Prelude Complex_Main
begin

text \<open>
  The table of RFC 1321: entry \<open>i\<close> is the integer part of 4294967296 times the absolute value of
  the sine of \<open>i\<close>, in radians. It is computed here from rational approximations of sine and
  cosine, carried from one integer to the next by the addition theorems, with a bound on the
  error, so that the constants in the code can be compared with the definition of the RFC.
\<close>

definition rfc_T :: "nat \<Rightarrow> u32" where
  "rfc_T i = word_of_int \<lfloor>4294967296 * \<bar>sin (real (i + 1))\<bar>\<rfloor>"

section \<open>Approximations in units of a fixed denominator\<close>

definition denom :: int where
  "denom = 10 ^ 16"

definition cos1 :: int where
  "cos1 = 5403023058681397"

definition sin1 :: int where
  "sin1 = 8414709848078965"

text \<open>A pair stands for a complex number; \<open>near\<close> bounds its distance from the point of angle \<open>n\<close>.\<close>

definition point :: "int \<times> int \<Rightarrow> complex" where
  "point p = Complex (of_int (fst p)) (of_int (snd p))"

definition near :: "int \<Rightarrow> nat \<Rightarrow> int \<times> int \<Rightarrow> bool" where
  "near e n p \<longleftrightarrow> cmod (cis (real n) * of_int denom - point p) \<le> of_int e"

definition turn :: "int \<times> int \<Rightarrow> int \<times> int" where
  "turn p = ((fst p * cos1 - snd p * sin1) div denom, (snd p * cos1 + fst p * sin1) div denom)"

lemma near_0: "near 0 0 (denom, 0)"
  by (simp add: near_def point_def complex_eq_iff)

lemma small_rest: "inverse (fact 24) * of_int denom \<le> (1 / 1000 :: real)"
  by (simp add: fact_numeral denom_def)

lemma scale_near:
  fixes a b r D e :: real
  assumes "\<bar>a - b\<bar> \<le> r" "0 < D" "r * D \<le> e"
  shows "\<bar>a * D - b * D\<bar> \<le> e"
proof -
  have "\<bar>a * D - b * D\<bar> = \<bar>a - b\<bar> * D" using assms(2) by (simp add: abs_mult flip: left_diff_distrib)
  also have "\<dots> \<le> r * D" using assms(1,2) by (simp add: mult_right_mono)
  finally show ?thesis using assms(3) by linarith
qed

lemma denom_pos: "(0 :: real) < of_int denom"
  by (simp add: denom_def)

lemma sin_near: "\<bar>sin 1 * of_int denom - of_int sin1\<bar> \<le> (1 :: real)"
proof -
  let ?s = "(\<Sum>m<24. sin_coeff m * 1 ^ m) :: real" and ?D = "of_int denom :: real"
  have "\<bar>sin 1 - ?s\<bar> \<le> inverse (fact 24) * \<bar>1\<bar> ^ 24" by (rule Maclaurin_sin_bound)
  then have "\<bar>sin 1 - ?s\<bar> \<le> inverse (fact 24)" by (simp only: abs_one power_one mult_1_right)
  then have "\<bar>sin 1 * ?D - ?s * ?D\<bar> \<le> 1 / 1000" by (rule scale_near[OF _ denom_pos small_rest])
  moreover have "\<bar>?s * ?D - of_int sin1\<bar> \<le> 1 - 1 / 1000"
    by (simp add: sin_coeff_def lessThan_nat_numeral fact_numeral denom_def sin1_def)
  ultimately show ?thesis by linarith
qed

lemma cos_near: "\<bar>cos 1 * of_int denom - of_int cos1\<bar> \<le> (1 :: real)"
proof -
  let ?s = "(\<Sum>m<24. cos_coeff m * 1 ^ m) :: real" and ?D = "of_int denom :: real"
  obtain t :: real where t: "cos 1 = ?s + cos (t + 1 / 2 * real 24 * pi) / fact 24 * 1 ^ 24"
    using Maclaurin_cos_expansion[of 1 24] by blast
  have "\<bar>cos (t + 1 / 2 * real 24 * pi)\<bar> \<le> 1" by (rule abs_cos_le_one)
  then have "\<bar>cos (t + 1 / 2 * real 24 * pi)\<bar> / fact 24 \<le> 1 / fact 24" by (rule divide_right_mono) simp
  moreover have "\<bar>cos 1 - ?s\<bar> = \<bar>cos (t + 1 / 2 * real 24 * pi)\<bar> / fact 24"
    unfolding t by (simp only: add_diff_cancel_left' power_one mult_1_right abs_divide abs_of_nonneg[OF fact_ge_zero])
  ultimately have "\<bar>cos 1 - ?s\<bar> \<le> inverse (fact 24)" by (simp only: inverse_eq_divide)
  then have "\<bar>cos 1 * ?D - ?s * ?D\<bar> \<le> 1 / 1000" by (rule scale_near[OF _ denom_pos small_rest])
  moreover have "\<bar>?s * ?D - of_int cos1\<bar> \<le> 1 - 1 / 1000"
    by (simp add: cos_coeff_def lessThan_nat_numeral fact_numeral denom_def cos1_def)
  ultimately show ?thesis by linarith
qed

lemma div_near: "(0 :: int) < d \<Longrightarrow> \<bar>of_int n / of_int d - of_int (n div d)\<bar> \<le> (1 :: real)"
  using floor_correct[of "of_int n / of_int d :: real"] by (simp add: floor_divide_of_int_eq abs_le_iff)

lemma cmod_two: "\<bar>Re z\<bar> \<le> 1 \<Longrightarrow> \<bar>Im z\<bar> \<le> 1 \<Longrightarrow> cmod z \<le> 2"
  using cmod_le[of z] by linarith

text \<open>One radian further: the approximation is at most four units worse.\<close>

lemma near_turn:
  assumes "near e n p"
  shows "near (e + 4) (n + 1) (turn p)"
proof -
  let ?D = "of_int denom :: complex" and ?z = "cis (real n)" and ?u = "point (cos1, sin1)"
  have D: "?D \<noteq> 0" "cmod ?D = of_int denom" "0 < denom" by (simp_all add: denom_def)
  have u1: "cmod (cis 1 * ?D - ?u) \<le> 2"
    by (rule cmod_two) (use cos_near sin_near in \<open>simp_all add: point_def\<close>)
  have "(cmod ?u)\<^sup>2 \<le> (of_int denom)\<^sup>2" by (simp add: cmod_power2 point_def cos1_def sin1_def denom_def)
  then have u2: "cmod ?u \<le> of_int denom" by (rule power2_le_imp_le) (simp add: denom_def)
  have r: "cmod (point p * ?u / ?D - point (turn p)) \<le> 2"
  proof (rule cmod_two)
    have q: "point p * ?u / ?D = Complex (of_int (fst p * cos1 - snd p * sin1) / of_int denom)
        (of_int (snd p * cos1 + fst p * sin1) / of_int denom)"
      using D(3) by (simp add: point_def complex_eq_iff Re_divide Im_divide power2_eq_square)
    show "\<bar>Re (point p * ?u / ?D - point (turn p))\<bar> \<le> 1" "\<bar>Im (point p * ?u / ?D - point (turn p))\<bar> \<le> 1"
      unfolding q using div_near[OF D(3), of "fst p * cos1 - snd p * sin1"] div_near[OF D(3), of "snd p * cos1 + fst p * sin1"]
      by (simp_all add: turn_def point_def)
  qed
  have "cis (real (n + 1)) = ?z * cis 1" by (simp add: cis_mult add.commute)
  then have "cis (real (n + 1)) * ?D - point (turn p) =
      ?z * (cis 1 * ?D - ?u) + (?z * ?D - point p) * (?u / ?D) + (point p * ?u / ?D - point (turn p))"
    using D(1) by (simp add: field_simps)
  also have "cmod \<dots> \<le> cmod (?z * (cis 1 * ?D - ?u)) + cmod ((?z * ?D - point p) * (?u / ?D)) +
      cmod (point p * ?u / ?D - point (turn p))"
    by (intro norm_triangle_mono order_refl)
  also have "\<dots> \<le> 2 + of_int e * 1 + 2"
  proof (intro add_mono r)
    show "cmod (?z * (cis 1 * ?D - ?u)) \<le> 2" using u1 by (simp add: norm_mult)
    have "cmod (?u / ?D) \<le> 1" using u2 D by (simp add: norm_divide divide_le_eq)
    then show "cmod ((?z * ?D - point p) * (?u / ?D)) \<le> of_int e * 1"
      using assms order_trans[OF norm_ge_zero assms[unfolded near_def]] unfolding norm_mult near_def
      by (intro mult_mono) simp_all
  qed
  finally show ?thesis by (simp add: near_def)
qed

section \<open>The table\<close>

text \<open>The entry, where the approximation determines it.\<close>

definition entry_at :: "int \<Rightarrow> int \<times> int \<Rightarrow> int option" where
  "entry_at e p = (let lo = (\<bar>snd p\<bar> - e) * 4294967296 div denom; hi = (\<bar>snd p\<bar> + e) * 4294967296 div denom
     in if lo = hi then Some lo else None)"

lemma entry_at:
  assumes "near e n p" "entry_at e p = Some t"
  shows "\<lfloor>4294967296 * \<bar>sin (real n)\<bar>\<rfloor> = t"
proof -
  let ?D = "of_int denom :: real" and ?x = "4294967296 * \<bar>sin (real n)\<bar> * of_int denom"
  have D: "0 < ?D" "0 < denom" by (simp_all add: denom_def)
  have "\<bar>Im (cis (real n) * of_int denom - point p)\<bar> \<le> of_int e"
    using assms(1) abs_Im_le_cmod order_trans unfolding near_def by blast
  then have "\<bar>sin (real n) * ?D - of_int (snd p)\<bar> \<le> of_int e" by (simp add: point_def)
  then have "\<bar>\<bar>sin (real n) * ?D\<bar> - \<bar>of_int (snd p)\<bar>\<bar> \<le> of_int e"
    using abs_triangle_ineq3[of "sin (real n) * ?D" "of_int (snd p)"] by linarith
  then have x: "of_int ((\<bar>snd p\<bar> - e) * 4294967296) \<le> ?x" "?x \<le> of_int ((\<bar>snd p\<bar> + e) * 4294967296)"
    using D(1) by (simp_all add: abs_mult abs_le_iff)
  have "t \<le> \<lfloor>of_int ((\<bar>snd p\<bar> - e) * 4294967296) / ?D\<rfloor>" "\<lfloor>of_int ((\<bar>snd p\<bar> + e) * 4294967296) / ?D\<rfloor> \<le> t"
    using assms(2) unfolding floor_divide_of_int_eq by (simp_all add: entry_at_def Let_def split: if_splits)
  moreover have "of_int ((\<bar>snd p\<bar> - e) * 4294967296) / ?D \<le> ?x / ?D" "?x / ?D \<le> of_int ((\<bar>snd p\<bar> + e) * 4294967296) / ?D"
    using x D(1) by (intro divide_right_mono; simp)+
  ultimately have "t \<le> \<lfloor>?x / ?D\<rfloor>" "\<lfloor>?x / ?D\<rfloor> \<le> t" using floor_mono by (meson order_trans)+
  then show ?thesis using D(1) by simp
qed

fun entries :: "nat \<Rightarrow> int \<Rightarrow> int \<times> int \<Rightarrow> int option list" where
  "entries 0 e p = []"
| "entries (Suc k) e p = (let e = e + 4; p = turn p in entry_at e p # entries k e p)"

lemma entries_sine:
  "near e n p \<Longrightarrow> entries k e p = List.map Some ts \<Longrightarrow>
    List.map (\<lambda>i. \<lfloor>4294967296 * \<bar>sin (real (i + 1))\<bar>\<rfloor>) [n..<n + k] = ts"
proof (induction k arbitrary: e n p ts)
  case (Suc k)
  note nt = near_turn[OF Suc.prems(1)]
  obtain t ts' where ts: "ts = t # ts'" "entry_at (e + 4) (turn p) = Some t"
    "entries k (e + 4) (turn p) = List.map Some ts'"
    using Suc.prems(2) by (auto simp: Let_def)
  have "List.map (\<lambda>i. \<lfloor>4294967296 * \<bar>sin (real (i + 1))\<bar>\<rfloor>) [n + 1..<n + 1 + k] = ts'"
    by (rule Suc.IH[OF nt ts(3)])
  moreover have "[n..<n + Suc k] = n # [n + 1..<n + 1 + k]" by (simp add: upt_conv_Cons)
  ultimately show ?case using entry_at[OF nt ts(2)] ts(1) by simp
qed simp

lemma rfc_T_entries:
  "entries 64 0 (denom, 0) = List.map Some ts \<Longrightarrow> List.map rfc_T [0..<64] = List.map word_of_int ts"
  using entries_sine[OF near_0, of 64 ts] by (auto simp: rfc_T_def)

lemma sine_entries: "entries 64 0 (denom, 0) = List.map Some [
     0xD76AA478, 0xE8C7B756, 0x242070DB, 0xC1BDCEEE,
     0xF57C0FAF, 0x4787C62A, 0xA8304613, 0xFD469501,
     0x698098D8, 0x8B44F7AF, 0xFFFF5BB1, 0x895CD7BE,
     0x6B901122, 0xFD987193, 0xA679438E, 0x49B40821,
     0xF61E2562, 0xC040B340, 0x265E5A51, 0xE9B6C7AA,
     0xD62F105D, 0x02441453, 0xD8A1E681, 0xE7D3FBC8,
     0x21E1CDE6, 0xC33707D6, 0xF4D50D87, 0x455A14ED,
     0xA9E3E905, 0xFCEFA3F8, 0x676F02D9, 0x8D2A4C8A,
     0xFFFA3942, 0x8771F681, 0x6D9D6122, 0xFDE5380C,
     0xA4BEEA44, 0x4BDECFA9, 0xF6BB4B60, 0xBEBFBC70,
     0x289B7EC6, 0xEAA127FA, 0xD4EF3085, 0x04881D05,
     0xD9D4D039, 0xE6DB99E5, 0x1FA27CF8, 0xC4AC5665,
     0xF4292244, 0x432AFF97, 0xAB9423A7, 0xFC93A039,
     0x655B59C3, 0x8F0CCC92, 0xFFEFF47D, 0x85845DD1,
     0x6FA87E4F, 0xFE2CE6E0, 0xA3014314, 0x4E0811A1,
     0xF7537E82, 0xBD3AF235, 0x2AD7D2BB, 0xEB86D391]"
  by code_simp

lemma rfc_T_table: "List.map rfc_T [0..<64] = [
     0xD76AA478, 0xE8C7B756, 0x242070DB, 0xC1BDCEEE,
     0xF57C0FAF, 0x4787C62A, 0xA8304613, 0xFD469501,
     0x698098D8, 0x8B44F7AF, 0xFFFF5BB1, 0x895CD7BE,
     0x6B901122, 0xFD987193, 0xA679438E, 0x49B40821,
     0xF61E2562, 0xC040B340, 0x265E5A51, 0xE9B6C7AA,
     0xD62F105D, 0x02441453, 0xD8A1E681, 0xE7D3FBC8,
     0x21E1CDE6, 0xC33707D6, 0xF4D50D87, 0x455A14ED,
     0xA9E3E905, 0xFCEFA3F8, 0x676F02D9, 0x8D2A4C8A,
     0xFFFA3942, 0x8771F681, 0x6D9D6122, 0xFDE5380C,
     0xA4BEEA44, 0x4BDECFA9, 0xF6BB4B60, 0xBEBFBC70,
     0x289B7EC6, 0xEAA127FA, 0xD4EF3085, 0x04881D05,
     0xD9D4D039, 0xE6DB99E5, 0x1FA27CF8, 0xC4AC5665,
     0xF4292244, 0x432AFF97, 0xAB9423A7, 0xFC93A039,
     0x655B59C3, 0x8F0CCC92, 0xFFEFF47D, 0x85845DD1,
     0x6FA87E4F, 0xFE2CE6E0, 0xA3014314, 0x4E0811A1,
     0xF7537E82, 0xBD3AF235, 0x2AD7D2BB, 0xEB86D391]"
  using rfc_T_entries[OF sine_entries] by simp

end
