(* ===== verification/Md5.thy ===== *)
theory Md5
  imports Md5_Table
begin

unbundle bit_operations_syntax

text \<open>
  \<open>TC_MD5\<close> (tcinclude/tc_md5.cpp, .h): the context, its initialisation, update and
  finalisation, the block transformation and the entry points. The transformation computes
  in \<open>unsigned long\<close>, which has 64 bits on the target; it is shown to agree with the 32-bit
  algorithm of RFC 1321, and the whole digest with the padding the RFC prescribes.
\<close>

section \<open>The block transformation\<close>

definition GET_ULONG_LE :: "byte list \<Rightarrow> nat \<Rightarrow> u64" where
  "GET_ULONG_LE b i =
     ucast (b ! i) OR push_bit 8 (ucast (b ! (i + 1))) OR
     push_bit 16 (ucast (b ! (i + 2))) OR push_bit 24 (ucast (b ! (i + 3)))"

definition PUT_ULONG_LE :: "u64 \<Rightarrow> byte list" where
  "PUT_ULONG_LE n = [ucast n, ucast (drop_bit 8 n), ucast (drop_bit 16 n), ucast (drop_bit 24 n)]"

text \<open>The macro \<open>S\<close>, the four macros \<open>F\<close> and the macro \<open>P\<close>, which replaces \<open>a\<close>.\<close>

definition rot_S :: "u64 \<Rightarrow> nat \<Rightarrow> u64" where
  "rot_S x n = push_bit n x OR drop_bit (32 - n) (x AND 0xFFFFFFFF)"

definition F1 :: "u64 \<Rightarrow> u64 \<Rightarrow> u64 \<Rightarrow> u64" where "F1 x y z = z XOR (x AND (y XOR z))"
definition F2 :: "u64 \<Rightarrow> u64 \<Rightarrow> u64 \<Rightarrow> u64" where "F2 x y z = y XOR (z AND (x XOR y))"
definition F3 :: "u64 \<Rightarrow> u64 \<Rightarrow> u64 \<Rightarrow> u64" where "F3 x y z = x XOR y XOR z"
definition F4 :: "u64 \<Rightarrow> u64 \<Rightarrow> u64 \<Rightarrow> u64" where "F4 x y z = y XOR (x OR NOT z)"

definition step_P ::
  "(u64 \<Rightarrow> u64 \<Rightarrow> u64 \<Rightarrow> u64) \<Rightarrow> u64 \<Rightarrow> u64 \<Rightarrow> u64 \<Rightarrow> u64 \<Rightarrow> u64 \<Rightarrow> nat \<Rightarrow> u64 \<Rightarrow> u64" where
  "step_P f a b c d x s t = rot_S (a + (f b c d + x + t)) s + b"

text \<open>
  The 64 uses of \<open>P\<close>, as the lists of their arguments \<open>k\<close>, \<open>s\<close>, \<open>t\<close>. The roles of the four
  variables rotate: after \<open>P(A, B, C, D, ...)\<close> comes \<open>P(D, A, B, C, ...)\<close>, and so on; every
  list has sixteen entries, after which each variable has its own role again.
\<close>

type_synonym md5_args = "(nat \<times> nat \<times> u32) list"

definition args1 :: md5_args where
  "args1 = [
     (0, 7, 0xD76AA478), (1, 12, 0xE8C7B756), (2, 17, 0x242070DB), (3, 22, 0xC1BDCEEE),
     (4, 7, 0xF57C0FAF), (5, 12, 0x4787C62A), (6, 17, 0xA8304613), (7, 22, 0xFD469501),
     (8, 7, 0x698098D8), (9, 12, 0x8B44F7AF), (10, 17, 0xFFFF5BB1), (11, 22, 0x895CD7BE),
     (12, 7, 0x6B901122), (13, 12, 0xFD987193), (14, 17, 0xA679438E), (15, 22, 0x49B40821)]"

definition args2 :: md5_args where
  "args2 = [
     (1, 5, 0xF61E2562), (6, 9, 0xC040B340), (11, 14, 0x265E5A51), (0, 20, 0xE9B6C7AA),
     (5, 5, 0xD62F105D), (10, 9, 0x02441453), (15, 14, 0xD8A1E681), (4, 20, 0xE7D3FBC8),
     (9, 5, 0x21E1CDE6), (14, 9, 0xC33707D6), (3, 14, 0xF4D50D87), (8, 20, 0x455A14ED),
     (13, 5, 0xA9E3E905), (2, 9, 0xFCEFA3F8), (7, 14, 0x676F02D9), (12, 20, 0x8D2A4C8A)]"

definition args3 :: md5_args where
  "args3 = [
     (5, 4, 0xFFFA3942), (8, 11, 0x8771F681), (11, 16, 0x6D9D6122), (14, 23, 0xFDE5380C),
     (1, 4, 0xA4BEEA44), (4, 11, 0x4BDECFA9), (7, 16, 0xF6BB4B60), (10, 23, 0xBEBFBC70),
     (13, 4, 0x289B7EC6), (0, 11, 0xEAA127FA), (3, 16, 0xD4EF3085), (6, 23, 0x04881D05),
     (9, 4, 0xD9D4D039), (12, 11, 0xE6DB99E5), (15, 16, 0x1FA27CF8), (2, 23, 0xC4AC5665)]"

definition args4 :: md5_args where
  "args4 = [
     (0, 6, 0xF4292244), (7, 10, 0x432AFF97), (14, 15, 0xAB9423A7), (5, 21, 0xFC93A039),
     (12, 6, 0x655B59C3), (3, 10, 0x8F0CCC92), (10, 15, 0xFFEFF47D), (1, 21, 0x85845DD1),
     (8, 6, 0x6FA87E4F), (15, 10, 0xFE2CE6E0), (6, 15, 0xA3014314), (13, 21, 0x4E0811A1),
     (4, 6, 0xF7537E82), (11, 10, 0xBD3AF235), (2, 15, 0x2AD7D2BB), (9, 21, 0xEB86D391)]"

type_synonym 'a quad = "'a \<times> 'a \<times> 'a \<times> 'a"

fun run_P :: "(u64 \<Rightarrow> u64 \<Rightarrow> u64 \<Rightarrow> u64) \<Rightarrow> byte list \<Rightarrow> md5_args \<Rightarrow> u64 quad \<Rightarrow> u64 quad" where
  "run_P f data [] v = v"
| "run_P f data ((k, s, t) # args) (a, b, c, d) =
     run_P f data args (d, step_P f a b c d (GET_ULONG_LE data (4 * k)) s (ucast t), b, c)"

definition md5_process :: "u32 quad \<Rightarrow> byte list \<Rightarrow> u32 quad" where
  "md5_process state data = (case state of (s0, s1, s2, s3) \<Rightarrow>
     let v = (ucast s0, ucast s1, ucast s2, ucast s3);
         v = run_P F1 data args1 v;
         v = run_P F2 data args2 v;
         v = run_P F3 data args3 v;
         (A, B, C, D) = run_P F4 data args4 v
     in (ucast (ucast s0 + A), ucast (ucast s1 + B), ucast (ucast s2 + C), ucast (ucast s3 + D)))"

section \<open>The context\<close>

record MD5_CTX =
  md5_state :: "u32 quad"
  md5_count0 :: u32
  md5_count1 :: u32
  md5_buffer :: "byte list"

definition PADDING :: "byte list" where
  "PADDING = 0x80 # replicate 63 0"

definition md5init :: "MD5_CTX \<Rightarrow> MD5_CTX" where
  "md5init ctx = ctx\<lparr>md5_count0 := 0, md5_count1 := 0,
     md5_state := (0x67452301, 0xefcdab89, 0x98badcfe, 0x10325476)\<rparr>"

text \<open>The loop over whole blocks of the input: the state after them and the bytes left.\<close>

function md5_blocks :: "u32 quad \<Rightarrow> byte list \<Rightarrow> u32 quad \<times> byte list" where
  "md5_blocks state input =
     (if length input \<ge> 64 then md5_blocks (md5_process state (take 64 input)) (drop 64 input)
      else (state, input))"
  by pat_completeness auto
termination
  by (relation "measure (\<lambda>(s, i). length i)") auto

declare md5_blocks.simps [simp del]

text \<open>\<open>memcpy(buffer + left, input, n)\<close>.\<close>

definition memcpy_at :: "byte list \<Rightarrow> nat \<Rightarrow> byte list \<Rightarrow> byte list" where
  "memcpy_at buf left input = take left buf @ input @ drop (left + length input) buf"

definition md5update :: "byte list \<Rightarrow> MD5_CTX \<Rightarrow> MD5_CTX" where
  "md5update input ctx =
     (let ilen = of_nat (length input) :: u32 in
      if ilen = 0 then ctx
      else
        let left = unat (md5_count0 ctx AND 0x3F);
            fill = 64 - left;
            c0 = md5_count0 ctx + ilen;
            c1 = (if c0 < ilen then md5_count1 ctx + 1 else md5_count1 ctx);
            ctx = ctx\<lparr>md5_count0 := c0, md5_count1 := c1\<rparr>;
            (ctx, input, left) =
              (if left \<noteq> 0 \<and> unat ilen \<ge> fill
               then let buf = memcpy_at (md5_buffer ctx) left (take fill input)
                    in (ctx\<lparr>md5_buffer := buf, md5_state := md5_process (md5_state ctx) buf\<rparr>,
                        drop fill input, 0)
               else (ctx, input, left));
            (state, input) = md5_blocks (md5_state ctx) input;
            ctx = ctx\<lparr>md5_state := state\<rparr>
        in if input \<noteq> [] then ctx\<lparr>md5_buffer := memcpy_at (md5_buffer ctx) left input\<rparr> else ctx)"

text \<open>\<open>md5final\<close> returns the sixteen bytes of the digest.\<close>

definition md5final :: "MD5_CTX \<Rightarrow> byte list" where
  "md5final ctx =
     (let high = drop_bit 29 (md5_count0 ctx) OR push_bit 3 (md5_count1 ctx);
          low = push_bit 3 (md5_count0 ctx);
          msglen = PUT_ULONG_LE (ucast low) @ PUT_ULONG_LE (ucast high);
          lst = unat (md5_count0 ctx AND 0x3F);
          padn = (if lst < 56 then 56 - lst else 120 - lst);
          ctx = md5update msglen (md5update (take padn PADDING) ctx);
          (s0, s1, s2, s3) = md5_state ctx
      in PUT_ULONG_LE (ucast s0) @ PUT_ULONG_LE (ucast s1) @
         PUT_ULONG_LE (ucast s2) @ PUT_ULONG_LE (ucast s3))"

section \<open>The entry points\<close>

text \<open>
  \<open>ctx\<close> stands for the uninitialised context on the stack. \<open>md5file\<close> is given the pieces
  that \<open>fread\<close> returns, or \<open>None\<close> if the file cannot be opened.
\<close>

definition md5bin :: "MD5_CTX \<Rightarrow> byte list \<Rightarrow> byte list" where
  "md5bin ctx sString = md5final (md5update sString (md5init ctx))"

definition hex_digit :: "nat \<Rightarrow> char" where
  "hex_digit n = ''0123456789abcdef'' ! n"

definition hex2 :: "byte \<Rightarrow> string" where
  "hex2 b = [hex_digit (unat b div 16), hex_digit (unat b mod 16)]"

text \<open>\<open>snprintf\<close> into 255 bytes keeps 254 characters; \<open>c_str\<close> ends at the first NUL.\<close>

definition md5_bin2str :: "byte list \<Rightarrow> string \<Rightarrow> string" where
  "md5_bin2str buf sSep =
     concat (List.map (\<lambda>b. take 254 (hex2 b @ takeWhile (\<lambda>c. c \<noteq> CHR 0x00) sSep)) buf)"

definition md5str :: "MD5_CTX \<Rightarrow> byte list \<Rightarrow> string" where
  "md5str ctx sString = md5_bin2str (md5bin ctx sString) []"

definition md5file :: "MD5_CTX \<Rightarrow> byte list list option \<Rightarrow> string" where
  "md5file ctx contents = (case contents of None \<Rightarrow> []
     | Some bufs \<Rightarrow> md5_bin2str (md5final (fold md5update bufs (md5init ctx))) [])"

text \<open>\<open>encode\<close> and \<open>decode\<close>: words to little-endian bytes and back.\<close>

definition md5_encode :: "u32 list \<Rightarrow> byte list" where
  "md5_encode input = concat (List.map (\<lambda>w. [ucast (w AND 0xff), ucast (drop_bit 8 w AND 0xff),
     ucast (drop_bit 16 w AND 0xff), ucast (drop_bit 24 w AND 0xff)]) input)"

fun md5_decode :: "byte list \<Rightarrow> u32 list" where
  "md5_decode (b0 # b1 # b2 # b3 # bs) =
     (ucast b0 OR push_bit 8 (ucast b1) OR push_bit 16 (ucast b2) OR push_bit 24 (ucast b3)) #
     md5_decode bs"
| "md5_decode _ = []"

lemma md5_decode_encode: "md5_decode (md5_encode ws) = ws"
  by (induction ws) (simp_all add: md5_encode_def, simp add: u32_bits)

section \<open>The algorithm of RFC 1321\<close>

text \<open>
  The auxiliary functions as the RFC gives them, on 32-bit words; the index of the message
  word of step \<open>i\<close> of each round by its formula; the constants from the sine (\<open>rfc_T\<close>);
  rotation by the library function.
\<close>

definition rfc_F :: "u32 \<Rightarrow> u32 \<Rightarrow> u32 \<Rightarrow> u32" where "rfc_F x y z = (x AND y) OR (NOT x AND z)"
definition rfc_G :: "u32 \<Rightarrow> u32 \<Rightarrow> u32 \<Rightarrow> u32" where "rfc_G x y z = (x AND z) OR (y AND NOT z)"
definition rfc_H :: "u32 \<Rightarrow> u32 \<Rightarrow> u32 \<Rightarrow> u32" where "rfc_H x y z = x XOR y XOR z"
definition rfc_I :: "u32 \<Rightarrow> u32 \<Rightarrow> u32 \<Rightarrow> u32" where "rfc_I x y z = y XOR (x OR NOT z)"

definition rfc_word :: "byte list \<Rightarrow> nat \<Rightarrow> u32" where
  "rfc_word data k =
     fold (\<lambda>j w. w OR push_bit (8 * j) (ucast (data ! (4 * k + j)))) [0..<4] 0"

fun rfc_round ::
  "(u32 \<Rightarrow> u32 \<Rightarrow> u32 \<Rightarrow> u32) \<Rightarrow> byte list \<Rightarrow> (nat \<Rightarrow> nat) \<Rightarrow> nat list \<Rightarrow> u32 list \<Rightarrow> nat \<Rightarrow>
   u32 quad \<Rightarrow> u32 quad" where
  "rfc_round f data idx shifts [] i v = v"
| "rfc_round f data idx shifts (t # ts) i (a, b, c, d) =
     rfc_round f data idx shifts ts (i + 1)
       (d, b + word_rotl (shifts ! (i mod 4)) (a + f b c d + rfc_word data (idx i) + t), b, c)"

definition rfc_block :: "u32 quad \<Rightarrow> byte list \<Rightarrow> u32 quad" where
  "rfc_block v data = (case v of (s0, s1, s2, s3) \<Rightarrow>
     let T = \<lambda>r. List.map rfc_T [16 * r..<16 * r + 16];
         v = rfc_round rfc_F data (\<lambda>i. i mod 16) [7, 12, 17, 22] (T 0) 0 v;
         v = rfc_round rfc_G data (\<lambda>i. (1 + 5 * i) mod 16) [5, 9, 14, 20] (T 1) 0 v;
         v = rfc_round rfc_H data (\<lambda>i. (5 + 3 * i) mod 16) [4, 11, 16, 23] (T 2) 0 v;
         (A, B, C, D) = rfc_round rfc_I data (\<lambda>i. 7 * i mod 16) [6, 10, 15, 21] (T 3) 0 v
     in (s0 + A, s1 + B, s2 + C, s3 + D))"

text \<open>The constants of the code are those of the RFC.\<close>

lemma args_sine:
  "List.map rfc_T [0..<64] = List.map (\<lambda>(k, s, t). t) (args1 @ args2 @ args3 @ args4)"
  using rfc_T_table by (simp add: args1_def args2_def args3_def args4_def)

lemma rfc_T_args:
  "List.map rfc_T [16 * 0..<16 * 0 + 16] = List.map (\<lambda>(k, s, t). t) args1"
  "List.map rfc_T [16 * 1..<16 * 1 + 16] = List.map (\<lambda>(k, s, t). t) args2"
  "List.map rfc_T [16 * 2..<16 * 2 + 16] = List.map (\<lambda>(k, s, t). t) args3"
  "List.map rfc_T [16 * 3..<16 * 3 + 16] = List.map (\<lambda>(k, s, t). t) args4"
proof -
  have l: "length args1 = 16" "length args2 = 16" "length args3 = 16" "length args4 = 16" by code_simp+
  have part: "List.map rfc_T [16 * r..<16 * r + 16] = take 16 (drop (16 * r) (List.map rfc_T [0..<64]))" if "r < 4" for r
    using that by (simp add: take_map drop_map)
  show "List.map rfc_T [16 * 0..<16 * 0 + 16] = List.map (\<lambda>(k, s, t). t) args1"
    "List.map rfc_T [16 * 1..<16 * 1 + 16] = List.map (\<lambda>(k, s, t). t) args2"
    "List.map rfc_T [16 * 2..<16 * 2 + 16] = List.map (\<lambda>(k, s, t). t) args3"
    "List.map rfc_T [16 * 3..<16 * 3 + 16] = List.map (\<lambda>(k, s, t). t) args4"
    by (subst part; simp add: args_sine l)+
qed

function rfc_blocks :: "u32 quad \<Rightarrow> byte list \<Rightarrow> u32 quad" where
  "rfc_blocks v msg =
     (if length msg \<ge> 64 then rfc_blocks (rfc_block v (take 64 msg)) (drop 64 msg) else v)"
  by pat_completeness auto
termination
  by (relation "measure (\<lambda>(v, m). length m)") auto

declare rfc_blocks.simps [simp del]

text \<open>
  The padding: a one bit, zeros up to 56 bytes modulo 64, the length in bits as 64 bits.
\<close>

definition le64 :: "nat \<Rightarrow> byte list" where
  "le64 n = List.map (\<lambda>i. of_nat (n div 256 ^ i)) [0..<8]"

definition rfc_padded :: "byte list \<Rightarrow> byte list" where
  "rfc_padded msg =
     msg @ 0x80 # replicate ((55 + 64 - length msg mod 64) mod 64) 0 @ le64 (8 * length msg)"

definition rfc_md5 :: "byte list \<Rightarrow> byte list" where
  "rfc_md5 msg = (case rfc_blocks (0x67452301, 0xefcdab89, 0x98badcfe, 0x10325476) (rfc_padded msg)
     of (a, b, c, d) \<Rightarrow> concat (List.map (\<lambda>w. List.map (\<lambda>i. ucast (drop_bit (8 * i) w)) [0..<4]) [a, b, c, d]))"

section \<open>The 64-bit arithmetic agrees with the 32-bit one\<close>

abbreviation lo :: "u64 \<Rightarrow> u32" where "lo x \<equiv> ucast x"

lemma bit_lo: "bit (lo x) n \<longleftrightarrow> n < 32 \<and> bit x n"
  by (auto simp: bit_simps)

lemma lo_ops:
  "lo (x AND y) = lo x AND lo y" "lo (x OR y) = lo x OR lo y" "lo (x XOR y) = lo x XOR lo y"
  "lo (NOT x) = NOT (lo x)" "lo (ucast w) = w"
  by (rule bit_word_eqI; auto simp: bit_simps)+

lemma lo_add: "lo (x + y) = lo x + lo y"
proof -
  have "uint (lo (x + y)) = uint (lo x + lo y)"
    by (simp add: unsigned_ucast_eq uint_word_ariths take_bit_eq_mod mod_add_eq mod_mod_cancel)
  then show ?thesis by (rule unsigned_word_eqI)
qed

lemma lo_rot: "0 < n \<Longrightarrow> n < 32 \<Longrightarrow> lo (rot_S x n) = word_rotl n (lo x)"
proof (rule bit_word_eqI)
  fix m assume n: "0 < n" "n < 32" and m: "m < LENGTH(32)"
  have "bit (0xFFFFFFFF :: u64) k \<longleftrightarrow> k < 32" for k
  proof -
    have "(0xFFFFFFFF :: u64) = mask 32" by (simp add: mask_eq_exp_minus_1)
    then show ?thesis by (simp only: bit_mask_iff) auto
  qed
  then have S: "bit (lo (rot_S x n)) m \<longleftrightarrow> n \<le> m \<and> bit x (m - n) \<or> m < n \<and> bit x (32 - n + m)"
    using n m bit_imp_le_length[of x] by (auto simp: bit_lo rot_S_def bit_simps)
  have mod: "(m + (32 - n)) mod 32 = (if m < n then 32 - n + m else m - n)"
    using n m by (auto simp: mod_if)
  have "bit (word_rotl n (lo x)) m \<longleftrightarrow> bit (lo x) ((m + (32 - n)) mod 32)"
    using n m by (simp add: bit_word_rotl_iff)
  also have "\<dots> \<longleftrightarrow> bit x (if m < n then 32 - n + m else m - n)"
    unfolding mod using n m by (auto simp: bit_lo)
  finally show "bit (lo (rot_S x n)) m = bit (word_rotl n (lo x)) m"
    using S by auto
qed

lemma lo_F:
  "lo (F1 x y z) = rfc_F (lo x) (lo y) (lo z)" "lo (F2 x y z) = rfc_G (lo x) (lo y) (lo z)"
  "lo (F3 x y z) = rfc_H (lo x) (lo y) (lo z)" "lo (F4 x y z) = rfc_I (lo x) (lo y) (lo z)"
  by (rule bit_word_eqI; auto simp: F1_def F2_def F3_def F4_def rfc_F_def rfc_G_def rfc_H_def
      rfc_I_def bit_simps)+

lemma lo_GET: "lo (GET_ULONG_LE data (4 * k)) = rfc_word data k"
proof -
  have "lo (GET_ULONG_LE data (4 * k)) = ucast (data ! (4 * k)) OR push_bit 8 (ucast (data ! (4 * k + 1))) OR
      push_bit 16 (ucast (data ! (4 * k + 2))) OR push_bit 24 (ucast (data ! (4 * k + 3)))"
    unfolding GET_ULONG_LE_def by (rule bit_word_eqI) (auto simp: bit_lo bit_simps)
  also have "\<dots> = rfc_word data k"
    by (simp add: rfc_word_def eval_nat_numeral upt_rec or.assoc)
  finally show ?thesis .
qed

fun lo4 :: "u64 quad \<Rightarrow> u32 quad" where
  "lo4 (a, b, c, d) = (lo a, lo b, lo c, lo d)"

lemma run_P_round:
  assumes f: "\<And>x y z. lo (f x y z) = g (lo x) (lo y) (lo z)"
  shows "list_all (\<lambda>(k, s, t). 0 < s \<and> s < 32) args \<Longrightarrow>
    List.map (\<lambda>(k, s, t). (k, s)) args =
      List.map (\<lambda>i. (idx i, shifts ! (i mod 4))) [i..<i + length args] \<Longrightarrow>
    lo4 (run_P f data args v) = rfc_round g data idx shifts (List.map (\<lambda>(k, s, t). t) args) i (lo4 v)"
proof (induction args arbitrary: i v)
  case (Cons kst args)
  obtain k s t where kst: "kst = (k, s, t)" by (cases kst) auto
  obtain a b c d where v: "v = (a, b, c, d)" by (cases v) auto
  have upt: "[i..<i + length (kst # args)] = i # [i + 1..<i + 1 + length args]"
    by (subst upt_conv_Cons) simp_all

  have ks: "idx i = k" "shifts ! (i mod 4) = s" "0 < s" "s < 32"
    using Cons.prems(1) Cons.prems(2)[unfolded upt] by (simp_all add: kst)
  have tail: "List.map (\<lambda>(k, s, t). (k, s)) args =
      List.map (\<lambda>i. (idx i, shifts ! (i mod 4))) [i + 1..<i + 1 + length args]"
    using Cons.prems(2)[unfolded upt] by (simp add: kst)
  have "lo (step_P f a b c d (GET_ULONG_LE data (4 * k)) s (ucast t)) =
      lo b + word_rotl s (lo a + g (lo b) (lo c) (lo d) + rfc_word data k + t)"
    by (simp add: step_P_def lo_add lo_rot ks lo_GET f lo_ops add.assoc add.commute add.left_commute)
  with Cons.IH[OF _ tail] Cons.prems(1) ks show ?case by (simp add: kst v)
qed simp

lemma md5_process_rfc: "md5_process v data = rfc_block v data"
proof -
  obtain s0 s1 s2 s3 where v: "v = (s0, s1, s2, s3)" by (cases v) auto
  have *: "lo4 (run_P F1 data args1 v) = rfc_round rfc_F data (\<lambda>i. i mod 16) [7, 12, 17, 22]
      (List.map (\<lambda>(k, s, t). t) args1) 0 (lo4 v)" for v
    by (rule run_P_round[where f = F1 and g = rfc_F]) (rule lo_F, code_simp, code_simp)
  have **: "lo4 (run_P F2 data args2 v) = rfc_round rfc_G data (\<lambda>i. (1 + 5 * i) mod 16) [5, 9, 14, 20]
      (List.map (\<lambda>(k, s, t). t) args2) 0 (lo4 v)" for v
    by (rule run_P_round[where f = F2 and g = rfc_G]) (rule lo_F, code_simp, code_simp)
  have ***: "lo4 (run_P F3 data args3 v) = rfc_round rfc_H data (\<lambda>i. (5 + 3 * i) mod 16) [4, 11, 16, 23]
      (List.map (\<lambda>(k, s, t). t) args3) 0 (lo4 v)" for v
    by (rule run_P_round[where f = F3 and g = rfc_H]) (rule lo_F, code_simp, code_simp)
  have ****: "lo4 (run_P F4 data args4 v) = rfc_round rfc_I data (\<lambda>i. 7 * i mod 16) [6, 10, 15, 21]
      (List.map (\<lambda>(k, s, t). t) args4) 0 (lo4 v)" for v
    by (rule run_P_round[where f = F4 and g = rfc_I]) (rule lo_F, code_simp, code_simp)
  let ?w = "run_P F4 data args4 (run_P F3 data args3 (run_P F2 data args2 (run_P F1 data args1
      (ucast s0, ucast s1, ucast s2, ucast s3))))"
  obtain A B C D where w: "?w = (A, B, C, D)" by (cases ?w) auto
  have init: "lo4 (ucast s0, ucast s1, ucast s2, ucast s3) = (s0, s1, s2, s3)" by (simp add: lo_ops)
  from **** *** ** * have fin: "lo4 ?w = rfc_round rfc_I data (\<lambda>i. 7 * i mod 16) [6, 10, 15, 21]
      (List.map (\<lambda>(k, s, t). t) args4) 0 (rfc_round rfc_H data (\<lambda>i. (5 + 3 * i) mod 16) [4, 11, 16, 23]
      (List.map (\<lambda>(k, s, t). t) args3) 0 (rfc_round rfc_G data (\<lambda>i. (1 + 5 * i) mod 16) [5, 9, 14, 20]
      (List.map (\<lambda>(k, s, t). t) args2) 0 (rfc_round rfc_F data (\<lambda>i. i mod 16) [7, 12, 17, 22]
      (List.map (\<lambda>(k, s, t). t) args1) 0 (s0, s1, s2, s3))))" by (simp only: init)
  show ?thesis
    unfolding md5_process_def rfc_block_def v Let_def prod.case rfc_T_args fin[symmetric] w
    by (simp add: lo_add lo_ops)
qed

section \<open>The context after an update\<close>

lemma md5_blocks_rfc:
  "md5_blocks v input =
     (rfc_blocks v (take (length input div 64 * 64) input), drop (length input div 64 * 64) input)"
proof (induction v input rule: md5_blocks.induct)
  case (1 v input)
  show ?case
  proof (cases "length input \<ge> 64")
    case True
    let ?rest = "drop 64 input"
    have div: "length input div 64 * 64 = 64 + length ?rest div 64 * 64"
      using True by (simp add: le_div_geq)
    have "md5_blocks v input = md5_blocks (md5_process v (take 64 input)) ?rest"
      using True by (subst md5_blocks.simps) simp
    also have "\<dots> = (rfc_blocks (md5_process v (take 64 input)) (take (length ?rest div 64 * 64) ?rest),
        drop (length ?rest div 64 * 64) ?rest)"
      by (rule 1[OF True])
    also have "rfc_blocks (md5_process v (take 64 input)) (take (length ?rest div 64 * 64) ?rest) =
        rfc_blocks v (take (length input div 64 * 64) input)"
      using True unfolding div
      by (subst (2) rfc_blocks.simps) (simp add: md5_process_rfc take_drop min_def add.commute)
    also have "drop (length ?rest div 64 * 64) ?rest = drop (length input div 64 * 64) input"
      unfolding div by (simp add: add.commute)
    finally show ?thesis .
  next
    case False
    then show ?thesis by (simp add: md5_blocks.simps rfc_blocks.simps)
  qed
qed

lemma rfc_blocks_step:
  "64 \<le> length xs \<Longrightarrow> rfc_blocks v xs = rfc_blocks (rfc_block v (take 64 xs)) (drop 64 xs)"
  by (subst rfc_blocks.simps) simp

lemma rfc_blocks_append:
  "length xs mod 64 = 0 \<Longrightarrow> rfc_blocks v (xs @ ys) = rfc_blocks (rfc_blocks v xs) ys"
proof (induction v xs rule: rfc_blocks.induct)
  case (1 v xs)
  show ?case
  proof (cases "length xs \<ge> 64")
    case True
    then have "length (drop 64 xs) mod 64 = 0" using 1(2) by (simp add: le_mod_geq)
    with 1(1)[OF True] True show ?thesis
      using rfc_blocks_step[of "xs @ ys" v] rfc_blocks_step[of xs v] by simp
  next
    case False
    with 1(2) have "xs = []" by (cases xs) auto
    then show ?thesis by (simp add: rfc_blocks.simps[of v "[]"])
  qed
qed

lemma rfc_blocks_one: "length b = 64 \<Longrightarrow> rfc_blocks v b = rfc_block v b"
  by (subst rfc_blocks.simps) (simp add: rfc_blocks.simps[of _ "[]"])

text \<open>
  The context represents the bytes fed to it so far: the state is that of the whole blocks
  \<open>d\<close>, the counter the number of bytes, the start of the buffer the bytes \<open>p\<close> not processed yet.
\<close>

definition md5_init_state :: "u32 quad" where
  "md5_init_state = (0x67452301, 0xefcdab89, 0x98badcfe, 0x10325476)"

definition md5_rep :: "MD5_CTX \<Rightarrow> byte list \<Rightarrow> byte list \<Rightarrow> bool" where
  "md5_rep ctx d p \<longleftrightarrow>
     length d mod 64 = 0 \<and> length p < 64 \<and> md5_state ctx = rfc_blocks md5_init_state d \<and>
     md5_count0 ctx = of_nat (length d + length p) \<and>
     md5_count1 ctx = of_nat ((length d + length p) div 2 ^ 32) \<and>
     length (md5_buffer ctx) = 64 \<and> take (length p) (md5_buffer ctx) = p"

lemma left_mod: "unat ((of_nat n :: u32) AND 0x3F) = n mod 64"
proof -
  have "(0x3F :: u32) = mask 6" by (simp add: mask_eq_exp_minus_1)
  then have "unat ((of_nat n :: u32) AND 0x3F) = take_bit 6 (unat (of_nat n :: u32))"
    by (simp only: take_bit_eq_mask [symmetric] unsigned_take_bit_eq)
  then show ?thesis by (simp add: unat_of_nat take_bit_eq_mod mod_mod_cancel)
qed

lemma count_carry:
  assumes "m < 2 ^ 32"
  shows "(if (of_nat n + of_nat m :: u32) < of_nat m then of_nat (n div 2 ^ 32) + 1
      else of_nat (n div 2 ^ 32)) = (of_nat ((n + m) div 2 ^ 32) :: u32)"
proof -
  have m: "unat (of_nat m :: u32) = m" using assms by (simp add: unat_of_nat take_bit_nat_eq_self)
  have "unat (of_nat n + of_nat m :: u32) = (n + m) mod 2 ^ 32"
    by (simp only: of_nat_add [symmetric] unat_of_nat take_bit_eq_mod)
      simp
  then have lt: "(of_nat n + of_nat m :: u32) < of_nat m \<longleftrightarrow> (n + m) mod 2 ^ 32 < m"
    by (simp only: word_less_nat_alt m)
  have "(n + m) mod 2 ^ 32 < m \<longleftrightarrow> (n + m) div 2 ^ 32 = n div 2 ^ 32 + 1"
    "\<not> (n + m) mod 2 ^ 32 < m \<longleftrightarrow> (n + m) div 2 ^ 32 = n div 2 ^ 32"
  proof -
    define q r where "q = n div 2 ^ 32" and "r = n mod 2 ^ 32"
    have n: "n = 2 ^ 32 * q + r" "r < 2 ^ 32" by (simp_all add: q_def r_def)
    have "(n + m) div 2 ^ 32 = q + (r + m) div 2 ^ 32" "(n + m) mod 2 ^ 32 = (r + m) mod 2 ^ 32"
      by (simp_all add: n(1) add.assoc)
    moreover have "r + m < 2 ^ 32 \<or> (2 ^ 32 \<le> r + m \<and> r + m < 2 ^ 33)" using n(2) assms by auto
    ultimately show "(n + m) mod 2 ^ 32 < m \<longleftrightarrow> (n + m) div 2 ^ 32 = n div 2 ^ 32 + 1"
      "\<not> (n + m) mod 2 ^ 32 < m \<longleftrightarrow> (n + m) div 2 ^ 32 = n div 2 ^ 32"
      using n(2) assms unfolding q_def [symmetric]
      by (auto simp: div_if mod_if)
  qed
  with lt show ?thesis by auto
qed


lemma md5_rep_mod: "md5_rep ctx d p \<Longrightarrow> (length d + length p) mod 64 = length p"
  by (auto simp: md5_rep_def mod_add_left_eq [of "length d", symmetric])

lemma md5_rep_left: "md5_rep ctx d p \<Longrightarrow> unat (md5_count0 ctx AND 0x3F) = length p"
  using left_mod[of "length d + length p"] md5_rep_mod[of ctx d p]
  by (simp only: md5_rep_def)

lemma memcpy_at_props:
  assumes "length buf = 64" "take (length p) buf = p" "length p + length xs \<le> 64"
  shows "length (memcpy_at buf (length p) xs) = 64"
    "take (length p + length xs) (memcpy_at buf (length p) xs) = p @ xs"
  using assms by (simp_all add: memcpy_at_def)

lemma whole_blocks: "length (take (length xs div 64 * 64) xs) mod 64 = (0 :: nat)"
  "length (drop (length xs div 64 * 64) xs) < 64"
proof -
  have "length xs div 64 * 64 \<le> length xs" by simp
  then show "length (take (length xs div 64 * 64) xs) mod 64 = (0 :: nat)" by (simp add: min_absorb2)
  have "length xs - length xs div 64 * 64 = length xs mod 64" by (rule minus_div_mult_eq_mod)
  then show "length (drop (length xs div 64 * 64) xs) < 64" by simp
qed

lemma md5_tail:
  assumes "length d mod 64 = 0" "md5_state c = rfc_blocks md5_init_state d"
    "length (md5_buffer c) = 64" "take (length p) (md5_buffer c) = p"
    "p = [] \<or> length p + length r < 64"
    "md5_count0 c = of_nat (length d + length p + length r)"
    "md5_count1 c = of_nat ((length d + length p + length r) div 2 ^ 32)"
  shows "\<exists>d' p'. md5_rep (let (state, r') = md5_blocks (md5_state c) r; c = c\<lparr>md5_state := state\<rparr>
      in if r' \<noteq> [] then c\<lparr>md5_buffer := memcpy_at (md5_buffer c) (length p) r'\<rparr> else c) d' p' \<and>
    d' @ p' = d @ p @ r"
proof (cases "p = []")
  case True
  let ?k = "length r div 64 * 64"
  have b: "md5_blocks (md5_state c) r =
      (rfc_blocks md5_init_state (d @ take ?k r), drop ?k r)"
    using md5_blocks_rfc[of "md5_state c" r] assms(1,2) by (simp add: rfc_blocks_append)
  have m: "length (d @ take ?k r) mod 64 = 0"
    using whole_blocks(1)[of r] assms(1) by (metis length_append mod_add_self2 mod_add_right_eq add_0_right)
  have l: "length (d @ take ?k r) + length (drop ?k r) = length d + length r"
    by (metis append_assoc append_take_drop_id length_append)
  note mem = memcpy_at_props[of "md5_buffer c" "[]" "drop ?k r"]
  have "md5_rep (let (state, r') = md5_blocks (md5_state c) r; c = c\<lparr>md5_state := state\<rparr>
      in if r' \<noteq> [] then c\<lparr>md5_buffer := memcpy_at (md5_buffer c) (length p) r'\<rparr> else c)
      (d @ take ?k r) (drop ?k r)"
    using m l whole_blocks(2)[of r] mem assms(3,6,7) True
    unfolding b md5_rep_def by (simp add: Let_def)
  moreover have "(d @ take ?k r) @ drop ?k r = d @ p @ r" using True by simp
  ultimately show ?thesis by blast
next
  case False
  with assms(5) have r: "length p + length r < 64" by simp
  then have b: "md5_blocks (md5_state c) r = (md5_state c, r)" by (simp add: md5_blocks.simps)
  have "md5_rep (let (state, r') = md5_blocks (md5_state c) r; c = c\<lparr>md5_state := state\<rparr>
      in if r' \<noteq> [] then c\<lparr>md5_buffer := memcpy_at (md5_buffer c) (length p) r'\<rparr> else c) d (p @ r)"
    using memcpy_at_props[of "md5_buffer c" p r] assms r
    unfolding b md5_rep_def by (auto simp: Let_def add.assoc)
  then show ?thesis by blast
qed

lemma md5update_rep:
  assumes "md5_rep ctx d p" "length xs < 2 ^ 32"
  shows "\<exists>d' p'. md5_rep (md5update xs ctx) d' p' \<and> d' @ p' = d @ p @ xs"
proof (cases "xs = []")
  case True
  with assms(1) show ?thesis by (intro exI[of _ d] exI[of _ p]) (simp add: md5update_def)
next
  case False
  let ?ilen = "of_nat (length xs) :: u32"
  have ilen: "unat ?ilen = length xs" using assms(2) by (simp add: unat_of_nat take_bit_nat_eq_self)
  then have ne: "?ilen \<noteq> 0" using False by (metis length_0_conv unat_0)
  have left: "unat (md5_count0 ctx AND 0x3F) = length p"
    by (rule md5_rep_left) (rule assms(1))
  let ?n = "length d + length p"
  have c0: "md5_count0 ctx = of_nat ?n" "md5_count1 ctx = of_nat (?n div 2 ^ 32)"
    using assms(1) by (simp_all only: md5_rep_def)
  have cnt: "md5_count0 ctx + ?ilen = of_nat (?n + length xs)"
    "(if (of_nat (?n + length xs) :: u32) < ?ilen then md5_count1 ctx + 1 else md5_count1 ctx) =
      of_nat ((?n + length xs) div 2 ^ 32)"
    using count_carry[OF assms(2), of ?n] unfolding c0 of_nat_add [of ?n, symmetric] by simp_all
  have inv: "length d mod 64 = 0" "length p < 64" "md5_state ctx = rfc_blocks md5_init_state d"
    "length (md5_buffer ctx) = 64" "take (length p) (md5_buffer ctx) = p"
    using assms(1) by (simp_all add: md5_rep_def)
  define c where "c = ctx\<lparr>md5_count0 := of_nat (?n + length xs),
      md5_count1 := of_nat ((?n + length xs) div 2 ^ 32)\<rparr>"
  show ?thesis
  proof (cases "p \<noteq> [] \<and> length xs \<ge> 64 - length p")
    case True
    let ?f = "64 - length p"
    let ?b = "p @ take ?f xs"
    have b: "length ?b = 64" using True inv(2) by simp
    have "memcpy_at (md5_buffer ctx) (length p) (take ?f xs) = ?b"
    proof -
      have "length (take ?f xs) = ?f" using True by simp
      then show ?thesis using inv(2,4,5) by (simp add: memcpy_at_def)
    qed
    then have eq: "md5update xs ctx = (let c = c\<lparr>md5_buffer := ?b, md5_state := md5_process (md5_state ctx) ?b\<rparr>;
        (state, r') = md5_blocks (md5_state c) (drop ?f xs); c = c\<lparr>md5_state := state\<rparr>
        in if r' \<noteq> [] then c\<lparr>md5_buffer := memcpy_at (md5_buffer c) (length ([] :: byte list)) r'\<rparr> else c)"
      unfolding md5update_def Let_def left cnt ilen c_def
      using True ne by (simp split: prod.split)
    have st: "md5_process (md5_state ctx) ?b = rfc_blocks md5_init_state (d @ ?b)"
      using inv(1,3) b by (simp add: md5_process_rfc rfc_blocks_append rfc_blocks_one)
    have l: "length (d @ ?b) + length ([] :: byte list) + length (drop ?f xs) = ?n + length xs"
    proof -
      have "length (take ?f xs) + length (drop ?f xs) = length xs"
        by (metis append_take_drop_id length_append)
      then show ?thesis by (simp del: length_take length_drop)
    qed
    have "\<exists>d' p'. md5_rep (md5update xs ctx) d' p' \<and> d' @ p' = (d @ ?b) @ [] @ drop ?f xs"
      unfolding eq Let_def
      by (rule md5_tail[unfolded Let_def])
        (use st l b inv(1) in \<open>simp_all add: c_def mod_add_left_eq [symmetric]
          add.commute add.left_commute\<close>)
    then show ?thesis by simp
  next
    case False
    then have eq: "md5update xs ctx = (let (state, r') = md5_blocks (md5_state c) xs; c = c\<lparr>md5_state := state\<rparr>
        in if r' \<noteq> [] then c\<lparr>md5_buffer := memcpy_at (md5_buffer c) (length p) r'\<rparr> else c)"
      unfolding md5update_def Let_def left cnt ilen c_def
      using ne by (auto split: prod.split)
    show ?thesis unfolding eq
      by (rule md5_tail) (use inv False in \<open>auto simp: c_def\<close>)
  qed
qed


section \<open>The digest\<close>

lemma bit_of_nat_word: "bit (of_nat n :: 'a::len word) k \<longleftrightarrow> k < LENGTH('a) \<and> bit n k"
  using bit_word_of_int_iff[of "int n" k, where 'a = 'a] by (simp add: bit_of_nat_iff)

lemma length_bytes_eq:
  assumes "c0 = (of_nat n :: u32)" "c1 = of_nat (n div 2 ^ 32)"
  shows "PUT_ULONG_LE (ucast (push_bit 3 c0)) @
      PUT_ULONG_LE (ucast (drop_bit 29 c0 OR push_bit 3 c1)) = le64 (8 * n)"
proof -
  have n: "8 * n div 256 ^ i = drop_bit (8 * i) (push_bit 3 n)" for i
  proof -
    have "(256 :: nat) ^ i = 2 ^ (8 * i)" by (simp add: power_mult)
    then show ?thesis by (simp add: drop_bit_eq_div push_bit_eq_mult mult.commute)
  qed
  have hi: "n div 2 ^ 32 = drop_bit 32 n" by (simp add: drop_bit_eq_div)
  show ?thesis
    unfolding le64_def n assms hi PUT_ULONG_LE_def
    by (simp add: upt_rec) (simp add: byte_eq_iff bit_simps bit_of_nat_word all_less_8)
qed

lemma state_bytes: "PUT_ULONG_LE (ucast w) = List.map (\<lambda>i. ucast (drop_bit (8 * i) w)) [0..<4]"
  for w :: u32
  by (simp add: PUT_ULONG_LE_def upt_rec) (simp add: byte_bits)

lemma length_le64 [simp]: "length (le64 n) = 8"
  by (simp add: le64_def)

lemma pad_zeros:
  assumes "r < (64 :: nat)"
  shows "(55 + 64 - r) mod 64 = (if r < 56 then 55 - r else 119 - r)"
proof (cases "r < 56")
  case True
  then have "55 + 64 - r = 64 + (55 - r)" by simp
  then have "(55 + 64 - r) mod 64 = (55 - r) mod 64" by (simp only: mod_add_self1)
  with True show ?thesis by simp
qed (use assms in simp)

lemma padding_eq:
  assumes "lst = n mod 64"
  shows "take (if lst < 56 then 56 - lst else 120 - lst) PADDING =
    0x80 # replicate ((55 + 64 - n mod 64) mod 64) (0 :: byte)"
proof -
  have lst: "lst < 64" using assms by simp
  show ?thesis
    unfolding assms [symmetric] pad_zeros[OF lst]
    using lst by (auto simp: PADDING_def take_Cons' min_def)
qed

lemma length_padded: "length (rfc_padded msg) mod 64 = 0"
proof -
  let ?r = "length msg mod 64"
  have r: "?r < 64" by simp
  have "?r + (1 + (55 + 64 - ?r) mod 64 + 8) = (if ?r < 56 then 64 else 128)"
    unfolding pad_zeros[OF r] using r by simp
  then have "(?r + (1 + (55 + 64 - ?r) mod 64 + 8)) mod 64 = 0" by simp
  then have "(length msg + (1 + (55 + 64 - ?r) mod 64 + 8)) mod 64 = 0"
    by (simp only: mod_add_left_eq)
  then show ?thesis by (simp add: rfc_padded_def)
qed

lemma md5final_rep:
  assumes "md5_rep ctx d p"
  shows "md5final ctx = rfc_md5 (d @ p)"
proof -
  let ?n = "length (d @ p)"
  have lst: "unat (md5_count0 ctx AND 0x3F) = ?n mod 64"
    using md5_rep_left[OF assms] md5_rep_mod[OF assms] by simp
  define pad where "pad = 0x80 # replicate ((55 + 64 - ?n mod 64) mod 64) (0 :: byte)"
  have lenpad: "length pad < 2 ^ 32"
    using mod_less_divisor[of 64 "55 + 64 - ?n mod 64"] by (simp add: pad_def)
  obtain d1 p1 where r1: "md5_rep (md5update pad ctx) d1 p1" "d1 @ p1 = d @ p @ pad"
    using md5update_rep[OF assms lenpad] by blast
  obtain d2 p2 where r2: "md5_rep (md5update (le64 (8 * ?n)) (md5update pad ctx)) d2 p2"
    "d2 @ p2 = d1 @ p1 @ le64 (8 * ?n)"
    using md5update_rep[OF r1(1), of "le64 (8 * ?n)"] by auto
  have all: "d2 @ p2 = rfc_padded (d @ p)"
    using r1(2) r2(2) by (simp add: rfc_padded_def pad_def flip: append_assoc)
  then have "(length d2 + length p2) mod 64 = 0"
    using length_padded[of "d @ p"] by (metis length_append)
  then have "p2 = []" using md5_rep_mod[OF r2(1)] by simp
  then have "md5_state (md5update (le64 (8 * ?n)) (md5update pad ctx)) =
      rfc_blocks md5_init_state (rfc_padded (d @ p))"
    using r2(1) all by (simp add: md5_rep_def)
  moreover have "PUT_ULONG_LE (ucast (push_bit 3 (md5_count0 ctx))) @
      PUT_ULONG_LE (ucast (drop_bit 29 (md5_count0 ctx) OR push_bit 3 (md5_count1 ctx))) = le64 (8 * ?n)"
    using assms by (intro length_bytes_eq) (simp_all add: md5_rep_def)
  moreover have "take (if unat (md5_count0 ctx AND 0x3F) < 56 then 56 - unat (md5_count0 ctx AND 0x3F)
      else 120 - unat (md5_count0 ctx AND 0x3F)) PADDING = pad"
    unfolding pad_def by (rule padding_eq) (rule lst)
  ultimately show ?thesis
    by (simp add: md5final_def Let_def rfc_md5_def md5_init_state_def state_bytes split: prod.splits)
qed

lemma md5init_rep: "length (md5_buffer ctx) = 64 \<Longrightarrow> md5_rep (md5init ctx) [] []"
  by (simp add: md5_rep_def md5init_def md5_init_state_def rfc_blocks.simps)

text \<open>
  C13. \<open>md5bin\<close> computes the MD5 digest of RFC 1321, whose table is that of the sine: the
  constants, the 64-bit arithmetic of the transformation, the block handling and the padding
  agree with the 32-bit specification, for every input shorter than \<open>2 ^ 32\<close> bytes and whatever
  the uninitialised context held.
\<close>

theorem md5bin_rfc:
  assumes "length (md5_buffer ctx) = 64" "length s < 2 ^ 32"
  shows "md5bin ctx s = rfc_md5 s"
proof -
  obtain d p where "md5_rep (md5update s (md5init ctx)) d p" "d @ p = s"
    using md5update_rep[OF md5init_rep[OF assms(1)] assms(2)] by auto
  then show ?thesis by (auto simp: md5bin_def md5final_rep)
qed

lemma length_hex2: "length (hex2 b) = 2"
  by (simp add: hex2_def)

lemma fold_md5update_rep:
  "md5_rep ctx d p \<Longrightarrow> list_all (\<lambda>b. length b \<le> 1024) bufs \<Longrightarrow>
   \<exists>d' p'. md5_rep (fold md5update bufs ctx) d' p' \<and> d' @ p' = d @ p @ concat bufs"
proof (induction bufs arbitrary: ctx d p)
  case (Cons b bufs)
  then obtain d1 p1 where 1: "md5_rep (md5update b ctx) d1 p1" "d1 @ p1 = d @ p @ b"
    using md5update_rep[of ctx d p b] by auto
  from Cons.IH[OF 1(1)] Cons.prems(2) obtain d2 p2 where
    "md5_rep (fold md5update bufs (md5update b ctx)) d2 p2" "d2 @ p2 = d1 @ p1 @ concat bufs"
    by auto
  with 1(2) show ?case by (metis append_assoc concat.simps(2) fold_simps(2))
qed auto

text \<open>
  However \<open>fread\<close> cuts a file into pieces of at most 1024 bytes, \<open>md5file\<close> gives the
  digest of its whole contents in hexadecimal, without any bound on the size of the file.
\<close>

lemma md5file_pieces:
  assumes "length (md5_buffer ctx) = 64" "list_all (\<lambda>b. length b \<le> 1024) bufs"
  shows "md5file ctx (Some bufs) = concat (List.map hex2 (rfc_md5 (concat bufs)))"
proof -
  obtain d p where "md5_rep (fold md5update bufs (md5init ctx)) d p" "d @ p = concat bufs"
    using fold_md5update_rep[OF md5init_rep[OF assms(1)] assms(2)] by auto
  moreover have "md5_bin2str b [] = concat (List.map hex2 b)" for b by (simp add: md5_bin2str_def length_hex2)
  ultimately show ?thesis by (simp add: md5file_def md5final_rep)
qed

definition some_context :: MD5_CTX where
  "some_context = \<lparr>md5_state = (1, 2, 3, 4), md5_count0 = 5, md5_count1 = 6,
     md5_buffer = replicate 64 7\<rparr>"

theorem md5bin_rfc_witness: "md5bin some_context [97, 98, 99] = rfc_md5 [97, 98, 99]"
  by (rule md5bin_rfc) (simp_all add: some_context_def)

theorem md5file_pieces_witness:
  "md5file some_context (Some [[97], [98, 99]]) =
     concat (List.map hex2 (rfc_md5 (concat [[97], [98, 99]])))"
  by (rule md5file_pieces) (simp_all add: some_context_def)

end
