(* ===== verification/Des.thy ===== *)
theory Des
  imports Block_Cipher
begin

unbundle bit_operations_syntax

text \<open>
  \<open>TC_Des\<close> (tcinclude/tc_des.cpp): the key schedule, the block function with its tables, and
  single and triple DES over strings with their padding. Decryption undoes encryption for
  every key; the padding \<open>decrypt3\<close> removes is not checked, which is shown to matter.
\<close>

section \<open>Tables\<close>

definition bytebit :: "byte list" where
  "bytebit = [0x80, 0x40, 0x20, 0x10, 0x08, 0x04, 0x02, 0x01]"

definition bigbyte :: "u32 list" where
  "bigbyte = [
     0x800000, 0x400000, 0x200000, 0x100000,
     0x80000, 0x40000, 0x20000, 0x10000,
     0x8000, 0x4000, 0x2000, 0x1000,
     0x800, 0x400, 0x200, 0x100,
     0x80, 0x40, 0x20, 0x10,
     0x8, 0x4, 0x2, 0x1]"

definition pc1 :: "nat list" where
  "pc1 = [
     56, 48, 40, 32, 24, 16, 8, 0, 57, 49, 41, 33, 25, 17,
     9, 1, 58, 50, 42, 34, 26, 18, 10, 2, 59, 51, 43, 35,
     62, 54, 46, 38, 30, 22, 14, 6, 61, 53, 45, 37, 29, 21,
     13, 5, 60, 52, 44, 36, 28, 20, 12, 4, 27, 19, 11, 3]"

definition totrot :: "nat list" where
  "totrot = [1, 2, 4, 6, 8, 10, 12, 14, 15, 17, 19, 21, 23, 25, 27, 28]"

definition pc2 :: "nat list" where
  "pc2 = [
     13, 16, 10, 23, 0, 4, 2, 27, 14, 5, 20, 9,
     22, 18, 11, 3, 25, 7, 15, 6, 26, 19, 12, 1,
     40, 51, 30, 36, 46, 54, 29, 39, 50, 44, 32, 47,
     43, 48, 38, 55, 33, 52, 45, 41, 49, 35, 28, 31]"

definition SP1 :: "u32 list" where
  "SP1 = [
     0x01010400, 0x00000000, 0x00010000, 0x01010404, 0x01010004, 0x00010404,
     0x00000004, 0x00010000, 0x00000400, 0x01010400, 0x01010404, 0x00000400,
     0x01000404, 0x01010004, 0x01000000, 0x00000004, 0x00000404, 0x01000400,
     0x01000400, 0x00010400, 0x00010400, 0x01010000, 0x01010000, 0x01000404,
     0x00010004, 0x01000004, 0x01000004, 0x00010004, 0x00000000, 0x00000404,
     0x00010404, 0x01000000, 0x00010000, 0x01010404, 0x00000004, 0x01010000,
     0x01010400, 0x01000000, 0x01000000, 0x00000400, 0x01010004, 0x00010000,
     0x00010400, 0x01000004, 0x00000400, 0x00000004, 0x01000404, 0x00010404,
     0x01010404, 0x00010004, 0x01010000, 0x01000404, 0x01000004, 0x00000404,
     0x00010404, 0x01010400, 0x00000404, 0x01000400, 0x01000400, 0x00000000,
     0x00010004, 0x00010400, 0x00000000, 0x01010004]"

definition SP2 :: "u32 list" where
  "SP2 = [
     0x80108020, 0x80008000, 0x00008000, 0x00108020, 0x00100000, 0x00000020,
     0x80100020, 0x80008020, 0x80000020, 0x80108020, 0x80108000, 0x80000000,
     0x80008000, 0x00100000, 0x00000020, 0x80100020, 0x00108000, 0x00100020,
     0x80008020, 0x00000000, 0x80000000, 0x00008000, 0x00108020, 0x80100000,
     0x00100020, 0x80000020, 0x00000000, 0x00108000, 0x00008020, 0x80108000,
     0x80100000, 0x00008020, 0x00000000, 0x00108020, 0x80100020, 0x00100000,
     0x80008020, 0x80100000, 0x80108000, 0x00008000, 0x80100000, 0x80008000,
     0x00000020, 0x80108020, 0x00108020, 0x00000020, 0x00008000, 0x80000000,
     0x00008020, 0x80108000, 0x00100000, 0x80000020, 0x00100020, 0x80008020,
     0x80000020, 0x00100020, 0x00108000, 0x00000000, 0x80008000, 0x00008020,
     0x80000000, 0x80100020, 0x80108020, 0x00108000]"

definition SP3 :: "u32 list" where
  "SP3 = [
     0x00000208, 0x08020200, 0x00000000, 0x08020008, 0x08000200, 0x00000000,
     0x00020208, 0x08000200, 0x00020008, 0x08000008, 0x08000008, 0x00020000,
     0x08020208, 0x00020008, 0x08020000, 0x00000208, 0x08000000, 0x00000008,
     0x08020200, 0x00000200, 0x00020200, 0x08020000, 0x08020008, 0x00020208,
     0x08000208, 0x00020200, 0x00020000, 0x08000208, 0x00000008, 0x08020208,
     0x00000200, 0x08000000, 0x08020200, 0x08000000, 0x00020008, 0x00000208,
     0x00020000, 0x08020200, 0x08000200, 0x00000000, 0x00000200, 0x00020008,
     0x08020208, 0x08000200, 0x08000008, 0x00000200, 0x00000000, 0x08020008,
     0x08000208, 0x00020000, 0x08000000, 0x08020208, 0x00000008, 0x00020208,
     0x00020200, 0x08000008, 0x08020000, 0x08000208, 0x00000208, 0x08020000,
     0x00020208, 0x00000008, 0x08020008, 0x00020200]"

definition SP4 :: "u32 list" where
  "SP4 = [
     0x00802001, 0x00002081, 0x00002081, 0x00000080, 0x00802080, 0x00800081,
     0x00800001, 0x00002001, 0x00000000, 0x00802000, 0x00802000, 0x00802081,
     0x00000081, 0x00000000, 0x00800080, 0x00800001, 0x00000001, 0x00002000,
     0x00800000, 0x00802001, 0x00000080, 0x00800000, 0x00002001, 0x00002080,
     0x00800081, 0x00000001, 0x00002080, 0x00800080, 0x00002000, 0x00802080,
     0x00802081, 0x00000081, 0x00800080, 0x00800001, 0x00802000, 0x00802081,
     0x00000081, 0x00000000, 0x00000000, 0x00802000, 0x00002080, 0x00800080,
     0x00800081, 0x00000001, 0x00802001, 0x00002081, 0x00002081, 0x00000080,
     0x00802081, 0x00000081, 0x00000001, 0x00002000, 0x00800001, 0x00002001,
     0x00802080, 0x00800081, 0x00002001, 0x00002080, 0x00800000, 0x00802001,
     0x00000080, 0x00800000, 0x00002000, 0x00802080]"

definition SP5 :: "u32 list" where
  "SP5 = [
     0x00000100, 0x02080100, 0x02080000, 0x42000100, 0x00080000, 0x00000100,
     0x40000000, 0x02080000, 0x40080100, 0x00080000, 0x02000100, 0x40080100,
     0x42000100, 0x42080000, 0x00080100, 0x40000000, 0x02000000, 0x40080000,
     0x40080000, 0x00000000, 0x40000100, 0x42080100, 0x42080100, 0x02000100,
     0x42080000, 0x40000100, 0x00000000, 0x42000000, 0x02080100, 0x02000000,
     0x42000000, 0x00080100, 0x00080000, 0x42000100, 0x00000100, 0x02000000,
     0x40000000, 0x02080000, 0x42000100, 0x40080100, 0x02000100, 0x40000000,
     0x42080000, 0x02080100, 0x40080100, 0x00000100, 0x02000000, 0x42080000,
     0x42080100, 0x00080100, 0x42000000, 0x42080100, 0x02080000, 0x00000000,
     0x40080000, 0x42000000, 0x00080100, 0x02000100, 0x40000100, 0x00080000,
     0x00000000, 0x40080000, 0x02080100, 0x40000100]"

definition SP6 :: "u32 list" where
  "SP6 = [
     0x20000010, 0x20400000, 0x00004000, 0x20404010, 0x20400000, 0x00000010,
     0x20404010, 0x00400000, 0x20004000, 0x00404010, 0x00400000, 0x20000010,
     0x00400010, 0x20004000, 0x20000000, 0x00004010, 0x00000000, 0x00400010,
     0x20004010, 0x00004000, 0x00404000, 0x20004010, 0x00000010, 0x20400010,
     0x20400010, 0x00000000, 0x00404010, 0x20404000, 0x00004010, 0x00404000,
     0x20404000, 0x20000000, 0x20004000, 0x00000010, 0x20400010, 0x00404000,
     0x20404010, 0x00400000, 0x00004010, 0x20000010, 0x00400000, 0x20004000,
     0x20000000, 0x00004010, 0x20000010, 0x20404010, 0x00404000, 0x20400000,
     0x00404010, 0x20404000, 0x00000000, 0x20400010, 0x00000010, 0x00004000,
     0x20400000, 0x00404010, 0x00004000, 0x00400010, 0x20004010, 0x00000000,
     0x20404000, 0x20000000, 0x00400010, 0x20004010]"

definition SP7 :: "u32 list" where
  "SP7 = [
     0x00200000, 0x04200002, 0x04000802, 0x00000000, 0x00000800, 0x04000802,
     0x00200802, 0x04200800, 0x04200802, 0x00200000, 0x00000000, 0x04000002,
     0x00000002, 0x04000000, 0x04200002, 0x00000802, 0x04000800, 0x00200802,
     0x00200002, 0x04000800, 0x04000002, 0x04200000, 0x04200800, 0x00200002,
     0x04200000, 0x00000800, 0x00000802, 0x04200802, 0x00200800, 0x00000002,
     0x04000000, 0x00200800, 0x04000000, 0x00200800, 0x00200000, 0x04000802,
     0x04000802, 0x04200002, 0x04200002, 0x00000002, 0x00200002, 0x04000000,
     0x04000800, 0x00200000, 0x04200800, 0x00000802, 0x00200802, 0x04200800,
     0x00000802, 0x04000002, 0x04200802, 0x04200000, 0x00200800, 0x00000000,
     0x00000002, 0x04200802, 0x00000000, 0x00200802, 0x04200000, 0x00000800,
     0x04000002, 0x04000800, 0x00000800, 0x00200002]"

definition SP8 :: "u32 list" where
  "SP8 = [
     0x10001040, 0x00001000, 0x00040000, 0x10041040, 0x10000000, 0x10001040,
     0x00000040, 0x10000000, 0x00040040, 0x10040000, 0x10041040, 0x00041000,
     0x10041000, 0x00041040, 0x00001000, 0x00000040, 0x10040000, 0x10000040,
     0x10001000, 0x00001040, 0x00041000, 0x00040040, 0x10040040, 0x10041000,
     0x00001040, 0x00000000, 0x00000000, 0x10040040, 0x10000040, 0x10001000,
     0x00041040, 0x00040000, 0x00041040, 0x00040000, 0x10041000, 0x00001000,
     0x00000040, 0x10040040, 0x00001000, 0x00041040, 0x10001000, 0x00000040,
     0x10000040, 0x10040000, 0x10040040, 0x10000000, 0x00040000, 0x10001040,
     0x00000000, 0x10041040, 0x00040040, 0x10000040, 0x10040000, 0x10001000,
     0x10001040, 0x00000000, 0x10041040, 0x00041000, 0x00041000, 0x00001040,
     0x00001040, 0x00040040, 0x10000000, 0x10041000]"

section \<open>The block function\<close>

text \<open>The first element of a pair is \<open>block[0]\<close>, the second \<open>block[1]\<close>.\<close>

type_synonym des_block = "u32 \<times> u32"

definition scrunch :: "byte list \<Rightarrow> des_block" where
  "scrunch b =
     (push_bit 24 (ucast (b ! 0)) OR push_bit 16 (ucast (b ! 1)) OR
      push_bit 8 (ucast (b ! 2)) OR ucast (b ! 3),
      push_bit 24 (ucast (b ! 4)) OR push_bit 16 (ucast (b ! 5)) OR
      push_bit 8 (ucast (b ! 6)) OR ucast (b ! 7))"

definition unscrun :: "des_block \<Rightarrow> byte list" where
  "unscrun w = (case w of (a, b) \<Rightarrow>
     [ucast (drop_bit 24 a AND 0xff), ucast (drop_bit 16 a AND 0xff),
      ucast (drop_bit 8 a AND 0xff), ucast (a AND 0xff),
      ucast (drop_bit 24 b AND 0xff), ucast (drop_bit 16 b AND 0xff),
      ucast (drop_bit 8 b AND 0xff), ucast (b AND 0xff)])"

text \<open>
  The three lines that exchange the bits under a mask between \<open>a\<close>, shifted right by \<open>n\<close>,
  and \<open>b\<close>: \<open>work = ((a >> n) ^ b) & m; b ^= work; a ^= (work << n)\<close>.
\<close>

definition exchange :: "nat \<Rightarrow> u32 \<Rightarrow> u32 \<Rightarrow> u32 \<Rightarrow> u32 \<times> u32" where
  "exchange n m a b =
     (let work = (drop_bit n a XOR b) AND m in (a XOR push_bit n work, b XOR work))"

definition rol1 :: "u32 \<Rightarrow> u32" where
  "rol1 x = (push_bit 1 x OR (drop_bit 31 x AND 1)) AND 0xffffffff"

definition ror1 :: "u32 \<Rightarrow> u32" where
  "ror1 x = push_bit 31 x OR drop_bit 1 x"

definition initial_perm :: "des_block \<Rightarrow> u32 \<times> u32" where
  "initial_perm block =
     (let (leftt, right) = block;
          (leftt, right) = exchange 4 0x0f0f0f0f leftt right;
          (leftt, right) = exchange 16 0x0000ffff leftt right;
          (right, leftt) = exchange 2 0x33333333 right leftt;
          (right, leftt) = exchange 8 0x00ff00ff right leftt;
          right = rol1 right;
          (leftt, right) = exchange 0 0xaaaaaaaa leftt right;
          leftt = rol1 leftt
      in (leftt, right))"

definition final_perm :: "u32 \<times> u32 \<Rightarrow> des_block" where
  "final_perm halves =
     (let (leftt, right) = halves;
          right = ror1 right;
          (leftt, right) = exchange 0 0xaaaaaaaa leftt right;
          leftt = ror1 leftt;
          (leftt, right) = exchange 8 0x00ff00ff leftt right;
          (leftt, right) = exchange 2 0x33333333 leftt right;
          (right, leftt) = exchange 16 0x0000ffff right leftt;
          (right, leftt) = exchange 4 0x0f0f0f0f right leftt
      in (right, leftt))"

text \<open>The value a half round adds, from the other half and two words of the key.\<close>

definition box :: "u32 list \<Rightarrow> nat \<Rightarrow> u32 \<Rightarrow> u32" where
  "box SP n work = SP ! unat (drop_bit n work AND 0x3f)"

definition des_fval :: "u32 \<Rightarrow> u32 \<Rightarrow> u32 \<Rightarrow> u32" where
  "des_fval half k0 k1 =
     (let work = (push_bit 28 half OR drop_bit 4 half) XOR k0;
          fval = box SP7 0 work OR box SP5 8 work OR box SP3 16 work OR box SP1 24 work;
          work = half XOR k1
      in fval OR box SP8 0 work OR box SP6 8 work OR box SP4 16 work OR box SP2 24 work)"

text \<open>The loop: one turn uses four words of the key.\<close>

fun des_rounds :: "u32 list \<Rightarrow> u32 \<times> u32 \<Rightarrow> u32 \<times> u32" where
  "des_rounds (k0 # k1 # k2 # k3 # keys) (leftt, right) =
     (let leftt = leftt XOR des_fval right k0 k1;
          right = right XOR des_fval leftt k2 k3
      in des_rounds keys (leftt, right))"
| "des_rounds keys halves = halves"

definition desfunc :: "u32 list \<Rightarrow> des_block \<Rightarrow> des_block" where
  "desfunc keys block = final_perm (des_rounds keys (initial_perm block))"

section \<open>The key schedule\<close>

datatype des_mode = EN0 | DE1

definition pc1m :: "byte list \<Rightarrow> bool list" where
  "pc1m key = List.map (\<lambda>l. key ! (l div 8) AND bytebit ! (l mod 8) \<noteq> 0) pc1"

definition pcr :: "bool list \<Rightarrow> nat \<Rightarrow> bool list" where
  "pcr m i =
     List.map (\<lambda>j. let l = j + totrot ! i in if l < 28 then m ! l else m ! (l - 28)) [0..<28] @
     List.map (\<lambda>j. let l = j + totrot ! i in if l < 56 then m ! l else m ! (l - 28)) [28..<56]"

text \<open>The two words of the schedule for the rotation \<open>i\<close>: \<open>kn[m]\<close> and \<open>kn[n]\<close>.\<close>

definition kn_pair :: "byte list \<Rightarrow> nat \<Rightarrow> u32 \<times> u32" where
  "kn_pair key i =
     (let r = pcr (pc1m key) i in
      (fold (\<lambda>j w. if r ! (pc2 ! j) then w OR bigbyte ! j else w) [0..<24] 0,
       fold (\<lambda>j w. if r ! (pc2 ! (j + 24)) then w OR bigbyte ! j else w) [0..<24] 0))"

definition cook_pair :: "u32 \<times> u32 \<Rightarrow> u32 list" where
  "cook_pair raw = (case raw of (raw0, raw1) \<Rightarrow>
     [push_bit 6 (raw0 AND 0x00fc0000) OR push_bit 10 (raw0 AND 0x00000fc0) OR
      drop_bit 10 (raw1 AND 0x00fc0000) OR drop_bit 6 (raw1 AND 0x00000fc0),
      push_bit 12 (raw0 AND 0x0003f000) OR push_bit 16 (raw0 AND 0x0000003f) OR
      drop_bit 4 (raw1 AND 0x0003f000) OR (raw1 AND 0x0000003f)])"

definition cookey :: "(u32 \<times> u32) list \<Rightarrow> u32 list" where
  "cookey raw = concat (List.map cook_pair raw)"

text \<open>The pair for \<open>i\<close> is stored at index \<open>15 - i\<close> for decryption and at \<open>i\<close> for encryption.\<close>

definition deskey :: "byte list \<Rightarrow> des_mode \<Rightarrow> u32 list" where
  "deskey key edf =
     cookey (List.map (\<lambda>p. kn_pair key (if edf = DE1 then 15 - p else p)) [0..<16])"

definition des :: "u32 list \<Rightarrow> byte list \<Rightarrow> byte list" where
  "des KnL inblock = unscrun (desfunc KnL (scrunch inblock))"

text \<open>\<open>des3key\<close> returns \<open>KnL\<close>, \<open>KnR\<close> and \<open>Kn3\<close>.\<close>

definition des3key :: "byte list \<Rightarrow> des_mode \<Rightarrow> u32 list \<times> u32 list \<times> u32 list" where
  "des3key hexkey mode =
     (let (revmod, first, third) =
        (if mode = EN0 then (DE1, take 8 hexkey, drop 16 hexkey)
         else (EN0, drop 16 hexkey, take 8 hexkey))
      in (deskey first mode, deskey (take 8 (drop 8 hexkey)) revmod, deskey third mode))"

definition des3 :: "u32 list \<times> u32 list \<times> u32 list \<Rightarrow> byte list \<Rightarrow> byte list" where
  "des3 ks from_block = (case ks of (KnL, KnR, Kn3) \<Rightarrow>
     unscrun (desfunc Kn3 (desfunc KnR (desfunc KnL (scrunch from_block)))))"

section \<open>Strings\<close>

text \<open>
  The loops that pass every whole block to the cipher are \<open>chain\<close> with \<open>ecb_step\<close>. A key
  shorter than eight bytes is read past its end.
\<close>

definition des_encrypt :: "byte list \<Rightarrow> byte list \<Rightarrow> byte list result" where
  "des_encrypt key sIn =
     (if length key < 8 then Inl OutOfBounds
      else let KnL = deskey (take 8 key) EN0;
               md = length sIn mod 8;
               k = length sIn div 8;
               ret = ecb_blocks (des KnL) sIn;
               des_input = drop (k * 8) sIn @ replicate (8 - md) (of_nat (8 - md))
           in Inr (ret @ des KnL des_input))"

text \<open>Removing the padding: \<open>pad\<close> is the last character, a signed \<open>char\<close>.\<close>

definition strip_checked :: "byte list \<Rightarrow> byte list" where
  "strip_checked ret =
     (if ret = [] then ret
      else let pad = sint (last ret) in
        if pad > 0 \<and> pad \<le> 8 \<and> nat pad \<le> length ret
        then (if list_all (\<lambda>iBuf. ret ! (length ret - iBuf - 2) = last ret) [0..<nat pad - 1]
              then take (length ret - nat pad) ret else ret)
        else ret)"

definition des_decrypt :: "byte list \<Rightarrow> byte list \<Rightarrow> byte list result" where
  "des_decrypt key sIn =
     (if length key < 8 then Inl OutOfBounds
      else Inr (strip_checked (ecb_blocks (des (deskey (take 8 key) DE1)) sIn)))"

text \<open>
  The triple DES key: the C string \<open>key\<close>, at most 24 bytes of it, filled up with zeros.
\<close>

definition des3_keybytes :: "byte list \<Rightarrow> byte list" where
  "des3_keybytes key = (let s = take 24 (takeWhile (\<lambda>b. b \<noteq> 0) key) in s @ replicate (24 - length s) 0)"

definition des_encrypt3 :: "byte list \<Rightarrow> byte list \<Rightarrow> byte list" where
  "des_encrypt3 key sIn =
     (let post_len = length sIn mod 8;
          in_data = sIn @ (if post_len \<noteq> 0 then replicate (8 - post_len) (of_nat (8 - post_len))
                           else replicate 8 0x08)
      in ecb_blocks (des3 (des3key (des3_keybytes key) EN0)) in_data)"

text \<open>
  \<open>ret.erase(ret.end() - pad, ret.end())\<close> without any check of \<open>pad\<close>. The bytes of
  \<open>out_data\<close> behind the last whole block are what \<open>new\<close> left there: the argument \<open>junk\<close>.
\<close>

definition strip_unchecked :: "byte list \<Rightarrow> byte list result" where
  "strip_unchecked ret =
     (if ret = [] then Inr ret
      else let pad = sint (last ret) in
        if pad < 0 \<or> int (length ret) < pad then Inl OutOfBounds
        else Inr (take (length ret - nat pad) ret))"

definition des_decrypt3 :: "byte list \<Rightarrow> byte list \<Rightarrow> byte list \<Rightarrow> byte list result" where
  "des_decrypt3 junk key sIn =
     strip_unchecked (ecb_blocks (des3 (des3key (des3_keybytes key) DE1)) sIn @
       take (length sIn mod 8) junk)"

section \<open>The permutations undo each other\<close>

lemma exchange_exchange:
  assumes "\<And>i. bit m i \<Longrightarrow> i + n < 32"
  shows "exchange n m (fst (exchange n m a b)) (snd (exchange n m a b)) = (a, b)"
proof -
  let ?w = "(drop_bit n a XOR b) AND m"
  have w: "drop_bit n (push_bit n ?w) = ?w"
    by (rule bit_word_eqI) (auto simp: bit_simps dest: assms)
  have "(drop_bit n (a XOR push_bit n ?w) XOR (b XOR ?w)) AND m = ?w"
    by (rule bit_word_eqI) (auto simp: bit_simps dest: assms)
  then show ?thesis by (simp add: exchange_def Let_def xor.assoc)
qed

lemma mask_bits:
  "m AND drop_bit n (- 1) = m \<Longrightarrow> bit (m :: u32) i \<Longrightarrow> i + n < 32"
proof -
  assume "m AND drop_bit n (- 1) = m" "bit m i"
  then have "bit (m AND drop_bit n (- 1)) i" by simp
  then show "i + n < 32" by (auto simp: bit_simps add.commute)
qed

lemma exchange_masks:
  "exchange n m a b = (c, d) \<Longrightarrow>
   (n, m) \<in> {(4, 0x0f0f0f0f), (16, 0x0000ffff), (2, 0x33333333), (8, 0x00ff00ff), (0, 0xaaaaaaaa)} \<Longrightarrow>
   exchange n m c d = (a, b)"
proof -
  assume e: "exchange n m a b = (c, d)"
    and "(n, m) \<in> {(4, 0x0f0f0f0f), (16, 0x0000ffff), (2, 0x33333333), (8, 0x00ff00ff), (0, 0xaaaaaaaa)}"
  then have "m AND drop_bit n (- 1) = m" by (auto simp: mask_eq_exp_minus_1)
  then have "\<And>i. bit m i \<Longrightarrow> i + n < 32" using mask_bits by blast
  from exchange_exchange[of m n, OF this, of a b] e show "exchange n m c d = (a, b)" by simp
qed

lemma exchange_zero_swap: "exchange 0 m a b = (c, d) \<Longrightarrow> exchange 0 m b a = (d, c)"
  by (auto simp: exchange_def Let_def xor.commute)

lemma bit_times2: "bit ((x :: u32) * 2) n \<longleftrightarrow> 0 < n \<and> n < 32 \<and> bit x (n - 1)"
  using bit_push_bit_iff[of 1 x n] by (auto simp: push_bit_eq_mult)

lemma rotations [simp]: "rol1 (ror1 x) = x" "ror1 (rol1 x) = x"
  by (simp_all add: rol1_def ror1_def u32_bits bit_times2)

lemma final_initial: "final_perm (prod.swap (initial_perm b)) = b"
proof -
  obtain l r where b: "b = (l, r)" by fastforce
  obtain l1 r1 where 1: "exchange 4 0x0f0f0f0f l r = (l1, r1)" by fastforce
  obtain l2 r2 where 2: "exchange 16 0x0000ffff l1 r1 = (l2, r2)" by fastforce
  obtain l3 r3 where 3: "exchange 2 0x33333333 r2 l2 = (r3, l3)" by fastforce
  obtain l4 r4 where 4: "exchange 8 0x00ff00ff r3 l3 = (r4, l4)" by fastforce
  obtain l5 r5 where 5: "exchange 0 0xaaaaaaaa l4 (rol1 r4) = (l5, r5)" by fastforce
  have "initial_perm b = (rol1 l5, r5)" by (simp add: initial_perm_def b 1 2 3 4 5)
  moreover have "exchange 0 0xaaaaaaaa r5 l5 = (rol1 r4, l4)"
    using exchange_zero_swap exchange_masks[OF 5] by blast
  ultimately show ?thesis
    using exchange_masks[OF 1] exchange_masks[OF 2] exchange_masks[OF 3] exchange_masks[OF 4]
    by (simp add: final_perm_def b)
qed

lemma initial_final: "initial_perm (final_perm h) = prod.swap h"
proof -
  obtain l r where h: "h = (l, r)" by fastforce
  obtain l1 r1 where 1: "exchange 0 0xaaaaaaaa l (ror1 r) = (l1, r1)" by fastforce
  obtain l2 r2 where 2: "exchange 8 0x00ff00ff (ror1 l1) r1 = (l2, r2)" by fastforce
  obtain l3 r3 where 3: "exchange 2 0x33333333 l2 r2 = (l3, r3)" by fastforce
  obtain l4 r4 where 4: "exchange 16 0x0000ffff r3 l3 = (r4, l4)" by fastforce
  obtain l5 r5 where 5: "exchange 4 0x0f0f0f0f r4 l4 = (r5, l5)" by fastforce
  have "final_perm h = (r5, l5)" by (simp add: final_perm_def h 1 2 3 4 5)
  moreover have "exchange 0 0xaaaaaaaa r1 l1 = (ror1 r, l)"
    using exchange_zero_swap exchange_masks[OF 1] by blast
  ultimately show ?thesis
    using exchange_masks[OF 2] exchange_masks[OF 3] exchange_masks[OF 4] exchange_masks[OF 5]
    by (simp add: initial_perm_def h)
qed

section \<open>The rounds run backwards\<close>

text \<open>A schedule is a list of pairs of words, one pair for each half round.\<close>

definition flat :: "(u32 \<times> u32) list \<Rightarrow> u32 list" where
  "flat ps = concat (List.map (\<lambda>(a, b). [a, b]) ps)"

definition half_round :: "u32 \<times> u32 \<Rightarrow> u32 \<times> u32 \<Rightarrow> u32 \<times> u32" where
  "half_round k h = (snd h, fst h XOR des_fval (snd h) (fst k) (snd k))"

lemma des_rounds_half:
  "even (length ps) \<Longrightarrow> des_rounds (flat ps) h = fold half_round ps h"
proof (induction "length ps" arbitrary: ps h rule: less_induct)
  case less
  show ?case
  proof (cases ps)
    case (Cons p qs)
    with less.prems obtain q rs where qs: "qs = q # rs" by (cases qs) auto
    obtain a b c d where pq: "p = (a, b)" "q = (c, d)" by (metis surj_pair)
    obtain l r where h: "h = (l, r)" by fastforce
    have "des_rounds (flat rs) h' = fold half_round rs h'" for h'
      using less.prems Cons qs by (intro less.hyps) auto
    then show ?thesis by (simp add: Cons qs pq h flat_def half_round_def Let_def)
  qed (simp add: flat_def)
qed

lemma half_round_back: "half_round k (prod.swap (half_round k h)) = prod.swap h"
  by (cases h) (simp add: half_round_def xor.assoc)

lemma fold_half_round_back:
  "fold half_round (rev ps) (prod.swap (fold half_round ps h)) = prod.swap h"
proof (induction ps arbitrary: h)
  case (Cons k ps)
  from Cons.IH[of "half_round k h"] show ?case by (simp add: half_round_back)
qed simp

lemma des_rounds_back:
  "even (length ps) \<Longrightarrow> des_rounds (flat (rev ps)) (prod.swap (des_rounds (flat ps) h)) = prod.swap h"
  by (simp add: des_rounds_half fold_half_round_back)

lemma desfunc_back:
  assumes "even (length ps)"
  shows "desfunc (flat (rev ps)) (desfunc (flat ps) b) = b"
  using des_rounds_back[OF assms, of "initial_perm b"]
  by (simp add: desfunc_def initial_final final_initial)

text \<open>The schedule for decryption is that for encryption in the opposite order.\<close>

definition schedule :: "byte list \<Rightarrow> (u32 \<times> u32) list" where
  "schedule key = List.map (\<lambda>i. case cook_pair (kn_pair key i) of [a, b] \<Rightarrow> (a, b)) [0..<16]"

lemma cook_pair_two: "\<exists>a b. cook_pair raw = [a, b]"
  by (simp add: cook_pair_def split: prod.splits)

lemma cookey_flat:
  "cookey (List.map (\<lambda>p. kn_pair key (g p)) ps) =
   flat (List.map (\<lambda>p. case cook_pair (kn_pair key (g p)) of [a, b] \<Rightarrow> (a, b)) ps)"
proof (induction ps)
  case (Cons p ps)
  obtain a b where "cook_pair (kn_pair key (g p)) = [a, b]" using cook_pair_two by blast
  with Cons.IH show ?case by (simp add: cookey_def flat_def)
qed (simp add: cookey_def flat_def)

lemma deskey_EN0: "deskey key EN0 = flat (schedule key)"
  by (simp add: deskey_def schedule_def cookey_flat)

lemma deskey_DE1: "deskey key DE1 = flat (rev (schedule key))"
proof -
  have "rev [0..<16] = List.map (\<lambda>p. 15 - p) [0..<16]" by (simp add: upt_rec)
  then have "rev (schedule key) = List.map (\<lambda>p. case cook_pair (kn_pair key (15 - p)) of [a, b] \<Rightarrow> (a, b)) [0..<16]"
    by (simp only: schedule_def rev_map map_map o_def)
  then show ?thesis by (simp add: deskey_def cookey_flat)
qed

lemma even_schedule: "even (length (schedule key))" "even (length (rev (schedule key)))"
  by (simp_all add: schedule_def)

lemma desfunc_deskey:
  "desfunc (deskey key DE1) (desfunc (deskey key EN0) b) = b"
  "desfunc (deskey key EN0) (desfunc (deskey key DE1) b) = b"
  using desfunc_back[OF even_schedule(1), of key b] desfunc_back[OF even_schedule(2), of key b]
  by (simp_all add: deskey_EN0 deskey_DE1)

section \<open>The ciphers\<close>

lemma scrunch_unscrun [simp]: "scrunch (unscrun w) = w"
  by (cases w) (simp add: scrunch_def unscrun_def u32_bits)

lemma length_unscrun [simp]: "length (unscrun w) = 8"
  by (cases w) (simp add: unscrun_def)

lemma unscrun_scrunch:
  assumes "length b = 8"
  shows "unscrun (scrunch b) = b"
proof (rule nth_equalityI)
  fix i assume "i < length (unscrun (scrunch b))"
  then have "i \<in> {0, 1, 2, 3, 4, 5, 6, 7}" by auto
  then show "unscrun (scrunch b) ! i = b ! i"
    by (auto simp: unscrun_def scrunch_def byte_bits)
qed (simp add: assms)

lemma des_back: "length b = 8 \<Longrightarrow> des (deskey key DE1) (des (deskey key EN0) b) = b"
  by (simp add: des_def desfunc_deskey unscrun_scrunch)

lemma des3_back:
  "length b = 8 \<Longrightarrow> des3 (des3key key DE1) (des3 (des3key key EN0) b) = b"
  by (simp add: des3_def des3key_def desfunc_deskey unscrun_scrunch)

lemma length_des [simp]: "length (des k b) = 8" "length (des3 ks b) = 8"
  by (cases ks; simp add: des_def des3_def)+

interpretation des1: block_cipher "des (deskey k EN0)" "des (deskey k DE1)" for k
  by unfold_locales (simp_all add: des_back)

interpretation des3: block_cipher "des3 (des3key k EN0)" "des3 (des3key k DE1)" for k
  by unfold_locales (simp_all add: des3_back)

section \<open>Round trips over strings\<close>

lemma last_block_split:
  fixes s :: "byte list"
  shows "blocks (take (length s div 8 * 8) s)"
    "length (drop (length s div 8 * 8) s @ replicate (8 - length s mod 8) p) = 8"
    "ecb_blocks E s = ecb_blocks E (take (length s div 8 * 8) s)"
proof -
  let ?k = "length s div 8 * 8"
  have k: "?k \<le> length s" "length s - ?k = length s mod 8"
    by (simp, rule minus_div_mult_eq_mod)
  then show b: "blocks (take ?k s)" by (simp add: blocks_def min_absorb2)
  have m: "length s mod 8 < 8" by simp
  with k(2) show "length (drop ?k s @ replicate (8 - length s mod 8) p) = 8" by simp
  have "ecb_blocks E (take ?k s @ drop ?k s) = ecb_blocks E (take ?k s)"
    using b k(2) m by (subst ecb_blocks_tail) simp_all
  then show "ecb_blocks E s = ecb_blocks E (take ?k s)" by simp
qed

definition pkcs_pad :: "byte list \<Rightarrow> byte list" where
  "pkcs_pad s = s @ replicate (8 - length s mod 8) (of_nat (8 - length s mod 8))"

lemma blocks_pkcs_pad: "blocks (pkcs_pad s)"
proof -
  have "(length s + (8 - length s mod 8)) mod 8 = (length s mod 8 + (8 - length s mod 8)) mod 8"
    by (simp only: mod_add_left_eq)
  also have "length s mod 8 + (8 - length s mod 8) = 8"
    using mod_less_divisor[of 8 "length s"] by simp
  finally show ?thesis by (simp add: blocks_def pkcs_pad_def)
qed

lemma pad_sint: "1 \<le> n \<Longrightarrow> n \<le> 8 \<Longrightarrow> sint (of_nat n :: byte) = int n"
proof -
  assume "1 \<le> n" "n \<le> 8"
  then have "n \<in> {1, 2, 3, 4, 5, 6, 7, 8}" by auto
  then show "sint (of_nat n :: byte) = int n" by auto
qed

lemma strip_pkcs:
  "strip_checked (pkcs_pad s) = s" "strip_unchecked (pkcs_pad s) = Inr s"
proof -
  obtain p where p_def: "8 - length s mod 8 = p" by simp
  have p: "1 \<le> p" "p \<le> 8"
    using mod_less_divisor[of 8 "length s"] p_def by linarith+
  have eq: "pkcs_pad s = s @ replicate p (of_nat p)" by (simp add: pkcs_pad_def p_def)
  have last: "last (pkcs_pad s) = of_nat p" using p by (simp add: eq)
  have sp: "sint (last (pkcs_pad s)) = int p" unfolding last by (rule pad_sint[OF p])
  have ne: "pkcs_pad s \<noteq> []" using p by (simp add: eq)
  have len: "length (pkcs_pad s) = length s + p" by (simp add: eq)
  have same: "list_all (\<lambda>i. pkcs_pad s ! (length (pkcs_pad s) - i - 2) = last (pkcs_pad s)) [0..<p - 1]"
    unfolding last by (auto simp: list_all_iff len eq nth_append)
  have tk: "take (length (pkcs_pad s) - p) (pkcs_pad s) = s" by (simp add: eq)
  show "strip_checked (pkcs_pad s) = s"
    unfolding strip_checked_def Let_def sp nat_int using p ne same tk by (simp add: len)
  show "strip_unchecked (pkcs_pad s) = Inr s"
    unfolding strip_unchecked_def Let_def sp nat_int using p ne tk by (simp add: len)
qed

lemma des_encrypt_eq:
  "8 \<le> length key \<Longrightarrow>
   des_encrypt key s = Inr (ecb_blocks (des (deskey (take 8 key) EN0)) (pkcs_pad s))"
proof -
  assume key: "8 \<le> length key"
  let ?k = "length s div 8 * 8" and ?E = "des (deskey (take 8 key) EN0)"
  let ?last = "drop ?k s @ replicate (8 - length s mod 8) (of_nat (8 - length s mod 8))"
  have "pkcs_pad s = take ?k s @ ?last"
    by (metis append_assoc append_take_drop_id pkcs_pad_def)
  then have "ecb_blocks ?E (pkcs_pad s) = ecb_blocks ?E (take ?k s @ ?last)" by (rule arg_cong)
  also have "\<dots> = ecb_blocks ?E (take ?k s) @ ecb_blocks ?E ?last"
    by (rule ecb_blocks_tail[OF last_block_split(1)])
  also have "ecb_blocks ?E (take ?k s) = ecb_blocks ?E s"
    by (rule last_block_split(3)[symmetric])
  also have "ecb_blocks ?E ?last = ?E ?last"
    using ecb_blocks_append[OF last_block_split(2), of ?E s _ "[]"] by simp
  finally show ?thesis using key by (simp add: des_encrypt_def Let_def)
qed

text \<open>
  Single DES: decrypting what was encrypted under the same key gives the data back,
  for every key of at least eight bytes and every data, the padding included.
\<close>

lemma des_roundtrip:
  assumes "8 \<le> length key"
  shows "bindE (des_encrypt key s) (des_decrypt key) = Inr s"
  using assms des1.ecb_blocks_inverse(1)[OF blocks_pkcs_pad]
  by (simp add: des_encrypt_eq des_decrypt_def strip_pkcs)

lemma des_encrypt3_eq:
  "des_encrypt3 key s = ecb_blocks (des3 (des3key (des3_keybytes key) EN0)) (pkcs_pad s)"
  by (simp add: des_encrypt3_def Let_def pkcs_pad_def)

text \<open>
  C14. Triple DES, which encrypts, decrypts and encrypts with three keys: decryption gives
  the data back for every key, whatever the uninitialised output buffer held.
\<close>

theorem des3_roundtrip: "des_decrypt3 junk key (des_encrypt3 key s) = Inr s"
proof -
  let ?c = "ecb_blocks (des3 (des3key (des3_keybytes key) EN0)) (pkcs_pad s)"
  have "length ?c mod 8 = 0"
    using des3.ecb_blocks_inverse(2)[OF blocks_pkcs_pad] blocks_pkcs_pad by (simp add: blocks_def)
  then show ?thesis
    by (simp add: des_encrypt3_eq des_decrypt3_def des3.ecb_blocks_inverse(1)[OF blocks_pkcs_pad]
        strip_pkcs)
qed

text \<open>
  \<open>decrypt\<close> never fails on a key of eight bytes: a text whose padding is not well formed
  is returned as it is, cut to whole blocks.
\<close>

lemma des_decrypt_total:
  assumes "8 \<le> length key"
  shows "\<exists>out. des_decrypt key s = Inr out \<and> length out \<le> length s div 8 * 8"
proof -
  have "length (ecb_blocks E bs) = length bs" if "blocks bs" "\<And>b. length (E b) = 8" for E bs
    using that(1) by (induction rule: blocks_induct) (simp_all add: ecb_blocks_append that(2))
  then have "length (ecb_blocks (des (deskey (take 8 key) DE1)) (take (length s div 8 * 8) s)) =
      length (take (length s div 8 * 8) s)"
    using last_block_split(1) by simp
  then have len: "length (ecb_blocks (des (deskey (take 8 key) DE1)) s) \<le> length s div 8 * 8"
    unfolding last_block_split(3)[of _ s] by simp
  have "length (strip_checked r) \<le> length r" for r
    by (simp add: strip_checked_def Let_def)
  with len assms show ?thesis by (force simp: des_decrypt_def intro: order_trans)
qed

text \<open>
  \<open>decrypt3\<close> erases without a check, which is undefined when the last decrypted byte is
  above 127 or larger than the text.
\<close>

lemma des_decrypt3_unchecked:
  "strip_unchecked (xs @ [9]) = Inl OutOfBounds" if "length xs < 8"
  using that by (simp add: strip_unchecked_def Let_def)

definition some_key :: "byte list" where
  "some_key = [0x13, 0x34, 0x57, 0x79, 0x9B, 0xBC, 0xDF, 0xF1]"

theorem des_roundtrip_witness:
  "bindE (des_encrypt some_key [1, 2, 3]) (des_decrypt some_key) = Inr [1, 2, 3]"
  by (rule des_roundtrip) (simp add: some_key_def)

theorem des_decrypt_total_witness:
  "\<exists>out. des_decrypt some_key (replicate 9 5) = Inr out \<and>
     length out \<le> length (replicate 9 (5 :: byte)) div 8 * 8"
  by (rule des_decrypt_total) (simp add: some_key_def)

end
