(* ===== verification/Memory.thy ===== *)
theory Memory
  imports Prelude
begin

text \<open>
  Memory the library manages itself: \<open>memcpy\<close> and \<open>memset\<close> with their bounds, and a
  \<open>size_t\<close> as the eight bytes it occupies (little endian). Used by the queues, the bitmap
  and the chunk allocators.
\<close>

section \<open>Copies into and out of a buffer\<close>

text \<open>\<open>memcpy(buf + pos, bs, n)\<close>, undefined behaviour outside the buffer.\<close>

definition blit :: "byte list \<Rightarrow> nat \<Rightarrow> byte list \<Rightarrow> byte list" where
  "blit buf pos bs = take pos buf @ bs @ drop (pos + length bs) buf"

definition memcpy_in :: "nat \<Rightarrow> byte list \<Rightarrow> byte list \<Rightarrow> byte list result" where
  "memcpy_in pos bs buf =
     (if pos + length bs \<le> length buf then Inr (blit buf pos bs) else Inl OutOfBounds)"

definition memcpy_out :: "nat \<Rightarrow> nat \<Rightarrow> byte list \<Rightarrow> byte list result" where
  "memcpy_out pos n buf =
     (if pos + n \<le> length buf then Inr (take n (drop pos buf)) else Inl OutOfBounds)"

lemma length_blit [simp]: "pos + length bs \<le> length buf \<Longrightarrow> length (blit buf pos bs) = length buf"
  by (simp add: blit_def)

lemma nth_blit:
  "pos + length bs \<le> length buf \<Longrightarrow> j < length buf \<Longrightarrow>
   blit buf pos bs ! j = (if pos \<le> j \<and> j < pos + length bs then bs ! (j - pos) else buf ! j)"
  by (auto simp: blit_def nth_append)

lemma blit_append:
  "pos + length xs + length ys \<le> length buf \<Longrightarrow>
   blit (blit buf pos xs) (pos + length xs) ys = blit buf pos (xs @ ys)"
  by (rule nth_equalityI) (auto simp: nth_blit nth_append)

lemma blit_Nil [simp]: "pos \<le> length buf \<Longrightarrow> blit buf pos [] = buf"
  by (simp add: blit_def)

definition memset_in :: "nat \<Rightarrow> byte \<Rightarrow> nat \<Rightarrow> byte list \<Rightarrow> byte list result" where
  "memset_in pos c n buf = memcpy_in pos (replicate n c) buf"

text \<open>What a copy leaves elsewhere, and what is read back where it wrote.\<close>

lemma read_blit_same:
  "pos + length bs \<le> length buf \<Longrightarrow> n \<le> length bs \<Longrightarrow> take n (drop pos (blit buf pos bs)) = take n bs"
  by (rule nth_equalityI) (auto simp: nth_blit)

lemma read_blit_other:
  "pos + length bs \<le> length buf \<Longrightarrow> q + n \<le> length buf \<Longrightarrow> q + n \<le> pos \<or> pos + length bs \<le> q \<Longrightarrow>
   take n (drop q (blit buf pos bs)) = take n (drop q buf)"
  by (rule nth_equalityI) (auto simp: nth_blit)

lemma memcpy_in_Inr [simp]: "pos + length bs \<le> length buf \<Longrightarrow> memcpy_in pos bs buf = Inr (blit buf pos bs)"
  by (simp add: memcpy_in_def)

lemma memcpy_out_Inr [simp]: "pos + n \<le> length buf \<Longrightarrow> memcpy_out pos n buf = Inr (take n (drop pos buf))"
  by (simp add: memcpy_out_def)

section \<open>A \<open>size_t\<close> in memory\<close>

definition size_bytes :: "nat \<Rightarrow> byte list" where
  "size_bytes n = List.map (\<lambda>i. of_nat (n div 256 ^ i)) [0..<8]"

definition size_val :: "byte list \<Rightarrow> nat" where
  "size_val bs = (\<Sum>i<8. unat (bs ! i) * 256 ^ i)"

lemma length_size_bytes [simp]: "length (size_bytes n) = 8"
  by (simp add: size_bytes_def)

lemma size_sum: "(\<Sum>i<k. n div 256 ^ i mod 256 * 256 ^ i) = n mod 256 ^ k" for n :: nat
proof (induction k)
  case (Suc k)
  have "n mod 256 ^ Suc k = 256 ^ k * (n div 256 ^ k mod 256) + n mod 256 ^ k"
    using mod_mult2_eq[of n "256 ^ k" 256] by (simp add: mult.commute)
  with Suc.IH show ?case by (simp add: mult.commute)
qed simp

lemma size_val_bytes [simp]: "n < 2 ^ 64 \<Longrightarrow> size_val (size_bytes n) = n"
proof -
  assume "n < 2 ^ 64"
  then have "n mod 256 ^ 8 = n" by simp
  moreover have "unat (size_bytes n ! i) = n div 256 ^ i mod 256" if "i < 8" for i
    using that by (simp add: size_bytes_def unat_of_nat take_bit_eq_mod)
  ultimately show ?thesis
    unfolding size_val_def using size_sum[of n 8] by simp
qed

lemma size_val_less: "length bs = 8 \<Longrightarrow> size_val bs < 2 ^ 64"
proof -
  have less: "(\<Sum>i<k. f i * 256 ^ i) < 256 ^ k" if "\<And>i. f i < (256 :: nat)" for f k
  proof (induction k)
    case (Suc k)
    have "f k * 256 ^ k \<le> 255 * 256 ^ k" using that[of k] by (intro mult_right_mono) auto
    with Suc show ?case unfolding sum.lessThan_Suc power_Suc by linarith
  qed simp
  have "unat (b :: byte) < 256" for b using unsigned_less[of b, where 'a = nat] by simp
  then have "size_val bs < 256 ^ 8" unfolding size_val_def by (intro less)
  then show ?thesis by simp
qed

end
