(* ===== verification/Ring.thy ===== *)
theory Ring
  imports Memory
begin

text \<open>
  What the library's three queues share. Two of them keep length-prefixed records in a
  circular region of memory: reading and writing such a region, in terms of the plain
  copies of \<open>Memory\<close>. All three are first-in first-out queues: the interface
  \<open>fifo_queue\<close> says so of one operation at a time, and what follows for every sequence of
  operations is proved once from it.
\<close>

section \<open>A circular region\<close>

definition ring_read :: "byte list \<Rightarrow> nat \<Rightarrow> nat \<Rightarrow> byte list" where
  "ring_read mem pos n = List.map (\<lambda>i. mem ! ((pos + i) mod length mem)) [0..<n]"

definition ring_write :: "byte list \<Rightarrow> nat \<Rightarrow> byte list \<Rightarrow> byte list" where
  "ring_write mem pos bs =
     List.map (\<lambda>j. let k = (j + length mem - pos mod length mem) mod length mem
                   in if k < length bs then bs ! k else mem ! j) [0..<length mem]"

lemma length_ring [simp]:
  "length (ring_read mem pos n) = n" "length (ring_write mem pos bs) = length mem"
  by (simp_all add: ring_read_def ring_write_def)

lemma ring_offset:
  fixes Q :: nat
  assumes "i < Q"
  shows "((pos + i) mod Q + Q - pos mod Q) mod Q = i"
proof -
  define p where "p = pos mod Q"
  have p: "p < Q" using assms by (simp add: p_def)
  have "(pos + i) mod Q = (p + i) mod Q" by (simp add: p_def mod_add_left_eq)
  also have "\<dots> = (if p + i < Q then p + i else p + i - Q)"
    using assms p by (auto simp: mod_if)
  finally have "(pos + i) mod Q + Q - p = (if p + i < Q then i + Q else i)"
    using p assms by auto
  with assms show ?thesis unfolding p_def by auto
qed

lemma nth_ring_write:
  assumes "i < length mem"
  shows "ring_write mem pos bs ! ((pos + i) mod length mem) =
    (if i < length bs then bs ! i else mem ! ((pos + i) mod length mem))"
proof -
  have "(pos + i) mod length mem < length mem" using assms by (intro mod_less_divisor) linarith
  with assms show ?thesis by (simp add: ring_write_def Let_def ring_offset)
qed

lemma ring_read_write:
  "length bs \<le> length mem \<Longrightarrow> ring_read (ring_write mem pos bs) pos (length bs) = bs"
  by (rule nth_equalityI) (simp_all add: ring_read_def nth_ring_write)

lemma ring_read_other:
  assumes "n + length bs \<le> length mem"
  shows "ring_read (ring_write mem (pos + n) bs) pos n = ring_read mem pos n"
proof (rule nth_equalityI)
  fix i assume i: "i < length (ring_read (ring_write mem (pos + n) bs) pos n)"
  let ?Q = "length mem"
  let ?k = "?Q - n + i"
  have k: "?k < ?Q" "length bs \<le> ?k" using i assms by auto
  have "(pos + n + ?k) mod ?Q = (pos + i + ?Q) mod ?Q" using i assms by (simp add: add.commute add.left_commute)
  then have pos: "(pos + n + ?k) mod ?Q = (pos + i) mod ?Q" by simp
  show "ring_read (ring_write mem (pos + n) bs) pos n ! i = ring_read mem pos n ! i"
    using i nth_ring_write[OF k(1), of "pos + n" bs] k(2) by (simp add: ring_read_def pos)
qed simp

lemma ring_read_append:
  "ring_read mem pos (n + m) = ring_read mem pos n @ ring_read mem (pos + n) m"
  by (rule nth_equalityI) (auto simp: ring_read_def nth_append add.assoc)

lemma ring_read_mod:
  "ring_read mem (pos + length mem) n = ring_read mem pos n"
proof -
  have "(pos + length mem + i) mod length mem = (pos + i) mod length mem" for i
    using mod_add_self2[of "pos + i" "length mem"] by (simp only: ac_simps)
  then show ?thesis by (simp add: ring_read_def)
qed

lemma ring_write_mod: "ring_write mem (pos + length mem) bs = ring_write mem pos bs"
  by (simp add: ring_write_def)

text \<open>Plain copies are accesses to the circular region, in one piece or in two.\<close>

lemma ring_read_plain:
  "pos + n \<le> length mem \<Longrightarrow> take n (drop pos mem) = ring_read mem pos n"
  by (rule nth_equalityI) (auto simp: ring_read_def)

lemma ring_read_split:
  assumes "pos \<le> length mem" "length mem < pos + n" "n \<le> length mem"
  shows "take (length mem - pos) (drop pos mem) @ take (n - (length mem - pos)) mem =
    ring_read mem pos n"
proof -
  let ?l = "length mem - pos"
  have "ring_read mem pos n = ring_read mem pos ?l @ ring_read mem (0 + length mem) (n - ?l)"
    using ring_read_append[of mem pos ?l "n - ?l"] assms by simp
  also have "\<dots> = take ?l (drop pos mem) @ take (n - ?l) (drop 0 mem)"
    unfolding ring_read_mod using assms ring_read_plain[of pos ?l mem] ring_read_plain[of 0 "n - ?l" mem]
    by simp
  finally show ?thesis by simp
qed

lemma nth_ring_write_plain:
  assumes "j < length mem" "pos \<le> length mem"
  shows "ring_write mem pos bs ! j =
    (let k = if pos \<le> j then j - pos else j + length mem - pos in if k < length bs then bs ! k else mem ! j)"
proof -
  let ?Q = "length mem"
  have "(j + ?Q - pos mod ?Q) mod ?Q = (if pos \<le> j then j - pos else j + ?Q - pos)"
  proof (cases "pos \<le> j")
    case True
    then have "j + ?Q - pos mod ?Q = (j - pos) + ?Q" using assms by simp
    then have "(j + ?Q - pos mod ?Q) mod ?Q = (j - pos) mod ?Q" by (simp only: mod_add_self2)
    with True assms show ?thesis by simp
  next
    case False
    show ?thesis
    proof (cases "pos = ?Q")
      case True
      with False assms show ?thesis by simp
    next
      case False
      with \<open>\<not> pos \<le> j\<close> assms show ?thesis by simp
    qed
  qed
  then show ?thesis using assms(1) unfolding ring_write_def by (simp only: nth_map_upt) (simp add: Let_def)
qed

lemma ring_write_plain:
  assumes "pos + length bs \<le> length mem"
  shows "blit mem pos bs = ring_write mem pos bs"
proof (rule nth_equalityI)
  fix j assume "j < length (blit mem pos bs)"
  then have "j < length mem" using assms by simp
  then show "blit mem pos bs ! j = ring_write mem pos bs ! j"
    using assms nth_ring_write_plain[of j mem pos bs] nth_blit[OF assms, of j]
    by (auto simp: Let_def)
qed (use assms in simp)

lemma ring_write_split:
  assumes "pos \<le> length mem" "length mem < pos + length bs" "length bs \<le> length mem"
  shows "blit (blit mem pos (take (length mem - pos) bs)) 0 (drop (length mem - pos) bs) =
    ring_write mem pos bs"
proof (rule nth_equalityI)
  fix j assume "j < length (blit (blit mem pos (take (length mem - pos) bs)) 0 (drop (length mem - pos) bs))"
  then have j: "j < length mem" using assms by simp
  have "blit (blit mem pos (take (length mem - pos) bs)) 0 (drop (length mem - pos) bs) ! j =
      (if j < length bs - (length mem - pos) then bs ! (length mem - pos + j)
       else if pos \<le> j then bs ! (j - pos) else mem ! j)"
    using assms j by (auto simp: nth_blit)
  also have "\<dots> = ring_write mem pos bs ! j"
    using assms nth_ring_write_plain[OF j assms(1), of bs] j by (auto simp: Let_def add.commute)
  finally show "blit (blit mem pos (take (length mem - pos) bs)) 0 (drop (length mem - pos) bs) ! j =
      ring_write mem pos bs ! j" .
qed (use assms in simp)

section \<open>Length-prefixed records\<close>

definition entry :: "byte list \<Rightarrow> byte list" where
  "entry x = size_bytes (length x) @ x"

lemma length_entry [simp]: "length (entry x) = 8 + length x"
  by (simp add: entry_def)

definition contents :: "byte list list \<Rightarrow> byte list" where
  "contents xs = concat (List.map entry xs)"

lemma contents_simps [simp]:
  "contents [] = []" "contents (x # xs) = entry x @ contents xs"
  "contents (xs @ ys) = contents xs @ contents ys"
  by (simp_all add: contents_def)

lemma contents_nonempty: "xs \<noteq> [] \<Longrightarrow> 8 \<le> length (contents xs)"
  by (cases xs) simp_all

lemma ring_read_parts:
  assumes "ring_read d p (n + m) = a @ b" "length a = n"
  shows "ring_read d p n = a" "ring_read d (p + n) m = b"
  using assms by (simp_all add: ring_read_append append_eq_append_conv)

section \<open>First-in first-out queues\<close>

datatype 'x qop = Enq 'x | Deq

text \<open>A sequence of operations: the elements accepted, those returned, and the last state.\<close>

fun queue_run ::
  "('x \<Rightarrow> 's \<Rightarrow> (bool \<times> 's) result) \<Rightarrow> ('s \<Rightarrow> ('x option \<times> 's) result) \<Rightarrow>
   'x qop list \<Rightarrow> 's \<Rightarrow> ('x list \<times> 'x list \<times> 's) result" where
  "queue_run enq deq [] s = Inr ([], [], s)"
| "queue_run enq deq (Enq x # ops) s =
     bindE (enq x s) (\<lambda>(b, s'). bindE (queue_run enq deq ops s') (\<lambda>(acc, out, s'').
       Inr (if b then x # acc else acc, out, s'')))"
| "queue_run enq deq (Deq # ops) s =
     bindE (deq s) (\<lambda>(v, s'). bindE (queue_run enq deq ops s') (\<lambda>(acc, out, s'').
       Inr (acc, case v of None \<Rightarrow> out | Some x \<Rightarrow> x # out, s'')))"

definition enqueued :: "'x qop list \<Rightarrow> 'x list" where
  "enqueued ops = List.concat (List.map (\<lambda>op. case op of Enq x \<Rightarrow> [x] | Deq \<Rightarrow> []) ops)"

lemma enqueued_simps [simp]:
  "enqueued [] = []" "enqueued (Enq x # ops) = x # enqueued ops" "enqueued (Deq # ops) = enqueued ops"
  by (simp_all add: enqueued_def)

text \<open>
  The queue they are to be, with a test of room: an element is accepted at the back exactly when
  there is room for it, the front is returned and removed. \<open>bounded_run\<close> gives the elements
  accepted, those returned and those left.
\<close>

fun bounded_run ::
  "('x list \<Rightarrow> 'x \<Rightarrow> bool) \<Rightarrow> 'x qop list \<Rightarrow> 'x list \<Rightarrow> 'x list \<times> 'x list \<times> 'x list" where
  "bounded_run room [] xs = ([], [], xs)"
| "bounded_run room (Enq x # ops) xs =
     (if room xs x then case bounded_run room ops (xs @ [x]) of (acc, out, ys) \<Rightarrow> (x # acc, out, ys)
      else bounded_run room ops xs)"
| "bounded_run room (Deq # ops) [] = bounded_run room ops []"
| "bounded_run room (Deq # ops) (x # xs) =
     (case bounded_run room ops xs of (acc, out, ys) \<Rightarrow> (acc, x # out, ys))"

text \<open>First in, first out: what comes out, followed by what is left, is what was there and accepted.\<close>

lemma bounded_run_order: "bounded_run room ops xs = (acc, out, ys) \<Longrightarrow> xs @ acc = out @ ys"
  by (induction room ops xs arbitrary: acc out ys rule: bounded_run.induct)
    (auto split: if_splits prod.splits)

text \<open>
  \<open>rep s xs\<close>: the queue \<open>s\<close> holds \<open>xs\<close>, oldest first. An element that \<open>fits\<close> is accepted at
  the back when there is \<open>room\<close> and refused without effect when there is none; the front is
  returned and removed.
\<close>

locale fifo_queue =
  fixes enq :: "'x \<Rightarrow> 's \<Rightarrow> (bool \<times> 's) result"
    and deq :: "'s \<Rightarrow> ('x option \<times> 's) result"
    and rep :: "'s \<Rightarrow> 'x list \<Rightarrow> bool"
    and fits :: "'s \<Rightarrow> 'x \<Rightarrow> bool"
    and room :: "'s \<Rightarrow> 'x list \<Rightarrow> 'x \<Rightarrow> bool"
  assumes enq_rep: "rep s xs \<Longrightarrow> fits s x \<Longrightarrow>
      \<exists>s'. enq x s = Inr (room s xs x, s') \<and> rep s' (if room s xs x then xs @ [x] else xs) \<and>
        fits s' = fits s \<and> room s' = room s"
    and deq_rep: "rep s xs \<Longrightarrow>
      \<exists>s'. deq s = Inr (if xs = [] then None else Some (hd xs), s') \<and> rep s' (tl xs) \<and>
        fits s' = fits s \<and> room s' = room s"
begin

text \<open>Every sequence of operations does what the queue with a test of room does.\<close>

lemma run_bounded:
  assumes "rep s xs" "list_all (fits s) (enqueued ops)" "bounded_run (room s) ops xs = (acc, out, ys)"
  shows "\<exists>s'. queue_run enq deq ops s = Inr (acc, out, s') \<and> rep s' ys"
  using assms
proof (induction ops arbitrary: s xs acc out ys)
  case (Cons op ops)
  show ?case
  proof (cases op)
    case (Enq x)
    with Cons.prems(2) have x: "fits s x" "list_all (fits s) (enqueued ops)" by simp_all
    let ?b = "room s xs x"
    obtain s1 where s1: "enq x s = Inr (?b, s1)" "rep s1 (if ?b then xs @ [x] else xs)"
      "fits s1 = fits s" "room s1 = room s"
      using enq_rep[OF Cons.prems(1) x(1)] by blast
    obtain acc1 out1 ys1 where b: "bounded_run (room s1) ops (if ?b then xs @ [x] else xs) = (acc1, out1, ys1)"
      by (meson prod_cases3)
    with Cons.prems(3) s1(4) have "acc = (if ?b then x # acc1 else acc1)" "out = out1" "ys = ys1"
      by (auto simp: Enq split: if_splits)
    moreover obtain s2 where "queue_run enq deq ops s1 = Inr (acc1, out1, s2)" "rep s2 ys1"
      using Cons.IH[OF s1(2) _ b] x(2) s1(3) by auto
    ultimately show ?thesis by (simp add: Enq s1(1))
  next
    case Deq
    obtain s1 where s1: "deq s = Inr (if xs = [] then None else Some (hd xs), s1)" "rep s1 (tl xs)"
      "fits s1 = fits s" "room s1 = room s" using deq_rep[OF Cons.prems(1)] by blast
    have f: "list_all (fits s1) (enqueued ops)" using Cons.prems(2) s1(3) Deq by simp
    obtain acc1 out1 ys1 where b: "bounded_run (room s1) ops (tl xs) = (acc1, out1, ys1)"
      by (meson prod_cases3)
    with Cons.prems(3) s1(4) have "acc = acc1" "out = (if xs = [] then out1 else hd xs # out1)" "ys = ys1"
      by (cases xs; simp add: Deq)+
    moreover obtain s2 where "queue_run enq deq ops s1 = Inr (acc1, out1, s2)" "rep s2 ys1"
      using Cons.IH[OF s1(2) f b] by blast
    ultimately show ?thesis by (simp add: Deq s1(1))
  qed
qed auto

lemma run_fifo:
  assumes "rep s xs" "list_all (fits s) (enqueued ops)"
  shows "\<exists>acc out s' ys. bounded_run (room s) ops xs = (acc, out, ys) \<and>
    queue_run enq deq ops s = Inr (acc, out, s') \<and> rep s' ys \<and> xs @ acc = out @ ys"
proof -
  obtain acc out ys where b: "bounded_run (room s) ops xs = (acc, out, ys)" by (meson prod_cases3)
  with run_bounded[OF assms b] bounded_run_order[OF b] show ?thesis by blast
qed

end

end
