(* ===== verification/Mem_Queue.thy ===== *)
theory Mem_Queue
  imports Ring
begin

text \<open>
  \<open>TC_MemQueue\<close> (tcinclude/tc_mem_queue.cpp): a circular queue in shared memory, with the
  modification journal that is to keep it intact when a process is killed in the middle of
  an operation. Correctness as a first-in first-out queue, and that of the journal: however
  many of the stores of an operation were executed, the next operation finds the queue as
  it was before or as it is after.
\<close>

section \<open>The shared memory\<close>

text \<open>
  The control block, the journal (\<open>tagModifyHead\<close>: an entry names a field of the control
  block by its address; \<open>None\<close> is a cleared entry) and the data area, of \<open>queueSize()\<close> bytes.
\<close>

datatype ctrl_field = TopIndex | BotIndex | PushCount | PopCount

record memq =
  iMemSize :: nat
  iTopIndex :: nat
  iBotIndex :: nat
  iPushCount :: nat
  iPopCount :: nat
  cModifyStatus :: nat
  iNowIndex :: nat
  stModifyData :: "(ctrl_field \<times> nat) option list"
  q_data :: "byte list"

definition control_size :: nat where
  "control_size = 5 * 8"

definition modify_head_size :: nat where
  "modify_head_size = 1 + 8 + 5 * (8 + 1 + 8)"

definition queueSize :: "memq \<Rightarrow> nat" where
  "queueSize s = iMemSize s - control_size - modify_head_size"

text \<open>
  \<open>s\<close> is what the memory held before. (\<open>create\<close> checks only for 0; a memory smaller than the
  control block and the journal is overrun by the first access to them.)
\<close>

definition memq_create :: "nat \<Rightarrow> memq \<Rightarrow> memq result" where
  "memq_create iSize s =
     (if iSize = 0 then Inl AssertFail
      else if iSize < control_size + modify_head_size then Inl OutOfBounds
      else Inr (s\<lparr>iMemSize := iSize, iTopIndex := 0, iBotIndex := 0, iPopCount := 0,
                  iPushCount := 0\<rparr>))"

definition memq_connect :: "nat \<Rightarrow> memq \<Rightarrow> memq result" where
  "memq_connect iSize s = (if iSize = iMemSize s then Inr s else Inl AssertFail)"

section \<open>The journal\<close>

fun set_field :: "ctrl_field \<Rightarrow> nat \<Rightarrow> memq \<Rightarrow> memq" where
  "set_field TopIndex v s = s\<lparr>iTopIndex := v\<rparr>"
| "set_field BotIndex v s = s\<lparr>iBotIndex := v\<rparr>"
| "set_field PushCount v s = s\<lparr>iPushCount := v\<rparr>"
| "set_field PopCount v s = s\<lparr>iPopCount := v\<rparr>"

definition apply_entry :: "nat \<Rightarrow> memq \<Rightarrow> memq" where
  "apply_entry i s = (case stModifyData s ! i of None \<Rightarrow> s | Some (f, v) \<Rightarrow> set_field f v s)"

definition doUpdate :: "bool \<Rightarrow> memq \<Rightarrow> memq" where
  "doUpdate bUpdate s =
     (let s = (if bUpdate then s\<lparr>cModifyStatus := 2\<rparr> else s) in
      if cModifyStatus s = 1
      then s\<lparr>iNowIndex := 0, stModifyData := replicate 5 None, cModifyStatus := 0\<rparr>
      else if cModifyStatus s = 2
      then (fold apply_entry [0..<iNowIndex s] s)\<lparr>iNowIndex := 0, cModifyStatus := 0\<rparr>
      else s)"

definition update :: "ctrl_field \<Rightarrow> nat \<Rightarrow> memq \<Rightarrow> memq result" where
  "update f v s =
     (let s = s\<lparr>cModifyStatus := 1, stModifyData := (stModifyData s)[iNowIndex s := Some (f, v)],
                iNowIndex := iNowIndex s + 1\<rparr>
      in if iNowIndex s < 5 then Inr s else Inl AssertFail)"

section \<open>Operations\<close>

definition isFull :: "nat \<Rightarrow> memq \<Rightarrow> bool" where
  "isFull iSize s =
     (if iTopIndex s < iBotIndex s then iTopIndex s + 8 + iSize \<ge> iBotIndex s
      else if iTopIndex s > iBotIndex s then iTopIndex s + 8 + iSize \<ge> iBotIndex s + queueSize s
      else False)"

definition isEmpty :: "memq \<Rightarrow> bool" where
  "isEmpty s \<longleftrightarrow> iTopIndex s = iBotIndex s"

definition elementCount :: "memq \<Rightarrow> nat" where
  "elementCount s =
     (if iPushCount s \<ge> iPopCount s then iPushCount s - iPopCount s
      else (2 ^ 64 - 1) - iPopCount s + iPushCount s)"

text \<open>
  The copies \<open>push_back\<close> does of the length and the data (position and bytes), in their order,
  and the new \<open>iTopIndex\<close>.
\<close>

definition push_copies :: "byte list \<Rightarrow> memq \<Rightarrow> (nat \<times> byte list) list \<times> nat" where
  "push_copies x s =
     (let iSize = length x; top = iTopIndex s; sz = size_bytes iSize in
      if top + 8 + iSize \<le> queueSize s
      then ([(top, sz), (top + 8, x)], top + 8 + iSize)
      else let iLeftSize = queueSize s - top in
        if iLeftSize < 8
        then ((if iLeftSize > 0 then [(top, take iLeftSize sz)] else []) @
              [(0, drop iLeftSize sz), (8 - iLeftSize, x)], iSize + 8 - iLeftSize)
        else let iLeftSize1 = iLeftSize - 8 in
             ((top, sz) # (if iLeftSize1 > 0 then [(top + 8, take iLeftSize1 x)] else []) @
              [(0, drop iLeftSize1 x)], iSize - iLeftSize1))"

fun run_copies :: "(nat \<times> byte list) list \<Rightarrow> byte list \<Rightarrow> byte list result" where
  "run_copies [] d = Inr d"
| "run_copies ((pos, bs) # cs) d = bindE (memcpy_in pos bs d) (run_copies cs)"

definition push_data :: "byte list \<Rightarrow> memq \<Rightarrow> (byte list \<times> nat) result" where
  "push_data x s =
     (case push_copies x s of (cs, newTop) \<Rightarrow> bindE (run_copies cs (q_data s)) (\<lambda>d. Inr (d, newTop)))"

definition push_back :: "byte list \<Rightarrow> memq \<Rightarrow> (bool \<times> memq) result" where
  "push_back x s =
     (let s = doUpdate False s in
      if isFull (length x) s then Inr (False, s)
      else bindE (push_data x s) (\<lambda>(d, top).
           bindE (update TopIndex top (s\<lparr>q_data := d\<rparr>)) (\<lambda>s.
           bindE (update PushCount ((iPushCount s + 1) mod 2 ^ 64) s) (\<lambda>s.
           Inr (True, doUpdate True s)))))"

text \<open>What \<open>pop_front\<close> reads, and the new \<open>iBotIndex\<close>.\<close>

definition pop_data :: "memq \<Rightarrow> (byte list \<times> nat) result" where
  "pop_data s =
     (let bot = iBotIndex s; Q = queueSize s; d = q_data s in
      if bot + 8 \<le> Q
      then bindE (memcpy_out bot 8 d) (\<lambda>szb. let iSize = size_val szb in
           if bot + 8 + iSize \<le> Q
           then bindE (memcpy_out (bot + 8) iSize d) (\<lambda>x. Inr (x, bot + 8 + iSize))
           else let iLeftSize = Q - bot - 8 in
                bindE (memcpy_out (bot + 8) iLeftSize d) (\<lambda>x.
                bindE (memcpy_out 0 (iSize - iLeftSize) d) (\<lambda>y.
                Inr (x @ y, iSize - iLeftSize))))
      else let iLeftSize = Q - bot in
           bindE (memcpy_out bot iLeftSize d) (\<lambda>a.
           bindE (memcpy_out 0 (8 - iLeftSize) d) (\<lambda>b. let iSize = size_val (a @ b) in
           bindE (memcpy_out (8 - iLeftSize) iSize d) (\<lambda>x.
           Inr (x, iSize + 8 - iLeftSize)))))"

definition pop_front :: "memq \<Rightarrow> (byte list option \<times> memq) result" where
  "pop_front s =
     (let s = doUpdate False s in
      if isEmpty s then Inr (None, s)
      else bindE (pop_data s) (\<lambda>(x, bot).
           bindE (update BotIndex bot s) (\<lambda>s.
           bindE (update PopCount ((iPopCount s + 1) mod 2 ^ 64) s) (\<lambda>s.
           Inr (Some x, doUpdate True s)))))"

section \<open>What a queue holds\<close>

definition journal_clean :: "memq \<Rightarrow> bool" where
  "journal_clean s \<longleftrightarrow> cModifyStatus s = 0 \<and> iNowIndex s = 0 \<and> length (stModifyData s) = 5"

definition memq_shape :: "memq \<Rightarrow> byte list list \<Rightarrow> bool" where
  "memq_shape s xs \<longleftrightarrow>
     length (q_data s) = queueSize s \<and> length (contents xs) < queueSize s \<and>
     iBotIndex s \<le> queueSize s \<and>
     iTopIndex s = (if iBotIndex s + length (contents xs) \<le> queueSize s
                    then iBotIndex s + length (contents xs)
                    else iBotIndex s + length (contents xs) - queueSize s) \<and>
     ring_read (q_data s) (iBotIndex s) (length (contents xs)) = contents xs \<and>
     list_all (\<lambda>x. length x < 2 ^ 64) xs"

definition memq_rep :: "memq \<Rightarrow> byte list list \<Rightarrow> bool" where
  "memq_rep s xs \<longleftrightarrow> journal_clean s \<and> memq_shape s xs \<and> iPopCount s < 2 ^ 64 \<and>
     iPushCount s = (iPopCount s + length xs) mod 2 ^ 64"

definition memq_fits :: "memq \<Rightarrow> byte list \<Rightarrow> bool" where
  "memq_fits s x \<longleftrightarrow> 8 + length x < queueSize s \<and> length x < 2 ^ 64"

lemma queueSize_simps [simp]:
  "queueSize (s\<lparr>q_data := d\<rparr>) = queueSize s" "queueSize (s\<lparr>iTopIndex := i\<rparr>) = queueSize s"
  "queueSize (s\<lparr>iBotIndex := i\<rparr>) = queueSize s" "queueSize (s\<lparr>iPushCount := i\<rparr>) = queueSize s"
  "queueSize (s\<lparr>iPopCount := i\<rparr>) = queueSize s" "queueSize (s\<lparr>cModifyStatus := i\<rparr>) = queueSize s"
  "queueSize (s\<lparr>iNowIndex := i\<rparr>) = queueSize s" "queueSize (s\<lparr>stModifyData := ds\<rparr>) = queueSize s"
  by (simp_all add: queueSize_def)

lemma doUpdate_clean [simp]: "journal_clean s \<Longrightarrow> doUpdate False s = s"
  by (simp add: doUpdate_def journal_clean_def Let_def)

text \<open>The stores of a push are one write to the circular region.\<close>

lemma push_data_ring:
  assumes "length (q_data s) = queueSize s" "iTopIndex s \<le> queueSize s" "8 + length x \<le> queueSize s"
  shows "push_data x s = Inr (ring_write (q_data s) (iTopIndex s) (entry x),
    if iTopIndex s + 8 + length x \<le> queueSize s then iTopIndex s + 8 + length x
    else iTopIndex s + 8 + length x - queueSize s)"
proof -
  let ?top = "iTopIndex s" and ?Q = "queueSize s" and ?d = "q_data s" and ?n = "length x"
  let ?sz = "size_bytes ?n" and ?l = "queueSize s - iTopIndex s"
  show ?thesis
  proof (cases "?top + 8 + ?n \<le> ?Q")
    case True
    have "blit (blit ?d ?top ?sz) (?top + 8) x = ring_write ?d ?top (entry x)"
      using blit_append[of ?top ?sz x ?d] ring_write_plain[of ?top "entry x" ?d] True assms(1)
      by (simp add: entry_def)
    with True assms(1) show ?thesis by (simp add: push_data_def push_copies_def Let_def memcpy_in_def)
  next
    case wrap: False
    have split: "blit (blit ?d ?top (take ?l (entry x))) 0 (drop ?l (entry x)) = ring_write ?d ?top (entry x)"
      using ring_write_split[of ?top ?d "entry x"] wrap assms by simp
    show ?thesis
    proof (cases "?l < 8")
      case True
      have e: "take ?l (entry x) = take ?l ?sz" "drop ?l (entry x) = drop ?l ?sz @ x"
        using True by (simp_all add: entry_def)
      have "blit (blit (blit ?d ?top (take ?l ?sz)) 0 (drop ?l ?sz)) (8 - ?l) x = ring_write ?d ?top (entry x)"
        using blit_append[of 0 "drop ?l ?sz" x "blit ?d ?top (take ?l ?sz)"] split wrap assms True
        by (simp add: e)
      moreover have "blit ?d ?top (take ?l ?sz) = (if ?l > 0 then blit ?d ?top (take ?l ?sz) else ?d)"
        using assms by simp
      ultimately show ?thesis
        using wrap True assms by (auto simp: push_data_def push_copies_def Let_def memcpy_in_def split: if_splits)
    next
      case False
      let ?m = "?l - 8"
      have e: "take ?l (entry x) = ?sz @ take ?m x" "drop ?l (entry x) = drop ?m x"
        using False by (simp_all add: entry_def)
      have b: "blit (blit ?d ?top ?sz) (?top + 8) (take ?m x) = blit ?d ?top (take ?l (entry x))"
        using blit_append[of ?top ?sz "take ?m x" ?d] False assms wrap by (simp add: e(1))
      have m1: "memcpy_in ?top ?sz ?d = Inr (blit ?d ?top ?sz)"
        using False assms(1,2) by (simp add: memcpy_in_def)
      have m2: "run_copies ((if ?m > 0 then [(?top + 8, take ?m x)] else []) @ cs) (blit ?d ?top ?sz) =
          run_copies cs (blit ?d ?top (take ?l (entry x)))" for cs
      proof (cases "?m > 0")
        case True
        have "?top + 8 + length (take ?m x) \<le> length (blit ?d ?top ?sz)"
          using False assms(1,2) by simp
        with True b show ?thesis by (simp add: memcpy_in_def)
      qed (simp add: e(1))
      have m3: "memcpy_in 0 (drop ?m x) (blit ?d ?top (take ?l (entry x))) =
          Inr (ring_write ?d ?top (entry x))"
        using split assms by (simp add: memcpy_in_def e(2))
      have "?n - ?m = ?top + 8 + ?n - ?Q" using False wrap by simp
      then show ?thesis
        unfolding push_data_def push_copies_def Let_def using wrap False
        by (simp only: m1 m2 m3 bindE_simps if_False prod.case run_copies.simps)
    qed
  qed
qed

lemma pop_data_ring:
  assumes "length (q_data s) = queueSize s" "iBotIndex s \<le> queueSize s" "8 + length x \<le> queueSize s"
    "ring_read (q_data s) (iBotIndex s) (8 + length x) = entry x" "length x < 2 ^ 64"
  shows "pop_data s = Inr (x,
    if iBotIndex s + 8 + length x \<le> queueSize s then iBotIndex s + 8 + length x
    else iBotIndex s + 8 + length x - queueSize s)"
proof -
  let ?bot = "iBotIndex s" and ?Q = "queueSize s" and ?d = "q_data s" and ?n = "length x"
  note r = ring_read_parts[OF assms(4)[unfolded entry_def] length_size_bytes]
  have sz: "size_val (ring_read ?d ?bot 8) = ?n" using r(1) assms(5) by simp
  show ?thesis
  proof (cases "?bot + 8 \<le> ?Q")
    case True
    have m1: "memcpy_out ?bot 8 ?d = Inr (ring_read ?d ?bot 8)"
      using True assms(1) ring_read_plain[of ?bot 8 ?d] by (simp add: memcpy_out_def)
    show ?thesis
    proof (cases "?bot + 8 + ?n \<le> ?Q")
      case fits: True
      have "memcpy_out (?bot + 8) ?n ?d = Inr x"
        using fits assms(1) ring_read_plain[of "?bot + 8" ?n ?d] r(2) by (simp add: memcpy_out_def)
      with True fits show ?thesis by (simp add: pop_data_def Let_def m1 sz)
    next
      case False
      let ?l = "?Q - ?bot - 8"
      have "take (?Q - (?bot + 8)) (drop (?bot + 8) ?d) @ take (?n - (?Q - (?bot + 8))) ?d = x"
        using ring_read_split[of "?bot + 8" ?d ?n] True False assms r(2) by simp
      moreover have "memcpy_out (?bot + 8) ?l ?d = Inr (take ?l (drop (?bot + 8) ?d))"
        "memcpy_out 0 (?n - ?l) ?d = Inr (take (?n - ?l) ?d)"
        using True assms by (simp_all add: memcpy_out_def)
      moreover have "?Q - (?bot + 8) = ?l" "?bot + 8 + ?n - ?Q = ?n - ?l" using True False by simp_all
      ultimately have "bindE (memcpy_out (?bot + 8) ?l ?d) (\<lambda>x. bindE (memcpy_out 0 (?n - ?l) ?d)
          (\<lambda>y. Inr (x @ y, ?n - ?l))) = Inr (x, ?bot + 8 + ?n - ?Q)" by (simp only: bindE_simps)
      with True False show ?thesis
        unfolding pop_data_def Let_def m1 bindE_simps sz by (simp only: if_True if_False)
    qed
  next
    case False
    let ?l = "?Q - ?bot"
    have "take ?l (drop ?bot ?d) @ take (8 - ?l) ?d = ring_read ?d ?bot 8"
      using ring_read_split[of ?bot ?d 8] False assms by simp
    moreover have "memcpy_out ?bot ?l ?d = Inr (take ?l (drop ?bot ?d))"
      "memcpy_out 0 (8 - ?l) ?d = Inr (take (8 - ?l) ?d)"
      using assms by (simp_all add: memcpy_out_def)
    moreover have "memcpy_out (8 - ?l) ?n ?d = Inr x"
    proof -
      have "?bot + 8 = (8 - ?l) + length ?d" using False assms by simp
      then have "ring_read ?d (8 - ?l) ?n = x" using r(2) ring_read_mod[of ?d "8 - ?l" ?n] by simp
      moreover have "8 - ?l + ?n \<le> length ?d" using assms False by simp
      ultimately show ?thesis using ring_read_plain[of "8 - ?l" ?n ?d] by (simp add: memcpy_out_def)
    qed
    moreover have "?n + 8 - ?l = ?bot + 8 + ?n - ?Q" "\<not> ?bot + 8 + ?n \<le> ?Q"
      using False assms(2) by simp_all
    ultimately show ?thesis using False
      unfolding pop_data_def Let_def by (simp only: bindE_simps sz if_False)
  qed
qed

section \<open>The operations on the abstract queue\<close>

text \<open>The state after a successful push or pop: the fields are set, the journal is clean.\<close>

definition pushed :: "byte list \<Rightarrow> memq \<Rightarrow> memq" where
  "pushed x s = s\<lparr>q_data := ring_write (q_data s) (iTopIndex s) (entry x),
     iTopIndex := (if iTopIndex s + 8 + length x \<le> queueSize s then iTopIndex s + 8 + length x
                   else iTopIndex s + 8 + length x - queueSize s),
     iPushCount := (iPushCount s + 1) mod 2 ^ 64\<rparr>"

definition popped :: "byte list \<Rightarrow> memq \<Rightarrow> memq" where
  "popped x s = s\<lparr>
     iBotIndex := (if iBotIndex s + 8 + length x \<le> queueSize s then iBotIndex s + 8 + length x
                   else iBotIndex s + 8 + length x - queueSize s),
     iPopCount := (iPopCount s + 1) mod 2 ^ 64\<rparr>"

lemma queueSize_moved [simp]: "queueSize (pushed x s) = queueSize s" "queueSize (popped x s) = queueSize s"
  by (simp_all add: pushed_def popped_def)

text \<open>There is room for \<open>x\<close> when its record leaves at least one byte of the data area free.\<close>

definition memq_room :: "memq \<Rightarrow> byte list list \<Rightarrow> byte list \<Rightarrow> bool" where
  "memq_room s xs x \<longleftrightarrow> length (contents xs) + 8 + length x < queueSize s"

lemma isFull_room: "memq_shape s xs \<Longrightarrow> memq_fits s x \<Longrightarrow> isFull (length x) s \<longleftrightarrow> \<not> memq_room s xs x"
  using contents_nonempty[of xs]
  by (cases "xs = []") (auto simp: memq_shape_def memq_fits_def memq_room_def isFull_def split: if_splits)

lemma not_full_room:
  assumes "memq_shape s xs" "memq_fits s x" "\<not> isFull (length x) s"
  shows "length (contents xs) + 8 + length x < queueSize s"
  using isFull_room[OF assms(1,2)] assms(3) by (simp add: memq_room_def)

lemma top_le: "memq_shape s xs \<Longrightarrow> iTopIndex s \<le> queueSize s"
  by (auto simp: memq_shape_def)

lemma pushed_shape:
  assumes "memq_shape s xs" "length (contents xs) + 8 + length x < queueSize s" "length x < 2 ^ 64"
  shows "memq_shape (pushed x s) (xs @ [x])"
proof -
  let ?Q = "queueSize s" and ?u = "length (contents xs)" and ?bot = "iBotIndex s"
  let ?d = "q_data s"
  have s: "length ?d = ?Q" "?u < ?Q" "?bot \<le> ?Q" "ring_read ?d ?bot ?u = contents xs"
    "iTopIndex s = (if ?bot + ?u \<le> ?Q then ?bot + ?u else ?bot + ?u - ?Q)"
    "list_all (\<lambda>x. length x < 2 ^ 64) xs"
    using assms(1) by (simp_all add: memq_shape_def)
  have w: "ring_write ?d (iTopIndex s) (entry x) = ring_write ?d (?bot + ?u) (entry x)"
    using s(1,5) ring_write_mod[of ?d "?bot + ?u - ?Q" "entry x"] by (auto split: if_splits)
  have "length (entry x) \<le> length ?d" "?u + length (entry x) \<le> length ?d"
    using assms(2) s(1) by simp_all
  then have r: "ring_read (ring_write ?d (?bot + ?u) (entry x)) ?bot (?u + length (entry x)) = contents xs @ entry x"
    by (simp only: ring_read_append ring_read_other ring_read_write s(4))
  have q: "q_data (pushed x s) = ring_write ?d (?bot + ?u) (entry x)"
    "iBotIndex (pushed x s) = ?bot" "length (q_data (pushed x s)) = ?Q"
    "iTopIndex (pushed x s) = (if iTopIndex s + 8 + length x \<le> ?Q then iTopIndex s + 8 + length x
       else iTopIndex s + 8 + length x - ?Q)"
    using s(1) by (simp_all add: pushed_def w)
  show ?thesis
    unfolding memq_shape_def queueSize_moved q(1-4) contents_simps
    using assms(2,3) s r by (simp add: s(5) add.assoc)
qed

lemma popped_shape:
  assumes "memq_shape s (x # xs)"
  shows "memq_shape (popped x s) xs"
proof -
  let ?Q = "queueSize s" and ?n = "length (entry x)" and ?u = "length (contents xs)" and ?bot = "iBotIndex s"
  let ?d = "q_data s"
  have s: "length ?d = ?Q" "?n + ?u < ?Q" "?bot \<le> ?Q" "ring_read ?d ?bot (?n + ?u) = entry x @ contents xs"
    "iTopIndex s = (if ?bot + (?n + ?u) \<le> ?Q then ?bot + (?n + ?u) else ?bot + (?n + ?u) - ?Q)"
    "list_all (\<lambda>x. length x < 2 ^ 64) xs"
    using assms by (simp_all only: memq_shape_def contents_simps length_append list.pred_inject(2))
  have "ring_read ?d (?bot + ?n) ?u = contents xs" by (rule ring_read_parts(2)[OF s(4) refl])
  moreover have "ring_read ?d (?bot + ?n - ?Q) ?u = ring_read ?d (?bot + ?n) ?u" if "?Q < ?bot + ?n"
    using that s(1) ring_read_mod[of ?d "?bot + ?n - ?Q" ?u] by simp
  ultimately show ?thesis
    using s by (auto simp: memq_shape_def popped_def add.assoc)
qed

lemma pushed_rep:
  assumes "memq_rep s xs" "length (contents xs) + 8 + length x < queueSize s" "length x < 2 ^ 64"
  shows "memq_rep (pushed x s) (xs @ [x])"
  using assms pushed_shape[of s xs x]
  by (auto simp: memq_rep_def journal_clean_def pushed_def mod_simps)

lemma popped_rep:
  assumes "memq_rep s (x # xs)"
  shows "memq_rep (popped x s) xs"
proof -
  have "((iPopCount s + 1) mod 2 ^ 64 + length xs) mod 2 ^ 64 = (iPopCount s + length (x # xs)) mod 2 ^ 64"
    by (simp add: mod_simps)
  with assms popped_shape[of s x xs] show ?thesis
    by (auto simp: memq_rep_def journal_clean_def popped_def simp del: length_Cons)
qed

text \<open>Only the journal entries differ, which nothing reads before they are rewritten.\<close>

lemma memq_rep_entries: "memq_rep s xs \<Longrightarrow> length ds = 5 \<Longrightarrow> memq_rep (s\<lparr>stModifyData := ds\<rparr>) xs"
  by (auto simp: memq_rep_def journal_clean_def memq_shape_def)

lemma memq_fits_size: "queueSize s' = queueSize s \<Longrightarrow> memq_fits s' = memq_fits s"
  by (simp add: memq_fits_def fun_eq_iff)

lemma memq_room_size: "queueSize s' = queueSize s \<Longrightarrow> memq_room s' = memq_room s"
  by (simp add: memq_room_def fun_eq_iff)

lemma journal_commit:
  assumes "journal_clean s"
  shows "bindE (update f v s) (update g w) = Inr (s\<lparr>cModifyStatus := 1,
      stModifyData := (stModifyData s)[0 := Some (f, v), 1 := Some (g, w)], iNowIndex := 2\<rparr>)"
    and "doUpdate True (s\<lparr>cModifyStatus := 1,
      stModifyData := (stModifyData s)[0 := Some (f, v), 1 := Some (g, w)], iNowIndex := 2\<rparr>) =
      (set_field g w (set_field f v s))\<lparr>
        stModifyData := (stModifyData s)[0 := Some (f, v), 1 := Some (g, w)]\<rparr>"
proof -
  have two: "[0..<2] = [0, 1 :: nat]" by (simp add: upt_rec)
  show "bindE (update f v s) (update g w) = Inr (s\<lparr>cModifyStatus := 1,
      stModifyData := (stModifyData s)[0 := Some (f, v), 1 := Some (g, w)], iNowIndex := 2\<rparr>)"
    using assms by (simp add: update_def journal_clean_def Let_def)
  have "set_field h u (s'\<lparr>cModifyStatus := a\<rparr>) = (set_field h u s')\<lparr>cModifyStatus := a\<rparr>"
    "set_field h u (s'\<lparr>iNowIndex := a\<rparr>) = (set_field h u s')\<lparr>iNowIndex := a\<rparr>"
    "set_field h u (s'\<lparr>stModifyData := ds\<rparr>) = (set_field h u s')\<lparr>stModifyData := ds\<rparr>"
    "iNowIndex (set_field h u s') = iNowIndex s'" "cModifyStatus (set_field h u s') = cModifyStatus s'"
    "stModifyData (set_field h u s') = stModifyData s'" for h u s' a ds
    by (cases h; simp)+
  with assms show "doUpdate True (s\<lparr>cModifyStatus := 1,
      stModifyData := (stModifyData s)[0 := Some (f, v), 1 := Some (g, w)], iNowIndex := 2\<rparr>) =
      (set_field g w (set_field f v s))\<lparr>
        stModifyData := (stModifyData s)[0 := Some (f, v), 1 := Some (g, w)]\<rparr>"
    by (simp add: doUpdate_def Let_def two apply_entry_def journal_clean_def)
qed

lemma update_count: "update f v s = Inr s' \<Longrightarrow> iPushCount s' = iPushCount s \<and> iPopCount s' = iPopCount s"
  by (auto simp: update_def Let_def split: if_splits)

lemma push_back_room:
  assumes "memq_rep s xs" "\<not> isFull (length x) s" "8 + length x \<le> queueSize s"
  shows "push_back x s = Inr (True, (pushed x s)\<lparr>stModifyData := (stModifyData s)
      [0 := Some (TopIndex, iTopIndex (pushed x s)), 1 := Some (PushCount, iPushCount (pushed x s))]\<rparr>)"
proof -
  have j: "journal_clean s" and sh: "memq_shape s xs" using assms(1) by (auto simp: memq_rep_def)
  then have l: "length (q_data s) = queueSize s" by (simp add: memq_shape_def)
  note p = push_data_ring[OF l top_le[OF sh] assms(3)]
  let ?s = "s\<lparr>q_data := ring_write (q_data s) (iTopIndex s) (entry x)\<rparr>"
  have j': "journal_clean ?s" using j by (simp add: journal_clean_def)
  obtain s1 where s1: "update TopIndex (iTopIndex (pushed x s)) ?s = Inr s1" "iPushCount s1 = iPushCount s"
    using j' by (auto simp: update_def journal_clean_def Let_def)
  have "push_back x s = bindE (update TopIndex (iTopIndex (pushed x s)) ?s) (\<lambda>s1.
      bindE (update PushCount ((iPushCount s1 + 1) mod 2 ^ 64) s1) (\<lambda>s. Inr (True, doUpdate True s)))"
    using j assms(2) by (simp add: push_back_def Let_def p pushed_def)
  also have "\<dots> = bindE (bindE (update TopIndex (iTopIndex (pushed x s)) ?s)
      (update PushCount (iPushCount (pushed x s)))) (\<lambda>s. Inr (True, doUpdate True s))"
    by (simp add: s1, simp add: pushed_def)
  also have "\<dots> = Inr (True, (pushed x s)\<lparr>stModifyData := (stModifyData s)
      [0 := Some (TopIndex, iTopIndex (pushed x s)), 1 := Some (PushCount, iPushCount (pushed x s))]\<rparr>)"
    unfolding journal_commit(1)[OF j'] bindE_simps journal_commit(2)[OF j'] by (simp add: pushed_def)
  finally show ?thesis .
qed

lemma push_back_full:
  "journal_clean s \<Longrightarrow> isFull (length x) s \<Longrightarrow> push_back x s = Inr (False, s)"
  by (simp add: push_back_def)

lemma pop_front_some:
  assumes "memq_rep s (x # xs)"
  shows "pop_front s = Inr (Some x, (popped x s)\<lparr>stModifyData := (stModifyData s)
      [0 := Some (BotIndex, iBotIndex (popped x s)), 1 := Some (PopCount, iPopCount (popped x s))]\<rparr>)"
proof -
  have j: "journal_clean s" and sh: "memq_shape s (x # xs)" using assms by (auto simp: memq_rep_def)
  have s: "length (q_data s) = queueSize s" "iBotIndex s \<le> queueSize s" "8 + length x \<le> queueSize s"
    "length x < 2 ^ 64" using sh by (simp_all add: memq_shape_def)
  have r: "ring_read (q_data s) (iBotIndex s) (8 + length x) = entry x"
    using sh ring_read_parts(1)[of "q_data s" "iBotIndex s" "8 + length x" "length (contents xs)" "entry x" "contents xs"]
    by (simp add: memq_shape_def)
  have ne: "\<not> isEmpty s" using sh by (auto simp: memq_shape_def isEmpty_def)
  note p = pop_data_ring[OF s(1-3) r s(4)]
  obtain s1 where s1: "update BotIndex (iBotIndex (popped x s)) s = Inr s1" "iPopCount s1 = iPopCount s"
    using j by (auto simp: update_def journal_clean_def Let_def)
  have "pop_front s = bindE (update BotIndex (iBotIndex (popped x s)) s) (\<lambda>s1.
      bindE (update PopCount ((iPopCount s1 + 1) mod 2 ^ 64) s1) (\<lambda>s. Inr (Some x, doUpdate True s)))"
    using j ne by (simp add: pop_front_def Let_def p popped_def)
  also have "\<dots> = bindE (bindE (update BotIndex (iBotIndex (popped x s)) s)
      (update PopCount (iPopCount (popped x s)))) (\<lambda>s. Inr (Some x, doUpdate True s))"
    by (simp add: s1, simp add: popped_def)
  also have "\<dots> = Inr (Some x, (popped x s)\<lparr>stModifyData := (stModifyData s)
      [0 := Some (BotIndex, iBotIndex (popped x s)), 1 := Some (PopCount, iPopCount (popped x s))]\<rparr>)"
    unfolding journal_commit(1)[OF j] bindE_simps journal_commit(2)[OF j] by (simp add: popped_def)
  finally show ?thesis .
qed

lemma pop_front_none: "memq_rep s [] \<Longrightarrow> pop_front s = Inr (None, s)"
  by (auto simp: memq_rep_def memq_shape_def pop_front_def isEmpty_def)

interpretation memq: fifo_queue push_back pop_front memq_rep memq_fits memq_room
proof unfold_locales
  fix s xs x
  assume rep: "memq_rep s xs" and fits: "memq_fits s x"
  have j: "journal_clean s" and sh: "memq_shape s xs" using rep by (auto simp: memq_rep_def)
  note full = isFull_room[OF sh fits]
  show "\<exists>s'. push_back x s = Inr (memq_room s xs x, s') \<and> memq_rep s' (if memq_room s xs x then xs @ [x] else xs) \<and>
      memq_fits s' = memq_fits s \<and> memq_room s' = memq_room s"
  proof (cases "isFull (length x) s")
    case True
    with j rep full show ?thesis by (intro exI[of _ s]) (simp add: push_back_full)
  next
    case False
    have room: "length (contents xs) + 8 + length x < queueSize s"
      using not_full_room[OF sh fits False] .
    have "8 + length x \<le> queueSize s" using fits by (simp add: memq_fits_def)
    note p = push_back_room[OF rep False this]
    have "memq_rep (pushed x s) (xs @ [x])"
      using pushed_rep[OF rep room] fits by (simp add: memq_fits_def)
    moreover have "memq_room s xs x" using full False by simp
    ultimately show ?thesis using j unfolding p
      by (simp only: if_True, intro exI conjI[OF refl]) (auto intro!: memq_rep_entries memq_fits_size memq_room_size simp: journal_clean_def)
  qed
next
  fix s and xs :: "byte list list"
  assume rep: "memq_rep s xs"
  then have j: "journal_clean s" by (simp add: memq_rep_def)
  show "\<exists>s'. pop_front s = Inr (if xs = [] then None else Some (hd xs), s') \<and> memq_rep s' (tl xs) \<and>
      memq_fits s' = memq_fits s \<and> memq_room s' = memq_room s"
  proof (cases xs)
    case Nil
    with rep show ?thesis by (auto simp: pop_front_none)
  next
    case (Cons x ys)
    note p = pop_front_some[OF rep[unfolded Cons]]
    have "memq_rep (popped x s) ys" using popped_rep rep Cons by simp
    then show ?thesis using j unfolding Cons p
      by (auto intro!: exI memq_rep_entries memq_fits_size memq_room_size simp: journal_clean_def)
  qed
qed

section \<open>A process killed in the middle of an operation\<close>

text \<open>
  The stores of an operation, in their order: the bytes of the copies one by one, the fields
  of the control block, the status, the entries and the index of the journal.
\<close>

datatype mem_store =
    SByte nat byte
  | SField ctrl_field nat
  | SStatus nat
  | SEntry nat "ctrl_field \<times> nat"
  | SNow nat

fun exec_store :: "mem_store \<Rightarrow> memq \<Rightarrow> memq" where
  "exec_store (SByte p b) s = s\<lparr>q_data := (q_data s)[p := b]\<rparr>"
| "exec_store (SField f v) s = set_field f v s"
| "exec_store (SStatus n) s = s\<lparr>cModifyStatus := n\<rparr>"
| "exec_store (SEntry i e) s = s\<lparr>stModifyData := (stModifyData s)[i := Some e]\<rparr>"
| "exec_store (SNow n) s = s\<lparr>iNowIndex := n\<rparr>"

definition copy_stores :: "(nat \<times> byte list) list \<Rightarrow> mem_store list" where
  "copy_stores cs = concat (List.map (\<lambda>(pos, bs). List.map (\<lambda>j. SByte (pos + j) (bs ! j)) [0..<length bs]) cs)"

text \<open>Two calls of \<open>update\<close> and \<open>doUpdate(true)\<close>.\<close>

definition journal_stores :: "ctrl_field \<times> nat \<Rightarrow> ctrl_field \<times> nat \<Rightarrow> mem_store list" where
  "journal_stores e1 e2 =
     [SStatus 1, SEntry 0 e1, SNow 1, SStatus 1, SEntry 1 e2, SNow 2,
      SStatus 2, SField (fst e1) (snd e1), SField (fst e2) (snd e2), SNow 0, SStatus 0]"

definition push_stores :: "byte list \<Rightarrow> memq \<Rightarrow> mem_store list" where
  "push_stores x s =
     (case push_copies x s of (cs, newTop) \<Rightarrow>
        copy_stores cs @ journal_stores (TopIndex, newTop) (PushCount, (iPushCount s + 1) mod 2 ^ 64))"

definition pop_stores :: "nat \<Rightarrow> memq \<Rightarrow> mem_store list" where
  "pop_stores newBot s = journal_stores (BotIndex, newBot) (PopCount, (iPopCount s + 1) mod 2 ^ 64)"

text \<open>The memory when only the first \<open>k\<close> stores were executed.\<close>

definition killed_after :: "nat \<Rightarrow> mem_store list \<Rightarrow> memq \<Rightarrow> memq" where
  "killed_after k stores s = fold exec_store (take k stores) s"

lemma fold_copy_one:
  "pos + length bs \<le> length (q_data s) \<Longrightarrow>
   fold exec_store (List.map (\<lambda>j. SByte (pos + j) (bs ! j)) [0..<length bs]) s =
   s\<lparr>q_data := blit (q_data s) pos bs\<rparr>"
proof (induction bs rule: rev_induct)
  case (snoc b bs)
  let ?d = "blit (q_data s) pos bs"
  have e: "List.map (\<lambda>j. SByte (pos + j) ((bs @ [b]) ! j)) [0..<length (bs @ [b])] =
      List.map (\<lambda>j. SByte (pos + j) (bs ! j)) [0..<length bs] @ [SByte (pos + length bs) b]"
    by (simp add: nth_append)
  have "?d[pos + length bs := b] = blit (q_data s) pos (bs @ [b])"
    using snoc.prems by (intro nth_equalityI) (auto simp: nth_blit nth_append nth_list_update)
  then show ?case unfolding e fold_append comp_apply using snoc by simp
qed simp

lemma fold_copies:
  "run_copies cs (q_data s) = Inr d \<Longrightarrow> fold exec_store (copy_stores cs) s = s\<lparr>q_data := d\<rparr>"
proof (induction cs arbitrary: s)
  case Nil
  then show ?case by (simp add: copy_stores_def)
next
  case (Cons c cs)
  obtain pos bs where c: "c = (pos, bs)" by (meson surj_pair)
  from Cons.prems have le: "pos + length bs \<le> length (q_data s)"
    and r: "run_copies cs (blit (q_data s) pos bs) = Inr d"
    by (auto simp: c memcpy_in_def split: if_splits)
  have "copy_stores (c # cs) = List.map (\<lambda>j. SByte (pos + j) (bs ! j)) [0..<length bs] @ copy_stores cs"
    by (simp add: copy_stores_def c)
  with Cons.IH[of "s\<lparr>q_data := blit (q_data s) pos bs\<rparr>"] r show ?case
    by (simp add: fold_copy_one[OF le])
qed

text \<open>
  The journal: however many of its stores were executed, \<open>doUpdate\<close> finds none or both of
  the fields changed. Only the entries, which are rewritten before they are read, differ.
\<close>

lemma set_field_commute [simp]:
  "set_field h u (s\<lparr>cModifyStatus := a\<rparr>) = (set_field h u s)\<lparr>cModifyStatus := a\<rparr>"
  "set_field h u (s\<lparr>iNowIndex := a\<rparr>) = (set_field h u s)\<lparr>iNowIndex := a\<rparr>"
  "set_field h u (s\<lparr>stModifyData := ds\<rparr>) = (set_field h u s)\<lparr>stModifyData := ds\<rparr>"
  "iNowIndex (set_field h u s) = iNowIndex s" "cModifyStatus (set_field h u s) = cModifyStatus s"
  "stModifyData (set_field h u s) = stModifyData s"
  by (cases h; simp)+

lemma set_field_twice [simp]:
  "set_field g w (set_field f v (set_field g w (set_field f v s))) = set_field g w (set_field f v s)"
  "set_field g w (set_field f v (set_field f v s)) = set_field g w (set_field f v s)"
  by (cases f; cases g; simp)+

lemma journal_atomic:
  assumes "journal_clean s"
  shows "\<exists>ds. length ds = 5 \<and>
    (doUpdate False (killed_after k (journal_stores (f, v) (g, w)) s) = s\<lparr>stModifyData := ds\<rparr> \<or>
     doUpdate False (killed_after k (journal_stores (f, v) (g, w)) s) =
       (set_field g w (set_field f v s))\<lparr>stModifyData := ds\<rparr>)"
proof -
  have s: "s\<lparr>stModifyData := ds, iNowIndex := 0, cModifyStatus := 0\<rparr> = s\<lparr>stModifyData := ds\<rparr>" for ds
    using assms by (simp add: journal_clean_def)
  have two: "[0..<2] = [0, 1 :: nat]" by (simp add: upt_rec)
  have "k = 0 \<or> k \<in> {1, 2, 3, 4, 5, 6} \<or> k \<in> {7, 8, 9, 10} \<or> k \<ge> 11"
    unfolding insert_iff empty_iff by arith
  then consider "k = 0" | "k \<in> {1, 2, 3, 4, 5, 6}" | "k \<in> {7, 8, 9, 10}" | "k \<ge> 11" by blast
  then show ?thesis
  proof cases
    case 1
    with assms show ?thesis by (intro exI[of _ "stModifyData s"]) (simp add: killed_after_def journal_clean_def doUpdate_def)
  next
    case 2
    with assms show ?thesis
      by (intro exI[of _ "replicate 5 None"])
        (auto simp: killed_after_def journal_stores_def doUpdate_def Let_def journal_clean_def)
  next
    case 3
    let ?ds = "(stModifyData s)[0 := Some (f, v), 1 := Some (g, w)]"
    from 3 assms show ?thesis
      by (intro exI[of _ ?ds])
        (auto simp: killed_after_def journal_stores_def doUpdate_def Let_def journal_clean_def two apply_entry_def)
  next
    case 4
    let ?ds = "(stModifyData s)[0 := Some (f, v), 1 := Some (g, w)]"
    from 4 assms show ?thesis
      by (intro exI[of _ ?ds])
        (auto simp: killed_after_def journal_stores_def doUpdate_def Let_def journal_clean_def)
  qed
qed

text \<open>The bytes a push stores lie outside the part of the region in use.\<close>

lemma copy_stores_iff:
  "st \<in> set (copy_stores cs) \<longleftrightarrow>
     (\<exists>pos bs j. (pos, bs) \<in> set cs \<and> j < length bs \<and> st = SByte (pos + j) (bs ! j))"
  by (force simp: copy_stores_def)

lemma push_stores_region:
  assumes "iTopIndex s \<le> queueSize s" "8 + length x \<le> queueSize s"
    "st \<in> set (copy_stores (fst (push_copies x s)))"
  shows "\<exists>i b. i < 8 + length x \<and> st = SByte ((iTopIndex s + i) mod queueSize s) b"
proof -
  let ?t = "iTopIndex s" and ?Q = "queueSize s"
  from assms(3) obtain pos bs j where c: "(pos, bs) \<in> set (fst (push_copies x s))" "j < length bs"
    and st: "st = SByte (pos + j) (bs ! j)" by (auto simp: copy_stores_iff)
  have wrap: "p = (?t + i) mod ?Q" if "?t + i = p + ?Q" "p < ?Q" for p i using that by simp
  have flat: "p = (?t + i) mod ?Q" if "?t + i = p" "p < ?Q" for p i using that by simp
  have "\<exists>i. i < 8 + length x \<and> pos + j = (?t + i) mod ?Q"
  proof (cases "?t + 8 + length x \<le> ?Q")
    case True
    with c have "(pos = ?t \<and> length bs = 8) \<or> (pos = ?t + 8 \<and> length bs = length x)"
      by (auto simp: push_copies_def Let_def)
    with c(2) True show ?thesis by (intro exI[of _ "pos + j - ?t"] conjI flat) auto
  next
    case no: False
    show ?thesis
    proof (cases "?Q - ?t < 8")
      case True
      with no c have "(pos = ?t \<and> length bs = ?Q - ?t) \<or> (pos = 0 \<and> length bs = 8 - (?Q - ?t)) \<or>
          (pos = 8 - (?Q - ?t) \<and> length bs = length x)"
        by (auto simp: push_copies_def Let_def split: if_splits)
      then consider "pos = ?t" "length bs = ?Q - ?t" | "pos + length bs \<le> 8 - (?Q - ?t) + length x" by auto
      then show ?thesis
      proof cases
        case 1
        with c(2) True show ?thesis by (intro exI[of _ j] conjI flat) auto
      next
        case 2
        with c(2) True assms(1,2) show ?thesis by (intro exI[of _ "pos + j + (?Q - ?t)"] conjI wrap) auto
      qed
    next
      case False
      with no c have "(pos = ?t \<and> length bs = 8) \<or> (pos = ?t + 8 \<and> length bs \<le> ?Q - ?t - 8) \<or>
          (pos = 0 \<and> length bs = length x - (?Q - ?t - 8))"
        by (auto simp: push_copies_def Let_def split: if_splits)
      then consider "pos \<ge> ?t" "pos + length bs \<le> ?Q" | "pos = 0" "length bs = length x - (?Q - ?t - 8)"
        using False assms(1) by fastforce
      then show ?thesis
      proof cases
        case 1
        with c(2) no show ?thesis by (intro exI[of _ "pos + j - ?t"] conjI flat) auto
      next
        case 2
        with c(2) False assms(1,2) show ?thesis by (intro exI[of _ "j + (?Q - ?t)"] conjI wrap) auto
      qed
    qed
  qed
  with st show ?thesis by auto
qed

lemma ring_read_update:
  assumes "length d = Q" "u \<le> i" "i < Q" "n \<le> u"
  shows "ring_read (d[(b + i) mod Q := v]) b n = ring_read d b n"
proof -
  have "(b + i) mod Q \<noteq> (b + j) mod Q" if "j < n" for j
  proof
    assume "(b + i) mod Q = (b + j) mod Q"
    then have "(b + i + (Q - b mod Q)) mod Q = (b + j + (Q - b mod Q)) mod Q" by (rule mod_add_cong) simp
    moreover have "(b + k + (Q - b mod Q)) mod Q = k mod Q" for k
    proof -
      have "b mod Q < Q" using assms by simp
      moreover have "Q * (b div Q) + b mod Q = b" by (rule mult_div_mod_eq)
      ultimately have "b + k + (Q - b mod Q) = k + Q * (b div Q + 1)"
        unfolding distrib_left mult_1_right by linarith
      then show ?thesis by (simp only: mod_mult_self2)
    qed
    ultimately show False using assms that by simp
  qed
  with assms show ?thesis by (auto simp: ring_read_def intro!: nth_list_update_neq)
qed

lemma partial_copies_rep:
  assumes "memq_rep s xs" "length (contents xs) + 8 + length x < queueSize s"
    "set sts \<subseteq> set (copy_stores (fst (push_copies x s)))"
  shows "memq_rep (fold exec_store sts s) xs"
proof -
  have sh: "memq_shape s xs" using assms(1) by (simp add: memq_rep_def)
  let ?Q = "queueSize s" and ?u = "length (contents xs)" and ?b = "iBotIndex s"
  have top: "iTopIndex s mod ?Q = (?b + ?u) mod ?Q"
    using sh by (auto simp: memq_shape_def mod_if)
  have st: "\<exists>i v. ?u \<le> i \<and> i < ?Q \<and> st = SByte ((?b + i) mod ?Q) v" if "st \<in> set sts" for st
  proof -
    from push_stores_region[OF top_le[OF sh], of x st] that assms(2,3) obtain i v where
      i: "i < 8 + length x" "st = SByte ((iTopIndex s + i) mod ?Q) v" by auto
    have "(iTopIndex s + i) mod ?Q = (?b + (?u + i)) mod ?Q"
      using mod_add_left_eq[of "iTopIndex s" ?Q i] mod_add_left_eq[of "?b + ?u" ?Q i] top
      by (simp add: add.assoc)
    with i assms(2) show ?thesis by (intro exI[of _ "?u + i"] exI[of _ v]) simp
  qed
  have "memq_rep (fold exec_store sts s') xs"
    if "memq_rep s' xs" "queueSize s' = ?Q" "iBotIndex s' = ?b"
      "\<And>st. st \<in> set sts \<Longrightarrow> \<exists>i v. ?u \<le> i \<and> i < ?Q \<and> st = SByte ((?b + i) mod ?Q) v" for s'
    using that
  proof (induction sts arbitrary: s')
    case (Cons st sts)
    from Cons.prems(4)[of st] obtain i v where i: "?u \<le> i" "i < ?Q" "st = SByte ((?b + i) mod ?Q) v" by auto
    have "length (q_data s') = ?Q" using Cons.prems(1,2) by (simp add: memq_rep_def memq_shape_def)
    note r = ring_read_update[OF this i(1,2) order.refl, of ?b v]
    have "memq_rep (exec_store st s') xs"
      using Cons.prems(1-3) r unfolding i(3) exec_store.simps
      by (auto simp: memq_rep_def journal_clean_def memq_shape_def)
    with Cons.IH[of "exec_store st s'"] Cons.prems show ?case by (simp add: i(3))
  qed simp
  from this[OF assms(1) refl refl st] show ?thesis .
qed

lemma push_back_stores:
  assumes "memq_rep s xs" "memq_fits s x" "\<not> isFull (length x) s"
  shows "push_back x s = Inr (True, fold exec_store (push_stores x s) s)"
proof -
  have j: "journal_clean s" and sh: "memq_shape s xs" using assms(1) by (auto simp: memq_rep_def)
  have l: "length (q_data s) = queueSize s" "8 + length x \<le> queueSize s"
    using sh assms(2) by (simp_all add: memq_shape_def memq_fits_def)
  obtain cs t where c: "push_copies x s = (cs, t)" by (meson surj_pair)
  note p = push_data_ring[OF l(1) top_le[OF sh] l(2)]
  have r: "run_copies cs (q_data s) = Inr (ring_write (q_data s) (iTopIndex s) (entry x))"
    and t: "t = iTopIndex (pushed x s)"
    using p by (simp_all add: push_data_def c pushed_def)
  have "fold exec_store (push_stores x s) s = fold exec_store
      (journal_stores (TopIndex, t) (PushCount, (iPushCount s + 1) mod 2 ^ 64))
      (s\<lparr>q_data := ring_write (q_data s) (iTopIndex s) (entry x)\<rparr>)"
    by (simp add: push_stores_def c fold_copies[OF r])
  also have "\<dots> = (pushed x s)\<lparr>stModifyData := (stModifyData s)
      [0 := Some (TopIndex, iTopIndex (pushed x s)), 1 := Some (PushCount, iPushCount (pushed x s))]\<rparr>"
    using j by (simp add: journal_stores_def t journal_clean_def, simp add: pushed_def)
  finally show ?thesis using push_back_room[OF assms(1,3) l(2)] by simp
qed



text \<open>A new queue over memory whose journal is clean.\<close>

definition fresh_memory :: "nat \<Rightarrow> memq" where
  "fresh_memory n = \<lparr>iMemSize = 0, iTopIndex = 7, iBotIndex = 5, iPushCount = 3, iPopCount = 1,
     cModifyStatus = 0, iNowIndex = 0, stModifyData = replicate 5 None, q_data = replicate n 0\<rparr>"

lemma memq_create_rep:
  assumes "journal_clean s" "length (q_data s) = n" "0 < n"
  shows "\<exists>s'. memq_create (n + control_size + modify_head_size) s = Inr s' \<and> memq_rep s' [] \<and> queueSize s' = n"
  using assms
  by (auto simp: memq_create_def memq_rep_def memq_shape_def journal_clean_def queueSize_def
      control_size_def modify_head_size_def ring_read_def)

definition small_queue :: memq where
  "small_queue = (fresh_memory 30)\<lparr>iMemSize := 164, iTopIndex := 0, iBotIndex := 0, iPushCount := 0,
     iPopCount := 0\<rparr>"

lemma small_queue_created: "memq_create 164 (fresh_memory 30) = Inr small_queue"
  by (simp add: memq_create_def small_queue_def fresh_memory_def control_size_def modify_head_size_def)

lemma small_queue_rep: "memq_rep small_queue []"
  by (simp add: small_queue_def fresh_memory_def memq_rep_def memq_shape_def journal_clean_def
      queueSize_def control_size_def modify_head_size_def ring_read_def)

lemma small_queue_fits: "length x < 22 \<Longrightarrow> memq_fits small_queue x"
  by (simp add: small_queue_def fresh_memory_def memq_fits_def queueSize_def control_size_def
      modify_head_size_def)


text \<open>
  C16. A push that is killed after any number of its stores (a copy may be cut in the middle)
  leaves memory from which the next operation's \<open>doUpdate\<close> restores the queue as it was
  before the push or as it is after it; with all its stores executed the state is the one
  \<open>push_back\<close> returns.
\<close>

theorem memq_push_atomic:
  assumes "memq_rep s xs" "memq_fits s x" "\<not> isFull (length x) s"
  shows "push_back x s = Inr (True, killed_after (length (push_stores x s)) (push_stores x s) s) \<and>
    (memq_rep (doUpdate False (killed_after k (push_stores x s) s)) xs \<or>
     memq_rep (doUpdate False (killed_after k (push_stores x s) s)) (xs @ [x]))"
proof
  show "push_back x s = Inr (True, killed_after (length (push_stores x s)) (push_stores x s) s)"
    using push_back_stores[OF assms] by (simp add: killed_after_def)
  have j: "journal_clean s" and sh: "memq_shape s xs" using assms(1) by (auto simp: memq_rep_def)
  have l: "length (q_data s) = queueSize s" "8 + length x \<le> queueSize s" "length x < 2 ^ 64"
    using sh assms(2) by (simp_all add: memq_shape_def memq_fits_def)
  note room = not_full_room[OF sh assms(2,3)]
  obtain cs t where c: "push_copies x s = (cs, t)" by (meson surj_pair)
  let ?j = "journal_stores (TopIndex, t) (PushCount, (iPushCount s + 1) mod 2 ^ 64)"
  let ?s = "s\<lparr>q_data := ring_write (q_data s) (iTopIndex s) (entry x)\<rparr>"
  note p = push_data_ring[OF l(1) top_le[OF sh] l(2)]
  have r: "run_copies cs (q_data s) = Inr (ring_write (q_data s) (iTopIndex s) (entry x))"
    and t: "set_field PushCount ((iPushCount s + 1) mod 2 ^ 64) (set_field TopIndex t ?s) = pushed x s"
    using p by (simp_all add: push_data_def c pushed_def)
  have sts: "push_stores x s = copy_stores cs @ ?j" by (simp add: push_stores_def c)
  have part: "memq_rep (fold exec_store sts s) xs" if "set sts \<subseteq> set (copy_stores cs)" for sts
    using partial_copies_rep[OF assms(1) room] that c by simp
  show "memq_rep (doUpdate False (killed_after k (push_stores x s) s)) xs \<or>
     memq_rep (doUpdate False (killed_after k (push_stores x s) s)) (xs @ [x])"
  proof (cases "k \<le> length (copy_stores cs)")
    case True
    then have "memq_rep (killed_after k (push_stores x s) s) xs"
      unfolding killed_after_def sts by (simp add: part set_take_subset)
    then show ?thesis by (simp add: memq_rep_def)
  next
    case False
    let ?m = "k - length (copy_stores cs)"
    have k: "killed_after k (push_stores x s) s = killed_after ?m ?j ?s"
      using False by (simp add: killed_after_def sts fold_copies[OF r])
    have s: "memq_rep ?s xs" using part[of "copy_stores cs"] by (simp add: fold_copies[OF r])
    then have "journal_clean ?s" by (simp add: memq_rep_def)
    from journal_atomic[OF this, of ?m TopIndex t PushCount "(iPushCount s + 1) mod 2 ^ 64"]
    obtain ds where "length ds = 5" "doUpdate False (killed_after ?m ?j ?s) = ?s\<lparr>stModifyData := ds\<rparr> \<or>
        doUpdate False (killed_after ?m ?j ?s) = (pushed x s)\<lparr>stModifyData := ds\<rparr>" unfolding t by blast
    then show ?thesis unfolding k
      using memq_rep_entries[OF s] memq_rep_entries[OF pushed_rep[OF assms(1) room l(3)]] by metis
  qed
qed

lemma memq_push_atomic_witness:
  "push_back [1, 2] small_queue =
     Inr (True, killed_after (length (push_stores [1, 2] small_queue)) (push_stores [1, 2] small_queue) small_queue) \<and>
    (memq_rep (doUpdate False (killed_after 13 (push_stores [1, 2] small_queue) small_queue)) [] \<or>
     memq_rep (doUpdate False (killed_after 13 (push_stores [1, 2] small_queue) small_queue)) ([] @ [[1, 2]]))"
  by (rule memq_push_atomic)
    (simp_all add: small_queue_rep small_queue_fits, simp add: small_queue_def isFull_def)

text \<open>
  C17. The same of a pop: killed after any number of its stores, it leaves the element at the
  front of the queue or has removed it.
\<close>

theorem memq_pop_atomic:
  assumes "memq_rep s (x # xs)"
  shows "pop_front s = Inr (Some x, killed_after 11 (pop_stores (iBotIndex (popped x s)) s) s) \<and>
    (memq_rep (doUpdate False (killed_after k (pop_stores (iBotIndex (popped x s)) s) s)) (x # xs) \<or>
     memq_rep (doUpdate False (killed_after k (pop_stores (iBotIndex (popped x s)) s) s)) xs)"
proof
  have j: "journal_clean s" using assms by (simp add: memq_rep_def)
  let ?b = "iBotIndex (popped x s)"
  have p: "set_field PopCount ((iPopCount s + 1) mod 2 ^ 64) (set_field BotIndex ?b s) = popped x s"
    by (simp add: popped_def)
  show "pop_front s = Inr (Some x, killed_after 11 (pop_stores ?b s) s)"
    using j by (simp add: pop_front_some[OF assms] killed_after_def pop_stores_def journal_stores_def
        journal_clean_def, simp add: popped_def)
  from journal_atomic[OF j, of k BotIndex ?b PopCount "(iPopCount s + 1) mod 2 ^ 64"]
  obtain ds where "length ds = 5" "doUpdate False (killed_after k (pop_stores ?b s) s) = s\<lparr>stModifyData := ds\<rparr> \<or>
      doUpdate False (killed_after k (pop_stores ?b s) s) = (popped x s)\<lparr>stModifyData := ds\<rparr>"
    unfolding p pop_stores_def by blast
  then show "memq_rep (doUpdate False (killed_after k (pop_stores ?b s) s)) (x # xs) \<or>
     memq_rep (doUpdate False (killed_after k (pop_stores ?b s) s)) xs"
    using memq_rep_entries[OF assms] memq_rep_entries[OF popped_rep[OF assms]] by metis
qed

definition small_queue_1 :: memq where
  "small_queue_1 = pushed [7, 8] small_queue"

lemma small_queue_1_rep: "memq_rep small_queue_1 [[7, 8]]"
  using pushed_rep[OF small_queue_rep, of "[7, 8]"] small_queue_fits[of "[7, 8]"]
  by (simp add: memq_fits_def small_queue_1_def)

lemma memq_pop_atomic_witness:
  "pop_front small_queue_1 =
     Inr (Some [7, 8], killed_after 11 (pop_stores (iBotIndex (popped [7, 8] small_queue_1)) small_queue_1) small_queue_1) \<and>
    (memq_rep (doUpdate False (killed_after 8 (pop_stores (iBotIndex (popped [7, 8] small_queue_1)) small_queue_1) small_queue_1)) [[7, 8]] \<or>
     memq_rep (doUpdate False (killed_after 8 (pop_stores (iBotIndex (popped [7, 8] small_queue_1)) small_queue_1) small_queue_1)) [])"
  by (rule memq_pop_atomic) (rule small_queue_1_rep)

section \<open>Where the queue does not do what it means to\<close>

text \<open>
  \<open>isFull\<close> is false whenever the queue is empty, whatever the length. An element more than
  twice as long as the data area is written past its end, and one that just fills the area is
  accepted and lost, since the indices are equal afterwards.
\<close>

lemma push_too_long:
  assumes "memq_rep s []" "2 * queueSize s < 8 + length x"
  shows "push_back x s = Inl OutOfBounds"
proof -
  have j: "journal_clean s" and e: "iTopIndex s = iBotIndex s" and l: "length (q_data s) = queueSize s"
    and t: "iTopIndex s \<le> queueSize s"
    using assms(1) by (auto simp: memq_rep_def memq_shape_def)
  from e have nf: "\<not> isFull (length x) s" by (simp add: isFull_def)
  have last: "run_copies (cs @ [(p, bs)]) d = Inl OutOfBounds"
    if "length d < p + length bs" for cs p bs d
    using that by (induction cs arbitrary: d) (auto simp: memcpy_in_def)
  have "\<exists>cs p bs n. push_copies x s = (cs @ [(p, bs)], n) \<and> queueSize s < p + length bs"
    if "\<not> iTopIndex s + 8 + length x \<le> queueSize s"
  proof (cases "queueSize s - iTopIndex s < 8")
    case True
    with that assms(2) t show ?thesis
      by (intro exI[of _ "butlast (fst (push_copies x s))"] exI[of _ "8 - (queueSize s - iTopIndex s)"]
          exI[of _ x] exI[of _ "snd (push_copies x s)"]) (auto simp: push_copies_def Let_def butlast_append)
  next
    case False
    with that assms(2) t show ?thesis
      by (intro exI[of _ "butlast (fst (push_copies x s))"] exI[of _ "0 :: nat"]
          exI[of _ "drop (queueSize s - iTopIndex s - 8) x"] exI[of _ "snd (push_copies x s)"])
        (auto simp: push_copies_def Let_def butlast_append)
  qed
  then have "push_data x s = Inl OutOfBounds"
    using assms(2) last[of "q_data s"] l by (fastforce simp: push_data_def)
  with j nf show ?thesis by (simp add: push_back_def)
qed

lemma push_exact_lost:
  assumes "memq_rep s []" "8 + length x = queueSize s" "0 < iTopIndex s"
  shows "\<exists>s'. push_back x s = Inr (True, s') \<and> isEmpty s' \<and> iPushCount s' \<noteq> iPopCount s'"
proof -
  have s: "journal_clean s" "iTopIndex s = iBotIndex s" "iPushCount s = iPopCount s" "iPopCount s < 2 ^ 64"
    using assms(1) by (auto simp: memq_rep_def memq_shape_def)
  then have "\<not> isFull (length x) s" by (simp add: isFull_def)
  note p = push_back_room[OF assms(1) this]
  have "\<not> iTopIndex s + 8 + length x \<le> queueSize s" "iTopIndex s + 8 + length x - queueSize s = iTopIndex s"
    using assms(2,3) by simp_all
  then have "isEmpty (pushed x s)" using s(2) by (simp add: isEmpty_def pushed_def)
  moreover have "iPushCount (pushed x s) \<noteq> iPopCount (pushed x s)"
    using s(3,4) by (auto simp: pushed_def mod_if)
  ultimately show ?thesis using p assms(2) by (simp add: isEmpty_def)
qed

text \<open>\<open>elementCount\<close> is one too small once \<open>iPushCount\<close> has wrapped around.\<close>

lemma elementCount_value:
  assumes "memq_rep s xs" "length xs < 2 ^ 64"
  shows "elementCount s = (if iPopCount s + length xs < 2 ^ 64 then length xs else length xs - 1)"
proof (cases "iPopCount s + length xs < 2 ^ 64")
  case True
  with assms show ?thesis by (simp add: memq_rep_def elementCount_def)
next
  case False
  then have "(iPopCount s + length xs) mod 2 ^ 64 = iPopCount s + length xs - 2 ^ 64"
    using assms by (auto simp: memq_rep_def mod_if)
  with False assms show ?thesis by (auto simp: memq_rep_def elementCount_def)
qed

text \<open>
  \<open>create\<close> leaves the journal as the memory had it: over memory that is not zero, the first
  operation applies entries nobody wrote.
\<close>

lemma create_keeps_journal:
  "memq_create n s = Inr s' \<Longrightarrow> cModifyStatus s' = cModifyStatus s \<and> iNowIndex s' = iNowIndex s \<and>
     stModifyData s' = stModifyData s"
  by (auto simp: memq_create_def split: if_splits)

end
