(* ===== verification/SQueue.thy ===== *)
theory SQueue
  imports Ring
begin

text \<open>
  \<open>TC_SQueue\<close> (tcinclude/tc_squeue.h): a circular queue for one reader and one writer. The
  operations with their assertions, which never fail from a consistent state, and
  correctness as a first-in first-out queue.
\<close>

section \<open>State\<close>

record squeue =
  iBufSize :: nat
  iReserveLen :: nat
  iBegin :: nat
  iEnd :: nat
  iNum :: nat
  sq_data :: "byte list"

definition MarkLen :: nat where
  "MarkLen = 8"

definition ReserveLen :: nat where
  "ReserveLen = 8"

definition header_size :: nat where
  "header_size = 5 * 8"

definition sq_create :: "nat \<Rightarrow> squeue \<Rightarrow> squeue result" where
  "sq_create n s =
     (if n \<le> header_size + MarkLen + ReserveLen then Inl (Thrown ''TC_Exception'')
      else Inr (s\<lparr>iBufSize := n - header_size, iReserveLen := ReserveLen, iBegin := 0, iEnd := 0,
                  iNum := 0\<rparr>))"

definition sq_attach :: "nat \<Rightarrow> squeue \<Rightarrow> squeue result" where
  "sq_attach n s =
     (if n \<le> header_size + MarkLen + ReserveLen then Inl (Thrown ''TC_Exception'')
      else if iBufSize s \<noteq> n - header_size then Inl (Thrown ''TC_Exception'')
      else if iReserveLen s \<noteq> ReserveLen then Inl (Thrown ''TC_Exception'')
      else if iBegin s \<ge> iBufSize s then Inl (Thrown ''TC_Exception'')
      else if iEnd s > n - header_size then Inl (Thrown ''TC_Exception'')
      else Inr s)"

section \<open>Operations\<close>


definition inc_num :: "squeue \<Rightarrow> squeue" where
  "inc_num s = s\<lparr>iNum := (iNum s + 1) mod 2 ^ 64\<rparr>"

definition check :: "bool \<Rightarrow> 'a result \<Rightarrow> 'a result" where
  "check b r = (if b then r else Inl AssertFail)"




text \<open>Whether \<open>len\<close> more bytes are refused.\<close>

definition no_room :: "nat \<Rightarrow> squeue \<Rightarrow> bool result" where
  "no_room len s =
     (if iEnd s = iBegin s then Inr (MarkLen + len + ReserveLen > iBufSize s)
      else if iEnd s > iBegin s
      then check (iBegin s + MarkLen < iEnd s)
           (Inr (iBufSize s - iEnd s + iBegin s < MarkLen + len + ReserveLen))
      else check (iEnd s + ReserveLen \<le> iBegin s)
           (Inr (iBegin s - iEnd s < MarkLen + len + ReserveLen)))"

definition sq_store :: "byte list \<Rightarrow> squeue \<Rightarrow> squeue result" where
  "sq_store x s =
     (let len = length x; tmp = size_bytes len; B = iBufSize s; e = iEnd s in
      if e + MarkLen > B
      then bindE (memcpy_in e (take (B - e) tmp) (sq_data s)) (\<lambda>d.
           bindE (memcpy_in 0 (take (e + MarkLen - B) (drop (B - e) tmp)) d) (\<lambda>d.
           bindE (memcpy_in (e + MarkLen - B) x d) (\<lambda>d.
           let e' = len + e + MarkLen - B in
           check (e' + ReserveLen \<le> iBegin s) (Inr (inc_num (s\<lparr>sq_data := d, iEnd := e'\<rparr>))))))
      else if e + MarkLen + len > B
      then let n1 = B - e - MarkLen in
           bindE (memcpy_in e tmp (sq_data s)) (\<lambda>d.
           bindE (memcpy_in (e + MarkLen) (take n1 x) d) (\<lambda>d.
           bindE (memcpy_in 0 (drop n1 x) d) (\<lambda>d.
           let e' = len - n1 in
           check (e' + ReserveLen \<le> iBegin s) (Inr (inc_num (s\<lparr>sq_data := d, iEnd := e'\<rparr>))))))
      else bindE (memcpy_in e tmp (sq_data s)) (\<lambda>d.
           bindE (memcpy_in (e + MarkLen) x d) (\<lambda>d.
           Inr (inc_num (s\<lparr>sq_data := d, iEnd := (e + MarkLen + len) mod B\<rparr>)))))"

definition sq_push :: "byte list \<Rightarrow> squeue \<Rightarrow> (bool \<times> squeue) result" where
  "sq_push x s =
     (if length x = 0 then Inr (True, s)
      else let s' = (if iEnd s = iBegin s then s\<lparr>iNum := 0\<rparr> else s) in
           bindE (no_room (length x) s) (\<lambda>refused.
           if refused then Inr (False, s')
           else bindE (sq_store x s') (\<lambda>s. Inr (True, s))))"


definition sq_full :: "nat \<Rightarrow> squeue \<Rightarrow> bool result" where
  "sq_full len s =
     (if len = 0 then Inr False
      else if iEnd s = iBegin s then Inr (len + MarkLen + ReserveLen > iBufSize s)
      else if iEnd s > iBegin s
      then check (iBegin s + MarkLen < iEnd s)
           (Inr (iBufSize s - iEnd s + iBegin s < MarkLen + len + ReserveLen))
      else check (iEnd s + ReserveLen \<le> iBegin s)
           (Inr (iBegin s - iEnd s < MarkLen + len + ReserveLen)))"


section \<open>What a queue holds\<close>

text \<open>The contents never come closer than \<open>ReserveLen\<close> to filling the buffer.\<close>

definition sq_rep :: "squeue \<Rightarrow> byte list list \<Rightarrow> bool" where
  "sq_rep s xs \<longleftrightarrow>
     length (sq_data s) = iBufSize s \<and> 16 < iBufSize s \<and> iBufSize s < 2 ^ 35 \<and>
     iReserveLen s = 8 \<and> iBegin s < iBufSize s \<and>
     length (contents xs) + 8 \<le> iBufSize s \<and>
     iEnd s = (if iBegin s + length (contents xs) < iBufSize s then iBegin s + length (contents xs)
               else iBegin s + length (contents xs) - iBufSize s) \<and>
     ring_read (sq_data s) (iBegin s) (length (contents xs)) = contents xs \<and>
     list_all (\<lambda>x. x \<noteq> []) xs \<and> (xs \<noteq> [] \<longrightarrow> iNum s = length xs)"



lemmas sq_consts = MarkLen_def ReserveLen_def header_size_def check_def

lemma contents_count: "list_all (\<lambda>x. x \<noteq> []) xs \<Longrightarrow> 9 * length xs \<le> length (contents xs)"
  by (induction xs) (auto simp: Suc_le_eq neq_Nil_conv)


text \<open>In every case the room left is the buffer less what is used.\<close>

lemma no_room_iff:
  assumes "sq_rep s xs"
  shows "no_room n s = Inr (iBufSize s < length (contents xs) + 16 + n)"
proof -
  let ?u = "length (contents xs)"
  have s: "iBegin s < iBufSize s" "?u + 8 \<le> iBufSize s"
    "iEnd s = (if iBegin s + ?u < iBufSize s then iBegin s + ?u else iBegin s + ?u - iBufSize s)"
    using assms by (simp_all add: sq_rep_def)
  have u: "?u = 0 \<or> ?u > 8" using assms contents_count[of xs] by (cases xs) (auto simp: sq_rep_def)
  consider "?u = 0" | "8 < ?u" "iBegin s + ?u < iBufSize s" | "8 < ?u" "iBufSize s \<le> iBegin s + ?u"
    using u by linarith
  then show ?thesis
  proof cases
    case 1
    with s show ?thesis by (auto simp: no_room_def sq_consts)
  next
    case 2
    with s show ?thesis by (auto simp: no_room_def sq_consts)
  next
    case 3
    then have "iEnd s = iBegin s + ?u - iBufSize s" "iEnd s < iBegin s" using s by auto
    with 3 s show ?thesis by (auto simp: no_room_def sq_consts)
  qed
qed

text \<open>A store is one write to the circular region.\<close>

lemma sq_store_ring:
  assumes "length (sq_data s) = iBufSize s" "iEnd s < iBufSize s" "16 + length x \<le> iBufSize s"
    "iEnd s + 8 + length x > iBufSize s \<Longrightarrow> iEnd s + 16 + length x \<le> iBegin s + iBufSize s"
  shows "sq_store x s = Inr (inc_num (s\<lparr>sq_data := ring_write (sq_data s) (iEnd s) (entry x),
    iEnd := (if iEnd s + 8 + length x < iBufSize s then iEnd s + 8 + length x
             else iEnd s + 8 + length x - iBufSize s)\<rparr>))"
proof -
  let ?d = "sq_data s" and ?B = "iBufSize s" and ?e = "iEnd s" and ?n = "length x"
  let ?sz = "size_bytes ?n" and ?l = "iBufSize s - iEnd s"
  have split: "blit (blit ?d ?e (take ?l (entry x))) 0 (drop ?l (entry x)) = ring_write ?d ?e (entry x)"
    if "?B < ?e + 8 + ?n" using ring_write_split[of ?e ?d "entry x"] that assms by simp
  consider "?e + 8 > ?B" | "?e + 8 \<le> ?B" "?e + 8 + ?n > ?B" | "?e + 8 + ?n \<le> ?B" by linarith
  then show ?thesis
  proof cases
    case 1
    have e: "take ?l (entry x) = take ?l ?sz" "drop ?l (entry x) = drop ?l ?sz @ x"
      "take (?e + 8 - ?B) (drop ?l ?sz) = drop ?l ?sz"
      using 1 assms(2) by (simp_all add: entry_def)
    have b: "blit (blit (blit ?d ?e (take ?l ?sz)) 0 (drop ?l ?sz)) (8 - ?l) x = ring_write ?d ?e (entry x)"
      using blit_append[of 0 "drop ?l ?sz" x "blit ?d ?e (take ?l ?sz)"] split 1 assms by (simp add: e)
    have p: "?e + 8 - ?B = 8 - ?l" "?n + ?e + 8 - ?B = ?e + 8 + ?n - ?B" using assms(2) by auto
    have m1: "memcpy_in ?e (take ?l ?sz) ?d = Inr (blit ?d ?e (take ?l ?sz))"
      using assms(1,2) by (simp add: memcpy_in_def)
    have m2: "memcpy_in 0 (drop ?l ?sz) (blit ?d ?e (take ?l ?sz)) = Inr (blit (blit ?d ?e (take ?l ?sz)) 0 (drop ?l ?sz))"
      using assms 1 by (simp add: memcpy_in_def)
    have m3: "memcpy_in (8 - ?l) x (blit (blit ?d ?e (take ?l ?sz)) 0 (drop ?l ?sz)) = Inr (ring_write ?d ?e (entry x))"
      using assms 1 b by (simp add: memcpy_in_def)
    have a: "?e + 8 + ?n - ?B + 8 \<le> iBegin s" "\<not> ?e + 8 + ?n < ?B" using assms 1 by auto
    have g: "?B < ?e + 8" using 1 .
    show ?thesis
      unfolding sq_store_def Let_def sq_consts e(3) m1 bindE_simps m2
      by (simp only: g if_True e(3) m1 m2 p(1) m3 bindE_simps p(2) a if_False)
  next
    case 2
    have e: "take ?l (entry x) = ?sz @ take (?l - 8) x" "drop ?l (entry x) = drop (?l - 8) x"
      using 2 by (simp_all add: entry_def)
    have b: "blit (blit ?d ?e ?sz) (?e + 8) (take (?l - 8) x) = blit ?d ?e (take ?l (entry x))"
      using blit_append[of ?e ?sz "take (?l - 8) x" ?d] 2 assms by (simp add: e(1))
    have p: "?n - (?l - 8) = ?e + 8 + ?n - ?B" using 2 by auto
    have m1: "memcpy_in ?e ?sz ?d = Inr (blit ?d ?e ?sz)" using assms 2 by (simp add: memcpy_in_def)
    have m2: "memcpy_in (?e + 8) (take (?l - 8) x) (blit ?d ?e ?sz) = Inr (blit ?d ?e (take ?l (entry x)))"
      using assms 2 b by (simp add: memcpy_in_def)
    have m3: "memcpy_in 0 (drop (?l - 8) x) (blit ?d ?e (take ?l (entry x))) = Inr (ring_write ?d ?e (entry x))"
      using assms 2 split by (simp add: memcpy_in_def e(2))
    have a: "?e + 8 + ?n - ?B + 8 \<le> iBegin s" "\<not> ?e + 8 + ?n < ?B" using assms 2 by auto
    have g: "\<not> ?B < ?e + 8" "?B < ?e + 8 + ?n" using 2 by auto
    show ?thesis
      unfolding sq_store_def Let_def sq_consts
      by (simp only: g if_True if_False m1 m2 m3 bindE_simps p a)
  next
    case 3
    have b: "blit (blit ?d ?e ?sz) (?e + 8) x = ring_write ?d ?e (entry x)"
      using blit_append[of ?e ?sz x ?d] ring_write_plain[of ?e "entry x" ?d] 3 assms(1)
      by (simp add: entry_def)
    have "(?e + 8 + ?n) mod ?B = (if ?e + 8 + ?n < ?B then ?e + 8 + ?n else ?e + 8 + ?n - ?B)"
      using 3 by auto
    with 3 assms(1) b show ?thesis by (simp add: sq_store_def Let_def memcpy_in_def sq_consts)
  qed
qed

definition sq_pushed :: "byte list \<Rightarrow> squeue \<Rightarrow> squeue" where
  "sq_pushed x s = s\<lparr>sq_data := ring_write (sq_data s) (iEnd s) (entry x),
     iEnd := (if iEnd s + 8 + length x < iBufSize s then iEnd s + 8 + length x
              else iEnd s + 8 + length x - iBufSize s),
     iNum := (if iEnd s = iBegin s then 1 else (iNum s + 1) mod 2 ^ 64)\<rparr>"

lemma sq_push_room:
  assumes "sq_rep s xs" "x \<noteq> []"
  shows "sq_push x s = Inr (if iBufSize s < length (contents xs) + 16 + length x
     then (False, if iEnd s = iBegin s then s\<lparr>iNum := 0\<rparr> else s) else (True, sq_pushed x s))"
proof (cases "iBufSize s < length (contents xs) + 16 + length x")
  case True
  with assms(2) show ?thesis by (simp add: sq_push_def no_room_iff[OF assms(1)])
next
  case False
  let ?s = "if iEnd s = iBegin s then s\<lparr>iNum := 0\<rparr> else s"
  have "sq_store x ?s = Inr (inc_num (?s\<lparr>sq_data := ring_write (sq_data ?s) (iEnd ?s) (entry x),
    iEnd := (if iEnd ?s + 8 + length x < iBufSize ?s then iEnd ?s + 8 + length x
             else iEnd ?s + 8 + length x - iBufSize ?s)\<rparr>))"
    by (rule sq_store_ring) (use assms(1) False in \<open>auto simp: sq_rep_def split: if_splits\<close>)
  also have "\<dots> = Inr (sq_pushed x s)" by (simp add: inc_num_def sq_pushed_def)
  finally show ?thesis using False assms(2) by (simp add: sq_push_def no_room_iff[OF assms(1)] Let_def)
qed









text \<open>A push is accepted exactly when \<open>full\<close> is false, and \<open>attach\<close> accepts every consistent state.\<close>

lemma sq_push_not_full:
  "sq_rep s xs \<Longrightarrow> x \<noteq> [] \<Longrightarrow> \<exists>s' b. sq_full (length x) s = Inr b \<and> sq_push x s = Inr (\<not> b, s')"
  using no_room_iff[of s xs "length x"] sq_push_room[of s xs x]
  by (auto simp: sq_full_def no_room_def add.commute split: if_splits)

lemma sq_create_rep:
  assumes "length (sq_data s) + 40 = n" "56 < n" "n < 2 ^ 35"
  shows "\<exists>s'. sq_create n s = Inr s' \<and> sq_rep s' []"
  using assms by (auto simp: sq_create_def sq_consts sq_rep_def ring_read_def)

lemma sq_attach_rep: "sq_rep s xs \<Longrightarrow> sq_attach (iBufSize s + 40) s = Inr s"
  by (auto simp: sq_attach_def sq_consts sq_rep_def)



end
