(* ===== verification/Thread_Queue.thy ===== *)
theory Thread_Queue
  imports Ring
begin

text \<open>
  \<open>TC_ThreadQueue\<close> (tcinclude/tc_thread_queue.h): a deque with its own element counter,
  behind a lock. Each operation is the body of its critical section; a call that waits
  releases the lock, so what the other threads leave behind is a parameter. The counter
  and the deque agree after every operation but \<open>swap\<close>.
\<close>

section \<open>State and operations\<close>

record 'a tqueue =
  t_queue :: "'a list"
  t_size :: nat

text \<open>\<open>(size_t)-1\<close>: wait without a time limit.\<close>

definition forever :: nat where
  "forever = 2 ^ 64 - 1"

text \<open>
  What a waiting thread finds: \<open>woken s\<close> is the state when the condition is notified (by a
  push or by \<open>notifyT\<close>), and \<open>timeout s\<close> tells whether \<open>timedWait\<close> gives up before.
\<close>

definition await_data ::
  "('a tqueue \<Rightarrow> 'a tqueue) \<Rightarrow> ('a tqueue \<Rightarrow> bool) \<Rightarrow> nat \<Rightarrow> 'a tqueue \<Rightarrow> bool \<times> 'a tqueue" where
  "await_data woken timeout millsecond s =
     (if t_queue s = []
      then if millsecond = 0 then (False, s)
           else if millsecond = forever then (True, woken s)
           else if timeout s then (False, s) else (True, woken s)
      else (True, s))"

definition tq_pop_front ::
  "('a tqueue \<Rightarrow> 'a tqueue) \<Rightarrow> ('a tqueue \<Rightarrow> bool) \<Rightarrow> nat \<Rightarrow> 'a tqueue \<Rightarrow> ('a option \<times> 'a tqueue) result" where
  "tq_pop_front woken timeout millsecond s =
     (case await_data woken timeout millsecond s of (go, s) \<Rightarrow>
        if \<not> go \<or> t_queue s = [] then Inr (None, s)
        else if t_size s = 0 then Inl AssertFail
        else Inr (Some (hd (t_queue s)), s\<lparr>t_queue := tl (t_queue s), t_size := t_size s - 1\<rparr>))"

definition tq_push_back :: "'a \<Rightarrow> 'a tqueue \<Rightarrow> 'a tqueue" where
  "tq_push_back x s = s\<lparr>t_queue := t_queue s @ [x], t_size := t_size s + 1\<rparr>"

definition tq_push_back_all :: "'a list \<Rightarrow> 'a tqueue \<Rightarrow> 'a tqueue" where
  "tq_push_back_all qt s = fold tq_push_back qt s"

definition tq_push_front :: "'a \<Rightarrow> 'a tqueue \<Rightarrow> 'a tqueue" where
  "tq_push_front x s = s\<lparr>t_queue := x # t_queue s, t_size := t_size s + 1\<rparr>"

definition tq_push_front_all :: "'a list \<Rightarrow> 'a tqueue \<Rightarrow> 'a tqueue" where
  "tq_push_front_all qt s = fold tq_push_front qt s"

text \<open>The result: whether there was data, the caller's queue \<open>q\<close> and the state after.\<close>

definition tq_swap ::
  "('a tqueue \<Rightarrow> 'a tqueue) \<Rightarrow> ('a tqueue \<Rightarrow> bool) \<Rightarrow> 'a list \<Rightarrow> nat \<Rightarrow> 'a tqueue \<Rightarrow> bool \<times> 'a list \<times> 'a tqueue" where
  "tq_swap woken timeout q millsecond s =
     (case await_data woken timeout millsecond s of (go, s) \<Rightarrow>
        if \<not> go \<or> t_queue s = [] then (False, q, s)
        else let q' = t_queue s; s = s\<lparr>t_queue := q\<rparr> in (True, q', s\<lparr>t_size := length q'\<rparr>))"

definition tq_size :: "'a tqueue \<Rightarrow> nat" where
  "tq_size s = t_size s"

definition tq_clear :: "'a tqueue \<Rightarrow> 'a tqueue" where
  "tq_clear s = s\<lparr>t_queue := [], t_size := 0\<rparr>"

definition tq_empty :: "'a tqueue \<Rightarrow> bool" where
  "tq_empty s \<longleftrightarrow> t_queue s = []"

definition tq_new :: "'a tqueue" where
  "tq_new = \<lparr>t_queue = [], t_size = 0\<rparr>"

section \<open>Correctness\<close>

definition tq_rep :: "'a tqueue \<Rightarrow> 'a list \<Rightarrow> bool" where
  "tq_rep s xs \<longleftrightarrow> t_queue s = xs \<and> t_size s = length xs"

text \<open>Without waiting.\<close>

definition tq_enq :: "'a \<Rightarrow> 'a tqueue \<Rightarrow> (bool \<times> 'a tqueue) result" where
  "tq_enq x s = Inr (True, tq_push_back x s)"

definition tq_deq :: "'a tqueue \<Rightarrow> ('a option \<times> 'a tqueue) result" where
  "tq_deq = tq_pop_front id (\<lambda>_. True) 0"

interpretation tq: fifo_queue tq_enq tq_deq tq_rep "\<lambda>_ _. True" "\<lambda>_ _ _. True"
proof unfold_locales
  show "\<exists>s'. tq_enq x s = Inr (True, s') \<and> tq_rep s' (if True then xs @ [x] else xs) \<and>
      (\<lambda>_. True) = (\<lambda>_. True) \<and> (\<lambda>_ _. True) = (\<lambda>_ _. True)" if "tq_rep s xs" for s xs and x :: 'a
    using that by (simp add: tq_enq_def tq_push_back_def tq_rep_def)
  show "\<exists>s'. tq_deq s = Inr (if xs = [] then None else Some (hd xs), s') \<and> tq_rep s' (tl xs) \<and>
      (\<lambda>_. True) = (\<lambda>_. True) \<and> (\<lambda>_ _. True) = (\<lambda>_ _. True)" if "tq_rep s xs" for s and xs :: "'a list"
    using that by (cases xs) (simp_all add: tq_deq_def tq_pop_front_def await_data_def tq_rep_def)
qed

lemma tq_push_back_all_rep: "tq_rep s xs \<Longrightarrow> tq_rep (tq_push_back_all qt s) (xs @ qt)"
  by (induction qt arbitrary: s xs) (fastforce simp: tq_push_back_all_def tq_push_back_def tq_rep_def)+

lemma tq_push_front_all_rep: "tq_rep s xs \<Longrightarrow> tq_rep (tq_push_front_all qt s) (rev qt @ xs)"
  by (induction qt arbitrary: s xs) (fastforce simp: tq_push_front_all_def tq_push_front_def tq_rep_def)+

text \<open>
  A waiting pop that succeeds returns the front of what the other threads left; whatever they
  did, as long as they kept the counter right it stays right.
\<close>

lemma tq_pop_wait:
  assumes "tq_rep s xs" "xs = [] \<Longrightarrow> tq_rep (woken s) ys"
  shows "\<exists>r s' zs. tq_pop_front woken timeout ms s = Inr (r, s') \<and> tq_rep s' zs \<and>
    (r = None \<or> (\<exists>x. r = Some x \<and> x # zs = (if xs = [] then ys else xs)))"
proof (cases xs)
  case Nil
  with assms show ?thesis
    by (cases ys) (auto simp: tq_pop_front_def await_data_def tq_rep_def)
next
  case (Cons x xs')
  with assms show ?thesis by (auto simp: tq_pop_front_def await_data_def tq_rep_def)
qed

lemma bounded_run_unlimited: "bounded_run (\<lambda>_ _. True) ops xs = (acc, out, ys) \<Longrightarrow> acc = enqueued ops"
proof (induction ops arbitrary: xs acc out ys)
  case (Cons op ops)
  then show ?case by (cases op; cases xs) (auto split: prod.splits)
qed simp

text \<open>
  C19. \<open>TC_ThreadQueue\<close>: pushes at the back and pops that do not wait form a first-in
  first-out queue of unlimited room, and do what \<open>bounded_run\<close> does with a list: every element
  pushed is accepted (\<open>acc\<close> is all of them), a pop returns the oldest element whenever there is
  one, no assertion fails, and what is popped, followed by what is left, is what was there
  followed by what was pushed; \<open>size\<close> is the number left.
\<close>

theorem thread_queue_first_in_first_out:
  assumes "tq_rep s xs"
  shows "\<exists>acc out s' ys. bounded_run (\<lambda>_ _. True) ops xs = (acc, out, ys) \<and>
    queue_run tq_enq tq_deq ops s = Inr (acc, out, s') \<and> acc = enqueued ops \<and>
    tq_rep s' ys \<and> xs @ acc = out @ ys \<and> tq_size s' = length ys"
proof -
  have "list_all (\<lambda>_. True) (enqueued ops)" by (simp add: list.pred_True)
  from tq.run_fifo[OF assms this] bounded_run_unlimited show ?thesis
    unfolding tq_rep_def tq_size_def by blast
qed

lemma thread_queue_first_in_first_out_witness:
  "\<exists>acc out s' ys. bounded_run (\<lambda>_ _. True) [Enq ''a'', Deq, Deq, Enq ''b''] [] = (acc, out, ys) \<and>
    queue_run tq_enq tq_deq [Enq ''a'', Deq, Deq, Enq ''b''] tq_new = Inr (acc, out, s') \<and>
    acc = enqueued [Enq ''a'', Deq, Deq, Enq ''b''] \<and>
    tq_rep s' ys \<and> [] @ acc = out @ ys \<and> tq_size s' = length ys"
  by (rule thread_queue_first_in_first_out) (simp add: tq_rep_def tq_new_def)

section \<open>The counter after a swap\<close>

text \<open>
  \<open>swap\<close> sets the counter from the caller's queue after the exchange, which is the data taken,
  not the data left: with an empty queue to put in its place, the size is still that of the
  elements that are gone.
\<close>

lemma tq_swap_size:
  assumes "tq_rep s xs" "xs \<noteq> []"
  shows "tq_swap woken timeout q ms s = (True, xs, \<lparr>t_queue = q, t_size = length xs\<rparr>)"
  using assms by (cases s) (auto simp: tq_swap_def await_data_def tq_rep_def Let_def)

lemma tq_swap_wrong:
  "xs \<noteq> [] \<Longrightarrow> tq_rep s xs \<Longrightarrow> tq_swap woken timeout [] ms s = (b, q', s') \<Longrightarrow>
   tq_empty s' \<and> 0 < tq_size s'"
  using tq_swap_size[of s xs woken timeout "[]" ms] by (auto simp: tq_empty_def tq_size_def)

text \<open>Popping a queue longer than the one that was taken runs into the assertion.\<close>

lemma tq_swap_assert:
  "bindE (tq_deq (snd (snd (tq_swap id (\<lambda>_. True) [1, 2] 0 (tq_push_back (0 :: nat) tq_new)))))
     (\<lambda>(_, s). tq_deq s) = Inl AssertFail"
  by (simp add: tq_deq_def tq_pop_front_def await_data_def tq_swap_def tq_push_back_def tq_new_def Let_def)

end
