(* ===== verification/Mem_Chunk.thy ===== *)
theory Mem_Chunk
  imports Memory
begin

text \<open>
  \<open>TC_MemChunk\<close> and \<open>TC_MemChunkAllocator\<close> (tcinclude/tc_mem_chunk.cpp): equal blocks in a
  region of memory, the free ones linked through their first eight bytes. What an allocator
  promises is the interface \<open>block_allocator\<close>; what follows for every sequence of
  allocations and releases is proved once from it.
\<close>

section \<open>Block allocators\<close>

text \<open>A client requests blocks and releases the \<open>k\<close>-th one it holds.\<close>

datatype 'r alloc_op = Allocate 'r | Release nat

fun alloc_run ::
  "('r \<Rightarrow> 's \<Rightarrow> ('b option \<times> 's) result) \<Rightarrow> ('b \<Rightarrow> 's \<Rightarrow> 's result) \<Rightarrow>
   'r alloc_op list \<Rightarrow> 's \<Rightarrow> 'b list \<Rightarrow> ('b list \<times> 's) result" where
  "alloc_run get put [] s held = Inr (held, s)"
| "alloc_run get put (Allocate r # ops) s held =
     bindE (get r s) (\<lambda>(b, s'). alloc_run get put ops s' (case b of None \<Rightarrow> held | Some b \<Rightarrow> b # held))"
| "alloc_run get put (Release k # ops) s held =
     (if k < length held
      then bindE (put (held ! k) s) (\<lambda>s'. alloc_run get put ops s' (take k held @ drop (Suc k) held))
      else alloc_run get put ops s held)"

text \<open>\<open>rep s U F\<close>: of the blocks \<open>U\<close> that \<open>s\<close> manages, those of \<open>F\<close> are free.\<close>

locale block_allocator =
  fixes get :: "'r \<Rightarrow> 's \<Rightarrow> ('b option \<times> 's) result"
    and put :: "'b \<Rightarrow> 's \<Rightarrow> 's result"
    and rep :: "'s \<Rightarrow> 'b set \<Rightarrow> 'b set \<Rightarrow> bool"
  assumes get_none: "rep s U {} \<Longrightarrow> \<exists>s'. get r s = Inr (None, s') \<and> rep s' U {}"
    and get_some: "rep s U F \<Longrightarrow> F \<noteq> {} \<Longrightarrow> \<exists>b s'. get r s = Inr (Some b, s') \<and> b \<in> F \<and> rep s' U (F - {b})"
    and put_back: "rep s U F \<Longrightarrow> b \<in> U - F \<Longrightarrow> \<exists>s'. put b s = Inr s' \<and> rep s' U (insert b F)"
    and free_sub: "rep s U F \<Longrightarrow> F \<subseteq> U"
begin

text \<open>
  No block is ever handed out twice, none is lost, and a request fails exactly when all are
  in use.
\<close>

lemma run_safe:
  assumes "rep s U (U - set held)" "distinct held" "set held \<subseteq> U"
  shows "\<exists>held' s'. alloc_run get put ops s held = Inr (held', s') \<and> distinct held' \<and> set held' \<subseteq> U \<and>
    rep s' U (U - set held')"
  using assms
proof (induction ops arbitrary: s held)
  case (Cons op ops)
  show ?case
  proof (cases op)
    case (Allocate r)
    show ?thesis
    proof (cases "U - set held = {}")
      case True
      then obtain s' where "get r s = Inr (None, s')" "rep s' U {}" using get_none Cons.prems(1) by metis
      with Cons.IH[of s' held] Cons.prems True Allocate show ?thesis by simp
    next
      case False
      then obtain b s' where b: "get r s = Inr (Some b, s')" "b \<in> U - set held" "rep s' U (U - set held - {b})"
        using get_some[OF Cons.prems(1), of r] by blast
      then have "rep s' U (U - set (b # held))" by (metis Diff_insert list.set(2))
      moreover have "distinct (b # held)" "set (b # held) \<subseteq> U" using b(2) Cons.prems(2,3) by auto
      ultimately show ?thesis using Cons.IH[of s' "b # held"] Allocate b(1) by simp
    qed
  next
    case (Release k)
    show ?thesis
    proof (cases "k < length held")
      case True
      let ?held = "take k held @ drop (Suc k) held"
      have split: "held = take k held @ held ! k # drop (Suc k) held" using True by (simp add: id_take_nth_drop)
      then have "distinct (take k held @ held ! k # drop (Suc k) held)" using Cons.prems(2) by simp
      then have h: "distinct ?held" "held ! k \<notin> set ?held" by simp_all
      have set: "set held = insert (held ! k) (set ?held)" by (subst split) simp
      have "held ! k \<in> U - (U - set held)" using Cons.prems(3) True by auto
      then obtain s' where s': "put (held ! k) s = Inr s'" "rep s' U (insert (held ! k) (U - set held))"
        using put_back[OF Cons.prems(1)] by blast
      have "insert (held ! k) (U - set held) = U - set ?held" using set h(2) Cons.prems(3) True by auto
      with Cons.IH[of s' ?held] s' h set Cons.prems(3) Release True show ?thesis by auto
    next
      case False
      with Cons Release show ?thesis by simp
    qed
  qed
qed auto

lemma get_fails_iff:
  "rep s U F \<Longrightarrow> (\<exists>s'. get r s = Inr (None, s')) \<longleftrightarrow> F = {}"
  using get_none[of s U r] get_some[of s U F r] by (cases "F = {}") auto

end

section \<open>\<open>TC_MemChunk\<close>\<close>

text \<open>
  The head, the address of \<open>_pData\<close> and the bytes there. Pointers are addresses; the first
  eight bytes of a free block hold the index of the next one.
\<close>

record chunk =
  iBlockSize :: nat
  iBlockCount :: nat
  firstAvailableBlock :: nat
  blockAvailable :: nat
  pData :: nat
  chunk_mem :: "byte list"

definition chunk_head_size :: nat where
  "chunk_head_size = 4 * 8"

definition calcMemSize :: "nat \<Rightarrow> nat \<Rightarrow> nat" where
  "calcMemSize bs n = (bs * n + chunk_head_size) mod 2 ^ 64"

definition calcBlockCount :: "nat \<Rightarrow> nat \<Rightarrow> nat" where
  "calcBlockCount memSize bs =
     (if memSize \<le> chunk_head_size then 0 else min ((memSize - chunk_head_size) div bs) (2 ^ 64 - 1))"

text \<open>The loop of \<open>create\<close> and \<open>rebuild\<close>, from block \<open>i\<close>.\<close>

fun link_blocks :: "nat \<Rightarrow> nat \<Rightarrow> nat \<Rightarrow> byte list \<Rightarrow> byte list result" where
  "link_blocks bs 0 i d = Inr d"
| "link_blocks bs (Suc k) i d = bindE (memcpy_in (i * bs) (size_bytes (i + 1)) d) (link_blocks bs k (i + 1))"

definition chunk_rebuild :: "chunk \<Rightarrow> chunk result" where
  "chunk_rebuild s =
     bindE (memset_in 0 0 (iBlockCount s * iBlockSize s) (chunk_mem s)) (\<lambda>d.
     bindE (link_blocks (iBlockSize s) (iBlockCount s) 0 d) (\<lambda>d.
     Inr (s\<lparr>firstAvailableBlock := 0, blockAvailable := iBlockCount s, chunk_mem := d\<rparr>)))"

definition chunk_create :: "nat \<Rightarrow> nat \<Rightarrow> nat \<Rightarrow> byte list \<Rightarrow> chunk result" where
  "chunk_create addr bs n d =
     (if bs > 8
      then chunk_rebuild \<lparr>iBlockSize = bs, iBlockCount = n, firstAvailableBlock = 0,
             blockAvailable = n, pData = addr + chunk_head_size, chunk_mem = d\<rparr>
      else Inl AssertFail)"

definition isBlockAvailable :: "chunk \<Rightarrow> bool" where
  "isBlockAvailable s \<longleftrightarrow> blockAvailable s > 0"

definition allocate :: "chunk \<Rightarrow> (nat option \<times> chunk) result" where
  "allocate s =
     (if \<not> isBlockAvailable s then Inr (None, s)
      else let r = firstAvailableBlock s * iBlockSize s in
           bindE (memcpy_out r 8 (chunk_mem s)) (\<lambda>v.
           bindE (memset_in r 0 8 (chunk_mem s)) (\<lambda>d.
           Inr (Some (pData s + r), s\<lparr>blockAvailable := blockAvailable s - 1,
                  firstAvailableBlock := size_val v, chunk_mem := d\<rparr>))))"

text \<open>The address and the index, which counts from 1 and is 0 when there is no block.\<close>

definition allocate2 :: "chunk \<Rightarrow> ((nat \<times> nat) option \<times> chunk) result" where
  "allocate2 s =
     (let i = firstAvailableBlock s + 1 in
      bindE (allocate s) (\<lambda>(p, s). Inr (map_option (\<lambda>p. (p, i)) p, s)))"

definition deallocate :: "nat \<Rightarrow> chunk \<Rightarrow> chunk result" where
  "deallocate p s =
     (if p < pData s then Inl AssertFail
      else let r = p - pData s in
        if r mod iBlockSize s \<noteq> 0 then Inl AssertFail
        else bindE (memset_in r 0 (iBlockSize s) (chunk_mem s)) (\<lambda>d.
             bindE (memcpy_in r (size_bytes (firstAvailableBlock s)) d) (\<lambda>d.
             Inr (s\<lparr>firstAvailableBlock := r div iBlockSize s,
                    blockAvailable := blockAvailable s + 1, chunk_mem := d\<rparr>))))"

definition getAbsolute :: "nat \<Rightarrow> chunk \<Rightarrow> nat result" where
  "getAbsolute i s =
     (if i > 0 \<and> i \<le> iBlockCount s then Inr (pData s + (i - 1) * iBlockSize s) else Inl AssertFail)"

definition deallocate2 :: "nat \<Rightarrow> chunk \<Rightarrow> chunk result" where
  "deallocate2 i s =
     (if i > 0 \<and> i \<le> iBlockCount s then deallocate (pData s + (i - 1) * iBlockSize s) s
      else Inl AssertFail)"

definition getRelative :: "nat \<Rightarrow> chunk \<Rightarrow> nat result" where
  "getRelative p s =
     (if p \<ge> pData s \<and> p \<le> pData s + iBlockSize s * iBlockCount s \<and> (p - pData s) mod iBlockSize s = 0
      then Inr (1 + (p - pData s) div iBlockSize s) else Inl AssertFail)"

definition getCapacity :: "chunk \<Rightarrow> nat" where
  "getCapacity s = iBlockSize s * iBlockCount s"

section \<open>The free list\<close>

definition block_next :: "chunk \<Rightarrow> nat \<Rightarrow> nat" where
  "block_next s b = size_val (take 8 (drop (b * iBlockSize s) (chunk_mem s)))"

text \<open>The contents of a block.\<close>

definition block_bytes :: "chunk \<Rightarrow> nat \<Rightarrow> byte list" where
  "block_bytes s b = take (iBlockSize s) (drop (b * iBlockSize s) (chunk_mem s))"

fun linked :: "(nat \<Rightarrow> nat) \<Rightarrow> nat \<Rightarrow> nat list \<Rightarrow> bool" where
  "linked nxt f [] = True"
| "linked nxt f (b # bs) \<longleftrightarrow> f = b \<and> linked nxt (nxt b) bs"

definition chunk_wf :: "chunk \<Rightarrow> bool" where
  "chunk_wf s \<longleftrightarrow> 8 < iBlockSize s \<and> iBlockCount s * iBlockSize s \<le> length (chunk_mem s) \<and>
     iBlockCount s < 2 ^ 64 \<and> firstAvailableBlock s < 2 ^ 64"

definition free_list :: "chunk \<Rightarrow> nat list \<Rightarrow> bool" where
  "free_list s fs \<longleftrightarrow> chunk_wf s \<and> blockAvailable s = length fs \<and> distinct fs \<and>
     set fs \<subseteq> {..<iBlockCount s} \<and> linked (block_next s) (firstAvailableBlock s) fs"

lemma block_fits:
  assumes "chunk_wf s" "b < iBlockCount s"
  shows "b * iBlockSize s + iBlockSize s \<le> length (chunk_mem s)"
proof -
  have "Suc b * iBlockSize s \<le> iBlockCount s * iBlockSize s" using assms(2) by (intro mult_right_mono) auto
  with assms(1) show ?thesis by (simp add: chunk_wf_def)
qed

lemma block_disjoint:
  fixes b c n :: nat
  assumes "b \<noteq> c"
  shows "c * n + n \<le> b * n \<or> b * n + n \<le> c * n"
proof -
  consider "Suc c \<le> b" | "Suc b \<le> c" using assms by linarith
  then show ?thesis
    by cases (use mult_right_mono[of "Suc c" b n] mult_right_mono[of "Suc b" c n] in auto)
qed

lemma linked_cong: "\<forall>b\<in>set bs. f b = g b \<Longrightarrow> linked f i bs = linked g i bs"
  by (induction f i bs rule: linked.induct) auto

text \<open>Writing into one block leaves the others, and their links, as they are.\<close>

lemma other_blocks:
  assumes "chunk_wf s" "b < iBlockCount s" "c < iBlockCount s" "b \<noteq> c" "length x \<le> iBlockSize s"
    "chunk_mem s' = blit (chunk_mem s) (b * iBlockSize s) x" "iBlockSize s' = iBlockSize s"
  shows "block_next s' c = block_next s c" "block_bytes s' c = block_bytes s c"
  using block_fits[OF assms(1,2)] block_fits[OF assms(1,3)] block_disjoint[OF assms(4), of "iBlockSize s"] assms
  by (auto simp: block_next_def block_bytes_def chunk_wf_def intro!: arg_cong[of _ _ size_val] read_blit_other)

definition same_shape :: "chunk \<Rightarrow> chunk \<Rightarrow> bool" where
  "same_shape s s' \<longleftrightarrow> iBlockSize s' = iBlockSize s \<and> iBlockCount s' = iBlockCount s \<and> pData s' = pData s"

lemma allocate_none: "free_list s [] \<Longrightarrow> allocate s = Inr (None, s)"
  by (simp add: allocate_def isBlockAvailable_def free_list_def)

lemma allocate_block:
  assumes "free_list s (b # fs)"
  shows "\<exists>s'. allocate s = Inr (Some (pData s + b * iBlockSize s), s') \<and> free_list s' fs \<and> same_shape s s' \<and>
    (\<forall>c. c < iBlockCount s \<and> c \<noteq> b \<longrightarrow> block_bytes s' c = block_bytes s c)"
proof -
  let ?n = "iBlockSize s" and ?d = "chunk_mem s"
  have s: "chunk_wf s" "blockAvailable s = Suc (length fs)" "distinct (b # fs)" "b < iBlockCount s"
    "set fs \<subseteq> {..<iBlockCount s}" "firstAvailableBlock s = b" "linked (block_next s) (block_next s b) fs"
    "8 < ?n"
    using assms by (auto simp: free_list_def chunk_wf_def)
  note fit = block_fits[OF s(1,4)]
  let ?s = "s\<lparr>blockAvailable := length fs, firstAvailableBlock := block_next s b,
     chunk_mem := blit ?d (b * ?n) (replicate 8 0)\<rparr>"
  have "allocate s = Inr (Some (pData s + b * ?n), ?s)"
    using s(2,6,8) fit
    by (simp add: allocate_def isBlockAvailable_def Let_def memset_in_def block_next_def)
  moreover have other: "block_next ?s c = block_next s c \<and> block_bytes ?s c = block_bytes s c"
    if "c < iBlockCount s" "c \<noteq> b" for c
    using other_blocks[OF s(1,4) that(1) that(2)[symmetric], of "replicate 8 0" ?s] s(8) by simp
  have "linked (block_next ?s) (block_next s b) fs"
    using s(7) linked_cong[of fs "block_next ?s" "block_next s"] other s(3,5) by (auto simp del: Diff_iff)
  moreover have "block_next s b < 2 ^ 64" unfolding block_next_def using fit s(8) by (intro size_val_less) simp
  ultimately have "free_list ?s fs" using s(1,3,5) fit s(8) by (auto simp: free_list_def chunk_wf_def)
  with \<open>allocate s = _\<close> other show ?thesis by (auto simp: same_shape_def)
qed

lemma deallocate_block:
  assumes "free_list s fs" "b < iBlockCount s" "b \<notin> set fs"
  shows "\<exists>s'. deallocate (pData s + b * iBlockSize s) s = Inr s' \<and> free_list s' (b # fs) \<and> same_shape s s' \<and>
    (\<forall>c. c < iBlockCount s \<and> c \<noteq> b \<longrightarrow> block_bytes s' c = block_bytes s c)"
proof -
  let ?n = "iBlockSize s" and ?d = "chunk_mem s" and ?f = "firstAvailableBlock s"
  have s: "chunk_wf s" "blockAvailable s = length fs" "distinct fs" "set fs \<subseteq> {..<iBlockCount s}"
    "linked (block_next s) ?f fs" "8 < ?n" "?f < 2 ^ 64"
    using assms by (auto simp: free_list_def chunk_wf_def)
  note fit = block_fits[OF s(1) assms(2)]
  let ?x = "size_bytes ?f @ replicate (?n - 8) 0"
  have x: "blit (blit ?d (b * ?n) (replicate ?n 0)) (b * ?n) (size_bytes ?f) = blit ?d (b * ?n) ?x"
    using fit s(6) by (intro nth_equalityI) (auto simp: nth_blit nth_append)
  let ?s = "s\<lparr>firstAvailableBlock := b, blockAvailable := Suc (length fs), chunk_mem := blit ?d (b * ?n) ?x\<rparr>"
  have r: "deallocate (pData s + b * ?n) s = Inr ?s"
    using s(2,6) fit x by (simp add: deallocate_def Let_def memset_in_def)
  have other: "block_next ?s c = block_next s c \<and> block_bytes ?s c = block_bytes s c"
    if "c < iBlockCount s" "c \<noteq> b" for c
    using other_blocks[OF s(1) assms(2) that(1) that(2)[symmetric], of ?x ?s] s(6) by simp
  have "block_next ?s b = ?f"
    using fit s(6,7) read_blit_same[of "b * ?n" ?x ?d 8] by (simp add: block_next_def)
  moreover have "linked (block_next ?s) ?f fs"
    using s(5) linked_cong[of fs "block_next ?s" "block_next s"] other s(4) assms(3) by blast
  ultimately have "free_list ?s (b # fs)"
    using s(1,3,4,6) fit assms(2,3) by (auto simp: free_list_def chunk_wf_def)
  with r other show ?thesis by (auto simp: same_shape_def)
qed

lemma link_blocks_ok:
  assumes "8 < bs" "(i + k) * bs \<le> length d" "i + k < 2 ^ 64"
  shows "\<exists>d'. link_blocks bs k i d = Inr d' \<and> length d' = length d \<and>
    (\<forall>j. j < i \<longrightarrow> take 8 (drop (j * bs) d') = take 8 (drop (j * bs) d)) \<and>
    (\<forall>j. i \<le> j \<and> j < i + k \<longrightarrow> size_val (take 8 (drop (j * bs) d')) = j + 1)"
  using assms
proof (induction k arbitrary: i d)
  case (Suc k)
  have le: "i * bs + bs \<le> length d"
    using Suc.prems(2) by (simp add: algebra_simps)
  let ?d = "blit d (i * bs) (size_bytes (i + 1))"
  have l: "length ?d = length d" using le Suc.prems(1) by simp
  then obtain d' where d': "link_blocks bs k (i + 1) ?d = Inr d'" "length d' = length d"
    "\<And>j. j < i + 1 \<Longrightarrow> take 8 (drop (j * bs) d') = take 8 (drop (j * bs) ?d)"
    "\<And>j. i + 1 \<le> j \<Longrightarrow> j < i + 1 + k \<Longrightarrow> size_val (take 8 (drop (j * bs) d')) = j + 1"
    using Suc.IH[of "i + 1" ?d] Suc.prems by auto
  have before: "take 8 (drop (j * bs) d') = take 8 (drop (j * bs) d)" if "j < i" for j
  proof -
    have "j * bs + bs \<le> i * bs" using that mult_right_mono[of "Suc j" i bs] by simp
    with that le Suc.prems(1) show ?thesis by (simp add: d'(3) read_blit_other)
  qed
  have "size_val (take 8 (drop (i * bs) d')) = i + 1"
    using le Suc.prems d'(3)[of i] by (simp add: read_blit_same del: One_nat_def add_Suc_right)
  then have "size_val (take 8 (drop (j * bs) d')) = j + 1" if "i \<le> j" "j < i + Suc k" for j
    using that d'(4)[of j] by (cases "j = i") auto
  with d'(1,2) before le Suc.prems(1) show ?case by simp
qed auto

lemma linked_upt: "(\<And>b. i \<le> b \<Longrightarrow> b < n \<Longrightarrow> f b = b + 1) \<Longrightarrow> i \<le> n \<Longrightarrow> linked f i [i..<n]"
proof (induction "n - i" arbitrary: i)
  case (Suc k)
  then have "i < n" "linked f (i + 1) [i + 1..<n]" by auto
  with Suc.prems(1)[of i] show ?case by (simp add: upt_rec[of i])
qed simp

lemma chunk_rebuild_ok:
  assumes "chunk_wf s"
  shows "\<exists>s'. chunk_rebuild s = Inr s' \<and> free_list s' [0..<iBlockCount s] \<and> same_shape s s'"
proof -
  let ?n = "iBlockSize s" and ?k = "iBlockCount s"
  let ?d = "blit (chunk_mem s) 0 (replicate (?k * ?n) 0)"
  have s: "8 < ?n" "?k * ?n \<le> length (chunk_mem s)" "?k < 2 ^ 64" using assms by (auto simp: chunk_wf_def)
  then obtain d where d: "link_blocks ?n ?k 0 ?d = Inr d" "length d = length (chunk_mem s)"
    "\<And>j. j < ?k \<Longrightarrow> size_val (take 8 (drop (j * ?n) d)) = j + 1"
    using link_blocks_ok[of ?n 0 ?k ?d] by auto
  let ?s = "s\<lparr>firstAvailableBlock := 0, blockAvailable := ?k, chunk_mem := d\<rparr>"
  have "chunk_rebuild s = Inr ?s" using s d(1) by (simp add: chunk_rebuild_def memset_in_def)
  moreover have "linked (block_next ?s) 0 [0..<?k]" by (rule linked_upt) (simp_all add: block_next_def d(3))
  ultimately show ?thesis using s d(2) by (auto simp: free_list_def chunk_wf_def same_shape_def)
qed

lemma chunk_create_ok:
  assumes "8 < bs" "n * bs \<le> length d" "n < 2 ^ 64"
  shows "\<exists>s. chunk_create addr bs n d = Inr s \<and> free_list s [0..<n] \<and> iBlockSize s = bs \<and>
    iBlockCount s = n \<and> pData s = addr + chunk_head_size"
  using assms chunk_rebuild_ok[of "\<lparr>iBlockSize = bs, iBlockCount = n, firstAvailableBlock = 0,
             blockAvailable = n, pData = addr + chunk_head_size, chunk_mem = d\<rparr>"]
  by (auto simp: chunk_create_def chunk_wf_def same_shape_def)

text \<open>The free list is a function of the state.\<close>

fun follow :: "(nat \<Rightarrow> nat) \<Rightarrow> nat \<Rightarrow> nat \<Rightarrow> nat list" where
  "follow nxt f 0 = []"
| "follow nxt f (Suc k) = f # follow nxt (nxt f) k"

definition free_blocks :: "chunk \<Rightarrow> nat set" where
  "free_blocks s = set (follow (block_next s) (firstAvailableBlock s) (blockAvailable s))"

lemma linked_follow: "linked nxt f fs \<Longrightarrow> fs = follow nxt f (length fs)"
  by (induction nxt f fs rule: linked.induct) simp_all

lemma free_list_blocks: "free_list s fs \<Longrightarrow> free_blocks s = set fs"
  using linked_follow[of "block_next s" "firstAvailableBlock s" fs]
  by (simp add: free_list_def free_blocks_def)

text \<open>Indices and addresses of blocks.\<close>

lemma getRelative_getAbsolute:
  assumes "0 < i" "i \<le> iBlockCount s" "0 < iBlockSize s"
  shows "\<exists>p. getAbsolute i s = Inr p \<and> getRelative p s = Inr i"
proof -
  have "(i - 1) * iBlockSize s \<le> iBlockCount s * iBlockSize s" using assms(2) by (intro mult_right_mono) auto
  with assms show ?thesis by (auto simp: getAbsolute_def getRelative_def mult.commute)
qed

section \<open>The chunk is an allocator\<close>

text \<open>By address and by index.\<close>

definition chunk_ptr_rep :: "chunk \<Rightarrow> nat set \<Rightarrow> nat set \<Rightarrow> bool" where
  "chunk_ptr_rep s U F \<longleftrightarrow> U = (\<lambda>b. pData s + b * iBlockSize s) ` {..<iBlockCount s} \<and>
     (\<exists>fs. free_list s fs \<and> F = (\<lambda>b. pData s + b * iBlockSize s) ` set fs)"

definition chunk_index_rep :: "chunk \<Rightarrow> nat set \<Rightarrow> nat set \<Rightarrow> bool" where
  "chunk_index_rep s U F \<longleftrightarrow> U = {1..iBlockCount s} \<and> (\<exists>fs. free_list s fs \<and> F = Suc ` set fs)"

definition allocate_index :: "chunk \<Rightarrow> (nat option \<times> chunk) result" where
  "allocate_index s = bindE (allocate2 s) (\<lambda>(p, s). Inr (map_option snd p, s))"

lemma ptr_inj: "8 < iBlockSize s \<Longrightarrow> inj (\<lambda>b. pData s + b * iBlockSize s)"
  by (auto intro: injI)

lemma free_list_size: "free_list s fs \<Longrightarrow> 8 < iBlockSize s"
  by (simp add: free_list_def chunk_wf_def)

interpretation chunk_ptr: block_allocator "\<lambda>_ :: unit. allocate" deallocate chunk_ptr_rep
proof unfold_locales
  fix s U
  assume "chunk_ptr_rep s U {}"
  then show "\<exists>s'. allocate s = Inr (None, s') \<and> chunk_ptr_rep s' U {}"
    by (auto simp: chunk_ptr_rep_def allocate_none)
next
  fix s U F
  assume r: "chunk_ptr_rep s U F" "F \<noteq> {}"
  then obtain gs where gs: "free_list s gs" "F = (\<lambda>b. pData s + b * iBlockSize s) ` set gs"
    by (auto simp: chunk_ptr_rep_def)
  with r(2) obtain b fs where "gs = b # fs" by (cases gs) auto
  with gs have fs: "free_list s (b # fs)" "F = (\<lambda>b. pData s + b * iBlockSize s) ` set (b # fs)" by simp_all
  from allocate_block[OF fs(1)] obtain s' where s': "allocate s = Inr (Some (pData s + b * iBlockSize s), s')"
    "free_list s' fs" "same_shape s s'" by blast
  have "b \<notin> set fs" using fs(1) by (simp add: free_list_def)
  then have "F - {pData s + b * iBlockSize s} = (\<lambda>b. pData s + b * iBlockSize s) ` set fs"
    using ptr_inj[OF free_list_size[OF fs(1)]] unfolding fs(2) by (auto simp: inj_def)
  with s' r(1) have "chunk_ptr_rep s' U (F - {pData s + b * iBlockSize s})"
    by (auto simp: chunk_ptr_rep_def same_shape_def)
  with s'(1) show "\<exists>b s'. allocate s = Inr (Some b, s') \<and> b \<in> F \<and> chunk_ptr_rep s' U (F - {b})"
    unfolding fs(2) by (intro exI conjI) auto
next
  fix s U F p
  assume r: "chunk_ptr_rep s U F" and p: "p \<in> U - F"
  then obtain b fs where fs: "free_list s fs" "F = (\<lambda>b. pData s + b * iBlockSize s) ` set fs"
    "p = pData s + b * iBlockSize s" "b < iBlockCount s" "b \<notin> set fs"
    by (auto simp: chunk_ptr_rep_def)
  from deallocate_block[OF fs(1,4,5)] obtain s' where s': "deallocate p s = Inr s'"
    "free_list s' (b # fs)" "same_shape s s'" unfolding fs(3) by blast
  have "\<exists>gs. free_list s' gs \<and> insert p F = (\<lambda>b. pData s' + b * iBlockSize s') ` set gs"
    using s' by (intro exI[of _ "b # fs"]) (simp add: fs(2,3) same_shape_def)
  with s' r show "\<exists>s'. deallocate p s = Inr s' \<and> chunk_ptr_rep s' U (insert p F)"
    by (auto simp: chunk_ptr_rep_def same_shape_def)
next
  show "F \<subseteq> U" if "chunk_ptr_rep s U F" for s U F
    using that by (auto simp: chunk_ptr_rep_def free_list_def)
qed

interpretation chunk_index: block_allocator "\<lambda>_ :: unit. allocate_index" deallocate2 chunk_index_rep
proof unfold_locales
  fix s U
  assume "chunk_index_rep s U {}"
  then show "\<exists>s'. allocate_index s = Inr (None, s') \<and> chunk_index_rep s' U {}"
    by (auto simp: chunk_index_rep_def allocate_none allocate_index_def allocate2_def Let_def)
next
  fix s U F
  assume r: "chunk_index_rep s U F" "F \<noteq> {}"
  then obtain gs where gs: "free_list s gs" "F = Suc ` set gs" by (auto simp: chunk_index_rep_def)
  with r(2) obtain b fs where "gs = b # fs" by (cases gs) auto
  with gs have fs: "free_list s (b # fs)" "F = Suc ` set (b # fs)" by simp_all
  from allocate_block[OF fs(1)] obtain s' where s': "allocate s = Inr (Some (pData s + b * iBlockSize s), s')"
    "free_list s' fs" "same_shape s s'" by blast
  have "b \<notin> set fs" "firstAvailableBlock s = b" using fs(1) by (simp_all add: free_list_def)
  then have "F - {Suc b} = Suc ` set fs" "allocate_index s = Inr (Some (Suc b), s')"
    using s'(1) unfolding fs(2) by (auto simp: allocate_index_def allocate2_def Let_def)
  with s' r(1) fs(2) show "\<exists>b s'. allocate_index s = Inr (Some b, s') \<and> b \<in> F \<and> chunk_index_rep s' U (F - {b})"
    by (auto simp: chunk_index_rep_def same_shape_def)
next
  fix s U F i
  assume r: "chunk_index_rep s U F" and i: "i \<in> U - F"
  then obtain fs where fs: "free_list s fs" "F = Suc ` set fs" "U = {1..iBlockCount s}"
    by (auto simp: chunk_index_rep_def)
  obtain b where b: "i = Suc b" "b < iBlockCount s" "b \<notin> set fs" using i fs by (cases i) auto
  from deallocate_block[OF fs(1) b(2,3)] obtain s' where s': "deallocate2 i s = Inr s'"
    "free_list s' (b # fs)" "same_shape s s'" using b by (auto simp: deallocate2_def)
  have "\<exists>gs. free_list s' gs \<and> insert i F = Suc ` set gs"
    using s'(2) by (intro exI[of _ "b # fs"]) (simp add: fs(2) b(1))
  with s' fs(3) show "\<exists>s'. deallocate2 i s = Inr s' \<and> chunk_index_rep s' U (insert i F)"
    by (auto simp: chunk_index_rep_def same_shape_def)
next
  show "F \<subseteq> U" if "chunk_index_rep s U F" for s U F
    using that by (auto simp: chunk_index_rep_def free_list_def)
qed


text \<open>
  C20. \<open>TC_MemChunk\<close>: from a chunk that was just created, whatever a client requests and
  releases, every call succeeds, the addresses it holds are those of distinct blocks of the
  chunk, and a request is refused exactly when it holds all of them.
\<close>

theorem chunk_allocator_safe:
  fixes ops :: "unit alloc_op list"
  assumes "8 < bs" "n * bs \<le> length d" "n < 2 ^ 64"
  shows "\<exists>s held s'. chunk_create addr bs n d = Inr s \<and>
    alloc_run (\<lambda>_. allocate) deallocate ops s [] = Inr (held, s') \<and> distinct held \<and>
    set held \<subseteq> (\<lambda>b. addr + chunk_head_size + b * bs) ` {..<n} \<and>
    ((\<exists>s''. allocate s' = Inr (None, s'')) \<longleftrightarrow> set held = (\<lambda>b. addr + chunk_head_size + b * bs) ` {..<n})"
proof -
  let ?U = "(\<lambda>b. addr + chunk_head_size + b * bs) ` {..<n}"
  obtain s where s: "chunk_create addr bs n d = Inr s" "free_list s [0..<n]" "iBlockSize s = bs"
    "iBlockCount s = n" "pData s = addr + chunk_head_size" using chunk_create_ok[OF assms] by blast
  have rep: "chunk_ptr_rep s ?U (?U - set [])"
    unfolding chunk_ptr_rep_def s(3-5) using s(2) by (auto intro!: exI[of _ "[0..<n]"])
  obtain held s' where r: "alloc_run (\<lambda>_ :: unit. allocate) deallocate ops s [] = Inr (held, s')"
    "distinct held" "set held \<subseteq> ?U" "chunk_ptr_rep s' ?U (?U - set held)"
    using chunk_ptr.run_safe[OF rep, of ops] by auto
  have "(\<exists>s''. allocate s' = Inr (None, s'')) \<longleftrightarrow> set held = ?U"
    using chunk_ptr.get_fails_iff[OF r(4)] r(3) by blast
  with s(1) r show ?thesis by blast
qed

lemma chunk_allocator_safe_witness:
  "\<exists>s held s'. chunk_create 100 16 3 (replicate 50 7) = Inr s \<and>
    alloc_run (\<lambda>_. allocate) deallocate [Allocate (), Allocate (), Release 0, Allocate ()] s [] = Inr (held, s') \<and>
    distinct held \<and> set held \<subseteq> (\<lambda>b. 100 + chunk_head_size + b * 16) ` {..<3} \<and>
    ((\<exists>s''. allocate s' = Inr (None, s'')) \<longleftrightarrow> set held = (\<lambda>b. 100 + chunk_head_size + b * 16) ` {..<3})"
  by (rule chunk_allocator_safe) simp_all

text \<open>
  A block in use keeps its contents: neither an allocation nor the release of another
  block writes to it.
\<close>

lemma live_block_untouched:
  assumes "free_list s fs" "c < iBlockCount s" "c \<notin> set fs" "b < iBlockCount s" "b \<notin> set fs" "b \<noteq> c"
  shows "\<exists>r s1 s2. allocate s = Inr (r, s1) \<and> block_bytes s1 c = block_bytes s c \<and>
    deallocate (pData s + b * iBlockSize s) s = Inr s2 \<and> block_bytes s2 c = block_bytes s c"
proof -
  have "\<exists>r s1. allocate s = Inr (r, s1) \<and> block_bytes s1 c = block_bytes s c"
  proof (cases fs)
    case Nil
    with assms(1) show ?thesis by (auto simp: allocate_none)
  next
    case (Cons b' gs)
    with allocate_block[of s b' gs] assms show ?thesis by auto
  qed
  with deallocate_block[OF assms(1,4,5)] assms(2,6) show ?thesis by blast
qed

lemma live_block_untouched_witness:
  "\<exists>s r s1 s2. allocate s = Inr (r, s1) \<and> block_bytes s1 1 = block_bytes s 1 \<and>
    deallocate (pData s + 0 * iBlockSize s) s = Inr s2 \<and> block_bytes s2 1 = block_bytes s 1 \<and> iBlockCount s = 3"
proof -
  obtain s where s: "free_list s [0..<3]" "iBlockSize s = 16" "iBlockCount s = 3"
    using chunk_create_ok[of 16 3 "replicate 50 7"] by auto
  then have "free_list s (0 # [1, 2])" by (simp add: upt_rec numeral_2_eq_2)
  from allocate_block[OF this] obtain s' where s': "free_list s' (1 # [2])" "same_shape s s'" by blast
  from allocate_block[OF s'(1)] obtain s'' where s'': "free_list s'' [2]" "same_shape s' s''" by blast
  have "iBlockCount s'' = 3" using s(3) s'(2) s''(2) by (simp add: same_shape_def)
  with live_block_untouched[OF s''(1), of 1 0] show ?thesis by auto
qed

end
