(* ===== verification/Mem_Multi.thy ===== *)
theory Mem_Multi
  imports Mem_Chunk
begin

text \<open>
  \<open>TC_MemMultiChunkAllocator\<close> (tcinclude/tc_mem_chunk.cpp): chunks of growing block sizes,
  as many blocks of each, in a region that can be extended by further regions. A block is
  known by its address and by an index that counts through all chunks and regions. The
  allocator satisfies the interface of \<open>Mem_Chunk\<close>, and the two names of a block agree.
\<close>

section \<open>\<open>TC_MemChunkAllocator\<close>\<close>

record callocator =
  ca_pHead :: nat
  ca_iSize :: nat
  ca_iBlockSize :: nat
  ca_chunk :: chunk

definition ca_head_size :: nat where
  "ca_head_size = 2 * 8"

text \<open>\<open>d\<close>: the bytes after the two heads.\<close>

definition ca_create :: "nat \<Rightarrow> nat \<Rightarrow> nat \<Rightarrow> byte list \<Rightarrow> callocator result" where
  "ca_create addr iSize bs d =
     (if \<not> iSize > ca_head_size then Inl AssertFail
      else let iChunkCapacity = iSize - ca_head_size in
        if \<not> iChunkCapacity > chunk_head_size then Inl AssertFail
        else let iBlockCount = (iChunkCapacity - chunk_head_size) div bs in
          if \<not> iBlockCount > 0 then Inl AssertFail
          else bindE (chunk_create (addr + ca_head_size) bs iBlockCount d) (\<lambda>c.
               Inr \<lparr>ca_pHead = addr, ca_iSize = iSize, ca_iBlockSize = bs, ca_chunk = c\<rparr>))"

definition ca_rebuild :: "callocator \<Rightarrow> callocator result" where
  "ca_rebuild a = bindE (chunk_rebuild (ca_chunk a)) (\<lambda>c. Inr (a\<lparr>ca_chunk := c\<rparr>))"

definition ca_allocate2 :: "callocator \<Rightarrow> ((nat \<times> nat) option \<times> callocator) result" where
  "ca_allocate2 a = bindE (allocate2 (ca_chunk a)) (\<lambda>(r, c). Inr (r, a\<lparr>ca_chunk := c\<rparr>))"

definition ca_deallocate :: "nat \<Rightarrow> callocator \<Rightarrow> callocator result" where
  "ca_deallocate p a =
     (if p \<ge> ca_pHead a + ca_head_size
      then bindE (deallocate p (ca_chunk a)) (\<lambda>c. Inr (a\<lparr>ca_chunk := c\<rparr>)) else Inl AssertFail)"

definition ca_deallocate2 :: "nat \<Rightarrow> callocator \<Rightarrow> callocator result" where
  "ca_deallocate2 i a = bindE (deallocate2 i (ca_chunk a)) (\<lambda>c. Inr (a\<lparr>ca_chunk := c\<rparr>))"

section \<open>State\<close>

text \<open>
  The head in memory, the vectors of the object and the allocator of the region appended
  last, if any.
\<close>

datatype multi = Multi
  (m_pHead: nat) (m_iSize: nat) (m_iTotalSize: nat) (m_iMinBlockSize: nat) (m_iMaxBlockSize: nat)
  (m_iNext: nat) (m_vBlockSize: "nat list") (m_iBlockCount: nat) (m_allocator: "callocator list")
  (m_nallocator: "multi option")

definition multi_head_size :: nat where
  "multi_head_size = 4 * 8 + 4 + 8"

definition m_iAllIndex :: "multi \<Rightarrow> nat" where
  "m_iAllIndex m = length (m_allocator m) * m_iBlockCount m"

section \<open>Layout\<close>

text \<open>
  \<open>grow n\<close> is \<open>(size_t)(n * _fFactor)\<close>, a product of a \<open>size_t\<close> and a \<open>float\<close>; whatever it is, the
  sizes grow by at least one, so the loop ends.
\<close>

function size_steps :: "(nat \<Rightarrow> nat) \<Rightarrow> nat \<Rightarrow> nat \<Rightarrow> nat list" where
  "size_steps grow n maxB = (if n < maxB then n # size_steps grow (max (grow n) (n + 1)) maxB else [])"
  by pat_completeness auto
termination by (relation "measure (\<lambda>(_, n, maxB). maxB - n)") auto

declare size_steps.simps [simp del]

definition calc :: "(nat \<Rightarrow> nat) \<Rightarrow> nat \<Rightarrow> nat \<Rightarrow> nat \<Rightarrow> (nat list \<times> nat) result" where
  "calc grow iSize minB maxB =
     (let v = size_steps grow minB maxB @ [maxB]; total = sum_list v;
          heads = multi_head_size + ca_head_size * length v + chunk_head_size * length v in
      if \<not> iSize > heads then Inl AssertFail
      else let iBlockCount = (iSize - heads) div total in
        if iBlockCount \<ge> 1 then Inr (v, iBlockCount) else Inl AssertFail)"

text \<open>The allocators of the sizes \<open>v\<close>, from address \<open>addr\<close> on, whose memory is \<open>d\<close>.\<close>

fun make_allocators :: "nat \<Rightarrow> nat \<Rightarrow> nat list \<Rightarrow> byte list \<Rightarrow> callocator list result" where
  "make_allocators addr n [] d = Inr []"
| "make_allocators addr n (b # bs) d =
     (let iAllocSize = ca_head_size + calcMemSize b n in
      bindE (ca_create addr iAllocSize b (drop (ca_head_size + chunk_head_size) d)) (\<lambda>a.
      bindE (make_allocators (addr + iAllocSize) n bs (drop iAllocSize d)) (\<lambda>as. Inr (a # as))))"

definition multi_create ::
  "(nat \<Rightarrow> nat) \<Rightarrow> bool \<Rightarrow> nat \<Rightarrow> nat \<Rightarrow> nat \<Rightarrow> nat \<Rightarrow> byte list \<Rightarrow> multi result" where
  "multi_create grow factor_ok addr iSize minB maxB d =
     (if \<not> (maxB \<ge> minB \<and> factor_ok) then Inl AssertFail
      else bindE (calc grow iSize minB maxB) (\<lambda>(v, n).
           bindE (make_allocators (addr + multi_head_size) n v (drop multi_head_size d)) (\<lambda>as.
           Inr (Multi addr iSize iSize minB maxB 0 v n as None))))"

text \<open>
  \<open>connect\<close> builds the object again from the heads in memory: it computes the sizes from the
  parameters in the head and attaches to as many allocators as there are sizes.
\<close>

definition ca_connect :: "callocator \<Rightarrow> callocator result" where
  "ca_connect a =
     (if ca_iSize a > ca_head_size \<and> ca_iSize a - ca_head_size > chunk_head_size then Inr a
      else Inl AssertFail)"

fun map_result :: "('a \<Rightarrow> 'b result) \<Rightarrow> 'a list \<Rightarrow> 'b list result" where
  "map_result f [] = Inr []"
| "map_result f (x # xs) = bindE (f x) (\<lambda>y. bindE (map_result f xs) (\<lambda>ys. Inr (y # ys)))"

fun multi_connect :: "(nat \<Rightarrow> nat) \<Rightarrow> multi \<Rightarrow> multi result" where
  "multi_connect grow (Multi h sz tot mn mx nx v n as na) =
     bindE (calc grow sz mn mx) (\<lambda>(v, n).
     if length as < length v then Inl OutOfBounds
     else bindE (map_result ca_connect (take (length v) as)) (\<lambda>as.
       if nx = 0 then Inr (Multi h sz tot mn mx nx v n as None)
       else if nx \<noteq> sz then Inl AssertFail
       else case na of None \<Rightarrow> Inl OutOfBounds
          | Some m \<Rightarrow> bindE (multi_connect grow m) (\<lambda>m. Inr (Multi h sz tot mn mx nx v n as (Some m)))))"

fun link_last :: "multi \<Rightarrow> multi \<Rightarrow> multi" where
  "link_last p (Multi h sz tot mn mx nx v n as None) = Multi h sz tot mn mx (m_pHead p - h) v n as (Some p)"
| "link_last p (Multi h sz tot mn mx nx v n as (Some m)) = Multi h sz tot mn mx nx v n as (Some (link_last p m))"

text \<open>\<open>append\<close>, after it connected to the memory that \<open>m\<close> describes; \<open>d\<close> is the memory added.\<close>

definition multi_append :: "(nat \<Rightarrow> nat) \<Rightarrow> bool \<Rightarrow> nat \<Rightarrow> byte list \<Rightarrow> multi \<Rightarrow> multi result" where
  "multi_append grow factor_ok iSize d m =
     (if \<not> iSize > m_iTotalSize m then Inl AssertFail
      else bindE (multi_create grow factor_ok (m_pHead m + m_iTotalSize m) (iSize - m_iTotalSize m)
                    (m_iMinBlockSize m) (m_iMaxBlockSize m) d) (\<lambda>p.
           case link_last p m of Multi h sz tot mn mx nx v n as na \<Rightarrow>
             if nx = sz then Inr (Multi h sz iSize mn mx nx v n as na) else Inl AssertFail))"

section \<open>Operations\<close>

text \<open>
  The allocators of the indices \<open>is\<close> whose block size satisfies \<open>P\<close> are tried in that order.
  The result: the address, the index of the allocator, and the index in it.
\<close>

fun scan :: "(nat \<Rightarrow> bool) \<Rightarrow> nat list \<Rightarrow> callocator list \<Rightarrow> ((nat \<times> nat \<times> nat) option \<times> callocator list) result" where
  "scan P [] as = Inr (None, as)"
| "scan P (i # is) as =
     (if P (ca_iBlockSize (as ! i))
      then bindE (ca_allocate2 (as ! i)) (\<lambda>(r, a).
             case r of Some (p, n) \<Rightarrow> Inr (Some (p, i, n), as[i := a]) | None \<Rightarrow> scan P is (as[i := a]))
      else scan P is as)"

text \<open>The address, the size of the block and its index.\<close>

fun multi_allocate2 :: "nat \<Rightarrow> multi \<Rightarrow> ((nat \<times> nat \<times> nat) option \<times> multi) result" where
  "multi_allocate2 need (Multi h sz tot mn mx nx v n as na) =
     bindE (scan (\<lambda>b. b \<ge> need) [0..<length as] as) (\<lambda>(r, as).
     case r of Some (p, i, k) \<Rightarrow> Inr (Some (p, v ! i, i * n + k), Multi h sz tot mn mx nx v n as na)
     | None \<Rightarrow> bindE (scan (\<lambda>b. b < need) (rev [0..<length as]) as) (\<lambda>(r, as).
       case r of Some (p, i, k) \<Rightarrow> Inr (Some (p, v ! i, i * n + k), Multi h sz tot mn mx nx v n as na)
       | None \<Rightarrow> (case na of
             None \<Rightarrow> Inr (None, Multi h sz tot mn mx nx v n as None)
           | Some m \<Rightarrow> bindE (multi_allocate2 need m) (\<lambda>(r, m).
               Inr (map_option (\<lambda>(p, b, k). (p, b, k + length as * n)) r,
                    Multi h sz tot mn mx nx v n as (Some m))))))"

definition multi_allocate :: "nat \<Rightarrow> multi \<Rightarrow> ((nat \<times> nat) option \<times> multi) result" where
  "multi_allocate need m =
     bindE (multi_allocate2 need m) (\<lambda>(r, m). Inr (map_option (\<lambda>(p, b, k). (p, b)) r, m))"

text \<open>The loop of \<open>deallocate2\<close>: the allocators after it, or the index left for the next region.\<close>

fun release_index :: "nat \<Rightarrow> nat \<Rightarrow> callocator list \<Rightarrow> (callocator list + nat) result" where
  "release_index n k [] = Inr (Inr k)"
| "release_index n k (a # as) =
     (if k \<le> n then bindE (ca_deallocate2 k a) (\<lambda>a. Inr (Inl (a # as)))
      else bindE (release_index n (k - n) as) (\<lambda>r. Inr (map_sum ((#) a) id r)))"

fun multi_deallocate2 :: "nat \<Rightarrow> multi \<Rightarrow> multi result" where
  "multi_deallocate2 k (Multi h sz tot mn mx nx v n as na) =
     bindE (release_index n k as) (\<lambda>r. case r of
       Inl as \<Rightarrow> Inr (Multi h sz tot mn mx nx v n as na)
     | Inr k \<Rightarrow> (case na of None \<Rightarrow> Inl AssertFail
         | Some m \<Rightarrow> bindE (multi_deallocate2 k m) (\<lambda>m. Inr (Multi h sz tot mn mx nx v n as (Some m)))))"

text \<open>The loop of \<open>deallocate\<close>; \<open>e\<close> is the end of the chunks before.\<close>

fun release_address :: "nat \<Rightarrow> nat \<Rightarrow> callocator list \<Rightarrow> callocator list result" where
  "release_address p e [] = Inl AssertFail"
| "release_address p e (a # as) =
     (let e = e + ca_iSize a in
      if p < e then bindE (ca_deallocate p a) (\<lambda>a. Inr (a # as))
      else bindE (release_address p e as) (\<lambda>as. Inr (a # as)))"

fun multi_deallocate :: "nat \<Rightarrow> multi \<Rightarrow> multi result" where
  "multi_deallocate p (Multi h sz tot mn mx nx v n as na) =
     (if p < h + sz
      then bindE (release_address p (h + multi_head_size) as) (\<lambda>as. Inr (Multi h sz tot mn mx nx v n as na))
      else case na of None \<Rightarrow> Inl AssertFail
         | Some m \<Rightarrow> bindE (multi_deallocate p m) (\<lambda>m. Inr (Multi h sz tot mn mx nx v n as (Some m))))"

text \<open>\<open>None\<close> is the null pointer, which has the index 0.\<close>

fun multi_getAbsolute :: "nat \<Rightarrow> multi \<Rightarrow> nat option result" where
  "multi_getAbsolute k (Multi h sz tot mn mx nx v n as na) =
     (if k = 0 then Inr None
      else if k \<le> length as * n
      then let i = (k - 1) div n in
           if i < length as then bindE (getAbsolute (k - i * n) (ca_chunk (as ! i))) (\<lambda>p. Inr (Some p))
           else Inl OutOfBounds
      else case na of None \<Rightarrow> Inl AssertFail | Some m \<Rightarrow> multi_getAbsolute (k - length as * n) m)"

fun relative_in :: "nat \<Rightarrow> nat \<Rightarrow> nat \<Rightarrow> callocator list \<Rightarrow> nat result" where
  "relative_in p i n [] = Inl AssertFail"
| "relative_in p i n (a # as) =
     (if p < ca_pHead a + ca_iSize a then bindE (getRelative p (ca_chunk a)) (\<lambda>k. Inr (i * n + k))
      else relative_in p (i + 1) n as)"

fun multi_getRelative :: "nat \<Rightarrow> multi \<Rightarrow> nat result" where
  "multi_getRelative p (Multi h sz tot mn mx nx v n as na) =
     (if p < h + sz then relative_in p 0 n as
      else case na of None \<Rightarrow> Inr 0
         | Some m \<Rightarrow> bindE (multi_getRelative p m) (\<lambda>k. Inr (length as * n + k)))"

fun multi_rebuild :: "multi \<Rightarrow> multi result" where
  "multi_rebuild (Multi h sz tot mn mx nx v n as na) =
     bindE (map_result ca_rebuild as) (\<lambda>as. case na of
         None \<Rightarrow> Inr (Multi h sz tot mn mx nx v n as None)
       | Some m \<Rightarrow> bindE (multi_rebuild m) (\<lambda>m. Inr (Multi h sz tot mn mx nx v n as (Some m))))"

fun multi_getBlockSize :: "multi \<Rightarrow> nat list" where
  "multi_getBlockSize (Multi h sz tot mn mx nx v n as na) =
     v @ (case na of None \<Rightarrow> [] | Some m \<Rightarrow> multi_getBlockSize m)"

fun multi_getCapacity :: "multi \<Rightarrow> nat" where
  "multi_getCapacity (Multi h sz tot mn mx nx v n as na) =
     sum_list (List.map (\<lambda>a. getCapacity (ca_chunk a)) as) +
     (case na of None \<Rightarrow> 0 | Some m \<Rightarrow> multi_getCapacity m)"

fun singleBlockChunkCount :: "multi \<Rightarrow> nat list" where
  "singleBlockChunkCount (Multi h sz tot mn mx nx v n as na) =
     n # (case na of None \<Rightarrow> [] | Some m \<Rightarrow> singleBlockChunkCount m)"

fun allBlockChunkCount :: "multi \<Rightarrow> nat" where
  "allBlockChunkCount (Multi h sz tot mn mx nx v n as na) =
     n * length v + (case na of None \<Rightarrow> 0 | Some m \<Rightarrow> allBlockChunkCount m)"

section \<open>Well-formed allocators and their free indices\<close>

definition ca_inv :: "nat \<Rightarrow> callocator \<Rightarrow> bool" where
  "ca_inv n a \<longleftrightarrow> (\<exists>fs. free_list (ca_chunk a) fs) \<and> iBlockCount (ca_chunk a) = n \<and>
     iBlockSize (ca_chunk a) = ca_iBlockSize a \<and>
     ca_iSize a = ca_head_size + chunk_head_size + ca_iBlockSize a * n \<and>
     pData (ca_chunk a) = ca_pHead a + ca_head_size + chunk_head_size"

definition ca_free :: "callocator \<Rightarrow> nat set" where
  "ca_free a = Suc ` free_blocks (ca_chunk a)"

definition ca_same :: "callocator \<Rightarrow> callocator \<Rightarrow> bool" where
  "ca_same a a' \<longleftrightarrow> ca_pHead a' = ca_pHead a \<and> ca_iSize a' = ca_iSize a \<and> ca_iBlockSize a' = ca_iBlockSize a \<and>
     same_shape (ca_chunk a) (ca_chunk a')"

definition ca_address :: "nat \<Rightarrow> callocator \<Rightarrow> nat" where
  "ca_address k a = pData (ca_chunk a) + (k - 1) * iBlockSize (ca_chunk a)"

lemma ca_free_sub: "ca_inv n a \<Longrightarrow> ca_free a \<subseteq> {1..n}"
proof -
  assume "ca_inv n a"
  then obtain fs where "free_list (ca_chunk a) fs" "iBlockCount (ca_chunk a) = n" by (auto simp: ca_inv_def)
  then have "free_blocks (ca_chunk a) \<subseteq> {..<n}" by (simp add: free_list_blocks, simp add: free_list_def)
  then show ?thesis by (auto simp: ca_free_def)
qed

lemma ca_same_refl [simp]: "ca_same a a"
  by (simp add: ca_same_def same_shape_def)

lemma ca_allocate2_ok:
  assumes "ca_inv n a"
  shows "ca_free a = {} \<and> ca_allocate2 a = Inr (None, a) \<or>
    (\<exists>k a'. ca_allocate2 a = Inr (Some (ca_address k a, k), a') \<and> k \<in> ca_free a \<and> ca_inv n a' \<and>
      ca_same a a' \<and> ca_free a' = ca_free a - {k})"
proof -
  obtain fs where fs: "free_list (ca_chunk a) fs" using assms by (auto simp: ca_inv_def)
  show ?thesis
  proof (cases fs)
    case Nil
    with fs show ?thesis
      by (simp add: ca_free_def free_list_blocks ca_allocate2_def allocate2_def Let_def allocate_none)
  next
    case (Cons b gs)
    with fs have f: "free_list (ca_chunk a) (b # gs)" by simp
    from allocate_block[OF f] obtain c where c: "free_list c gs" "same_shape (ca_chunk a) c"
      "allocate (ca_chunk a) = Inr (Some (pData (ca_chunk a) + b * iBlockSize (ca_chunk a)), c)" by blast
    have b: "firstAvailableBlock (ca_chunk a) = b" "b \<notin> set gs" using f by (simp_all add: free_list_def)
    have "ca_allocate2 a = Inr (Some (ca_address (Suc b) a, Suc b), a\<lparr>ca_chunk := c\<rparr>)"
      using b c(3) by (simp add: ca_allocate2_def allocate2_def Let_def ca_address_def)
    moreover have "ca_inv n (a\<lparr>ca_chunk := c\<rparr>)" "ca_same a (a\<lparr>ca_chunk := c\<rparr>)"
      using assms c by (auto simp: ca_inv_def ca_same_def same_shape_def)
    moreover have "Suc b \<in> ca_free a" "ca_free (a\<lparr>ca_chunk := c\<rparr>) = ca_free a - {Suc b}"
      using free_list_blocks[OF f] free_list_blocks[OF c(1)] b(2) by (auto simp: ca_free_def)
    ultimately show ?thesis by blast
  qed
qed

lemma ca_deallocate2_ok:
  assumes "ca_inv n a" "k \<in> {1..n}" "k \<notin> ca_free a"
  shows "\<exists>a'. ca_deallocate2 k a = Inr a' \<and> ca_inv n a' \<and> ca_same a a' \<and> ca_free a' = insert k (ca_free a)"
proof -
  obtain fs where fs: "free_list (ca_chunk a) fs" using assms by (auto simp: ca_inv_def)
  obtain b where b: "k = Suc b" "b < iBlockCount (ca_chunk a)" "b \<notin> set fs"
    using assms fs by (cases k) (auto simp: ca_inv_def ca_free_def free_list_blocks)
  from deallocate_block[OF fs b(2,3)] obtain c where c: "free_list c (b # fs)" "same_shape (ca_chunk a) c"
    "deallocate (pData (ca_chunk a) + b * iBlockSize (ca_chunk a)) (ca_chunk a) = Inr c" by blast
  have "ca_deallocate2 k a = Inr (a\<lparr>ca_chunk := c\<rparr>)"
    using b c(3) by (simp add: ca_deallocate2_def deallocate2_def)
  moreover have "ca_inv n (a\<lparr>ca_chunk := c\<rparr>)" "ca_same a (a\<lparr>ca_chunk := c\<rparr>)"
    using assms c by (auto simp: ca_inv_def ca_same_def same_shape_def)
  moreover have "ca_free (a\<lparr>ca_chunk := c\<rparr>) = insert k (ca_free a)"
    using free_list_blocks[OF fs] free_list_blocks[OF c(1)] b(1) by (auto simp: ca_free_def)
  ultimately show ?thesis by blast
qed

text \<open>The free indices of a row of allocators of \<open>n\<close> blocks each.\<close>

fun level_free :: "nat \<Rightarrow> callocator list \<Rightarrow> nat set" where
  "level_free n [] = {}"
| "level_free n (a # as) = ca_free a \<union> (+) n ` level_free n as"

lemma level_free_iff:
  "x \<in> level_free n as \<longleftrightarrow> (\<exists>i k. i < length as \<and> k \<in> ca_free (as ! i) \<and> x = i * n + k)"
proof (induction as arbitrary: x)
  case (Cons a as)
  have "x \<in> level_free n (a # as) \<longleftrightarrow> x \<in> ca_free a \<or>
      (\<exists>i k. i < length as \<and> k \<in> ca_free (as ! i) \<and> x = Suc i * n + k)"
    unfolding level_free.simps Un_iff image_iff Bex_def Cons.IH by (auto simp: add.assoc)
  also have "\<dots> \<longleftrightarrow> (\<exists>i k. i < length (a # as) \<and> k \<in> ca_free ((a # as) ! i) \<and> x = i * n + k)"
  proof (intro iffI; elim disjE exE conjE)
    assume "x \<in> ca_free a"
    then show "\<exists>i k. i < length (a # as) \<and> k \<in> ca_free ((a # as) ! i) \<and> x = i * n + k"
      by (intro exI[of _ 0] exI[of _ x]) simp
  next
    fix i k assume "i < length as" "k \<in> ca_free (as ! i)" "x = Suc i * n + k"
    then show "\<exists>i k. i < length (a # as) \<and> k \<in> ca_free ((a # as) ! i) \<and> x = i * n + k"
      by (intro exI[of _ "Suc i"] exI[of _ k]) simp
  next
    fix i k assume *: "i < length (a # as)" "k \<in> ca_free ((a # as) ! i)" "x = i * n + k"
    then show "x \<in> ca_free a \<or> (\<exists>i k. i < length as \<and> k \<in> ca_free (as ! i) \<and> x = Suc i * n + k)"
      by (cases i) auto
  qed
  finally show ?case .
qed simp

lemma index_unique:
  fixes n :: nat
  assumes "i * n + k = j * n + l" "k \<in> {1..n}" "l \<in> {1..n}"
  shows "i = j \<and> k = l"
proof -
  have "(i * n + (k - 1)) = (j * n + (l - 1))" "k - 1 < n" "l - 1 < n" using assms by auto
  then have "(i * n + (k - 1)) div n = (j * n + (l - 1)) div n"
    "(i * n + (k - 1)) mod n = (j * n + (l - 1)) mod n" by simp_all
  then have "i = j" "k - 1 = l - 1" using \<open>k - 1 < n\<close> \<open>l - 1 < n\<close> by simp_all
  with assms show ?thesis by auto
qed

lemma level_free_sub: "list_all (ca_inv n) as \<Longrightarrow> level_free n as \<subseteq> {1..length as * n}"
proof
  fix x assume inv: "list_all (ca_inv n) as" and "x \<in> level_free n as"
  then obtain i k where i: "i < length as" "k \<in> ca_free (as ! i)" "x = i * n + k"
    by (auto simp: level_free_iff)
  with ca_free_sub[of n "as ! i"] inv have "k \<in> {1..n}" by (auto simp: list_all_length)
  moreover have "Suc i * n \<le> length as * n" using i(1) by (intro mult_right_mono) auto
  ultimately show "x \<in> {1..length as * n}" using i(3) by auto
qed

lemma level_free_take:
  assumes "list_all (ca_inv n) as" "i < length as" "k \<in> ca_free (as ! i)" "ca_free a' = ca_free (as ! i) - {k}"
  shows "level_free n (as[i := a']) = level_free n as - {i * n + k}"
proof (rule set_eqI)
  fix x
  have k: "l \<in> {1..n}" if "j < length as" "l \<in> ca_free (as ! j)" for j l
    using ca_free_sub[of n "as ! j"] that assms(1) by (auto simp: list_all_length)
  show "x \<in> level_free n (as[i := a']) \<longleftrightarrow> x \<in> level_free n as - {i * n + k}"
  proof
    assume "x \<in> level_free n (as[i := a'])"
    then obtain j l where j: "j < length as" "l \<in> ca_free (as[i := a'] ! j)" "x = j * n + l"
      unfolding level_free_iff length_list_update by blast
    show "x \<in> level_free n as - {i * n + k}"
    proof (cases "j = i")
      case True
      with j(2) assms(2,4) have "l \<in> ca_free (as ! i)" "l \<noteq> k" by simp_all
      with j(3) True assms(2) show ?thesis using level_free_iff[of x n as] by auto
    next
      case False
      with j have l: "l \<in> ca_free (as ! j)" by simp
      with index_unique[of j n l i k] k[OF j(1) l] k[OF assms(2,3)] False j(3)
      have "x \<noteq> i * n + k" by auto
      with j l show ?thesis using level_free_iff[of x n as] by auto
    qed
  next
    assume "x \<in> level_free n as - {i * n + k}"
    then obtain j l where j: "j < length as" "l \<in> ca_free (as ! j)" "x = j * n + l" "x \<noteq> i * n + k"
      using level_free_iff[of x n as] by blast
    then have "l \<in> ca_free (as[i := a'] ! j)" using assms(2,4) by (cases "j = i") auto
    with j show "x \<in> level_free n (as[i := a'])" using level_free_iff[of x n "as[i := a']"] by auto
  qed
qed

lemma scan_ok:
  assumes "list_all (ca_inv n) as" "set is \<subseteq> {..<length as}"
  shows "scan P is as = Inr (None, as) \<and> (\<forall>i\<in>set is. P (ca_iBlockSize (as ! i)) \<longrightarrow> ca_free (as ! i) = {}) \<or>
    (\<exists>i k a'. scan P is as = Inr (Some (ca_address k (as ! i), i, k), as[i := a']) \<and> i \<in> set is \<and>
      P (ca_iBlockSize (as ! i)) \<and> k \<in> ca_free (as ! i) \<and> ca_inv n a' \<and> ca_same (as ! i) a' \<and>
      ca_free a' = ca_free (as ! i) - {k})"
  using assms
proof (induction "is")
  case (Cons i "is")
  then have i: "i < length as" "ca_inv n (as ! i)" by (simp_all add: list_all_length)
  show ?case
  proof (cases "P (ca_iBlockSize (as ! i))")
    case True
    from ca_allocate2_ok[OF i(2)] show ?thesis
    proof (elim disjE conjE exE)
      assume "ca_free (as ! i) = {}" "ca_allocate2 (as ! i) = Inr (None, as ! i)"
      with Cons True show ?thesis by fastforce
    next
      fix k a' assume "ca_allocate2 (as ! i) = Inr (Some (ca_address k (as ! i), k), a')"
        "k \<in> ca_free (as ! i)" "ca_inv n a'" "ca_same (as ! i) a'" "ca_free a' = ca_free (as ! i) - {k}"
      with True show ?thesis by (intro disjI2 exI[of _ i] exI[of _ k] exI[of _ a']) simp
    qed
  next
    case False
    with Cons show ?thesis by fastforce
  qed
qed simp

lemma release_index_ok:
  assumes "list_all (ca_inv n) as" "k \<in> {1..length as * n}" "k \<notin> level_free n as"
  shows "\<exists>as'. release_index n k as = Inr (Inl as') \<and> list_all (ca_inv n) as' \<and>
    list_all2 ca_same as as' \<and> level_free n as' = insert k (level_free n as)"
  using assms
proof (induction as arbitrary: k)
  case (Cons a as)
  show ?case
  proof (cases "k \<le> n")
    case True
    then have "k \<in> {1..n}" "k \<notin> ca_free a" using Cons.prems by auto
    with ca_deallocate2_ok[of n a k] Cons.prems obtain a' where
      "ca_deallocate2 k a = Inr a'" "ca_inv n a'" "ca_same a a'" "ca_free a' = insert k (ca_free a)" by auto
    with True Cons.prems show ?thesis by (auto intro!: list_all2_refl)
  next
    case False
    then have k: "k - n \<in> {1..length as * n}" "k - n \<notin> level_free n as" "k = n + (k - n)"
      using Cons.prems by (auto simp: image_iff)
    obtain as' where
      "release_index n (k - n) as = Inr (Inl as')" "list_all (ca_inv n) as'" "list_all2 ca_same as as'"
      "level_free n as' = insert (k - n) (level_free n as)"
      using Cons.IH[OF _ k(1,2)] Cons.prems(1) by auto
    with False Cons.prems(1) show ?thesis by auto
  qed
qed simp

lemma release_index_skip: "length as * n < k \<Longrightarrow> release_index n k as = Inr (Inr (k - length as * n))"
  by (induction as arbitrary: k) (auto simp: algebra_simps)

section \<open>The invariant\<close>

text \<open>The allocators lie one after the other from \<open>e\<close> on.\<close>

fun placed :: "nat \<Rightarrow> callocator list \<Rightarrow> bool" where
  "placed e [] = True"
| "placed e (a # as) \<longleftrightarrow> ca_pHead a = e \<and> placed (e + ca_iSize a) as"

fun multi_inv :: "multi \<Rightarrow> bool" where
  "multi_inv (Multi h sz tot mn mx nx v n as na) \<longleftrightarrow>
     n > 0 \<and> v = List.map ca_iBlockSize as \<and> list_all (ca_inv n) as \<and> placed (h + multi_head_size) as \<and>
     h + multi_head_size + sum_list (List.map ca_iSize as) \<le> h + sz \<and>
     (case na of None \<Rightarrow> True | Some m \<Rightarrow> multi_inv m \<and> m_pHead m = h + sz \<and> nx = sz)"

fun multi_total :: "multi \<Rightarrow> nat" where
  "multi_total (Multi h sz tot mn mx nx v n as na) =
     length as * n + (case na of None \<Rightarrow> 0 | Some m \<Rightarrow> multi_total m)"

fun multi_free :: "multi \<Rightarrow> nat set" where
  "multi_free (Multi h sz tot mn mx nx v n as na) =
     level_free n as \<union> (case na of None \<Rightarrow> {} | Some m \<Rightarrow> (+) (length as * n) ` multi_free m)"

definition multi_rep :: "multi \<Rightarrow> nat set \<Rightarrow> nat set \<Rightarrow> bool" where
  "multi_rep m U F \<longleftrightarrow> multi_inv m \<and> U = {1..multi_total m} \<and> F = multi_free m"

lemma multi_free_sub: "multi_inv m \<Longrightarrow> multi_free m \<subseteq> {1..multi_total m}"
proof (induction m rule: multi_free.induct)
  case (1 h sz tot mn mx nx v n as na)
  then have "level_free n as \<subseteq> {1..length as * n}" by (intro level_free_sub) simp
  with 1 show ?case by (cases na) (fastforce simp: subset_iff)+
qed

text \<open>What a call changes: not the layout, nor the blocks themselves.\<close>

lemma list_all2_sameD:
  assumes "list_all2 ca_same as as'"
  shows "List.map ca_iBlockSize as' = List.map ca_iBlockSize as" "List.map ca_iSize as' = List.map ca_iSize as"
    "placed e as' = placed e as" "length as' = length as"
proof -
  show "List.map ca_iBlockSize as' = List.map ca_iBlockSize as" "List.map ca_iSize as' = List.map ca_iSize as"
    "length as' = length as"
    using assms by (induction rule: list_all2_induct) (simp_all add: ca_same_def)
  show "placed e as' = placed e as"
    using assms by (induction arbitrary: e rule: list_all2_induct) (simp_all add: ca_same_def)
qed

lemma same_update:
  "i < length as \<Longrightarrow> ca_same (as ! i) a' \<Longrightarrow> list_all2 ca_same as (as[i := a'])"
  by (auto simp: list_all2_conv_all_nth nth_list_update)

lemma multi_level_inv:
  assumes "multi_inv (Multi h sz tot mn mx nx v n as na)" "list_all (ca_inv n) as'" "list_all2 ca_same as as'"
  shows "multi_inv (Multi h sz tot mn mx nx v n as' na)"
  using assms(1,2) list_all2_sameD[OF assms(3)] by simp

lemma list_all_update: "list_all P xs \<Longrightarrow> P x \<Longrightarrow> list_all P (xs[i := x])"
  using set_update_subset_insert[of xs i x] by (auto simp: list_all_iff)

section \<open>Allocation and release\<close>

text \<open>The block returned is free, known to \<open>getAbsolute\<close> under its index, and no longer free.\<close>

definition allocated :: "multi \<Rightarrow> nat \<Rightarrow> nat \<Rightarrow> multi \<Rightarrow> bool" where
  "allocated m p k m' \<longleftrightarrow> k \<in> multi_free m \<and> multi_inv m' \<and> multi_free m' = multi_free m - {k} \<and>
     multi_total m' = multi_total m \<and> m_pHead m' = m_pHead m \<and> multi_getAbsolute k m = Inr (Some p)"

lemma getAbsolute_level:
  assumes "list_all (ca_inv n) as" "i < length as" "k \<in> {1..n}"
  shows "multi_getAbsolute (i * n + k) (Multi h sz tot mn mx nx v n as na) = Inr (Some (ca_address k (as ! i)))"
proof -
  have "Suc i * n \<le> length as * n" using assms(2) by (intro mult_right_mono) auto
  then have le: "i * n + k \<le> length as * n" "i * n + k \<noteq> 0" using assms(3) by auto
  have d: "(i * n + k - Suc 0) div n = i"
  proof -
    have "i * n + k - Suc 0 = (k - 1) + i * n" "k - 1 < n" using assms(3) by auto
    then show ?thesis by simp
  qed
  have "iBlockCount (ca_chunk (as ! i)) = n" using assms(1,2) by (auto simp: list_all_length ca_inv_def)
  then show ?thesis using le assms(2,3) by (simp add: d Let_def getAbsolute_def ca_address_def)
qed

lemma allocated_level:
  assumes inv: "multi_inv (Multi h sz tot mn mx nx v n as na)" and i: "i < length as" "k \<in> ca_free (as ! i)"
    and a': "ca_inv n a'" "ca_same (as ! i) a'" "ca_free a' = ca_free (as ! i) - {k}"
  shows "allocated (Multi h sz tot mn mx nx v n as na) (ca_address k (as ! i)) (i * n + k)
    (Multi h sz tot mn mx nx v n (as[i := a']) na)"
proof -
  have l: "list_all (ca_inv n) as" using inv by simp
  then have "ca_inv n (as ! i)" using i(1) by (simp add: list_all_length)
  then have k: "k \<in> {1..n}" using ca_free_sub i(2) by blast
  have m: "i * n + k \<in> level_free n as" using i level_free_iff by blast
  have "x \<noteq> i * n + k" if "x \<in> (+) (length as * n) ` multi_free m'" "na = Some m'" for x m'
  proof -
    have "1 \<le> y" if "y \<in> multi_free m'" for y
      using that \<open>na = Some m'\<close> multi_free_sub[of m'] inv by auto
    moreover have "i * n + k \<le> length as * n" using m level_free_sub[OF l] by auto
    ultimately show ?thesis using that(1) by fastforce
  qed
  then have "multi_free (Multi h sz tot mn mx nx v n (as[i := a']) na) =
      multi_free (Multi h sz tot mn mx nx v n as na) - {i * n + k}"
    using level_free_take[OF l i a'(3)] by (cases na) (auto simp del: level_free.simps)
  with m show ?thesis
    unfolding allocated_def
    using multi_level_inv[OF inv list_all_update[OF l a'(1)] same_update[OF i(1) a'(2)]]
      getAbsolute_level[OF l i(1) k] by simp
qed

lemma allocated_next:
  assumes inv: "multi_inv (Multi h sz tot mn mx nx v n as (Some m))" and a: "allocated m p k m'"
    and empty: "level_free n as = {}"
  shows "allocated (Multi h sz tot mn mx nx v n as (Some m)) p (k + length as * n)
    (Multi h sz tot mn mx nx v n as (Some m'))"
proof -
  have "k \<in> multi_free m" "1 \<le> k" using a multi_free_sub[of m] inv by (auto simp: allocated_def)
  moreover have "multi_getAbsolute k m = Inr (Some p)" using a by (simp add: allocated_def)
  ultimately show ?thesis using inv a empty
    unfolding allocated_def by (auto simp: add.commute)
qed

lemma multi_allocate2_ok:
  "multi_inv m \<Longrightarrow> multi_free m = {} \<and> multi_allocate2 need m = Inr (None, m) \<or>
    (\<exists>p b k m'. multi_allocate2 need m = Inr (Some (p, b, k), m') \<and> allocated m p k m')"
proof (induction need m rule: multi_allocate2.induct)
  case (1 need h sz tot mn mx nx v n as na)
  have l: "list_all (ca_inv n) as" using "1.prems" by simp
  have sub: "set [0..<length as] \<subseteq> {..<length as}" "set (rev [0..<length as]) \<subseteq> {..<length as}" by auto
  let ?m = "Multi h sz tot mn mx nx v n as na"
  from scan_ok[OF l sub(1), of "\<lambda>b. b \<ge> need"] show ?case
  proof (elim disjE exE conjE)
    fix i k a' assume "scan (\<lambda>b. b \<ge> need) [0..<length as] as = Inr (Some (ca_address k (as ! i), i, k), as[i := a'])"
      and i: "i \<in> set [0..<length as]" "k \<in> ca_free (as ! i)" "ca_inv n a'" "ca_same (as ! i) a'"
      "ca_free a' = ca_free (as ! i) - {k}"
    with allocated_level[OF "1.prems", of i k a'] show ?thesis by auto
  next
    assume up: "scan (\<lambda>b. b \<ge> need) [0..<length as] as = Inr (None, as)"
      "\<forall>i\<in>set [0..<length as]. need \<le> ca_iBlockSize (as ! i) \<longrightarrow> ca_free (as ! i) = {}"
    from scan_ok[OF l sub(2), of "\<lambda>b. b < need"] show ?thesis
    proof (elim disjE exE conjE)
      fix i k a' assume "scan (\<lambda>b. b < need) (rev [0..<length as]) as = Inr (Some (ca_address k (as ! i), i, k), as[i := a'])"
        and i: "i \<in> set (rev [0..<length as])" "k \<in> ca_free (as ! i)" "ca_inv n a'" "ca_same (as ! i) a'"
        "ca_free a' = ca_free (as ! i) - {k}"
      with up(1) allocated_level[OF "1.prems", of i k a'] show ?thesis by auto
    next
      assume down: "scan (\<lambda>b. b < need) (rev [0..<length as]) as = Inr (None, as)"
        "\<forall>i\<in>set (rev [0..<length as]). ca_iBlockSize (as ! i) < need \<longrightarrow> ca_free (as ! i) = {}"
      have "ca_free (as ! i) = {}" if "i < length as" for i
        using up(2) down(2) that by (cases "need \<le> ca_iBlockSize (as ! i)") auto
      then have empty: "level_free n as = {}" by (auto simp: level_free_iff)
      show ?thesis
      proof (cases na)
        case None
        with up(1) down(1) empty show ?thesis by simp
      next
        case (Some m)
        have "multi_inv m" using "1.prems" Some by simp
        from "1.IH"[OF up(1) refl refl down(1) refl refl Some this] show ?thesis
        proof (elim disjE exE conjE, goal_cases)
          case 1
          with up(1) down(1) empty Some show ?case by simp
        next
          case (2 p b k m')
          with allocated_next[of h sz tot mn mx nx v n as m p k m'] up(1) down(1) empty Some "1.prems"
          show ?case by simp
        qed
      qed
    qed
  qed
qed

lemma multi_deallocate2_ok:
  "multi_inv m \<Longrightarrow> k \<in> {1..multi_total m} \<Longrightarrow> k \<notin> multi_free m \<Longrightarrow>
    \<exists>m'. multi_deallocate2 k m = Inr m' \<and> multi_inv m' \<and> multi_free m' = insert k (multi_free m) \<and>
      multi_total m' = multi_total m \<and> m_pHead m' = m_pHead m"
proof (induction k m rule: multi_deallocate2.induct)
  case (1 k h sz tot mn mx nx v n as na)
  have l: "list_all (ca_inv n) as" using "1.prems" by simp
  show ?case
  proof (cases "k \<le> length as * n")
    case True
    then have "k \<in> {1..length as * n}" "k \<notin> level_free n as" using "1.prems" by auto
    from release_index_ok[OF l this] obtain as' where as': "release_index n k as = Inr (Inl as')"
      "list_all (ca_inv n) as'" "list_all2 ca_same as as'" "level_free n as' = insert k (level_free n as)" by blast
    with multi_level_inv[OF "1.prems"(1) as'(2,3)] list_all2_sameD(4)[OF as'(3)] show ?thesis
      by (cases na) simp_all
  next
    case False
    then obtain m where m: "na = Some m" using "1.prems" by (cases na) auto
    have r: "release_index n k as = Inr (Inr (k - length as * n))" using False by (intro release_index_skip) simp
    have k: "k - length as * n \<in> {1..multi_total m}" "k - length as * n \<notin> multi_free m"
      "k = length as * n + (k - length as * n)"
      using "1.prems" False m by (auto simp: image_iff)
    have "multi_inv m" using "1.prems" m by simp
    from "1.IH"[OF r refl m this k(1,2)] obtain m' where m': "multi_deallocate2 (k - length as * n) m = Inr m'"
      "multi_inv m'" "multi_free m' = insert (k - length as * n) (multi_free m)" "multi_total m' = multi_total m"
      "m_pHead m' = m_pHead m" by blast
    have "insert k (level_free n as \<union> (+) (length as * n) ` multi_free m) =
        level_free n as \<union> (+) (length as * n) ` insert (k - length as * n) (multi_free m)"
      using k(3) by auto
    with r m m' "1.prems"(1) show ?thesis by simp
  qed
qed

text \<open>Requests by size, blocks by index.\<close>

definition multi_get :: "nat \<Rightarrow> multi \<Rightarrow> (nat option \<times> multi) result" where
  "multi_get need m = bindE (multi_allocate2 need m) (\<lambda>(r, m). Inr (map_option (\<lambda>(p, b, k). k) r, m))"

interpretation multi: block_allocator multi_get multi_deallocate2 multi_rep
proof unfold_locales
  show "\<exists>m'. multi_get need m = Inr (None, m') \<and> multi_rep m' U {}" if "multi_rep m U {}" for need m U
    using that multi_allocate2_ok[of m need] by (auto simp: multi_rep_def multi_get_def allocated_def)
  show "\<exists>k m'. multi_get need m = Inr (Some k, m') \<and> k \<in> F \<and> multi_rep m' U (F - {k})"
    if "multi_rep m U F" "F \<noteq> {}" for need m U F
    using that multi_allocate2_ok[of m need] by (auto simp: multi_rep_def multi_get_def allocated_def)
  show "\<exists>m'. multi_deallocate2 k m = Inr m' \<and> multi_rep m' U (insert k F)"
    if "multi_rep m U F" "k \<in> U - F" for k m U F
    using that multi_deallocate2_ok[of m k] by (auto simp: multi_rep_def)
  show "F \<subseteq> U" if "multi_rep m U F" for m U F
    using that multi_free_sub by (auto simp: multi_rep_def)
qed

section \<open>A new allocator\<close>

lemma ca_create_ok:
  assumes "8 < b" "0 < n" "b * n \<le> length d" "n < 2 ^ 64"
  shows "\<exists>a. ca_create addr (ca_head_size + chunk_head_size + b * n) b d = Inr a \<and> ca_inv n a \<and>
    ca_free a = {1..n} \<and> ca_pHead a = addr \<and> ca_iBlockSize a = b \<and>
    ca_iSize a = ca_head_size + chunk_head_size + b * n"
proof -
  have "n * b \<le> length d" using assms(3) by (simp add: mult.commute)
  from chunk_create_ok[OF assms(1) this assms(4), of "addr + ca_head_size"] obtain c where
    c: "chunk_create (addr + ca_head_size) b n d = Inr c" "free_list c [0..<n]" "iBlockSize c = b"
    "iBlockCount c = n" "pData c = addr + ca_head_size + chunk_head_size" by blast
  have "(ca_head_size + chunk_head_size + b * n - ca_head_size - chunk_head_size) div b = n" "0 < b * n"
    using assms(1,2) by simp_all
  then have "ca_create addr (ca_head_size + chunk_head_size + b * n) b d = Inr \<lparr>ca_pHead = addr,
      ca_iSize = ca_head_size + chunk_head_size + b * n, ca_iBlockSize = b, ca_chunk = c\<rparr>"
    using assms(2) c(1) unfolding ca_create_def Let_def by simp
  moreover have "free_blocks c = {..<n}" using free_list_blocks[OF c(2)] by (simp add: atLeast0LessThan)
  ultimately show ?thesis using c by (auto simp: ca_inv_def ca_free_def image_Suc_lessThan)
qed

definition alloc_size :: "nat \<Rightarrow> nat \<Rightarrow> nat" where
  "alloc_size n b = ca_head_size + chunk_head_size + b * n"

lemma make_allocators_ok:
  assumes "list_all (\<lambda>b. 8 < b) bs" "0 < n" "n < 2 ^ 64" "sum_list (List.map (alloc_size n) bs) \<le> length d"
    "sum_list (List.map (alloc_size n) bs) < 2 ^ 64"
  shows "\<exists>as. make_allocators addr n bs d = Inr as \<and> List.map ca_iBlockSize as = bs \<and> list_all (ca_inv n) as \<and>
    placed addr as \<and> List.map ca_iSize as = List.map (alloc_size n) bs \<and>
    list_all (\<lambda>a. ca_free a = {1..n}) as"
  using assms
proof (induction bs arbitrary: addr d)
  case (Cons b bs)
  let ?sz = "alloc_size n b"
  have m: "ca_head_size + calcMemSize b n = ?sz"
    using Cons.prems(5) by (simp add: calcMemSize_def alloc_size_def)
  have l: "b * n \<le> length (drop (ca_head_size + chunk_head_size) d)"
    using Cons.prems(4) by (simp add: alloc_size_def)
  obtain a where a: "ca_create addr ?sz b (drop (ca_head_size + chunk_head_size) d) = Inr a" "ca_inv n a"
    "ca_free a = {1..n}" "ca_pHead a = addr" "ca_iBlockSize a = b" "ca_iSize a = ?sz"
    using ca_create_ok[OF _ Cons.prems(2) l Cons.prems(3), of addr] Cons.prems(1) unfolding alloc_size_def by auto
  have "sum_list (List.map (alloc_size n) bs) \<le> length (drop ?sz d)" using Cons.prems(4) by simp
  with Cons.IH[of "drop ?sz d" "addr + ?sz"] Cons.prems obtain as where
    "make_allocators (addr + ?sz) n bs (drop ?sz d) = Inr as" "List.map ca_iBlockSize as = bs"
    "list_all (ca_inv n) as" "placed (addr + ?sz) as" "List.map ca_iSize as = List.map (alloc_size n) bs"
    "list_all (\<lambda>a. ca_free a = {1..n}) as" by auto
  with a m show ?case by (simp add: Let_def)
qed simp

lemma level_free_all:
  assumes "list_all (\<lambda>a. ca_free a = {1..n}) as" "0 < n"
  shows "level_free n as = {1..length as * n}"
  using assms
proof (induction as)
  case (Cons a as)
  have "(+) n ` {1..length as * n} = {n + 1..n + length as * n}" by (simp only: image_add_atLeastAtMost ac_simps)
  with Cons show ?case by auto
qed simp

lemma sum_alloc_size: "sum_list (List.map (alloc_size n) bs) =
    ca_head_size * length bs + chunk_head_size * length bs + sum_list bs * n"
  by (induction bs) (simp_all add: alloc_size_def algebra_simps)

lemma size_steps_ge: "x \<in> set (size_steps grow n maxB) \<Longrightarrow> n \<le> x"
proof (induction grow n maxB rule: size_steps.induct)
  case (1 grow n maxB)
  then show ?case by (subst (asm) size_steps.simps) (fastforce split: if_splits)
qed

lemma calc_layout:
  assumes "calc grow iSize minB maxB = Inr (v, n)" "8 < minB" "minB \<le> maxB"
  shows "list_all (\<lambda>b. 8 < b) v" "0 < n" "n \<le> iSize"
    "multi_head_size + sum_list (List.map (alloc_size n) v) \<le> iSize"
proof -
  let ?heads = "multi_head_size + ca_head_size * length v + chunk_head_size * length v"
  have v: "v = size_steps grow minB maxB @ [maxB]" "n = (iSize - ?heads) div sum_list v" "0 < n" "?heads < iSize"
    using assms(1) by (auto simp: calc_def Let_def split: if_splits)
  show "list_all (\<lambda>b. 8 < b) v" using assms(2,3) size_steps_ge by (fastforce simp: v(1) list_all_iff)
  show "0 < n" by fact
  show "n \<le> iSize" unfolding v(2) by (meson diff_le_self div_le_dividend order_trans)
  have "sum_list v * n \<le> iSize - ?heads" unfolding v(2) by simp
  with v(4) show "multi_head_size + sum_list (List.map (alloc_size n) v) \<le> iSize"
    unfolding sum_alloc_size by linarith
qed

lemma multi_create_ok:
  assumes "calc grow iSize minB maxB = Inr (v, n)" "8 < minB" "minB \<le> maxB" "iSize \<le> length d" "iSize < 2 ^ 64"
  shows "\<exists>m. multi_create grow True addr iSize minB maxB d = Inr m \<and> multi_inv m \<and>
    multi_total m = length v * n \<and> multi_free m = {1..multi_total m} \<and> m_pHead m = addr \<and>
    m_iTotalSize m = iSize \<and> m_iSize m = iSize \<and> m_nallocator m = None"
proof -
  note c = calc_layout[OF assms(1-3)]
  have "sum_list (List.map (alloc_size n) v) \<le> length (drop multi_head_size d)"
    "sum_list (List.map (alloc_size n) v) < 2 ^ 64" "n < 2 ^ 64" using c(3,4) assms(4,5) by auto
  with make_allocators_ok[OF c(1,2), of "drop multi_head_size d" "addr + multi_head_size"] obtain as where
    as: "make_allocators (addr + multi_head_size) n v (drop multi_head_size d) = Inr as"
    "List.map ca_iBlockSize as = v" "list_all (ca_inv n) as" "placed (addr + multi_head_size) as"
    "List.map ca_iSize as = List.map (alloc_size n) v" "list_all (\<lambda>a. ca_free a = {1..n}) as" by blast
  have "length as = length v" using as(2) by (metis length_map)
  with as assms c level_free_all[OF as(6) c(2)] show ?thesis by (simp add: multi_create_def)
qed

text \<open>\<open>connect\<close> finds what \<open>create\<close> made.\<close>

lemma map_result_id: "list_all (\<lambda>x. f x = Inr x) xs \<Longrightarrow> map_result f xs = Inr xs"
  by (induction xs) simp_all

lemma multi_connect_created:
  assumes "multi_create grow True addr iSize minB maxB d = Inr m" "multi_inv m"
  shows "multi_connect grow m = Inr m"
proof -
  obtain v n as where c: "calc grow iSize minB maxB = Inr (v, n)"
    "m = Multi addr iSize iSize minB maxB 0 v n as None"
    using assms(1) by (auto simp: multi_create_def split: if_splits)
  have as: "list_all (ca_inv n) as" "length as = length v" "0 < n" using assms(2) c(2) by auto
  have "ca_connect a = Inr a" if a: "ca_inv n a" for a
  proof -
    have "8 < ca_iBlockSize a" using a free_list_size unfolding ca_inv_def by metis
    with a as(3) show ?thesis by (simp add: ca_inv_def ca_connect_def ca_head_size_def chunk_head_size_def)
  qed
  with as(1) have "map_result ca_connect as = Inr as"
    by (intro map_result_id) (auto simp: list_all_iff)
  with c as(2) show ?thesis by simp
qed

section \<open>Addresses and indices\<close>

lemma block_geometry:
  assumes "ca_inv n a" "k \<in> {1..n}"
  shows "ca_pHead a + ca_head_size \<le> ca_address k a" "ca_address k a < ca_pHead a + ca_iSize a"
    "getRelative (ca_address k a) (ca_chunk a) = Inr k" "ca_deallocate (ca_address k a) a = ca_deallocate2 k a"
proof -
  have s: "iBlockCount (ca_chunk a) = n" "iBlockSize (ca_chunk a) = ca_iBlockSize a" "8 < ca_iBlockSize a"
    "ca_iSize a = ca_head_size + chunk_head_size + ca_iBlockSize a * n"
    "pData (ca_chunk a) = ca_pHead a + ca_head_size + chunk_head_size"
    using assms(1) free_list_size[of "ca_chunk a"] unfolding ca_inv_def by metis+
  show ge: "ca_pHead a + ca_head_size \<le> ca_address k a" by (simp add: ca_address_def s)
  have "Suc (k - 1) * ca_iBlockSize a \<le> n * ca_iBlockSize a" using assms(2) by (intro mult_right_mono) auto
  then show "ca_address k a < ca_pHead a + ca_iSize a"
    using s(3) assms(2) by (auto simp: ca_address_def s(1,2,4,5) mult.commute)
  show "getRelative (ca_address k a) (ca_chunk a) = Inr k"
    using getRelative_getAbsolute[of k "ca_chunk a"] s assms(2) by (auto simp: getAbsolute_def ca_address_def)
  show "ca_deallocate (ca_address k a) a = ca_deallocate2 k a"
    using ge assms(2) s by (auto simp: ca_deallocate_def ca_deallocate2_def deallocate2_def ca_address_def)
qed

lemma placed_block:
  assumes "placed e as" "list_all (ca_inv n) as" "j < length as" "k \<in> {1..n}" "p = ca_address k (as ! j)"
  shows "e \<le> p" "p < e + sum_list (List.map ca_iSize as)" "relative_in p i n as = Inr ((i + j) * n + k)"
    "release_address p e as = bindE (ca_deallocate2 k (as ! j)) (\<lambda>a. Inr (as[j := a]))"
    "release_index n (j * n + k) as = bindE (ca_deallocate2 k (as ! j)) (\<lambda>a. Inr (Inl (as[j := a])))"
proof -
  have "e \<le> p \<and> p < e + sum_list (List.map ca_iSize as) \<and> relative_in p i n as = Inr ((i + j) * n + k) \<and>
    release_address p e as = bindE (ca_deallocate2 k (as ! j)) (\<lambda>a. Inr (as[j := a])) \<and>
    release_index n (j * n + k) as = bindE (ca_deallocate2 k (as ! j)) (\<lambda>a. Inr (Inl (as[j := a])))"
    using assms
  proof (induction as arbitrary: e i j)
    case (Cons a as)
    show ?case
    proof (cases j)
      case 0
      with Cons.prems block_geometry[of n a k] show ?thesis by (simp add: Let_def)
    next
      case (Suc j')
      with Cons.prems have p: "placed (e + ca_iSize a) as" "list_all (ca_inv n) as" "j' < length as"
        "p = ca_address k (as ! j')" "ca_pHead a = e" by simp_all
      from Cons.IH[OF p(1-3) assms(4) p(4), of "i + 1"] Suc p(5) assms(4) show ?thesis
        by (cases "ca_deallocate2 k (as ! j')") (simp_all add: Let_def algebra_simps)
    qed
  qed simp
  then show "e \<le> p" "p < e + sum_list (List.map ca_iSize as)" "relative_in p i n as = Inr ((i + j) * n + k)"
    "release_address p e as = bindE (ca_deallocate2 k (as ! j)) (\<lambda>a. Inr (as[j := a]))"
    "release_index n (j * n + k) as = bindE (ca_deallocate2 k (as ! j)) (\<lambda>a. Inr (Inl (as[j := a])))"
    by blast+
qed

lemma split_index:
  fixes n :: nat
  assumes "k \<in> {1..l * n}"
  obtains j r where "j < l" "r \<in> {1..n}" "k = j * n + r"
proof -
  have n: "0 < n" using assms by (cases n) auto
  let ?j = "(k - 1) div n" and ?r = "(k - 1) mod n + 1"
  have "?j * n + ?r = k" using assms div_mult_mod_eq[of "k - 1" n] by auto
  moreover have "k - 1 < l * n" using assms by auto
  then have "?j < l" by (rule less_mult_imp_div_less)
  moreover have "?r \<in> {1..n}" using n by (simp add: Suc_leI)
  ultimately show ?thesis using that by metis
qed

text \<open>
  Every index of the allocator names one block: the address \<open>getAbsolute\<close> gives for it leads
  \<open>getRelative\<close> back to it and is released like it.
\<close>

lemma multi_names:
  "multi_inv m \<Longrightarrow> k \<in> {1..multi_total m} \<Longrightarrow>
   \<exists>p. multi_getAbsolute k m = Inr (Some p) \<and> m_pHead m \<le> p \<and> multi_getRelative p m = Inr k \<and>
     multi_deallocate p m = multi_deallocate2 k m"
proof (induction m arbitrary: k rule: multi_total.induct)
  case (1 h sz tot mn mx nx v n as na)
  have inv: "list_all (ca_inv n) as" "placed (h + multi_head_size) as"
    "h + multi_head_size + sum_list (List.map ca_iSize as) \<le> h + sz" using "1.prems"(1) by simp_all
  show ?case
  proof (cases "k \<le> length as * n")
    case True
    then have "k \<in> {1..length as * n}" using "1.prems"(2) by simp
    then obtain j r where k: "j < length as" "r \<in> {1..n}" "k = j * n + r" by (rule split_index)
    let ?p = "ca_address r (as ! j)"
    note b = placed_block(1,2,4,5)[OF inv(2,1) k(1,2) refl]
      and rel = placed_block(3)[OF inv(2,1) k(1,2) refl, of 0]
    have g: "multi_getAbsolute k (Multi h sz tot mn mx nx v n as na) = Inr (Some ?p)"
      unfolding k(3) by (rule getAbsolute_level[OF inv(1) k(1,2)])
    have "multi_deallocate ?p (Multi h sz tot mn mx nx v n as na) =
        multi_deallocate2 k (Multi h sz tot mn mx nx v n as na)"
      using b inv(3) k(3) by (cases "ca_deallocate2 r (as ! j)") simp_all
    with g b(1,2) rel inv(3) k(3) show ?thesis by (intro exI[of _ ?p]) simp
  next
    case False
    then obtain m where m: "na = Some m" using "1.prems"(2) by (cases na) auto
    let ?k = "k - length as * n"
    have mi: "multi_inv m" "m_pHead m = h + sz" "?k \<in> {1..multi_total m}" using "1.prems" m False by auto
    from "1.IH"[OF m mi(1,3)] obtain p where p: "multi_getAbsolute ?k m = Inr (Some p)" "m_pHead m \<le> p"
      "multi_getRelative p m = Inr ?k" "multi_deallocate p m = multi_deallocate2 ?k m" by blast
    have "release_index n k as = Inr (Inr ?k)" using False by (intro release_index_skip) simp
    with p mi(2) m False show ?thesis by (intro exI[of _ p]) auto
  qed
qed


section \<open>Extension\<close>

text \<open>The address after the last region.\<close>

fun multi_end :: "multi \<Rightarrow> nat" where
  "multi_end (Multi h sz tot mn mx nx v n as na) = (case na of None \<Rightarrow> h + sz | Some m \<Rightarrow> multi_end m)"

lemma link_last_ok:
  "multi_inv m \<Longrightarrow> multi_inv p \<Longrightarrow> m_pHead p = multi_end m \<Longrightarrow>
    multi_inv (link_last p m) \<and> multi_total (link_last p m) = multi_total m + multi_total p \<and>
    multi_free (link_last p m) = multi_free m \<union> (+) (multi_total m) ` multi_free p \<and>
    m_pHead (link_last p m) = m_pHead m \<and> multi_end (link_last p m) = multi_end p \<and>
    m_iNext (link_last p m) = m_iSize (link_last p m)"
proof (induction p m rule: link_last.induct)
  case (1 p h sz tot mn mx nx v n as)
  then show ?case by simp
next
  case (2 p h sz tot mn mx nx v n as m)
  then have "multi_inv m" "m_pHead p = multi_end m" by simp_all
  with 2 show ?case by (simp add: image_Un image_image add.assoc Un_assoc)
qed

lemma link_last_absolute:
  "multi_inv m \<Longrightarrow> k \<le> multi_total m \<Longrightarrow> multi_getAbsolute k (link_last p m) = multi_getAbsolute k m"
  by (induction p m arbitrary: k rule: link_last.induct) auto

lemma multi_append_steps:
  assumes "multi_inv m" "multi_end m = m_pHead m + m_iTotalSize m" "m_iTotalSize m < iSize" "iSize < 2 ^ 64"
    "calc grow (iSize - m_iTotalSize m) (m_iMinBlockSize m) (m_iMaxBlockSize m) = Inr (v, n)"
    "8 < m_iMinBlockSize m" "m_iMinBlockSize m \<le> m_iMaxBlockSize m" "iSize - m_iTotalSize m \<le> length d"
  shows "\<exists>m'. multi_append grow True iSize d m = Inr m' \<and> multi_inv m' \<and>
    multi_total m' = multi_total m + length v * n \<and>
    multi_free m' = multi_free m \<union> (+) (multi_total m) ` {1..length v * n} \<and>
    (\<forall>k \<le> multi_total m. multi_getAbsolute k m' = multi_getAbsolute k m)"
proof -
  obtain p where p: "multi_create grow True (multi_end m) (iSize - m_iTotalSize m) (m_iMinBlockSize m)
      (m_iMaxBlockSize m) d = Inr p" "multi_inv p" "multi_total p = length v * n"
    "multi_free p = {1..length v * n}" "m_pHead p = multi_end m"
    using multi_create_ok[OF assms(5-8) less_imp_diff_less[OF assms(4)], of "multi_end m"] by metis
  note l = link_last_ok[OF assms(1) p(2,5)]
  obtain h sz tot mn mx nx v' n' as na where q: "link_last p m = Multi h sz tot mn mx nx v' n' as na"
    by (cases "link_last p m") blast
  let ?m' = "Multi h sz iSize mn mx nx v' n' as na"
  have "multi_append grow True iSize d m = Inr ?m'"
    using assms(2,3) p(1) l by (simp add: multi_append_def q)
  moreover have "multi_inv ?m'" "multi_total ?m' = multi_total m + length v * n"
    "multi_free ?m' = multi_free m \<union> (+) (multi_total m) ` {1..length v * n}"
    using l p(3,4) unfolding q by auto
  moreover have "multi_getAbsolute k ?m' = multi_getAbsolute k m" if "k \<le> multi_total m" for k
    using link_last_absolute[OF assms(1) that, of p]
    unfolding q by simp
  ultimately show ?thesis by blast
qed

section \<open>Properties\<close>

text \<open>
  C21. \<open>TC_MemMultiChunkAllocator\<close>: from a region just created, whatever sizes a client
  requests and whatever it releases, every call succeeds, the blocks it holds are distinct,
  and a request is refused exactly when it holds all the blocks of all sizes.
\<close>

theorem multi_allocator_safe:
  assumes "calc grow iSize minB maxB = Inr (v, n)" "8 < minB" "minB \<le> maxB" "iSize \<le> length d" "iSize < 2 ^ 64"
  shows "\<exists>m held m'. multi_create grow True addr iSize minB maxB d = Inr m \<and>
    alloc_run multi_get multi_deallocate2 ops m [] = Inr (held, m') \<and> distinct held \<and>
    set held \<subseteq> {1..length v * n} \<and>
    ((\<exists>m''. multi_get need m' = Inr (None, m'')) \<longleftrightarrow> set held = {1..length v * n})"
proof -
  let ?U = "{1..length v * n}"
  obtain m where m: "multi_create grow True addr iSize minB maxB d = Inr m" "multi_inv m"
    "multi_total m = length v * n" "multi_free m = ?U" using multi_create_ok[OF assms, of addr] by metis
  then have rep: "multi_rep m ?U (?U - set [])" by (simp add: multi_rep_def)
  obtain held m' where r: "alloc_run multi_get multi_deallocate2 ops m [] = Inr (held, m')"
    "distinct held" "set held \<subseteq> ?U" "multi_rep m' ?U (?U - set held)"
    using multi.run_safe[OF rep, of ops] by auto
  have "(\<exists>m''. multi_get need m' = Inr (None, m'')) \<longleftrightarrow> set held = ?U"
    using multi.get_fails_iff[OF r(4), of need] r(3) by blast
  with m(1) r show ?thesis by blast
qed

lemma small_calc: "calc (\<lambda>n. n) 400 10 12 = Inr ([10, 11, 12], 6)"
  by (simp add: calc_def Let_def size_steps.simps multi_head_size_def ca_head_size_def chunk_head_size_def)

lemma multi_allocator_safe_witness:
  "\<exists>m held m'. multi_create (\<lambda>n. n) True 1000 400 10 12 (replicate 400 0) = Inr m \<and>
    alloc_run multi_get multi_deallocate2 [Allocate 11, Allocate 20, Release 1] m [] = Inr (held, m') \<and>
    distinct held \<and> set held \<subseteq> {1..length [10 :: nat, 11, 12] * 6} \<and>
    ((\<exists>m''. multi_get 5 m' = Inr (None, m'')) \<longleftrightarrow> set held = {1..length [10 :: nat, 11, 12] * 6})"
  by (rule multi_allocator_safe) (simp_all add: small_calc)

text \<open>
  The two names of a block agree: every index of a well-formed allocator, whatever its
  regions, has an address, which leads back to the index and is released like it.
\<close>

lemma multi_names_agree:
  assumes "multi_inv m" "k \<in> {1..multi_total m}"
  shows "\<exists>p. multi_getAbsolute k m = Inr (Some p) \<and> multi_getRelative p m = Inr k \<and>
     multi_deallocate p m = multi_deallocate2 k m"
  using multi_names[OF assms] by blast

lemma small_multi:
  obtains m where "multi_create (\<lambda>n. n) True 1000 400 10 12 (replicate 400 0) = Inr m" "multi_inv m"
    "multi_total m = 18" "multi_free m = {1..18}" "m_pHead m = 1000" "m_iTotalSize m = 400"
    "multi_end m = 1400" "m_iMinBlockSize m = 10" "m_iMaxBlockSize m = 12"
proof -
  have d: "400 \<le> length (replicate 400 (0 :: byte))" by simp
  obtain m where m: "multi_create (\<lambda>n. n) True 1000 400 10 12 (replicate 400 0) = Inr m" "multi_inv m"
    "multi_total m = 18" "multi_free m = {1..18}" "m_pHead m = 1000" "m_iTotalSize m = 400" "m_iSize m = 400"
    "m_nallocator m = None"
    using multi_create_ok[OF small_calc _ _ d, of 1000] by auto
  moreover have "multi_end m = 1400" using m(5-8) by (cases m) simp
  moreover have "m_iMinBlockSize m = 10" "m_iMaxBlockSize m = 12"
    using m(1) by (auto simp: multi_create_def small_calc)
  ultimately show ?thesis by (intro that[of m])
qed

lemma multi_names_agree_witness:
  "\<exists>m p. multi_getAbsolute 8 m = Inr (Some p) \<and> multi_getRelative p m = Inr 8 \<and>
     multi_deallocate p m = multi_deallocate2 8 m \<and> multi_total m = 18"
proof -
  obtain m where m: "multi_inv m" "multi_total m = 18" using small_multi by metis
  from multi_names_agree[OF m(1), of 8] m(2) show ?thesis by auto
qed

text \<open>
  Appending a region to an allocator, also one that has blocks in use, adds exactly the
  blocks of the region, all free, behind the existing indices, and every index in use keeps
  its address.
\<close>

lemma multi_append_extends:
  assumes "multi_inv m" "multi_end m = m_pHead m + m_iTotalSize m" "m_iTotalSize m < iSize" "iSize < 2 ^ 64"
    "calc grow (iSize - m_iTotalSize m) (m_iMinBlockSize m) (m_iMaxBlockSize m) = Inr (v, n)"
    "8 < m_iMinBlockSize m" "m_iMinBlockSize m \<le> m_iMaxBlockSize m" "iSize - m_iTotalSize m \<le> length d"
    "k \<le> multi_total m"
  shows "\<exists>m'. multi_append grow True iSize d m = Inr m' \<and> multi_inv m' \<and>
    multi_total m' = multi_total m + length v * n \<and>
    multi_free m' = multi_free m \<union> (+) (multi_total m) ` {1..length v * n} \<and>
    multi_getAbsolute k m' = multi_getAbsolute k m"
  using multi_append_steps[OF assms(1-8)] assms(9) by blast

lemma multi_append_extends_witness:
  "\<exists>m m'. multi_append (\<lambda>n. n) True 800 (replicate 400 0) m = Inr m' \<and> multi_inv m' \<and>
    multi_total m' = multi_total m + length [10 :: nat, 11, 12] * 6 \<and>
    multi_free m' = multi_free m \<union> (+) (multi_total m) ` {1..length [10 :: nat, 11, 12] * 6} \<and>
    multi_getAbsolute 5 m' = multi_getAbsolute 5 m"
proof -
  obtain m where m: "multi_inv m" "multi_total m = 18" "m_pHead m = 1000" "m_iTotalSize m = 400"
    "multi_end m = 1400" "m_iMinBlockSize m = 10" "m_iMaxBlockSize m = 12" using small_multi by metis
  have "\<exists>m'. multi_append (\<lambda>n. n) True 800 (replicate 400 0) m = Inr m' \<and> multi_inv m' \<and>
    multi_total m' = multi_total m + length [10 :: nat, 11, 12] * 6 \<and>
    multi_free m' = multi_free m \<union> (+) (multi_total m) ` {1..length [10 :: nat, 11, 12] * 6} \<and>
    multi_getAbsolute 5 m' = multi_getAbsolute 5 m"
    by (rule multi_append_extends) (simp_all add: m small_calc)
  then show ?thesis by blast
qed

end
