(* ===== verification/Bitmap.thy ===== *)
theory Bitmap
  imports Memory
begin

text \<open>
  \<open>TC_BitMap\<close> (tcinclude/tc_bitmap.cpp): several bitmaps of the same size in a region of
  memory, each with a head (the version and the size of its memory, packed in nine bytes),
  and their dump to a file. A bitmap implements a set of numbers.
\<close>

section \<open>One bitmap\<close>

text \<open>A bitmap is the memory it occupies, head included.\<close>

definition bm_head_size :: nat where
  "bm_head_size = 1 + 8"

definition BM_VERSION :: byte where
  "BM_VERSION = 1"

definition magic_bits :: "byte list" where
  "magic_bits = [0x80, 0x40, 0x20, 0x10, 0x8, 0x4, 0x2, 0x1]"

definition bm_cVersion :: "byte list \<Rightarrow> byte" where
  "bm_cVersion m = m ! 0"

definition bm_iMemSize :: "byte list \<Rightarrow> nat" where
  "bm_iMemSize m = size_val (take 8 (drop 1 m))"

definition bm_calcMemSize :: "nat \<Rightarrow> nat result" where
  "bm_calcMemSize n = (if n > 0 then Inr ((n - 1) div 8 + 1 + bm_head_size) else Inl AssertFail)"

definition bm_create :: "nat \<Rightarrow> byte list result" where
  "bm_create iSize =
     (if iSize < bm_head_size then Inl OutOfBounds
      else Inr (BM_VERSION # size_bytes iSize @ replicate (iSize - bm_head_size) 0))"

definition bm_connect :: "nat \<Rightarrow> byte list \<Rightarrow> int" where
  "bm_connect iSize m =
     (if bm_cVersion m \<noteq> BM_VERSION then -1 else if iSize \<noteq> bm_iMemSize m then -2 else 0)"

text \<open>\<open>_pHead->_iMemSize - sizeof(tagBitMapHead)\<close>, a difference of \<open>size_t\<close>.\<close>

definition bm_bytes :: "byte list \<Rightarrow> nat" where
  "bm_bytes m = (bm_iMemSize m + 2 ^ 64 - bm_head_size) mod 2 ^ 64"

definition bm_get :: "nat \<Rightarrow> byte list \<Rightarrow> int result" where
  "bm_get i m =
     (if i div 8 \<ge> bm_bytes m then Inr (-1)
      else let p = bm_head_size + i div 8 in
        if p < length m then Inr (if unat (m ! p AND magic_bits ! (i mod 8)) > 0 then 1 else 0)
        else Inl OutOfBounds)"

definition bm_put :: "(byte \<Rightarrow> byte) \<Rightarrow> nat \<Rightarrow> byte list \<Rightarrow> (int \<times> byte list) result" where
  "bm_put f i m =
     (if i div 8 \<ge> bm_bytes m then Inr (-1, m)
      else let p = bm_head_size + i div 8 in
        if p < length m
        then let b = f (m ! p) in Inr (if unat b > 0 then 1 else 0, m[p := b])
        else Inl OutOfBounds)"

definition bm_set :: "nat \<Rightarrow> byte list \<Rightarrow> (int \<times> byte list) result" where
  "bm_set i = bm_put (\<lambda>b. b OR magic_bits ! (i mod 8)) i"

definition bm_clear :: "nat \<Rightarrow> byte list \<Rightarrow> (int \<times> byte list) result" where
  "bm_clear i = bm_put (\<lambda>b. b AND NOT (magic_bits ! (i mod 8))) i"

definition bm_clear4all :: "byte list \<Rightarrow> byte list result" where
  "bm_clear4all m = memset_in bm_head_size 0 (bm_bytes m) m"

text \<open>
  Files: \<open>None\<close> when \<open>fopen\<close> fails; \<open>wrote\<close> is what \<open>fwrite\<close> returns. \<open>load5file\<close> is given the
  contents in the pieces \<open>fread\<close> returns, none of them empty; the first is as long as the
  head, or what is compared was never read.
\<close>

definition bm_dump2file :: "(nat \<Rightarrow> nat) option \<Rightarrow> byte list \<Rightarrow> int \<times> byte list" where
  "bm_dump2file wrote m =
     (case wrote of None \<Rightarrow> (-1, [])
      | Some w \<Rightarrow> let out = take (bm_iMemSize m) m; ret = w (bm_iMemSize m) in
          (if ret = bm_iMemSize m then 0 else -1, take ret out))"

text \<open>The loop that copies the pieces over the memory; the result is the code returned, or 0 and \<open>iLen\<close>.\<close>

fun load_pieces :: "nat \<Rightarrow> nat \<Rightarrow> byte list list \<Rightarrow> byte list \<Rightarrow> (int \<times> nat \<times> byte list) result" where
  "load_pieces memSize iLen [] m = Inr (0, iLen, m)"
| "load_pieces memSize iLen (p # ps) m =
     (if iLen = 0 \<and> length p < bm_head_size then Inl OutOfBounds
      else if iLen = 0 \<and> bm_cVersion p \<noteq> BM_VERSION then Inr (-3, iLen, m)
      else if iLen = 0 \<and> bm_iMemSize p \<noteq> memSize then Inr (-2, iLen, m)
      else bindE (memcpy_in iLen p m) (load_pieces memSize (iLen + length p) ps))"

definition bm_load5file :: "byte list list option \<Rightarrow> byte list \<Rightarrow> (int \<times> byte list) result" where
  "bm_load5file file m =
     (case file of None \<Rightarrow> Inr (-1, m)
      | Some ps \<Rightarrow>
          if length (concat ps) \<noteq> bm_iMemSize m then Inr (-2, m)
          else bindE (load_pieces (bm_iMemSize m) 0 ps m) (\<lambda>(r, iLen, m).
            Inr (if r \<noteq> 0 then r else if iLen \<noteq> bm_iMemSize m then -2 else 0, m)))"

section \<open>A bitmap is a set\<close>

definition bm_ok :: "byte list \<Rightarrow> bool" where
  "bm_ok m \<longleftrightarrow> bm_head_size \<le> length m \<and> length m < 2 ^ 64 \<and> bm_cVersion m = BM_VERSION \<and>
     bm_iMemSize m = length m"

definition bm_member :: "byte list \<Rightarrow> nat set" where
  "bm_member m = {i. i div 8 < length m - bm_head_size \<and> bit (m ! (bm_head_size + i div 8)) (7 - i mod 8)}"

lemma bm_bytes_ok: "bm_ok m \<Longrightarrow> bm_bytes m = length m - bm_head_size"
proof -
  assume ok: "bm_ok m"
  then have "bm_iMemSize m + 2 ^ 64 - bm_head_size = (length m - bm_head_size) + 2 ^ 64" "length m - bm_head_size < 2 ^ 64"
    by (simp_all add: bm_ok_def less_imp_diff_less)
  then show ?thesis unfolding bm_bytes_def by simp
qed

lemma magic_bit: "j < 8 \<Longrightarrow> k < 8 \<Longrightarrow> bit (magic_bits ! j) k \<longleftrightarrow> k = 7 - j"
proof -
  have "\<forall>j\<in>{0, 1, 2, 3, 4, 5, 6, 7}. \<forall>k\<in>{0, 1, 2, 3, 4, 5, 6, 7 :: nat}. bit (magic_bits ! j) k \<longleftrightarrow> k = 7 - j"
    by code_simp
  moreover have "j \<in> {0, 1, 2, 3, 4, 5, 6, 7}" if "j < 8" for j :: nat using that by auto
  ultimately show "j < 8 \<Longrightarrow> k < 8 \<Longrightarrow> ?thesis" by blast
qed

lemma magic_test:
  assumes "j < 8"
  shows "unat (b AND magic_bits ! j) > 0 \<longleftrightarrow> bit (b :: byte) (7 - j)"
proof -
  have "b AND magic_bits ! j = 0" if no: "\<not> bit b (7 - j)"
  proof (rule bit_word_eqI)
    fix n assume "n < LENGTH(8)"
    then have "n < 8" by simp
    with magic_bit[OF assms this] no show "bit (b AND magic_bits ! j) n = bit 0 n" by (auto simp: bit_simps)
  qed
  moreover have "bit (b AND magic_bits ! j) (7 - j)" if "bit b (7 - j)"
    using that magic_bit[OF assms, of "7 - j"] by (simp add: bit_simps)
  ultimately have "b AND magic_bits ! j = 0 \<longleftrightarrow> \<not> bit b (7 - j)" by fastforce
  then show ?thesis by (metis unat_gt_0)
qed


lemma magic_set:
  assumes "j < 8" "k < 8"
  shows "bit (b OR magic_bits ! j) (7 - k) \<longleftrightarrow> bit (b :: byte) (7 - k) \<or> k = j"
    and "bit (b AND NOT (magic_bits ! j)) (7 - k) \<longleftrightarrow> bit (b :: byte) (7 - k) \<and> k \<noteq> j"
  using magic_bit[OF assms(1), of "7 - k"] assms by (auto simp: bit_simps)

lemma number_split:
  fixes i :: nat
  shows "i = j \<longleftrightarrow> i div 8 = j div 8 \<and> i mod 8 = j mod 8"
  by (metis div_mult_mod_eq)

lemma bm_ok_update:
  "bm_ok m \<Longrightarrow> bm_head_size \<le> p \<Longrightarrow> bm_ok (m[p := b])"
  by (auto simp: bm_ok_def bm_cVersion_def bm_iMemSize_def bm_head_size_def take_update_cancel drop_update_swap)

lemma bm_member_update:
  assumes "bm_ok m" "i div 8 < length m - bm_head_size"
    "\<And>k. k < 8 \<Longrightarrow> bit b (7 - k) = (if k = i mod 8 then v else bit (m ! (bm_head_size + i div 8)) (7 - k))"
  shows "bm_member (m[bm_head_size + i div 8 := b]) = (if v then insert i (bm_member m) else bm_member m - {i})"
proof (rule set_eqI)
  fix j
  have p: "bm_head_size + i div 8 < length m" using assms(2) by simp
  show "j \<in> bm_member (m[bm_head_size + i div 8 := b]) \<longleftrightarrow>
      j \<in> (if v then insert i (bm_member m) else bm_member m - {i})"
  proof (cases "j div 8 = i div 8")
    case True
    then have "j \<in> bm_member (m[bm_head_size + i div 8 := b]) \<longleftrightarrow> bit b (7 - j mod 8)"
      using assms(2) p by (simp add: bm_member_def)
    moreover have "j = i \<longleftrightarrow> j mod 8 = i mod 8" using True number_split[of j i] by simp
    ultimately show ?thesis using assms(2) assms(3)[of "j mod 8"] True by (auto simp: bm_member_def)
  next
    case False
    with number_split[of j i] show ?thesis by (auto simp: bm_member_def)
  qed
qed

text \<open>What one call does.\<close>

lemma bm_get_member:
  "bm_ok m \<Longrightarrow> bm_get i m = Inr (if i div 8 \<ge> length m - bm_head_size then -1
     else if i \<in> bm_member m then 1 else 0)"
  by (auto simp: bm_get_def bm_bytes_ok Let_def magic_test bm_member_def)

lemma bm_put_out: "bm_ok m \<Longrightarrow> length m - bm_head_size \<le> i div 8 \<Longrightarrow> bm_put f i m = Inr (-1, m)"
  by (simp add: bm_put_def bm_bytes_ok)

lemma bm_put_in:
  "bm_ok m \<Longrightarrow> i div 8 < length m - bm_head_size \<Longrightarrow>
   \<exists>r. bm_put f i m = Inr (r, m[bm_head_size + i div 8 := f (m ! (bm_head_size + i div 8))])"
  by (auto simp: bm_put_def bm_bytes_ok Let_def)

lemma bm_set_member:
  assumes "bm_ok m" "i div 8 < length m - bm_head_size"
  shows "\<exists>m'. bm_set i m = Inr (1, m') \<and> bm_ok m' \<and> length m' = length m \<and> bm_member m' = insert i (bm_member m)"
proof -
  let ?p = "bm_head_size + i div 8"
  let ?b = "m ! ?p OR magic_bits ! (i mod 8)"
  have "bit ?b (7 - i mod 8)" using magic_set(1)[of "i mod 8" "i mod 8"] by simp
  then have "unat ?b > 0" by (metis bit_0_eq bot_apply bot_bool_def unat_gt_0)
  then have "bm_set i m = Inr (1, m[?p := ?b])"
    using assms by (simp add: bm_set_def bm_put_def bm_bytes_ok Let_def)
  moreover have "bm_member (m[?p := ?b]) = insert i (bm_member m)"
    using bm_member_update[OF assms, of ?b True] magic_set(1)[of "i mod 8"] by auto
  ultimately show ?thesis using bm_ok_update[OF assms(1)] by simp
qed

lemma bm_clear_member:
  assumes "bm_ok m" "i div 8 < length m - bm_head_size"
  shows "\<exists>r m'. bm_clear i m = Inr (r, m') \<and> bm_ok m' \<and> length m' = length m \<and> bm_member m' = bm_member m - {i}"
proof -
  let ?p = "bm_head_size + i div 8"
  let ?b = "m ! ?p AND NOT (magic_bits ! (i mod 8))"
  obtain r where "bm_clear i m = Inr (r, m[?p := ?b])"
    using bm_put_in[OF assms, of "\<lambda>b. b AND NOT (magic_bits ! (i mod 8))"] by (auto simp: bm_clear_def)
  moreover have "bm_member (m[?p := ?b]) = bm_member m - {i}"
    using bm_member_update[OF assms, of ?b False] magic_set(2)[of "i mod 8"] by auto
  ultimately show ?thesis using bm_ok_update[OF assms(1)] by simp
qed

lemma bm_clear4all_member:
  assumes "bm_ok m"
  shows "\<exists>m'. bm_clear4all m = Inr m' \<and> bm_ok m' \<and> length m' = length m \<and> bm_member m' = {}"
proof -
  let ?m = "blit m bm_head_size (replicate (length m - bm_head_size) 0)"
  have l: "bm_head_size + length (replicate (length m - bm_head_size) (0 :: byte)) \<le> length m"
    using assms by (simp add: bm_ok_def)
  have "bm_clear4all m = Inr ?m" using l assms by (simp add: bm_clear4all_def memset_in_def bm_bytes_ok)
  moreover have head: "take 8 (drop 1 ?m) = take 8 (drop 1 m)"
    using assms read_blit_other[OF l, of 1 8] by (simp add: bm_head_size_def bm_ok_def)
  moreover have "?m ! 0 = m ! 0"
    using nth_blit[OF l, of 0] assms by (cases m) (auto simp: bm_head_size_def bm_ok_def)
  moreover have "bm_member ?m = {}" using l by (auto simp: bm_member_def nth_blit)
  ultimately show ?thesis using assms l by (simp add: bm_ok_def bm_cVersion_def bm_iMemSize_def)
qed

section \<open>The bitmaps of a region\<close>

type_synonym bitmaps = "byte list list"

definition calcMemSizeAll :: "nat \<Rightarrow> nat \<Rightarrow> nat result" where
  "calcMemSizeAll iElementCount iBitCount =
     bindE (bm_calcMemSize iElementCount) (\<lambda>n.
       let t = (n * iBitCount) mod 2 ^ 64 in
       if t < n then Inl (Thrown ''TC_BitMap_Exception'') else Inr t)"

definition bms_create :: "nat \<Rightarrow> nat \<Rightarrow> bitmaps result" where
  "bms_create iSize iBitCount =
     (if iBitCount = 0 \<or> iSize mod iBitCount \<noteq> 0 then Inl AssertFail
      else bindE (bm_create (iSize div iBitCount)) (\<lambda>m. Inr (replicate iBitCount m)))"

text \<open>The bitmaps connected before one fails stay in the vector.\<close>

fun connect_all :: "nat \<Rightarrow> bitmaps \<Rightarrow> int \<times> bitmaps" where
  "connect_all n [] = (0, [])"
| "connect_all n (m # ms) =
     (if bm_connect n m \<noteq> 0 then (bm_connect n m, [])
      else case connect_all n ms of (r, cs) \<Rightarrow> (r, m # cs))"

definition bms_connect :: "nat \<Rightarrow> nat \<Rightarrow> bitmaps \<Rightarrow> (int \<times> bitmaps) result" where
  "bms_connect iSize iBitCount ms =
     (if iBitCount = 0 \<or> iSize mod iBitCount \<noteq> 0 then Inl AssertFail
      else Inr (connect_all (iSize div iBitCount) (take iBitCount ms)))"

text \<open>The checks \<open>get\<close>, \<open>set\<close> and \<open>clear\<close> share.\<close>

definition with_bit :: "nat \<Rightarrow> bitmaps \<Rightarrow> (byte list \<Rightarrow> 'a result) \<Rightarrow> 'a result" where
  "with_bit iBit ms f =
     (if iBit = 0 then Inl AssertFail
      else if iBit > length ms then Inl (Thrown ''TC_BitMap_Exception'')
      else f (ms ! (iBit - 1)))"

definition bms_get :: "nat \<Rightarrow> nat \<Rightarrow> bitmaps \<Rightarrow> int result" where
  "bms_get i iBit ms = with_bit iBit ms (bm_get i)"

definition bms_set :: "nat \<Rightarrow> nat \<Rightarrow> bitmaps \<Rightarrow> (int \<times> bitmaps) result" where
  "bms_set i iBit ms =
     with_bit iBit ms (\<lambda>m. bindE (bm_set i m) (\<lambda>(r, m). Inr (r, ms[iBit - 1 := m])))"

definition bms_clear :: "nat \<Rightarrow> nat \<Rightarrow> bitmaps \<Rightarrow> (int \<times> bitmaps) result" where
  "bms_clear i iBit ms =
     with_bit iBit ms (\<lambda>m. bindE (bm_clear i m) (\<lambda>(r, m). Inr (r, ms[iBit - 1 := m])))"

fun clear_from :: "nat \<Rightarrow> nat \<Rightarrow> bitmaps \<Rightarrow> bitmaps result" where
  "clear_from iBit i [] = Inr []"
| "clear_from iBit i (m # ms) =
     bindE (if iBit = 2 ^ 32 - 1 \<or> iBit = i + 1 then bm_clear4all m else Inr m) (\<lambda>m.
     bindE (clear_from iBit (i + 1) ms) (\<lambda>ms. Inr (m # ms)))"

definition bms_clear4all :: "nat \<Rightarrow> bitmaps \<Rightarrow> (int \<times> bitmaps) result" where
  "bms_clear4all iBit ms =
     (if iBit = 0 then Inl AssertFail
      else if iBit \<noteq> 2 ^ 32 - 1 \<and> iBit > length ms then Inl (Thrown ''TC_BitMap_Exception'')
      else bindE (clear_from iBit 0 ms) (\<lambda>ms. Inr (0, ms)))"

text \<open>\<open>wrote i n\<close>: what the \<open>i\<close>-th \<open>fwrite\<close> of \<open>n\<close> bytes returns.\<close>

fun dump_all :: "(nat \<Rightarrow> nat \<Rightarrow> nat) \<Rightarrow> nat \<Rightarrow> bitmaps \<Rightarrow> int \<times> byte list" where
  "dump_all wrote i [] = (0, [])"
| "dump_all wrote i (m # ms) =
     (let ret = wrote i (bm_iMemSize m); out = take ret (take (bm_iMemSize m) m) in
      if ret \<noteq> bm_iMemSize m then (-1, out)
      else case dump_all wrote (i + 1) ms of (r, rest) \<Rightarrow> (r, out @ rest))"

definition bms_dump2file :: "(nat \<Rightarrow> nat \<Rightarrow> nat) option \<Rightarrow> bitmaps \<Rightarrow> int \<times> byte list" where
  "bms_dump2file wrote ms = (case wrote of None \<Rightarrow> (-1, []) | Some w \<Rightarrow> dump_all w 0 ms)"

text \<open>The bitmaps lie one after the other: the file is copied over all of them from the first on.\<close>

fun cut :: "nat list \<Rightarrow> byte list \<Rightarrow> bitmaps" where
  "cut [] d = []"
| "cut (n # ns) d = take n d # cut ns (drop n d)"

definition bms_load5file :: "byte list list option \<Rightarrow> bitmaps \<Rightarrow> (int \<times> bitmaps) result" where
  "bms_load5file file ms =
     (case file of None \<Rightarrow> Inr (-1, ms)
      | Some ps \<Rightarrow> let iAllSize = sum_list (List.map bm_iMemSize ms) in
          if length (concat ps) \<noteq> iAllSize then Inr (-2, ms)
          else if ms = [] then (if ps = [] then Inr (0, ms) else Inl OutOfBounds)
          else bindE (load_pieces (bm_iMemSize (ms ! 0)) 0 ps (concat ms)) (\<lambda>(r, iLen, d).
            Inr (if r \<noteq> 0 then r else if iLen \<noteq> iAllSize then -2 else 0, cut (List.map length ms) d)))"


section \<open>Correctness\<close>

definition bms_ok :: "nat \<Rightarrow> bitmaps \<Rightarrow> bool" where
  "bms_ok n ms \<longleftrightarrow> list_all (\<lambda>m. bm_ok m \<and> length m = n) ms"

definition bms_members :: "bitmaps \<Rightarrow> nat set list" where
  "bms_members ms = List.map bm_member ms"

lemma bms_ok_nth: "bms_ok n ms \<Longrightarrow> b < length ms \<Longrightarrow> bm_ok (ms ! b) \<and> length (ms ! b) = n"
  by (auto simp: bms_ok_def list_all_length)

lemma bms_ok_update: "bms_ok n ms \<Longrightarrow> bm_ok m \<Longrightarrow> length m = n \<Longrightarrow> bms_ok n (ms[b := m])"
  using set_update_subset_insert[of ms b m] by (auto simp: bms_ok_def list_all_iff)

lemma bm_create_ok:
  assumes "9 \<le> n" "n < 2 ^ 64"
  shows "\<exists>m. bm_create n = Inr m \<and> bm_ok m \<and> length m = n \<and> bm_member m = {}"
proof -
  let ?m = "BM_VERSION # size_bytes n @ replicate (n - bm_head_size) 0"
  have "bm_create n = Inr ?m" using assms by (simp add: bm_create_def bm_head_size_def)
  moreover have "bm_iMemSize ?m = n" using assms by (simp add: bm_iMemSize_def)
  moreover have "length ?m = n" using assms by (simp add: bm_head_size_def)
  moreover have "?m ! (bm_head_size + k) = 0" if "k < n - bm_head_size" for k
    using that by (simp add: bm_head_size_def nth_append)
  then have "bm_member ?m = {}" unfolding bm_member_def \<open>length ?m = n\<close> by auto
  ultimately show ?thesis using assms by (simp add: bm_ok_def bm_cVersion_def bm_head_size_def)
qed

lemma bms_create_ok:
  assumes "iSize = k * n" "0 < k" "9 \<le> n" "n < 2 ^ 64"
  shows "\<exists>ms. bms_create iSize k = Inr ms \<and> bms_ok n ms \<and> bms_members ms = replicate k {}"
  using bm_create_ok[OF assms(3,4)] assms(1,2)
  by (auto simp: bms_create_def bms_ok_def bms_members_def list_all_length)

lemma with_bit_ok: "0 < b \<Longrightarrow> b \<le> length ms \<Longrightarrow> with_bit b ms f = f (ms ! (b - 1))"
  by (simp add: with_bit_def)

lemma clear_from_skip: "iBit \<le> k \<Longrightarrow> iBit \<noteq> 2 ^ 32 - 1 \<Longrightarrow> clear_from iBit k ms = Inr ms"
  by (induction ms arbitrary: k) auto

lemma clear_from_one:
  assumes "c < length ms" "bm_clear4all (ms ! c) = Inr m'" "k + Suc c \<noteq> 2 ^ 32 - 1"
  shows "clear_from (k + Suc c) k ms = Inr (ms[c := m'])"
  using assms
proof (induction ms arbitrary: k c)
  case (Cons m ms)
  show ?case
  proof (cases c)
    case 0
    with Cons.prems clear_from_skip[of "k + 1" "k + 1" ms] show ?thesis by simp
  next
    case (Suc c')
    with Cons.IH[of c' "k + 1"] Cons.prems show ?thesis by simp
  qed
qed simp

text \<open>
  C22. \<open>TC_BitMap\<close> implements one set of numbers per bit: \<open>set\<close> inserts the number, \<open>clear\<close>
  removes it, \<open>clear4all\<close> empties the set, each in its own bitmap only, and \<open>get\<close> decides
  membership; a number beyond the memory is answered with -1 and changes nothing.
\<close>

theorem bitmap_is_set:
  assumes "bms_ok n ms" "0 < b" "b \<le> length ms" "b < 2 ^ 32 - 1" "i div 8 < n - bm_head_size"
    "n - bm_head_size \<le> j div 8"
  shows "\<exists>ms1 r ms2 ms3. bms_set i b ms = Inr (1, ms1) \<and> bms_ok n ms1 \<and>
      bms_members ms1 = (bms_members ms)[b - 1 := insert i (bms_members ms ! (b - 1))] \<and>
    bms_clear i b ms = Inr (r, ms2) \<and> bms_ok n ms2 \<and>
      bms_members ms2 = (bms_members ms)[b - 1 := bms_members ms ! (b - 1) - {i}] \<and>
    bms_clear4all b ms = Inr (0, ms3) \<and> bms_ok n ms3 \<and>
      bms_members ms3 = (bms_members ms)[b - 1 := {}] \<and>
    bms_get i b ms = Inr (if i \<in> bms_members ms ! (b - 1) then 1 else 0) \<and>
    bms_get j b ms = Inr (-1) \<and> bms_set j b ms = Inr (-1, ms) \<and> bms_clear j b ms = Inr (-1, ms)"
proof -
  obtain c where c: "b = Suc c" using assms(2) by (cases b) auto
  let ?m = "ms ! c"
  have b: "c < length ms" using assms(3) c by simp
  note m = bms_ok_nth[OF assms(1) b] and wb = with_bit_ok[OF assms(2,3), unfolded c diff_Suc_1]
  have i: "i div 8 < length ?m - bm_head_size" using assms(5) m by simp
  have mem: "bms_members ms ! c = bm_member ?m" using b by (simp add: bms_members_def)
  obtain m1 where m1: "bm_set i ?m = Inr (1, m1)" "bm_ok m1" "length m1 = n" "bm_member m1 = insert i (bm_member ?m)"
    using bm_set_member[OF _ i] m by auto
  obtain r m2 where m2: "bm_clear i ?m = Inr (r, m2)" "bm_ok m2" "length m2 = n" "bm_member m2 = bm_member ?m - {i}"
    using bm_clear_member[OF _ i] m by auto
  obtain m3 where m3: "bm_clear4all ?m = Inr m3" "bm_ok m3" "length m3 = n" "bm_member m3 = {}"
    using bm_clear4all_member[of ?m] m by auto
  have all: "bms_clear4all (Suc c) ms = Inr (0, ms[c := m3])"
    using clear_from_one[OF b m3(1), of 0] assms(3,4) c by (simp add: bms_clear4all_def)
  have upd: "bms_members (ms[c := m']) = (bms_members ms)[c := bm_member m']" for m'
    by (simp add: bms_members_def map_update)
  have "bms_set i (Suc c) ms = Inr (1, ms[c := m1])" "bms_clear i (Suc c) ms = Inr (r, ms[c := m2])"
    using m1(1) m2(1) by (simp_all add: bms_set_def bms_clear_def wb)
  moreover have "bms_get i (Suc c) ms = Inr (if i \<in> bm_member ?m then 1 else 0)" "bms_get j (Suc c) ms = Inr (-1)"
    "bms_set j (Suc c) ms = Inr (-1, ms)" "bms_clear j (Suc c) ms = Inr (-1, ms)"
    using m assms(5,6)
    by (simp_all add: bms_get_def bms_set_def bms_clear_def wb bm_get_member bm_set_def bm_clear_def bm_put_out)
  ultimately show ?thesis unfolding c diff_Suc_1
    using all bms_ok_update[OF assms(1)] m1 m2 m3 by (simp add: upd mem)
qed

lemma bitmap_is_set_witness:
  "\<exists>ms ms1 r ms2 ms3. bms_create 22 2 = Inr ms \<and> bms_set 13 2 ms = Inr (1, ms1) \<and> bms_ok 11 ms1 \<and>
      bms_members ms1 = (bms_members ms)[2 - 1 := insert 13 (bms_members ms ! (2 - 1))] \<and>
    bms_clear 13 2 ms = Inr (r, ms2) \<and> bms_ok 11 ms2 \<and>
      bms_members ms2 = (bms_members ms)[2 - 1 := bms_members ms ! (2 - 1) - {13}] \<and>
    bms_clear4all 2 ms = Inr (0, ms3) \<and> bms_ok 11 ms3 \<and>
      bms_members ms3 = (bms_members ms)[2 - 1 := {}] \<and>
    bms_get 13 2 ms = Inr (if 13 \<in> bms_members ms ! (2 - 1) then 1 else 0) \<and>
    bms_get 16 2 ms = Inr (-1) \<and> bms_set 16 2 ms = Inr (-1, ms) \<and> bms_clear 16 2 ms = Inr (-1, ms)"
proof -
  obtain ms where ms: "bms_create 22 2 = Inr ms" "bms_ok 11 ms" "bms_members ms = replicate 2 {}"
    using bms_create_ok[of 22 2 11] by auto
  then have "length ms = 2" by (metis bms_members_def length_map length_replicate)
  with bitmap_is_set[OF ms(2), of 2 13 16] ms(1) show ?thesis by (simp add: bm_head_size_def)
qed

section \<open>Dump and load\<close>

lemma blit_suffix:
  "length d1 = length m1 \<Longrightarrow> length p \<le> length m2 \<Longrightarrow> blit (d1 @ m2) (length m1) p = d1 @ p @ drop (length p) m2"
  by (simp add: blit_def)

text \<open>Later pieces are copied one after the other, whatever they hold.\<close>

lemma load_pieces_copy:
  "list_all (\<lambda>p. p \<noteq> []) ps \<Longrightarrow> d \<noteq> [] \<Longrightarrow> length (concat ps) \<le> length m \<Longrightarrow>
   load_pieces n (length d) ps (d @ m) =
     Inr (0, length d + length (concat ps), d @ concat ps @ drop (length (concat ps)) m)"
proof (induction ps arbitrary: d m)
  case (Cons p ps)
  then have "blit (d @ m) (length d) p = (d @ p) @ drop (length p) m" by (simp add: blit_def)
  moreover have "length d + length p \<le> length (d @ m)" using Cons.prems by simp
  moreover have "load_pieces n (length (d @ p)) ps ((d @ p) @ drop (length p) m) =
      Inr (0, length (d @ p) + length (concat ps), (d @ p) @ concat ps @ drop (length (concat ps)) (drop (length p) m))"
    using Cons.prems by (intro Cons.IH) auto
  ultimately show ?case using Cons.prems by (simp add: add.assoc add.commute)
qed simp

lemma load_all:
  assumes "list_all (\<lambda>p. p \<noteq> []) (p # ps)" "bm_head_size \<le> length p" "bm_cVersion p = BM_VERSION"
    "bm_iMemSize p = n" "length (concat (p # ps)) = length m"
  shows "load_pieces n 0 (p # ps) m = Inr (0, length m, concat (p # ps))"
proof -
  have "blit m 0 p = p @ drop (length p) m" by (simp add: blit_def)
  moreover have "load_pieces n (length p) ps (p @ drop (length p) m) =
      Inr (0, length p + length (concat ps), p @ concat ps @ drop (length (concat ps)) (drop (length p) m))"
    using assms by (intro load_pieces_copy) (auto simp: bm_head_size_def)
  ultimately show ?thesis using assms by simp
qed

lemma load5file_pieces:
  assumes "ms \<noteq> []" "length (concat ps) = sum_list (List.map bm_iMemSize ms)"
    "load_pieces (bm_iMemSize (ms ! 0)) 0 ps (concat ms) = Inr (0, sum_list (List.map bm_iMemSize ms), d)"
  shows "bms_load5file (Some ps) ms = Inr (0, cut (List.map length ms) d)"
  using assms by (simp add: bms_load5file_def)

lemma cut_concat: "cut (List.map length ms) (concat ms) = ms"
  by (induction ms) simp_all

lemma dump_all_ok:
  "bms_ok n ms \<Longrightarrow> dump_all (\<lambda>_ k. k) i ms = (0, concat ms)"
  by (induction ms arbitrary: i) (simp_all add: bms_ok_def bm_ok_def Let_def)

lemma prefix_head:
  assumes "bm_head_size \<le> length p" "p @ q = m @ r" "bm_head_size \<le> length m"
  shows "bm_cVersion p = bm_cVersion m" "bm_iMemSize p = bm_iMemSize m"
proof -
  have t: "take bm_head_size p = take bm_head_size m"
    using arg_cong[OF assms(2), of "take bm_head_size"] assms(1,3) by simp
  have "p ! 0 = take bm_head_size p ! 0" "m ! 0 = take bm_head_size m ! 0" by (simp_all add: bm_head_size_def)
  with t show "bm_cVersion p = bm_cVersion m" by (simp add: bm_cVersion_def)
  have "take 8 (drop 1 p) = drop 1 (take bm_head_size p)" "take 8 (drop 1 m) = drop 1 (take bm_head_size m)"
    by (simp_all add: bm_head_size_def drop_take)
  with t show "bm_iMemSize p = bm_iMemSize m" by (simp add: bm_iMemSize_def)
qed

text \<open>
  C23. What \<open>dump2file\<close> wrote, \<open>load5file\<close> reads back: into bitmaps of the same shape, whatever
  they held and however \<open>fread\<close> cuts the file (its first piece at least as long as a head),
  loading returns 0 and restores every bitmap.
\<close>

theorem bitmap_dump_load:
  assumes "bms_ok n ms" "bms_ok n old" "length old = length ms" "ms \<noteq> []"
    "bms_dump2file (Some (\<lambda>_ k. k)) ms = (r, dumped)" "concat (p # ps) = dumped"
    "bm_head_size \<le> length p" "list_all (\<lambda>q. q \<noteq> []) ps"
  shows "r = 0 \<and> bms_load5file (Some (p # ps)) old = Inr (0, ms)"
proof -
  have dumped: "r = 0" "dumped = concat ms" using assms(5) dump_all_ok[OF assms(1)] by (simp_all add: bms_dump2file_def)
  obtain m ms' where ms: "ms = m # ms'" using assms(4) by (cases ms) auto
  have m: "bm_ok m" "length m = n" using assms(1) by (simp_all add: ms bms_ok_def)
  have eq: "p @ concat ps = m @ concat ms'" using assms(6) dumped(2) by (simp add: ms)
  note h = prefix_head[OF assms(7) eq]
  have hd: "bm_cVersion p = BM_VERSION" "bm_iMemSize p = n" using h m by (auto simp: bm_ok_def)
  have lens: "List.map length old = List.map length ms" "List.map bm_iMemSize old = List.map length ms"
  proof -
    have "List.map length xs = replicate (length xs) n \<and> List.map bm_iMemSize xs = replicate (length xs) n"
      if "bms_ok n xs" for xs using that by (induction xs) (auto simp: bms_ok_def bm_ok_def)
    with assms(1-3) show "List.map length old = List.map length ms"
      "List.map bm_iMemSize old = List.map length ms" by simp_all
  qed
  have l: "length (concat old) = length (concat ms)" "sum_list (List.map bm_iMemSize old) = length (concat ms)"
    by (simp_all add: length_concat lens)
  have old: "old \<noteq> []" "bm_iMemSize (old ! 0) = n"
    using assms(2-4) by (auto simp: bms_ok_def bm_ok_def list_all_length)
  have all: "concat (p # ps) = concat ms" using assms(6) dumped(2) by simp
  have "list_all (\<lambda>q. q \<noteq> []) (p # ps)" using assms(7,8) by (auto simp: bm_head_size_def)
  from load_all[OF this assms(7) hd, of "concat old"] have
    "load_pieces n 0 (p # ps) (concat old) = Inr (0, length (concat old), concat ms)"
    unfolding all l(1) by simp
  then have "bms_load5file (Some (p # ps)) old = Inr (0, cut (List.map length old) (concat ms))"
    using l old all by (intro load5file_pieces) (simp_all del: load_pieces.simps)
  then show ?thesis using dumped(1) by (simp add: lens(1) cut_concat)
qed

lemma bitmap_dump_load_witness:
  "\<exists>ms r dumped. bms_dump2file (Some (\<lambda>_ k. k)) ms = (r, dumped) \<and> length ms = 2 \<and>
     r = 0 \<and> bms_load5file (Some [take 10 dumped, drop 10 dumped]) ms = Inr (0, ms)"
proof -
  obtain ms where ms: "bms_ok 11 ms" "bms_members ms = replicate 2 {}"
    using bms_create_ok[of 22 2 11] by auto
  then have "length ms = 2" by (metis bms_members_def length_map length_replicate)
  then have l: "length ms = 2" "ms \<noteq> []" by auto
  obtain r dumped where d: "bms_dump2file (Some (\<lambda>_ k. k)) ms = (r, dumped)" by (meson surj_pair)
  then have "dumped = concat ms" using dump_all_ok[OF ms(1)] by (simp add: bms_dump2file_def)
  moreover have "length (concat ms) = 22"
    using ms(1) l by (auto simp: length_Suc_conv numeral_2_eq_2 bms_ok_def)
  ultimately have "length dumped = 22" by simp
  with bitmap_dump_load[OF ms(1) ms(1) refl _ d, of "take 10 dumped" "[drop 10 dumped]"] l
  have "r = 0 \<and> bms_load5file (Some [take 10 dumped, drop 10 dumped]) ms = Inr (0, ms)"
    by (auto simp: bm_head_size_def)
  with l d show ?thesis by blast
qed

text \<open>
  \<open>clear\<close> answers with whether any bit of the byte is left, not with the bit it was asked
  about: clearing one of two neighbours returns 1, which the header documents as "the
  flag is there".
\<close>

lemma clear_answer:
  assumes "bm_ok m" "i div 8 < length m - bm_head_size" "j \<in> bm_member m" "j \<noteq> i" "j div 8 = i div 8"
  shows "\<exists>m'. bm_clear i m = Inr (1, m') \<and> i \<notin> bm_member m'"
proof -
  let ?p = "bm_head_size + i div 8"
  let ?b = "m ! ?p AND NOT (magic_bits ! (i mod 8))"
  have "bit ?b (7 - j mod 8)"
    using magic_set(2)[of "i mod 8" "j mod 8"] assms(3-5) number_split[of j i] by (auto simp: bm_member_def)
  then have "unat ?b > 0" by (metis bit_0_eq bot_apply bot_bool_def unat_gt_0)
  then have "bm_clear i m = Inr (1, m[?p := ?b])"
    using assms by (simp add: bm_clear_def bm_put_def bm_bytes_ok Let_def)
  with bm_clear_member[OF assms(1,2)] show ?thesis by auto
qed

end
