(* ===== verification/Parsepara.thy ===== *)
theory Parsepara
  imports Common
begin

text \<open>
  \<open>TC_Parsepara\<close> (tcinclude/tc_parsepara.cpp): \<open>name=value&...\<close> strings with escapes, and the
  command lines of \<open>TC_Option\<close> (tcinclude/tc_option.cpp). A parameter set is the
  \<open>std::map\<close> \<open>_param\<close>, a sorted association list. Loading what \<open>tostr\<close> wrote gives the set
  back, up to the empty name and one decoding too many of the values.
\<close>

section \<open>Escapes\<close>

definition encode_table :: string where
  "encode_table = [CHR ''='', CHR ''&'', CHR ''%'', CHR 0x0D, CHR 0x0A]"

definition hex_upper :: "nat \<Rightarrow> char" where
  "hex_upper d = (if d < 10 then char_of (48 + d) else char_of (55 + d))"

definition encode_char :: "char \<Rightarrow> string" where
  "encode_char c =
     (if c \<in> set encode_table
      then [CHR ''%'', hex_upper (unat (drop_bit 4 (byte_of c) AND 0x0f)), hex_upper (unat (byte_of c AND 0x0f))]
      else [c])"

definition encodestr :: "string \<Rightarrow> string" where
  "encodestr sParam = concat (List.map encode_char sParam)"

definition pp_x2c :: "string \<Rightarrow> char" where
  "pp_x2c sWhat =
     (if length sWhat < 2 then CHR 0x00
      else char_of_byte (hex_value (sWhat ! 0) * 16 + hex_value (sWhat ! 1)))"

function decode_from :: "string \<Rightarrow> nat \<Rightarrow> string" where
  "decode_from sParam pos =
     (if pos < length sParam
      then if sParam ! pos = CHR ''%''
           then if pos \<ge> size_sub (length sParam) 2 then []
                else pp_x2c (drop (pos + 1) sParam) # decode_from sParam (pos + 3)
           else sParam ! pos # decode_from sParam (pos + 1)
      else [])"
  by pat_completeness auto
termination by (relation "measure (\<lambda>(s, pos). length s - pos)") auto

declare decode_from.simps [simp del]

definition decodestr :: "string \<Rightarrow> string" where
  "decodestr sParam = decode_from sParam 0"

section \<open>Reading and writing a parameter set\<close>

text \<open>The variables of the loop of \<open>decodeMap\<close>.\<close>

record decode_state =
  iFlag :: bool
  sName :: string
  sBuffer :: string
  mpParam :: "(string \<times> string) list"

definition end_of_name :: "decode_state \<Rightarrow> decode_state" where
  "end_of_name s = s\<lparr>sName := decodestr (sBuffer s), sBuffer := [], iFlag := True\<rparr>"

definition end_of_value :: "decode_state \<Rightarrow> decode_state" where
  "end_of_value s =
     (let sValue = decodestr (sBuffer s); s = s\<lparr>sBuffer := []\<rparr> in
      if length (sName s) > 0 \<and> iFlag s
      then s\<lparr>mpParam := map_set (sName s) (decodestr sValue) (mpParam s), iFlag := False\<rparr>
      else s)"

definition decode_char :: "char \<Rightarrow> decode_state \<Rightarrow> decode_state" where
  "decode_char c s =
     (if c = CHR ''='' then end_of_name s
      else if c = CHR ''&'' then end_of_value s
      else s\<lparr>sBuffer := sBuffer s @ [c]\<rparr>)"

definition decodeMap :: "string \<Rightarrow> (string \<times> string) list \<Rightarrow> (string \<times> string) list" where
  "decodeMap sParam m =
     (if length sParam = 0 then []
      else mpParam (end_of_value (fold decode_char sParam
             \<lparr>iFlag = False, sName = [], sBuffer = [], mpParam = m\<rparr>)))"

fun encodeMap :: "(string \<times> string) list \<Rightarrow> string" where
  "encodeMap [] = []"
| "encodeMap ((k, v) # m) =
     encodestr k @ ''='' @ encodestr v @ (if m \<noteq> [] then ''&'' else []) @ encodeMap m"

type_synonym parsepara = "(string \<times> string) list"

definition pp_load :: "string \<Rightarrow> parsepara" where
  "pp_load sParam = decodeMap sParam []"

definition pp_tostr :: "parsepara \<Rightarrow> string" where
  "pp_tostr p = encodeMap p"

definition pp_plus :: "parsepara \<Rightarrow> parsepara \<Rightarrow> parsepara" where
  "pp_plus p q = map_insert_all q p"

text \<open>\<open>operator[]\<close> makes the entry when there is none.\<close>

definition pp_index :: "string \<Rightarrow> parsepara \<Rightarrow> string \<times> parsepara" where
  "pp_index name p = (case map_of p name of Some v \<Rightarrow> (v, p) | None \<Rightarrow> ([], map_set name [] p))"

definition pp_getValue :: "string \<Rightarrow> parsepara \<Rightarrow> string" where
  "pp_getValue name p = (case map_of p name of Some v \<Rightarrow> v | None \<Rightarrow> [])"

definition pp_setValue :: "string \<Rightarrow> string \<Rightarrow> parsepara \<Rightarrow> parsepara" where
  "pp_setValue name v p = map_set name v p"

lemma hex_upper_digits: "d < 16 \<Longrightarrow> hex_value (hex_upper d) = of_nat d"
proof -
  assume d: "d < 16"
  have "\<forall>d\<in>{0, 1, 2, 3, 4, 5, 6, 7, 8, 9, 10, 11, 12, 13, 14, 15}. hex_value (hex_upper d) = of_nat d"
    by code_simp
  moreover have "d \<in> {0, 1, 2, 3, 4, 5, 6, 7, 8, 9, 10, 11, 12, 13, 14, 15}"
    unfolding insert_iff empty_iff using d by arith
  ultimately show ?thesis by blast
qed

lemma pp_x2c_encoded:
  "pp_x2c (hex_upper (unat (drop_bit 4 (byte_of c) AND 0x0f)) # hex_upper (unat (byte_of c AND 0x0f)) # t) = c"
proof -
  have "unat (b AND 0x0f) < 16" for b :: byte
    using unat_and_le[of b "0x0f"] by simp
  then have "hex_value (hex_upper (unat (b AND 0x0f))) = b AND 0x0f" for b :: byte
    by (simp add: hex_upper_digits)
  moreover have "(drop_bit 4 b AND 0x0f) * 16 + (b AND 0x0f) = b" for b :: byte
  proof -
    have "(drop_bit 4 b AND 0x0f) * 16 = push_bit 4 (drop_bit 4 b AND 0x0f)" by (simp add: push_bit_eq_mult)
    moreover have "push_bit 4 (drop_bit 4 b AND 0x0f) AND (b AND 0x0f) = 0"
      by (simp add: byte_bits)
    then have "push_bit 4 (drop_bit 4 b AND 0x0f) + (b AND 0x0f) = push_bit 4 (drop_bit 4 b AND 0x0f) OR (b AND 0x0f)"
      using word_plus_and_or[of "push_bit 4 (drop_bit 4 b AND 0x0f)" "b AND 0x0f"] by simp
    moreover have "push_bit 4 (drop_bit 4 b AND 0x0f) OR (b AND 0x0f) = b"
      by (simp add: byte_bits)
    ultimately show ?thesis by simp
  qed
  ultimately show ?thesis by (simp add: pp_x2c_def)
qed

lemma decode_encode_from: "decode_from (pre @ encodestr s) (length pre) = s"
proof (induction s arbitrary: pre)
  case Nil
  then show ?case by (subst decode_from.simps) (simp add: encodestr_def)
next
  case (Cons c s)
  let ?all = "pre @ encodestr (c # s)"
  have all: "?all = (pre @ encode_char c) @ encodestr s" by (simp add: encodestr_def)
  have nth: "?all ! length pre = hd (encode_char c)" "length pre < length ?all"
    by (simp_all add: all nth_append encode_char_def)
  show ?case
  proof (cases "c \<in> set encode_table")
    case True
    then have "hd (encode_char c) = CHR ''%''" "length (encode_char c) = 3" by (simp_all add: encode_char_def)
    moreover have "\<not> length pre \<ge> size_sub (length ?all) 2"
      unfolding all using \<open>length (encode_char c) = 3\<close> by (simp add: size_sub_def)
    moreover have "pp_x2c (drop (length pre + 1) ?all) = c"
      using True by (simp add: all encode_char_def pp_x2c_encoded)
    ultimately have "decode_from ?all (length pre) = c # decode_from ?all (length (pre @ encode_char c))"
      using nth by (subst decode_from.simps) simp
    then show ?thesis using Cons.IH[of "pre @ encode_char c"] unfolding all by simp
  next
    case False
    then have "hd (encode_char c) \<noteq> CHR ''%''" "encode_char c = [c]" by (auto simp: encode_char_def encode_table_def)
    then have "decode_from ?all (length pre) = c # decode_from ?all (length (pre @ encode_char c))"
      using nth by (subst decode_from.simps) simp
    then show ?thesis using Cons.IH[of "pre @ encode_char c"] unfolding all by simp
  qed
qed

lemma decode_encode: "decodestr (encodestr s) = s"
  using decode_encode_from[of "[]" s] by (simp add: decodestr_def)

lemma decode_plain: "CHR ''%'' \<notin> set s \<Longrightarrow> decodestr s = s"
proof -
  assume s: "CHR ''%'' \<notin> set s"
  have "decode_from s pos = drop pos s" for pos
    using s
  proof (induction s pos rule: decode_from.induct)
    case (1 s pos)
    note s' = "1.prems"
    show ?case
    proof (cases "pos < length s")
      case True
      then have "s ! pos \<noteq> CHR ''%''" using s' by (metis nth_mem)
      with 1 True s' show ?thesis by (subst decode_from.simps) (simp add: Cons_nth_drop_Suc)
    qed (subst decode_from.simps, simp)
  qed
  then show ?thesis by (simp add: decodestr_def)
qed

section \<open>Round trip\<close>

lemma encoded_chars: "c \<in> set (encodestr s) \<Longrightarrow> c \<noteq> CHR ''='' \<and> c \<noteq> CHR ''&''"
proof -
  have "hex_upper (unat (b AND 0x0f)) \<noteq> CHR ''='' \<and> hex_upper (unat (b AND 0x0f)) \<noteq> CHR ''&''" for b :: byte
  proof -
    have "\<forall>d\<in>{0, 1, 2, 3, 4, 5, 6, 7, 8, 9, 10, 11, 12, 13, 14, 15}. hex_upper d \<noteq> CHR ''='' \<and> hex_upper d \<noteq> CHR ''&''"
      by code_simp
    moreover have "unat (b AND 0x0f) < 16" using unat_and_le[of b "0x0f"] by simp
    then have "unat (b AND 0x0f) \<in> {0, 1, 2, 3, 4, 5, 6, 7, 8, 9, 10, 11, 12, 13, 14, 15}"
      unfolding insert_iff empty_iff by arith
    ultimately show ?thesis by blast
  qed
  then have "c \<noteq> CHR ''='' \<and> c \<noteq> CHR ''&''" if "c \<in> set (encode_char d)" for d
    using that by (auto simp: encode_char_def encode_table_def split: if_splits)
  moreover assume "c \<in> set (encodestr s)"
  ultimately show ?thesis by (auto simp: encodestr_def)
qed

lemma fold_plain:
  "\<forall>c\<in>set s. c \<noteq> CHR ''='' \<and> c \<noteq> CHR ''&'' \<Longrightarrow> fold decode_char s st = st\<lparr>sBuffer := sBuffer st @ s\<rparr>"
  by (induction s arbitrary: st) (simp_all add: decode_char_def)

lemma fold_encoded: "fold decode_char (encodestr s) st = st\<lparr>sBuffer := sBuffer st @ encodestr s\<rparr>"
  using encoded_chars fold_plain by blast

text \<open>What \<open>load\<close> keeps of a set: the entries with a name, their values decoded again.\<close>

definition reloaded :: "parsepara \<Rightarrow> parsepara" where
  "reloaded p = List.map (\<lambda>(k, v). (k, decodestr v)) (List.filter (\<lambda>(k, v). k \<noteq> []) p)"

lemma reloaded_append: "reloaded (p @ q) = reloaded p @ reloaded q"
  by (simp add: reloaded_def)

lemma one_entry:
  assumes "sBuffer st = []"
  shows "end_of_value (fold decode_char (encodestr k @ ''='' @ encodestr v) st) =
    st\<lparr>sName := k, iFlag := (k = []),
       mpParam := (if k = [] then mpParam st else map_set k (decodestr v) (mpParam st))\<rparr>"
  using assms
  by (simp add: fold_encoded decode_char_def end_of_name_def end_of_value_def decode_encode)

lemma load_entries:
  assumes "sBuffer st = []" "p \<noteq> []" "sorted_map (q @ p)" "mpParam st = reloaded q"
  shows "mpParam (end_of_value (fold decode_char (encodeMap p) st)) = reloaded (q @ p)"
  using assms
proof (induction p arbitrary: st q)
  case (Cons kv p)
  obtain k v where kv: "kv = (k, v)" by (meson surj_pair)
  let ?st = "end_of_value (fold decode_char (encodestr k @ ''='' @ encodestr v) st)"
  have "list_all (\<lambda>(k', _). k' < k) (reloaded q)"
    using Cons.prems(3) by (auto simp: kv reloaded_def sorted_wrt_append list_all_iff)
  then have m: "mpParam ?st = reloaded (q @ [kv])" "sBuffer ?st = []"
    using Cons.prems(1,4) by (simp_all only: one_entry[OF Cons.prems(1)])
      (simp_all add: reloaded_append kv map_set_last reloaded_def)
  show ?case
  proof (cases "p = []")
    case True
    with m show ?thesis by (simp add: kv)
  next
    case False
    then have "fold decode_char (encodeMap (kv # p)) st = fold decode_char (encodeMap p) ?st"
      by (simp add: kv decode_char_def)
    then show ?thesis using Cons.IH[OF m(2) False _ m(1)] Cons.prems(3) by simp
  qed
qed simp

lemma encodeMap_empty: "encodeMap p = [] \<longleftrightarrow> p = []"
  by (cases p) auto

lemma load_tostr: "sorted_map p \<Longrightarrow> pp_load (pp_tostr p) = reloaded p"
  using load_entries[of "\<lparr>iFlag = False, sName = [], sBuffer = [], mpParam = []\<rparr>" p "[]"]
  by (cases "p = []") (simp_all add: pp_load_def pp_tostr_def decodeMap_def encodeMap_empty reloaded_def)

lemma reloaded_same:
  "list_all (\<lambda>(k, v). k \<noteq> [] \<and> CHR ''%'' \<notin> set v) p \<Longrightarrow> reloaded p = p"
  unfolding reloaded_def by (induction p) (auto simp: decode_plain)

text \<open>The operations keep a parameter set sorted.\<close>

lemma sorted_end_of_value: "sorted_map (mpParam s) \<Longrightarrow> sorted_map (mpParam (end_of_value s))"
  by (simp add: end_of_value_def Let_def sorted_map_set)

lemma sorted_fold_decode: "sorted_map (mpParam s) \<Longrightarrow> sorted_map (mpParam (fold decode_char t s))"
proof (induction t arbitrary: s)
  case (Cons c t)
  have "sorted_map (mpParam (decode_char c s))"
    using Cons.prems by (simp add: decode_char_def end_of_name_def sorted_end_of_value)
  with Cons.IH show ?case by simp
qed simp

lemma sorted_load: "sorted_map (pp_load s)"
  by (simp add: pp_load_def decodeMap_def sorted_end_of_value sorted_fold_decode)

lemma sorted_index: "sorted_map p \<Longrightarrow> sorted_map (snd (pp_index k p))"
  by (simp add: pp_index_def sorted_map_set split: option.split)

text \<open>
  C25. Loading what \<open>tostr\<close> wrote gives every parameter set back: exactly, when no name is
  empty and no value has a percent sign; otherwise without the empty name and with the values
  decoded once too often.
\<close>

theorem parsepara_roundtrip:
  assumes "sorted_map p"
  shows "pp_load (pp_tostr p) =
      List.map (\<lambda>(k, v). (k, decodestr v)) (List.filter (\<lambda>(k, v). k \<noteq> []) p) \<and>
    (list_all (\<lambda>(k, v). k \<noteq> [] \<and> CHR ''%'' \<notin> set v) p \<longrightarrow> pp_load (pp_tostr p) = p)"
  using load_tostr[OF assms] reloaded_same[of p] by (simp add: reloaded_def)

lemma parsepara_roundtrip_witness:
  "pp_load (pp_tostr [([], ''z''), (''a='', ''&1''), (''b'', [])]) =
     List.map (\<lambda>(k, v). (k, decodestr v)) (List.filter (\<lambda>(k, v). k \<noteq> []) [([], ''z''), (''a='', ''&1''), (''b'', [])]) \<and>
   pp_load (pp_tostr [(''a='', ''&1''), (''b'', [])]) = [(''a='', ''&1''), (''b'', [])]"
  using parsepara_roundtrip[of "[([], ''z''), (''a='', ''&1''), (''b'', [])]"]
    parsepara_roundtrip[of "[(''a='', ''&1''), (''b'', [])]"] by (simp add: decode_plain)

text \<open>The value \<open>%41\<close> comes back as \<open>A\<close>, and a lone percent sign as a null character.\<close>

lemma decoded_twice: "pp_load (pp_tostr [(''k'', ''%41'')]) = [(''k'', ''A'')]"
  by code_simp

lemma decode_percent: "decodestr ''%'' = [CHR 0x00]"
  by (simp add: decodestr_def decode_from.simps size_sub_def pp_x2c_def)

section \<open>Command lines\<close>

record tc_option =
  mParam :: "(string \<times> string) list"
  vSingle :: "string list"

text \<open>Without an equals sign \<open>pos\<close> is \<open>npos\<close>, and \<open>pos - 2\<close> covers the rest.\<close>

definition option_parse :: "string \<Rightarrow> tc_option \<Rightarrow> tc_option" where
  "option_parse s opt =
     (case find_char s CHR ''='' 0 of
        Some pos \<Rightarrow>
          opt\<lparr>mParam := map_set (take (size_sub pos 2) (drop 2 s)) (drop (pos + 1) s) (mParam opt)\<rparr>
      | None \<Rightarrow> opt\<lparr>mParam := map_set (drop 2 s) [] (mParam opt)\<rparr>)"

definition option_word :: "string \<Rightarrow> tc_option \<Rightarrow> tc_option" where
  "option_word s opt =
     (if length s > 2 \<and> take 2 s = ''--'' then option_parse s opt else opt\<lparr>vSingle := vSingle opt @ [s]\<rparr>)"

text \<open>\<open>argv\<close> without its first element.\<close>

definition option_decode :: "string list \<Rightarrow> tc_option \<Rightarrow> tc_option" where
  "option_decode args opt = fold option_word args (opt\<lparr>mParam := []\<rparr>)"

definition option_getValue :: "string \<Rightarrow> tc_option \<Rightarrow> string" where
  "option_getValue name opt = (case map_of (mParam opt) name of Some v \<Rightarrow> v | None \<Rightarrow> [])"

definition option_hasParam :: "string \<Rightarrow> tc_option \<Rightarrow> bool" where
  "option_hasParam name opt \<longleftrightarrow> map_of (mParam opt) name \<noteq> None"

text \<open>The word for an option, and how a command line is read: the last setting of a name counts.\<close>

definition option_text :: "string \<times> string \<Rightarrow> string" where
  "option_text kv = ''--'' @ fst kv @ ''='' @ snd kv"

lemma option_word_text:
  assumes "CHR ''='' \<notin> set k"
  shows "option_word (option_text (k, v)) opt = opt\<lparr>mParam := map_set k v (mParam opt)\<rparr>"
proof -
  have "index_of ((=) CHR ''='') ((''--'' @ k) @ CHR ''='' # v) = Some (length (''--'' @ k))"
    using assms by (intro index_of_first) (auto simp: list_all_iff)
  then have "find_char (option_text (k, v)) CHR ''='' 0 = Some (2 + length k)"
    by (simp add: find_char_def find_if_from_def option_text_def)
  then show ?thesis by (simp add: option_word_def option_parse_def option_text_def size_sub_def)
qed

lemma option_settings:
  "list_all (\<lambda>(k, v). CHR ''='' \<notin> set k) kvs \<Longrightarrow>
   fold option_word (List.map option_text kvs) opt =
     opt\<lparr>mParam := fold (\<lambda>(k, v). map_set k v) kvs (mParam opt)\<rparr>"
  by (induction kvs arbitrary: opt) (auto simp: option_word_text)

lemma option_last_wins: "map_of (fold (\<lambda>(k, v). map_set k v) kvs m) = (map_of m) ++ map_of (rev kvs)"
  by (induction kvs arbitrary: m) (auto simp: map_of_map_set)

lemma option_decode_values:
  "list_all (\<lambda>(k, v). CHR ''='' \<notin> set k) kvs \<Longrightarrow>
   map_of (mParam (option_decode (List.map option_text kvs) opt)) = map_of (rev kvs) \<and>
   vSingle (option_decode (List.map option_text kvs) opt) = vSingle opt"
  by (simp add: option_decode_def option_settings option_last_wins)

end
