(* ===== verification/Config.thy ===== *)
theory Config
  imports Common
begin

text \<open>
  \<open>TC_Config\<close> and \<open>TC_ConfigDomain\<close> (tcinclude/tc_config.cpp): a tree of domains with
  parameters, its reader, its printer, and access by path. The sub-domains of a domain are
  values here: the code owns them through pointers, copies them deeply and reaches each by one
  path only. The stack of the reader holds paths. Every operation keeps the list of keys and
  the map of parameters of every domain in step, so the assertions of the printer never fail.
\<close>

section \<open>Domains\<close>

datatype config_domain =
  Domain (dname: string) (dparam: "(string \<times> string) list") (dkey: "string list")
    (ddomain: "string list") (dsub: "(string \<times> config_domain) list")

definition new_domain :: "string \<Rightarrow> config_domain" where
  "new_domain sLine = Domain (trim sLine blanks True) [] [] [] []"

definition destroy :: "config_domain \<Rightarrow> config_domain" where
  "destroy d = Domain (dname d) [] [] [] []"

abbreviation config_exn :: "'a result" where
  "config_exn \<equiv> Inl (Thrown ''TC_Config_Exception'')"

abbreviation noparam_exn :: "'a result" where
  "noparam_exn \<equiv> Inl (Thrown ''TC_ConfigNoParam_Exception'')"

text \<open>The domain names and the parameter of a path.\<close>

definition parseDomainName :: "string \<Rightarrow> bool \<Rightarrow> (string list \<times> string) result" where
  "parseDomainName path bWithParam =
     (if bWithParam
      then case find_char path CHR ''<'' 0 of
             None \<Rightarrow> config_exn
           | Some pos1 \<Rightarrow>
               if path ! 0 \<noteq> CHR ''/'' then config_exn
               else case find_char path CHR ''>'' 0 of
                      None \<Rightarrow> config_exn
                    | Some pos2 \<Rightarrow>
                        Inr (sepstr (take (size_sub pos1 1) (drop 1 path)) ''/'' False,
                             take (size_sub (size_sub pos2 pos1) 1) (drop (pos1 + 1) path))
      else if path = [] \<or> path ! 0 \<noteq> CHR ''/'' then config_exn
      else Inr (sepstr (drop 1 path) ''/'' False, []))"

definition addSubDomain :: "string \<Rightarrow> config_domain \<Rightarrow> config_domain" where
  "addSubDomain name d =
     (if map_of (dsub d) name = None
      then Domain (dname d) (dparam d) (dkey d) (ddomain d @ [name]) (map_set name (new_domain name) (dsub d))
      else d)"

definition getParamValue :: "string \<Rightarrow> config_domain \<Rightarrow> string result" where
  "getParamValue name d = (case map_of (dparam d) name of None \<Rightarrow> noparam_exn | Some v \<Rightarrow> Inr v)"

fun getSubTcConfigDomain :: "string list \<Rightarrow> config_domain \<Rightarrow> config_domain option" where
  "getSubTcConfigDomain [] d = Some d"
| "getSubTcConfigDomain (n # p) d =
     (case map_of (dsub d) n of None \<Rightarrow> None | Some c \<Rightarrow> getSubTcConfigDomain p c)"

text \<open>Writing through the pointer to the domain a path leads to.\<close>

fun update_at :: "string list \<Rightarrow> (config_domain \<Rightarrow> config_domain) \<Rightarrow> config_domain \<Rightarrow> config_domain" where
  "update_at [] f d = f d"
| "update_at (n # p) f d =
     (case map_of (dsub d) n of
        None \<Rightarrow> d
      | Some c \<Rightarrow> Domain (dname d) (dparam d) (dkey d) (ddomain d) (map_set n (update_at p f c) (dsub d)))"

text \<open>\<open>insert\<close> keeps the values there are; a key without an entry in \<open>_key\<close> goes to its end.\<close>

definition add_key :: "string \<Rightarrow> string list \<Rightarrow> string list" where
  "add_key k ks = (if k \<in> set ks then ks else ks @ [k])"

definition insertParamValue :: "(string \<times> string) list \<Rightarrow> config_domain \<Rightarrow> config_domain" where
  "insertParamValue m d =
     Domain (dname d) (map_insert_all m (dparam d)) (fold (\<lambda>(k, _). add_key k) m (dkey d)) (ddomain d) (dsub d)"

definition setParamValue :: "string \<Rightarrow> string \<Rightarrow> config_domain \<Rightarrow> config_domain" where
  "setParamValue name v d =
     Domain (dname d) (map_set name v (dparam d)) (remove1 name (dkey d) @ [name]) (ddomain d) (dsub d)"

section \<open>Escapes\<close>

definition escape_code :: "char \<Rightarrow> char option" where
  "escape_code c =
     (if c = CHR 0x5C then Some CHR 0x5C
      else if c = CHR ''r'' then Some CHR 0x0D
      else if c = CHR ''n'' then Some CHR 0x0A
      else if c = CHR ''t'' then Some CHR 0x09
      else if c = CHR ''='' then Some CHR ''=''
      else None)"

text \<open>\<open>parse\<close> and \<open>reverse_parse\<close>.\<close>

fun unescape :: "string \<Rightarrow> string result" where
  "unescape [] = Inr []"
| "unescape [c] = (if c = CHR 0x5C then config_exn else Inr [c])"
| "unescape (c # d # s) =
     (if c = CHR 0x5C
      then case escape_code d of
             None \<Rightarrow> config_exn
           | Some e \<Rightarrow> bindE (unescape s) (\<lambda>t. Inr (e # t))
      else bindE (unescape (d # s)) (\<lambda>t. Inr (c # t)))"

definition escape_char :: "char \<Rightarrow> string result" where
  "escape_char c =
     (if c = CHR 0x5C then Inr [CHR 0x5C, CHR 0x5C]
      else if c = CHR 0x0D then Inr [CHR 0x5C, CHR ''r'']
      else if c = CHR 0x0A then Inr [CHR 0x5C, CHR ''n'']
      else if c = CHR 0x09 then Inr [CHR 0x5C, CHR ''t'']
      else if c = CHR ''='' then Inr [CHR 0x5C, CHR ''='']
      else if c = CHR ''<'' \<or> c = CHR ''>'' then config_exn
      else Inr [c])"

fun escape :: "string \<Rightarrow> string result" where
  "escape [] = Inr []"
| "escape (c # s) = bindE (escape_char c) (\<lambda>t. bindE (escape s) (\<lambda>u. Inr (t @ u)))"

section \<open>Reading\<close>

text \<open>The first equals sign not right behind a backslash.\<close>

fun find_equals :: "bool \<Rightarrow> string \<Rightarrow> nat option" where
  "find_equals behind [] = None"
| "find_equals behind (c # s) =
     (if c = CHR ''='' \<and> \<not> behind then Some 0 else map_option Suc (find_equals (c = CHR 0x5C) s))"

text \<open>\<open>setParamValue\<close> of a line.\<close>

definition setParamLine :: "string \<Rightarrow> config_domain \<Rightarrow> config_domain result" where
  "setParamLine line d =
     (if line = [] then Inr d
      else case find_equals False line of
             Some pos \<Rightarrow>
               bindE (unescape (trim (take pos line) blanks True)) (\<lambda>name.
               bindE (if pos < length line - 1 then unescape (trim (drop (pos + 1) line) blanks True) else Inr [])
                 (\<lambda>v. Inr (setParamValue name v d)))
           | None \<Rightarrow> Inr (setParamValue line [] d))"

text \<open>The stack of paths, the top first, and the tree. A read of the top of an empty stack has no meaning.\<close>

type_synonym parse_state = "string list list \<times> config_domain"

definition at_top :: "parse_state \<Rightarrow> (string list \<Rightarrow> config_domain \<Rightarrow> 'a result) \<Rightarrow> 'a result" where
  "at_top s f =
     (case fst s of
        [] \<Rightarrow> Inl OutOfBounds
      | p # _ \<Rightarrow> (case getSubTcConfigDomain p (snd s) of None \<Rightarrow> Inl OutOfBounds | Some d \<Rightarrow> f p d))"

definition close_domain :: "string \<Rightarrow> parse_state \<Rightarrow> parse_state result" where
  "close_domain sName s =
     (if length (fst s) \<le> 0 then config_exn
      else at_top s (\<lambda>p d. if dname d \<noteq> sName then config_exn else Inr (tl (fst s), snd s)))"

definition open_domain :: "string \<Rightarrow> parse_state \<Rightarrow> parse_state result" where
  "open_domain name s =
     at_top s (\<lambda>p d. Inr ((p @ [name]) # fst s, update_at p (addSubDomain name) (snd s)))"

definition parse_line :: "string \<Rightarrow> parse_state \<Rightarrow> parse_state result" where
  "parse_line l s =
     (let line = trim l blanks True in
      if length line = 0 then Inr s
      else if line ! 0 = CHR ''#'' then Inr s
      else if line ! 0 = CHR ''<''
      then case find_char line CHR ''>'' 0 of
             None \<Rightarrow> config_exn
           | Some posl \<Rightarrow>
               if line ! 1 = CHR ''/''
               then close_domain (take (posl - 2) (drop 2 line)) s
               else open_domain (take (posl - 1) (drop 1 line)) s
      else at_top s (\<lambda>p d. bindE (setParamLine line d) (\<lambda>d'. Inr (fst s, update_at p (\<lambda>_. d') (snd s)))))"

text \<open>What an exception leaves in the tree is the tree before the offending line.\<close>

fun parse_lines :: "string list \<Rightarrow> parse_state \<Rightarrow> cpp_error option \<times> parse_state" where
  "parse_lines [] s = (None, s)"
| "parse_lines (l # ls) s =
     (case parse_line l s of Inl e \<Rightarrow> (Some e, s) | Inr s' \<Rightarrow> parse_lines ls s')"

text \<open>The lines \<open>getline\<close> gives.\<close>

function getlines :: "string \<Rightarrow> string list" where
  "getlines s =
     (if s = [] then []
      else takeWhile (\<lambda>c. c \<noteq> CHR 0x0A) s # getlines (drop 1 (dropWhile (\<lambda>c. c \<noteq> CHR 0x0A) s)))"
  by pat_completeness auto
termination
proof (relation "measure length")
  fix s :: string assume "s \<noteq> []"
  moreover have "length (dropWhile (\<lambda>c. c \<noteq> CHR 0x0A) s) \<le> length s" by (rule length_dropWhile_le)
  ultimately show "(drop 1 (dropWhile (\<lambda>c. c \<noteq> CHR 0x0A) s), s) \<in> measure length"
    by (cases s) (auto simp: length_dropWhile_le less_Suc_eq_le diff_le_self le_diff_conv intro: le_trans[OF diff_le_self])
qed simp

declare getlines.simps [simp del]

definition parseString :: "string \<Rightarrow> config_domain \<Rightarrow> cpp_error option \<times> config_domain" where
  "parseString buffer root =
     (let (e, stk, root) = parse_lines (getlines buffer) ([[]], destroy root) in
      case e of
        Some x \<Rightarrow> (Some x, root)
      | None \<Rightarrow> (if length stk \<noteq> 1 then Some (Thrown ''TC_Config_Exception'') else None, root))"

section \<open>Printing\<close>

fun mapE :: "('a \<Rightarrow> 'b result) \<Rightarrow> 'a list \<Rightarrow> 'b list result" where
  "mapE f [] = Inr []"
| "mapE f (x # xs) = bindE (f x) (\<lambda>y. bindE (mapE f xs) (\<lambda>ys. Inr (y # ys)))"

lemma mapE_cong [fundef_cong]:
  "xs = ys \<Longrightarrow> (\<And>x. x \<in> set ys \<Longrightarrow> f x = g x) \<Longrightarrow> mapE f xs = mapE g ys"
  by (induction ys arbitrary: xs) auto

lemma mapE_Inr: "(\<And>x. x \<in> set xs \<Longrightarrow> f x = Inr (g x)) \<Longrightarrow> mapE f xs = Inr (List.map g xs)"
  by (induction xs) auto

text \<open>One parameter, behind the indentation.\<close>

definition param_text :: "nat \<Rightarrow> (string \<times> string) list \<Rightarrow> string \<Rightarrow> string result" where
  "param_text i param k =
     (case map_of param k of
        None \<Rightarrow> Inl AssertFail
      | Some v \<Rightarrow>
          bindE (escape k) (\<lambda>k'.
          if v = [] then Inr (CHR 0x09 # replicate i CHR 0x09 @ k' @ [CHR 0x0A])
          else bindE (escape v) (\<lambda>v'. Inr (CHR 0x09 # replicate i CHR 0x09 @ k' @ ''='' @ v' @ [CHR 0x0A]))))"

lemma size_sub_domain: "map_of sub n = Some c \<Longrightarrow> size c < Suc (size_list (size_prod (\<lambda>_. 0) size) sub)"
  by (induction sub) (auto split: if_splits)

function domain_tostr :: "nat \<Rightarrow> config_domain \<Rightarrow> string result" where
  "domain_tostr i (Domain name param key domain sub) =
     (let sTab = replicate i CHR 0x09 in
      bindE (escape name) (\<lambda>n.
      bindE (mapE (param_text i param) key) (\<lambda>ps.
      bindE (mapE (\<lambda>m. case map_of sub m of
                         None \<Rightarrow> Inl AssertFail
                       | Some c \<Rightarrow> domain_tostr (i + 1) c) domain) (\<lambda>ds.
      Inr (sTab @ ''<'' @ n @ ''>'' @ [CHR 0x0A] @ concat ps @ concat ds @
           sTab @ ''</'' @ n @ ''>'' @ [CHR 0x0A])))))"
  by pat_completeness auto
termination
  by (relation "measure (\<lambda>(i, d). size d)") (auto dest: size_sub_domain)

text \<open>The root prints its sub-domains only, in the order of the map.\<close>

definition config_tostr :: "config_domain \<Rightarrow> string result" where
  "config_tostr root = bindE (mapE (\<lambda>(_, c). domain_tostr 0 c) (dsub root)) (\<lambda>ds. Inr (concat ds))"

definition joinConfig :: "config_domain \<Rightarrow> bool \<Rightarrow> config_domain \<Rightarrow> cpp_error option \<times> config_domain" where
  "joinConfig cf bUpdate root =
     (case bindE (config_tostr (if bUpdate then root else cf)) (\<lambda>a.
           bindE (config_tostr (if bUpdate then cf else root)) (\<lambda>b. Inr (a @ b))) of
        Inl e \<Rightarrow> (Some e, root)
      | Inr buffer \<Rightarrow> parseString buffer root)"

section \<open>Access by path\<close>

definition config_index :: "string \<Rightarrow> config_domain \<Rightarrow> string result" where
  "config_index path root =
     bindE (parseDomainName path True) (\<lambda>(ds, param).
     case getSubTcConfigDomain ds root of
       None \<Rightarrow> noparam_exn
     | Some d \<Rightarrow> getParamValue param d)"

text \<open>Only \<open>TC_ConfigNoParam_Exception\<close> is caught.\<close>

definition config_get :: "string \<Rightarrow> string \<Rightarrow> config_domain \<Rightarrow> string result" where
  "config_get path sDefault root =
     (case config_index path root of
        Inl e \<Rightarrow> if e = Thrown ''TC_ConfigNoParam_Exception'' then Inr sDefault else Inl e
      | Inr v \<Rightarrow> Inr v)"

definition getDomainMap :: "string \<Rightarrow> config_domain \<Rightarrow> (string \<times> string) list option result" where
  "getDomainMap path root =
     bindE (parseDomainName path False) (\<lambda>(ds, _). Inr (map_option dparam (getSubTcConfigDomain ds root)))"

definition getDomainKey :: "string \<Rightarrow> config_domain \<Rightarrow> string list result" where
  "getDomainKey path root =
     bindE (parseDomainName path False) (\<lambda>(ds, _).
     Inr (case getSubTcConfigDomain ds root of None \<Rightarrow> [] | Some d \<Rightarrow> dkey d))"

definition getDomainVector :: "string \<Rightarrow> config_domain \<Rightarrow> (bool \<times> string list) result" where
  "getDomainVector path root =
     bindE (parseDomainName path False) (\<lambda>(ds, _).
     Inr (if ds = [] then (ddomain root \<noteq> [], ddomain root)
          else case getSubTcConfigDomain ds root of None \<Rightarrow> (False, []) | Some d \<Rightarrow> (True, ddomain d)))"

fun create_path :: "string list \<Rightarrow> string list \<Rightarrow> config_domain \<Rightarrow> config_domain" where
  "create_path p [] root = root"
| "create_path p (n # ds) root = create_path (p @ [n]) ds (update_at p (addSubDomain n) root)"

definition with_domain ::
  "string \<Rightarrow> (config_domain \<Rightarrow> config_domain) \<Rightarrow> bool \<Rightarrow> config_domain \<Rightarrow> (int \<times> config_domain) result" where
  "with_domain sCurDomain f bCreate root =
     bindE (parseDomainName sCurDomain False) (\<lambda>(ds, _).
     case getSubTcConfigDomain ds root of
       None \<Rightarrow> if bCreate then Inr (0, update_at ds f (create_path [] ds root)) else Inr (- 1, root)
     | Some _ \<Rightarrow> Inr (0, update_at ds f root))"

definition insertDomain :: "string \<Rightarrow> string \<Rightarrow> bool \<Rightarrow> config_domain \<Rightarrow> (int \<times> config_domain) result" where
  "insertDomain sCurDomain sAddDomain bCreate root = with_domain sCurDomain (addSubDomain sAddDomain) bCreate root"

definition insertDomainParam ::
  "string \<Rightarrow> (string \<times> string) list \<Rightarrow> bool \<Rightarrow> config_domain \<Rightarrow> (int \<times> config_domain) result" where
  "insertDomainParam sCurDomain m bCreate root = with_domain sCurDomain (insertParamValue m) bCreate root"

section \<open>Keys and parameters stay in step\<close>

text \<open>
  What holds of every domain of a tree: \<open>_key\<close> lists the keys of \<open>_param\<close> and \<open>_domain\<close>
  those of \<open>_subdomain\<close>, each once; a sub-domain is named by its trimmed key.
\<close>

function consistent :: "config_domain \<Rightarrow> bool" where
  "consistent (Domain name param key domain sub) \<longleftrightarrow>
     sorted_map param \<and> distinct key \<and> set key = fst ` set param \<and>
     sorted_map sub \<and> distinct domain \<and> set domain = fst ` set sub \<and>
     (\<forall>x\<in>set sub. dname (snd x) = trim (fst x) blanks True \<and> consistent (snd x))"
  by pat_completeness auto
termination
proof (relation "measure size")
  fix param :: "(string \<times> string) list" and sub :: "(string \<times> config_domain) list" and x name key domain
  assume "x \<in> set sub"
  then have "size (snd x) < Suc (size_list (size_prod (\<lambda>_. 0) size) sub)"
    by (induction sub) (auto split: if_splits)
  then show "(snd x, Domain name param key domain sub) \<in> measure size" by simp
qed simp

lemma consistent_dest:
  assumes "consistent d"
  shows "sorted_map (dparam d)" "distinct (dkey d)" "set (dkey d) = fst ` set (dparam d)"
    "sorted_map (dsub d)" "distinct (ddomain d)" "set (ddomain d) = fst ` set (dsub d)"
    "map_of (dsub d) n = Some c \<Longrightarrow> dname c = trim n blanks True \<and> consistent c"
  using assms by (cases d; auto dest!: map_of_SomeD)+

lemma consistent_sub:
  assumes "consistent d" "getSubTcConfigDomain p d = Some e"
  shows "consistent e"
  using assms
  by (induction p d rule: getSubTcConfigDomain.induct) (auto split: option.splits dest: consistent_dest(7))

lemma consistent_new: "consistent (new_domain n)" "dname (new_domain n) = trim n blanks True"
  by (simp_all add: new_domain_def)

lemma consistent_destroy: "consistent (destroy d)"
  by (simp add: destroy_def)

lemma set_map_set: "sorted_map m \<Longrightarrow> x \<in> set (map_set k v m) \<longleftrightarrow> x = (k, v) \<or> x \<in> set m \<and> fst x \<noteq> k"
  by (induction k v m rule: map_set.induct) auto

lemma consistent_map_set:
  assumes "consistent d" "consistent c" "dname c = trim n blanks True"
    "distinct ds" "set ds = insert n (set (ddomain d))"
  shows "consistent (Domain (dname d) (dparam d) (dkey d) ds (map_set n c (dsub d)))"
  using assms by (cases d) (auto simp: sorted_map_set keys_map_set set_map_set)

lemma consistent_addSubDomain: "consistent d \<Longrightarrow> consistent (addSubDomain n d) \<and> dname (addSubDomain n d) = dname d"
proof (cases "map_of (dsub d) n")
  case None
  assume d: "consistent d"
  have "n \<notin> set (ddomain d)" using None consistent_dest(6)[OF d] by (simp add: map_of_eq_None_iff)
  then show ?thesis
    using None consistent_map_set[OF d consistent_new, of "ddomain d @ [n]"] consistent_dest(5)[OF d]
    by (simp add: addSubDomain_def)
qed (simp add: addSubDomain_def)

lemma consistent_setParamValue: "consistent d \<Longrightarrow> consistent (setParamValue k v d) \<and> dname (setParamValue k v d) = dname d"
  by (cases d) (auto simp: setParamValue_def sorted_map_set keys_map_set)

lemma add_keys: "set (fold (\<lambda>(k, _). add_key k) m ks) = set ks \<union> fst ` set m"
  "distinct ks \<Longrightarrow> distinct (fold (\<lambda>(k, _). add_key k) m ks)"
  by (induction m arbitrary: ks) (auto simp: add_key_def split: if_splits)

lemma keys_insert_all: "fst ` set (map_insert_all new m) = fst ` set m \<union> fst ` set new"
proof -
  have "fst ` set m = {x. map_of m x \<noteq> None}" for m :: "('a \<times> 'b) list"
    by (simp add: map_of_eq_None_iff)
  then show ?thesis by (auto simp: map_of_insert_all split: option.splits)
qed

lemma consistent_insertParamValue:
  "consistent d \<Longrightarrow> consistent (insertParamValue m d) \<and> dname (insertParamValue m d) = dname d"
  by (cases d) (simp add: insertParamValue_def sorted_insert_all add_keys keys_insert_all)

lemma consistent_setParamLine:
  "consistent d \<Longrightarrow> setParamLine l d = Inr d' \<Longrightarrow> consistent d' \<and> dname d' = dname d"
  by (auto simp: setParamLine_def consistent_setParamValue split: if_splits option.splits)

lemma consistent_update:
  assumes "consistent d"
    "\<And>e. getSubTcConfigDomain p d = Some e \<Longrightarrow> consistent e \<Longrightarrow> consistent (f e) \<and> dname (f e) = dname e"
  shows "consistent (update_at p f d) \<and> dname (update_at p f d) = dname d"
  using assms
proof (induction p f d rule: update_at.induct)
  case (2 n p f d)
  show ?case
  proof (cases "map_of (dsub d) n")
    case (Some c)
    note c = consistent_dest(7)[OF "2.prems"(1) Some]
    have "consistent (update_at p f c) \<and> dname (update_at p f c) = dname c"
      using 2(1)[OF Some] c "2.prems"(2) Some by simp
    moreover have "n \<in> set (ddomain d)"
      using consistent_dest(6)[OF "2.prems"(1)] Some by (force dest: map_of_SomeD)
    ultimately show ?thesis
      using Some c consistent_map_set[OF "2.prems"(1), of "update_at p f c" n "ddomain d"] consistent_dest(5)[OF "2.prems"(1)]
      by (simp add: insert_absorb del: consistent.simps)
  qed (use 2 in simp)
qed simp

lemma consistent_at_top:
  assumes "consistent (snd s)" "at_top s f = Inr s'"
    "\<And>p d. getSubTcConfigDomain p (snd s) = Some d \<Longrightarrow> consistent d \<Longrightarrow> f p d = Inr s' \<Longrightarrow> consistent (snd s')"
  shows "consistent (snd s')"
  using assms consistent_sub[OF assms(1)] by (auto simp: at_top_def split: list.splits option.splits)

lemma consistent_open: "consistent (snd s) \<Longrightarrow> open_domain n s = Inr s' \<Longrightarrow> consistent (snd s')"
  unfolding open_domain_def
  by (rule consistent_at_top, assumption, assumption)
    (auto intro!: consistent_update[THEN conjunct1] simp: consistent_addSubDomain)

lemma consistent_close: "consistent (snd s) \<Longrightarrow> close_domain n s = Inr s' \<Longrightarrow> consistent (snd s')"
  by (auto simp: close_domain_def at_top_def split: if_splits option.splits list.splits)

lemma consistent_set_line:
  assumes "consistent (snd s)"
    "at_top s (\<lambda>p d. bindE (setParamLine l d) (\<lambda>d'. Inr (fst s, update_at p (\<lambda>_. d') (snd s)))) = Inr s'"
  shows "consistent (snd s')"
  using assms
proof (rule consistent_at_top)
  fix p d
  assume d: "getSubTcConfigDomain p (snd s) = Some d" "consistent d"
    and "bindE (setParamLine l d) (\<lambda>d'. Inr (fst s, update_at p (\<lambda>_. d') (snd s))) = Inr s'"
  then obtain d' where d': "setParamLine l d = Inr d'" "s' = (fst s, update_at p (\<lambda>_. d') (snd s))" by auto
  show "consistent (snd s')"
    using consistent_setParamLine[OF d(2) d'(1)] d(1) consistent_update[OF assms(1), of p "\<lambda>_. d'"]
    by (simp add: d'(2))
qed

lemma consistent_parse_line:
  "consistent (snd s) \<Longrightarrow> parse_line l s = Inr s' \<Longrightarrow> consistent (snd s')"
  unfolding parse_line_def Let_def
  by (auto dest: consistent_open consistent_close consistent_set_line split: if_splits option.splits)

lemma consistent_parse_lines: "consistent (snd s) \<Longrightarrow> consistent (snd (snd (parse_lines ls s)))"
  by (induction ls s rule: parse_lines.induct) (auto dest: consistent_parse_line split: sum.split)

lemma consistent_parseString: "consistent (snd (parseString buffer root))"
proof -
  obtain e stk r where "parse_lines (getlines buffer) ([[]], destroy root) = (e, stk, r)"
    by (cases "parse_lines (getlines buffer) ([[]], destroy root)")
  then show ?thesis
    using consistent_parse_lines[of "([[]], destroy root)" "getlines buffer"] consistent_destroy
    by (cases e) (simp_all add: parseString_def)
qed

lemma consistent_joinConfig: "consistent root \<Longrightarrow> consistent (snd (joinConfig cf b root))"
  by (auto simp: joinConfig_def consistent_parseString split: sum.split)

lemma consistent_create_path: "consistent root \<Longrightarrow> consistent (create_path p ds root)"
  by (induction p ds root rule: create_path.induct) (simp_all add: consistent_update consistent_addSubDomain)

lemma consistent_with_domain:
  assumes "consistent root" "\<And>e. consistent e \<Longrightarrow> consistent (f e) \<and> dname (f e) = dname e"
    "with_domain c f b root = Inr (i, root')"
  shows "consistent root'"
  using assms(3,1) consistent_update[OF assms(1,2)] consistent_update[OF consistent_create_path[OF assms(1)] assms(2)]
  by (auto simp: with_domain_def split: option.splits if_splits)

text \<open>The assertions of the printer hold.\<close>

lemma mapE_Inl: "mapE f xs = Inl e \<Longrightarrow> \<exists>x\<in>set xs. f x = Inl e"
  by (induction xs) (auto simp: bindE_def split: sum.splits)

lemma escape_no_assert: "escape s \<noteq> Inl AssertFail"
proof (induction s)
  case (Cons c s)
  then show ?case by (auto simp: escape_char_def bindE_def split: sum.splits if_splits)
qed simp

lemma domain_tostr_no_assert: "consistent d \<Longrightarrow> domain_tostr i d \<noteq> Inl AssertFail"
proof (induction i d rule: domain_tostr.induct)
  case (1 i name param key domain sub)
  note d = consistent_dest[OF "1.prems", simplified]
  have "param_text i param k \<noteq> Inl AssertFail" if "k \<in> set key" for k
  proof -
    have "map_of param k \<noteq> None" using that d(3) by (simp add: map_of_eq_None_iff)
    then show ?thesis
      using escape_no_assert by (auto simp: param_text_def bindE_def split: option.splits sum.splits)
  qed
  then have p: "mapE (param_text i param) key \<noteq> Inl AssertFail" using mapE_Inl by blast
  let ?f = "\<lambda>m. case map_of sub m of None \<Rightarrow> Inl AssertFail | Some c \<Rightarrow> domain_tostr (i + 1) c"
  have "mapE ?f domain \<noteq> Inl AssertFail" if n: "escape name = Inr n" and ps: "mapE (param_text i param) key = Inr ps" for n ps
  proof -
    have "?f m \<noteq> Inl AssertFail" if m: "m \<in> set domain" for m
    proof -
      obtain c where c: "map_of sub m = Some c" using m d(6)
        by (cases "map_of sub m") (auto simp: map_of_eq_None_iff)
      with "1.IH"[OF refl n ps m c] d(7)[OF c] show ?thesis by simp
    qed
    then show ?thesis using mapE_Inl by fast
  qed
  with p escape_no_assert[of name] show ?case
    by (cases "escape name"; cases "mapE (param_text i param) key"; cases "mapE ?f domain")
      (auto simp: Let_def)
qed

lemma config_tostr_no_assert:
  assumes "consistent root"
  shows "config_tostr root \<noteq> Inl AssertFail"
proof -
  have "domain_tostr 0 (snd x) \<noteq> Inl AssertFail" if "x \<in> set (dsub root)" for x
    using assms that by (cases root) (auto intro!: domain_tostr_no_assert)
  then have "mapE (\<lambda>(_, c). domain_tostr 0 c) (dsub root) \<noteq> Inl AssertFail"
    by (auto dest!: mapE_Inl)
  then show ?thesis by (auto simp: config_tostr_def bindE_def split: sum.splits)
qed

text \<open>
  C27. In every tree reached through the operations of \<open>TC_Config\<close>, also when they throw, each
  domain lists exactly the keys it has parameters for and exactly its sub-domains, once each;
  the assertions of the printer do not fail.
\<close>

theorem config_consistent:
  assumes "consistent root"
  shows "consistent (snd (parseString buffer root)) \<and>
    consistent (snd (joinConfig cf bUpdate root)) \<and>
    list_all (\<lambda>r. case r of Inl _ \<Rightarrow> True | Inr (_, root') \<Rightarrow> consistent root')
      [insertDomain c a bCreate root, insertDomainParam c m bCreate root] \<and>
    config_tostr root \<noteq> Inl AssertFail"
proof -
  note w = consistent_with_domain[OF assms]
  have "case insertDomain c a bCreate root of Inl _ \<Rightarrow> True | Inr (_, root') \<Rightarrow> consistent root'"
    using w[of "addSubDomain a"] consistent_addSubDomain
    by (auto simp: insertDomain_def split: sum.split prod.split)
  moreover have "case insertDomainParam c m bCreate root of Inl _ \<Rightarrow> True | Inr (_, root') \<Rightarrow> consistent root'"
    using w[of "insertParamValue m"] consistent_insertParamValue
    by (auto simp: insertDomainParam_def split: sum.split prod.split)
  ultimately show ?thesis
    using consistent_parseString consistent_joinConfig[OF assms] config_tostr_no_assert[OF assms] by simp
qed

lemma config_consistent_witness:
  "consistent (snd (parseString ''</>'' (new_domain []))) \<and>
    consistent (snd (joinConfig (new_domain []) True (new_domain []))) \<and>
    list_all (\<lambda>r. case r of Inl _ \<Rightarrow> True | Inr (_, root') \<Rightarrow> consistent root')
      [insertDomain ''/a'' ''b'' True (new_domain []), insertDomainParam ''/a'' [(''k'', ''v'')] True (new_domain [])] \<and>
    config_tostr (new_domain []) \<noteq> Inl AssertFail"
  by (rule config_consistent) (rule consistent_new)

section \<open>Errors\<close>

text \<open>
  What the reader keeps while no line closes a domain without a name: the stack ends in the
  root, which has no name, and every path on it leads to a domain.
\<close>

definition stack_ok :: "parse_state \<Rightarrow> bool" where
  "stack_ok s \<longleftrightarrow> fst s \<noteq> [] \<and> last (fst s) = [] \<and> dname (snd s) = [] \<and>
     list_all (\<lambda>p. getSubTcConfigDomain p (snd s) \<noteq> None) (fst s)"

definition closes_nameless :: "string \<Rightarrow> bool" where
  "closes_nameless l \<longleftrightarrow> take 3 (trim l blanks True) = ''</>''"

lemma getSub_keeps:
  assumes "getSubTcConfigDomain q d \<noteq> None"
    "\<And>e q. getSubTcConfigDomain p d = Some e \<Longrightarrow> getSubTcConfigDomain q e \<noteq> None \<Longrightarrow> getSubTcConfigDomain q (f e) \<noteq> None"
  shows "getSubTcConfigDomain q (update_at p f d) \<noteq> None"
  using assms
proof (induction p f d arbitrary: q rule: update_at.induct)
  case (2 n p f d)
  show ?case
  proof (cases "map_of (dsub d) n")
    case (Some c)
    show ?thesis
    proof (cases q)
      case (Cons n' q')
      show ?thesis
      proof (cases "n' = n")
        case True
        with 2(1)[OF Some, of q'] "2.prems" Some Cons show ?thesis by (simp add: map_of_map_set)
      qed (use "2.prems"(1) Some Cons in \<open>simp add: map_of_map_set split: option.splits\<close>)
    qed simp
  qed (use 2 in simp)
qed simp

lemma getSub_add: "getSubTcConfigDomain q e \<noteq> None \<Longrightarrow> getSubTcConfigDomain q (addSubDomain n e) \<noteq> None"
  by (cases q) (auto simp: addSubDomain_def map_of_map_set split: option.splits)

lemma getSub_same: "dsub e' = dsub e \<Longrightarrow> getSubTcConfigDomain q e \<noteq> None \<Longrightarrow> getSubTcConfigDomain q e' \<noteq> None"
  by (cases q) auto

lemma setParamLine_keeps: "setParamLine l d = Inr d' \<Longrightarrow> dsub d' = dsub d \<and> dname d' = dname d"
  by (auto simp: setParamLine_def setParamValue_def split: if_splits option.splits)

lemma unescape_error: "unescape s \<noteq> Inl OutOfBounds"
  by (induction s rule: unescape.induct) (auto simp: bindE_def split: option.splits sum.splits)

lemma setParamLine_error: "setParamLine l d \<noteq> Inl OutOfBounds"
  using unescape_error by (auto simp: setParamLine_def bindE_def split: option.splits sum.splits)

lemma dname_update: "(\<And>e. getSubTcConfigDomain p d = Some e \<Longrightarrow> dname (f e) = dname e) \<Longrightarrow> dname (update_at p f d) = dname d"
  by (cases p) (auto split: option.split)

lemma stack_ok_top:
  assumes "stack_ok s"
  obtains p stk d where "fst s = p # stk" "getSubTcConfigDomain p (snd s) = Some d"
    "at_top s f = f p d" "stk = [] \<Longrightarrow> p = [] \<and> d = snd s" "stk \<noteq> [] \<Longrightarrow> last stk = []"
proof -
  obtain p stk where s: "fst s = p # stk" using assms by (cases "fst s") (auto simp: stack_ok_def)
  moreover obtain d where d: "getSubTcConfigDomain p (snd s) = Some d"
    using assms s by (auto simp: stack_ok_def)
  moreover have p: "stk = [] \<Longrightarrow> p = []" "stk \<noteq> [] \<Longrightarrow> last stk = []" using assms s by (auto simp: stack_ok_def)
  moreover from p(1) d have "stk = [] \<Longrightarrow> d = snd s" by simp
  ultimately show thesis using that[of p stk d] by (simp add: at_top_def)
qed

lemma stack_ok_update:
  assumes "stack_ok s" "getSubTcConfigDomain p (snd s) = Some d" "dname (f d) = dname d"
    "\<And>q. getSubTcConfigDomain q d \<noteq> None \<Longrightarrow> getSubTcConfigDomain q (f d) \<noteq> None"
  shows "stack_ok (fst s, update_at p f (snd s))"
proof -
  have "getSubTcConfigDomain q (update_at p f (snd s)) \<noteq> None" if "getSubTcConfigDomain q (snd s) \<noteq> None" for q
    using that assms(2,4) by (intro getSub_keeps) auto
  moreover have "dname (update_at p f (snd s)) = dname (snd s)" using assms(2,3) by (intro dname_update) simp
  ultimately show ?thesis using assms(1) by (simp add: stack_ok_def list_all_iff del: not_None_eq)
qed

lemma getSub_append: "getSubTcConfigDomain (p @ q) d = Option.bind (getSubTcConfigDomain p d) (getSubTcConfigDomain q)"
  by (induction p d rule: getSubTcConfigDomain.induct) (auto split: option.split)

lemma getSub_update: "getSubTcConfigDomain p (update_at p f d) = map_option f (getSubTcConfigDomain p d)"
  by (induction p f d rule: update_at.induct) (auto simp: map_of_map_set split: option.split)

lemma stack_ok_open:
  assumes "stack_ok s"
  shows "\<exists>s'. open_domain n s = Inr s' \<and> stack_ok s'"
proof -
  let ?f = "\<lambda>p d. Inr ((p @ [n]) # fst s, update_at p (addSubDomain n) (snd s)) :: parse_state result"
  obtain p stk d where s: "fst s = p # stk" "getSubTcConfigDomain p (snd s) = Some d" "at_top s ?f = ?f p d"
    by (rule stack_ok_top[OF assms, of ?f]) blast
  let ?r = "update_at p (addSubDomain n) (snd s)"
  have "stack_ok (fst s, ?r)"
    using stack_ok_update[OF assms s(2), of "addSubDomain n"] getSub_add by (simp add: addSubDomain_def)
  moreover have "getSubTcConfigDomain (p @ [n]) ?r \<noteq> None"
    by (simp add: getSub_append getSub_update s(2)) (simp add: addSubDomain_def map_of_map_set split: option.split)
  ultimately have "stack_ok ((p @ [n]) # fst s, ?r)" by (simp add: stack_ok_def)
  with s(3) show ?thesis unfolding open_domain_def by simp
qed

lemma stack_ok_close:
  assumes "stack_ok s" "n \<noteq> []"
  shows "case close_domain n s of Inl e \<Rightarrow> e = Thrown ''TC_Config_Exception'' | Inr s' \<Rightarrow> stack_ok s'"
proof -
  let ?f = "\<lambda>p d. if dname d \<noteq> n then config_exn else Inr (tl (fst s), snd s) :: parse_state result"
  obtain p stk d where s: "fst s = p # stk" "at_top s ?f = ?f p d" "stk = [] \<Longrightarrow> d = snd s" "stk \<noteq> [] \<Longrightarrow> last stk = []"
    by (rule stack_ok_top[OF assms(1), of ?f]) blast
  show ?thesis
  proof (cases "dname d = n")
    case True
    with s(3) assms have "stk \<noteq> []" by (auto simp: stack_ok_def)
    with s assms(1) have "stack_ok (stk, snd s)" by (auto simp: stack_ok_def)
    with s True show ?thesis by (simp add: close_domain_def)
  qed (use s in \<open>simp add: close_domain_def\<close>)
qed

lemma stack_ok_set:
  assumes "stack_ok s"
  shows "case at_top s (\<lambda>p d. bindE (setParamLine l d) (\<lambda>d'. Inr (fst s, update_at p (\<lambda>_. d') (snd s)))) of
    Inl e \<Rightarrow> e \<noteq> OutOfBounds | Inr s' \<Rightarrow> stack_ok s'"
proof -
  let ?f = "\<lambda>p d. bindE (setParamLine l d) (\<lambda>d'. Inr (fst s, update_at p (\<lambda>_. d') (snd s))) :: parse_state result"
  obtain p stk d where s: "getSubTcConfigDomain p (snd s) = Some d" "at_top s ?f = ?f p d"
    by (rule stack_ok_top[OF assms, of ?f]) blast
  show ?thesis
  proof (cases "setParamLine l d")
    case (Inr d')
    note k = setParamLine_keeps[OF Inr]
    have "stack_ok (fst s, update_at p (\<lambda>_. d') (snd s))"
      using stack_ok_update[OF assms s(1), of "\<lambda>_. d'"] k getSub_same[of d' d] by simp
    with s(2) Inr show ?thesis by simp
  qed (use s(2) setParamLine_error in auto)
qed

lemma stack_ok_line:
  assumes "stack_ok s" "\<not> closes_nameless l"
  shows "case parse_line l s of Inl e \<Rightarrow> e \<noteq> OutOfBounds | Inr s' \<Rightarrow> stack_ok s'"
proof -
  let ?l = "trim l blanks True"
  consider "?l = [] \<or> ?l ! 0 = CHR ''#''" | "?l \<noteq> []" "?l ! 0 = CHR ''<''"
    | "?l \<noteq> []" "?l ! 0 \<noteq> CHR ''#''" "?l ! 0 \<noteq> CHR ''<''" by blast
  then show ?thesis
  proof cases
    case 2
    show ?thesis
    proof (cases "find_char ?l CHR ''>'' 0")
      case (Some posl)
      then have p: "posl < length ?l" "?l ! posl = CHR ''>''"
        by (auto simp: find_char_def find_if_from_def index_of_Some)
      show ?thesis
      proof (cases "?l ! 1 = CHR ''/''")
        case True
        have "posl \<noteq> 0" using p(2) 2(2) by (cases "posl = 0") simp_all
        moreover have "posl \<noteq> 1" using p(2) True by (cases "posl = 1") simp_all
        moreover have "posl \<noteq> 2"
        proof
          assume "posl = 2"
          moreover from this p have "take 3 ?l = [?l ! 0, ?l ! 1, ?l ! 2]"
            by (cases ?l; cases "tl ?l"; cases "tl (tl ?l)") (simp_all add: numeral_eq_Suc)
          ultimately show False using 2(2) True p(2) assms(2) by (simp add: closes_nameless_def)
        qed
        ultimately have "take (posl - 2) (drop 2 ?l) \<noteq> []" using p(1) by simp
        from stack_ok_close[OF assms(1) this] show ?thesis
          using 2 Some True by (auto simp: parse_line_def Let_def split: sum.splits)
      next
        case False
        with stack_ok_open[OF assms(1), of "take (posl - 1) (drop 1 ?l)"] 2 Some show ?thesis
          by (auto simp: parse_line_def Let_def)
      qed
    qed (use 2 in \<open>simp add: parse_line_def\<close>)
  next
    case 3
    with stack_ok_set[OF assms(1), of ?l] show ?thesis by (simp add: parse_line_def)
  qed (use assms in \<open>auto simp: parse_line_def Let_def\<close>)
qed

lemma parse_lines_safe:
  "stack_ok s \<Longrightarrow> list_all (\<lambda>l. \<not> closes_nameless l) ls \<Longrightarrow> fst (parse_lines ls s) \<noteq> Some OutOfBounds"
proof (induction ls s rule: parse_lines.induct)
  case (2 l ls s)
  then show ?case using stack_ok_line[of s l] by (auto split: sum.splits)
qed simp

text \<open>
  Reading a configuration never reads the top of an empty stack, unless some line closes a
  domain without a name: it succeeds or throws. With such a line outside every domain the
  next non-empty line does read it.
\<close>

lemma config_parse_errors:
  assumes "dname root = []" "list_all (\<lambda>l. \<not> closes_nameless l) (getlines buffer)"
  shows "fst (parseString buffer root) \<noteq> Some OutOfBounds \<and>
    fst (parse_lines (''</>'' # ''k=v'' # ls) ([[]], destroy root)) = Some OutOfBounds"
proof
  have "stack_ok ([[]], destroy root)" using assms(1) by (simp add: stack_ok_def destroy_def)
  from parse_lines_safe[OF this assms(2)] show "fst (parseString buffer root) \<noteq> Some OutOfBounds"
    by (cases "parse_lines (getlines buffer) ([[]], destroy root)") (auto simp: parseString_def split: option.split)
  have "parse_line ''</>'' ([[]], destroy root) = Inr ([], destroy root)" "parse_line ''k=v'' ([], d) = Inl OutOfBounds" for d
    using assms(1)
    by (simp_all add: parse_line_def close_domain_def at_top_def trim_def trimleft_def trimright_def blanks_def
        find_char_def find_if_from_def destroy_def)
  then show "fst (parse_lines (''</>'' # ''k=v'' # ls) ([[]], destroy root)) = Some OutOfBounds" by simp
qed

lemma config_parse_errors_witness:
  "fst (parseString ''<a>'' (new_domain [])) \<noteq> Some OutOfBounds \<and>
    fst (parse_lines (''</>'' # ''k=v'' # []) ([[]], destroy (new_domain []))) = Some OutOfBounds"
  by (rule config_parse_errors) code_simp+

end
