(* ===== verification/Config_Text.thy ===== *)
theory Config_Text
  imports Config
begin

text \<open>
  Reading back what \<open>TC_Config::tostr\<close> printed (tcinclude/tc_config.cpp): which trees are
  printable, the lines they are printed as, and the tree the reader builds from them.
\<close>

section \<open>Escaped text\<close>

definition special :: string where
  "special = [CHR 0x5C, CHR 0x0D, CHR 0x0A, CHR 0x09, CHR ''='', CHR ''<'', CHR ''>'']"

abbreviation plain :: "string \<Rightarrow> bool" where
  "plain s \<equiv> list_all (\<lambda>c. c \<notin> set special) s"

abbreviation no_brackets :: "string \<Rightarrow> bool" where
  "no_brackets s \<equiv> list_all (\<lambda>c. c \<noteq> CHR ''<'' \<and> c \<noteq> CHR ''>'') s"

definition no_outer_space :: "string \<Rightarrow> bool" where
  "no_outer_space s \<longleftrightarrow> s = [] \<or> hd s \<noteq> CHR '' '' \<and> last s \<noteq> CHR '' ''"

definition esc_char :: "char \<Rightarrow> string" where
  "esc_char c =
     (if c = CHR 0x5C then [CHR 0x5C, CHR 0x5C]
      else if c = CHR 0x0D then [CHR 0x5C, CHR ''r'']
      else if c = CHR 0x0A then [CHR 0x5C, CHR ''n'']
      else if c = CHR 0x09 then [CHR 0x5C, CHR ''t'']
      else if c = CHR ''='' then [CHR 0x5C, CHR ''='']
      else [c])"

abbreviation esc :: "string \<Rightarrow> string" where
  "esc s \<equiv> concat (List.map esc_char s)"

lemma esc_char_cases:
  "c = CHR 0x5C \<or> c = CHR 0x0D \<or> c = CHR 0x0A \<or> c = CHR 0x09 \<or> c = CHR ''='' \<or> esc_char c = [c]"
  by (simp add: esc_char_def)

lemma escape_esc: "no_brackets s \<Longrightarrow> escape s = Inr (esc s)"
  by (induction s) (auto simp: escape_char_def esc_char_def)

lemma unescape_plain: "c \<noteq> CHR 0x5C \<Longrightarrow> unescape (c # t) = bindE (unescape t) (\<lambda>u. Inr (c # u))"
  by (cases t) simp_all

lemma unescape_esc: "unescape (esc s) = Inr s"
proof (induction s)
  case (Cons c s)
  have "unescape (esc_char c @ t) = bindE (unescape t) (\<lambda>u. Inr (c # u))" for t
    by (auto simp: esc_char_def escape_code_def unescape_plain)
  with Cons show ?case by simp
qed simp

lemma esc_plain: "plain s \<Longrightarrow> esc s = s"
  by (induction s) (simp_all add: esc_char_def special_def)

lemma esc_no_control: "c \<in> set (esc s) \<Longrightarrow> c \<noteq> CHR 0x0A \<and> c \<noteq> CHR 0x0D \<and> c \<noteq> CHR 0x09"
  by (auto simp: esc_char_def split: if_splits)

lemma esc_no_brackets: "no_brackets s \<Longrightarrow> no_brackets (esc s)"
  by (induction s) (auto simp: esc_char_def)

lemma esc_hd: "s \<noteq> [] \<Longrightarrow> esc s \<noteq> [] \<and> hd (esc s) = (if hd s \<in> {CHR 0x0D, CHR 0x0A, CHR 0x09, CHR ''=''} then CHR 0x5C else hd s)"
  by (cases s) (auto simp: esc_char_def)

lemma esc_last: "s \<noteq> [] \<Longrightarrow> last (esc s) \<noteq> CHR '' '' \<longleftrightarrow> last s \<noteq> CHR '' ''"
  by (induction s rule: rev_induct) (auto simp: esc_char_def)

lemma esc_ends:
  assumes "s \<noteq> []" "no_outer_space s"
  shows "esc s \<noteq> []" "hd (esc s) \<notin> set blanks" "last (esc s) \<notin> set blanks"
proof -
  show ne: "esc s \<noteq> []" using esc_hd[OF assms(1)] by blast
  show "hd (esc s) \<notin> set blanks" using esc_hd[OF assms(1)] assms by (auto simp: blanks_def no_outer_space_def)
  have "last (esc s) \<in> set (esc s)" using ne by (rule last_in_set)
  from esc_no_control[OF this] show "last (esc s) \<notin> set blanks"
    using esc_last[OF assms(1)] assms by (auto simp: blanks_def no_outer_space_def)
qed

lemma find_equals_esc:
  "find_equals b (esc k @ t) =
     map_option ((+) (length (esc k))) (find_equals (if k = [] then b else last k = CHR 0x5C) t)"
proof (induction k arbitrary: b)
  case Nil
  then show ?case by (cases "find_equals b t") simp_all
next
  case (Cons c k)
  have "find_equals b (esc_char c @ u) =
      map_option ((+) (length (esc_char c))) (find_equals (c = CHR 0x5C) u)" for u
    by (cases "find_equals (c = CHR 0x5C) u") (auto simp: esc_char_def)
  then have "find_equals b (esc (c # k) @ t) =
      map_option ((+) (length (esc_char c))) (find_equals (c = CHR 0x5C) (esc k @ t))"
    by simp
  also have "\<dots> = map_option ((+) (length (esc (c # k))))
      (find_equals (if c # k = [] then b else last (c # k) = CHR 0x5C) t)"
    unfolding Cons.IH
    by (cases "find_equals (if k = [] then c = CHR 0x5C else last k = CHR 0x5C) t") (auto split: if_splits)
  finally show ?case .
qed

lemma find_equals_none: "CHR ''='' \<notin> set s \<Longrightarrow> find_equals b s = None"
  by (induction s arbitrary: b) auto

lemma trim_indent:
  assumes "set bs \<subseteq> set cs" "s \<noteq> []" "hd s \<notin> set cs" "last s \<notin> set cs"
  shows "trim (bs @ s) cs True = s"
proof -
  have "dropWhile (\<lambda>c. c \<in> set cs) (bs @ s) = dropWhile (\<lambda>c. c \<in> set cs) s"
    using assms(1) by (intro dropWhile_append2) auto
  then have "trim (bs @ s) cs True = trim s cs True" using assms(2) by (simp add: trim_def trimleft_def)
  then show ?thesis using trim_blank_free assms by metis
qed

section \<open>The lines of a domain\<close>

definition plain_name :: "string \<Rightarrow> bool" where
  "plain_name n \<longleftrightarrow> plain n \<and> no_outer_space n \<and> (n = [] \<or> hd n \<noteq> CHR ''/'')"

text \<open>
  A key with a value must not end in a backslash; a key without one is read as it is, so
  nothing in it may need an escape.
\<close>

definition printable_param :: "string \<Rightarrow> string \<Rightarrow> bool" where
  "printable_param k v \<longleftrightarrow> no_brackets k \<and> no_brackets v \<and> no_outer_space k \<and> no_outer_space v \<and>
     (k = [] \<or> hd k \<noteq> CHR ''#'') \<and> (if v = [] then k \<noteq> [] \<and> plain k else k = [] \<or> last k \<noteq> CHR 0x5C)"

definition tabs :: "nat \<Rightarrow> string" where
  "tabs i = replicate i CHR 0x09"

definition open_line :: "nat \<Rightarrow> string \<Rightarrow> string" where
  "open_line i n = tabs i @ ''<'' @ n @ ''>''"

definition close_line :: "nat \<Rightarrow> string \<Rightarrow> string" where
  "close_line i n = tabs i @ ''</'' @ n @ ''>''"

definition param_line :: "nat \<Rightarrow> string \<Rightarrow> string \<Rightarrow> string" where
  "param_line i k v = tabs (i + 1) @ esc k @ (if v = [] then [] else CHR ''='' # esc v)"

lemma tabs_blank: "set (tabs i) \<subseteq> set blanks"
  by (auto simp: tabs_def blanks_def)

lemma name_end: "plain n \<Longrightarrow> find_char (pre @ n @ ''>'') CHR ''>'' 0 = Some (length pre + length n)"
  if "CHR ''>'' \<notin> set pre"
proof -
  assume n: "plain n"
  have "index_of ((=) CHR ''>'') ((pre @ n) @ CHR ''>'' # []) = Some (length (pre @ n))"
    using n that by (intro index_of_first) (auto simp: list_all_iff special_def)
  then show ?thesis by (simp add: find_char_def find_if_from_def)
qed

lemma bracket_line:
  assumes "hd s = CHR ''<''"
  shows "trim (tabs i @ s @ ''>'') blanks True = s @ ''>''"
  using assms tabs_blank[of i] by (intro trim_indent) (auto simp: blanks_def hd_append)

lemma parse_open_line:
  assumes "plain_name n"
  shows "parse_line (open_line i n) s = open_domain n s"
proof -
  have "trim (open_line i n) blanks True = ''<'' @ n @ ''>''"
    using bracket_line[of "''<'' @ n" i] by (simp add: open_line_def)
  moreover have "find_char (''<'' @ n @ ''>'') CHR ''>'' 0 = Some (1 + length n)"
    using name_end[of "''<''" n] assms by (simp add: plain_name_def)
  moreover have "(''<'' @ n @ ''>'') ! 1 \<noteq> CHR ''/''" using assms by (cases n) (simp_all add: plain_name_def)
  ultimately show ?thesis by (simp add: parse_line_def)
qed

lemma parse_close_line:
  assumes "plain_name n"
  shows "parse_line (close_line i n) s = close_domain n s"
proof -
  have "trim (close_line i n) blanks True = ''</'' @ n @ ''>''"
    using bracket_line[of "''</'' @ n" i] by (simp add: close_line_def)
  moreover have "find_char (''</'' @ n @ ''>'') CHR ''>'' 0 = Some (2 + length n)"
    using name_end[of "''</''" n] assms by (simp add: plain_name_def)
  ultimately show ?thesis by (simp add: parse_line_def)
qed

lemma set_printed_param:
  assumes "printable_param k v"
  shows "setParamLine (esc k @ (if v = [] then [] else CHR ''='' # esc v)) d = Inr (setParamValue k v d)"
proof (cases "v = []")
  case True
  then have "plain k" "k \<noteq> []" using assms by (simp_all add: printable_param_def)
  moreover from this have "find_equals False k = None"
    by (intro find_equals_none) (auto simp: list_all_iff special_def)
  ultimately show ?thesis using True by (simp add: esc_plain setParamLine_def)
next
  case False
  have ends: "esc s = [] \<or> hd (esc s) \<notin> set blanks \<and> last (esc s) \<notin> set blanks" if "no_outer_space s" for s
    using esc_ends[of s] that by (cases "s = []") auto
  have trim: "trim (esc s) blanks True = esc s" if "no_outer_space s" for s
  proof (cases "esc s = []")
    case True
    show ?thesis unfolding True by (simp add: trim_def)
  qed (use ends[OF that] trim_blank_free in metis)
  have "find_equals False (esc k @ CHR ''='' # esc v) = Some (length (esc k))"
    using assms False by (auto simp: find_equals_esc printable_param_def)
  moreover have "esc v \<noteq> []" using esc_hd[OF False] by blast
  ultimately show ?thesis
    using False assms trim[of k] trim[of v]
    by (simp add: setParamLine_def unescape_esc printable_param_def del: concat_eq_Nil_conv)
qed

lemma parse_plain_line:
  assumes "trim l blanks True = b" "b \<noteq> []" "hd b \<noteq> CHR ''#''" "hd b \<noteq> CHR ''<''"
  shows "parse_line l s = at_top s (\<lambda>p d. bindE (setParamLine b d) (\<lambda>d'. Inr (fst s, update_at p (\<lambda>_. d') (snd s))))"
  using assms by (simp add: parse_line_def hd_conv_nth)

lemma parse_param_line:
  assumes "printable_param k v"
  shows "parse_line (param_line i k v) s =
    at_top s (\<lambda>p d. Inr (fst s, update_at p (\<lambda>_. setParamValue k v d) (snd s)))"
proof -
  let ?b = "esc k @ (if v = [] then [] else CHR ''='' # esc v)"
  have k: "k \<noteq> [] \<Longrightarrow> hd (esc k) \<notin> set blanks \<and> hd (esc k) \<notin> {CHR ''#'', CHR ''<''} \<and> last (esc k) \<notin> set blanks \<and> esc k \<noteq> []"
    using esc_ends[of k] esc_hd[of k] assms by (auto simp: printable_param_def list_all_iff)
  have v: "v \<noteq> [] \<Longrightarrow> last (esc v) \<notin> set blanks \<and> esc v \<noteq> []"
    using esc_ends[of v] assms by (auto simp: printable_param_def)
  have b: "?b \<noteq> [] \<and> hd ?b \<notin> set blanks \<and> hd ?b \<noteq> CHR ''#'' \<and> hd ?b \<noteq> CHR ''<'' \<and> last ?b \<notin> set blanks"
  proof (cases "k = []")
    case True
    with v assms show ?thesis by (auto simp: printable_param_def blanks_def simp del: concat_eq_Nil_conv)
  next
    case False
    with k v show ?thesis by (auto simp del: concat_eq_Nil_conv)
  qed
  then have "trim (param_line i k v) blanks True = ?b"
    unfolding param_line_def using tabs_blank by (intro trim_indent) auto
  from parse_plain_line[OF this] b show ?thesis by (simp add: set_printed_param[OF assms] del: concat_eq_Nil_conv)
qed

section \<open>Printed trees\<close>

text \<open>Every name and every parameter of a tree can be printed.\<close>

function printable :: "config_domain \<Rightarrow> bool" where
  "printable (Domain name param key domain sub) \<longleftrightarrow>
     plain_name name \<and> (\<forall>x\<in>set param. printable_param (fst x) (snd x)) \<and>
     (\<forall>x\<in>set sub. fst x = dname (snd x) \<and> printable (snd x))"
  by pat_completeness auto
termination
proof (relation "measure size")
  fix param :: "(string \<times> string) list" and sub :: "(string \<times> config_domain) list" and x name key domain
  assume "x \<in> set sub"
  then have "size (snd x) < Suc (size_list (size_prod (\<lambda>_. 0) size) sub)"
    by (induction sub) (auto split: if_splits)
  then show "(snd x, Domain name param key domain sub) \<in> measure size" by simp
qed simp

definition param_lines :: "nat \<Rightarrow> (string \<times> string) list \<Rightarrow> string list \<Rightarrow> string list" where
  "param_lines i param key = List.map (\<lambda>k. param_line i k (the (map_of param k))) key"

function domain_lines :: "nat \<Rightarrow> config_domain \<Rightarrow> string list" where
  "domain_lines i (Domain name param key domain sub) =
     open_line i name # param_lines i param key @
     concat (List.map (\<lambda>m. case map_of sub m of None \<Rightarrow> [] | Some c \<Rightarrow> domain_lines (i + 1) c) domain) @
     [close_line i name]"
  by pat_completeness auto
termination
  by (relation "measure (\<lambda>(i, d). size d)") (auto dest: size_sub_domain)

definition unlines :: "string list \<Rightarrow> string" where
  "unlines ls = concat (List.map (\<lambda>l. l @ [CHR 0x0A]) ls)"

lemma unlines_simps [simp]: "unlines [] = []" "unlines (l # ls) = l @ [CHR 0x0A] @ unlines ls"
  "unlines (ls @ ls') = unlines ls @ unlines ls'"
  by (simp_all add: unlines_def)

lemma unlines_concat: "unlines (concat lss) = concat (List.map unlines lss)"
  by (induction lss) simp_all

lemma getlines_unlines: "list_all (\<lambda>l. CHR 0x0A \<notin> set l) ls \<Longrightarrow> getlines (unlines ls) = ls"
proof (induction ls)
  case Nil
  then show ?case by (simp add: getlines.simps)
next
  case (Cons l ls)
  then have "takeWhile (\<lambda>c. c \<noteq> CHR 0x0A) (l @ CHR 0x0A # t) = l" "dropWhile (\<lambda>c. c \<noteq> CHR 0x0A) (l @ CHR 0x0A # t) = CHR 0x0A # t" for t
    by (auto simp: takeWhile_append takeWhile_eq_all_conv dropWhile_append)
  with Cons show ?case by (subst getlines.simps) simp
qed

lemma plain_no_brackets: "plain s \<Longrightarrow> no_brackets s"
  by (auto simp: list_all_iff special_def)

lemma printable_dest:
  assumes "printable (Domain name param key domain sub)"
  shows "plain_name name" "map_of param k = Some v \<Longrightarrow> printable_param k v"
    "map_of sub m = Some c \<Longrightarrow> dname c = m \<and> printable c"
  using assms by (auto dest!: map_of_SomeD)

lemma param_text_line:
  assumes "map_of param k = Some v" "printable_param k v"
  shows "param_text i param k = Inr (unlines [param_line i k v])"
  using assms escape_esc[of k] escape_esc[of v]
  by (simp add: param_text_def param_line_def tabs_def printable_param_def)

lemma params_text:
  assumes "\<And>k. k \<in> set key \<Longrightarrow> \<exists>v. map_of param k = Some v \<and> printable_param k v"
  shows "mapE (param_text i param) key = Inr (List.map (\<lambda>k. unlines [param_line i k (the (map_of param k))]) key)"
  using assms param_text_line by (intro mapE_Inr) force

text \<open>What the printer writes are these lines.\<close>

lemma domain_tostr_lines:
  "consistent d \<Longrightarrow> printable d \<Longrightarrow> domain_tostr i d = Inr (unlines (domain_lines i d))"
proof (induction i d rule: domain_tostr.induct)
  case (1 i name param key domain sub)
  note c = consistent_dest[OF "1.prems"(1), simplified] and p = printable_dest[OF "1.prems"(2)]
  have name: "escape name = Inr name"
    using p(1) escape_esc[of name] plain_no_brackets[of name] by (simp add: plain_name_def esc_plain)
  have keys: "\<exists>v. map_of param k = Some v \<and> printable_param k v" if "k \<in> set key" for k
    using that c(3) p(2) by (cases "map_of param k") (auto simp: map_of_eq_None_iff)
  let ?f = "\<lambda>m. case map_of sub m of None \<Rightarrow> Inl AssertFail | Some c \<Rightarrow> domain_tostr (i + 1) c"
  let ?ls = "\<lambda>m. case map_of sub m of None \<Rightarrow> [] | Some c \<Rightarrow> domain_lines (i + 1) c"
  have "?f m = Inr (unlines (?ls m))" if m: "m \<in> set domain" for m
  proof -
    obtain e where e: "map_of sub m = Some e"
      using m c(6) by (cases "map_of sub m") (auto simp: map_of_eq_None_iff)
    show ?thesis using "1.IH"[OF refl name params_text[OF keys] m e] c(7)[OF e] p(3)[OF e] e by simp
  qed
  then have "mapE ?f domain = Inr (List.map (\<lambda>m. unlines (?ls m)) domain)" by (rule mapE_Inr)
  moreover have "concat (List.map (\<lambda>k. unlines [l k]) key) = unlines (List.map l key)" for l
    by (induction key) simp_all
  ultimately show ?case
    by (simp add: name params_text[OF keys] Let_def unlines_concat comp_def open_line_def close_line_def tabs_def
        param_lines_def del: unlines_simps(2)) (simp add: unlines_concat comp_def)
qed

lemma domain_lines_no_newline:
  "printable d \<Longrightarrow> consistent d \<Longrightarrow> list_all (\<lambda>l. CHR 0x0A \<notin> set l) (domain_lines i d)"
proof (induction i d rule: domain_lines.induct)
  case (1 i name param key domain sub)
  note c = consistent_dest[OF "1.prems"(2), simplified] and p = printable_dest[OF "1.prems"(1)]
  have "list_all (\<lambda>l. CHR 0x0A \<notin> set l) (case map_of sub m of None \<Rightarrow> [] | Some c \<Rightarrow> domain_lines (i + 1) c)"
    if "m \<in> set domain" for m
    using 1(1)[OF that] c(7) p(3) by (cases "map_of sub m") auto
  moreover have "CHR 0x0A \<notin> set (esc s)" for s using esc_no_control by blast
  moreover have "CHR 0x0A \<notin> set name" using p(1) by (auto simp: plain_name_def list_all_iff special_def)
  ultimately show ?case
    by (auto simp: list_all_iff open_line_def close_line_def tabs_def param_lines_def param_line_def split: if_splits)
qed

section \<open>Reading the lines back\<close>

text \<open>A domain with one more sub-domain.\<close>

definition grow :: "string \<Rightarrow> config_domain \<Rightarrow> config_domain \<Rightarrow> config_domain" where
  "grow n c e = Domain (dname e) (dparam e) (dkey e) (ddomain e @ [n]) (map_set n c (dsub e))"

lemma map_set_twice: "map_set k v (map_set k w m) = map_set k v m"
  by (induction k w m rule: map_set.induct) auto

lemma update_at_twice: "update_at p f (update_at p g d) = update_at p (\<lambda>e. f (g e)) d"
proof (induction p g d rule: update_at.induct)
  case (2 n p g d)
  then show ?case by (cases "map_of (dsub d) n") (simp_all add: map_of_map_set map_set_twice)
qed simp

lemma update_at_append: "update_at (p @ q) f d = update_at p (update_at q f) d"
proof (induction p f d rule: update_at.induct)
  case (2 n p f d)
  then show ?case by (cases "map_of (dsub d) n") simp_all
qed simp

lemma update_at_cong:
  "getSubTcConfigDomain p d = Some e \<Longrightarrow> f e = g e \<Longrightarrow> update_at p f d = update_at p g d"
proof (induction p f d rule: update_at.induct)
  case (2 n p f d)
  then show ?case by (cases "map_of (dsub d) n") simp_all
qed simp

lemma update_at_grow:
  "update_at (p @ [n]) f (update_at p (grow n c) r) = update_at p (grow n (f c)) r"
proof -
  have "update_at [n] f (grow n c e) = grow n (f c) e" for e
    by (simp add: grow_def map_of_map_set map_set_twice)
  then show ?thesis by (simp add: update_at_append update_at_twice)
qed

lemma getSub_grow:
  "getSubTcConfigDomain p r = Some e \<Longrightarrow> getSubTcConfigDomain (p @ [n]) (update_at p (grow n c) r) = Some c"
  by (simp add: getSub_append getSub_update) (simp add: grow_def map_of_map_set)

lemma at_top_Some: "getSubTcConfigDomain p r = Some d \<Longrightarrow> at_top (p # stk, r) f = f p d"
  by (simp add: at_top_def)

text \<open>The parameters of a domain, read at the top of the stack.\<close>

lemma parse_param_lines:
  assumes "getSubTcConfigDomain p r = Some e" "update_at p (\<lambda>e. e) r = r"
    "\<And>k. k \<in> set key \<Longrightarrow> \<exists>v. map_of param k = Some v \<and> printable_param k v"
  shows "parse_lines (param_lines i param key @ rest) (p # stk, r) =
    parse_lines rest (p # stk, update_at p (fold (\<lambda>k. setParamValue k (the (map_of param k))) key) r)"
  using assms
proof (induction key arbitrary: e r)
  case Nil
  then show ?case by (simp add: param_lines_def id_def)
next
  case (Cons k key)
  obtain v where v: "map_of param k = Some v" "printable_param k v" using Cons.prems(3) by force
  let ?r = "update_at p (\<lambda>_. setParamValue k v e) r"
  have r: "?r = update_at p (setParamValue k v) r" by (rule update_at_cong[OF Cons.prems(1)]) simp
  have line: "parse_line (param_line i k v) (p # stk, r) = Inr (p # stk, ?r)"
    by (simp add: parse_param_line[OF v(2)] at_top_Some[OF Cons.prems(1)])
  have "getSubTcConfigDomain p ?r = Some (setParamValue k v e)" by (simp add: getSub_update Cons.prems(1))
  moreover have "update_at p (\<lambda>e. e) ?r = ?r" by (simp add: update_at_twice)
  ultimately have "parse_lines (param_lines i param key @ rest) (p # stk, ?r) =
    parse_lines rest (p # stk, update_at p (fold (\<lambda>k. setParamValue k (the (map_of param k))) key) ?r)"
    using Cons.IH Cons.prems(3) by simp
  with line show ?case by (simp add: param_lines_def v(1) r update_at_twice comp_def)
qed

text \<open>The sub-domains, when the lines of each add it to the domain at the top.\<close>

definition adds :: "string list \<Rightarrow> string \<Rightarrow> config_domain \<Rightarrow> bool" where
  "adds ls m c \<longleftrightarrow> (\<forall>p stk r e rest. getSubTcConfigDomain p r = Some e \<longrightarrow> map_of (dsub e) m = None \<longrightarrow>
     parse_lines (ls @ rest) (p # stk, r) = parse_lines rest (p # stk, update_at p (grow m c) r))"

lemma addsD:
  "adds ls m c \<Longrightarrow> getSubTcConfigDomain p r = Some e \<Longrightarrow> map_of (dsub e) m = None \<Longrightarrow>
   parse_lines (ls @ rest) (p # stk, r) = parse_lines rest (p # stk, update_at p (grow m c) r)"
  by (simp add: adds_def)

lemma parse_sub_lines:
  assumes "\<And>m. m \<in> set ms \<Longrightarrow> adds (ls m) m (cs m)" "distinct ms"
    "getSubTcConfigDomain p r = Some e" "update_at p (\<lambda>e. e) r = r" "\<And>m. m \<in> set ms \<Longrightarrow> map_of (dsub e) m = None"
  shows "parse_lines (concat (List.map ls ms) @ rest) (p # stk, r) =
    parse_lines rest (p # stk, update_at p (fold (\<lambda>m. grow m (cs m)) ms) r)"
  using assms
proof (induction ms arbitrary: r e)
  case Nil
  then show ?case by (simp add: id_def)
next
  case (Cons m ms)
  let ?r = "update_at p (grow m (cs m)) r"
  have "getSubTcConfigDomain p ?r = Some (grow m (cs m) e)" by (simp add: getSub_update Cons.prems(3))
  moreover have "update_at p (\<lambda>e. e) ?r = ?r" by (simp add: update_at_twice)
  moreover have "map_of (dsub (grow m (cs m) e)) m' = None" if "m' \<in> set ms" for m'
    using that Cons.prems(2) Cons.prems(5)[of m'] by (auto simp: grow_def map_of_map_set)
  ultimately have "parse_lines (concat (List.map ls ms) @ rest) (p # stk, ?r) =
    parse_lines rest (p # stk, update_at p (fold (\<lambda>m. grow m (cs m)) ms) ?r)"
    using Cons.prems(1,2) by (intro Cons.IH) auto
  moreover have "parse_lines (ls m @ concat (List.map ls ms) @ rest) (p # stk, r) =
    parse_lines (concat (List.map ls ms) @ rest) (p # stk, ?r)"
    using Cons.prems by (intro addsD) auto
  ultimately show ?case by (simp add: update_at_twice comp_def)
qed

text \<open>What the lines of a domain add up to.\<close>

lemma fold_setParamValue:
  "distinct ks \<Longrightarrow> set ks \<inter> set (dkey e) = {} \<Longrightarrow>
   fold (\<lambda>k. setParamValue k (f k)) ks e =
     Domain (dname e) (fold (\<lambda>k. map_set k (f k)) ks (dparam e)) (dkey e @ ks) (ddomain e) (dsub e)"
  by (induction ks arbitrary: e) (auto simp: setParamValue_def remove1_idem)

lemma fold_grow:
  "fold (\<lambda>m. grow m (g m)) ms e =
     Domain (dname e) (dparam e) (dkey e) (ddomain e @ ms) (fold (\<lambda>m. map_set m (g m)) ms (dsub e))"
  by (induction ms arbitrary: e) (simp_all add: grow_def)

lemma map_of_fold_set: "map_of (fold (\<lambda>k. map_set k (f k)) ks m) x = (if x \<in> set ks then Some (f x) else map_of m x)"
  by (induction ks arbitrary: m) (auto simp: map_of_map_set)

lemma sorted_fold_set: "sorted_map m \<Longrightarrow> sorted_map (fold (\<lambda>k. map_set k (f k)) ks m)"
  by (induction ks arbitrary: m) (simp_all add: sorted_map_set)

lemma fold_set_same:
  assumes "sorted_map m" "set ks = fst ` set m"
  shows "fold (\<lambda>k. map_set k (the (map_of m k))) ks [] = m"
proof (rule sorted_map_eq)
  show "map_of (fold (\<lambda>k. map_set k (the (map_of m k))) ks []) = map_of m"
    using assms(2) by (auto simp: fun_eq_iff map_of_fold_set map_of_eq_None_iff) (metis map_of_eq_None_iff option.exhaust_sel)
qed (use assms sorted_fold_set[of "[]"] in simp_all)

lemma read_back:
  assumes "consistent (Domain n param key domain sub)"
  shows "fold (\<lambda>m. grow m (the (map_of sub m))) domain
      (fold (\<lambda>k. setParamValue k (the (map_of param k))) key (Domain n [] [] [] [])) =
    Domain n param key domain sub"
  using consistent_dest[OF assms] by (simp add: fold_setParamValue fold_grow fold_set_same)

lemma domain_lines_adds: "consistent c \<Longrightarrow> printable c \<Longrightarrow> dname c = n \<Longrightarrow> adds (domain_lines i c) n c"
proof (induction i c arbitrary: n rule: domain_lines.induct)
  case (1 i name param key domain sub n)
  note c = consistent_dest[OF "1.prems"(1), simplified] and p = printable_dest[OF "1.prems"(2)]
  have n: "name = n" using "1.prems"(3) by simp
  let ?ls = "\<lambda>m. case map_of sub m of None \<Rightarrow> [] | Some c \<Rightarrow> domain_lines (i + 1) c"
  let ?cs = "\<lambda>m. the (map_of sub m)"
  have subs: "adds (?ls m) m (?cs m)" if m: "m \<in> set domain" for m
  proof -
    obtain e where e: "map_of sub m = Some e"
      using m c(6) by (cases "map_of sub m") (auto simp: map_of_eq_None_iff)
    show ?thesis using 1(1)[OF m e] c(7)[OF e] p(3)[OF e] e by simp
  qed
  have keys: "\<exists>v. map_of param k = Some v \<and> printable_param k v" if "k \<in> set key" for k
    using that c(3) p(2) by (cases "map_of param k") (auto simp: map_of_eq_None_iff)
  let ?e0 = "Domain n [] [] [] []"
  let ?e1 = "fold (\<lambda>k. setParamValue k (the (map_of param k))) key ?e0"
  let ?e2 = "fold (\<lambda>m. grow m (?cs m)) domain ?e1"
  have new: "new_domain n = ?e0"
    using p(1) n trim_blank_free[of n blanks]
    by (cases "n = []") (auto simp: new_domain_def plain_name_def special_def blanks_def no_outer_space_def trim_def list_all_iff
        dest: hd_in_set last_in_set)
  show ?case unfolding adds_def
  proof (intro allI impI)
    fix q stk r e rest
    assume e: "getSubTcConfigDomain q r = Some e" "map_of (dsub e) n = None"
    let ?t = "\<lambda>e. update_at q (grow n e) r"
    have top: "getSubTcConfigDomain (q @ [n]) (?t d) = Some d" "update_at (q @ [n]) (\<lambda>e. e) (?t d) = ?t d" for d
      using getSub_grow[OF e(1)] update_at_grow[of q n "\<lambda>e. e"] by simp_all
    have "parse_line (open_line i n) (q # stk, r) = Inr ((q @ [n]) # q # stk, update_at q (addSubDomain n) r)"
      using parse_open_line[of n] p(1) n by (simp add: open_domain_def at_top_Some[OF e(1)])
    also have "update_at q (addSubDomain n) r = ?t ?e0"
      by (rule update_at_cong[OF e(1)]) (simp add: addSubDomain_def grow_def e(2) new)
    finally have "parse_lines (domain_lines i (Domain name param key domain sub) @ rest) (q # stk, r) =
        parse_lines (param_lines i param key @ concat (List.map ?ls domain) @ close_line i n # rest)
          ((q @ [n]) # q # stk, ?t ?e0)"
      by (simp add: n)
    also have "\<dots> = parse_lines (concat (List.map ?ls domain) @ close_line i n # rest) ((q @ [n]) # q # stk, ?t ?e1)"
      using parse_param_lines[OF top keys] by (simp only: update_at_grow)
    also have "\<dots> = parse_lines (close_line i n # rest) ((q @ [n]) # q # stk, ?t ?e2)"
      using parse_sub_lines[OF subs c(5) top] by (simp add: update_at_grow fold_setParamValue c(2))
    also have "\<dots> = parse_lines rest (q # stk, ?t ?e2)"
    proof -
      have "dname ?e2 = n" by (simp add: fold_setParamValue fold_grow c(2))
      then have "parse_line (close_line i n) ((q @ [n]) # q # stk, ?t ?e2) = Inr (q # stk, ?t ?e2)"
        using parse_close_line[of n] p(1) n by (simp add: close_domain_def at_top_Some[OF top(1)])
      then show ?thesis by simp
    qed
    finally show "parse_lines (domain_lines i (Domain name param key domain sub) @ rest) (q # stk, r) =
        parse_lines rest (q # stk, update_at q (grow n (Domain name param key domain sub)) r)"
      using read_back "1.prems"(1) n by simp
  qed
qed

text \<open>
  C26. Reading what \<open>tostr\<close> printed gives the tree back, for every tree with printable names and
  parameters: all sub-domains of the root exactly, with the order of their keys and domains. The
  root's own parameters are not printed, and its sub-domains come back in the order of the map.
\<close>

theorem config_roundtrip:
  assumes "consistent root" "\<forall>x\<in>set (dsub root). fst x = dname (snd x) \<and> printable (snd x)" "dname old = []"
  shows "\<exists>s. config_tostr root = Inr s \<and>
    parseString s old = (None, Domain [] [] [] (List.map fst (dsub root)) (dsub root))"
proof -
  let ?sub = "dsub root"
  let ?ms = "List.map fst ?sub" and ?cs = "\<lambda>m. the (map_of (dsub root) m)"
  note c = consistent_dest[OF assms(1)]
  have dist: "distinct ?ms" using c(4) strict_sorted_iff by blast
  have sub: "consistent d" "printable d" "dname d = m" if "(m, d) \<in> set ?sub" for m d
    using that assms(2) c(7)[of m d] dist by (auto simp: map_of_is_SomeI)
  have cs: "?cs (fst x) = snd x" if "x \<in> set ?sub" for x
    using map_of_is_SomeI[OF dist, of "fst x" "snd x"] that by simp
  let ?lines = "concat (List.map (\<lambda>m. domain_lines 0 (?cs m)) ?ms)"
  have "mapE (\<lambda>(_, c). domain_tostr 0 c) ?sub = Inr (List.map (\<lambda>x. unlines (domain_lines 0 (snd x))) ?sub)"
    using sub by (intro mapE_Inr) (auto simp: domain_tostr_lines)
  then have printed: "config_tostr root = Inr (unlines ?lines)"
    using cs by (simp add: config_tostr_def unlines_concat comp_def cong: map_cong)
  have "list_all (\<lambda>l. CHR 0x0A \<notin> set l) (domain_lines 0 d)" if "(m, d) \<in> set ?sub" for m d
    using domain_lines_no_newline sub[OF that] by blast
  then have "list_all (\<lambda>l. CHR 0x0A \<notin> set l) ?lines"
    using cs by (force simp: list_all_iff)
  then have lines: "getlines (unlines ?lines) = ?lines" by (rule getlines_unlines)
  have "adds (domain_lines 0 (?cs m)) m (?cs m)" if "m \<in> set ?ms" for m
    using that cs sub domain_lines_adds by force
  from parse_sub_lines[OF this dist, of "[]" "Domain [] [] [] [] []" _ "[]" "[]"]
  have "parse_lines ?lines ([[]], Domain [] [] [] [] []) =
      (None, [[]], fold (\<lambda>m. grow m (?cs m)) ?ms (Domain [] [] [] [] []))"
    by simp
  also have "fold (\<lambda>m. grow m (?cs m)) ?ms (Domain [] [] [] [] []) = Domain [] [] [] ?ms ?sub"
    using fold_set_same[OF c(4), of ?ms] by (simp add: fold_grow)
  finally show ?thesis using printed lines assms(3) by (simp add: parseString_def destroy_def)
qed

definition sample_root :: config_domain where
  "sample_root = Domain [] [] [] [''b'', ''a'']
     [(''a'', Domain ''a'' [] [] [] []),
      (''b'', Domain ''b'' [(''x='', ''1 2''), (''y'', [])] [''y'', ''x=''] [''c''] [(''c'', Domain ''c'' [] [] [] [])])]"

lemma config_roundtrip_witness:
  "\<exists>s. config_tostr sample_root = Inr s \<and>
    parseString s (new_domain []) = (None, Domain [] [] [] (List.map fst (dsub sample_root)) (dsub sample_root))"
  by (rule config_roundtrip) code_simp+

text \<open>Keys a printed tree does not come back with: one that ends in a backslash, one with an escape and no value.\<close>

lemma backslash_key:
  "parse_line (param_line 0 [CHR ''k'', CHR 0x5C] ''v'') ([[]], new_domain []) =
    Inr ([[]], Domain [] [([CHR ''k'', CHR 0x5C, CHR 0x5C] @ ''=v'', [])] [[CHR ''k'', CHR 0x5C, CHR 0x5C] @ ''=v''] [] [])"
  by code_simp

lemma valueless_key:
  "parse_line (param_line 0 ''a=b'' []) ([[]], new_domain []) =
    Inr ([[]], Domain [] [([CHR ''a'', CHR 0x5C] @ ''=b'', [])] [[CHR ''a'', CHR 0x5C] @ ''=b''] [] [])"
  by code_simp

end
