(* ===== verification/Url.thy ===== *)
theory Url
  imports Common
begin

text \<open>
  \<open>TC_URL\<close> (tcinclude/tc_http.cpp): taking a URL apart, putting it together and simplifying
  its path. Parsing a printed URL gives its parts back, and the two loops of \<open>simplePath\<close>
  compute the usual normal form on path components.
\<close>

section \<open>URLs\<close>

datatype url_type = HTTP | HTTPS | FTP

record url =
  sURL :: string
  iURLType :: url_type
  fragment :: "(string \<times> string) list"

definition URL_new :: url where
  "URL_new = \<lparr>sURL = [], iURLType = HTTP, fragment = []\<rparr>"

definition isValid :: "url \<Rightarrow> bool" where
  "isValid u \<longleftrightarrow> sURL u \<noteq> []"

fun type2String :: "url_type \<Rightarrow> string" where
  "type2String HTTP = ''http''"
| "type2String HTTPS = ''https''"
| "type2String FTP = ''ftp''"

fun getDefaultPort :: "url_type \<Rightarrow> string" where
  "getDefaultPort HTTP = ''80''"
| "getDefaultPort HTTPS = ''433''"
| "getDefaultPort FTP = ''21''"

definition getFragment :: "string \<Rightarrow> url \<Rightarrow> string" where
  "getFragment frag u = (case map_of (fragment u) frag of None \<Rightarrow> [] | Some v \<Rightarrow> v)"

definition isDefaultPort :: "url \<Rightarrow> bool" where
  "isDefaultPort u \<longleftrightarrow> getFragment ''port'' u = getDefaultPort (iURLType u)"

definition getRequest :: "url \<Rightarrow> string" where
  "getRequest u =
     getFragment ''path'' u @
     (if getFragment ''query'' u \<noteq> [] then ''?'' @ getFragment ''query'' u else []) @
     (if getFragment ''ref'' u \<noteq> [] then ''#'' @ getFragment ''ref'' u else [])"

text \<open>The part \<open>toURL\<close> and \<open>getRootPath\<close> share.\<close>

definition rootURL :: "url \<Rightarrow> string" where
  "rootURL u =
     (let sUserName = getFragment ''user'' u; sPassword = getFragment ''pass'' u in
      type2String (iURLType u) @ ''://'' @
      (if sUserName \<noteq> [] then sUserName else []) @
      (if sUserName \<noteq> [] \<and> sPassword \<noteq> [] then '':'' @ sPassword else []) @
      (if sUserName \<noteq> [] then ''@'' else []) @
      getFragment ''domain'' u @
      (if \<not> isDefaultPort u then '':'' @ getFragment ''port'' u else []))"

definition toURL :: "url \<Rightarrow> string" where
  "toURL u = rootURL u @ getRequest u"

definition getRootPath :: "url \<Rightarrow> string" where
  "getRootPath u = rootURL u @ ''/''"

section \<open>Parsing\<close>

text \<open>\<open>strncasecmp\<close> with the first \<open>n\<close> characters, both strings ending at a null character.\<close>

definition same_nocase :: "string \<Rightarrow> string \<Rightarrow> nat \<Rightarrow> bool" where
  "same_nocase a b n \<longleftrightarrow> lower (take n (c_string a)) = lower (take n (c_string b))"

definition parse_scheme :: "string \<Rightarrow> url_type \<times> string" where
  "parse_scheme s =
     (if same_nocase s ''http://'' 7 then (HTTP, drop 7 s)
      else if same_nocase s ''https://'' 8 then (HTTPS, drop 8 s)
      else if same_nocase s ''ftp://'' 6 then (FTP, drop 6 s)
      else (HTTP, s))"

text \<open>\<open>npos\<close> is larger than every position.\<close>

fun pos_less :: "nat option \<Rightarrow> nat option \<Rightarrow> bool" where
  "pos_less (Some a) (Some b) \<longleftrightarrow> a < b"
| "pos_less (Some a) None \<longleftrightarrow> True"
| "pos_less None b \<longleftrightarrow> False"

definition insert_at :: "nat \<Rightarrow> string \<Rightarrow> string \<Rightarrow> string" where
  "insert_at p t s = take p s @ t @ drop p s"

definition complete_url :: "string \<Rightarrow> string" where
  "complete_url s =
     (let index = find_char s CHR ''/'' 0; nq = find_char s CHR ''?'' 0; nn = find_char s CHR ''#'' 0 in
      if pos_less nq index then insert_at (the nq) ''/'' s
      else if pos_less nn index then insert_at (the nn) ''/'' s
      else s)"

text \<open>Cutting at the first character \<open>c\<close>, which is left out.\<close>

definition cut_at :: "char \<Rightarrow> string \<Rightarrow> (string \<times> string) option" where
  "cut_at c s = map_option (\<lambda>i. (take i s, drop (i + 1) s)) (find_char s c 0)"

definition rfind_char :: "string \<Rightarrow> char \<Rightarrow> nat \<Rightarrow> nat option" where
  "rfind_char s c pos =
     (let t = take (pos + 1) s in map_option (\<lambda>i. length t - 1 - i) (index_of ((=) c) (rev t)))"

definition url_of :: "url_type \<Rightarrow> string \<Rightarrow> string \<Rightarrow> string \<Rightarrow> string \<Rightarrow> string \<Rightarrow> string \<Rightarrow> string \<Rightarrow> url" where
  "url_of ty user pass domain port path query ref =
     (let u = \<lparr>sURL = [], iURLType = ty,
                fragment = fold (\<lambda>(k, v). map_set k v)
                  [(''scheme'', type2String ty), (''user'', user), (''pass'', pass), (''domain'', domain),
                   (''port'', port), (''path'', path), (''query'', query), (''ref'', ref)] []\<rparr>
      in u\<lparr>sURL := toURL u\<rparr>)"

text \<open>Path, query and reference.\<close>

definition parse_request :: "string \<Rightarrow> string \<times> string \<times> string" where
  "parse_request sUrlPath =
     (let (sUrlPath, sUrlQuery) =
            (case cut_at CHR ''?'' sUrlPath of None \<Rightarrow> (sUrlPath, []) | Some (a, b) \<Rightarrow> (a, b));
          (sUrlQuery, sUrlRef) =
            (case rfind_char sUrlQuery CHR ''#'' (length sUrlQuery) of
               None \<Rightarrow> (sUrlQuery, [])
             | Some index \<Rightarrow> (take index sUrlQuery, drop (index + 1) sUrlQuery))
      in (if sUrlPath = [] then ''/'' else sUrlPath, sUrlQuery, sUrlRef))"

text \<open>User name, password, domain and port.\<close>

definition parse_authority :: "url_type \<Rightarrow> string \<Rightarrow> string \<times> string \<times> string \<times> string" where
  "parse_authority ty sUrlAuthority =
     (let (sUrlUserInfo, sUrlHost) =
            (case cut_at CHR ''@'' sUrlAuthority of None \<Rightarrow> ([], sUrlAuthority) | Some (a, b) \<Rightarrow> (a, b));
          (sUserName, sPassword) =
            (case cut_at CHR '':'' sUrlUserInfo of None \<Rightarrow> (sUrlUserInfo, []) | Some (a, b) \<Rightarrow> (a, b));
          (sDomain, sPort) =
            (case cut_at CHR '':'' sUrlHost of None \<Rightarrow> (sUrlHost, getDefaultPort ty) | Some (a, b) \<Rightarrow> (a, b))
      in (sUserName, sPassword, sDomain, sPort))"

definition parseURL :: "string \<Rightarrow> url \<Rightarrow> bool \<times> url" where
  "parseURL sInput u =
     (let originRequest = trim sInput '' '' True in
      if originRequest = [] then (False, u)
      else
        let (ty, sUrlPath) = parse_scheme originRequest;
            sUrlPath = complete_url sUrlPath;
            (sUrlAuthority, sUrlPath) =
              (case find_char sUrlPath CHR ''/'' 0 of
                 None \<Rightarrow> (sUrlPath, [])
               | Some index \<Rightarrow> (take index sUrlPath, drop index sUrlPath));
            (sUrlPath, sUrlQuery, sUrlRef) = parse_request sUrlPath;
            (sUserName, sPassword, sDomain, sPort) = parse_authority ty sUrlAuthority
        in (find_char sDomain CHR ''.'' 0 \<noteq> None,
            url_of ty sUserName sPassword (lower sDomain) sPort sUrlPath sUrlQuery sUrlRef))"

section \<open>Paths\<close>

text \<open>The first loop takes out every \<open>./\<close> that starts a component.\<close>

lemma find_str_bound: "find_str s p pos = Some i \<Longrightarrow> pos \<le> i \<and> i + length p \<le> length s"
  by (auto simp: find_str_def split: if_splits dest!: index_str_bound)

function drop_dots :: "nat \<Rightarrow> string \<Rightarrow> string" where
  "drop_dots pos s =
     (case find_str s ''./'' pos of
        None \<Rightarrow> s
      | Some p \<Rightarrow>
          if p = 0 \<or> s ! (p - 1) = CHR ''/'' then drop_dots pos (take p s @ drop (p + 2) s)
          else drop_dots (p + 2) s)"
  by pat_completeness auto
termination
  by (relation "measure (\<lambda>(pos, s). length s - pos)") (auto dest!: find_str_bound)

text \<open>The second loop takes out \<open>/../\<close> with the component before it.\<close>

lemma rfind_char_bound: "rfind_char s c pos = Some i \<Longrightarrow> i \<le> pos"
  by (auto simp: rfind_char_def Let_def)

function drop_dotdots :: "nat \<Rightarrow> string \<Rightarrow> string" where
  "drop_dotdots pos s =
     (case find_str s ''/../'' pos of
        None \<Rightarrow> s
      | Some slashDot \<Rightarrow>
          if slashDot = 0 then drop_dotdots pos (drop 3 s)
          else if slashDot > 1 \<and> take 2 (drop (slashDot - 2) s) = ''..'' then drop_dotdots (slashDot + 4) s
          else let startPos = (case rfind_char s CHR ''/'' (slashDot - 1) of None \<Rightarrow> 0 | Some i \<Rightarrow> i) in
               drop_dotdots pos (take startPos s @ drop (slashDot + 3) s))"
  by pat_completeness auto
termination
proof (relation "measure (\<lambda>(pos, s). length s - pos)")
  fix pos s slashDot startPos
  assume f: "find_str s ''/../'' pos = Some slashDot"
    and "startPos = (case rfind_char s CHR ''/'' (slashDot - 1) of None \<Rightarrow> 0 | Some i \<Rightarrow> i)"
  then have "startPos \<le> slashDot - 1" using rfind_char_bound by (auto split: option.splits)
  with find_str_bound[OF f]
  show "((pos, take startPos s @ drop (slashDot + 3) s), pos, s) \<in> measure (\<lambda>(pos, s). length s - pos)" by (auto simp: min_def)
qed (auto dest!: find_str_bound)

declare drop_dots.simps [simp del] drop_dotdots.simps [simp del]

definition simplePath :: "string \<Rightarrow> string" where
  "simplePath sPath =
     (let s = drop_dots 0 sPath;
          s = (if length s \<ge> 2 \<and> drop (length s - 2) s = ''/.'' \<or> s = ''.'' then take (length s - 1) s else s);
          s = drop_dotdots 0 s
      in if length s \<ge> 3 \<and> drop (length s - 3) s = ''/..''
         then let slashDot = length s - 3 in
              if \<not> (slashDot > 1 \<and> take 2 (drop (slashDot - 2) s) = ''..'')
              then let startPos =
                         (case rfind_char s CHR ''/'' (if slashDot = 0 then length s else slashDot - 1) of
                            None \<Rightarrow> 0 | Some i \<Rightarrow> i)
                   in take (startPos + 1) s
              else s
         else s)"

definition getRelativePath :: "url \<Rightarrow> string" where
  "getRelativePath u =
     (let s = getFragment ''path'' u in
      case rfind_char s CHR ''/'' (length s) of None \<Rightarrow> ''/'' | Some pos \<Rightarrow> take (pos + 1) s)"

definition specialize :: "url \<Rightarrow> url" where
  "specialize u =
     (let u = u\<lparr>fragment := map_set ''path'' (simplePath (getFragment ''path'' u)) (fragment u)\<rparr> in
      u\<lparr>sURL := toURL u\<rparr>)"

text \<open>Taking the first character off an empty path throws.\<close>

definition buildWithRelativePath :: "string \<Rightarrow> url \<Rightarrow> url result" where
  "buildWithRelativePath sRelativePath u =
     bindE
       (if sRelativePath \<noteq> [] \<and> sRelativePath ! 0 = CHR ''/'' then Inr (drop 1 sRelativePath)
        else if sRelativePath \<noteq> [] \<and> sRelativePath ! 0 = CHR ''#''
        then bindE (substr_from (getFragment ''path'' u) 1) (\<lambda>p.
             Inr (p @ (if getFragment ''query'' u \<noteq> [] then ''?'' @ getFragment ''query'' u else []) @ sRelativePath))
        else bindE (substr_from (getRelativePath u) 1) (\<lambda>p. Inr (p @ sRelativePath)))
       (\<lambda>s. bindE (substr_from (simplePath (''/'' @ s)) 1) (\<lambda>p. Inr (snd (parseURL (getRootPath u @ p) URL_new))))"

section \<open>Parsing what was printed\<close>

lemma url_of_parts:
  "iURLType (url_of ty user pass domain port path query ref) = ty"
  "getFragment ''user'' (url_of ty user pass domain port path query ref) = user"
  "getFragment ''pass'' (url_of ty user pass domain port path query ref) = pass"
  "getFragment ''domain'' (url_of ty user pass domain port path query ref) = domain"
  "getFragment ''port'' (url_of ty user pass domain port path query ref) = port"
  "getFragment ''path'' (url_of ty user pass domain port path query ref) = path"
  "getFragment ''query'' (url_of ty user pass domain port path query ref) = query"
  "getFragment ''ref'' (url_of ty user pass domain port path query ref) = ref"
  by (simp_all add: url_of_def getFragment_def map_of_map_set Let_def)

text \<open>The printed authority and the printed rest.\<close>

definition authority :: "url_type \<Rightarrow> string \<Rightarrow> string \<Rightarrow> string \<Rightarrow> string \<Rightarrow> string" where
  "authority ty user pass domain port =
     (if user \<noteq> [] then user @ (if pass \<noteq> [] then '':'' @ pass else []) @ ''@'' else []) @
     domain @ (if port \<noteq> getDefaultPort ty then '':'' @ port else [])"

definition request :: "string \<Rightarrow> string \<Rightarrow> string \<Rightarrow> string" where
  "request path query ref = path @ (if query \<noteq> [] then ''?'' @ query else []) @ (if ref \<noteq> [] then ''#'' @ ref else [])"

lemma toURL_parts:
  "sURL (url_of ty user pass domain port path query ref) =
     type2String ty @ ''://'' @ authority ty user pass domain port @ request path query ref"
proof -
  have "sURL (url_of ty user pass domain port path query ref) = toURL (url_of ty user pass domain port path query ref)"
    by (simp add: url_of_def toURL_def rootURL_def getRequest_def getFragment_def isDefaultPort_def Let_def)
  then show ?thesis
    by (simp add: toURL_def rootURL_def getRequest_def url_of_parts isDefaultPort_def authority_def request_def Let_def)
qed

text \<open>Parts that can be told apart in the printed URL.\<close>

definition url_parts_ok ::
  "url_type \<Rightarrow> string \<Rightarrow> string \<Rightarrow> string \<Rightarrow> string \<Rightarrow> string \<Rightarrow> string \<Rightarrow> string \<Rightarrow> bool" where
  "url_parts_ok ty user pass domain port path query ref \<longleftrightarrow>
     list_all (\<lambda>s. CHR '' '' \<notin> set s) [domain, port, path, query, ref] \<and>
     list_all (\<lambda>s. set ''/?#'' \<inter> set s = {}) [user, pass, domain, port] \<and>
     set '':@'' \<inter> set user = {} \<and> CHR ''@'' \<notin> set pass \<and> CHR '':'' \<notin> set domain \<and>
     (user = [] \<longrightarrow> pass = [] \<and> CHR ''@'' \<notin> set (domain @ port)) \<and>
     lower domain = domain \<and> path \<noteq> [] \<and> hd path = CHR ''/'' \<and> CHR ''?'' \<notin> set path \<and>
     CHR ''#'' \<notin> set query \<and> CHR ''#'' \<notin> set ref \<and> (ref \<noteq> [] \<longrightarrow> query \<noteq> [])"

lemma find_char_first: "c \<notin> set a \<Longrightarrow> find_char (a @ c # b) c 0 = Some (length a)"
proof -
  assume "c \<notin> set a"
  then have "index_of ((=) c) (a @ c # b) = Some (length a)" by (intro index_of_first) (auto simp: list_all_iff)
  then show ?thesis by (simp add: find_char_def find_if_from_def)
qed

lemma find_char_none: "c \<notin> set a \<Longrightarrow> find_char a c 0 = None"
  by (auto simp: find_char_def find_if_from_def index_of_None list_all_iff)

lemma cut_at_first: "c \<notin> set a \<Longrightarrow> cut_at c (a @ c # b) = Some (a, b)"
  by (simp add: cut_at_def find_char_first)

lemma cut_at_none: "c \<notin> set a \<Longrightarrow> cut_at c a = None"
  by (simp add: cut_at_def find_char_none)

lemma rfind_char_last: "c \<notin> set b \<Longrightarrow> rfind_char (a @ c # b) c (length (a @ c # b)) = Some (length a)"
proof -
  assume "c \<notin> set b"
  then have "index_of ((=) c) (rev b @ c # rev a) = Some (length (rev b))"
    by (intro index_of_first) (auto simp: list_all_iff)
  then show ?thesis by (simp add: rfind_char_def)
qed

lemma rfind_char_none: "c \<notin> set a \<Longrightarrow> rfind_char a c n = None"
  by (auto simp: rfind_char_def index_of_None list_all_iff dest: in_set_takeD)

lemma scheme_printed: "parse_scheme (type2String ty @ ''://'' @ t) = (ty, t)"
  by (cases ty) (simp_all add: parse_scheme_def same_nocase_def c_string_def lower_def to_lower_def)

lemma complete_printed:
  assumes "set ''/?#'' \<inter> set a = {}"
  shows "complete_url (a @ CHR ''/'' # t) = a @ CHR ''/'' # t"
proof -
  have "\<not> pos_less (find_char (a @ CHR ''/'' # t) c 0) (Some (length a))" if "c \<in> {CHR ''?'', CHR ''#''}" for c
  proof (cases "find_char (a @ CHR ''/'' # t) c 0")
    case (Some i)
    then have "(a @ CHR ''/'' # t) ! i = c" by (auto simp: find_char_def find_if_from_def index_of_Some)
    moreover have "a ! i \<noteq> c" if "i < length a" using that assms \<open>c \<in> _\<close> nth_mem[OF that] by fastforce
    ultimately show ?thesis using Some by (auto simp: nth_append)
  qed simp
  moreover have "find_char (a @ CHR ''/'' # t) CHR ''/'' 0 = Some (length a)"
    using assms by (intro find_char_first) auto
  ultimately show ?thesis by (simp add: complete_url_def)
qed

lemma parse_request_printed:
  assumes "url_parts_ok ty user pass domain port path query ref"
  shows "parse_request (request path query ref) = (path, query, ref)"
proof -
  note ok = assms[unfolded url_parts_ok_def]
  let ?q = "query @ (if ref \<noteq> [] then ''#'' @ ref else [])"
  have q: "cut_at CHR ''?'' (request path query ref) = (if query = [] then None else Some (path, ?q))"
    using ok cut_at_first[of "CHR ''?''" path] by (auto simp: request_def cut_at_none)
  have "rfind_char ?q CHR ''#'' (length ?q) = (if ref = [] then None else Some (length query))"
    using ok rfind_char_last[of "CHR ''#''" ref query] by (auto simp: rfind_char_none)
  with q show ?thesis
    using ok by (cases "query = []"; cases "ref = []") (simp_all add: parse_request_def request_def rfind_char_none)
qed

lemma parse_authority_printed:
  assumes "url_parts_ok ty user pass domain port path query ref"
  shows "parse_authority ty (authority ty user pass domain port) = (user, pass, domain, port)"
proof -
  note ok = assms[unfolded url_parts_ok_def]
  let ?i = "user @ (if pass \<noteq> [] then '':'' @ pass else [])" and ?h = "domain @ (if port \<noteq> getDefaultPort ty then '':'' @ port else [])"
  have a: "cut_at CHR ''@'' (authority ty user pass domain port) = (if user = [] then None else Some (?i, ?h))"
    using ok cut_at_first[of "CHR ''@''" ?i ?h]
    by (cases "user = []"; cases "pass = []") (auto simp: authority_def intro!: cut_at_none)
  have "cut_at CHR '':'' ?i = (if pass = [] then None else Some (user, pass))"
    using ok by (auto simp: cut_at_first cut_at_none)
  moreover have "cut_at CHR '':'' ?h = (if port = getDefaultPort ty then None else Some (domain, port))"
    using ok by (auto simp: cut_at_first cut_at_none)
  ultimately show ?thesis
    using ok a by (cases "user = []"; cases "pass = []"; cases "port = getDefaultPort ty")
      (simp_all add: parse_authority_def authority_def cut_at_none)
qed

lemma parse_text:
  assumes "url_parts_ok ty user pass domain port path query ref" "set ''/?#'' \<inter> set a = {}"
    "parse_authority ty a = (user, pass, domain, port)"
  shows "parseURL (type2String ty @ ''://'' @ a @ request path query ref) u =
    (CHR ''.'' \<in> set domain, url_of ty user pass domain port path query ref)"
proof -
  let ?r = "request path query ref"
  note ok = assms(1)[unfolded url_parts_ok_def]
  obtain t where r: "?r = CHR ''/'' # t" using ok by (cases path) (auto simp: request_def)
  let ?s = "type2String ty @ ''://'' @ a @ ?r"
  have "trim ?s '' '' True = ?s"
  proof (rule trim_blank_free)
    show "hd ?s \<notin> set '' ''" by (cases ty) simp_all
    have "CHR '' '' \<notin> set ?r" using ok by (auto simp: request_def)
    then have "last ?r \<noteq> CHR '' ''" using r by (metis last_in_set list.distinct(1))
    then show "last ?s \<notin> set '' ''" by (simp add: r)
  qed simp
  moreover have "find_char (a @ ?r) CHR ''/'' 0 = Some (length a)" unfolding r using assms(2) by (intro find_char_first) auto
  moreover have "find_char domain CHR ''.'' 0 \<noteq> None \<longleftrightarrow> CHR ''.'' \<in> set domain"
    by (auto simp: find_char_def find_if_from_def index_of_None list_all_iff simp del: not_None_eq)
  ultimately show ?thesis
    using ok parse_request_printed[OF assms(1)] assms(3) complete_printed[OF assms(2), of t, folded r] scheme_printed[of ty "a @ ?r"]
    by (simp add: parseURL_def Let_def del: not_None_eq)
qed

lemma parse_printed:
  assumes "url_parts_ok ty user pass domain port path query ref"
  shows "parseURL (sURL (url_of ty user pass domain port path query ref)) u =
    (CHR ''.'' \<in> set domain, url_of ty user pass domain port path query ref)"
proof -
  have "set ''/?#'' \<inter> set (authority ty user pass domain port) = {}"
    using assms by (cases ty) (auto simp: authority_def url_parts_ok_def)
  then show ?thesis using parse_text[OF assms _ parse_authority_printed[OF assms]] by (simp only: toURL_parts)
qed

text \<open>
  C30. Parsing the printed form of a URL gives all its parts back, for every URL whose parts can
  be told apart; the answer is whether the domain has a point.
\<close>

theorem url_roundtrip:
  assumes "url_parts_ok ty user pass domain port path query ref"
  shows "parseURL (sURL (url_of ty user pass domain port path query ref)) u =
    (CHR ''.'' \<in> set domain, url_of ty user pass domain port path query ref)"
  using assms by (rule parse_printed)

lemma url_roundtrip_witness:
  "parseURL (sURL (url_of HTTPS ''u'' ''p:w'' ''a.b'' ''443'' ''/x'' ''k=v'' ''top'')) URL_new =
    (CHR ''.'' \<in> set ''a.b'', url_of HTTPS ''u'' ''p:w'' ''a.b'' ''443'' ''/x'' ''k=v'' ''top'')"
  by (rule url_roundtrip) (simp add: url_parts_ok_def lower_def to_lower_def)

text \<open>A reference is only looked for behind a query.\<close>

lemma reference_without_query: "getFragment ''ref'' (snd (parseURL ''http://a.b/x#top'' URL_new)) = []"
  by code_simp

section \<open>Simplified paths\<close>

text \<open>A path as its components, each behind a slash.\<close>

definition path_text :: "string list \<Rightarrow> string" where
  "path_text cs = concat (List.map (\<lambda>c. CHR ''/'' # c) cs)"

lemma path_text_simps [simp]:
  "path_text [] = []" "path_text (c # cs) = CHR ''/'' # c @ path_text cs"
  "path_text (cs @ ds) = path_text cs @ path_text ds"
  by (simp_all add: path_text_def)

text \<open>
  The usual normal form: components are stacked, a point is left out, two points take the last
  one off, and a point or two points at the end leave the empty component.
\<close>

fun resolve :: "string list \<Rightarrow> string list \<Rightarrow> string list" where
  "resolve st [] = rev st"
| "resolve st [c] = rev st @ [c]"
| "resolve st (c # d # cs) = (if c = ''..'' then resolve (tl st) (d # cs) else resolve (c # st) (d # cs))"

definition normal_path :: "string list \<Rightarrow> string list" where
  "normal_path cs =
     (let cs = List.filter (\<lambda>c. c \<noteq> ''.'') (butlast cs) @ [if last cs = ''.'' then [] else last cs];
          r = resolve [] cs
      in if last r = ''..'' then butlast (butlast r) @ [[]] else r)"

text \<open>The first loop reads the path once.\<close>

fun undotted :: "bool \<Rightarrow> string \<Rightarrow> string" where
  "undotted b [] = []"
| "undotted b [c] = [c]"
| "undotted b (c # d # s) =
     (if b \<and> c = CHR ''.'' \<and> d = CHR ''/'' then undotted True s else c # undotted (c = CHR ''/'') (d # s))"

lemma undotted_none: "index_str ''./'' s = None \<Longrightarrow> undotted b s = s"
  by (induction b s rule: undotted.induct) (auto split: if_splits)

lemma undotted_some:
  "index_str ''./'' s = Some i \<Longrightarrow>
   undotted b s = take i s @ undotted (if i = 0 then b else s ! (i - 1) = CHR ''/'') (drop i s)"
proof (induction b s arbitrary: i rule: undotted.induct)
  case (3 b c d s)
  show ?case
  proof (cases "is_prefix ''./'' (c # d # s)")
    case False
    then obtain j where j: "index_str ''./'' (d # s) = Some j" "i = Suc j" using "3.prems" by auto
    have nd: "\<not> (c = CHR ''.'' \<and> d = CHR ''/'')" using False by auto
    then have "undotted b (c # d # s) = c # undotted (c = CHR ''/'') (d # s)" by auto
    also have "undotted (c = CHR ''/'') (d # s) =
        take j (d # s) @ undotted (if j = 0 then c = CHR ''/'' else (d # s) ! (j - 1) = CHR ''/'') (drop j (d # s))"
      using 3(2)[OF _ j(1)] nd by blast
    finally show ?thesis using j(2) by (cases j) simp_all
  qed (use 3 in simp)
qed (auto split: if_splits)

lemma undotted_slash: "undotted b (CHR ''/'' # s) = CHR ''/'' # undotted True s"
  by (cases s) simp_all

lemma undotted_copy:
  "index_str ''./'' (u @ CHR ''.'' # CHR ''/'' # t) = Some (length u) \<Longrightarrow> u = [] \<or> last u = CHR ''/'' \<Longrightarrow>
   undotted b (u @ t) = u @ undotted (if u = [] then b else True) t"
proof (induction u arbitrary: b)
  case (Cons c u)
  have j: "index_str ''./'' (u @ CHR ''.'' # CHR ''/'' # t) = Some (length u)" "\<not> is_prefix ''./'' (c # u @ CHR ''.'' # CHR ''/'' # t)"
    using Cons.prems(1) by (auto split: if_splits)
  show ?case
  proof (cases u)
    case Nil
    with Cons.prems(2) show ?thesis by (simp add: undotted_slash)
  next
    case (Cons d v)
    then have "undotted b (c # u @ t) = c # undotted (c = CHR ''/'') (u @ t)" using j(2) by auto
    then show ?thesis using Cons.IH[OF j(1)] Cons.prems(2) Cons by simp
  qed
qed simp

lemma index_str_prefix: "index_str p s = Some i \<Longrightarrow> is_prefix p (drop i s)"
  by (induction s arbitrary: i) (auto split: if_splits)

lemma index_str_split:
  "index_str p s = Some i \<Longrightarrow> \<exists>u t. s = u @ p @ t \<and> length u = i"
  using index_str_prefix[of p s i] index_str_bound[of p s i]
  by (auto simp: is_prefix_iff) (metis append_take_drop_id length_take min_absorb2 le_add1 le_trans)

lemma drop_dots_undotted:
  "drop_dots (length a) (a @ r) = a @ undotted (a = [] \<or> last a = CHR ''/'') r"
proof (induction "length r" arbitrary: a r rule: less_induct)
  case less
  let ?b = "a = [] \<or> last a = CHR ''/''"
  show ?case
  proof (cases "index_str ''./'' r")
    case None
    then show ?thesis by (subst drop_dots.simps) (simp add: find_str_def undotted_none)
  next
    case (Some i)
    obtain u t where r: "r = u @ CHR ''.'' # CHR ''/'' # t" "length u = i" using index_str_split[OF Some] by auto
    let ?b' = "a @ u = [] \<or> last (a @ u) = CHR ''/''"
    have f: "find_str (a @ r) ''./'' (length a) = Some (length a + i)" using Some by (simp add: find_str_def)
    have rhs: "undotted ?b r = u @ undotted ?b' (CHR ''.'' # CHR ''/'' # t)"
      using undotted_some[OF Some, of ?b] r by (cases u rule: rev_cases) (auto simp: nth_append)
    have b': "(length a + i = 0 \<or> (a @ r) ! (length a + i - 1) = CHR ''/'') = ?b'"
      using r by (cases u rule: rev_cases; cases a rule: rev_cases) (auto simp: nth_append)
    have step: "drop_dots (length a) (a @ r) = (if ?b' then drop_dots (length a) (a @ u @ t)
        else drop_dots (length a + i + 2) (a @ r))"
    proof -
      have "take (length a + i) (a @ r) @ drop (length a + i + 2) (a @ r) = a @ u @ t" using r by simp
      then show ?thesis by (subst drop_dots.simps) (simp only: f option.case b')
    qed
    show ?thesis
    proof (cases ?b')
      case True
      have "drop_dots (length a) (a @ r) = drop_dots (length a) (a @ u @ t)"
        using True step by simp
      also have "\<dots> = a @ undotted ?b (u @ t)" using less[of "u @ t" a] r by simp
      also have "undotted ?b (u @ t) = u @ undotted (if u = [] then ?b else True) t"
        using Some r True by (intro undotted_copy) (auto simp: last_append split: if_splits)
      also have "(if u = [] then ?b else True) = True" using True by auto
      finally show ?thesis using rhs True by simp
    next
      case False
      have "drop_dots (length a) (a @ r) = drop_dots (length (a @ u @ ''./'')) ((a @ u @ ''./'') @ t)"
      proof -
        have "a @ r = (a @ u @ ''./'') @ t" "length a + i + 2 = length (a @ u @ ''./'')" using r by simp_all
        with step False show ?thesis by (simp only: if_False)
      qed
      also have "\<dots> = (a @ u @ ''./'') @ undotted True t" using less[of t "a @ u @ ''./''"] r by simp
      finally show ?thesis using rhs False by (simp add: undotted_slash)
    qed
  qed
qed

lemma undotted_component:
  "CHR ''/'' \<notin> set c \<Longrightarrow> undotted True (c @ CHR ''/'' # r) = (if c = ''.'' then undotted True r else c @ CHR ''/'' # undotted True r)"
  "CHR ''/'' \<notin> set c \<Longrightarrow> undotted True c = c"
proof -
  have none: "index_str ''./'' c = None" if "CHR ''/'' \<notin> set c" for c
    using that by (induction c) (auto simp: is_prefix_iff)
  have plain: "undotted False (c @ CHR ''/'' # r) = c @ CHR ''/'' # undotted True r" if "CHR ''/'' \<notin> set c" for c
    using that
  proof (induction c)
    case (Cons a c)
    then show ?case by (cases c) (auto simp: undotted_slash)
  qed (simp add: undotted_slash)
  show "undotted True (c @ CHR ''/'' # r) = (if c = ''.'' then undotted True r else c @ CHR ''/'' # undotted True r)"
    if "CHR ''/'' \<notin> set c"
    using that plain[of "tl c"] by (cases c; cases "tl c") (auto simp: undotted_slash)
  show "CHR ''/'' \<notin> set c \<Longrightarrow> undotted True c = c" by (rule undotted_none[OF none])
qed

lemma undotted_path:
  "list_all (\<lambda>c. CHR ''/'' \<notin> set c) (c # cs) \<Longrightarrow>
   CHR ''/'' # undotted True (c @ path_text cs) =
     path_text (List.filter (\<lambda>c. c \<noteq> ''.'') (butlast (c # cs)) @ [last (c # cs)])"
proof (induction cs arbitrary: c)
  case (Cons d cs)
  then show ?case by (simp add: undotted_component(1))
qed (simp add: undotted_component(2))

lemma drop_dots_path:
  assumes "cs \<noteq> []" "list_all (\<lambda>c. CHR ''/'' \<notin> set c) cs"
  shows "drop_dots 0 (path_text cs) = path_text (List.filter (\<lambda>c. c \<noteq> ''.'') (butlast cs) @ [last cs])"
proof -
  obtain c ds where cs: "cs = c # ds" using assms(1) by (cases cs) auto
  have "drop_dots 0 (path_text cs) = CHR ''/'' # undotted True (c @ path_text ds)"
    using drop_dots_undotted[of "[]" "path_text cs"] by (simp add: cs undotted_slash)
  then show ?thesis using undotted_path[of c ds] assms(2) by (simp add: cs)
qed

text \<open>Where the components of a path end.\<close>

lemma last_component:
  assumes "s @ CHR ''/'' # a = t @ CHR ''/'' # b" "CHR ''/'' \<notin> set a" "CHR ''/'' \<notin> set b"
  shows "s = t \<and> a = b"
proof -
  have "takeWhile (\<lambda>c. c \<noteq> CHR ''/'') (rev (s @ CHR ''/'' # a)) = rev a" if "CHR ''/'' \<notin> set a" for s a
    using that by (auto simp: takeWhile_append takeWhile_eq_all_conv)
  from this[OF assms(2), of s] this[OF assms(3), of t] assms(1) have "rev a = rev b" by (simp only:)
  with assms(1) show ?thesis by simp
qed

lemma ends_component:
  assumes "CHR ''/'' \<notin> set l" "CHR ''/'' \<notin> set d"
  shows "length (s @ CHR ''/'' # l) \<ge> length d + 1 \<and>
      drop (length (s @ CHR ''/'' # l) - (length d + 1)) (s @ CHR ''/'' # l) = CHR ''/'' # d \<longleftrightarrow> l = d"
proof
  let ?s = "s @ CHR ''/'' # l"
  assume a: "length ?s \<ge> length d + 1 \<and> drop (length ?s - (length d + 1)) ?s = CHR ''/'' # d"
  then have "?s = take (length ?s - (length d + 1)) ?s @ CHR ''/'' # d" by (metis append_take_drop_id)
  from last_component[OF this assms] show "l = d" by simp
qed simp

lemma index_path:
  assumes "list_all (\<lambda>c. CHR ''/'' \<notin> set c) xs" "''..'' \<notin> set xs" "t = [] \<or> hd t = CHR ''/''"
  shows "index_str ''/../'' (path_text xs @ t) = map_option ((+) (length (path_text xs))) (index_str ''/../'' t)"
  using assms
proof (induction xs)
  case Nil
  then show ?case by (cases "index_str ''/../'' t") simp_all
next
  case (Cons x xs)
  let ?r = "path_text xs @ t"
  have r: "?r = [] \<or> hd ?r = CHR ''/''" using Cons.prems(3) by (cases xs) simp_all
  have skip: "index_str ''/../'' (x @ ?r) = map_option ((+) (length x)) (index_str ''/../'' ?r)"
    if "CHR ''/'' \<notin> set x" for x
    using that by (induction x) (cases "index_str ''/../'' ?r"; auto)+
  have "\<not> is_prefix ''/../'' (CHR ''/'' # x @ ?r)"
  proof
    assume "is_prefix ''/../'' (CHR ''/'' # x @ ?r)"
    then obtain u where u: "x @ ?r = ''..'' @ CHR ''/'' # u" by (auto simp: is_prefix_iff)
    have "takeWhile (\<lambda>c. c \<noteq> CHR ''/'') (x @ ?r) = x"
      using Cons.prems(1) r by (cases "?r") (auto simp: takeWhile_append takeWhile_eq_all_conv)
    then have "x = ''..''" unfolding u by simp
    with Cons.prems(2) show False by simp
  qed
  then have "index_str ''/../'' (path_text (x # xs) @ t) = map_option Suc (index_str ''/../'' (x @ ?r))" by simp
  also have "\<dots> = map_option ((+) (Suc (length x))) (index_str ''/../'' ?r)"
    using skip[of x] Cons.prems(1) by (cases "index_str ''/../'' ?r") simp_all
  also have "\<dots> = map_option ((+) (length (path_text (x # xs)))) (index_str ''/../'' t)"
    using Cons by (cases "index_str ''/../'' t") simp_all
  finally show ?case .
qed

text \<open>Components the second loop recognises: none but the two points ends in two points.\<close>

definition path_ok :: "string list \<Rightarrow> bool" where
  "path_ok cs \<longleftrightarrow> list_all (\<lambda>c. CHR ''/'' \<notin> set c \<and> (c = ''..'' \<or> drop (length c - 2) c \<noteq> ''..'')) cs"

lemma path_okD: "path_ok cs \<Longrightarrow> list_all (\<lambda>c. CHR ''/'' \<notin> set c) cs"
  by (auto simp: path_ok_def list_all_iff)

lemma not_behind_dotdot:
  assumes "path_ok [x]" "x \<noteq> ''..''" "n = length (s @ CHR ''/'' # x)"
  shows "\<not> (n > 1 \<and> take 2 (drop (n - 2) (s @ CHR ''/'' # x @ t)) = ''..'')"
proof (cases "length x \<ge> 2")
  case True
  then have "take 2 (drop (n - 2) (s @ CHR ''/'' # x @ t)) = drop (length x - 2) x"
    using assms(3) by (simp add: drop_Cons' Suc_diff_le numeral_2_eq_2)
  with assms show ?thesis by (simp add: path_ok_def)
next
  case False
  then consider "x = []" | c where "x = [c]" by (cases x; cases "tl x") auto
  then show ?thesis
    by cases (use assms(3) in \<open>cases s rule: rev_cases; auto simp: numeral_2_eq_2\<close>)+
qed

lemma rfind_slash:
  assumes "CHR ''/'' \<notin> set x" "n = length s + length x"
  shows "rfind_char (s @ CHR ''/'' # x @ t) CHR ''/'' n = Some (length s)"
proof -
  have "take (n + 1) (s @ CHR ''/'' # x @ t) = s @ CHR ''/'' # x" using assms(2) by simp
  moreover have "rfind_char (s @ CHR ''/'' # x) CHR ''/'' (length (s @ CHR ''/'' # x)) = Some (length s)"
    by (rule rfind_char_last[OF assms(1)])
  ultimately show ?thesis by (simp add: rfind_char_def)
qed

lemma drop_dotdots_step:
  "find_str s ''/../'' pos = Some p \<Longrightarrow> p \<noteq> 0 \<Longrightarrow> \<not> (p > 1 \<and> take 2 (drop (p - 2) s) = ''..'') \<Longrightarrow>
   rfind_char s CHR ''/'' (p - 1) = Some i \<Longrightarrow> drop_dotdots pos s = drop_dotdots pos (take i s @ drop (p + 3) s)"
  by (subst drop_dotdots.simps) (simp only: option.case if_False Let_def)

lemma drop_over: "drop (length y + 3) (y @ ''/..'' @ t) = t"
  by simp

lemma drop_dotdots_path:
  "path_ok (rev st @ cs) \<Longrightarrow> ''..'' \<notin> set st \<Longrightarrow> cs \<noteq> [] \<Longrightarrow>
   drop_dotdots 0 (path_text (rev st @ cs)) = path_text (resolve st cs)"
proof (induction st cs rule: resolve.induct)
  case (2 st c)
  have "CHR ''/'' \<notin> set c" using "2.prems"(1) by (simp add: path_ok_def)
  moreover from this have "index_str ''/../'' c = None" by (induction c) (auto simp: is_prefix_iff)
  ultimately have "index_str ''/../'' (CHR ''/'' # c) = None" by (auto simp: is_prefix_iff)
  then have "find_str (path_text (rev st @ [c])) ''/../'' 0 = None"
    using index_path[of "rev st" "CHR ''/'' # c"] path_okD[OF "2.prems"(1)] "2.prems"(2) by (simp add: find_str_def)
  then show ?case by (subst drop_dotdots.simps) simp
next
  case (3 st c d cs)
  show ?case
  proof (cases "c = ''..''")
    case False
    then show ?thesis using "3.IH"(2) "3.prems" by simp
  next
    case True
    let ?t = "CHR ''/'' # d @ path_text cs"
    have f: "find_str (path_text (rev st) @ ''/..'' @ ?t) ''/../'' 0 = Some (length (path_text (rev st)))"
      using index_path[of "rev st" "''/..'' @ ?t"] path_okD[OF "3.prems"(1)] "3.prems"(2) by (simp add: find_str_def)
    show ?thesis
    proof (cases st)
      case Nil
      have "drop_dotdots 0 (''/..'' @ ?t) = drop_dotdots 0 ?t"
        using f Nil by (subst drop_dotdots.simps) simp
      moreover have "path_ok (d # cs)" using "3.prems"(1) by (simp add: path_ok_def)
      ultimately show ?thesis using "3.IH"(1) True Nil by simp
    next
      case (Cons x st')
      let ?P = "path_text (rev st')"
      have x: "path_ok [x]" "x \<noteq> ''..''" using "3.prems"(1,2) Cons by (auto simp: path_ok_def)
      let ?s = "?P @ CHR ''/'' # x @ ''/..'' @ ?t"
      have f': "find_str ?s ''/../'' 0 = Some (length (?P @ CHR ''/'' # x))" using f Cons by simp
      have "rfind_char ?s CHR ''/'' (length (?P @ CHR ''/'' # x) - 1) = Some (length ?P)"
        using x(1) by (intro rfind_slash) (auto simp: path_ok_def)
      from drop_dotdots_step[OF f' _ not_behind_dotdot[OF x refl] this]
      have "drop_dotdots 0 ?s = drop_dotdots 0 (?P @ drop (length (?P @ CHR ''/'' # x) + 3) ?s)" by simp
      also have "drop (length (?P @ CHR ''/'' # x) + 3) ?s = ?t"
        using drop_over[of "?P @ CHR ''/'' # x" ?t] by (simp only: append_assoc append_Cons)
      finally have "drop_dotdots 0 ?s = drop_dotdots 0 (?P @ ?t)" .
      moreover have "path_ok (rev st' @ d # cs)" "''..'' \<notin> set st'" using "3.prems"(1,2) Cons by (auto simp: path_ok_def)
      ultimately show ?thesis using "3.IH"(1) True Cons by simp
    qed
  qed
qed simp

lemma resolve_props:
  "''..'' \<notin> set st \<Longrightarrow> cs \<noteq> [] \<Longrightarrow> \<exists>xs. resolve st cs = xs @ [last cs] \<and> ''..'' \<notin> set xs \<and> set xs \<subseteq> set st \<union> set cs"
proof (induction st cs rule: resolve.induct)
  case (3 st c d cs)
  have "''..'' \<notin> set (tl st)" using "3.prems"(1) by (metis list.set_sel(2) tl_Nil)
  show ?case
  proof (cases "c = ''..''")
    case True
    from "3.IH"(1)[OF True] \<open>''..'' \<notin> set (tl st)\<close> obtain xs where
      "resolve (tl st) (d # cs) = xs @ [last (d # cs)]" "''..'' \<notin> set xs" "set xs \<subseteq> set (tl st) \<union> set (d # cs)" by auto
    then show ?thesis using True by (cases st) auto
  next
    case False
    with "3.prems"(1) have "''..'' \<notin> set (c # st)" by simp
    from "3.IH"(2)[OF False this] False show ?thesis by fastforce
  qed
qed auto

lemma trailing_dot:
  assumes "CHR ''/'' \<notin> set l"
  shows "(let s = P @ CHR ''/'' # l in
      if length s \<ge> 2 \<and> drop (length s - 2) s = ''/.'' \<or> s = ''.'' then take (length s - 1) s else s) =
    P @ CHR ''/'' # (if l = ''.'' then [] else l)"
proof -
  have "P @ CHR ''/'' # l \<noteq> ''.''" by (cases P) auto
  then show ?thesis using ends_component[OF assms, of "''.''" P] by (auto simp: Let_def numeral_2_eq_2)
qed

lemma trailing_dotdot:
  assumes "path_ok xs" "''..'' \<notin> set xs" "CHR ''/'' \<notin> set l"
  shows "(let s = path_text (xs @ [l]) in
      if length s \<ge> 3 \<and> drop (length s - 3) s = ''/..''
      then let slashDot = length s - 3 in
           if \<not> (slashDot > 1 \<and> take 2 (drop (slashDot - 2) s) = ''..'')
           then let startPos =
                      (case rfind_char s CHR ''/'' (if slashDot = 0 then length s else slashDot - 1) of
                         None \<Rightarrow> 0 | Some i \<Rightarrow> i)
                in take (startPos + 1) s
           else s
      else s) = path_text (if l = ''..'' then butlast xs @ [[]] else xs @ [l])"
proof -
  have e: "length (path_text (xs @ [l])) \<ge> 3 \<and> drop (length (path_text (xs @ [l])) - 3) (path_text (xs @ [l])) = ''/..'' \<longleftrightarrow> l = ''..''"
    using ends_component[OF assms(3), of "''..''" "path_text xs"] by (simp add: numeral_2_eq_2)
  show ?thesis
  proof (cases "l = ''..''")
    case False
    with e show ?thesis by (simp only: Let_def if_False if_True)
  next
    case True
    show ?thesis
    proof (cases xs rule: rev_cases)
      case Nil
      with True show ?thesis by (simp add: rfind_char_def)
    next
      case (snoc ys x)
      let ?P = "path_text ys"
      have x: "path_ok [x]" "x \<noteq> ''..''" using assms(1,2) snoc by (auto simp: path_ok_def)
      have s: "path_text (xs @ [''..'']) = ?P @ CHR ''/'' # x @ ''/..''" using snoc by simp
      have n: "length (path_text (xs @ [''..''])) - 3 = length (?P @ CHR ''/'' # x)" using snoc by simp
      have "rfind_char (path_text (xs @ [''..''])) CHR ''/'' (length (?P @ CHR ''/'' # x) - 1) = Some (length ?P)"
        unfolding s using x(1) by (intro rfind_slash) (auto simp: path_ok_def)
      moreover have "\<not> (length (?P @ CHR ''/'' # x) > 1 \<and> take 2 (drop (length (?P @ CHR ''/'' # x) - 2) (path_text (xs @ [''..'']))) = ''..'')"
        unfolding s by (rule not_behind_dotdot[OF x refl])
      moreover have "length (?P @ CHR ''/'' # x) \<noteq> 0" by simp
      moreover have "take (length ?P + 1) (path_text (xs @ [''..''])) = path_text (butlast xs @ [[]])" using s snoc by simp
      ultimately show ?thesis
        using e unfolding True by (simp only: Let_def n if_True if_False option.case simp_thms)
    qed
  qed
qed

text \<open>
  C31. \<open>simplePath\<close> ends and gives the usual normal form, computed with a stack of components,
  for every absolute path in which no component but the two points ends in two points; no
  component of the result is a point or two points.
\<close>

theorem simplePath_normal:
  assumes "cs \<noteq> []" "path_ok cs"
  shows "simplePath (path_text cs) = path_text (normal_path cs) \<and> set (normal_path cs) \<inter> {''.'', ''..''} = {}"
proof -
  let ?xs = "List.filter (\<lambda>c. c \<noteq> ''.'') (butlast cs)" and ?l = "last cs"
  let ?l' = "if ?l = ''.'' then [] else ?l"
  let ?cs = "?xs @ [?l']"
  have ok: "path_ok ?cs" "CHR ''/'' \<notin> set ?l" "path_ok (rev [] @ ?cs)"
    using assms last_in_set[OF assms(1)] by (auto simp: path_ok_def list_all_iff dest: in_set_butlastD)
  obtain ys where ys: "resolve [] ?cs = ys @ [?l']" "''..'' \<notin> set ys" "set ys \<subseteq> set ?cs"
    using resolve_props[of "[]" ?cs] by auto
  have ysok: "path_ok ys" using ok(1) ys(3) unfolding path_ok_def list_all_iff by blast
  have l': "CHR ''/'' \<notin> set ?l'" using ok(2) by simp
  have "drop_dots 0 (path_text cs) = path_text ?xs @ CHR ''/'' # ?l"
    using drop_dots_path[OF assms(1) path_okD[OF assms(2)]] by simp
  moreover have "drop_dotdots 0 (path_text ?xs @ CHR ''/'' # ?l') = path_text (ys @ [?l'])"
    using drop_dotdots_path[OF ok(3)] ys(1) by simp
  ultimately have "simplePath (path_text cs) = path_text (if ?l' = ''..'' then butlast ys @ [[]] else ys @ [?l'])"
    using trailing_dot[OF ok(2), of "path_text ?xs"] trailing_dotdot[OF ysok ys(2) l']
    unfolding simplePath_def by (simp only: Let_def)
  moreover have n: "normal_path cs = (if ?l' = ''..'' then butlast ys @ [[]] else ys @ [?l'])"
    by (simp only: normal_path_def Let_def ys(1) last_snoc butlast_snoc)
  moreover have "''.'' \<notin> set ys" using ys(3) by (auto split: if_splits)
  then have "set (normal_path cs) \<inter> {''.'', ''..''} = {}"
    using ys(2) by (auto simp: n dest: in_set_butlastD split: if_splits)
  ultimately show ?thesis by simp
qed

lemma simplePath_normal_witness:
  "simplePath (path_text [''a'', ''.'', [], ''b'', ''..'', ''..'', ''c'', ''..'']) =
      path_text (normal_path [''a'', ''.'', [], ''b'', ''..'', ''..'', ''c'', ''..'']) \<and>
    set (normal_path [''a'', ''.'', [], ''b'', ''..'', ''..'', ''c'', ''..'']) \<inter> {''.'', ''..''} = {}"
  by (rule simplePath_normal) (simp_all add: path_ok_def)

text \<open>A component that ends in two points protects the two points behind it.\<close>

lemma simplePath_kept: "simplePath ''/a../../b'' = ''/a../../b''"
  by code_simp

end
