(* ===== verification/Http.thy ===== *)
theory Http
  imports Url
begin

text \<open>
  \<open>TC_Http\<close> and \<open>TC_HttpResponse\<close> (tcinclude/tc_http.cpp, tc_http.h): headers
  as a multimap, reading and writing of responses, with \<open>Content-Length\<close> and in
  chunks. A buffer is the string in it and the null character behind; a position in it stands
  for a pointer, and reading behind the null character is an error. A response fed in pieces is
  decoded to the same contents however the network cuts it.
\<close>

section \<open>Headers\<close>

text \<open>
  A \<open>multimap\<close> ordered by \<open>CmpCase\<close>, as a list; a new entry goes behind those with the same key,
  and \<open>find\<close> gives the first.
\<close>

type_synonym http_headers = "(string \<times> string) list"

fun mm_insert :: "string \<Rightarrow> string \<Rightarrow> http_headers \<Rightarrow> http_headers" where
  "mm_insert k v [] = [(k, v)]"
| "mm_insert k v ((k', v') # m) =
     (if upper k < upper k' then (k, v) # (k', v') # m else (k', v') # mm_insert k v m)"

definition mm_erase :: "string \<Rightarrow> http_headers \<Rightarrow> http_headers" where
  "mm_erase k m = List.filter (\<lambda>(k', v). upper k' \<noteq> upper k) m"

definition mm_find :: "string \<Rightarrow> http_headers \<Rightarrow> string option" where
  "mm_find k m = map_option snd (find (\<lambda>(k', v). upper k' = upper k) m)"

record http =
  headers :: http_headers
  headLength :: nat
  content :: string
  bIsChunked :: bool

definition http_reset :: "'a http_scheme \<Rightarrow> 'a http_scheme" where
  "http_reset h = h\<lparr>headers := [], headLength := 0, content := [], bIsChunked := False\<rparr>"

definition eraseHeader :: "string \<Rightarrow> 'a http_scheme \<Rightarrow> 'a http_scheme" where
  "eraseHeader k h = h\<lparr>headers := mm_erase k (headers h)\<rparr>"

definition setHeader :: "string \<Rightarrow> string \<Rightarrow> 'a http_scheme \<Rightarrow> 'a http_scheme" where
  "setHeader k v h =
     (let h = (if upper k \<noteq> ''SET-COOKIE'' \<and> upper k \<noteq> ''COOKIE'' then eraseHeader k h else h) in
      h\<lparr>headers := mm_insert k v (headers h)\<rparr>)"

definition setHeaderMulti :: "string \<Rightarrow> string \<Rightarrow> 'a http_scheme \<Rightarrow> 'a http_scheme" where
  "setHeaderMulti k v h = h\<lparr>headers := mm_insert k v (headers h)\<rparr>"

definition getHeader :: "string \<Rightarrow> 'a http_scheme \<Rightarrow> string" where
  "getHeader k h = (case mm_find k (headers h) of None \<Rightarrow> [] | Some v \<Rightarrow> v)"

definition getHeaderMulti :: "string \<Rightarrow> 'a http_scheme \<Rightarrow> string list" where
  "getHeaderMulti k h = List.map snd (List.filter (\<lambda>(k', v). lower (c_string k') = lower (c_string k)) (headers h))"

definition setContentLength :: "nat \<Rightarrow> 'a http_scheme \<Rightarrow> 'a http_scheme" where
  "setContentLength n h = setHeader ''Content-Length'' (tostr_unsigned n) h"

definition getContentLength :: "'a http_scheme \<Rightarrow> nat" where
  "getContentLength h = (let s = getHeader ''Content-Length'' h in if s = [] then 0 else strto_ulong s)"

definition setContent :: "string \<Rightarrow> bool \<Rightarrow> 'a http_scheme \<Rightarrow> 'a http_scheme" where
  "setContent c bUpdateContentLength h =
     (let h = h\<lparr>content := c\<rparr> in
      if bUpdateContentLength
      then let h = eraseHeader ''Content-Length'' h in
           if length (content h) > 0 then setContentLength (length (content h)) h else h
      else h)"

definition crlf :: string where
  "crlf = [CHR 0x0D, CHR 0x0A]"

definition genHeader :: "'a http_scheme \<Rightarrow> string" where
  "genHeader h = concat (List.map (\<lambda>(k, v). if v \<noteq> [] then k @ '': '' @ v @ crlf else []) (headers h))"

section \<open>Lines\<close>

definition line_end :: "char \<Rightarrow> bool" where
  "line_end c \<longleftrightarrow> c = CHR 0x0D \<or> c = CHR 0x0A \<or> c = CHR 0x00"

text \<open>\<open>getLine\<close>: the line at \<open>p\<close> and the position behind its end; one end of line more is skipped after a carriage return.\<close>

definition getLine :: "string \<Rightarrow> nat \<Rightarrow> (string \<times> nat) result" where
  "getLine s p =
     (if p > length s then Inl OutOfBounds
      else let line = takeWhile (\<lambda>c. \<not> line_end c) (drop p s); q = p + length line in
           Inr (line, if q < length s \<and> s ! q = CHR 0x0D then q + 2 else q + 1))"

text \<open>\<open>getLine\<close> with the number of bytes it may move.\<close>

definition getLine_max :: "string \<Rightarrow> nat \<Rightarrow> nat \<Rightarrow> (string \<times> nat) result" where
  "getLine_max s p iBufLen =
     (if p > length s then Inl OutOfBounds
      else let line = take iBufLen (takeWhile (\<lambda>c. \<not> line_end c) (drop p s));
               i = length line;
               i = (if p + i < length s \<and> s ! (p + i) = CHR 0x0D \<and> i < iBufLen then i + 1 else i);
               i = (if i < iBufLen then i + 1 else i)
           in Inr (line, p + i))"

definition ignored_line :: "string \<Rightarrow> bool" where
  "ignored_line l \<longleftrightarrow>
     same_nocase l ''GET '' 4 \<or> same_nocase l ''POST '' 5 \<or> same_nocase l ''OPTIONS '' 8 \<or> same_nocase l ''HTTP/'' 5"

definition header_of :: "string \<Rightarrow> http_headers \<Rightarrow> http_headers" where
  "header_of sLine m =
     (case cut_at CHR '':'' sLine of
        None \<Rightarrow> m
      | Some (k, v) \<Rightarrow> mm_insert (trim k '' '' True) (trim v '' '' True) m)"

lemma getLine_bounds: "getLine s p = Inr (l, q) \<Longrightarrow> p \<le> length s \<and> p < q"
  by (auto simp: getLine_def Let_def split: if_splits)

function header_loop :: "string \<Rightarrow> nat \<Rightarrow> nat \<Rightarrow> nat \<Rightarrow> http_headers \<Rightarrow> (http_headers \<times> nat) result" where
  "header_loop s start len p m =
     (case getLine s p of
        Inl e \<Rightarrow> Inl e
      | Inr (sLine, q) \<Rightarrow>
          if sLine = [] then Inr (m, q)
          else if ignored_line sLine then header_loop s start len q m
          else let m = header_of sLine m in
               if q - start \<ge> len then Inr (m, q) else header_loop s start len q m)"
  by pat_completeness auto
termination
  by (relation "measure (\<lambda>(s, start, len, p, m). length s + 1 - p)") (auto dest!: getLine_bounds)

declare header_loop.simps [simp del]

definition parseHeader :: "string \<Rightarrow> nat \<Rightarrow> (http_headers \<times> nat) result" where
  "parseHeader s p = header_loop s p (length (c_string (drop p s))) p []"

section \<open>Responses\<close>

record http_response = http +
  status :: int
  about :: string
  version :: string
  headerLine :: string
  iTmpContentLength :: nat

definition response_reset :: "http_response \<Rightarrow> http_response" where
  "response_reset r = (http_reset r)\<lparr>status := 200, about := ''OK'', version := ''HTTP/1.1'', iTmpContentLength := 0\<rparr>"

definition HttpResponse :: http_response where
  "HttpResponse = response_reset
     \<lparr>headers = [], headLength = 0, content = [], bIsChunked = False, status = 0, about = [], version = [],
      headerLine = [], iTmpContentLength = 0\<rparr>"

definition parseResponseHeader :: "string \<Rightarrow> http_response \<Rightarrow> http_response result" where
  "parseResponseHeader s r =
     bindE (getLine s 0) (\<lambda>(l, p).
     let r = r\<lparr>headerLine := trim l blanks True\<rparr> in
     case find_char (headerLine r) CHR '' '' 0 of
       Some pos \<Rightarrow>
         let r = r\<lparr>version := take pos (headerLine r)\<rparr>;
             left = trim (drop pos (headerLine r)) blanks True;
             r = (case find_char left CHR '' '' 0 of
                    Some pos1 \<Rightarrow> r\<lparr>status := strto_int (take pos left), about := trim (drop (pos1 + 1) left) blanks True\<rparr>
                  | None \<Rightarrow> r\<lparr>status := strto_int left, about := []\<rparr>)
         in bindE (parseHeader s p) (\<lambda>(m, _). Inr (r\<lparr>headers := m\<rparr>))
     | None \<Rightarrow> Inr (r\<lparr>version := headerLine r, status := 0, about := []\<rparr>))"

text \<open>\<open>strtol\<close> in base 16 and its conversion to \<open>int\<close>.\<close>

definition hex_digit :: "char \<Rightarrow> nat option" where
  "hex_digit c =
     (if is_digit c then Some (of_char c - 48)
      else if CHR ''a'' \<le> c \<and> c \<le> CHR ''f'' then Some (of_char c - 87)
      else if CHR ''A'' \<le> c \<and> c \<le> CHR ''F'' then Some (of_char c - 55)
      else None)"

fun hex_digits_value :: "nat \<Rightarrow> string \<Rightarrow> nat" where
  "hex_digits_value n [] = n"
| "hex_digits_value n (c # s) = (case hex_digit c of Some d \<Rightarrow> hex_digits_value (16 * n + d) s | None \<Rightarrow> n)"

definition hex_prefix :: "string \<Rightarrow> string" where
  "hex_prefix s =
     (case s of
        c # x # d # r \<Rightarrow>
          if c = CHR ''0'' \<and> (x = CHR ''x'' \<or> x = CHR ''X'') \<and> hex_digit d \<noteq> None then d # r else s
      | _ \<Rightarrow> s)"

definition strtol16 :: "string \<Rightarrow> int" where
  "strtol16 s =
     (let (neg, r) = signed_part s; v = int (hex_digits_value 0 (hex_prefix r)); v = (if neg then - v else v) in
      max (- (2 ^ 63)) (min (2 ^ 63 - 1) v))"

definition chunk_size :: "string \<Rightarrow> int" where
  "chunk_size s = sint (word_of_int (strtol16 s) :: 32 word)"

text \<open>
  The loop over the chunks in the buffer: whether the last one has come, the buffer left, and
  the response. The last chunk leaves the loop with the buffer as it is.
\<close>

function chunk_loop :: "string \<Rightarrow> 'a http_scheme \<Rightarrow> bool \<times> string \<times> 'a http_scheme" where
  "chunk_loop sBuffer r =
     (case find_str sBuffer crlf 0 of
        None \<Rightarrow> (False, sBuffer, r)
      | Some pos \<Rightarrow>
          let iChunkSize = chunk_size (take pos sBuffer) in
          if iChunkSize \<le> 0 then (True, sBuffer, r)
          else if length sBuffer \<ge> pos + 2 + nat iChunkSize + 2
          then let r = r\<lparr>content := content r @ take (nat iChunkSize) (drop (pos + 2) sBuffer)\<rparr>;
                   sBuffer = drop (pos + 2 + nat iChunkSize + 2) sBuffer
               in chunk_loop sBuffer (setContentLength (length (content r)) r)
          else (False, sBuffer, r))"
  by pat_completeness auto
termination by (relation "measure (\<lambda>(s, r). length s)") (auto simp: Let_def)

declare chunk_loop.simps [simp del]

text \<open>\<open>size_t\<close>'s \<open>-1\<close>: no content length was given.\<close>

definition no_length :: nat where
  "no_length = 2 ^ 64 - 1"

text \<open>\<open>incrementDecode\<close> behind the header: the answer, the buffer left, the response.\<close>

definition decode_body :: "string \<Rightarrow> http_response \<Rightarrow> bool \<times> string \<times> http_response" where
  "decode_body sBuffer r =
     (if bIsChunked r
      then case chunk_loop sBuffer r of
             (False, sBuffer, r) \<Rightarrow> (False, sBuffer, r)
           | (True, _, r) \<Rightarrow>
               (True, [], if iTmpContentLength r = 0 \<or> iTmpContentLength r = no_length
                          then setContentLength (length (content r)) r else r)
      else let r = r\<lparr>content := content r @ sBuffer\<rparr> in
           if iTmpContentLength r = 0 then (True, [], setContentLength (length (content r)) r)
           else if iTmpContentLength r = no_length then (False, [], setContentLength (length (content r)) r)
           else (\<not> iTmpContentLength r > length (content r), [], r))"

definition incrementDecode :: "string \<Rightarrow> http_response \<Rightarrow> (bool \<times> string \<times> http_response) result" where
  "incrementDecode sBuffer r =
     (if headLength r = 0
      then case find_str sBuffer (crlf @ crlf) 0 of
             None \<Rightarrow> Inr (False, sBuffer, r)
           | Some pos \<Rightarrow>
               bindE (parseResponseHeader sBuffer r) (\<lambda>r.
               if status r = 204 then Inr (False, sBuffer, r)
               else let r = r\<lparr>iTmpContentLength :=
                              (if mm_find ''Content-Length'' (headers r) \<noteq> None then getContentLength r else no_length),
                              headLength := pos + 4\<rparr>;
                        sBuffer = drop (headLength r) sBuffer
                    in if (status r = 301 \<or> status r = 302) \<and> getHeader ''Location'' r \<noteq> []
                       then Inr (True, sBuffer, r)
                       else let r = r\<lparr>bIsChunked := getHeader ''Transfer-Encoding'' r = ''chunked''\<rparr>;
                                r = eraseHeader ''Transfer-Encoding'' r
                            in Inr (decode_body sBuffer r))
      else Inr (decode_body sBuffer r))"

text \<open>The answer of both \<open>decode\<close>s after \<open>incrementDecode\<close>; sums of lengths are \<open>size_t\<close>.\<close>

definition decoded :: "nat \<Rightarrow> http_response \<Rightarrow> bool" where
  "decoded iLength r \<longleftrightarrow>
     (if (iTmpContentLength r = 0 \<or> iTmpContentLength r = no_length) \<and> \<not> bIsChunked r then True
      else (getContentLength r + headLength r) mod 2 ^ 64 \<le> iLength)"

definition response_decode :: "string \<Rightarrow> http_response \<Rightarrow> (bool \<times> http_response) result" where
  "response_decode sBuffer r =
     (if find_str sBuffer (crlf @ crlf) 0 = None then Inr (False, r)
      else bindE (incrementDecode sBuffer r) (\<lambda>(_, _, r). Inr (decoded (length sBuffer) r, r)))"

text \<open>
  \<open>decode\<close> of \<open>iLength\<close> bytes at a pointer, with \<open>s\<close> the bytes there are: the search runs on
  behind them when there is no null character, and so does the copy when \<open>iLength\<close> is larger.
  A length that no string can have makes the copy throw.
\<close>

definition response_decode_ptr :: "string \<Rightarrow> nat \<Rightarrow> http_response \<Rightarrow> (bool \<times> http_response) result" where
  "response_decode_ptr s iLength r =
     (if find_str (c_string s) (crlf @ crlf) 0 = None
      then if CHR 0x00 \<in> set s then Inr (False, r) else Inl OutOfBounds
      else if iLength \<ge> 2 ^ 63 then Inl (Thrown ''std::length_error'')
      else if iLength > length s then Inl OutOfBounds
      else bindE (incrementDecode (take iLength s) r) (\<lambda>(_, _, r). Inr (decoded iLength r, r)))"

definition status_line :: "http_response \<Rightarrow> string" where
  "status_line r = version r @ '' '' @ tostr_signed (status r) @ '' '' @ about r"

definition response_encode :: "http_response \<Rightarrow> string" where
  "response_encode r = status_line r @ crlf @ genHeader r @ crlf @ content r"

definition setResponse :: "int \<Rightarrow> string \<Rightarrow> string \<Rightarrow> http_response \<Rightarrow> http_response" where
  "setResponse st ab body r =
     (let r = r\<lparr>status := st, about := ab, content := body\<rparr>; r = r\<lparr>headerLine := status_line r\<rparr> in
      setHeader ''Content-Length'' (tostr_unsigned (length (content r))) r)"

text \<open>
  The receiving loop of \<open>doRequest\<close>: what has come is appended to the buffer, and decoding goes
  on from there. \<open>None\<close> while more is waited for.
\<close>

fun receive :: "string list \<Rightarrow> string \<Rightarrow> http_response \<Rightarrow> http_response option result" where
  "receive [] sBuffer r = Inr None"
| "receive (p # ps) sBuffer r =
     bindE (incrementDecode (sBuffer @ p) r) (\<lambda>(ready, sBuffer, r).
     if ready then Inr (Some r) else receive ps sBuffer r)"

section \<open>Reading a header\<close>

lemma crlf_simps [simp]: "length crlf = 2" "CHR 0x00 \<notin> set crlf" "crlf \<noteq> []"
  by (simp_all add: crlf_def)

definition line_clean :: "string \<Rightarrow> bool" where
  "line_clean l \<longleftrightarrow> list_all (\<lambda>c. \<not> line_end c) l"

lemma line_clean_append [simp]:
  "line_clean (a @ b) \<longleftrightarrow> line_clean a \<and> line_clean b"
  "line_clean (c # a) \<longleftrightarrow> \<not> line_end c \<and> line_clean a" "line_clean []"
  by (auto simp: line_clean_def)

lemma line_clean_takeWhile: "line_clean l \<Longrightarrow> takeWhile (\<lambda>c. \<not> line_end c) (l @ CHR 0x0D # t) = l"
  by (subst takeWhile_append2) (auto simp: line_clean_def list_all_iff line_end_def)

lemma getLine_line:
  "line_clean l \<Longrightarrow> getLine (pre @ l @ crlf @ t) (length pre) = Inr (l, length pre + length l + 2)"
  by (simp add: getLine_def crlf_def line_clean_takeWhile nth_append)

definition header_text :: "http_headers \<Rightarrow> string" where
  "header_text m = concat (List.map (\<lambda>(k, v). k @ '': '' @ v @ crlf) m)"

lemma header_text_simps [simp]:
  "header_text [] = []" "header_text ((k, v) # m) = k @ '': '' @ v @ crlf @ header_text m"
  by (simp_all add: header_text_def)

text \<open>A field that a reader can take apart again: a name without blanks, colons and slashes, a trimmed value.\<close>

definition trimmed :: "string \<Rightarrow> bool" where
  "trimmed v \<longleftrightarrow> v = [] \<or> hd v \<noteq> CHR '' '' \<and> last v \<noteq> CHR '' ''"

definition field_ok :: "string \<times> string \<Rightarrow> bool" where
  "field_ok f \<longleftrightarrow> line_clean (fst f) \<and> line_clean (snd f) \<and> fst f \<noteq> [] \<and>
     set (fst f) \<inter> {CHR '' '', CHR '':'', CHR ''/''} = {} \<and> trimmed (snd f)"

lemma trim_blank: "trim (CHR '' '' # v) '' '' True = trim v '' '' True"
  by (cases v) (simp_all add: trim_def trimleft_def trimright_def)

lemma trim_trimmed: "trimmed v \<Longrightarrow> trim v '' '' True = v"
  by (cases "v = []") (simp add: trim_def, auto simp: trimmed_def intro!: trim_blank_free)

lemma to_lower_special: "to_lower c = d \<Longrightarrow> d = CHR '' '' \<or> d = CHR ''/'' \<or> d = CHR '':'' \<Longrightarrow> c = d"
  by (auto simp: to_lower_def less_eq_char_def split: if_splits dest!: arg_cong[of "char_of _" _ "of_char :: char \<Rightarrow> nat"])

lemma same_nocase_char:
  assumes "same_nocase l p n" "i < n" "n \<le> length p" "CHR 0x00 \<notin> set p"
  shows "i < length l \<and> to_lower (l ! i) = to_lower (p ! i)"
proof -
  have p: "c_string p = p" using assms(4) by (auto simp: c_string_def takeWhile_eq_all_conv)
  have e: "List.map to_lower (take n (c_string l)) = List.map to_lower (take n p)"
    using assms(1) p by (simp add: same_nocase_def lower_def)
  then have "length (take n (c_string l)) = n" using assms(3) by (metis length_map length_take min.absorb2)
  then have l: "i < length (c_string l)" "i < length (take n (c_string l))" using assms(2) by simp_all
  have le: "length (c_string l) \<le> length l" by (simp add: c_string_def length_takeWhile_le)
  have "to_lower (take n (c_string l) ! i) = to_lower (take n p ! i)" using e l(2) by (metis length_map nth_map)
  moreover have "c_string l ! i = l ! i" using l(1) by (simp add: c_string_def takeWhile_nth)
  ultimately show ?thesis using assms(2,3) l(1) le by simp
qed

lemma to_lower_blank: "to_lower CHR '' '' = CHR '' ''" and to_lower_slash: "to_lower CHR ''/'' = CHR ''/''"
  and to_lower_colon: "to_lower CHR '':'' = CHR '':''"
  by code_simp+

lemma method_colon:
  "\<forall>j<3. ''GET '' ! j \<noteq> CHR '':''" "\<forall>j<4. ''POST '' ! j \<noteq> CHR '':''"
  "\<forall>j<7. ''OPTIONS '' ! j \<noteq> CHR '':''" "\<forall>j<4. ''HTTP/'' ! j \<noteq> CHR '':''"
  by (simp_all add: numeral_eq_Suc All_less_Suc)

lemma field_not_ignored: "field_ok (k, v) \<Longrightarrow> \<not> ignored_line (k @ '': '' @ v)"
proof
  assume ok: "field_ok (k, v)" and ig: "ignored_line (k @ '': '' @ v)"
  have sp: False if s: "same_nocase (k @ '': '' @ v) p n" and c: "i < n" "n \<le> length p" "CHR 0x00 \<notin> set p"
      "p ! i = CHR '' '' \<or> p ! i = CHR ''/''" "\<forall>j<i. p ! j \<noteq> CHR '':''" for p n i
  proof -
    let ?l = "k @ '': '' @ v"
    have "to_lower (p ! i) = p ! i" using c(4) to_lower_blank to_lower_slash by metis
    then have i: "i < length ?l" "?l ! i = p ! i"
      using same_nocase_char[OF s c(1-3)] to_lower_special c(4) by (simp, metis)
    show False
    proof (cases "i < length k")
      case True
      then have "p ! i \<in> set k" using i(2) by (metis nth_append nth_mem)
      with ok c(4) show False by (auto simp: field_ok_def)
    next
      case False
      then have j: "length k < n" using c(1) by simp
      have "to_lower (?l ! length k) = CHR '':''" by (simp add: nth_append to_lower_colon)
      then have "p ! length k = CHR '':''" using same_nocase_char[OF s j c(2,3)] to_lower_special by metis
      moreover from this have "length k \<noteq> i" using c(4) by auto
      ultimately show False using c(5) False by simp
    qed
  qed
  have "\<not> same_nocase (k @ '': '' @ v) ''GET '' 4" using sp[of "''GET ''" 4 3] method_colon by auto
  moreover have "\<not> same_nocase (k @ '': '' @ v) ''POST '' 5" using sp[of "''POST ''" 5 4] method_colon by auto
  moreover have "\<not> same_nocase (k @ '': '' @ v) ''OPTIONS '' 8" using sp[of "''OPTIONS ''" 8 7] method_colon by auto
  moreover have "\<not> same_nocase (k @ '': '' @ v) ''HTTP/'' 5" using sp[of "''HTTP/''" 5 4] method_colon by auto
  ultimately show False using ig unfolding ignored_line_def by blast
qed

lemma header_of_field: "field_ok (k, v) \<Longrightarrow> header_of (k @ '': '' @ v) m = mm_insert k v m"
proof -
  assume ok: "field_ok (k, v)"
  then have "cut_at CHR '':'' (k @ '': '' @ v) = Some (k, CHR '' '' # v)"
    using cut_at_first[of "CHR '':''" k "CHR '' '' # v"] by (simp add: field_ok_def)
  moreover have "trimmed k"
  proof -
    have "CHR '' '' \<notin> set k" "k \<noteq> []" using ok by (simp_all add: field_ok_def)
    then show ?thesis unfolding trimmed_def by (metis hd_in_set last_in_set)
  qed
  ultimately show ?thesis using ok by (simp add: header_of_def trim_blank trim_trimmed field_ok_def)
qed

definition mm_of :: "http_headers \<Rightarrow> http_headers" where
  "mm_of fs = fold (\<lambda>(k, v). mm_insert k v) fs []"

lemma header_loop_step:
  "getLine s p = Inr (l, q) \<Longrightarrow> l \<noteq> [] \<Longrightarrow> \<not> ignored_line l \<Longrightarrow> q - start < len \<Longrightarrow>
   header_loop s start len p m = header_loop s start len q (header_of l m)"
  by (subst header_loop.simps) simp

lemma header_loop_fields:
  "list_all field_ok fs \<Longrightarrow> length pre + length (header_text fs) - start < len \<Longrightarrow>
   header_loop (pre @ header_text fs @ crlf @ t) start len (length pre) m =
     Inr (fold (\<lambda>(k, v). mm_insert k v) fs m, length pre + length (header_text fs) + 2)"
proof (induction fs arbitrary: pre m)
  case Nil
  then show ?case using getLine_line[of "[]" pre t] by (subst header_loop.simps) simp
next
  case (Cons f fs)
  obtain k v where f: "f = (k, v)" by (cases f)
  let ?l = "k @ '': '' @ v" and ?t = "header_text fs @ crlf @ t"
  let ?pre = "pre @ ?l @ crlf"
  have ok: "field_ok (k, v)" "list_all field_ok fs" using Cons.prems(1) f by simp_all
  have s: "pre @ header_text (f # fs) @ crlf @ t = pre @ ?l @ crlf @ ?t" "pre @ ?l @ crlf @ ?t = ?pre @ header_text fs @ crlf @ t"
    by (simp_all add: f)
  have q: "length pre + length ?l + 2 = length ?pre" by simp
  have clean: "line_clean ?l" using ok(1) by (simp add: field_ok_def line_end_def)
  have g: "getLine (pre @ ?l @ crlf @ ?t) (length pre) = Inr (?l, length ?pre)"
    using getLine_line[OF clean, of pre ?t] by (simp only: q)
  have len: "length ?pre + length (header_text fs) - start < len" using Cons.prems(2) by (simp add: f)
  then have "header_loop (pre @ ?l @ crlf @ ?t) start len (length pre) m =
      header_loop (pre @ ?l @ crlf @ ?t) start len (length ?pre) (header_of ?l m)"
    using field_not_ignored[OF ok(1)] by (intro header_loop_step[OF g]) simp_all
  also have "\<dots> = header_loop (?pre @ header_text fs @ crlf @ t) start len (length ?pre) (mm_insert k v m)"
    by (simp only: s(2) header_of_field[OF ok(1)])
  also have "\<dots> = Inr (fold (\<lambda>(k, v). mm_insert k v) (f # fs) m, length pre + length (header_text (f # fs)) + 2)"
    using Cons.IH[OF ok(2) len] by (simp add: f)
  finally show ?case unfolding s(1) .
qed

lemma c_string_append: "CHR 0x00 \<notin> set a \<Longrightarrow> c_string (a @ b) = a @ c_string b"
  unfolding c_string_def by (rule takeWhile_append2) auto

lemma line_clean_no_null: "line_clean l \<Longrightarrow> CHR 0x00 \<notin> set l"
  by (auto simp: line_clean_def list_all_iff line_end_def)

lemma header_text_no_null: "list_all field_ok fs \<Longrightarrow> CHR 0x00 \<notin> set (header_text fs)"
  by (induction fs) (auto simp: field_ok_def dest!: line_clean_no_null)

lemma parseHeader_fields:
  assumes "list_all field_ok fs"
  shows "parseHeader (pre @ header_text fs @ crlf @ t) (length pre) =
    Inr (mm_of fs, length pre + length (header_text fs) + 2)"
proof -
  have "c_string (header_text fs @ crlf @ t) = header_text fs @ crlf @ c_string t"
    using c_string_append[OF header_text_no_null[OF assms]] c_string_append[of crlf] by simp
  then show ?thesis using header_loop_fields[OF assms] by (simp add: parseHeader_def mm_of_def)
qed

section \<open>The end of the header\<close>

lemma index_str_skip:
  "c \<notin> set a \<Longrightarrow> index_str (c # p) (a @ s) = map_option ((+) (length a)) (index_str (c # p) s)"
  by (induction a) (auto simp: map_option_case split: option.split)

lemma index_str_extend: "index_str p u = Some i \<Longrightarrow> index_str p (u @ w) = Some i"
proof (induction u arbitrary: i)
  case Nil
  then have "p = []" "i = 0" by (auto split: if_splits)
  then show ?case by (cases w) simp_all
next
  case (Cons c u)
  show ?case
  proof (cases "is_prefix p (c # u)")
    case True
    then have "is_prefix p (c # u @ w)" by (metis append.assoc append_Cons is_prefix_iff)
    with True Cons.prems show ?thesis by simp
  next
    case False
    with Cons.prems obtain j where j: "index_str p u = Some j" "i = Suc j" by (auto split: if_splits)
    have "\<not> is_prefix p (c # u @ w)"
    proof
      assume "is_prefix p (c # u @ w)"
      then have "take (length p) (c # u @ w) = p" by (simp only: is_prefix_take)
      moreover have "length p \<le> length u" using index_str_bound[OF j(1)] by simp
      ultimately have "take (length p) (c # u) = p" by (cases "length p") simp_all
      with False show False by (simp only: is_prefix_take)
    qed
    with False j Cons.IH[OF j(1)] show ?thesis by simp
  qed
qed

lemma index_line: "CHR 0x0D \<notin> set l \<Longrightarrow> index_str crlf (l @ crlf @ t) = Some (length l)"
  by (simp add: index_str_skip crlf_def)

definition lines_text :: "string list \<Rightarrow> string" where
  "lines_text ls = concat (List.map (\<lambda>l. l @ crlf) ls)"

lemma lines_text_simps [simp]: "lines_text [] = []" "lines_text (l # ls) = l @ crlf @ lines_text ls"
  by (simp_all add: lines_text_def)

lemma line_clean_no_cr: "line_clean l \<Longrightarrow> CHR 0x0D \<notin> set l"
  by (auto simp: line_clean_def list_all_iff line_end_def)

lemma index_end_of_header:
  "ls \<noteq> [] \<Longrightarrow> list_all (\<lambda>l. line_clean l \<and> l \<noteq> []) ls \<Longrightarrow>
   index_str (crlf @ crlf) (lines_text ls @ crlf @ t) = Some (length (lines_text ls) - 2)"
proof (induction ls)
  case (Cons l ls)
  let ?p = "crlf @ crlf"
  have l: "CHR 0x0D \<notin> set l" "l \<noteq> []" using Cons.prems line_clean_no_cr by auto
  have skip: "index_str ?p (l @ s) = map_option ((+) (length l)) (index_str ?p s)" for s
    using index_str_skip[OF l(1)] by (simp add: crlf_def)
  show ?case
  proof (cases ls)
    case Nil
    then show ?thesis using skip by (simp add: crlf_def)
  next
    case (Cons m ms)
    have m: "m \<noteq> []" "CHR 0x0D \<notin> set m" using Cons.prems \<open>ls = m # ms\<close> line_clean_no_cr by auto
    then obtain c r where cr: "m = c # r" "c \<noteq> CHR 0x0D" by (cases m) auto
    have "index_str ?p (lines_text ls @ crlf @ t) = Some (length (lines_text ls) - 2)"
      using Cons.IH Cons.prems \<open>ls = m # ms\<close> by simp
    then have "index_str ?p (crlf @ lines_text ls @ crlf @ t) = Some (2 + (length (lines_text ls) - 2))"
      using cr \<open>ls = m # ms\<close> by (simp add: crlf_def)
    then have "index_str ?p (lines_text (l # ls) @ crlf @ t) = Some (length l + (2 + (length (lines_text ls) - 2)))"
      using skip[of "crlf @ lines_text ls @ crlf @ t"] by simp
    then show ?thesis using \<open>ls = m # ms\<close> by simp
  qed
qed simp

text \<open>Before the header is complete its end is not found.\<close>

lemma index_incomplete:
  assumes "index_str p s = Some i" "u @ w = s" "length u < i + length p"
  shows "index_str p u = None"
proof (cases "index_str p u")
  case (Some j)
  then have "index_str p s = Some j" using index_str_extend[OF Some, of w] assms(2) by simp
  then show ?thesis using assms(1,3) index_str_bound[OF Some] by simp
qed simp

section \<open>The first line of a response\<close>

lemma digits_value_stop: "s = [] \<or> \<not> is_digit (hd s) \<Longrightarrow> digits_value n s = n"
  by (cases s) auto

lemma signed_part_append: "signed_part (tostr_signed i @ s) = (i < 0, dec (nat \<bar>i\<bar>) @ s)"
proof -
  obtain c r where c: "dec (nat i) = c # r" "is_digit c" using dec_digits[of "nat i"] by (cases "dec (nat i)") auto
  show ?thesis
    using digit_not_special[OF c(2)] by (auto simp: signed_part_def tostr_signed_def c is_space_def)
qed

lemma strtol_stop:
  assumes "- (2 ^ 63) \<le> i" "i < 2 ^ 63" "s = [] \<or> \<not> is_digit (hd s)"
  shows "strtol (tostr_signed i @ s) = i"
  using assms digits_value_append[OF dec_digits(1), of 0 _ s] digits_value_stop[OF assms(3)]
  by (auto simp: strtol_def signed_part_append digits_value_dec Let_def)

lemma strto_int_stop:
  assumes "- (2 ^ 31) \<le> i" "i < 2 ^ 31" "s = [] \<or> \<not> is_digit (hd s)"
  shows "strto_int (tostr_signed i @ s) = i"
  using assms strtol_stop[of i s]
  by (simp add: strto_int_def tostr_signed_nonempty sint_sbintrunc' signed_take_bit_int_eq_self)

definition status_ok :: "string \<Rightarrow> int \<Rightarrow> string \<Rightarrow> bool" where
  "status_ok v st ab \<longleftrightarrow>
     line_clean v \<and> v \<noteq> [] \<and> set v \<inter> set blanks = {} \<and>
     line_clean ab \<and> (ab = [] \<or> hd ab \<notin> set blanks \<and> last ab \<notin> set blanks) \<and>
     - (2 ^ 31) \<le> st \<and> st < 2 ^ 31 \<and> length (tostr_signed st) \<le> length v"

definition status_text :: "string \<Rightarrow> int \<Rightarrow> string \<Rightarrow> string" where
  "status_text v st ab = v @ '' '' @ tostr_signed st @ (if ab = [] then [] else '' '' @ ab)"

lemma tostr_signed_clean:
  "set (tostr_signed i) \<inter> set blanks = {}" "line_clean (tostr_signed i)" "CHR '' '' \<notin> set (tostr_signed i)"
proof -
  have d: "is_digit c" if "c \<in> set (dec n)" for c n using dec_digits(1)[of n] that by (simp add: list_all_iff)
  have b: "c \<notin> set blanks \<and> \<not> line_end c \<and> c \<noteq> CHR '' ''" if "is_digit c" for c
    using that by (auto simp: is_digit_def blanks_def line_end_def less_eq_char_def)
  have c: "c \<notin> set blanks \<and> \<not> line_end c \<and> c \<noteq> CHR '' ''" if "c \<in> set (tostr_signed i)" for c
    using that b[OF d] by (auto simp: tostr_signed_def blanks_def line_end_def split: if_splits)
  show "set (tostr_signed i) \<inter> set blanks = {}" "CHR '' '' \<notin> set (tostr_signed i)" using c by blast+
  show "line_clean (tostr_signed i)" using c by (simp add: line_clean_def list_all_iff)
qed

lemma parse_status:
  assumes "status_ok v st ab" "list_all field_ok fs"
  shows "parseResponseHeader (status_text v st ab @ crlf @ header_text fs @ crlf @ t) r =
    Inr (r\<lparr>headerLine := status_text v st ab, version := v, status := st, about := ab, headers := mm_of fs\<rparr>)"
proof -
  note ok = assms(1)[unfolded status_ok_def]
  let ?l = "status_text v st ab" and ?st = "tostr_signed st" and ?ab = "if ab = [] then [] else '' '' @ ab"
  let ?s = "?l @ crlf @ header_text fs @ crlf @ t"
  have clean: "line_clean ?l" using ok tostr_signed_clean(2) by (auto simp: status_text_def line_end_def)
  have ends: "?st \<noteq> []" "hd ?st \<notin> set blanks" "last ?st \<notin> set blanks"
    using tostr_signed_nonempty[of st] tostr_signed_clean(1)[of st] hd_in_set[of ?st] last_in_set[of ?st] by blast+
  have vb: "v \<noteq> []" "set v \<inter> set blanks = {}" "CHR '' '' \<in> set blanks" using ok by (simp_all add: blanks_def)
  then have v: "hd v \<notin> set blanks" "CHR '' '' \<notin> set v" using hd_in_set[of v] by blast+
  have line: "trim ?l blanks True = ?l"
    using ok ends v(1) by (intro trim_blank_free) (auto simp: status_text_def)
  have first: "find_char ?l CHR '' '' 0 = Some (length v)"
    using find_char_first[OF v(2), of "?st @ ?ab"] by (simp add: status_text_def)
  have left: "trim (drop (length v) ?l) blanks True = ?st @ ?ab"
  proof -
    have "trim (CHR '' '' # ?st @ ?ab) blanks True = trim (?st @ ?ab) blanks True"
      using ends(1) by (simp add: trim_def trimleft_def blanks_def)
    also have "\<dots> = ?st @ ?ab" using ok ends by (intro trim_blank_free) auto
    finally show ?thesis by (simp add: status_text_def)
  qed
  have rest: "getLine ?s 0 = Inr (?l, length ?l + 2)" using getLine_line[OF clean, of "[]"] by simp
  have head: "parseHeader ?s (length ?l + 2) = Inr (mm_of fs, length ?l + 2 + length (header_text fs) + 2)"
    using parseHeader_fields[OF assms(2), of "?l @ crlf" t] by simp
  have vl: "take (length v) ?l = v" by (simp add: status_text_def)
  have step: "parseResponseHeader ?s r =
      (let r = r\<lparr>headerLine := ?l, version := v\<rparr>; left = trim (drop (length v) ?l) blanks True;
           r = (case find_char left CHR '' '' 0 of
                  Some pos1 \<Rightarrow> r\<lparr>status := strto_int (take (length v) left), about := trim (drop (pos1 + 1) left) blanks True\<rparr>
                | None \<Rightarrow> r\<lparr>status := strto_int left, about := []\<rparr>)
       in Inr (r\<lparr>headers := mm_of fs\<rparr>))"
    by (simp add: parseResponseHeader_def rest line first head vl Let_def del: bindE_Inr_iff add_2_eq_Suc' split: option.split)
  show ?thesis
  proof (cases "ab = []")
    case True
    have "find_char ?st CHR '' '' 0 = None" using tostr_signed_clean(3) by (rule find_char_none)
    moreover have "strto_int ?st = st" using ok by (intro strto_int_tostr) auto
    ultimately show ?thesis unfolding step using True left by (simp add: Let_def)
  next
    case False
    then have left': "trim (drop (length v) ?l) blanks True = ?st @ CHR '' '' # ab" using left by simp
    have f: "find_char (?st @ CHR '' '' # ab) CHR '' '' 0 = Some (length ?st)" using tostr_signed_clean(3) by (rule find_char_first)
    have "take (length v) (?st @ CHR '' '' # ab) = ?st @ take (length v - length ?st) (CHR '' '' # ab)" using ok by simp
    moreover have "strto_int (?st @ take (length v - length ?st) (CHR '' '' # ab)) = st" using ok
      by (intro strto_int_stop) (auto simp: take_Cons' is_digit_def less_eq_char_def)
    ultimately have s: "strto_int (take (length v) (?st @ CHR '' '' # ab)) = st" by simp
    have "trim ab blanks True = ab" using ok False by (intro trim_blank_free) auto
    then show ?thesis unfolding step by (simp add: left' f s Let_def del: take_append)
  qed
qed

text \<open>The status is cut at the position of the blank behind the version: a short version cuts it.\<close>

lemma status_cut_by_version:
  "(case parseResponseHeader (''V 200 OK'' @ crlf @ crlf) HttpResponse of Inr r \<Rightarrow> status r | Inl _ \<Rightarrow> 0) = 2"
  by (simp add: parseResponseHeader_def getLine_def line_end_def trim_def trimleft_def trimright_def blanks_def
    find_char_def find_if_from_def HttpResponse_def response_reset_def http_reset_def parseHeader_def header_loop.simps
    crlf_def c_string_def strto_int_def strtol_def signed_part_def is_space_def is_digit_def less_eq_char_def Let_def)

section \<open>The body\<close>

lemma headers_update:
  "mm_erase k (mm_erase k' m) = mm_erase k' (mm_erase k m)"
  by (simp add: mm_erase_def conj_commute)

lemma mm_erase_insert: "upper k = upper k' \<Longrightarrow> mm_erase k (mm_insert k' v m) = mm_erase k m"
  by (induction k' v m rule: mm_insert.induct) (auto simp: mm_erase_def)

lemma mm_erase_twice: "mm_erase k (mm_erase k m) = mm_erase k m"
  by (simp add: mm_erase_def)

lemma content_length_again:
  "setContentLength n (setContentLength k h) = setContentLength n h"
  "content (setContentLength n h) = content h"
  "setContentLength n (setContentLength k h\<lparr>content := c\<rparr>) = setContentLength n (h\<lparr>content := c\<rparr>)"
  by (simp_all add: setContentLength_def setHeader_def eraseHeader_def mm_erase_insert mm_erase_twice Let_def
    upper_def to_upper_def less_eq_char_def)

text \<open>A body of known length: complete when that many bytes have come.\<close>

lemma receive_sized:
  "headLength r \<noteq> 0 \<Longrightarrow> \<not> bIsChunked r \<Longrightarrow> iTmpContentLength r = n \<Longrightarrow> 0 < n \<Longrightarrow> n < no_length \<Longrightarrow>
   length (content r) < n \<Longrightarrow> length (content r @ concat ps) \<le> n \<Longrightarrow>
   receive ps [] r =
     Inr (if length (content r @ concat ps) = n then Some (r\<lparr>content := content r @ concat ps\<rparr>) else None)"
proof (induction ps arbitrary: r)
  case (Cons p ps)
  let ?r = "r\<lparr>content := content r @ p\<rparr>"
  have d: "incrementDecode p r = Inr (n \<le> length (content r @ p), [], ?r)"
    using Cons.prems by (auto simp: incrementDecode_def decode_body_def Let_def)
  show ?case
  proof (cases "n \<le> length (content r @ p)")
    case True
    then have "length (concat ps) = 0" "length (content r @ p) = n"
      using Cons.prems(7) unfolding length_append concat.simps by linarith+
    then have "concat ps = []" "length (content r @ p) = n" by (simp_all only: length_0_conv)
    then have "concat (p # ps) = p" "length (content r @ p) = n" by (simp_all only: concat.simps append_Nil2)
    then show ?thesis using True d by (simp del: concat.simps)
  next
    case False
    then have "receive ps [] ?r =
        Inr (if length (content ?r @ concat ps) = n then Some (?r\<lparr>content := content ?r @ concat ps\<rparr>) else None)"
      using Cons.prems by (intro Cons.IH) simp_all
    then show ?thesis using False d by simp
  qed
qed simp

text \<open>
  A body in chunks: each with a line that starts with its size, the last of size zero, and an
  empty line behind it all.
\<close>

type_synonym chunks = "(string \<times> string) list"

fun chunked_text :: "chunks \<Rightarrow> string \<Rightarrow> string" where
  "chunked_text [] l = l @ crlf @ crlf"
| "chunked_text ((t, d) # cs) l = t @ crlf @ d @ crlf @ chunked_text cs l"

fun add_chunks :: "chunks \<Rightarrow> 'a http_scheme \<Rightarrow> 'a http_scheme" where
  "add_chunks [] r = r"
| "add_chunks ((t, d) # cs) r =
     add_chunks cs (setContentLength (length (content r @ d)) (r\<lparr>content := content r @ d\<rparr>))"

definition chunks_ok :: "chunks \<Rightarrow> string \<Rightarrow> bool" where
  "chunks_ok cs l \<longleftrightarrow>
     list_all (\<lambda>(t, d). line_clean t \<and> d \<noteq> [] \<and> chunk_size t = int (length d)) cs \<and> line_clean l \<and> chunk_size l \<le> 0"

lemma chunk_loop_step:
  assumes "line_clean t" "d \<noteq> []" "chunk_size t = int (length d)"
  shows "chunk_loop (t @ crlf @ d @ crlf @ s) r =
    chunk_loop s (setContentLength (length (content r @ d)) (r\<lparr>content := content r @ d\<rparr>))"
proof -
  have f: "find_str (t @ crlf @ d @ crlf @ s) crlf 0 = Some (length t)"
    using index_line[OF line_clean_no_cr[OF assms(1)]] by (simp add: find_str_def)
  have "\<not> chunk_size t \<le> 0" using assms(2,3) by simp
  then show ?thesis
    by (subst chunk_loop.simps) (simp add: f assms(3) Let_def)
qed

lemma chunk_loop_last:
  assumes "line_clean l" "chunk_size l \<le> 0"
  shows "chunk_loop (l @ crlf @ s) r = (True, l @ crlf @ s, r)"
proof -
  have "find_str (l @ crlf @ s) crlf 0 = Some (length l)"
    using index_line[OF line_clean_no_cr[OF assms(1)]] by (simp add: find_str_def)
  then show ?thesis using assms(2) by (subst chunk_loop.simps) simp
qed

lemma find_line_prefix:
  assumes "line_clean t" "u @ w = t @ crlf @ s"
  shows "find_str u crlf 0 = (if length t + 2 \<le> length u then Some (length t) else None)"
proof (cases "length t + 2 \<le> length u")
  case True
  then have "u = t @ crlf @ drop (length t + 2) u"
    using arg_cong[OF assms(2), of "take (length t + 2)"] append_take_drop_id[of "length t + 2" u] by simp
  then have "index_str crlf u = Some (length t)" using index_line[OF line_clean_no_cr[OF assms(1)]] by metis
  with True show ?thesis by (simp add: find_str_def)
next
  case False
  then have "index_str crlf u = None"
    using index_incomplete[OF index_line[OF line_clean_no_cr[OF assms(1)]] assms(2)] by simp
  with False show ?thesis by (simp add: find_str_def)
qed

lemma chunk_loop_wait:
  assumes "line_clean t" "d \<noteq> []" "chunk_size t = int (length d)" "u @ w = t @ crlf @ d @ crlf @ s"
    "length u < length t + 2 + length d + 2"
  shows "chunk_loop u r = (False, u, r)"
proof -
  have "take (length t) u = t" if "length t + 2 \<le> length u"
    using arg_cong[OF assms(4), of "take (length t)"] that by simp
  moreover have "\<not> chunk_size t \<le> 0" using assms(2,3) by simp
  ultimately show ?thesis using assms(3,5)
    by (subst chunk_loop.simps) (auto simp: find_line_prefix[OF assms(1,4)] Let_def)
qed

lemma prefix_split:
  assumes "u @ w = a @ s" "length a \<le> length u"
  obtains v where "u = a @ v" "v @ w = s"
proof
  show "u = a @ drop (length a) u"
    using arg_cong[OF assms(1), of "take (length a)"] assms(2) append_take_drop_id[of "length a" u] by simp
  show "drop (length a) u @ w = s" using arg_cong[OF assms(1), of "drop (length a)"] assms(2) by simp
qed

lemma chunked_text_long: "4 \<le> length (chunked_text cs l)"
  by (induction cs l rule: chunked_text.induct) simp_all

text \<open>
  What has come is decoded chunk by chunk; the rest is again a prefix of the chunks to come. The
  loop ends at the line of the last chunk, the two bytes of the empty line before the end.
\<close>

lemma chunk_loop_prefix:
  "chunks_ok cs l \<Longrightarrow> u @ w = chunked_text cs l \<Longrightarrow>
   \<exists>ds es v. cs = ds @ es \<and> chunk_loop u r = (length w \<le> 2, v, add_chunks ds r) \<and> (length w \<le> 2 \<longrightarrow> es = []) \<and>
     (2 < length w \<longrightarrow> v @ w = chunked_text es l)"
proof (induction cs arbitrary: u r)
  case Nil
  then have l: "line_clean l" "chunk_size l \<le> 0" "u @ w = l @ crlf @ crlf" by (simp_all add: chunks_ok_def)
  have len: "length u + length w = length l + 4" using arg_cong[OF l(3), of length] by simp
  show ?case
  proof (cases "length w \<le> 2")
    case True
    then obtain v where "u = (l @ crlf) @ v"
      using prefix_split[of u w "l @ crlf" crlf] l(3) len by auto
    then have "chunk_loop u r = (True, u, r)" using chunk_loop_last[OF l(1,2), of v r] by simp
    then show ?thesis using True by (intro exI[of _ "[]"] exI[of _ u]) simp
  next
    case False
    then have "\<not> length l + 2 \<le> length u" using len by simp
    then have "chunk_loop u r = (False, u, r)"
      using find_line_prefix[OF l(1,3)] by (subst chunk_loop.simps) simp
    then show ?thesis using False Nil(2) by (intro exI[of _ "[]"] exI[of _ u]) simp
  qed
next
  case (Cons c cs)
  obtain t d where c: "c = (t, d)" by (cases c)
  have ok: "line_clean t" "d \<noteq> []" "chunk_size t = int (length d)" "chunks_ok cs l"
    using Cons.prems(1) c by (simp_all add: chunks_ok_def)
  have u: "u @ w = t @ crlf @ d @ crlf @ chunked_text cs l" using Cons.prems(2) c by simp
  show ?case
  proof (cases "length u < length t + 2 + length d + 2")
    case True
    have "2 < length w" using True arg_cong[OF u, of length] chunked_text_long[of cs l] by simp
    moreover have "chunk_loop u r = (False, u, r)" by (rule chunk_loop_wait[OF ok(1-3) u True])
    ultimately show ?thesis using Cons.prems(2) by (intro exI[of _ "[]"] exI[of _ "c # cs"] exI[of _ u]) simp
  next
    case False
    then obtain v where v: "u = (t @ crlf @ d @ crlf) @ v" "v @ w = chunked_text cs l"
      using prefix_split[of u w "t @ crlf @ d @ crlf" "chunked_text cs l"] u by auto
    let ?r = "setContentLength (length (content r @ d)) (r\<lparr>content := content r @ d\<rparr>)"
    have "chunk_loop u r = chunk_loop v ?r" using chunk_loop_step[OF ok(1-3), of v r] v(1) by simp
    moreover obtain ds es x where "cs = ds @ es" "chunk_loop v ?r = (length w \<le> 2, x, add_chunks ds ?r)"
      "length w \<le> 2 \<longrightarrow> es = []" "2 < length w \<longrightarrow> x @ w = chunked_text es l"
      using Cons.IH[OF ok(4) v(2)] by blast
    ultimately show ?thesis using c
      by (intro exI[of _ "c # ds"] exI[of _ es] exI[of _ x]) simp
  qed
qed

lemma add_chunks_fields:
  "content (add_chunks cs r) = content r @ concat (List.map snd cs)" "headLength (add_chunks cs r) = headLength r"
  "bIsChunked (add_chunks cs r) = bIsChunked r"
  by (induction cs r rule: add_chunks.induct) (simp_all add: setContentLength_def setHeader_def eraseHeader_def Let_def)

lemma add_chunks_length: "iTmpContentLength (add_chunks cs r) = iTmpContentLength r"
  by (induction cs r rule: add_chunks.induct) (simp_all add: setContentLength_def setHeader_def eraseHeader_def Let_def)

lemma add_chunks_append: "add_chunks (ds @ es) r = add_chunks es (add_chunks ds r)"
  by (induction ds r rule: add_chunks.induct) simp_all

lemma chunks_ok_append: "chunks_ok (ds @ es) l \<Longrightarrow> chunks_ok es l"
  by (simp add: chunks_ok_def)

lemma receive_chunked:
  "headLength r \<noteq> 0 \<Longrightarrow> bIsChunked r \<Longrightarrow> iTmpContentLength r = no_length \<Longrightarrow> chunks_ok cs l \<Longrightarrow>
   b @ concat ps @ w = chunked_text cs l \<Longrightarrow> 2 < length (concat ps @ w) \<Longrightarrow>
   receive ps b r =
     Inr (if length w \<le> 2
          then Some (setContentLength (length (content r @ concat (List.map snd cs))) (add_chunks cs r))
          else None)"
proof (induction ps arbitrary: b r cs)
  case Nil
  then show ?case by auto
next
  case (Cons p ps)
  let ?w = "concat ps @ w"
  have "(b @ p) @ ?w = chunked_text cs l" using Cons.prems(5) by simp
  from chunk_loop_prefix[OF Cons.prems(4) this, of r]
  obtain ds es v where d: "cs = ds @ es" "chunk_loop (b @ p) r = (length ?w \<le> 2, v, add_chunks ds r)"
    "length ?w \<le> 2 \<longrightarrow> es = []" "2 < length ?w \<longrightarrow> v @ ?w = chunked_text es l" by blast
  show ?case
  proof (cases "length ?w \<le> 2")
    case True
    then have "decode_body (b @ p) r = (True, [], setContentLength (length (content (add_chunks cs r))) (add_chunks cs r))"
      using d Cons.prems(2,3) by (auto simp: decode_body_def add_chunks_fields add_chunks_length)
    then show ?thesis using Cons.prems(1) True by (simp add: incrementDecode_def add_chunks_fields)
  next
    case False
    then have "chunk_loop (b @ p) r = (False, v, add_chunks ds r)" using d(2) by (simp only:)
    then have dec: "decode_body (b @ p) r = (False, v, add_chunks ds r)" using Cons.prems(2) by (simp add: decode_body_def)
    have "receive ps v (add_chunks ds r) =
        Inr (if length w \<le> 2 then Some (setContentLength (length (content (add_chunks ds r) @ concat (List.map snd es)))
               (add_chunks es (add_chunks ds r))) else None)"
    proof (rule Cons.IH)
      show "v @ concat ps @ w = chunked_text es l" "2 < length (concat ps @ w)" using False d(4) by simp_all
    qed (use Cons.prems d(1) chunks_ok_append in \<open>simp_all add: add_chunks_fields add_chunks_length\<close>)
    then show ?thesis using Cons.prems(1) dec d(1)
      by (simp add: incrementDecode_def add_chunks_append add_chunks_fields)
  qed
qed

section \<open>A response in pieces\<close>

datatype body =
    Sized string
  | Chunked chunks string

fun body_text :: "body \<Rightarrow> string" where
  "body_text (Sized d) = d"
| "body_text (Chunked cs l) = chunked_text cs l"

fun body_content :: "body \<Rightarrow> string" where
  "body_content (Sized d) = d"
| "body_content (Chunked cs l) = concat (List.map snd cs)"

definition header_value :: "http_headers \<Rightarrow> string \<Rightarrow> string" where
  "header_value fs k = (case mm_find k (mm_of fs) of None \<Rightarrow> [] | Some v \<Rightarrow> v)"

text \<open>
  The header fields that announce the body: its length, or that it comes in chunks. (A body
  that ends with the connection is never complete before that.)
\<close>

fun body_ok :: "http_headers \<Rightarrow> body \<Rightarrow> bool" where
  "body_ok fs (Sized d) \<longleftrightarrow>
     mm_find ''Content-Length'' (mm_of fs) \<noteq> None \<and>
     strto_ulong (header_value fs ''Content-Length'') = length d \<and> length d < no_length \<and>
     header_value fs ''Content-Length'' \<noteq> [] \<and> header_value fs ''Transfer-Encoding'' \<noteq> ''chunked''"
| "body_ok fs (Chunked cs l) \<longleftrightarrow>
     chunks_ok cs l \<and> mm_find ''Content-Length'' (mm_of fs) = None \<and>
     header_value fs ''Transfer-Encoding'' = ''chunked''"

definition head_text :: "string \<Rightarrow> int \<Rightarrow> string \<Rightarrow> http_headers \<Rightarrow> string" where
  "head_text v st ab fs = status_text v st ab @ crlf @ header_text fs @ crlf"

text \<open>The response behind its header.\<close>

definition after_head :: "string \<Rightarrow> int \<Rightarrow> string \<Rightarrow> http_headers \<Rightarrow> body \<Rightarrow> http_response" where
  "after_head v st ab fs b =
     \<lparr>headers = mm_erase ''Transfer-Encoding'' (mm_of fs), headLength = length (head_text v st ab fs), content = [],
      bIsChunked = (case b of Sized d \<Rightarrow> False | Chunked cs l \<Rightarrow> True), status = st, about = ab, version = v,
      headerLine = status_text v st ab,
      iTmpContentLength = (case b of Sized d \<Rightarrow> length d | Chunked cs l \<Rightarrow> no_length)\<rparr>"

text \<open>
  The whole response; the length of a body that is empty or came in chunks is put into the
  header.
\<close>

definition whole_response :: "string \<Rightarrow> int \<Rightarrow> string \<Rightarrow> http_headers \<Rightarrow> body \<Rightarrow> http_response" where
  "whole_response v st ab fs b =
     (let r = after_head v st ab fs b\<lparr>content := body_content b\<rparr> in
      case b of
        Sized d \<Rightarrow> if d = [] then setContentLength 0 r else r
      | Chunked cs l \<Rightarrow> setContentLength (length (body_content b)) r)"

text \<open>A redirection is complete with its header: the body is left, and so is the transfer encoding.\<close>

definition redirects :: "int \<Rightarrow> http_headers \<Rightarrow> bool" where
  "redirects st fs \<longleftrightarrow> st \<in> {301, 302} \<and> header_value fs ''Location'' \<noteq> []"

definition redirect_response :: "string \<Rightarrow> int \<Rightarrow> string \<Rightarrow> http_headers \<Rightarrow> body \<Rightarrow> http_response" where
  "redirect_response v st ab fs b = after_head v st ab fs b\<lparr>headers := mm_of fs, bIsChunked := False\<rparr>"

text \<open>
  What is reported of a response when the bytes \<open>w\<close> are still to come: nothing ever for the status
  204, a redirection with its header, any other response with its body, but the empty line
  behind the chunks is not waited for.
\<close>

definition reported :: "string \<Rightarrow> int \<Rightarrow> string \<Rightarrow> http_headers \<Rightarrow> body \<Rightarrow> string \<Rightarrow> http_response option" where
  "reported v st ab fs b w =
     (if st = 204 then None
      else if redirects st fs
      then if length w \<le> length (body_text b) then Some (redirect_response v st ab fs b) else None
      else if length w \<le> (case b of Sized d \<Rightarrow> 0 | Chunked cs l \<Rightarrow> 2) then Some (whole_response v st ab fs b) else None)"

lemma add_chunks_whole:
  "setContentLength (length (content r @ concat (List.map snd cs))) (add_chunks cs r) =
   setContentLength (length (content r @ concat (List.map snd cs))) (r\<lparr>content := content r @ concat (List.map snd cs)\<rparr>)"
proof (induction cs r rule: add_chunks.induct)
  case (2 t d cs r)
  then show ?case by (simp add: content_length_again)
qed simp

definition response_ok :: "string \<Rightarrow> int \<Rightarrow> string \<Rightarrow> http_headers \<Rightarrow> body \<Rightarrow> bool" where
  "response_ok v st ab fs b \<longleftrightarrow>
     status_ok v st ab \<and> list_all field_ok fs \<and> body_ok fs b"

lemma field_line: "field_ok (k, v) \<Longrightarrow> line_clean (k @ '': '' @ v) \<and> k @ '': '' @ v \<noteq> []"
  by (simp add: field_ok_def line_end_def)

lemma status_line_clean: "status_ok v st ab \<Longrightarrow> line_clean (status_text v st ab) \<and> status_text v st ab \<noteq> []"
  using tostr_signed_clean(2)[of st] by (auto simp: status_ok_def status_text_def line_end_def)

lemma head_end:
  assumes "status_ok v st ab" "list_all field_ok fs"
  shows "index_str (crlf @ crlf) (head_text v st ab fs @ t) = Some (length (head_text v st ab fs) - 4)"
proof -
  let ?ls = "status_text v st ab # List.map (\<lambda>(k, v). k @ '': '' @ v) fs"
  have "lines_text (List.map (\<lambda>(k, v). k @ '': '' @ v) fs) = header_text fs" by (induction fs) auto
  then have "head_text v st ab fs @ t = lines_text ?ls @ crlf @ t" by (simp add: head_text_def)
  moreover have "list_all (\<lambda>l. line_clean l \<and> l \<noteq> []) ?ls"
    using assms status_line_clean field_line by (fastforce simp: list_all_iff)
  ultimately show ?thesis using index_end_of_header[of ?ls t] by (simp add: head_text_def)
qed

lemma decode_incomplete:
  assumes "status_ok v st ab" "list_all field_ok fs" "headLength r = 0"
    "b @ w = head_text v st ab fs @ t" "length b < length (head_text v st ab fs)"
  shows "incrementDecode b r = Inr (False, b, r)"
proof -
  have "4 \<le> length (head_text v st ab fs)" by (simp add: head_text_def)
  then have "index_str (crlf @ crlf) b = None"
    using index_incomplete[OF head_end[OF assms(1,2), of t] assms(4)] assms(5) by simp
  then show ?thesis using assms(3) by (simp add: incrementDecode_def find_str_def)
qed

text \<open>What \<open>incrementDecode\<close> does when the header has come, for the three kinds of responses.\<close>

lemma decode_head:
  assumes "response_ok v st ab fs b" "st \<noteq> 204"
  shows "incrementDecode (head_text v st ab fs @ t) HttpResponse =
    Inr (if redirects st fs then (True, t, redirect_response v st ab fs b) else decode_body t (after_head v st ab fs b))"
proof -
  note ok = assms(1)[unfolded response_ok_def]
  let ?h = "head_text v st ab fs" and ?s = "head_text v st ab fs @ t"
  let ?r = "HttpResponse\<lparr>headerLine := status_text v st ab, version := v, status := st, about := ab, headers := mm_of fs\<rparr>"
  have len: "4 \<le> length ?h" by (simp add: head_text_def)
  have find: "find_str ?s (crlf @ crlf) 0 = Some (length ?h - 4)"
    using head_end ok by (simp add: find_str_def)
  have parse: "parseResponseHeader ?s HttpResponse = Inr ?r"
    using parse_status[of v st ab fs t HttpResponse] ok by (simp add: head_text_def)
  let ?n = "case b of Sized d \<Rightarrow> length d | Chunked cs l \<Rightarrow> no_length" and ?c = "case b of Sized d \<Rightarrow> False | Chunked cs l \<Rightarrow> True"
  let ?r2 = "?r\<lparr>iTmpContentLength := ?n, headLength := length ?h\<rparr>"
  have tmp: "(if mm_find ''Content-Length'' (headers ?r) \<noteq> None then getContentLength ?r else no_length) = ?n"
    using ok by (cases b) (auto simp: getContentLength_def getHeader_def header_value_def Let_def)
  have chunked: "(getHeader ''Transfer-Encoding'' ?r2 = ''chunked'') = ?c"
    using ok by (cases b) (simp_all add: getHeader_def header_value_def)
  have final: "eraseHeader ''Transfer-Encoding'' (?r2\<lparr>bIsChunked := ?c\<rparr>) = after_head v st ab fs b"
    by (simp add: eraseHeader_def after_head_def HttpResponse_def response_reset_def http_reset_def)
  have redirect: "?r2 = redirect_response v st ab fs b"
    by (simp add: redirect_response_def after_head_def HttpResponse_def response_reset_def http_reset_def)
  have location: "getHeader ''Location'' ?r2 = header_value fs ''Location''"
    by (simp add: getHeader_def header_value_def)
  have l: "length ?h - 4 + 4 = length ?h" using len by simp
  have "headLength HttpResponse = 0" by (simp add: HttpResponse_def response_reset_def http_reset_def)
  moreover have "status ?r = st" "st \<noteq> 204" using assms(2) by simp_all
  moreover have "drop (length ?h) ?s = t" by simp
  ultimately have "incrementDecode ?s HttpResponse =
      Inr (if redirects st fs then (True, t, ?r2) else decode_body t (eraseHeader ''Transfer-Encoding'' (?r2\<lparr>bIsChunked := ?c\<rparr>)))"
    unfolding incrementDecode_def find parse option.case bindE_simps tmp Let_def l
    using chunked location by (simp add: redirects_def)
  then show ?thesis unfolding final unfolding redirect .
qed

lemma decode_no_content:
  assumes "status_ok v 204 ab" "list_all field_ok fs" "headLength r = 0" "b @ w = head_text v 204 ab fs @ t"
  shows "\<exists>r'. incrementDecode b r = Inr (False, b, r') \<and> headLength r' = 0"
proof (cases "length b < length (head_text v 204 ab fs)")
  case True
  then show ?thesis using decode_incomplete[OF assms] assms(3) by auto
next
  case False
  then obtain x where x: "b = head_text v 204 ab fs @ x" using prefix_split[OF assms(4)] by auto
  have "find_str b (crlf @ crlf) 0 \<noteq> None" using head_end[OF assms(1,2), of x] by (simp add: x find_str_def)
  moreover have "parseResponseHeader b r =
      Inr (r\<lparr>headerLine := status_text v 204 ab, version := v, status := 204, about := ab, headers := mm_of fs\<rparr>)"
    using parse_status[OF assms(1,2), of x r] by (simp add: x head_text_def)
  ultimately show ?thesis using assms(3) by (auto simp: incrementDecode_def)
qed

lemma receive_no_content:
  "status_ok v 204 ab \<Longrightarrow> list_all field_ok fs \<Longrightarrow> headLength r = 0 \<Longrightarrow>
   c @ concat ps @ w = head_text v 204 ab fs @ t \<Longrightarrow> receive ps c r = Inr None"
proof (induction ps arbitrary: c r)
  case (Cons p ps)
  have pre: "(c @ p) @ concat ps @ w = head_text v 204 ab fs @ t" using Cons.prems(4) by simp
  then obtain r' where "incrementDecode (c @ p) r = Inr (False, c @ p, r')" "headLength r' = 0"
    using decode_no_content[OF Cons.prems(1-3) pre] by blast
  then show ?case using Cons.IH[OF Cons.prems(1,2) _ pre] by simp
qed simp

lemma receive_head:
  "status_ok v st ab \<Longrightarrow> list_all field_ok fs \<Longrightarrow> c @ concat ps @ w = head_text v st ab fs @ t \<Longrightarrow>
   length c < length (head_text v st ab fs) \<Longrightarrow>
   if length (c @ concat ps) < length (head_text v st ab fs) then receive ps c HttpResponse = Inr None
   else \<exists>x qs. receive ps c HttpResponse = receive ((head_text v st ab fs @ x) # qs) [] HttpResponse \<and> x @ concat qs @ w = t"
proof (induction ps arbitrary: c)
  case (Cons p ps)
  let ?h = "head_text v st ab fs"
  have pre: "(c @ p) @ concat ps @ w = ?h @ t" using Cons.prems(3) by simp
  have h: "headLength HttpResponse = 0" by (simp add: HttpResponse_def response_reset_def http_reset_def)
  show ?case
  proof (cases "length (c @ p) < length ?h")
    case True
    then have "incrementDecode (c @ p) HttpResponse = Inr (False, c @ p, HttpResponse)"
      using decode_incomplete[OF Cons.prems(1,2) h pre] by simp
    then have "receive (p # ps) c HttpResponse = receive ps (c @ p) HttpResponse"
      "length (c @ concat (p # ps)) = length ((c @ p) @ concat ps)" by simp_all
    then show ?thesis using Cons.IH[OF Cons.prems(1,2) pre True] by (simp only:)
  next
    case False
    then obtain x where x: "c @ p = ?h @ x" "x @ concat ps @ w = t" using prefix_split[OF pre] by auto
    have "receive (p # ps) c HttpResponse = receive ((?h @ x) # ps) [] HttpResponse" by (simp add: x(1))
    then have "\<exists>x qs. receive (p # ps) c HttpResponse = receive ((?h @ x) # qs) [] HttpResponse \<and> x @ concat qs @ w = t"
      using x(2) by blast
    moreover have "\<not> length (c @ concat (p # ps)) < length ?h" using False by simp
    ultimately show ?thesis by (simp only: if_False)
  qed
qed simp

text \<open>What follows the header is received as the body.\<close>

lemma receive_body:
  assumes "response_ok v st ab fs b" "concat (x # qs) @ w = body_text b"
  shows "receive (x # qs) [] (after_head v st ab fs b) =
    Inr (if length w \<le> (case b of Sized d \<Rightarrow> 0 | Chunked cs l \<Rightarrow> 2) then Some (whole_response v st ab fs b) else None)"
proof -
  let ?r = "after_head v st ab fs b"
  have h: "headLength ?r \<noteq> 0" "content ?r = []" by (simp_all add: head_text_def after_head_def)
  show ?thesis
  proof (cases b)
    case (Sized d)
    have e: "concat (x # qs) @ w = d" using assms(2) Sized by simp
    show ?thesis
    proof (cases "d = []")
      case True
      then have "x = []" "w = []" using e by simp_all
      then show ?thesis using Sized True h
        by (simp add: incrementDecode_def decode_body_def after_head_def whole_response_def Let_def)
    next
      case False
      have n: "0 < length d" "length d < no_length" using False assms(1) Sized by (auto simp: response_ok_def)
      have "length (concat (x # qs)) + length w = length d" using arg_cong[OF e, of length] by (simp only: length_append)
      then have le: "length (concat (x # qs)) \<le> length d" "length (concat (x # qs)) = length d \<longleftrightarrow> length w \<le> 0" by auto
      have rec: "receive (x # qs) [] ?r = Inr (if length (content ?r @ concat (x # qs)) = length d
          then Some (?r\<lparr>content := content ?r @ concat (x # qs)\<rparr>) else None)"
        by (rule receive_sized) (use Sized n le(1) h in \<open>simp_all add: after_head_def\<close>)
      have "whole_response v st ab fs b = ?r\<lparr>content := d\<rparr>" "(case b of Sized d \<Rightarrow> 0 | Chunked cs l \<Rightarrow> 2) = (0 :: nat)"
        using Sized False by (simp_all add: whole_response_def)
      moreover have "concat (x # qs) = d" if "length w \<le> 0" using e that by simp
      ultimately show ?thesis unfolding rec h(2) append_Nil le(2) by (cases "length w \<le> 0") (simp_all only: if_True if_False)
    qed
  next
    case (Chunked cs l)
    have ok: "chunks_ok cs l" using assms(1) Chunked by (simp add: response_ok_def)
    have t: "concat (x # qs) @ w = chunked_text cs l" using assms(2) Chunked by simp
    have "2 < length (chunked_text cs l)" using chunked_text_long[of cs l] by simp
    then have "2 < length (concat (x # qs) @ w)" unfolding t .
    then have rec: "receive (x # qs) [] ?r = Inr (if length w \<le> 2 then Some (setContentLength
        (length (content ?r @ concat (List.map snd cs))) (add_chunks cs ?r)) else None)"
      using Chunked t h(1) by (intro receive_chunked[OF _ _ _ ok]) (simp_all only: append_Nil, simp_all add: after_head_def)
    show ?thesis unfolding rec
      using Chunked h(2) add_chunks_whole[of ?r cs] by (simp add: whole_response_def Let_def)
  qed
qed

lemma receive_pieces:
  assumes "response_ok v st ab fs b" "concat ps @ w = head_text v st ab fs @ body_text b"
  shows "receive ps [] HttpResponse = Inr (reported v st ab fs b w)"
proof (cases "st = 204")
  case True
  have "headLength HttpResponse = 0" by (simp add: HttpResponse_def response_reset_def http_reset_def)
  then show ?thesis using True receive_no_content[of v ab fs HttpResponse "[]" ps w] assms
    by (simp add: response_ok_def reported_def)
next
  case False
  let ?h = "head_text v st ab fs"
  have ok: "status_ok v st ab" "list_all field_ok fs" using assms(1) by (simp_all add: response_ok_def)
  have len: "length (concat ps) + length w = length ?h + length (body_text b)"
    using arg_cong[OF assms(2), of length] by simp
  show ?thesis
  proof (cases "length (concat ps) < length ?h")
    case True
    have "(case b of Sized d \<Rightarrow> 0 | Chunked cs l \<Rightarrow> 2) \<le> length (body_text b)"
    proof (cases b)
      case (Chunked cs l)
      then show ?thesis using chunked_text_long[of cs l] by simp
    qed simp
    then have "reported v st ab fs b w = None" using True len by (simp add: reported_def)
    then show ?thesis using True receive_head[OF ok, of "[]" ps w "body_text b"] assms(2) by (simp add: head_text_def)
  next
    case False
    have "0 < length ?h" by (simp add: head_text_def)
    then obtain x qs where q: "receive ps [] HttpResponse = receive ((?h @ x) # qs) [] HttpResponse"
      "x @ concat qs @ w = body_text b"
      using False receive_head[OF ok, of "[]" ps w "body_text b"] assms(2) by auto
    have head: "receive ((?h @ x) # qs) [] HttpResponse = (if redirects st fs then Inr (Some (redirect_response v st ab fs b))
        else receive (x # qs) [] (after_head v st ab fs b))"
    proof -
      have "incrementDecode x (after_head v st ab fs b) = Inr (decode_body x (after_head v st ab fs b))"
        by (simp add: incrementDecode_def after_head_def head_text_def)
      then show ?thesis using decode_head[OF assms(1) \<open>st \<noteq> 204\<close>, of x] by simp
    qed
    have "length w \<le> length (body_text b)" using arg_cong[OF q(2), of length] by simp
    then show ?thesis
      using receive_body[OF assms(1), of x qs w] q \<open>st \<noteq> 204\<close> unfolding q(1) head by (simp add: reported_def)
  qed
qed

text \<open>
  C32. A response of known length or in chunks, over a header that can be read back, is decoded to
  its status, header and body whatever the pieces in which the connection delivers it, and is
  reported exactly when: a body of known length has come in full; all but the last two bytes, the
  empty line behind the last chunk, of a body in chunks have come (the code does not wait for
  these two bytes, nor does it read trailers); the header of a redirection (301 or 302 with a
  location) has come, whose body is left out. A response with the status 204 is never reported.
  Until then nothing is reported. The blanks around the status text are cut off by the reader, and
  a status must not be longer than the version before it.
\<close>

theorem response_in_pieces:
  assumes "response_ok v st ab fs b" "concat ps @ w = head_text v st ab fs @ body_text b"
  shows "receive ps [] HttpResponse =
    Inr (if st = 204 then None
         else if redirects st fs
         then if length w \<le> length (body_text b) then Some (redirect_response v st ab fs b) else None
         else if length w \<le> (case b of Sized d \<Rightarrow> 0 | Chunked cs l \<Rightarrow> 2)
         then Some (whole_response v st ab fs b) else None)"
  unfolding reported_def[symmetric] using assms by (rule receive_pieces)

lemma tostr_200: "tostr_signed 200 = ''200''"
  by code_simp

lemma response_in_pieces_witness:
  "receive [''HTTP/1.1 200 OK'' @ [CHR 0x0D], [CHR 0x0A] @ ''Transfer-Encoding: chunked'' @ crlf @ crlf @ ''3;x'',
      crlf @ ''ab'', ''c'' @ crlf @ ''0'' @ crlf] [] HttpResponse =
    Inr (if (200 :: int) = 204 then None
         else if redirects 200 [(''Transfer-Encoding'', ''chunked'')]
         then if length crlf \<le> length (body_text (Chunked [(''3;x'', ''abc'')] ''0''))
              then Some (redirect_response ''HTTP/1.1'' 200 ''OK'' [(''Transfer-Encoding'', ''chunked'')] (Chunked [(''3;x'', ''abc'')] ''0''))
              else None
         else if length crlf \<le> (case Chunked [(''3;x'', ''abc'')] ''0'' of Sized d \<Rightarrow> 0 | Chunked cs l \<Rightarrow> 2)
         then Some (whole_response ''HTTP/1.1'' 200 ''OK'' [(''Transfer-Encoding'', ''chunked'')] (Chunked [(''3;x'', ''abc'')] ''0''))
         else None)"
  by (rule response_in_pieces)
    (simp_all add: response_ok_def status_ok_def field_ok_def chunks_ok_def line_clean_def line_end_def blanks_def trimmed_def
      tostr_200 chunk_size_def strtol16_def signed_part_def is_space_def hex_prefix_def
      hex_digit_def is_digit_def less_eq_char_def mm_of_def mm_find_def header_value_def upper_def to_upper_def
      head_text_def status_text_def crlf_def)

text \<open>The chunks are not waited for to their end: two bytes of the response stay in the connection.\<close>

lemma chunked_response_early:
  "response_ok v st ab fs (Chunked cs l) \<Longrightarrow> st \<notin> {204, 301, 302} \<Longrightarrow>
   concat ps @ crlf = head_text v st ab fs @ chunked_text cs l \<Longrightarrow>
   receive ps [] HttpResponse = Inr (Some (whole_response v st ab fs (Chunked cs l)))"
  using receive_pieces[of v st ab fs "Chunked cs l" ps crlf] by (simp add: reported_def redirects_def)

section \<open>Sending and receiving\<close>

definition mm_sorted :: "http_headers \<Rightarrow> bool" where
  "mm_sorted m \<longleftrightarrow> sorted_wrt (\<lambda>f g. upper (fst f) \<le> upper (fst g)) m"

lemma mm_sorted_simps [simp]:
  "mm_sorted []" "mm_sorted (f # m) \<longleftrightarrow> (\<forall>x\<in>set m. upper (fst f) \<le> upper (fst x)) \<and> mm_sorted m"
  by (simp_all add: mm_sorted_def)

lemma mm_insert_set: "set (mm_insert k v m) = insert (k, v) (set m)"
  by (induction k v m rule: mm_insert.induct) auto

lemma mm_sorted_insert: "mm_sorted m \<Longrightarrow> mm_sorted (mm_insert k v m)"
  by (induction k v m rule: mm_insert.induct) (force simp: mm_insert_set)+

lemma mm_sorted_erase: "mm_sorted m \<Longrightarrow> mm_sorted (mm_erase k m)"
  by (induction m) (auto simp: mm_erase_def)

lemma mm_insert_behind: "\<forall>x\<in>set m. upper (fst x) \<le> upper k \<Longrightarrow> mm_insert k v m = m @ [(k, v)]"
  by (induction k v m rule: mm_insert.induct) auto

lemma fold_insert_sorted:
  "mm_sorted (m @ fs) \<Longrightarrow> fold (\<lambda>(k, v). mm_insert k v) fs m = m @ fs"
proof (induction fs arbitrary: m)
  case (Cons f fs)
  then have "\<forall>x\<in>set m. upper (fst x) \<le> upper (fst f)" by (auto simp: mm_sorted_def sorted_wrt_append)
  then have "mm_insert (fst f) (snd f) m = m @ [f]" using mm_insert_behind by simp
  moreover have "mm_sorted ((m @ [f]) @ fs)" using Cons.prems by simp
  ultimately show ?case using Cons.IH[of "m @ [f]"] by (simp add: split_beta)
qed simp

lemma mm_of_sorted: "mm_sorted fs \<Longrightarrow> mm_of fs = fs"
  using fold_insert_sorted[of "[]" fs] by (simp add: mm_of_def)

lemma mm_find_erase: "mm_find k (mm_erase k' m) = (if upper k = upper k' then None else mm_find k m)"
  by (induction m) (auto simp: mm_find_def mm_erase_def)

lemma mm_find_insert:
  "mm_sorted m \<Longrightarrow> mm_find k (mm_insert k' v m) =
     (if upper k = upper k' \<and> mm_find k m = None then Some v else mm_find k m)"
proof (induction k' v m rule: mm_insert.induct)
  case (2 k' v k'' v'' m)
  have "find (\<lambda>(k', v). upper k' = upper k) m = None" if "upper k < upper k''"
    using 2(2) that by (auto simp: find_None_iff)
  then show ?case using 2 by (auto simp: mm_find_def)
qed (simp add: mm_find_def)

text \<open>Headers as a program sets them: they can be read back and do not announce chunks.\<close>

definition headers_ok :: "http_headers \<Rightarrow> bool" where
  "headers_ok m \<longleftrightarrow>
     mm_sorted m \<and> list_all (\<lambda>f. field_ok f \<and> snd f \<noteq> []) m \<and> mm_find ''Transfer-Encoding'' m \<noteq> Some ''chunked''"

lemma genHeader_text: "list_all (\<lambda>f. snd f \<noteq> []) m \<Longrightarrow> headers h = m \<Longrightarrow> genHeader h = header_text m"
  unfolding genHeader_def header_text_def list_all_iff by (fastforce intro!: arg_cong[where f = concat])

lemma length_names:
  "upper ''Content-Length'' = ''CONTENT-LENGTH''" "upper ''Transfer-Encoding'' = ''TRANSFER-ENCODING''"
  by code_simp+

lemma content_length_field: "field_ok (''Content-Length'', tostr_unsigned n)"
proof -
  have t: "tostr_unsigned n = tostr_signed (int n)" by (simp add: tostr_unsigned_def tostr_signed_def)
  have "tostr_signed (int n) \<noteq> []" by (rule tostr_signed_nonempty)
  moreover from this have "hd (tostr_signed (int n)) \<noteq> CHR '' ''" "last (tostr_signed (int n)) \<noteq> CHR '' ''"
    using tostr_signed_clean(3)[of "int n"] by (metis hd_in_set, metis last_in_set)
  ultimately show ?thesis using tostr_signed_clean(2)[of "int n"]
    by (simp add: field_ok_def t trimmed_def line_clean_def line_end_def)
qed

lemma setContentLength_headers:
  "headers (setContentLength n h) =
     mm_insert ''Content-Length'' (tostr_unsigned n) (mm_erase ''Content-Length'' (headers h))"
  by (simp add: setContentLength_def setHeader_def eraseHeader_def length_names Let_def)

lemma headers_ok_length:
  assumes "headers_ok m"
  shows "headers_ok (mm_insert ''Content-Length'' (tostr_unsigned n) (mm_erase ''Content-Length'' m))"
proof -
  have "set (mm_erase ''Content-Length'' m) \<subseteq> set m" by (auto simp: mm_erase_def)
  then have "list_all (\<lambda>f. field_ok f \<and> snd f \<noteq> []) (mm_insert ''Content-Length'' (tostr_unsigned n) (mm_erase ''Content-Length'' m))"
    using assms content_length_field[of n] by (auto simp: headers_ok_def list_all_iff mm_insert_set tostr_unsigned_def dec_digits)
  then show ?thesis using assms
    by (simp add: headers_ok_def mm_sorted_insert mm_find_insert mm_sorted_erase mm_find_erase length_names)
qed

lemma mm_erase_insert_other:
  "mm_sorted m \<Longrightarrow> upper k \<noteq> upper k' \<Longrightarrow> mm_erase k (mm_insert k' v m) = mm_insert k' v (mm_erase k m)"
proof (induction k' v m rule: mm_insert.induct)
  case (2 k' v k'' v'' m)
  have "mm_insert k' v (mm_erase k m) = (k', v) # mm_erase k m" if "upper k' < upper k''"
  proof -
    have "\<forall>x\<in>set (mm_erase k m). upper k' < upper (fst x)" using 2(2) that by (fastforce simp: mm_erase_def)
    then show ?thesis by (cases "mm_erase k m") auto
  qed
  then show ?case using 2 by (auto simp: mm_erase_def)
qed (simp add: mm_erase_def)

text \<open>What \<open>setResponse\<close> builds and \<open>encode\<close> prints.\<close>

lemma set_response_text:
  assumes "status_ok (version r) st ab" "ab \<noteq> []" "headers_ok (headers r)" "length body < no_length"
    "m = mm_insert ''Content-Length'' (tostr_unsigned (length body)) (mm_erase ''Content-Length'' (headers r))"
  shows "setResponse st ab body r =
      r\<lparr>status := st, about := ab, content := body, headerLine := status_text (version r) st ab, headers := m\<rparr>"
    "response_encode (setResponse st ab body r) = head_text (version r) st ab m @ body"
    "response_ok (version r) st ab m (Sized body)" "headers_ok m" "mm_of m = m"
    "header_value m ''Location'' = getHeader ''Location'' r"
proof -
  show r: "setResponse st ab body r =
      r\<lparr>status := st, about := ab, content := body, headerLine := status_text (version r) st ab, headers := m\<rparr>"
    unfolding assms(5) using assms(2)
    by (simp add: setResponse_def status_line_def status_text_def setHeader_def eraseHeader_def length_names Let_def)
  show m: "headers_ok m" unfolding assms(5) using assms(3) by (rule headers_ok_length)
  have "list_all (\<lambda>f. snd f \<noteq> []) m" using m by (auto simp: headers_ok_def list_all_iff)
  then show "response_encode (setResponse st ab body r) = head_text (version r) st ab m @ body" using assms(2)
    unfolding r by (simp add: response_encode_def genHeader_text[OF _ refl] head_text_def status_line_def status_text_def)
  have sorted: "mm_sorted (headers r)" using assms(3) by (simp add: headers_ok_def)
  show of: "mm_of m = m" using m mm_of_sorted by (simp add: headers_ok_def)
  have find: "mm_find k m = (if upper k = upper ''Content-Length'' then Some (tostr_unsigned (length body)) else mm_find k (headers r))" for k
    using sorted by (simp add: assms(5) mm_find_insert mm_sorted_erase mm_find_erase)
  have "upper ''Location'' \<noteq> upper ''Content-Length''" by code_simp
  then show "header_value m ''Location'' = getHeader ''Location'' r" by (simp add: header_value_def of find getHeader_def)
  have "header_value m ''Content-Length'' = tostr_unsigned (length body)" by (simp add: header_value_def of find)
  moreover have "tostr_unsigned (length body) \<noteq> []" by (simp add: tostr_unsigned_def dec_digits)
  moreover have "header_value m ''Transfer-Encoding'' \<noteq> ''chunked''"
    using m by (auto simp: header_value_def of headers_ok_def split: option.splits)
  moreover have "strto_ulong (tostr_unsigned (length body)) = length body"
    using assms(4) by (intro strto_ulong_tostr) (simp add: no_length_def)
  ultimately show "response_ok (version r) st ab m (Sized body)"
    using assms(1,4) m by (auto simp: response_ok_def headers_ok_def list_all_iff of find)
qed

text \<open>
  C33. A response that a server builds with \<open>setResponse\<close> over headers that can be read back, and
  sends with \<open>encode\<close>, is received by \<open>doRequest\<close> from any pieces with the same status, header and
  body, exactly when all of it has come. With the status 204 it is never received, and a
  redirection (301 or 302 with a location) is received without its body, as soon as its header
  has come. The status text is not empty and has no blanks around it (the reader cuts them off),
  and the status is not longer than the version: \<open>status_cut_by_version\<close> shows one that is cut.
\<close>

theorem response_roundtrip:
  assumes "status_ok (version r) st ab" "ab \<noteq> []" "headers_ok (headers r)" "length body < no_length"
    "concat ps @ w = response_encode (setResponse st ab body r)"
  shows "receive ps [] HttpResponse =
    (let r = setResponse st ab body r;
         r = r\<lparr>headLength := length (response_encode r) - length body, bIsChunked := False, iTmpContentLength := length body\<rparr>
     in Inr (if st = 204 then None
             else if st \<in> {301, 302} \<and> getHeader ''Location'' r \<noteq> []
             then if length w \<le> length body then Some (r\<lparr>content := []\<rparr>) else None
             else if w = [] then Some (eraseHeader ''Transfer-Encoding'' r) else None))"
proof -
  let ?m = "mm_insert ''Content-Length'' (tostr_unsigned (length body)) (mm_erase ''Content-Length'' (headers r))"
  note t = set_response_text[OF assms(1-4) refl]
  have loc: "getHeader ''Location'' (r\<lparr>status := st, about := ab, content := body, headerLine := hl, headers := ?m,
      headLength := n, bIsChunked := b, iTmpContentLength := k\<rparr>) = header_value ?m ''Location''" for hl n b k
    by (simp add: getHeader_def header_value_def t(5))
  have "mm_insert ''Content-Length'' (tostr_unsigned 0) (mm_erase ''Content-Length'' (mm_erase ''Transfer-Encoding'' ?m)) =
      mm_erase ''Transfer-Encoding'' ?m" if "body = []"
  proof -
    have "mm_sorted (mm_erase ''Content-Length'' (headers r))" using assms(3) by (simp add: headers_ok_def mm_sorted_erase)
    then have "mm_erase ''Transfer-Encoding'' ?m =
        mm_insert ''Content-Length'' (tostr_unsigned (length body)) (mm_erase ''Transfer-Encoding'' (mm_erase ''Content-Length'' (headers r)))"
      by (intro mm_erase_insert_other) (simp_all add: length_names)
    then show ?thesis using that by (simp add: mm_erase_insert mm_erase_twice headers_update)
  qed
  then have whole: "whole_response (version r) st ab ?m (Sized body) = eraseHeader ''Transfer-Encoding''
      (r\<lparr>status := st, about := ab, content := body, headerLine := status_text (version r) st ab, headers := ?m,
         headLength := length (head_text (version r) st ab ?m), bIsChunked := False, iTmpContentLength := length body\<rparr>)"
    by (simp add: whole_response_def after_head_def t(5) eraseHeader_def setContentLength_def setHeader_def length_names Let_def)
  have redirect: "redirect_response (version r) st ab ?m (Sized body) =
      r\<lparr>status := st, about := ab, content := [], headerLine := status_text (version r) st ab, headers := ?m,
         headLength := length (head_text (version r) st ab ?m), bIsChunked := False, iTmpContentLength := length body\<rparr>"
    by (simp add: redirect_response_def after_head_def t(5))
  have "receive ps [] HttpResponse = Inr (reported (version r) st ab ?m (Sized body) w)"
    using receive_pieces[OF t(3)] assms(5) t(2) by simp
  then show ?thesis unfolding Let_def t(2) unfolding t(1) reported_def whole redirect redirects_def
    by (simp add: loc)
qed

lemma response_roundtrip_witness:
  "receive [''HTTP/1.1 20'', drop 11 (response_encode (setResponse 200 ''OK'' ''hi'' HttpResponse))] [] HttpResponse =
    (let r = setResponse 200 ''OK'' ''hi'' HttpResponse;
         r = r\<lparr>headLength := length (response_encode r) - length ''hi'', bIsChunked := False, iTmpContentLength := length ''hi''\<rparr>
     in Inr (if (200 :: int) = 204 then None
             else if (200 :: int) \<in> {301, 302} \<and> getHeader ''Location'' r \<noteq> []
             then if length ([] :: string) \<le> length ''hi'' then Some (r\<lparr>content := []\<rparr>) else None
             else if ([] :: string) = [] then Some (eraseHeader ''Transfer-Encoding'' r) else None))"
  by (rule response_roundtrip)
    (simp_all add: status_ok_def line_clean_def line_end_def blanks_def tostr_200 headers_ok_def mm_find_def
      HttpResponse_def response_reset_def http_reset_def response_encode_def status_line_def setResponse_def setHeader_def
      eraseHeader_def no_length_def Let_def)

end
