(* ===== verification/Http_Request.thy ===== *)
theory Http_Request
  imports Http
begin

text \<open>
  \<open>TC_HttpRequest\<close> (tcinclude/tc_http.cpp): building and printing requests, reading them, and
  \<open>checkRequest\<close>, by which a server tells whether a request has come in full. A printed request
  is read back, and \<open>checkRequest\<close> answers at the last byte, or at the line of the last chunk;
  \<open>decode\<close> never does for requests in chunks.
\<close>

section \<open>Building requests\<close>

definition REQUEST_GET :: int where "REQUEST_GET = 0"
definition REQUEST_POST :: int where "REQUEST_POST = 1"
definition REQUEST_OPTIONS :: int where "REQUEST_OPTIONS = 2"

record http_request = http +
  httpURL :: url
  requestType :: int

definition url_clear :: "url \<Rightarrow> url" where
  "url_clear u = u\<lparr>fragment := [], sURL := []\<rparr>"

definition request_reset :: "http_request \<Rightarrow> http_request" where
  "request_reset r = (http_reset r)\<lparr>httpURL := url_clear (httpURL r)\<rparr>"

text \<open>The base class sets \<open>Connection: close\<close>; \<open>ty\<close> is what the type has before it is set.\<close>

definition HttpRequest :: "int \<Rightarrow> http_request" where
  "HttpRequest ty = setHeader ''User-Agent'' ''TC_Http'' (request_reset
     (setHeader ''Connection'' ''close''
       \<lparr>headers = [], headLength = 0, content = [], bIsChunked = False, httpURL = URL_new, requestType = ty\<rparr>))"

definition requestType2str :: "int \<Rightarrow> string" where
  "requestType2str ty =
     (if ty = REQUEST_GET then ''GET'' else if ty = REQUEST_POST then ''POST''
      else if ty = REQUEST_OPTIONS then ''OPTIONS'' else [])"

definition getCookie :: "http_request \<Rightarrow> string list" where
  "getCookie r = List.map snd (List.filter (\<lambda>(k, v). k = ''Cookie'') (headers r))"

definition request_parseURL :: "string \<Rightarrow> http_request \<Rightarrow> http_request" where
  "request_parseURL sUrl r =
     (let r = r\<lparr>httpURL := snd (parseURL sUrl (httpURL r))\<rparr> in
      if getHeader ''Host'' r = []
      then setHeader ''Host'' (getFragment ''domain'' (httpURL r) @
             (if isDefaultPort (httpURL r) then [] else '':'' @ getFragment ''port'' (httpURL r))) r
      else r)"

definition setGetRequest :: "string \<Rightarrow> bool \<Rightarrow> http_request \<Rightarrow> http_request" where
  "setGetRequest sUrl bNewCreateHost r =
     (let r = (if bNewCreateHost then eraseHeader ''Host'' r else r); r = request_parseURL sUrl r;
          r = r\<lparr>requestType := REQUEST_GET, content := []\<rparr>
      in eraseHeader ''Content-Length'' r)"

definition setOptionsRequest :: "string \<Rightarrow> bool \<Rightarrow> http_request \<Rightarrow> http_request" where
  "setOptionsRequest sUrl bNewCreateHost r =
     (let r = (if bNewCreateHost then eraseHeader ''Host'' r else r); r = request_parseURL sUrl r;
          r = r\<lparr>requestType := REQUEST_OPTIONS, content := []\<rparr>
      in eraseHeader ''Content-Length'' r)"

definition setPostRequest :: "string \<Rightarrow> string \<Rightarrow> bool \<Rightarrow> http_request \<Rightarrow> http_request" where
  "setPostRequest sUrl sPostBody bNewCreateHost r =
     (let r = (if bNewCreateHost then eraseHeader ''Host'' r else r); r = request_parseURL sUrl r;
          r = r\<lparr>requestType := REQUEST_POST, content := sPostBody\<rparr>
      in setHeader ''Content-Length'' (tostr_unsigned (length (content r))) r)"

definition encode_head :: "int \<Rightarrow> http_request \<Rightarrow> string" where
  "encode_head iRequestType r =
     requestType2str iRequestType @ '' '' @ getRequest (httpURL r) @ '' HTTP/1.1'' @ crlf @ genHeader r @ crlf"

text \<open>\<open>encode\<close> puts the content length of a POST into the header as it goes.\<close>

definition request_encode :: "http_request \<Rightarrow> string \<times> http_request" where
  "request_encode r =
     (if requestType r = REQUEST_GET then (encode_head REQUEST_GET r, r)
      else if requestType r = REQUEST_POST
      then let r = setContentLength (length (content r)) r in (encode_head REQUEST_POST r @ content r, r)
      else if requestType r = REQUEST_OPTIONS then (encode_head REQUEST_OPTIONS r, r)
      else ([], r))"

definition getHostPort :: "http_request \<Rightarrow> string \<times> nat" where
  "getHostPort r = (getFragment ''domain'' (httpURL r), strto_uint (getFragment ''port'' (httpURL r)))"

section \<open>Reading requests\<close>

definition request_exception :: cpp_error where
  "request_exception = Thrown ''TC_HttpRequest_Exception''"

text \<open>The header of a request: its length, and the request. The version does not matter.\<close>

definition parseRequestHeader :: "string \<Rightarrow> http_request \<Rightarrow> (nat \<times> http_request) result" where
  "parseRequestHeader s r =
     bindE (getLine s 0) (\<lambda>(sLine, p).
     case find_char sLine CHR '' '' 0 of
       None \<Rightarrow> Inl request_exception
     | Some pos \<Rightarrow>
         let sMethod = trim (take pos sLine) blanks True in
         if sMethod \<notin> {''GET'', ''POST'', ''OPTIONS''} then Inl request_exception
         else
           let r = r\<lparr>requestType := (if sMethod = ''GET'' then REQUEST_GET else if sMethod = ''POST'' then REQUEST_POST
                                     else REQUEST_OPTIONS)\<rparr> in
           case rfind_char sLine CHR '' '' (length sLine) of
             None \<Rightarrow> Inl request_exception
           | Some pos1 \<Rightarrow>
               if pos1 \<le> pos then Inl request_exception
               else
                 let sURL = trim (take (pos1 - pos) (drop (pos + 1) sLine)) blanks True in
                 bindE (parseHeader s p) (\<lambda>(m, n).
                 let r = r\<lparr>headers := m\<rparr>;
                     sURL = (if \<not> same_nocase sURL ''https://'' 8 \<and> \<not> same_nocase sURL ''http://'' 7
                             then ''http://'' @ getHeader ''Host'' r @ sURL else sURL)
                 in Inr (n, request_parseURL sURL r)))"

text \<open>Only five characters of the third method are compared.\<close>

definition supported :: "string \<Rightarrow> bool" where
  "supported s \<longleftrightarrow> same_nocase s ''GET '' 4 \<or> same_nocase s ''POST '' 5 \<or> same_nocase s ''OPTIONS '' 5"

definition protocol_error :: cpp_error where
  "protocol_error = Thrown ''std::runtime_error''"

text \<open>\<open>decode\<close> of all the bytes of a string. The content of a request in chunks is appended.\<close>

definition request_decode :: "string \<Rightarrow> http_request \<Rightarrow> (bool \<times> http_request) result" where
  "request_decode s r =
     (if \<not> supported s then Inl protocol_error
      else if find_str (c_string s) (crlf @ crlf) 0 = None then Inr (False, r)
      else bindE (parseRequestHeader s r) (\<lambda>(n, r).
           let r = r\<lparr>headLength := n\<rparr> in
           if n > length s then Inl OutOfBounds
           else if getHeader ''Transfer-Encoding'' r = ''chunked''
           then case chunk_loop (drop n s) r of
                  (False, _, r) \<Rightarrow> Inr (False, r)
                | (True, _, r) \<Rightarrow> Inr ((getContentLength r + headLength r) mod 2 ^ 64 = length s, r)
           else let r = r\<lparr>content := drop n s\<rparr> in
                Inr ((getContentLength r + headLength r) mod 2 ^ 64 = length s, r)))"

section \<open>Checking whether a request is complete\<close>

datatype head_check = Complete | InChunks | Incomplete

lemma getLine_max_progress: "getLine_max s p n = Inr (l, q) \<Longrightarrow> 0 < n \<Longrightarrow> p < q \<and> p \<le> length s"
  by (auto simp: getLine_max_def Let_def split: if_splits)

text \<open>
  The loop over the lines of a header of \<open>iHeadLen\<close> bytes. The pointer that moves is the parameter
  itself, so that the bytes moved are always zero: the test on them is only about \<open>iHeadLen\<close>,
  and every line may be as long as the header.
\<close>

function check_head :: "string \<Rightarrow> nat \<Rightarrow> nat \<Rightarrow> nat \<Rightarrow> head_check result" where
  "check_head s iHeadLen iLen p =
     (let iMoveLen = 0 in
      if iMoveLen \<ge> iHeadLen then Inr Incomplete
      else case getLine_max s p (iHeadLen - iMoveLen) of
             Inl e \<Rightarrow> Inl e
           | Inr (sLine, q) \<Rightarrow>
               if sLine \<noteq> [] \<and> same_nocase sLine ''Transfer-Encoding:'' 18 \<and> trim (drop 18 sLine) blanks True = ''chunked''
               then Inr InChunks
               else if sLine \<noteq> [] \<and> \<not> same_nocase sLine ''Transfer-Encoding:'' 18 \<and> \<not> same_nocase sLine ''Content-Length:'' 15
               then check_head s iHeadLen iLen q
               else let len = (if sLine \<noteq> [] \<and> \<not> same_nocase sLine ''Transfer-Encoding:'' 18
                               then strto_ulong (trim (drop 15 sLine) '' '' True) else 0)
                    in Inr (if (len + iHeadLen) mod 2 ^ 64 \<le> iLen then Complete else Incomplete))"
  by pat_completeness auto
termination
  by (relation "measure (\<lambda>(s, h, n, p). length s + 1 - p)") (auto dest!: getLine_max_progress)

declare check_head.simps [simp del]

text \<open>
  The loop over the chunks at \<open>pCur\<close>, with \<open>int\<close> arithmetic that wraps: reading goes on behind
  what was announced, up to the null character.
\<close>

definition move_length :: "nat \<Rightarrow> int \<Rightarrow> int" where
  "move_length n iChunkSize = sint (word_of_int (int n + 2 + iChunkSize + 2) :: 32 word)"

function check_chunks :: "string \<Rightarrow> nat \<Rightarrow> int \<Rightarrow> bool result" where
  "check_chunks s pCur remain_len =
     (if pCur > length s then Inl OutOfBounds
      else case find_str (c_string (drop pCur s)) crlf 0 of
             None \<Rightarrow> Inr False
           | Some n \<Rightarrow>
               let iChunkSize = chunk_size (take n (drop pCur s)) in
               if iChunkSize \<le> 0 then Inr True
               else let move_len = move_length n iChunkSize in
                    if remain_len \<ge> move_len
                    then check_chunks s (pCur + n + 2 + nat iChunkSize + 2) (remain_len - move_len)
                    else Inr False)"
  by pat_completeness auto
termination by (relation "measure (\<lambda>(s, p, n). length s + 1 - p)") (auto simp: not_less)

declare check_chunks.simps [simp del]

definition checkRequest :: "string \<Rightarrow> nat \<Rightarrow> bool result" where
  "checkRequest s iLen =
     (if \<not> supported s then Inl protocol_error
      else case find_str (c_string s) (crlf @ crlf) 0 of
             None \<Rightarrow> Inr False
           | Some pos \<Rightarrow>
               bindE (check_head s (pos + 4) iLen 0) (\<lambda>c.
               case c of
                 Complete \<Rightarrow> Inr True
               | Incomplete \<Rightarrow> Inr False
               | InChunks \<Rightarrow> check_chunks s (pos + 4) (int iLen - int (pos + 4))))"

section \<open>Reading a printed request\<close>

definition request_text :: "int \<Rightarrow> string \<Rightarrow> http_headers \<Rightarrow> string" where
  "request_text ty target fs = requestType2str ty @ '' '' @ target @ '' HTTP/1.1'' @ crlf @ header_text fs @ crlf"

text \<open>What can stand between the blanks of the first line: a path without blanks.\<close>

definition target_ok :: "string \<Rightarrow> bool" where
  "target_ok u \<longleftrightarrow> line_clean u \<and> set u \<inter> set blanks = {} \<and> u \<noteq> [] \<and> hd u = CHR ''/''"

lemmas request_types = REQUEST_GET_def REQUEST_POST_def REQUEST_OPTIONS_def

lemma method_cases:
  assumes "ty \<in> {REQUEST_GET, REQUEST_POST, REQUEST_OPTIONS}"
  shows "requestType2str ty \<in> {''GET'', ''POST'', ''OPTIONS''}" "line_clean (requestType2str ty)"
    "CHR '' '' \<notin> set (requestType2str ty)" "trim (requestType2str ty) blanks True = requestType2str ty"
    "(if requestType2str ty = ''GET'' then REQUEST_GET else if requestType2str ty = ''POST'' then REQUEST_POST
      else REQUEST_OPTIONS) = ty"
    "requestType2str ty \<noteq> []"
  using assms
  by (auto simp: requestType2str_def request_types line_clean_def line_end_def trim_def trimleft_def trimright_def blanks_def)

lemma not_absolute: "hd u = CHR ''/'' \<Longrightarrow> u \<noteq> [] \<Longrightarrow> \<not> same_nocase u ''https://'' 8 \<and> \<not> same_nocase u ''http://'' 7"
  using same_nocase_char[of u "''https://''" 8 0] same_nocase_char[of u "''http://''" 7 0]
  by (auto simp: hd_conv_nth to_lower_def less_eq_char_def)

lemma parse_request_text:
  assumes "ty \<in> {REQUEST_GET, REQUEST_POST, REQUEST_OPTIONS}" "target_ok u" "list_all field_ok fs"
  shows "parseRequestHeader (request_text ty u fs @ t) r =
    Inr (length (request_text ty u fs),
      request_parseURL (''http://'' @ header_value fs ''Host'' @ u) (r\<lparr>requestType := ty, headers := mm_of fs\<rparr>))"
proof -
  let ?m = "requestType2str ty" and ?v = "''HTTP/1.1''"
  let ?l = "?m @ CHR '' '' # u @ CHR '' '' # ?v" and ?s = "request_text ty u fs @ t"
  note m = method_cases[OF assms(1)]
  have u: "line_clean u" "set u \<inter> set blanks = {}" "u \<noteq> []" "hd u = CHR ''/''" using assms(2) by (simp_all add: target_ok_def)
  have s: "?s = ?l @ crlf @ header_text fs @ crlf @ t" by (simp add: request_text_def)
  have clean: "line_clean ?l" using m(2) u(1) by (simp add: line_end_def)
  have line: "getLine ?s 0 = Inr (?l, length ?l + 2)" using getLine_line[OF clean, of "[]"] by (simp add: s)
  have head: "parseHeader ?s (length ?l + 2) = Inr (mm_of fs, length ?l + 2 + length (header_text fs) + 2)"
  proof -
    have len: "length (?l @ crlf) = length ?l + 2" by (simp only: length_append crlf_simps)
    show ?thesis unfolding s len[symmetric]
      using parseHeader_fields[OF assms(3), of "?l @ crlf" t] by (simp only: append_assoc)
  qed
  have first: "find_char ?l CHR '' '' 0 = Some (length ?m)" using m(3) by (rule find_char_first)
  have "rfind_char ((?m @ CHR '' '' # u) @ CHR '' '' # ?v) CHR '' '' (length ((?m @ CHR '' '' # u) @ CHR '' '' # ?v)) =
      Some (length (?m @ CHR '' '' # u))" by (rule rfind_char_last) simp
  then have last: "rfind_char ?l CHR '' '' (length ?l) = Some (length ?m + 1 + length u)" by simp
  have "trim (u @ '' '') blanks True = u"
  proof -
    have "hd u \<in> set u" "last u \<in> set u" using u(3) by simp_all
    then have e: "hd u \<notin> set blanks" "last u \<notin> set blanks" using u(2) by blast+
    have "trim (u @ '' '') blanks True = trim u blanks True"
      using u(3) e(1) by (cases u) (simp_all add: trim_def trimleft_def trimright_def blanks_def)
    then show ?thesis using trim_blank_free[OF u(3) e] by simp
  qed
  then have target: "trim (take (length ?m + 1 + length u - length ?m) (drop (length ?m + 1) ?l)) blanks True = u" by simp
  have n: "length ?l + 2 + length (header_text fs) + 2 = length (request_text ty u fs)" by (simp add: request_text_def)
  have host: "getHeader ''Host'' (r\<lparr>requestType := ty, headers := mm_of fs\<rparr>) = header_value fs ''Host''"
    by (simp add: getHeader_def header_value_def)
  have meth: "trim (take (length ?m) ?l) blanks True = ?m" using m(4) by simp
  show ?thesis
    unfolding parseRequestHeader_def line bindE_simps prod.case first option.case meth Let_def last target head n
    using m(1,5) not_absolute[OF u(4,3)] host by simp
qed

lemma request_supported:
  "ty \<in> {REQUEST_GET, REQUEST_POST, REQUEST_OPTIONS} \<Longrightarrow> supported (request_text ty u fs @ t)"
  by (auto simp: request_text_def requestType2str_def request_types supported_def same_nocase_def c_string_def lower_def)

lemma request_head_end:
  assumes "ty \<in> {REQUEST_GET, REQUEST_POST, REQUEST_OPTIONS}" "target_ok u" "list_all field_ok fs"
  shows "index_str (crlf @ crlf) (request_text ty u fs @ t) = Some (length (request_text ty u fs) - 4)"
    "CHR 0x00 \<notin> set (request_text ty u fs)"
proof -
  let ?l = "requestType2str ty @ '' '' @ u @ '' HTTP/1.1''"
  let ?ls = "?l # List.map (\<lambda>(k, v). k @ '': '' @ v) fs"
  have clean: "line_clean ?l" using method_cases(2)[OF assms(1)] assms(2) by (simp add: target_ok_def line_end_def)
  have "lines_text (List.map (\<lambda>(k, v). k @ '': '' @ v) fs) = header_text fs" by (induction fs) auto
  then have "request_text ty u fs @ t = lines_text ?ls @ crlf @ t" by (simp add: request_text_def)
  moreover have "list_all (\<lambda>l. line_clean l \<and> l \<noteq> []) ?ls"
    using assms(3) clean field_line by (fastforce simp: list_all_iff)
  ultimately show "index_str (crlf @ crlf) (request_text ty u fs @ t) = Some (length (request_text ty u fs) - 4)"
    using index_end_of_header[of ?ls t] by (simp add: request_text_def)
  show "CHR 0x00 \<notin> set (request_text ty u fs)"
    using line_clean_no_null[OF clean] header_text_no_null[OF assms(3)] by (simp add: request_text_def)
qed

lemma decode_request_text:
  assumes "ty \<in> {REQUEST_GET, REQUEST_POST, REQUEST_OPTIONS}" "target_ok u" "list_all field_ok fs"
  shows "request_decode (request_text ty u fs @ t) r =
    (let n = length (request_text ty u fs);
         r = request_parseURL (''http://'' @ header_value fs ''Host'' @ u) (r\<lparr>requestType := ty, headers := mm_of fs\<rparr>)\<lparr>headLength := n\<rparr>
     in if getHeader ''Transfer-Encoding'' r = ''chunked''
        then case chunk_loop t r of
               (False, _, r) \<Rightarrow> Inr (False, r)
             | (True, _, r) \<Rightarrow> Inr ((getContentLength r + headLength r) mod 2 ^ 64 = n + length t, r)
        else let r = r\<lparr>content := t\<rparr> in Inr ((getContentLength r + n) mod 2 ^ 64 = n + length t, r))"
proof -
  have "find_str (c_string (request_text ty u fs @ t)) (crlf @ crlf) 0 \<noteq> None"
    using request_head_end[OF assms] c_string_append by (simp add: find_str_def del: not_None_eq)
  then show ?thesis
    using request_supported[OF assms(1)] parse_request_text[OF assms]
    by (simp add: request_decode_def Let_def del: not_None_eq split: prod.split bool.split)
qed

section \<open>Printing and reading\<close>

lemma headers_ok_erase: "headers_ok m \<Longrightarrow> headers_ok (mm_erase k m)"
  by (auto simp: headers_ok_def mm_sorted_erase mm_find_erase) (auto simp: mm_erase_def list_all_iff)

lemma headers_ok_insert:
  "headers_ok m \<Longrightarrow> field_ok (k, v) \<Longrightarrow> v \<noteq> [] \<Longrightarrow> upper k \<noteq> ''TRANSFER-ENCODING'' \<Longrightarrow> headers_ok (mm_insert k v m)"
  by (auto simp: headers_ok_def mm_sorted_insert mm_find_insert length_names list_all_iff mm_insert_set)

lemma headers_setHeader:
  "headers (setHeader k v h) =
     mm_insert k v (if upper k \<noteq> ''SET-COOKIE'' \<and> upper k \<noteq> ''COOKIE'' then mm_erase k (headers h) else headers h)"
  by (simp add: setHeader_def eraseHeader_def Let_def)

lemma upper_host: "upper ''Host'' = ''HOST''"
  by code_simp

text \<open>The parts of a URL as they can stand in the first line and the \<open>Host\<close> header.\<close>

definition request_parts_ok :: "string \<Rightarrow> string \<Rightarrow> string \<Rightarrow> string \<Rightarrow> string \<Rightarrow> bool" where
  "request_parts_ok domain port path query ref \<longleftrightarrow>
     url_parts_ok HTTP [] [] domain port path query ref \<and> domain \<noteq> [] \<and>
     list_all (\<lambda>s. line_clean s \<and> set s \<inter> set blanks = {}) [domain, port, path, query, ref]"

text \<open>The host that is sent says the port unless it is the default one of the scheme.\<close>

lemma request_parts:
  assumes "request_parts_ok domain port path query ref"
  shows "target_ok (request path query ref)" "field_ok (''Host'', authority ty [] [] domain port)"
    "authority ty [] [] domain port \<noteq> []"
proof -
  note ok = assms[unfolded request_parts_ok_def]
  let ?a = "authority ty [] [] domain port"
  show "target_ok (request path query ref)"
    using ok by (auto simp: target_ok_def request_def url_parts_ok_def line_end_def blanks_def)
  show ne: "?a \<noteq> []" using ok by (simp add: authority_def)
  have b: "line_clean ?a" "CHR '' '' \<notin> set ?a" using ok by (auto simp: authority_def line_end_def blanks_def)
  then have "hd ?a \<noteq> CHR '' ''" "last ?a \<noteq> CHR '' ''" using ne by (metis hd_in_set, metis last_in_set)
  then show "field_ok (''Host'', ?a)" using b by (simp add: field_ok_def trimmed_def line_end_def)
qed

text \<open>It is read as the host of an HTTP URL.\<close>

lemma parse_host:
  assumes "request_parts_ok domain port path query ref"
  shows "parseURL (''http://'' @ authority ty [] [] domain port @ request path query ref) u =
    (CHR ''.'' \<in> set domain, url_of HTTP [] [] domain (if port = getDefaultPort ty then ''80'' else port) path query ref)"
proof -
  let ?p = "if port = getDefaultPort ty then ''80'' else port" and ?a = "authority ty [] [] domain port"
  have ok: "url_parts_ok HTTP [] [] domain port path query ref" using assms by (simp add: request_parts_ok_def)
  then have ok': "url_parts_ok HTTP [] [] domain ?p path query ref" by (simp add: url_parts_ok_def)
  have a: "?a = domain @ (if port = getDefaultPort ty then [] else '':'' @ port)" by (simp add: authority_def)
  have "cut_at CHR ''@'' ?a = None" "cut_at CHR '':'' ?a = (if port = getDefaultPort ty then None else Some (domain, port))"
    using ok unfolding a url_parts_ok_def by (auto simp: cut_at_first intro!: cut_at_none)
  then have "parse_authority HTTP ?a = ([], [], domain, ?p)" using a by (simp add: parse_authority_def cut_at_none)
  moreover have "set ''/?#'' \<inter> set ?a = {}" using ok by (auto simp: a url_parts_ok_def)
  ultimately show ?thesis using parse_text[OF ok', of ?a u] by simp
qed

text \<open>A request is set: its type, its content, its headers and its URL.\<close>

definition set_request :: "int \<Rightarrow> string \<Rightarrow> string \<Rightarrow> bool \<Rightarrow> http_request \<Rightarrow> http_request" where
  "set_request ty sUrl body bNewCreateHost r =
     (if ty = REQUEST_GET then setGetRequest sUrl bNewCreateHost r
      else if ty = REQUEST_POST then setPostRequest sUrl body bNewCreateHost r
      else setOptionsRequest sUrl bNewCreateHost r)"

definition request_headers :: "int \<Rightarrow> string \<Rightarrow> string \<Rightarrow> http_headers \<Rightarrow> http_headers" where
  "request_headers ty host body m =
     (let m = mm_erase ''Content-Length'' (mm_insert ''Host'' host (mm_erase ''Host'' m)) in
      if ty = REQUEST_POST then mm_insert ''Content-Length'' (tostr_unsigned (length body)) m else m)"

lemma mm_erase_none: "mm_find k m = None \<Longrightarrow> mm_erase k m = m"
  by (auto simp: mm_find_def mm_erase_def find_None_iff filter_id_conv)

lemma mm_find_in: "mm_find k m = Some v \<Longrightarrow> \<exists>k. (k, v) \<in> set m"
  by (induction m) (auto simp: mm_find_def split: if_splits)

lemma set_request_result:
  assumes "parseURL sUrl (httpURL r) = (b, url_of sch user pass domain port path query ref)" "domain \<noteq> []"
    "ty \<in> {REQUEST_GET, REQUEST_POST, REQUEST_OPTIONS}" "bNew \<or> mm_find ''Host'' (headers r) = None"
  shows "set_request ty sUrl body bNew r =
    r\<lparr>headers := request_headers ty (authority sch [] [] domain port) body (headers r),
      content := (if ty = REQUEST_POST then body else []),
      httpURL := url_of sch user pass domain port path query ref, requestType := ty\<rparr>"
proof -
  let ?u = "url_of sch user pass domain port path query ref"
  obtain e where e: "e = (if bNew then eraseHeader ''Host'' r else r)" by blast
  then have erased: "e = eraseHeader ''Host'' r"
    using assms(4) by (auto simp: eraseHeader_def mm_erase_none)
  have "mm_find ''Host'' (mm_erase ''Host'' (headers r)) = None" by (simp add: mm_find_erase)
  then have parsed: "request_parseURL sUrl e =
      r\<lparr>headers := mm_insert ''Host'' (authority sch [] [] domain port) (mm_erase ''Host'' (headers r)), httpURL := ?u\<rparr>"
    using assms(1)
    by (simp add: erased request_parseURL_def eraseHeader_def getHeader_def setHeader_def upper_host url_of_parts isDefaultPort_def
      authority_def mm_erase_twice Let_def)
  show ?thesis using assms(3)
    unfolding set_request_def setGetRequest_def setPostRequest_def setOptionsRequest_def Let_def e[symmetric] parsed
    by (auto simp: request_types request_headers_def eraseHeader_def setHeader_def length_names)
qed

lemma request_headers_ok:
  assumes "headers_ok m" "field_ok (''Host'', host)" "host \<noteq> []"
  shows "headers_ok (request_headers ty host body m)"
    "mm_find ''Host'' (request_headers ty host body m) = Some host"
    "mm_find ''Content-Length'' (request_headers ty host body m) =
       (if ty = REQUEST_POST then Some (tostr_unsigned (length body)) else None)"
proof -
  let ?m = "mm_erase ''Content-Length'' (mm_insert ''Host'' host (mm_erase ''Host'' m))"
  have "headers_ok ?m" using assms by (intro headers_ok_erase headers_ok_insert) (simp_all add: upper_host)
  moreover have "tostr_unsigned (length body) \<noteq> []" by (simp add: tostr_unsigned_def dec_digits)
  ultimately have "headers_ok ?m" "headers_ok (mm_insert ''Content-Length'' (tostr_unsigned (length body)) ?m)"
    using content_length_field by (auto intro!: headers_ok_insert simp: length_names)
  then show "headers_ok (request_headers ty host body m)" by (simp add: request_headers_def Let_def)
  have s: "mm_sorted m" using assms(1) by (simp add: headers_ok_def)
  then show "mm_find ''Host'' (request_headers ty host body m) = Some host"
    "mm_find ''Content-Length'' (request_headers ty host body m) =
       (if ty = REQUEST_POST then Some (tostr_unsigned (length body)) else None)"
    by (simp_all add: request_headers_def Let_def mm_find_insert mm_find_erase mm_sorted_insert mm_sorted_erase
      length_names upper_host)
qed

text \<open>
  C34. Every request that \<open>setGetRequest\<close>, \<open>setPostRequest\<close> or \<open>setOptionsRequest\<close> builds over
  headers that can be read back, with a host of its own (a new one is asked for, or the headers
  have none), is printed by \<open>encode\<close> to a text that \<open>decode\<close> finds complete and reads back to the
  same type, headers and content. The URL is read back without user and password, and as an HTTP
  URL whatever the scheme of the request: the default port of another scheme is lost with it (80
  stands for the 433 that the code has for https), any other port is kept.
\<close>

theorem request_roundtrip:
  assumes "ty \<in> {REQUEST_GET, REQUEST_POST, REQUEST_OPTIONS}" "headers_ok (headers r)" "bNew \<or> getHeader ''Host'' r = []"
    "url_parts_ok sch user pass domain port path query ref" "request_parts_ok domain port path query ref"
    "length (fst (request_encode (set_request ty (sURL (url_of sch user pass domain port path query ref)) body bNew r))) < 2 ^ 64"
  shows "(let r = set_request ty (sURL (url_of sch user pass domain port path query ref)) body bNew r; (s, r) = request_encode r in
    request_decode s q =
      Inr (True, q\<lparr>headers := headers r, headLength := length s - length (content r), content := content r,
                   requestType := requestType r,
                   httpURL := url_of HTTP [] [] domain (if port = getDefaultPort sch then ''80'' else port) path query ref\<rparr>))"
proof -
  let ?url = "url_of sch user pass domain port path query ref" and ?host = "authority sch [] [] domain port"
  let ?url' = "url_of HTTP [] [] domain (if port = getDefaultPort sch then ''80'' else port) path query ref"
  let ?r = "set_request ty (sURL ?url) body bNew r" and ?m = "request_headers ty ?host body (headers r)"
  let ?body = "if ty = REQUEST_POST then body else []" and ?u = "request path query ref"
  note parts = request_parts(1)[OF assms(5)] request_parts(2,3)[OF assms(5), of sch]
  note m = request_headers_ok[OF assms(2) parts(2,3), of ty body]
  have host: "bNew \<or> mm_find ''Host'' (headers r) = None"
  proof (cases "mm_find ''Host'' (headers r)")
    case (Some v)
    then obtain k where "(k, v) \<in> set (headers r)" using mm_find_in by blast
    then have "v \<noteq> []" using assms(2) by (auto simp: headers_ok_def list_all_iff)
    then show ?thesis using assms(3) Some by (simp add: getHeader_def)
  qed simp
  have r: "?r = r\<lparr>headers := ?m, content := ?body, httpURL := ?url, requestType := ty\<rparr>"
    using set_request_result[OF parse_printed[OF assms(4)] _ assms(1) host] assms(5) by (simp add: request_parts_ok_def)
  have f: "requestType ?r = ty" "content ?r = ?body" "headers ?r = ?m" "httpURL ?r = ?url" unfolding r by simp_all
  have again: "ty = REQUEST_POST \<Longrightarrow> mm_insert ''Content-Length'' (tostr_unsigned (length body)) (mm_erase ''Content-Length'' ?m) = ?m"
    by (simp add: request_headers_def mm_erase_insert mm_erase_twice Let_def)
  have gen: "genHeader h = header_text ?m" if "headers h = ?m" for h :: http_request
    using m(1) that by (intro genHeader_text) (auto simp: headers_ok_def list_all_iff)
  have req: "getRequest ?url = ?u" by (simp add: getRequest_def url_of_parts request_def)
  have post: "setContentLength (length body) ?r = ?r" if "ty = REQUEST_POST"
    unfolding r using that again[OF that] by (simp add: setContentLength_def setHeader_def eraseHeader_def length_names Let_def)
  have enc: "request_encode ?r = (request_text ty ?u ?m @ ?body, ?r)"
  proof (cases "ty = REQUEST_POST")
    case True
    then have "request_encode ?r = (encode_head ty ?r @ body, ?r)"
      using post[OF True] f(1,2) by (simp add: request_encode_def request_types Let_def)
    then show ?thesis using True gen[OF f(3)] req f(4) by (simp add: encode_head_def request_text_def)
  next
    case False
    then have "request_encode ?r = (encode_head ty ?r, ?r)" using assms(1) f(1) by (auto simp: request_encode_def)
    then show ?thesis using False gen[OF f(3)] req f(4) by (simp add: encode_head_def request_text_def)
  qed
  have fs: "list_all field_ok ?m" using m(1) by (auto simp: headers_ok_def list_all_iff)
  have of: "mm_of ?m = ?m" using m(1) mm_of_sorted by (simp add: headers_ok_def)
  let ?q = "q\<lparr>headers := ?m, requestType := ty, httpURL := ?url'\<rparr>"
  have parsed: "request_parseURL (''http://'' @ header_value ?m ''Host'' @ ?u) (q\<lparr>requestType := ty, headers := mm_of ?m\<rparr>) = ?q"
    using parts(3) parse_host[OF assms(5), of sch] m(2) by (simp add: request_parseURL_def header_value_def of getHeader_def Let_def)
  have "getHeader ''Transfer-Encoding'' ?q \<noteq> ''chunked''"
    using m(1) by (auto simp: getHeader_def headers_ok_def split: option.splits)
  moreover have len: "length ?body < 2 ^ 64 \<and> length (request_text ty ?u ?m) + length ?body < 2 ^ 64"
    using assms(6) unfolding enc by simp
  then have "(getContentLength ?q + length (request_text ty ?u ?m)) mod 2 ^ 64 = length (request_text ty ?u ?m) + length ?body"
    using m(3) strto_ulong_tostr[of "length body"]
    by (auto simp: getContentLength_def getHeader_def Let_def tostr_unsigned_def dec_digits)
  ultimately show ?thesis
    unfolding enc Let_def prod.case decode_request_text[OF assms(1) parts(1) fs] parsed
    by (simp add: f getHeader_def getContentLength_def)
qed

lemma request_roundtrip_witness:
  "(let r = set_request REQUEST_POST (sURL (url_of HTTPS ''u'' ''p'' ''a.b'' ''433'' ''/x'' ''k=v'' [])) ''hi'' False (HttpRequest 0);
        (s, r) = request_encode r in
    request_decode s (HttpRequest 0) =
      Inr (True, (HttpRequest 0)\<lparr>headers := headers r, headLength := length s - length (content r), content := content r,
                   requestType := requestType r,
                   httpURL := url_of HTTP [] [] ''a.b'' (if ''433'' = getDefaultPort HTTPS then ''80'' else ''433'') ''/x'' ''k=v'' []\<rparr>))"
proof (rule request_roundtrip)
  show "REQUEST_POST \<in> {REQUEST_GET, REQUEST_POST, REQUEST_OPTIONS}" by simp
  have h: "headers (HttpRequest 0) = [(''User-Agent'', ''TC_Http'')]" by code_simp
  show "headers_ok (headers (HttpRequest 0))"
    by (simp add: h headers_ok_def field_ok_def trimmed_def line_clean_def line_end_def mm_find_def upper_def to_upper_def less_eq_char_def)
  show "False \<or> getHeader ''Host'' (HttpRequest 0) = []" by code_simp
  show "url_parts_ok HTTPS ''u'' ''p'' ''a.b'' ''433'' ''/x'' ''k=v'' []"
    "request_parts_ok ''a.b'' ''433'' ''/x'' ''k=v'' []"
    by (simp_all add: request_parts_ok_def url_parts_ok_def lower_def to_lower_def line_clean_def line_end_def blanks_def)
  have "length (fst (request_encode (set_request REQUEST_POST (sURL (url_of HTTPS ''u'' ''p'' ''a.b'' ''433'' ''/x'' ''k=v'' []))
      ''hi'' False (HttpRequest 0)))) = 77" by code_simp
  then show "length (fst (request_encode (set_request REQUEST_POST (sURL (url_of HTTPS ''u'' ''p'' ''a.b'' ''433'' ''/x'' ''k=v'' []))
      ''hi'' False (HttpRequest 0)))) < 2 ^ 64" by simp
qed

text \<open>The connection header of the base class is lost in the constructor.\<close>

lemma request_connection_lost: "headers (HttpRequest ty) = [(''User-Agent'', ''TC_Http'')]"
  by (simp add: HttpRequest_def setHeader_def eraseHeader_def request_reset_def http_reset_def mm_erase_def
    upper_def to_upper_def less_eq_char_def)

section \<open>Complete requests\<close>

text \<open>The field that announces the body is the first of the two names.\<close>

definition announced :: "http_headers \<Rightarrow> (string \<times> string) option" where
  "announced fs = find (\<lambda>(k, v). lower k \<in> {lower ''Content-Length'', lower ''Transfer-Encoding''}) fs"

definition head_answer :: "http_headers \<Rightarrow> nat \<Rightarrow> nat \<Rightarrow> head_check" where
  "head_answer fs n iLen =
     (case announced fs of
        Some (k, v) \<Rightarrow>
          if lower k = lower ''Transfer-Encoding''
          then if trim v blanks True = ''chunked'' then InChunks else if n mod 2 ^ 64 \<le> iLen then Complete else Incomplete
          else if (strto_ulong v + n) mod 2 ^ 64 \<le> iLen then Complete else Incomplete
      | None \<Rightarrow> if n mod 2 ^ 64 \<le> iLen then Complete else Incomplete)"

lemma getLine_max_line:
  assumes "line_clean l" "length pre + length l + 2 \<le> h"
  shows "getLine_max (pre @ l @ crlf @ t) (length pre) h = Inr (l, length pre + length l + 2)"
proof -
  have "length l < h" "length l + 1 < h" using assms(2) by linarith+
  then show ?thesis using assms by (simp add: getLine_max_def crlf_def line_clean_takeWhile nth_append Let_def)
qed

lemma lower_colon: "to_lower c = CHR '':'' \<longleftrightarrow> c = CHR '':''"
  using to_lower_special[of c] to_lower_colon by auto

lemma c_string_id: "CHR 0x00 \<notin> set a \<Longrightarrow> c_string a = a"
  by (auto simp: c_string_def takeWhile_eq_all_conv)

lemma same_nocase_field:
  assumes "field_ok (k, v)" "line_clean n" "CHR '':'' \<notin> set n"
  shows "same_nocase (k @ '': '' @ v) (n @ '':'') (Suc (length n)) \<longleftrightarrow> lower k = lower n"
proof -
  let ?l = "k @ CHR '':'' # CHR '' '' # v"
  have k: "CHR '':'' \<notin> set k" using assms(1) by (simp add: field_ok_def)
  have "CHR 0x00 \<notin> set ?l" "CHR 0x00 \<notin> set (n @ '':'')"
    using line_clean_no_null field_line[OF assms(1)] assms(2) by auto
  then have c: "c_string ?l = ?l" "c_string (n @ '':'') = n @ '':''" by (simp_all only: c_string_id simp_thms)
  have "lower (take (Suc (length n)) ?l) = lower n @ '':'' \<longleftrightarrow> lower k = lower n"
  proof
    assume e: "lower (take (Suc (length n)) ?l) = lower n @ '':''"
    then have n1: "lower (take (Suc (length n)) ?l) ! i = (lower n @ '':'') ! i" for i by simp
    have "length (lower (take (Suc (length n)) ?l)) = Suc (length n)" using e by (simp add: lower_def)
    then have len: "Suc (length n) \<le> length ?l" by (simp add: lower_def)
    have nth: "to_lower (?l ! i) = (lower n @ '':'') ! i" if "i \<le> length n" for i
      using n1[of i] that len by (simp add: lower_def nth_map del: take_append map_append)
    have "\<not> length k < length n"
    proof
      assume a: "length k < length n"
      then have "to_lower (n ! length k) = CHR '':''"
        using nth[of "length k"] by (simp add: nth_append lower_def to_lower_colon)
      then show False using assms(3) nth_mem[OF a] by (simp add: lower_colon)
    qed
    moreover have "\<not> length n < length k"
    proof
      assume a: "length n < length k"
      then have "k ! length n = CHR '':''" using nth[of "length n"] by (simp add: nth_append lower_def lower_colon)
      then show False using k nth_mem[OF a] by simp
    qed
    ultimately have "take (Suc (length n)) ?l = k @ '':''" by simp
    then show "lower k = lower n" using e by (simp add: lower_def)
  next
    assume e: "lower k = lower n"
    then have "length k = length n" by (metis length_map lower_def)
    then show "lower (take (Suc (length n)) ?l) = lower n @ '':''" using e by (simp add: lower_def to_lower_colon)
  qed
  then show ?thesis using c by (simp add: same_nocase_def lower_def to_lower_colon)
qed

lemma field_names:
  assumes "field_ok (k, v)"
  shows "same_nocase (k @ '': '' @ v) ''Transfer-Encoding:'' 18 \<longleftrightarrow> lower k = lower ''Transfer-Encoding''"
    "same_nocase (k @ '': '' @ v) ''Content-Length:'' 15 \<longleftrightarrow> lower k = lower ''Content-Length''"
  using same_nocase_field[OF assms, of "''Transfer-Encoding''"] same_nocase_field[OF assms, of "''Content-Length''"]
  by (simp_all add: line_clean_def line_end_def eval_nat_numeral)

lemma length_lower: "lower k = lower n \<Longrightarrow> length k = length n"
  by (metis length_map lower_def)

lemma trim_blanks_space: "trim (CHR '' '' # v) blanks True = trim v blanks True"
  by (cases v) (simp_all add: trim_def trimleft_def trimright_def blanks_def)

lemma names_differ: "lower ''Content-Length'' \<noteq> lower ''Transfer-Encoding''"
  by code_simp

lemma check_head_fields:
  "list_all field_ok fs \<Longrightarrow> h = length pre + length (header_text fs) + 2 \<Longrightarrow>
   check_head (pre @ header_text fs @ crlf @ t) h iLen (length pre) = Inr (head_answer fs h iLen)"
proof (induction fs arbitrary: pre)
  case Nil
  have "getLine_max (pre @ [] @ crlf @ t) (length pre) h = Inr ([], length pre + length ([] :: string) + 2)"
    using Nil by (intro getLine_max_line) simp_all
  then show ?case using Nil by (subst check_head.simps) (simp add: head_answer_def announced_def)
next
  case (Cons f fs)
  obtain k v where f: "f = (k, v)" by (cases f)
  let ?l = "k @ '': '' @ v" and ?t = "header_text fs @ crlf @ t"
  let ?pre = "pre @ ?l @ crlf" and ?s = "pre @ ?l @ crlf @ ?t"
  have ok: "field_ok (k, v)" "list_all field_ok fs" using Cons.prems(1) f by simp_all
  have s: "pre @ header_text (f # fs) @ crlf @ t = ?s" by (simp add: f)
  have h: "h = length ?pre + length (header_text fs) + 2" using Cons.prems(2) f by simp
  have line: "getLine_max ?s (length pre) (h - 0) = Inr (?l, length ?pre)"
    using getLine_max_line[OF field_line[OF ok(1), THEN conjunct1], of pre h ?t] h by simp
  have small: "\<not> h \<le> 0" using h by simp
  have ih: "check_head ?s h iLen (length ?pre) = Inr (head_answer fs h iLen)"
    using Cons.IH[OF ok(2) h] by simp
  have v: "trim v '' '' True = v" using ok(1) by (simp add: trim_trimmed field_ok_def)
  have step: "check_head ?s h iLen (length pre) =
      (if lower k = lower ''Transfer-Encoding''
       then if trim v blanks True = ''chunked'' then Inr InChunks else Inr (if n mod 2 ^ 64 \<le> iLen then Complete else Incomplete)
       else if lower k = lower ''Content-Length''
       then Inr (if (strto_ulong v + n) mod 2 ^ 64 \<le> iLen then Complete else Incomplete)
       else check_head ?s h iLen (length ?pre))" if "n = h" for n
  proof -
    have t: "trim (drop 18 ?l) blanks True = trim v blanks True" if "lower k = lower ''Transfer-Encoding''"
      using length_lower[OF that] by (simp add: trim_blanks_space)
    have c: "trim (drop 15 ?l) '' '' True = v" if "lower k = lower ''Content-Length''"
      using length_lower[OF that] v by (simp add: trim_blank)
    have ne: "?l \<noteq> []" by simp
    note loop = check_head.simps[of ?s h iLen "length pre", unfolded Let_def line if_not_P[OF small] sum.case prod.case field_names[OF ok(1)]]
    consider "lower k = lower ''Transfer-Encoding''" | "lower k = lower ''Content-Length''" "lower k \<noteq> lower ''Transfer-Encoding''"
      | "lower k \<noteq> lower ''Content-Length''" "lower k \<noteq> lower ''Transfer-Encoding''" by blast
    then show ?thesis
    proof cases
      case 1
      then show ?thesis using t ne \<open>n = h\<close> names_differ unfolding loop by (simp add: Let_def del: append_is_Nil_conv)
    next
      case 2
      then show ?thesis using c ne \<open>n = h\<close> names_differ unfolding loop by (simp add: Let_def del: append_is_Nil_conv)
    next
      case 3
      then show ?thesis using ne unfolding loop by (simp add: Let_def del: append_is_Nil_conv)
    qed
  qed
  show ?case unfolding s step[OF refl] ih by (simp add: f head_answer_def announced_def names_differ)
qed

lemma sint_small: "- (2 ^ 31) \<le> i \<Longrightarrow> i < 2 ^ 31 \<Longrightarrow> sint (word_of_int i :: 32 word) = i"
  by (simp add: sint_sbintrunc' signed_take_bit_int_eq_self)

lemma check_chunks_prefix:
  "chunks_ok cs l \<Longrightarrow> x @ w = chunked_text cs l \<Longrightarrow> length pre + length (x @ w) < 2 ^ 31 \<Longrightarrow>
   check_chunks (pre @ x) (length pre) (int (length x)) = Inr (length w \<le> 2)"
proof (induction cs arbitrary: pre x)
  case Nil
  then have l: "line_clean l" "chunk_size l \<le> 0" "x @ w = l @ crlf @ crlf" by (simp_all add: chunks_ok_def)
  have len: "length l + 2 \<le> length x \<longleftrightarrow> length w \<le> 2" using arg_cong[OF l(3), of length] by auto
  have "find_str (c_string x) crlf 0 = (if length w \<le> 2 then Some (length l) else None)"
  proof -
    have "CHR 0x00 \<notin> set (x @ w)" using l(3) line_clean_no_null[OF l(1)] by simp
    then have "c_string x = x" by (intro c_string_id) simp
    then show ?thesis using find_line_prefix[OF l(1,3)] len by simp
  qed
  moreover have "take (length l) x = l" if "length w \<le> 2"
    using that len arg_cong[OF l(3), of "take (length l)"] by simp
  ultimately show ?case using l(2) by (subst check_chunks.simps) (simp add: Let_def)
next
  case (Cons c cs)
  obtain t d where c: "c = (t, d)" by (cases c)
  have ok: "line_clean t" "d \<noteq> []" "chunk_size t = int (length d)" "chunks_ok cs l"
    using Cons.prems(1) c by (simp_all add: chunks_ok_def)
  have x: "x @ w = t @ crlf @ d @ crlf @ chunked_text cs l" using Cons.prems(2) c by simp
  have len: "length x + length w = length t + 2 + length d + 2 + length (chunked_text cs l)"
    using arg_cong[OF x, of length] by simp
  have find: "find_str (c_string x) crlf 0 = (if length t + 2 \<le> length x then Some (length t) else None)"
  proof (cases "length t + 2 \<le> length x")
    case True
    then obtain y where y: "x = (t @ crlf) @ y"
      using prefix_split[of x w "t @ crlf" "d @ crlf @ chunked_text cs l"] x by auto
    then have "c_string x = t @ crlf @ c_string y"
      using c_string_append[of "t @ crlf" y] line_clean_no_null[OF ok(1)] by simp
    then have "index_str crlf (c_string x) = Some (length t)" using index_line[OF line_clean_no_cr[OF ok(1)]] by simp
    with True show ?thesis by (simp add: find_str_def)
  next
    case False
    have "take (length x) (x @ w) = take (length x) (t @ crlf)" using False unfolding x by simp
    then have "set x \<subseteq> set (t @ crlf)" by (metis append_eq_conv_conj set_take_subset)
    then have "CHR 0x00 \<notin> set x" using line_clean_no_null[OF ok(1)] by auto
    then show ?thesis using find_line_prefix[OF ok(1) x] by (simp add: c_string_id)
  qed
  have size: "take (length t) x = t" if "length t + 2 \<le> length x"
    using arg_cong[OF x, of "take (length t)"] that by simp
  have move: "move_length (length t) (int (length d)) = int (length t + 2 + length d + 2)"
  proof -
    have "length t + 2 + length d + 2 < 2147483648" using Cons.prems(3) len by simp
    then show ?thesis unfolding move_length_def by (subst sint_small) simp_all
  qed
  have pos: "\<not> chunk_size t \<le> 0" using ok(2,3) by simp
  show ?case
  proof (cases "length x < length t + 2 + length d + 2")
    case True
    then have "\<not> length w \<le> 2" using len chunked_text_long[of cs l] by simp
    with True show ?thesis using pos size
      by (subst check_chunks.simps) (simp add: find ok(3) move Let_def)
  next
    case False
    then obtain y where y: "x = (t @ crlf @ d @ crlf) @ y" "y @ w = chunked_text cs l"
      using prefix_split[of x w "t @ crlf @ d @ crlf" "chunked_text cs l"] x by auto
    let ?pre = "pre @ t @ crlf @ d @ crlf"
    have f: "find_str (c_string x) crlf 0 = Some (length t)" "take (length t) x = t" using find size False by simp_all
    have "check_chunks (pre @ x) (length pre) (int (length x)) =
        check_chunks (pre @ x) (length pre + length t + 2 + length d + 2) (int (length x) - int (length t + 2 + length d + 2))"
      using pos False by (subst check_chunks.simps) (simp add: f ok(3) move Let_def)
    also have "\<dots> = check_chunks (?pre @ y) (length ?pre) (int (length y))"
    proof -
      have "pre @ x = ?pre @ y" "length pre + length t + 2 + length d + 2 = length ?pre"
        "int (length x) - int (length t + 2 + length d + 2) = int (length y)" using y(1) by simp_all
      then show ?thesis by (simp only:)
    qed
    also have "\<dots> = Inr (length w \<le> 2)" using Cons.prems(3) len y by (intro Cons.IH[OF ok(4) y(2)]) simp
    finally show ?thesis .
  qed
qed

text \<open>The body that the header announces.\<close>

fun announces :: "http_headers \<Rightarrow> body option \<Rightarrow> bool" where
  "announces fs None \<longleftrightarrow> announced fs = None"
| "announces fs (Some (Sized d)) \<longleftrightarrow>
     (case announced fs of
        Some (k, v) \<Rightarrow> lower k = lower ''Content-Length'' \<and> strto_ulong v = length d
      | None \<Rightarrow> False)"
| "announces fs (Some (Chunked cs l)) \<longleftrightarrow>
     (case announced fs of
        Some (k, v) \<Rightarrow> lower k = lower ''Transfer-Encoding'' \<and> v = ''chunked'' \<and> chunks_ok cs l
      | None \<Rightarrow> False)"

definition announced_text :: "body option \<Rightarrow> string" where
  "announced_text b = (case b of None \<Rightarrow> [] | Some b \<Rightarrow> body_text b)"

lemma first_letters: "to_lower CHR ''G'' = CHR ''g''" "to_lower CHR ''P'' = CHR ''p''" "to_lower CHR ''O'' = CHR ''o''"
  by code_simp+

lemma method_line:
  assumes "ty \<in> {REQUEST_GET, REQUEST_POST, REQUEST_OPTIONS}"
  shows "requestType2str ty @ t \<noteq> []" "\<not> same_nocase (requestType2str ty @ t) ''Transfer-Encoding:'' 18"
    "\<not> same_nocase (requestType2str ty @ t) ''Content-Length:'' 15"
proof -
  show ne: "requestType2str ty @ t \<noteq> []" using method_cases(6)[OF assms] by simp
  have c: "to_lower ((requestType2str ty @ t) ! 0) \<notin> {CHR ''t'', CHR ''c''}"
    using assms first_letters by (auto simp: requestType2str_def request_types)
  have "to_lower (''Transfer-Encoding:'' ! 0) = CHR ''t''" "to_lower (''Content-Length:'' ! 0) = CHR ''c''" by code_simp+
  with c show "\<not> same_nocase (requestType2str ty @ t) ''Transfer-Encoding:'' 18" "\<not> same_nocase (requestType2str ty @ t) ''Content-Length:'' 15"
    using same_nocase_char[of _ "''Transfer-Encoding:''" 18 0] same_nocase_char[of _ "''Content-Length:''" 15 0] by auto
qed

lemma check_head_text:
  assumes "ty \<in> {REQUEST_GET, REQUEST_POST, REQUEST_OPTIONS}" "target_ok u" "list_all field_ok fs"
  shows "check_head (request_text ty u fs @ t) (length (request_text ty u fs)) iLen 0 =
    Inr (head_answer fs (length (request_text ty u fs)) iLen)"
proof -
  let ?m = "requestType2str ty" and ?r = "'' '' @ u @ '' HTTP/1.1''"
  let ?l = "?m @ ?r" and ?h = "length (request_text ty u fs)"
  have clean: "line_clean ?l" using method_cases(2)[OF assms(1)] assms(2) by (simp add: target_ok_def line_end_def)
  have s: "request_text ty u fs @ t = [] @ ?l @ crlf @ header_text fs @ crlf @ t" by (simp add: request_text_def)
  have h: "?h = length (?l @ crlf) + length (header_text fs) + 2" by (simp add: request_text_def)
  have "getLine_max ([] @ ?l @ crlf @ header_text fs @ crlf @ t) (length ([] :: string)) ?h =
      Inr (?l, length ([] :: string) + length ?l + 2)"
    using h by (intro getLine_max_line clean) simp
  then have line: "getLine_max (request_text ty u fs @ t) 0 (?h - 0) = Inr (?l, length (?l @ crlf))" unfolding s by simp
  have rest: "check_head (request_text ty u fs @ t) ?h iLen (length (?l @ crlf)) = Inr (head_answer fs ?h iLen)"
    using check_head_fields[OF assms(3) h, of t iLen] by (simp add: request_text_def)
  have "\<not> ?h \<le> 0" using h by simp
  note loop = check_head.simps[of "request_text ty u fs @ t" ?h iLen 0, unfolded Let_def line if_not_P[OF this] sum.case prod.case]
  show ?thesis unfolding loop rest using method_line[OF assms(1), of ?r] by (simp add: Let_def del: append_is_Nil_conv)
qed

text \<open>What need not have come: the empty line behind the last chunk.\<close>

definition not_awaited :: "body option \<Rightarrow> nat" where
  "not_awaited b = (case b of Some (Chunked cs l) \<Rightarrow> 2 | _ \<Rightarrow> 0)"

lemma check_complete:
  assumes "ty \<in> {REQUEST_GET, REQUEST_POST, REQUEST_OPTIONS}" "target_ok u" "list_all field_ok fs" "announces fs b"
    "s @ w = request_text ty u fs @ announced_text b" "supported s" "length (s @ w) < 2 ^ 31"
  shows "checkRequest s (length s) = Inr (length w \<le> not_awaited b)"
proof -
  let ?h = "request_text ty u fs"
  have h4: "4 \<le> length ?h" by (simp add: request_text_def)
  show ?thesis
  proof (cases "length s < length ?h")
    case True
    have "take (length s) (s @ w) = take (length s) ?h" using True unfolding assms(5) by simp
    then have "set s \<subseteq> set ?h" by (metis append_eq_conv_conj set_take_subset)
    then have c: "c_string s = s" using request_head_end(2)[OF assms(1-3)] by (intro c_string_id) blast
    have "index_str (crlf @ crlf) s = None"
      using index_incomplete[OF request_head_end(1)[OF assms(1-3)] assms(5)] True h4 by simp
    moreover have "length (announced_text b) < length w" using True arg_cong[OF assms(5), of length] by simp
    moreover have "not_awaited b \<le> length (announced_text b)"
      using chunked_text_long by (auto simp: announced_text_def not_awaited_def split: option.split body.split intro: order_trans[of 2 4])
    ultimately show ?thesis using assms(6) c by (simp add: checkRequest_def find_str_def)
  next
    case False
    then obtain x where x: "s = ?h @ x" "x @ w = announced_text b" using prefix_split[OF assms(5)] by auto
    have "find_str (c_string s) (crlf @ crlf) 0 = Some (length ?h - 4)"
      using request_head_end[OF assms(1-3)] c_string_append by (simp add: x(1) find_str_def)
    moreover have "check_head s (length ?h) n 0 = Inr (head_answer fs (length ?h) n)" for n
      using check_head_text[OF assms(1-3)] by (simp add: x(1))
    ultimately have check: "checkRequest s (length s) = (case head_answer fs (length ?h) (length s) of
        Complete \<Rightarrow> Inr True | Incomplete \<Rightarrow> Inr False
      | InChunks \<Rightarrow> check_chunks (?h @ x) (length ?h) (int (length x)))"
      using assms(6) h4 by (simp add: checkRequest_def x(1))
    have len: "length s = length ?h + length x" "length x + length w = length (announced_text b)"
      using arg_cong[OF x(2), of length] unfolding x(1) by (simp_all only: length_append)
    have small: "length ?h + length (announced_text b) < 2 ^ 31" using assms(7) len by simp
    consider "b = None" | d where "b = Some (Sized d)" | cs l where "b = Some (Chunked cs l)"
      by (cases b; metis body.exhaust)
    then show ?thesis
    proof cases
      case 1
      then show ?thesis using assms(4) len small unfolding check
        by (simp add: head_answer_def announced_text_def not_awaited_def)
    next
      case 2
      then obtain k v where a: "announced fs = Some (k, v)" "lower k = lower ''Content-Length''" "strto_ulong v = length d"
        using assms(4) by (auto split: option.splits)
      have "(length d + length ?h) mod 2 ^ 64 = length d + length ?h" using small 2 by (simp add: announced_text_def)
      moreover have "length d + length ?h \<le> length s \<longleftrightarrow> w = []" using len 2 by (cases w) (auto simp: announced_text_def)
      ultimately show ?thesis using a names_differ unfolding check by (simp add: head_answer_def not_awaited_def 2)
    next
      case 3
      then obtain k where a: "announced fs = Some (k, ''chunked'')" "lower k = lower ''Transfer-Encoding''" "chunks_ok cs l"
        using assms(4) by (auto split: option.splits)
      have "trim ''chunked'' blanks True = ''chunked''" by code_simp
      then have "head_answer fs (length ?h) (length s) = InChunks" using a by (simp add: head_answer_def)
      moreover have "check_chunks (?h @ x) (length ?h) (int (length x)) = Inr (length w \<le> 2)"
        using 3 x(2) small len by (intro check_chunks_prefix[OF a(3)]) (simp_all add: announced_text_def)
      ultimately show ?thesis unfolding check by (simp add: not_awaited_def 3)
    qed
  qed
qed

text \<open>
  C35. As a request comes in, \<open>checkRequest\<close> answers that it is complete exactly when its last byte
  has come, for requests without a body or of known length; for those in chunks when all but the
  last two bytes have come, the empty line behind the line of the last chunk, which the code does
  not wait for. The method must be there, and what has come be less than \<open>2 ^ 31\<close> bytes.
\<close>

theorem check_request_complete:
  assumes "ty \<in> {REQUEST_GET, REQUEST_POST, REQUEST_OPTIONS}" "target_ok u" "list_all field_ok fs" "announces fs b"
    "s @ w = request_text ty u fs @ announced_text b" "supported s" "length (s @ w) < 2 ^ 31"
  shows "checkRequest s (length s) = Inr (length w \<le> not_awaited b)"
  using assms by (rule check_complete)

lemma check_request_complete_witness:
  "checkRequest (''GET /'') (length ''GET /'') =
     Inr (length (drop 5 (request_text REQUEST_GET ''/a'' [(''Transfer-Encoding'', ''chunked'')] @
       announced_text (Some (Chunked [(''3'', ''abc'')] ''0'')))) \<le> not_awaited (Some (Chunked [(''3'', ''abc'')] ''0'')))"
proof (rule check_request_complete)
  let ?t = "request_text REQUEST_GET ''/a'' [(''Transfer-Encoding'', ''chunked'')] @
    announced_text (Some (Chunked [(''3'', ''abc'')] ''0''))"
  show "REQUEST_GET \<in> {REQUEST_GET, REQUEST_POST, REQUEST_OPTIONS}" by simp
  show "target_ok ''/a''" "list_all field_ok [(''Transfer-Encoding'', ''chunked'')]"
    by (simp_all add: target_ok_def field_ok_def trimmed_def line_clean_def line_end_def blanks_def)
  show "announces [(''Transfer-Encoding'', ''chunked'')] (Some (Chunked [(''3'', ''abc'')] ''0''))"
    by (simp add: announced_def chunks_ok_def line_clean_def line_end_def chunk_size_def strtol16_def signed_part_def
      is_space_def hex_prefix_def hex_digit_def is_digit_def less_eq_char_def)
  have "take 5 ?t = ''GET /''" by code_simp
  then show "''GET /'' @ drop 5 ?t = ?t" by (metis append_take_drop_id)
  show "supported ''GET /''" by code_simp
  have "length ?t = 60" by code_simp
  then show "length (''GET /'' @ drop 5 ?t) < 2 ^ 31" by simp
qed

text \<open>The chunks of a request are not waited for to their end.\<close>

lemma chunked_request_early:
  assumes "ty \<in> {REQUEST_GET, REQUEST_POST, REQUEST_OPTIONS}" "target_ok u" "list_all field_ok fs"
    "announces fs (Some (Chunked cs l))" "s @ crlf = request_text ty u fs @ chunked_text cs l" "supported s" "length (s @ crlf) < 2 ^ 31"
  shows "checkRequest s (length s) = Inr True"
  using check_complete[OF assms(1-4), of s crlf] assms(5-7) by (simp add: announced_text_def not_awaited_def)

text \<open>Before the method has come, a request is refused instead of waited for.\<close>

lemma check_request_early: "checkRequest ''GE'' 2 = Inl protocol_error"
  by code_simp

text \<open>Any other transfer encoding passes for a request without a body.\<close>

lemma check_request_identity:
  "checkRequest (request_text REQUEST_POST ''/'' [(''Transfer-Encoding'', ''identity''), (''Content-Length'', ''9'')]) 67 = Inr True"
proof -
  let ?fs = "[(''Transfer-Encoding'', ''identity''), (''Content-Length'', ''9'')]"
  let ?t = "request_text REQUEST_POST ''/'' ?fs"
  have ok: "REQUEST_POST \<in> {REQUEST_GET, REQUEST_POST, REQUEST_OPTIONS}" "target_ok ''/''" "list_all field_ok ?fs"
    by (simp_all add: target_ok_def field_ok_def trimmed_def line_clean_def line_end_def blanks_def)
  have len: "length ?t = 67" by code_simp
  have trim: "trim ''identity'' blanks True = ''identity''" by code_simp
  have "find_str (c_string ?t) (crlf @ crlf) 0 = Some (length ?t - 4)"
    using request_head_end(1)[OF ok, of "[]"] request_head_end(2)[OF ok] c_string_id by (simp add: find_str_def)
  moreover have "check_head ?t 67 67 0 = Inr Complete"
    using check_head_text[OF ok, of "[]" 67] by (simp add: len trim head_answer_def announced_def)
  ultimately show ?thesis using request_supported[OF ok(1), of "''/''" ?fs "[]"] len by (simp add: checkRequest_def)
qed

text \<open>The announced size of a chunk is trusted: the end of the next one is looked for far behind the buffer.\<close>

lemma check_chunks_overflow:
  "check_chunks (''7fffffff'' @ crlf) 0 10 = Inl OutOfBounds"
proof -
  have f: "find_str (c_string (''7fffffff'' @ crlf)) crlf 0 = Some 8" by code_simp
  have s: "chunk_size ''7fffffff'' = 2147483647"
    by (simp add: chunk_size_def strtol16_def signed_part_def is_space_def hex_prefix_def hex_digit_def is_digit_def less_eq_char_def)
  have m: "move_length 8 2147483647 = - 2147483637" by (simp add: move_length_def)
  show ?thesis
    using f by (subst check_chunks.simps) (simp add: s m Let_def check_chunks.simps)
qed

section \<open>Requests in chunks\<close>

lemma mm_find_insert_new: "mm_find k m = None \<Longrightarrow> upper k = upper k' \<Longrightarrow> mm_find k (mm_insert k' v m) = Some v"
  by (induction k' v m rule: mm_insert.induct) (auto simp: mm_find_def split: if_splits)

lemma getContentLength_set: "n < 2 ^ 64 \<Longrightarrow> getContentLength (setContentLength n h) = n"
  using strto_ulong_tostr[of n]
  by (simp add: getContentLength_def getHeader_def setContentLength_headers mm_find_insert_new mm_find_erase Let_def
    tostr_unsigned_def dec_digits)

lemma add_chunks_set:
  "cs \<noteq> [] \<Longrightarrow> add_chunks cs r =
     setContentLength (length (content r @ concat (List.map snd cs))) (r\<lparr>content := content r @ concat (List.map snd cs)\<rparr>)"
proof (induction cs r rule: add_chunks.induct)
  case (2 t d cs r)
  then show ?case by (cases "cs = []") (simp_all add: content_length_again)
qed simp

lemma chunked_text_longer: "length (concat (List.map snd cs)) + 2 \<le> length (chunked_text cs l)"
  by (induction cs l rule: chunked_text.induct) auto

text \<open>
  \<open>decode\<close> never finds a request in chunks complete, not even when all of it has come and
  \<open>checkRequest\<close> has said so, although it reads its content: the lengths it compares leave out the
  lines of the chunks.
\<close>

lemma chunked_request_incomplete:
  assumes "ty \<in> {REQUEST_GET, REQUEST_POST, REQUEST_OPTIONS}" "target_ok u" "list_all field_ok fs"
    "announces fs (Some (Chunked cs l))" "header_value fs ''Transfer-Encoding'' = ''chunked''"
    "header_value fs ''Content-Length'' = []" "header_value fs ''Host'' \<noteq> []" "content r = []"
    "length (request_text ty u fs @ chunked_text cs l) < 2 ^ 31"
  shows "checkRequest (request_text ty u fs @ chunked_text cs l) (length (request_text ty u fs @ chunked_text cs l)) = Inr True \<and>
    (case request_decode (request_text ty u fs @ chunked_text cs l) r of
       Inl e \<Rightarrow> False
     | Inr (b, d) \<Rightarrow> \<not> b \<and> content d = concat (List.map snd cs))"
proof -
  let ?h = "request_text ty u fs" and ?b = "chunked_text cs l" and ?c = "concat (List.map snd cs)"
  have check: "checkRequest (?h @ ?b) (length (?h @ ?b)) = Inr True"
    using check_complete[OF assms(1-4), of "?h @ ?b" "[]"] request_supported[OF assms(1)] assms(9)
    by (simp add: announced_text_def not_awaited_def)
  obtain q where q: "request_parseURL (''http://'' @ header_value fs ''Host'' @ u) (r\<lparr>requestType := ty, headers := mm_of fs\<rparr>) = q"
    by blast
  have h: "headers q = mm_of fs" "content q = []"
    using assms(7,8) q by (auto simp: request_parseURL_def getHeader_def header_value_def Let_def)
  let ?q = "q\<lparr>headLength := length ?h\<rparr>"
  have chunked: "getHeader ''Transfer-Encoding'' ?q = ''chunked''"
    using assms(5) by (simp add: getHeader_def h header_value_def)
  have ok: "chunks_ok cs l" using assms(4) by (auto split: option.splits)
  obtain v where loop: "chunk_loop ?b ?q = (True, v, add_chunks cs ?q)"
    using chunk_loop_prefix[OF ok, of ?b "[]" ?q] by auto
  have small: "length ?h + length ?c + 2 \<le> length ?h + length ?b" "length ?h + length ?b < 2 ^ 31"
    using chunked_text_longer[of cs l] assms(9) by simp_all
  have "getContentLength (add_chunks cs ?q) = length ?c"
  proof (cases "cs = []")
    case True
    then show ?thesis using assms(6) by (simp add: getContentLength_def getHeader_def h header_value_def Let_def)
  next
    case False
    then show ?thesis using small h(2) by (simp add: add_chunks_set getContentLength_set)
  qed
  then have n: "(getContentLength (add_chunks cs ?q) + headLength (add_chunks cs ?q)) mod 2 ^ 64 \<noteq> length ?h + length ?b"
    using small by (simp add: add_chunks_fields)
  have "request_decode (?h @ ?b) r = Inr (False, add_chunks cs ?q)"
    unfolding decode_request_text[OF assms(1-3)] q Let_def if_P[OF chunked] loop prod.case bool.case using n by simp
  then show ?thesis using check h(2) by (simp add: add_chunks_fields)
qed

lemma chunked_request_incomplete_witness:
  "checkRequest (request_text REQUEST_POST ''/a'' [(''Host'', ''a.b''), (''Transfer-Encoding'', ''chunked'')] @ chunked_text [(''3'', ''abc'')] ''0'')
      (length (request_text REQUEST_POST ''/a'' [(''Host'', ''a.b''), (''Transfer-Encoding'', ''chunked'')] @ chunked_text [(''3'', ''abc'')] ''0'')) =
      Inr True \<and>
    (case request_decode (request_text REQUEST_POST ''/a'' [(''Host'', ''a.b''), (''Transfer-Encoding'', ''chunked'')] @
        chunked_text [(''3'', ''abc'')] ''0'') (HttpRequest 0) of
       Inl e \<Rightarrow> False
     | Inr (b, d) \<Rightarrow> \<not> b \<and> content d = concat (List.map snd [(''3'', ''abc'')]))"
proof (rule chunked_request_incomplete)
  let ?fs = "[(''Host'', ''a.b''), (''Transfer-Encoding'', ''chunked'')]"
  show "REQUEST_POST \<in> {REQUEST_GET, REQUEST_POST, REQUEST_OPTIONS}" by simp
  show "target_ok ''/a''" "list_all field_ok ?fs"
    by (simp_all add: target_ok_def field_ok_def trimmed_def line_clean_def line_end_def blanks_def)
  have a: "announced ?fs = Some (''Transfer-Encoding'', ''chunked'')" by code_simp
  show "announces ?fs (Some (Chunked [(''3'', ''abc'')] ''0''))"
    by (simp add: a chunks_ok_def line_clean_def line_end_def chunk_size_def strtol16_def signed_part_def
      is_space_def hex_prefix_def hex_digit_def is_digit_def less_eq_char_def)
  show "header_value ?fs ''Transfer-Encoding'' = ''chunked''" "header_value ?fs ''Content-Length'' = []"
    "header_value ?fs ''Host'' \<noteq> []" "content (HttpRequest 0) = []" by code_simp+
  have "length (request_text REQUEST_POST ''/a'' ?fs @ chunked_text [(''3'', ''abc'')] ''0'') = 72" by code_simp
  then show "length (request_text REQUEST_POST ''/a'' ?fs @ chunked_text [(''3'', ''abc'')] ''0'') < 2 ^ 31" by simp
qed

end
