(* ===== verification/Http_Cookie.thy ===== *)
theory Http_Cookie
  imports Http
begin

text \<open>
  \<open>TC_HttpCookie\<close> (tcinclude/tc_http.cpp): the store of cookies of a client. Cookies come with
  responses and go with requests; a cookie only ever goes to hosts and paths inside the domain
  and path it was accepted for, which contain the host that set it, and each of its values came
  with a response that set it for that place. \<open>now\<close> is what \<open>time(NULL)\<close>
  answers, \<open>gm\<close> what \<open>timegm\<close> makes of a date.
\<close>

section \<open>Cookies\<close>

text \<open>The data is a \<open>map\<close> ordered by \<open>CmpCase\<close>: an entry is not overwritten by \<open>insert\<close>.\<close>

record cookie =
  data :: http_headers
  domain :: string
  path :: string
  expires :: int
  isSecure :: bool

definition data_insert :: "string \<Rightarrow> string \<Rightarrow> http_headers \<Rightarrow> http_headers" where
  "data_insert k v m = (if mm_find k m = None then mm_insert k v m else m)"

definition data_insert_all :: "http_headers \<Rightarrow> http_headers \<Rightarrow> http_headers" where
  "data_insert_all new m = fold (\<lambda>(k, v). data_insert k v) new m"

text \<open>\<open>strcasecmp\<close> and \<open>strcmp\<close> equal to zero.\<close>

definition strcase_eq :: "string \<Rightarrow> string \<Rightarrow> bool" where
  "strcase_eq a b \<longleftrightarrow> lower (c_string a) = lower (c_string b)"

definition str_eq :: "string \<Rightarrow> string \<Rightarrow> bool" where
  "str_eq a b \<longleftrightarrow> c_string a = c_string b"

definition matchDomain :: "string \<Rightarrow> string \<Rightarrow> bool" where
  "matchDomain sCookieDomain sDomain =
     (let s = lower sCookieDomain;
          s = (if find_char s CHR ''.'' 0 \<noteq> Some 0 then ''.'' @ s else s);
          pos = find_char s CHR ''.'' 0
      in if pos = None \<or> pos = Some 0 \<and> rfind_char s CHR ''.'' (length s) = Some 0 then False
         else
           let sLowerDomain = lower sDomain in
           length sDomain \<ge> length s \<and> take (length s) (drop (length sDomain - length s) sLowerDomain) = s \<or>
           sLowerDomain = drop 1 s)"

definition with_slash :: "string \<Rightarrow> string" where
  "with_slash s = (if last s = CHR ''/'' then s else s @ ''/'')"

definition matchPath :: "string \<Rightarrow> string \<Rightarrow> nat" where
  "matchPath sCookiePath sPath =
     (if sCookiePath = [] \<or> sPath = [] then 0
      else if find_str (with_slash sPath) (with_slash sCookiePath) 0 = Some 0 then length (with_slash sCookiePath)
      else 0)"

definition fixDomain :: "string \<Rightarrow> string option" where
  "fixDomain sDomain =
     (if sDomain = [] then None
      else let s = (if sDomain ! 0 \<noteq> CHR ''.'' then ''.'' @ sDomain else sDomain) in
           if find_char s CHR ''.'' 0 = rfind_char s CHR ''.'' (length s) then None else Some s)"

definition isCookieExpires :: "int \<Rightarrow> cookie \<Rightarrow> bool" where
  "isCookieExpires now c \<longleftrightarrow> expires c \<noteq> 0 \<and> expires c < now"

definition isCookieMatch :: "cookie \<Rightarrow> url \<Rightarrow> nat" where
  "isCookieMatch c u =
     (if \<not> matchDomain (domain c) (getFragment ''domain'' u) then 0
      else let len = matchPath (path c) (getFragment ''path'' u) in
           if len = 0 then 0
           else if isSecure c \<and> iURLType u \<noteq> HTTPS then 0
           else len)"

section \<open>Adding cookies\<close>

text \<open>
  The loop of \<open>addCookie\<close> over the cookies there are: those past their time go; one for the same
  place and time gives its data to the new one and goes; one for the same place and another
  time loses the name that is set.
\<close>

fun add_loop :: "int \<Rightarrow> string \<Rightarrow> cookie \<Rightarrow> cookie list \<Rightarrow> cookie list \<times> cookie" where
  "add_loop now sName new [] = ([], new)"
| "add_loop now sName new (c # cs) =
     (if isCookieExpires now c then add_loop now sName new cs
      else if strcase_eq (domain c) (domain new) \<and> str_eq (path c) (path new) \<and> isSecure c = isSecure new
      then if expires c = expires new
           then add_loop now sName (new\<lparr>data := data_insert_all (data c) (data new)\<rparr>) cs
           else let (cs, new) = add_loop now sName new cs in (c\<lparr>data := mm_erase sName (data c)\<rparr> # cs, new)
      else let (cs, new) = add_loop now sName new cs in (c # cs, new))"

definition add_cookie :: "int \<Rightarrow> cookie \<Rightarrow> cookie list \<Rightarrow> cookie list" where
  "add_cookie now c cookies =
     (case fixDomain (domain c) of
        None \<Rightarrow> cookies
      | Some sDomain \<Rightarrow>
          let new = c\<lparr>domain := sDomain\<rparr> in
          if path new = [] then cookies
          else let sName = (case data new of [] \<Rightarrow> [] | (k, _) # _ \<Rightarrow> k);
                   (cookies, new) = add_loop now sName new cookies
               in cookies @ [new])"

definition add_cookies :: "int \<Rightarrow> cookie list \<Rightarrow> cookie list \<Rightarrow> cookie list" where
  "add_cookies now cs cookies = fold (add_cookie now) cs cookies"

text \<open>The year of a short date is completed.\<close>

definition expires_date :: "string \<Rightarrow> string" where
  "expires_date value =
     (let value = (case replace value ''-'' '' '' of None \<Rightarrow> value | Some s \<Rightarrow> s) in
      if length value = 27 \<and> value ! 11 = CHR '' '' \<and> value ! 14 = CHR '' ''
      then let year = strto_int (take 2 (drop 12 value)) in
           take 12 value @ (if 69 \<le> year \<and> year \<le> 99 then ''19'' else ''20'') @ drop 12 value
      else value)"

definition name_value :: "string \<Rightarrow> string \<times> string" where
  "name_value s =
     (case cut_at CHR ''='' s of
        Some (a, b) \<Rightarrow> (trim a '' '' True, trim b blanks True)
      | None \<Rightarrow> (trim s blanks True, []))"

definition set_attribute :: "(string \<Rightarrow> int) \<Rightarrow> string \<Rightarrow> cookie \<Rightarrow> cookie" where
  "set_attribute gm s c =
     (let (name, value) = name_value s in
      if strcase_eq name ''secure'' then c\<lparr>isSecure := True\<rparr>
      else if strcase_eq name ''expires'' then c\<lparr>expires := gm (expires_date value)\<rparr>
      else if strcase_eq name ''path'' then c\<lparr>path := value\<rparr>
      else if strcase_eq name ''domain'' then c\<lparr>domain := value\<rparr>
      else if strcase_eq name ''httponly'' then c
      else c\<lparr>data := data_insert name value (data c)\<rparr>)"

definition parse_cookie :: "(string \<Rightarrow> int) \<Rightarrow> string \<Rightarrow> cookie" where
  "parse_cookie gm s =
     fold (set_attribute gm) (sepstr s '';'' False)
       \<lparr>data = [], domain = [], path = [], expires = 0, isSecure = False\<rparr>"

text \<open>What \<open>addCookie\<close> accepts of a \<open>Set-Cookie\<close> line from the response of a host and path.\<close>

definition accept_cookie :: "string \<Rightarrow> string \<Rightarrow> cookie \<Rightarrow> cookie option" where
  "accept_cookie sRspURLDomain sRspURLPath c =
     (case fixDomain (if domain c = [] then sRspURLDomain else domain c) of
        None \<Rightarrow> None
      | Some d \<Rightarrow>
          if \<not> matchDomain d sRspURLDomain then None
          else let p = (if path c = []
                        then case rfind_char sRspURLPath CHR ''/'' (length sRspURLPath) of
                               None \<Rightarrow> ''/''
                             | Some pos \<Rightarrow> take (pos + 1) sRspURLPath
                        else path c)
               in if matchPath p sRspURLPath = 0 then None else Some (c\<lparr>domain := d, path := p\<rparr>))"

definition add_response_cookies ::
  "(string \<Rightarrow> int) \<Rightarrow> int \<Rightarrow> string \<Rightarrow> string list \<Rightarrow> cookie list \<Rightarrow> cookie list" where
  "add_response_cookies gm now sRspURL vCookies cookies =
     (let cURL = snd (parseURL sRspURL URL_new);
          sRspURLDomain = lower (getFragment ''domain'' cURL);
          sRspURLPath = getFragment ''path'' cURL
      in fold (\<lambda>s cookies.
                 case accept_cookie sRspURLDomain sRspURLPath (parse_cookie gm s) of
                   None \<Rightarrow> cookies
                 | Some c \<Rightarrow> add_cookie now c cookies) vCookies cookies)"

section \<open>Giving cookies\<close>

definition getCookieForURL :: "int \<Rightarrow> string \<Rightarrow> cookie list \<Rightarrow> cookie list \<times> cookie list" where
  "getCookieForURL now sReqURL cookies =
     (let tURL = snd (parseURL sReqURL URL_new); cookies = List.filter (\<lambda>c. \<not> isCookieExpires now c) cookies in
      (List.filter (\<lambda>c. isCookieMatch c tURL \<noteq> 0) cookies, cookies))"

definition sent_pair :: "string \<times> string \<Rightarrow> string" where
  "sent_pair f =
     (if fst f \<noteq> [] \<and> snd f \<noteq> [] \<and> lower (snd f) \<noteq> ''null'' \<and> lower (snd f) \<noteq> ''deleted''
      then fst f @ ''='' @ snd f @ ''; '' else [])"

definition getCookieString :: "int \<Rightarrow> string \<Rightarrow> cookie list \<Rightarrow> string \<times> cookie list" where
  "getCookieString now sReqURL cookies =
     (let (found, cookies) = getCookieForURL now sReqURL cookies;
          s = concat (List.map (\<lambda>c. concat (List.map sent_pair (data c))) found)
      in (if length s \<ge> 2 then take (length s - 2) s else s, cookies))"

text \<open>The time given to these is not used.\<close>

definition getSerializeCookie :: "int \<Rightarrow> cookie list \<Rightarrow> cookie list \<times> cookie list" where
  "getSerializeCookie now cookies =
     (let cookies = List.filter (\<lambda>c. \<not> isCookieExpires now c) cookies in
      (List.filter (\<lambda>c. expires c \<noteq> 0) cookies, cookies))"

definition deleteExpires :: "int \<Rightarrow> bool \<Rightarrow> cookie list \<Rightarrow> cookie list" where
  "deleteExpires now bErase cookies =
     List.filter (\<lambda>c. \<not> (bErase \<and> expires c = 0 \<or> isCookieExpires now c)) cookies"

definition getAllCookie :: "int \<Rightarrow> cookie list \<Rightarrow> cookie list" where
  "getAllCookie now cookies = deleteExpires now False cookies"

section \<open>Where cookies go\<close>

text \<open>A domain with a point in front and another one; the hosts in it; the paths below a path.\<close>

definition dotted :: "string \<Rightarrow> bool" where
  "dotted d \<longleftrightarrow> d \<noteq> [] \<and> hd d = CHR ''.'' \<and> CHR ''.'' \<in> set (tl d)"

definition within :: "string \<Rightarrow> string \<Rightarrow> bool" where
  "within d h \<longleftrightarrow> drop (length h - length d) (lower h) = lower d \<or> lower h = tl (lower d)"

definition under :: "string \<Rightarrow> string \<Rightarrow> bool" where
  "under p q \<longleftrightarrow> p \<noteq> [] \<and> q \<noteq> [] \<and> is_prefix (with_slash p) (with_slash q)"

definition host_of :: "string \<Rightarrow> string" where
  "host_of u = getFragment ''domain'' (snd (parseURL u URL_new))"

definition path_of :: "string \<Rightarrow> string" where
  "path_of u = getFragment ''path'' (snd (parseURL u URL_new))"

lemma find_first_char: "find_char s c 0 = Some 0 \<longleftrightarrow> s \<noteq> [] \<and> hd s = c"
  by (cases s) (auto simp: find_char_def find_if_from_def)

lemma rfind_first: "s \<noteq> [] \<Longrightarrow> hd s = c \<Longrightarrow> rfind_char s c (length s) = Some 0 \<longleftrightarrow> c \<notin> set (tl s)"
proof
  assume s: "s \<noteq> []" "hd s = c"
  show "c \<notin> set (tl s)" if "rfind_char s c (length s) = Some 0"
  proof
    assume "c \<in> set (tl s)"
    then obtain a b where "tl s = a @ c # b" "c \<notin> set b" by (metis split_list_last)
    then have "s = (c # a) @ c # b" using s by (cases s) simp_all
    then have "rfind_char s c (length s) = Some (length (c # a))" using rfind_char_last[OF \<open>c \<notin> set b\<close>] by metis
    with that show False by simp
  qed
  show "rfind_char s c (length s) = Some 0" if "c \<notin> set (tl s)"
    using s rfind_char_last[OF that, of "[]"] by (cases s) simp_all
qed

lemma to_lower_dot: "to_lower c = CHR ''.'' \<longleftrightarrow> c = CHR ''.''"
proof (cases "CHR ''A'' \<le> c \<and> c \<le> CHR ''Z''")
  case True
  then have n: "65 \<le> (of_char c :: nat)" "(of_char c :: nat) \<le> 90" by (simp_all add: less_eq_char_def)
  then have "(of_char (to_lower c) :: nat) = of_char c + 32" using True by (simp add: to_lower_def)
  then have "to_lower c \<noteq> CHR ''.''" using n by auto
  moreover have "c \<noteq> CHR ''.''" using True by (auto simp: less_eq_char_def)
  ultimately show ?thesis by simp
next
  case False
  then show ?thesis unfolding to_lower_def if_not_P[OF False] by simp
qed

lemma lower_dot: "d \<noteq> [] \<Longrightarrow> hd (lower d) = CHR ''.'' \<longleftrightarrow> hd d = CHR ''.''"
  by (cases d) (simp_all add: lower_def to_lower_dot)

lemma lower_dots: "CHR ''.'' \<in> set (lower d) \<longleftrightarrow> CHR ''.'' \<in> set d"
  unfolding lower_def set_map using to_lower_dot by (metis imageE imageI)

lemma suffix_iff:
  assumes "length s = n" "length t = k" "t \<noteq> []"
  shows "k \<le> n \<and> take k (drop (n - k) s) = t \<longleftrightarrow> drop (n - k) s = t"
proof -
  have "length (drop (n - k) s) = min n k" using assms(1) by simp
  then show ?thesis using assms(2,3) by (metis linear min.absorb_iff2 min.absorb2 order_refl take_all)
qed

lemma matchDomain_iff:
  assumes "d \<noteq> []" "hd d = CHR ''.''"
  shows "matchDomain d h \<longleftrightarrow> dotted d \<and> within d h"
proof -
  let ?d = "lower d"
  have l: "?d \<noteq> []" "hd ?d = CHR ''.''" "length ?d = length d" "length (lower h) = length h"
    using assms lower_dot by (simp_all add: lower_def)
  have "CHR ''.'' \<in> set (tl ?d) \<longleftrightarrow> CHR ''.'' \<in> set (tl d)" using lower_dots[of "tl d"] by (simp add: lower_def map_tl)
  then have r: "rfind_char ?d CHR ''.'' (length ?d) = Some 0 \<longleftrightarrow> \<not> dotted d"
    using rfind_first[OF l(1,2)] assms by (simp add: dotted_def)
  have "length h \<ge> length d \<and> take (length d) (drop (length h - length d) (lower h)) = ?d \<longleftrightarrow>
      drop (length h - length d) (lower h) = ?d"
    using l by (intro suffix_iff) simp_all
  then show ?thesis
    using find_first_char[of ?d "CHR ''.''"] l r by (auto simp: matchDomain_def within_def Let_def drop_Suc)
qed

lemma fixDomain_dotted: "fixDomain d = Some d' \<Longrightarrow> dotted d'"
proof -
  assume f: "fixDomain d = Some d'"
  have "dotted s" if "s \<noteq> []" "hd s = CHR ''.''" "find_char s CHR ''.'' 0 \<noteq> rfind_char s CHR ''.'' (length s)" for s
    using that find_first_char[of s "CHR ''.''"] rfind_first[of s "CHR ''.''"] by (auto simp: dotted_def)
  then show ?thesis using f by (auto simp: fixDomain_def Let_def hd_conv_nth split: if_splits)
qed

lemma fixDomain_fixed: "dotted d \<Longrightarrow> fixDomain d = Some d"
  using find_first_char[of d "CHR ''.''"] rfind_first[of d "CHR ''.''"]
  by (auto simp: fixDomain_def dotted_def Let_def hd_conv_nth)

lemma matchPath_iff: "matchPath p q \<noteq> 0 \<longleftrightarrow> under p q"
  by (auto simp: matchPath_def under_def find_str_def index_str_0 with_slash_def)

text \<open>The history of a store: responses, requests and clean-ups.\<close>

datatype jar_op =
    Response int string "string list"
  | Request int string
  | Clean int bool

fun jar_step :: "(string \<Rightarrow> int) \<Rightarrow> jar_op \<Rightarrow> cookie list \<Rightarrow> cookie list" where
  "jar_step gm (Response t u vs) jar = add_response_cookies gm t u vs jar"
| "jar_step gm (Request t u) jar = snd (getCookieForURL t u jar)"
| "jar_step gm (Clean t b) jar = deleteExpires t b jar"

text \<open>
  A value that goes with a cookie came with a response: a line of it was accepted with this value
  for the same place, that is, the same domain and path (as C strings, which is how they are
  compared), the same time and the same mark for https only, from a host in the domain and a
  path below the path.
\<close>

definition came_with :: "(string \<Rightarrow> int) \<Rightarrow> jar_op list \<Rightarrow> cookie \<Rightarrow> string \<times> string \<Rightarrow> bool" where
  "came_with gm ops c f \<longleftrightarrow>
     (\<exists>t u vs s c'. Response t u vs \<in> set ops \<and> s \<in> set vs \<and>
        accept_cookie (lower (host_of u)) (path_of u) (parse_cookie gm s) = Some c' \<and> f \<in> set (data (parse_cookie gm s)) \<and>
        within (domain c') (host_of u) \<and> under (path c') (path_of u) \<and>
        strcase_eq (domain c') (domain c) \<and> str_eq (path c') (path c) \<and> isSecure c' = isSecure c \<and> expires c' = expires c)"

text \<open>The cookie itself was set from inside its domain and path, and all its values came with responses.\<close>

definition set_by :: "(string \<Rightarrow> int) \<Rightarrow> jar_op list \<Rightarrow> cookie \<Rightarrow> bool" where
  "set_by gm ops c \<longleftrightarrow>
     dotted (domain c) \<and>
     (\<exists>t u vs. Response t u vs \<in> set ops \<and> within (domain c) (host_of u) \<and> under (path c) (path_of u)) \<and>
     (\<forall>f\<in>set (data c). came_with gm ops c f)"

definition same_place :: "cookie \<Rightarrow> cookie \<Rightarrow> bool" where
  "same_place c d \<longleftrightarrow>
     strcase_eq (domain c) (domain d) \<and> str_eq (path c) (path d) \<and> isSecure c = isSecure d \<and> expires c = expires d"

lemma same_place_data: "same_place c (c\<lparr>data := x\<rparr>)" "same_place c c"
  by (simp_all add: same_place_def strcase_eq_def str_eq_def)

lemma came_with_place: "came_with gm ops c f \<Longrightarrow> same_place c d \<Longrightarrow> came_with gm ops d f"
  unfolding came_with_def same_place_def strcase_eq_def str_eq_def by metis

lemma set_by_less:
  "set_by gm ops c \<Longrightarrow> domain d = domain c \<Longrightarrow> path d = path c \<Longrightarrow> isSecure d = isSecure c \<Longrightarrow> expires d = expires c \<Longrightarrow>
   \<forall>f\<in>set (data d). came_with gm ops c f \<Longrightarrow> set_by gm ops d"
  by (auto simp: set_by_def same_place_def strcase_eq_def str_eq_def intro!: came_with_place[of gm ops c _ d])

lemma data_insert_all_set: "set (data_insert_all new m) \<subseteq> set new \<union> set m"
proof (induction new arbitrary: m)
  case (Cons f new)
  have "set (data_insert (fst f) (snd f) m) \<subseteq> insert f (set m)" by (auto simp: data_insert_def mm_insert_set)
  then show ?case using Cons.IH[of "data_insert (fst f) (snd f) m"] by (auto simp: data_insert_all_def split_beta)
qed (simp add: data_insert_all_def)

lemma add_loop_set_by:
  "add_loop now sName new cs = (cs', new') \<Longrightarrow> list_all (set_by gm ops) cs \<Longrightarrow> set_by gm ops new \<Longrightarrow>
   list_all (set_by gm ops) cs' \<and> set_by gm ops new'"
proof (induction cs arbitrary: new cs' new')
  case (Cons c cs)
  let ?merge = "new\<lparr>data := data_insert_all (data c) (data new)\<rparr>" and ?less = "c\<lparr>data := mm_erase sName (data c)\<rparr>"
  obtain a b where ab: "add_loop now sName new cs = (a, b)" by (cases "add_loop now sName new cs")
  have c: "set_by gm ops c" "list_all (set_by gm ops) cs" using Cons.prems(2) by simp_all
  have less: "set_by gm ops ?less"
    using c(1) by (rule set_by_less) (use c(1) in \<open>auto simp: mm_erase_def set_by_def\<close>)
  have merge: "set_by gm ops ?merge" if "same_place c new"
    using Cons.prems(3)
  proof (rule set_by_less)
    show "\<forall>f\<in>set (data ?merge). came_with gm ops new f"
      using data_insert_all_set[of "data c" "data new"] c(1) Cons.prems(3) came_with_place[OF _ that] by (auto simp: set_by_def)
  qed simp_all
  consider "isCookieExpires now c" | "\<not> isCookieExpires now c" "same_place c new"
    | "\<not> isCookieExpires now c" "strcase_eq (domain c) (domain new) \<and> str_eq (path c) (path new) \<and> isSecure c = isSecure new"
      "expires c \<noteq> expires new"
    | "\<not> isCookieExpires now c" "\<not> (strcase_eq (domain c) (domain new) \<and> str_eq (path c) (path new) \<and> isSecure c = isSecure new)"
    unfolding same_place_def by blast
  then show ?case
  proof cases
    case 1
    then show ?thesis using Cons.prems by (intro Cons.IH[OF _ c(2), of new]) simp_all
  next
    case 2
    then show ?thesis using Cons.prems(1) merge by (intro Cons.IH[OF _ c(2), of ?merge]) (simp_all add: same_place_def)
  next
    case 3
    then show ?thesis using Cons.prems(1) ab Cons.IH[OF ab c(2) Cons.prems(3)] less by auto
  next
    case 4
    then show ?thesis using Cons.prems(1) ab Cons.IH[OF ab c(2) Cons.prems(3)] c(1) by auto
  qed
qed simp

lemma add_cookie_set_by:
  assumes "list_all (set_by gm ops) jar" "set_by gm ops c"
  shows "list_all (set_by gm ops) (add_cookie now c jar)"
proof -
  have "fixDomain (domain c) = Some (domain c)" using assms(2) fixDomain_fixed by (simp add: set_by_def)
  moreover obtain cs' new' where l: "add_loop now (case data c of [] \<Rightarrow> [] | (k, _) # _ \<Rightarrow> k) c jar = (cs', new')"
    by (cases "add_loop now (case data c of [] \<Rightarrow> [] | (k, _) # _ \<Rightarrow> k) c jar")
  ultimately have "add_cookie now c jar = jar \<or> add_cookie now c jar = cs' @ [new']"
    by (simp add: add_cookie_def Let_def)
  then show ?thesis using add_loop_set_by[OF l assms] assms(1) by auto
qed

lemma accept_set_by:
  assumes "accept_cookie (lower (host_of u)) (path_of u) (parse_cookie gm s) = Some c'" "Response t u vs \<in> set ops" "s \<in> set vs"
  shows "set_by gm ops c'"
proof -
  obtain c where c: "c = parse_cookie gm s" by blast
  obtain p where p: "p = (if path c = [] then case rfind_char (path_of u) CHR ''/'' (length (path_of u)) of
      None \<Rightarrow> ''/'' | Some pos \<Rightarrow> take (pos + 1) (path_of u) else path c)" by blast
  obtain d where d: "fixDomain (if domain c = [] then lower (host_of u) else domain c) = Some d"
    "c' = c\<lparr>domain := d, path := p\<rparr>" "matchDomain d (lower (host_of u))" "matchPath p (path_of u) \<noteq> 0"
    using assms(1)[folded c] by (cases "fixDomain (if domain c = [] then lower (host_of u) else domain c)")
      (simp_all add: accept_cookie_def Let_def p[symmetric] split: if_split_asm)
  have dot: "dotted d" using fixDomain_dotted[OF d(1)] .
  have "lower (lower s) = lower s" for s
  proof -
    have "to_lower (to_lower c) = to_lower c" for c
    proof (cases "CHR ''A'' \<le> c \<and> c \<le> CHR ''Z''")
      case True
      then have "65 \<le> (of_char c :: nat)" "(of_char c :: nat) \<le> 90" by (simp_all add: less_eq_char_def)
      then have "\<not> (CHR ''A'' \<le> to_lower c \<and> to_lower c \<le> CHR ''Z'')"
        using True by (simp add: to_lower_def less_eq_char_def)
      then show ?thesis unfolding to_lower_def[of "to_lower c"] by (rule if_not_P)
    next
      case False
      then have "to_lower c = c" unfolding to_lower_def by (rule if_not_P)
      then show ?thesis by simp
    qed
    then show ?thesis by (simp add: lower_def)
  qed
  moreover have "length (lower s) = length s" for s by (simp add: lower_def)
  ultimately have "within d (host_of u)"
    using d(3) matchDomain_iff[of d "lower (host_of u)"] dot by (simp add: dotted_def within_def)
  moreover have "under p (path_of u)" using d(4) matchPath_iff by blast
  moreover have "domain c' = d" "path c' = p" "data c' = data c" unfolding d(2) by simp_all
  ultimately have place: "dotted (domain c')" "within (domain c') (host_of u)" "under (path c') (path_of u)" "data c' = data c"
    using dot by simp_all
  have "came_with gm ops c' f" if "f \<in> set (data c')" for f
    unfolding came_with_def using assms place that c
    by (intro exI[of _ t] exI[of _ u] exI[of _ vs] exI[of _ s] exI[of _ c']) (simp add: strcase_eq_def str_eq_def)
  then show ?thesis using place assms(2) unfolding set_by_def by blast
qed

lemma jar_step_set_by:
  assumes "list_all (set_by gm ops) jar" "op \<in> set ops"
  shows "list_all (set_by gm ops) (jar_step gm op jar)"
proof (cases op)
  case (Response t u vs)
  let ?f = "\<lambda>s cookies. case accept_cookie (lower (host_of u)) (path_of u) (parse_cookie gm s) of
      None \<Rightarrow> cookies | Some c \<Rightarrow> add_cookie t c cookies"
  have "list_all (set_by gm ops) (?f s jar)" if "list_all (set_by gm ops) jar" "s \<in> set vs" for s jar
    using that accept_set_by[of u gm s _ t vs ops] add_cookie_set_by assms(2) unfolding Response by (auto split: option.split)
  then have "list_all (set_by gm ops) (fold ?f xs jar)" if "set xs \<subseteq> set vs" for xs
    using assms(1) that by (induction xs arbitrary: jar) auto
  then show ?thesis using Response by (simp add: add_response_cookies_def host_of_def path_of_def Let_def)
qed (use assms(1) in \<open>auto simp: getCookieForURL_def deleteExpires_def list_all_iff Let_def\<close>)

text \<open>
  C36. After any history of responses, requests and clean-ups, a cookie that goes with a request has
  a domain of at least two parts that contains both the host of the request and the host of a
  response that set it, and a path above both paths; it is not past its time, and when it is
  marked secure the request is made with https. Every name and value in it came with a response
  of the history, in a line that was accepted for the same domain and path (compared as C
  strings, domains without case), the same time and the same mark, from a host inside that domain
  and a path below that path: nothing set for one place goes to another.
\<close>

theorem cookie_isolation:
  assumes "c \<in> set (fst (getCookieForURL now url (fold (jar_step gm) ops [])))"
  shows "dotted (domain c) \<and> within (domain c) (host_of url) \<and> under (path c) (path_of url) \<and>
    (\<exists>t u vs. Response t u vs \<in> set ops \<and> within (domain c) (host_of u) \<and> under (path c) (path_of u)) \<and>
    (\<forall>f\<in>set (data c). came_with gm ops c f) \<and>
    \<not> isCookieExpires now c \<and> (isSecure c \<longrightarrow> iURLType (snd (parseURL url URL_new)) = HTTPS)"
proof -
  have "list_all (set_by gm ops) (fold (jar_step gm) os jar)" if "list_all (set_by gm ops) jar" "set os \<subseteq> set ops" for os jar
    using that jar_step_set_by by (induction os arbitrary: jar) auto
  then have "list_all (set_by gm ops) (fold (jar_step gm) ops [])" by simp
  then have s: "set_by gm ops c" using assms by (auto simp: getCookieForURL_def list_all_iff Let_def)
  then have dom: "domain c \<noteq> []" "hd (domain c) = CHR ''.''" by (auto simp: set_by_def dotted_def)
  have "isCookieMatch c (snd (parseURL url URL_new)) \<noteq> 0" "\<not> isCookieExpires now c"
    using assms by (auto simp: getCookieForURL_def Let_def)
  then have "matchDomain (domain c) (host_of url)" "matchPath (path c) (path_of url) \<noteq> 0"
    "isSecure c \<longrightarrow> iURLType (snd (parseURL url URL_new)) = HTTPS"
    by (auto simp: isCookieMatch_def host_of_def path_of_def Let_def split: if_splits)
  then show ?thesis
    using s[unfolded set_by_def] matchDomain_iff[OF dom] matchPath_iff \<open>\<not> isCookieExpires now c\<close> by blast
qed

text \<open>For strings without null characters the places compared are the same.\<close>

lemma strcase_eq_clean: "CHR 0x00 \<notin> set a \<Longrightarrow> CHR 0x00 \<notin> set b \<Longrightarrow> strcase_eq a b \<longleftrightarrow> lower a = lower b"
  using c_string_append[of a "[]"] c_string_append[of b "[]"] by (simp add: strcase_eq_def) (simp add: c_string_def)

lemma matchDomain_deep: "matchDomain ''.z.com'' ''x.y.z.com''"
  by code_simp

definition sample_jar :: "jar_op list" where
  "sample_jar = [Response 10 ''http://www.a.b/x/y'' [''k=v; domain=a.b; path=/x; secure'']]"

lemma cookie_isolation_witness:
  "(let c = hd (fst (getCookieForURL 20 ''https://m.a.b/x/z'' (fold (jar_step (\<lambda>_. 0)) sample_jar []))) in
    data c = [(''k'', ''v'')] \<and> came_with (\<lambda>_. 0) sample_jar c (''k'', ''v'') \<and> within (domain c) (host_of ''https://m.a.b/x/z'') \<and>
    under (path c) (path_of ''https://m.a.b/x/z'') \<and> \<not> isCookieExpires 20 c)"
proof -
  let ?cs = "fst (getCookieForURL 20 ''https://m.a.b/x/z'' (fold (jar_step (\<lambda>_. 0)) sample_jar []))"
  have "?cs \<noteq> []" by code_simp
  then have "hd ?cs \<in> set ?cs" by (rule hd_in_set)
  moreover have "data (hd ?cs) = [(''k'', ''v'')]" by code_simp
  ultimately show ?thesis using cookie_isolation[of "hd ?cs"] by (simp add: Let_def)
qed

end
