(* ===== verification/Send_Http.thy ===== *)
theory Send_Http
  imports Client Http
begin

text \<open>
  \<open>Client::SendHttp\<close> (src/Client.cpp): the HTTP request of the load test. Every segment is decoded
  on its own, with the length of all segments so far. A response in one segment is handed out;
  one cut behind its header is never found, and the answer after the timeout is a cleared
  buffer; of one cut inside its header the second segment may be taken for a response.
\<close>

section \<open>Sending a request\<close>

text \<open>
  What becomes of a segment: the response is found, with the word on whether the peer closes,
  or the loop goes on. Exceptions are caught.
\<close>

definition judge_segment :: "string \<Rightarrow> int \<Rightarrow> bool option result" where
  "judge_segment chunk total_size =
     (case response_decode_ptr chunk (nat (total_size mod 2 ^ 64)) HttpResponse of
        Inl (Thrown _) \<Rightarrow> Inr None
      | Inl e \<Rightarrow> Inl e
      | Inr (bHttp, r) \<Rightarrow>
          Inr (if bHttp \<and> length (content r) \<noteq> 0 then Some (getHeader ''Connection'' r = ''close'') else None))"

text \<open>
  The loop over the answers of \<open>recv\<close>; \<open>None\<close> when it is still waiting after the last one. An
  unknown error counts as \<open>-1\<close> bytes in a cleared chunk.
\<close>

fun http_loop :: "recv_answer list \<Rightarrow> int \<Rightarrow> (string \<times> bool) result option" where
  "http_loop [] total_size = None"
| "http_loop (RecvError e # rs) total_size =
     (case e of
        EAGAIN \<Rightarrow> Some (Inr (zero_chunk, False))
      | EINTR \<Rightarrow> http_loop rs total_size
      | ENOENT \<Rightarrow> Some (Inr (zero_chunk, False))
      | OtherErrno \<Rightarrow>
          (case judge_segment zero_chunk (total_size - 1) of
             Inl e \<Rightarrow> Some (Inl e)
           | Inr (Some closed) \<Rightarrow> Some (Inr (zero_chunk, closed))
           | Inr None \<Rightarrow> http_loop rs (total_size - 1)))"
| "http_loop (Segment s # rs) total_size =
     (if length s = 0 then http_loop rs total_size
      else let chunk = chunk_of s; total_size = total_size + int (min 1024 (length s)) in
           case judge_segment chunk total_size of
             Inl e \<Rightarrow> Some (Inl e)
           | Inr (Some closed) \<Rightarrow> Some (Inr (chunk, closed))
           | Inr None \<Rightarrow> http_loop rs total_size)"

definition SendHttp :: "net \<Rightarrow> string \<Rightarrow> client \<Rightarrow> (int \<times> string) result option \<times> client" where
  "SendHttp n httpBuffer c =
     (case connect_client n c of
        (Inl e, c) \<Rightarrow> (Some (Inr (e, [])), c)
      | (Inr _, c) \<Rightarrow>
          if send_ret n mod 2 ^ 32 \<noteq> int (length httpBuffer)
          then (Some (Inr (SDK_ERR_SOCKET, [])), c\<lparr>sockfd := - 1\<rparr>)
          else case http_loop (recvs n) 0 of
                 None \<Rightarrow> (None, c)
               | Some (Inl e) \<Rightarrow> (Some (Inl e), c)
               | Some (Inr (chunk, closed)) \<Rightarrow>
                   (Some (Inr (SDK_SUCCESS, chunk)), if closed then c\<lparr>sockfd := - 1\<rparr> else c))"

section \<open>Responses in one segment and in several\<close>

lemma judge_sized:
  assumes "response_ok v st ab fs (Sized d)" "length a < 1024" "CHR 0x00 \<notin> set a" "a @ w = head_text v st ab fs @ d"
    "length (head_text v st ab fs) \<le> length a" "length (a @ w) < 2 ^ 62" "st \<noteq> 204" "\<not> redirects st fs" "d \<noteq> []"
  shows "judge_segment (chunk_of a) (int (length a)) =
    Inr (if w = [] then Some (header_value fs ''Connection'' = ''close'') else None)"
proof -
  let ?h = "head_text v st ab fs" and ?r = "after_head v st ab fs (Sized d)"
  obtain x where x: "a = ?h @ x" "x @ w = d" using prefix_split[OF assms(4,5)] by auto
  note ok = assms(1)[unfolded response_ok_def]
  have d: "d \<noteq> []" "length d < no_length" using ok assms(9) by simp_all
  have len: "length d + length ?h = length a + length w" using arg_cong[OF assms(4), of length] by simp
  have "find_str (c_string (chunk_of a)) (crlf @ crlf) 0 \<noteq> None"
    using ok head_end[of v st ab fs x] chunk_c_string[OF assms(2,3)] by (simp add: x(1) find_str_def del: not_None_eq)
  moreover have "take (length a) (chunk_of a) = a" "length a \<le> length (chunk_of a)" "length a < 2 ^ 63"
    using assms(2) by (simp_all add: chunk_short)
  moreover have "incrementDecode a HttpResponse = Inr (length d \<le> length x, [], ?r\<lparr>content := x\<rparr>)"
    using decode_head[OF assms(1,7), of x] d assms(8)
    by (auto simp: x(1) decode_body_def after_head_def Let_def)
  moreover have "decoded (length a) (?r\<lparr>content := x\<rparr>) \<longleftrightarrow> w = []"
  proof -
    have "getContentLength (?r\<lparr>content := x\<rparr>) = length d"
      using ok by (auto simp: getContentLength_def getHeader_def after_head_def mm_find_erase length_names header_value_def Let_def)
    moreover have "(length d + length ?h) mod 2 ^ 64 = length d + length ?h" using len assms(6) by simp
    moreover have "length d + length ?h \<le> length a \<longleftrightarrow> w = []" using len by (cases w) auto
    ultimately show ?thesis using d by (simp add: decoded_def after_head_def)
  qed
  moreover have "getHeader ''Connection'' (?r\<lparr>content := x\<rparr>) = header_value fs ''Connection''"
  proof -
    have "upper ''Connection'' \<noteq> upper ''Transfer-Encoding''" by code_simp
    then show ?thesis by (simp add: getHeader_def after_head_def mm_find_erase header_value_def)
  qed
  moreover have "x \<noteq> []" if "w = []" using x(2) d(1) that by simp
  ultimately show ?thesis by (auto simp: judge_segment_def response_decode_ptr_def)
qed

lemma judge_headless:
  assumes "length b < 1024" "CHR 0x00 \<notin> set b" "find_str b (crlf @ crlf) 0 = None"
  shows "judge_segment (chunk_of b) n = Inr None"
  using chunk_c_string[OF assms(1,2)] chunk_ends[OF assms(1)] assms(3) by (simp add: judge_segment_def response_decode_ptr_def)

text \<open>
  C37. A connected client whose request was sent whole gets a response of known length, with a
  body and any status but 204 and a redirection, that comes in one segment of less than 1024
  bytes, filled up with null characters, and drops the connection exactly when the response says
  so. When the same response comes in two segments, the cut behind its header and no empty line
  in the second one, the client waits for the timeout and answers with success and 1024 null
  characters. (For a cut inside the header see \<open>send_http_cut_in_header\<close>.)
\<close>

theorem send_http_one_segment:
  assumes "sockfd c \<noteq> - 1" "send_ret n = int (length req)" "length req < 2 ^ 32"
    "response_ok v st ab fs (Sized d)" "s = head_text v st ab fs @ d" "length s < 1024" "CHR 0x00 \<notin> set d"
    "s = a @ b" "length (head_text v st ab fs) \<le> length a" "b \<noteq> []" "find_str b (crlf @ crlf) 0 = None"
    "st \<noteq> 204" "\<not> redirects st fs" "d \<noteq> []"
  shows "SendHttp (n\<lparr>recvs := Segment s # rs\<rparr>) req c =
      (Some (Inr (SDK_SUCCESS, s @ replicate (1024 - length s) CHR 0x00)),
       if header_value fs ''Connection'' = ''close'' then c\<lparr>sockfd := - 1\<rparr> else c) \<and>
    SendHttp (n\<lparr>recvs := [Segment a, Segment b, RecvError EAGAIN]\<rparr>) req c =
      (Some (Inr (SDK_SUCCESS, replicate 1024 CHR 0x00)), c)"
proof -
  have ok: "status_ok v st ab" "list_all field_ok fs" using assms(4) by (simp_all add: response_ok_def)
  have head: "CHR 0x00 \<notin> set (head_text v st ab fs)"
    using line_clean_no_null[OF status_line_clean[OF ok(1), THEN conjunct1]] header_text_no_null[OF ok(2)]
    by (simp add: head_text_def)
  then have nul: "CHR 0x00 \<notin> set s" using assms(5,7) by simp
  have h4: "4 \<le> length (head_text v st ab fs)" by (simp add: head_text_def)
  have nul2: "CHR 0x00 \<notin> set a" "CHR 0x00 \<notin> set b" using nul unfolding assms(8) by simp_all
  have len: "length a < 1024" "length b < 1024" "a \<noteq> []" "s \<noteq> []" using assms(6,8,9) h4 by auto
  have whole: "judge_segment (chunk_of s) (int (length s)) = Inr (Some (header_value fs ''Connection'' = ''close''))"
    using judge_sized[OF assms(4,6) nul, of "[]"] assms(5,6,12-14) by simp
  have part: "judge_segment (chunk_of a) (int (length a)) = Inr None"
    using judge_sized[OF assms(4) len(1) nul2(1) _ assms(9), of b] assms(5,6,8,10,12-14) by simp
  have rest: "judge_segment (chunk_of b) m = Inr None" for m
    using judge_headless[OF len(2) nul2(2) assms(11)] .
  have sent: "send_ret n mod 2 ^ 32 = int (length req)" using assms(2,3) by simp
  show ?thesis
    using assms(1,6,10) sent whole part rest len
    by (simp add: SendHttp_def connect_client_def chunk_short[OF assms(6)] zero_chunk_def min_def Let_def del: replicate_0 replicate_Suc)
qed

lemma send_http_one_segment_witness:
  "SendHttp (quiet_net\<lparr>recvs := [Segment (head_text ''HTTP/1.1'' 200 ''OK'' [(''Content-Length'', ''2'')] @ ''hi'')]\<rparr>) ''xx'' live_client =
      (Some (Inr (SDK_SUCCESS, (head_text ''HTTP/1.1'' 200 ''OK'' [(''Content-Length'', ''2'')] @ ''hi'') @
         replicate (1024 - length (head_text ''HTTP/1.1'' 200 ''OK'' [(''Content-Length'', ''2'')] @ ''hi'')) CHR 0x00)),
       if header_value [(''Content-Length'', ''2'')] ''Connection'' = ''close'' then live_client\<lparr>sockfd := - 1\<rparr> else live_client) \<and>
    SendHttp (quiet_net\<lparr>recvs := [Segment (head_text ''HTTP/1.1'' 200 ''OK'' [(''Content-Length'', ''2'')] @ ''h''), Segment ''i'',
        RecvError EAGAIN]\<rparr>) ''xx'' live_client =
      (Some (Inr (SDK_SUCCESS, replicate 1024 CHR 0x00)), live_client)"
proof (rule send_http_one_segment[where d = "''hi''"])
  show "sockfd live_client \<noteq> - 1" "send_ret quiet_net = int (length ''xx'')" "length ''xx'' < 2 ^ 32"
    by (simp_all add: live_client_def quiet_net_def)
  have "strto_ulong ''2'' = 2" by (simp add: strto_ulong_def strtoul_def signed_part_def is_space_def is_digit_def less_eq_char_def)
  then show "response_ok ''HTTP/1.1'' 200 ''OK'' [(''Content-Length'', ''2'')] (Sized ''hi'')"
    by (simp add: response_ok_def status_ok_def field_ok_def line_clean_def line_end_def blanks_def trimmed_def
      tostr_200 mm_of_def mm_find_def header_value_def length_names no_length_def)
  have "length (head_text ''HTTP/1.1'' 200 ''OK'' [(''Content-Length'', ''2'')]) = 38" by code_simp
  then show "length (head_text ''HTTP/1.1'' 200 ''OK'' [(''Content-Length'', ''2'')] @ ''hi'') < 1024" by simp
qed (simp_all add: find_str_def crlf_def redirects_def)

text \<open>
  A response cut inside its header: what comes second is decoded as a response of its own, and
  handed out without the first part.
\<close>

lemma send_http_cut_in_header:
  "SendHttp (quiet_net\<lparr>recvs := [Segment (''HTTP/1.1 200 OK'' @ crlf), Segment (''Content-Length: 2'' @ crlf @ crlf @ ''hi'')]\<rparr>)
     ''xx'' live_client =
   (Some (Inr (SDK_SUCCESS, ''Content-Length: 2'' @ crlf @ crlf @ ''hi'' @ replicate 1001 CHR 0x00)), live_client)"
proof -
  have first: "judge_segment (chunk_of (''HTTP/1.1 200 OK'' @ crlf)) 17 = Inr None"
    by (rule judge_headless) (simp_all add: crlf_def find_str_def)
  let ?s = "''Content-Length: 2'' @ crlf @ crlf @ ''hi''"
  have len: "length ?s = 23" by (simp add: crlf_def)
  then have small: "length ?s < 1024" by simp
  have dec: "case incrementDecode (?s @ replicate 17 CHR 0x00) HttpResponse of
      Inl e \<Rightarrow> False | Inr (_, _, r) \<Rightarrow> decoded 40 r \<and> length (content r) \<noteq> 0 \<and> getHeader ''Connection'' r \<noteq> ''close''"
    by (simp add: incrementDecode_def find_str_def parseResponseHeader_def getLine_def line_end_def trim_def trimleft_def trimright_def
      blanks_def find_char_def find_if_from_def HttpResponse_def response_reset_def http_reset_def parseHeader_def header_loop.simps
      crlf_def c_string_def strto_int_def strtol_def signed_part_def is_space_def is_digit_def less_eq_char_def Let_def
      decode_body_def decoded_def getHeader_def eraseHeader_def mm_find_def mm_erase_def setContentLength_def setHeader_def upper_def to_upper_def)
  have find: "find_str (c_string (chunk_of ?s)) (crlf @ crlf) 0 \<noteq> None"
  proof -
    have "c_string (chunk_of ?s) = ?s" using small by (rule chunk_c_string) (simp add: crlf_def)
    moreover have "find_str ?s (crlf @ crlf) 0 \<noteq> None" by code_simp
    ultimately show ?thesis by (simp only: simp_thms)
  qed
  have chunk: "chunk_of ?s = ?s @ replicate 1001 CHR 0x00" using chunk_short[OF small] unfolding len by simp
  then have "take 40 (chunk_of ?s) = ?s @ replicate 17 CHR 0x00" "length (chunk_of ?s) = 1024"
    unfolding chunk take_append length_append len by simp_all
  then have second: "judge_segment (chunk_of ?s) 40 = Inr (Some False)"
    using dec find by (auto simp: judge_segment_def response_decode_ptr_def split: sum.splits simp del: append.simps)
  have "chunk_of ?s \<noteq> []" "length (''HTTP/1.1 200 OK'' @ crlf) = 17" unfolding chunk by (simp_all add: crlf_def)
  then show ?thesis using first second chunk len
    by (simp add: SendHttp_def connect_client_def quiet_net_def live_client_def Let_def del: append.simps append_assoc)
qed

end
