(* ===== verification/Pool.thy ===== *)
theory Pool
  imports Mem_Multi
begin

text \<open>
  The blocks of \<open>TC_MemMultiChunkAllocator\<close> by their addresses, as the hash map uses them
  (tcinclude/tc_mem_chunk.cpp, \<open>allocate\<close> and \<open>deallocate\<close>): which addresses are blocks in
  use, and the interface the hash map relies on.
\<close>

section \<open>The interface\<close>

text \<open>
  \<open>live s\<close> is the set of the addresses handed out and not given back, \<open>like s s'\<close> holds of two
  states of the same memory, and \<open>size_ok\<close> bounds the sizes of the blocks.
\<close>

locale address_allocator =
  fixes alloc :: "nat \<Rightarrow> 's \<Rightarrow> ((nat \<times> nat) option \<times> 's) result"
    and release :: "nat \<Rightarrow> 's \<Rightarrow> 's result"
    and ok :: "'s \<Rightarrow> bool"
    and live :: "'s \<Rightarrow> nat set"
    and like :: "'s \<Rightarrow> 's \<Rightarrow> bool"
    and capacity :: "'s \<Rightarrow> nat"
    and size_ok :: "nat \<Rightarrow> bool"
  assumes alloc_cases: "ok s \<Longrightarrow> alloc need s = Inr (None, s) \<or>
      (\<exists>p b s'. alloc need s = Inr (Some (p, b), s') \<and> ok s' \<and> p \<notin> live s \<and> live s' = insert p (live s) \<and>
        like s s' \<and> size_ok b)"
    and release_live: "ok s \<Longrightarrow> p \<in> live s \<Longrightarrow> \<exists>s'. release p s = Inr s' \<and> ok s' \<and> live s' = live s - {p} \<and> like s s'"
    and live_card: "ok s \<Longrightarrow> finite (live s) \<and> card (live s) \<le> capacity s"
    and live_pos: "ok s \<Longrightarrow> p \<in> live s \<Longrightarrow> 0 < p"
    and like_refl: "like s s"
    and like_trans: "like s s' \<Longrightarrow> like s' s'' \<Longrightarrow> like s s''"
    and like_capacity: "like s s' \<Longrightarrow> capacity s' = capacity s"
begin

text \<open>A list of distinct blocks is given back, and nothing else.\<close>

fun release_all :: "nat list \<Rightarrow> 's \<Rightarrow> 's result" where
  "release_all [] s = Inr s"
| "release_all (p # ps) s = bindE (release p s) (release_all ps)"

lemma release_all_ok:
  "ok s \<Longrightarrow> set ps \<subseteq> live s \<Longrightarrow> distinct ps \<Longrightarrow>
   \<exists>s'. release_all ps s = Inr s' \<and> ok s' \<and> live s' = live s - set ps \<and> like s s'"
proof (induction ps arbitrary: s)
  case Nil
  then show ?case by (simp add: like_refl)
next
  case (Cons p ps)
  then obtain s1 where s1: "release p s = Inr s1" "ok s1" "live s1 = live s - {p}" "like s s1"
    using release_live[of s p] by auto
  then have "set ps \<subseteq> live s1" using Cons.prems by auto
  with Cons.IH[OF s1(2)] Cons.prems(3) obtain s' where
    "release_all ps s1 = Inr s'" "ok s'" "live s' = live s1 - set ps" "like s1 s'" by auto
  with s1 like_trans show ?case by (auto simp: set_diff_eq)
qed

end

section \<open>Two states of the same memory\<close>

fun multi_same :: "multi \<Rightarrow> multi \<Rightarrow> bool" where
  "multi_same (Multi h sz tot mn mx nx v n as na) (Multi h' sz' tot' mn' mx' nx' v' n' as' na') \<longleftrightarrow>
     h' = h \<and> sz' = sz \<and> tot' = tot \<and> mn' = mn \<and> mx' = mx \<and> nx' = nx \<and> v' = v \<and> n' = n \<and> list_all2 ca_same as as' \<and>
     (case na of None \<Rightarrow> na' = None | Some m \<Rightarrow> (case na' of None \<Rightarrow> False | Some m' \<Rightarrow> multi_same m m'))"

lemma multi_same_refl [simp]: "multi_same m m"
proof (induction m)
  case (Multi h sz tot mn mx nx v n as na)
  then show ?case by (cases na) (auto simp: list_all2_refl)
qed

lemma ca_same_trans: "ca_same a b \<Longrightarrow> ca_same b c \<Longrightarrow> ca_same a c"
  by (simp add: ca_same_def same_shape_def)

lemma multi_same_trans: "multi_same m m' \<Longrightarrow> multi_same m' m'' \<Longrightarrow> multi_same m m''"
proof (induction m m' arbitrary: m'' rule: multi_same.induct)
  case (1 h sz tot mn mx nx v n as na h' sz' tot' mn' mx' nx' v' n' as' na')
  obtain h'' sz'' tot'' mn'' mx'' nx'' v'' n'' as'' na'' where
    m'': "m'' = Multi h'' sz'' tot'' mn'' mx'' nx'' v'' n'' as'' na''" by (cases m'')
  have "list_all2 ca_same as as''"
    using "1.prems" unfolding m'' by (auto intro: list_all2_trans[of ca_same ca_same ca_same, OF ca_same_trans])
  then show ?case using 1 unfolding m'' by (auto split: option.splits)
qed

lemma same_nth: "list_all2 ca_same as as' \<Longrightarrow> i < length as \<Longrightarrow> ca_same (as ! i) (as' ! i)"
  by (rule list_all2_nthD)

lemma same_absolute: "multi_same m m' \<Longrightarrow> multi_getAbsolute k m' = multi_getAbsolute k m"
proof (induction m m' arbitrary: k rule: multi_same.induct)
  case (1 h sz tot mn mx nx v n as na h' sz' tot' mn' mx' nx' v' n' as' na')
  have l: "length as' = length as" and s: "\<And>i. i < length as \<Longrightarrow> ca_same (as ! i) (as' ! i)"
    using "1.prems" same_nth list_all2_lengthD[of ca_same as as'] by auto
  have "getAbsolute j (ca_chunk (as' ! i)) = getAbsolute j (ca_chunk (as ! i))" if "i < length as" for i j
    using s[OF that] by (simp add: ca_same_def same_shape_def getAbsolute_def)
  with 1 l show ?case by (auto simp: Let_def split: option.splits)
qed

lemma same_relative_in: "list_all2 ca_same as as' \<Longrightarrow> relative_in p i n as' = relative_in p i n as"
proof (induction arbitrary: i rule: list_all2_induct)
  case (Cons a as a' as')
  then show ?case by (simp add: ca_same_def same_shape_def getRelative_def)
qed simp

lemma same_relative: "multi_same m m' \<Longrightarrow> multi_getRelative p m' = multi_getRelative p m"
proof (induction m m' rule: multi_same.induct)
  case (1 h sz tot mn mx nx v n as na h' sz' tot' mn' mx' nx' v' n' as' na')
  then show ?case
    using same_relative_in[of as as'] list_all2_lengthD[of ca_same as as'] by (auto split: option.splits)
qed

lemma same_total: "multi_same m m' \<Longrightarrow> multi_total m' = multi_total m"
proof (induction m m' rule: multi_same.induct)
  case (1 h sz tot mn mx nx v n as na h' sz' tot' mn' mx' nx' v' n' as' na')
  then show ?case using list_all2_lengthD[of ca_same as as'] by (auto split: option.splits)
qed

lemma same_sizes: "multi_same m m' \<Longrightarrow> multi_getBlockSize m' = multi_getBlockSize m"
  by (induction m m' rule: multi_same.induct) (auto split: option.splits)

lemma same_count: "multi_same m m' \<Longrightarrow> allBlockChunkCount m' = allBlockChunkCount m"
  by (induction m m' rule: multi_same.induct) (auto split: option.splits)

lemma same_head: "multi_same m m' \<Longrightarrow> m_pHead m' = m_pHead m"
  by (induction m m' rule: multi_same.induct) simp

lemma multi_same_next: "multi_same m m' \<Longrightarrow> multi_same (Multi h sz tot mn mx nx v n as (Some m)) (Multi h sz tot mn mx nx v n as (Some m'))"
  by (simp add: list_all2_refl)

lemma allocate2_same:
  "multi_inv m \<Longrightarrow> multi_allocate2 need m = Inr (r, m') \<Longrightarrow>
   multi_same m m' \<and> (case r of None \<Rightarrow> True | Some (p, b, k) \<Rightarrow> b \<in> set (multi_getBlockSize m))"
proof (induction need m arbitrary: r m' rule: multi_allocate2.induct)
  case (1 need h sz tot mn mx nx v n as na)
  have l: "list_all (ca_inv n) as" "length v = length as" using "1.prems"(1) by auto
  have sub: "set [0..<length as] \<subseteq> {..<length as}" "set (rev [0..<length as]) \<subseteq> {..<length as}" by auto
  have step: ?case if "i < length as" "ca_same (as ! i) a'" "r = Some (p, v ! i, k)"
    "m' = Multi h sz tot mn mx nx v n (as[i := a']) na" for i a' p k
    using that l(2) same_update[of i as a'] by (cases na) auto
  from scan_ok[OF l(1) sub(1), of "\<lambda>b. b \<ge> need"] show ?case
  proof (elim disjE exE conjE)
    fix i k a' assume "scan (\<lambda>b. b \<ge> need) [0..<length as] as = Inr (Some (ca_address k (as ! i), i, k), as[i := a'])"
      "i \<in> set [0..<length as]" "ca_same (as ! i) a'"
    with "1.prems"(2) step[of i a'] show ?thesis by auto
  next
    assume up: "scan (\<lambda>b. b \<ge> need) [0..<length as] as = Inr (None, as)"
    from scan_ok[OF l(1) sub(2), of "\<lambda>b. b < need"] show ?thesis
    proof (elim disjE exE conjE)
      fix i k a' assume "scan (\<lambda>b. b < need) (rev [0..<length as]) as = Inr (Some (ca_address k (as ! i), i, k), as[i := a'])"
        "i \<in> set (rev [0..<length as])" "ca_same (as ! i) a'"
      with up "1.prems"(2) step[of i a'] show ?thesis by auto
    next
      assume down: "scan (\<lambda>b. b < need) (rev [0..<length as]) as = Inr (None, as)"
      show ?thesis
      proof (cases na)
        case None
        with up down "1.prems"(2) show ?thesis by auto
      next
        case (Some m)
        have inv: "multi_inv m" using "1.prems" Some by simp
        obtain r1 m1 where r1: "multi_allocate2 need m = Inr (r1, m1)"
          using multi_allocate2_ok[OF inv, of need] by auto
        from "1.IH"[OF up refl refl down refl refl Some inv r1] have
          "multi_same m m1" "case r1 of None \<Rightarrow> True | Some (p, b, k) \<Rightarrow> b \<in> set (multi_getBlockSize m)" by simp_all
        with up down r1 Some "1.prems"(2) show ?thesis
          by (auto simp: list_all2_refl split: option.splits)
      qed
    qed
  qed
qed

lemma deallocate2_same:
  "multi_inv m \<Longrightarrow> k \<in> {1..multi_total m} \<Longrightarrow> k \<notin> multi_free m \<Longrightarrow> multi_deallocate2 k m = Inr m' \<Longrightarrow> multi_same m m'"
proof (induction k m arbitrary: m' rule: multi_deallocate2.induct)
  case (1 k h sz tot mn mx nx v n as na)
  have l: "list_all (ca_inv n) as" using "1.prems" by simp
  show ?case
  proof (cases "k \<le> length as * n")
    case True
    then have "k \<in> {1..length as * n}" "k \<notin> level_free n as" using "1.prems" by auto
    from release_index_ok[OF l this] obtain as' where as': "release_index n k as = Inr (Inl as')"
      "list_all2 ca_same as as'" by blast
    with "1.prems"(4) show ?thesis by (cases na) auto
  next
    case False
    then obtain m where m: "na = Some m" using "1.prems" by (cases na) auto
    have r: "release_index n k as = Inr (Inr (k - length as * n))" using False by (intro release_index_skip) simp
    have k: "k - length as * n \<in> {1..multi_total m}" "k - length as * n \<notin> multi_free m"
      using "1.prems" False m by (auto simp: image_iff)
    have inv: "multi_inv m" using "1.prems" m by simp
    obtain m1 where m1: "multi_deallocate2 (k - length as * n) m = Inr m1"
      using multi_deallocate2_ok[OF inv k] by blast
    from "1.IH"[OF r refl m inv k m1] m1 r m "1.prems"(4) show ?thesis by (auto simp: list_all2_refl)
  qed
qed

section \<open>Blocks in use\<close>

definition pool_live :: "multi \<Rightarrow> nat set" where
  "pool_live m = {p. \<exists>k\<in>{1..multi_total m} - multi_free m. multi_getAbsolute k m = Inr (Some p)}"

text \<open>Whether an address is that of a block in use, found from the address.\<close>

definition is_live :: "multi \<Rightarrow> nat \<Rightarrow> bool" where
  "is_live m p \<longleftrightarrow>
     (case multi_getRelative p m of Inl e \<Rightarrow> False
      | Inr k \<Rightarrow> 1 \<le> k \<and> k \<le> multi_total m \<and> k \<notin> multi_free m \<and> multi_getAbsolute k m = Inr (Some p))"

definition min_block :: nat where
  "min_block = 75"

definition pool_size_ok :: "nat \<Rightarrow> bool" where
  "pool_size_ok b \<longleftrightarrow> min_block \<le> b \<and> b < 2 ^ 32"

definition pool_ok :: "multi \<Rightarrow> bool" where
  "pool_ok m \<longleftrightarrow> multi_inv m \<and> 0 < m_pHead m \<and> (\<forall>b\<in>set (multi_getBlockSize m). pool_size_ok b)"

definition pool_name :: "multi \<Rightarrow> nat \<Rightarrow> nat" where
  "pool_name m k = (case multi_getAbsolute k m of Inr (Some p) \<Rightarrow> p | _ \<Rightarrow> 0)"

lemma is_live_iff: "multi_inv m \<Longrightarrow> is_live m p \<longleftrightarrow> p \<in> pool_live m"
  using multi_names[of m] by (fastforce simp: is_live_def pool_live_def split: sum.splits)

lemma pool_live_image: "multi_inv m \<Longrightarrow> pool_live m = pool_name m ` ({1..multi_total m} - multi_free m)"
proof (rule set_eqI)
  fix p assume inv: "multi_inv m"
  have "multi_getAbsolute k m = Inr (Some p) \<longleftrightarrow> p = pool_name m k" if "k \<in> {1..multi_total m} - multi_free m" for k
    using multi_names[OF inv, of k] that by (auto simp: pool_name_def)
  then show "p \<in> pool_live m \<longleftrightarrow> p \<in> pool_name m ` ({1..multi_total m} - multi_free m)"
    unfolding pool_live_def image_iff by blast
qed

lemma pool_name_inj: "multi_inv m \<Longrightarrow> inj_on (pool_name m) {1..multi_total m}"
proof (rule inj_onI)
  fix j k assume inv: "multi_inv m" and jk: "j \<in> {1..multi_total m}" "k \<in> {1..multi_total m}" "pool_name m j = pool_name m k"
  from multi_names[OF inv jk(1)] multi_names[OF inv jk(2)] jk(3) show "j = k" by (auto simp: pool_name_def)
qed

lemma image_minus_one:
  "inj_on f (U - F) \<Longrightarrow> k \<in> U - F \<Longrightarrow> f k = p \<Longrightarrow> f ` (U - insert k F) = f ` (U - F) - {p}"
  by (auto simp: inj_on_def)

lemma total_count: "multi_inv m \<Longrightarrow> multi_total m = allBlockChunkCount m"
proof (induction m rule: multi_total.induct)
  case (1 h sz tot mn mx nx v n as na)
  then show ?case by (cases na) auto
qed

lemma same_live:
  assumes "multi_inv m" "multi_same m m'" "multi_inv m'"
  shows "pool_live m' = pool_name m ` ({1..multi_total m} - multi_free m')"
  using pool_live_image[OF assms(3)] same_total[OF assms(2)] same_absolute[OF assms(2)]
  by (simp add: pool_name_def)

interpretation pool: address_allocator multi_allocate multi_deallocate pool_ok pool_live multi_same
  allBlockChunkCount pool_size_ok
proof
  fix m need assume ok: "pool_ok m"
  then have inv: "multi_inv m" by (simp add: pool_ok_def)
  from multi_allocate2_ok[OF inv, of need]
  show "multi_allocate need m = Inr (None, m) \<or>
      (\<exists>p b m'. multi_allocate need m = Inr (Some (p, b), m') \<and> pool_ok m' \<and> p \<notin> pool_live m \<and>
        pool_live m' = insert p (pool_live m) \<and> multi_same m m' \<and> pool_size_ok b)"
  proof (elim disjE exE conjE)
    fix p b k m' assume r: "multi_allocate2 need m = Inr (Some (p, b, k), m')" and a: "allocated m p k m'"
    have same: "multi_same m m'" "b \<in> set (multi_getBlockSize m)" using allocate2_same[OF inv r] by simp_all
    have k: "k \<in> multi_free m" "multi_inv m'" "multi_free m' = multi_free m - {k}" "k \<in> {1..multi_total m}"
      "pool_name m k = p"
      using a multi_free_sub[OF inv] by (auto simp: allocated_def pool_name_def)
    have "p \<notin> pool_live m"
      using inj_onD[OF pool_name_inj[OF inv], of k] k unfolding pool_live_image[OF inv] by auto
    moreover have "pool_live m' = insert p (pool_live m)"
      unfolding same_live[OF inv same(1) k(2)] pool_live_image[OF inv] using k by auto
    moreover have "pool_ok m'"
      using ok k(2) same_sizes[OF same(1)] same_head[OF same(1)] by (simp add: pool_ok_def)
    ultimately show ?thesis using r same ok by (simp add: multi_allocate_def pool_ok_def)
  qed (simp add: multi_allocate_def)
next
  fix m p assume ok: "pool_ok m" and p: "p \<in> pool_live m"
  then have inv: "multi_inv m" by (simp add: pool_ok_def)
  from p obtain k where k: "k \<in> {1..multi_total m}" "k \<notin> multi_free m" "multi_getAbsolute k m = Inr (Some p)"
    by (auto simp: pool_live_def)
  then have d: "multi_deallocate p m = multi_deallocate2 k m" using multi_names[OF inv k(1)] by auto
  obtain m' where m': "multi_deallocate2 k m = Inr m'" "multi_inv m'" "multi_free m' = insert k (multi_free m)"
    using multi_deallocate2_ok[OF inv k(1,2)] by blast
  have same: "multi_same m m'" by (rule deallocate2_same[OF inv k(1,2) m'(1)])
  have "pool_name m k = p" using k(3) by (simp add: pool_name_def)
  then have "pool_live m' = pool_live m - {p}"
    unfolding same_live[OF inv same m'(2)] pool_live_image[OF inv] m'(3)
    by (intro image_minus_one) (use k pool_name_inj[OF inv] in \<open>auto intro: inj_on_subset\<close>)
  moreover have "pool_ok m'"
    using ok m'(2) same_sizes[OF same] same_head[OF same] by (simp add: pool_ok_def)
  ultimately show "\<exists>m'. multi_deallocate p m = Inr m' \<and> pool_ok m' \<and> pool_live m' = pool_live m - {p} \<and> multi_same m m'"
    using d m'(1) same by auto
next
  fix m assume "pool_ok m"
  then have inv: "multi_inv m" by (simp add: pool_ok_def)
  have "card (pool_live m) \<le> card ({1..multi_total m} - multi_free m)"
    unfolding pool_live_image[OF inv] by (intro card_image_le) simp
  also have "\<dots> \<le> multi_total m" using card_mono[of "{1..multi_total m}" "{1..multi_total m} - multi_free m"] by simp
  finally show "finite (pool_live m) \<and> card (pool_live m) \<le> allBlockChunkCount m"
    using total_count[OF inv] pool_live_image[OF inv] by simp
next
  fix m p assume ok: "pool_ok m" and p: "p \<in> pool_live m"
  then obtain k where "k \<in> {1..multi_total m}" "multi_getAbsolute k m = Inr (Some p)" by (auto simp: pool_live_def)
  with multi_names[of m k] ok show "0 < p" by (auto simp: pool_ok_def)
qed (use multi_same_trans same_count in auto)

text \<open>A region just created has no block in use.\<close>

lemma pool_created:
  assumes "multi_inv m" "multi_free m = {1..multi_total m}"
  shows "pool_live m = {}"
  using assms by (simp add: pool_live_def)

end
