(* ===== verification/Linked.thy ===== *)
theory Linked
  imports Prelude
begin

text \<open>
  Doubly linked lists in memory, as the hash map keeps them: a next and a previous field per
  node, 0 as the null address, and what insertion at the front, removal and moving to the
  front do to the list of nodes. Nothing here is specific to the code.
\<close>

section \<open>Links\<close>

definition hd0 :: "nat list \<Rightarrow> nat \<Rightarrow> nat" where
  "hd0 xs d = (case xs of [] \<Rightarrow> d | x # _ \<Rightarrow> x)"

definition last0 :: "nat \<Rightarrow> nat list \<Rightarrow> nat" where
  "last0 d xs = (if xs = [] then d else last xs)"

lemma ends_simps [simp]:
  "hd0 [] d = d" "hd0 (x # xs) d = x" "last0 d [] = d" "last0 d (x # xs) = last0 x xs"
  by (simp_all add: hd0_def last0_def)

lemma hd0_append: "hd0 (xs @ ys) d = hd0 xs (hd0 ys d)"
  by (cases xs) simp_all

lemma last0_append: "last0 d (xs @ ys) = last0 (last0 d xs) ys"
  by (simp add: last0_def)

lemma hd0_in: "xs \<noteq> [] \<Longrightarrow> hd0 xs d \<in> set xs"
  by (cases xs) simp_all

lemma last0_in: "xs \<noteq> [] \<Longrightarrow> last0 d xs \<in> set xs"
  by (simp add: last0_def)

fun links :: "(nat \<Rightarrow> nat) \<Rightarrow> (nat \<Rightarrow> nat) \<Rightarrow> nat \<Rightarrow> nat list \<Rightarrow> nat \<Rightarrow> bool" where
  "links nx pv p [] n \<longleftrightarrow> True"
| "links nx pv p (x # xs) n \<longleftrightarrow> pv x = p \<and> nx x = hd0 xs n \<and> links nx pv x xs n"

lemma links_append:
  "links nx pv p (xs @ ys) n \<longleftrightarrow> links nx pv p xs (hd0 ys n) \<and> links nx pv (last0 p xs) ys n"
  by (induction xs arbitrary: p) (auto simp: hd0_append)

lemma links_cong:
  "links nx pv p xs n \<Longrightarrow> (\<And>x. x \<in> set xs \<Longrightarrow> nx' x = nx x) \<Longrightarrow> (\<And>x. x \<in> set xs \<Longrightarrow> pv' x = pv x) \<Longrightarrow>
   links nx' pv' p xs n"
  by (induction xs arbitrary: p) auto

text \<open>A segment whose last node gets another successor, or whose first another predecessor.\<close>

lemma links_next:
  assumes "links nx pv p xs m" "distinct xs" "\<And>x. x \<in> set xs \<Longrightarrow> nx' x = (if x = last0 0 xs then n else nx x)"
    "\<And>x. x \<in> set xs \<Longrightarrow> pv' x = pv x"
  shows "links nx' pv' p xs n"
proof (cases xs rule: rev_cases)
  case (snoc ys y)
  have y: "y \<notin> set ys" "links nx pv p ys y" "pv y = last0 p ys" "last0 0 xs = y"
    using assms(1,2) snoc by (simp_all add: links_append last0_append)
  have "links nx' pv' p ys y"
    using y(2)
  proof (rule links_cong)
    show "nx' x = nx x" "pv' x = pv x" if "x \<in> set ys" for x
      using assms(3,4)[of x] y(1,4) snoc that by auto
  qed
  moreover have "nx' y = n" "pv' y = pv y" using assms(3,4)[of y] y(4) snoc by simp_all
  ultimately show ?thesis using y(3) snoc by (simp add: links_append)
qed simp

lemma links_prev:
  assumes "links nx pv p xs n" "distinct xs" "\<And>x. x \<in> set xs \<Longrightarrow> pv' x = (if x = hd0 xs 0 then q else pv x)"
    "\<And>x. x \<in> set xs \<Longrightarrow> nx' x = nx x"
  shows "links nx' pv' q xs n"
proof (cases xs)
  case (Cons y ys)
  have "links nx pv y ys n" using assms(1) Cons by simp
  then have "links nx' pv' y ys n"
  proof (rule links_cong)
    show "nx' x = nx x" "pv' x = pv x" if "x \<in> set ys" for x
      using assms(2) assms(3,4)[of x] Cons that by auto
  qed
  moreover have "nx' y = nx y" "pv' y = q" using assms(3,4)[of y] Cons by simp_all
  ultimately show ?thesis using assms(1) Cons by simp
qed simp

section \<open>Lists with a head and a tail\<close>

definition dlist :: "(nat \<Rightarrow> nat) \<Rightarrow> (nat \<Rightarrow> nat) \<Rightarrow> nat \<Rightarrow> nat \<Rightarrow> nat list \<Rightarrow> bool" where
  "dlist nx pv h t xs \<longleftrightarrow>
     h = hd0 xs 0 \<and> t = last0 0 xs \<and> links nx pv 0 xs 0 \<and> distinct xs \<and> 0 \<notin> set xs"

lemma dlist_Nil [simp]: "dlist nx pv 0 0 []"
  by (simp add: dlist_def)

lemma dlist_cong:
  "dlist nx pv h t xs \<Longrightarrow> (\<And>x. x \<in> set xs \<Longrightarrow> nx' x = nx x) \<Longrightarrow> (\<And>x. x \<in> set xs \<Longrightarrow> pv' x = pv x) \<Longrightarrow>
   dlist nx' pv' h t xs"
  unfolding dlist_def using links_cong by blast

lemma dlist_empty: "dlist nx pv h t xs \<Longrightarrow> (h = 0 \<longleftrightarrow> xs = []) \<and> (t = 0 \<longleftrightarrow> xs = [])"
proof (cases "xs = []")
  case False
  assume "dlist nx pv h t xs"
  with False hd0_in[OF False, of 0] last0_in[OF False, of 0] show ?thesis unfolding dlist_def by metis
qed (simp add: dlist_def)

lemma dlist_ends: "dlist nx pv h t xs \<Longrightarrow> h \<in> insert 0 (set xs) \<and> t \<in> insert 0 (set xs)"
  unfolding dlist_def using hd0_in[of xs 0] last0_in[of xs 0] by (cases "xs = []") simp_all

text \<open>The neighbours of a node.\<close>

lemma dlist_split:
  assumes "dlist nx pv h t xs" "a \<in> set xs"
  obtains as bs where "xs = as @ a # bs" "remove1 a xs = as @ bs" "pv a = last0 0 as" "nx a = hd0 bs 0"
    "h = hd0 as a" "t = last0 a bs" "links nx pv 0 as a" "links nx pv a bs 0" "a \<notin> set as" "a \<notin> set bs"
proof -
  from assms(2) obtain as bs where xs: "xs = as @ a # bs" "a \<notin> set as" by (meson split_list_first)
  with assms(1) show ?thesis
    by (intro that[of as bs]) (auto simp: dlist_def links_append remove1_append hd0_append last0_append)
qed

lemma dlist_neighbours:
  assumes "dlist nx pv h t xs" "a \<in> set xs"
  shows "pv a = 0 \<longleftrightarrow> h = a" "nx a = 0 \<longleftrightarrow> t = a" "pv a \<in> insert 0 (set xs)" "nx a \<in> insert 0 (set xs)"
    "pv a \<noteq> a" "nx a \<noteq> a" "a \<noteq> 0"
proof -
  from assms obtain as bs where s: "xs = as @ a # bs" "pv a = last0 0 as" "nx a = hd0 bs 0"
    "h = hd0 as a" "t = last0 a bs" "a \<notin> set as" "a \<notin> set bs" by (rule dlist_split)
  have d: "distinct xs" "0 \<notin> set xs" using assms(1) by (simp_all add: dlist_def)
  show "pv a = 0 \<longleftrightarrow> h = a"
    using s d hd0_in[of as a] last0_in[of as 0] by (cases "as = []") auto
  show "nx a = 0 \<longleftrightarrow> t = a"
    using s d hd0_in[of bs 0] last0_in[of bs a] by (cases "bs = []") auto
  show "pv a \<in> insert 0 (set xs)" "pv a \<noteq> a"
    using s d last0_in[of as 0] by (cases "as = []"; auto)+
  show "nx a \<in> insert 0 (set xs)" "nx a \<noteq> a"
    using s d hd0_in[of bs 0] by (cases "bs = []"; auto)+
  show "a \<noteq> 0" using assms(2) d(2) by metis
qed

section \<open>Insertion, removal, moving to the front\<close>

lemma dlist_insert:
  assumes "dlist nx pv h t xs" "a \<notin> set xs" "a \<noteq> 0"
    "\<And>x. x \<in> insert a (set xs) \<Longrightarrow> nx' x = (if x = a then h else nx x)"
    "\<And>x. x \<in> insert a (set xs) \<Longrightarrow> pv' x = (if x = a then 0 else if x = h then a else pv x)"
  shows "dlist nx' pv' a (if h = 0 then a else t) (a # xs)"
proof -
  have d: "h = hd0 xs 0" "t = last0 0 xs" "links nx pv 0 xs 0" "distinct xs" "0 \<notin> set xs"
    using assms(1) by (simp_all add: dlist_def)
  have "links nx' pv' a xs 0"
    using d(3,4) by (rule links_prev) (use assms d(1) in auto)
  moreover have "(if h = 0 then a else t) = last0 a xs"
    using dlist_empty[OF assms(1)] d(2) by (auto simp: last0_def)
  ultimately show ?thesis using assms(2-5) d by (auto simp: dlist_def)
qed

lemma dlist_remove:
  assumes "dlist nx pv h t xs" "a \<in> set xs"
    "\<And>x. x \<in> set xs \<Longrightarrow> x \<noteq> a \<Longrightarrow> nx' x = (if x = pv a then nx a else nx x)"
    "\<And>x. x \<in> set xs \<Longrightarrow> x \<noteq> a \<Longrightarrow> pv' x = (if x = nx a then pv a else pv x)"
  shows "dlist nx' pv' (if h = a then nx a else h) (if t = a then pv a else t) (remove1 a xs)"
proof -
  from assms(1,2) obtain as bs where s: "xs = as @ a # bs" "remove1 a xs = as @ bs" "pv a = last0 0 as"
    "nx a = hd0 bs 0" "h = hd0 as a" "t = last0 a bs" "links nx pv 0 as a" "links nx pv a bs 0"
    "a \<notin> set as" "a \<notin> set bs" by (rule dlist_split)
  have d: "distinct xs" "0 \<notin> set xs" using assms(1) by (simp_all add: dlist_def)
  have dis: "distinct as" "distinct bs" "set as \<inter> set bs = {}" using d(1) s(1) by auto
  have pva: "pv a \<notin> set bs" "nx a \<notin> set as"
    using d s(1,3,4) last0_in[of as 0] hd0_in[of bs 0] dis(3) by (cases "as = []"; cases "bs = []"; force)+
  have "links nx' pv' 0 as (hd0 bs 0)"
    using s(7) dis(1)
  proof (rule links_next)
    fix x assume x: "x \<in> set as"
    then have "x \<noteq> a" "x \<in> set xs" using s by auto
    with assms(3)[of x] assms(4)[of x] x s(3,4) pva(2) show "nx' x = (if x = last0 0 as then hd0 bs 0 else nx x)"
      "pv' x = pv x" by auto
  qed
  moreover have "links nx' pv' (last0 0 as) bs 0"
    using s(8) dis(2)
  proof (rule links_prev)
    fix x assume x: "x \<in> set bs"
    then have "x \<noteq> a" "x \<in> set xs" using s by auto
    with assms(3)[of x] assms(4)[of x] x s(3,4) pva(1) show "pv' x = (if x = hd0 bs 0 then last0 0 as else pv x)"
      "nx' x = nx x" by auto
  qed
  moreover have "(if h = a then nx a else h) = hd0 (as @ bs) 0" "(if t = a then pv a else t) = last0 0 (as @ bs)"
    using s(3-6,9,10) hd0_in[of as a] last0_in[of bs a]
    by (cases "as = []"; cases "bs = []"; force simp: hd0_append last0_append last0_def hd0_def split: list.splits)+
  ultimately show ?thesis
    using d s(1,2) by (simp add: dlist_def links_append)
qed

lemma dlist_front:
  assumes "dlist nx pv h t xs" "a \<in> set xs" "h \<noteq> a"
    "\<And>x. x \<in> set xs \<Longrightarrow> nx' x = (if x = a then h else if x = pv a then nx a else nx x)"
    "\<And>x. x \<in> set xs \<Longrightarrow> pv' x = (if x = a then 0 else if x = h then a else if x = nx a then pv a else pv x)"
  shows "dlist nx' pv' a (if t = a then pv a else t) (a # remove1 a xs)"
proof -
  let ?nx = "\<lambda>x. if x = pv a then nx a else nx x" and ?pv = "\<lambda>x. if x = nx a then pv a else pv x"
  let ?t = "if t = a then pv a else t"
  note n = dlist_neighbours[OF assms(1,2)]
  have "dlist ?nx ?pv (if h = a then nx a else h) ?t (remove1 a xs)"
    using assms(1,2) by (rule dlist_remove) auto
  then have r: "dlist ?nx ?pv h ?t (remove1 a xs)" using assms(3) by simp
  have h: "h \<noteq> 0" "h \<noteq> nx a"
  proof -
    show "h \<noteq> 0" using dlist_empty[OF assms(1)] assms(2) by auto
    from assms(1,2) obtain as bs where s: "xs = as @ a # bs" "nx a = hd0 bs 0" "h = hd0 as a" by (rule dlist_split)
    with assms(1,3) show "h \<noteq> nx a" using \<open>h \<noteq> 0\<close> hd0_in[of as a] hd0_in[of bs 0]
      by (cases "bs = []"; cases "as = []"; force simp: dlist_def)
  qed
  have d: "distinct xs" using assms(1) by (simp add: dlist_def)
  have "dlist nx' pv' a (if h = 0 then a else ?t) (a # remove1 a xs)"
    using r
  proof (rule dlist_insert)
    fix x assume "x \<in> insert a (set (remove1 a xs))"
    then have x: "x \<in> set xs" using assms(2) d by auto
    show "nx' x = (if x = a then h else ?nx x)" "pv' x = (if x = a then 0 else if x = h then a else ?pv x)"
      using assms(4,5)[OF x] by auto
  qed (use n d in auto)
  with h(1) show ?thesis by simp
qed

end
