(* ===== verification/Pack.thy ===== *)
theory Pack
  imports Memory
begin

text \<open>
  \<open>TC_PackIn\<close> and \<open>TC_PackOut\<close> (tcinclude/tc_pack.h, tc_pack.cpp): values written one after the
  other into a buffer, integers in network order, and read back. The records of the hash map
  are packed with them.
\<close>

section \<open>Integers in memory\<close>

text \<open>The bytes of an integer on the host (little endian), and the integer they make.\<close>

definition host_bytes :: "nat \<Rightarrow> 'a::len word \<Rightarrow> byte list" where
  "host_bytes n w = List.map (\<lambda>i. ucast (drop_bit (8 * i) w)) [0..<n]"

fun host_val :: "byte list \<Rightarrow> 'a::len word" where
  "host_val [] = 0"
| "host_val (b # bs) = ucast b OR push_bit 8 (host_val bs)"

definition swap_bytes :: "nat \<Rightarrow> 'a::len word \<Rightarrow> 'a word" where
  "swap_bytes n w = host_val (rev (host_bytes n w))"

text \<open>\<open>htons\<close> and \<open>ntohs\<close>, \<open>htonl\<close> and \<open>ntohl\<close>, \<open>__bswap_64\<close>.\<close>

definition htons :: "u16 \<Rightarrow> u16" where "htons = swap_bytes 2"
definition htonl :: "u32 \<Rightarrow> u32" where "htonl = swap_bytes 4"
definition bswap_64 :: "u64 \<Rightarrow> u64" where "bswap_64 = swap_bytes 8"

lemma length_host_bytes [simp]: "length (host_bytes n w) = n"
  by (simp add: host_bytes_def)

lemma bit_host_val:
  "bit (host_val bs :: 'a::len word) i \<longleftrightarrow>
     i < LENGTH('a) \<and> i div 8 < length bs \<and> bit (bs ! (i div 8)) (i mod 8)"
proof (induction bs arbitrary: i)
  case (Cons b bs)
  show ?case
  proof (cases "i < 8")
    case True
    then show ?thesis by (auto simp: bit_simps)
  next
    case False
    then obtain j where j: "i = 8 + j" by (metis add_diff_inverse_nat)
    then have "i div 8 = Suc (j div 8)" "i mod 8 = j mod 8" by simp_all
    with Cons.IH[of j] j show ?thesis by (auto simp: bit_simps bit_byte_high)
  qed
qed simp

lemma bit_host_bytes:
  "k < n \<Longrightarrow> j < 8 \<Longrightarrow> bit (host_bytes n w ! k) j \<longleftrightarrow> bit w (8 * k + j)"
  by (simp add: host_bytes_def bit_simps)

lemma host_val_bytes [simp]:
  "8 * n = LENGTH('a) \<Longrightarrow> host_val (host_bytes n w) = (w :: 'a::len word)"
proof (rule bit_eqI)
  fix i assume *: "8 * n = LENGTH('a)" "possible_bit TYPE('a word) i"
  then have "i div 8 < n" "i < LENGTH('a)" by (auto simp: possible_bit_word)
  then show "bit (host_val (host_bytes n w) :: 'a word) i = bit w i"
    by (simp add: bit_host_val bit_host_bytes)
qed

lemma host_bytes_val [simp]:
  assumes "length bs = n" "8 * n = LENGTH('a)"
  shows "host_bytes n (host_val bs :: 'a::len word) = bs"
proof (rule nth_equalityI)
  fix k assume "k < length (host_bytes n (host_val bs :: 'a word))"
  then have k: "k < n" by simp
  show "host_bytes n (host_val bs :: 'a word) ! k = bs ! k"
  proof (rule bit_eqI)
    fix j assume "possible_bit TYPE(byte) j"
    then have j: "j < 8" by (simp add: possible_bit_word)
    have "8 * k + j < LENGTH('a)" using k j assms(2) by linarith
    with bit_host_bytes[OF k j, of "host_val bs :: 'a word"] k j assms(1)
    show "bit (host_bytes n (host_val bs :: 'a word) ! k) j = bit (bs ! k) j" by (simp add: bit_host_val)
  qed
qed (simp add: assms)

lemma swap_swap: "8 * n = LENGTH('a) \<Longrightarrow> swap_bytes n (swap_bytes n w) = (w :: 'a::len word)"
  by (simp add: swap_bytes_def)

lemma swaps [simp]: "htons (htons s) = s" "htonl (htonl i) = i" "bswap_64 (bswap_64 l) = l"
  by (simp_all add: htons_def htonl_def bswap_64_def swap_swap)

section \<open>\<open>TC_PackIn\<close>\<close>

text \<open>The argument is the value, then the buffer it is appended to. A float is its bits.\<close>

definition put_bool :: "bool \<Rightarrow> byte list \<Rightarrow> byte list" where
  "put_bool t buf = buf @ [if t then 1 else 0]"

definition put_char :: "byte \<Rightarrow> byte list \<Rightarrow> byte list" where
  "put_char t buf = buf @ [t]"

definition put_uchar :: "byte \<Rightarrow> byte list \<Rightarrow> byte list" where
  "put_uchar t buf = put_char t buf"

definition put_short :: "u16 \<Rightarrow> byte list \<Rightarrow> byte list" where
  "put_short t buf = buf @ host_bytes 2 (htons t)"

definition put_ushort :: "u16 \<Rightarrow> byte list \<Rightarrow> byte list" where
  "put_ushort t buf = put_short t buf"

definition put_int :: "u32 \<Rightarrow> byte list \<Rightarrow> byte list" where
  "put_int t buf = buf @ host_bytes 4 (htonl t)"

definition put_uint :: "u32 \<Rightarrow> byte list \<Rightarrow> byte list" where
  "put_uint t buf = put_int t buf"

definition put_long :: "u64 \<Rightarrow> byte list \<Rightarrow> byte list" where
  "put_long t buf = buf @ host_bytes 8 (bswap_64 t)"

definition put_ulong :: "u64 \<Rightarrow> byte list \<Rightarrow> byte list" where
  "put_ulong t buf = buf @ host_bytes 8 (bswap_64 t)"

definition put_llong :: "u64 \<Rightarrow> byte list \<Rightarrow> byte list" where
  "put_llong t buf = buf @ host_bytes 8 (bswap_64 t)"

definition put_ullong :: "u64 \<Rightarrow> byte list \<Rightarrow> byte list" where
  "put_ullong t buf = buf @ host_bytes 8 (bswap_64 t)"

definition put_float :: "u32 \<Rightarrow> byte list \<Rightarrow> byte list" where
  "put_float t buf = buf @ host_bytes 4 t"

definition put_double :: "u64 \<Rightarrow> byte list \<Rightarrow> byte list" where
  "put_double t buf = buf @ host_bytes 8 t"

definition put_cstr :: "byte list \<Rightarrow> byte list \<Rightarrow> byte list" where
  "put_cstr s buf = buf @ takeWhile (\<lambda>c. c \<noteq> 0) s @ [0]"

definition put_string :: "byte list \<Rightarrow> byte list \<Rightarrow> byte list" where
  "put_string s buf =
     (let len = of_nat (length s) :: u32;
          buf = (if len < 255 then put_uchar (ucast len) buf else put_uint len (put_uchar 255 buf))
      in buf @ s)"

definition put_pack :: "byte list \<Rightarrow> byte list \<Rightarrow> byte list" where
  "put_pack pi buf = buf @ pi"

subsection \<open>\<open>insert\<close> and \<open>replace\<close>\<close>

text \<open>
  Both return a temporary with a buffer of its own; its destructor puts what was written there
  into the buffer of the \<open>TC_PackIn\<close>. \<open>None\<close> is \<open>string::npos\<close>.
\<close>

record pack_inner =
  pi_bInsert :: bool
  pi_nPos :: "nat option"
  pi_buffer :: "byte list"

definition pack_insert :: "nat \<Rightarrow> pack_inner" where
  "pack_insert p = \<lparr>pi_bInsert = True, pi_nPos = Some p, pi_buffer = []\<rparr>"

definition pack_replace :: "nat \<Rightarrow> pack_inner" where
  "pack_replace p = \<lparr>pi_bInsert = False, pi_nPos = Some p, pi_buffer = []\<rparr>"

definition packin_exception :: cpp_error where
  "packin_exception = Thrown ''TC_PackIn_Exception''"

definition inner_destroy :: "pack_inner \<Rightarrow> byte list \<Rightarrow> byte list result" where
  "inner_destroy t buf =
     (case pi_nPos t of None \<Rightarrow> Inr buf
      | Some p \<Rightarrow>
          if p > length (pi_buffer t) then Inl packin_exception
          else if p > length buf then Inl (Thrown ''std::out_of_range'')
          else if pi_bInsert t then Inr (take p buf @ pi_buffer t @ drop p buf)
          else Inr (take p buf @ pi_buffer t @ drop (p + length (pi_buffer t)) buf))"

section \<open>\<open>TC_PackOut\<close>\<close>

record pack_out =
  po_buffer :: "byte list"
  po_pos :: nat

definition po_init :: "byte list \<Rightarrow> pack_out" where
  "po_init b = \<lparr>po_buffer = b, po_pos = 0\<rparr>"

definition po_isEnd :: "pack_out \<Rightarrow> bool" where
  "po_isEnd po \<longleftrightarrow> po_pos po \<ge> length (po_buffer po)"

definition packout_exception :: cpp_error where
  "packout_exception = Thrown ''TC_PackOut_Exception''"

text \<open>The next \<open>n\<close> bytes: the bound check, the \<open>memcpy\<close> and the step of every reader.\<close>

definition po_take :: "nat \<Rightarrow> pack_out \<Rightarrow> (byte list \<times> pack_out) result" where
  "po_take n po =
     (if po_pos po + n > length (po_buffer po) then Inl packout_exception
      else Inr (take n (drop (po_pos po) (po_buffer po)), po\<lparr>po_pos := po_pos po + n\<rparr>))"

definition po_read :: "nat \<Rightarrow> (byte list \<Rightarrow> 'a) \<Rightarrow> pack_out \<Rightarrow> ('a \<times> pack_out) result" where
  "po_read n f po = bindE (po_take n po) (\<lambda>(bs, po). Inr (f bs, po))"

definition get_bool :: "pack_out \<Rightarrow> (bool \<times> pack_out) result" where
  "get_bool = po_read 1 (\<lambda>bs. hd bs \<noteq> 0)"

definition get_char :: "pack_out \<Rightarrow> (byte \<times> pack_out) result" where
  "get_char = po_read 1 hd"

definition get_uchar :: "pack_out \<Rightarrow> (byte \<times> pack_out) result" where
  "get_uchar = po_read 1 hd"

definition get_short :: "pack_out \<Rightarrow> (u16 \<times> pack_out) result" where
  "get_short = po_read 2 (\<lambda>bs. htons (host_val bs))"

definition get_ushort :: "pack_out \<Rightarrow> (u16 \<times> pack_out) result" where
  "get_ushort = po_read 2 (\<lambda>bs. htons (host_val bs))"

definition get_int :: "pack_out \<Rightarrow> (u32 \<times> pack_out) result" where
  "get_int = po_read 4 (\<lambda>bs. htonl (host_val bs))"

definition get_unsigned :: "pack_out \<Rightarrow> (u32 \<times> pack_out) result" where
  "get_unsigned = po_read 4 (\<lambda>bs. htonl (host_val bs))"

definition get_long :: "pack_out \<Rightarrow> (u64 \<times> pack_out) result" where
  "get_long = po_read 8 (\<lambda>bs. bswap_64 (host_val bs))"

definition get_ulong :: "pack_out \<Rightarrow> (u64 \<times> pack_out) result" where
  "get_ulong = po_read 8 (\<lambda>bs. bswap_64 (host_val bs))"

definition get_llong :: "pack_out \<Rightarrow> (u64 \<times> pack_out) result" where
  "get_llong = po_read 8 (\<lambda>bs. bswap_64 (host_val bs))"

definition get_ullong :: "pack_out \<Rightarrow> (u64 \<times> pack_out) result" where
  "get_ullong = po_read 8 (\<lambda>bs. bswap_64 (host_val bs))"

definition get_float :: "pack_out \<Rightarrow> (u32 \<times> pack_out) result" where
  "get_float = po_read 4 host_val"

definition get_double :: "pack_out \<Rightarrow> (u64 \<times> pack_out) result" where
  "get_double = po_read 8 host_val"

text \<open>The \<open>strcpy\<close> stops at a zero byte: without one it leaves the buffer.\<close>

definition get_cstr :: "pack_out \<Rightarrow> (byte list \<times> pack_out) result" where
  "get_cstr po =
     (let rest = drop (po_pos po) (po_buffer po); s = takeWhile (\<lambda>c. c \<noteq> 0) rest in
      if 0 \<notin> set rest then Inl OutOfBounds
      else let pos = po_pos po + length s + 1 in
        if pos > length (po_buffer po) then Inl packout_exception else Inr (s, po\<lparr>po_pos := pos\<rparr>))"

definition get_string :: "pack_out \<Rightarrow> (byte list \<times> pack_out) result" where
  "get_string po =
     bindE (get_uchar po) (\<lambda>(c, po).
     bindE (if c = 255 then get_unsigned po else Inr (ucast c, po)) (\<lambda>(len, po).
     po_take (unat len) po))"

section \<open>Sequences of values\<close>

datatype pack_item =
    PBool bool | PChar byte | PUChar byte | PShort u16 | PUShort u16 | PInt u32 | PUInt u32
  | PLong u64 | PULong u64 | PLLong u64 | PULLong u64 | PFloat u32 | PDouble u64
  | PCStr "byte list" | PString "byte list"

text \<open>\<open>pi << x\<close>, and \<open>po >> y\<close> with \<open>y\<close> of the type of \<open>x\<close>.\<close>

fun put_item :: "pack_item \<Rightarrow> byte list \<Rightarrow> byte list" where
  "put_item (PBool t) = put_bool t"
| "put_item (PChar t) = put_char t"
| "put_item (PUChar t) = put_uchar t"
| "put_item (PShort t) = put_short t"
| "put_item (PUShort t) = put_ushort t"
| "put_item (PInt t) = put_int t"
| "put_item (PUInt t) = put_uint t"
| "put_item (PLong t) = put_long t"
| "put_item (PULong t) = put_ulong t"
| "put_item (PLLong t) = put_llong t"
| "put_item (PULLong t) = put_ullong t"
| "put_item (PFloat t) = put_float t"
| "put_item (PDouble t) = put_double t"
| "put_item (PCStr s) = put_cstr s"
| "put_item (PString s) = put_string s"

definition as_item :: "('a \<Rightarrow> pack_item) \<Rightarrow> ('a \<times> pack_out) result \<Rightarrow> (pack_item \<times> pack_out) result" where
  "as_item f r = bindE r (\<lambda>(x, po). Inr (f x, po))"

fun get_like :: "pack_item \<Rightarrow> pack_out \<Rightarrow> (pack_item \<times> pack_out) result" where
  "get_like (PBool t) po = as_item PBool (get_bool po)"
| "get_like (PChar t) po = as_item PChar (get_char po)"
| "get_like (PUChar t) po = as_item PUChar (get_uchar po)"
| "get_like (PShort t) po = as_item PShort (get_short po)"
| "get_like (PUShort t) po = as_item PUShort (get_ushort po)"
| "get_like (PInt t) po = as_item PInt (get_int po)"
| "get_like (PUInt t) po = as_item PUInt (get_unsigned po)"
| "get_like (PLong t) po = as_item PLong (get_long po)"
| "get_like (PULong t) po = as_item PULong (get_ulong po)"
| "get_like (PLLong t) po = as_item PLLong (get_llong po)"
| "get_like (PULLong t) po = as_item PULLong (get_ullong po)"
| "get_like (PFloat t) po = as_item PFloat (get_float po)"
| "get_like (PDouble t) po = as_item PDouble (get_double po)"
| "get_like (PCStr s) po = as_item PCStr (get_cstr po)"
| "get_like (PString s) po = as_item PString (get_string po)"

fun put_items :: "pack_item list \<Rightarrow> byte list \<Rightarrow> byte list" where
  "put_items [] buf = buf"
| "put_items (x # xs) buf = put_items xs (put_item x buf)"

fun get_items :: "pack_item list \<Rightarrow> pack_out \<Rightarrow> (pack_item list \<times> pack_out) result" where
  "get_items [] po = Inr ([], po)"
| "get_items (x # xs) po =
     bindE (get_like x po) (\<lambda>(y, po). bindE (get_items xs po) (\<lambda>(ys, po). Inr (y # ys, po)))"

fun wf_item :: "pack_item \<Rightarrow> bool" where
  "wf_item (PCStr s) = (0 \<notin> set s)"
| "wf_item (PString s) = (length s < 2 ^ 32)"
| "wf_item _ = True"

subsection \<open>What is written is read\<close>

lemma unat_of_nat_small: "n < 2 ^ LENGTH('a) \<Longrightarrow> unat (of_nat n :: 'a::len word) = n"
  by (simp add: unat_of_nat take_bit_nat_eq_self)

definition item_bytes :: "pack_item \<Rightarrow> byte list" where
  "item_bytes x = put_item x []"

lemma put_item_append: "put_item x buf = buf @ item_bytes x"
  by (cases x)
    (simp_all add: item_bytes_def put_bool_def put_char_def put_uchar_def put_short_def put_ushort_def
      put_int_def put_uint_def put_long_def put_ulong_def put_llong_def put_ullong_def put_float_def
      put_double_def put_cstr_def put_string_def Let_def)

lemma put_items_append: "put_items xs buf = buf @ concat (List.map item_bytes xs)"
  by (induction xs arbitrary: buf) (simp_all add: put_item_append)

text \<open>The reader stands at \<open>rest\<close>.\<close>

definition po_at :: "pack_out \<Rightarrow> byte list \<Rightarrow> bool" where
  "po_at po rest \<longleftrightarrow> po_pos po \<le> length (po_buffer po) \<and> drop (po_pos po) (po_buffer po) = rest"

definition po_skip :: "nat \<Rightarrow> pack_out \<Rightarrow> pack_out" where
  "po_skip n po = po\<lparr>po_pos := po_pos po + n\<rparr>"

lemma po_length: "po_at po rest \<Longrightarrow> length (po_buffer po) = po_pos po + length rest"
  by (auto simp: po_at_def)

lemma po_skip_at: "po_at po (bs @ rest) \<Longrightarrow> po_at (po_skip (length bs) po) rest"
proof -
  assume at: "po_at po (bs @ rest)"
  then have "drop (length bs) (drop (po_pos po) (po_buffer po)) = rest" by (simp add: po_at_def)
  with po_length[OF at] show ?thesis by (simp add: po_at_def po_skip_def add.commute)
qed

lemma po_skip_skip [simp]: "po_skip m (po_skip n po) = po_skip (n + m) po"
  by (simp add: po_skip_def add.assoc)

lemma po_take_ok: "po_at po (bs @ rest) \<Longrightarrow> po_take (length bs) po = Inr (bs, po_skip (length bs) po)"
proof -
  assume at: "po_at po (bs @ rest)"
  then have d: "drop (po_pos po) (po_buffer po) = bs @ rest" by (simp add: po_at_def)
  have "\<not> po_pos po + length bs > length (po_buffer po)" using po_length[OF at] by simp
  then show ?thesis unfolding po_take_def d by (simp only: if_False po_skip_def append_take_drop_id take_all append_Nil2 take_append diff_self_eq_0 take_0 order_refl)
qed

lemma po_take_short: "po_at po rest \<Longrightarrow> length rest < n \<Longrightarrow> po_take n po = Inl packout_exception"
  using po_length[of po rest] by (simp add: po_take_def)

lemma po_read_ok:
  assumes "po_at po (bs @ rest)" "length bs = n"
  shows "po_read n f po = Inr (f bs, po_skip n po)"
proof -
  have "po_take n po = Inr (bs, po_skip n po)" using po_take_ok[OF assms(1)] assms(2) by metis
  then show ?thesis by (simp only: po_read_def bindE_simps prod.case)
qed

lemma po_read_short: "po_at po rest \<Longrightarrow> length rest < n \<Longrightarrow> po_read n f po = Inl packout_exception"
  by (simp add: po_read_def po_take_short)

lemma string_bytes:
  assumes "length s < 2 ^ 32"
  shows "item_bytes (PString s) =
    (if length s < 255 then of_nat (length s) # s else 255 # host_bytes 4 (htonl (of_nat (length s))) @ s)"
proof -
  have u: "unat (of_nat (length s) :: u32) = length s" using assms by (simp add: unat_of_nat_small)
  have "((of_nat (length s) :: u32) < 255) = (length s < 255)" by (simp add: word_less_nat_alt u)
  moreover have "ucast (of_nat (length s) :: u32) = (of_nat (length s) :: byte)"
    using assms by (simp add: unsigned_of_nat take_bit_nat_eq_self)
  ultimately show ?thesis
    by (simp add: item_bytes_def put_string_def put_uchar_def put_char_def put_uint_def put_int_def Let_def)
qed

lemma get_string_ok:
  assumes at: "po_at po (item_bytes (PString s) @ rest)" and s: "length s < 2 ^ 32"
  shows "get_string po = Inr (s, po_skip (length (item_bytes (PString s))) po)"
proof (cases "length s < 255")
  case True
  then have b: "item_bytes (PString s) = [of_nat (length s)] @ s" using s by (simp add: string_bytes)
  have c: "(of_nat (length s) :: byte) \<noteq> 255"
  proof
    assume "(of_nat (length s) :: byte) = 255"
    then have "unat (of_nat (length s) :: byte) = unat (255 :: byte)" by simp
    with True show False by (simp add: unat_of_nat_small)
  qed
  have at': "po_at po ([of_nat (length s)] @ s @ rest)" using at b by simp
  have "unat (ucast (of_nat (length s) :: byte) :: u32) = length s"
    using True by (simp add: unsigned_of_nat take_bit_nat_eq_self)
  with po_read_ok[OF at', of 1 hd] po_take_ok[OF po_skip_at[OF at', simplified]] c b show ?thesis
    by (simp add: get_string_def get_uchar_def add.commute)
next
  case False
  then have b: "item_bytes (PString s) = [255] @ host_bytes 4 (htonl (of_nat (length s))) @ s"
    using s by (simp add: string_bytes)
  let ?n = "host_bytes 4 (htonl (of_nat (length s)))"
  have at1: "po_at po ([255] @ ?n @ s @ rest)" using at b by simp
  have at2: "po_at (po_skip 1 po) (?n @ s @ rest)" using po_skip_at[OF at1] by simp
  have at3: "po_at (po_skip 5 po) (s @ rest)" using po_skip_at[OF at2] by simp
  have "unat (of_nat (length s) :: u32) = length s" using s by (simp add: unat_of_nat_small)
  with po_read_ok[OF at1, of 1 hd] po_read_ok[OF at2, of 4 "\<lambda>bs. htonl (host_val bs)"] po_take_ok[OF at3] b
  show ?thesis by (simp add: get_string_def get_uchar_def get_unsigned_def add.commute)
qed


lemma item_sizes:
  "item_bytes (PBool b) = [if b then 1 else 0]" "item_bytes (PChar c) = [c]" "item_bytes (PUChar c) = [c]"
  "item_bytes (PShort s) = host_bytes 2 (htons s)" "item_bytes (PUShort s) = host_bytes 2 (htons s)"
  "item_bytes (PInt i) = host_bytes 4 (htonl i)" "item_bytes (PUInt i) = host_bytes 4 (htonl i)"
  "item_bytes (PLong l) = host_bytes 8 (bswap_64 l)" "item_bytes (PULong l) = host_bytes 8 (bswap_64 l)"
  "item_bytes (PLLong l) = host_bytes 8 (bswap_64 l)" "item_bytes (PULLong l) = host_bytes 8 (bswap_64 l)"
  "item_bytes (PFloat i) = host_bytes 4 i" "item_bytes (PDouble l) = host_bytes 8 l"
  by (simp_all add: item_bytes_def put_bool_def put_char_def put_uchar_def put_short_def put_ushort_def
      put_int_def put_uint_def put_long_def put_ulong_def put_llong_def put_ullong_def put_float_def put_double_def)

lemmas get_defs = get_bool_def get_char_def get_uchar_def get_short_def get_ushort_def
  get_int_def get_unsigned_def get_long_def get_ulong_def get_llong_def get_ullong_def get_float_def get_double_def

lemma get_cstr_ok:
  assumes at: "po_at po (item_bytes (PCStr s) @ rest)" and z: "0 \<notin> set s"
  shows "get_cstr po = Inr (s, po_skip (length (item_bytes (PCStr s))) po)"
proof -
  have "takeWhile (\<lambda>c. c \<noteq> 0) s = s" by (subst takeWhile_eq_all_conv) (use z in auto)
  then have b: "item_bytes (PCStr s) = s @ [0]" by (simp add: item_bytes_def put_cstr_def)
  have d: "drop (po_pos po) (po_buffer po) = s @ 0 # rest" using at b by (simp add: po_at_def)
  have t: "takeWhile (\<lambda>c. c \<noteq> 0) (s @ 0 # rest) = s"
    by (subst takeWhile_append2) (use z in auto)
  have "\<not> po_pos po + length s + 1 > length (po_buffer po)" using po_length[OF at] b by simp
  then show ?thesis unfolding get_cstr_def d t b Let_def
    by (simp only: if_False po_skip_def set_append list.set Un_iff insert_iff simp_thms length_append list.size
        add_0 One_nat_def add_Suc add_Suc_right add_0_right)
qed

lemma read_like:
  "po_at po (bs @ rest) \<Longrightarrow> length bs = n \<Longrightarrow> as_item F (po_read n f po) = Inr (F (f bs), po_skip n po)"
  by (simp only: as_item_def po_read_ok bindE_simps prod.case)

lemma get_item_ok:
  assumes at: "po_at po (item_bytes x @ rest)" and wf: "wf_item x"
  shows "get_like x po = Inr (x, po_skip (length (item_bytes x)) po)"
proof (cases x)
  case (PCStr s)
  with get_cstr_ok[of po s rest] at wf show ?thesis by (simp add: as_item_def)
next
  case (PString s)
  with get_string_ok[of po s rest] at wf show ?thesis by (simp add: as_item_def)
qed (insert at, (hypsubst_thin?, unfold item_sizes get_like.simps get_defs, rule trans[OF read_like], assumption, simp, simp)+)

lemma get_items_ok:
  "po_at po (concat (List.map item_bytes xs) @ rest) \<Longrightarrow> list_all wf_item xs \<Longrightarrow>
   get_items xs po = Inr (xs, po_skip (length (concat (List.map item_bytes xs))) po)"
proof (induction xs arbitrary: po)
  case (Cons x xs)
  have at: "po_at po (item_bytes x @ concat (List.map item_bytes xs) @ rest)" using Cons.prems(1) by simp
  have x: "get_like x po = Inr (x, po_skip (length (item_bytes x)) po)"
    using get_item_ok[OF at] Cons.prems(2) by simp
  from Cons.IH[OF po_skip_at[OF at]] Cons.prems(2) have
    "get_items xs (po_skip (length (item_bytes x)) po) =
      Inr (xs, po_skip (length (item_bytes x @ concat (List.map item_bytes xs))) po)" by simp
  then show ?case unfolding get_items.simps x by simp
qed (simp add: po_skip_def)

subsection \<open>What is missing is reported\<close>

lemma get_string_short:
  assumes at: "po_at po rest" and short: "rest @ c = item_bytes (PString s)" "c \<noteq> []" and s: "length s < 2 ^ 32"
  shows "get_string po = Inl packout_exception"
proof -
  have header: "get_string po = Inl packout_exception" if r: "rest = []"
    using po_read_short[OF at, of 1 hd] r by (simp add: get_string_def get_uchar_def)
  show ?thesis
  proof (cases "length s < 255")
    case True
    then have b: "rest @ c = of_nat (length s) # s" using s short by (simp add: string_bytes)
    have n: "unat (of_nat (length s) :: byte) = length s" using True by (simp add: unat_of_nat_small)
    then have c: "(of_nat (length s) :: byte) \<noteq> 255" using True by auto
    show ?thesis
    proof (cases rest)
      case (Cons h t)
      with b have h: "h = of_nat (length s)" "t @ c = s" by auto
      have at1: "po_at po ([h] @ t)" using at Cons by simp
      have u: "unat (ucast h :: u32) = length s"
        using True h(1) by (simp add: unsigned_of_nat take_bit_nat_eq_self)
      have "length t < length s" using h(2) short(2) by auto
      with po_take_short[OF po_skip_at[OF at1]] have "po_take (unat (ucast h :: u32)) (po_skip 1 po) = Inl packout_exception"
        unfolding u by simp
      with po_read_ok[OF at1, of 1 hd] c h(1) show ?thesis by (simp add: get_string_def get_uchar_def)
    qed (rule header)
  next
    case False
    let ?n = "host_bytes 4 (htonl (of_nat (length s)))"
    have b: "rest @ c = 255 # ?n @ s" using s short False by (simp add: string_bytes)
    show ?thesis
    proof (cases rest)
      case (Cons h t)
      with b have h: "h = 255" "t @ c = ?n @ s" by auto
      have at1: "po_at po ([h] @ t)" using at Cons by simp
      have at2: "po_at (po_skip 1 po) t" using po_skip_at[OF at1] by simp
      have first: "get_string po = bindE (get_unsigned (po_skip 1 po)) (\<lambda>(len, po). po_take (unat len) po)"
        using po_read_ok[OF at1, of 1 hd] h(1) by (simp add: get_string_def get_uchar_def)
      show ?thesis
      proof (cases "length t < 4")
        case True
        then show ?thesis by (simp only: first get_unsigned_def po_read_short[OF at2 True] bindE_simps)
      next
        case False
        define t' where "t' = drop 4 t"
        have "take 4 t = ?n" "t' @ c = s"
          using arg_cong[OF h(2), of "take 4"] arg_cong[OF h(2), of "drop 4"] False by (simp_all add: t'_def)
        then have t: "t = ?n @ t'" "t' @ c = s" by (metis append_take_drop_id t'_def)+
        have u: "unat (of_nat (length s) :: u32) = length s" using s by (simp add: unat_of_nat_small)
        have "length t' < length s" using t(2) short(2) by auto
        then have "po_take (length s) (po_skip 5 po) = Inl packout_exception"
          using po_take_short[OF po_skip_at[OF at2[unfolded t(1)]]] by simp
        with po_read_ok[OF at2[unfolded t(1)], of 4 "\<lambda>bs. htonl (host_val bs)"] u
        show ?thesis by (simp add: first get_unsigned_def)
      qed
    qed (rule header)
  qed
qed

fun is_cstr :: "pack_item \<Rightarrow> bool" where
  "is_cstr (PCStr s) = True"
| "is_cstr _ = False"

text \<open>What reading a cut value comes to; a C string is copied without a bound, to behind the end.\<close>

definition cut_error :: "pack_item \<Rightarrow> cpp_error" where
  "cut_error x = (if is_cstr x then OutOfBounds else Thrown ''TC_PackOut_Exception'')"

lemma get_item_short:
  assumes at: "po_at po rest" and short: "rest @ c = item_bytes x" "c \<noteq> []" and wf: "wf_item x"
  shows "get_like x po = Inl (cut_error x)"
proof -
  have n: "length rest < length (item_bytes x)" using short by (metis length_append length_greater_0_conv less_add_same_cancel1)
  have r: "as_item F (po_read n f po) = Inl packout_exception" if "length rest < n" for F n f
    by (simp only: as_item_def po_read_short[OF at that] bindE_simps)
  show ?thesis
  proof (cases x)
    case (PCStr s)
    have "takeWhile (\<lambda>c. c \<noteq> 0) s = s" by (subst takeWhile_eq_all_conv) (use wf PCStr in auto)
    then have "rest @ c = s @ [0]" using short(1) by (simp add: PCStr item_bytes_def put_cstr_def)
    then have "\<exists>r. s = rest @ r" using short(2) by (metis append_butlast_last_id butlast_append butlast_snoc)
    then have "0 \<notin> set rest" using wf PCStr by auto
    moreover have "drop (po_pos po) (po_buffer po) = rest" using at by (simp add: po_at_def)
    ultimately show ?thesis by (simp add: PCStr get_cstr_def as_item_def cut_error_def Let_def)
  next
    case (PString s)
    with get_string_short[OF at] short wf show ?thesis by (simp add: as_item_def cut_error_def packout_exception_def)
  qed (insert n, (hypsubst_thin?, simp add: item_sizes get_defs r cut_error_def packout_exception_def)+)
qed

text \<open>The value in which the packed bytes are cut.\<close>

fun cut_item :: "pack_item list \<Rightarrow> nat \<Rightarrow> pack_item" where
  "cut_item (x # y # xs) n =
     (if n < length (item_bytes x) then x else cut_item (y # xs) (n - length (item_bytes x)))"
| "cut_item [x] n = x"
| "cut_item [] n = PBool False"

lemma get_items_short:
  "po_at po rest \<Longrightarrow> rest @ c = concat (List.map item_bytes xs) \<Longrightarrow> c \<noteq> [] \<Longrightarrow> list_all wf_item xs \<Longrightarrow>
   get_items xs po = Inl (cut_error (cut_item xs (length rest)))"
proof (induction xs arbitrary: po rest)
  case (Cons x xs)
  have wf: "wf_item x" using Cons.prems by simp
  have rest: "rest @ c = item_bytes x @ concat (List.map item_bytes xs)" using Cons.prems(2) by simp
  show ?case
  proof (cases "length rest < length (item_bytes x)")
    case True
    then obtain r where r: "rest @ r = item_bytes x"
      using rest by (auto simp: append_eq_append_conv2)
    then have "r \<noteq> []" using True by auto
    have "cut_item (x # xs) (length rest) = x" using True by (cases xs) simp_all
    then show ?thesis using get_item_short[OF Cons.prems(1) r \<open>r \<noteq> []\<close> wf] by simp
  next
    case False
    have "rest = item_bytes x @ drop (length (item_bytes x)) rest"
      using False arg_cong[OF rest, of "take (length (item_bytes x))"] append_take_drop_id[of "length (item_bytes x)" rest] by simp
    then obtain r where r: "rest = item_bytes x @ r" by blast
    then have more: "rest = item_bytes x @ r" "r @ c = concat (List.map item_bytes xs)" using rest by simp_all
    have at: "po_at po (item_bytes x @ r)" using Cons.prems(1) more(1) by simp
    obtain y ys where "xs = y # ys" using more(2) Cons.prems(3) by (cases xs) auto
    then have "cut_item (x # xs) (length rest) = cut_item xs (length r)" using more(1) by simp
    moreover have "get_items xs (po_skip (length (item_bytes x)) po) = Inl (cut_error (cut_item xs (length r)))"
      using Cons.IH[OF po_skip_at[OF at] more(2)] Cons.prems by simp
    ultimately show ?thesis unfolding get_items.simps get_item_ok[OF at wf] by simp
  qed
qed simp

section \<open>Containers\<close>

text \<open>The templates for \<open>vector\<close> and \<open>map\<close>, with the coders of their elements.\<close>

definition encode_vector :: "('a \<Rightarrow> byte list \<Rightarrow> byte list) \<Rightarrow> 'a list \<Rightarrow> byte list \<Rightarrow> byte list" where
  "encode_vector enc t buf = fold enc t (put_int (of_nat (length t)) buf)"

fun decode_times :: "nat \<Rightarrow> (pack_out \<Rightarrow> ('a \<times> pack_out) result) \<Rightarrow> 'a list \<Rightarrow> pack_out \<Rightarrow> ('a list \<times> pack_out) result" where
  "decode_times 0 dec t po = Inr (t, po)"
| "decode_times (Suc i) dec t po = bindE (dec po) (\<lambda>(x, po). decode_times i dec (t @ [x]) po)"

definition decode_vector ::
  "(pack_out \<Rightarrow> ('a \<times> pack_out) result) \<Rightarrow> 'a list \<Rightarrow> pack_out \<Rightarrow> ('a list \<times> pack_out) result" where
  "decode_vector dec t po = bindE (get_int po) (\<lambda>(n, po). decode_times (nat (sint n)) dec t po)"

text \<open>A map is the list of its entries in the order of the keys.\<close>

definition encode_map ::
  "('k \<Rightarrow> byte list \<Rightarrow> byte list) \<Rightarrow> ('v \<Rightarrow> byte list \<Rightarrow> byte list) \<Rightarrow> ('k \<times> 'v) list \<Rightarrow> byte list \<Rightarrow> byte list" where
  "encode_map ek ev t buf = fold (\<lambda>(k, v) buf. ev v (ek k buf)) t (put_int (of_nat (length t)) buf)"

fun decode_entries ::
  "nat \<Rightarrow> (pack_out \<Rightarrow> ('k \<times> pack_out) result) \<Rightarrow> (pack_out \<Rightarrow> ('v \<times> pack_out) result) \<Rightarrow>
   ('k \<rightharpoonup> 'v) \<Rightarrow> pack_out \<Rightarrow> (('k \<rightharpoonup> 'v) \<times> pack_out) result" where
  "decode_entries 0 dk dv t po = Inr (t, po)"
| "decode_entries (Suc i) dk dv t po =
     bindE (dk po) (\<lambda>(k, po). bindE (dv po) (\<lambda>(v, po). decode_entries i dk dv (t(k \<mapsto> v)) po))"

definition decode_map ::
  "(pack_out \<Rightarrow> ('k \<times> pack_out) result) \<Rightarrow> (pack_out \<Rightarrow> ('v \<times> pack_out) result) \<Rightarrow>
   ('k \<rightharpoonup> 'v) \<Rightarrow> pack_out \<Rightarrow> (('k \<rightharpoonup> 'v) \<times> pack_out) result" where
  "decode_map dk dv t po = bindE (get_int po) (\<lambda>(n, po). decode_entries (nat (sint n)) dk dv t po)"

text \<open>
  What an element's coders promise: the encoder appends, and the decoder reads what the
  encoder wrote. From it follows the same for the containers.
\<close>

locale element_coder =
  fixes enc :: "'a \<Rightarrow> byte list \<Rightarrow> byte list"
    and dec :: "pack_out \<Rightarrow> ('a \<times> pack_out) result"
    and ok :: "'a \<Rightarrow> bool"
  assumes appends: "enc x buf = buf @ enc x []"
    and reads: "ok x \<Longrightarrow> po_at po (enc x [] @ rest) \<Longrightarrow> dec po = Inr (x, po_skip (length (enc x [])) po)"
begin

lemma fold_appends: "fold enc xs buf = buf @ concat (List.map (\<lambda>x. enc x []) xs)"
proof (induction xs arbitrary: buf)
  case (Cons x xs)
  show ?case using Cons.IH[of "enc x buf"] appends[of x buf] by simp
qed simp

lemma times_reads:
  "list_all ok xs \<Longrightarrow> po_at po (concat (List.map (\<lambda>x. enc x []) xs) @ rest) \<Longrightarrow>
   decode_times (length xs) dec t po = Inr (t @ xs, po_skip (length (concat (List.map (\<lambda>x. enc x []) xs))) po)"
proof (induction xs arbitrary: t po)
  case (Cons x xs)
  have at: "po_at po (enc x [] @ concat (List.map (\<lambda>x. enc x []) xs) @ rest)" using Cons.prems(2) by simp
  have x: "dec po = Inr (x, po_skip (length (enc x [])) po)" using reads[OF _ at] Cons.prems(1) by simp
  from Cons.IH[OF _ po_skip_at[OF at], of "t @ [x]"] Cons.prems(1) show ?case by (simp add: x)
qed (simp add: po_skip_def)

lemma vector_appends: "encode_vector enc xs buf = buf @ encode_vector enc xs []"
  by (simp add: encode_vector_def fold_appends put_int_def)

lemma vector_reads:
  assumes ok: "list_all ok xs" "length xs < 2 ^ 31" and at: "po_at po (encode_vector enc xs [] @ rest)"
  shows "decode_vector dec [] po = Inr (xs, po_skip (length (encode_vector enc xs [])) po)"
proof -
  let ?n = "host_bytes 4 (htonl (of_nat (length xs)))" and ?b = "concat (List.map (\<lambda>x. enc x []) xs)"
  have e: "encode_vector enc xs [] = ?n @ ?b" by (simp add: encode_vector_def fold_appends put_int_def)
  have at1: "po_at po (?n @ ?b @ rest)" using at e by simp
  have "sint (of_nat (length xs) :: u32) = int (length xs)"
    using ok(2) by (simp add: sint_uint unsigned_of_nat take_bit_nat_eq_self signed_take_bit_int_eq_self)
  moreover have "get_int po = Inr (of_nat (length xs), po_skip 4 po)"
    using po_read_ok[OF at1, of 4 "\<lambda>bs. htonl (host_val bs)"] by (simp add: get_int_def)
  ultimately show ?thesis
    using times_reads[OF ok(1), of "po_skip 4 po" rest "[]"] po_skip_at[OF at1] e by (simp add: decode_vector_def)
qed

end

locale map_coder = key: element_coder ek dk kok + val: element_coder ev dv vok for ek dk kok ev dv vok
begin

lemma entry_appends: "ev v (ek k buf) = buf @ ek k [] @ ev v []"
  using key.appends[of k buf] val.appends[of v "ek k buf"] by simp

lemma entries_appends:
  "fold (\<lambda>(k, v) buf. ev v (ek k buf)) xs buf = buf @ concat (List.map (\<lambda>(k, v). ek k [] @ ev v []) xs)"
proof (induction xs arbitrary: buf)
  case (Cons x xs)
  obtain k v where x: "x = (k, v)" by (cases x)
  show ?case using Cons.IH[of "ev v (ek k buf)"] entry_appends[of v k buf] by (simp add: x)
qed simp

lemma entries_read:
  "list_all (\<lambda>(k, v). kok k \<and> vok v) xs \<Longrightarrow>
   po_at po (concat (List.map (\<lambda>(k, v). ek k [] @ ev v []) xs) @ rest) \<Longrightarrow> distinct (List.map fst xs) \<Longrightarrow>
   decode_entries (length xs) dk dv t po =
     Inr (t ++ map_of xs, po_skip (length (concat (List.map (\<lambda>(k, v). ek k [] @ ev v []) xs))) po)"
proof (induction xs arbitrary: t po)
  case (Cons x xs)
  obtain k v where x: "x = (k, v)" by (cases x)
  let ?b = "concat (List.map (\<lambda>(k, v). ek k [] @ ev v []) xs)"
  have at: "po_at po (ek k [] @ ev v [] @ ?b @ rest)" using Cons.prems(2) by (simp add: x)
  have at': "po_at (po_skip (length (ek k [])) po) (ev v [] @ ?b @ rest)" by (rule po_skip_at[OF at])
  have k: "dk po = Inr (k, po_skip (length (ek k [])) po)" using key.reads[OF _ at] Cons.prems(1) by (simp add: x)
  have v: "dv (po_skip (length (ek k [])) po) =
      Inr (v, po_skip (length (ev v [])) (po_skip (length (ek k [])) po))"
    using val.reads[OF _ at'] Cons.prems(1) by (simp add: x)
  have "t(k \<mapsto> v) ++ map_of xs = t ++ map_of ((k, v) # xs)"
    using Cons.prems(3) map_of_eq_None_iff[of xs k] by (auto simp: x map_add_def fun_eq_iff split: option.splits)
  with Cons.IH[OF _ po_skip_at[OF at'], of "t(k \<mapsto> v)"] Cons.prems(1,3) show ?case
    by (simp add: x k v add.assoc del: fun_upd_apply)
qed (simp add: po_skip_def)

lemma map_reads:
  assumes ok: "list_all (\<lambda>(k, v). kok k \<and> vok v) xs" "length xs < 2 ^ 31" "distinct (List.map fst xs)"
    and at: "po_at po (encode_map ek ev xs [] @ rest)"
  shows "decode_map dk dv Map.empty po = Inr (map_of xs, po_skip (length (encode_map ek ev xs [])) po)"
proof -
  let ?n = "host_bytes 4 (htonl (of_nat (length xs)))" and ?b = "concat (List.map (\<lambda>(k, v). ek k [] @ ev v []) xs)"
  have e: "encode_map ek ev xs [] = ?n @ ?b" by (simp add: encode_map_def entries_appends put_int_def)
  have at1: "po_at po (?n @ ?b @ rest)" using at e by simp
  have "sint (of_nat (length xs) :: u32) = int (length xs)"
    using ok(2) by (simp add: sint_uint unsigned_of_nat take_bit_nat_eq_self signed_take_bit_int_eq_self)
  moreover have "get_int po = Inr (of_nat (length xs), po_skip 4 po)"
    using po_read_ok[OF at1, of 4 "\<lambda>bs. htonl (host_val bs)"] by (simp add: get_int_def)
  ultimately show ?thesis
    using entries_read[OF ok(1) _ ok(3), of "po_skip 4 po" rest Map.empty] po_skip_at[OF at1] e
    by (simp add: decode_map_def)
qed

end

text \<open>The coders of \<open>int\<close> and of strings keep the promise.\<close>

interpretation int_coder: element_coder put_int get_int "\<lambda>_. True"
proof
  show "put_int x buf = buf @ put_int x []" for x buf by (simp add: put_int_def)
  show "get_int po = Inr (x, po_skip (length (put_int x [])) po)" if "po_at po (put_int x [] @ rest)" for x po rest
    using po_read_ok[of po "put_int x []" rest 4 "\<lambda>bs. htonl (host_val bs)"] that
    by (simp add: get_int_def put_int_def)
qed

interpretation string_coder: element_coder put_string get_string "\<lambda>s. length s < 2 ^ 32"
proof
  show "put_string x buf = buf @ put_string x []" for x buf
    using put_item_append[of "PString x" buf] by (simp add: item_bytes_def)
  show "get_string po = Inr (x, po_skip (length (put_string x [])) po)"
    if "length x < 2 ^ 32" "po_at po (put_string x [] @ rest)" for x po rest
    using get_string_ok[of po x rest] that by (simp add: item_bytes_def)
qed

interpretation string_map: map_coder put_string get_string "\<lambda>s. length s < 2 ^ 32"
  put_string get_string "\<lambda>s. length s < 2 ^ 32" ..

lemma po_at_init: "po_at (po_init b) b"
  by (simp add: po_at_def po_init_def)

section \<open>Properties\<close>

text \<open>
  C38. \<open>TC_PackIn\<close> and \<open>TC_PackOut\<close>: whatever values are packed, of whatever types, strings of
  every length included, unpacking them by their types gives them back and ends at the end.
\<close>

theorem pack_roundtrip:
  assumes "list_all wf_item xs"
  shows "\<exists>po. get_items xs (po_init (put_items xs [])) = Inr (xs, po) \<and> po_isEnd po"
proof -
  have at: "po_at (po_init (put_items xs [])) (concat (List.map item_bytes xs) @ [])"
    using po_at_init[of "put_items xs []"] by (simp add: put_items_append)
  from get_items_ok[OF at assms] show ?thesis
    by (simp add: po_isEnd_def po_skip_def po_init_def put_items_append)
qed

lemma pack_roundtrip_witness:
  "\<exists>po. get_items [PInt 258, PString [97, 0, 98], PBool True]
      (po_init (put_items [PInt 258, PString [97, 0, 98], PBool True] [])) =
     Inr ([PInt 258, PString [97, 0, 98], PBool True], po) \<and> po_isEnd po"
  by (rule pack_roundtrip) simp

text \<open>
  C39. Truncated input: if the packed bytes end early, at whatever point, unpacking throws
  \<open>TC_PackOut_Exception\<close>: it neither invents a value nor reads past the end. The exception is a C
  string: when the cut is in one, or just before it, \<open>strcpy\<close> reads past the end before the bound
  is checked.
\<close>

theorem pack_truncated:
  assumes "list_all wf_item xs" "n < length (put_items xs [])"
  shows "get_items xs (po_init (take n (put_items xs []))) =
    Inl (if is_cstr (cut_item xs n) then OutOfBounds else Thrown ''TC_PackOut_Exception'')"
proof -
  have "drop n (put_items xs []) \<noteq> []" "length (take n (put_items xs [])) = n" using assms(2) by simp_all
  moreover have "take n (put_items xs []) @ drop n (put_items xs []) = concat (List.map item_bytes xs)"
    by (simp add: put_items_append)
  ultimately show ?thesis
    using get_items_short[OF po_at_init _ _ assms(1)] unfolding cut_error_def by metis
qed

lemma pack_truncated_witness:
  "get_items [PInt 258, PString [97, 0, 98]] (po_init (take 6 (put_items [PInt 258, PString [97, 0, 98]] []))) =
     Inl (if is_cstr (cut_item [PInt 258, PString [97, 0, 98]] 6) then OutOfBounds else Thrown ''TC_PackOut_Exception'')"
proof (rule pack_truncated)
  show "6 < length (put_items [PInt 258, PString [97, 0, 98]] [])"
    by (simp add: put_items_append item_sizes string_bytes)
qed simp_all

text \<open>Maps of strings, as \<open>encode\<close> and \<open>decode\<close> treat them.\<close>

lemma string_map_roundtrip:
  assumes "list_all (\<lambda>(k, v). length k < 2 ^ 32 \<and> length v < 2 ^ 32) xs" "length xs < 2 ^ 31"
    "distinct (List.map fst xs)"
  shows "\<exists>po. decode_map get_string get_string Map.empty (po_init (encode_map put_string put_string xs [])) =
    Inr (map_of xs, po) \<and> po_isEnd po"
proof -
  have "po_at (po_init (encode_map put_string put_string xs [])) (encode_map put_string put_string xs [] @ [])"
    using po_at_init by simp
  from string_map.map_reads[OF assms this] show ?thesis
    by (simp add: po_isEnd_def po_skip_def po_init_def)
qed

text \<open>
  \<open>insert\<close>: the destructor compares the position with the length of the inserted bytes, not
  with that of the buffer, so an insertion behind as many bytes as are inserted is refused.
\<close>

lemma pack_insert_rejects:
  assumes "length bs < p"
  shows "inner_destroy ((pack_insert p)\<lparr>pi_buffer := bs\<rparr>) buf = Inl (Thrown ''TC_PackIn_Exception'')"
  using assms by (simp add: inner_destroy_def pack_insert_def packin_exception_def)

end
