(* ===== verification/Hm_State.thy ===== *)
theory Hm_State
  imports Pool Linked Pack
begin

text \<open>
  The memory of \<open>TC_HashMap\<close> (tcinclude/tc_hashmap.h, tc_hashmap.cpp): the map head, the vector
  of buckets (tcinclude/tc_mem_vector.h), the blocks and chunks with their heads and data, and
  the journal through which the fields are modified (\<open>update\<close>, \<open>doUpdate\<close>).
\<close>

section \<open>Return codes and records\<close>

datatype rt =
    RT_OK | RT_DIRTY_DATA | RT_NO_DATA | RT_NEED_SYNC | RT_NONEED_SYNC | RT_ERASE_OK | RT_READONLY
  | RT_NO_MEMORY | RT_ONLY_KEY | RT_NEED_BACKUP | RT_NO_GET | RT_DECODE_ERR | RT_EXCEPTION_ERR
  | RT_LOAD_DATA_ERR | RT_VERSION_MISMATCH_ERR | RT_DUMP_FILE_ERR | RT_LOAL_FILE_ERR | RT_NOTALL_ERR

record block_data =
  bd_key :: "byte list"
  bd_value :: "byte list"
  bd_dirty :: bool
  bd_synct :: nat

definition new_data :: block_data where
  "new_data = \<lparr>bd_key = [], bd_value = [], bd_dirty = False, bd_synct = 0\<rparr>"

section \<open>Fields\<close>

text \<open>
  A location is a field of the map head, of the hash item of an index, of the block head at an
  address (\<open>tagBlockHead\<close>) or of the chunk head at an address (\<open>tagChunkHead\<close>). Addresses are
  relative to the map head, 0 is none. \<open>B_iNextChunk\<close> and \<open>C_iNextChunk\<close> stand for the unions
  of \<open>_iNextChunk\<close> and \<open>_iDataLen\<close>. A \<open>bool\<close> is 0 or 1.
\<close>

datatype loc =
    H_iElementCount | H_iDirtyCount | H_iOnlyKeyCount | H_iGetCount | H_iHitCount
  | H_iSetHead | H_iSetTail | H_iGetHead | H_iGetTail
  | H_iDirtyTail | H_iSyncTail | H_iBackupTail
  | I_iBlockAddr nat | I_iListCount nat
  | B_iSize nat | B_iIndex nat | B_iBlockNext nat | B_iBlockPrev nat
  | B_iSetNext nat | B_iSetPrev nat | B_iGetNext nat | B_iGetPrev nat
  | B_iSyncTime nat | B_bDirty nat | B_bOnlyKey nat | B_bNextChunk nat | B_iNextChunk nat
  | C_iSize nat | C_bNextChunk nat | C_iNextChunk nat

type_synonym mem = "loc \<Rightarrow> nat"

definition block_head_size :: nat where
  "block_head_size = 4 + 4 + 6 * 8 + 8 + 3 + 8"

definition chunk_link_size :: nat where
  "chunk_link_size = 4 + 1 + 8"

text \<open>Arithmetic of \<open>size_t\<close> and of \<open>uint32_t\<close>.\<close>

definition inc64 :: "nat \<Rightarrow> nat" where "inc64 n = (n + 1) mod 2 ^ 64"
definition dec64 :: "nat \<Rightarrow> nat" where "dec64 n = (n + (2 ^ 64 - 1)) mod 2 ^ 64"
definition inc32 :: "nat \<Rightarrow> nat" where "inc32 n = (n + 1) mod 2 ^ 32"
definition dec32 :: "nat \<Rightarrow> nat" where "dec32 n = (n + (2 ^ 32 - 1)) mod 2 ^ 32"

definition usub :: "nat \<Rightarrow> nat \<Rightarrow> nat" where
  "usub a b = (if b \<le> a then a - b else a + 2 ^ 64 - b)"

lemma usub_le [simp]: "b \<le> a \<Longrightarrow> usub a b = a - b"
  by (simp add: usub_def)

section \<open>\<open>TC_MemVector\<close>\<close>

text \<open>An array of \<open>n\<close> elements of equal size behind a head of three \<open>size_t\<close>.\<close>

record mem_vector =
  mv_iSize :: nat
  mv_iBlockCount :: nat
  mv_iBlockSize :: nat

definition mv_head_size :: nat where
  "mv_head_size = 3 * 8"

definition mv_calcMemSize :: "nat \<Rightarrow> nat \<Rightarrow> nat" where
  "mv_calcMemSize elem n = elem * n + mv_head_size"

definition mv_exception :: cpp_error where
  "mv_exception = Thrown ''TC_MemVectorException''"

definition mv_create :: "nat \<Rightarrow> nat \<Rightarrow> mem_vector result" where
  "mv_create elem iSize =
     (if iSize \<le> mv_head_size \<or> (iSize - mv_head_size) div elem = 0 then Inl mv_exception
      else Inr \<lparr>mv_iSize = iSize, mv_iBlockCount = (iSize - mv_head_size) div elem, mv_iBlockSize = elem\<rparr>)"

definition mv_connect :: "nat \<Rightarrow> mem_vector \<Rightarrow> mem_vector result" where
  "mv_connect elem v = (if mv_iBlockSize v = elem then Inr v else Inl AssertFail)"

text \<open>\<open>operator[]\<close>: the offset of the element behind the head.\<close>

definition mv_at :: "nat \<Rightarrow> mem_vector \<Rightarrow> nat result" where
  "mv_at i v = (if i \<ge> mv_iBlockCount v then Inl mv_exception else Inr (i * mv_iBlockSize v))"

lemma mv_create_ok:
  assumes "0 < elem" "0 < n"
  shows "mv_create elem (mv_calcMemSize elem n) =
    Inr \<lparr>mv_iSize = mv_calcMemSize elem n, mv_iBlockCount = n, mv_iBlockSize = elem\<rparr>"
  using assms by (simp add: mv_create_def mv_calcMemSize_def)

lemma mv_at_inside:
  "mv_create elem iSize = Inr v \<Longrightarrow> mv_at i v = Inr off \<Longrightarrow> mv_head_size + off + elem \<le> iSize"
proof -
  assume c: "mv_create elem iSize = Inr v" and a: "mv_at i v = Inr off"
  from c have s: "mv_head_size < iSize" "mv_iBlockSize v = elem" "mv_iBlockCount v = (iSize - mv_head_size) div elem"
    by (auto simp: mv_create_def split: if_splits)
  from a s have i: "i < (iSize - mv_head_size) div elem" "off = i * elem"
    by (auto simp: mv_at_def split: if_splits)
  then have "Suc i * elem \<le> (iSize - mv_head_size) div elem * elem" by (intro mult_right_mono) auto
  also have "\<dots> \<le> iSize - mv_head_size" by simp
  finally show ?thesis using s(1) i(2) by simp
qed

section \<open>The state\<close>

text \<open>
  \<open>hm_data a\<close> holds the bytes written so far into the data part of the block or chunk at \<open>a\<close>.
  The journal is the first \<open>_iNowIndex\<close> entries of \<open>_stModifyData\<close>.
\<close>

record hmap =
  hm_mem :: mem
  hm_data :: "nat \<Rightarrow> byte list"
  hm_hash :: mem_vector
  hm_alloc :: multi
  hm_cModifyStatus :: nat
  hm_stModifyData :: "(loc \<times> nat) list"
  hm_cMaxVersion :: nat
  hm_cMinVersion :: nat
  hm_bReadOnly :: bool
  hm_bAutoErase :: bool
  hm_cEraseMode :: nat
  hm_iMemSize :: nat
  hm_iMinDataSize :: nat
  hm_iMaxDataSize :: nat
  hm_iEraseCount :: nat
  hm_iSyncTime :: nat
  hm_iUsedChunk :: nat

definition journal_size :: nat where
  "journal_size = 20"

abbreviation hash_count :: "hmap \<Rightarrow> nat" where
  "hash_count s \<equiv> mv_iBlockCount (hm_hash s)"

abbreviation hm_live :: "hmap \<Rightarrow> nat \<Rightarrow> bool" where
  "hm_live s a \<equiv> is_live (hm_alloc s) a"

text \<open>An access through a pointer that is not to a block in use is undefined behaviour.\<close>

definition at_block :: "nat \<Rightarrow> hmap \<Rightarrow> 'a result \<Rightarrow> 'a result" where
  "at_block a s r = (if hm_live s a then r else Inl OutOfBounds)"

definition assert_that :: "bool \<Rightarrow> 'a result \<Rightarrow> 'a result" where
  "assert_that b r = (if b then r else Inl AssertFail)"

text \<open>\<open>item(i)\<close>\<close>

definition with_item :: "nat \<Rightarrow> hmap \<Rightarrow> 'a result \<Rightarrow> 'a result" where
  "with_item i s r = bindE (mv_at i (hm_hash s)) (\<lambda>_. r)"

lemma access_simps [simp]:
  "hm_live s a \<Longrightarrow> at_block a s r = r"
  "b \<Longrightarrow> assert_that b r = r"
  "i < hash_count s \<Longrightarrow> with_item i s r = r"
  by (simp_all add: at_block_def assert_that_def with_item_def mv_at_def)

section \<open>The journal\<close>

fun loc_ok :: "hmap \<Rightarrow> loc \<Rightarrow> bool" where
  "loc_ok s (I_iBlockAddr i) = (i < hash_count s)"
| "loc_ok s (I_iListCount i) = (i < hash_count s)"
| "loc_ok s (B_iSize a) = hm_live s a"
| "loc_ok s (B_iIndex a) = hm_live s a"
| "loc_ok s (B_iBlockNext a) = hm_live s a"
| "loc_ok s (B_iBlockPrev a) = hm_live s a"
| "loc_ok s (B_iSetNext a) = hm_live s a"
| "loc_ok s (B_iSetPrev a) = hm_live s a"
| "loc_ok s (B_iGetNext a) = hm_live s a"
| "loc_ok s (B_iGetPrev a) = hm_live s a"
| "loc_ok s (B_iSyncTime a) = hm_live s a"
| "loc_ok s (B_bDirty a) = hm_live s a"
| "loc_ok s (B_bOnlyKey a) = hm_live s a"
| "loc_ok s (B_bNextChunk a) = hm_live s a"
| "loc_ok s (B_iNextChunk a) = hm_live s a"
| "loc_ok s (C_iSize a) = hm_live s a"
| "loc_ok s (C_bNextChunk a) = hm_live s a"
| "loc_ok s (C_iNextChunk a) = hm_live s a"
| "loc_ok s _ = True"

definition hm_update :: "loc \<Rightarrow> nat \<Rightarrow> hmap \<Rightarrow> hmap result" where
  "hm_update l v s =
     (let js = hm_stModifyData s @ [(l, v)] in
      assert_that (length js < journal_size) (Inr (s\<lparr>hm_cModifyStatus := 1, hm_stModifyData := js\<rparr>)))"

fun hm_updates :: "(loc \<times> nat) list \<Rightarrow> hmap \<Rightarrow> hmap result" where
  "hm_updates [] s = Inr s"
| "hm_updates ((l, v) # us) s = bindE (hm_update l v s) (hm_updates us)"

fun store_all :: "(loc \<times> nat) list \<Rightarrow> mem \<Rightarrow> mem" where
  "store_all [] m = m"
| "store_all ((l, v) # us) m = store_all us (m(l := v))"

definition hm_doUpdate :: "bool \<Rightarrow> hmap \<Rightarrow> hmap result" where
  "hm_doUpdate bUpdate s =
     (let st = (if bUpdate then 2 else hm_cModifyStatus s) in
      if st = 1 then Inr (s\<lparr>hm_stModifyData := [], hm_cModifyStatus := 0\<rparr>)
      else if st = 2 then
        (if list_all (\<lambda>(l, v). loc_ok s l) (hm_stModifyData s)
         then Inr (s\<lparr>hm_mem := store_all (hm_stModifyData s) (hm_mem s), hm_stModifyData := [], hm_cModifyStatus := 0\<rparr>)
         else Inl OutOfBounds)
      else Inr s)"

text \<open>A field written directly.\<close>

definition poke :: "loc \<Rightarrow> nat \<Rightarrow> hmap \<Rightarrow> hmap" where
  "poke l v s = s\<lparr>hm_mem := (hm_mem s)(l := v)\<rparr>"

subsection \<open>Facts about the journal\<close>

lemma store_all_append [simp]: "store_all (us @ vs) m = store_all vs (store_all us m)"
  by (induction us m rule: store_all.induct) (simp_all del: fun_upd_apply)

lemma store_all_other: "l \<notin> fst ` set us \<Longrightarrow> store_all us m l = m l"
  by (induction us m rule: store_all.induct) auto

text \<open>What is stored does not depend on what was stored there before.\<close>

lemma store_all_cong: "(\<And>l. l \<notin> fst ` set us \<Longrightarrow> m l = m' l) \<Longrightarrow> store_all us m = store_all us m'"
proof (induction us arbitrary: m m')
  case (Cons u us)
  obtain l v where u: "u = (l, v)" by (cases u)
  have "store_all us (m(l := v)) = store_all us (m'(l := v))"
    using Cons.prems by (intro Cons.IH) (auto simp: u)
  then show ?case by (simp add: u)
qed (simp add: fun_eq_iff)

lemma store_all_again: "store_all us (store_all (take n us) m) = store_all us m"
proof (rule store_all_cong)
  fix l assume "l \<notin> fst ` set us"
  then have "l \<notin> fst ` set (take n us)" using set_take_subset[of n us] by blast
  then show "store_all (take n us) m l = m l" by (rule store_all_other)
qed

lemma updates_ok:
  "length (hm_stModifyData s) + length us < journal_size \<Longrightarrow>
   hm_updates us s = Inr (s\<lparr>hm_cModifyStatus := (if us = [] then hm_cModifyStatus s else 1),
     hm_stModifyData := hm_stModifyData s @ us\<rparr>)"
proof (induction us arbitrary: s)
  case (Cons u us)
  obtain l v where u: "u = (l, v)" by (cases u)
  show ?case
    using Cons.IH[of "s\<lparr>hm_cModifyStatus := 1, hm_stModifyData := hm_stModifyData s @ [(l, v)]\<rparr>"] Cons.prems
    by (auto simp: u hm_update_def Let_def)
qed simp

lemma updates_append: "hm_updates (us @ vs) s = bindE (hm_updates us s) (hm_updates vs)"
proof (induction us arbitrary: s)
  case (Cons u us)
  obtain l v where u: "u = (l, v)" by (cases u)
  show ?case by (cases "hm_update l v s") (simp_all add: u Cons.IH)
qed simp

text \<open>A transaction: what is in the journal, and the updates, stored at once.\<close>

lemma transaction_ok:
  assumes "length (hm_stModifyData s) + length us < journal_size"
    "\<And>l v. (l, v) \<in> set (hm_stModifyData s @ us) \<Longrightarrow> loc_ok s l"
  shows "bindE (hm_updates us s) (hm_doUpdate True) =
    Inr (s\<lparr>hm_mem := store_all us (store_all (hm_stModifyData s) (hm_mem s)), hm_stModifyData := [], hm_cModifyStatus := 0\<rparr>)"
proof -
  have l: "loc_ok (s\<lparr>hm_cModifyStatus := c, hm_stModifyData := js\<rparr>) l = loc_ok s l" for c js l
    by (cases l) simp_all
  have "list_all (\<lambda>(l, v). loc_ok s l) (hm_stModifyData s @ us)" using assms(2) by (auto simp: list_all_iff)
  then show ?thesis by (simp add: updates_ok[OF assms(1)] hm_doUpdate_def Let_def l del: list_all_append)
qed

section \<open>A crash between two stores\<close>

text \<open>Memory that is all 0.\<close>

definition zero_memory :: hmap where
  "zero_memory = \<lparr>hm_mem = (\<lambda>l. 0), hm_data = (\<lambda>a. []), hm_hash = \<lparr>mv_iSize = 0, mv_iBlockCount = 0, mv_iBlockSize = 0\<rparr>,
     hm_alloc = Multi 0 0 0 0 0 0 [] 0 [] None, hm_cModifyStatus = 0, hm_stModifyData = [], hm_cMaxVersion = 0,
     hm_cMinVersion = 0, hm_bReadOnly = False, hm_bAutoErase = False, hm_cEraseMode = 0, hm_iMemSize = 0,
     hm_iMinDataSize = 0, hm_iMaxDataSize = 0, hm_iEraseCount = 0, hm_iSyncTime = 0, hm_iUsedChunk = 0\<rparr>"

text \<open>
  C40. The journal: if the process dies while it collects updates, the next \<open>doUpdate\<close> drops
  them and no field has changed; if it dies when \<open>n\<close> of the stores of a complete transaction
  have been done, the next \<open>doUpdate\<close> completes it, and the fields are those of a run without
  the crash.
\<close>

theorem hm_journal_atomic:
  assumes "hm_stModifyData s = []" "hm_doUpdate True (s\<lparr>hm_stModifyData := us\<rparr>) = Inr s'"
  shows "hm_doUpdate False (s\<lparr>hm_cModifyStatus := 1, hm_stModifyData := take k us\<rparr>) = Inr (s\<lparr>hm_cModifyStatus := 0\<rparr>) \<and>
    hm_doUpdate False (s\<lparr>hm_cModifyStatus := 2, hm_stModifyData := us, hm_mem := store_all (take n us) (hm_mem s)\<rparr>) = Inr s'"
proof
  have l: "loc_ok (s\<lparr>hm_cModifyStatus := c, hm_stModifyData := us, hm_mem := m\<rparr>) = loc_ok (s\<lparr>hm_stModifyData := us\<rparr>)" for c m
  proof
    fix l show "loc_ok (s\<lparr>hm_cModifyStatus := c, hm_stModifyData := us, hm_mem := m\<rparr>) l = loc_ok (s\<lparr>hm_stModifyData := us\<rparr>) l"
      by (cases l) simp_all
  qed
  show "hm_doUpdate False (s\<lparr>hm_cModifyStatus := 1, hm_stModifyData := take k us\<rparr>) = Inr (s\<lparr>hm_cModifyStatus := 0\<rparr>)"
    using assms(1) by (simp add: hm_doUpdate_def)
  show "hm_doUpdate False (s\<lparr>hm_cModifyStatus := 2, hm_stModifyData := us, hm_mem := store_all (take n us) (hm_mem s)\<rparr>) = Inr s'"
    using assms(2) by (auto simp: hm_doUpdate_def l store_all_again split: if_splits)
qed

lemma hm_journal_atomic_witness:
  "\<exists>s'. hm_doUpdate False (zero_memory\<lparr>hm_cModifyStatus := 1, hm_stModifyData := [(H_iGetHead, 5)]\<rparr>) = Inr (zero_memory\<lparr>hm_cModifyStatus := 0\<rparr>) \<and>
    hm_doUpdate False (zero_memory\<lparr>hm_cModifyStatus := 2, hm_stModifyData := [(H_iGetHead, 5), (H_iGetTail, 7)],
      hm_mem := (hm_mem zero_memory)(H_iGetHead := 5)\<rparr>) = Inr s' \<and> hm_mem s' H_iGetHead = 5 \<and> hm_mem s' H_iGetTail = 7"
proof -
  have z: "hm_stModifyData zero_memory = []" by (simp add: zero_memory_def)
  obtain s' where s': "hm_doUpdate True (zero_memory\<lparr>hm_stModifyData := [(H_iGetHead, 5), (H_iGetTail, 7)]\<rparr>) = Inr s'"
    "hm_mem s' H_iGetHead = 5" "hm_mem s' H_iGetTail = 7" by (simp add: hm_doUpdate_def)
  from hm_journal_atomic[OF z s'(1), of 1 1] s' show ?thesis by simp
qed

end
