(* ===== verification/Hm_Block.thy ===== *)
theory Hm_Block
  imports Hm_State
begin

text \<open>
  \<open>TC_HashMap::Block\<close> and \<open>TC_HashMap::BlockAllocator\<close> (tcinclude/tc_hashmap.cpp): the data of a
  record in a block and its chain of chunks, the lists the block is in, and how room is made by
  evicting other blocks. The first argument of the operations of a block is its address.
\<close>

section \<open>Loops\<close>

text \<open>
  No list or chain is longer than the number of all chunks: the loops along them stop with
  \<open>LoopLimit\<close> after that many steps.
\<close>

definition loop_limit :: "hmap \<Rightarrow> nat" where
  "loop_limit s = Suc (allBlockChunkCount (hm_alloc s))"

section \<open>Reading the data\<close>

definition isDirty :: "nat \<Rightarrow> hmap \<Rightarrow> bool" where
  "isDirty a s = (hm_mem s (B_bDirty a) \<noteq> 0)"

definition isOnlyKey :: "nat \<Rightarrow> hmap \<Rightarrow> bool" where
  "isOnlyKey a s = (hm_mem s (B_bOnlyKey a) \<noteq> 0)"

definition block_room :: "nat \<Rightarrow> hmap \<Rightarrow> nat" where
  "block_room a s = usub (hm_mem s (B_iSize a)) block_head_size"

definition chunk_room :: "nat \<Rightarrow> hmap \<Rightarrow> nat" where
  "chunk_room c s = usub (hm_mem s (C_iSize c)) chunk_link_size"

text \<open>\<open>memcpy\<close> out of the data part at \<open>a\<close>.\<close>

definition peek :: "nat \<Rightarrow> nat \<Rightarrow> hmap \<Rightarrow> byte list result" where
  "peek a n s = (if n \<le> length (hm_data s a) then Inr (take n (hm_data s a)) else Inl OutOfBounds)"

fun chunk_len :: "nat \<Rightarrow> nat \<Rightarrow> nat \<Rightarrow> hmap \<Rightarrow> nat result" where
  "chunk_len 0 c n s = Inl LoopLimit"
| "chunk_len (Suc fuel) c n s =
     at_block c s
       (if hm_mem s (C_bNextChunk c) \<noteq> 0
        then chunk_len fuel (hm_mem s (C_iNextChunk c)) (n + chunk_room c s) s
        else Inr (n + hm_mem s (C_iNextChunk c)))"

definition getDataLen :: "nat \<Rightarrow> hmap \<Rightarrow> nat result" where
  "getDataLen a s =
     at_block a s
       (if hm_mem s (B_bNextChunk a) = 0 then Inr (hm_mem s (B_iNextChunk a))
        else chunk_len (loop_limit s) (hm_mem s (B_iNextChunk a)) (block_room a s) s)"

text \<open>The bytes copied to \<open>pData\<close> and the new \<open>iDataLen\<close>; \<open>has\<close> bytes are copied, \<open>left\<close> fit.\<close>

fun chunk_get :: "nat \<Rightarrow> nat \<Rightarrow> nat \<Rightarrow> nat \<Rightarrow> nat \<Rightarrow> byte list \<Rightarrow> hmap \<Rightarrow> (rt \<times> byte list \<times> nat) result" where
  "chunk_get 0 c has left dataLen acc s = Inl LoopLimit"
| "chunk_get (Suc fuel) c has left dataLen acc s =
     (if \<not> has < dataLen then Inr (RT_OK, acc, dataLen)
      else at_block c s
        (if hm_mem s (C_bNextChunk c) = 0
         then let n = min (hm_mem s (C_iNextChunk c)) left in
              bindE (peek c n s) (\<lambda>bs.
              Inr (if left < hm_mem s (C_iNextChunk c) then RT_NOTALL_ERR else RT_OK, acc @ bs, has + n))
         else let use = chunk_room c s; n = min use left in
              bindE (peek c n s) (\<lambda>bs.
              if left \<le> use then Inr (RT_NOTALL_ERR, acc @ bs, has + n)
              else chunk_get fuel (hm_mem s (C_iNextChunk c)) (has + n) (left - n) dataLen (acc @ bs) s)))"

definition block_get :: "nat \<Rightarrow> nat \<Rightarrow> hmap \<Rightarrow> (rt \<times> byte list \<times> nat) result" where
  "block_get a iDataLen s =
     at_block a s
       (if hm_mem s (B_bNextChunk a) = 0
        then bindE (peek a (min (hm_mem s (B_iNextChunk a)) iDataLen) s) (\<lambda>bs.
             Inr (RT_OK, bs, hm_mem s (B_iNextChunk a)))
        else let iUseSize = block_room a s; iCopyLen = min iUseSize iDataLen in
             bindE (peek a iCopyLen s) (\<lambda>bs.
             if iDataLen < iUseSize then Inr (RT_NOTALL_ERR, bs, iDataLen)
             else chunk_get (loop_limit s) (hm_mem s (B_iNextChunk a)) iCopyLen (iDataLen - iCopyLen) iDataLen bs s))"

definition get_data :: "nat \<Rightarrow> hmap \<Rightarrow> (rt \<times> byte list) result" where
  "get_data a s =
     bindE (getDataLen a s) (\<lambda>iLen.
     bindE (block_get a iLen s) (\<lambda>(ret, bs, n). Inr (ret, if ret = RT_OK then take n bs else [])))"

text \<open>The exceptions of \<open>TC_PackOut\<close> are caught; what was read before them stays.\<close>

definition getBlockData :: "nat \<Rightarrow> block_data \<Rightarrow> hmap \<Rightarrow> (rt \<times> block_data) result" where
  "getBlockData a d s =
     at_block a s
       (let d = d\<lparr>bd_dirty := isDirty a s, bd_synct := hm_mem s (B_iSyncTime a)\<rparr> in
        bindE (get_data a s) (\<lambda>(ret, bs).
        if ret \<noteq> RT_OK then Inr (ret, d)
        else case get_string (po_init bs) of
            Inl e \<Rightarrow> Inr (RT_DECODE_ERR, d)
          | Inr (k, po) \<Rightarrow>
              let d = d\<lparr>bd_key := k\<rparr> in
              if isOnlyKey a s then Inr (RT_ONLY_KEY, d)
              else case get_string po of
                  Inl e \<Rightarrow> Inr (RT_DECODE_ERR, d)
                | Inr (v, po) \<Rightarrow> Inr (RT_OK, d\<lparr>bd_value := v\<rparr>)))"

fun last_block :: "nat \<Rightarrow> nat \<Rightarrow> hmap \<Rightarrow> nat result" where
  "last_block 0 a s = Inl LoopLimit"
| "last_block (Suc fuel) a s =
     at_block a s
       (if hm_mem s (B_iBlockNext a) \<noteq> 0 then last_block fuel (hm_mem s (B_iBlockNext a)) s else Inr a)"

definition getLastBlockHead :: "nat \<Rightarrow> hmap \<Rightarrow> nat result" where
  "getLastBlockHead a s = last_block (loop_limit s) a s"

section \<open>Giving blocks back\<close>

definition deallocateMemBlock :: "nat \<Rightarrow> hmap \<Rightarrow> hmap result" where
  "deallocateMemBlock p s =
     bindE (multi_deallocate p (hm_alloc s)) (\<lambda>m.
     Inr (s\<lparr>hm_alloc := m, hm_iUsedChunk := dec64 (hm_iUsedChunk s)\<rparr>))"

fun deallocateMemBlocks :: "nat list \<Rightarrow> hmap \<Rightarrow> hmap result" where
  "deallocateMemBlocks [] s = Inr s"
| "deallocateMemBlocks (p # ps) s = bindE (deallocateMemBlock p s) (deallocateMemBlocks ps)"

fun chunks_from :: "nat \<Rightarrow> nat \<Rightarrow> hmap \<Rightarrow> nat list result" where
  "chunks_from 0 c s = Inl LoopLimit"
| "chunks_from (Suc fuel) c s =
     at_block c s
       (if hm_mem s (C_bNextChunk c) \<noteq> 0
        then bindE (chunks_from fuel (hm_mem s (C_iNextChunk c)) s) (\<lambda>cs. Inr (c # cs))
        else Inr [c])"

definition deallocate_chunks :: "nat \<Rightarrow> hmap \<Rightarrow> hmap result" where
  "deallocate_chunks c s = bindE (chunks_from (loop_limit s) c s) (\<lambda>v. deallocateMemBlocks v s)"

definition hm_deallocate_block :: "nat \<Rightarrow> hmap \<Rightarrow> hmap result" where
  "hm_deallocate_block a s =
     at_block a s
       (bindE (if hm_mem s (B_bNextChunk a) \<noteq> 0 then deallocate_chunks (hm_mem s (B_iNextChunk a)) s else Inr s) (\<lambda>s.
        deallocateMemBlocks [a] s))"

section \<open>The lists of a block\<close>

text \<open>In front of the set and the get list; the fields of the block are 0.\<close>

definition push_list :: "loc \<Rightarrow> loc \<Rightarrow> (nat \<Rightarrow> loc) \<Rightarrow> (nat \<Rightarrow> loc) \<Rightarrow> nat \<Rightarrow> mem \<Rightarrow> (loc \<times> nat) list" where
  "push_list h t nx pv a m =
     (if m h = 0 then [(h, a), (t, a)] else [(nx a, m h), (pv (m h), a), (h, a)])"

definition push_bucket :: "nat \<Rightarrow> nat \<Rightarrow> mem \<Rightarrow> (loc \<times> nat) list" where
  "push_bucket index a m =
     (if m (I_iBlockAddr index) = 0
      then [(I_iBlockAddr index, a), (B_iBlockNext a, 0), (B_iBlockPrev a, 0)]
      else [(B_iBlockPrev (m (I_iBlockAddr index)), a), (B_iBlockNext a, m (I_iBlockAddr index)),
            (I_iBlockAddr index, a), (B_iBlockPrev a, 0)])"

definition new_fields :: "nat \<Rightarrow> nat \<Rightarrow> nat \<Rightarrow> (loc \<times> nat) list" where
  "new_fields index iAllocSize a =
     [(B_iSize a, iAllocSize mod 2 ^ 32), (B_iIndex a, index mod 2 ^ 32), (B_iSetNext a, 0), (B_iSetPrev a, 0),
      (B_iGetNext a, 0), (B_iGetPrev a, 0), (B_iSyncTime a, 0), (B_iBlockNext a, 0), (B_iBlockPrev a, 0),
      (B_bNextChunk a, 0), (B_iNextChunk a, 0), (B_bDirty a, 1), (B_bOnlyKey a, 0)]"

definition makeNew :: "nat \<Rightarrow> nat \<Rightarrow> nat \<Rightarrow> hmap \<Rightarrow> hmap result" where
  "makeNew index iAllocSize a s =
     at_block a s (with_item index s
       (let s = s\<lparr>hm_mem := store_all (new_fields index iAllocSize a) (hm_mem s)\<rparr>; m = hm_mem s in
        assert_that (m H_iSetHead = 0 \<longleftrightarrow> m H_iSetTail = 0) (assert_that (m H_iGetHead = 0 \<longleftrightarrow> m H_iGetTail = 0)
        (bindE (hm_updates
          ([(H_iDirtyCount, inc64 (m H_iDirtyCount)), (H_iElementCount, inc64 (m H_iElementCount)),
            (I_iListCount index, inc32 (m (I_iListCount index)))] @
           push_bucket index a m @
           push_list H_iSetHead H_iSetTail B_iSetNext B_iSetPrev a m @
           push_list H_iGetHead H_iGetTail B_iGetNext B_iGetPrev a m) s)
         (hm_doUpdate True)))))"

text \<open>Out of the set and the get list.\<close>

definition unlink_list :: "loc \<Rightarrow> loc \<Rightarrow> (nat \<Rightarrow> loc) \<Rightarrow> (nat \<Rightarrow> loc) \<Rightarrow> nat \<Rightarrow> mem \<Rightarrow> (loc \<times> nat) list" where
  "unlink_list h t nx pv a m =
     (let bHead = (m h = a); bTail = (m t = a) in
      if \<not> bHead then
        (if bTail then [(t, m (pv a)), (nx (m (pv a)), 0)]
         else [(nx (m (pv a)), m (nx a)), (pv (m (nx a)), m (pv a))])
      else
        (if bTail then [(h, 0), (t, 0)] else [(h, m (nx a)), (pv (m (nx a)), 0)]))"

definition unlink_asserts :: "loc \<Rightarrow> loc \<Rightarrow> (nat \<Rightarrow> loc) \<Rightarrow> (nat \<Rightarrow> loc) \<Rightarrow> nat \<Rightarrow> mem \<Rightarrow> bool" where
  "unlink_asserts h t nx pv a m \<longleftrightarrow>
     (m t = a \<longleftrightarrow> m (nx a) = 0) \<and> (m h = a \<and> m t = a \<longrightarrow> m (pv a) = 0)"

definition unlink_bucket :: "nat \<Rightarrow> mem \<Rightarrow> (loc \<times> nat) list" where
  "unlink_bucket a m =
     (if m (B_iBlockPrev a) \<noteq> 0 then [(B_iBlockNext (m (B_iBlockPrev a)), m (B_iBlockNext a))] else []) @
     (if m (B_iBlockNext a) \<noteq> 0 then [(B_iBlockPrev (m (B_iBlockNext a)), m (B_iBlockPrev a))] else []) @
     [(I_iListCount (m (B_iIndex a)), dec32 (m (I_iListCount (m (B_iIndex a)))))] @
     (if m (B_iBlockPrev a) = 0 then [(I_iBlockAddr (m (B_iIndex a)), m (B_iBlockNext a))] else [])"

definition unlink_tails :: "nat \<Rightarrow> mem \<Rightarrow> (loc \<times> nat) list" where
  "unlink_tails a m =
     (if m H_iDirtyTail = a then [(H_iDirtyTail, m (B_iSetPrev a))] else []) @
     (if m H_iSyncTail = a then [(H_iSyncTail, m (B_iSetPrev a))] else []) @
     (if m H_iBackupTail = a then [(H_iBackupTail, m (B_iGetPrev a))] else [])"

definition unlink_counts :: "nat \<Rightarrow> mem \<Rightarrow> (loc \<times> nat) list" where
  "unlink_counts a m =
     (if m (B_bDirty a) \<noteq> 0 then [(H_iDirtyCount, dec64 (m H_iDirtyCount))] else []) @
     (if m (B_bOnlyKey a) \<noteq> 0 then [(H_iOnlyKeyCount, dec64 (m H_iOnlyKeyCount))] else []) @
     [(H_iElementCount, dec64 (m H_iElementCount))]"

definition block_erase :: "nat \<Rightarrow> hmap \<Rightarrow> hmap result" where
  "block_erase a s =
     at_block a s
       (let m = hm_mem s in
        assert_that (unlink_asserts H_iSetHead H_iSetTail B_iSetNext B_iSetPrev a m)
        (assert_that (unlink_asserts H_iGetHead H_iGetTail B_iGetNext B_iGetPrev a m)
        (with_item (m (B_iIndex a)) s
        (assert_that (m (B_iBlockPrev a) = 0 \<longrightarrow> m (I_iBlockAddr (m (B_iIndex a))) = a)
        (bindE (bindE (hm_updates
           (unlink_tails a m @
            unlink_list H_iSetHead H_iSetTail B_iSetNext B_iSetPrev a m @
            unlink_list H_iGetHead H_iGetTail B_iGetNext B_iGetPrev a m @
            unlink_bucket a m @ unlink_counts a m) s)
          (hm_doUpdate True))
         (hm_deallocate_block a))))))"

text \<open>To the front of a list it is in and does not head.\<close>

definition front_list :: "loc \<Rightarrow> loc \<Rightarrow> (nat \<Rightarrow> loc) \<Rightarrow> (nat \<Rightarrow> loc) \<Rightarrow> nat \<Rightarrow> mem \<Rightarrow> (loc \<times> nat) list" where
  "front_list h t nx pv a m =
     (let iPrev = m (pv a); iNext = m (nx a) in
      [(nx a, m h), (pv (m h), a), (h, a), (pv a, 0), (nx iPrev, iNext)] @
      (if iNext \<noteq> 0 then [(pv iNext, iPrev)] else [(t, iPrev)]))"

definition refreshGetList :: "nat \<Rightarrow> hmap \<Rightarrow> hmap result" where
  "refreshGetList a s =
     (let m = hm_mem s in
      assert_that (m H_iGetHead \<noteq> 0) (assert_that (m H_iGetTail \<noteq> 0)
      (if m H_iGetHead = a then Inr s
       else at_block a s
         (assert_that (m (B_iGetPrev a) \<noteq> 0) (assert_that (m (B_iGetNext a) = 0 \<longrightarrow> m H_iGetTail = a)
         (bindE (hm_updates
            ((if m H_iBackupTail = a then [(H_iBackupTail, m (B_iGetPrev a))] else []) @
             front_list H_iGetHead H_iGetTail B_iGetNext B_iGetPrev a m) s)
          (hm_doUpdate True)))))))"

definition refreshSetList :: "nat \<Rightarrow> hmap \<Rightarrow> hmap result" where
  "refreshSetList a s =
     (let m = hm_mem s in
      assert_that (m H_iSetHead \<noteq> 0) (assert_that (m H_iSetTail \<noteq> 0)
      (at_block a s
      (bindE (hm_updates
         ((if m H_iSyncTail = a \<and> m H_iSetHead \<noteq> a then [(H_iSyncTail, m (B_iSetPrev a))] else []) @
          (if m H_iDirtyTail = a \<and> m H_iSetHead \<noteq> a then [(H_iDirtyTail, m (B_iSetPrev a))]
           else if m H_iDirtyTail = 0 then [(H_iDirtyTail, a)] else [])) s) (\<lambda>s.
       if m H_iSetHead = a then bindE (hm_doUpdate True s) (refreshGetList a)
       else
         assert_that (m (B_iSetPrev a) \<noteq> 0) (assert_that (m (B_iSetNext a) = 0 \<longrightarrow> m H_iSetTail = a)
         (bindE (bindE (hm_updates (front_list H_iSetHead H_iSetTail B_iSetNext B_iSetPrev a m) s) (hm_doUpdate True))
          (refreshGetList a))))))))"

definition setDirty :: "bool \<Rightarrow> nat \<Rightarrow> hmap \<Rightarrow> hmap result" where
  "setDirty b a s =
     at_block a s
       (if isDirty a s \<noteq> b
        then bindE (hm_updates
               [(H_iDirtyCount, (if b then inc64 else dec64) (hm_mem s H_iDirtyCount)), (B_bDirty a, of_bool b)] s)
               (hm_doUpdate True)
        else Inr s)"

section \<open>Eviction\<close>

text \<open>\<open>d\<close> records are still to be evicted.\<close>

definition erase_tail :: "hmap \<Rightarrow> nat" where
  "erase_tail s = (if hm_cEraseMode s = 1 then hm_mem s H_iSetTail else hm_mem s H_iGetTail)"

definition erase_prev :: "nat \<Rightarrow> hmap \<Rightarrow> nat" where
  "erase_prev a s = (if hm_cEraseMode s = 1 then hm_mem s (B_iSetPrev a) else hm_mem s (B_iGetPrev a))"

fun erase_loop :: "nat \<Rightarrow> nat \<Rightarrow> nat \<Rightarrow> block_data list \<Rightarrow> hmap \<Rightarrow> (nat \<times> block_data list \<times> hmap) result" where
  "erase_loop fuel now 0 vt s = Inr (0, vt, s)"
| "erase_loop 0 now (Suc d) vt s = Inl LoopLimit"
| "erase_loop (Suc fuel) now (Suc d) vt s =
     (if erase_tail s = 0 then Inr (Suc d, vt, s)
      else at_block (erase_tail s) s
        (let iAddr = (if now = erase_tail s then erase_prev (erase_tail s) s else erase_tail s) in
         if iAddr = 0 then Inr (Suc d, vt, s)
         else
           bindE (getBlockData iAddr new_data s) (\<lambda>(ret, data).
           bindE (block_erase iAddr s) (\<lambda>s.
           if ret = RT_OK then erase_loop fuel now d (vt @ [data]) s
           else if ret = RT_NO_DATA then erase_loop fuel now d vt s
           else erase_loop fuel now (Suc d) vt s))))"

definition eraseExcept :: "nat \<Rightarrow> block_data list \<Rightarrow> hmap \<Rightarrow> (nat \<times> block_data list \<times> hmap) result" where
  "eraseExcept now vt s =
     (if \<not> hm_bAutoErase s then Inr (0, vt, s)
      else let n = (if hm_iEraseCount s = 0 then 10 else hm_iEraseCount s) in
        bindE (erase_loop (loop_limit s) now n vt s) (\<lambda>(d, vt, s). Inr (n - d, vt, s)))"

section \<open>Getting blocks\<close>

text \<open>
  A piece of memory for the block that is at \<open>now\<close>, 0 if it is new: the address, 0 if there is
  none, and the size. Its bytes are unknown.
\<close>

definition new_piece :: "nat \<Rightarrow> multi \<Rightarrow> hmap \<Rightarrow> hmap" where
  "new_piece p m s = s\<lparr>hm_alloc := m, hm_data := (hm_data s)(p := [])\<rparr>"

definition incChunkCount :: "hmap \<Rightarrow> hmap" where
  "incChunkCount s = s\<lparr>hm_iUsedChunk := inc64 (hm_iUsedChunk s)\<rparr>"

fun get_piece :: "nat \<Rightarrow> nat \<Rightarrow> nat \<Rightarrow> block_data list \<Rightarrow> hmap \<Rightarrow> (nat \<times> nat \<times> block_data list \<times> hmap) result" where
  "get_piece 0 now need vt s = Inl LoopLimit"
| "get_piece (Suc fuel) now need vt s =
     bindE (multi_allocate need (hm_alloc s)) (\<lambda>(r, m).
     case r of
       Some (p, b) \<Rightarrow> Inr (p, b, vt, new_piece p m s)
     | None \<Rightarrow>
         bindE (eraseExcept now vt (s\<lparr>hm_alloc := m\<rparr>)) (\<lambda>(n, vt, s).
         if n = 0 then Inr (0, need, vt, s) else get_piece fuel now need vt s))"

definition ba_allocateChunk :: "nat \<Rightarrow> nat \<Rightarrow> block_data list \<Rightarrow> hmap \<Rightarrow> (nat \<times> nat \<times> block_data list \<times> hmap) result" where
  "ba_allocateChunk a iAllocSize vt s =
     bindE (get_piece (loop_limit s) a iAllocSize vt s) (\<lambda>(p, b, vt, s).
     Inr (p, b, vt, if p = 0 then s else incChunkCount s))"

definition allocateMemBlock :: "nat \<Rightarrow> nat \<Rightarrow> block_data list \<Rightarrow> hmap \<Rightarrow> (nat \<times> nat \<times> block_data list \<times> hmap) result" where
  "allocateMemBlock index iAllocSize vt s =
     bindE (get_piece (loop_limit s) 0 iAllocSize vt s) (\<lambda>(p, b, vt, s).
     if p = 0 then Inr (0, b, vt, s)
     else bindE (makeNew index b p s) (\<lambda>s. Inr (p, b, vt, incChunkCount s)))"

text \<open>Chunks for \<open>fn\<close> more bytes.\<close>

fun get_chunks ::
  "nat \<Rightarrow> nat \<Rightarrow> nat \<Rightarrow> nat list \<Rightarrow> block_data list \<Rightarrow> hmap \<Rightarrow> (rt \<times> nat list \<times> block_data list \<times> hmap) result" where
  "get_chunks 0 a fn chunks vt s = Inl LoopLimit"
| "get_chunks (Suc fuel) a fn chunks vt s =
     bindE (ba_allocateChunk a fn vt s) (\<lambda>(t, b, vt, s).
     if t = 0 then bindE (deallocateMemBlocks chunks s) (\<lambda>s. Inr (RT_NO_MEMORY, [], vt, s))
     else
       let s = poke (C_iSize t) (b mod 2 ^ 32) s; chunks = chunks @ [t] in
       if fn \<le> usub b chunk_link_size then Inr (RT_OK, chunks, vt, s)
       else get_chunks fuel a (usub fn (usub b chunk_link_size)) chunks vt s)"

definition allocateChunk :: "nat \<Rightarrow> nat \<Rightarrow> block_data list \<Rightarrow> hmap \<Rightarrow> (rt \<times> nat list \<times> block_data list \<times> hmap) result" where
  "allocateChunk a fn vt s = assert_that (fn > 0) (get_chunks (Suc fn) a fn [] vt s)"

fun joinChunk :: "nat \<Rightarrow> nat list \<Rightarrow> hmap \<Rightarrow> hmap result" where
  "joinChunk p [] s = Inr s"
| "joinChunk p [c] s = bindE (hm_updates [(C_bNextChunk p, 0)] s) (hm_doUpdate True)"
| "joinChunk p (c # d # cs) s =
     bindE (bindE (hm_updates [(C_bNextChunk p, 1), (C_iNextChunk p, d), (C_bNextChunk d, 0), (C_iNextChunk d, 0)] s)
       (hm_doUpdate True)) (joinChunk d (d # cs))"

text \<open>
  The first new chunk is hung behind the block or the chunk whose fields \<open>flag\<close> and \<open>link\<close> are,
  then the others.
\<close>

definition hang_chunks :: "loc \<Rightarrow> loc \<Rightarrow> nat list \<Rightarrow> hmap \<Rightarrow> hmap result" where
  "hang_chunks flag link chunks s =
     bindE (bindE (hm_updates [(flag, 1), (link, hd chunks), (C_bNextChunk (hd chunks), 0), (C_iNextChunk (hd chunks), 0)] s)
       (hm_doUpdate True)) (joinChunk (hd chunks) chunks)"

definition extend_chain :: "nat \<Rightarrow> loc \<Rightarrow> loc \<Rightarrow> nat \<Rightarrow> block_data list \<Rightarrow> hmap \<Rightarrow> (rt \<times> block_data list \<times> hmap) result" where
  "extend_chain a flag link fn vt s =
     bindE (allocateChunk a fn vt s) (\<lambda>(ret, chunks, vt, s).
     if ret \<noteq> RT_OK then Inr (ret, vt, s)
     else bindE (hang_chunks flag link chunks s) (\<lambda>s. Inr (RT_OK, vt, s)))"

fun fit_chunks :: "nat \<Rightarrow> nat \<Rightarrow> nat \<Rightarrow> nat \<Rightarrow> block_data list \<Rightarrow> hmap \<Rightarrow> (rt \<times> block_data list \<times> hmap) result" where
  "fit_chunks 0 a c fn vt s = Inl LoopLimit"
| "fit_chunks (Suc fuel) a c fn vt s =
     at_block c s
       (if fn \<le> chunk_room c s then
          (if hm_mem s (C_bNextChunk c) \<noteq> 0 then
             let iNextChunk = hm_mem s (C_iNextChunk c) in
             bindE (bindE (hm_updates [(C_bNextChunk c, 0)] s) (hm_doUpdate True)) (\<lambda>s.
             bindE (deallocate_chunks iNextChunk s) (\<lambda>s. Inr (RT_OK, vt, s)))
           else Inr (RT_OK, vt, s))
        else
          let fn = usub fn (chunk_room c s) in
          if hm_mem s (C_bNextChunk c) \<noteq> 0 then fit_chunks fuel a (hm_mem s (C_iNextChunk c)) fn vt s
          else extend_chain a (C_bNextChunk c) (C_iNextChunk c) fn vt s)"

text \<open>\<open>allocate\<close>: a chain with room for exactly the chunks that \<open>iDataLen\<close> bytes need.\<close>

definition block_allocate :: "nat \<Rightarrow> nat \<Rightarrow> block_data list \<Rightarrow> hmap \<Rightarrow> (rt \<times> block_data list \<times> hmap) result" where
  "block_allocate a iDataLen vt s =
     at_block a s
       (if block_room a s \<ge> iDataLen then
          (if hm_mem s (B_bNextChunk a) \<noteq> 0 then
             let iNextChunk = hm_mem s (B_iNextChunk a) in
             bindE (bindE (hm_updates [(B_bNextChunk a, 0), (B_iNextChunk a, 0)] s) (hm_doUpdate True)) (\<lambda>s.
             bindE (deallocate_chunks iNextChunk s) (\<lambda>s. Inr (RT_OK, vt, s)))
           else Inr (RT_OK, vt, s))
        else
          let fn = usub iDataLen (block_room a s) in
          if hm_mem s (B_bNextChunk a) \<noteq> 0 then fit_chunks (loop_limit s) a (hm_mem s (B_iNextChunk a)) fn vt s
          else extend_chain a (B_bNextChunk a) (B_iNextChunk a) fn vt s)"

section \<open>Writing the data\<close>

text \<open>\<open>memcpy\<close> of \<open>n\<close> of the bytes \<open>bs\<close> into the data part at \<open>a\<close>, which has \<open>room\<close> bytes.\<close>

definition put_data :: "nat \<Rightarrow> nat \<Rightarrow> nat \<Rightarrow> byte list \<Rightarrow> hmap \<Rightarrow> hmap result" where
  "put_data a room n bs s =
     (if n \<le> room \<and> n \<le> length bs
      then Inr (s\<lparr>hm_data := (hm_data s)(a := take n bs @ drop n (hm_data s a))\<rparr>) else Inl OutOfBounds)"

fun put_chunks :: "nat \<Rightarrow> nat \<Rightarrow> byte list \<Rightarrow> hmap \<Rightarrow> hmap result" where
  "put_chunks 0 c bs s = Inl LoopLimit"
| "put_chunks (Suc fuel) c bs s =
     at_block c s
       (if hm_mem s (C_bNextChunk c) = 0 then
          assert_that (chunk_room c s \<ge> length bs)
            (bindE (put_data c (chunk_room c s) (length bs) bs s) (\<lambda>s. Inr (poke (C_iNextChunk c) (length bs) s)))
        else
          bindE (put_data c (chunk_room c s) (chunk_room c s) bs s) (\<lambda>s.
          put_chunks fuel (hm_mem s (C_iNextChunk c)) (drop (chunk_room c s) bs) s))"

definition set_flags :: "nat \<Rightarrow> bool \<Rightarrow> hmap \<Rightarrow> hmap result" where
  "set_flags a bOnlyKey s =
     (let m = hm_mem s in
      bindE (hm_updates
        (if bOnlyKey then
           (if m (B_bDirty a) \<noteq> 0 then [(H_iDirtyCount, dec64 (m H_iDirtyCount))] else []) @
           (if m (B_bOnlyKey a) = 0 then [(H_iOnlyKeyCount, inc64 (m H_iOnlyKeyCount))] else [])
         else
           (if m (B_bDirty a) = 0 then [(H_iDirtyCount, inc64 (m H_iDirtyCount))] else []) @
           (if m (B_bOnlyKey a) \<noteq> 0 then [(H_iOnlyKeyCount, dec64 (m H_iOnlyKeyCount))] else [])) s) (\<lambda>s.
      Inr (poke (B_bOnlyKey a) (of_bool bOnlyKey) (poke (B_bDirty a) (of_bool (\<not> bOnlyKey)) s))))"

definition block_set :: "nat \<Rightarrow> byte list \<Rightarrow> bool \<Rightarrow> block_data list \<Rightarrow> hmap \<Rightarrow> (rt \<times> block_data list \<times> hmap) result" where
  "block_set a bs bOnlyKey vt s =
     bindE (block_allocate a (length bs) vt s) (\<lambda>(ret, vt, s).
     if ret \<noteq> RT_OK then Inr (ret, vt, s)
     else at_block a s
       (bindE (set_flags a bOnlyKey s) (\<lambda>s.
        bindE (if hm_mem s (B_bNextChunk a) = 0
               then bindE (put_data a (block_room a s) (length bs) bs s) (\<lambda>s. Inr (poke (B_iNextChunk a) (length bs) s))
               else bindE (put_data a (block_room a s) (block_room a s) bs s) (\<lambda>s.
                    put_chunks (loop_limit s) (hm_mem s (B_iNextChunk a)) (drop (block_room a s) bs) s)) (\<lambda>s.
        bindE (hm_doUpdate True s) (\<lambda>s. Inr (RT_OK, vt, s))))))"

end
