(* ===== verification/Hash_Map.thy ===== *)
theory Hash_Map
  imports Hm_Block Common
begin

text \<open>
  \<open>TC_HashMap\<close> (tcinclude/tc_hashmap.cpp): creation and the operations on records by key, on
  the records that wait to be written back or backed up, and the iterators. The functions that
  write return the state after them. \<open>hf\<close> is the hash functor.
\<close>

section \<open>Finding a record\<close>

definition hashIndex :: "(byte list \<Rightarrow> nat) \<Rightarrow> byte list \<Rightarrow> hmap \<Rightarrow> nat" where
  "hashIndex hf k s = hf k mod hash_count s"

text \<open>\<open>HashMapLockItem::get\<close>: the code, the key and the value, with \<open>v\<close> what the value held before.\<close>

definition item_get :: "nat \<Rightarrow> byte list \<Rightarrow> hmap \<Rightarrow> (rt \<times> byte list \<times> byte list) result" where
  "item_get a v s =
     bindE (get_data a s) (\<lambda>(ret, bs).
     if ret \<noteq> RT_OK then Inr (ret, [], v)
     else case get_string (po_init bs) of
         Inl e \<Rightarrow> Inr (RT_EXCEPTION_ERR, [], v)
       | Inr (k, po) \<Rightarrow>
           if \<not> isOnlyKey a s then
             (case get_string po of Inl e \<Rightarrow> Inr (RT_EXCEPTION_ERR, k, v) | Inr (v, po) \<Rightarrow> Inr (RT_OK, k, v))
           else Inr (RT_ONLY_KEY, k, []))"

definition item_get_key :: "nat \<Rightarrow> hmap \<Rightarrow> (rt \<times> byte list) result" where
  "item_get_key a s =
     bindE (get_data a s) (\<lambda>(ret, bs).
     if ret \<noteq> RT_OK then Inr (ret, [])
     else case get_string (po_init bs) of Inl e \<Rightarrow> Inr (RT_EXCEPTION_ERR, []) | Inr (k, po) \<Rightarrow> Inr (RT_OK, k))"

definition item_equal_value :: "byte list \<Rightarrow> nat \<Rightarrow> byte list \<Rightarrow> hmap \<Rightarrow> (bool \<times> byte list \<times> rt) result" where
  "item_equal_value k a v s =
     bindE (item_get a v s) (\<lambda>(ret, k1, v). Inr ((ret = RT_OK \<or> ret = RT_ONLY_KEY) \<and> k = k1, v, ret))"

definition item_equal :: "byte list \<Rightarrow> nat \<Rightarrow> hmap \<Rightarrow> (bool \<times> rt) result" where
  "item_equal k a s = bindE (item_get_key a s) (\<lambda>(ret, k1). Inr (ret = RT_OK \<and> k = k1, ret))"

definition incGetCount :: "hmap \<Rightarrow> hmap result" where
  "incGetCount s = hm_update H_iGetCount (inc64 (hm_mem s H_iGetCount)) s"

definition incHitCount :: "hmap \<Rightarrow> hmap result" where
  "incHitCount s = hm_update H_iHitCount (inc64 (hm_mem s H_iHitCount)) s"

text \<open>The address of the block, 0 for \<open>end()\<close>, and the last return code.\<close>

fun find_loop :: "nat \<Rightarrow> nat \<Rightarrow> byte list \<Rightarrow> hmap \<Rightarrow> (nat \<times> rt \<times> hmap) result" where
  "find_loop 0 a k s = Inl LoopLimit"
| "find_loop (Suc fuel) a k s =
     bindE (item_equal k a s) (\<lambda>(eq, ret).
     if eq then bindE (incHitCount s) (\<lambda>s. Inr (a, ret, s))
     else if hm_mem s (B_iBlockNext a) = 0 then Inr (0, ret, s)
     else find_loop fuel (hm_mem s (B_iBlockNext a)) k s)"

definition find_key :: "byte list \<Rightarrow> nat \<Rightarrow> hmap \<Rightarrow> (nat \<times> rt \<times> hmap) result" where
  "find_key k index s =
     with_item index s
       (if hm_mem s (I_iBlockAddr index) = 0 then Inr (0, RT_OK, s)
        else find_loop (loop_limit s) (hm_mem s (I_iBlockAddr index)) k s)"

fun find_value_loop :: "nat \<Rightarrow> nat \<Rightarrow> byte list \<Rightarrow> byte list \<Rightarrow> hmap \<Rightarrow> (nat \<times> byte list \<times> rt \<times> hmap) result" where
  "find_value_loop 0 a k v s = Inl LoopLimit"
| "find_value_loop (Suc fuel) a k v s =
     bindE (item_equal_value k a v s) (\<lambda>(eq, v, ret).
     if eq then bindE (incHitCount s) (\<lambda>s. Inr (a, v, ret, s))
     else if hm_mem s (B_iBlockNext a) = 0 then Inr (0, v, ret, s)
     else find_value_loop fuel (hm_mem s (B_iBlockNext a)) k v s)"

definition find_value :: "byte list \<Rightarrow> nat \<Rightarrow> byte list \<Rightarrow> hmap \<Rightarrow> (nat \<times> byte list \<times> rt \<times> hmap) result" where
  "find_value k index v s =
     with_item index s
       (if hm_mem s (I_iBlockAddr index) = 0 then Inr (0, v, RT_OK, s)
        else find_value_loop (loop_limit s) (hm_mem s (I_iBlockAddr index)) k v s)"

definition hm_find :: "(byte list \<Rightarrow> nat) \<Rightarrow> byte list \<Rightarrow> hmap \<Rightarrow> (nat \<times> hmap) result" where
  "hm_find hf k s =
     bindE (hm_doUpdate False s) (\<lambda>s.
     bindE (find_key k (hashIndex hf k s) s) (\<lambda>(a, ret, s). Inr (a, s)))"

section \<open>Operations by key\<close>

text \<open>The beginning of the operations: pending updates, the counter, the search.\<close>

definition begin_find :: "(byte list \<Rightarrow> nat) \<Rightarrow> byte list \<Rightarrow> hmap \<Rightarrow> (nat \<times> rt \<times> hmap) result" where
  "begin_find hf k s = bindE (incGetCount s) (\<lambda>s. find_key k (hashIndex hf k s) s)"

definition hm_checkDirty :: "(byte list \<Rightarrow> nat) \<Rightarrow> byte list \<Rightarrow> hmap \<Rightarrow> (rt \<times> hmap) result" where
  "hm_checkDirty hf k s =
     bindE (hm_doUpdate False s) (\<lambda>s.
     bindE (begin_find hf k s) (\<lambda>(a, ret, s).
     if ret \<noteq> RT_OK then Inr (ret, s)
     else if a = 0 then Inr (RT_NO_DATA, s)
     else at_block a s
       (if isOnlyKey a s then Inr (RT_ONLY_KEY, s)
        else if isDirty a s then Inr (RT_DIRTY_DATA, s) else Inr (RT_OK, s))))"

definition hm_setDirty :: "(byte list \<Rightarrow> nat) \<Rightarrow> byte list \<Rightarrow> hmap \<Rightarrow> (rt \<times> hmap) result" where
  "hm_setDirty hf k s =
     bindE (hm_doUpdate False s) (\<lambda>s.
     if hm_bReadOnly s then Inr (RT_READONLY, s)
     else bindE (begin_find hf k s) (\<lambda>(a, ret, s).
     if ret \<noteq> RT_OK then Inr (ret, s)
     else if a = 0 then Inr (RT_NO_DATA, s)
     else at_block a s
       (if isOnlyKey a s then Inr (RT_ONLY_KEY, s)
        else bindE (setDirty True a s) (\<lambda>s.
             bindE (refreshSetList a s) (\<lambda>s. Inr (RT_OK, s))))))"

definition hm_setDirtyAfterSync :: "(byte list \<Rightarrow> nat) \<Rightarrow> byte list \<Rightarrow> hmap \<Rightarrow> (rt \<times> hmap) result" where
  "hm_setDirtyAfterSync hf k s =
     bindE (hm_doUpdate False s) (\<lambda>s.
     if hm_bReadOnly s then Inr (RT_READONLY, s)
     else bindE (begin_find hf k s) (\<lambda>(a, ret, s).
     if ret \<noteq> RT_OK then Inr (ret, s)
     else if a = 0 then Inr (RT_NO_DATA, s)
     else at_block a s
       (if isOnlyKey a s then Inr (RT_ONLY_KEY, s)
        else bindE (setDirty True a s) (\<lambda>s.
             Inr (RT_OK, if hm_mem s H_iDirtyTail = hm_mem s (B_iSetPrev a) then poke H_iDirtyTail a s else s)))))"

definition hm_setClean :: "(byte list \<Rightarrow> nat) \<Rightarrow> byte list \<Rightarrow> hmap \<Rightarrow> (rt \<times> hmap) result" where
  "hm_setClean hf k s =
     bindE (hm_doUpdate False s) (\<lambda>s.
     if hm_bReadOnly s then Inr (RT_READONLY, s)
     else bindE (begin_find hf k s) (\<lambda>(a, ret, s).
     if ret \<noteq> RT_OK then Inr (ret, s)
     else if a = 0 then Inr (RT_NO_DATA, s)
     else at_block a s
       (if isOnlyKey a s then Inr (RT_ONLY_KEY, s)
        else bindE (setDirty False a s) (\<lambda>s.
             bindE (refreshSetList a s) (\<lambda>s.
             bindE (hm_doUpdate True s) (\<lambda>s. Inr (RT_OK, s)))))))"

text \<open>The code, the value (\<open>v\<close> before) and the sync time (\<open>t\<close> before).\<close>

definition hm_get :: "(byte list \<Rightarrow> nat) \<Rightarrow> byte list \<Rightarrow> byte list \<Rightarrow> nat \<Rightarrow> hmap \<Rightarrow> (rt \<times> byte list \<times> nat \<times> hmap) result" where
  "hm_get hf k v t s =
     bindE (hm_doUpdate False s) (\<lambda>s.
     bindE (incGetCount s) (\<lambda>s.
     bindE (find_value k (hashIndex hf k s) v s) (\<lambda>(a, v, ret, s).
     if ret \<noteq> RT_OK \<and> ret \<noteq> RT_ONLY_KEY then Inr (ret, v, t, s)
     else if a = 0 then Inr (RT_NO_DATA, v, t, s)
     else at_block a s
       (if isOnlyKey a s then Inr (RT_ONLY_KEY, v, t, s)
        else
          let t = hm_mem s (B_iSyncTime a) in
          bindE (if \<not> hm_bReadOnly s then refreshGetList a s else Inr s) (\<lambda>s.
          Inr (RT_OK, v, t, s))))))"

text \<open>The part of both \<open>set\<close> that finds the block or makes one: whether it is new.\<close>

definition find_or_make ::
  "(byte list \<Rightarrow> nat) \<Rightarrow> byte list \<Rightarrow> byte list \<Rightarrow> block_data list \<Rightarrow> hmap \<Rightarrow> (rt \<times> nat \<times> bool \<times> block_data list \<times> hmap) result" where
  "find_or_make hf k bs vt s =
     (let index = hashIndex hf k s in
      bindE (find_key k index s) (\<lambda>(a, ret, s).
      if ret \<noteq> RT_OK then Inr (ret, 0, False, vt, s)
      else if a = 0 then
        bindE (allocateMemBlock index (block_head_size + length bs) vt s) (\<lambda>(p, b, vt, s).
        if p = 0 then Inr (RT_NO_MEMORY, 0, False, vt, s) else Inr (RT_OK, p, True, vt, s))
      else Inr (RT_OK, a, False, vt, s)))"

text \<open>\<open>now\<close> is \<open>time(NULL)\<close>.\<close>

definition hm_set ::
  "(byte list \<Rightarrow> nat) \<Rightarrow> nat \<Rightarrow> byte list \<Rightarrow> byte list \<Rightarrow> bool \<Rightarrow> block_data list \<Rightarrow> hmap \<Rightarrow> (rt \<times> block_data list \<times> hmap) result" where
  "hm_set hf now k v bDirty vt s =
     bindE (hm_doUpdate False s) (\<lambda>s.
     bindE (incGetCount s) (\<lambda>s.
     if hm_bReadOnly s then Inr (RT_READONLY, vt, s)
     else
       let bs = put_string v (put_string k []) in
       bindE (find_or_make hf k bs vt s) (\<lambda>(ret, a, bNewBlock, vt, s).
       if ret \<noteq> RT_OK then Inr (ret, vt, s)
       else
         bindE (block_set a bs False vt s) (\<lambda>(ret, vt, s).
         if ret \<noteq> RT_OK then
           bindE (if bNewBlock then block_erase a s else Inr s) (\<lambda>s. Inr (ret, vt, s))
         else
           bindE (setDirty bDirty a (if bNewBlock then poke (B_iSyncTime a) now s else s)) (\<lambda>s.
           bindE (refreshSetList a s) (\<lambda>s. Inr (RT_OK, vt, s)))))))"

definition hm_set_key ::
  "(byte list \<Rightarrow> nat) \<Rightarrow> nat \<Rightarrow> byte list \<Rightarrow> block_data list \<Rightarrow> hmap \<Rightarrow> (rt \<times> block_data list \<times> hmap) result" where
  "hm_set_key hf now k vt s =
     bindE (hm_doUpdate False s) (\<lambda>s.
     bindE (incGetCount s) (\<lambda>s.
     if hm_bReadOnly s then Inr (RT_READONLY, vt, s)
     else
       let bs = put_string k [] in
       bindE (find_or_make hf k bs vt s) (\<lambda>(ret, a, bNewBlock, vt, s).
       if ret \<noteq> RT_OK then Inr (ret, vt, s)
       else
         bindE (block_set a bs True vt s) (\<lambda>(ret, vt, s).
         if ret \<noteq> RT_OK then
           bindE (if bNewBlock then block_erase a s else Inr s) (\<lambda>s. Inr (ret, vt, s))
         else
           bindE (refreshSetList a (if bNewBlock then poke (B_iSyncTime a) now s else s)) (\<lambda>s. Inr (RT_OK, vt, s))))))"

definition hm_del :: "(byte list \<Rightarrow> nat) \<Rightarrow> byte list \<Rightarrow> block_data \<Rightarrow> hmap \<Rightarrow> (rt \<times> block_data \<times> hmap) result" where
  "hm_del hf k d s =
     bindE (hm_doUpdate False s) (\<lambda>s.
     bindE (incGetCount s) (\<lambda>s.
     if hm_bReadOnly s then Inr (RT_READONLY, d, s)
     else
       let d = d\<lparr>bd_key := k\<rparr> in
       bindE (find_value k (hashIndex hf k s) (bd_value d) s) (\<lambda>(a, v, ret, s).
       let d = d\<lparr>bd_value := v\<rparr> in
       if ret \<noteq> RT_OK \<and> ret \<noteq> RT_ONLY_KEY then Inr (ret, d, s)
       else if a = 0 then Inr (RT_NO_DATA, d, s)
       else bindE (getBlockData a d s) (\<lambda>(ret, d).
            bindE (block_erase a s) (\<lambda>s. Inr (ret, d, s))))))"

section \<open>Eviction, write-back and backup\<close>

text \<open>
  \<open>_iUsedChunk * 100. / allBlockChunkCount() < radio\<close>: with counts below \<open>2 ^ 45\<close> the double
  quotient compares like the exact one.
\<close>

definition hm_erase :: "int \<Rightarrow> block_data \<Rightarrow> bool \<Rightarrow> hmap \<Rightarrow> (rt \<times> block_data \<times> hmap) result" where
  "hm_erase radio d bCheckDirty s =
     bindE (hm_doUpdate False s) (\<lambda>s.
     if hm_bReadOnly s then Inr (RT_READONLY, d, s)
     else
       let radio = (if radio \<le> 0 then 1 else if radio \<ge> 100 then 100 else radio); m = hm_mem s; a = m H_iGetTail in
       if a = 0 then Inr (RT_OK, d, s)
       else if hm_iUsedChunk s * 100 < nat radio * allBlockChunkCount (hm_alloc s) then Inr (RT_OK, d, s)
       else at_block a s
         (if bCheckDirty \<and> isDirty a s then
            let s = (if m H_iDirtyTail = 0 then poke H_iDirtyTail a s else s) in
            if m H_iGetHead = a then Inr (RT_OK, d, s)
            else bindE (bindE (hm_updates
                ((if m H_iBackupTail = a then [(H_iBackupTail, m (B_iGetPrev a))] else []) @
                 [(H_iGetTail, m (B_iGetPrev a)), (B_iGetNext (m (B_iGetPrev a)), 0), (B_iGetPrev a, 0),
                  (B_iGetNext a, m H_iGetHead), (B_iGetPrev (m H_iGetHead), a), (H_iGetHead, a)]) s) (hm_doUpdate True))
              (\<lambda>s. Inr (RT_DIRTY_DATA, d, s))
          else
            bindE (getBlockData a d s) (\<lambda>(ret, d).
            bindE (block_erase a s) (\<lambda>s.
            Inr (if ret = RT_OK then RT_ERASE_OK else ret, d, s)))))"

definition hm_sync_begin :: "hmap \<Rightarrow> hmap result" where
  "hm_sync_begin s = bindE (hm_doUpdate False s) (\<lambda>s. Inr (poke H_iSyncTail (hm_mem s H_iDirtyTail) s))"

text \<open>The dirty tail moves on when the record at \<open>a\<close> has been dealt with.\<close>

definition past_dirty :: "nat \<Rightarrow> hmap \<Rightarrow> hmap" where
  "past_dirty a s = (if hm_mem s H_iDirtyTail = a then poke H_iDirtyTail (hm_mem s (B_iSetPrev a)) s else s)"

definition hm_sync :: "nat \<Rightarrow> block_data \<Rightarrow> hmap \<Rightarrow> (rt \<times> block_data \<times> hmap) result" where
  "hm_sync iNowTime d s =
     bindE (hm_doUpdate False s) (\<lambda>s.
     let a = hm_mem s H_iSyncTail in
     if a = 0 then Inr (RT_OK, d, s)
     else at_block a s
       (let s = poke H_iSyncTail (hm_mem s (B_iSetPrev a)) s in
        if \<not> isDirty a s then Inr (RT_NONEED_SYNC, d, past_dirty a s)
        else bindE (getBlockData a d s) (\<lambda>(ret, d).
          if ret \<noteq> RT_OK then Inr (ret, d, past_dirty a s)
          else if hm_iSyncTime s + bd_synct d < iNowTime \<and> isDirty a s then
            bindE (setDirty False a s) (\<lambda>s.
            Inr (RT_NEED_SYNC, d, past_dirty a (poke (B_iSyncTime a) iNowTime s)))
          else Inr (RT_NONEED_SYNC, d, s))))"

definition hm_backup_begin :: "bool \<Rightarrow> hmap \<Rightarrow> hmap result" where
  "hm_backup_begin bForceFromBegin s =
     bindE (hm_doUpdate False s) (\<lambda>s.
     Inr (if bForceFromBegin \<or> hm_mem s H_iBackupTail = 0 then poke H_iBackupTail (hm_mem s H_iGetTail) s else s))"

definition hm_backup :: "block_data \<Rightarrow> hmap \<Rightarrow> (rt \<times> block_data \<times> hmap) result" where
  "hm_backup d s =
     bindE (hm_doUpdate False s) (\<lambda>s.
     let a = hm_mem s H_iBackupTail in
     if a = 0 then Inr (RT_OK, d, s)
     else bindE (getBlockData a d s) (\<lambda>(ret, d).
       bindE (hm_doUpdate True (poke H_iBackupTail (hm_mem s (B_iGetPrev a)) s)) (\<lambda>s.
       Inr (if ret = RT_OK then RT_NEED_BACKUP else ret, d, s))))"

section \<open>Repair\<close>

fun recover_loop :: "nat \<Rightarrow> nat \<Rightarrow> bool \<Rightarrow> nat \<Rightarrow> nat \<Rightarrow> hmap \<Rightarrow> (nat \<times> hmap) result" where
  "recover_loop 0 i bRepair a e s = Inl LoopLimit"
| "recover_loop (Suc fuel) i bRepair a e s =
     (if a = 0 then Inr (e, s)
      else bindE (getBlockData a new_data s) (\<lambda>(ret, d).
        if ret \<noteq> RT_OK \<and> ret \<noteq> RT_ONLY_KEY then
          (if bRepair then
             bindE (block_erase a s) (\<lambda>s. recover_loop fuel i bRepair (hm_mem s (I_iBlockAddr i)) (e + 1) s)
           else if hm_mem s (B_iBlockNext a) = 0 then Inr (e + 1, s)
           else recover_loop fuel i bRepair (hm_mem s (B_iBlockNext a)) (e + 1) s)
        else if hm_mem s (B_iBlockNext a) = 0 then Inr (e, s)
        else recover_loop fuel i bRepair (hm_mem s (B_iBlockNext a)) e s))"

definition hm_recover :: "nat \<Rightarrow> bool \<Rightarrow> hmap \<Rightarrow> (nat \<times> hmap) result" where
  "hm_recover i bRepair s =
     bindE (hm_doUpdate False s) (\<lambda>s.
     if i \<ge> hash_count s then Inr (0, s)
     else recover_loop (loop_limit s * loop_limit s) i bRepair (hm_mem s (I_iBlockAddr i)) 0 s)"

section \<open>Iteration\<close>

datatype it_type = IT_BLOCK | IT_SET | IT_GET

text \<open>The first bucket with a block among those of the indices, and the last.\<close>

fun first_bucket :: "nat list \<Rightarrow> hmap \<Rightarrow> nat" where
  "first_bucket [] s = 0"
| "first_bucket (i # is) s = (if hm_mem s (I_iBlockAddr i) = 0 then first_bucket is s else hm_mem s (I_iBlockAddr i))"

definition last_of_bucket :: "nat list \<Rightarrow> hmap \<Rightarrow> nat result" where
  "last_of_bucket is s = (let a = first_bucket is s in if a = 0 then Inr 0 else getLastBlockHead a s)"

definition nextItem :: "it_type \<Rightarrow> nat \<Rightarrow> hmap \<Rightarrow> nat result" where
  "nextItem iType a s =
     at_block a s
       (case iType of
          IT_BLOCK \<Rightarrow>
            Inr (if hm_mem s (B_iBlockNext a) \<noteq> 0 then hm_mem s (B_iBlockNext a)
                 else first_bucket [hm_mem s (B_iIndex a) + 1..<hash_count s] s)
        | IT_SET \<Rightarrow> Inr (hm_mem s (B_iSetNext a))
        | IT_GET \<Rightarrow> Inr (hm_mem s (B_iGetNext a)))"

definition prevItem :: "it_type \<Rightarrow> nat \<Rightarrow> hmap \<Rightarrow> nat result" where
  "prevItem iType a s =
     at_block a s
       (case iType of
          IT_BLOCK \<Rightarrow>
            if hm_mem s (B_iBlockPrev a) \<noteq> 0 then Inr (hm_mem s (B_iBlockPrev a))
            else last_of_bucket (rev [0..<hm_mem s (B_iIndex a)]) s
        | IT_SET \<Rightarrow> Inr (hm_mem s (B_iSetPrev a))
        | IT_GET \<Rightarrow> Inr (hm_mem s (B_iGetPrev a)))"

definition it_begin :: "hmap \<Rightarrow> (nat \<times> hmap) result" where
  "it_begin s = bindE (hm_doUpdate False s) (\<lambda>s. Inr (first_bucket [0..<hash_count s] s, s))"

definition it_rbegin :: "hmap \<Rightarrow> (nat \<times> hmap) result" where
  "it_rbegin s =
     bindE (hm_doUpdate False s) (\<lambda>s. bindE (last_of_bucket (rev [0..<hash_count s]) s) (\<lambda>a. Inr (a, s)))"

definition it_at :: "loc \<Rightarrow> hmap \<Rightarrow> (nat \<times> hmap) result" where
  "it_at l s = bindE (hm_doUpdate False s) (\<lambda>s. Inr (hm_mem s l, s))"

definition beginSetTime :: "hmap \<Rightarrow> (nat \<times> hmap) result" where "beginSetTime = it_at H_iSetHead"
definition rbeginSetTime :: "hmap \<Rightarrow> (nat \<times> hmap) result" where "rbeginSetTime = it_at H_iSetTail"
definition beginGetTime :: "hmap \<Rightarrow> (nat \<times> hmap) result" where "beginGetTime = it_at H_iGetHead"
definition rbeginGetTime :: "hmap \<Rightarrow> (nat \<times> hmap) result" where "rbeginGetTime = it_at H_iGetTail"
definition beginDirty :: "hmap \<Rightarrow> (nat \<times> hmap) result" where "beginDirty = it_at H_iDirtyTail"

text \<open>\<open>HashMapItem\<close>: a bucket. \<open>None\<close> is the end, index \<open>-1\<close>.\<close>

fun bucket_get_loop :: "nat \<Rightarrow> nat \<Rightarrow> block_data list \<Rightarrow> hmap \<Rightarrow> block_data list result" where
  "bucket_get_loop 0 a vt s = Inl LoopLimit"
| "bucket_get_loop (Suc fuel) a vt s =
     (if a = 0 then Inr vt
      else bindE (getBlockData a new_data s) (\<lambda>(ret, d).
        bucket_get_loop fuel (hm_mem s (B_iBlockNext a)) (if ret = RT_OK then vt @ [d] else vt) s))"

definition bucket_get :: "nat \<Rightarrow> block_data list \<Rightarrow> hmap \<Rightarrow> block_data list result" where
  "bucket_get i vt s = with_item i s (bucket_get_loop (Suc (loop_limit s)) (hm_mem s (I_iBlockAddr i)) vt s)"

fun bucket_setDirty_loop :: "nat \<Rightarrow> nat \<Rightarrow> hmap \<Rightarrow> hmap result" where
  "bucket_setDirty_loop 0 a s = Inl LoopLimit"
| "bucket_setDirty_loop (Suc fuel) a s =
     (if a = 0 then Inr s
      else at_block a s
        (bindE (if \<not> isOnlyKey a s then bindE (hm_doUpdate False s) (\<lambda>s. bindE (setDirty True a s) (refreshSetList a)) else Inr s) (\<lambda>s.
         bucket_setDirty_loop fuel (hm_mem s (B_iBlockNext a)) s)))"

definition bucket_setDirty :: "nat \<Rightarrow> hmap \<Rightarrow> (rt \<times> hmap) result" where
  "bucket_setDirty i s =
     (if hm_bReadOnly s then Inr (RT_READONLY, s)
      else with_item i s
        (bindE (bucket_setDirty_loop (Suc (loop_limit s)) (hm_mem s (I_iBlockAddr i)) s) (\<lambda>s. Inr (RT_OK, s))))"

definition bucket_next :: "nat option \<Rightarrow> hmap \<Rightarrow> nat option" where
  "bucket_next i s = (case i of None \<Rightarrow> None | Some i \<Rightarrow> if i \<ge> usub (hash_count s) 1 then None else Some (i + 1))"

text \<open>The largest and the smallest bucket, and the sum and number of the bucket sizes that are not 0.\<close>

fun analyse_loop :: "nat list \<Rightarrow> mem \<Rightarrow> nat \<times> nat \<times> nat \<times> nat \<Rightarrow> nat \<times> nat \<times> nat \<times> nat" where
  "analyse_loop [] m r = r"
| "analyse_loop (i # is) m (mx, mn, t, n) =
     (let c = m (I_iListCount i) in
      analyse_loop is m (max c mx, min c mn, if c \<noteq> 0 then t + c else t, if c \<noteq> 0 then n + 1 else n))"

definition analyseHash :: "hmap \<Rightarrow> nat \<times> nat \<times> nat \<times> nat" where
  "analyseHash s = analyse_loop [0..<hash_count s] (hm_mem s) (0, 2 ^ 32 - 1, 0, 0)"

section \<open>Creation\<close>

definition map_head_size :: nat where
  "map_head_size = 5 + 3 * 8 + 2 * 4 + 8 * 8 + 8 + 6 * 8 + 4 * 8"

definition hm_modify_head_size :: nat where
  "hm_modify_head_size = 1 + 8 + 20 * (8 + 1 + 8)"

definition hash_item_size :: nat where
  "hash_item_size = 8 + 4"

definition hm_exception :: cpp_error where
  "hm_exception = Thrown ''TC_HashMap_Exception''"

text \<open>\<open>root n\<close> is \<open>(size_t)sqrt((double)n)\<close>.\<close>

partial_function (option) getMinPrimeNumber :: "(nat \<Rightarrow> nat) \<Rightarrow> nat \<Rightarrow> nat option" where
  "getMinPrimeNumber root n = (if isPrimeNumber root n then Some n else getMinPrimeNumber root (n + 1))"

declare getMinPrimeNumber.simps [code]

fun reset_item :: "mem \<Rightarrow> loc \<Rightarrow> nat" where
  "reset_item m (I_iBlockAddr i) = 0"
| "reset_item m (I_iListCount i) = 0"
| "reset_item m l = m l"

definition reset_head :: "(loc \<times> nat) list" where
  "reset_head = [(H_iElementCount, 0), (H_iSetHead, 0), (H_iSetTail, 0), (H_iGetHead, 0), (H_iGetTail, 0),
     (H_iDirtyCount, 0), (H_iDirtyTail, 0), (H_iGetCount, 0), (H_iHitCount, 0), (H_iBackupTail, 0), (H_iSyncTail, 0)]"

definition data_offset :: "mem_vector \<Rightarrow> nat" where
  "data_offset v = map_head_size + hm_modify_head_size + mv_iSize v"

text \<open>
  \<open>r\<close> is what the memory held; \<open>radio n\<close> is \<open>(size_t)(n * _fRadio)\<close>, \<open>grow\<close> as in the allocator,
  \<open>d\<close> the bytes of the memory.
\<close>

definition hm_create ::
  "(nat \<Rightarrow> nat) \<Rightarrow> bool \<Rightarrow> (nat \<Rightarrow> nat) \<Rightarrow> (nat \<Rightarrow> nat) \<Rightarrow> nat \<Rightarrow> nat \<Rightarrow> nat \<Rightarrow> byte list \<Rightarrow> hmap \<Rightarrow> hmap result" where
  "hm_create grow factor_ok radio root minD maxD iSize d r =
     (if hash_item_size * 1 + map_head_size + hm_modify_head_size + multi_head_size + 10 > iSize then Inl hm_exception
      else if minD = 0 \<or> maxD = 0 \<or> \<not> factor_ok then Inl hm_exception
      else
        let iBlockSize = (minD + maxD) div 2 + block_head_size;
            iHashCount = usub iSize ca_head_size div (radio iBlockSize + hash_item_size) in
        case getMinPrimeNumber root iHashCount of None \<Rightarrow> Inl LoopLimit
        | Some n \<Rightarrow>
            bindE (mv_create hash_item_size (mv_calcMemSize hash_item_size n)) (\<lambda>v.
            bindE (multi_create grow factor_ok (data_offset v) (usub iSize (data_offset v))
                     (block_head_size + minD) (block_head_size + maxD) (drop (data_offset v) d)) (\<lambda>m.
            Inr (r\<lparr>hm_cMaxVersion := 0, hm_cMinVersion := 3, hm_bReadOnly := False, hm_bAutoErase := True,
                   hm_cEraseMode := 0, hm_iMemSize := iSize, hm_iMinDataSize := minD, hm_iMaxDataSize := maxD,
                   hm_iEraseCount := 10, hm_iSyncTime := 60 * 10, hm_iUsedChunk := 0,
                   hm_mem := reset_item (store_all reset_head (hm_mem r)), hm_hash := v, hm_alloc := m\<rparr>))))"

definition hm_connect :: "(nat \<Rightarrow> nat) \<Rightarrow> nat \<Rightarrow> hmap \<Rightarrow> hmap result" where
  "hm_connect grow iSize s =
     (if hm_cMaxVersion s \<noteq> 0 \<or> hm_cMinVersion s \<noteq> 3 then Inl hm_exception
      else if hm_iMemSize s \<noteq> iSize then Inl hm_exception
      else bindE (mv_connect hash_item_size (hm_hash s)) (\<lambda>v.
           bindE (multi_connect grow (hm_alloc s)) (\<lambda>m. Inr (s\<lparr>hm_hash := v, hm_alloc := m\<rparr>))))"

text \<open>0 and the extended map, or -1; \<open>d\<close> is the memory added.\<close>

definition hm_append :: "(nat \<Rightarrow> nat) \<Rightarrow> bool \<Rightarrow> nat \<Rightarrow> byte list \<Rightarrow> hmap \<Rightarrow> (int \<times> hmap) result" where
  "hm_append grow factor_ok iSize d s =
     (if iSize \<le> hm_iMemSize s then Inr (-1, s)
      else if hm_cMaxVersion s \<noteq> 0 \<or> hm_cMinVersion s \<noteq> 3 then Inl hm_exception
      else bindE (mv_connect hash_item_size (hm_hash s)) (\<lambda>v.
           bindE (multi_append grow factor_ok (usub iSize (data_offset v)) d (hm_alloc s)) (\<lambda>m.
           Inr (0, s\<lparr>hm_iMemSize := iSize, hm_hash := v, hm_alloc := m\<rparr>))))"

definition hm_clear :: "hmap \<Rightarrow> hmap result" where
  "hm_clear s =
     bindE (multi_rebuild (hm_alloc s)) (\<lambda>m.
     Inr (s\<lparr>hm_mem := reset_item (store_all reset_head (hm_mem s)), hm_iUsedChunk := 0, hm_alloc := m\<rparr>))"

end
