(* ===== verification/Hm_Lists.thy ===== *)
theory Hm_Lists
  imports Hash_Map
begin

text \<open>
  What a transaction of \<open>TC_HashMap\<close> leaves in each field, and what the transactions do to the
  set list, the get list and the lists of the buckets: insertion at the front, removal, moving
  to the front.
\<close>

section \<open>What a transaction stores\<close>

text \<open>The value at \<open>l\<close> after the stores, \<open>d\<close> before them.\<close>

fun stored :: "(loc \<times> nat) list \<Rightarrow> loc \<Rightarrow> nat \<Rightarrow> nat" where
  "stored [] l d = d"
| "stored ((k, v) # us) l d = stored us l (if k = l then v else d)"

lemma store_all_stored: "store_all us m l = stored us l (m l)"
  by (induction us m rule: store_all.induct) (auto simp del: fun_upd_apply simp: fun_upd_def)

lemma stored_append [simp]: "stored (us @ vs) l d = stored vs l (stored us l d)"
  by (induction us l d rule: stored.induct) auto

text \<open>The fields fall into groups; the parts of a transaction belong to different groups.\<close>

datatype field_group =
    SetG | GetG | BucketG | CountG | ListG | DirtyG | OnlyG | TailG | ChainG | SizeG | IndexG | StatG | TimeG

fun group_of :: "loc \<Rightarrow> field_group" where
  "group_of H_iElementCount = CountG"
| "group_of H_iDirtyCount = DirtyG"
| "group_of H_iOnlyKeyCount = OnlyG"
| "group_of H_iGetCount = StatG"
| "group_of H_iHitCount = StatG"
| "group_of H_iSetHead = SetG"
| "group_of H_iSetTail = SetG"
| "group_of H_iGetHead = GetG"
| "group_of H_iGetTail = GetG"
| "group_of H_iDirtyTail = TailG"
| "group_of H_iSyncTail = TailG"
| "group_of H_iBackupTail = TailG"
| "group_of (I_iBlockAddr i) = BucketG"
| "group_of (I_iListCount i) = ListG"
| "group_of (B_iSize a) = SizeG"
| "group_of (B_iIndex a) = IndexG"
| "group_of (B_iBlockNext a) = BucketG"
| "group_of (B_iBlockPrev a) = BucketG"
| "group_of (B_iSetNext a) = SetG"
| "group_of (B_iSetPrev a) = SetG"
| "group_of (B_iGetNext a) = GetG"
| "group_of (B_iGetPrev a) = GetG"
| "group_of (B_iSyncTime a) = TimeG"
| "group_of (B_bDirty a) = DirtyG"
| "group_of (B_bOnlyKey a) = OnlyG"
| "group_of (B_bNextChunk a) = ChainG"
| "group_of (B_iNextChunk a) = ChainG"
| "group_of (C_iSize a) = SizeG"
| "group_of (C_bNextChunk a) = ChainG"
| "group_of (C_iNextChunk a) = ChainG"

definition only :: "field_group set \<Rightarrow> (loc \<times> nat) list \<Rightarrow> bool" where
  "only G us \<longleftrightarrow> (\<forall>u\<in>set us. group_of (fst u) \<in> G)"

lemma only_simps [simp]:
  "only G []" "only G ((l, v) # us) \<longleftrightarrow> group_of l \<in> G \<and> only G us" "only G (us @ vs) \<longleftrightarrow> only G us \<and> only G vs"
  by (auto simp: only_def)

lemma stored_only: "only G us \<Longrightarrow> group_of l \<notin> G \<Longrightarrow> stored us l d = d"
  by (induction us l d rule: stored.induct) auto

lemma only_parts [simp]:
  "only {BucketG} (push_bucket index a m)"
  "only {SetG} (push_list H_iSetHead H_iSetTail B_iSetNext B_iSetPrev a m)"
  "only {GetG} (push_list H_iGetHead H_iGetTail B_iGetNext B_iGetPrev a m)"
  "only {SetG} (unlink_list H_iSetHead H_iSetTail B_iSetNext B_iSetPrev a m)"
  "only {GetG} (unlink_list H_iGetHead H_iGetTail B_iGetNext B_iGetPrev a m)"
  "only {SetG} (front_list H_iSetHead H_iSetTail B_iSetNext B_iSetPrev a m)"
  "only {GetG} (front_list H_iGetHead H_iGetTail B_iGetNext B_iGetPrev a m)"
  "only {BucketG, ListG} (unlink_bucket a m)"
  "only {TailG} (unlink_tails a m)"
  "only {DirtyG, OnlyG, CountG} (unlink_counts a m)"
  by (simp_all add: push_bucket_def push_list_def unlink_list_def front_list_def unlink_bucket_def
      unlink_tails_def unlink_counts_def Let_def)

lemma stored_parts [simp]:
  "group_of l \<noteq> BucketG \<Longrightarrow> stored (push_bucket index a m) l d = d"
  "group_of l \<noteq> SetG \<Longrightarrow> stored (push_list H_iSetHead H_iSetTail B_iSetNext B_iSetPrev a m) l d = d"
  "group_of l \<noteq> GetG \<Longrightarrow> stored (push_list H_iGetHead H_iGetTail B_iGetNext B_iGetPrev a m) l d = d"
  "group_of l \<noteq> SetG \<Longrightarrow> stored (unlink_list H_iSetHead H_iSetTail B_iSetNext B_iSetPrev a m) l d = d"
  "group_of l \<noteq> GetG \<Longrightarrow> stored (unlink_list H_iGetHead H_iGetTail B_iGetNext B_iGetPrev a m) l d = d"
  "group_of l \<noteq> SetG \<Longrightarrow> stored (front_list H_iSetHead H_iSetTail B_iSetNext B_iSetPrev a m) l d = d"
  "group_of l \<noteq> GetG \<Longrightarrow> stored (front_list H_iGetHead H_iGetTail B_iGetNext B_iGetPrev a m) l d = d"
  "group_of l \<notin> {BucketG, ListG} \<Longrightarrow> stored (unlink_bucket a m) l d = d"
  "group_of l \<noteq> TailG \<Longrightarrow> stored (unlink_tails a m) l d = d"
  "group_of l \<notin> {DirtyG, OnlyG, CountG} \<Longrightarrow> stored (unlink_counts a m) l d = d"
  by (rule stored_only, rule only_parts, simp)+

section \<open>The set list and the get list\<close>

definition list_at :: "loc \<Rightarrow> loc \<Rightarrow> (nat \<Rightarrow> loc) \<Rightarrow> (nat \<Rightarrow> loc) \<Rightarrow> mem \<Rightarrow> nat list \<Rightarrow> bool" where
  "list_at h t nx pv m xs \<longleftrightarrow> dlist (\<lambda>a. m (nx a)) (\<lambda>a. m (pv a)) (m h) (m t) xs"

lemma list_at_cong:
  "list_at h t nx pv m xs \<Longrightarrow> m' h = m h \<Longrightarrow> m' t = m t \<Longrightarrow>
   (\<And>a. a \<in> set xs \<Longrightarrow> m' (nx a) = m (nx a)) \<Longrightarrow> (\<And>a. a \<in> set xs \<Longrightarrow> m' (pv a) = m (pv a)) \<Longrightarrow>
   list_at h t nx pv m' xs"
  unfolding list_at_def using dlist_cong by metis

locale list_fields =
  fixes h t :: loc and nx pv :: "nat \<Rightarrow> loc"
  assumes inj: "nx a = nx b \<longleftrightarrow> a = b" "pv a = pv b \<longleftrightarrow> a = b"
    and apart: "nx a \<noteq> pv b" "nx a \<noteq> h" "nx a \<noteq> t" "pv a \<noteq> h" "pv a \<noteq> t" "h \<noteq> t"
begin

lemmas apart_simps = inj apart apart [symmetric]

lemma push_ok:
  assumes "list_at h t nx pv m xs" "a \<notin> set xs" "a \<noteq> 0" "m (nx a) = 0" "m (pv a) = 0"
  shows "list_at h t nx pv (store_all (push_list h t nx pv a m) m) (a # xs)"
proof -
  let ?m = "store_all (push_list h t nx pv a m) m"
  have d: "dlist (\<lambda>a. m (nx a)) (\<lambda>a. m (pv a)) (m h) (m t) xs" using assms(1) by (simp add: list_at_def)
  have e: "m h = 0 \<longleftrightarrow> xs = []" using dlist_empty[OF d] by simp
  have "dlist (\<lambda>a. ?m (nx a)) (\<lambda>a. ?m (pv a)) a (if m h = 0 then a else m t) (a # xs)"
    using d assms(2,3)
  proof (rule dlist_insert)
    fix x assume "x \<in> insert a (set xs)"
    then show "?m (nx x) = (if x = a then m h else m (nx x))"
      "?m (pv x) = (if x = a then 0 else if x = m h then a else m (pv x))"
      using assms(2,4,5) e dlist_ends[OF d]
      by (auto simp: store_all_stored push_list_def apart_simps)
  qed
  moreover have "?m h = a" "?m t = (if m h = 0 then a else m t)"
    by (auto simp: store_all_stored push_list_def apart_simps)
  ultimately show ?thesis by (simp add: list_at_def)
qed

lemma unlink_ok:
  assumes "list_at h t nx pv m xs" "a \<in> set xs"
  shows "list_at h t nx pv (store_all (unlink_list h t nx pv a m) m) (remove1 a xs)" "unlink_asserts h t nx pv a m"
proof -
  let ?m = "store_all (unlink_list h t nx pv a m) m"
  have d: "dlist (\<lambda>a. m (nx a)) (\<lambda>a. m (pv a)) (m h) (m t) xs" using assms(1) by (simp add: list_at_def)
  note n = dlist_neighbours[OF d assms(2)]
  have z: "0 \<notin> set xs" using d by (simp add: dlist_def)
  have "dlist (\<lambda>a. ?m (nx a)) (\<lambda>a. ?m (pv a)) (if m h = a then m (nx a) else m h)
      (if m t = a then m (pv a) else m t) (remove1 a xs)"
    using d assms(2)
  proof (rule dlist_remove)
    fix x assume x: "x \<in> set xs" "x \<noteq> a"
    then have "x \<noteq> 0" using z by metis
    with x n show "?m (nx x) = (if x = m (pv a) then m (nx a) else m (nx x))"
      "?m (pv x) = (if x = m (nx a) then m (pv a) else m (pv x))"
      by (cases "m h = a"; cases "m t = a"; simp add: store_all_stored unlink_list_def Let_def apart_simps)+
  qed
  moreover have "?m h = (if m h = a then m (nx a) else m h)" "?m t = (if m t = a then m (pv a) else m t)"
    using n by (cases "m h = a"; cases "m t = a"; simp add: store_all_stored unlink_list_def Let_def apart_simps)+
  ultimately show "list_at h t nx pv ?m (remove1 a xs)" by (simp add: list_at_def)
  show "unlink_asserts h t nx pv a m" using n by (auto simp: unlink_asserts_def)
qed

lemma front_ok:
  assumes "list_at h t nx pv m xs" "a \<in> set xs" "m h \<noteq> a"
  shows "list_at h t nx pv (store_all (front_list h t nx pv a m) m) (a # remove1 a xs)"
    "m (pv a) \<noteq> 0" "m (nx a) = 0 \<longrightarrow> m t = a" "m h \<noteq> 0" "m t \<noteq> 0"
proof -
  let ?m = "store_all (front_list h t nx pv a m) m"
  have d: "dlist (\<lambda>a. m (nx a)) (\<lambda>a. m (pv a)) (m h) (m t) xs" using assms(1) by (simp add: list_at_def)
  note n = dlist_neighbours[OF d assms(2)]
  have z: "0 \<notin> set xs" using d by (simp add: dlist_def)
  have hh: "m h \<in> set xs" "m h \<noteq> 0" using dlist_ends[OF d] dlist_empty[OF d] assms(2) by auto
  have nh: "m (nx a) \<noteq> m h"
  proof
    assume eq: "m (nx a) = m h"
    then obtain "m (nx a) \<in> set xs" "m (nx a) \<noteq> 0" using hh by simp
    from d assms(2) obtain as bs where s: "xs = as @ a # bs" "m (nx a) = hd0 bs 0" "m h = hd0 as a" by (rule dlist_split)
    have "distinct xs" using d by (simp add: dlist_def)
    with s eq assms(3) hh(2) hd0_in[of as a] hd0_in[of bs 0] show False
      by (cases "as = []"; cases "bs = []"; force)
  qed
  have "dlist (\<lambda>a. ?m (nx a)) (\<lambda>a. ?m (pv a)) a (if m t = a then m (pv a) else m t) (a # remove1 a xs)"
    using d assms(2,3)
  proof (rule dlist_front)
    fix x assume x: "x \<in> set xs"
    then have "x \<noteq> 0" using z by metis
    with x n assms(3) nh show "?m (nx x) = (if x = a then m h else if x = m (pv a) then m (nx a) else m (nx x))"
      "?m (pv x) = (if x = a then 0 else if x = m h then a else if x = m (nx a) then m (pv a) else m (pv x))"
      by (cases "m (nx a) = 0"; simp add: store_all_stored front_list_def Let_def apart_simps)+
  qed
  moreover have "?m h = a" "?m t = (if m t = a then m (pv a) else m t)"
    using n by (cases "m (nx a) = 0"; simp add: store_all_stored front_list_def Let_def apart_simps)+
  ultimately show "list_at h t nx pv ?m (a # remove1 a xs)" by (simp add: list_at_def)
  show "m (pv a) \<noteq> 0" "m (nx a) = 0 \<longrightarrow> m t = a" "m h \<noteq> 0" "m t \<noteq> 0"
    using n assms(2,3) hh dlist_empty[OF d] by auto
qed

text \<open>The parts write fields of nodes of the list only.\<close>

lemma push_locs:
  assumes "list_at h t nx pv m xs"
  shows "fst ` set (push_list h t nx pv a m) \<subseteq> {h, t} \<union> nx ` insert a (set xs) \<union> pv ` insert a (set xs)"
proof -
  have "m h \<in> insert 0 (set xs)" using dlist_ends[OF assms[unfolded list_at_def]] by simp
  then show ?thesis by (cases "m h = 0") (auto simp: push_list_def)
qed

lemma unlink_locs:
  assumes "list_at h t nx pv m xs" "a \<in> set xs"
  shows "fst ` set (unlink_list h t nx pv a m) \<subseteq> {h, t} \<union> nx ` set xs \<union> pv ` set xs"
proof -
  note n = dlist_neighbours[OF assms(1)[unfolded list_at_def] assms(2)]
  show ?thesis
    using n by (cases "m h = a"; cases "m t = a") (auto simp: unlink_list_def Let_def)
qed

lemma front_locs:
  assumes "list_at h t nx pv m xs" "a \<in> set xs" "m h \<noteq> a"
  shows "fst ` set (front_list h t nx pv a m) \<subseteq> {h, t} \<union> nx ` set xs \<union> pv ` set xs"
proof -
  have d: "dlist (\<lambda>a. m (nx a)) (\<lambda>a. m (pv a)) (m h) (m t) xs" using assms(1) by (simp add: list_at_def)
  note n = dlist_neighbours[OF d assms(2)]
  have "m h \<in> set xs" "m (pv a) \<in> set xs" using dlist_ends[OF d] dlist_empty[OF d] n assms(2,3) by auto
  with n assms(2) show ?thesis by (cases "m (nx a) = 0") (auto simp: front_list_def Let_def)
qed

end

interpretation set_fields: list_fields H_iSetHead H_iSetTail B_iSetNext B_iSetPrev
  by unfold_locales simp_all

interpretation get_fields: list_fields H_iGetHead H_iGetTail B_iGetNext B_iGetPrev
  by unfold_locales simp_all

abbreviation set_list :: "mem \<Rightarrow> nat list \<Rightarrow> bool" where
  "set_list \<equiv> list_at H_iSetHead H_iSetTail B_iSetNext B_iSetPrev"

abbreviation get_list :: "mem \<Rightarrow> nat list \<Rightarrow> bool" where
  "get_list \<equiv> list_at H_iGetHead H_iGetTail B_iGetNext B_iGetPrev"

section \<open>The list of a bucket\<close>

definition bucket_at :: "mem \<Rightarrow> nat \<Rightarrow> nat list \<Rightarrow> bool" where
  "bucket_at m i xs \<longleftrightarrow>
     dlist (\<lambda>a. m (B_iBlockNext a)) (\<lambda>a. m (B_iBlockPrev a)) (m (I_iBlockAddr i)) (last0 0 xs) xs"

lemma bucket_at_cong:
  "bucket_at m i xs \<Longrightarrow> m' (I_iBlockAddr i) = m (I_iBlockAddr i) \<Longrightarrow>
   (\<And>a. a \<in> set xs \<Longrightarrow> m' (B_iBlockNext a) = m (B_iBlockNext a)) \<Longrightarrow>
   (\<And>a. a \<in> set xs \<Longrightarrow> m' (B_iBlockPrev a) = m (B_iBlockPrev a)) \<Longrightarrow> bucket_at m' i xs"
  unfolding bucket_at_def using dlist_cong by metis

lemma bucket_push:
  assumes "bucket_at m i xs" "a \<notin> set xs" "a \<noteq> 0"
  shows "bucket_at (store_all (push_bucket i a m) m) i (a # xs)"
proof -
  let ?m = "store_all (push_bucket i a m) m"
  have d: "dlist (\<lambda>a. m (B_iBlockNext a)) (\<lambda>a. m (B_iBlockPrev a)) (m (I_iBlockAddr i)) (last0 0 xs) xs"
    using assms(1) by (simp add: bucket_at_def)
  have e: "m (I_iBlockAddr i) = 0 \<longleftrightarrow> xs = []" using dlist_empty[OF d] by simp
  have "dlist (\<lambda>a. ?m (B_iBlockNext a)) (\<lambda>a. ?m (B_iBlockPrev a)) a
      (if m (I_iBlockAddr i) = 0 then a else last0 0 xs) (a # xs)"
    using d assms(2,3)
  proof (rule dlist_insert)
    fix x assume "x \<in> insert a (set xs)"
    then show "?m (B_iBlockNext x) = (if x = a then m (I_iBlockAddr i) else m (B_iBlockNext x))"
      "?m (B_iBlockPrev x) = (if x = a then 0 else if x = m (I_iBlockAddr i) then a else m (B_iBlockPrev x))"
      using assms(2) e dlist_ends[OF d] by (auto simp: store_all_stored push_bucket_def)
  qed
  moreover have "?m (I_iBlockAddr i) = a" by (simp add: store_all_stored push_bucket_def)
  moreover have "(if m (I_iBlockAddr i) = 0 then a else last0 0 xs) = last0 0 (a # xs)"
    using e by (cases xs) auto
  ultimately show ?thesis by (simp add: bucket_at_def)
qed

lemma bucket_push_other:
  assumes "bucket_at m i xs" "bucket_at m j ys" "set xs \<inter> set ys = {}" "a \<notin> set ys" "i \<noteq> j"
  shows "bucket_at (store_all (push_bucket i a m) m) j ys"
proof -
  have "m (I_iBlockAddr i) \<in> insert 0 (set xs)" "0 \<notin> set ys"
    using assms(1,2) dlist_ends by (auto simp: bucket_at_def dlist_def)
  with assms(2) show ?thesis
    by (rule_tac bucket_at_cong[of m]) (use assms(3-5) in \<open>auto simp: store_all_stored push_bucket_def\<close>)
qed

lemma bucket_unlink:
  assumes "bucket_at m (m (B_iIndex a)) xs" "a \<in> set xs"
  shows "bucket_at (store_all (unlink_bucket a m) m) (m (B_iIndex a)) (remove1 a xs)"
    "m (B_iBlockPrev a) = 0 \<longrightarrow> m (I_iBlockAddr (m (B_iIndex a))) = a"
proof -
  let ?m = "store_all (unlink_bucket a m) m" and ?i = "m (B_iIndex a)"
  have d: "dlist (\<lambda>a. m (B_iBlockNext a)) (\<lambda>a. m (B_iBlockPrev a)) (m (I_iBlockAddr ?i)) (last0 0 xs) xs"
    using assms(1) by (simp add: bucket_at_def)
  note n = dlist_neighbours[OF d assms(2)]
  have z: "0 \<notin> set xs" using d by (simp add: dlist_def)
  have "dlist (\<lambda>a. ?m (B_iBlockNext a)) (\<lambda>a. ?m (B_iBlockPrev a))
      (if m (I_iBlockAddr ?i) = a then m (B_iBlockNext a) else m (I_iBlockAddr ?i))
      (if last0 0 xs = a then m (B_iBlockPrev a) else last0 0 xs) (remove1 a xs)"
    using d assms(2)
  proof (rule dlist_remove)
    fix x assume x: "x \<in> set xs" "x \<noteq> a"
    then have "x \<noteq> 0" using z by metis
    with x show "?m (B_iBlockNext x) = (if x = m (B_iBlockPrev a) then m (B_iBlockNext a) else m (B_iBlockNext x))"
      "?m (B_iBlockPrev x) = (if x = m (B_iBlockNext a) then m (B_iBlockPrev a) else m (B_iBlockPrev x))"
      by (auto simp: store_all_stored unlink_bucket_def)
  qed
  moreover have "?m (I_iBlockAddr ?i) = (if m (I_iBlockAddr ?i) = a then m (B_iBlockNext a) else m (I_iBlockAddr ?i))"
    using n by (auto simp: store_all_stored unlink_bucket_def)
  ultimately have r: "dlist (\<lambda>a. ?m (B_iBlockNext a)) (\<lambda>a. ?m (B_iBlockPrev a)) (?m (I_iBlockAddr ?i))
      (if last0 0 xs = a then m (B_iBlockPrev a) else last0 0 xs) (remove1 a xs)" by simp
  then show "bucket_at ?m ?i (remove1 a xs)" by (simp add: bucket_at_def dlist_def)
  show "m (B_iBlockPrev a) = 0 \<longrightarrow> m (I_iBlockAddr ?i) = a" using n by simp
qed

lemma bucket_locs:
  assumes "bucket_at m (m (B_iIndex a)) xs" "a \<in> set xs"
  shows "fst ` set (unlink_bucket a m) \<subseteq>
    {I_iBlockAddr (m (B_iIndex a)), I_iListCount (m (B_iIndex a))} \<union> B_iBlockNext ` set xs \<union> B_iBlockPrev ` set xs"
proof -
  note n = dlist_neighbours[OF assms(1)[unfolded bucket_at_def] assms(2)]
  show ?thesis using n by (auto simp: unlink_bucket_def)
qed

lemma push_bucket_locs:
  assumes "bucket_at m i xs"
  shows "fst ` set (push_bucket i a m) \<subseteq> {I_iBlockAddr i} \<union> B_iBlockNext ` insert a (set xs) \<union> B_iBlockPrev ` insert a (set xs)"
proof -
  have "m (I_iBlockAddr i) \<in> insert 0 (set xs)" using dlist_ends[OF assms[unfolded bucket_at_def]] by simp
  then show ?thesis by (cases "m (I_iBlockAddr i) = 0") (auto simp: push_bucket_def)
qed

lemma bucket_unlink_other:
  assumes "bucket_at m (m (B_iIndex a)) xs" "a \<in> set xs" "bucket_at m j ys" "set xs \<inter> set ys = {}" "j \<noteq> m (B_iIndex a)"
  shows "bucket_at (store_all (unlink_bucket a m) m) j ys"
proof -
  have d: "dlist (\<lambda>a. m (B_iBlockNext a)) (\<lambda>a. m (B_iBlockPrev a)) (m (I_iBlockAddr (m (B_iIndex a)))) (last0 0 xs) xs"
    using assms(1) by (simp add: bucket_at_def)
  have "0 \<notin> set ys" using assms(3) by (simp add: bucket_at_def dlist_def)
  with dlist_neighbours[OF d assms(2)] assms(3-5) show ?thesis
    by (rule_tac bucket_at_cong[of m]) (auto simp: store_all_stored unlink_bucket_def)
qed

end
