(* ===== verification/Hm_Inv.thy ===== *)
theory Hm_Inv
  imports Hm_Lists
begin

text \<open>
  The invariant of \<open>TC_HashMap\<close>: every block is in the set list, in the get list and in the list
  of its bucket; its chunks form a chain; no two blocks share memory and every piece of memory in
  use belongs to a block; the counters count. And what a record's bytes are, however many chunks
  they are spread over.
\<close>

section \<open>Chains and contents\<close>

fun tail_at :: "mem \<Rightarrow> nat \<Rightarrow> nat list \<Rightarrow> bool" where
  "tail_at m c [] \<longleftrightarrow> m (C_bNextChunk c) = 0"
| "tail_at m c (d # ds) \<longleftrightarrow> m (C_bNextChunk c) \<noteq> 0 \<and> m (C_iNextChunk c) = d \<and> tail_at m d ds"

fun chain_at :: "mem \<Rightarrow> nat \<Rightarrow> nat list \<Rightarrow> bool" where
  "chain_at m a [] \<longleftrightarrow> m (B_bNextChunk a) = 0"
| "chain_at m a (c # cs) \<longleftrightarrow> m (B_bNextChunk a) \<noteq> 0 \<and> m (B_iNextChunk a) = c \<and> tail_at m c cs"

definition sizes_at :: "mem \<Rightarrow> nat \<Rightarrow> nat list \<Rightarrow> bool" where
  "sizes_at m a cs \<longleftrightarrow> block_head_size \<le> m (B_iSize a) \<and> (\<forall>c\<in>set cs. chunk_link_size < m (C_iSize c))"

fun tail_bytes :: "mem \<Rightarrow> (nat \<Rightarrow> byte list) \<Rightarrow> nat \<Rightarrow> nat list \<Rightarrow> byte list \<Rightarrow> bool" where
  "tail_bytes m dt c [] bs \<longleftrightarrow> m (C_iNextChunk c) = length bs \<and> take (length bs) (dt c) = bs"
| "tail_bytes m dt c (d # ds) bs \<longleftrightarrow>
     (let n = m (C_iSize c) - chunk_link_size in
      n < length bs \<and> take n (dt c) = take n bs \<and> tail_bytes m dt d ds (drop n bs))"

fun chain_bytes :: "mem \<Rightarrow> (nat \<Rightarrow> byte list) \<Rightarrow> nat \<Rightarrow> nat list \<Rightarrow> byte list \<Rightarrow> bool" where
  "chain_bytes m dt a [] bs \<longleftrightarrow> m (B_iNextChunk a) = length bs \<and> take (length bs) (dt a) = bs"
| "chain_bytes m dt a (c # cs) bs \<longleftrightarrow>
     (let n = m (B_iSize a) - block_head_size in
      n < length bs \<and> take n (dt a) = take n bs \<and> tail_bytes m dt c cs (drop n bs))"

lemma tail_at_cong:
  "tail_at m c cs \<Longrightarrow> (\<And>d. d \<in> set (c # cs) \<Longrightarrow> m' (C_bNextChunk d) = m (C_bNextChunk d)) \<Longrightarrow>
   (\<And>d. d \<in> set (c # cs) \<Longrightarrow> m' (C_iNextChunk d) = m (C_iNextChunk d)) \<Longrightarrow> tail_at m' c cs"
  by (induction cs arbitrary: c) auto

lemma chain_at_cong:
  "chain_at m a cs \<Longrightarrow> m' (B_bNextChunk a) = m (B_bNextChunk a) \<Longrightarrow> m' (B_iNextChunk a) = m (B_iNextChunk a) \<Longrightarrow>
   (\<And>d. d \<in> set cs \<Longrightarrow> m' (C_bNextChunk d) = m (C_bNextChunk d)) \<Longrightarrow>
   (\<And>d. d \<in> set cs \<Longrightarrow> m' (C_iNextChunk d) = m (C_iNextChunk d)) \<Longrightarrow> chain_at m' a cs"
  using tail_at_cong[of m "hd cs" "tl cs" m'] by (cases cs) auto

lemma tail_bytes_cong:
  "tail_bytes m dt c cs bs \<Longrightarrow> (\<And>d. d \<in> set (c # cs) \<Longrightarrow> m' (C_iSize d) = m (C_iSize d)) \<Longrightarrow>
   (\<And>d. d \<in> set (c # cs) \<Longrightarrow> m' (C_iNextChunk d) = m (C_iNextChunk d)) \<Longrightarrow>
   (\<And>d. d \<in> set (c # cs) \<Longrightarrow> dt' d = dt d) \<Longrightarrow> tail_bytes m' dt' c cs bs"
  by (induction cs arbitrary: c bs) (auto simp: Let_def)

lemma block_bytes_cong:
  "chain_bytes m dt a cs bs \<Longrightarrow> m' (B_iSize a) = m (B_iSize a) \<Longrightarrow> m' (B_iNextChunk a) = m (B_iNextChunk a) \<Longrightarrow>
   (\<And>d. d \<in> set cs \<Longrightarrow> m' (C_iSize d) = m (C_iSize d)) \<Longrightarrow>
   (\<And>d. d \<in> set cs \<Longrightarrow> m' (C_iNextChunk d) = m (C_iNextChunk d)) \<Longrightarrow>
   (\<And>d. d \<in> set (a # cs) \<Longrightarrow> dt' d = dt d) \<Longrightarrow> chain_bytes m' dt' a cs bs"
  using tail_bytes_cong[of m dt "hd cs" "tl cs" _ m' dt'] by (cases cs) (auto simp: Let_def)

lemma tail_bytes_unique: "tail_bytes m dt c cs bs \<Longrightarrow> tail_bytes m dt c cs bs' \<Longrightarrow> bs = bs'"
proof (induction cs arbitrary: c bs bs')
  case (Cons d ds)
  let ?n = "m (C_iSize c) - chunk_link_size"
  have "take ?n bs = take ?n bs'" "drop ?n bs = drop ?n bs'" using Cons by (auto simp: Let_def)
  then show ?case by (metis append_take_drop_id)
qed auto

lemma block_bytes_unique: "chain_bytes m dt a cs bs \<Longrightarrow> chain_bytes m dt a cs bs' \<Longrightarrow> bs = bs'"
proof (cases cs)
  case (Cons c ds)
  assume b: "chain_bytes m dt a cs bs" "chain_bytes m dt a cs bs'"
  let ?n = "m (B_iSize a) - block_head_size"
  have "take ?n bs = take ?n bs'" "drop ?n bs = drop ?n bs'"
    using b Cons tail_bytes_unique[of m dt c ds "drop ?n bs" "drop ?n bs'"] by (auto simp: Let_def)
  then show ?thesis by (metis append_take_drop_id)
qed auto

section \<open>The invariant\<close>

record shape =
  sh_set :: "nat list"
  sh_get :: "nat list"
  sh_bucket :: "nat \<Rightarrow> nat list"
  sh_chunks :: "nat \<Rightarrow> nat list"

definition lists_inv :: "mem \<Rightarrow> shape \<Rightarrow> bool" where
  "lists_inv m v \<longleftrightarrow> set_list m (sh_set v) \<and> get_list m (sh_get v) \<and> set (sh_get v) = set (sh_set v)"

definition buckets_inv :: "mem \<Rightarrow> nat \<Rightarrow> shape \<Rightarrow> bool" where
  "buckets_inv m n v \<longleftrightarrow>
     (\<forall>i<n. bucket_at m i (sh_bucket v i) \<and> (\<forall>a\<in>set (sh_bucket v i). a \<in> set (sh_set v) \<and> m (B_iIndex a) = i) \<and>
       m (I_iListCount i) = length (sh_bucket v i) mod 2 ^ 32) \<and>
     (\<forall>a\<in>set (sh_set v). m (B_iIndex a) < n \<and> a \<in> set (sh_bucket v (m (B_iIndex a))))"

definition chains_inv :: "mem \<Rightarrow> shape \<Rightarrow> bool" where
  "chains_inv m v \<longleftrightarrow> (\<forall>a\<in>set (sh_set v). chain_at m a (sh_chunks v a) \<and> sizes_at m a (sh_chunks v a))"

definition counts_inv :: "mem \<Rightarrow> shape \<Rightarrow> bool" where
  "counts_inv m v \<longleftrightarrow> m H_iElementCount = length (sh_set v) mod 2 ^ 64 \<and>
     m H_iDirtyCount = length (filter (\<lambda>a. m (B_bDirty a) \<noteq> 0) (sh_set v)) mod 2 ^ 64"

definition tails_inv :: "mem \<Rightarrow> shape \<Rightarrow> bool" where
  "tails_inv m v \<longleftrightarrow> {m H_iDirtyTail, m H_iSyncTail, m H_iBackupTail} \<subseteq> insert 0 (set (sh_set v))"

definition mem_inv :: "mem \<Rightarrow> nat \<Rightarrow> shape \<Rightarrow> bool" where
  "mem_inv m n v \<longleftrightarrow> lists_inv m v \<and> buckets_inv m n v \<and> chains_inv m v \<and> counts_inv m v \<and> tails_inv m v"

text \<open>\<open>ex\<close>: pieces handed out by the allocator that are not yet, or no longer, part of a block.\<close>

definition hm_pieces :: "shape \<Rightarrow> nat list" where
  "hm_pieces v = concat (List.map (\<lambda>a. a # sh_chunks v a) (sh_set v))"

definition core_inv :: "hmap \<Rightarrow> shape \<Rightarrow> nat list \<Rightarrow> bool" where
  "core_inv s v ex \<longleftrightarrow> pool_ok (hm_alloc s) \<and> distinct (hm_pieces v @ ex) \<and> set (hm_pieces v @ ex) = pool_live (hm_alloc s) \<and>
     hm_iUsedChunk s = length (hm_pieces v @ ex) mod 2 ^ 64 \<and> 0 < hash_count s \<and> hash_count s \<le> 2 ^ 32"

definition contents_inv :: "hmap \<Rightarrow> shape \<Rightarrow> nat set \<Rightarrow> bool" where
  "contents_inv s v X \<longleftrightarrow> (\<forall>a\<in>set (sh_set v) - X. \<exists>bs. chain_bytes (hm_mem s) (hm_data s) a (sh_chunks v a) bs)"

definition hm_inv :: "hmap \<Rightarrow> shape \<Rightarrow> nat list \<Rightarrow> nat set \<Rightarrow> bool" where
  "hm_inv s v ex X \<longleftrightarrow> mem_inv (hm_mem s) (hash_count s) v \<and> core_inv s v ex \<and> contents_inv s v X"

text \<open>Updates not yet stored that no part of the invariant speaks of: the get and hit counters.\<close>

definition pending :: "hmap \<Rightarrow> bool" where
  "pending s \<longleftrightarrow> only {StatG} (hm_stModifyData s) \<and> length (hm_stModifyData s) \<le> 3 \<and> hm_cModifyStatus s \<le> 1 \<and>
     (hm_stModifyData s \<noteq> [] \<longrightarrow> hm_cModifyStatus s = 1)"

subsection \<open>What the invariant does not depend on\<close>

lemma lists_inv_cong:
  assumes "lists_inv m v" "\<And>l. group_of l \<in> {SetG, GetG} \<Longrightarrow> m' l = m l"
  shows "lists_inv m' v"
  using assms(1) unfolding lists_inv_def
  by (auto intro!: list_at_cong[where m' = m' and m = m] simp: assms(2))

lemma buckets_inv_cong:
  assumes "buckets_inv m n v" "\<And>l. group_of l \<in> {BucketG, ListG, IndexG} \<Longrightarrow> m' l = m l"
  shows "buckets_inv m' n v"
proof -
  have "m' (B_iIndex a) = m (B_iIndex a)" "m' (I_iListCount i) = m (I_iListCount i)" for a i by (simp_all add: assms(2))
  moreover have "bucket_at m' i xs" if "bucket_at m i xs" for i xs
    using that by (rule bucket_at_cong) (simp_all add: assms(2))
  ultimately show ?thesis using assms(1) unfolding buckets_inv_def by auto
qed

lemma chains_inv_cong:
  assumes "chains_inv m v" "\<And>l. group_of l \<in> {ChainG, SizeG} \<Longrightarrow> m' l = m l"
  shows "chains_inv m' v"
proof -
  have "chain_at m' a cs" if "chain_at m a cs" for a cs
    using that by (rule chain_at_cong) (simp_all add: assms(2))
  then show ?thesis using assms unfolding chains_inv_def sizes_at_def by simp
qed

lemma counts_inv_cong:
  assumes "counts_inv m v" "\<And>l. group_of l \<in> {CountG, DirtyG} \<Longrightarrow> m' l = m l"
  shows "counts_inv m' v"
  using assms unfolding counts_inv_def by simp

lemma tails_inv_cong:
  assumes "tails_inv m v" "\<And>l. group_of l = TailG \<Longrightarrow> m' l = m l"
  shows "tails_inv m' v"
  using assms unfolding tails_inv_def by simp

lemma mem_inv_cong:
  assumes "mem_inv m n v" "\<And>l. group_of l \<notin> {StatG, TimeG, OnlyG} \<Longrightarrow> m' l = m l"
  shows "mem_inv m' n v"
proof -
  have i: "lists_inv m v" "buckets_inv m n v" "chains_inv m v" "counts_inv m v" "tails_inv m v"
    using assms(1) by (simp_all add: mem_inv_def)
  have *: "m' l = m l" if "group_of l \<in> {SetG, GetG, BucketG, ListG, IndexG, ChainG, SizeG, CountG, DirtyG, TailG}" for l
    using that by (intro assms(2)) auto
  have "lists_inv m' v" by (rule lists_inv_cong[OF i(1)], rule *) auto
  moreover have "buckets_inv m' n v" by (rule buckets_inv_cong[OF i(2)], rule *) auto
  moreover have "chains_inv m' v" by (rule chains_inv_cong[OF i(3)], rule *) auto
  moreover have "counts_inv m' v" by (rule counts_inv_cong[OF i(4)], rule *) auto
  moreover have "tails_inv m' v" by (rule tails_inv_cong[OF i(5)], rule *) auto
  ultimately show ?thesis by (simp add: mem_inv_def)
qed

lemma contents_inv_cong:
  assumes "contents_inv s v X" "\<And>l. group_of l \<in> {ChainG, SizeG} \<Longrightarrow> hm_mem s' l = hm_mem s l" "hm_data s' = hm_data s"
  shows "contents_inv s' v X"
proof -
  have "chain_bytes (hm_mem s') (hm_data s') a cs bs" if "chain_bytes (hm_mem s) (hm_data s) a cs bs" for a cs bs
    using that by (rule block_bytes_cong) (simp_all add: assms(2,3))
  then show ?thesis using assms(1) unfolding contents_inv_def by blast
qed

lemma core_inv_cong:
  assumes "core_inv s v ex" "hm_alloc s' = hm_alloc s" "hash_count s' = hash_count s" "hm_iUsedChunk s' = hm_iUsedChunk s"
  shows "core_inv s' v ex"
  using assms unfolding core_inv_def by simp

subsection \<open>Counting\<close>

lemma inc64_mod [simp]: "inc64 (n mod 2 ^ 64) = Suc n mod 2 ^ 64"
  by (simp add: inc64_def mod_Suc_eq)

lemma dec64_mod [simp]: "dec64 (Suc n mod 2 ^ 64) = n mod 2 ^ 64"
proof -
  have "(Suc n mod 2 ^ 64 + (2 ^ 64 - 1)) mod 2 ^ 64 = (Suc n + (2 ^ 64 - 1)) mod 2 ^ 64"
    by (simp only: mod_add_left_eq)
  also have "Suc n + (2 ^ 64 - 1) = n + 2 ^ 64" by simp
  finally show ?thesis by (simp add: dec64_def)
qed

lemma inc32_mod [simp]: "inc32 (n mod 2 ^ 32) = Suc n mod 2 ^ 32"
  by (simp add: inc32_def mod_Suc_eq)

lemma dec32_mod [simp]: "dec32 (Suc n mod 2 ^ 32) = n mod 2 ^ 32"
proof -
  have "(Suc n mod 2 ^ 32 + (2 ^ 32 - 1)) mod 2 ^ 32 = (Suc n + (2 ^ 32 - 1)) mod 2 ^ 32"
    by (simp only: mod_add_left_eq)
  also have "Suc n + (2 ^ 32 - 1) = n + 2 ^ 32" by simp
  finally show ?thesis by (simp add: dec32_def)
qed

subsection \<open>Blocks and their memory\<close>

lemma live_iff: "core_inv s v ex \<Longrightarrow> hm_live s a \<longleftrightarrow> a \<in> set (hm_pieces v @ ex)"
  using is_live_iff[of "hm_alloc s" a] by (auto simp: core_inv_def pool_ok_def)

lemma in_pieces: "a \<in> set (sh_set v) \<Longrightarrow> set (a # sh_chunks v a) \<subseteq> set (hm_pieces v)"
  by (auto simp: hm_pieces_def)

lemma pieces_pos: "core_inv s v ex \<Longrightarrow> p \<in> set (hm_pieces v @ ex) \<Longrightarrow> 0 < p"
  using pool.live_pos[of "hm_alloc s" p] unfolding core_inv_def by blast

lemma pieces_bound: "core_inv s v ex \<Longrightarrow> length (hm_pieces v @ ex) < loop_limit s"
proof -
  assume c: "core_inv s v ex"
  then have "length (hm_pieces v @ ex) = card (set (hm_pieces v @ ex))" by (metis core_inv_def distinct_card)
  with c pool.live_card[of "hm_alloc s"] show ?thesis by (auto simp: core_inv_def loop_limit_def)
qed

lemma sum_list_member: "a \<in> set xs \<Longrightarrow> f a \<le> sum_list (List.map f xs)" for f :: "'a \<Rightarrow> nat"
  by (induction xs) auto

lemma chunks_bound: "a \<in> set (sh_set v) \<Longrightarrow> Suc (length (sh_chunks v a)) \<le> length (hm_pieces v)"
  using sum_list_member[of a "sh_set v" "\<lambda>a. Suc (length (sh_chunks v a))"]
  by (simp add: hm_pieces_def length_concat comp_def)

lemma set_bound: "length (sh_set v) \<le> length (hm_pieces v)"
proof -
  have "length xs \<le> sum_list (List.map (\<lambda>a. Suc (length (f a))) xs)" for xs :: "nat list" and f :: "nat \<Rightarrow> nat list"
    by (induction xs) auto
  then show ?thesis by (simp add: hm_pieces_def length_concat comp_def)
qed

section \<open>Reading\<close>

lemma chunk_len_ok:
  assumes "tail_at (hm_mem s) c cs" "tail_bytes (hm_mem s) (hm_data s) c cs bs" "\<forall>d\<in>set (c # cs). hm_live s d"
    "\<forall>d\<in>set (c # cs). chunk_link_size < hm_mem s (C_iSize d)" "length cs < fuel"
  shows "chunk_len fuel c n s = Inr (n + length bs)"
  using assms
proof (induction fuel arbitrary: c cs n bs)
  case (Suc fuel)
  then show ?case by (cases cs) (auto simp: Let_def chunk_room_def less_imp_le)
qed simp

lemma chunk_get_ok:
  assumes "tail_at (hm_mem s) c cs" "tail_bytes (hm_mem s) (hm_data s) c cs bs" "\<forall>d\<in>set (c # cs). hm_live s d"
    "\<forall>d\<in>set (c # cs). chunk_link_size < hm_mem s (C_iSize d)" "length cs < fuel" "bs \<noteq> []"
  shows "chunk_get fuel c has (length bs) (has + length bs) acc s = Inr (RT_OK, acc @ bs, has + length bs)"
  using assms
proof (induction fuel arbitrary: c cs bs has acc)
  case (Suc fuel)
  show ?case
  proof (cases cs)
    case Nil
    with Suc.prems have b: "hm_mem s (C_iNextChunk c) = length bs" "take (length bs) (hm_data s c) = bs"
      "hm_mem s (C_bNextChunk c) = 0" by simp_all
    then have "length bs \<le> length (hm_data s c)" by (metis length_take min.cobounded2 min_def nat_le_linear)
    with b Suc.prems Nil show ?thesis by (simp add: peek_def)
  next
    case (Cons d ds)
    let ?n = "hm_mem s (C_iSize c) - chunk_link_size"
    have b: "?n < length bs" "take ?n (hm_data s c) = take ?n bs" "tail_bytes (hm_mem s) (hm_data s) d ds (drop ?n bs)"
      "hm_mem s (C_bNextChunk c) \<noteq> 0" "hm_mem s (C_iNextChunk c) = d" "tail_at (hm_mem s) d ds"
      using Suc.prems Cons by (auto simp: Let_def)
    have l: "?n \<le> length (hm_data s c)" using arg_cong[OF b(2), of length] b(1) by simp
    have r: "chunk_room c s = ?n" using Suc.prems(4) by (simp add: chunk_room_def less_imp_le)
    have "chunk_get fuel d (has + ?n) (length (drop ?n bs)) (has + ?n + length (drop ?n bs)) (acc @ take ?n bs) s =
        Inr (RT_OK, (acc @ take ?n bs) @ drop ?n bs, has + ?n + length (drop ?n bs))"
      using Suc.prems b(1,3,6) Cons by (intro Suc.IH) auto
    then show ?thesis using b l r Suc.prems(3) by (simp add: peek_def Let_def)
  qed
qed simp

lemma get_data_ok:
  assumes "chain_at (hm_mem s) a cs" "chain_bytes (hm_mem s) (hm_data s) a cs bs" "sizes_at (hm_mem s) a cs"
    "\<forall>d\<in>set (a # cs). hm_live s d" "length cs < loop_limit s"
  shows "getDataLen a s = Inr (length bs)" "get_data a s = Inr (RT_OK, bs)"
proof -
  have "getDataLen a s = Inr (length bs) \<and> block_get a (length bs) s = Inr (RT_OK, bs, length bs)"
  proof (cases cs)
    case Nil
    with assms have b: "hm_mem s (B_iNextChunk a) = length bs" "take (length bs) (hm_data s a) = bs"
      "hm_mem s (B_bNextChunk a) = 0" by simp_all
    then have "length bs \<le> length (hm_data s a)" by (metis length_take min.cobounded2 min_def nat_le_linear)
    with b assms(4) show ?thesis by (simp add: getDataLen_def block_get_def peek_def)
  next
    case (Cons c ds)
    let ?n = "hm_mem s (B_iSize a) - block_head_size"
    have b: "?n < length bs" "take ?n (hm_data s a) = take ?n bs" "tail_bytes (hm_mem s) (hm_data s) c ds (drop ?n bs)"
      "hm_mem s (B_bNextChunk a) \<noteq> 0" "hm_mem s (B_iNextChunk a) = c" "tail_at (hm_mem s) c ds"
      using assms Cons by (auto simp: Let_def)
    have l: "?n \<le> length (hm_data s a)" using arg_cong[OF b(2), of length] b(1) by simp
    have r: "block_room a s = ?n" using assms(3) by (simp add: block_room_def sizes_at_def)
    have live: "\<forall>d\<in>set (c # ds). hm_live s d" "\<forall>d\<in>set (c # ds). chunk_link_size < hm_mem s (C_iSize d)"
      "length ds < loop_limit s"
      using assms(3-5) Cons by (auto simp: sizes_at_def)
    have "chunk_len (loop_limit s) c ?n s = Inr (?n + length (drop ?n bs))"
      by (rule chunk_len_ok[OF b(6,3) live])
    moreover have "chunk_get (loop_limit s) c ?n (length (drop ?n bs)) (?n + length (drop ?n bs)) (take ?n bs) s =
        Inr (RT_OK, take ?n bs @ drop ?n bs, ?n + length (drop ?n bs))"
      using b(1) by (intro chunk_get_ok[OF b(6,3) live]) simp
    ultimately show ?thesis
      using b l r assms(4) by (simp add: getDataLen_def block_get_def peek_def Let_def)
  qed
  then show "getDataLen a s = Inr (length bs)" "get_data a s = Inr (RT_OK, bs)" by (simp_all add: get_data_def)
qed

text \<open>In a well-formed map every block but those of \<open>X\<close> can be read.\<close>

lemma inv_live: "hm_inv s v ex X \<Longrightarrow> a \<in> set (sh_set v) \<Longrightarrow> d \<in> set (a # sh_chunks v a) \<Longrightarrow> hm_live s d"
  using live_iff[of s v ex d] in_pieces[of a v] by (auto simp: hm_inv_def)

lemma inv_get_data:
  assumes "hm_inv s v ex X" "a \<in> set (sh_set v)" "a \<notin> X"
  obtains bs where "chain_bytes (hm_mem s) (hm_data s) a (sh_chunks v a) bs" "get_data a s = Inr (RT_OK, bs)"
proof -
  obtain bs where bs: "chain_bytes (hm_mem s) (hm_data s) a (sh_chunks v a) bs"
    using assms unfolding hm_inv_def contents_inv_def by blast
  have "length (sh_chunks v a) < loop_limit s"
    using chunks_bound[OF assms(2)] pieces_bound[of s v ex] assms(1) unfolding hm_inv_def by simp
  with assms bs inv_live[OF assms(1,2)] have "get_data a s = Inr (RT_OK, bs)"
    by (intro get_data_ok) (auto simp: hm_inv_def mem_inv_def chains_inv_def)
  with bs show ?thesis by (rule that)
qed

end
