(* ===== verification/Hm_Steps.thy ===== *)
theory Hm_Steps
  imports Hm_Inv
begin

text \<open>
  The transactions of \<open>TC_HashMap::Block\<close> keep the invariant: a new block, an erased block, the
  two lists refreshed. Each is one lemma on the memory and one on the operation.
\<close>

section \<open>Transactions\<close>

definition after :: "(loc \<times> nat) list \<Rightarrow> hmap \<Rightarrow> hmap" where
  "after us s = s\<lparr>hm_mem := store_all us (store_all (hm_stModifyData s) (hm_mem s)),
     hm_stModifyData := [], hm_cModifyStatus := 0\<rparr>"

lemma after_fields [simp]:
  "hm_data (after us s) = hm_data s" "hm_hash (after us s) = hm_hash s" "hm_alloc (after us s) = hm_alloc s"
  "hm_bReadOnly (after us s) = hm_bReadOnly s" "hm_bAutoErase (after us s) = hm_bAutoErase s"
  "hm_cEraseMode (after us s) = hm_cEraseMode s" "hm_iEraseCount (after us s) = hm_iEraseCount s"
  "hm_iSyncTime (after us s) = hm_iSyncTime s" "hm_iUsedChunk (after us s) = hm_iUsedChunk s"
  "hm_stModifyData (after us s) = []" "hm_cModifyStatus (after us s) = 0"
  by (simp_all add: after_def)

lemma pending_after [simp]: "pending (after us s)"
  by (simp add: pending_def)

lemma after_mem: "pending s \<Longrightarrow> group_of l \<noteq> StatG \<Longrightarrow> hm_mem (after us s) l = store_all us (hm_mem s) l"
  using stored_only[of "{StatG}" "hm_stModifyData s" l] by (simp add: after_def store_all_stored pending_def)

lemma stat_loc_ok: "group_of l = StatG \<Longrightarrow> loc_ok s l"
  by (cases l) simp_all

lemma loc_ok_cong: "hm_alloc s' = hm_alloc s \<Longrightarrow> hm_hash s' = hm_hash s \<Longrightarrow> loc_ok s' l = loc_ok s l"
  by (cases l) simp_all

lemma pending_txn:
  assumes "pending s" "length us \<le> 16" "\<And>l v. (l, v) \<in> set us \<Longrightarrow> loc_ok s l"
  shows "bindE (hm_updates us s) (hm_doUpdate True) = Inr (after us s)"
proof -
  have "loc_ok s l" if "(l, v) \<in> set (hm_stModifyData s)" for l v
    using assms(1) that stat_loc_ok unfolding pending_def only_def by fastforce
  with assms have "bindE (hm_updates us s) (hm_doUpdate True) =
    Inr (s\<lparr>hm_mem := store_all us (store_all (hm_stModifyData s) (hm_mem s)), hm_stModifyData := [], hm_cModifyStatus := 0\<rparr>)"
    by (intro transaction_ok) (auto simp: pending_def journal_size_def)
  then show ?thesis by (simp add: after_def)
qed

lemma mem_inv_after: "pending s \<Longrightarrow> mem_inv (store_all us (hm_mem s)) n v \<Longrightarrow> mem_inv (hm_mem (after us s)) n v"
  by (erule mem_inv_cong) (simp add: after_mem)

lemma contents_inv_after:
  "contents_inv s v X \<Longrightarrow> pending s \<Longrightarrow> only (- {ChainG, SizeG}) us \<Longrightarrow> contents_inv (after us s) v X"
proof (erule contents_inv_cong)
  fix l assume "pending s" "only (- {ChainG, SizeG}) us" "group_of l \<in> {ChainG, SizeG}"
  then have "hm_mem (after us s) l = stored us l (hm_mem s l)" "stored us l (hm_mem s l) = hm_mem s l"
    using after_mem[of s l us] stored_only[of "- {ChainG, SizeG}" us l] by (auto simp: store_all_stored)
  then show "hm_mem (after us s) l = hm_mem s l" by simp
qed simp

lemma core_inv_after [simp]: "core_inv (after us s) v ex = core_inv s v ex"
  by (simp add: core_inv_def)

text \<open>Pending updates are stored or dropped by the \<open>doUpdate\<close> an operation begins with.\<close>

definition settled :: "hmap \<Rightarrow> hmap" where
  "settled s = s\<lparr>hm_stModifyData := [], hm_cModifyStatus := 0\<rparr>"

lemma begin_ok: "pending s \<Longrightarrow> hm_doUpdate False s = Inr (settled s)"
proof -
  assume p: "pending s"
  then consider "hm_cModifyStatus s = 1" | "hm_cModifyStatus s = 0" "hm_stModifyData s = []"
    unfolding pending_def by linarith
  then show ?thesis by cases (simp_all add: hm_doUpdate_def settled_def)
qed

section \<open>What is left of the other records\<close>

text \<open>The fields of the record at an address: not those that link it into lists.\<close>

fun rec_at :: "loc \<Rightarrow> nat option" where
  "rec_at (B_iSize a) = Some a"
| "rec_at (B_iIndex a) = Some a"
| "rec_at (B_iSyncTime a) = Some a"
| "rec_at (B_bDirty a) = Some a"
| "rec_at (B_bOnlyKey a) = Some a"
| "rec_at (B_bNextChunk a) = Some a"
| "rec_at (B_iNextChunk a) = Some a"
| "rec_at (C_iSize a) = Some a"
| "rec_at (C_bNextChunk a) = Some a"
| "rec_at (C_iNextChunk a) = Some a"
| "rec_at _ = None"

definition same_on :: "nat set \<Rightarrow> hmap \<Rightarrow> hmap \<Rightarrow> bool" where
  "same_on D s s' \<longleftrightarrow> (\<forall>l a. rec_at l = Some a \<and> a \<in> D \<longrightarrow> hm_mem s' l = hm_mem s l) \<and>
     (\<forall>a\<in>D. hm_data s' a = hm_data s a)"

definition same_conf :: "hmap \<Rightarrow> hmap \<Rightarrow> bool" where
  "same_conf s s' \<longleftrightarrow> hm_hash s' = hm_hash s \<and> multi_same (hm_alloc s) (hm_alloc s') \<and>
     hm_bReadOnly s' = hm_bReadOnly s \<and> hm_bAutoErase s' = hm_bAutoErase s \<and>
     hm_cEraseMode s' = hm_cEraseMode s \<and> hm_iEraseCount s' = hm_iEraseCount s \<and> hm_iSyncTime s' = hm_iSyncTime s"

lemma same_on_refl [simp]: "same_on D s s"
  by (simp add: same_on_def)

lemma same_on_trans: "same_on D s s' \<Longrightarrow> same_on D' s' s'' \<Longrightarrow> D'' \<subseteq> D \<Longrightarrow> D'' \<subseteq> D' \<Longrightarrow> same_on D'' s s''"
  unfolding same_on_def by (metis subsetD)

lemma same_on_mono: "same_on D s s' \<Longrightarrow> D' \<subseteq> D \<Longrightarrow> same_on D' s s'"
  unfolding same_on_def by blast

lemma same_conf_refl [simp]: "same_conf s s"
  by (simp add: same_conf_def)

lemma same_conf_trans: "same_conf s s' \<Longrightarrow> same_conf s' s'' \<Longrightarrow> same_conf s s''"
  unfolding same_conf_def using multi_same_trans by auto

lemma same_conf_after [simp]: "same_conf s (after us s)"
  by (simp add: same_conf_def)

lemma same_conf_limit: "same_conf s s' \<Longrightarrow> loop_limit s' = loop_limit s"
  by (simp add: same_conf_def loop_limit_def same_count)

lemma same_on_bytes:
  assumes "same_on D s s'" "set (a # cs) \<subseteq> D"
  shows "chain_bytes (hm_mem s') (hm_data s') a cs bs \<longleftrightarrow> chain_bytes (hm_mem s) (hm_data s) a cs bs"
proof
  have f: "hm_mem s' l = hm_mem s l" if "rec_at l = Some d" "d \<in> set (a # cs)" for l d
    using assms that unfolding same_on_def by blast
  have g: "hm_data s' d = hm_data s d" if "d \<in> set (a # cs)" for d
    using assms that unfolding same_on_def by blast
  show "chain_bytes (hm_mem s') (hm_data s') a cs bs" if "chain_bytes (hm_mem s) (hm_data s) a cs bs"
    using that by (rule block_bytes_cong) (auto simp: f g)
  show "chain_bytes (hm_mem s) (hm_data s) a cs bs" if "chain_bytes (hm_mem s') (hm_data s') a cs bs"
    using that by (rule block_bytes_cong) (auto simp: f[symmetric] g[symmetric])
qed

lemma contents_inv_same:
  assumes "contents_inv s v X" "same_on (set (hm_pieces v')) s s'" "set (sh_set v') - X' \<subseteq> set (sh_set v) - X"
    "\<And>b. b \<in> set (sh_set v') - X' \<Longrightarrow> sh_chunks v' b = sh_chunks v b"
  shows "contents_inv s' v' X'"
  unfolding contents_inv_def
proof
  fix b assume b: "b \<in> set (sh_set v') - X'"
  then obtain bs where bs: "chain_bytes (hm_mem s) (hm_data s) b (sh_chunks v b) bs"
    using assms(1,3) unfolding contents_inv_def by blast
  have "set (b # sh_chunks v' b) \<subseteq> set (hm_pieces v')" using in_pieces[of b v'] b by blast
  from same_on_bytes[OF assms(2) this] bs assms(4)[OF b]
  show "\<exists>bs. chain_bytes (hm_mem s') (hm_data s') b (sh_chunks v' b) bs" by auto
qed

text \<open>A transaction that leaves the records alone.\<close>

definition links_only :: "(loc \<times> nat) list \<Rightarrow> bool" where
  "links_only us \<longleftrightarrow> (\<forall>u\<in>set us. rec_at (fst u) = None)"

lemma links_only_simps [simp]:
  "links_only []" "links_only ((l, v) # us) \<longleftrightarrow> rec_at l = None \<and> links_only us"
  "links_only (us @ vs) \<longleftrightarrow> links_only us \<and> links_only vs"
  by (auto simp: links_only_def)

lemma stored_links: "links_only us \<Longrightarrow> rec_at l \<noteq> None \<Longrightarrow> stored us l d = d"
  by (induction us l d rule: stored.induct) auto

lemma same_on_after: "pending s \<Longrightarrow> links_only us \<Longrightarrow> same_on D s (after us s)"
  unfolding same_on_def
proof (intro conjI allI impI ballI)
  fix l a assume *: "pending s" "links_only us" "rec_at l = Some a \<and> a \<in> D"
  then have "group_of l \<noteq> StatG" by (cases l) auto
  with * show "hm_mem (after us s) l = hm_mem s l" by (simp add: after_mem store_all_stored stored_links)
qed simp

section \<open>Erasing a block\<close>

definition drop_block :: "nat \<Rightarrow> shape \<Rightarrow> shape" where
  "drop_block a v = v\<lparr>sh_set := remove1 a (sh_set v), sh_get := remove1 a (sh_get v),
     sh_bucket := (\<lambda>i. remove1 a (sh_bucket v i))\<rparr>"

definition unlink_all :: "nat \<Rightarrow> mem \<Rightarrow> (loc \<times> nat) list" where
  "unlink_all a m = unlink_tails a m @
     unlink_list H_iSetHead H_iSetTail B_iSetNext B_iSetPrev a m @
     unlink_list H_iGetHead H_iGetTail B_iGetNext B_iGetPrev a m @
     unlink_bucket a m @ unlink_counts a m"

lemma drop_set: "sh_set (drop_block a v) = remove1 a (sh_set v)"
  by (simp add: drop_block_def)

lemma lists_distinct:
  "lists_inv m v \<Longrightarrow> distinct (sh_set v) \<and> distinct (sh_get v) \<and> 0 \<notin> set (sh_set v)"
  by (auto simp: lists_inv_def list_at_def dlist_def)

lemma bucket_distinct: "bucket_at m i xs \<Longrightarrow> distinct xs \<and> 0 \<notin> set xs"
  by (simp add: bucket_at_def dlist_def)

lemma length_remove1_Suc: "a \<in> set xs \<Longrightarrow> length xs = Suc (length (remove1 a xs))"
  using length_pos_if_in_set[of a xs] by (simp add: length_remove1)

lemma unlink_lists:
  assumes "lists_inv m v" "a \<in> set (sh_set v)"
  shows "lists_inv (store_all (unlink_all a m) m) (drop_block a v)"
    "unlink_asserts H_iSetHead H_iSetTail B_iSetNext B_iSetPrev a m"
    "unlink_asserts H_iGetHead H_iGetTail B_iGetNext B_iGetPrev a m"
proof -
  have l: "set_list m (sh_set v)" "get_list m (sh_get v)" "a \<in> set (sh_get v)" "set (sh_get v) = set (sh_set v)"
    using assms by (auto simp: lists_inv_def)
  note s = set_fields.unlink_ok[OF l(1) assms(2)] and g = get_fields.unlink_ok[OF l(2,3)]
  have "set_list (store_all (unlink_all a m) m) (remove1 a (sh_set v))"
    using s(1) by (rule list_at_cong) (simp_all add: unlink_all_def store_all_stored)
  moreover have "get_list (store_all (unlink_all a m) m) (remove1 a (sh_get v))"
    using g(1) by (rule list_at_cong) (simp_all add: unlink_all_def store_all_stored)
  ultimately show "lists_inv (store_all (unlink_all a m) m) (drop_block a v)"
    using l(4) lists_distinct[OF assms(1)] by (simp add: lists_inv_def drop_block_def)
  show "unlink_asserts H_iSetHead H_iSetTail B_iSetNext B_iSetPrev a m"
    "unlink_asserts H_iGetHead H_iGetTail B_iGetNext B_iGetPrev a m" using s(2) g(2) .
qed

lemma stored_list_count:
  "stored (unlink_bucket a m) (I_iListCount i) d =
     (if i = m (B_iIndex a) then dec32 (m (I_iListCount i)) else d)"
  by (auto simp: unlink_bucket_def)

lemma unlink_buckets:
  assumes inv: "buckets_inv m n v" and a: "a \<in> set (sh_set v)" and d: "distinct (sh_set v)"
  shows "buckets_inv (store_all (unlink_all a m) m) n (drop_block a v)"
    "m (B_iBlockPrev a) = 0 \<longrightarrow> m (I_iBlockAddr (m (B_iIndex a))) = a" "m (B_iIndex a) < n"
proof -
  let ?m = "store_all (unlink_all a m) m" and ?i = "m (B_iIndex a)"
  have i: "?i < n" "a \<in> set (sh_bucket v ?i)" using inv a by (auto simp: buckets_inv_def)
  have b: "bucket_at m j (sh_bucket v j)" "m (I_iListCount j) = length (sh_bucket v j) mod 2 ^ 32"
    "\<And>x. x \<in> set (sh_bucket v j) \<Longrightarrow> x \<in> set (sh_set v) \<and> m (B_iIndex x) = j" if "j < n" for j
    using inv that by (auto simp: buckets_inv_def)
  have idx: "?m (B_iIndex x) = m (B_iIndex x)" for x by (simp add: unlink_all_def store_all_stored)
  have part: "?m l = store_all (unlink_bucket a m) m l" if "group_of l \<in> {BucketG, ListG}" for l
    using that by (auto simp: unlink_all_def store_all_stored)
  have here: "bucket_at ?m j (remove1 a (sh_bucket v j)) \<and>
      ?m (I_iListCount j) = length (remove1 a (sh_bucket v j)) mod 2 ^ 32" if j: "j < n" for j
  proof (cases "j = ?i")
    case True
    have "bucket_at (store_all (unlink_bucket a m) m) ?i (remove1 a (sh_bucket v ?i))"
      using bucket_unlink(1)[OF b(1)[OF i(1)] i(2)] .
    then have "bucket_at ?m ?i (remove1 a (sh_bucket v ?i))"
      by (rule bucket_at_cong) (simp_all add: part)
    moreover have "?m (I_iListCount ?i) = dec32 (m (I_iListCount ?i))"
      using part[of "I_iListCount ?i"] by (simp add: store_all_stored stored_list_count)
    then have "?m (I_iListCount ?i) = length (remove1 a (sh_bucket v ?i)) mod 2 ^ 32"
      unfolding b(2)[OF i(1)] length_remove1_Suc[OF i(2)] dec32_mod .
    ultimately show ?thesis using True by simp
  next
    case False
    have a': "a \<notin> set (sh_bucket v j)" using b(3)[OF j, of a] False by auto
    have "set (sh_bucket v ?i) \<inter> set (sh_bucket v j) = {}"
    proof (rule ccontr)
      assume "set (sh_bucket v ?i) \<inter> set (sh_bucket v j) \<noteq> {}"
      then obtain x where "x \<in> set (sh_bucket v ?i)" "x \<in> set (sh_bucket v j)" by blast
      with b(3)[OF i(1), of x] b(3)[OF j, of x] False show False by simp
    qed
    then have "bucket_at (store_all (unlink_bucket a m) m) j (sh_bucket v j)"
      by (rule bucket_unlink_other[OF b(1)[OF i(1)] i(2) b(1)[OF j] _ False])
    then have "bucket_at ?m j (sh_bucket v j)"
      by (rule bucket_at_cong) (simp_all add: part)
    moreover have "?m (I_iListCount j) = length (sh_bucket v j) mod 2 ^ 32"
      using b(2)[OF j] False part[of "I_iListCount j"] by (simp add: store_all_stored stored_list_count)
    ultimately show ?thesis using a' by (simp add: remove1_idem)
  qed
  show "buckets_inv ?m n (drop_block a v)"
    unfolding buckets_inv_def idx
  proof (intro conjI allI impI ballI)
    fix j assume j: "j < n"
    from here[OF j] show "bucket_at ?m j (sh_bucket (drop_block a v) j)"
      "?m (I_iListCount j) = length (sh_bucket (drop_block a v) j) mod 2 ^ 32" by (simp_all add: drop_block_def)
    fix x assume "x \<in> set (sh_bucket (drop_block a v) j)"
    then have "x \<in> set (sh_bucket v j)" "x \<noteq> a"
      using bucket_distinct[OF b(1)[OF j]] by (simp_all add: drop_block_def)
    with b(3)[OF j, of x] show "x \<in> set (sh_set (drop_block a v))" "m (B_iIndex x) = j" using d by (simp_all add: drop_block_def)
  next
    fix x assume "x \<in> set (sh_set (drop_block a v))"
    then have "x \<in> set (sh_set v)" "x \<noteq> a" using d by (simp_all add: drop_block_def)
    then show "m (B_iIndex x) < n" "x \<in> set (sh_bucket (drop_block a v) (m (B_iIndex x)))"
      using inv bucket_distinct[OF b(1)] by (auto simp: buckets_inv_def drop_block_def)
  qed
  show "m (B_iBlockPrev a) = 0 \<longrightarrow> m (I_iBlockAddr ?i) = a" by (rule bucket_unlink(2)[OF b(1)[OF i(1)] i(2)])
  show "?i < n" by (rule i(1))
qed

lemma filter_remove1: "distinct xs \<Longrightarrow> a \<in> set xs \<Longrightarrow>
    length (filter P xs) = (if P a then Suc (length (filter P (remove1 a xs))) else length (filter P (remove1 a xs)))"
proof (induction xs)
  case (Cons x xs)
  then show ?case by (cases "x = a") auto
qed simp

lemma unlink_counted:
  assumes inv: "counts_inv m v" and a: "a \<in> set (sh_set v)" and d: "distinct (sh_set v)"
  shows "counts_inv (store_all (unlink_all a m) m) (drop_block a v)"
proof -
  let ?m = "store_all (unlink_all a m) m"
  have c: "m H_iElementCount = length (sh_set v) mod 2 ^ 64"
    "m H_iDirtyCount = length (filter (\<lambda>a. m (B_bDirty a) \<noteq> 0) (sh_set v)) mod 2 ^ 64"
    using inv by (simp_all add: counts_inv_def)
  have dirty: "?m (B_bDirty x) = m (B_bDirty x)" for x
    by (auto simp: unlink_all_def store_all_stored unlink_counts_def)
  have "?m H_iElementCount = dec64 (m H_iElementCount)"
    by (auto simp: unlink_all_def store_all_stored unlink_counts_def)
  also have "\<dots> = length (sh_set (drop_block a v)) mod 2 ^ 64"
    unfolding c(1) length_remove1_Suc[OF a] dec64_mod by (simp add: drop_block_def)
  finally have e: "?m H_iElementCount = length (sh_set (drop_block a v)) mod 2 ^ 64" .
  have "?m H_iDirtyCount = (if m (B_bDirty a) \<noteq> 0 then dec64 (m H_iDirtyCount) else m H_iDirtyCount)"
    by (auto simp: unlink_all_def store_all_stored unlink_counts_def)
  also have "\<dots> = length (filter (\<lambda>a. m (B_bDirty a) \<noteq> 0) (sh_set (drop_block a v))) mod 2 ^ 64"
    unfolding c(2) filter_remove1[OF d a] drop_set
    by (cases "m (B_bDirty a) \<noteq> 0") (simp_all only: if_True if_False dec64_mod simp_thms)
  finally show ?thesis using e by (simp add: counts_inv_def dirty)
qed

lemma unlink_tailed:
  assumes "tails_inv m v" "lists_inv m v" "a \<in> set (sh_set v)"
  shows "tails_inv (store_all (unlink_all a m) m) (drop_block a v)"
proof -
  have l: "dlist (\<lambda>a. m (B_iSetNext a)) (\<lambda>a. m (B_iSetPrev a)) (m H_iSetHead) (m H_iSetTail) (sh_set v)"
    "dlist (\<lambda>a. m (B_iGetNext a)) (\<lambda>a. m (B_iGetPrev a)) (m H_iGetHead) (m H_iGetTail) (sh_get v)"
    "set (sh_get v) = set (sh_set v)" using assms(2) by (auto simp: lists_inv_def list_at_def)
  have s: "m (B_iSetPrev a) \<in> insert 0 (set (sh_set v))" "m (B_iSetPrev a) \<noteq> a"
    "m (B_iGetPrev a) \<in> insert 0 (set (sh_set v))" "m (B_iGetPrev a) \<noteq> a"
    using dlist_neighbours(3,5)[OF l(1)] dlist_neighbours(3,5)[OF l(2)] assms(3) l(3) by simp_all
  have d: "set (sh_set (drop_block a v)) = set (sh_set v) - {a}"
    using lists_distinct[OF assms(2)] by (simp add: drop_block_def)
  show ?thesis
    using assms(1) s by (auto simp: tails_inv_def d unlink_all_def store_all_stored unlink_tails_def)
qed

lemma unlink_inv:
  assumes inv: "mem_inv m n v" and a: "a \<in> set (sh_set v)"
  shows "mem_inv (store_all (unlink_all a m) m) n (drop_block a v)"
proof -
  have i: "lists_inv m v" "buckets_inv m n v" "chains_inv m v" "counts_inv m v" "tails_inv m v"
    using inv by (simp_all add: mem_inv_def)
  have d: "distinct (sh_set v)" using lists_distinct[OF i(1)] by simp
  have "chains_inv (store_all (unlink_all a m) m) v"
    using i(3) by (rule chains_inv_cong) (auto simp: unlink_all_def store_all_stored)
  then have "chains_inv (store_all (unlink_all a m) m) (drop_block a v)"
    using d by (simp add: chains_inv_def drop_block_def)
  with unlink_lists(1)[OF i(1) a] unlink_buckets(1)[OF i(2) a d] unlink_counted[OF i(4) a d]
    unlink_tailed[OF i(5,1) a] show ?thesis by (simp add: mem_inv_def)
qed

text \<open>The memory of the block is given back.\<close>

lemma pieces_drop:
  assumes "a \<in> set (sh_set v)" "distinct (hm_pieces v @ ex)"
  shows "distinct (hm_pieces (drop_block a v) @ a # sh_chunks v a @ ex)"
    "set (hm_pieces (drop_block a v) @ a # sh_chunks v a @ ex) = set (hm_pieces v @ ex)"
    "length (hm_pieces (drop_block a v) @ a # sh_chunks v a @ ex) = length (hm_pieces v @ ex)"
proof -
  from assms(1) obtain xs ys where x: "sh_set v = xs @ a # ys" "a \<notin> set xs" by (meson split_list_first)
  then have r: "remove1 a (sh_set v) = xs @ ys" by (simp add: remove1_append)
  let ?f = "\<lambda>b. b # sh_chunks v b"
  have p: "hm_pieces v = concat (List.map ?f xs) @ (a # sh_chunks v a) @ concat (List.map ?f ys)"
    "hm_pieces (drop_block a v) = concat (List.map ?f xs) @ concat (List.map ?f ys)"
    using x(1) r by (simp_all add: hm_pieces_def drop_block_def)
  show "distinct (hm_pieces (drop_block a v) @ a # sh_chunks v a @ ex)"
    using assms(2) unfolding p by auto
  show "set (hm_pieces (drop_block a v) @ a # sh_chunks v a @ ex) = set (hm_pieces v @ ex)"
    "length (hm_pieces (drop_block a v) @ a # sh_chunks v a @ ex) = length (hm_pieces v @ ex)"
    unfolding p by auto
qed

lemma dealloc_one:
  assumes "core_inv s v (p # ex)"
  shows "\<exists>s'. deallocateMemBlock p s = Inr s' \<and> core_inv s' v ex \<and>
    (\<exists>m u. s' = s\<lparr>hm_alloc := m, hm_iUsedChunk := u\<rparr> \<and> multi_same (hm_alloc s) m)"
proof -
  have c: "pool_ok (hm_alloc s)" "distinct (hm_pieces v @ p # ex)" "set (hm_pieces v @ p # ex) = pool_live (hm_alloc s)"
    "hm_iUsedChunk s = length (hm_pieces v @ p # ex) mod 2 ^ 64" using assms by (simp_all add: core_inv_def)
  then have "p \<in> pool_live (hm_alloc s)" by auto
  with pool.release_live[OF c(1)] obtain m where m: "multi_deallocate p (hm_alloc s) = Inr m" "pool_ok m"
    "pool_live m = pool_live (hm_alloc s) - {p}" "multi_same (hm_alloc s) m" by blast
  have "dec64 (hm_iUsedChunk s) = length (hm_pieces v @ ex) mod 2 ^ 64"
    unfolding c(4) by (simp only: length_append list.size add_Suc_right dec64_mod add_0_right)
  with c m assms show ?thesis by (auto simp: deallocateMemBlock_def core_inv_def)
qed

lemma dealloc_all:
  "core_inv s v (ps @ ex) \<Longrightarrow>
   \<exists>s'. deallocateMemBlocks ps s = Inr s' \<and> core_inv s' v ex \<and>
     (\<exists>m u. s' = s\<lparr>hm_alloc := m, hm_iUsedChunk := u\<rparr> \<and> multi_same (hm_alloc s) m)"
proof (induction ps arbitrary: s)
  case Nil
  then show ?case by (auto intro!: exI[of _ "hm_alloc s"] exI[of _ "hm_iUsedChunk s"])
next
  case (Cons p ps)
  then obtain s1 m u where s1: "deallocateMemBlock p s = Inr s1" "core_inv s1 v (ps @ ex)"
    "s1 = s\<lparr>hm_alloc := m, hm_iUsedChunk := u\<rparr>" "multi_same (hm_alloc s) m" using dealloc_one[of s v p "ps @ ex"] by auto
  from Cons.IH[OF s1(2)] obtain s' m' u' where "deallocateMemBlocks ps s1 = Inr s'" "core_inv s' v ex"
    "s' = s1\<lparr>hm_alloc := m', hm_iUsedChunk := u'\<rparr>" "multi_same (hm_alloc s1) m'" by auto
  with s1 multi_same_trans[of "hm_alloc s" m m'] show ?case by auto
qed

lemma chunks_from_ok:
  "tail_at (hm_mem s) c cs \<Longrightarrow> \<forall>d\<in>set (c # cs). hm_live s d \<Longrightarrow> length cs < fuel \<Longrightarrow> chunks_from fuel c s = Inr (c # cs)"
proof (induction fuel arbitrary: c cs)
  case (Suc fuel)
  then show ?case by (cases cs) auto
qed simp

lemma perm_core:
  "core_inv s v ex \<Longrightarrow> distinct ex' \<Longrightarrow> set ex' = set ex \<Longrightarrow> core_inv s v ex'"
  unfolding core_inv_def by (auto simp: distinct_card[symmetric])

lemma same_conf_dealloc: "multi_same (hm_alloc s) m \<Longrightarrow> same_conf s (s\<lparr>hm_alloc := m, hm_iUsedChunk := u\<rparr>)"
  by (simp add: same_conf_def)

lemma dealloc_chunks:
  assumes "core_inv s v (c # cs @ ex)" "tail_at (hm_mem s) c cs"
  shows "\<exists>s'. deallocate_chunks c s = Inr s' \<and> core_inv s' v ex \<and>
    (\<exists>m u. s' = s\<lparr>hm_alloc := m, hm_iUsedChunk := u\<rparr> \<and> multi_same (hm_alloc s) m)"
proof -
  have live: "\<forall>d\<in>set (c # cs). hm_live s d" using live_iff[OF assms(1)] by auto
  have "length cs < loop_limit s" using pieces_bound[OF assms(1)] by simp
  from chunks_from_ok[OF assms(2) live this] dealloc_all[of s v "c # cs" ex] assms(1)
  show ?thesis by (simp add: deallocate_chunks_def)
qed

lemma dealloc_block:
  assumes "core_inv s v (a # cs @ ex)" "chain_at (hm_mem s) a cs"
  shows "\<exists>s'. hm_deallocate_block a s = Inr s' \<and> core_inv s' v ex \<and>
    (\<exists>m u. s' = s\<lparr>hm_alloc := m, hm_iUsedChunk := u\<rparr> \<and> multi_same (hm_alloc s) m)"
proof -
  have live: "hm_live s a" using live_iff[OF assms(1)] by simp
  have d: "distinct (a # cs @ ex)" using assms(1) by (auto simp: core_inv_def)
  show ?thesis
  proof (cases cs)
    case Nil
    with dealloc_all[of s v "[a]" ex] assms live show ?thesis by (simp add: hm_deallocate_block_def)
  next
    case (Cons c ds)
    have "core_inv s v (c # ds @ a # ex)"
      by (rule perm_core[OF assms(1)]) (use d Cons in auto)
    from dealloc_chunks[OF this] assms(2) Cons obtain s1 m u where s1: "deallocate_chunks c s = Inr s1"
      "core_inv s1 v (a # ex)" "s1 = s\<lparr>hm_alloc := m, hm_iUsedChunk := u\<rparr>" "multi_same (hm_alloc s) m" by auto
    from dealloc_all[of s1 v "[a]" ex] s1(2) obtain s' m' u' where "deallocateMemBlocks [a] s1 = Inr s'" "core_inv s' v ex"
      "s' = s1\<lparr>hm_alloc := m', hm_iUsedChunk := u'\<rparr>" "multi_same (hm_alloc s1) m'" by auto
    with s1 assms(2) Cons live multi_same_trans[of "hm_alloc s" m m'] show ?thesis by (auto simp: hm_deallocate_block_def)
  qed
qed

lemma unlink_all_length: "length (unlink_all a m) \<le> 16"
proof -
  have "length (unlink_tails a m) \<le> 3" by (simp add: unlink_tails_def)
  moreover have "length (unlink_list h t nx pv a m) \<le> 2" for h t nx pv by (simp add: unlink_list_def Let_def)
  moreover have "length (unlink_bucket a m) \<le> 4" by (simp add: unlink_bucket_def)
  moreover have "length (unlink_counts a m) \<le> 3" by (simp add: unlink_counts_def)
  ultimately have "length (unlink_tails a m) + (length (unlink_list H_iSetHead H_iSetTail B_iSetNext B_iSetPrev a m) +
      (length (unlink_list H_iGetHead H_iGetTail B_iGetNext B_iGetPrev a m) +
      (length (unlink_bucket a m) + length (unlink_counts a m)))) \<le> 3 + (2 + (2 + (4 + 3)))"
    by (intro add_mono)
  then show ?thesis unfolding unlink_all_def length_append by simp
qed

text \<open>\<open>erase\<close> succeeds on every block of a well-formed map, and nothing else is lost.\<close>

lemma erase_ok:
  assumes inv: "hm_inv s v ex X" and p: "pending s" and a: "a \<in> set (sh_set v)"
  shows "\<exists>s'. block_erase a s = Inr s' \<and> hm_inv s' (drop_block a v) ex X \<and> pending s' \<and>
    same_on UNIV s s' \<and> same_conf s s'"
proof -
  let ?m = "hm_mem s" and ?us = "unlink_all a (hm_mem s)"
  have m: "mem_inv ?m (hash_count s) v" and c: "core_inv s v ex" using inv by (simp_all add: hm_inv_def)
  have i: "lists_inv ?m v" "buckets_inv ?m (hash_count s) v" "chains_inv ?m v" using m by (simp_all add: mem_inv_def)
  have d: "distinct (sh_set v)" using lists_distinct[OF i(1)] by simp
  note asserts = unlink_lists(2,3)[OF i(1) a] unlink_buckets(2,3)[OF i(2) a d]
  have live: "hm_live s b" if "b \<in> set (sh_set v)" for b using inv_live[OF inv that] by simp
  have l: "dlist (\<lambda>a. ?m (B_iSetNext a)) (\<lambda>a. ?m (B_iSetPrev a)) (?m H_iSetHead) (?m H_iSetTail) (sh_set v)"
    "dlist (\<lambda>a. ?m (B_iGetNext a)) (\<lambda>a. ?m (B_iGetPrev a)) (?m H_iGetHead) (?m H_iGetTail) (sh_get v)"
    "set (sh_get v) = set (sh_set v)" using i(1) by (auto simp: lists_inv_def list_at_def)
  have bu: "a \<in> set (sh_bucket v (?m (B_iIndex a)))" "set (sh_bucket v (?m (B_iIndex a))) \<subseteq> set (sh_set v)"
    "dlist (\<lambda>a. ?m (B_iBlockNext a)) (\<lambda>a. ?m (B_iBlockPrev a)) (?m (I_iBlockAddr (?m (B_iIndex a))))
       (last0 0 (sh_bucket v (?m (B_iIndex a)))) (sh_bucket v (?m (B_iIndex a)))"
    using i(2) a by (auto simp: buckets_inv_def bucket_at_def)
  have ag: "a \<in> set (sh_get v)" using a l(3) by simp
  have ok: "loc_ok s k" if "(k, w) \<in> set ?us" for k w
  proof -
    from that have "k \<in> fst ` set ?us" by force
    then consider "k \<in> fst ` set (unlink_tails a ?m) \<union> fst ` set (unlink_counts a ?m)"
      | "k \<in> fst ` set (unlink_list H_iSetHead H_iSetTail B_iSetNext B_iSetPrev a ?m)"
      | "k \<in> fst ` set (unlink_list H_iGetHead H_iGetTail B_iGetNext B_iGetPrev a ?m)"
      | "k \<in> fst ` set (unlink_bucket a ?m)" unfolding unlink_all_def set_append image_Un by blast
    then show ?thesis
    proof cases
      case 1
      then show ?thesis by (auto simp: unlink_tails_def unlink_counts_def split: if_splits)
    next
      case 2
      with set_fields.unlink_locs[OF _ a] i(1) live show ?thesis by (fastforce simp: lists_inv_def)
    next
      case 3
      with get_fields.unlink_locs[OF _ ag] i(1) live show ?thesis by (fastforce simp: lists_inv_def)
    next
      case 4
      with bucket_locs[OF bu(3)[folded bucket_at_def] bu(1)] bu(2) live asserts(4) show ?thesis by fastforce
    qed
  qed
  have len: "length ?us \<le> 16" by (rule unlink_all_length)
  let ?s = "after ?us s"
  have t: "bindE (hm_updates ?us s) (hm_doUpdate True) = Inr ?s" by (rule pending_txn[OF p len ok])
  have m1: "mem_inv (hm_mem ?s) (hash_count ?s) (drop_block a v)"
    using mem_inv_after[OF p unlink_inv[OF m a]] by simp
  have links: "links_only ?us"
    by (simp add: unlink_all_def unlink_tails_def unlink_list_def unlink_bucket_def unlink_counts_def Let_def)
  have dis: "distinct (hm_pieces v @ ex)" using c by (simp add: core_inv_def)
  note pd = pieces_drop[OF a dis]
  have "core_inv ?s (drop_block a v) (a # sh_chunks v a @ ex)"
    using c pd(1) by (simp only: core_inv_def pd(2,3) after_fields)
  moreover have "chain_at (hm_mem ?s) a (sh_chunks v a)"
  proof (rule chain_at_cong)
    show "chain_at ?m a (sh_chunks v a)" using i(3) a by (simp add: chains_inv_def)
  qed (use same_on_after[OF p links, of UNIV] in \<open>simp_all add: same_on_def\<close>)
  ultimately obtain s' m' u where s': "hm_deallocate_block a ?s = Inr s'" "core_inv s' (drop_block a v) ex"
    "s' = ?s\<lparr>hm_alloc := m', hm_iUsedChunk := u\<rparr>" "multi_same (hm_alloc ?s) m'"
    using dealloc_block by blast
  have so: "same_on UNIV s s'" using same_on_after[OF p links, of UNIV] s'(3) by (simp add: same_on_def)
  have ct: "contents_inv s v X" using inv by (simp add: hm_inv_def)
  have "contents_inv s' (drop_block a v) X"
    by (rule contents_inv_same[OF ct same_on_mono[OF so subset_UNIV]])
      (use set_remove1_subset[of a "sh_set v"] in \<open>auto simp: drop_block_def\<close>)
  moreover have "mem_inv (hm_mem s') (hash_count s') (drop_block a v)" using m1 s'(3) by simp
  moreover have "block_erase a s = Inr s'"
    unfolding block_erase_def using live[OF a] asserts t s'(1)
    by (simp add: unlink_all_def[symmetric] del: bindE_Inr_iff)
  moreover have "same_conf s s'"
    using same_conf_trans[OF same_conf_after same_conf_dealloc[OF s'(4)]] s'(3) by simp
  ultimately show ?thesis using so s'(2,3) by (auto simp: hm_inv_def pending_def)
qed

end
