(* ===== verification/Hm_New.thy ===== *)
theory Hm_New
  imports Hm_Steps
begin

text \<open>
  A new block, the refreshed lists and the dirty flag keep the invariant of \<open>TC_HashMap\<close>.
\<close>

section \<open>A new block\<close>

definition add_block :: "nat \<Rightarrow> nat \<Rightarrow> shape \<Rightarrow> shape" where
  "add_block i p v = v\<lparr>sh_set := p # sh_set v, sh_get := p # sh_get v,
     sh_bucket := (sh_bucket v)(i := p # sh_bucket v i), sh_chunks := (sh_chunks v)(p := [])\<rparr>"

lemma add_block_simps [simp]:
  "sh_set (add_block i p v) = p # sh_set v" "sh_get (add_block i p v) = p # sh_get v"
  "sh_bucket (add_block i p v) j = (if j = i then p # sh_bucket v i else sh_bucket v j)"
  "sh_chunks (add_block i p v) a = (if a = p then [] else sh_chunks v a)"
  by (simp_all add: add_block_def)

definition at_new :: "nat \<Rightarrow> nat \<Rightarrow> nat \<Rightarrow> mem \<Rightarrow> mem" where
  "at_new i b p m = store_all (new_fields i b p) m"

lemma at_new_here [simp]:
  "at_new i b p m (B_iSize p) = b mod 2 ^ 32" "at_new i b p m (B_iIndex p) = i mod 2 ^ 32"
  "at_new i b p m (B_iSetNext p) = 0" "at_new i b p m (B_iSetPrev p) = 0"
  "at_new i b p m (B_iGetNext p) = 0" "at_new i b p m (B_iGetPrev p) = 0"
  "at_new i b p m (B_iSyncTime p) = 0" "at_new i b p m (B_iBlockNext p) = 0" "at_new i b p m (B_iBlockPrev p) = 0"
  "at_new i b p m (B_bNextChunk p) = 0" "at_new i b p m (B_iNextChunk p) = 0"
  "at_new i b p m (B_bDirty p) = 1" "at_new i b p m (B_bOnlyKey p) = 0"
  by (simp_all add: at_new_def new_fields_def)

lemma at_new_other:
  "l \<notin> {B_iSize p, B_iIndex p, B_iSetNext p, B_iSetPrev p, B_iGetNext p, B_iGetPrev p, B_iSyncTime p,
     B_iBlockNext p, B_iBlockPrev p, B_bNextChunk p, B_iNextChunk p, B_bDirty p, B_bOnlyKey p} \<Longrightarrow>
   at_new i b p m l = m l"
  unfolding at_new_def by (rule store_all_other) (auto simp: new_fields_def)

lemma at_new_inv:
  assumes "mem_inv m n v" "p \<notin> set (sh_set v)"
  shows "mem_inv (at_new i b p m) n v"
proof -
  let ?m = "at_new i b p m"
  have i: "lists_inv m v" "buckets_inv m n v" "chains_inv m v" "counts_inv m v" "tails_inv m v"
    using assms(1) by (simp_all add: mem_inv_def)
  have o: "?m (f a) = m (f a)" if "a \<in> set (sh_set v)"
    "f \<in> {B_iSize, B_iIndex, B_iSetNext, B_iSetPrev, B_iGetNext, B_iGetPrev, B_iBlockNext, B_iBlockPrev,
      B_bNextChunk, B_iNextChunk, B_bDirty}" for f a
    using that assms(2) by (intro at_new_other) auto
  have c: "?m (C_iSize a) = m (C_iSize a)" "?m (C_bNextChunk a) = m (C_bNextChunk a)"
    "?m (C_iNextChunk a) = m (C_iNextChunk a)" "?m (I_iBlockAddr j) = m (I_iBlockAddr j)"
    "?m (I_iListCount j) = m (I_iListCount j)" for a j
    by (rule at_new_other; simp)+
  have h: "?m H_iSetHead = m H_iSetHead" "?m H_iSetTail = m H_iSetTail" "?m H_iGetHead = m H_iGetHead"
    "?m H_iGetTail = m H_iGetTail" "?m H_iElementCount = m H_iElementCount" "?m H_iDirtyCount = m H_iDirtyCount"
    "?m H_iDirtyTail = m H_iDirtyTail" "?m H_iSyncTail = m H_iSyncTail" "?m H_iBackupTail = m H_iBackupTail"
    by (rule at_new_other; simp)+
  have "lists_inv ?m v"
    using i(1) unfolding lists_inv_def by (auto intro!: list_at_cong[of _ _ _ _ m _ ?m] simp: h o)
  moreover have "buckets_inv ?m n v"
  proof -
    have "bucket_at ?m j (sh_bucket v j)" if "j < n" for j
    proof -
      have "bucket_at m j (sh_bucket v j)" "set (sh_bucket v j) \<subseteq> set (sh_set v)"
        using i(2) that by (auto simp: buckets_inv_def)
      then show ?thesis by (intro bucket_at_cong[of m _ _ ?m]) (auto simp: c o subset_iff)
    qed
    then show ?thesis using i(2) by (auto simp: buckets_inv_def c o)
  qed
  moreover have "chains_inv ?m v"
    using i(3) unfolding chains_inv_def sizes_at_def
    by (auto intro!: chain_at_cong[of m _ _ ?m] simp: c o)
  moreover have "counts_inv ?m v"
  proof -
    have "filter (\<lambda>a. ?m (B_bDirty a) \<noteq> 0) (sh_set v) = filter (\<lambda>a. m (B_bDirty a) \<noteq> 0) (sh_set v)"
      by (rule filter_cong) (simp_all add: o)
    with i(4) show ?thesis by (simp add: counts_inv_def h)
  qed
  moreover have "tails_inv ?m v" using i(5) by (simp add: tails_inv_def h)
  ultimately show ?thesis by (simp add: mem_inv_def)
qed

definition add_all :: "nat \<Rightarrow> nat \<Rightarrow> mem \<Rightarrow> (loc \<times> nat) list" where
  "add_all i p m =
     [(H_iDirtyCount, inc64 (m H_iDirtyCount)), (H_iElementCount, inc64 (m H_iElementCount)),
      (I_iListCount i, inc32 (m (I_iListCount i)))] @
     push_bucket i p m @
     push_list H_iSetHead H_iSetTail B_iSetNext B_iSetPrev p m @
     push_list H_iGetHead H_iGetTail B_iGetNext B_iGetPrev p m"

lemma add_inv:
  assumes inv: "mem_inv m n v" and p: "p \<notin> set (sh_set v)" "p \<noteq> 0" and i: "i < n" "n \<le> 2 ^ 32"
    and b: "block_head_size \<le> b" "b < 2 ^ 32"
  shows "mem_inv (store_all (add_all i p (at_new i b p m)) (at_new i b p m)) n (add_block i p v)"
proof -
  let ?w = "at_new i b p m"
  let ?m = "store_all (add_all i p ?w) ?w"
  have w: "lists_inv ?w v" "buckets_inv ?w n v" "chains_inv ?w v" "counts_inv ?w v" "tails_inv ?w v"
    using at_new_inv[OF inv p(1)] by (simp_all add: mem_inv_def)
  have l: "set_list ?w (sh_set v)" "get_list ?w (sh_get v)" "set (sh_get v) = set (sh_set v)"
    using w(1) by (simp_all add: lists_inv_def)
  have idx: "?m (B_iIndex x) = ?w (B_iIndex x)" "?m (B_bDirty x) = ?w (B_bDirty x)" for x
    by (simp_all add: add_all_def store_all_stored)
  have pi: "?w (B_iIndex p) = i" using i by simp
  have "set_list ?m (p # sh_set v)"
    by (rule list_at_cong[OF set_fields.push_ok[OF l(1) p]]) (simp_all add: add_all_def store_all_stored)
  moreover have "get_list ?m (p # sh_get v)"
    by (rule list_at_cong[OF get_fields.push_ok[OF l(2) _ p(2)]]) (simp_all add: add_all_def store_all_stored l(3) p(1))
  ultimately have "lists_inv ?m (add_block i p v)" using l(3) by (simp add: lists_inv_def)
  moreover have "buckets_inv ?m n (add_block i p v)"
  proof -
    have bk: "bucket_at ?w j (sh_bucket v j)" "?w (I_iListCount j) = length (sh_bucket v j) mod 2 ^ 32"
      "\<And>x. x \<in> set (sh_bucket v j) \<Longrightarrow> x \<in> set (sh_set v) \<and> ?w (B_iIndex x) = j" if "j < n" for j
      using w(2) that by (auto simp: buckets_inv_def)
    have part: "?m l = store_all (push_bucket i p ?w) ?w l" if "group_of l = BucketG" for l
      using that by (cases l) (simp_all add: add_all_def store_all_stored)
    have "bucket_at ?m j (if j = i then p # sh_bucket v i else sh_bucket v j)" if j: "j < n" for j
    proof (cases "j = i")
      case True
      have "p \<notin> set (sh_bucket v i)" using bk(3)[OF i(1), of p] p(1) by blast
      then have "bucket_at (store_all (push_bucket i p ?w) ?w) i (p # sh_bucket v i)"
        by (rule bucket_push[OF bk(1)[OF i(1)] _ p(2)])
      then have "bucket_at ?m i (p # sh_bucket v i)" by (rule bucket_at_cong) (simp_all add: part)
      with True show ?thesis by simp
    next
      case False
      have dis: "set (sh_bucket v i) \<inter> set (sh_bucket v j) = {}"
      proof (rule ccontr)
        assume "set (sh_bucket v i) \<inter> set (sh_bucket v j) \<noteq> {}"
        then obtain x where "x \<in> set (sh_bucket v i)" "x \<in> set (sh_bucket v j)" by blast
        with bk(3)[OF i(1), of x] bk(3)[OF j, of x] False show False by simp
      qed
      have "p \<notin> set (sh_bucket v j)" using bk(3)[OF j, of p] p(1) by blast
      then have "bucket_at (store_all (push_bucket i p ?w) ?w) j (sh_bucket v j)"
        by (rule bucket_push_other[OF bk(1)[OF i(1)] bk(1)[OF j] dis]) (use False in simp)
      then have "bucket_at ?m j (sh_bucket v j)" by (rule bucket_at_cong) (simp_all add: part)
      with False show ?thesis by simp
    qed
    moreover have "?m (I_iListCount j) = length (if j = i then p # sh_bucket v i else sh_bucket v j) mod 2 ^ 32"
      if j: "j < n" for j
    proof (cases "j = i")
      case True
      have "?m (I_iListCount i) = inc32 (?w (I_iListCount i))" by (simp add: add_all_def store_all_stored)
      also have "\<dots> = length (p # sh_bucket v i) mod 2 ^ 32" unfolding bk(2)[OF i(1)] inc32_mod by simp
      finally show ?thesis using True by simp
    next
      case False
      then show ?thesis using bk(2)[OF j] by (simp add: add_all_def store_all_stored)
    qed
    moreover have "x \<in> set (p # sh_set v) \<and> ?m (B_iIndex x) = j"
      if "j < n" "x \<in> set (if j = i then p # sh_bucket v i else sh_bucket v j)" for j x
      using that bk(3)[of j x] pi by (auto simp: idx split: if_splits)
    moreover have "?m (B_iIndex x) < n \<and>
        x \<in> set (if ?m (B_iIndex x) = i then p # sh_bucket v i else sh_bucket v (?m (B_iIndex x)))"
      if "x \<in> set (p # sh_set v)" for x
    proof (cases "x = p")
      case True
      then show ?thesis using i(1) pi by (simp add: idx)
    next
      case False
      then have "?w (B_iIndex x) < n" "x \<in> set (sh_bucket v (?w (B_iIndex x)))"
        using that w(2) by (auto simp: buckets_inv_def)
      then show ?thesis by (cases "?w (B_iIndex x) = i") (simp_all add: idx)
    qed
    ultimately show ?thesis unfolding buckets_inv_def add_block_simps by blast
  qed
  moreover have "chains_inv ?m (add_block i p v)"
  proof -
    have "chains_inv ?m v" using w(3) by (rule chains_inv_cong) (auto simp: add_all_def store_all_stored)
    moreover have "chain_at ?m p []" "sizes_at ?m p []"
      using b by (simp_all add: sizes_at_def add_all_def store_all_stored)
    ultimately show ?thesis using p(1) by (auto simp: chains_inv_def)
  qed
  moreover have "counts_inv ?m (add_block i p v)"
  proof -
    have c: "?w H_iElementCount = length (sh_set v) mod 2 ^ 64"
      "?w H_iDirtyCount = length (filter (\<lambda>a. ?w (B_bDirty a) \<noteq> 0) (sh_set v)) mod 2 ^ 64"
      using w(4) by (simp_all add: counts_inv_def)
    have "?m H_iElementCount = inc64 (?w H_iElementCount)" by (simp add: add_all_def store_all_stored)
    also have "\<dots> = length (p # sh_set v) mod 2 ^ 64" unfolding c(1) inc64_mod by simp
    finally have e: "?m H_iElementCount = length (p # sh_set v) mod 2 ^ 64" .
    have "?m H_iDirtyCount = inc64 (?w H_iDirtyCount)" by (simp add: add_all_def store_all_stored)
    also have "\<dots> = length (filter (\<lambda>a. ?w (B_bDirty a) \<noteq> 0) (p # sh_set v)) mod 2 ^ 64"
      unfolding c(2) inc64_mod by simp
    finally show ?thesis using e unfolding counts_inv_def idx add_block_simps by blast
  qed
  moreover have "tails_inv ?m (add_block i p v)"
    using w(5) by (auto simp: tails_inv_def add_all_def store_all_stored)
  ultimately show ?thesis by (simp add: mem_inv_def)
qed

lemma pieces_add:
  assumes "p \<notin> set (sh_set v)"
  shows "hm_pieces (add_block i p v) = p # hm_pieces v"
proof -
  have "List.map (\<lambda>a. a # (if a = p then [] else sh_chunks v a)) (sh_set v) = List.map (\<lambda>a. a # sh_chunks v a) (sh_set v)"
    using assms by (intro map_cong) auto
  then show ?thesis
    unfolding hm_pieces_def add_block_simps list.map concat.simps by (simp only: if_True append_Cons append_Nil refl)
qed

lemma add_all_length: "length (add_all i p m) \<le> 16"
  by (simp add: add_all_def push_bucket_def push_list_def)

lemma makeNew_ok:
  assumes inv: "hm_inv s v (p # ex) X" and pend: "pending s" and i: "i < hash_count s" and b: "pool_size_ok b"
  shows "\<exists>s'. makeNew i b p s = Inr s' \<and> hm_inv s' (add_block i p v) ex X \<and> pending s' \<and>
    same_on (- {p}) s s' \<and> same_conf s s' \<and> hm_mem s' (B_bOnlyKey p) = 0 \<and> hm_mem s' (B_iIndex p) = i"
proof -
  let ?n = "hash_count s" and ?w = "at_new i b p (hm_mem s)"
  let ?s = "s\<lparr>hm_mem := ?w\<rparr>"
  have m: "mem_inv (hm_mem s) ?n v" and c: "core_inv s v (p # ex)" and ct: "contents_inv s v X"
    using inv by (simp_all add: hm_inv_def)
  have n: "?n \<le> 2 ^ 32" using c by (simp add: core_inv_def)
  have dis: "distinct (hm_pieces v @ p # ex)" using c by (simp add: core_inv_def)
  then have new: "p \<notin> set (hm_pieces v)" by simp
  then have p: "p \<notin> set (sh_set v)" using in_pieces[of p v] by auto
  have p0: "p \<noteq> 0" using pieces_pos[OF c, of p] by simp
  have bs: "block_head_size \<le> b" "b < 2 ^ 32" using b by (simp_all add: pool_size_ok_def min_block_def block_head_size_def)
  have live: "hm_live ?s a" if "a \<in> set (p # sh_set v)" for a
    using that live_iff[OF c, of a] in_pieces[of a v] by auto
  have w: "mem_inv ?w ?n v" by (rule at_new_inv[OF m p])
  have pw: "pending ?s" using pend by (simp add: pending_def)
  have wl: "set_list ?w (sh_set v)" "get_list ?w (sh_get v)" "set (sh_get v) = set (sh_set v)"
    using w by (simp_all add: mem_inv_def lists_inv_def)
  have wb: "bucket_at ?w i (sh_bucket v i)" "set (sh_bucket v i) \<subseteq> set (sh_set v)"
    using w i by (auto simp: mem_inv_def buckets_inv_def)
  have ok: "loc_ok ?s k" if "(k, x) \<in> set (add_all i p ?w)" for k x
  proof -
    have "k \<in> fst ` set (add_all i p ?w)" using that by force
    then consider "k \<in> {H_iDirtyCount, H_iElementCount, I_iListCount i}" | "k \<in> fst ` set (push_bucket i p ?w)"
      | "k \<in> fst ` set (push_list H_iSetHead H_iSetTail B_iSetNext B_iSetPrev p ?w)"
      | "k \<in> fst ` set (push_list H_iGetHead H_iGetTail B_iGetNext B_iGetPrev p ?w)"
      unfolding add_all_def set_append image_Un by auto
    then show ?thesis
    proof cases
      case 1
      then show ?thesis using i by auto
    next
      case 2
      from subsetD[OF push_bucket_locs[OF wb(1)] 2] have "k \<in> {I_iBlockAddr i} \<union> B_iBlockNext ` set (p # sh_set v) \<union> B_iBlockPrev ` set (p # sh_set v)"
        using wb(2) by auto
      then show ?thesis using live i by (elim UnE imageE singletonE) simp_all
    next
      case 3
      from subsetD[OF set_fields.push_locs[OF wl(1)] 3] have "k \<in> {H_iSetHead, H_iSetTail} \<union> B_iSetNext ` set (p # sh_set v) \<union> B_iSetPrev ` set (p # sh_set v)"
        using wl(3) by auto
      then show ?thesis using live by (elim UnE imageE insertE singletonE) simp_all
    next
      case 4
      from subsetD[OF get_fields.push_locs[OF wl(2)] 4] have "k \<in> {H_iGetHead, H_iGetTail} \<union> B_iGetNext ` set (p # sh_set v) \<union> B_iGetPrev ` set (p # sh_set v)"
        using wl(3) by auto
      then show ?thesis using live by (elim UnE imageE insertE singletonE) simp_all
    qed
  qed
  let ?s' = "after (add_all i p ?w) ?s"
  have t: "bindE (hm_updates (add_all i p ?w) ?s) (hm_doUpdate True) = Inr ?s'"
    by (rule pending_txn[OF pw add_all_length ok])
  have e: "?w H_iSetHead = 0 \<longleftrightarrow> ?w H_iSetTail = 0" "?w H_iGetHead = 0 \<longleftrightarrow> ?w H_iGetTail = 0"
    using dlist_empty[OF wl(1)[unfolded list_at_def]] dlist_empty[OF wl(2)[unfolded list_at_def]] by auto
  have "makeNew i b p s = Inr ?s'"
    unfolding makeNew_def Let_def access_simps(1)[OF live[of p, simplified]] access_simps(3)[OF i] hmap.simps
      at_new_def[symmetric] add_all_def[symmetric] using e t by (simp del: hm_updates.simps bindE_Inr_iff)
  moreover have links: "links_only (add_all i p ?w)"
    by (simp add: add_all_def push_bucket_def push_list_def)
  have so1: "same_on (- {p}) s ?s"
    unfolding same_on_def
  proof (intro conjI allI impI ballI)
    fix l a assume "rec_at l = Some a \<and> a \<in> - {p}"
    then have "?w l = hm_mem s l" by (intro at_new_other) (cases l; auto)
    then show "hm_mem ?s l = hm_mem s l" by simp
  qed simp
  have so: "same_on (- {p}) s ?s'"
    using same_on_trans[OF so1 same_on_after[OF pw links, of UNIV]] by simp
  have recs: "hm_mem ?s' (B_bOnlyKey p) = 0" "hm_mem ?s' (B_iIndex p) = i mod 2 ^ 32" "hm_mem ?s' (B_iNextChunk p) = 0"
    using same_on_after[OF pw links, of UNIV] by (simp_all add: same_on_def)
  moreover have "mem_inv (hm_mem ?s') (hash_count ?s') (add_block i p v)"
    using mem_inv_after[OF pw] add_inv[OF m p p0 i n bs] by simp
  moreover have "core_inv ?s' (add_block i p v) ex"
  proof -
    have "core_inv s v (p # ex) = core_inv s (add_block i p v) ex"
      unfolding core_inv_def pieces_add[OF p] using dis by auto
    with c show ?thesis by (simp add: core_inv_def)
  qed
  moreover have "contents_inv ?s' (add_block i p v) X"
    unfolding contents_inv_def
  proof
    fix a assume a: "a \<in> set (sh_set (add_block i p v)) - X"
    show "\<exists>bs. chain_bytes (hm_mem ?s') (hm_data ?s') a (sh_chunks (add_block i p v) a) bs"
    proof (cases "a = p")
      case True
      then show ?thesis using recs by (intro exI[of _ "[]"]) simp
    next
      case False
      then have av: "a \<in> set (sh_set v) - X" using a by simp
      then obtain bs where "chain_bytes (hm_mem s) (hm_data s) a (sh_chunks v a) bs"
        using ct unfolding contents_inv_def by blast
      moreover have "set (a # sh_chunks v a) \<subseteq> - {p}" using in_pieces[of a v] av new by auto
      ultimately show ?thesis using same_on_bytes[OF so] False by auto
    qed
  qed
  moreover have "same_conf s ?s'" by (simp add: same_conf_def)
  moreover have "i mod 2 ^ 32 = i" using i n by simp
  ultimately show ?thesis using so by (auto simp: hm_inv_def)
qed

end
