(* ===== verification/Hm_Refresh.thy ===== *)
theory Hm_Refresh
  imports Hm_New
begin

text \<open>
  \<open>refreshSetList\<close>, \<open>refreshGetList\<close> and \<open>setDirty\<close> of \<open>TC_HashMap::Block\<close> keep the invariant.
\<close>

section \<open>Transactions on the links\<close>

lemma links_txn:
  assumes inv: "hm_inv s v ex X" and p: "pending s" and us: "links_only us" "length us \<le> 16"
    "\<forall>k\<in>fst ` set us. loc_ok s k" and m: "mem_inv (store_all us (hm_mem s)) (hash_count s) v'"
    and c: "core_inv s v' ex" and v': "set (sh_set v') = set (sh_set v)" "sh_chunks v' = sh_chunks v"
  shows "bindE (hm_updates us s) (hm_doUpdate True) = Inr (after us s)" "hm_inv (after us s) v' ex X"
    "same_on UNIV s (after us s)"
proof -
  show "bindE (hm_updates us s) (hm_doUpdate True) = Inr (after us s)" 
    using p us(2) by (rule pending_txn) (use us(3) in force)
  show so: "same_on UNIV s (after us s)" using p us(1) by (rule same_on_after)
  have "contents_inv s v X" using inv by (simp add: hm_inv_def)
  then have "contents_inv (after us s) v' X"
    using same_on_mono[OF so subset_UNIV] by (rule contents_inv_same) (simp_all add: v')
  then show "hm_inv (after us s) v' ex X"
    using mem_inv_after[OF p m] c by (simp add: hm_inv_def)
qed

definition front_get :: "nat \<Rightarrow> shape \<Rightarrow> shape" where
  "front_get a v = v\<lparr>sh_get := a # remove1 a (sh_get v)\<rparr>"

definition front_set :: "nat \<Rightarrow> shape \<Rightarrow> shape" where
  "front_set a v = v\<lparr>sh_set := a # remove1 a (sh_set v)\<rparr>"

lemma front_simps [simp]:
  "sh_set (front_get a v) = sh_set v" "sh_get (front_get a v) = a # remove1 a (sh_get v)"
  "sh_bucket (front_get a v) = sh_bucket v" "sh_chunks (front_get a v) = sh_chunks v"
  "sh_set (front_set a v) = a # remove1 a (sh_set v)" "sh_get (front_set a v) = sh_get v"
  "sh_bucket (front_set a v) = sh_bucket v" "sh_chunks (front_set a v) = sh_chunks v"
  by (simp_all add: front_get_def front_set_def)

lemma set_front: "a \<in> set xs \<Longrightarrow> distinct xs \<Longrightarrow> set (a # remove1 a xs) = set xs"
  by auto

lemma front_same: "xs \<noteq> [] \<Longrightarrow> hd xs = a \<Longrightarrow> a # remove1 a xs = xs"
  by (cases xs) auto

lemma list_at_hd: "list_at h t nx pv m xs \<Longrightarrow> a \<in> set xs \<Longrightarrow> m h = a \<Longrightarrow> a # remove1 a xs = xs"
  by (rule front_same) (auto simp: list_at_def dlist_def hd0_def split: list.splits if_splits)

lemma core_front_get: "core_inv s v ex \<Longrightarrow> core_inv s (front_get a v) ex"
  by (simp add: core_inv_def hm_pieces_def)

lemma core_front_set:
  assumes "core_inv s v ex" "a \<in> set (sh_set v)"
  shows "core_inv s (front_set a v) ex"
proof -
  have d: "distinct (hm_pieces v @ ex)" using assms(1) by (simp add: core_inv_def)
  note p = pieces_drop[OF assms(2) d]
  have e: "hm_pieces (front_set a v) = (a # sh_chunks v a) @ hm_pieces (drop_block a v)"
    by (simp add: hm_pieces_def drop_block_def)
  have "distinct (hm_pieces (front_set a v) @ ex)" "set (hm_pieces (front_set a v) @ ex) = set (hm_pieces v @ ex)"
    "length (hm_pieces (front_set a v) @ ex) = length (hm_pieces v @ ex)"
    unfolding e using p by auto
  then show ?thesis using assms(1) unfolding core_inv_def by simp
qed

lemma counts_perm:
  assumes "counts_inv m v" "a \<in> set (sh_set v)" "distinct (sh_set v)"
  shows "counts_inv m (front_set a v)"
  using assms(1) filter_remove1[OF assms(3,2), of "\<lambda>a. m (B_bDirty a) \<noteq> 0"] length_remove1_Suc[OF assms(2)]
  by (auto simp: counts_inv_def)

lemma inv_shape:
  assumes "set (sh_set v') = set (sh_set v)" "sh_bucket v' = sh_bucket v" "sh_chunks v' = sh_chunks v"
  shows "buckets_inv m n v' \<longleftrightarrow> buckets_inv m n v" "chains_inv m v' \<longleftrightarrow> chains_inv m v" "tails_inv m v' \<longleftrightarrow> tails_inv m v"
  unfolding buckets_inv_def chains_inv_def tails_inv_def assms by (rule refl)+

section \<open>The get list\<close>

lemma refreshGetList_ok:
  assumes inv: "hm_inv s v ex X" and p: "pending s" and a: "a \<in> set (sh_set v)"
  shows "\<exists>s'. refreshGetList a s = Inr s' \<and> hm_inv s' (front_get a v) ex X \<and> pending s' \<and>
    same_on UNIV s s' \<and> same_conf s s'"
proof -
  let ?m = "hm_mem s"
  have m: "mem_inv ?m (hash_count s) v" and c: "core_inv s v ex" using inv by (simp_all add: hm_inv_def)
  have i: "lists_inv ?m v" "buckets_inv ?m (hash_count s) v" "chains_inv ?m v" "counts_inv ?m v" "tails_inv ?m v"
    using m by (simp_all add: mem_inv_def)
  have l: "get_list ?m (sh_get v)" "set (sh_get v) = set (sh_set v)" using i(1) by (simp_all add: lists_inv_def)
  have ag: "a \<in> set (sh_get v)" using a l(2) by simp
  have live: "hm_live s b" if "b \<in> set (sh_set v)" for b using inv_live[OF inv that] by simp
  have d: "dlist (\<lambda>a. ?m (B_iGetNext a)) (\<lambda>a. ?m (B_iGetPrev a)) (?m H_iGetHead) (?m H_iGetTail) (sh_get v)"
    using l(1) by (simp add: list_at_def)
  have ends: "?m H_iGetHead \<noteq> 0" "?m H_iGetTail \<noteq> 0" using dlist_empty[OF d] ag by auto
  show ?thesis
  proof (cases "?m H_iGetHead = a")
    case True
    then have "front_get a v = v" using list_at_hd[OF l(1) ag] by (simp add: front_get_def)
    moreover have "refreshGetList a s = Inr s" using True ends by (simp add: refreshGetList_def)
    ultimately show ?thesis using inv p by simp
  next
    case False
    let ?us = "(if ?m H_iBackupTail = a then [(H_iBackupTail, ?m (B_iGetPrev a))] else []) @
      front_list H_iGetHead H_iGetTail B_iGetNext B_iGetPrev a ?m"
    let ?w = "store_all ?us ?m"
    note f = get_fields.front_ok[OF l(1) ag False]
    have locs: "\<forall>k\<in>fst ` set ?us. loc_ok s k"
    proof
      fix k assume k: "k \<in> fst ` set ?us"
      from k consider "k = H_iBackupTail" | "k \<in> fst ` set (front_list H_iGetHead H_iGetTail B_iGetNext B_iGetPrev a ?m)"
        unfolding set_append image_Un by (auto split: if_splits)
      then show "loc_ok s k"
      proof cases
        case 2
        from subsetD[OF get_fields.front_locs[OF l(1) ag False] 2] live l(2)
        show "loc_ok s k" by (elim UnE imageE insertE singletonE) simp_all
      qed simp
    qed
    have links: "links_only ?us" by (simp add: front_list_def Let_def)
    have len: "length ?us \<le> 16" by (simp add: front_list_def Let_def)
    have gl: "get_list ?w (a # remove1 a (sh_get v))"
      using f(1) by (rule list_at_cong) (simp_all add: store_all_stored)
    have "mem_inv ?w (hash_count s) (front_get a v)"
    proof -
      have "set_list ?m (sh_set v)" using i(1) by (simp add: lists_inv_def)
      then have "set_list ?w (sh_set v)" by (rule list_at_cong) (simp_all add: store_all_stored)
      moreover have "set (a # remove1 a (sh_get v)) = set (sh_set v)"
        using set_front[OF ag] lists_distinct[OF i(1)] l(2) by simp
      ultimately have "lists_inv ?w (front_get a v)" using gl by (simp add: lists_inv_def)
      moreover have "buckets_inv ?w (hash_count s) v" using i(2) by (rule buckets_inv_cong) (auto simp: store_all_stored)
      moreover have "chains_inv ?w v" using i(3) by (rule chains_inv_cong) (auto simp: store_all_stored)
      moreover have "counts_inv ?w v" using i(4) by (rule counts_inv_cong) (auto simp: store_all_stored)
      moreover have "tails_inv ?w v"
        using i(5) dlist_neighbours(3)[OF d ag] l(2) by (auto simp: tails_inv_def store_all_stored)
      ultimately show ?thesis
        by (simp add: mem_inv_def counts_inv_def inv_shape[of "front_get a v" v])
    qed
    note t = links_txn[OF inv p links len locs this core_front_get[OF c], unfolded front_simps, OF refl refl]
    have "refreshGetList a s = Inr (after ?us s)"
      unfolding refreshGetList_def Let_def using ends False f(2,3) live[OF a] t(1)
      by (simp del: bindE_Inr_iff)
    then show ?thesis using t(2,3) by simp
  qed
qed

section \<open>The set list\<close>

definition set_tails :: "nat \<Rightarrow> mem \<Rightarrow> (loc \<times> nat) list" where
  "set_tails a m =
     (if m H_iSyncTail = a \<and> m H_iSetHead \<noteq> a then [(H_iSyncTail, m (B_iSetPrev a))] else []) @
     (if m H_iDirtyTail = a \<and> m H_iSetHead \<noteq> a then [(H_iDirtyTail, m (B_iSetPrev a))]
      else if m H_iDirtyTail = 0 then [(H_iDirtyTail, a)] else [])"

lemma set_tails_only [simp]: "only {TailG} (set_tails a m)" "links_only (set_tails a m)" "length (set_tails a m) \<le> 2"
  by (simp_all add: set_tails_def)

lemma set_tails_stored [simp]: "group_of l \<noteq> TailG \<Longrightarrow> stored (set_tails a m) l d = d"
  by (rule stored_only[OF set_tails_only(1)]) simp

lemma set_tails_locs: "k \<in> fst ` set (set_tails a m) \<Longrightarrow> loc_ok s k"
  by (auto simp: set_tails_def split: if_splits)

lemma tails_inv_stored:
  assumes "tails_inv m v" "m (B_iSetPrev a) \<in> insert 0 (set (sh_set v))" "a \<in> set (sh_set v)"
    "set (sh_set v') = set (sh_set v)"
  shows "tails_inv (store_all (set_tails a m) m) v'"
proof -
  let ?m = "store_all (set_tails a m) m"
  have "?m H_iDirtyTail \<in> {m H_iDirtyTail, m (B_iSetPrev a), a}" "?m H_iSyncTail \<in> {m H_iSyncTail, m (B_iSetPrev a)}"
    "?m H_iBackupTail = m H_iBackupTail"
    by (simp_all add: store_all_stored set_tails_def)
  moreover have "m H_iDirtyTail \<in> insert 0 (set (sh_set v))" "m H_iSyncTail \<in> insert 0 (set (sh_set v))"
    "m H_iBackupTail \<in> insert 0 (set (sh_set v))" using assms(1) by (simp_all add: tails_inv_def)
  ultimately have "?m H_iDirtyTail \<in> insert 0 (set (sh_set v))" "?m H_iSyncTail \<in> insert 0 (set (sh_set v))"
    "?m H_iBackupTail \<in> insert 0 (set (sh_set v))" using assms(2,3) by auto
  then show ?thesis by (simp add: tails_inv_def assms(4))
qed

lemma refreshSetList_ok:
  assumes inv: "hm_inv s v ex X" and p: "pending s" and a: "a \<in> set (sh_set v)"
  shows "\<exists>s'. refreshSetList a s = Inr s' \<and> hm_inv s' (front_get a (front_set a v)) ex X \<and> pending s' \<and>
    same_on UNIV s s' \<and> same_conf s s'"
proof -
  let ?m = "hm_mem s"
  have m: "mem_inv ?m (hash_count s) v" and c: "core_inv s v ex" using inv by (simp_all add: hm_inv_def)
  have i: "lists_inv ?m v" "buckets_inv ?m (hash_count s) v" "chains_inv ?m v" "counts_inv ?m v" "tails_inv ?m v"
    using m by (simp_all add: mem_inv_def)
  have l: "set_list ?m (sh_set v)" using i(1) by (simp add: lists_inv_def)
  have dis: "distinct (sh_set v)" using lists_distinct[OF i(1)] by simp
  have live: "hm_live s b" if "b \<in> set (sh_set v)" for b using inv_live[OF inv that] by simp
  have d: "dlist (\<lambda>a. ?m (B_iSetNext a)) (\<lambda>a. ?m (B_iSetPrev a)) (?m H_iSetHead) (?m H_iSetTail) (sh_set v)"
    using l by (simp add: list_at_def)
  have ends: "?m H_iSetHead \<noteq> 0" "?m H_iSetTail \<noteq> 0" using dlist_empty[OF d] a by auto
  let ?f = "if ?m H_iSetHead = a then [] else front_list H_iSetHead H_iSetTail B_iSetNext B_iSetPrev a ?m"
  let ?us = "set_tails a ?m @ ?f"
  let ?w = "store_all ?us ?m"
  have fs: "stored ?f k x = x" if "group_of k \<noteq> SetG" for k x using that by simp
  have locs: "\<forall>k\<in>fst ` set ?us. loc_ok s k"
  proof
    fix k assume k: "k \<in> fst ` set ?us"
    from k consider "k \<in> fst ` set (set_tails a ?m)" | "?m H_iSetHead \<noteq> a"
      "k \<in> fst ` set (front_list H_iSetHead H_iSetTail B_iSetNext B_iSetPrev a ?m)"
      unfolding set_append image_Un by (auto split: if_splits)
    then show "loc_ok s k"
    proof cases
      case 1
      then show "loc_ok s k" by (rule set_tails_locs)
    next
      case 2
      from subsetD[OF set_fields.front_locs[OF l a 2(1)] 2(2)] live
      show "loc_ok s k" by (elim UnE imageE insertE singletonE) simp_all
    qed
  qed
  have links: "links_only ?us" by (simp add: front_list_def Let_def)
  have len: "length ?us \<le> 16"
    using le_trans[OF set_tails_only(3)[of a ?m], of 10] le_trans[OF set_tails_only(3)[of a ?m], of 16]
    by (simp add: front_list_def Let_def)
  have sl: "set_list ?w (a # remove1 a (sh_set v))"
  proof (cases "?m H_iSetHead = a")
    case True
    have "set_list ?w (sh_set v)" using l by (rule list_at_cong) (simp_all add: store_all_stored True)
    then show ?thesis using list_at_hd[OF l a True] by simp
  next
    case False
    show ?thesis using set_fields.front_ok(1)[OF l a False] False
      by (elim list_at_cong) (simp_all add: store_all_stored)
  qed
  have "mem_inv ?w (hash_count s) (front_set a v)"
  proof -
    have "get_list ?m (sh_get v)" using i(1) by (simp add: lists_inv_def)
    then have "get_list ?w (sh_get v)" by (rule list_at_cong) (simp_all add: store_all_stored fs)
    then have "lists_inv ?w (front_set a v)"
      using sl set_front[OF a dis] i(1) by (simp add: lists_inv_def)
    moreover have "buckets_inv ?w (hash_count s) v" using i(2) by (rule buckets_inv_cong) (auto simp: store_all_stored fs)
    moreover have "chains_inv ?w v" using i(3) by (rule chains_inv_cong) (auto simp: store_all_stored fs)
    moreover have "counts_inv ?w (front_set a v)"
      using counts_perm[OF i(4) a dis] by (rule counts_inv_cong) (auto simp: store_all_stored fs)
    moreover have "tails_inv ?w (front_set a v)"
    proof -
      have "tails_inv (store_all (set_tails a ?m) ?m) (front_set a v)"
        using tails_inv_stored[OF i(5) dlist_neighbours(3)[OF d a] a] set_front[OF a dis] by simp
      then show ?thesis by (rule tails_inv_cong) (simp add: store_all_stored fs)
    qed
    ultimately show ?thesis
      unfolding mem_inv_def inv_shape(1,2)[where v = v and v' = "front_set a v", simplified front_simps, OF set_front[OF a dis] refl refl]
      by blast
  qed
  note t = links_txn[OF inv p links len locs this core_front_set[OF c a], unfolded front_simps, OF set_front[OF a dis] refl]
  have ag: "a \<in> set (sh_set (front_set a v))" by simp
  from refreshGetList_ok[OF t(2) pending_after ag] obtain s' where
    s': "refreshGetList a (after ?us s) = Inr s'" "hm_inv s' (front_get a (front_set a v)) ex X" "pending s'"
    "same_on UNIV (after ?us s) s'" "same_conf (after ?us s) s'" by blast
  have "refreshSetList a s = bindE (bindE (hm_updates ?us s) (hm_doUpdate True)) (refreshGetList a)"
  proof (cases "?m H_iSetHead = a")
    case True
    then show ?thesis
      unfolding refreshSetList_def Let_def set_tails_def[symmetric] using ends live[OF a]
      by (cases "hm_updates (set_tails a ?m) s") (simp_all del: bindE_Inr_iff)
  next
    case False
    note f = set_fields.front_ok(2,3)[OF l a False]
    show ?thesis
      unfolding refreshSetList_def Let_def set_tails_def[symmetric] using ends live[OF a] f False
      by (cases "hm_updates (set_tails a ?m) s") (simp_all add: updates_append del: bindE_Inr_iff)
  qed
  then have "refreshSetList a s = Inr s'" using t(1) s'(1) by simp
  moreover have "same_on UNIV s s'" using same_on_trans[OF t(3) s'(4)] by simp
  moreover have "same_conf s s'" using same_conf_trans[OF same_conf_after s'(5)] .
  ultimately show ?thesis using s'(2,3) by blast
qed

section \<open>The dirty flag\<close>

text \<open>What is left of the records when only dirty flags and sync times may have changed.\<close>

definition same_data :: "nat set \<Rightarrow> hmap \<Rightarrow> hmap \<Rightarrow> bool" where
  "same_data D s s' \<longleftrightarrow>
     (\<forall>l a. rec_at l = Some a \<and> a \<in> D \<and> group_of l \<in> {SizeG, ChainG, IndexG, OnlyG} \<longrightarrow> hm_mem s' l = hm_mem s l) \<and>
     (\<forall>a\<in>D. hm_data s' a = hm_data s a)"

lemma same_data_on: "same_on D s s' \<Longrightarrow> same_data D s s'"
  unfolding same_on_def same_data_def by blast

lemma same_data_refl [simp]: "same_data D s s"
  by (simp add: same_data_def)

lemma same_data_trans: "same_data D s s' \<Longrightarrow> same_data D' s' s'' \<Longrightarrow> D'' \<subseteq> D \<Longrightarrow> D'' \<subseteq> D' \<Longrightarrow> same_data D'' s s''"
  unfolding same_data_def by (metis subsetD)

lemma same_data_mono: "same_data D s s' \<Longrightarrow> D' \<subseteq> D \<Longrightarrow> same_data D' s s'"
  unfolding same_data_def by blast

lemma same_data_bytes:
  assumes "same_data D s s'" "set (a # cs) \<subseteq> D"
  shows "chain_bytes (hm_mem s') (hm_data s') a cs bs \<longleftrightarrow> chain_bytes (hm_mem s) (hm_data s) a cs bs"
proof
  have f: "hm_mem s' l = hm_mem s l" if "rec_at l = Some d" "d \<in> set (a # cs)" "group_of l \<in> {SizeG, ChainG}" for l d
    using assms that unfolding same_data_def by blast
  have g: "hm_data s' d = hm_data s d" if "d \<in> set (a # cs)" for d
    using assms that unfolding same_data_def by blast
  show "chain_bytes (hm_mem s') (hm_data s') a cs bs" if "chain_bytes (hm_mem s) (hm_data s) a cs bs"
    using that by (rule block_bytes_cong) (auto simp: f g)
  show "chain_bytes (hm_mem s) (hm_data s) a cs bs" if "chain_bytes (hm_mem s') (hm_data s') a cs bs"
    using that by (rule block_bytes_cong) (auto simp: f[symmetric] g[symmetric])
qed

lemma dirty_counted:
  assumes inv: "counts_inv m v" and a: "a \<in> set (sh_set v)" "distinct (sh_set v)"
    and m': "m' H_iElementCount = m H_iElementCount" "\<And>x. x \<noteq> a \<Longrightarrow> m' (B_bDirty x) = m (B_bDirty x)"
    and c: "m' H_iDirtyCount = (if m' (B_bDirty a) \<noteq> 0 \<and> m (B_bDirty a) = 0 then inc64 (m H_iDirtyCount)
      else if m' (B_bDirty a) = 0 \<and> m (B_bDirty a) \<noteq> 0 then dec64 (m H_iDirtyCount) else m H_iDirtyCount)"
  shows "counts_inv m' v"
proof -
  let ?P = "\<lambda>a. m (B_bDirty a) \<noteq> 0" and ?Q = "\<lambda>a. m' (B_bDirty a) \<noteq> 0"
  let ?r = "filter ?P (remove1 a (sh_set v))"
  have "x \<noteq> a" if "x \<in> set (remove1 a (sh_set v))" for x using that a(2) by auto
  then have r: "filter ?Q (remove1 a (sh_set v)) = ?r" by (intro filter_cong) (auto simp: m'(2))
  have o: "m H_iDirtyCount = length (filter ?P (sh_set v)) mod 2 ^ 64" "m' H_iElementCount = length (sh_set v) mod 2 ^ 64"
    using inv m'(1) by (simp_all add: counts_inv_def)
  have "m H_iDirtyCount = (if ?P a then Suc (length ?r) else length ?r) mod 2 ^ 64"
    unfolding o(1) filter_remove1[OF a(2,1)] by (rule refl)
  then have "m' H_iDirtyCount = (if ?Q a then Suc (length ?r) else length ?r) mod 2 ^ 64"
    unfolding c by (cases "?P a"; cases "?Q a") (simp_all only: if_True if_False simp_thms inc64_mod dec64_mod)
  then have "m' H_iDirtyCount = length (filter ?Q (sh_set v)) mod 2 ^ 64"
    unfolding filter_remove1[OF a(2,1)] r .
  with o(2) show ?thesis by (simp add: counts_inv_def)
qed

lemma mem_inv_dirty:
  assumes "mem_inv m n v" "counts_inv m' v" "\<And>l. group_of l \<notin> {StatG, TimeG, OnlyG, DirtyG} \<Longrightarrow> m' l = m l"
  shows "mem_inv m' n v"
proof -
  have i: "lists_inv m v" "buckets_inv m n v" "chains_inv m v" "tails_inv m v"
    using assms(1) by (simp_all add: mem_inv_def)
  have *: "m' l = m l" if "group_of l \<in> {SetG, GetG, BucketG, ListG, IndexG, ChainG, SizeG, TailG}" for l
    using that by (intro assms(3)) auto
  have "lists_inv m' v" by (rule lists_inv_cong[OF i(1)], rule *) auto
  moreover have "buckets_inv m' n v" by (rule buckets_inv_cong[OF i(2)], rule *) auto
  moreover have "chains_inv m' v" by (rule chains_inv_cong[OF i(3)], rule *) auto
  moreover have "tails_inv m' v" by (rule tails_inv_cong[OF i(4)], rule *) auto
  ultimately show ?thesis using assms(2) by (simp add: mem_inv_def)
qed

lemma setDirty_ok:
  assumes inv: "hm_inv s v ex X" and p: "pending s" and a: "a \<in> set (sh_set v)"
  shows "\<exists>s'. setDirty b a s = Inr s' \<and> hm_inv s' v ex X \<and> pending s' \<and> same_data UNIV s s' \<and> same_conf s s' \<and>
    isDirty a s' = b"
proof (cases "isDirty a s = b")
  case True
  then have "setDirty b a s = Inr s" using inv_live[OF inv a, of a] by (simp add: setDirty_def)
  with True inv p show ?thesis by simp
next
  case False
  let ?us = "[(H_iDirtyCount, (if b then inc64 else dec64) (hm_mem s H_iDirtyCount)), (B_bDirty a, of_bool b :: nat)]"
  have m: "mem_inv (hm_mem s) (hash_count s) v" using inv by (simp add: hm_inv_def)
  have l: "lists_inv (hm_mem s) v" "counts_inv (hm_mem s) v" using m by (simp_all add: mem_inv_def)
  have live: "hm_live s a" using inv_live[OF inv a, of a] by simp
  have t: "bindE (hm_updates ?us s) (hm_doUpdate True) = Inr (after ?us s)"
    by (rule pending_txn[OF p]) (use live in auto)
  have "counts_inv (store_all ?us (hm_mem s)) v"
  proof (rule dirty_counted[OF l(2) a])
    show "distinct (sh_set v)" using lists_distinct[OF l(1)] by simp
    show "store_all ?us (hm_mem s) H_iDirtyCount = (if store_all ?us (hm_mem s) (B_bDirty a) \<noteq> 0 \<and> hm_mem s (B_bDirty a) = 0
        then inc64 (hm_mem s H_iDirtyCount)
      else if store_all ?us (hm_mem s) (B_bDirty a) = 0 \<and> hm_mem s (B_bDirty a) \<noteq> 0 then dec64 (hm_mem s H_iDirtyCount)
      else hm_mem s H_iDirtyCount)"
      using False by (cases b) (auto simp: isDirty_def)
  qed simp_all
  then have "mem_inv (store_all ?us (hm_mem s)) (hash_count s) v"
  proof (rule mem_inv_dirty[OF m])
    show "store_all ?us (hm_mem s) l = hm_mem s l" if "group_of l \<notin> {StatG, TimeG, OnlyG, DirtyG}" for l
      using that by (cases l) simp_all
  qed
  then have "mem_inv (hm_mem (after ?us s)) (hash_count (after ?us s)) v" using mem_inv_after[OF p] by simp
  moreover have "contents_inv (after ?us s) v X"
    using inv p by (intro contents_inv_after) (simp_all add: hm_inv_def)
  moreover have "setDirty b a s = Inr (after ?us s)"
    unfolding setDirty_def using live t False by (simp del: bindE_Inr_iff)
  moreover have "same_data UNIV s (after ?us s)"
    unfolding same_data_def
  proof (intro conjI allI impI ballI)
    fix l c assume "rec_at l = Some c \<and> c \<in> UNIV \<and> group_of l \<in> {SizeG, ChainG, IndexG, OnlyG}"
    then show "hm_mem (after ?us s) l = hm_mem s l" using p by (cases l) (simp_all add: after_mem)
  qed simp
  moreover have "isDirty a (after ?us s) = b" using p by (simp add: isDirty_def after_mem)
  ultimately show ?thesis using inv by (auto simp: hm_inv_def)
qed

text \<open>Fields written directly.\<close>

lemma poke_fields [simp]:
  "hm_data (poke l x s) = hm_data s" "hm_hash (poke l x s) = hm_hash s" "hm_alloc (poke l x s) = hm_alloc s"
  "hm_bReadOnly (poke l x s) = hm_bReadOnly s" "hm_bAutoErase (poke l x s) = hm_bAutoErase s"
  "hm_cEraseMode (poke l x s) = hm_cEraseMode s" "hm_iEraseCount (poke l x s) = hm_iEraseCount s"
  "hm_iSyncTime (poke l x s) = hm_iSyncTime s" "hm_iUsedChunk (poke l x s) = hm_iUsedChunk s"
  "hm_stModifyData (poke l x s) = hm_stModifyData s" "hm_cModifyStatus (poke l x s) = hm_cModifyStatus s"
  "hm_mem (poke l x s) = (hm_mem s)(l := x)"
  by (simp_all add: poke_def)

lemma poke_pending [simp]: "pending (poke l x s) = pending s"
  by (simp add: pending_def)

lemma poke_conf [simp]: "same_conf s (poke l x s)"
  by (simp add: same_conf_def)

lemma poke_data:
  "rec_at l = None \<or> group_of l \<notin> {SizeG, ChainG, IndexG, OnlyG} \<Longrightarrow> same_data D s (poke l x s)"
  by (auto simp: same_data_def)

lemma poke_time:
  assumes "hm_inv s v ex X" "group_of l \<in> {StatG, TimeG, OnlyG}"
  shows "hm_inv (poke l x s) v ex X"
proof -
  have i: "mem_inv (hm_mem s) (hash_count s) v" "core_inv s v ex" "contents_inv s v X" using assms(1) by (simp_all add: hm_inv_def)
  have "mem_inv (hm_mem (poke l x s)) (hash_count s) v" using i(1) by (rule mem_inv_cong) (use assms(2) in auto)
  moreover have "contents_inv (poke l x s) v X" using i(3) by (rule contents_inv_cong) (use assms(2) in auto)
  ultimately show ?thesis using i(2) by (simp add: hm_inv_def core_inv_def)
qed

lemma poke_tail:
  assumes "hm_inv s v ex X" "group_of l = TailG" "x \<in> insert 0 (set (sh_set v))"
  shows "hm_inv (poke l x s) v ex X"
proof -
  let ?m = "hm_mem s" and ?w = "hm_mem (poke l x s)"
  have m: "mem_inv ?m (hash_count s) v" "core_inv s v ex" "contents_inv s v X" using assms(1) by (simp_all add: hm_inv_def)
  have i: "lists_inv ?m v" "buckets_inv ?m (hash_count s) v" "chains_inv ?m v" "counts_inv ?m v" "tails_inv ?m v"
    using m(1) by (simp_all add: mem_inv_def)
  have "lists_inv ?w v" by (rule lists_inv_cong[OF i(1)]) (use assms(2) in auto)
  moreover have "buckets_inv ?w (hash_count s) v" by (rule buckets_inv_cong[OF i(2)]) (use assms(2) in auto)
  moreover have "chains_inv ?w v" by (rule chains_inv_cong[OF i(3)]) (use assms(2) in auto)
  moreover have "counts_inv ?w v" by (rule counts_inv_cong[OF i(4)]) (use assms(2) in auto)
  moreover have "tails_inv ?w v" using i(5) assms(3) by (auto simp: tails_inv_def)
  moreover have "contents_inv (poke l x s) v X" using m(3) by (rule contents_inv_cong) (use assms(2) in auto)
  ultimately show ?thesis using m(2) by (simp add: hm_inv_def core_inv_def mem_inv_def)
qed

end
