(* ===== verification/Hm_Keys.thy ===== *)
theory Hm_Keys
  imports Hm_Refresh
begin

text \<open>
  The records of \<open>TC_HashMap\<close>: \<open>K a\<close> is the key and the value of the block at \<open>a\<close>, no value if it
  holds a key only. What a block with that content decodes to, and what the search in a bucket finds.
\<close>

section \<open>Keys and values\<close>

type_synonym hm_entry = "byte list \<times> byte list option"

definition enc :: "hm_entry \<Rightarrow> byte list" where
  "enc e = (case snd e of None \<Rightarrow> put_string (fst e) [] | Some v \<Rightarrow> put_string v (put_string (fst e) []))"

definition entry_ok :: "hm_entry \<Rightarrow> bool" where
  "entry_ok e \<longleftrightarrow> length (fst e) < 2 ^ 32 \<and> (\<forall>v. snd e = Some v \<longrightarrow> length v < 2 ^ 32)"

definition rec_ok :: "(byte list \<Rightarrow> nat) \<Rightarrow> hmap \<Rightarrow> nat \<Rightarrow> nat list \<Rightarrow> hm_entry \<Rightarrow> bool" where
  "rec_ok hf s a cs e \<longleftrightarrow> chain_bytes (hm_mem s) (hm_data s) a cs (enc e) \<and> entry_ok e \<and>
     (hm_mem s (B_bOnlyKey a) \<noteq> 0 \<longleftrightarrow> snd e = None) \<and> hm_mem s (B_iIndex a) = hashIndex hf (fst e) s"

definition keys_inv :: "(byte list \<Rightarrow> nat) \<Rightarrow> hmap \<Rightarrow> shape \<Rightarrow> nat set \<Rightarrow> (nat \<Rightarrow> hm_entry) \<Rightarrow> bool" where
  "keys_inv hf s v X K \<longleftrightarrow> (\<forall>a\<in>set (sh_set v) - X. rec_ok hf s a (sh_chunks v a) (K a)) \<and>
     inj_on (\<lambda>a. fst (K a)) (set (sh_set v) - X)"

text \<open>The map that the hash map stands for.\<close>

definition entries :: "shape \<Rightarrow> (nat \<Rightarrow> hm_entry) \<Rightarrow> byte list \<Rightarrow> byte list option option" where
  "entries v K = map_of (List.map K (sh_set v))"

lemma rec_ok_same:
  assumes "rec_ok hf s a cs e" "same_data D s s'" "set (a # cs) \<subseteq> D" "hash_count s' = hash_count s"
  shows "rec_ok hf s' a cs e"
proof -
  have "hm_mem s' (B_bOnlyKey a) = hm_mem s (B_bOnlyKey a)" "hm_mem s' (B_iIndex a) = hm_mem s (B_iIndex a)"
    using assms(2,3) by (auto simp: same_data_def)
  with assms same_data_bytes[OF assms(2,3)] show ?thesis by (simp add: rec_ok_def hashIndex_def)
qed

lemma keys_inv_same:
  assumes "keys_inv hf s v X K" "same_data (set (hm_pieces v')) s s'" "hash_count s' = hash_count s"
    "set (sh_set v') - X' \<subseteq> set (sh_set v) - X" "\<And>b. b \<in> set (sh_set v') - X' \<Longrightarrow> sh_chunks v' b = sh_chunks v b"
  shows "keys_inv hf s' v' X' K"
  unfolding keys_inv_def
proof
  show "\<forall>a\<in>set (sh_set v') - X'. rec_ok hf s' a (sh_chunks v' a) (K a)"
  proof
    fix b assume b: "b \<in> set (sh_set v') - X'"
    then have "rec_ok hf s b (sh_chunks v b) (K b)" using assms(1,4) unfolding keys_inv_def by blast
    moreover have "set (b # sh_chunks v' b) \<subseteq> set (hm_pieces v')" using in_pieces[of b v'] b by blast
    ultimately show "rec_ok hf s' b (sh_chunks v' b) (K b)"
      using rec_ok_same[OF _ assms(2) _ assms(3)] assms(5)[OF b] by simp
  qed
  have "inj_on (\<lambda>a. fst (K a)) (set (sh_set v) - X)" using assms(1) by (simp add: keys_inv_def)
  then show "inj_on (\<lambda>a. fst (K a)) (set (sh_set v') - X')" using assms(4) by (rule inj_on_subset)
qed

lemma keys_inv_after:
  assumes "keys_inv hf s v X K" "same_data UNIV s s'" "same_conf s s'" "set (sh_set v') \<subseteq> set (sh_set v)"
    "sh_chunks v' = sh_chunks v"
  shows "keys_inv hf s' v' X K"
  using assms(1) same_data_mono[OF assms(2) subset_UNIV]
  by (rule keys_inv_same) (use assms(3-5) in \<open>auto simp: same_conf_def\<close>)

lemma entries_None: "entries v K k = None \<longleftrightarrow> (\<forall>a\<in>set (sh_set v). fst (K a) \<noteq> k)"
  by (auto simp: entries_def map_of_eq_None_iff image_image)

lemma entries_Some:
  assumes "inj_on (\<lambda>a. fst (K a)) (set (sh_set v))" "a \<in> set (sh_set v)"
  shows "entries v K (fst (K a)) = Some (snd (K a))"
proof -
  have "map_of (List.map K xs) (fst (K a)) = Some (snd (K a))"
    if "inj_on (\<lambda>a. fst (K a)) (set xs)" "a \<in> set xs" for xs
    using that
  proof (induction xs)
    case (Cons x xs)
    show ?case
    proof (cases "fst (K x) = fst (K a)")
      case True
      then have "x = a" using Cons.prems by (auto dest: inj_onD)
      then show ?thesis by (cases "K a") simp
    next
      case False
      then have "a \<in> set xs" using Cons.prems(2) by auto
      with Cons False show ?thesis by (cases "K x") simp
    qed
  qed simp
  with assms show ?thesis by (simp add: entries_def)
qed

section \<open>Decoding\<close>

lemma get_enc:
  assumes "entry_ok e"
  shows "\<exists>po. get_string (po_init (enc e)) = Inr (fst e, po) \<and>
    (\<forall>v. snd e = Some v \<longrightarrow> (\<exists>po'. get_string po = Inr (v, po')))"
proof (cases "snd e")
  case None
  have "po_at (po_init (enc e)) (put_string (fst e) [] @ [])" using po_at_init by (simp add: enc_def None)
  from string_coder.reads[OF _ this] assms None show ?thesis by (simp add: entry_ok_def)
next
  case (Some v)
  have e: "enc e = put_string (fst e) [] @ put_string v [] @ []"
    using string_coder.appends[of v "put_string (fst e) []"] by (simp add: enc_def Some)
  have at: "po_at (po_init (enc e)) (put_string (fst e) [] @ put_string v [] @ [])" unfolding e by (rule po_at_init)
  have ok: "length (fst e) < 2 ^ 32" "length v < 2 ^ 32" using assms Some by (auto simp: entry_ok_def)
  from string_coder.reads[OF ok(1) at] string_coder.reads[OF ok(2) po_skip_at[OF at]] Some
  show ?thesis by auto
qed

lemma rec_data:
  assumes "hm_inv s v ex X" "keys_inv hf s v X K" "a \<in> set (sh_set v)" "a \<notin> X"
  shows "get_data a s = Inr (RT_OK, enc (K a))" "entry_ok (K a)" "isOnlyKey a s \<longleftrightarrow> snd (K a) = None"
    "hm_mem s (B_iIndex a) = hashIndex hf (fst (K a)) s"
proof -
  have r: "rec_ok hf s a (sh_chunks v a) (K a)" using assms(2-4) by (simp add: keys_inv_def)
  then show "entry_ok (K a)" "isOnlyKey a s \<longleftrightarrow> snd (K a) = None" "hm_mem s (B_iIndex a) = hashIndex hf (fst (K a)) s"
    by (simp_all add: rec_ok_def isOnlyKey_def)
  from inv_get_data[OF assms(1,3,4)] obtain bs where
    bs: "chain_bytes (hm_mem s) (hm_data s) a (sh_chunks v a) bs" "get_data a s = Inr (RT_OK, bs)" .
  have "bs = enc (K a)" using block_bytes_unique[OF bs(1)] r unfolding rec_ok_def by blast
  then show "get_data a s = Inr (RT_OK, enc (K a))" using bs(2) by simp
qed

definition data_of :: "nat \<Rightarrow> hm_entry \<Rightarrow> block_data \<Rightarrow> hmap \<Rightarrow> block_data" where
  "data_of a e d s = d\<lparr>bd_dirty := isDirty a s, bd_synct := hm_mem s (B_iSyncTime a), bd_key := fst e,
     bd_value := (case snd e of None \<Rightarrow> bd_value d | Some w \<Rightarrow> w)\<rparr>"

lemma getBlockData_ok:
  assumes "hm_inv s v ex X" "keys_inv hf s v X K" "a \<in> set (sh_set v)" "a \<notin> X"
  shows "getBlockData a d s = Inr (if snd (K a) = None then RT_ONLY_KEY else RT_OK, data_of a (K a) d s)"
proof -
  note r = rec_data[OF assms]
  have live: "hm_live s a" using inv_live[OF assms(1,3), of a] by simp
  from get_enc[OF r(2)] obtain po where po: "get_string (po_init (enc (K a))) = Inr (fst (K a), po)"
    "\<And>v. snd (K a) = Some v \<Longrightarrow> \<exists>po'. get_string po = Inr (v, po')" by blast
  show ?thesis
  proof (cases "snd (K a)")
    case None
    then show ?thesis using live r(1,3) po(1) by (simp add: getBlockData_def data_of_def Let_def)
  next
    case (Some w)
    with po(2) obtain po' where "get_string po = Inr (w, po')" by blast
    then show ?thesis using live r(1,3) po(1) Some by (simp add: getBlockData_def data_of_def Let_def)
  qed
qed

lemma item_get_ok:
  assumes "hm_inv s v ex X" "keys_inv hf s v X K" "a \<in> set (sh_set v)" "a \<notin> X"
  shows "item_get a w s = Inr (case snd (K a) of None \<Rightarrow> (RT_ONLY_KEY, fst (K a), []) | Some x \<Rightarrow> (RT_OK, fst (K a), x))"
    "item_get_key a s = Inr (RT_OK, fst (K a))"
proof -
  note r = rec_data[OF assms]
  from get_enc[OF r(2)] obtain po where po: "get_string (po_init (enc (K a))) = Inr (fst (K a), po)"
    "\<And>v. snd (K a) = Some v \<Longrightarrow> \<exists>po'. get_string po = Inr (v, po')" by blast
  show "item_get_key a s = Inr (RT_OK, fst (K a))" using r(1) po(1) by (simp add: item_get_key_def)
  show "item_get a w s = Inr (case snd (K a) of None \<Rightarrow> (RT_ONLY_KEY, fst (K a), []) | Some x \<Rightarrow> (RT_OK, fst (K a), x))"
  proof (cases "snd (K a)")
    case None
    then show ?thesis using r(1,3) po(1) by (simp add: item_get_def)
  next
    case (Some x)
    with po(2) obtain po' where "get_string po = Inr (x, po')" by blast
    then show ?thesis using r(1,3) po(1) Some by (simp add: item_get_def)
  qed
qed

section \<open>Counters in the journal\<close>

text \<open>The same map with another journal.\<close>

definition with_journal :: "nat \<Rightarrow> (loc \<times> nat) list \<Rightarrow> hmap \<Rightarrow> hmap" where
  "with_journal c js s = s\<lparr>hm_cModifyStatus := c, hm_stModifyData := js\<rparr>"

lemma with_journal_fields [simp]:
  "hm_mem (with_journal c js s) = hm_mem s" "hm_data (with_journal c js s) = hm_data s"
  "hm_hash (with_journal c js s) = hm_hash s" "hm_alloc (with_journal c js s) = hm_alloc s"
  "hm_bReadOnly (with_journal c js s) = hm_bReadOnly s" "hm_bAutoErase (with_journal c js s) = hm_bAutoErase s"
  "hm_cEraseMode (with_journal c js s) = hm_cEraseMode s" "hm_iEraseCount (with_journal c js s) = hm_iEraseCount s"
  "hm_iSyncTime (with_journal c js s) = hm_iSyncTime s" "hm_iUsedChunk (with_journal c js s) = hm_iUsedChunk s"
  "hm_stModifyData (with_journal c js s) = js" "hm_cModifyStatus (with_journal c js s) = c"
  by (simp_all add: with_journal_def)

lemma with_journal_inv [simp]:
  "hm_inv (with_journal c js s) v ex X = hm_inv s v ex X" "keys_inv hf (with_journal c js s) v X K = keys_inv hf s v X K"
  "same_on D s (with_journal c js s)" "same_conf s (with_journal c js s)" "isDirty a (with_journal c js s) = isDirty a s"
  "isOnlyKey a (with_journal c js s) = isOnlyKey a s" "loop_limit (with_journal c js s) = loop_limit s"
  "hashIndex hf k (with_journal c js s) = hashIndex hf k s"
  by (simp_all add: hm_inv_def core_inv_def contents_inv_def keys_inv_def rec_ok_def same_on_def same_conf_def isDirty_def
      isOnlyKey_def loop_limit_def hashIndex_def)

lemma with_journal_same: "with_journal (hm_cModifyStatus s) (hm_stModifyData s) s = s"
  by (simp add: with_journal_def)

lemma settled_journal: "settled s = with_journal 0 [] s"
  by (simp add: settled_def with_journal_def)

lemma stat_update:
  assumes "pending s" "group_of l = StatG" "length (hm_stModifyData s) < 3"
  shows "hm_update l x s = Inr (with_journal 1 (hm_stModifyData s @ [(l, x)]) s)"
    "pending (with_journal 1 (hm_stModifyData s @ [(l, x)]) s)"
  using assms by (simp_all add: hm_update_def with_journal_def pending_def journal_size_def Let_def)

section \<open>The search\<close>

text \<open>The blocks of a bucket from one of them on.\<close>

lemma bucket_suffix:
  assumes "dlist nx pv h t (as @ a # bs)"
  shows "nx a = hd0 bs 0"
  using assms by (simp add: dlist_def links_append)

lemma find_loop_ok:
  assumes inv: "hm_inv s v ex {}" "keys_inv hf s v {} K" "pending s" "length (hm_stModifyData s) < 3"
    and b: "bucket_at (hm_mem s) i (as @ a # bs)" "set (a # bs) \<subseteq> set (sh_set v)" and fuel: "length bs < fuel"
  shows "\<exists>c js. find_loop fuel a k s = Inr (if \<exists>x\<in>set (a # bs). fst (K x) = k
      then hd (filter (\<lambda>x. fst (K x) = k) (a # bs)) else 0, RT_OK, with_journal c js s) \<and>
    pending (with_journal c js s)"
  using b fuel
proof (induction bs arbitrary: as a fuel)
  case Nil
  then obtain n where n: "fuel = Suc n" by (cases fuel) auto
  have i: "item_equal k a s = Inr (k = fst (K a), RT_OK)"
    using item_get_ok(2)[OF inv(1,2), of a] Nil.prems(2) by (simp add: item_equal_def)
  have "hm_mem s (B_iBlockNext a) = 0"
    using bucket_suffix[OF Nil.prems(1)[unfolded bucket_at_def]] by simp
  moreover have "\<exists>c js. s = with_journal c js s \<and> pending (with_journal c js s)" using with_journal_same[of s] inv(3) by metis
  ultimately show ?case
    using i stat_update[OF inv(3) _ inv(4), of H_iHitCount] inv(3) by (cases "k = fst (K a)") (auto simp: n incHitCount_def)
next
  case (Cons b bs)
  then obtain n where n: "fuel = Suc n" "length bs < n" by (cases fuel) auto
  have i: "item_equal k a s = Inr (k = fst (K a), RT_OK)"
    using item_get_ok(2)[OF inv(1,2), of a] Cons.prems(2) by (simp add: item_equal_def)
  have nx: "hm_mem s (B_iBlockNext a) = b"
    using bucket_suffix[OF Cons.prems(1)[unfolded bucket_at_def]] by simp
  have "b \<noteq> 0" using Cons.prems(1) by (auto simp: bucket_at_def dlist_def)
  show ?case
  proof (cases "k = fst (K a)")
    case True
    then show ?thesis
      using i stat_update[OF inv(3) _ inv(4), of H_iHitCount] by (auto simp: n incHitCount_def)
  next
    case False
    have "bucket_at (hm_mem s) i ((as @ [a]) @ b # bs)" using Cons.prems(1) by simp
    from Cons.IH[OF this _ n(2)] Cons.prems(2) obtain c js where
      r: "find_loop n b k s = Inr (if \<exists>x\<in>set (b # bs). fst (K x) = k
        then hd (filter (\<lambda>x. fst (K x) = k) (b # bs)) else 0, RT_OK, with_journal c js s)" "pending (with_journal c js s)"
      by auto
    have f: "find_loop fuel a k s = find_loop n b k s" using i False nx \<open>b \<noteq> 0\<close> by (simp add: n)
    have skip: "(\<exists>x\<in>set (a # b # bs). fst (K x) = k) = (\<exists>x\<in>set (b # bs). fst (K x) = k)"
      "filter (\<lambda>x. fst (K x) = k) (a # b # bs) = filter (\<lambda>x. fst (K x) = k) (b # bs)"
      using False by auto
    show ?thesis unfolding f skip using r by blast
  qed
qed

lemma in_bucket:
  assumes "hm_inv s v ex {}" "keys_inv hf s v {} K" "a \<in> set (sh_set v)" "fst (K a) = k"
  shows "a \<in> set (sh_bucket v (hashIndex hf k s))"
proof -
  have "buckets_inv (hm_mem s) (hash_count s) v" using assms(1) by (simp add: hm_inv_def mem_inv_def)
  then have "a \<in> set (sh_bucket v (hm_mem s (B_iIndex a)))" using assms(3) unfolding buckets_inv_def by blast
  with rec_data(4)[OF assms(1-3)] assms(4) show ?thesis by simp
qed

lemma hash_bound: "hm_inv s v ex X \<Longrightarrow> hashIndex hf k s < hash_count s"
  by (simp add: hm_inv_def core_inv_def hashIndex_def)

lemma bucket_of:
  assumes "hm_inv s v ex X" "i < hash_count s"
  shows "bucket_at (hm_mem s) i (sh_bucket v i)" "set (sh_bucket v i) \<subseteq> set (sh_set v)"
    "hm_mem s (I_iBlockAddr i) = hd0 (sh_bucket v i) 0" "length (sh_bucket v i) < loop_limit s"
proof -
  have b: "buckets_inv (hm_mem s) (hash_count s) v" "core_inv s v ex"
    using assms(1) by (simp_all add: hm_inv_def mem_inv_def)
  show r: "bucket_at (hm_mem s) i (sh_bucket v i)" "set (sh_bucket v i) \<subseteq> set (sh_set v)"
    using b(1) assms(2) by (auto simp: buckets_inv_def)
  then show "hm_mem s (I_iBlockAddr i) = hd0 (sh_bucket v i) 0" by (simp add: bucket_at_def dlist_def)
  have "length (sh_bucket v i) \<le> card (set (sh_set v))"
    using bucket_distinct[OF r(1)] r(2) by (metis List.finite_set card_mono distinct_card)
  also have "\<dots> \<le> length (sh_set v)" by (rule card_length)
  finally show "length (sh_bucket v i) < loop_limit s" using set_bound[of v] pieces_bound[OF b(2)] by simp
qed

lemma find_key_ok:
  assumes inv: "hm_inv s v ex {}" "keys_inv hf s v {} K" "pending s" "length (hm_stModifyData s) < 3"
  shows "\<exists>a c js. find_key k (hashIndex hf k s) s = Inr (a, RT_OK, with_journal c js s) \<and> pending (with_journal c js s) \<and>
    (a = 0 \<longrightarrow> (\<forall>b\<in>set (sh_set v). fst (K b) \<noteq> k)) \<and> (a \<noteq> 0 \<longrightarrow> a \<in> set (sh_set v) \<and> fst (K a) = k)"
proof -
  let ?i = "hashIndex hf k s"
  note i = hash_bound[OF inv(1), of hf k]
  note b = bucket_of[OF inv(1) i]
  have none: "\<forall>b\<in>set (sh_set v). fst (K b) \<noteq> k" if "\<forall>b\<in>set (sh_bucket v ?i). fst (K b) \<noteq> k"
    using that in_bucket[OF inv(1,2)] by blast
  show ?thesis
  proof (cases "sh_bucket v ?i")
    case Nil
    then have "find_key k ?i s = Inr (0, RT_OK, with_journal (hm_cModifyStatus s) (hm_stModifyData s) s)"
      using i b(3) by (simp add: find_key_def with_journal_def)
    moreover have "pending (with_journal (hm_cModifyStatus s) (hm_stModifyData s) s)"
      using inv(3) by (simp add: with_journal_def)
    ultimately show ?thesis using none Nil by fastforce
  next
    case (Cons x xs)
    have x: "x \<noteq> 0" using bucket_distinct[OF b(1)] Cons by auto
    have "bucket_at (hm_mem s) ?i ([] @ x # xs)" "set (x # xs) \<subseteq> set (sh_set v)" "length xs < loop_limit s"
      using b Cons by simp_all
    from find_loop_ok[OF inv this, of k] obtain c js where
      f: "find_loop (loop_limit s) x k s = Inr (if \<exists>y\<in>set (x # xs). fst (K y) = k
        then hd (filter (\<lambda>y. fst (K y) = k) (x # xs)) else 0, RT_OK, with_journal c js s)"
      "pending (with_journal c js s)" by blast
    have fk: "find_key k ?i s = find_loop (loop_limit s) x k s" using i b(3) Cons x by (simp add: find_key_def)
    let ?f = "filter (\<lambda>y. fst (K y) = k) (x # xs)"
    show ?thesis
    proof (cases "\<exists>y\<in>set (x # xs). fst (K y) = k")
      case True
      then have "?f \<noteq> []" by (auto simp: filter_empty_conv)
      then have "hd ?f \<in> set ?f" by (rule hd_in_set)
      then have h: "hd ?f \<in> set (sh_bucket v ?i)" "fst (K (hd ?f)) = k" unfolding Cons set_filter by blast+
      have "hd ?f \<noteq> 0" using h(1) bucket_distinct[OF b(1)] by metis
      moreover have "hd ?f \<in> set (sh_set v)" using h(1) b(2) by blast
      moreover have "find_key k ?i s = Inr (hd ?f, RT_OK, with_journal c js s)" unfolding fk f(1) if_P[OF True] ..
      ultimately show ?thesis using f(2) h(2) by (intro exI[of _ "hd ?f"] exI[of _ c] exI[of _ js]) (simp del: filter.simps)
    next
      case False
      have "find_key k ?i s = Inr (0, RT_OK, with_journal c js s)" unfolding fk f(1) if_not_P[OF False] ..
      moreover have "\<forall>b\<in>set (sh_bucket v ?i). fst (K b) \<noteq> k" unfolding Cons using False by blast
      ultimately show ?thesis using f(2) none by (intro exI[of _ 0] exI[of _ c] exI[of _ js]) simp
    qed
  qed
qed

text \<open>The search that also reads the value.\<close>

definition found :: "byte list \<Rightarrow> (nat \<Rightarrow> hm_entry) \<Rightarrow> nat list \<Rightarrow> nat \<Rightarrow> byte list \<Rightarrow> rt \<Rightarrow> bool" where
  "found k K xs a w ret \<longleftrightarrow> (a = 0 \<longrightarrow> (\<forall>x\<in>set xs. fst (K x) \<noteq> k) \<and> ret \<in> {RT_OK, RT_ONLY_KEY}) \<and>
     (a \<noteq> 0 \<longrightarrow> a \<in> set xs \<and> fst (K a) = k \<and>
       (case snd (K a) of None \<Rightarrow> ret = RT_ONLY_KEY \<and> w = [] | Some x \<Rightarrow> ret = RT_OK \<and> w = x))"

lemma find_value_loop_ok:
  assumes inv: "hm_inv s v ex {}" "keys_inv hf s v {} K" "pending s" "length (hm_stModifyData s) < 3"
    and b: "bucket_at (hm_mem s) i (as @ a # bs)" "set (a # bs) \<subseteq> set (sh_set v)" and fuel: "length bs < fuel"
  shows "\<exists>p w ret c js. find_value_loop fuel a k d s = Inr (p, w, ret, with_journal c js s) \<and>
    pending (with_journal c js s) \<and> found k K (a # bs) p w ret"
  using b fuel
proof (induction bs arbitrary: as a fuel d)
  case Nil
  then obtain n where n: "fuel = Suc n" by (cases fuel) auto
  have a0: "a \<noteq> 0" using Nil.prems(1) by (auto simp: bucket_at_def dlist_def)
  note g = item_get_ok(1)[OF inv(1,2), of a d]
  have nx: "hm_mem s (B_iBlockNext a) = 0"
    using bucket_suffix[OF Nil.prems(1)[unfolded bucket_at_def]] by simp
  show ?case
  proof (cases "fst (K a) = k")
    case True
    then show ?thesis
      using a0 g Nil.prems(2) stat_update[OF inv(3) _ inv(4), of H_iHitCount]
      by (cases "snd (K a)") (simp_all add: n item_equal_value_def incHitCount_def found_def, blast+)
  next
    case False
    then have "find_value_loop fuel a k d s = Inr (0, case snd (K a) of None \<Rightarrow> [] | Some x \<Rightarrow> x,
        case snd (K a) of None \<Rightarrow> RT_ONLY_KEY | Some x \<Rightarrow> RT_OK, with_journal (hm_cModifyStatus s) (hm_stModifyData s) s)"
      using g Nil.prems(2) nx by (cases "snd (K a)") (auto simp: n item_equal_value_def with_journal_same)
    moreover have "pending (with_journal (hm_cModifyStatus s) (hm_stModifyData s) s)"
      using inv(3) by (simp add: with_journal_same)
    moreover have "found k K [a] 0 (case snd (K a) of None \<Rightarrow> [] | Some x \<Rightarrow> x)
        (case snd (K a) of None \<Rightarrow> RT_ONLY_KEY | Some x \<Rightarrow> RT_OK)"
      using False by (simp add: found_def split: option.splits)
    ultimately show ?thesis by blast
  qed
next
  case (Cons b bs)
  then obtain n where n: "fuel = Suc n" "length bs < n" by (cases fuel) auto
  have a0: "a \<noteq> 0" using Cons.prems(1) by (auto simp: bucket_at_def dlist_def)
  note g = item_get_ok(1)[OF inv(1,2), of a d]
  have nx: "hm_mem s (B_iBlockNext a) = b"
    using bucket_suffix[OF Cons.prems(1)[unfolded bucket_at_def]] by simp
  have b0: "b \<noteq> 0" using Cons.prems(1) by (auto simp: bucket_at_def dlist_def)
  show ?case
  proof (cases "fst (K a) = k")
    case True
    then show ?thesis
      using a0 g Cons.prems(2) stat_update[OF inv(3) _ inv(4), of H_iHitCount]
      by (cases "snd (K a)") (simp_all add: n item_equal_value_def incHitCount_def found_def, blast+)
  next
    case False
    let ?d = "case snd (K a) of None \<Rightarrow> [] | Some x \<Rightarrow> x"
    have "bucket_at (hm_mem s) i ((as @ [a]) @ b # bs)" using Cons.prems(1) by simp
    from Cons.IH[OF this _ n(2), of ?d] Cons.prems(2) obtain p w ret c js where
      r: "find_value_loop n b k ?d s = Inr (p, w, ret, with_journal c js s)" "pending (with_journal c js s)"
        "found k K (b # bs) p w ret" by auto
    have "find_value_loop fuel a k d s = find_value_loop n b k ?d s"
      using g Cons.prems(2) nx b0 False by (cases "snd (K a)") (auto simp: n item_equal_value_def)
    moreover have "found k K (a # b # bs) p w ret" using r(3) False by (auto simp: found_def)
    ultimately show ?thesis using r(1,2) by auto
  qed
qed

lemma find_value_ok:
  assumes inv: "hm_inv s v ex {}" "keys_inv hf s v {} K" "pending s" "length (hm_stModifyData s) < 3"
  shows "\<exists>a w ret c js. find_value k (hashIndex hf k s) d s = Inr (a, w, ret, with_journal c js s) \<and>
    pending (with_journal c js s) \<and> found k K (sh_set v) a w ret"
proof -
  let ?i = "hashIndex hf k s"
  note i = hash_bound[OF inv(1), of hf k]
  note b = bucket_of[OF inv(1) i]
  have all: "found k K (sh_set v) a w ret" if "found k K (sh_bucket v ?i) a w ret" for a w ret
    using that in_bucket[OF inv(1,2), of _ k] b(2) by (auto simp: found_def)
  show ?thesis
  proof (cases "sh_bucket v ?i")
    case Nil
    then have "find_value k ?i d s = Inr (0, d, RT_OK, with_journal (hm_cModifyStatus s) (hm_stModifyData s) s)"
      using i b(3) by (simp add: find_value_def with_journal_same)
    moreover have "pending (with_journal (hm_cModifyStatus s) (hm_stModifyData s) s)"
      using inv(3) by (simp add: with_journal_same)
    ultimately show ?thesis using all[of 0 d RT_OK] Nil by (auto simp: found_def)
  next
    case (Cons x xs)
    have x: "x \<noteq> 0" using bucket_distinct[OF b(1)] Cons by auto
    have "bucket_at (hm_mem s) ?i ([] @ x # xs)" "set (x # xs) \<subseteq> set (sh_set v)" "length xs < loop_limit s"
      using b Cons by simp_all
    from find_value_loop_ok[OF inv this, of k d] obtain p w ret c js where
      f: "find_value_loop (loop_limit s) x k d s = Inr (p, w, ret, with_journal c js s)"
      "pending (with_journal c js s)" "found k K (sh_bucket v ?i) p w ret" unfolding Cons by blast
    have "find_value k ?i d s = find_value_loop (loop_limit s) x k d s" using i b(3) Cons x by (simp add: find_value_def)
    with f(1,2) all[OF f(3)] show ?thesis by auto
  qed
qed

end
