(* ===== verification/Hm_Evict.thy ===== *)
theory Hm_Evict
  imports Hm_Keys
begin

text \<open>
  Eviction (\<open>eraseExcept\<close>): which records go, in which order, and that the map is well-formed after.
\<close>

section \<open>A well-formed map with its records\<close>

definition hm_good ::
  "(byte list \<Rightarrow> nat) \<Rightarrow> hmap \<Rightarrow> shape \<Rightarrow> nat list \<Rightarrow> nat set \<Rightarrow> (nat \<Rightarrow> hm_entry) \<Rightarrow> bool" where
  "hm_good hf s v ex X K \<longleftrightarrow> hm_inv s v ex X \<and> keys_inv hf s v X K \<and> pending s"

lemma good_parts:
  "hm_good hf s v ex X K \<Longrightarrow> hm_inv s v ex X" "hm_good hf s v ex X K \<Longrightarrow> keys_inv hf s v X K"
  "hm_good hf s v ex X K \<Longrightarrow> pending s"
  by (simp_all add: hm_good_def)

lemma good_lists:
  assumes "hm_inv s v ex X"
  shows "set_list (hm_mem s) (sh_set v)" "get_list (hm_mem s) (sh_get v)" "set (sh_get v) = set (sh_set v)"
    "distinct (sh_set v)" "distinct (sh_get v)" "0 \<notin> set (sh_set v)"
proof -
  have i: "lists_inv (hm_mem s) v" using assms by (simp add: hm_inv_def mem_inv_def)
  then show "set_list (hm_mem s) (sh_set v)" "get_list (hm_mem s) (sh_get v)" "set (sh_get v) = set (sh_set v)"
    by (simp_all add: lists_inv_def)
  show "distinct (sh_set v)" "distinct (sh_get v)" "0 \<notin> set (sh_set v)" using lists_distinct[OF i] by simp_all
qed

lemma erase_good:
  assumes "hm_good hf s v ex X K" "a \<in> set (sh_set v)"
  shows "\<exists>s'. block_erase a s = Inr s' \<and> hm_good hf s' (drop_block a v) ex X K \<and> same_on UNIV s s' \<and> same_conf s s'"
proof -
  note g = good_parts[OF assms(1)]
  from erase_ok[OF g(1,3) assms(2)] obtain s' where s': "block_erase a s = Inr s'" "hm_inv s' (drop_block a v) ex X"
    "pending s'" "same_on UNIV s s'" "same_conf s s'" by blast
  have "keys_inv hf s' (drop_block a v) X K"
    using g(2) same_data_on[OF s'(4)] s'(5)
    by (rule keys_inv_after) (use set_remove1_subset[of a "sh_set v"] in \<open>auto simp: drop_block_def\<close>)
  with s' show ?thesis by (auto simp: hm_good_def)
qed

section \<open>The order of eviction\<close>

text \<open>By the time of the last write if the erase mode is 1, else of the last read.\<close>

definition evict_order :: "nat \<Rightarrow> shape \<Rightarrow> nat list" where
  "evict_order mode v = (if mode = 1 then sh_set v else sh_get v)"

text \<open>\<open>es\<close> are the records that went, first the oldest; \<open>now\<close> is passed over.\<close>

definition evicted :: "nat \<Rightarrow> nat \<Rightarrow> shape \<Rightarrow> nat list \<Rightarrow> shape \<Rightarrow> bool" where
  "evicted mode now v es v' \<longleftrightarrow> v' = fold drop_block es v \<and>
     filter (\<lambda>a. a \<noteq> now) (evict_order mode v) = filter (\<lambda>a. a \<noteq> now) (evict_order mode v') @ rev es"

lemma order_drop: "evict_order mode (drop_block a v) = remove1 a (evict_order mode v)"
  by (simp add: evict_order_def drop_block_def)

lemma evicted_Nil [simp]: "evicted mode now v [] v"
  by (simp add: evicted_def)

lemma evicted_Cons:
  assumes "evicted mode now (drop_block p v) es v'"
    "filter (\<lambda>a. a \<noteq> now) (evict_order mode v) = filter (\<lambda>a. a \<noteq> now) (remove1 p (evict_order mode v)) @ [p]"
  shows "evicted mode now v (p # es) v'"
  using assms by (simp add: evicted_def order_drop)

lemma evicted_trans:
  "evicted mode now v es v' \<Longrightarrow> evicted mode now v' es' v'' \<Longrightarrow> evicted mode now v (es @ es') v''"
  by (simp add: evicted_def)

lemma fold_drop:
  "sh_chunks (fold drop_block es v) = sh_chunks v" "set (sh_set (fold drop_block es v)) \<subseteq> set (sh_set v)"
  "distinct (sh_set v) \<Longrightarrow> set (sh_set (fold drop_block es v)) = set (sh_set v) - set es"
  "sh_set (fold drop_block es v) = fold remove1 es (sh_set v)"
proof (induction es arbitrary: v)
  case (Cons e es)
  { case 1 show ?case using Cons(1) by (simp add: drop_block_def) }
  { case 2 show ?case using Cons(2)[of "drop_block e v"] set_remove1_subset[of e "sh_set v"] by (auto simp: drop_block_def) }
  { case 3 then show ?case using Cons(3)[of "drop_block e v"] by (auto simp: drop_block_def) }
  { case 4 show ?case using Cons(4)[of "drop_block e v"] by (simp add: drop_block_def) }
qed simp_all

lemma evicted_set:
  assumes "evicted mode now v es v'" "set (sh_get v) = set (sh_set v)" "distinct (sh_set v)"
  shows "set es \<subseteq> set (sh_set v) - {now}" "set (sh_set v') = set (sh_set v) - set es" "sh_chunks v' = sh_chunks v"
proof -
  have o: "set (evict_order mode v) = set (sh_set v)" using assms(2) by (simp add: evict_order_def)
  have "set es \<subseteq> set (filter (\<lambda>a. a \<noteq> now) (evict_order mode v))"
    using assms(1) unfolding evicted_def by (metis set_append set_rev sup_ge2)
  then show "set es \<subseteq> set (sh_set v) - {now}" using o by auto
  show "set (sh_set v') = set (sh_set v) - set es" "sh_chunks v' = sh_chunks v"
    using assms(1) fold_drop(1)[of es v] fold_drop(3)[OF assms(3), of es] by (simp_all add: evicted_def)
qed

lemma split_last: "xs \<noteq> [] \<Longrightarrow> \<exists>ys. xs = ys @ [last0 0 xs]"
  by (induction xs rule: rev_induct) (auto simp: last0_append)

lemma erase_victim:
  assumes inv: "hm_inv s v ex X" and t: "erase_tail s \<noteq> 0"
    and p: "p = (if now = erase_tail s then erase_prev (erase_tail s) s else erase_tail s)" "p \<noteq> 0"
  shows "p \<in> set (sh_set v)" "p \<noteq> now" "erase_tail s \<in> set (sh_set v)"
    "filter (\<lambda>a. a \<noteq> now) (evict_order (hm_cEraseMode s) v) =
     filter (\<lambda>a. a \<noteq> now) (remove1 p (evict_order (hm_cEraseMode s) v)) @ [p]"
proof -
  let ?xs = "evict_order (hm_cEraseMode s) v"
  note l = good_lists[OF inv]
  obtain nx h where d: "dlist nx (\<lambda>a. erase_prev a s) h (erase_tail s) ?xs"
    using l(1,2) by (cases "hm_cEraseMode s = 1") (auto simp: list_at_def erase_tail_def erase_prev_def evict_order_def)
  have o: "set ?xs = set (sh_set v)" "distinct ?xs" using l by (auto simp: evict_order_def)
  have ne: "?xs \<noteq> []" using dlist_empty[OF d] t by auto
  have "erase_tail s = last0 0 ?xs" using d by (simp add: dlist_def)
  then obtain ys where ys: "?xs = ys @ [erase_tail s]" using split_last[OF ne] by metis
  have tin: "erase_tail s \<in> set ?xs" unfolding ys by simp
  then show "erase_tail s \<in> set (sh_set v)" using o(1) by simp
  note n = dlist_neighbours[OF d tin]
  have "p \<in> set (sh_set v) \<and> p \<noteq> now \<and> filter (\<lambda>a. a \<noteq> now) ?xs = filter (\<lambda>a. a \<noteq> now) (remove1 p ?xs) @ [p]"
  proof (cases "now = erase_tail s")
    case False
    then have pt: "p = erase_tail s" using p(1) by simp
    have "erase_tail s \<notin> set ys" using o(2) ys by simp
    then have "remove1 p ?xs = ys" unfolding pt ys by (simp add: remove1_append)
    then show ?thesis using False pt o(1) tin ys by auto
  next
    case True
    then have pp: "p = erase_prev (erase_tail s) s" using p(1) by simp
    have pin: "p \<in> set ?xs" using n(3) p(2) unfolding pp by simp
    from d tin obtain as bs where s: "?xs = as @ erase_tail s # bs" "erase_prev (erase_tail s) s = last0 0 as"
      "erase_tail s \<notin> set as" "erase_tail s \<notin> set bs" by (rule dlist_split)
    have bs: "bs = []" using s(1) ys o(2) by (cases bs rule: rev_cases) auto
    have "as \<noteq> []" using s(2) p(2) pp by auto
    then obtain zs where zs: "as = zs @ [p]" using split_last[of as] s(2) pp by auto
    have x: "?xs = zs @ [p, now]" using s(1) bs zs True by simp
    then have "p \<notin> set zs" "p \<noteq> now" "now \<notin> set zs" using o(2) by auto
    then show ?thesis using pin o(1) unfolding x by (auto simp: remove1_append)
  qed
  then show "p \<in> set (sh_set v)" "p \<noteq> now" "filter (\<lambda>a. a \<noteq> now) ?xs = filter (\<lambda>a. a \<noteq> now) (remove1 p ?xs) @ [p]" by auto
qed

section \<open>The loop\<close>

text \<open>What is handed to the caller: the records with a value.\<close>

definition evicted_data :: "(nat \<Rightarrow> hm_entry) \<Rightarrow> hmap \<Rightarrow> nat list \<Rightarrow> block_data list" where
  "evicted_data K s es = List.map (\<lambda>a. data_of a (K a) new_data s) (filter (\<lambda>a. snd (K a) \<noteq> None) es)"

lemma evicted_data_simps [simp]:
  "evicted_data K s [] = []"
  "evicted_data K s (a # es) = (if snd (K a) \<noteq> None then [data_of a (K a) new_data s] else []) @ evicted_data K s es"
  "evicted_data K s (es @ es') = evicted_data K s es @ evicted_data K s es'"
  by (simp_all add: evicted_data_def)

lemma evicted_data_same: "same_on UNIV s s' \<Longrightarrow> evicted_data K s' es = evicted_data K s es"
  by (simp add: evicted_data_def data_of_def same_on_def isDirty_def)

lemma erase_loop_ok:
  assumes "hm_good hf s v ex X K" "X \<subseteq> {now}" "length (sh_set v) < fuel"
  shows "\<exists>d' s' es v'. erase_loop fuel now d vt s = Inr (d', vt @ evicted_data K s es, s') \<and> hm_good hf s' v' ex X K \<and>
    same_on UNIV s s' \<and> same_conf s s' \<and> evicted (hm_cEraseMode s) now v es v' \<and> d = d' + length (evicted_data K s es)"
  using assms
proof (induction fuel arbitrary: d vt s v)
  case (Suc fuel)
  have stop: ?case if "erase_loop (Suc fuel) now d vt s = Inr (d, vt, s)"
    using that Suc.prems(1) by (intro exI[of _ d] exI[of _ s] exI[of _ "[]"] exI[of _ v]) simp
  show ?case
  proof (cases d)
    case 0
    then show ?thesis by (intro stop) simp
  next
    case (Suc n)
    note g = good_parts[OF Suc.prems(1)]
    let ?p = "if now = erase_tail s then erase_prev (erase_tail s) s else erase_tail s"
    show ?thesis
    proof (cases "erase_tail s = 0 \<or> ?p = 0")
      case True
      show ?thesis
      proof (cases "erase_tail s = 0")
        case True
        then show ?thesis by (intro stop) (simp add: Suc)
      next
        case False
        have "?p = 0" using True False by blast
        from dlist_ends good_lists(1,2)[OF g(1)] have "erase_tail s \<in> insert 0 (set (sh_set v))"
          using good_lists(3)[OF g(1)] unfolding list_at_def erase_tail_def by metis
        then have "hm_live s (erase_tail s)" using False inv_live[OF g(1), of "erase_tail s"] by simp
        with False \<open>?p = 0\<close> show ?thesis by (intro stop) (simp add: Suc Let_def)
      qed
    next
      case False
      have ne: "erase_tail s \<noteq> 0" "?p \<noteq> 0" using conjunct1[OF iffD1[OF de_Morgan_disj False]] conjunct2[OF iffD1[OF de_Morgan_disj False]] .
      note vic = erase_victim[OF g(1) ne(1) refl ne(2)]
      let ?a = ?p
      have px: "?a \<notin> X" using vic(2) Suc.prems(2) by blast
      have live: "hm_live s (erase_tail s)" using inv_live[OF g(1) vic(3)] by simp
      note data = getBlockData_ok[OF g(1,2) vic(1) px, of new_data]
      from erase_good[OF Suc.prems(1) vic(1)] obtain s1 where s1: "block_erase ?a s = Inr s1"
        "hm_good hf s1 (drop_block ?a v) ex X K" "same_on UNIV s s1" "same_conf s s1" by blast
      have "length (sh_set v) = Suc (length (sh_set (drop_block ?a v)))"
        using length_remove1_Suc[OF vic(1)] by (simp add: drop_block_def)
      then have len: "length (sh_set (drop_block ?a v)) < fuel" using Suc.prems(3) by simp
      let ?d = "if snd (K ?a) = None then Suc n else n"
      let ?vt = "vt @ (if snd (K ?a) \<noteq> None then [data_of ?a (K ?a) new_data s] else [])"
      have step: "erase_loop (Suc fuel) now d vt s = erase_loop fuel now ?d ?vt s1"
        unfolding Suc erase_loop.simps Let_def using ne live data s1(1) by (simp del: erase_loop.simps)
      from Suc.IH[OF s1(2) Suc.prems(2) len, of ?d ?vt] obtain d' s' es v' where
        r: "erase_loop fuel now ?d ?vt s1 = Inr (d', ?vt @ evicted_data K s1 es, s')" "hm_good hf s' v' ex X K"
          "same_on UNIV s1 s'" "same_conf s1 s'" "evicted (hm_cEraseMode s1) now (drop_block ?a v) es v'"
          "?d = d' + length (evicted_data K s1 es)" by blast
      have mode: "hm_cEraseMode s1 = hm_cEraseMode s" using s1(4) by (simp add: same_conf_def)
      have "evicted (hm_cEraseMode s) now v (?a # es) v'"
        using evicted_Cons[OF r(5)[unfolded mode] vic(4)] .
      moreover have "erase_loop (Suc fuel) now d vt s = Inr (d', vt @ evicted_data K s (?a # es), s')"
        unfolding step r(1) using evicted_data_same[OF s1(3)] by simp
      moreover have "d = d' + length (evicted_data K s (?a # es))"
        using r(6) evicted_data_same[OF s1(3), of K es] Suc by (simp split: if_splits)
      moreover have "same_on UNIV s s'" using same_on_trans[OF s1(3) r(3)] by simp
      moreover have "same_conf s s'" by (rule same_conf_trans[OF s1(4) r(4)])
      ultimately show ?thesis using r(2) by blast
    qed
  qed
qed simp

lemma eraseExcept_ok:
  assumes "hm_good hf s v ex X K" "X \<subseteq> {now}"
  shows "\<exists>n s' es v'. eraseExcept now vt s = Inr (n, vt @ evicted_data K s es, s') \<and> hm_good hf s' v' ex X K \<and>
    same_on UNIV s s' \<and> same_conf s s' \<and> evicted (hm_cEraseMode s) now v es v' \<and> n = length (evicted_data K s es)"
proof (cases "hm_bAutoErase s")
  case False
  then show ?thesis using assms(1) by (intro exI[of _ 0] exI[of _ s] exI[of _ "[]"] exI[of _ v]) (simp add: eraseExcept_def)
next
  case True
  have "core_inv s v ex" using assms(1) by (simp add: hm_good_def hm_inv_def)
  then have "length (sh_set v) < loop_limit s" using set_bound[of v] pieces_bound[of s v ex] by simp
  from erase_loop_ok[OF assms this, of "if hm_iEraseCount s = 0 then 10 else hm_iEraseCount s" vt]
  show ?thesis using True unfolding eraseExcept_def by fastforce
qed

end
