(* ===== verification/Hm_Alloc.thy ===== *)
theory Hm_Alloc
  imports Hm_Evict
begin

text \<open>
  Allocation for \<open>TC_HashMap\<close> (\<open>BlockAllocator::allocateMemBlock\<close>, \<open>allocateChunk\<close>): a piece of
  memory, after evictions if there is none.
\<close>

section \<open>Records that stay\<close>

lemma pieces_sub:
  "set (sh_set v') \<subseteq> set (sh_set v) \<Longrightarrow> sh_chunks v' = sh_chunks v \<Longrightarrow> set (hm_pieces v') \<subseteq> set (hm_pieces v)"
  by (auto simp: hm_pieces_def)

lemma evicted_pieces:
  assumes "evicted mode now v es v'" "hm_inv s v ex X"
  shows "set (hm_pieces v') \<subseteq> set (hm_pieces v)" "set (sh_set v') \<subseteq> set (sh_set v)" "set es \<subseteq> set (sh_set v) - {now}"
    "sh_chunks v' = sh_chunks v" "set (sh_set v') = set (sh_set v) - set es"
proof -
  note e = evicted_set[OF assms(1) good_lists(3,4)[OF assms(2)]]
  from e show "set (sh_set v') \<subseteq> set (sh_set v)" "set es \<subseteq> set (sh_set v) - {now}" "sh_chunks v' = sh_chunks v"
    "set (sh_set v') = set (sh_set v) - set es" by auto
  then show "set (hm_pieces v') \<subseteq> set (hm_pieces v)" by (intro pieces_sub)
qed

lemma evicted_data_on:
  assumes "same_on D s s'" "set es \<subseteq> D"
  shows "evicted_data K s' es = evicted_data K s es"
proof -
  have "data_of a e d s' = data_of a e d s" if "a \<in> set es" for a e d
  proof -
    have "hm_mem s' (B_bDirty a) = hm_mem s (B_bDirty a)" "hm_mem s' (B_iSyncTime a) = hm_mem s (B_iSyncTime a)"
      using assms that by (auto simp: same_on_def)
    then show ?thesis by (simp add: data_of_def isDirty_def)
  qed
  then show ?thesis by (simp add: evicted_data_def)
qed

lemma set_in_pieces: "set (sh_set v) \<subseteq> set (hm_pieces v)"
  by (auto simp: hm_pieces_def)

text \<open>A step that keeps all that is in use, after evictions.\<close>

definition kept :: "nat \<Rightarrow> nat list \<Rightarrow> (nat \<Rightarrow> hm_entry) \<Rightarrow> hmap \<Rightarrow> shape \<Rightarrow> nat list \<Rightarrow> hmap \<Rightarrow> shape \<Rightarrow> bool" where
  "kept now ex K s v es s' v' \<longleftrightarrow> evicted (hm_cEraseMode s) now v es v' \<and> same_conf s s' \<and> same_on (set (hm_pieces v' @ ex)) s s'"

lemma kept_refl: "kept now ex K s v [] s v"
  by (simp add: kept_def)

lemma kept_trans:
  assumes "kept now ex K s v es s1 v1" "kept now ex K s1 v1 es' s2 v2" "hm_inv s v ex0 X" "hm_inv s1 v1 ex1 X1"
  shows "kept now ex K s v (es @ es') s2 v2" "evicted_data K s (es @ es') = evicted_data K s es @ evicted_data K s1 es'"
proof -
  have k: "evicted (hm_cEraseMode s) now v es v1" "same_conf s s1" "same_on (set (hm_pieces v1 @ ex)) s s1"
    "evicted (hm_cEraseMode s1) now v1 es' v2" "same_conf s1 s2" "same_on (set (hm_pieces v2 @ ex)) s1 s2"
    using assms(1,2) by (simp_all add: kept_def)
  have mode: "hm_cEraseMode s1 = hm_cEraseMode s" using k(2) by (simp add: same_conf_def)
  note e2 = evicted_pieces[OF k(4) assms(4)]
  have "same_on (set (hm_pieces v2 @ ex)) s s2" using k(3,6) by (rule same_on_trans) (use e2(1) in auto)
  then show "kept now ex K s v (es @ es') s2 v2"
    using evicted_trans[OF k(1) k(4)[unfolded mode]] same_conf_trans[OF k(2,5)] by (simp add: kept_def)
  have "set es' \<subseteq> set (hm_pieces v1 @ ex)" using e2(3) set_in_pieces[of v1] by auto
  from evicted_data_on[OF k(3) this] show "evicted_data K s (es @ es') = evicted_data K s es @ evicted_data K s1 es'" by simp
qed

section \<open>A piece of memory\<close>

lemma new_piece_good:
  assumes g: "hm_good hf s v ex X K" and m: "pool_ok m" "p \<notin> pool_live (hm_alloc s)"
    "pool_live m = insert p (pool_live (hm_alloc s))" "multi_same (hm_alloc s) m"
  shows "hm_good hf (incChunkCount (new_piece p m s)) v (p # ex) X K" "same_on (- {p}) s (incChunkCount (new_piece p m s))"
    "same_conf s (incChunkCount (new_piece p m s))" "p \<notin> set (hm_pieces v @ ex)" "p \<noteq> 0"
proof -
  let ?s = "incChunkCount (new_piece p m s)"
  have i: "mem_inv (hm_mem s) (hash_count s) v" "core_inv s v ex" "contents_inv s v X" "keys_inv hf s v X K" "pending s"
    using g by (simp_all add: hm_good_def hm_inv_def)
  have f: "hm_mem ?s = hm_mem s" "hm_hash ?s = hm_hash s" "hm_alloc ?s = m" "hm_data ?s = (hm_data s)(p := [])"
    "hm_stModifyData ?s = hm_stModifyData s" "hm_cModifyStatus ?s = hm_cModifyStatus s"
    "hm_iUsedChunk ?s = inc64 (hm_iUsedChunk s)"
    by (simp_all add: incChunkCount_def new_piece_def)
  have live: "set (hm_pieces v @ ex) = pool_live (hm_alloc s)" using i(2) by (simp add: core_inv_def)
  show new: "p \<notin> set (hm_pieces v @ ex)" using m(2) live by simp
  show so: "same_on (- {p}) s ?s" by (simp add: same_on_def f)
  show "same_conf s ?s" using m(4) by (simp add: same_conf_def incChunkCount_def new_piece_def)
  show "p \<noteq> 0" using pool.live_pos[OF m(1), of p] m(3) by simp
  have c: "core_inv ?s v (p # ex)"
  proof -
    have "hm_iUsedChunk ?s = length (hm_pieces v @ p # ex) mod 2 ^ 64"
      using i(2) by (simp only: f core_inv_def length_append list.size add_Suc_right inc64_mod add_0_right)
    moreover have "distinct (hm_pieces v @ p # ex)" "set (hm_pieces v @ p # ex) = pool_live m"
      using i(2) new m(3) live by (auto simp: core_inv_def)
    ultimately show ?thesis using i(2) m(1) by (simp add: core_inv_def f)
  qed
  have sub: "set (hm_pieces v) \<subseteq> - {p}" using new by auto
  have "contents_inv ?s v X" using i(3) same_on_mono[OF so sub] by (rule contents_inv_same) simp_all
  moreover have "keys_inv hf ?s v X K"
    using i(4) same_data_on[OF same_on_mono[OF so sub]] by (rule keys_inv_same) (simp_all add: f)
  ultimately show "hm_good hf ?s v (p # ex) X K" using i(1,5) c by (simp add: hm_good_def hm_inv_def f pending_def)
qed

text \<open>The address, 0 if there is no memory, and the map after.\<close>

lemma get_piece_ok:
  assumes "hm_good hf s v ex X K" "X \<subseteq> {now}" "length (sh_set v) < fuel"
  shows "\<exists>p b s' es v'. get_piece fuel now need vt s = Inr (p, b, vt @ evicted_data K s es, s') \<and> kept now ex K s v es s' v' \<and>
    (if p = 0 then hm_good hf s' v' ex X K
     else pool_size_ok b \<and> hm_good hf (incChunkCount s') v' (p # ex) X K \<and> p \<notin> set (hm_pieces v' @ ex))"
  using assms
proof (induction fuel arbitrary: vt s v)
  case (Suc fuel)
  have "pool_ok (hm_alloc s)" using Suc.prems(1) by (simp add: hm_good_def hm_inv_def core_inv_def)
  from pool.alloc_cases[OF this, of need] show ?case
  proof (elim disjE exE conjE)
    fix p b m assume a: "multi_allocate need (hm_alloc s) = Inr (Some (p, b), m)" "pool_ok m" "p \<notin> pool_live (hm_alloc s)"
      "pool_live m = insert p (pool_live (hm_alloc s))" "multi_same (hm_alloc s) m" "pool_size_ok b"
    note n = new_piece_good[OF Suc.prems(1) a(2-5)]
    have "kept now ex K s v [] (new_piece p m s) v"
    proof -
      have "set (hm_pieces v @ ex) \<subseteq> - {p}" using n(4) by auto
      from same_on_mono[OF n(2) this] n(3) show ?thesis
        by (simp add: kept_def same_on_def same_conf_def incChunkCount_def)
    qed
    moreover have "get_piece (Suc fuel) now need vt s = Inr (p, b, vt @ evicted_data K s [], new_piece p m s)"
      using a(1) by simp
    ultimately show ?thesis using n(1,4,5) a(6)
      by (intro exI[of _ p] exI[of _ b] exI[of _ "new_piece p m s"] exI[of _ "[]"] exI[of _ v]) simp
  next
    assume a: "multi_allocate need (hm_alloc s) = Inr (None, hm_alloc s)"
    have same: "s\<lparr>hm_alloc := hm_alloc s\<rparr> = s" by simp
    from eraseExcept_ok[OF Suc.prems(1,2), of vt] obtain n s1 es v1 where
      e: "eraseExcept now vt s = Inr (n, vt @ evicted_data K s es, s1)" "hm_good hf s1 v1 ex X K" "same_on UNIV s s1"
        "same_conf s s1" "evicted (hm_cEraseMode s) now v es v1" "n = length (evicted_data K s es)" by blast
    have k: "kept now ex K s v es s1 v1" using e(3-5) same_on_mono[OF e(3) subset_UNIV] by (simp add: kept_def)
    show ?thesis
    proof (cases "n = 0")
      case True
      then have "get_piece (Suc fuel) now need vt s = Inr (0, need, vt @ evicted_data K s es, s1)"
        using a e(1) by (simp add: same)
      then show ?thesis using k e(2)
        by (intro exI[of _ 0] exI[of _ need] exI[of _ s1] exI[of _ es] exI[of _ v1]) simp
    next
      case False
      then have es: "es \<noteq> []" using e(6) by (auto simp: evicted_data_def)
      note ep = evicted_pieces[OF e(5) good_parts(1)[OF Suc.prems(1)]]
      have "card (set (sh_set v1)) < card (set (sh_set v))"
      proof (rule psubset_card_mono)
        obtain x where "x \<in> set es" using es by (cases es) auto
        then show "set (sh_set v1) \<subset> set (sh_set v)" using ep(3,5) by auto
      qed simp
      then have "length (sh_set v1) < fuel"
        using Suc.prems(3) distinct_card[OF good_lists(4)[OF good_parts(1)[OF Suc.prems(1)]]]
          distinct_card[OF good_lists(4)[OF good_parts(1)[OF e(2)]]] by simp
      from Suc.IH[OF e(2) Suc.prems(2) this, of "vt @ evicted_data K s es"] obtain p b s' es' v' where
        r: "get_piece fuel now need (vt @ evicted_data K s es) s1 = Inr (p, b, (vt @ evicted_data K s es) @ evicted_data K s1 es', s')"
          "kept now ex K s1 v1 es' s' v'"
          "if p = 0 then hm_good hf s' v' ex X K
           else pool_size_ok b \<and> hm_good hf (incChunkCount s') v' (p # ex) X K \<and> p \<notin> set (hm_pieces v' @ ex)" by blast
      note t = kept_trans[OF k r(2) good_parts(1)[OF Suc.prems(1)] good_parts(1)[OF e(2)]]
      have "get_piece (Suc fuel) now need vt s = Inr (p, b, vt @ evicted_data K s (es @ es'), s')"
        using a e(1) False r(1) t(2) by (simp add: same)
      with t(1) r(3) show ?thesis by blast
    qed
  qed
qed simp

lemma good_limit: "hm_good hf s v ex X K \<Longrightarrow> length (sh_set v) < loop_limit s"
  using set_bound[of v] pieces_bound[of s v ex] by (simp add: hm_good_def hm_inv_def)

section \<open>A new block\<close>

definition set_used :: "nat \<Rightarrow> hmap \<Rightarrow> hmap" where
  "set_used u s = s\<lparr>hm_iUsedChunk := u\<rparr>"

lemma set_used_simps [simp]:
  "hm_mem (set_used u s) = hm_mem s" "hm_hash (set_used u s) = hm_hash s" "hm_alloc (set_used u s) = hm_alloc s"
  "hm_stModifyData (set_used u s) = hm_stModifyData s" "hm_cModifyStatus (set_used u s) = hm_cModifyStatus s"
  "(set_used u s)\<lparr>hm_mem := f\<rparr> = set_used u (s\<lparr>hm_mem := f\<rparr>)"
  "(set_used u s)\<lparr>hm_cModifyStatus := c\<rparr> = set_used u (s\<lparr>hm_cModifyStatus := c\<rparr>)"
  "(set_used u s)\<lparr>hm_stModifyData := js\<rparr> = set_used u (s\<lparr>hm_stModifyData := js\<rparr>)"
  "loc_ok (set_used u s) l = loc_ok s l"
  by (simp_all add: set_used_def) (cases l; simp add: set_used_def)

lemma updates_used: "hm_updates us (set_used u s) = bindE (hm_updates us s) (\<lambda>s. Inr (set_used u s))"
proof (induction us arbitrary: s)
  case (Cons x us)
  obtain l w where x: "x = (l, w)" by (cases x)
  then show ?case using Cons.IH[of "s\<lparr>hm_cModifyStatus := 1, hm_stModifyData := hm_stModifyData s @ [(l, w)]\<rparr>"]
    by (cases "length (hm_stModifyData s @ [(l, w)]) < journal_size")
      (simp_all add: hm_update_def Let_def assert_that_def del: length_append)
qed simp

lemma doUpdate_used: "hm_doUpdate b (set_used u s) = bindE (hm_doUpdate b s) (\<lambda>s. Inr (set_used u s))"
  by (simp add: hm_doUpdate_def Let_def)

lemma guard_bind:
  "bindE (at_block a s r) f = at_block a s (bindE r f)" "bindE (with_item i s r) f = with_item i s (bindE r f)"
  "bindE (assert_that c r) f = assert_that c (bindE r f)"
  by (simp_all add: at_block_def with_item_def assert_that_def mv_at_def)

lemma guard_used: "at_block a (set_used u s) r = at_block a s r" "with_item i (set_used u s) r = with_item i s r"
  by (simp_all add: at_block_def with_item_def)

lemma makeNew_used: "makeNew i b p (set_used u s) = bindE (makeNew i b p s) (\<lambda>s. Inr (set_used u s))"
proof -
  have txn: "bindE (hm_updates us (set_used u t)) (hm_doUpdate True) =
      bindE (bindE (hm_updates us t) (hm_doUpdate True)) (\<lambda>s. Inr (set_used u s))" for us t
    unfolding updates_used by (cases "hm_updates us t") (simp_all add: doUpdate_used)
  show ?thesis
    unfolding makeNew_def Let_def guard_used guard_bind set_used_simps txn ..
qed

lemma journal_used: "hm_updates us s = Inr t \<Longrightarrow> hm_iUsedChunk t = hm_iUsedChunk s" "hm_doUpdate c s = Inr t \<Longrightarrow> hm_iUsedChunk t = hm_iUsedChunk s"
proof -
  show "hm_updates us s = Inr t \<Longrightarrow> hm_iUsedChunk t = hm_iUsedChunk s"
  proof (induction us arbitrary: s)
    case (Cons x us)
    then show ?case by (cases x) (auto simp: hm_update_def assert_that_def Let_def split: if_splits)
  qed simp
  show "hm_doUpdate c s = Inr t \<Longrightarrow> hm_iUsedChunk t = hm_iUsedChunk s"
    by (auto simp: hm_doUpdate_def Let_def split: if_splits)
qed

lemma makeNew_count:
  assumes "makeNew i b p (incChunkCount s) = Inr s'"
  shows "bindE (makeNew i b p s) (\<lambda>s. Inr (incChunkCount s)) = Inr s'"
proof -
  have c: "incChunkCount t = set_used (inc64 (hm_iUsedChunk t)) t" for t by (simp add: incChunkCount_def set_used_def)
  obtain t where t: "makeNew i b p s = Inr t" "s' = set_used (inc64 (hm_iUsedChunk s)) t"
    using assms unfolding c makeNew_used by (cases "makeNew i b p s") simp_all
  have "hm_iUsedChunk t = hm_iUsedChunk s"
    using t(1) journal_used unfolding makeNew_def Let_def at_block_def with_item_def assert_that_def
    by (fastforce simp del: hm_updates.simps append.simps split: if_splits)
  with t show ?thesis by (simp add: c)
qed

lemma contents_inv_mono: "contents_inv s v X \<Longrightarrow> X \<subseteq> Y \<Longrightarrow> contents_inv s v Y"
  unfolding contents_inv_def by blast

lemma keys_inv_mono: "keys_inv hf s v X K \<Longrightarrow> X \<subseteq> Y \<Longrightarrow> keys_inv hf s v Y K"
  unfolding keys_inv_def by (auto intro: inj_on_subset)

text \<open>\<open>allocateMemBlock\<close>: a new block in front of all lists, still without content.\<close>

lemma makeNew_good:
  assumes g: "hm_good hf s v (p # ex) {} K" and i: "i < hash_count s" and b: "pool_size_ok b"
  shows "\<exists>s'. makeNew i b p s = Inr s' \<and> hm_good hf s' (add_block i p v) ex {p} K \<and>
    same_on (- {p}) s s' \<and> same_conf s s' \<and> hm_mem s' (B_bOnlyKey p) = 0 \<and> hm_mem s' (B_iIndex p) = i"
proof -
  note gp = good_parts[OF g]
  from makeNew_ok[OF gp(1,3) i b] obtain s' where s': "makeNew i b p s = Inr s'" "hm_inv s' (add_block i p v) ex {}"
    "pending s'" "same_on (- {p}) s s'" "same_conf s s'" "hm_mem s' (B_bOnlyKey p) = 0" "hm_mem s' (B_iIndex p) = i" by blast
  have dis: "distinct (hm_pieces v @ p # ex)" using gp(1) by (simp add: hm_inv_def core_inv_def)
  have pn: "p \<notin> set (sh_set v)" using dis set_in_pieces[of v] by auto
  have "set (hm_pieces v) \<subseteq> - {p}" using dis by auto
  from keys_inv_same[OF gp(2) same_data_on[OF same_on_mono[OF s'(4) this]], of "{}"] s'(5)
  have k: "keys_inv hf s' v {} K" by (simp add: same_conf_def)
  have "keys_inv hf s' (add_block i p v) {p} K"
    using k pn by (auto simp: keys_inv_def insert_Diff_if)
  moreover have "hm_inv s' (add_block i p v) ex {p}" using s'(2) contents_inv_mono[of s' _ "{}" "{p}"] by (simp add: hm_inv_def)
  ultimately show ?thesis using s' by (auto simp: hm_good_def)
qed

lemma allocateMemBlock_ok:
  assumes g: "hm_good hf s v ex {} K" and i: "i < hash_count s"
  shows "\<exists>p b s' es v'. allocateMemBlock i need vt s = Inr (p, b, vt @ evicted_data K s es, s') \<and>
    evicted (hm_cEraseMode s) 0 v es v' \<and> same_conf s s' \<and> same_on (set (hm_pieces v' @ ex)) s s' \<and>
    (if p = 0 then hm_good hf s' v' ex {} K
     else p \<notin> set (hm_pieces v' @ ex) \<and> hm_good hf s' (add_block i p v') ex {p} K \<and>
       hm_mem s' (B_bOnlyKey p) = 0 \<and> hm_mem s' (B_iIndex p) = i)"
proof -
  from get_piece_ok[OF g _ good_limit[OF g], of 0 need vt] obtain p b s1 es v1 where
    r: "get_piece (loop_limit s) 0 need vt s = Inr (p, b, vt @ evicted_data K s es, s1)" "kept 0 ex K s v es s1 v1"
      "if p = 0 then hm_good hf s1 v1 ex {} K
       else pool_size_ok b \<and> hm_good hf (incChunkCount s1) v1 (p # ex) {} K \<and> p \<notin> set (hm_pieces v1 @ ex)" by auto
  have k: "evicted (hm_cEraseMode s) 0 v es v1" "same_conf s s1" "same_on (set (hm_pieces v1 @ ex)) s s1"
    using r(2) by (simp_all add: kept_def)
  show ?thesis
  proof (cases "p = 0")
    case True
    then have "allocateMemBlock i need vt s = Inr (0, b, vt @ evicted_data K s es, s1)"
      using r(1) by (simp add: allocateMemBlock_def)
    with k r(3) True show ?thesis by (intro exI[of _ 0] exI[of _ b] exI[of _ s1] exI[of _ es] exI[of _ v1]) simp
  next
    case False
    then have h: "pool_size_ok b" "hm_good hf (incChunkCount s1) v1 (p # ex) {} K" "p \<notin> set (hm_pieces v1 @ ex)" using r(3) by simp_all
    have "i < hash_count (incChunkCount s1)" using i k(2) by (simp add: incChunkCount_def same_conf_def)
    from makeNew_good[OF h(2) this h(1)] obtain s' where
      m: "makeNew i b p (incChunkCount s1) = Inr s'" "hm_good hf s' (add_block i p v1) ex {p} K"
        "same_on (- {p}) (incChunkCount s1) s'" "same_conf (incChunkCount s1) s'" "hm_mem s' (B_bOnlyKey p) = 0"
        "hm_mem s' (B_iIndex p) = i" by blast
    have "bindE (makeNew i b p s1) (\<lambda>s. Inr (p, b, vt @ evicted_data K s0 es, incChunkCount s)) =
        Inr (p, b, vt @ evicted_data K s0 es, s')" for s0
      using makeNew_count[OF m(1)] by (cases "makeNew i b p s1") auto
    then have "allocateMemBlock i need vt s = Inr (p, b, vt @ evicted_data K s es, s')"
      using r(1) False by (simp add: allocateMemBlock_def)
    moreover have "same_on (set (hm_pieces v1 @ ex)) s s'"
    proof -
      have "set (hm_pieces v1 @ ex) \<subseteq> - {p}" using h(3) by auto
      moreover have "same_on D (incChunkCount s1) s' = same_on D s1 s'" for D by (simp add: same_on_def incChunkCount_def)
      ultimately show ?thesis using k(3) m(3) by (auto intro: same_on_trans)
    qed
    moreover have "same_conf s s'"
      using k(2) m(4) same_conf_trans[of s s1 s'] by (simp add: same_conf_def incChunkCount_def)
    ultimately show ?thesis using k(1) m(2,5,6) h(3) False
      by (intro exI[of _ p] exI[of _ b] exI[of _ s'] exI[of _ es] exI[of _ v1]) simp
  qed
qed

end
