(* ===== verification/Hm_Chain.thy ===== *)
theory Hm_Chain
  imports Hm_Alloc
begin

text \<open>
  The chain of chunks of a block (\<open>Block::allocate\<close>): chunks are added or given back until exactly
  those are left that the data needs.
\<close>

section \<open>Room\<close>

text \<open>\<open>n\<close> bytes fill all chunks but the last and end in the last.\<close>

fun fits :: "mem \<Rightarrow> nat list \<Rightarrow> nat \<Rightarrow> bool" where
  "fits m [] n \<longleftrightarrow> False"
| "fits m [c] n \<longleftrightarrow> 0 < n \<and> n \<le> m (C_iSize c) - chunk_link_size"
| "fits m (c # d # ds) n \<longleftrightarrow> m (C_iSize c) - chunk_link_size < n \<and> fits m (d # ds) (n - (m (C_iSize c) - chunk_link_size))"

definition chain_fits :: "mem \<Rightarrow> nat \<Rightarrow> nat list \<Rightarrow> nat \<Rightarrow> bool" where
  "chain_fits m a cs n \<longleftrightarrow> (case cs of [] \<Rightarrow> n \<le> m (B_iSize a) - block_head_size
     | _ \<Rightarrow> m (B_iSize a) - block_head_size < n \<and> fits m cs (n - (m (B_iSize a) - block_head_size)))"

lemma fits_cong: "(\<And>c. c \<in> set cs \<Longrightarrow> m' (C_iSize c) = m (C_iSize c)) \<Longrightarrow> fits m' cs n = fits m cs n"
  by (induction m cs n rule: fits.induct) auto

lemma fits_Cons: "cs \<noteq> [] \<Longrightarrow>
   fits m (c # cs) n \<longleftrightarrow> m (C_iSize c) - chunk_link_size < n \<and> fits m cs (n - (m (C_iSize c) - chunk_link_size))"
  by (cases cs) simp_all

lemma same_on_field: "same_on D s s' \<Longrightarrow> a \<in> D \<Longrightarrow> rec_at l = Some a \<Longrightarrow> hm_mem s' l = hm_mem s l"
  unfolding same_on_def by blast

section \<open>New chunks\<close>

lemma poke_good:
  assumes "hm_good hf s v (p # ex) X K"
  shows "hm_good hf (poke (C_iSize p) x s) v (p # ex) X K" "same_on (- {p}) s (poke (C_iSize p) x s)"
proof -
  let ?s = "poke (C_iSize p) x s"
  have i: "mem_inv (hm_mem s) (hash_count s) v" "core_inv s v (p # ex)" "contents_inv s v X" "keys_inv hf s v X K" "pending s"
    using assms by (simp_all add: hm_good_def hm_inv_def)
  show so: "same_on (- {p}) s ?s" by (auto simp: same_on_def)
  have sub: "set (hm_pieces v) \<subseteq> - {p}" using i(2) by (auto simp: core_inv_def)
  note sp = same_on_mono[OF so sub]
  have m: "lists_inv (hm_mem s) v" "buckets_inv (hm_mem s) (hash_count s) v" "chains_inv (hm_mem s) v" "counts_inv (hm_mem s) v"
    "tails_inv (hm_mem s) v" using i(1) by (simp_all add: mem_inv_def)
  have c: "hm_mem ?s (C_iSize d) = hm_mem s (C_iSize d)" if "d \<in> set (hm_pieces v)" for d using that sub by auto
  have "chains_inv (hm_mem ?s) v"
    unfolding chains_inv_def
  proof
    fix a assume a: "a \<in> set (sh_set v)"
    then have "chain_at (hm_mem s) a (sh_chunks v a)" "sizes_at (hm_mem s) a (sh_chunks v a)" using m(3) by (simp_all add: chains_inv_def)
    moreover have "\<forall>d\<in>set (sh_chunks v a). hm_mem ?s (C_iSize d) = hm_mem s (C_iSize d)" 
      using subsetD[OF in_pieces[OF a]] by (intro ballI c) simp
    moreover have "chain_at (hm_mem ?s) a (sh_chunks v a)" if "chain_at (hm_mem s) a (sh_chunks v a)"
      using that by (rule chain_at_cong) simp_all
    ultimately show "chain_at (hm_mem ?s) a (sh_chunks v a) \<and> sizes_at (hm_mem ?s) a (sh_chunks v a)"
      by (simp add: sizes_at_def)
  qed
  moreover have "lists_inv (hm_mem ?s) v" by (rule lists_inv_cong[OF m(1)]) auto
  moreover have "buckets_inv (hm_mem ?s) (hash_count s) v" by (rule buckets_inv_cong[OF m(2)]) auto
  moreover have "counts_inv (hm_mem ?s) v" by (rule counts_inv_cong[OF m(4)]) auto
  moreover have "tails_inv (hm_mem ?s) v" by (rule tails_inv_cong[OF m(5)]) auto
  moreover have "contents_inv ?s v X" using i(3) sp by (rule contents_inv_same) simp_all
  moreover have "keys_inv hf ?s v X K" using i(4) same_data_on[OF sp] by (rule keys_inv_same) simp_all
  ultimately show "hm_good hf ?s v (p # ex) X K" using i(2,5)
    by (simp add: hm_good_def hm_inv_def core_inv_def mem_inv_def)
qed

lemma good_perm:
  assumes "hm_good hf s v ex X K" "distinct ex'" "set ex' = set ex"
  shows "hm_good hf s v ex' X K"
  using assms perm_core[of s v ex ex'] by (simp add: hm_good_def hm_inv_def)

lemma dealloc_good:
  assumes "hm_good hf s v (ps @ ex) X K"
  shows "\<exists>s'. deallocateMemBlocks ps s = Inr s' \<and> hm_good hf s' v ex X K \<and> same_on UNIV s s' \<and> same_conf s s' \<and> hm_mem s' = hm_mem s"
proof -
  have i: "mem_inv (hm_mem s) (hash_count s) v" "core_inv s v (ps @ ex)" "contents_inv s v X" "keys_inv hf s v X K" "pending s"
    using assms by (simp_all add: hm_good_def hm_inv_def)
  from dealloc_all[OF i(2)] obtain s' m u where s': "deallocateMemBlocks ps s = Inr s'" "core_inv s' v ex"
    "s' = s\<lparr>hm_alloc := m, hm_iUsedChunk := u\<rparr>" "multi_same (hm_alloc s) m" by blast
  have "same_on UNIV s s'" "same_conf s s'" using s'(3,4) by (simp_all add: same_on_def same_conf_def)
  moreover have "contents_inv s' v X" "keys_inv hf s' v X K" "pending s'" "hm_mem s' = hm_mem s" "hm_hash s' = hm_hash s"
    using i(3-5) s'(3) by (simp_all add: contents_inv_def keys_inv_def rec_ok_def hashIndex_def pending_def)
  ultimately show ?thesis using s'(1,2) i(1) by (auto simp: hm_good_def hm_inv_def)
qed

lemma get_chunks_ok:
  assumes "hm_good hf s v (chunks @ ex) X K" "X \<subseteq> {a}" "0 < fn" "fn \<le> fuel"
    "\<forall>c\<in>set chunks. chunk_link_size < hm_mem s (C_iSize c)"
  shows "\<exists>ret cs s' es v'. get_chunks fuel a fn chunks vt s = Inr (ret, cs, vt @ evicted_data K s es, s') \<and>
    kept a ex K s v es s' v' \<and>
    (if ret = RT_OK then \<exists>new. cs = chunks @ new \<and> hm_good hf s' v' (cs @ ex) X K \<and> fits (hm_mem s') new fn \<and>
       (\<forall>c\<in>set cs. chunk_link_size < hm_mem s' (C_iSize c)) \<and> same_on (set chunks) s s'
     else ret = RT_NO_MEMORY \<and> cs = [] \<and> hm_good hf s' v' ex X K)"
  using assms
proof (induction fuel arbitrary: fn chunks vt s v)
  case (Suc fuel)
  note g = Suc.prems(1)
  from get_piece_ok[OF g Suc.prems(2) good_limit[OF g], of fn vt] obtain p b s1 es v1 where
    r: "get_piece (loop_limit s) a fn vt s = Inr (p, b, vt @ evicted_data K s es, s1)" "kept a (chunks @ ex) K s v es s1 v1"
      "if p = 0 then hm_good hf s1 v1 (chunks @ ex) X K
       else pool_size_ok b \<and> hm_good hf (incChunkCount s1) v1 (p # chunks @ ex) X K \<and> p \<notin> set (hm_pieces v1 @ chunks @ ex)" by blast
  have k: "evicted (hm_cEraseMode s) a v es v1" "same_conf s s1" "same_on (set (hm_pieces v1 @ chunks @ ex)) s s1"
    using r(2) by (simp_all add: kept_def)
  have sub: "set (hm_pieces v1 @ ex) \<subseteq> set (hm_pieces v1 @ chunks @ ex)" by auto
  show ?case
  proof (cases "p = 0")
    case True
    then have "hm_good hf s1 v1 (chunks @ ex) X K" using r(3) by simp
    from dealloc_good[OF this] obtain s' where d: "deallocateMemBlocks chunks s1 = Inr s'" "hm_good hf s' v1 ex X K"
      "same_on UNIV s1 s'" "same_conf s1 s'" by blast
    have "get_chunks (Suc fuel) a fn chunks vt s = Inr (RT_NO_MEMORY, [], vt @ evicted_data K s es, s')"
      using r(1) True d(1) by (simp add: ba_allocateChunk_def)
    moreover have "kept a ex K s v es s' v1"
      unfolding kept_def using k(1) same_conf_trans[OF k(2) d(4)] same_on_trans[OF k(3) d(3) sub subset_UNIV] by blast
    ultimately show ?thesis using d(2)
      by (intro exI[of _ RT_NO_MEMORY] exI[of _ "[]"] exI[of _ s'] exI[of _ es] exI[of _ v1]) simp
  next
    case False
    then have h: "pool_size_ok b" "hm_good hf (incChunkCount s1) v1 (p # chunks @ ex) X K" "p \<notin> set (hm_pieces v1 @ chunks @ ex)"
      using r(3) by simp_all
    have b: "b mod 2 ^ 32 = b" "chunk_link_size < b"
      using h(1) by (simp_all add: pool_size_ok_def min_block_def chunk_link_size_def)
    let ?s = "poke (C_iSize p) b (incChunkCount s1)"
    note pk = poke_good[OF h(2), of b]
    have so: "same_on (- {p}) s1 ?s" using pk(2) by (simp add: same_on_def incChunkCount_def)
    have cs: "same_conf s ?s" using same_conf_trans[OF k(2), of ?s] by (simp add: same_conf_def incChunkCount_def)
    have allD: "set (hm_pieces v1 @ chunks @ ex) \<subseteq> - {p}" using h(3) by auto
    have sk: "same_on (set (hm_pieces v1 @ chunks @ ex)) s ?s" by (rule same_on_trans[OF k(3) so subset_refl allD])
    have kept1: "kept a ex K s v es ?s v1"
      unfolding kept_def using k(1) cs same_on_mono[OF sk sub] by blast
    have chunk: "hm_mem ?s (C_iSize p) = b" by simp
    have old: "chunk_link_size < hm_mem ?s (C_iSize c)" if "c \<in> set (chunks @ [p])" for c
    proof (cases "c = p")
      case True
      then show ?thesis using b(2) by simp
    next
      case False
      then have "c \<in> set chunks" using that by auto
      then show ?thesis using Suc.prems(5) same_on_field[OF sk, of c "C_iSize c"] by simp
    qed
    have g1: "hm_good hf ?s v1 ((chunks @ [p]) @ ex) X K"
    proof (rule good_perm[OF pk(1)])
      have "distinct (hm_pieces v1 @ p # chunks @ ex)" using h(2) by (simp add: hm_good_def hm_inv_def core_inv_def incChunkCount_def)
      then show "distinct ((chunks @ [p]) @ ex)" by auto
    qed auto
    have step: "get_chunks (Suc fuel) a fn chunks vt s = (if fn \<le> b - chunk_link_size then
        Inr (RT_OK, chunks @ [p], vt @ evicted_data K s es, ?s)
      else get_chunks fuel a (fn - (b - chunk_link_size)) (chunks @ [p]) (vt @ evicted_data K s es) ?s)"
      using r(1) False b by (simp add: ba_allocateChunk_def Let_def)
    show ?thesis
    proof (cases "fn \<le> b - chunk_link_size")
      case True
      have "get_chunks (Suc fuel) a fn chunks vt s = Inr (RT_OK, chunks @ [p], vt @ evicted_data K s es, ?s)"
        using step True by simp
      moreover have "same_on (set chunks) s ?s" by (rule same_on_mono[OF sk]) auto
      moreover have "fits (hm_mem ?s) [p] fn" using True Suc.prems(3) by simp
      ultimately show ?thesis using kept1 g1 old
        by (intro exI[of _ RT_OK] exI[of _ "chunks @ [p]"] exI[of _ ?s] exI[of _ es] exI[of _ v1]) (auto simp del: poke_fields)
    next
      case False
      have "0 < fn - (b - chunk_link_size)" "fn - (b - chunk_link_size) \<le> fuel" using False b(2) Suc.prems(4) by auto
      from Suc.IH[OF g1 Suc.prems(2) this, of "vt @ evicted_data K s es"] old obtain ret cs' s' es' v' where
        q: "get_chunks fuel a (fn - (b - chunk_link_size)) (chunks @ [p]) (vt @ evicted_data K s es) ?s =
            Inr (ret, cs', (vt @ evicted_data K s es) @ evicted_data K ?s es', s')" "kept a ex K ?s v1 es' s' v'"
          "if ret = RT_OK then \<exists>new. cs' = (chunks @ [p]) @ new \<and> hm_good hf s' v' (cs' @ ex) X K \<and>
             fits (hm_mem s') new (fn - (b - chunk_link_size)) \<and> (\<forall>c\<in>set cs'. chunk_link_size < hm_mem s' (C_iSize c)) \<and>
             same_on (set (chunks @ [p])) ?s s'
           else ret = RT_NO_MEMORY \<and> cs' = [] \<and> hm_good hf s' v' ex X K" by blast
      note t = kept_trans[OF kept1 q(2) good_parts(1)[OF g] good_parts(1)[OF g1]]
      have res: "get_chunks (Suc fuel) a fn chunks vt s = Inr (ret, cs', vt @ evicted_data K s (es @ es'), s')"
        using step False q(1) t(2) by simp
      show ?thesis
      proof (cases "ret = RT_OK")
        case True
        then obtain new where n: "cs' = (chunks @ [p]) @ new" "hm_good hf s' v' (cs' @ ex) X K"
          "fits (hm_mem s') new (fn - (b - chunk_link_size))" "\<forall>c\<in>set cs'. chunk_link_size < hm_mem s' (C_iSize c)"
          "same_on (set (chunks @ [p])) ?s s'" using q(3) by auto
        have "hm_mem s' (C_iSize p) = b" using same_on_field[OF n(5), of p "C_iSize p"] chunk by simp
        moreover have "new \<noteq> []" using n(3) by auto
        ultimately have "fits (hm_mem s') (p # new) fn" using n(3) False by (simp add: fits_Cons)
        moreover have "same_on (set chunks) s s'" by (rule same_on_trans[OF sk n(5)]) auto
        ultimately have "\<exists>new. cs' = chunks @ new \<and> hm_good hf s' v' (cs' @ ex) X K \<and> fits (hm_mem s') new fn \<and>
            (\<forall>c\<in>set cs'. chunk_link_size < hm_mem s' (C_iSize c)) \<and> same_on (set chunks) s s'"
          using n(1,2,4) by (intro exI[of _ "p # new"]) simp
        then show ?thesis using res t(1) True
          by (intro exI[of _ ret] exI[of _ cs'] exI[of _ s'] exI[of _ "es @ es'"] exI[of _ v']) simp
      next
        case False
        then show ?thesis using res t(1) q(3)
          by (intro exI[of _ ret] exI[of _ cs'] exI[of _ s'] exI[of _ "es @ es'"] exI[of _ v']) simp
      qed
    qed
  qed
qed simp


section \<open>Changing a chain\<close>

text \<open>Only the chain fields of \<open>D\<close> change.\<close>

definition chain_step :: "nat set \<Rightarrow> hmap \<Rightarrow> hmap \<Rightarrow> bool" where
  "chain_step D s s' \<longleftrightarrow>
     (\<forall>l. group_of l \<noteq> StatG \<and> \<not> (group_of l = ChainG \<and> (\<exists>a\<in>D. rec_at l = Some a)) \<longrightarrow> hm_mem s' l = hm_mem s l) \<and>
     hm_data s' = hm_data s \<and> hm_alloc s' = hm_alloc s \<and> hm_hash s' = hm_hash s \<and> hm_iUsedChunk s' = hm_iUsedChunk s \<and>
     same_conf s s' \<and> pending s'"

lemma chain_step_field:
  "chain_step D s s' \<Longrightarrow> group_of l \<noteq> StatG \<Longrightarrow> group_of l \<noteq> ChainG \<or> (\<forall>a. rec_at l = Some a \<longrightarrow> a \<notin> D) \<Longrightarrow>
   hm_mem s' l = hm_mem s l"
  unfolding chain_step_def by blast

lemma chain_step_trans:
  "chain_step D s s' \<Longrightarrow> chain_step D' s' s'' \<Longrightarrow> D \<union> D' \<subseteq> E \<Longrightarrow> chain_step E s s''"
  unfolding chain_step_def using same_conf_trans by (smt (verit) Un_iff subsetD)

lemma chain_step_live: "chain_step D s s' \<Longrightarrow> hm_live s' a = hm_live s a"
  by (simp add: chain_step_def)

lemma chain_step_same: "chain_step D s s' \<Longrightarrow> same_on (- D) s s'"
  unfolding same_on_def
proof (intro conjI allI impI ballI)
  fix l a assume c: "chain_step D s s'" and l: "rec_at l = Some a \<and> a \<in> - D"
  then have "group_of l \<noteq> StatG" by (cases l) auto
  with c l show "hm_mem s' l = hm_mem s l" by (intro chain_step_field) auto
qed (simp add: chain_step_def)

lemma chain_txn:
  assumes "pending s" "length us \<le> 16" "\<forall>u\<in>set us. group_of (fst u) = ChainG \<and> (\<exists>a\<in>D. rec_at (fst u) = Some a)"
    "\<And>a. a \<in> D \<Longrightarrow> hm_live s a"
  shows "bindE (hm_updates us s) (hm_doUpdate True) = Inr (after us s)" "chain_step D s (after us s)"
proof -
  have lo: "loc_ok s l" if lx: "(l, x) \<in> set us" for l x
  proof -
    obtain a where "group_of l = ChainG" "a \<in> D" "rec_at l = Some a" using assms(3) lx by fastforce
    with assms(4)[of a] show ?thesis by (cases l) auto
  qed
  show "bindE (hm_updates us s) (hm_doUpdate True) = Inr (after us s)" by (rule pending_txn[OF assms(1,2) lo])
  have "hm_mem (after us s) l = hm_mem s l"
    if "group_of l \<noteq> StatG" "\<not> (group_of l = ChainG \<and> (\<exists>a\<in>D. rec_at l = Some a))" for l
  proof -
    have "l \<notin> fst ` set us" using assms(3) that(2) by fastforce
    then show ?thesis using after_mem[OF assms(1) that(1)] store_all_other by simp
  qed
  then show "chain_step D s (after us s)" by (simp add: chain_step_def)
qed

lemma joinChunk_ok:
  assumes "pending s" "distinct (c # ds)" "\<forall>d\<in>set (c # ds). hm_live s d"
  shows "\<exists>s'. joinChunk c (c # ds) s = Inr s' \<and> chain_step (set (c # ds)) s s' \<and> tail_at (hm_mem s') c ds"
  using assms
proof (induction ds arbitrary: c s)
  case Nil
  let ?us = "[(C_bNextChunk c, 0::nat)]"
  have "bindE (hm_updates ?us s) (hm_doUpdate True) = Inr (after ?us s)" "chain_step {c} s (after ?us s)"
    by (rule chain_txn[where D = "{c}"]; use Nil in auto)+
  moreover have "hm_mem (after ?us s) (C_bNextChunk c) = 0" using Nil.prems(1) by (simp add: after_mem)
  ultimately show ?case by (simp del: hm_updates.simps bindE_Inr_iff)
next
  case (Cons d ds)
  let ?us = "[(C_bNextChunk c, 1::nat), (C_iNextChunk c, d), (C_bNextChunk d, 0), (C_iNextChunk d, 0)]"
  have t: "bindE (hm_updates ?us s) (hm_doUpdate True) = Inr (after ?us s)" "chain_step {c, d} s (after ?us s)"
    by (rule chain_txn[where D = "{c, d}"]; use Cons.prems in auto)+
  have "\<forall>x\<in>set (d # ds). hm_live (after ?us s) x" using Cons.prems(3) by simp
  from Cons.IH[OF pending_after _ this] Cons.prems(2) obtain s' where s': "joinChunk d (d # ds) (after ?us s) = Inr s'"
    "chain_step (set (d # ds)) (after ?us s) s'" "tail_at (hm_mem s') d ds" by auto
  have "c \<noteq> d" "c \<notin> set (d # ds)" using Cons.prems(2) by auto
  then have "hm_mem s' (C_bNextChunk c) = 1" "hm_mem s' (C_iNextChunk c) = d"
    using chain_step_field[OF s'(2), of "C_bNextChunk c"] chain_step_field[OF s'(2), of "C_iNextChunk c"] Cons.prems(1)
    by (simp_all add: after_mem)
  moreover have "chain_step (set (c # d # ds)) s s'" by (rule chain_step_trans[OF t(2) s'(2)]) auto
  ultimately show ?case using t(1) s'(1,3) by (simp del: hm_updates.simps bindE_Inr_iff)
qed

lemma hang_chunks_ok:
  assumes "pending s" "distinct cs" "cs \<noteq> []" "q \<notin> set cs" "\<forall>d\<in>insert q (set cs). hm_live s d"
    "flag \<noteq> link" "group_of flag = ChainG" "group_of link = ChainG" "rec_at flag = Some q" "rec_at link = Some q"
  shows "\<exists>s'. hang_chunks flag link cs s = Inr s' \<and> chain_step (insert q (set cs)) s s' \<and>
    hm_mem s' flag = 1 \<and> hm_mem s' link = hd cs \<and> tail_at (hm_mem s') (hd cs) (tl cs)"
proof -
  obtain c ds where cs: "cs = c # ds" using assms(3) by (cases cs) auto
  let ?us = "[(flag, 1::nat), (link, c), (C_bNextChunk c, 0), (C_iNextChunk c, 0)]"
  have t: "bindE (hm_updates ?us s) (hm_doUpdate True) = Inr (after ?us s)" "chain_step {q, c} s (after ?us s)"
    by (rule chain_txn[where D = "{q, c}"]; use assms cs in auto)+
  have "\<forall>d\<in>set (c # ds). hm_live (after ?us s) d" using assms(5) cs by simp
  from joinChunk_ok[OF pending_after _ this] assms(2) cs obtain s' where
    s': "joinChunk c (c # ds) (after ?us s) = Inr s'" "chain_step (set (c # ds)) (after ?us s) s'" "tail_at (hm_mem s') c ds" by auto
  have cells: "C_bNextChunk c \<noteq> flag" "C_iNextChunk c \<noteq> flag" "C_bNextChunk c \<noteq> link" "C_iNextChunk c \<noteq> link"
    using assms(4,9,10) cs by auto
  have "hm_mem s' flag = hm_mem (after ?us s) flag" "hm_mem s' link = hm_mem (after ?us s) link"
    by (rule chain_step_field[OF s'(2)]; use assms(4,7-10) cs in simp)+
  then have "hm_mem s' flag = 1" "hm_mem s' link = c" using assms(1,6-8) cells by (auto simp: after_mem)
  moreover have "chain_step (insert q (set cs)) s s'" by (rule chain_step_trans[OF t(2) s'(2)]) (auto simp: cs)
  moreover have "hang_chunks flag link cs s = Inr s'"
    using t(1) s'(1) by (simp add: hang_chunks_def cs del: hm_updates.simps bindE_Inr_iff)
  ultimately show ?thesis using s'(3) by (auto simp: cs)
qed

subsection \<open>Chains as paths\<close>

fun hm_linked :: "mem \<Rightarrow> nat \<Rightarrow> nat list \<Rightarrow> bool" where
  "hm_linked m c [] \<longleftrightarrow> True"
| "hm_linked m c (d # ds) \<longleftrightarrow> m (C_bNextChunk c) \<noteq> 0 \<and> m (C_iNextChunk c) = d \<and> hm_linked m d ds"

lemma tail_at_linked: "tail_at m c cs \<longleftrightarrow> hm_linked m c cs \<and> m (C_bNextChunk (last (c # cs))) = 0"
  by (induction cs arbitrary: c) auto

lemma linked_append: "hm_linked m c (cs @ ds) \<longleftrightarrow> hm_linked m c cs \<and> hm_linked m (last (c # cs)) ds"
  by (induction cs arbitrary: c) auto

lemma hm_linked_cong:
  "hm_linked m c cs \<Longrightarrow> (\<And>d. d \<in> set (butlast (c # cs)) \<Longrightarrow> m' (C_bNextChunk d) = m (C_bNextChunk d)) \<Longrightarrow>
   (\<And>d. d \<in> set (butlast (c # cs)) \<Longrightarrow> m' (C_iNextChunk d) = m (C_iNextChunk d)) \<Longrightarrow> hm_linked m' c cs"
  by (induction cs arbitrary: c) auto

text \<open>The flag and the link of the last node of a chain.\<close>

definition end_flag :: "nat \<Rightarrow> nat list \<Rightarrow> loc" where
  "end_flag a cs = (if cs = [] then B_bNextChunk a else C_bNextChunk (last cs))"

definition end_link :: "nat \<Rightarrow> nat list \<Rightarrow> loc" where
  "end_link a cs = (if cs = [] then B_iNextChunk a else C_iNextChunk (last cs))"

lemma end_fields:
  "end_flag a cs \<noteq> end_link a cs" "group_of (end_flag a cs) = ChainG" "group_of (end_link a cs) = ChainG"
  "rec_at (end_flag a cs) = Some (last (a # cs))" "rec_at (end_link a cs) = Some (last (a # cs))"
  by (simp_all add: end_flag_def end_link_def)

lemma chain_at_end: "chain_at m a cs \<longleftrightarrow> (case cs of [] \<Rightarrow> True | c # ds \<Rightarrow> m (B_bNextChunk a) \<noteq> 0 \<and> m (B_iNextChunk a) = c \<and> hm_linked m c ds) \<and>
    m (end_flag a cs) = 0"
  by (cases cs) (auto simp: tail_at_linked end_flag_def)

lemma butlast_not_last: "d \<in> set (butlast xs) \<Longrightarrow> distinct xs \<Longrightarrow> d \<noteq> last xs"
  by (induction xs rule: rev_induct) auto

text \<open>The cells before the last node.\<close>

lemma chain_grow:
  assumes "chain_at m a cs" "distinct (a # cs)" "\<And>l q. q \<in> set (a # cs) - {last (a # cs)} \<Longrightarrow> rec_at l = Some q \<Longrightarrow> group_of l = ChainG \<Longrightarrow> m' l = m l"
    "m' (end_flag a cs) \<noteq> 0" "m' (end_link a cs) = n" "tail_at m' n ns"
  shows "chain_at m' a (cs @ n # ns)"
proof (cases cs)
  case Nil
  then show ?thesis using assms(4-6) by (simp add: end_flag_def end_link_def)
next
  case (Cons c ds)
  have l: "last (a # cs) = last (c # ds)" by (simp add: Cons)
  have m: "m (B_bNextChunk a) \<noteq> 0" "m (B_iNextChunk a) = c" "hm_linked m c ds" using assms(1) by (auto simp: chain_at_end Cons)
  have "a \<noteq> last (c # ds)" using assms(2) Cons by (metis distinct.simps(2) last_in_set list.distinct(1))
  then have a: "m' (B_bNextChunk a) = m (B_bNextChunk a)" "m' (B_iNextChunk a) = m (B_iNextChunk a)"
    using assms(3)[of a] l by auto
  have bl: "d \<in> set (a # cs) - {last (a # cs)}" if "d \<in> set (butlast (c # ds))" for d
  proof -
    have "d \<noteq> last (c # ds)" by (rule butlast_not_last[OF that]) (use assms(2) Cons in simp)
    then show ?thesis using in_set_butlastD[OF that] l Cons by auto
  qed
  have "hm_linked m' c ds"
    by (rule hm_linked_cong[OF m(3)]; rule assms(3)[OF bl]) simp_all
  then have "hm_linked m' c (ds @ n # ns)" "m' (C_bNextChunk (last (c # ds @ n # ns))) = 0"
    using assms(4-6) by (auto simp: linked_append Cons end_flag_def end_link_def tail_at_linked split: if_splits)
  then have "tail_at m' c (ds @ n # ns)" unfolding tail_at_linked by simp
  then show ?thesis using m(1,2) a Cons by simp
qed

lemma chain_cut:
  assumes "chain_at m a (cs @ ds)" "distinct (a # cs)" "\<And>l q. q \<in> set (a # cs) - {last (a # cs)} \<Longrightarrow> rec_at l = Some q \<Longrightarrow> group_of l = ChainG \<Longrightarrow> m' l = m l"
    "m' (end_flag a cs) = 0"
  shows "chain_at m' a cs"
proof (cases cs)
  case Nil
  then show ?thesis using assms(4) by (simp add: end_flag_def)
next
  case (Cons c es)
  have l: "last (a # cs) = last (c # es)" by (simp add: Cons)
  have m: "m (B_bNextChunk a) \<noteq> 0" "m (B_iNextChunk a) = c" "hm_linked m c es"
    using assms(1) by (auto simp: chain_at_end Cons linked_append)
  have "a \<noteq> last (c # es)" using assms(2) Cons by (metis distinct.simps(2) last_in_set list.distinct(1))
  then have a: "m' (B_bNextChunk a) = m (B_bNextChunk a)" "m' (B_iNextChunk a) = m (B_iNextChunk a)"
    using assms(3)[of a] l by auto
  have bl: "d \<in> set (a # cs) - {last (a # cs)}" if "d \<in> set (butlast (c # es))" for d
  proof -
    have "d \<noteq> last (c # es)" by (rule butlast_not_last[OF that]) (use assms(2) Cons in simp)
    then show ?thesis using in_set_butlastD[OF that] l Cons by auto
  qed
  have "hm_linked m' c es"
    by (rule hm_linked_cong[OF m(3)]; rule assms(3)[OF bl]) simp_all
  then show ?thesis using m(1,2) a assms(4) by (simp add: chain_at_end Cons)
qed

lemma chain_rest:
  "chain_at m a (cs @ d # ds) \<Longrightarrow> m (end_flag a cs) \<noteq> 0 \<and> m (end_link a cs) = d \<and> tail_at m d ds"
  by (cases cs) (auto simp: end_flag_def end_link_def tail_at_linked linked_append)

end
