(* ===== verification/Hm_Fit.thy ===== *)
theory Hm_Fit
  imports Hm_Chain
begin

text \<open>
  \<open>Block::allocate\<close>: the chain of the block is made to fit the data; other records are evicted
  if there is no memory, and the block is as before if there still is none.
\<close>

section \<open>Another chain for a block\<close>

definition set_chunks :: "nat \<Rightarrow> nat list \<Rightarrow> shape \<Rightarrow> shape" where
  "set_chunks a cs v = v\<lparr>sh_chunks := (sh_chunks v)(a := cs)\<rparr>"

lemma set_chunks_simps [simp]:
  "sh_set (set_chunks a cs v) = sh_set v" "sh_get (set_chunks a cs v) = sh_get v"
  "sh_bucket (set_chunks a cs v) = sh_bucket v" "sh_chunks (set_chunks a cs v) b = (if b = a then cs else sh_chunks v b)"
  by (simp_all add: set_chunks_def)

lemma pieces_set_chunks:
  assumes "a \<in> set (sh_set v)" "distinct (hm_pieces v @ ex)" "distinct (cs @ ex')" "set (cs @ ex') = set (sh_chunks v a @ ex)"
  shows "distinct (hm_pieces (set_chunks a cs v) @ ex')" "set (hm_pieces (set_chunks a cs v) @ ex') = set (hm_pieces v @ ex)"
    "length (hm_pieces (set_chunks a cs v) @ ex') = length (hm_pieces v @ ex)"
proof -
  from assms(1) obtain xs ys where x: "sh_set v = xs @ a # ys" "a \<notin> set xs" by (meson split_list_first)
  let ?f = "\<lambda>b. b # sh_chunks v b" and ?g = "\<lambda>b. b # (if b = a then cs else sh_chunks v b)"
  have p: "hm_pieces v = concat (List.map ?f xs) @ (a # sh_chunks v a) @ concat (List.map ?f ys)"
    using x(1) by (simp add: hm_pieces_def)
  have "a \<notin> set ys" using assms(2) unfolding p by auto
  then have "List.map ?g xs = List.map ?f xs" "List.map ?g ys = List.map ?f ys" using x(2) by auto
  then have q: "hm_pieces (set_chunks a cs v) = concat (List.map ?f xs) @ (a # cs) @ concat (List.map ?f ys)"
    using x(1) by (simp only: hm_pieces_def set_chunks_simps list.map map_append concat_append concat.simps refl if_True append_assoc)
  have d: "distinct (sh_chunks v a @ ex)" using assms(2) unfolding p by auto
  have l: "length (cs @ ex') = length (sh_chunks v a @ ex)"
    using distinct_card[OF assms(3)] distinct_card[OF d] assms(4) by simp
  have s: "set cs \<union> set ex' = set (sh_chunks v a) \<union> set ex" using assms(4) by simp
  show "distinct (hm_pieces (set_chunks a cs v) @ ex')"
  proof -
    let ?A = "concat (List.map ?f xs)" and ?B = "concat (List.map ?f ys)"
    have f: "distinct ?A" "distinct ?B" "set ?A \<inter> set ?B = {}" "a \<notin> set ?A \<union> set ?B"
      using assms(2) unfolding p distinct_append by auto
    have "(set ?A \<union> set ?B \<union> {a}) \<inter> (set (sh_chunks v a) \<union> set ex) = {}"
      using assms(2) unfolding p distinct_append by auto
    then have "(set ?A \<union> set ?B \<union> {a}) \<inter> (set cs \<union> set ex') = {}" unfolding s .
    then show ?thesis using f assms(3) unfolding q distinct_append set_append list.set distinct.simps by blast
  qed
  show "set (hm_pieces (set_chunks a cs v) @ ex') = set (hm_pieces v @ ex)"
    using s unfolding p q by auto
  show "length (hm_pieces (set_chunks a cs v) @ ex') = length (hm_pieces v @ ex)"
    using l unfolding p q by simp
qed

text \<open>What other records occupy is apart from the chain and from the pieces \<open>ex\<close>.\<close>

lemma others_apart:
  assumes "a \<in> set (sh_set v)" "distinct (hm_pieces v @ ex)" "b \<in> set (sh_set v)" "b \<noteq> a"
  shows "set (b # sh_chunks v b) \<inter> set (a # sh_chunks v a @ ex) = {}" "set (b # sh_chunks v b) \<subseteq> set (hm_pieces (drop_block a v))"
proof -
  have "b \<in> set (sh_set (drop_block a v))" using assms(3,4) by (simp add: drop_block_def)
  from in_pieces[OF this] show s: "set (b # sh_chunks v b) \<subseteq> set (hm_pieces (drop_block a v))" by (simp add: drop_block_def)
  have "distinct (hm_pieces (drop_block a v) @ a # sh_chunks v a @ ex)" by (rule pieces_drop(1)[OF assms(1,2)])
  with s show "set (b # sh_chunks v b) \<inter> set (a # sh_chunks v a @ ex) = {}" by auto
qed

lemma chain_change:
  assumes g: "hm_good hf s v ex {a} K" and a: "a \<in> set (sh_set v)" and st: "chain_step D s s'"
    and D: "D \<subseteq> set (a # sh_chunks v a @ ex)" and ch: "chain_at (hm_mem s') a cs" "\<forall>c\<in>set cs. chunk_link_size < hm_mem s (C_iSize c)"
    and ex: "distinct (cs @ ex')" "set (cs @ ex') = set (sh_chunks v a @ ex)"
  shows "hm_good hf s' (set_chunks a cs v) ex' {a} K"
proof -
  let ?v = "set_chunks a cs v"
  have i: "mem_inv (hm_mem s) (hash_count s) v" "core_inv s v ex" "contents_inv s v {a}" "keys_inv hf s v {a} K" "pending s"
    using g by (simp_all add: hm_good_def hm_inv_def)
  have m: "lists_inv (hm_mem s) v" "buckets_inv (hm_mem s) (hash_count s) v" "chains_inv (hm_mem s) v" "counts_inv (hm_mem s) v"
    "tails_inv (hm_mem s) v" using i(1) by (simp_all add: mem_inv_def)
  have dis: "distinct (hm_pieces v @ ex)" using i(2) by (simp add: core_inv_def)
  note ap = others_apart[OF a dis]
  have same: "hm_mem s' l = hm_mem s l" if "group_of l \<notin> {StatG, ChainG}" for l
    using chain_step_field[OF st] that by auto
  have c: "hm_alloc s' = hm_alloc s" "hm_hash s' = hm_hash s" "hm_iUsedChunk s' = hm_iUsedChunk s" "pending s'"
    using st by (simp_all add: chain_step_def)
  have so: "same_on (- D) s s'" by (rule chain_step_same[OF st])
  have oth: "set (hm_pieces (drop_block a v)) \<subseteq> - D"
    using pieces_drop(1)[OF a dis] D by auto
  have "lists_inv (hm_mem s') v" by (rule lists_inv_cong[OF m(1)]) (rule same, auto)
  moreover have "buckets_inv (hm_mem s') (hash_count s) v" by (rule buckets_inv_cong[OF m(2)]) (rule same, auto)
  moreover have "counts_inv (hm_mem s') v" by (rule counts_inv_cong[OF m(4)]) (rule same, auto)
  moreover have "tails_inv (hm_mem s') v" by (rule tails_inv_cong[OF m(5)]) (rule same, auto)
  moreover have "chains_inv (hm_mem s') ?v"
    unfolding chains_inv_def
  proof
    fix b assume b: "b \<in> set (sh_set ?v)"
    have sz: "hm_mem s' (B_iSize x) = hm_mem s (B_iSize x)" "hm_mem s' (C_iSize d) = hm_mem s (C_iSize d)" for x d
      by (simp_all add: same)
    show "chain_at (hm_mem s') b (sh_chunks ?v b) \<and> sizes_at (hm_mem s') b (sh_chunks ?v b)"
    proof (cases "b = a")
      case True
      then show ?thesis using ch m(3) a by (simp add: sizes_at_def chains_inv_def sz)
    next
      case False
      then have bv: "chain_at (hm_mem s) b (sh_chunks v b)" "sizes_at (hm_mem s) b (sh_chunks v b)"
        using m(3) b by (simp_all add: chains_inv_def)
      have sub: "set (b # sh_chunks v b) \<subseteq> - D" using ap(2)[of b] b False oth by auto
      have "chain_at (hm_mem s') b (sh_chunks v b)"
        using bv(1) by (rule chain_at_cong) (rule same_on_field[OF so]; use sub in auto)+
      then show ?thesis using False bv(2) by (simp add: sizes_at_def sz)
    qed
  qed
  moreover have "core_inv s' ?v ex'"
    using i(2) pieces_set_chunks[OF a dis ex] by (simp only: core_inv_def c)
  moreover have "contents_inv s' ?v {a}"
    unfolding contents_inv_def
  proof
    fix b assume b: "b \<in> set (sh_set ?v) - {a}"
    then obtain bs where "chain_bytes (hm_mem s) (hm_data s) b (sh_chunks v b) bs" using i(3) unfolding contents_inv_def by auto
    moreover have "set (b # sh_chunks v b) \<subseteq> - D" using ap(2)[of b] b oth by auto
    ultimately show "\<exists>bs. chain_bytes (hm_mem s') (hm_data s') b (sh_chunks ?v b) bs"
      using same_on_bytes[OF so] b by auto
  qed
  moreover have "keys_inv hf s' ?v {a} K"
    unfolding keys_inv_def
  proof
    show "\<forall>b\<in>set (sh_set ?v) - {a}. rec_ok hf s' b (sh_chunks ?v b) (K b)"
    proof
      fix b assume b: "b \<in> set (sh_set ?v) - {a}"
      then have "rec_ok hf s b (sh_chunks v b) (K b)" using i(4) by (auto simp: keys_inv_def)
      moreover have "set (b # sh_chunks v b) \<subseteq> - D" using ap(2)[of b] b oth by auto
      ultimately show "rec_ok hf s' b (sh_chunks ?v b) (K b)"
        using rec_ok_same[OF _ same_data_on[OF so]] c(2) b by auto
    qed
  qed (use i(4) in \<open>simp add: keys_inv_def\<close>)
  moreover have "buckets_inv m n ?v \<longleftrightarrow> buckets_inv m n v" "lists_inv m ?v \<longleftrightarrow> lists_inv m v" "counts_inv m ?v \<longleftrightarrow> counts_inv m v"
    "tails_inv m ?v \<longleftrightarrow> tails_inv m v" for m n
    by (simp_all add: buckets_inv_def lists_inv_def counts_inv_def tails_inv_def)
  ultimately show ?thesis using c(2,4) by (simp add: hm_good_def hm_inv_def mem_inv_def)
qed

text \<open>What is left of the block itself and of the records around it.\<close>

definition same_but :: "nat \<Rightarrow> nat set \<Rightarrow> hmap \<Rightarrow> hmap \<Rightarrow> bool" where
  "same_but a D s s' \<longleftrightarrow> same_on (D - {a}) s s' \<and> (\<forall>l. rec_at l = Some a \<and> group_of l \<noteq> ChainG \<longrightarrow> hm_mem s' l = hm_mem s l)"

lemma same_but_trans: "same_but a D s s' \<Longrightarrow> same_but a D' s' s'' \<Longrightarrow> E \<subseteq> D \<Longrightarrow> E \<subseteq> D' \<Longrightarrow> same_but a E s s''"
  unfolding same_but_def using same_on_trans[of "D - {a}" s s' "D' - {a}" s'' "E - {a}"] by auto

lemma same_but_on: "same_on D s s' \<Longrightarrow> a \<in> D \<Longrightarrow> same_but a D s s'"
  unfolding same_but_def same_on_def by auto

lemma same_but_mono: "same_but a D s s' \<Longrightarrow> E \<subseteq> D \<Longrightarrow> same_but a E s s'"
  unfolding same_but_def using same_on_mono[of "D - {a}" s s' "E - {a}"] by auto

lemma same_but_chain: "chain_step D s s' \<Longrightarrow> same_but a (- D) s s'"
  unfolding same_but_def
proof (intro conjI allI impI)
  assume c: "chain_step D s s'"
  show "same_on (- D - {a}) s s'" by (rule same_on_mono[OF chain_step_same[OF c]]) auto
  fix l assume l: "rec_at l = Some a \<and> group_of l \<noteq> ChainG"
  then have "group_of l \<noteq> StatG" by (cases l) auto
  with c l show "hm_mem s' l = hm_mem s l" by (intro chain_step_field) auto
qed

section \<open>More chunks\<close>

lemma get_chunks_new:
  assumes "hm_good hf s v ex X K" "X \<subseteq> {a}" "0 < fn"
  obtains ret cs s' es v' where "allocateChunk a fn vt s = Inr (ret, cs, vt @ evicted_data K s es, s')" "kept a ex K s v es s' v'"
    "if ret = RT_OK then hm_good hf s' v' (cs @ ex) X K \<and> fits (hm_mem s') cs fn \<and> (\<forall>c\<in>set cs. chunk_link_size < hm_mem s' (C_iSize c))
     else ret = RT_NO_MEMORY \<and> hm_good hf s' v' ex X K"
proof -
  have "hm_good hf s v ([] @ ex) X K" using assms(1) by simp
  from get_chunks_ok[OF this assms(2,3), of "Suc fn" vt] obtain ret cs s' es v' where
    r: "get_chunks (Suc fn) a fn [] vt s = Inr (ret, cs, vt @ evicted_data K s es, s')" "kept a ex K s v es s' v'"
      "if ret = RT_OK then \<exists>new. cs = [] @ new \<and> hm_good hf s' v' (cs @ ex) X K \<and> fits (hm_mem s') new fn \<and>
         (\<forall>c\<in>set cs. chunk_link_size < hm_mem s' (C_iSize c)) \<and> same_on (set []) s s'
       else ret = RT_NO_MEMORY \<and> cs = [] \<and> hm_good hf s' v' ex X K" by auto
  have q: "if ret = RT_OK then hm_good hf s' v' (cs @ ex) X K \<and> fits (hm_mem s') cs fn \<and> (\<forall>c\<in>set cs. chunk_link_size < hm_mem s' (C_iSize c))
     else ret = RT_NO_MEMORY \<and> hm_good hf s' v' ex X K"
    using r(3) by (auto split: if_splits)
  show ?thesis by (rule that[OF _ r(2) q]) (use r(1) assms(3) in \<open>simp add: allocateChunk_def\<close>)
qed

definition grown :: "(byte list \<Rightarrow> nat) \<Rightarrow> nat \<Rightarrow> nat list \<Rightarrow> (nat \<Rightarrow> hm_entry) \<Rightarrow> hmap \<Rightarrow> shape \<Rightarrow> nat list \<Rightarrow> hmap \<Rightarrow> shape \<Rightarrow> nat list \<Rightarrow> bool" where
  "grown hf a ex K s v es s' v1 cs \<longleftrightarrow> evicted (hm_cEraseMode s) a v es v1 \<and> same_conf s s' \<and>
     hm_good hf s' (set_chunks a cs v1) ex {a} K \<and> same_but a (set (hm_pieces (drop_block a v1) @ ex)) s s'"

lemma inv_distinct: "hm_good hf s v ex X K \<Longrightarrow> distinct (hm_pieces v @ ex)"
  by (simp add: hm_good_def hm_inv_def core_inv_def)

lemma good_live: "hm_good hf s v ex X K \<Longrightarrow> p \<in> set (hm_pieces v @ ex) \<Longrightarrow> hm_live s p"
  using live_iff[of s v ex p] by (simp add: hm_good_def hm_inv_def)

lemma good_chain:
  assumes "hm_good hf s v ex X K" "a \<in> set (sh_set v)"
  shows "chain_at (hm_mem s) a (sh_chunks v a)" "sizes_at (hm_mem s) a (sh_chunks v a)"
  using assms by (simp_all add: hm_good_def hm_inv_def mem_inv_def chains_inv_def)

lemma extend_chain_ok:
  assumes g: "hm_good hf s v ex {a} K" and a: "a \<in> set (sh_set v)" and fn: "0 < fn"
    and fl: "flag = end_flag a (sh_chunks v a)" "link = end_link a (sh_chunks v a)"
  shows "\<exists>ret s' es v1. extend_chain a flag link fn vt s = Inr (ret, vt @ evicted_data K s es, s') \<and>
    (if ret = RT_OK then \<exists>new. grown hf a ex K s v es s' v1 (sh_chunks v a @ new) \<and> fits (hm_mem s') new fn \<and>
       (\<forall>c\<in>set (sh_chunks v a). hm_mem s' (C_iSize c) = hm_mem s (C_iSize c))
     else ret = RT_NO_MEMORY \<and> hm_good hf s' v1 ex {a} K \<and> kept a ex K s v es s' v1)"
proof -
  from get_chunks_new[OF g subset_refl fn, of vt] obtain ret new s1 es v1 where
    r: "allocateChunk a fn vt s = Inr (ret, new, vt @ evicted_data K s es, s1)" "kept a ex K s v es s1 v1"
    "if ret = RT_OK then hm_good hf s1 v1 (new @ ex) {a} K \<and> fits (hm_mem s1) new fn \<and> (\<forall>c\<in>set new. chunk_link_size < hm_mem s1 (C_iSize c))
     else ret = RT_NO_MEMORY \<and> hm_good hf s1 v1 ex {a} K" .
  show ?thesis
  proof (cases "ret = RT_OK")
    case False
    then have "extend_chain a flag link fn vt s = Inr (ret, vt @ evicted_data K s es, s1)"
      using r(1) by (simp add: extend_chain_def)
    with r(2,3) False show ?thesis by (intro exI[of _ ret] exI[of _ s1] exI[of _ es] exI[of _ v1]) simp
  next
    case True
    then have h: "hm_good hf s1 v1 (new @ ex) {a} K" "fits (hm_mem s1) new fn" "\<forall>c\<in>set new. chunk_link_size < hm_mem s1 (C_iSize c)"
      using r(3) by simp_all
    let ?cs = "sh_chunks v a"
    have k: "evicted (hm_cEraseMode s) a v es v1" "same_conf s s1" "same_on (set (hm_pieces v1 @ ex)) s s1"
      using r(2) by (simp_all add: kept_def)
    note ep = evicted_pieces[OF k(1) good_parts(1)[OF g]]
    have a1: "a \<in> set (sh_set v1)" using a ep(3,5) by auto
    have cs1: "sh_chunks v1 a = ?cs" by (simp add: ep(4))
    note dis = inv_distinct[OF h(1)]
    note pd = pieces_drop(1)[OF a1 dis]
    have d: "distinct (a # ?cs @ new)" using pd cs1 by auto
    have ne: "new \<noteq> []" using h(2) by auto
    have q: "last (a # ?cs) \<notin> set new" "last (a # ?cs) \<in> set (a # ?cs)"
      using d last_in_set[of "a # ?cs"] by (auto simp del: last.simps)
    have sub: "set (a # ?cs) \<subseteq> set (hm_pieces v1)" using in_pieces[OF a1] cs1 by simp
    have live: "\<forall>x\<in>insert (last (a # ?cs)) (set new). hm_live s1 x"
      using good_live[OF h(1)] sub q(2) by auto
    from hang_chunks_ok[OF good_parts(3)[OF h(1)] _ ne q(1) live end_fields(1-3) end_fields(4,5)] d obtain s2 where
      s2: "hang_chunks flag link new s1 = Inr s2" "chain_step (insert (last (a # ?cs)) (set new)) s1 s2" "hm_mem s2 flag = 1"
        "hm_mem s2 link = hd new" "tail_at (hm_mem s2) (hd new) (tl new)" unfolding fl by auto
    have c1: "chain_at (hm_mem s1) a ?cs" "sizes_at (hm_mem s1) a ?cs" using good_chain[OF h(1) a1] cs1 by simp_all
    have "chain_at (hm_mem s2) a (?cs @ hd new # tl new)"
    proof (rule chain_grow[OF c1(1)])
      show "distinct (a # ?cs)" using d by auto
      fix l q assume "q \<in> set (a # ?cs) - {last (a # ?cs)}" "rec_at l = Some q"
      then show "hm_mem s2 l = hm_mem s1 l"
        using d by (intro same_on_field[OF chain_step_same[OF s2(2)], of q]) auto
    qed (use s2(3-5) fl in auto)
    then have ch: "chain_at (hm_mem s2) a (?cs @ new)" using ne by simp
    have good: "hm_good hf s2 (set_chunks a (?cs @ new) v1) ex {a} K"
    proof (rule chain_change[OF h(1) a1 s2(2) _ ch])
      show "insert (last (a # ?cs)) (set new) \<subseteq> set (a # sh_chunks v1 a @ new @ ex)" using q(2) cs1 by auto
      show "\<forall>c\<in>set (?cs @ new). chunk_link_size < hm_mem s1 (C_iSize c)" using c1(2) h(3) by (auto simp: sizes_at_def)
      show "distinct ((?cs @ new) @ ex)" using pd cs1 by auto
    qed (use cs1 in auto)
    have sz: "hm_mem s2 (C_iSize c) = hm_mem s1 (C_iSize c)" for c by (rule chain_step_field[OF s2(2)]) simp_all
    have "set (hm_pieces (drop_block a v1) @ ex) \<subseteq> set (hm_pieces v1 @ ex)"
      using pieces_sub[of "drop_block a v1" v1] set_remove1_subset[of a "sh_set v1"] by (auto simp: drop_block_def)
    moreover have "set (hm_pieces (drop_block a v1) @ ex) \<subseteq> - insert (last (a # ?cs)) (set new)"
    proof -
      have "set (hm_pieces (drop_block a v1) @ ex) \<inter> set (a # ?cs @ new) = {}" using pd cs1 by auto
      with q(2) show ?thesis by auto
    qed
    moreover have "a \<in> set (hm_pieces v1 @ ex)" using sub by auto
    ultimately have sb: "same_but a (set (hm_pieces (drop_block a v1) @ ex)) s s2"
      using same_but_trans[OF same_but_on[OF k(3)] same_but_chain[OF s2(2)]] by blast
    have "same_conf s s2" using k(2) s2(2) same_conf_trans by (auto simp: chain_step_def)
    then have "grown hf a ex K s v es s2 v1 (?cs @ new)" using k(1) good sb by (simp add: grown_def)
    moreover have "fits (hm_mem s2) new fn" using h(2) fits_cong[of new "hm_mem s2" "hm_mem s1" fn] sz by simp
    moreover have "\<forall>c\<in>set ?cs. hm_mem s2 (C_iSize c) = hm_mem s (C_iSize c)"
    proof
      fix c assume "c \<in> set ?cs"
      then have "c \<in> set (hm_pieces v1 @ ex)" using sub by auto
      then show "hm_mem s2 (C_iSize c) = hm_mem s (C_iSize c)" using same_on_field[OF k(3), of c "C_iSize c"] sz by simp
    qed
    moreover have "extend_chain a flag link fn vt s = Inr (RT_OK, vt @ evicted_data K s es, s2)"
      using r(1) True s2(1) by (simp add: extend_chain_def)
    ultimately show ?thesis by (intro exI[of _ RT_OK] exI[of _ s2] exI[of _ es] exI[of _ v1]) auto
  qed
qed


section \<open>Fewer chunks\<close>

lemma cut_chain_ok:
  assumes g: "hm_good hf s v ex {a} K" and a: "a \<in> set (sh_set v)" and cs: "sh_chunks v a = cs @ d # ds"
    and us: "us = [(end_flag a cs, 0)] \<or> us = [(end_flag a cs, 0), (end_link a cs, 0)]"
  shows "\<exists>s'. bindE (bindE (hm_updates us s) (hm_doUpdate True)) (deallocate_chunks d) = Inr s' \<and>
    hm_good hf s' (set_chunks a cs v) ex {a} K \<and> same_but a (set (hm_pieces (drop_block a v) @ ex)) s s' \<and> same_conf s s' \<and>
    (\<forall>c. hm_mem s' (C_iSize c) = hm_mem s (C_iSize c))"
proof -
  let ?q = "last (a # cs)"
  note p = good_parts(3)[OF g] and dis = inv_distinct[OF g]
  note pd = pieces_drop(1)[OF a dis]
  have dd: "distinct (a # cs @ d # ds)" "distinct (cs @ d # ds @ ex)" using pd cs by auto
  have q: "?q \<in> set (a # cs)" by (rule last_in_set) simp
  have live: "hm_live s x" if "x \<in> set (a # sh_chunks v a)" for x
    using good_live[OF g] in_pieces[OF a] that by auto
  have len: "length us \<le> 16" and on: "\<forall>u\<in>set us. group_of (fst u) = ChainG \<and> (\<exists>b\<in>{?q}. rec_at (fst u) = Some b)"
    using us by (auto simp: end_fields simp del: last.simps)
  have lq: "hm_live s ?q" using q cs live by auto
  have t: "bindE (hm_updates us s) (hm_doUpdate True) = Inr (after us s)" "chain_step {?q} s (after us s)"
    by (rule chain_txn[OF p len on]; use lq in simp)+
  let ?s = "after us s"
  have ch: "chain_at (hm_mem s) a (cs @ d # ds)" "sizes_at (hm_mem s) a (cs @ d # ds)" using good_chain[OF g a] cs by simp_all
  have cells: "hm_mem ?s l = hm_mem s l" if "x \<noteq> ?q" "rec_at l = Some x" for l x
    using same_on_field[OF chain_step_same[OF t(2)], of x l] that by auto
  have fl: "hm_mem ?s (end_flag a cs) = 0"
    using us p by (auto simp: after_mem end_fields)
  have c1: "chain_at (hm_mem ?s) a cs"
  proof (rule chain_cut[where m = "hm_mem s" and ds = "d # ds"])
    show "distinct (a # cs)" using dd(1) by auto
    show "hm_mem ?s l = hm_mem s l" if "x \<in> set (a # cs) - {?q}" "rec_at l = Some x" for l x using cells[of x l] that by blast
  qed (rule ch(1) fl)+
  have g1: "hm_good hf ?s (set_chunks a cs v) (d # ds @ ex) {a} K"
  proof (rule chain_change[OF g a t(2) _ c1])
    show "{?q} \<subseteq> set (a # sh_chunks v a @ ex)" using q cs by auto
    show "\<forall>c\<in>set cs. chunk_link_size < hm_mem s (C_iSize c)" using ch(2) by (simp add: sizes_at_def)
    show "distinct (cs @ d # ds @ ex)" by (rule dd(2))
    show "set (cs @ d # ds @ ex) = set (sh_chunks v a @ ex)" unfolding cs by simp
  qed
  have "tail_at (hm_mem s) d ds" using chain_rest[OF ch(1)] by simp
  moreover have ndd: "?q \<notin> set (d # ds)" using q dd(1) by (auto simp del: last.simps)
  ultimately have tl: "tail_at (hm_mem ?s) d ds"
    by (elim tail_at_cong) (rule cells; use ndd in auto)+
  have "core_inv ?s (set_chunks a cs v) (d # ds @ ex)" using g1 by (simp add: hm_good_def hm_inv_def)
  from dealloc_chunks[OF this tl] have de: "\<exists>s2. deallocate_chunks d ?s = Inr s2" by blast
  have "chunks_from (loop_limit ?s) d ?s = Inr (d # ds)"
  proof (rule chunks_from_ok[OF tl])
    show "\<forall>x\<in>set (d # ds). hm_live ?s x" using live cs by auto
    have "core_inv s v ex" using g by (simp add: hm_good_def hm_inv_def)
    then show "length ds < loop_limit ?s"
      using chunks_bound[OF a] pieces_bound[of s v ex] cs same_conf_limit[OF same_conf_after, of us s] by simp
  qed
  then have dc: "deallocate_chunks d ?s = deallocateMemBlocks (d # ds) ?s" by (simp add: deallocate_chunks_def del: deallocateMemBlocks.simps)
  have "hm_good hf ?s (set_chunks a cs v) ((d # ds) @ ex) {a} K" using g1 by simp
  from dealloc_good[OF this] obtain s' where s': "deallocateMemBlocks (d # ds) ?s = Inr s'" "hm_good hf s' (set_chunks a cs v) ex {a} K"
    "same_on UNIV ?s s'" "same_conf ?s s'" "hm_mem s' = hm_mem ?s" by blast
  have "same_but a (set (hm_pieces (drop_block a v) @ ex)) s s'"
  proof (rule same_but_trans[OF same_but_chain[OF t(2)] same_but_on[OF s'(3) UNIV_I]])
    have "set (hm_pieces (drop_block a v) @ ex) \<inter> set (a # cs) = {}" using pd cs by auto
    with q show "set (hm_pieces (drop_block a v) @ ex) \<subseteq> - {?q}" by (auto simp del: last.simps)
  qed simp
  moreover have "same_conf s s'" using same_conf_trans[OF same_conf_after s'(4)] .
  moreover have "hm_mem s' (C_iSize c) = hm_mem s (C_iSize c)" for c
    unfolding s'(5) by (rule chain_step_field[OF t(2)]) simp_all
  ultimately show ?thesis using t(1) dc s'(1,2) by (simp del: bindE_Inr_iff hm_updates.simps deallocateMemBlocks.simps)
qed

section \<open>Along the chain\<close>

lemma set_chunks_same: "sh_chunks v a = cs \<Longrightarrow> set_chunks a cs v = v"
  by (auto simp: set_chunks_def)

lemma grown_refl:
  "hm_good hf s v ex {a} K \<Longrightarrow> a \<in> set (sh_set v) \<Longrightarrow> grown hf a ex K s v [] s v (sh_chunks v a)"
  by (simp add: grown_def set_chunks_same same_but_def)

lemma fit_chunks_ok:
  assumes g: "hm_good hf s v ex {a} K" and a: "a \<in> set (sh_set v)"
    and "sh_chunks v a = pre @ c # post" "0 < fn" "length post < fuel"
  shows "\<exists>ret s' es v1. fit_chunks fuel a c fn vt s = Inr (ret, vt @ evicted_data K s es, s') \<and>
    (if ret = RT_OK then \<exists>cs. grown hf a ex K s v es s' v1 (pre @ cs) \<and> fits (hm_mem s') cs fn \<and>
       (\<forall>x\<in>set (pre @ [c]). hm_mem s' (C_iSize x) = hm_mem s (C_iSize x))
     else ret = RT_NO_MEMORY \<and> hm_good hf s' v1 ex {a} K \<and> kept a ex K s v es s' v1)"
  using assms(3-5)
proof (induction fuel arbitrary: c pre post fn)
  case (Suc fuel)
  note cs = Suc.prems(1)
  have live: "hm_live s c" using good_live[OF g] in_pieces[OF a] cs by auto
  note ch = good_chain[OF g a]
  have room: "chunk_room c s = hm_mem s (C_iSize c) - chunk_link_size" "chunk_link_size < hm_mem s (C_iSize c)"
    using ch(2) cs by (auto simp: sizes_at_def chunk_room_def less_imp_le)
  have next_c: "hm_mem s (C_bNextChunk c) = 0 \<longleftrightarrow> post = []" "post \<noteq> [] \<Longrightarrow> hm_mem s (C_iNextChunk c) = hd post"
  proof -
    have "chain_at (hm_mem s) a ((pre @ [c]) @ post)" using ch(1) cs by simp
    then show "hm_mem s (C_bNextChunk c) = 0 \<longleftrightarrow> post = []" "post \<noteq> [] \<Longrightarrow> hm_mem s (C_iNextChunk c) = hd post"
      using chain_rest[of "hm_mem s" a "pre @ [c]" "hd post" "tl post"] ch(1) cs
      by (cases post; simp add: end_flag_def end_link_def chain_at_end)+
  qed
  have ends: "C_bNextChunk c = end_flag a (pre @ [c])" "C_iNextChunk c = end_link a (pre @ [c])"
    by (simp_all add: end_flag_def end_link_def)
  show ?case
  proof (cases "fn \<le> chunk_room c s")
    case True
    show ?thesis
    proof (cases post)
      case Nil
      have "fit_chunks (Suc fuel) a c fn vt s = Inr (RT_OK, vt @ evicted_data K s [], s)"
        using live True next_c(1) Nil by simp
      moreover have "grown hf a ex K s v [] s v (pre @ [c])" using grown_refl[OF g a] cs Nil by simp
      moreover have "fits (hm_mem s) [c] fn" using True Suc.prems(2) room by simp
      ultimately show ?thesis by (intro exI[of _ RT_OK] exI[of _ s] exI[of _ "[]"] exI[of _ v]) auto
    next
      case (Cons d ds)
      have "sh_chunks v a = (pre @ [c]) @ d # ds" using cs Cons by simp
      from cut_chain_ok[OF g a this disjI1[OF refl]] obtain s' where
        s': "bindE (bindE (hm_updates [(end_flag a (pre @ [c]), 0)] s) (hm_doUpdate True)) (deallocate_chunks d) = Inr s'"
          "hm_good hf s' (set_chunks a (pre @ [c]) v) ex {a} K" "same_but a (set (hm_pieces (drop_block a v) @ ex)) s s'"
          "same_conf s s'" "\<And>c. hm_mem s' (C_iSize c) = hm_mem s (C_iSize c)" by blast
      obtain s1 where s1: "bindE (hm_updates [(C_bNextChunk c, 0)] s) (hm_doUpdate True) = Inr s1" "deallocate_chunks d s1 = Inr s'"
        using s'(1) unfolding ends(1)[symmetric] by (cases "bindE (hm_updates [(C_bNextChunk c, 0)] s) (hm_doUpdate True)")
          (simp_all del: bindE_Inr_iff hm_updates.simps)
      have f: "fit_chunks (Suc fuel) a c fn vt s = Inr (RT_OK, vt @ evicted_data K s [], s')"
        using live True next_c Cons s1 by (simp add: Let_def del: bindE_Inr_iff hm_updates.simps)
      have "grown hf a ex K s v [] s' v (pre @ [c])" using s'(2-4) by (simp add: grown_def)
      moreover have "fits (hm_mem s') [c] fn" using True Suc.prems(2) room s'(5) by simp
      ultimately have "\<exists>cs. grown hf a ex K s v [] s' v (pre @ cs) \<and> fits (hm_mem s') cs fn \<and>
          (\<forall>x\<in>set (pre @ [c]). hm_mem s' (C_iSize x) = hm_mem s (C_iSize x))" using s'(5) by blast
      with f show ?thesis by (intro exI[of _ RT_OK] exI[of _ s'] exI[of _ "[]"] exI[of _ v]) simp
    qed
  next
    case False
    let ?fn = "fn - (hm_mem s (C_iSize c) - chunk_link_size)"
    have fn: "0 < ?fn" "usub fn (chunk_room c s) = ?fn" using False room by simp_all
    show ?thesis
    proof (cases post)
      case Nil
      have cs': "sh_chunks v a = pre @ [c]" using cs Nil by simp
      from extend_chain_ok[OF g a fn(1), of "C_bNextChunk c" "C_iNextChunk c" vt] obtain ret s' es v1 where
        r: "extend_chain a (C_bNextChunk c) (C_iNextChunk c) ?fn vt s = Inr (ret, vt @ evicted_data K s es, s')"
          "if ret = RT_OK then \<exists>new. grown hf a ex K s v es s' v1 (sh_chunks v a @ new) \<and> fits (hm_mem s') new ?fn \<and>
             (\<forall>c\<in>set (sh_chunks v a). hm_mem s' (C_iSize c) = hm_mem s (C_iSize c))
           else ret = RT_NO_MEMORY \<and> hm_good hf s' v1 ex {a} K \<and> kept a ex K s v es s' v1"
        unfolding cs' ends by blast
      have f: "fit_chunks (Suc fuel) a c fn vt s = Inr (ret, vt @ evicted_data K s es, s')"
        using live False next_c(1) Nil fn(2) r(1) by simp
      show ?thesis
      proof (cases "ret = RT_OK")
        case True
        then obtain new where n: "grown hf a ex K s v es s' v1 (pre @ c # new)" "fits (hm_mem s') new ?fn"
          "\<forall>x\<in>set (pre @ [c]). hm_mem s' (C_iSize x) = hm_mem s (C_iSize x)" using r(2) cs' by auto
        have "new \<noteq> []" using n(2) by auto
        then have "fits (hm_mem s') (c # new) fn" using n(2,3) False room by (simp add: fits_Cons)
        with n(1,3) f True show ?thesis by (intro exI[of _ ret] exI[of _ s'] exI[of _ es] exI[of _ v1]) auto
      next
        case False
        with r(2) f show ?thesis by (intro exI[of _ ret] exI[of _ s'] exI[of _ es] exI[of _ v1]) auto
      qed
    next
      case (Cons d ds)
      have "sh_chunks v a = (pre @ [c]) @ d # ds" "length ds < fuel" using cs Cons Suc.prems(3) by simp_all
      from Suc.IH[OF this(1) fn(1) this(2)] obtain ret s' es v1 where
        r: "fit_chunks fuel a d ?fn vt s = Inr (ret, vt @ evicted_data K s es, s')"
          "if ret = RT_OK then \<exists>cs. grown hf a ex K s v es s' v1 ((pre @ [c]) @ cs) \<and> fits (hm_mem s') cs ?fn \<and>
             (\<forall>x\<in>set ((pre @ [c]) @ [d]). hm_mem s' (C_iSize x) = hm_mem s (C_iSize x))
           else ret = RT_NO_MEMORY \<and> hm_good hf s' v1 ex {a} K \<and> kept a ex K s v es s' v1" by blast
      have f: "fit_chunks (Suc fuel) a c fn vt s = Inr (ret, vt @ evicted_data K s es, s')"
        using live False next_c Cons fn(2) r(1) by simp
      show ?thesis
      proof (cases "ret = RT_OK")
        case True
        then obtain new where n: "grown hf a ex K s v es s' v1 ((pre @ [c]) @ new)" "fits (hm_mem s') new ?fn"
          "\<forall>x\<in>set (pre @ [c]). hm_mem s' (C_iSize x) = hm_mem s (C_iSize x)" using r(2) by auto
        have "hm_mem s' (C_iSize c) = hm_mem s (C_iSize c)" using n(3) by simp
        moreover have "new \<noteq> []" using n(2) by auto
        ultimately have "fits (hm_mem s') (c # new) fn" using n(2) False room by (simp add: fits_Cons)
        with n(1,3) f True show ?thesis by (intro exI[of _ ret] exI[of _ s'] exI[of _ es] exI[of _ v1]) auto
      next
        case False
        with r(2) f show ?thesis by (intro exI[of _ ret] exI[of _ s'] exI[of _ es] exI[of _ v1]) auto
      qed
    qed
  qed
qed simp


lemma block_allocate_ok:
  assumes g: "hm_good hf s v ex {a} K" and a: "a \<in> set (sh_set v)"
  shows "\<exists>ret s' es v1. block_allocate a n vt s = Inr (ret, vt @ evicted_data K s es, s') \<and>
    (if ret = RT_OK then \<exists>cs. grown hf a ex K s v es s' v1 cs \<and> chain_fits (hm_mem s') a cs n
     else ret = RT_NO_MEMORY \<and> hm_good hf s' v1 ex {a} K \<and> kept a ex K s v es s' v1)"
proof -
  have live: "hm_live s a" using good_live[OF g] in_pieces[OF a] by auto
  note ch = good_chain[OF g a]
  have room: "block_room a s = hm_mem s (B_iSize a) - block_head_size" "block_head_size \<le> hm_mem s (B_iSize a)"
    using ch(2) by (auto simp: sizes_at_def block_room_def)
  have flag: "hm_mem s (B_bNextChunk a) = 0 \<longleftrightarrow> sh_chunks v a = []" "sh_chunks v a \<noteq> [] \<Longrightarrow> hm_mem s (B_iNextChunk a) = hd (sh_chunks v a)"
    using ch(1) by (cases "sh_chunks v a"; simp)+
  have ends: "B_bNextChunk a = end_flag a []" "B_iNextChunk a = end_link a []" by (simp_all add: end_flag_def end_link_def)
  have bsize: "hm_mem s' (B_iSize a) = hm_mem s (B_iSize a)" if "same_but a D s s'" for s' D
    using that by (simp add: same_but_def)
  show ?thesis
  proof (cases "n \<le> block_room a s")
    case True
    show ?thesis
    proof (cases "sh_chunks v a")
      case Nil
      have "block_allocate a n vt s = Inr (RT_OK, vt @ evicted_data K s [], s)"
        using live True flag(1) Nil by (simp add: block_allocate_def)
      moreover have "grown hf a ex K s v [] s v []" using grown_refl[OF g a] Nil by simp
      moreover have "chain_fits (hm_mem s) a [] n" using True room by (simp add: chain_fits_def)
      ultimately show ?thesis by (intro exI[of _ RT_OK] exI[of _ s] exI[of _ "[]"] exI[of _ v]) auto
    next
      case (Cons d ds)
      let ?us = "[(B_bNextChunk a, 0::nat), (B_iNextChunk a, 0)]"
      have "sh_chunks v a = [] @ d # ds" using Cons by simp
      from cut_chain_ok[OF g a this disjI2[OF refl]] obtain s' where
        s': "bindE (bindE (hm_updates ?us s) (hm_doUpdate True)) (deallocate_chunks d) = Inr s'"
          "hm_good hf s' (set_chunks a [] v) ex {a} K" "same_but a (set (hm_pieces (drop_block a v) @ ex)) s s'"
          "same_conf s s'" unfolding ends by blast
      obtain s1 where s1: "bindE (hm_updates ?us s) (hm_doUpdate True) = Inr s1" "deallocate_chunks d s1 = Inr s'"
        using s'(1) by (cases "bindE (hm_updates ?us s) (hm_doUpdate True)") (simp_all del: bindE_Inr_iff hm_updates.simps)
      have f: "block_allocate a n vt s = Inr (RT_OK, vt @ evicted_data K s [], s')"
        unfolding block_allocate_def
        using live True flag Cons s1 by (simp add: Let_def del: bindE_Inr_iff hm_updates.simps)
      have "grown hf a ex K s v [] s' v []" using s'(2-4) by (simp add: grown_def)
      moreover have "chain_fits (hm_mem s') a [] n" using True room bsize[OF s'(3)] by (simp add: chain_fits_def)
      ultimately have "\<exists>cs. grown hf a ex K s v [] s' v cs \<and> chain_fits (hm_mem s') a cs n" by blast
      with f show ?thesis by (intro exI[of _ RT_OK] exI[of _ s'] exI[of _ "[]"] exI[of _ v]) simp
    qed
  next
    case False
    let ?fn = "n - (hm_mem s (B_iSize a) - block_head_size)"
    have fn: "0 < ?fn" "usub n (block_room a s) = ?fn" using False room by simp_all
    have whole: "chain_fits (hm_mem s') a cs n" if "fits (hm_mem s') cs ?fn" "hm_mem s' (B_iSize a) = hm_mem s (B_iSize a)" for s' cs
      using that False room by (cases cs) (simp_all add: chain_fits_def)
    show ?thesis
    proof (cases "sh_chunks v a")
      case Nil
      from extend_chain_ok[OF g a fn(1), of "B_bNextChunk a" "B_iNextChunk a" vt] obtain ret s' es v1 where
        r: "extend_chain a (B_bNextChunk a) (B_iNextChunk a) ?fn vt s = Inr (ret, vt @ evicted_data K s es, s')"
          "if ret = RT_OK then \<exists>new. grown hf a ex K s v es s' v1 (sh_chunks v a @ new) \<and> fits (hm_mem s') new ?fn \<and>
             (\<forall>c\<in>set (sh_chunks v a). hm_mem s' (C_iSize c) = hm_mem s (C_iSize c))
           else ret = RT_NO_MEMORY \<and> hm_good hf s' v1 ex {a} K \<and> kept a ex K s v es s' v1"
        unfolding Nil ends by blast
      have f: "block_allocate a n vt s = Inr (ret, vt @ evicted_data K s es, s')"
        using live False flag(1) Nil fn(2) r(1) by (simp add: block_allocate_def)
      show ?thesis
      proof (cases "ret = RT_OK")
        case True
        then obtain new where n: "grown hf a ex K s v es s' v1 new" "fits (hm_mem s') new ?fn" using r(2) Nil by auto
        have "hm_mem s' (B_iSize a) = hm_mem s (B_iSize a)" using n(1) bsize unfolding grown_def by blast
        from whole[OF n(2) this] n(1) f True show ?thesis
          by (intro exI[of _ ret] exI[of _ s'] exI[of _ es] exI[of _ v1]) auto
      next
        case False
        with r(2) f show ?thesis by (intro exI[of _ ret] exI[of _ s'] exI[of _ es] exI[of _ v1]) auto
      qed
    next
      case (Cons c ds)
      have "sh_chunks v a = [] @ c # ds" using Cons by simp
      moreover have "length ds < loop_limit s"
      proof -
        have "core_inv s v ex" using g by (simp add: hm_good_def hm_inv_def)
        then show ?thesis using chunks_bound[OF a] pieces_bound[of s v ex] Cons by simp
      qed
      ultimately obtain ret s' es v1 where
        r: "fit_chunks (loop_limit s) a c ?fn vt s = Inr (ret, vt @ evicted_data K s es, s')"
          "if ret = RT_OK then \<exists>cs. grown hf a ex K s v es s' v1 ([] @ cs) \<and> fits (hm_mem s') cs ?fn \<and>
             (\<forall>x\<in>set ([] @ [c]). hm_mem s' (C_iSize x) = hm_mem s (C_iSize x))
           else ret = RT_NO_MEMORY \<and> hm_good hf s' v1 ex {a} K \<and> kept a ex K s v es s' v1"
        using fit_chunks_ok[OF g a _ fn(1), of "[]" c ds "loop_limit s" vt] by blast
      have f: "block_allocate a n vt s = Inr (ret, vt @ evicted_data K s es, s')"
        using live False flag Cons fn(2) r(1) by (simp add: block_allocate_def)
      show ?thesis
      proof (cases "ret = RT_OK")
        case True
        then obtain cs where n: "grown hf a ex K s v es s' v1 cs" "fits (hm_mem s') cs ?fn" using r(2) by auto
        have "hm_mem s' (B_iSize a) = hm_mem s (B_iSize a)" using n(1) bsize unfolding grown_def by blast
        from whole[OF n(2) this] n(1) f True show ?thesis
          by (intro exI[of _ ret] exI[of _ s'] exI[of _ es] exI[of _ v1]) auto
      next
        case False
        with r(2) f show ?thesis by (intro exI[of _ ret] exI[of _ s'] exI[of _ es] exI[of _ v1]) auto
      qed
    qed
  qed
qed

end
