(* ===== verification/Hm_Write.thy ===== *)
theory Hm_Write
  imports Hm_Fit
begin

text \<open>
  \<open>Block::set\<close>: the record is written over the block and its chunks, and can be read back.
\<close>

section \<open>Copying\<close>

lemma put_data_ok:
  "n \<le> room \<Longrightarrow> n \<le> length bs \<Longrightarrow>
   put_data a room n bs s = Inr (s\<lparr>hm_data := (hm_data s)(a := take n bs @ drop n (hm_data s a))\<rparr>)"
  by (simp add: put_data_def)

lemma room_data [simp]:
  "chunk_room c (s\<lparr>hm_data := d\<rparr>) = chunk_room c s" "block_room a (s\<lparr>hm_data := d\<rparr>) = block_room a s"
  by (simp_all add: chunk_room_def block_room_def)

lemma put_chunks_ok:
  assumes "tail_at (hm_mem s) c ds" "fits (hm_mem s) (c # ds) (length bs)" "\<forall>d\<in>set (c # ds). hm_live s d"
    "\<forall>d\<in>set (c # ds). chunk_link_size < hm_mem s (C_iSize d)" "distinct (c # ds)" "length ds < fuel"
  shows "\<exists>m d. put_chunks fuel c bs s = Inr (s\<lparr>hm_mem := m, hm_data := d\<rparr>) \<and> tail_bytes m d c ds bs \<and>
    (\<forall>l. l \<noteq> C_iNextChunk (last (c # ds)) \<longrightarrow> m l = hm_mem s l) \<and> (\<forall>x. x \<notin> set (c # ds) \<longrightarrow> d x = hm_data s x)"
  using assms
proof (induction fuel arbitrary: c ds bs s)
  case (Suc fuel)
  have room: "chunk_room c s = hm_mem s (C_iSize c) - chunk_link_size"
    using Suc.prems(4) by (simp add: chunk_room_def less_imp_le)
  show ?case
  proof (cases ds)
    case Nil
    let ?m = "(hm_mem s)(C_iNextChunk c := length bs)" and ?d = "(hm_data s)(c := bs @ drop (length bs) (hm_data s c))"
    have f: "put_chunks (Suc fuel) c bs s = Inr (s\<lparr>hm_mem := ?m, hm_data := ?d\<rparr>)"
      using Suc.prems(1-3) Nil room by (simp add: put_data_ok poke_def)
    show ?thesis by (intro exI[of _ ?m] exI[of _ ?d] conjI, rule f) (simp_all add: Nil)
  next
    case (Cons e es)
    let ?n = "hm_mem s (C_iSize c) - chunk_link_size"
    let ?s = "s\<lparr>hm_data := (hm_data s)(c := take ?n bs @ drop ?n (hm_data s c))\<rparr>"
    have f: "?n < length bs" "fits (hm_mem s) (e # es) (length (drop ?n bs))" using Suc.prems(2) Cons by simp_all
    have t: "hm_mem s (C_bNextChunk c) \<noteq> 0" "hm_mem s (C_iNextChunk c) = e" "tail_at (hm_mem ?s) e es"
      using Suc.prems(1) Cons by simp_all
    have p: "\<forall>d\<in>set (e # es). hm_live ?s d" "\<forall>d\<in>set (e # es). chunk_link_size < hm_mem ?s (C_iSize d)" "distinct (e # es)"
      "length es < fuel" "fits (hm_mem ?s) (e # es) (length (drop ?n bs))"
      using Suc.prems(3-6) Cons f(2) by auto
    from Suc.IH[OF t(3) p(5,1-4)] obtain m d where r: "put_chunks fuel e (drop ?n bs) ?s = Inr (?s\<lparr>hm_mem := m, hm_data := d\<rparr>)"
      "tail_bytes m d e es (drop ?n bs)" "\<And>l. l \<noteq> C_iNextChunk (last (e # es)) \<Longrightarrow> m l = hm_mem ?s l"
      "\<And>x. x \<notin> set (e # es) \<Longrightarrow> d x = hm_data ?s x" by blast
    have "c \<notin> set (e # es)" using Suc.prems(5) Cons by simp
    then have dc: "d c = take ?n bs @ drop ?n (hm_data s c)" using r(4) by simp
    have "put_chunks (Suc fuel) c bs s = Inr (s\<lparr>hm_mem := m, hm_data := d\<rparr>)"
      using Suc.prems(3) t(1,2) room f(1) r(1) by (simp add: put_data_ok)
    moreover have "tail_bytes m d c (e # es) bs" using f(1) r(2,3) dc by (simp add: Let_def)
    moreover have "d x = hm_data s x" if "x \<notin> set (c # ds)" for x using r(4)[of x] that Cons by simp
    ultimately show ?thesis using r(3) Cons by (intro exI[of _ m] exI[of _ d]) auto
  qed
qed simp

text \<open>The copying part of \<open>set\<close>.\<close>

definition put_block :: "nat \<Rightarrow> byte list \<Rightarrow> hmap \<Rightarrow> hmap result" where
  "put_block a bs s =
     (if hm_mem s (B_bNextChunk a) = 0
      then bindE (put_data a (block_room a s) (length bs) bs s) (\<lambda>s. Inr (poke (B_iNextChunk a) (length bs) s))
      else bindE (put_data a (block_room a s) (block_room a s) bs s) (\<lambda>s.
           put_chunks (loop_limit s) (hm_mem s (B_iNextChunk a)) (drop (block_room a s) bs) s))"

lemma put_block_ok:
  assumes "chain_at (hm_mem s) a cs" "sizes_at (hm_mem s) a cs" "chain_fits (hm_mem s) a cs (length bs)"
    "\<forall>d\<in>set (a # cs). hm_live s d" "distinct (a # cs)" "length cs < loop_limit s"
  shows "\<exists>m d. put_block a bs s = Inr (s\<lparr>hm_mem := m, hm_data := d\<rparr>) \<and> chain_bytes m d a cs bs \<and>
    (\<forall>l. l \<noteq> end_link a cs \<longrightarrow> m l = hm_mem s l) \<and> (\<forall>x. x \<notin> set (a # cs) \<longrightarrow> d x = hm_data s x)"
proof -
  have room: "block_room a s = hm_mem s (B_iSize a) - block_head_size" using assms(2) by (simp add: block_room_def sizes_at_def)
  show ?thesis
  proof (cases cs)
    case Nil
    let ?m = "(hm_mem s)(B_iNextChunk a := length bs)" and ?d = "(hm_data s)(a := bs @ drop (length bs) (hm_data s a))"
    have f: "put_block a bs s = Inr (s\<lparr>hm_mem := ?m, hm_data := ?d\<rparr>)"
      using assms(1,3) Nil room by (simp add: put_block_def put_data_ok poke_def chain_fits_def)
    show ?thesis by (intro exI[of _ ?m] exI[of _ ?d] conjI, rule f) (simp_all add: Nil end_link_def)
  next
    case (Cons c ds)
    let ?n = "hm_mem s (B_iSize a) - block_head_size"
    let ?s = "s\<lparr>hm_data := (hm_data s)(a := take ?n bs @ drop ?n (hm_data s a))\<rparr>"
    have f: "?n < length bs" "fits (hm_mem ?s) (c # ds) (length (drop ?n bs))" using assms(3) Cons by (simp_all add: chain_fits_def)
    have t: "hm_mem s (B_bNextChunk a) \<noteq> 0" "hm_mem s (B_iNextChunk a) = c" "tail_at (hm_mem ?s) c ds"
      using assms(1) Cons by simp_all
    have p: "\<forall>d\<in>set (c # ds). hm_live ?s d" "\<forall>d\<in>set (c # ds). chunk_link_size < hm_mem ?s (C_iSize d)" "distinct (c # ds)"
      "length ds < loop_limit ?s"
      using assms(2,4-6) Cons by (auto simp: sizes_at_def loop_limit_def)
    from put_chunks_ok[OF t(3) f(2) p] obtain m d where
      r: "put_chunks (loop_limit ?s) c (drop ?n bs) ?s = Inr (?s\<lparr>hm_mem := m, hm_data := d\<rparr>)" "tail_bytes m d c ds (drop ?n bs)"
      "\<And>l. l \<noteq> C_iNextChunk (last (c # ds)) \<Longrightarrow> m l = hm_mem ?s l" "\<And>x. x \<notin> set (c # ds) \<Longrightarrow> d x = hm_data ?s x" by blast
    have "a \<notin> set (c # ds)" using assms(5) Cons by simp
    then have "d a = take ?n bs @ drop ?n (hm_data s a)" using r(4) by simp
    then have "chain_bytes m d a (c # ds) bs" using f(1) r(2,3) by (simp add: Let_def)
    moreover have "put_block a bs s = Inr (s\<lparr>hm_mem := m, hm_data := d\<rparr>)"
      using t(1,2) room f(1) r(1) by (simp add: put_block_def put_data_ok block_room_def)
    moreover have "d x = hm_data s x" if "x \<notin> set (a # cs)" for x using r(4)[of x] that Cons by simp
    ultimately show ?thesis using r(3) Cons by (intro exI[of _ m] exI[of _ d]) (auto simp: end_link_def)
  qed
qed

section \<open>The flags and the counters\<close>

definition flag_updates :: "nat \<Rightarrow> bool \<Rightarrow> mem \<Rightarrow> (loc \<times> nat) list" where
  "flag_updates a b m =
     (if b then
        (if m (B_bDirty a) \<noteq> 0 then [(H_iDirtyCount, dec64 (m H_iDirtyCount))] else []) @
        (if m (B_bOnlyKey a) = 0 then [(H_iOnlyKeyCount, inc64 (m H_iOnlyKeyCount))] else [])
      else
        (if m (B_bDirty a) = 0 then [(H_iDirtyCount, inc64 (m H_iDirtyCount))] else []) @
        (if m (B_bOnlyKey a) \<noteq> 0 then [(H_iOnlyKeyCount, dec64 (m H_iOnlyKeyCount))] else []))"

lemma bindE_assoc: "bindE (bindE r f) g = bindE r (\<lambda>x. bindE (f x) g)"
  by (cases r) simp_all

lemma block_set_parts:
  "block_set a bs b vt s =
     bindE (block_allocate a (length bs) vt s) (\<lambda>(ret, vt, s).
     if ret \<noteq> RT_OK then Inr (ret, vt, s)
     else at_block a s
       (bindE (hm_updates (flag_updates a b (hm_mem s)) s) (\<lambda>s.
        bindE (put_block a bs (poke (B_bOnlyKey a) (of_bool b) (poke (B_bDirty a) (of_bool (\<not> b)) s))) (\<lambda>s.
        bindE (hm_doUpdate True s) (\<lambda>s. Inr (RT_OK, vt, s))))))"
proof -
  have sf: "set_flags a b s = bindE (hm_updates (flag_updates a b (hm_mem s)) s) (\<lambda>s.
      Inr (poke (B_bOnlyKey a) (of_bool b) (poke (B_bDirty a) (of_bool (\<not> b)) s)))" for s
    by (simp add: set_flags_def flag_updates_def Let_def)
  show ?thesis
    unfolding block_set_def put_block_def sf bindE_assoc bindE_simps ..
qed

lemma write_good:
  assumes g: "hm_good hf s v ex {a} K" and a: "a \<in> set (sh_set v)" and fit: "chain_fits (hm_mem s) a (sh_chunks v a) (length (enc e))"
    and e: "entry_ok e" "b \<longleftrightarrow> snd e = None" "hm_mem s (B_iIndex a) = hashIndex hf (fst e) s"
      "\<forall>x\<in>set (sh_set v) - {a}. fst (K x) \<noteq> fst e"
  shows "\<exists>s'. bindE (hm_updates (flag_updates a b (hm_mem s)) s) (\<lambda>s.
        bindE (put_block a (enc e) (poke (B_bOnlyKey a) (of_bool b) (poke (B_bDirty a) (of_bool (\<not> b)) s))) (hm_doUpdate True)) = Inr s' \<and>
      hm_good hf s' v ex {} (K(a := e)) \<and> same_conf s s' \<and> same_on (- set (a # sh_chunks v a)) s s' \<and>
      hm_mem s' (B_iSyncTime a) = hm_mem s (B_iSyncTime a)"
proof -
  let ?cs = "sh_chunks v a" and ?us = "flag_updates a b (hm_mem s)" and ?js = "hm_stModifyData s"
  have i: "mem_inv (hm_mem s) (hash_count s) v" "core_inv s v ex" "contents_inv s v {a}" "keys_inv hf s v {a} K" "pending s"
    using g by (simp_all add: hm_good_def hm_inv_def)
  have m: "lists_inv (hm_mem s) v" "buckets_inv (hm_mem s) (hash_count s) v" "chains_inv (hm_mem s) v" "counts_inv (hm_mem s) v"
    "tails_inv (hm_mem s) v" using i(1) by (simp_all add: mem_inv_def)
  have us: "only {DirtyG, OnlyG} ?us" "length ?us \<le> 2" "\<And>k x. (k, x) \<in> set ?us \<Longrightarrow> loc_ok s k" "links_only ?us"
    by (auto simp: flag_updates_def split: if_splits)
  note dis = inv_distinct[OF g]
  have d: "distinct (a # ?cs)" using pieces_drop(1)[OF a dis] by auto
  have live: "\<forall>d\<in>set (a # ?cs). hm_live s d" using good_live[OF g] in_pieces[OF a] by auto
  have lim: "length ?cs < loop_limit s" using chunks_bound[OF a] pieces_bound[OF i(2)] by simp
  note ch = good_chain[OF g a]
  obtain s1 where s1: "hm_updates ?us s = Inr s1" "s1 = s\<lparr>hm_cModifyStatus := (if ?us = [] then hm_cModifyStatus s else 1),
      hm_stModifyData := ?js @ ?us\<rparr>"
    using updates_ok[of s ?us] us(2) i(5) by (auto simp: pending_def journal_size_def)
  have f1: "hm_mem s1 = hm_mem s" "hm_data s1 = hm_data s" "hm_alloc s1 = hm_alloc s" "hm_hash s1 = hm_hash s" by (simp_all add: s1(2))
  let ?s2 = "poke (B_bOnlyKey a) (of_bool b) (poke (B_bDirty a) (of_bool (\<not> b)) s1)"
  have m2: "hm_mem ?s2 = (hm_mem s)(B_bDirty a := of_bool (\<not> b), B_bOnlyKey a := of_bool b)" by (simp add: f1)
  have "chain_at (hm_mem ?s2) a ?cs" using ch(1) by (rule chain_at_cong) (simp_all add: f1)
  moreover have "sizes_at (hm_mem ?s2) a ?cs" using ch(2) by (simp add: sizes_at_def f1)
  moreover have "chain_fits (hm_mem ?s2) a ?cs (length (enc e))"
  proof -
    have fc: "fits (hm_mem ?s2) ?cs n = fits (hm_mem s) ?cs n" for n by (rule fits_cong) (simp add: f1)
    have sz: "hm_mem ?s2 (B_iSize a) = hm_mem s (B_iSize a)" by (simp add: f1)
    show ?thesis using fit unfolding chain_fits_def fc sz .
  qed
  moreover have "\<forall>d\<in>set (a # ?cs). hm_live ?s2 d" using live by (simp add: f1)
  moreover have "length ?cs < loop_limit ?s2" using lim by (simp add: loop_limit_def f1)
  ultimately obtain m3 d3 where p: "put_block a (enc e) ?s2 = Inr (?s2\<lparr>hm_mem := m3, hm_data := d3\<rparr>)" "chain_bytes m3 d3 a ?cs (enc e)"
    "\<And>l. l \<noteq> end_link a ?cs \<Longrightarrow> m3 l = hm_mem ?s2 l" "\<And>x. x \<notin> set (a # ?cs) \<Longrightarrow> d3 x = hm_data ?s2 x"
    using put_block_ok[of ?s2 a ?cs "enc e"] d by blast
  let ?M = "store_all (?js @ ?us) m3"
  let ?s = "s\<lparr>hm_mem := ?M, hm_data := d3, hm_stModifyData := [], hm_cModifyStatus := 0\<rparr>"
  have js: "only {StatG} ?js" using i(5) by (simp add: pending_def)
  have "loc_ok (?s2\<lparr>hm_mem := m3, hm_data := d3\<rparr>) l" if lx: "(l, x) \<in> set (?js @ ?us)" for l x
  proof -
    have "loc_ok s l" using lx js us(3) stat_loc_ok[of l s] unfolding only_def by fastforce
    then show ?thesis by (subst loc_ok_cong[of _ s]) (simp_all add: s1(2))
  qed
  then have "hm_doUpdate True (?s2\<lparr>hm_mem := m3, hm_data := d3\<rparr>) = Inr ?s"
    by (auto simp: hm_doUpdate_def list_all_iff s1(2) poke_def simp del: set_append)
  then have run: "bindE (hm_updates ?us s) (\<lambda>s. bindE (put_block a (enc e) (poke (B_bOnlyKey a) (of_bool b) (poke (B_bDirty a) (of_bool (\<not> b)) s)))
      (hm_doUpdate True)) = Inr ?s"
    using s1(1) p(1) by simp
  have Mm3: "?M l = m3 l" if "group_of l \<notin> {StatG, DirtyG, OnlyG}" for l
    using that stored_only[OF js] stored_only[OF us(1)] by (simp add: store_all_stored)
  have M: "?M l = hm_mem s l" if "group_of l \<notin> {StatG, DirtyG, OnlyG}" "l \<noteq> end_link a ?cs" for l
    using Mm3[OF that(1)] p(3)[OF that(2)] that(1) by (auto simp: m2 f1)
  have Mrec: "?M l = ((hm_mem s)(B_bDirty a := of_bool (\<not> b), B_bOnlyKey a := of_bool b)) l" if "rec_at l \<noteq> None" "l \<noteq> end_link a ?cs" for l
  proof -
    have "group_of l \<noteq> StatG" using that(1) by (cases l) auto
    then have "?M l = m3 l" using stored_only[OF js] stored_links[OF us(4) that(1)] by (simp add: store_all_stored)
    then show ?thesis using p(3)[OF that(2)] by (simp only: m2)
  qed
  have so: "same_on (- set (a # ?cs)) s ?s"
    unfolding same_on_def
  proof (intro conjI allI impI ballI)
    fix l x assume l: "rec_at l = Some x \<and> x \<in> - set (a # ?cs)"
    have "last (a # ?cs) \<in> set (a # ?cs)" by (rule last_in_set) simp
    then have "l \<noteq> end_link a ?cs" using l end_fields(5)[of a ?cs] by auto
    with l Mrec[of l] show "hm_mem ?s l = hm_mem s l" by auto
  qed (use p(4) in \<open>auto simp: s1(2)\<close>)
  have oth: "set (hm_pieces (drop_block a v)) \<subseteq> - set (a # ?cs)" using pieces_drop(1)[OF a dis] by auto
  note ap = others_apart[OF a dis]
  have "lists_inv ?M v" by (rule lists_inv_cong[OF m(1)]) (rule M; auto simp: end_link_def)
  moreover have "buckets_inv ?M (hash_count s) v" by (rule buckets_inv_cong[OF m(2)]) (rule M; auto simp: end_link_def)
  moreover have "tails_inv ?M v" by (rule tails_inv_cong[OF m(5)]) (rule M; auto simp: end_link_def)
  moreover have "counts_inv ?M v"
  proof (rule dirty_counted[OF m(4) a])
    show "distinct (sh_set v)" using lists_distinct[OF m(1)] by simp
    show "?M H_iElementCount = hm_mem s H_iElementCount" by (rule M) (simp_all add: end_link_def)
    show "?M (B_bDirty x) = hm_mem s (B_bDirty x)" if "x \<noteq> a" for x
      using Mrec[of "B_bDirty x"] that by (simp add: end_link_def)
    have da: "?M (B_bDirty a) = of_bool (\<not> b)" using Mrec[of "B_bDirty a"] by (simp add: end_link_def)
    have "?M H_iDirtyCount = stored ?us H_iDirtyCount (hm_mem s H_iDirtyCount)"
      using stored_only[OF js, of H_iDirtyCount] p(3)[of H_iDirtyCount] by (simp add: store_all_stored m2 f1 end_link_def)
    then show "?M H_iDirtyCount = (if ?M (B_bDirty a) \<noteq> 0 \<and> hm_mem s (B_bDirty a) = 0 then inc64 (hm_mem s H_iDirtyCount)
        else if ?M (B_bDirty a) = 0 \<and> hm_mem s (B_bDirty a) \<noteq> 0 then dec64 (hm_mem s H_iDirtyCount) else hm_mem s H_iDirtyCount)"
      unfolding da by (cases b) (simp_all add: flag_updates_def)
  qed
  moreover have "chains_inv ?M v"
    unfolding chains_inv_def
  proof
    fix x assume x: "x \<in> set (sh_set v)"
    have sz: "?M (B_iSize y) = hm_mem s (B_iSize y)" "?M (C_iSize y) = hm_mem s (C_iSize y)" for y
      by (rule M; simp add: end_link_def)+
    have cx: "chain_at (hm_mem s) x (sh_chunks v x)" "sizes_at (hm_mem s) x (sh_chunks v x)" using m(3) x by (simp_all add: chains_inv_def)
    have "chain_at ?M x (sh_chunks v x)"
    proof (cases "x = a")
      case True
      have "chain_at (hm_mem s) a (?cs @ [])" using ch(1) by simp
      then have "chain_at ?M a ?cs"
      proof (rule chain_cut)
        show "distinct (a # ?cs)" by (rule d)
        fix l q assume q: "q \<in> set (a # ?cs) - {last (a # ?cs)}" "rec_at l = Some q" "group_of l = ChainG"
        then have "l \<noteq> end_link a ?cs" using end_fields(5)[of a ?cs] by auto
        with q(3) show "?M l = hm_mem s l" by (intro M) auto
      next
        show "?M (end_flag a ?cs) = 0"
          using M[of "end_flag a ?cs"] end_fields(1,2)[of a ?cs] ch(1) by (simp add: chain_at_end)
      qed
      then show ?thesis using True by simp
    next
      case False
      have sub: "set (x # sh_chunks v x) \<subseteq> - set (a # ?cs)" using ap(2)[of x] x False oth by auto
      have sf: "?M l = hm_mem s l" if "y \<in> - set (a # ?cs)" "rec_at l = Some y" for l y
        using same_on_field[OF so that] by simp
      show ?thesis using cx(1)
        by (rule chain_at_cong) (rule sf; use sub in auto)+
    qed
    then show "chain_at ?M x (sh_chunks v x) \<and> sizes_at ?M x (sh_chunks v x)" using cx(2) unfolding sizes_at_def sz by blast
  qed
  ultimately have mi: "mem_inv (hm_mem ?s) (hash_count ?s) v" by (simp add: mem_inv_def)
  have bb: "chain_bytes (hm_mem ?s) (hm_data ?s) a ?cs (enc e)"
    using p(2) by (rule block_bytes_cong) (use Mm3 in auto)
  have rec: "rec_ok hf ?s x (sh_chunks v x) ((K(a := e)) x)" if x: "x \<in> set (sh_set v)" for x
  proof (cases "x = a")
    case True
    have "?M (B_bOnlyKey a) = of_bool b" "?M (B_iIndex a) = hm_mem s (B_iIndex a)"
      using Mrec[of "B_bOnlyKey a"] Mrec[of "B_iIndex a"] by (simp_all add: end_link_def)
    then show ?thesis using True bb e(1-3) by (simp add: rec_ok_def hashIndex_def)
  next
    case False
    then have "rec_ok hf s x (sh_chunks v x) (K x)" using i(4) x by (simp add: keys_inv_def)
    moreover have "set (x # sh_chunks v x) \<subseteq> - set (a # ?cs)" using ap(2)[of x] x False oth by auto
    ultimately have "rec_ok hf ?s x (sh_chunks v x) (K x)" by (intro rec_ok_same[OF _ same_data_on[OF so]]) auto
    then show ?thesis using False by simp
  qed
  have "inj_on (\<lambda>x. fst ((K(a := e)) x)) (set (sh_set v))"
  proof -
    have "inj_on (\<lambda>x. fst (K x)) (set (sh_set v) - {a})" using i(4) by (simp add: keys_inv_def)
    then show ?thesis using e(4) by (auto simp: inj_on_def)
  qed
  then have "keys_inv hf ?s v {} (K(a := e))" using rec by (simp add: keys_inv_def)
  moreover have "contents_inv ?s v {}" using rec unfolding contents_inv_def rec_ok_def by blast
  moreover have "core_inv ?s v ex" using i(2) by (simp add: core_inv_def)
  moreover have "hm_mem ?s (B_iSyncTime a) = hm_mem s (B_iSyncTime a)" using Mrec[of "B_iSyncTime a"] by (simp add: end_link_def)
  moreover have "same_conf s ?s" by (simp add: same_conf_def)
  ultimately show ?thesis using run mi so by (intro exI[of _ ?s]) (simp add: hm_good_def hm_inv_def pending_def)
qed

end
