(* ===== verification/Hm_Store.thy ===== *)
theory Hm_Store
  imports Hm_Write
begin

text \<open>
  The common part of both \<open>TC_HashMap::set\<close>: the block of the key is found or made, the record is
  written, and what is evicted for it is handed out.
\<close>

section \<open>Lists without some records\<close>

definition without :: "nat list \<Rightarrow> nat list \<Rightarrow> nat list" where
  "without es xs = filter (\<lambda>x. x \<notin> set es) xs"

lemma remove1_filter: "distinct xs \<Longrightarrow> remove1 a xs = filter (\<lambda>x. x \<noteq> a) xs"
  by (simp add: distinct_remove1_removeAll removeAll_filter_not_eq) (rule filter_cong; auto)

lemma fold_remove1: "distinct xs \<Longrightarrow> fold remove1 es xs = without es xs"
proof (induction es arbitrary: xs)
  case (Cons e es)
  then show ?case by (simp add: remove1_filter without_def conj_commute)
qed (simp add: without_def)

lemma fold_drop_get: "sh_get (fold drop_block es v) = fold remove1 es (sh_get v)"
  by (induction es arbitrary: v) (simp_all add: drop_block_def)

lemma without_append: "without (es @ fs) xs = without fs (without es xs)"
  by (simp add: without_def conj_commute)

lemma evicted_lists:
  assumes "evicted mode now v es v'" "hm_inv s v ex X"
  shows "sh_set v' = without es (sh_set v)" "sh_get v' = without es (sh_get v)"
  using assms(1) fold_remove1[of "sh_set v" es] fold_remove1[of "sh_get v" es] good_lists(4,5)[OF assms(2)]
  by (simp_all add: evicted_def fold_drop(4) fold_drop_get)

section \<open>A content gained or lost\<close>

lemma good_mono: "hm_good hf s v ex X K \<Longrightarrow> X \<subseteq> Y \<Longrightarrow> hm_good hf s v ex Y K"
  using contents_inv_mono[of s v X Y] keys_inv_mono[of hf s v X K Y] by (simp add: hm_good_def hm_inv_def)

lemma good_gone: "hm_good hf s v ex {a} K \<Longrightarrow> a \<notin> set (sh_set v) \<Longrightarrow> hm_good hf s v ex {} K"
  by (simp add: hm_good_def hm_inv_def contents_inv_def keys_inv_def)

lemma good_regain:
  assumes "hm_good hf s v ex {a} K" "rec_ok hf s a (sh_chunks v a) (K a)" "\<forall>x\<in>set (sh_set v) - {a}. fst (K x) \<noteq> fst (K a)"
  shows "hm_good hf s v ex {} K"
proof -
  have i: "mem_inv (hm_mem s) (hash_count s) v" "core_inv s v ex" "contents_inv s v {a}" "keys_inv hf s v {a} K" "pending s"
    using assms(1) by (simp_all add: hm_good_def hm_inv_def)
  have "contents_inv s v {}" using i(3) assms(2) by (auto simp: contents_inv_def rec_ok_def)
  moreover have "keys_inv hf s v {} K"
    unfolding keys_inv_def
  proof
    show "\<forall>x\<in>set (sh_set v) - {}. rec_ok hf s x (sh_chunks v x) (K x)"
      using i(4) assms(2) unfolding keys_inv_def by blast
    have "inj_on (\<lambda>a. fst (K a)) (set (sh_set v) - {a})" using i(4) by (simp add: keys_inv_def)
    then show "inj_on (\<lambda>a. fst (K a)) (set (sh_set v) - {})"
      using assms(3) unfolding inj_on_def by (metis Diff_empty Diff_iff singletonD)
  qed
  ultimately show ?thesis using i by (simp add: hm_good_def hm_inv_def)
qed

lemma good_inj: "hm_good hf s v ex {} K \<Longrightarrow> a \<in> set (sh_set v) \<Longrightarrow> x \<in> set (sh_set v) \<Longrightarrow> fst (K x) = fst (K a) \<longleftrightarrow> x = a"
  by (auto simp: hm_good_def keys_inv_def inj_on_def)

section \<open>Writing over a block\<close>

text \<open>\<open>a\<close> is a block of the map with unknown content; \<open>e\<close> is the record to be written.\<close>

lemma block_set_ok:
  assumes g: "hm_good hf s v ex {a} K" and a: "a \<in> set (sh_set v)" and e: "entry_ok e" "b \<longleftrightarrow> snd e = None"
    "hm_mem s (B_iIndex a) = hashIndex hf (fst e) s" "\<forall>x\<in>set (sh_set v) - {a}. fst (K x) \<noteq> fst e"
  shows "\<exists>ret s' es v1. block_set a (enc e) b vt s = Inr (ret, vt @ evicted_data K s es, s') \<and>
    evicted (hm_cEraseMode s) a v es v1 \<and> same_conf s s' \<and>
    (if ret = RT_OK then \<exists>cs. hm_good hf s' (set_chunks a cs v1) ex {} (K(a := e))
     else ret = RT_NO_MEMORY \<and> hm_good hf s' v1 ex {a} K \<and> kept a ex K s v es s' v1)"
proof -
  from block_allocate_ok[OF g a, of "length (enc e)" vt] obtain ret s1 es v1 where
    r: "block_allocate a (length (enc e)) vt s = Inr (ret, vt @ evicted_data K s es, s1)"
      "if ret = RT_OK then \<exists>cs. grown hf a ex K s v es s1 v1 cs \<and> chain_fits (hm_mem s1) a cs (length (enc e))
       else ret = RT_NO_MEMORY \<and> hm_good hf s1 v1 ex {a} K \<and> kept a ex K s v es s1 v1" by blast
  show ?thesis
  proof (cases "ret = RT_OK")
    case False
    then have "block_set a (enc e) b vt s = Inr (ret, vt @ evicted_data K s es, s1)" using r(1) by (simp add: block_set_parts)
    with False r(2) show ?thesis
      by (intro exI[of _ ret] exI[of _ s1] exI[of _ es] exI[of _ v1]) (simp add: kept_def)
  next
    case True
    then obtain cs where gr: "grown hf a ex K s v es s1 v1 cs" "chain_fits (hm_mem s1) a cs (length (enc e))" using r(2) by auto
    have k: "evicted (hm_cEraseMode s) a v es v1" "same_conf s s1" "hm_good hf s1 (set_chunks a cs v1) ex {a} K"
      "same_but a (set (hm_pieces (drop_block a v1) @ ex)) s s1" using gr(1) by (simp_all add: grown_def)
    let ?w = "set_chunks a cs v1"
    note ep = evicted_pieces[OF k(1) good_parts(1)[OF g]]
    have aw: "a \<in> set (sh_set ?w)" using a ep(3,5) by auto
    have fit: "chain_fits (hm_mem s1) a (sh_chunks ?w a) (length (enc e))" using gr(2) by simp
    have "hm_mem s1 (B_iIndex a) = hm_mem s (B_iIndex a)" using k(4) by (simp add: same_but_def)
    then have ix: "hm_mem s1 (B_iIndex a) = hashIndex hf (fst e) s1" using e(3) k(2) by (simp add: hashIndex_def same_conf_def)
    have uq: "\<forall>x\<in>set (sh_set ?w) - {a}. fst (K x) \<noteq> fst e" using e(4) ep(2) by auto
    from write_good[OF k(3) aw fit e(1,2) ix uq] obtain s2 where
      s2: "bindE (hm_updates (flag_updates a b (hm_mem s1)) s1) (\<lambda>s.
        bindE (put_block a (enc e) (poke (B_bOnlyKey a) (of_bool b) (poke (B_bDirty a) (of_bool (\<not> b)) s))) (hm_doUpdate True)) = Inr s2"
      "hm_good hf s2 ?w ex {} (K(a := e))" "same_conf s1 s2" by blast
    have live: "hm_live s1 a" using good_live[OF k(3)] in_pieces[OF aw] by auto
    have fin: "bindE r (\<lambda>s. bindE (f s) (\<lambda>s. bindE (hm_doUpdate True s) (\<lambda>s. Inr (RT_OK, vt', s)))) =
        bindE (bindE r (\<lambda>s. bindE (f s) (hm_doUpdate True))) (\<lambda>s. Inr (RT_OK, vt', s))" for r f and vt' :: "block_data list"
      by (simp add: bindE_assoc)
    have "block_set a (enc e) b vt s = Inr (RT_OK, vt @ evicted_data K s es, s2)"
      unfolding block_set_parts r(1) using True live s2(1) by (simp add: fin del: bindE_Inr_iff)
    moreover have "same_conf s s2" by (rule same_conf_trans[OF k(2) s2(3)])
    ultimately show ?thesis using k(1) s2(2) by (intro exI[of _ RT_OK] exI[of _ s2] exI[of _ es] exI[of _ v1]) auto
  qed
qed


text \<open>
  The part of \<open>set\<close> from the search to the written record, whatever comes after. \<open>es\<close> are the
  records evicted for it, and \<open>vt\<close> has them in that order.
\<close>

definition store_part ::
  "(byte list \<Rightarrow> nat) \<Rightarrow> byte list \<Rightarrow> byte list \<Rightarrow> bool \<Rightarrow> (nat \<Rightarrow> bool \<Rightarrow> block_data list \<Rightarrow> hmap \<Rightarrow> (rt \<times> block_data list \<times> hmap) result) \<Rightarrow>
   block_data list \<Rightarrow> hmap \<Rightarrow> (rt \<times> block_data list \<times> hmap) result" where
  "store_part hf k bs b fin vt s =
     bindE (find_or_make hf k bs vt s) (\<lambda>(ret, a, new, vt, s).
     if ret \<noteq> RT_OK then Inr (ret, vt, s)
     else bindE (block_set a bs b vt s) (\<lambda>(ret, vt, s).
       if ret \<noteq> RT_OK then bindE (if new then block_erase a s else Inr s) (\<lambda>s. Inr (ret, vt, s))
       else fin a new vt s))"

definition stored_at :: "hmap \<Rightarrow> (nat \<Rightarrow> hm_entry) \<Rightarrow> shape \<Rightarrow> hm_entry \<Rightarrow> nat list \<Rightarrow> nat \<Rightarrow> shape \<Rightarrow> (nat \<Rightarrow> hm_entry) \<Rightarrow> bool" where
  "stored_at s K v e es a v' K' \<longleftrightarrow> a \<in> set (sh_set v') \<and> K' a = e \<and>
     (\<forall>f\<in>{sh_set, sh_get}. List.map K' (filter (\<lambda>x. x \<noteq> a) (f v')) = List.map K (filter (\<lambda>x. fst (K x) \<noteq> fst e) (without es (f v)))) \<and>
     (\<exists>kept. filter (\<lambda>x. fst (K x) \<noteq> fst e) (evict_order (hm_cEraseMode s) v) = kept @ rev es)"

lemma map_other: "a \<notin> set xs \<Longrightarrow> List.map (K(a := e)) xs = List.map K xs"
  by auto

lemma store_part_ok:
  assumes g: "hm_good hf s v [] {} K" and j: "length (hm_stModifyData s) < 3" and e: "entry_ok e" "b \<longleftrightarrow> snd e = None"
  shows "\<exists>es v' s'.
    (store_part hf (fst e) (enc e) b fin vt s = Inr (RT_NO_MEMORY, vt @ evicted_data K s es, s') \<and>
       hm_good hf s' v' [] {} K \<and> same_conf s s' \<and> sh_set v' = without es (sh_set v) \<and> sh_get v' = without es (sh_get v) \<and> set es \<subseteq> set (sh_set v)) \<or>
    (\<exists>a new K'. store_part hf (fst e) (enc e) b fin vt s = fin a new (vt @ evicted_data K s es) s' \<and>
       hm_good hf s' v' [] {} K' \<and> same_conf s s' \<and> stored_at s K v e es a v' K')"
proof -
  note gp = good_parts[OF g]
  from find_key_ok[OF gp j, of "fst e"] obtain a c js where
    f: "find_key (fst e) (hashIndex hf (fst e) s) s = Inr (a, RT_OK, with_journal c js s)" "pending (with_journal c js s)"
      "a = 0 \<Longrightarrow> \<forall>b\<in>set (sh_set v). fst (K b) \<noteq> fst e" "a \<noteq> 0 \<Longrightarrow> a \<in> set (sh_set v) \<and> fst (K a) = fst e" by auto
  let ?s = "with_journal c js s"
  have g1: "hm_good hf ?s v [] {} K" using gp f(2) by (simp add: hm_good_def)
  have ed: "evicted_data K ?s es = evicted_data K s es" for es by (rule evicted_data_same) simp
  have conf: "same_conf s ?s" by simp
  note gl = good_lists[OF gp(1)]
  show ?thesis
  proof (cases "a = 0")
    case False
    then have a: "a \<in> set (sh_set v)" "fst (K a) = fst e" using f(4) by auto
    have ix: "hm_mem ?s (B_iIndex a) = hashIndex hf (fst e) ?s" using rec_data(4)[OF gp(1,2) a(1)] a(2) by simp
    have uq: "\<forall>x\<in>set (sh_set v) - {a}. fst (K x) \<noteq> fst e" using good_inj[OF g a(1)] a(2) by auto
    from block_set_ok[OF good_mono[OF g1] a(1) e ix uq, of vt] obtain ret s1 es v1 where
      r: "block_set a (enc e) b vt ?s = Inr (ret, vt @ evicted_data K ?s es, s1)" "evicted (hm_cEraseMode ?s) a v es v1" "same_conf ?s s1"
        "if ret = RT_OK then \<exists>cs. hm_good hf s1 (set_chunks a cs v1) [] {} (K(a := e))
         else ret = RT_NO_MEMORY \<and> hm_good hf s1 v1 [] {a} K \<and> kept a [] K ?s v es s1 v1" by auto
    have fm: "find_or_make hf (fst e) (enc e) vt s = Inr (RT_OK, a, False, vt, ?s)" using f(1) False by (simp add: find_or_make_def Let_def)
    note el = evicted_lists[OF r(2) good_parts(1)[OF g1]] and ep = evicted_pieces[OF r(2) good_parts(1)[OF g1]]
    have cf: "same_conf s s1" by (rule same_conf_trans[OF conf r(3)])
    show ?thesis
    proof (cases "ret = RT_OK")
      case False
      then have h: "ret = RT_NO_MEMORY" "hm_good hf s1 v1 [] {a} K" "kept a [] K ?s v es s1 v1" using r(4) by simp_all
      have a1: "a \<in> set (sh_set v1)" using a(1) ep(3,5) by auto
      have "rec_ok hf ?s a (sh_chunks v a) (K a)" using good_parts(2)[OF g1] a(1) by (simp add: keys_inv_def)
      then have "rec_ok hf s1 a (sh_chunks v1 a) (K a)"
        unfolding ep(4)
      proof (rule rec_ok_same)
        show "same_data (set (hm_pieces v1 @ [])) ?s s1" using h(3) same_data_on by (simp add: kept_def)
        show "set (a # sh_chunks v a) \<subseteq> set (hm_pieces v1 @ [])" using in_pieces[OF a1] ep(4) by simp
        show "hash_count s1 = hash_count ?s" using r(3) by (simp add: same_conf_def)
      qed
      then have "hm_good hf s1 v1 [] {} K" using h(2) uq a(2) ep(2) by (intro good_regain[where a = a]) auto
      moreover have "store_part hf (fst e) (enc e) b fin vt s = Inr (RT_NO_MEMORY, vt @ evicted_data K s es, s1)"
        using fm r(1) h(1) ed by (simp add: store_part_def)
      ultimately show ?thesis using el cf ep(3) by blast
    next
      case True
      then obtain cs where h: "hm_good hf s1 (set_chunks a cs v1) [] {} (K(a := e))" using r(4) by auto
      have st: "store_part hf (fst e) (enc e) b fin vt s = fin a False (vt @ evicted_data K s es) s1"
        using fm r(1) True ed by (simp add: store_part_def)
      have ne: "x \<noteq> a \<longleftrightarrow> fst (K x) \<noteq> fst e" if "x \<in> set (sh_set v)" for x using good_inj[OF g a(1) that] a(2) by auto
      have fl: "List.map (K(a := e)) (filter (\<lambda>x. x \<noteq> a) (without es xs)) = List.map K (filter (\<lambda>x. fst (K x) \<noteq> fst e) (without es xs))"
        if "set xs = set (sh_set v)" for xs
      proof -
        have "filter (\<lambda>x. x \<noteq> a) (without es xs) = filter (\<lambda>x. fst (K x) \<noteq> fst e) (without es xs)"
          using ne that by (intro filter_cong) (auto simp: without_def)
        moreover have "a \<notin> set (filter (\<lambda>x. x \<noteq> a) (without es xs))" by simp
        ultimately show ?thesis using map_other[of a "filter (\<lambda>x. x \<noteq> a) (without es xs)" K e] by simp
      qed
      have "filter (\<lambda>x. fst (K x) \<noteq> fst e) (evict_order (hm_cEraseMode s) v) = filter (\<lambda>x. x \<noteq> a) (evict_order (hm_cEraseMode s) v)"
        using ne gl(3) by (intro filter_cong) (auto simp: evict_order_def split: if_splits)
      then have "\<exists>kept. filter (\<lambda>x. fst (K x) \<noteq> fst e) (evict_order (hm_cEraseMode s) v) = kept @ rev es"
        using r(2) by (auto simp: evicted_def)
      then have "stored_at s K v e es a (set_chunks a cs v1) (K(a := e))"
        unfolding stored_at_def using fl[OF refl] fl[OF gl(3)] el ep(3,5) a(1) by auto
      with st h cf show ?thesis by blast
    qed
  next
    case True
    let ?i = "hashIndex hf (fst e) s"
    have i: "?i < hash_count ?s" using hash_bound[OF gp(1)] by simp
    from allocateMemBlock_ok[OF g1 i, of "block_head_size + length (enc e)" vt] obtain p sz s1 es v1 where
      m: "allocateMemBlock ?i (block_head_size + length (enc e)) vt ?s = Inr (p, sz, vt @ evicted_data K ?s es, s1)"
        "evicted (hm_cEraseMode ?s) 0 v es v1" "same_conf ?s s1" "same_on (set (hm_pieces v1 @ [])) ?s s1"
        "if p = 0 then hm_good hf s1 v1 [] {} K
         else p \<notin> set (hm_pieces v1 @ []) \<and> hm_good hf s1 (add_block ?i p v1) [] {p} K \<and>
           hm_mem s1 (B_bOnlyKey p) = 0 \<and> hm_mem s1 (B_iIndex p) = ?i" by blast
    note el = evicted_lists[OF m(2) good_parts(1)[OF g1]] and ep = evicted_pieces[OF m(2) good_parts(1)[OF g1]]
    have c1: "same_conf s s1" by (rule same_conf_trans[OF conf m(3)])
    show ?thesis
    proof (cases "p = 0")
      case True
      have "store_part hf (fst e) (enc e) b fin vt s = Inr (RT_NO_MEMORY, vt @ evicted_data K s es, s1)"
        using f(1) m(1) True \<open>a = 0\<close> ed by (simp add: store_part_def find_or_make_def Let_def)
      moreover have "hm_good hf s1 v1 [] {} K" "set es \<subseteq> set (sh_set v)" using m(5) True ep(3) by auto
      ultimately show ?thesis using c1 el by blast
    next
      case False
      then have h: "p \<notin> set (hm_pieces v1)" "hm_good hf s1 (add_block ?i p v1) [] {p} K" "hm_mem s1 (B_iIndex p) = ?i" using m(5) by simp_all
      let ?w = "add_block ?i p v1"
      have pv: "p \<notin> set (sh_set v1)" using h(1) set_in_pieces[of v1] by auto
      have pw: "p \<in> set (sh_set ?w)" by simp
      have ix: "hm_mem s1 (B_iIndex p) = hashIndex hf (fst e) s1" using h(3) c1 by (simp add: hashIndex_def same_conf_def)
      have none: "fst (K x) \<noteq> fst e" if "x \<in> set (sh_set v)" for x using f(3)[OF \<open>a = 0\<close>] that by blast
      have uq: "\<forall>x\<in>set (sh_set ?w) - {p}. fst (K x) \<noteq> fst e" using none ep(2) by auto
      from block_set_ok[OF h(2) pw e ix uq, of "vt @ evicted_data K s es"] obtain ret s2 es' v2 where
        r: "block_set p (enc e) b (vt @ evicted_data K s es) s1 = Inr (ret, (vt @ evicted_data K s es) @ evicted_data K s1 es', s2)"
          "evicted (hm_cEraseMode s1) p ?w es' v2" "same_conf s1 s2"
          "if ret = RT_OK then \<exists>cs. hm_good hf s2 (set_chunks p cs v2) [] {} (K(p := e))
           else ret = RT_NO_MEMORY \<and> hm_good hf s2 v2 [] {p} K \<and> kept p [] K s1 ?w es' s2 v2" by blast
      have fm: "find_or_make hf (fst e) (enc e) vt s = Inr (RT_OK, p, True, vt @ evicted_data K s es, s1)"
        using f(1) m(1) \<open>a = 0\<close> False ed by (simp add: find_or_make_def Let_def)
      note el2 = evicted_lists[OF r(2) good_parts(1)[OF h(2)]] and ep2 = evicted_pieces[OF r(2) good_parts(1)[OF h(2)]]
      have sub: "set es' \<subseteq> set (sh_set v1)" using ep2(3) by auto
      have out: "vt @ evicted_data K s (es @ es') = (vt @ evicted_data K s es) @ evicted_data K s1 es'"
      proof -
        have "set es' \<subseteq> set (hm_pieces v1 @ [])" using sub set_in_pieces[of v1] by auto
        from evicted_data_on[OF m(4) this] ed show ?thesis by simp
      qed
      have c2: "same_conf s s2" by (rule same_conf_trans[OF c1 r(3)])
      have ps: "p \<notin> set es'" using sub pv by auto
      have s2e: "sh_set v2 = p # without (es @ es') (sh_set v)" "sh_get v2 = p # without (es @ es') (sh_get v)"
        using el el2 ps unfolding without_append by (simp_all add: without_def)
      have pn: "p \<notin> set (without (es @ es') (sh_set v))" "p \<notin> set (without (es @ es') (sh_get v))"
      proof -
        have "set (without (es @ es') xs) \<subseteq> set (without es xs)" for xs by (auto simp: without_def)
        moreover have "p \<notin> set (without es (sh_set v))" using pv el(1) by simp
        moreover have "set (without es (sh_get v)) = set (without es (sh_set v))" using gl(3) by (simp add: without_def)
        ultimately show "p \<notin> set (without (es @ es') (sh_set v))" "p \<notin> set (without (es @ es') (sh_get v))" by blast+
      qed
      show ?thesis
      proof (cases "ret = RT_OK")
        case False
        then have q: "ret = RT_NO_MEMORY" "hm_good hf s2 v2 [] {p} K" using r(4) by simp_all
        have "p \<in> set (sh_set v2)" using s2e(1) by simp
        from erase_good[OF q(2) this] obtain s3 where s3: "block_erase p s2 = Inr s3" "hm_good hf s3 (drop_block p v2) [] {p} K"
          "same_conf s2 s3" by blast
        have sh: "sh_set (drop_block p v2) = without (es @ es') (sh_set v)" "sh_get (drop_block p v2) = without (es @ es') (sh_get v)"
          using s2e by (simp_all add: drop_block_def)
        have "hm_good hf s3 (drop_block p v2) [] {} K" using s3(2) by (rule good_gone) (use sh(1) pn(1) in simp)
        moreover have "store_part hf (fst e) (enc e) b fin vt s = Inr (RT_NO_MEMORY, vt @ evicted_data K s (es @ es'), s3)"
          unfolding out using fm r(1) q(1) s3(1) by (simp add: store_part_def)
        moreover have "same_conf s s3" by (rule same_conf_trans[OF c2 s3(3)])
        moreover have "set (es @ es') \<subseteq> set (sh_set v)" using ep(3) sub ep(2) by auto
        ultimately show ?thesis using sh by blast
      next
        case True
        then obtain cs where q: "hm_good hf s2 (set_chunks p cs v2) [] {} (K(p := e))" using r(4) by auto
        have st: "store_part hf (fst e) (enc e) b fin vt s = fin p True (vt @ evicted_data K s (es @ es')) s2"
          unfolding out using fm r(1) True by (simp add: store_part_def)
        have fl: "List.map (K(p := e)) (filter (\<lambda>x. x \<noteq> p) (p # without (es @ es') xs)) =
            List.map K (filter (\<lambda>x. fst (K x) \<noteq> fst e) (without (es @ es') xs))"
          if "set xs = set (sh_set v)" "p \<notin> set (without (es @ es') xs)" for xs
        proof -
          have "filter (\<lambda>x. x \<noteq> p) (without (es @ es') xs) = without (es @ es') xs"
            using that(2) by (intro filter_True) auto
          moreover have "filter (\<lambda>x. fst (K x) \<noteq> fst e) (without (es @ es') xs) = without (es @ es') xs"
            using none that(1) by (intro filter_True) (auto simp: without_def)
          ultimately show ?thesis using that(2) by (simp add: map_other)
        qed
        have "\<exists>kept. filter (\<lambda>x. fst (K x) \<noteq> fst e) (evict_order (hm_cEraseMode s) v) = kept @ rev (es @ es')"
        proof -
          let ?o = "evict_order (hm_cEraseMode s)"
          have mode: "hm_cEraseMode ?s = hm_cEraseMode s" "hm_cEraseMode s1 = hm_cEraseMode s" using c1 by (simp_all add: same_conf_def)
          have so: "set (?o v) = set (sh_set v)" "0 \<notin> set (sh_set v)" using gl(3,6) by (simp_all add: evict_order_def)
          have "filter (\<lambda>x. fst (K x) \<noteq> fst e) (?o v) = ?o v" using none so by (intro filter_True) auto
          also have "\<dots> = filter (\<lambda>x. x \<noteq> 0) (?o v)" using so by (intro filter_True[symmetric]) metis
          also have "\<dots> = filter (\<lambda>x. x \<noteq> 0) (?o v1) @ rev es" using m(2) by (simp add: evicted_def mode)
          also have "filter (\<lambda>x. x \<noteq> 0) (?o v1) = ?o v1"
          proof (rule filter_True)
            have "set (?o v1) \<subseteq> set (sh_set v)" using el gl(3) by (auto simp: evict_order_def without_def)
            then show "\<forall>x\<in>set (?o v1). x \<noteq> 0" using so(2) by (metis subsetD)
          qed
          also have "?o v1 = filter (\<lambda>x. x \<noteq> p) (?o ?w)"
          proof -
            have "p \<notin> set (?o v1)" using pv el gl(3) by (auto simp: evict_order_def without_def)
            then have "filter (\<lambda>x. x \<noteq> p) (?o v1) = ?o v1" by (intro filter_True) auto
            then show ?thesis by (simp add: evict_order_def split: if_splits)
          qed
          also have "\<dots> = filter (\<lambda>x. x \<noteq> p) (?o v2) @ rev es'" using r(2) by (simp add: evicted_def mode)
          finally show ?thesis by simp
        qed
        then have "stored_at s K v e (es @ es') p (set_chunks p cs v2) (K(p := e))"
          unfolding stored_at_def using fl[OF refl pn(1)] fl[OF gl(3) pn(2)] s2e by simp
        with st q c2 show ?thesis by blast
      qed
    qed
  qed
qed

end
