(* ===== verification/Hash_Cache.thy ===== *)
theory Hash_Cache
  imports Hm_Store
begin

text \<open>
  What \<open>TC_HashMap\<close> promises: it is a cache of records in two orders, that of the last access and
  that of the last write. Each operation is proved to do what the cache does; a record leaves the
  cache only when it is deleted, replaced, or evicted as the oldest, and then its value is handed out.
\<close>

section \<open>The cache\<close>

record cache =
  c_get :: "hm_entry list"
  c_set :: "hm_entry list"

definition others :: "byte list \<Rightarrow> hm_entry list \<Rightarrow> hm_entry list" where
  "others k es = filter (\<lambda>e. fst e \<noteq> k) es"

definition minus_entries :: "hm_entry list \<Rightarrow> hm_entry list \<Rightarrow> hm_entry list" where
  "minus_entries E es = filter (\<lambda>e. fst e \<notin> fst ` set E) es"

text \<open>The order in which records are evicted.\<close>

definition c_order :: "nat \<Rightarrow> cache \<Rightarrow> hm_entry list" where
  "c_order mode c = (if mode = 1 then c_set c else c_get c)"

definition values_of :: "hm_entry list \<Rightarrow> (byte list \<times> byte list) list" where
  "values_of E = concat (List.map (\<lambda>e. case snd e of None \<Rightarrow> [] | Some v \<Rightarrow> [(fst e, v)]) E)"

definition data_pairs :: "block_data list \<Rightarrow> (byte list \<times> byte list) list" where
  "data_pairs ds = List.map (\<lambda>d. (bd_key d, bd_value d)) ds"

text \<open>The record \<open>e\<close> in front of both orders, the records \<open>E\<close> gone.\<close>

definition c_put :: "hm_entry \<Rightarrow> hm_entry list \<Rightarrow> cache \<Rightarrow> cache" where
  "c_put e E c = \<lparr>c_get = e # minus_entries E (others (fst e) (c_get c)), c_set = e # minus_entries E (others (fst e) (c_set c))\<rparr>"

definition c_drop :: "hm_entry list \<Rightarrow> cache \<Rightarrow> cache" where
  "c_drop E c = \<lparr>c_get = minus_entries E (c_get c), c_set = minus_entries E (c_set c)\<rparr>"

definition c_find :: "byte list \<Rightarrow> cache \<Rightarrow> byte list option option" where
  "c_find k c = map_of (c_get c) k"

section \<open>Abstraction\<close>

definition hm_abs :: "(byte list \<Rightarrow> nat) \<Rightarrow> nat \<Rightarrow> hmap \<Rightarrow> cache \<Rightarrow> bool" where
  "hm_abs hf mode s c \<longleftrightarrow> \<not> hm_bReadOnly s \<and> hm_cEraseMode s = mode \<and>
     (\<exists>v K. hm_good hf s v [] {} K \<and> c = \<lparr>c_get = List.map K (sh_get v), c_set = List.map K (sh_set v)\<rparr>)"

lemma hm_absI:
  "hm_good hf s' v' [] {} K' \<Longrightarrow> same_conf s s' \<Longrightarrow> \<not> hm_bReadOnly s \<Longrightarrow> hm_cEraseMode s = mode \<Longrightarrow>
   List.map K' (sh_get v') = g \<Longrightarrow> List.map K' (sh_set v') = w \<Longrightarrow> hm_abs hf mode s' \<lparr>c_get = g, c_set = w\<rparr>"
  unfolding hm_abs_def by (auto simp: same_conf_def)

lemma find_entries:
  assumes "hm_good hf s v [] {} K"
  shows "map_of (List.map K (sh_get v)) k = entries v K k" "a \<in> set (sh_set v) \<Longrightarrow> entries v K (fst (K a)) = Some (snd (K a))"
proof -
  have i: "inj_on (\<lambda>a. fst (K a)) (set (sh_set v))" using assms by (simp add: hm_good_def keys_inv_def)
  show e: "a \<in> set (sh_set v) \<Longrightarrow> entries v K (fst (K a)) = Some (snd (K a))" for a by (rule entries_Some[OF i])
  have gl: "set (sh_get v) = set (sh_set v)" using good_lists(3)[OF good_parts(1)[OF assms]] .
  let ?w = "v\<lparr>sh_set := sh_get v\<rparr>"
  have w: "map_of (List.map K (sh_get v)) = entries ?w K" by (simp add: entries_def)
  show "map_of (List.map K (sh_get v)) k = entries v K k"
  proof (cases "\<exists>a\<in>set (sh_set v). fst (K a) = k")
    case True
    then obtain a where a: "a \<in> set (sh_set v)" "fst (K a) = k" by blast
    have "entries ?w K (fst (K a)) = Some (snd (K a))" by (rule entries_Some) (use i gl a in simp_all)
    with e[OF a(1)] a(2) show ?thesis unfolding w by simp
  next
    case False
    then have "entries ?w K k = None" "entries v K k = None" using gl by (simp_all add: entries_None)
    then show ?thesis unfolding w by simp
  qed
qed

lemma others_map: "others k (List.map K xs) = List.map K (filter (\<lambda>x. fst (K x) \<noteq> k) xs)"
  by (simp add: others_def filter_map comp_def)

lemma minus_map:
  assumes "inj_on (\<lambda>a. fst (K a)) A" "set xs \<subseteq> A" "set es \<subseteq> A"
  shows "minus_entries (List.map K es) (List.map K xs) = List.map K (without es xs)"
proof -
  have "fst (K x) \<in> fst ` K ` set es \<longleftrightarrow> x \<in> set es" if "x \<in> set xs" for x
  proof
    assume "fst (K x) \<in> fst ` K ` set es"
    then obtain y where y: "y \<in> set es" "fst (K x) = fst (K y)" by auto
    with assms that show "x \<in> set es" by (metis (no_types, lifting) inj_onD subsetD)
  qed simp
  then have "filter (\<lambda>x. fst (K x) \<notin> fst ` K ` set es) xs = without es xs" by (auto simp: without_def intro: filter_cong)
  then show ?thesis by (simp add: minus_entries_def filter_map comp_def)
qed

lemma values_evicted: "data_pairs (evicted_data K s es) = values_of (List.map K es)"
  by (induction es) (auto simp: data_pairs_def values_of_def data_of_def new_data_def split: option.splits)

section \<open>Moving to the front\<close>

lemma refresh_good:
  assumes g: "hm_good hf s v [] {} K" and a: "a \<in> set (sh_set v)"
  shows "\<exists>s'. refreshSetList a s = Inr s' \<and> hm_good hf s' (front_get a (front_set a v)) [] {} K \<and> same_conf s s'"
    "\<exists>s'. refreshGetList a s = Inr s' \<and> hm_good hf s' (front_get a v) [] {} K \<and> same_conf s s'"
proof -
  note gp = good_parts[OF g] and gl = good_lists[OF good_parts(1)[OF g]]
  from refreshSetList_ok[OF gp(1,3) a] obtain s' where s': "refreshSetList a s = Inr s'" "hm_inv s' (front_get a (front_set a v)) [] {}"
    "pending s'" "same_on UNIV s s'" "same_conf s s'" by blast
  have "keys_inv hf s' (front_get a (front_set a v)) {} K"
    using gp(2) same_data_on[OF s'(4)] s'(5) by (rule keys_inv_after) (use a gl(4) in auto)
  with s' show "\<exists>s'. refreshSetList a s = Inr s' \<and> hm_good hf s' (front_get a (front_set a v)) [] {} K \<and> same_conf s s'"
    by (auto simp: hm_good_def)
  from refreshGetList_ok[OF gp(1,3) a] obtain s' where s': "refreshGetList a s = Inr s'" "hm_inv s' (front_get a v) [] {}"
    "pending s'" "same_on UNIV s s'" "same_conf s s'" by blast
  have "keys_inv hf s' (front_get a v) {} K"
    using gp(2) same_data_on[OF s'(4)] s'(5) by (rule keys_inv_after) simp_all
  with s' show "\<exists>s'. refreshGetList a s = Inr s' \<and> hm_good hf s' (front_get a v) [] {} K \<and> same_conf s s'"
    by (auto simp: hm_good_def)
qed

lemma dirty_good:
  assumes g: "hm_good hf s v [] {} K" and a: "a \<in> set (sh_set v)"
  shows "\<exists>s'. setDirty b a s = Inr s' \<and> hm_good hf s' v [] {} K \<and> same_conf s s' \<and> isDirty a s' = b"
proof -
  note gp = good_parts[OF g]
  from setDirty_ok[OF gp(1,3) a, of b] obtain s' where s': "setDirty b a s = Inr s'" "hm_inv s' v [] {}" "pending s'"
    "same_data UNIV s s'" "same_conf s s'" "isDirty a s' = b" by blast
  have "keys_inv hf s' v {} K" using gp(2) s'(4,5) by (rule keys_inv_after) simp_all
  with s' show ?thesis by (auto simp: hm_good_def)
qed

lemma front_map:
  assumes "distinct xs" "a \<in> set xs" "inj_on (\<lambda>a. fst (K a)) (set xs)"
  shows "List.map K (a # remove1 a xs) = K a # others (fst (K a)) (List.map K xs)"
proof -
  have "filter (\<lambda>x. x \<noteq> a) xs = filter (\<lambda>x. fst (K x) \<noteq> fst (K a)) xs"
    using assms(2,3) by (intro filter_cong) (auto dest: inj_onD)
  then show ?thesis by (simp add: remove1_filter[OF assms(1)] others_map)
qed

lemma front_abs:
  assumes g: "hm_good hf s v [] {} K" and a: "a \<in> set (sh_set v)"
  shows "List.map K (sh_get (front_get a v)) = K a # others (fst (K a)) (List.map K (sh_get v))"
    "List.map K (sh_set (front_set a v)) = K a # others (fst (K a)) (List.map K (sh_set v))"
proof -
  have i: "inj_on (\<lambda>a. fst (K a)) (set (sh_set v))" using g by (simp add: hm_good_def keys_inv_def)
  note gl = good_lists[OF good_parts(1)[OF g]]
  show "List.map K (sh_get (front_get a v)) = K a # others (fst (K a)) (List.map K (sh_get v))"
    using front_map[of "sh_get v" a K] gl(3,5) a i by simp
  show "List.map K (sh_set (front_set a v)) = K a # others (fst (K a)) (List.map K (sh_set v))"
    using front_map[of "sh_set v" a K] gl(4) a i by simp
qed

section \<open>Setting a record\<close>

text \<open>The beginning of an operation.\<close>

lemma begin_good:
  assumes "hm_good hf s v [] {} K"
  shows "\<exists>s'. bindE (hm_doUpdate False s) incGetCount = Inr s' \<and> hm_good hf s' v [] {} K \<and> same_conf s s' \<and> length (hm_stModifyData s') < 3"
    "\<exists>s'. hm_doUpdate False s = Inr s' \<and> hm_good hf s' v [] {} K \<and> same_conf s s' \<and> hm_stModifyData s' = [] \<and> hm_mem s' = hm_mem s"
proof -
  note gp = good_parts[OF assms]
  have d: "hm_doUpdate False s = Inr (with_journal 0 [] s)" using begin_ok[OF gp(3)] by (simp add: settled_journal)
  have p0: "pending (with_journal 0 [] s)" by (simp add: pending_def)
  with d gp show "\<exists>s'. hm_doUpdate False s = Inr s' \<and> hm_good hf s' v [] {} K \<and> same_conf s s' \<and> hm_stModifyData s' = [] \<and> hm_mem s' = hm_mem s"
    by (simp add: hm_good_def)
  have "hm_update H_iGetCount x (with_journal 0 [] s) = Inr (with_journal 1 [(H_iGetCount, x)] (with_journal 0 [] s))"
    "pending (with_journal 1 [(H_iGetCount, x)] (with_journal 0 [] s))" for x
    using stat_update[OF p0, of H_iGetCount x] by simp_all
  then show "\<exists>s'. bindE (hm_doUpdate False s) incGetCount = Inr s' \<and> hm_good hf s' v [] {} K \<and> same_conf s s' \<and> length (hm_stModifyData s') < 3"
    using d gp by (simp add: hm_good_def incGetCount_def same_conf_def)
qed

definition set_result :: "nat \<Rightarrow> hm_entry \<Rightarrow> cache \<Rightarrow> rt \<Rightarrow> block_data list \<Rightarrow> cache \<Rightarrow> bool" where
  "set_result mode e c ret ds c' \<longleftrightarrow>
     (\<exists>E. data_pairs ds = values_of E \<and>
       (ret = RT_OK \<and> c' = c_put e E c \<and> (\<exists>kept. others (fst e) (c_order mode c) = kept @ rev E) \<or>
        ret = RT_NO_MEMORY \<and> c' = c_drop E c \<and> set E \<subseteq> set (c_order mode c)))"


lemma poke_time_good:
  assumes "hm_good hf s v ex X K"
  shows "hm_good hf (poke (B_iSyncTime a) x s) v ex X K"
proof -
  note gp = good_parts[OF assms]
  have "keys_inv hf (poke (B_iSyncTime a) x s) v X K"
    by (rule keys_inv_after[OF gp(2) poke_data poke_conf]) simp_all
  moreover have "hm_inv (poke (B_iSyncTime a) x s) v ex X" by (rule poke_time[OF gp(1)]) simp
  ultimately show ?thesis using gp(3) by (simp add: hm_good_def)
qed

lemma poke_tail_good:
  assumes "hm_good hf s v ex X K" "group_of l = TailG" "x \<in> insert 0 (set (sh_set v))"
  shows "hm_good hf (poke l x s) v ex X K"
proof -
  note gp = good_parts[OF assms(1)]
  have l: "rec_at l = None" using assms(2) by (cases l) auto
  have "keys_inv hf (poke l x s) v X K"
    by (rule keys_inv_after[OF gp(2) poke_data poke_conf]) (use l in simp_all)
  moreover have "hm_inv (poke l x s) v ex X" by (rule poke_tail[OF gp(1) assms(2,3)])
  ultimately show ?thesis using gp(3) by (simp add: hm_good_def)
qed

lemma set_as_store:
  "hm_set hf now k x d vt s = bindE (bindE (hm_doUpdate False s) incGetCount) (\<lambda>s.
     if hm_bReadOnly s then Inr (RT_READONLY, vt, s)
     else store_part hf k (enc (k, Some x)) False (\<lambda>a new vt s.
       bindE (setDirty d a (if new then poke (B_iSyncTime a) now s else s)) (\<lambda>s.
       bindE (refreshSetList a s) (\<lambda>s. Inr (RT_OK, vt, s)))) vt s)"
  "hm_set_key hf now k vt s = bindE (bindE (hm_doUpdate False s) incGetCount) (\<lambda>s.
     if hm_bReadOnly s then Inr (RT_READONLY, vt, s)
     else store_part hf k (enc (k, None)) True (\<lambda>a new vt s.
       bindE (refreshSetList a (if new then poke (B_iSyncTime a) now s else s)) (\<lambda>s. Inr (RT_OK, vt, s))) vt s)"
  unfolding hm_set_def hm_set_key_def store_part_def bindE_assoc Let_def enc_def fst_conv snd_conv option.case by (rule refl)+

text \<open>The written record moves to the front of both orders.\<close>

lemma stored_front:
  assumes g: "hm_good hf s v [] {} K" and g': "hm_good hf s' v' [] {} K'" and st: "stored_at s K v e es a v' K'"
  shows "\<lparr>c_get = List.map K' (sh_get (front_get a (front_set a v'))), c_set = List.map K' (sh_set (front_get a (front_set a v')))\<rparr> =
      c_put e (List.map K es) \<lparr>c_get = List.map K (sh_get v), c_set = List.map K (sh_set v)\<rparr>"
    "\<exists>kept. others (fst e) (c_order (hm_cEraseMode s) \<lparr>c_get = List.map K (sh_get v), c_set = List.map K (sh_set v)\<rparr>) = kept @ rev (List.map K es)"
proof -
  note gl = good_lists[OF good_parts(1)[OF g]] and gl' = good_lists[OF good_parts(1)[OF g']]
  have i: "inj_on (\<lambda>a. fst (K a)) (set (sh_set v))" using g by (simp add: hm_good_def keys_inv_def)
  obtain kept where k: "filter (\<lambda>x. fst (K x) \<noteq> fst e) (evict_order (hm_cEraseMode s) v) = kept @ rev es"
    using st by (auto simp: stored_at_def)
  have "set es \<subseteq> set (filter (\<lambda>x. fst (K x) \<noteq> fst e) (evict_order (hm_cEraseMode s) v))" unfolding k by simp
  then have es: "set es \<subseteq> set (sh_set v)" using gl(3) by (auto simp: evict_order_def split: if_splits)
  have body: "List.map K (filter (\<lambda>x. fst (K x) \<noteq> fst e) (without es xs)) = minus_entries (List.map K es) (others (fst e) (List.map K xs))"
    if "set xs = set (sh_set v)" for xs
  proof -
    have "filter (\<lambda>x. fst (K x) \<noteq> fst e) (without es xs) = without es (filter (\<lambda>x. fst (K x) \<noteq> fst e) xs)"
      by (simp add: without_def conj_commute)
    then show ?thesis unfolding others_map by (subst minus_map[OF i]) (use that es in auto)
  qed
  have st': "K' a = e" "List.map K' (filter (\<lambda>x. x \<noteq> a) (sh_set v')) = List.map K (filter (\<lambda>x. fst (K x) \<noteq> fst e) (without es (sh_set v)))"
    "List.map K' (filter (\<lambda>x. x \<noteq> a) (sh_get v')) = List.map K (filter (\<lambda>x. fst (K x) \<noteq> fst e) (without es (sh_get v)))"
    using st by (simp_all add: stored_at_def)
  show "\<lparr>c_get = List.map K' (sh_get (front_get a (front_set a v'))), c_set = List.map K' (sh_set (front_get a (front_set a v')))\<rparr> =
      c_put e (List.map K es) \<lparr>c_get = List.map K (sh_get v), c_set = List.map K (sh_set v)\<rparr>"
    using st' body[OF refl] body[OF gl(3)] gl'(4,5) by (simp add: c_put_def remove1_filter)
  have "c_order (hm_cEraseMode s) \<lparr>c_get = List.map K (sh_get v), c_set = List.map K (sh_set v)\<rparr> = List.map K (evict_order (hm_cEraseMode s) v)"
    by (simp add: c_order_def evict_order_def)
  then have "others (fst e) (c_order (hm_cEraseMode s) \<lparr>c_get = List.map K (sh_get v), c_set = List.map K (sh_set v)\<rparr>) = List.map K kept @ rev (List.map K es)"
    using k by (simp add: others_map rev_map)
  then show "\<exists>kept. others (fst e) (c_order (hm_cEraseMode s) \<lparr>c_get = List.map K (sh_get v), c_set = List.map K (sh_set v)\<rparr>) = kept @ rev (List.map K es)"
    by blast
qed

lemma store_abs:
  assumes abs: "hm_abs hf mode s c" and e: "entry_ok e" "b \<longleftrightarrow> snd e = None"
    and fin: "\<And>s v K a new vt. hm_good hf s v [] {} K \<Longrightarrow> a \<in> set (sh_set v) \<Longrightarrow>
      \<exists>s'. fin a new vt s = Inr (RT_OK, vt, s') \<and> hm_good hf s' (front_get a (front_set a v)) [] {} K \<and> same_conf s s'"
  shows "\<exists>ret ds s' c'. bindE (bindE (hm_doUpdate False s) incGetCount) (\<lambda>s. if hm_bReadOnly s then Inr (RT_READONLY, vt, s)
      else store_part hf (fst e) (enc e) b fin vt s) = Inr (ret, vt @ ds, s') \<and> hm_abs hf mode s' c' \<and> set_result mode e c ret ds c'"
proof -
  obtain v K where g: "\<not> hm_bReadOnly s" "hm_cEraseMode s = mode" "hm_good hf s v [] {} K"
    "c = \<lparr>c_get = List.map K (sh_get v), c_set = List.map K (sh_set v)\<rparr>" using abs by (auto simp: hm_abs_def)
  from begin_good(1)[OF g(3)] obtain s1 where s1: "bindE (hm_doUpdate False s) incGetCount = Inr s1" "hm_good hf s1 v [] {} K" "same_conf s s1"
    "length (hm_stModifyData s1) < 3" by blast
  have ro: "\<not> hm_bReadOnly s1" "hm_cEraseMode s1 = mode" using g(1,2) s1(3) by (simp_all add: same_conf_def)
  note gl = good_lists[OF good_parts(1)[OF g(3)]]
  from store_part_ok[OF s1(2,4) e, of fin vt] obtain es v' s' where r:
    "(store_part hf (fst e) (enc e) b fin vt s1 = Inr (RT_NO_MEMORY, vt @ evicted_data K s1 es, s') \<and>
       hm_good hf s' v' [] {} K \<and> same_conf s1 s' \<and> sh_set v' = without es (sh_set v) \<and> sh_get v' = without es (sh_get v) \<and> set es \<subseteq> set (sh_set v)) \<or>
     (\<exists>a new K'. store_part hf (fst e) (enc e) b fin vt s1 = fin a new (vt @ evicted_data K s1 es) s' \<and>
       hm_good hf s' v' [] {} K' \<and> same_conf s1 s' \<and> stored_at s1 K v e es a v' K')" by blast
  from r show ?thesis
  proof (elim disjE exE conjE)
    assume q: "store_part hf (fst e) (enc e) b fin vt s1 = Inr (RT_NO_MEMORY, vt @ evicted_data K s1 es, s')"
      "hm_good hf s' v' [] {} K" "same_conf s1 s'" "sh_set v' = without es (sh_set v)" "sh_get v' = without es (sh_get v)"
      "set es \<subseteq> set (sh_set v)"
    have i: "inj_on (\<lambda>a. fst (K a)) (set (sh_set v))" using g(3) by (simp add: hm_good_def keys_inv_def)
    have "same_conf s s'" using same_conf_trans[OF s1(3) q(3)] .
    then have "hm_abs hf mode s' (c_drop (List.map K es) c)"
      unfolding c_drop_def g(4) cache.simps using gl(3) q(4,5,6)
      by (intro hm_absI[OF q(2) _ g(1,2)]) (simp_all add: minus_map[OF i])
    moreover have "set_result mode e c RT_NO_MEMORY (evicted_data K s1 es) (c_drop (List.map K es) c)"
      unfolding set_result_def using values_evicted[of K s1 es] q(6) gl(3) by (intro exI[of _ "List.map K es"]) (auto simp: g(4) c_order_def)
    ultimately show ?thesis unfolding s1(1) using ro(1) q(1) by auto
  next
    fix a new K'
    assume q: "store_part hf (fst e) (enc e) b fin vt s1 = fin a new (vt @ evicted_data K s1 es) s'" "hm_good hf s' v' [] {} K'"
      "same_conf s1 s'" "stored_at s1 K v e es a v' K'"
    have "a \<in> set (sh_set v')" using q(4) by (simp add: stored_at_def)
    from fin[OF q(2) this] obtain s2 where s2: "fin a new (vt @ evicted_data K s1 es) s' = Inr (RT_OK, vt @ evicted_data K s1 es, s2)"
      "hm_good hf s2 (front_get a (front_set a v')) [] {} K'" "same_conf s' s2" by blast
    note sf = stored_front[OF s1(2) q(2,4)]
    have "same_conf s s2" using same_conf_trans[OF s1(3) same_conf_trans[OF q(3) s2(3)]] .
    then have "hm_abs hf mode s2 (c_put e (List.map K es) c)"
      unfolding g(4) sf(1)[symmetric] by (intro hm_absI[OF s2(2) _ g(1,2)] refl)
    moreover have "set_result mode e c RT_OK (evicted_data K s1 es) (c_put e (List.map K es) c)"
      unfolding set_result_def using sf(2) values_evicted[of K s1 es] g(4) ro(2) by blast
    ultimately show ?thesis unfolding s1(1) using ro(1) q(1) s2(1) by auto
  qed
qed


section \<open>One operation\<close>

definition at_cache :: "(byte list \<Rightarrow> nat) \<Rightarrow> nat \<Rightarrow> hmap \<Rightarrow> shape \<Rightarrow> (nat \<Rightarrow> hm_entry) \<Rightarrow> cache \<Rightarrow> bool" where
  "at_cache hf mode s v K c \<longleftrightarrow> hm_good hf s v [] {} K \<and> \<not> hm_bReadOnly s \<and> hm_cEraseMode s = mode \<and>
     c = \<lparr>c_get = List.map K (sh_get v), c_set = List.map K (sh_set v)\<rparr>"

lemma hm_abs_at: "hm_abs hf mode s c \<longleftrightarrow> (\<exists>v K. at_cache hf mode s v K c)"
  by (auto simp: hm_abs_def at_cache_def)

lemma at_good: "at_cache hf mode s v K c \<Longrightarrow> hm_good hf s v [] {} K"
  by (simp add: at_cache_def)

lemma at_step: "at_cache hf mode s v K c \<Longrightarrow> hm_good hf s' v [] {} K \<Longrightarrow> same_conf s s' \<Longrightarrow> at_cache hf mode s' v K c"
  by (auto simp: at_cache_def same_conf_def)

lemma at_writable: "at_cache hf mode s v K c \<Longrightarrow> \<not> hm_bReadOnly s"
  by (simp add: at_cache_def)

text \<open>What holds of the record \<open>a\<close> of the map.\<close>

lemma at_record:
  assumes "at_cache hf mode s v K c" "a \<in> set (sh_set v)"
  shows "hm_live s a" "a \<noteq> 0" "isOnlyKey a s \<longleftrightarrow> snd (K a) = None" "c_find (fst (K a)) c = Some (snd (K a))"
    "getBlockData a d s = Inr (if snd (K a) = None then RT_ONLY_KEY else RT_OK, data_of a (K a) d s)"
proof -
  note gp = good_parts[OF at_good[OF assms(1)]]
  show "hm_live s a" using inv_live[OF gp(1) assms(2), of a] by simp
  show "a \<noteq> 0" using good_lists(6)[OF gp(1)] assms(2) by metis
  show "isOnlyKey a s \<longleftrightarrow> snd (K a) = None" using rec_data(3)[OF gp(1,2) assms(2)] by simp
  show "getBlockData a d s = Inr (if snd (K a) = None then RT_ONLY_KEY else RT_OK, data_of a (K a) d s)"
    using getBlockData_ok[OF gp(1,2) assms(2)] by simp
  have "c_get c = List.map K (sh_get v)" using assms(1) by (simp add: at_cache_def)
  then show "c_find (fst (K a)) c = Some (snd (K a))"
    using find_entries[OF at_good[OF assms(1)]] assms(2) by (simp add: c_find_def)
qed

lemma at_absent: "at_cache hf mode s v K c \<Longrightarrow> \<forall>x\<in>set (sh_set v). fst (K x) \<noteq> k \<Longrightarrow> c_find k c = None"
  using good_lists(3)[OF good_parts(1)[OF at_good]] by (fastforce simp: at_cache_def c_find_def map_of_eq_None_iff)

lemma start_at:
  assumes "at_cache hf mode s v K c"
  obtains s' where "hm_doUpdate False s = Inr s'" "at_cache hf mode s' v K c" "hm_stModifyData s' = []" "s' = with_journal 0 [] s"
proof -
  note gp = good_parts[OF at_good[OF assms]]
  have d: "hm_doUpdate False s = Inr (with_journal 0 [] s)" using begin_ok[OF gp(3)] by (simp add: settled_journal)
  have "hm_good hf (with_journal 0 [] s) v [] {} K" using gp by (simp add: hm_good_def pending_def)
  then have "at_cache hf mode (with_journal 0 [] s) v K c" by (rule at_step[OF assms]) simp
  with d show thesis by (intro that) simp_all
qed

lemma count_at:
  assumes "at_cache hf mode s v K c" "hm_stModifyData s = []"
  obtains s' where "incGetCount s = Inr s'" "at_cache hf mode s' v K c" "length (hm_stModifyData s') < 3"
proof -
  note gp = good_parts[OF at_good[OF assms(1)]]
  let ?x = "inc64 (hm_mem s H_iGetCount)"
  let ?s = "with_journal 1 [(H_iGetCount, ?x)] s"
  have u: "incGetCount s = Inr ?s" "pending ?s" using stat_update[OF gp(3), of H_iGetCount ?x] assms(2) by (simp_all add: incGetCount_def)
  have "hm_good hf ?s v [] {} K" using gp u(2) by (simp add: hm_good_def)
  then have "at_cache hf mode ?s v K c" by (rule at_step[OF assms(1)]) simp
  then show thesis using u that by simp
qed

lemma search_at:
  assumes "at_cache hf mode s v K c" "hm_stModifyData s = []"
  obtains a s' where "begin_find hf k s = Inr (a, RT_OK, s')" "at_cache hf mode s' v K c"
    "if a = 0 then c_find k c = None else a \<in> set (sh_set v) \<and> fst (K a) = k"
proof -
  from count_at[OF assms] obtain s1 where s1: "incGetCount s = Inr s1" "at_cache hf mode s1 v K c" "length (hm_stModifyData s1) < 3" .
  note gp = good_parts[OF at_good[OF s1(2)]]
  from find_key_ok[OF gp s1(3), of k] obtain a cm js where f:
    "find_key k (hashIndex hf k s1) s1 = Inr (a, RT_OK, with_journal cm js s1)" "pending (with_journal cm js s1)"
    "a = 0 \<Longrightarrow> \<forall>b\<in>set (sh_set v). fst (K b) \<noteq> k" "a \<noteq> 0 \<Longrightarrow> a \<in> set (sh_set v) \<and> fst (K a) = k" by auto
  have "hm_good hf (with_journal cm js s1) v [] {} K" using gp f(2) by (simp add: hm_good_def)
  then have "at_cache hf mode (with_journal cm js s1) v K c" by (rule at_step[OF s1(2)]) simp
  then show thesis using that[of a "with_journal cm js s1"] s1(1) f at_absent[OF s1(2), of k] by (simp add: begin_find_def)
qed

lemma search_value_at:
  assumes "at_cache hf mode s v K c" "length (hm_stModifyData s) < 3"
  obtains a w ret s' where "find_value k (hashIndex hf k s) d s = Inr (a, w, ret, s')" "at_cache hf mode s' v K c"
    "ret = RT_OK \<or> ret = RT_ONLY_KEY"
    "if a = 0 then c_find k c = None
     else a \<in> set (sh_set v) \<and> fst (K a) = k \<and> (case snd (K a) of None \<Rightarrow> w = [] | Some x \<Rightarrow> w = x)"
proof -
  note gp = good_parts[OF at_good[OF assms(1)]]
  from find_value_ok[OF gp assms(2), of k d] obtain a w ret cm js where f:
    "find_value k (hashIndex hf k s) d s = Inr (a, w, ret, with_journal cm js s)" "pending (with_journal cm js s)"
    "found k K (sh_set v) a w ret" by blast
  have "hm_good hf (with_journal cm js s) v [] {} K" using gp f(2) by (simp add: hm_good_def)
  then have a: "at_cache hf mode (with_journal cm js s) v K c" by (rule at_step[OF assms(1)]) simp
  show thesis
  proof (rule that[OF f(1) a])
    show "ret = RT_OK \<or> ret = RT_ONLY_KEY"
      using f(3) by (cases "a = 0") (auto simp: found_def split: option.splits)
    show "if a = 0 then c_find k c = None
     else a \<in> set (sh_set v) \<and> fst (K a) = k \<and> (case snd (K a) of None \<Rightarrow> w = [] | Some x \<Rightarrow> w = x)"
      using f(3) at_absent[OF assms(1), of k] by (auto simp: found_def split: option.splits)
  qed
qed


text \<open>The record of \<open>k\<close>, if there is one, in front.\<close>

definition touch :: "byte list \<Rightarrow> hm_entry list \<Rightarrow> hm_entry list" where
  "touch k es = (case map_of es k of None \<Rightarrow> es | Some x \<Rightarrow> (k, x) # others k es)"

definition c_read :: "byte list \<Rightarrow> cache \<Rightarrow> cache" where
  "c_read k c = c\<lparr>c_get := touch k (c_get c)\<rparr>"

definition c_write :: "byte list \<Rightarrow> cache \<Rightarrow> cache" where
  "c_write k c = \<lparr>c_get = touch k (c_get c), c_set = touch k (c_set c)\<rparr>"

definition c_del :: "byte list \<Rightarrow> cache \<Rightarrow> cache" where
  "c_del k c = \<lparr>c_get = others k (c_get c), c_set = others k (c_set c)\<rparr>"

lemma at_touch:
  assumes "at_cache hf mode s v K c" "a \<in> set (sh_set v)"
  shows "List.map K (sh_get (front_get a v)) = touch (fst (K a)) (c_get c)"
    "List.map K (sh_set (front_set a v)) = touch (fst (K a)) (c_set c)"
proof -
  note f = front_abs[OF at_good[OF assms(1)] assms(2)]
  have c: "c_get c = List.map K (sh_get v)" "c_set c = List.map K (sh_set v)" using assms(1) by (simp_all add: at_cache_def)
  have "map_of (c_get c) (fst (K a)) = Some (snd (K a))" "map_of (c_set c) (fst (K a)) = Some (snd (K a))"
    using at_record(4)[OF assms] find_entries(2)[OF at_good[OF assms(1)] assms(2)] by (simp_all add: c_find_def c entries_def)
  then show "List.map K (sh_get (front_get a v)) = touch (fst (K a)) (c_get c)"
    "List.map K (sh_set (front_set a v)) = touch (fst (K a)) (c_set c)"
    using f c by (simp_all add: touch_def)
qed

lemma write_at:
  assumes "at_cache hf mode s v K c" "a \<in> set (sh_set v)"
  shows "\<exists>s'. refreshSetList a s = Inr s' \<and> at_cache hf mode s' (front_get a (front_set a v)) K (c_write (fst (K a)) c)"
  using refresh_good(1)[OF at_good[OF assms(1)] assms(2)] assms(1) at_touch[OF assms] unfolding at_cache_def same_conf_def c_write_def
  by auto

lemma read_at:
  assumes "at_cache hf mode s v K c" "a \<in> set (sh_set v)"
  shows "\<exists>s'. refreshGetList a s = Inr s' \<and> at_cache hf mode s' (front_get a v) K (c_read (fst (K a)) c)"
  using refresh_good(2)[OF at_good[OF assms(1)] assms(2)] assms(1) at_touch(1)[OF assms] unfolding at_cache_def same_conf_def c_read_def
  by auto

lemma dirty_at:
  assumes "at_cache hf mode s v K c" "a \<in> set (sh_set v)"
  shows "\<exists>s'. setDirty b a s = Inr s' \<and> at_cache hf mode s' v K c \<and> isDirty a s' = b"
  using dirty_good[OF at_good[OF assms(1)] assms(2)] at_step[OF assms(1)] by blast

lemma del_at:
  assumes "at_cache hf mode s v K c" "a \<in> set (sh_set v)"
  shows "\<exists>s'. block_erase a s = Inr s' \<and> at_cache hf mode s' (drop_block a v) K (c_del (fst (K a)) c)"
proof -
  note g = at_good[OF assms(1)]
  note gl = good_lists[OF good_parts(1)[OF g]]
  have c: "c = \<lparr>c_get = List.map K (sh_get v), c_set = List.map K (sh_set v)\<rparr>" using assms(1) by (simp add: at_cache_def)
  have ne: "x \<noteq> a \<longleftrightarrow> fst (K x) \<noteq> fst (K a)" if "x \<in> set (sh_set v)" for x using good_inj[OF g assms(2) that] by auto
  have "List.map K (remove1 a xs) = others (fst (K a)) (List.map K xs)" if "set xs = set (sh_set v)" "distinct xs" for xs
    unfolding others_map remove1_filter[OF that(2)] using ne that(1) by (intro arg_cong[where f = "List.map K"] filter_cong) auto
  then have "\<lparr>c_get = List.map K (sh_get (drop_block a v)), c_set = List.map K (sh_set (drop_block a v))\<rparr> = c_del (fst (K a)) c"
    using gl(3-5) by (simp add: c c_del_def drop_block_def)
  then show ?thesis using erase_good[OF g assms(2)] assms(1) unfolding at_cache_def same_conf_def by auto
qed

section \<open>The operations by key\<close>

text \<open>The code of an operation on a record with a value.\<close>

definition found_rt :: "byte list option option \<Rightarrow> rt" where
  "found_rt r = (case r of None \<Rightarrow> RT_NO_DATA | Some None \<Rightarrow> RT_ONLY_KEY | Some (Some x) \<Rightarrow> RT_OK)"

lemma abs_at: "at_cache hf mode s v K c \<Longrightarrow> hm_abs hf mode s c"
  by (auto simp: hm_abs_at)

lemma hm_set_cache:
  assumes "hm_abs hf mode s c" "entry_ok (k, Some x)"
  shows "\<exists>ret ds s' c'. hm_set hf now k x d vt s = Inr (ret, vt @ ds, s') \<and> hm_abs hf mode s' c' \<and> set_result mode (k, Some x) c ret ds c'"
proof -
  let ?f = "\<lambda>a new vt s. bindE (setDirty d a (if new then poke (B_iSyncTime a) now s else s)) (\<lambda>s.
       bindE (refreshSetList a s) (\<lambda>s. Inr (RT_OK, vt, s)))"
  have fin: "\<exists>s'. ?f a new vt s = Inr (RT_OK, vt, s') \<and> hm_good hf s' (front_get a (front_set a v)) [] {} K \<and> same_conf s s'"
    if g: "hm_good hf s v [] {} K" and a: "a \<in> set (sh_set v)" for s v K a new vt
  proof -
    let ?s = "if new then poke (B_iSyncTime a) now s else s"
    have "hm_good hf ?s v [] {} K" "same_conf s ?s" using g poke_time_good[OF g] by simp_all
    with dirty_good[OF this(1) a, of d] obtain s1 where s1: "setDirty d a ?s = Inr s1" "hm_good hf s1 v [] {} K" "same_conf s s1"
      using same_conf_trans by blast
    from refresh_good(1)[OF s1(2) a] obtain s2 where "refreshSetList a s1 = Inr s2"
      "hm_good hf s2 (front_get a (front_set a v)) [] {} K" "same_conf s1 s2" by blast
    with s1 same_conf_trans[OF s1(3)] show ?thesis by auto
  qed
  show ?thesis unfolding set_as_store(1)
    by (rule store_abs[where e = "(k, Some x)" and b = False and fin = ?f, unfolded fst_conv, OF assms _ fin]) simp_all
qed

lemma hm_set_key_cache:
  assumes "hm_abs hf mode s c" "entry_ok (k, None)"
  shows "\<exists>ret ds s' c'. hm_set_key hf now k vt s = Inr (ret, vt @ ds, s') \<and> hm_abs hf mode s' c' \<and> set_result mode (k, None) c ret ds c'"
proof -
  let ?f = "\<lambda>a new vt s. bindE (refreshSetList a (if new then poke (B_iSyncTime a) now s else s)) (\<lambda>s. Inr (RT_OK, vt, s))"
  have fin: "\<exists>s'. ?f a new vt s = Inr (RT_OK, vt, s') \<and> hm_good hf s' (front_get a (front_set a v)) [] {} K \<and> same_conf s s'"
    if g: "hm_good hf s v [] {} K" and a: "a \<in> set (sh_set v)" for s v K a new vt
  proof -
    let ?s = "if new then poke (B_iSyncTime a) now s else s"
    have s: "hm_good hf ?s v [] {} K" "same_conf s ?s" using g poke_time_good[OF g] by simp_all
    from refresh_good(1)[OF s(1) a] obtain s2 where "refreshSetList a ?s = Inr s2"
      "hm_good hf s2 (front_get a (front_set a v)) [] {} K" "same_conf ?s s2" by blast
    with same_conf_trans[OF s(2)] show ?thesis by auto
  qed
  show ?thesis unfolding set_as_store(2)
    by (rule store_abs[where e = "(k, None)" and b = True and fin = ?f, unfolded fst_conv, OF assms _ fin]) simp_all
qed

lemma hm_get_cache:
  assumes "hm_abs hf mode s c"
  shows "\<exists>w t' s'. hm_get hf k x t s = Inr (found_rt (c_find k c), w, t', s') \<and> (\<forall>y. c_find k c = Some (Some y) \<longrightarrow> w = y) \<and>
    hm_abs hf mode s' (if found_rt (c_find k c) = RT_OK then c_read k c else c)"
proof -
  from assms obtain v K where s: "at_cache hf mode s v K c" by (auto simp: hm_abs_at)
  from start_at[OF s] obtain s0 where s0: "hm_doUpdate False s = Inr s0" "at_cache hf mode s0 v K c" "hm_stModifyData s0 = []" .
  from count_at[OF s0(2,3)] obtain s1 where s1: "incGetCount s0 = Inr s1" "at_cache hf mode s1 v K c" "length (hm_stModifyData s1) < 3" .
  from search_value_at[OF s1(2,3), of k x] obtain a w ret s2 where f:
    "find_value k (hashIndex hf k s1) x s1 = Inr (a, w, ret, s2)" "at_cache hf mode s2 v K c" "ret = RT_OK \<or> ret = RT_ONLY_KEY"
    "if a = 0 then c_find k c = None
     else a \<in> set (sh_set v) \<and> fst (K a) = k \<and> (case snd (K a) of None \<Rightarrow> w = [] | Some x \<Rightarrow> w = x)" .
  show ?thesis
  proof (cases "a = 0")
    case True
    then show ?thesis using s0(1) s1(1) f abs_at[OF f(2)] by (auto simp: hm_get_def found_rt_def)
  next
    case False
    then have a: "a \<in> set (sh_set v)" "fst (K a) = k" "case snd (K a) of None \<Rightarrow> w = [] | Some x \<Rightarrow> w = x" using f(4) by simp_all
    note r = at_record[OF f(2) a(1)]
    from read_at[OF f(2) a(1)] obtain s3 where s3: "refreshGetList a s2 = Inr s3"
      "at_cache hf mode s3 (front_get a v) K (c_read k c)" using a(2) by blast
    show ?thesis
      using s0(1) s1(1) f(1,3) r a(2,3) s3 abs_at[OF f(2)] abs_at[OF s3(2)] at_writable[OF f(2)]
      by (cases "snd (K a)") (auto simp: hm_get_def found_rt_def Let_def)
  qed
qed


lemma hm_del_cache:
  assumes "hm_abs hf mode s c"
  shows "\<exists>d' s'. hm_del hf k d s = Inr (found_rt (c_find k c), d', s') \<and> bd_key d' = k \<and>
    (\<forall>y. c_find k c = Some (Some y) \<longrightarrow> bd_value d' = y) \<and> hm_abs hf mode s' (c_del k c)"
proof -
  from assms obtain v K where s: "at_cache hf mode s v K c" by (auto simp: hm_abs_at)
  from start_at[OF s] obtain s0 where s0: "hm_doUpdate False s = Inr s0" "at_cache hf mode s0 v K c" "hm_stModifyData s0 = []" .
  from count_at[OF s0(2,3)] obtain s1 where s1: "incGetCount s0 = Inr s1" "at_cache hf mode s1 v K c" "length (hm_stModifyData s1) < 3" .
  let ?d = "d\<lparr>bd_key := k\<rparr>"
  from search_value_at[OF s1(2,3), of k "bd_value d"] obtain a w ret s2 where f:
    "find_value k (hashIndex hf k s1) (bd_value d) s1 = Inr (a, w, ret, s2)" "at_cache hf mode s2 v K c" "ret = RT_OK \<or> ret = RT_ONLY_KEY"
    "if a = 0 then c_find k c = None
     else a \<in> set (sh_set v) \<and> fst (K a) = k \<and> (case snd (K a) of None \<Rightarrow> w = [] | Some x \<Rightarrow> w = x)" .
  show ?thesis
  proof (cases "a = 0")
    case True
    have "others k es = es" if "map_of es k = None" for es :: "hm_entry list"
      using that by (auto simp: others_def map_of_eq_None_iff intro!: filter_True)
    moreover have "map_of (c_set c) k = None"
    proof -
      have c: "c_get c = List.map K (sh_get v)" "c_set c = List.map K (sh_set v)" using s by (simp_all add: at_cache_def)
      then show ?thesis using True f(4) find_entries(1)[OF at_good[OF s], of k] by (simp add: c_find_def entries_def)
    qed
    ultimately have "c_del k c = c" using True f(4) by (simp add: c_del_def c_find_def)
    then show ?thesis using True s0(1) s1(1) f abs_at[OF f(2)] at_writable[OF s1(2)] by (auto simp: hm_del_def found_rt_def Let_def)
  next
    case False
    then have a: "a \<in> set (sh_set v)" "fst (K a) = k" "case snd (K a) of None \<Rightarrow> w = [] | Some x \<Rightarrow> w = x" using f(4) by simp_all
    note r = at_record[OF f(2) a(1)]
    from del_at[OF f(2) a(1)] obtain s3 where s3: "block_erase a s2 = Inr s3" "at_cache hf mode s3 (drop_block a v) K (c_del k c)"
      using a(2) by blast
    show ?thesis
      using s0(1) s1(1) f(1,3) r a(2,3) s3(1) abs_at[OF s3(2)] at_writable[OF s1(2)]
      by (cases "snd (K a)") (auto simp: hm_del_def found_rt_def Let_def data_of_def)
  qed
qed

lemma hm_find_cache:
  assumes "hm_abs hf mode s c"
  shows "\<exists>a s'. hm_find hf k s = Inr (a, s') \<and> (a = 0 \<longleftrightarrow> c_find k c = None) \<and> hm_abs hf mode s' c"
proof -
  from assms obtain v K where s: "at_cache hf mode s v K c" by (auto simp: hm_abs_at)
  from start_at[OF s] obtain s0 where s0: "hm_doUpdate False s = Inr s0" "at_cache hf mode s0 v K c" "hm_stModifyData s0 = []" .
  note gp = good_parts[OF at_good[OF s0(2)]]
  have "length (hm_stModifyData s0) < 3" using s0(3) by simp
  from find_key_ok[OF gp this, of k] obtain a cm js where f:
    "find_key k (hashIndex hf k s0) s0 = Inr (a, RT_OK, with_journal cm js s0)" "pending (with_journal cm js s0)"
    "a = 0 \<Longrightarrow> \<forall>b\<in>set (sh_set v). fst (K b) \<noteq> k" "a \<noteq> 0 \<Longrightarrow> a \<in> set (sh_set v) \<and> fst (K a) = k" by auto
  have "hm_good hf (with_journal cm js s0) v [] {} K" using gp f(2) by (simp add: hm_good_def)
  then have "at_cache hf mode (with_journal cm js s0) v K c" by (rule at_step[OF s0(2)]) simp
  moreover have "a = 0 \<longleftrightarrow> c_find k c = None"
    using f(3,4) at_absent[OF s0(2), of k] at_record(4)[OF s0(2), of a] by (cases "a = 0") auto
  ultimately show ?thesis using s0(1) f(1) abs_at by (auto simp: hm_find_def)
qed

text \<open>
  The operations that look for a record, leave an absent one and one that is only a key, and do \<open>P\<close>
  to the others.
\<close>

definition on_record ::
  "(byte list \<Rightarrow> nat) \<Rightarrow> byte list \<Rightarrow> (nat \<Rightarrow> hmap \<Rightarrow> (rt \<times> hmap) result) \<Rightarrow> hmap \<Rightarrow> (rt \<times> hmap) result" where
  "on_record hf k P s =
     bindE (begin_find hf k s) (\<lambda>(a, ret, s).
     if ret \<noteq> RT_OK then Inr (ret, s)
     else if a = 0 then Inr (RT_NO_DATA, s)
     else at_block a s (if isOnlyKey a s then Inr (RT_ONLY_KEY, s) else P a s))"

lemma on_record_at:
  assumes "at_cache hf mode s v K c" "hm_stModifyData s = []"
    and P: "\<forall>s a. at_cache hf mode s v K c \<longrightarrow> a \<in> set (sh_set v) \<longrightarrow> fst (K a) = k \<longrightarrow>
      (\<exists>ret s'. P a s = Inr (ret, s') \<and> hm_abs hf mode s' c' \<and> Q ret)"
  shows "\<exists>ret s'. on_record hf k P s = Inr (ret, s') \<and> hm_abs hf mode s' (if found_rt (c_find k c) = RT_OK then c' else c) \<and>
    (if found_rt (c_find k c) = RT_OK then Q ret else ret = found_rt (c_find k c))"
proof -
  from search_at[OF assms(1,2), of k] obtain a s1 where s1: "begin_find hf k s = Inr (a, RT_OK, s1)" "at_cache hf mode s1 v K c"
    "if a = 0 then c_find k c = None else a \<in> set (sh_set v) \<and> fst (K a) = k" .
  show ?thesis
  proof (cases "a = 0")
    case True
    then show ?thesis using s1 abs_at[OF s1(2)] by (auto simp: on_record_def found_rt_def)
  next
    case False
    then have a: "a \<in> set (sh_set v)" "fst (K a) = k" using s1(3) by simp_all
    note r = at_record[OF s1(2) a(1)]
    from P s1(2) a obtain ret s2 where "P a s1 = Inr (ret, s2)" "hm_abs hf mode s2 c'" "Q ret" by blast
    then show ?thesis using s1(1) r a abs_at[OF s1(2)] by (cases "snd (K a)") (auto simp: on_record_def found_rt_def)
  qed
qed


text \<open>Pending updates stored, the sync time and the tails set.\<close>

lemma commit_at:
  assumes "at_cache hf mode s v K c"
  shows "\<exists>s'. hm_doUpdate True s = Inr s' \<and> at_cache hf mode s' v K c"
proof -
  note gp = good_parts[OF at_good[OF assms]]
  have m: "mem_inv (store_all [] (hm_mem s)) (hash_count s) v" "core_inv s v []" using gp(1) by (simp_all add: hm_inv_def)
  have e: "links_only []" "length ([]::(loc \<times> nat) list) \<le> 16" "\<forall>k\<in>fst ` set ([]::(loc \<times> nat) list). loc_ok s k" by simp_all
  note t = links_txn[OF gp(1,3) e m refl refl]
  have "keys_inv hf (after [] s) v {} K" using gp(2) same_data_on[OF t(3)] by (rule keys_inv_after) (simp_all add: same_conf_def)
  then have "hm_good hf (after [] s) v [] {} K" using t(2) by (simp add: hm_good_def)
  then have "at_cache hf mode (after [] s) v K c" by (rule at_step[OF assms]) (simp add: same_conf_def)
  then show ?thesis using t(1) by (simp add: hm_updates.simps)
qed

lemma poke_at:
  assumes "at_cache hf mode s v K c" "group_of l = TailG" "x \<in> insert 0 (set (sh_set v))"
  shows "at_cache hf mode (poke l x s) v K c"
  by (rule at_step[OF assms(1) poke_tail_good[OF at_good[OF assms(1)] assms(2,3)]]) simp

lemma poke_time_at: "at_cache hf mode s v K c \<Longrightarrow> at_cache hf mode (poke (B_iSyncTime a) x s) v K c"
  by (rule at_step[OF _ poke_time_good[OF at_good] poke_conf])

lemma tails_at:
  assumes "at_cache hf mode s v K c"
  shows "hm_mem s H_iDirtyTail \<in> insert 0 (set (sh_set v))" "hm_mem s H_iSyncTail \<in> insert 0 (set (sh_set v))"
    "hm_mem s H_iBackupTail \<in> insert 0 (set (sh_set v))" "hm_mem s H_iGetTail = last0 0 (sh_get v)"
    "hm_mem s H_iGetTail \<in> insert 0 (set (sh_set v))"
proof -
  note gp = good_parts[OF at_good[OF assms]]
  note gl = good_lists[OF gp(1)]
  have "tails_inv (hm_mem s) v" using gp(1) by (simp add: hm_inv_def mem_inv_def)
  then show "hm_mem s H_iDirtyTail \<in> insert 0 (set (sh_set v))" "hm_mem s H_iSyncTail \<in> insert 0 (set (sh_set v))"
    "hm_mem s H_iBackupTail \<in> insert 0 (set (sh_set v))" by (simp_all add: tails_inv_def)
  have d: "dlist (\<lambda>a. hm_mem s (B_iGetNext a)) (\<lambda>a. hm_mem s (B_iGetPrev a)) (hm_mem s H_iGetHead) (hm_mem s H_iGetTail) (sh_get v)"
    using gl(2) by (simp add: list_at_def)
  then show "hm_mem s H_iGetTail = last0 0 (sh_get v)" by (simp add: dlist_def)
  show "hm_mem s H_iGetTail \<in> insert 0 (set (sh_set v))" using dlist_ends[OF d] gl(3) by simp
qed

lemma prev_at:
  assumes "at_cache hf mode s v K c" "a \<in> set (sh_set v)"
  shows "hm_mem s (B_iSetPrev a) \<in> insert 0 (set (sh_set v))" "hm_mem s (B_iGetPrev a) \<in> insert 0 (set (sh_set v))"
proof -
  note gl = good_lists[OF good_parts(1)[OF at_good[OF assms(1)]]]
  have d: "dlist (\<lambda>a. hm_mem s (B_iGetNext a)) (\<lambda>a. hm_mem s (B_iGetPrev a)) (hm_mem s H_iGetHead) (hm_mem s H_iGetTail) (sh_get v)"
    "dlist (\<lambda>a. hm_mem s (B_iSetNext a)) (\<lambda>a. hm_mem s (B_iSetPrev a)) (hm_mem s H_iSetHead) (hm_mem s H_iSetTail) (sh_set v)"
    using gl(1,2) by (simp_all add: list_at_def)
  show "hm_mem s (B_iGetPrev a) \<in> insert 0 (set (sh_set v))" using dlist_neighbours(3)[OF d(1), of a] assms(2) gl(3) by simp
  show "hm_mem s (B_iSetPrev a) \<in> insert 0 (set (sh_set v))" by (rule dlist_neighbours(3)[OF d(2) assms(2)])
qed

lemma past_dirty_at: "at_cache hf mode s v K c \<Longrightarrow> a \<in> set (sh_set v) \<Longrightarrow> at_cache hf mode (past_dirty a s) v K c"
  using poke_at[of hf mode s v K c H_iDirtyTail] prev_at(1) by (simp add: past_dirty_def)

section \<open>Marking records\<close>

lemma hm_marks_as:
  "hm_checkDirty hf k s = bindE (hm_doUpdate False s) (on_record hf k (\<lambda>a s. Inr (if isDirty a s then RT_DIRTY_DATA else RT_OK, s)))"
  "hm_setDirty hf k s = bindE (hm_doUpdate False s) (\<lambda>s. if hm_bReadOnly s then Inr (RT_READONLY, s)
     else on_record hf k (\<lambda>a s. bindE (setDirty True a s) (\<lambda>s. bindE (refreshSetList a s) (\<lambda>s. Inr (RT_OK, s)))) s)"
  "hm_setClean hf k s = bindE (hm_doUpdate False s) (\<lambda>s. if hm_bReadOnly s then Inr (RT_READONLY, s)
     else on_record hf k (\<lambda>a s. bindE (setDirty False a s) (\<lambda>s. bindE (refreshSetList a s) (\<lambda>s.
       bindE (hm_doUpdate True s) (\<lambda>s. Inr (RT_OK, s))))) s)"
  "hm_setDirtyAfterSync hf k s = bindE (hm_doUpdate False s) (\<lambda>s. if hm_bReadOnly s then Inr (RT_READONLY, s)
     else on_record hf k (\<lambda>a s. bindE (setDirty True a s) (\<lambda>s.
       Inr (RT_OK, if hm_mem s H_iDirtyTail = hm_mem s (B_iSetPrev a) then poke H_iDirtyTail a s else s))) s)"
  unfolding hm_checkDirty_def hm_setDirty_def hm_setClean_def hm_setDirtyAfterSync_def on_record_def if_distrib[of "\<lambda>r. Inr (r, _)"]
  by (rule refl)+

text \<open>An operation that marks a record: it finds the record or returns the code of its absence.\<close>

definition marks :: "(byte list \<Rightarrow> nat) \<Rightarrow> nat \<Rightarrow> byte list \<Rightarrow> rt set \<Rightarrow> cache \<Rightarrow> cache \<Rightarrow> (rt \<times> hmap) result \<Rightarrow> bool" where
  "marks hf mode k R c c' r \<longleftrightarrow> (\<exists>ret s'. r = Inr (ret, s') \<and> hm_abs hf mode s' (if found_rt (c_find k c) = RT_OK then c' else c) \<and>
    (if found_rt (c_find k c) = RT_OK then ret \<in> R else ret = found_rt (c_find k c)))"

lemma marks_at:
  assumes "hm_abs hf mode s c"
    and P: "\<And>s v K a. at_cache hf mode s v K c \<Longrightarrow> a \<in> set (sh_set v) \<Longrightarrow> fst (K a) = k \<Longrightarrow>
      \<exists>ret s' v'. P a s = Inr (ret, s') \<and> at_cache hf mode s' v' K c' \<and> ret \<in> R"
  shows "marks hf mode k R c c' (bindE (hm_doUpdate False s) (on_record hf k P))"
    "marks hf mode k R c c' (bindE (hm_doUpdate False s) (\<lambda>s. if hm_bReadOnly s then Inr (RT_READONLY, s) else on_record hf k P s))"
proof -
  from assms(1) obtain v K where s: "at_cache hf mode s v K c" by (auto simp: hm_abs_at)
  from start_at[OF s] obtain s0 where s0: "hm_doUpdate False s = Inr s0" "at_cache hf mode s0 v K c" "hm_stModifyData s0 = []" .
  have "marks hf mode k R c c' (on_record hf k P s0)"
    unfolding marks_def by (rule on_record_at[OF s0(2,3)]) (use P abs_at in blast)
  then show "marks hf mode k R c c' (bindE (hm_doUpdate False s) (on_record hf k P))"
    "marks hf mode k R c c' (bindE (hm_doUpdate False s) (\<lambda>s. if hm_bReadOnly s then Inr (RT_READONLY, s) else on_record hf k P s))"
    using s0(1) at_writable[OF s0(2)] by simp_all
qed

lemma hm_checkDirty_cache:
  assumes "hm_abs hf mode s c" shows "marks hf mode k {RT_OK, RT_DIRTY_DATA} c c (hm_checkDirty hf k s)"
  unfolding hm_marks_as by (rule marks_at(1)[OF assms]) auto

lemma hm_setDirty_cache:
  assumes "hm_abs hf mode s c" shows "marks hf mode k {RT_OK} c (c_write k c) (hm_setDirty hf k s)"
  unfolding hm_marks_as
proof (rule marks_at(2)[OF assms])
  fix s v K a assume a: "at_cache hf mode s v K c" "a \<in> set (sh_set v)" "fst (K a) = k"
  from dirty_at[OF a(1,2), of True] obtain s1 where s1: "setDirty True a s = Inr s1" "at_cache hf mode s1 v K c" by blast
  from write_at[OF s1(2) a(2)] s1(1) a(3)
  show "\<exists>ret s' v'. bindE (setDirty True a s) (\<lambda>s. bindE (refreshSetList a s) (\<lambda>s. Inr (RT_OK, s))) = Inr (ret, s') \<and>
    at_cache hf mode s' v' K (c_write k c) \<and> ret \<in> {RT_OK}" by auto
qed

lemma hm_setClean_cache:
  assumes "hm_abs hf mode s c" shows "marks hf mode k {RT_OK} c (c_write k c) (hm_setClean hf k s)"
  unfolding hm_marks_as
proof (rule marks_at(2)[OF assms])
  fix s v K a assume a: "at_cache hf mode s v K c" "a \<in> set (sh_set v)" "fst (K a) = k"
  from dirty_at[OF a(1,2), of False] obtain s1 where s1: "setDirty False a s = Inr s1" "at_cache hf mode s1 v K c" by blast
  from write_at[OF s1(2) a(2)] a(3) obtain s2 v2 where s2: "refreshSetList a s1 = Inr s2" "at_cache hf mode s2 v2 K (c_write k c)" by auto
  from commit_at[OF s2(2)] s1(1) s2(1)
  show "\<exists>ret s' v'. bindE (setDirty False a s) (\<lambda>s. bindE (refreshSetList a s) (\<lambda>s. bindE (hm_doUpdate True s) (\<lambda>s. Inr (RT_OK, s)))) = Inr (ret, s') \<and>
    at_cache hf mode s' v' K (c_write k c) \<and> ret \<in> {RT_OK}" by auto
qed

lemma hm_setDirtyAfterSync_cache:
  assumes "hm_abs hf mode s c" shows "marks hf mode k {RT_OK} c c (hm_setDirtyAfterSync hf k s)"
  unfolding hm_marks_as
proof (rule marks_at(2)[OF assms])
  fix s v K a assume a: "at_cache hf mode s v K c" "a \<in> set (sh_set v)" "fst (K a) = k"
  from dirty_at[OF a(1,2), of True] obtain s1 where s1: "setDirty True a s = Inr s1" "at_cache hf mode s1 v K c" by blast
  from poke_at[OF s1(2), of H_iDirtyTail a] a(2) s1
  show "\<exists>ret s' v'. bindE (setDirty True a s) (\<lambda>s.
       Inr (RT_OK, if hm_mem s H_iDirtyTail = hm_mem s (B_iSetPrev a) then poke H_iDirtyTail a s else s)) = Inr (ret, s') \<and>
    at_cache hf mode s' v' K c \<and> ret \<in> {RT_OK}" by auto
qed


section \<open>Write-back, backup and eviction\<close>

lemma hm_sync_begin_cache:
  assumes "hm_abs hf mode s c" shows "\<exists>s'. hm_sync_begin s = Inr s' \<and> hm_abs hf mode s' c"
proof -
  from assms obtain v K where s: "at_cache hf mode s v K c" by (auto simp: hm_abs_at)
  from start_at[OF s] obtain s0 where s0: "hm_doUpdate False s = Inr s0" "at_cache hf mode s0 v K c" .
  from abs_at[OF poke_at[OF s0(2), of H_iSyncTail "hm_mem s0 H_iDirtyTail"]] tails_at(1)[OF s0(2)] s0(1)
  show ?thesis by (auto simp: hm_sync_begin_def)
qed

lemma hm_backup_begin_cache:
  assumes "hm_abs hf mode s c" shows "\<exists>s'. hm_backup_begin b s = Inr s' \<and> hm_abs hf mode s' c"
proof -
  from assms obtain v K where s: "at_cache hf mode s v K c" by (auto simp: hm_abs_at)
  from start_at[OF s] obtain s0 where s0: "hm_doUpdate False s = Inr s0" "at_cache hf mode s0 v K c" .
  from abs_at[OF poke_at[OF s0(2), of H_iBackupTail "hm_mem s0 H_iGetTail"]] tails_at(5)[OF s0(2)] s0 abs_at
  show ?thesis by (auto simp: hm_backup_begin_def)
qed

text \<open>The value handed out with the code \<open>r\<close> is a record of the cache.\<close>

definition hands_out :: "rt \<Rightarrow> cache \<Rightarrow> rt \<Rightarrow> block_data \<Rightarrow> bool" where
  "hands_out r c ret d \<longleftrightarrow> (case c_find (bd_key d) c of None \<Rightarrow> False | Some None \<Rightarrow> ret = RT_ONLY_KEY
     | Some (Some y) \<Rightarrow> ret = r \<and> bd_value d = y)"

lemma handed:
  assumes "at_cache hf mode s v K c" "a \<in> set (sh_set v)"
  shows "hands_out r c (if snd (K a) = None then RT_ONLY_KEY else r) (data_of a (K a) d s)"
  using at_record(4)[OF assms] by (cases "snd (K a)") (simp_all add: hands_out_def data_of_def)

lemma hm_sync_cache:
  assumes "hm_abs hf mode s c"
  shows "\<exists>ret d' s'. hm_sync now d s = Inr (ret, d', s') \<and> hm_abs hf mode s' c \<and>
    (ret = RT_OK \<or> ret = RT_NONEED_SYNC \<or> hands_out RT_NEED_SYNC c ret d')"
proof -
  from assms obtain v K where s: "at_cache hf mode s v K c" by (auto simp: hm_abs_at)
  from start_at[OF s] obtain s0 where s0: "hm_doUpdate False s = Inr s0" "at_cache hf mode s0 v K c" .
  let ?a = "hm_mem s0 H_iSyncTail"
  show ?thesis
  proof (cases "?a = 0")
    case True
    then show ?thesis using s0 abs_at[OF s0(2)] by (auto simp: hm_sync_def Let_def)
  next
    case False
    then have a: "?a \<in> set (sh_set v)" using tails_at(2)[OF s0(2)] by simp
    let ?s = "poke H_iSyncTail (hm_mem s0 (B_iSetPrev ?a)) s0"
    have s1: "at_cache hf mode ?s v K c" by (rule poke_at[OF s0(2)]) (use prev_at(1)[OF s0(2) a] in simp_all)
    note r = at_record[OF s1 a] and live = at_record(1)[OF s0(2) a]
    note h = handed[OF s1 a, of RT_NEED_SYNC d]
    note p = past_dirty_at[OF s1 a]
    from dirty_at[OF s1 a, of False] obtain s2 where s2: "setDirty False ?a ?s = Inr s2" "at_cache hf mode s2 v K c" by blast
    note p2 = past_dirty_at[OF poke_time_at[OF s2(2)] a, of ?a now]
    show ?thesis
      using False s0(1) live r(5)[of d] h abs_at[OF s1] abs_at[OF p] abs_at[OF p2] s2(1)
      by (cases "snd (K ?a)") (auto simp: hm_sync_def Let_def simp del: bindE_Inr_iff)
  qed
qed

lemma hm_backup_cache:
  assumes "hm_abs hf mode s c"
  shows "\<exists>ret d' s'. hm_backup d s = Inr (ret, d', s') \<and> hm_abs hf mode s' c \<and>
    (ret = RT_OK \<or> hands_out RT_NEED_BACKUP c ret d')"
proof -
  from assms obtain v K where s: "at_cache hf mode s v K c" by (auto simp: hm_abs_at)
  from start_at[OF s] obtain s0 where s0: "hm_doUpdate False s = Inr s0" "at_cache hf mode s0 v K c" .
  let ?a = "hm_mem s0 H_iBackupTail"
  show ?thesis
  proof (cases "?a = 0")
    case True
    then show ?thesis using s0 abs_at[OF s0(2)] by (auto simp: hm_backup_def Let_def)
  next
    case False
    then have a: "?a \<in> set (sh_set v)" using tails_at(3)[OF s0(2)] by simp
    let ?s = "poke H_iBackupTail (hm_mem s0 (B_iGetPrev ?a)) s0"
    have s1: "at_cache hf mode ?s v K c" by (rule poke_at[OF s0(2)]) (use prev_at(2)[OF s0(2) a] in simp_all)
    from commit_at[OF s1] obtain s2 where s2: "hm_doUpdate True ?s = Inr s2" "at_cache hf mode s2 v K c" by blast
    note r = at_record[OF s0(2) a]
    show ?thesis
      using False s0(1) r(5)[of d] handed[OF s0(2) a, of RT_NEED_BACKUP d] abs_at[OF s2(2)] s2(1)
      by (cases "snd (K ?a)") (auto simp: hm_backup_def Let_def simp del: bindE_Inr_iff)
  qed
qed

text \<open>Moving the oldest record to the front, as \<open>erase\<close> does, is \<open>refreshGetList\<close>.\<close>

lemma rotate_at:
  assumes "at_cache hf mode s v K c" "a \<in> set (sh_set v)" "hm_mem s H_iGetTail = a" "hm_mem s H_iGetHead \<noteq> a"
  shows "\<exists>s'. bindE (hm_updates
      ((if hm_mem s H_iBackupTail = a then [(H_iBackupTail, hm_mem s (B_iGetPrev a))] else []) @
       [(H_iGetTail, hm_mem s (B_iGetPrev a)), (B_iGetNext (hm_mem s (B_iGetPrev a)), 0), (B_iGetPrev a, 0),
        (B_iGetNext a, hm_mem s H_iGetHead), (B_iGetPrev (hm_mem s H_iGetHead), a), (H_iGetHead, a)]) s) (hm_doUpdate True) = Inr s' \<and>
    at_cache hf mode s' (front_get a v) K (c_read (fst (K a)) c)"
proof -
  let ?m = "hm_mem s"
  let ?b = "if ?m H_iBackupTail = a then [(H_iBackupTail, ?m (B_iGetPrev a))] else []"
  let ?us = "?b @ front_list H_iGetHead H_iGetTail B_iGetNext B_iGetPrev a ?m"
  let ?vs = "?b @ [(H_iGetTail, ?m (B_iGetPrev a)), (B_iGetNext (?m (B_iGetPrev a)), 0), (B_iGetPrev a, 0),
        (B_iGetNext a, ?m H_iGetHead), (B_iGetPrev (?m H_iGetHead), a), (H_iGetHead, a)]"
  note gp = good_parts[OF at_good[OF assms(1)]]
  note gl = good_lists[OF gp(1)]
  have d: "dlist (\<lambda>a. ?m (B_iGetNext a)) (\<lambda>a. ?m (B_iGetPrev a)) (?m H_iGetHead) (?m H_iGetTail) (sh_get v)"
    using gl(2) by (simp add: list_at_def)
  have ag: "a \<in> set (sh_get v)" using gl(3) assms(2) by simp
  note n = dlist_neighbours[OF d ag]
  have h0: "?m H_iGetHead \<noteq> 0" "?m H_iGetTail \<noteq> 0" using dlist_empty[OF d] ag by auto
  have p0: "?m (B_iGetPrev a) \<noteq> 0" using n(1) assms(4) by simp
  have hd: "?m H_iGetHead \<in> set (sh_set v)" "?m (B_iGetPrev a) \<in> set (sh_set v)"
    using dlist_ends[OF d] h0(1) n(3) p0 gl(3) by simp_all
  have live: "hm_live s x" if "x \<in> set (sh_set v)" for x using at_record(1)[OF assms(1) that] .
  have run: "bindE (hm_updates (?b @ ys) s) (hm_doUpdate True) = Inr (after (?b @ ys) s)"
    if "\<forall>p\<in>set ys. loc_ok s (fst p)" "length ys \<le> 8" for ys
    by (rule pending_txn[OF gp(3)]) (use that in \<open>auto split: if_splits\<close>)
  have us: "bindE (hm_updates ?us s) (hm_doUpdate True) = Inr (after ?us s)"
    by (rule run) (use hd live assms(2,3) n(2) in \<open>auto simp: front_list_def Let_def\<close>)
  have vs: "bindE (hm_updates ?vs s) (hm_doUpdate True) = Inr (after ?vs s)"
    by (rule run) (use hd live assms(2) in auto)
  have "store_all ?vs m = store_all ?us m" for m
    using n(2,5,6) assms(3,4) by (intro ext) (auto simp: store_all_stored front_list_def Let_def)
  then have same: "after ?vs s = after ?us s" by (simp add: after_def)
  have "refreshGetList a s = Inr (after ?us s)"
    unfolding refreshGetList_def Let_def using assms(3,4) h0 p0 us live[OF assms(2)] by (simp del: bindE_Inr_iff)
  with read_at[OF assms(1,2)] have "at_cache hf mode (after ?us s) (front_get a v) K (c_read (fst (K a)) c)" by simp
  then show ?thesis using vs unfolding same by blast
qed


text \<open>\<open>erase\<close> takes the record that was not read for the longest time.\<close>

definition erases :: "(byte list \<Rightarrow> nat) \<Rightarrow> nat \<Rightarrow> bool \<Rightarrow> cache \<Rightarrow> rt \<Rightarrow> block_data \<Rightarrow> hmap \<Rightarrow> bool" where
  "erases hf mode chk c ret d s \<longleftrightarrow> (\<exists>e newer. c_get c = newer @ [e] \<and>
     (chk \<and> ret = RT_DIRTY_DATA \<and> hm_abs hf mode s (c_read (fst e) c) \<or>
      chk \<and> ret = RT_OK \<and> newer = [] \<and> hm_abs hf mode s c \<or>
      hands_out RT_ERASE_OK c ret d \<and> bd_key d = fst e \<and> hm_abs hf mode s (c_del (fst e) c)))"

lemma hm_erase_cache:
  assumes "hm_abs hf mode s c"
  shows "\<exists>ret d' s'. hm_erase radio d chk s = Inr (ret, d', s') \<and>
    (if c_get c = [] \<or> hm_iUsedChunk s * 100 < nat (max 1 (min 100 radio)) * allBlockChunkCount (hm_alloc s)
     then ret = RT_OK \<and> hm_abs hf mode s' c else erases hf mode chk c ret d' s')"
proof -
  from assms obtain v K where s: "at_cache hf mode s v K c" by (auto simp: hm_abs_at)
  from start_at[OF s] obtain s0 where s0: "hm_doUpdate False s = Inr s0" "at_cache hf mode s0 v K c" "hm_stModifyData s0 = []"
    "s0 = with_journal 0 [] s" .
  let ?a = "hm_mem s0 H_iGetTail"
  let ?r = "max 1 (min 100 radio)"
  have radio: "(if radio \<le> 0 then 1 else if radio \<ge> 100 then 100 else radio) = ?r" by auto
  have cg: "c_get c = List.map K (sh_get v)" using s0(2) by (simp add: at_cache_def)
  have conf: "hm_iUsedChunk s0 = hm_iUsedChunk s" "hm_alloc s0 = hm_alloc s" using s0(4) by simp_all
  note gl = good_lists[OF good_parts(1)[OF at_good[OF s0(2)]]]
  note tl = tails_at[OF s0(2)]
  have ro: "\<not> hm_bReadOnly s0" by (rule at_writable[OF s0(2)])
  show ?thesis
  proof (cases "sh_get v = []")
    case True
    then have "?a = 0" using tl(4) by simp
    then show ?thesis using s0(1) ro abs_at[OF s0(2)] True cg by (simp add: hm_erase_def Let_def)
  next
    case False
    then have last: "?a = last (sh_get v)" using tl(4) by (simp add: last0_def)
    then have a: "?a \<in> set (sh_set v)" using last_in_set[OF False] gl(3) by simp
    have a0: "?a \<noteq> 0" by (rule at_record(2)[OF s0(2) a])
    obtain newer where nw: "c_get c = newer @ [K ?a]" "newer = List.map K (butlast (sh_get v))"
      using append_butlast_last_id[OF False] last by (metis cg list.simps(8,9) map_append)
    have live: "hm_live s0 ?a" by (rule at_record(1)[OF s0(2) a])
    let ?low = "hm_iUsedChunk s * 100 < nat ?r * allBlockChunkCount (hm_alloc s)"
    show ?thesis
    proof (cases ?low)
      case True
      then show ?thesis using s0(1) ro a0 abs_at[OF s0(2)] conf by (simp add: hm_erase_def Let_def radio)
    next
      case low: False
      have ne: "c_get c \<noteq> []" using nw by simp
      show ?thesis
      proof (cases "chk \<and> isDirty ?a s0")
        case True
        let ?s = "if hm_mem s0 H_iDirtyTail = 0 then poke H_iDirtyTail ?a s0 else s0"
        have s1: "at_cache hf mode ?s v K c" using poke_at[OF s0(2), of H_iDirtyTail ?a] s0(2) a by simp
        have m: "hm_mem ?s H_iBackupTail = hm_mem s0 H_iBackupTail" "hm_mem ?s H_iGetTail = ?a" "hm_mem ?s H_iGetHead = hm_mem s0 H_iGetHead"
          "\<And>x. hm_mem ?s (B_iGetPrev x) = hm_mem s0 (B_iGetPrev x)" by simp_all
        show ?thesis
        proof (cases "hm_mem s0 H_iGetHead = ?a")
          case head: True
          have "hm_mem s0 H_iGetHead = hd (sh_get v)" using gl(2) False by (cases "sh_get v") (simp_all add: list_at_def dlist_def hd0_def)
          with head last gl(5) False have "butlast (sh_get v) = []" by (cases "sh_get v") (auto split: if_splits)
          then have "newer = []" using nw(2) by simp
          then have "erases hf mode chk c RT_OK d ?s" unfolding erases_def using nw(1) True abs_at[OF s1] by auto
          moreover have "hm_erase radio d chk s = Inr (RT_OK, d, ?s)"
            using s0(1) ro a0 low conf live True head by (simp add: hm_erase_def Let_def radio del: bindE_Inr_iff)
          ultimately show ?thesis using low ne by simp
        next
          case head: False
          from rotate_at[OF s1 a m(2)] head obtain s2 where s2: "bindE (hm_updates
              ((if hm_mem s0 H_iBackupTail = ?a then [(H_iBackupTail, hm_mem s0 (B_iGetPrev ?a))] else []) @
               [(H_iGetTail, hm_mem s0 (B_iGetPrev ?a)), (B_iGetNext (hm_mem s0 (B_iGetPrev ?a)), 0), (B_iGetPrev ?a, 0),
                (B_iGetNext ?a, hm_mem s0 H_iGetHead), (B_iGetPrev (hm_mem s0 H_iGetHead), ?a), (H_iGetHead, ?a)]) ?s) (hm_doUpdate True) = Inr s2"
            "at_cache hf mode s2 (front_get ?a v) K (c_read (fst (K ?a)) c)"
            unfolding m by blast
          have "hm_erase radio d chk s = Inr (RT_DIRTY_DATA, d, s2)"
            unfolding hm_erase_def Let_def radio s0(1) bindE_simps
            using ro a0 low conf live True head s2(1) by (simp del: bindE_Inr_iff hm_updates.simps append_Cons)
          moreover have "erases hf mode chk c RT_DIRTY_DATA d s2" unfolding erases_def using nw(1) True abs_at[OF s2(2)] by auto
          ultimately show ?thesis using low ne by simp
        qed
      next
        case False
        from del_at[OF s0(2) a] obtain s1 where s1: "block_erase ?a s0 = Inr s1"
          "at_cache hf mode s1 (drop_block ?a v) K (c_del (fst (K ?a)) c)" by blast
        have nd: "(chk \<and> isDirty ?a s0) = False" using False by simp
        let ?d = "data_of ?a (K ?a) d s0" and ?ret = "if snd (K ?a) = None then RT_ONLY_KEY else RT_ERASE_OK"
        have "hm_erase radio d chk s = Inr (?ret, ?d, s1)"
          unfolding hm_erase_def Let_def radio s0(1) bindE_simps nd if_False
          using ro a0 low conf live at_record(5)[OF s0(2) a, of d] s1(1) by simp
        moreover have "erases hf mode chk c ?ret ?d s1"
          unfolding erases_def using nw(1) handed[OF s0(2) a, of RT_ERASE_OK d] abs_at[OF s1(2)] by (auto simp: data_of_def)
        ultimately show ?thesis using low ne by simp
      qed
    qed
  qed
qed


section \<open>A map just created\<close>

definition empty_shape :: shape where
  "empty_shape = \<lparr>sh_set = [], sh_get = [], sh_bucket = (\<lambda>i. []), sh_chunks = (\<lambda>a. [])\<rparr>"

definition empty_cache :: cache where
  "empty_cache = \<lparr>c_get = [], c_set = []\<rparr>"

lemma empty_mem_inv: "mem_inv (reset_item (store_all reset_head m)) n empty_shape"
proof -
  let ?m = "reset_item (store_all reset_head m)"
  have i: "?m (I_iBlockAddr i) = 0" "?m (I_iListCount i) = 0" for i by simp_all
  have "lists_inv ?m empty_shape" by (simp add: lists_inv_def empty_shape_def list_at_def reset_head_def)
  moreover have "buckets_inv ?m n empty_shape" by (simp add: buckets_inv_def empty_shape_def bucket_at_def)
  moreover have "chains_inv ?m empty_shape" by (simp add: chains_inv_def empty_shape_def)
  moreover have "counts_inv ?m empty_shape" by (simp add: counts_inv_def empty_shape_def reset_head_def)
  moreover have "tails_inv ?m empty_shape" by (simp add: tails_inv_def reset_head_def)
  ultimately show ?thesis by (simp add: mem_inv_def)
qed

lemma calc_sizes:
  assumes "calc grow iSize minB maxB = Inr (v, n)" "minB \<le> maxB" shows "\<forall>b\<in>set v. minB \<le> b \<and> b \<le> maxB"
proof -
  have "b \<in> set (size_steps grow k maxB) \<Longrightarrow> k \<le> b \<and> b < maxB" for b k
    by (induction grow k maxB rule: size_steps.induct) (subst (asm) (2) size_steps.simps, auto split: if_splits)
  with assms show ?thesis by (fastforce simp: calc_def Let_def split: if_splits)
qed

text \<open>What the memory held where the journal is, and how the memory is laid out.\<close>

definition create_ok :: "nat \<Rightarrow> nat \<Rightarrow> byte list \<Rightarrow> hmap \<Rightarrow> hmap \<Rightarrow> bool" where
  "create_ok maxD iSize d r s \<longleftrightarrow> hm_stModifyData r = [] \<and> hm_cModifyStatus r = 0 \<and> hash_count s \<le> 2 ^ 32 \<and>
     data_offset (hm_hash s) \<le> iSize \<and> iSize \<le> length d \<and> iSize < 2 ^ 64 \<and> block_head_size + maxD < 2 ^ 32"

lemma hm_create_cache:
  assumes c: "hm_create grow True radio root minD maxD iSize d r = Inr s" and ok: "create_ok maxD iSize d r s"
  shows "hm_abs hf 0 s empty_cache"
proof -
  from c obtain n v m where s: "mv_create hash_item_size (mv_calcMemSize hash_item_size n) = Inr v"
    "multi_create grow True (data_offset v) (usub iSize (data_offset v)) (block_head_size + minD) (block_head_size + maxD)
       (drop (data_offset v) d) = Inr m"
    "minD \<noteq> 0" "hm_hash s = v" "hm_alloc s = m" "hm_iUsedChunk s = 0" "hm_mem s = reset_item (store_all reset_head (hm_mem r))"
    "\<not> hm_bReadOnly s" "hm_cEraseMode s = 0" "hm_stModifyData s = hm_stModifyData r" "hm_cModifyStatus s = hm_cModifyStatus r"
    unfolding hm_create_def by (auto simp: Let_def split: if_splits option.splits)
  have b: "block_head_size + minD \<le> block_head_size + maxD" using s(2) by (auto simp: multi_create_def split: if_splits)
  obtain vs k where cl: "calc grow (usub iSize (data_offset v)) (block_head_size + minD) (block_head_size + maxD) = Inr (vs, k)"
    using s(2) by (auto simp: multi_create_def split: if_splits)
  have off: "data_offset v \<le> iSize" "iSize \<le> length d" "iSize < 2 ^ 64" using ok s(4) by (simp_all add: create_ok_def)
  then have u: "usub iSize (data_offset v) = iSize - data_offset v" by (simp add: usub_def)
  have "8 < block_head_size + minD" "usub iSize (data_offset v) \<le> length (drop (data_offset v) d)" "usub iSize (data_offset v) < 2 ^ 64"
    using off by (simp_all add: u block_head_size_def)
  from multi_create_ok[OF cl this(1) b this(2,3), of "data_offset v"] s(2) have m: "multi_inv m" "multi_free m = {1..multi_total m}"
    "m_pHead m = data_offset v" "m_nallocator m = None" by auto
  have "multi_getBlockSize m = vs" using s(2) cl by (auto simp: multi_create_def split: if_splits)
  then have "\<forall>b\<in>set (multi_getBlockSize m). pool_size_ok b"
    using calc_sizes[OF cl b] s(3) ok by (auto simp: pool_size_ok_def min_block_def block_head_size_def create_ok_def)
  moreover have "0 < m_pHead m" by (simp add: m(3) data_offset_def map_head_size_def)
  ultimately have pool: "pool_ok m" "pool_live m = {}" using m pool_created by (simp_all add: pool_ok_def)
  have "0 < mv_iBlockCount v" using s(1) by (auto simp: mv_create_def split: if_splits)
  then have "0 < hash_count s" using s(4) by simp
  then have "core_inv s empty_shape []"
    using pool s ok by (simp add: core_inv_def empty_shape_def hm_pieces_def create_ok_def)
  then have "hm_inv s empty_shape [] {}" using empty_mem_inv by (simp add: hm_inv_def contents_inv_def s(7) empty_shape_def)
  moreover have "keys_inv hf s empty_shape {} (\<lambda>a. ([], None))" by (simp add: keys_inv_def empty_shape_def)
  moreover have "pending s" using s ok by (simp add: pending_def create_ok_def)
  ultimately have "hm_good hf s empty_shape [] {} (\<lambda>a. ([], None))" by (simp add: hm_good_def)
  then show ?thesis using s(8,9) unfolding hm_abs_def by (fastforce simp: empty_cache_def empty_shape_def)
qed

end
