(* ===== verification/Hm_Room.thy ===== *)
theory Hm_Room
  imports Hash_Cache
begin

text \<open>
  Where memory is left, a record is stored and nothing is evicted: the paths of \<open>set\<close> through the
  allocator.
\<close>

section \<open>Free blocks\<close>

text \<open>At least \<open>n\<close> blocks of the region are free.\<close>

definition has_room :: "nat \<Rightarrow> multi \<Rightarrow> bool" where
  "has_room n m \<longleftrightarrow> pool_ok m \<and> card (pool_live m) + n \<le> allBlockChunkCount m"

lemma has_room_less: "has_room n m \<Longrightarrow> k \<le> n \<Longrightarrow> has_room k m"
  by (simp add: has_room_def)

lemma alloc_room:
  assumes "has_room (Suc n) m"
  shows "\<exists>p b m'. multi_allocate need m = Inr (Some (p, b), m') \<and> has_room n m' \<and> p \<noteq> 0 \<and> min_block \<le> b"
proof -
  have ok: "pool_ok m" "multi_inv m" "card (pool_live m) < allBlockChunkCount m"
    using assms by (simp_all add: has_room_def pool_ok_def)
  have "multi_allocate need m \<noteq> Inr (None, m)"
  proof
    assume "multi_allocate need m = Inr (None, m)"
    then have "multi_free m = {}"
      using multi_allocate2_ok[OF ok(2), of need] by (auto simp: multi_allocate_def)
    then have "card (pool_live m) = multi_total m"
      unfolding pool_live_image[OF ok(2)] using card_image[OF pool_name_inj[OF ok(2)]] by simp
    with ok(3) total_count[OF ok(2)] show False by simp
  qed
  with pool.alloc_cases[OF ok(1), of need] obtain p b m' where r: "multi_allocate need m = Inr (Some (p, b), m')" "pool_ok m'"
    "p \<notin> pool_live m" "pool_live m' = insert p (pool_live m)" "multi_same m m'" "pool_size_ok b" by blast
  have "card (pool_live m') = Suc (card (pool_live m))" "allBlockChunkCount m' = allBlockChunkCount m"
    using r pool.live_card[OF ok(1)] pool.like_capacity[OF r(5)] by simp_all
  moreover have "p \<noteq> 0" using pool.live_pos[OF r(2), of p] r(4) by simp
  ultimately show ?thesis using r assms by (auto simp: has_room_def pool_size_ok_def)
qed

lemma get_piece_room:
  assumes "has_room (Suc n) (hm_alloc s)" "get_piece (Suc fuel) now need vt s = Inr (p, b, vt', s')"
  shows "p \<noteq> 0 \<and> vt' = vt \<and> has_room n (hm_alloc s') \<and> min_block \<le> b"
  using alloc_room[OF assms(1), of need] assms(2) by (auto simp: new_piece_def)

section \<open>What keeps the allocator\<close>

lemma updates_alloc: "hm_updates us s = Inr s' \<Longrightarrow> hm_alloc s' = hm_alloc s"
proof (induction us arbitrary: s)
  case (Cons u us)
  then show ?case by (cases u) (fastforce simp: hm_update_def Let_def assert_that_def split: if_splits)
qed simp

lemma doUpdate_alloc: "hm_doUpdate b s = Inr s' \<Longrightarrow> hm_alloc s' = hm_alloc s"
  by (auto simp: hm_doUpdate_def Let_def split: if_splits)

lemma poke_alloc [simp]: "hm_alloc (poke l x s) = hm_alloc s"
  by (simp add: poke_def)

lemma makeNew_alloc: "makeNew i b p s = Inr s' \<Longrightarrow> hm_alloc s' = hm_alloc s"
  by (auto simp: makeNew_def Let_def at_block_def with_item_def assert_that_def bindE_Inr_iff simp del: hm_updates.simps append_Cons
      dest!: updates_alloc doUpdate_alloc split: if_splits sum.splits)

section \<open>The paths of a write\<close>

lemma get_chunks_room:
  "has_room fn (hm_alloc s) \<Longrightarrow> 0 < fn \<Longrightarrow> get_chunks fuel a fn cs vt s = Inr (ret, cs', vt', s') \<Longrightarrow> ret = RT_OK \<and> vt' = vt"
proof (induction fuel arbitrary: fn cs s)
  case (Suc fuel)
  obtain n where n: "fn = Suc n" using Suc.prems(2) by (cases fn) auto
  from Suc.prems(3) obtain p b vt1 s1 where g: "get_piece (loop_limit s) a fn vt s = Inr (p, b, vt1, s1)"
    by (auto simp: ba_allocateChunk_def)
  have r: "p \<noteq> 0 \<and> vt1 = vt \<and> has_room n (hm_alloc s1) \<and> min_block \<le> b"
    using g get_piece_room[of n s] Suc.prems(1) unfolding n loop_limit_def by blast
  show ?case
  proof (cases "fn \<le> usub b chunk_link_size")
    case True
    then show ?thesis using Suc.prems(3) g r by (simp add: ba_allocateChunk_def Let_def)
  next
    case False
    have "chunk_link_size < b" using r by (simp add: min_block_def chunk_link_size_def)
    then have u: "usub b chunk_link_size = b - chunk_link_size" "0 < b - chunk_link_size" by simp_all
    then have f: "0 < usub fn (usub b chunk_link_size)" "usub fn (usub b chunk_link_size) \<le> n" using False n by auto
    let ?s = "poke (C_iSize p) (b mod 2 ^ 32) (incChunkCount s1)"
    have "has_room (usub fn (usub b chunk_link_size)) (hm_alloc ?s)" using r f(2) has_room_less by (auto simp: incChunkCount_def)
    from Suc.IH[OF this f(1)] show ?thesis using Suc.prems(3) g r False by (simp add: ba_allocateChunk_def Let_def)
  qed
qed simp

lemma extend_chain_room:
  assumes "has_room fn (hm_alloc s)" "extend_chain a l k fn vt s = Inr (ret, vt', s')" shows "ret = RT_OK \<and> vt' = vt"
proof -
  from assms(2) obtain r cs vt1 s1 where c: "0 < fn" "get_chunks (Suc fn) a fn [] vt s = Inr (r, cs, vt1, s1)"
    unfolding extend_chain_def allocateChunk_def by (auto simp: assert_that_def simp del: get_chunks.simps split: if_splits)
  from get_chunks_room[OF assms(1) c] c assms(2) show ?thesis by (auto simp: extend_chain_def allocateChunk_def simp del: get_chunks.simps)
qed

lemma usub_bound: "\<not> n \<le> k \<Longrightarrow> usub n k \<le> n"
  by simp

lemma fit_chunks_room:
  "has_room fn (hm_alloc s) \<Longrightarrow> fit_chunks fuel a c fn vt s = Inr (ret, vt', s') \<Longrightarrow> ret = RT_OK \<and> vt' = vt"
proof (induction fuel arbitrary: c fn)
  case (Suc fuel)
  show ?case
  proof (cases "fn \<le> chunk_room c s")
    case True
    then show ?thesis using Suc.prems(2) by (auto simp: at_block_def assert_that_def Let_def split: if_splits)
  next
    case False
    have room: "has_room (usub fn (chunk_room c s)) (hm_alloc s)" by (rule has_room_less[OF Suc.prems(1) usub_bound[OF False]])
    then show ?thesis using False Suc.prems(2) Suc.IH[OF room] extend_chain_room[OF room]
      by (auto simp: at_block_def assert_that_def Let_def split: if_splits)
  qed
qed simp

lemma block_set_room:
  assumes "has_room (length bs) (hm_alloc s)" "block_set a bs b vt s = Inr (ret, vt', s')"
  shows "ret = RT_OK \<and> vt' = vt"
proof -
  from assms(2) obtain r vt1 s1 where a: "block_allocate a (length bs) vt s = Inr (r, vt1, s1)" by (auto simp: block_set_def)
  have "r = RT_OK \<and> vt1 = vt"
  proof (cases "block_room a s \<ge> length bs")
    case True
    then show ?thesis using a by (auto simp: block_allocate_def at_block_def assert_that_def Let_def split: if_splits)
  next
    case False
    have room: "has_room (usub (length bs) (block_room a s)) (hm_alloc s)" by (rule has_room_less[OF assms(1) usub_bound]) (use False in simp)
    then show ?thesis using False a fit_chunks_room[OF room] extend_chain_room[OF room]
      by (auto simp: block_allocate_def at_block_def assert_that_def Let_def split: if_splits)
  qed
  then show ?thesis using assms(2) a
    by (auto simp: block_set_def at_block_def assert_that_def simp del: put_chunks.simps split: if_splits)
qed

lemma find_or_make_room:
  assumes f: "find_key k (hashIndex hf k s) s = Inr (a0, RT_OK, s0)" "hm_alloc s0 = hm_alloc s" and room: "has_room (Suc n) (hm_alloc s)"
    and r: "find_or_make hf k bs vt s = Inr (ret, a, new, vt', s')"
  shows "ret = RT_OK \<and> vt' = vt \<and> has_room n (hm_alloc s')"
proof (cases "a0 = 0")
  case False
  then show ?thesis using f r has_room_less[OF room, of n] by (auto simp: find_or_make_def Let_def)
next
  case True
  let ?i = "hashIndex hf k s" and ?n = "block_head_size + length bs"
  from r f(1) True obtain p b vt1 s1 where g: "get_piece (loop_limit s0) 0 ?n vt s0 = Inr (p, b, vt1, s1)"
    by (auto simp: find_or_make_def Let_def allocateMemBlock_def)
  have p: "p \<noteq> 0 \<and> vt1 = vt \<and> has_room n (hm_alloc s1) \<and> min_block \<le> b"
    using g get_piece_room[of n s0] room f(2) unfolding loop_limit_def by auto
  with r f(1) True g obtain s2 where s2: "makeNew ?i b p s1 = Inr s2" "ret = RT_OK" "vt' = vt" "s' = incChunkCount s2"
    by (auto simp: find_or_make_def Let_def allocateMemBlock_def)
  then show ?thesis using p makeNew_alloc[OF s2(1)] by (simp add: incChunkCount_def)
qed

lemma store_part_room:
  assumes f: "find_key k (hashIndex hf k s) s = Inr (a0, RT_OK, s0)" "hm_alloc s0 = hm_alloc s"
    and room: "has_room (Suc (length bs)) (hm_alloc s)"
    and fin: "\<And>a new vt s ret vt' s'. fin a new vt s = Inr (ret, vt', s') \<Longrightarrow> ret = RT_OK \<and> vt' = vt"
    and r: "store_part hf k bs b fin vt s = Inr (ret, vt', s')"
  shows "ret = RT_OK \<and> vt' = vt"
proof -
  from r obtain r1 a new vt1 s1 where m: "find_or_make hf k bs vt s = Inr (r1, a, new, vt1, s1)" by (auto simp: store_part_def)
  note m1 = find_or_make_room[OF f room m]
  with r m obtain r2 vt2 s2 where w: "block_set a bs b vt s1 = Inr (r2, vt2, s2)" by (auto simp: store_part_def)
  have "r2 = RT_OK \<and> vt2 = vt" by (rule block_set_room[OF _ w]) (use m1 in simp)
  with r m m1 w have "fin a new vt s2 = Inr (ret, vt', s')" by (simp add: store_part_def)
  from fin[OF this] show ?thesis .
qed


section \<open>A record for which there is room\<close>

lemma room_of_journal:
  assumes "at_cache hf mode s v K c" "length (hm_stModifyData s) < 3" "has_room (Suc (length bs)) (hm_alloc s)"
    and fin: "\<And>a new vt s ret vt' s'. fin a new vt s = Inr (ret, vt', s') \<Longrightarrow> ret = RT_OK \<and> vt' = vt"
    and r: "store_part hf k bs b fin vt s = Inr (ret, vt', s')"
  shows "ret = RT_OK \<and> vt' = vt"
proof -
  note gp = good_parts[OF at_good[OF assms(1)]]
  from find_key_ok[OF gp assms(2), of k] obtain a cm js where
    "find_key k (hashIndex hf k s) s = Inr (a, RT_OK, with_journal cm js s)" by blast
  from store_part_room[OF this _ assms(3) fin r] show ?thesis by simp
qed

lemma begin_room:
  assumes "at_cache hf mode s v K c"
  obtains s1 where "bindE (hm_doUpdate False s) incGetCount = Inr s1" "at_cache hf mode s1 v K c" "length (hm_stModifyData s1) < 3"
    "hm_alloc s1 = hm_alloc s"
proof -
  from start_at[OF assms] obtain s0 where s0: "hm_doUpdate False s = Inr s0" "at_cache hf mode s0 v K c" "hm_stModifyData s0 = []" .
  from count_at[OF s0(2,3)] obtain s1 where s1: "incGetCount s0 = Inr s1" "at_cache hf mode s1 v K c" "length (hm_stModifyData s1) < 3" .
  have "hm_alloc s1 = hm_alloc s0" using s1(1) by (auto simp: incGetCount_def hm_update_def Let_def assert_that_def split: if_splits)
  then show thesis using that s0(1) s1 doUpdate_alloc[OF s0(1)] by simp
qed

lemma hm_set_room:
  assumes "hm_abs hf mode s c" "has_room (Suc (length (enc (k, Some x)))) (hm_alloc s)" "hm_set hf now k x d vt s = Inr (ret, vt', s')"
  shows "ret = RT_OK \<and> vt' = vt"
proof -
  from assms(1) obtain v K where s: "at_cache hf mode s v K c" by (auto simp: hm_abs_at)
  from begin_room[OF s] obtain s1 where s1: "bindE (hm_doUpdate False s) incGetCount = Inr s1" "at_cache hf mode s1 v K c"
    "length (hm_stModifyData s1) < 3" "hm_alloc s1 = hm_alloc s" .
  show ?thesis
  proof (rule room_of_journal[OF s1(2,3), where bs = "enc (k, Some x)" and b = False and vt = vt])
    show "has_room (Suc (length (enc (k, Some x)))) (hm_alloc s1)" using assms(2) s1(4) by simp
    show "store_part hf k (enc (k, Some x)) False (\<lambda>a new vt s. bindE (setDirty d a (if new then poke (B_iSyncTime a) now s else s)) (\<lambda>s.
       bindE (refreshSetList a s) (\<lambda>s. Inr (RT_OK, vt, s)))) vt s1 = Inr (ret, vt', s')"
      using assms(3) at_writable[OF s1(2)] unfolding set_as_store(1) s1(1) by simp
  qed auto
qed

lemma hm_set_key_room:
  assumes "hm_abs hf mode s c" "has_room (Suc (length (enc (k, None)))) (hm_alloc s)" "hm_set_key hf now k vt s = Inr (ret, vt', s')"
  shows "ret = RT_OK \<and> vt' = vt"
proof -
  from assms(1) obtain v K where s: "at_cache hf mode s v K c" by (auto simp: hm_abs_at)
  from begin_room[OF s] obtain s1 where s1: "bindE (hm_doUpdate False s) incGetCount = Inr s1" "at_cache hf mode s1 v K c"
    "length (hm_stModifyData s1) < 3" "hm_alloc s1 = hm_alloc s" .
  show ?thesis
  proof (rule room_of_journal[OF s1(2,3), where bs = "enc (k, None)" and b = True and vt = vt])
    show "has_room (Suc (length (enc (k, None)))) (hm_alloc s1)" using assms(2) s1(4) by simp
    show "store_part hf k (enc (k, None)) True (\<lambda>a new vt s.
       bindE (refreshSetList a (if new then poke (B_iSyncTime a) now s else s)) (\<lambda>s. Inr (RT_OK, vt, s))) vt s1 = Inr (ret, vt', s')"
      using assms(3) at_writable[OF s1(2)] unfolding set_as_store(2) s1(1) by simp
  qed auto
qed

end
