(* ===== verification/Hash_Run.thy ===== *)
theory Hash_Run
  imports Hm_Room
begin

text \<open>
  Sequences of operations on \<open>TC_HashMap\<close>, the refinement of the cache by them, and the properties
  of the component.
\<close>

section \<open>Operations\<close>

text \<open>\<open>OpErase\<close>, \<open>OpSync\<close> and \<open>OpBackup\<close> fill a \<open>BlockData\<close> that is new.\<close>

datatype hm_op =
    OpSet nat "byte list" "byte list" bool
  | OpSetKey nat "byte list"
  | OpGet "byte list"
  | OpDel "byte list"
  | OpCheckDirty "byte list"
  | OpSetDirty "byte list"
  | OpSetClean "byte list"
  | OpSetDirtyAfterSync "byte list"
  | OpErase int bool
  | OpSyncBegin
  | OpSync nat
  | OpBackupBegin bool
  | OpBackup

text \<open>The code, the value got and the records handed out.\<close>

type_synonym hm_out = "rt \<times> byte list \<times> block_data list"

definition with_rt :: "(rt \<times> hmap) result \<Rightarrow> (hm_out \<times> hmap) result" where
  "with_rt r = bindE r (\<lambda>(ret, s). Inr ((ret, [], []), s))"

definition with_data :: "(rt \<times> block_data \<times> hmap) result \<Rightarrow> (hm_out \<times> hmap) result" where
  "with_data r = bindE r (\<lambda>(ret, d, s). Inr ((ret, [], [d]), s))"

definition with_erased :: "(rt \<times> block_data list \<times> hmap) result \<Rightarrow> (hm_out \<times> hmap) result" where
  "with_erased r = bindE r (\<lambda>(ret, ds, s). Inr ((ret, [], ds), s))"

definition with_state :: "hmap result \<Rightarrow> (hm_out \<times> hmap) result" where
  "with_state r = bindE r (\<lambda>s. Inr ((RT_OK, [], []), s))"

fun hm_apply :: "(byte list \<Rightarrow> nat) \<Rightarrow> hm_op \<Rightarrow> hmap \<Rightarrow> (hm_out \<times> hmap) result" where
  "hm_apply hf (OpSet now k x d) s = with_erased (hm_set hf now k x d [] s)"
| "hm_apply hf (OpSetKey now k) s = with_erased (hm_set_key hf now k [] s)"
| "hm_apply hf (OpGet k) s = bindE (hm_get hf k [] 0 s) (\<lambda>(ret, w, t, s). Inr ((ret, w, []), s))"
| "hm_apply hf (OpDel k) s = with_data (hm_del hf k new_data s)"
| "hm_apply hf (OpCheckDirty k) s = with_rt (hm_checkDirty hf k s)"
| "hm_apply hf (OpSetDirty k) s = with_rt (hm_setDirty hf k s)"
| "hm_apply hf (OpSetClean k) s = with_rt (hm_setClean hf k s)"
| "hm_apply hf (OpSetDirtyAfterSync k) s = with_rt (hm_setDirtyAfterSync hf k s)"
| "hm_apply hf (OpErase radio chk) s = with_data (hm_erase radio new_data chk s)"
| "hm_apply hf OpSyncBegin s = with_state (hm_sync_begin s)"
| "hm_apply hf (OpSync now) s = with_data (hm_sync now new_data s)"
| "hm_apply hf (OpBackupBegin b) s = with_state (hm_backup_begin b s)"
| "hm_apply hf OpBackup s = with_data (hm_backup new_data s)"

fun hm_run :: "(byte list \<Rightarrow> nat) \<Rightarrow> hm_op list \<Rightarrow> hmap \<Rightarrow> (hm_out list \<times> hmap) result" where
  "hm_run hf [] s = Inr ([], s)"
| "hm_run hf (op # ops) s = bindE (hm_apply hf op s) (\<lambda>(r, s). bindE (hm_run hf ops s) (\<lambda>(rs, s). Inr (r # rs, s)))"

text \<open>Lengths that fit \<open>uint32_t\<close>.\<close>

fun op_ok :: "hm_op \<Rightarrow> bool" where
  "op_ok (OpSet now k x d) = (length k < 2 ^ 32 \<and> length x < 2 ^ 32)"
| "op_ok (OpSetKey now k) = (length k < 2 ^ 32)"
| "op_ok _ = True"

section \<open>The steps of the cache\<close>

inductive cache_step :: "nat \<Rightarrow> hm_op \<Rightarrow> hm_out \<Rightarrow> cache \<Rightarrow> cache \<Rightarrow> bool" for mode :: nat where
  step_set: "set_result mode (k, Some x) c ret ds c' \<Longrightarrow> cache_step mode (OpSet now k x d) (ret, [], ds) c c'"
| step_set_key: "set_result mode (k, None) c ret ds c' \<Longrightarrow> cache_step mode (OpSetKey now k) (ret, [], ds) c c'"
| step_get: "c_find k c = Some (Some y) \<Longrightarrow> cache_step mode (OpGet k) (RT_OK, y, []) c (c_read k c)"
| step_get_none: "found_rt (c_find k c) = ret \<Longrightarrow> ret \<noteq> RT_OK \<Longrightarrow> cache_step mode (OpGet k) (ret, y, []) c c"
| step_del: "found_rt (c_find k c) = ret \<Longrightarrow> bd_key d = k \<Longrightarrow> \<forall>y. c_find k c = Some (Some y) \<longrightarrow> bd_value d = y \<Longrightarrow>
    cache_step mode (OpDel k) (ret, [], [d]) c (c_del k c)"
| step_check: "found_rt (c_find k c) = RT_OK \<Longrightarrow> ret \<in> {RT_OK, RT_DIRTY_DATA} \<Longrightarrow> cache_step mode (OpCheckDirty k) (ret, [], []) c c"
| step_check_none: "found_rt (c_find k c) = ret \<Longrightarrow> ret \<noteq> RT_OK \<Longrightarrow> cache_step mode (OpCheckDirty k) (ret, [], []) c c"
| step_mark: "found_rt (c_find k c) = RT_OK \<Longrightarrow> op \<in> {OpSetDirty k, OpSetClean k} \<Longrightarrow>
    cache_step mode op (RT_OK, [], []) c (c_write k c)"
| step_mark_none: "found_rt (c_find k c) = ret \<Longrightarrow> ret \<noteq> RT_OK \<Longrightarrow> op \<in> {OpSetDirty k, OpSetClean k, OpSetDirtyAfterSync k} \<Longrightarrow>
    cache_step mode op (ret, [], []) c c"
| step_after: "found_rt (c_find k c) = RT_OK \<Longrightarrow> cache_step mode (OpSetDirtyAfterSync k) (RT_OK, [], []) c c"
| step_keep: "cache_step mode (OpErase radio chk) (RT_OK, [], [d]) c c"
| step_erase: "c_get c = newer @ [e] \<Longrightarrow> hands_out RT_ERASE_OK c ret d \<Longrightarrow> bd_key d = fst e \<Longrightarrow>
    cache_step mode (OpErase radio chk) (ret, [], [d]) c (c_del (fst e) c)"
| step_dirty: "chk \<Longrightarrow> c_get c = newer @ [e] \<Longrightarrow> cache_step mode (OpErase radio chk) (RT_DIRTY_DATA, [], [d]) c (c_read (fst e) c)"
| step_sync_begin: "cache_step mode OpSyncBegin (RT_OK, [], []) c c"
| step_backup_begin: "cache_step mode (OpBackupBegin b) (RT_OK, [], []) c c"
| step_sync: "ret = RT_OK \<or> ret = RT_NONEED_SYNC \<or> hands_out RT_NEED_SYNC c ret d \<Longrightarrow> cache_step mode (OpSync now) (ret, [], [d]) c c"
| step_backup: "ret = RT_OK \<or> hands_out RT_NEED_BACKUP c ret d \<Longrightarrow> cache_step mode OpBackup (ret, [], [d]) c c"

inductive cache_run :: "nat \<Rightarrow> hm_op list \<Rightarrow> hm_out list \<Rightarrow> cache \<Rightarrow> cache \<Rightarrow> bool" for mode :: nat where
  run_none: "cache_run mode [] [] c c"
| run_step: "cache_step mode op r c c' \<Longrightarrow> cache_run mode ops rs c' c'' \<Longrightarrow> cache_run mode (op # ops) (r # rs) c c''"

inductive_cases set_stepE: "cache_step mode (OpSet now k x d) r c c'"

section \<open>Refinement\<close>

lemma marks_step:
  assumes "marks hf mode k R c c' r"
    and "\<And>ret. ret \<in> R \<Longrightarrow> found_rt (c_find k c) = RT_OK \<Longrightarrow> cache_step mode op (ret, [], []) c c'"
    and "\<And>ret. found_rt (c_find k c) = ret \<Longrightarrow> ret \<noteq> RT_OK \<Longrightarrow> cache_step mode op (ret, [], []) c c"
  shows "\<exists>o' s' c''. with_rt r = Inr (o', s') \<and> hm_abs hf mode s' c'' \<and> cache_step mode op o' c c''"
proof -
  from assms(1) obtain ret s' where r: "r = Inr (ret, s')" "hm_abs hf mode s' (if found_rt (c_find k c) = RT_OK then c' else c)"
    "if found_rt (c_find k c) = RT_OK then ret \<in> R else ret = found_rt (c_find k c)" by (auto simp: marks_def)
  then have "with_rt r = Inr ((ret, [], []), s')" by (simp add: with_rt_def)
  with r assms(2,3) show ?thesis by (cases "found_rt (c_find k c) = RT_OK") auto
qed

lemma hm_apply_step:
  assumes "hm_abs hf mode s c" "op_ok op"
  shows "\<exists>r s' c'. hm_apply hf op s = Inr (r, s') \<and> hm_abs hf mode s' c' \<and> cache_step mode op r c c'"
proof (cases op)
  case (OpSet now k x d)
  then have "entry_ok (k, Some x)" using assms(2) by (simp add: entry_ok_def)
  from hm_set_cache[OF assms(1) this, of now d "[]"] show ?thesis
    unfolding OpSet by (fastforce simp: with_erased_def intro: step_set)
next
  case (OpSetKey now k)
  then have "entry_ok (k, None)" using assms(2) by (simp add: entry_ok_def)
  from hm_set_key_cache[OF assms(1) this, of now "[]"] show ?thesis
    unfolding OpSetKey by (fastforce simp: with_erased_def intro: step_set_key)
next
  case (OpGet k)
  from hm_get_cache[OF assms(1), of k "[]" 0] obtain w t s' where g: "hm_get hf k [] 0 s = Inr (found_rt (c_find k c), w, t, s')"
    "\<forall>y. c_find k c = Some (Some y) \<longrightarrow> w = y" "hm_abs hf mode s' (if found_rt (c_find k c) = RT_OK then c_read k c else c)" by blast
  show ?thesis
  proof (cases "found_rt (c_find k c) = RT_OK")
    case True
    then obtain y where "c_find k c = Some (Some y)" by (auto simp: found_rt_def split: option.splits)
    then show ?thesis unfolding OpGet using g True step_get[of k c y mode] by auto
  next
    case False
    then show ?thesis unfolding OpGet using g step_get_none[OF refl False, of mode w] by auto
  qed
next
  case (OpDel k)
  from hm_del_cache[OF assms(1), of k new_data] show ?thesis
    unfolding OpDel by (fastforce simp: with_data_def intro: step_del)
next
  case (OpCheckDirty k)
  show ?thesis unfolding OpCheckDirty hm_apply.simps
    by (rule marks_step[OF hm_checkDirty_cache[OF assms(1)]]) (blast intro: cache_step.intros)+
next
  case (OpSetDirty k)
  show ?thesis unfolding OpSetDirty hm_apply.simps
    by (rule marks_step[OF hm_setDirty_cache[OF assms(1)]]) (auto intro: step_mark step_mark_none)
next
  case (OpSetClean k)
  show ?thesis unfolding OpSetClean hm_apply.simps
    by (rule marks_step[OF hm_setClean_cache[OF assms(1)]]) (auto intro: step_mark step_mark_none)
next
  case (OpSetDirtyAfterSync k)
  show ?thesis unfolding OpSetDirtyAfterSync hm_apply.simps
    by (rule marks_step[OF hm_setDirtyAfterSync_cache[OF assms(1)]]) (auto intro: step_after step_mark_none)
next
  case (OpErase radio chk)
  from hm_erase_cache[OF assms(1), of radio new_data chk] obtain ret d s' where e: "hm_erase radio new_data chk s = Inr (ret, d, s')"
    "ret = RT_OK \<and> hm_abs hf mode s' c \<or> erases hf mode chk c ret d s'" by (auto split: if_splits)
  then have "\<exists>c'. hm_abs hf mode s' c' \<and> cache_step mode (OpErase radio chk) (ret, [], [d]) c c'"
    unfolding erases_def by (blast intro: step_keep step_erase step_dirty)
  with e(1) show ?thesis unfolding OpErase by (fastforce simp: with_data_def)
next
  case OpSyncBegin
  from hm_sync_begin_cache[OF assms(1)] show ?thesis unfolding OpSyncBegin by (fastforce simp: with_state_def intro: step_sync_begin)
next
  case (OpSync now)
  from hm_sync_cache[OF assms(1), of now new_data] show ?thesis unfolding OpSync by (fastforce simp: with_data_def intro: step_sync)
next
  case (OpBackupBegin b)
  from hm_backup_begin_cache[OF assms(1), of b] show ?thesis
    unfolding OpBackupBegin by (fastforce simp: with_state_def intro: step_backup_begin)
next
  case OpBackup
  from hm_backup_cache[OF assms(1), of new_data] show ?thesis unfolding OpBackup by (fastforce simp: with_data_def intro: step_backup)
qed

lemma hm_run_steps:
  "hm_abs hf mode s c \<Longrightarrow> \<forall>op\<in>set ops. op_ok op \<Longrightarrow>
   \<exists>rs s' c'. hm_run hf ops s = Inr (rs, s') \<and> cache_run mode ops rs c c' \<and> hm_abs hf mode s' c'"
proof (induction ops arbitrary: s c)
  case Nil
  then show ?case by (auto intro: run_none)
next
  case (Cons op ops)
  have "op_ok op" using Cons.prems(2) by simp
  from hm_apply_step[OF Cons.prems(1) this] obtain r s1 c1 where
    s1: "hm_apply hf op s = Inr (r, s1)" "hm_abs hf mode s1 c1" "cache_step mode op r c c1" by blast
  have "\<forall>op\<in>set ops. op_ok op" using Cons.prems(2) by simp
  from Cons.IH[OF s1(2) this] obtain rs s2 c2 where
    s2: "hm_run hf ops s1 = Inr (rs, s2)" "cache_run mode ops rs c1 c2" "hm_abs hf mode s2 c2" by blast
  have "hm_run hf (op # ops) s = Inr (r # rs, s2)" by (simp add: s1(1) s2(1))
  with run_step[OF s1(3) s2(2)] s2(3) show ?case by blast
qed


section \<open>The cache as a map\<close>

definition cache_ok :: "cache \<Rightarrow> bool" where
  "cache_ok c \<longleftrightarrow> distinct (List.map fst (c_get c)) \<and> distinct (List.map fst (c_set c)) \<and> set (c_set c) = set (c_get c)"

lemma hm_abs_ok: "hm_abs hf mode s c \<Longrightarrow> cache_ok c"
proof -
  assume "hm_abs hf mode s c"
  then obtain v K where s: "at_cache hf mode s v K c" by (auto simp: hm_abs_at)
  note gl = good_lists[OF good_parts(1)[OF at_good[OF s]]]
  have "inj_on (\<lambda>a. fst (K a)) (set (sh_set v))" using at_good[OF s] by (simp add: hm_good_def keys_inv_def)
  then show "cache_ok c"
    using s gl(3-5) by (simp add: cache_ok_def at_cache_def distinct_map comp_def)
qed

lemma find_others [simp]: "map_of (others j es) k = (if k = j then None else map_of es k)"
  by (induction es) (auto simp: others_def)

lemma find_minus [simp]: "map_of (minus_entries E es) k = (if k \<in> fst ` set E then None else map_of es k)"
  by (induction es) (force simp: minus_entries_def)+

lemma find_touch [simp]: "map_of (touch j es) k = map_of es k"
  by (auto simp: touch_def split: option.splits)

lemma c_find_simps [simp]:
  "c_find k (c_read j c) = c_find k c" "c_find k (c_write j c) = c_find k c"
  "c_find k (c_del j c) = (if k = j then None else c_find k c)"
  "c_find k (c_put e E c) = (if k = fst e then Some (snd e) else if k \<in> fst ` set E then None else c_find k c)"
  "c_find k (c_drop E c) = (if k \<in> fst ` set E then None else c_find k c)"
  "c_find k empty_cache = None"
  by (auto simp: c_find_def c_read_def c_write_def c_del_def c_put_def c_drop_def empty_cache_def)

lemma values_of_find: "cache_ok c \<Longrightarrow> set E \<subseteq> set (c_get c) \<Longrightarrow> k \<in> fst ` set E \<Longrightarrow> c_find k c = Some (Some y) \<Longrightarrow> (k, y) \<in> set (values_of E)"
proof -
  assume c: "cache_ok c" "set E \<subseteq> set (c_get c)" "k \<in> fst ` set E" "c_find k c = Some (Some y)"
  then obtain x where x: "(k, x) \<in> set E" by auto
  with c(1,2) have "map_of (c_get c) k = Some x" by (intro map_of_is_SomeI) (auto simp: cache_ok_def)
  with c(4) x show ?thesis by (force simp: c_find_def values_of_def)
qed

lemma set_result_evicts:
  assumes "cache_ok c" "set_result mode e c ret ds c'"
  shows "\<exists>E. data_pairs ds = values_of E \<and> set E \<subseteq> set (c_get c) \<and> (c' = c_put e E c \<or> c' = c_drop E c)"
proof -
  have o: "set (c_order mode c) = set (c_get c)" using assms(1) by (simp add: cache_ok_def c_order_def)
  have "set E \<subseteq> set (c_get c)" if "others (fst e) (c_order mode c) = kept @ rev E" for kept E
  proof -
    have "set E \<subseteq> set (others (fst e) (c_order mode c))" unfolding that by simp
    then show ?thesis using o by (auto simp: others_def)
  qed
  with assms(2) o show ?thesis unfolding set_result_def by blast
qed

text \<open>The key whose record an operation replaces or deletes.\<close>

fun op_key :: "hm_op \<Rightarrow> byte list option" where
  "op_key (OpSet now k x d) = Some k"
| "op_key (OpSetKey now k) = Some k"
| "op_key (OpDel k) = Some k"
| "op_key _ = None"

lemma set_keeps:
  assumes "cache_ok c" "set_result mode e c ret ds c'" "c_find k c = Some (Some y)" "k \<noteq> fst e"
  shows "c_find k c' = Some (Some y) \<or> (k, y) \<in> set (data_pairs ds)"
proof -
  from set_result_evicts[OF assms(1,2)] obtain E where E: "data_pairs ds = values_of E" "set E \<subseteq> set (c_get c)"
    "c' = c_put e E c \<or> c' = c_drop E c" by blast
  show ?thesis
  proof (cases "k \<in> fst ` set E")
    case True
    then show ?thesis using values_of_find[OF assms(1) E(2) _ assms(3)] E(1) by simp
  next
    case False
    then show ?thesis using E(3) assms(3,4) by (elim disjE) simp_all
  qed
qed

lemma step_keeps:
  assumes "cache_step mode op (ret, w, ds) c c'" "cache_ok c" "c_find k c = Some (Some y)" "op_key op \<noteq> Some k"
  shows "c_find k c' = Some (Some y) \<or> (k, y) \<in> set (data_pairs ds)"
  using assms(1)
proof cases
  case (step_set k' x d now)
  then show ?thesis using set_keeps[OF assms(2) step_set(3) assms(3)] assms(4) by simp
next
  case (step_set_key k' now)
  then show ?thesis using set_keeps[OF assms(2) step_set_key(3) assms(3)] assms(4) by simp
next
  case (step_erase newer e d radio chk)
  then show ?thesis using assms(3) by (auto simp: hands_out_def data_pairs_def)
qed (use assms(3,4) in auto)


lemma step_ok: "hm_abs hf mode s c \<Longrightarrow> op_ok op \<Longrightarrow> hm_apply hf op s = Inr (r, s') \<Longrightarrow> \<exists>c'. hm_abs hf mode s' c' \<and> cache_step mode op r c c'"
  using hm_apply_step[of hf mode s c op] by auto

text \<open>All records that a run hands out.\<close>

definition handed_out :: "hm_out list \<Rightarrow> (byte list \<times> byte list) list" where
  "handed_out rs = concat (List.map (\<lambda>(ret, w, ds). data_pairs ds) rs)"

lemma handed_out_simps [simp]: "handed_out [] = []" "handed_out ((ret, w, ds) # rs) = data_pairs ds @ handed_out rs"
  by (simp_all add: handed_out_def)

lemma run_keeps:
  "hm_abs hf mode s c \<Longrightarrow> \<forall>op\<in>set ops. op_ok op \<and> op_key op \<noteq> Some k \<Longrightarrow> c_find k c = Some (Some y) \<Longrightarrow>
   \<exists>rs s' c'. hm_run hf ops s = Inr (rs, s') \<and> hm_abs hf mode s' c' \<and>
     (c_find k c' = Some (Some y) \<or> (k, y) \<in> set (handed_out rs))"
proof (induction ops arbitrary: s c)
  case Nil
  then show ?case by auto
next
  case (Cons op ops)
  have o: "op_ok op" "op_key op \<noteq> Some k" "\<forall>op\<in>set ops. op_ok op \<and> op_key op \<noteq> Some k" "\<forall>op\<in>set ops. op_ok op"
    using Cons.prems(2) by simp_all
  from hm_apply_step[OF Cons.prems(1) o(1)] obtain ret w ds s1 c1 where
    s1: "hm_apply hf op s = Inr ((ret, w, ds), s1)" "hm_abs hf mode s1 c1" "cache_step mode op (ret, w, ds) c c1" by (metis prod_cases3)
  from step_keeps[OF s1(3) hm_abs_ok[OF Cons.prems(1)] Cons.prems(3) o(2)] show ?case
  proof
    assume "c_find k c1 = Some (Some y)"
    from Cons.IH[OF s1(2) o(3) this] obtain rs s2 c2 where s2: "hm_run hf ops s1 = Inr (rs, s2)" "hm_abs hf mode s2 c2"
      "c_find k c2 = Some (Some y) \<or> (k, y) \<in> set (handed_out rs)" by blast
    have "hm_run hf (op # ops) s = Inr ((ret, w, ds) # rs, s2)" by (simp add: s1(1) s2(1))
    with s2(2,3) show ?case by auto
  next
    assume out: "(k, y) \<in> set (data_pairs ds)"
    from hm_run_steps[OF s1(2) o(4)] obtain rs s2 c2 where s2: "hm_run hf ops s1 = Inr (rs, s2)" "hm_abs hf mode s2 c2" by blast
    have "hm_run hf (op # ops) s = Inr ((ret, w, ds) # rs, s2)" by (simp add: s1(1) s2(1))
    with s2(2) out show ?case by auto
  qed
qed

section \<open>A small map\<close>

text \<open>A map with 13 blocks of 85 bytes and 17 buckets, on memory that was all 0.\<close>

lemma small_map:
  obtains s where "hm_create (\<lambda>n. n) True (\<lambda>n. 100) (\<lambda>n. 4) 10 10 2000 (replicate 2000 0) zero_memory = Inr s"
    "create_ok 10 2000 (replicate 2000 0) zero_memory s" "has_room 13 (hm_alloc s)"
proof -
  have n: "getMinPrimeNumber (\<lambda>n. 4) 17 = Some 17"
    by (subst getMinPrimeNumber.simps) (simp add: isPrimeNumber_def upt_rec)
  let ?v = "\<lparr>mv_iSize = 228, mv_iBlockCount = 17, mv_iBlockSize = 12\<rparr>"
  have v: "mv_create 12 228 = Inr ?v" by (simp add: mv_create_def mv_head_size_def)
  have off: "data_offset ?v = 766" by (simp add: data_offset_def map_head_size_def hm_modify_head_size_def)
  have calc: "calc (\<lambda>n. n) 1234 85 85 = Inr ([85], 13)"
    by (simp add: calc_def Let_def size_steps.simps multi_head_size_def ca_head_size_def chunk_head_size_def)
  have d: "1234 \<le> length (replicate 1234 (0 :: byte))" by simp
  from multi_create_ok[OF calc _ _ d, of 766] obtain m where m: "multi_create (\<lambda>n. n) True 766 1234 85 85 (replicate 1234 0) = Inr m"
    "multi_inv m" "multi_total m = 13" "multi_free m = {1..multi_total m}" "m_pHead m = 766" by auto
  obtain s where s: "hm_create (\<lambda>n. n) True (\<lambda>n. 100) (\<lambda>n. 4) 10 10 2000 (replicate 2000 0) zero_memory = Inr s"
    "hm_alloc s = m" "hm_hash s = ?v"
    using m(1) by (simp add: hm_create_def Let_def hash_item_size_def map_head_size_def hm_modify_head_size_def multi_head_size_def
      block_head_size_def ca_head_size_def n mv_calcMemSize_def mv_head_size_def v off)
  have "multi_getBlockSize m = [85]" using m(1) calc by (auto simp: multi_create_def split: if_splits)
  then have "has_room 13 m"
    using m pool_created[OF m(2,4)] total_count[OF m(2)] by (simp add: has_room_def pool_ok_def pool_size_ok_def min_block_def)
  with s show thesis
    by (intro that[of s]) (simp_all add: create_ok_def zero_memory_def off block_head_size_def)
qed

section \<open>Properties\<close>

text \<open>
  C1. \<open>TC_HashMap\<close> refines the cache: on memory just created, any sequence of \<open>set\<close>, \<open>get\<close>,
  \<open>del\<close>, \<open>checkDirty\<close>, \<open>setDirty\<close>, \<open>setClean\<close>, \<open>setDirtyAfterSync\<close>, \<open>erase\<close>, \<open>sync\<close> and \<open>backup\<close>
  runs without a failed assertion, an access outside a block in use or a loop that does not end,
  and does step by step what the cache does: what \<open>get\<close> returns, which record is in front,
  which records go when memory is short (the oldest of the order of the erase mode), and that
  the values of these are handed out.
\<close>

theorem hash_map_refines_cache:
  assumes "hm_create grow True radio root minD maxD iSize d r = Inr s" "create_ok maxD iSize d r s" "\<forall>op\<in>set ops. op_ok op"
  shows "\<exists>rs s' c. hm_run hf ops s = Inr (rs, s') \<and> cache_run 0 ops rs empty_cache c \<and> hm_abs hf 0 s' c"
  by (rule hm_run_steps[OF hm_create_cache[OF assms(1,2)] assms(3)])

lemma hash_map_refines_cache_witness:
  "\<exists>s rs s' c. hm_create (\<lambda>n. n) True (\<lambda>n. 100) (\<lambda>n. 4) 10 10 2000 (replicate 2000 0) zero_memory = Inr s \<and>
    hm_run length [OpSet 5 [1, 2] [7] True, OpGet [1, 2], OpErase 0 False, OpDel [1, 2]] s = Inr (rs, s') \<and>
    cache_run 0 [OpSet 5 [1, 2] [7] True, OpGet [1, 2], OpErase 0 False, OpDel [1, 2]] rs empty_cache c \<and> hm_abs length 0 s' c"
proof -
  obtain s where s: "hm_create (\<lambda>n. n) True (\<lambda>n. 100) (\<lambda>n. 4) 10 10 2000 (replicate 2000 0) zero_memory = Inr s"
    "create_ok 10 2000 (replicate 2000 0) zero_memory s" by (rule small_map)
  from hash_map_refines_cache[OF s, of "[OpSet 5 [1, 2] [7] True, OpGet [1, 2], OpErase 0 False, OpDel [1, 2]]" length] s(1)
  show ?thesis by simp
qed

text \<open>
  C3. A record that fits is stored: where the allocator has a free block for the record and each
  of its bytes, \<open>set\<close> succeeds and hands out nothing, \<open>get\<close> then returns the value, and every
  other record with a value is still there.
\<close>

theorem set_with_room:
  assumes "hm_abs hf mode s c" "length k < 2 ^ 32" "length x < 2 ^ 32"
    and "has_room (Suc (length (put_string x (put_string k [])))) (hm_alloc s)"
  shows "\<exists>s' c'. hm_set hf now k x b vt s = Inr (RT_OK, vt, s') \<and> hm_abs hf mode s' c' \<and>
    (\<exists>t' s''. hm_get hf k w t s' = Inr (RT_OK, x, t', s'')) \<and>
    (\<forall>j y. j \<noteq> k \<and> c_find j c = Some (Some y) \<longrightarrow> c_find j c' = Some (Some y))"
proof -
  have e: "entry_ok (k, Some x)" using assms(2,3) by (simp add: entry_ok_def)
  have enc: "enc (k, Some x) = put_string x (put_string k [])" by (simp add: enc_def)
  from hm_set_cache[OF assms(1) e, of now b vt] obtain ret ds s' c' where
    s': "hm_set hf now k x b vt s = Inr (ret, vt @ ds, s')" "hm_abs hf mode s' c'" "set_result mode (k, Some x) c ret ds c'" by blast
  have "ret = RT_OK \<and> vt @ ds = vt" by (rule hm_set_room[OF assms(1) _ s'(1)]) (use assms(4) enc in simp)
  then have ok: "ret = RT_OK" "ds = []" by simp_all
  have k: "c_find k c' = Some (Some x)" using s'(3) ok by (auto simp: set_result_def)
  have others: "c_find j c' = Some (Some y)" if "j \<noteq> k" "c_find j c = Some (Some y)" for j y
    using set_keeps[OF hm_abs_ok[OF assms(1)] s'(3) that(2)] that(1) ok by (simp add: data_pairs_def)
  from hm_get_cache[OF s'(2), of k w t] k have "\<exists>t' s''. hm_get hf k w t s' = Inr (RT_OK, x, t', s'')" by (auto simp: found_rt_def)
  with s' ok others show ?thesis by auto
qed

lemma set_with_room_witness:
  "\<exists>s s' c'. hm_abs length 0 s empty_cache \<and> hm_set length 5 [1] [7] True [] s = Inr (RT_OK, [], s') \<and> hm_abs length 0 s' c' \<and>
    (\<exists>t' s''. hm_get length [1] [] 0 s' = Inr (RT_OK, [7], t', s''))"
proof -
  obtain s where s: "hm_create (\<lambda>n. n) True (\<lambda>n. 100) (\<lambda>n. 4) 10 10 2000 (replicate 2000 0) zero_memory = Inr s"
    "create_ok 10 2000 (replicate 2000 0) zero_memory s" "has_room 13 (hm_alloc s)" by (rule small_map)
  have room: "has_room (Suc (length (put_string [7] (put_string [1] [])))) (hm_alloc s)"
    by (rule has_room_less[OF s(3)]) code_simp
  from set_with_room[OF hm_create_cache[OF s(1,2)] _ _ room, of length 5 True "[]" "[]" 0] hm_create_cache[OF s(1,2), of length]
  show ?thesis by auto
qed


text \<open>
  C2. No record is lost: after a successful \<open>set\<close>, whatever operations follow that do not replace
  or delete the record, \<open>get\<close> returns its value or one of them has handed it out.
\<close>

theorem record_not_lost:
  assumes "hm_abs hf mode s c" "length k < 2 ^ 32" "length x < 2 ^ 32" "hm_set hf now k x b vt s = Inr (RT_OK, vt', s1)"
    and "\<forall>op\<in>set ops. op_ok op \<and> op_key op \<noteq> Some k"
  shows "\<exists>rs s2. hm_run hf ops s1 = Inr (rs, s2) \<and>
    ((\<exists>t' s3. hm_get hf k w t s2 = Inr (RT_OK, x, t', s3)) \<or> (k, x) \<in> set (handed_out rs))"
proof -
  have e: "entry_ok (k, Some x)" using assms(2,3) by (simp add: entry_ok_def)
  from hm_set_cache[OF assms(1) e, of now b vt] assms(4) obtain ds c1 where
    s1: "hm_abs hf mode s1 c1" "set_result mode (k, Some x) c RT_OK ds c1" by auto
  have k: "c_find k c1 = Some (Some x)" using s1(2) by (auto simp: set_result_def)
  from run_keeps[OF s1(1) assms(5) k] obtain rs s2 c2 where s2: "hm_run hf ops s1 = Inr (rs, s2)" "hm_abs hf mode s2 c2"
    "c_find k c2 = Some (Some x) \<or> (k, x) \<in> set (handed_out rs)" by blast
  from hm_get_cache[OF s2(2), of k w t] have "c_find k c2 = Some (Some x) \<Longrightarrow> \<exists>t' s3. hm_get hf k w t s2 = Inr (RT_OK, x, t', s3)"
    by (auto simp: found_rt_def)
  with s2(1,3) show ?thesis by blast
qed

lemma record_not_lost_witness:
  "\<exists>s s1 rs s2. hm_abs length 0 s empty_cache \<and> hm_set length 5 [1] [7] True [] s = Inr (RT_OK, [], s1) \<and>
    hm_run length [OpSet 6 [2] [8] False, OpErase 1 False] s1 = Inr (rs, s2) \<and>
    ((\<exists>t' s3. hm_get length [1] [] 0 s2 = Inr (RT_OK, [7], t', s3)) \<or> ([1], [7]) \<in> set (handed_out rs))"
proof -
  obtain s where s: "hm_create (\<lambda>n. n) True (\<lambda>n. 100) (\<lambda>n. 4) 10 10 2000 (replicate 2000 0) zero_memory = Inr s"
    "create_ok 10 2000 (replicate 2000 0) zero_memory s" "has_room 13 (hm_alloc s)" by (rule small_map)
  have a: "hm_abs length 0 s empty_cache" by (rule hm_create_cache[OF s(1,2)])
  have e: "entry_ok ([1], Some [7])" by (simp add: entry_ok_def)
  have room: "has_room (Suc (length (enc ([1], Some [7])))) (hm_alloc s)" by (rule has_room_less[OF s(3)]) code_simp
  from hm_set_cache[OF a e, of 5 True "[]"] obtain ret ds s1 where s1: "hm_set length 5 [1] [7] True [] s = Inr (ret, ds, s1)" by auto
  with hm_set_room[OF a room, of 5 True "[]"] have "hm_set length 5 [1] [7] True [] s = Inr (RT_OK, [], s1)" by auto
  from record_not_lost[OF a _ _ this, of "[OpSet 6 [2] [8] False, OpErase 1 False]" "[]" 0] a this
  show ?thesis by fastforce
qed

text \<open>
  \<open>erase(radio)\<close>: while the share of the blocks in use is below \<open>radio\<close> percent, or the map is
  empty, nothing happens. Else the record that was not read for the longest time goes and is
  handed out, or, if dirty records are to be kept and it is dirty, it is put in front.
\<close>

lemma erase_takes_oldest:
  assumes "hm_abs hf mode s c"
  shows "\<exists>ret d' s'. hm_erase radio d chk s = Inr (ret, d', s') \<and>
    (if c_get c = [] \<or> hm_iUsedChunk s * 100 < nat (max 1 (min 100 radio)) * allBlockChunkCount (hm_alloc s)
     then ret = RT_OK \<and> hm_abs hf mode s' c else erases hf mode chk c ret d' s')"
  by (rule hm_erase_cache[OF assms])

lemma erase_takes_oldest_witness:
  "\<exists>s ret d s'. hm_abs length 0 s empty_cache \<and> hm_erase 50 new_data False s = Inr (ret, d, s') \<and> ret = RT_OK \<and> hm_abs length 0 s' empty_cache"
proof -
  obtain s where s: "hm_create (\<lambda>n. n) True (\<lambda>n. 100) (\<lambda>n. 4) 10 10 2000 (replicate 2000 0) zero_memory = Inr s"
    "create_ok 10 2000 (replicate 2000 0) zero_memory s" by (rule small_map)
  have a: "hm_abs length 0 s empty_cache" by (rule hm_create_cache[OF s])
  from erase_takes_oldest[OF a, of 50 new_data False] a show ?thesis by (auto simp: empty_cache_def)
qed

end
