(* ===== verification/Spec2Isabelle.thy ===== *)
theory Spec2Isabelle
  imports Base64 Load_Test Tea Md5 Des Mem_Queue SQueue Thread_Queue Mem_Multi Bitmap Parsepara Config_Text Url Http_Request Http_Cookie Send_Http Hash_Run
begin

text \<open>
  A verification development for test_frame, a load-test framework and the library it is built
  on. Each theory models one part of the source (src/src for the framework, src/tcinclude for
  the library) and proves what makes that part correct.

  \<^bold>\<open>The program.\<close> \<open>main\<close> (src/testexample.cpp) reads a JSON configuration (\<open>LoadTestConfig\<close>,
  src/loadConfig.cpp), builds a test case whose \<open>Execute\<close> sends one request with a \<open>Client\<close>
  (src/Client.cpp) and judges the reply, and hands it to \<open>TestFrame\<close> (src/testframe.cpp): a
  number of threads call \<open>Execute\<close> until a repeat count, a frequency or a time is used up, and
  the main thread prints statistics (\<open>CCalculator\<close>, \<open>Synch\<close>). The library offers encodings,
  ciphers and digests, queues, allocators and a hash map over shared memory, packages,
  configuration, strings, URLs and HTTP.

  \<^bold>\<open>How the model is written.\<close> A C++ class is a record of its fields, an enumeration a
  datatype, a method a function on the record with the guards and early returns of the code.
  \<open>unsigned\<close> arithmetic is on words, or on natural numbers with the modulus written out where
  it can wrap. An operation that can fail has the type \<open>result\<close> of \<open>Prelude\<close>: an assertion, an
  access outside an object, or a thrown exception. \<open>std::string\<close> is \<open>string\<close>, \<open>std::map\<close> a
  sorted association list (\<open>Std_String\<close>), shared memory a list of bytes (\<open>Memory\<close>). Loops are
  recursive functions with a termination proof; where the code may not return, the function is
  partial (\<open>Common.replace_loop\<close>) or answers \<open>None\<close> for waiting (\<open>Client\<close>, \<open>Http.receive\<close>).
  The loops of the hash map along lists and chains in memory have a bound, \<open>Hm_Block.loop_limit\<close>:
  one more than the number of all blocks, which no list exceeds; a run past it is the error
  \<open>LoopLimit\<close>, and the properties show that it never happens. Threads are a step function on program counters, and the properties of the
  framework hold for every interleaving (\<open>Test_Frame\<close>).

  \<^bold>\<open>Parameters.\<close> What is not in the source is an argument: \<open>rand\<close> in the padding of \<open>Tea\<close>, the
  pieces in which \<open>fread\<close> gives a file (\<open>Md5\<close>, \<open>Bitmap\<close>), the clock and \<open>timegm\<close>
  (\<open>Test_Frame\<close>, \<open>Http_Cookie\<close>), the functions of json-c (\<open>Load_Test\<close>), what the system calls
  of a socket answer (\<open>Client\<close>), the product of a \<open>size_t\<close> and a \<open>float\<close> (\<open>Mem_Multi\<close>,
  \<open>Hash_Map\<close>), the hash functor and \<open>time\<close> (\<open>Hash_Map\<close>).

  \<^bold>\<open>Theories and what their lemmas show.\<close>

  \<^item> \<open>Prelude\<close>, \<open>Memory\<close>, \<open>Std_String\<close>: errors, bytes, \<open>memcpy\<close>, string searches, maps.
  \<^item> \<open>Test_Frame\<close>, \<open>Statistic\<close>: the worker threads, the barrier, the counters, the lock and the
    statistics: repeat counts are exact, frequencies bound the rate, the lock excludes and is
    released; what a late thread misses at the barrier.
  \<^item> \<open>Load_Test\<close>, \<open>Client\<close>, \<open>Send_Http\<close>: configuration, test case and client; \<open>Load_Test\<close>
    connects them with \<open>Test_Frame\<close>: the program executes its request as often as configured.
  \<^item> \<open>Base64\<close>, \<open>Md5\<close>, \<open>Block_Cipher\<close>, \<open>Tea\<close>, \<open>Des\<close>: round trips, the digest of RFC 1321, and
    safety of all buffers. The interfaces \<open>block_cipher\<close> and \<open>chained_mode\<close> carry the proofs
    about chaining for both ciphers.
  \<^item> \<open>Ring\<close>, \<open>Mem_Queue\<close>, \<open>SQueue\<close>, \<open>Thread_Queue\<close>: three queues that implement one interface
    of first-in first-out queues; the journal of \<open>Mem_Queue\<close> makes its operations atomic under
    a crash between any two stores.
  \<^item> \<open>Mem_Chunk\<close>, \<open>Mem_Multi\<close>, \<open>Bitmap\<close>: allocators over shared memory implement the
    interface \<open>block_allocator\<close>; bitmaps implement sets.
  \<^item> \<open>Common\<close>, \<open>Parsepara\<close>, \<open>Config\<close>, \<open>Config_Text\<close>: numbers, splitting, replacement, patterns,
    parameter strings, command lines, and the tree of a configuration file with its reader
    and printer.
  \<^item> \<open>Url\<close>, \<open>Http\<close>, \<open>Http_Request\<close>, \<open>Http_Cookie\<close>: URLs and paths, responses and requests in
    pieces, of known length and in chunks, and where cookies go.

  \<^item> \<open>Pack\<close>: packing and unpacking of values. \<open>Pool\<close>: the blocks of \<open>Mem_Multi\<close> by address, the
    interface \<open>address_allocator\<close>. \<open>Linked\<close>: doubly linked lists in memory.
  \<^item> \<open>Hm_State\<close>, \<open>Hm_Block\<close>, \<open>Hash_Map\<close>: \<open>TC_HashMap\<close> (tc_hashmap.cpp): the fields in memory with
    their journal, the blocks and their chunks, lists and buckets, the operations. A field is a
    location \<open>loc\<close> of one memory \<open>mem\<close>, a record a chain of blocks of the allocator.
  \<^item> \<open>Hm_Lists\<close>, \<open>Hm_Inv\<close>, \<open>Hm_Steps\<close>, \<open>Hm_New\<close>, \<open>Hm_Refresh\<close>: the invariant of the memory, whose
    ghost \<open>shape\<close> names the lists, and that each transaction keeps it. \<open>Hm_Keys\<close>: what the records
    hold, and searches. \<open>Hm_Evict\<close>, \<open>Hm_Alloc\<close>, \<open>Hm_Chain\<close>, \<open>Hm_Fit\<close>, \<open>Hm_Write\<close>, \<open>Hm_Store\<close>:
    eviction, and storing a record while others are evicted. \<open>Hash_Cache\<close>, \<open>Hm_Room\<close>, \<open>Hash_Run\<close>:
    the map is a cache of records in two orders; every sequence of operations does what the cache
    does, no record is lost silently, and where there is room a record is stored.

  \<^bold>\<open>Not modelled.\<close> Markup is third-party code. Files, sockets, shared memory, semaphores,
  threads and their locks (tc_file, tc_socket, tc_clientsocket, tc_epoller, tc_fifo, tc_shm,
  tc_sem_mutex, tc_thread*, tc_monitor, tc_lock, tc_atomic) are calls of the system and of
  pthreads; tc_loki, tc_functor, tc_singleton, tc_autoptr, tc_dyn_object and tc_ex are templates
  without behaviour of their own. tc_logger, tc_timeprovider, tc_http_async, tc_thread_pool,
  tc_encoder and tc_cgi drive such calls. Of the structures in shared memory tc_hashmap_compact
  and tc_multi_hashmap are variants of the hash map modelled here; dump and load of a map to a
  file, tc_rbtree, tc_malloc_chunk, tc_json, tc_consistent_hash and tc_timeout_queue are not
  modelled.
\<close>

end
